(* ===== verification/Prelude.thy ===== *)
theory Prelude
  imports Main "HOL-Library.Word"
begin

text \<open>
  Shared vocabulary of the development. It fixes how the C++ kernel's machine is
  rendered in HOL:

  \<^item> fixed-width integers are words (\<open>u8\<close>, \<open>u16\<close>, \<open>u32\<close>, \<open>u64\<close>); an \<open>int\<close> whose
    range is bounded by an invariant of its component is an \<^typ>\<open>int\<close>;
  \<^item> everything that stops the kernel (a failed \<open>AEX_ASSERT\<close>, a \<open>kpanic\<close>, an access
    outside an allocation, spinning on a lock the caller holds) is a \<open>fault\<close>, and an operation that can stop the kernel
    returns \<open>'a res\<close>: either the fault or the result;
  \<^item> \<open>res_bind\<close> sequences such operations the way statements follow one another.
\<close>

type_synonym u8 = "8 word"
type_synonym u16 = "16 word"
type_synonym u32 = "32 word"
type_synonym u64 = "64 word"

datatype fault =
    OutOfBounds
  | AssertFailed
  | KPanic
  | NullDeref
  | Deadlock

type_synonym 'a res = "fault + 'a"

definition res_bind :: "'a res \<Rightarrow> ('a \<Rightarrow> 'b res) \<Rightarrow> 'b res" where
  "res_bind m f = (case m of Inl e \<Rightarrow> Inl e | Inr x \<Rightarrow> f x)"

definition res_assert :: "bool \<Rightarrow> unit res" where
  "res_assert b = (if b then Inr () else Inl AssertFailed)"

lemma res_bind_simps [simp]:
  "res_bind (Inl e) f = Inl e"
  "res_bind (Inr x) f = f x"
  by (simp_all add: res_bind_def)

lemma res_bind_Inr_iff:
  "res_bind m f = Inr y \<longleftrightarrow> (\<exists>x. m = Inr x \<and> f x = Inr y)"
  by (cases m) auto

lemma res_bind_assoc: "res_bind (res_bind m f) g = res_bind m (\<lambda>x. res_bind (f x) g)"
  by (cases m) auto

lemma res_assert_simps [simp]:
  "res_assert True = Inr ()"
  "res_assert False = Inl AssertFailed"
  "res_assert b = Inr u \<longleftrightarrow> b"
  by (auto simp: res_assert_def)

text \<open>
  Collections of facts the component theories add to: \<open>circ_defs\<close> unfolds the position
  arithmetic of the circular buffer, \<open>bitmap_simps\<close> normalises bitmap reads.
\<close>

named_theorems circ_defs
named_theorems bitmap_simps

subsection \<open>Words\<close>

lemma unat_less_2p: "unat (w :: 'b::len word) < 2 ^ LENGTH('b)"
  by (rule unsigned_less)

lemma unat_ucast_mod: "unat (ucast w :: 'b::len word) = unat w mod 2 ^ LENGTH('b)"
  by (simp add: unsigned_ucast_eq take_bit_eq_mod)

lemma unat_word_of_int_small:
  "0 \<le> i \<Longrightarrow> i < 2 ^ LENGTH('b) \<Longrightarrow> unat (word_of_int i :: 'b::len word) = nat i"
  by (simp add: unat_eq_nat_uint uint_word_of_int)

subsection \<open>Lists as arrays\<close>

lemma take_Suc_update [simp]:
  "i < length xs \<Longrightarrow> take (Suc i) (xs[i := v]) = take i xs @ [v]"
  by (simp add: take_Suc_conv_app_nth)

lemma take_Suc_drop:
  "i < length xs \<Longrightarrow> take (Suc n) (drop i xs) = xs ! i # take n (drop (Suc i) xs)"
  by (simp add: Cons_nth_drop_Suc [symmetric])

end
