(* ===== verification/CString.thy ===== *)
theory CString
  imports Prelude
begin

text \<open>
  The kernel's own string and memory routines (\<open>kernel/string.cpp\<close>) and the number
  conversions of \<open>include/aex/string.hpp\<close>.

  Memory is a list of cells; an index outside the list is \<open>OutOfBounds\<close>. The loops are
  the source's: \<open>memcpy\<close> copies one cell after the other in ascending order, so the
  same definition, run with source and destination in one array (\<open>memcpy_within\<close>),
  shows what an overlapping copy does. A C string is an HOL string without NUL; the
  terminator is the cell after its last character, and reading past it is a fault.
\<close>

subsection \<open>Cells\<close>

definition cell_get :: "'a list \<Rightarrow> nat \<Rightarrow> 'a res" where
  "cell_get m i = (if i < length m then Inr (m ! i) else Inl OutOfBounds)"

definition cell_set :: "'a list \<Rightarrow> nat \<Rightarrow> 'a \<Rightarrow> 'a list res" where
  "cell_set m i v = (if i < length m then Inr (m[i := v]) else Inl OutOfBounds)"

lemma cell_get_simps [simp]:
  "i < length m \<Longrightarrow> cell_get m i = Inr (m ! i)"
  "\<not> i < length m \<Longrightarrow> cell_get m i = Inl OutOfBounds"
  by (simp_all add: cell_get_def)

lemma cell_set_simps [simp]:
  "i < length m \<Longrightarrow> cell_set m i v = Inr (m[i := v])"
  "\<not> i < length m \<Longrightarrow> cell_set m i v = Inl OutOfBounds"
  by (simp_all add: cell_set_def)

subsection \<open>memset, memcpy, memcmp\<close>

text \<open>The loops \<open>for (i = 0; i < len; i++)\<close> run with the cells still to go as their
  structural argument.\<close>

fun memset_loop :: "'a list \<Rightarrow> nat \<Rightarrow> 'a \<Rightarrow> nat \<Rightarrow> 'a list res" where
  "memset_loop m i c 0 = Inr m"
| "memset_loop m i c (Suc n) = res_bind (cell_set m i c) (\<lambda>m'. memset_loop m' (Suc i) c n)"

definition memset :: "'a list \<Rightarrow> nat \<Rightarrow> 'a \<Rightarrow> nat \<Rightarrow> 'a list res" where
  "memset m at c len = memset_loop m at c len"

fun memcpy_loop :: "'a list \<Rightarrow> nat \<Rightarrow> 'a list \<Rightarrow> nat \<Rightarrow> nat \<Rightarrow> 'a list res" where
  "memcpy_loop d di s si 0 = Inr d"
| "memcpy_loop d di s si (Suc n) =
     res_bind (cell_get s si) (\<lambda>v.
     res_bind (cell_set d di v) (\<lambda>d'. memcpy_loop d' (Suc di) s (Suc si) n))"

definition memcpy :: "'a list \<Rightarrow> nat \<Rightarrow> 'a list \<Rightarrow> nat \<Rightarrow> nat \<Rightarrow> 'a list res" where
  "memcpy dst dst_at src src_at num = memcpy_loop dst dst_at src src_at num"

fun memcpy_within :: "'a list \<Rightarrow> nat \<Rightarrow> nat \<Rightarrow> nat \<Rightarrow> 'a list res" where
  "memcpy_within m di si 0 = Inr m"
| "memcpy_within m di si (Suc n) =
     res_bind (cell_get m si) (\<lambda>v.
     res_bind (cell_set m di v) (\<lambda>m'. memcpy_within m' (Suc di) (Suc si) n))"

fun memcmp_loop :: "u8 list \<Rightarrow> u8 list \<Rightarrow> nat \<Rightarrow> nat \<Rightarrow> int res" where
  "memcmp_loop a b i 0 = Inr 0"
| "memcmp_loop a b i (Suc n) =
     res_bind (cell_get a i) (\<lambda>x. res_bind (cell_get b i) (\<lambda>y.
       if x < y then Inr (-1) else if x > y then Inr 1 else memcmp_loop a b (Suc i) n))"

definition memcmp :: "u8 list \<Rightarrow> u8 list \<Rightarrow> nat \<Rightarrow> int res" where
  "memcmp a b num = memcmp_loop a b 0 num"

lemma memset_spec:
  "at + len \<le> length m \<Longrightarrow>
     memset m at c len = Inr (take at m @ replicate len c @ drop (at + len) m)"
proof -
  have "at + len \<le> length m \<Longrightarrow>
     memset_loop m at c len = Inr (take at m @ replicate len c @ drop (at + len) m)"
  proof (induction len arbitrary: m at)
    case 0
    then show ?case by simp
  next
    case (Suc n)
    then have "memset_loop (m[at := c]) (Suc at) c n =
        Inr (take (Suc at) (m[at := c]) @ replicate n c @ drop (Suc at + n) (m[at := c]))"
      by (intro Suc.IH) simp
    with Suc.prems show ?case
      by (simp add: drop_update_cancel)
  qed
  then show "at + len \<le> length m \<Longrightarrow> ?thesis" by (simp add: memset_def)
qed

lemma memcpy_loop_spec:
  "si + n \<le> length s \<Longrightarrow> di + n \<le> length d \<Longrightarrow>
     memcpy_loop d di s si n = Inr (take di d @ take n (drop si s) @ drop (di + n) d)"
proof (induction n arbitrary: d di si)
  case 0
  then show ?case by simp
next
  case (Suc n)
  have "memcpy_loop (d[di := s ! si]) (Suc di) s (Suc si) n =
      Inr (take (Suc di) (d[di := s ! si]) @ take n (drop (Suc si) s) @
           drop (Suc di + n) (d[di := s ! si]))"
    using Suc.prems by (intro Suc.IH) simp_all
  with Suc.prems show ?case
    by (simp add: take_Suc_drop drop_update_cancel)
qed

lemma memcpy_spec:
  "src_at + n \<le> length src \<Longrightarrow> dst_at + n \<le> length dst \<Longrightarrow>
     memcpy dst dst_at src src_at n =
       Inr (take dst_at dst @ take n (drop src_at src) @ drop (dst_at + n) dst)"
  by (simp add: memcpy_def memcpy_loop_spec)

lemma memcpy_overrun:
  "si + n \<le> length s \<Longrightarrow> di \<le> length d \<Longrightarrow> length d < di + n \<Longrightarrow>
     memcpy_loop d di s si n = Inl OutOfBounds"
  by (induction n arbitrary: d di si) (auto simp: cell_set_def)

lemma memcpy_length: "memcpy_loop d di s si n = Inr d' \<Longrightarrow> length d' = length d"
  by (induction n arbitrary: d di si)
     (auto simp: res_bind_Inr_iff cell_set_def split: if_splits)

text \<open>An overlapping copy towards lower addresses, as \<open>Vector::erase\<close> makes it, is a
  shift: ascending order never reads a cell it has already overwritten.\<close>

lemma memcpy_within_down:
  "di < si \<Longrightarrow> si + n \<le> length m \<Longrightarrow>
     memcpy_within m di si n = Inr (take di m @ take n (drop si m) @ drop (di + n) m)"
proof (induction n arbitrary: m di si)
  case 0
  then show ?case by simp
next
  case (Suc n)
  let ?m = "m[di := m ! si]"
  have "memcpy_within ?m (Suc di) (Suc si) n =
      Inr (take (Suc di) ?m @ take n (drop (Suc si) ?m) @ drop (Suc di + n) ?m)"
    using Suc.prems by (intro Suc.IH) simp_all
  moreover have "drop (Suc si) ?m = drop (Suc si) m"
    using Suc.prems by (simp add: drop_update_cancel)
  moreover have "drop (Suc (di + n)) ?m = drop (Suc (di + n)) m"
    by (simp add: drop_update_cancel)
  ultimately show ?case
    using Suc.prems by (simp add: take_Suc_drop)
qed

lemma memcmp_loop_zero_iff:
  "i + n \<le> length a \<Longrightarrow> i + n \<le> length b \<Longrightarrow>
     memcmp_loop a b i n = Inr 0 \<longleftrightarrow> take n (drop i a) = take n (drop i b)"
proof (induction n arbitrary: i)
  case 0
  then show ?case by simp
next
  case (Suc n)
  then show ?case by (auto simp: take_Suc_drop)
qed

lemma memcmp_eq_iff:
  "length a = n \<Longrightarrow> length b = n \<Longrightarrow> memcmp a b n = Inr 0 \<longleftrightarrow> a = b"
  by (simp add: memcmp_def memcmp_loop_zero_iff)

lemma memcmp_total: "length a = n \<Longrightarrow> length b = n \<Longrightarrow> \<exists>r. memcmp a b n = Inr r"
proof -
  have "i + k \<le> length a \<Longrightarrow> i + k \<le> length b \<Longrightarrow> \<exists>r. memcmp_loop a b i k = Inr r" for i k
    by (induction k arbitrary: i) auto
  then show "length a = n \<Longrightarrow> length b = n \<Longrightarrow> ?thesis" by (simp add: memcmp_def)
qed

end
