(* ===== verification/Event.thy ===== *)
theory Event
  imports Prelude
begin

text \<open>
  Events (\<open>ipc/event.cpp\<close>): a queue of waiting threads. \<open>wait\<close> puts the calling thread on
  the queue once and parks it, \<open>raise\<close> makes every queued thread runnable and empties the
  queue, \<open>defunct\<close> does the same and refuses later waits. \<open>SimpleEvent\<close> holds at most one
  thread. A thread is a number; the fields of \<open>Thread\<close> the event touches are a record, and
  the table of threads is a function. Each operation holds the event's spinlock for its
  whole body, so it is one atomic step; what follows the release (\<open>Thread::yield\<close>) hands
  the processor over and is the scheduler's.
\<close>

datatype status_t = TS_FRESH | TS_RUNNABLE | TS_SLEEPING | TS_BLOCKED | TS_DEAD

record thread =
  status :: status_t
  wakeup_at :: u64
  m_busy :: u16
  m_critical :: u16

type_synonym tid = nat
type_synonym threads = "tid \<Rightarrow> thread"

record event =
  m_tiddies :: "tid list"
  m_defunct :: bool

record simple_event =
  m_tiddie :: "tid option"
  s_defunct :: bool

definition new_event :: event where
  "new_event = \<lparr>m_tiddies = [], m_defunct = False\<rparr>"

definition setStatus :: "status_t \<Rightarrow> 'a thread_scheme \<Rightarrow> 'a thread_scheme res" where
  "setStatus st t =
     (if st = TS_DEAD \<and> \<not> m_busy t \<le> 1 then Inl AssertFailed else Inr (t\<lparr>status := st\<rparr>))"

text \<open>The queue part of \<open>wait\<close> and \<open>raise\<close>, shared with the components that own an event.\<close>

definition event_enqueue :: "tid \<Rightarrow> event \<Rightarrow> event" where
  "event_enqueue current e =
     (if m_defunct e \<or> current \<in> set (m_tiddies e) then e
      else e\<lparr>m_tiddies := m_tiddies e @ [current]\<rparr>)"

definition event_release :: "event \<Rightarrow> event" where
  "event_release e = e\<lparr>m_tiddies := []\<rparr>"

definition park :: "u64 \<Rightarrow> int \<Rightarrow> 'a thread_scheme \<Rightarrow> 'a thread_scheme" where
  "park uptime timeout t =
     (if timeout = 0 then t\<lparr>status := TS_BLOCKED\<rparr>
      else t\<lparr>status := TS_SLEEPING, wakeup_at := uptime + word_of_int timeout * 1000000\<rparr>)"

definition event_wait ::
    "u64 \<Rightarrow> tid \<Rightarrow> int \<Rightarrow> event \<Rightarrow> (tid \<Rightarrow> 'a thread_scheme) \<Rightarrow> event \<times> (tid \<Rightarrow> 'a thread_scheme)" where
  "event_wait uptime current timeout e ts =
     (if m_defunct e then (e, ts)
      else (event_enqueue current e, ts(current := park uptime timeout (ts current))))"

fun wake_all :: "tid list \<Rightarrow> (tid \<Rightarrow> 'a thread_scheme) \<Rightarrow> (tid \<Rightarrow> 'a thread_scheme) res" where
  "wake_all [] ts = Inr ts"
| "wake_all (t # rest) ts =
     res_bind (res_assert (status (ts t) \<noteq> TS_DEAD)) (\<lambda>_.
     res_bind (setStatus TS_RUNNABLE (ts t)) (\<lambda>th. wake_all rest (ts(t := th))))"

definition event_raise :: "event \<Rightarrow> (tid \<Rightarrow> 'a thread_scheme) \<Rightarrow> (int \<times> event \<times> (tid \<Rightarrow> 'a thread_scheme)) res" where
  "event_raise e ts =
     res_bind (wake_all (m_tiddies e) ts)
       (\<lambda>ts'. Inr (int (length (m_tiddies e)), event_release e, ts'))"

definition event_defunct :: "event \<Rightarrow> (tid \<Rightarrow> 'a thread_scheme) \<Rightarrow> (int \<times> event \<times> (tid \<Rightarrow> 'a thread_scheme)) res" where
  "event_defunct e ts =
     (let e' = e\<lparr>m_defunct := True\<rparr> in
      res_bind (wake_all (m_tiddies e') ts)
        (\<lambda>ts'. Inr (int (length (m_tiddies e')), event_release e', ts')))"

definition simple_wait ::
    "u64 \<Rightarrow> tid \<Rightarrow> int \<Rightarrow> simple_event \<Rightarrow> (tid \<Rightarrow> 'a thread_scheme) \<Rightarrow> (simple_event \<times> (tid \<Rightarrow> 'a thread_scheme)) res" where
  "simple_wait uptime current timeout e ts =
     (if s_defunct e then Inr (e, ts)
      else res_bind (res_assert (m_tiddie e = None)) (\<lambda>_.
        Inr (e\<lparr>m_tiddie := Some current\<rparr>, ts(current := park uptime timeout (ts current)))))"

definition simple_wake :: "tid option \<Rightarrow> (tid \<Rightarrow> 'a thread_scheme) \<Rightarrow> (tid \<Rightarrow> 'a thread_scheme) res" where
  "simple_wake w ts =
     (case w of None \<Rightarrow> Inr ts
      | Some t \<Rightarrow> res_bind (setStatus TS_RUNNABLE (ts t)) (\<lambda>th. Inr (ts(t := th))))"

definition simple_raise :: "simple_event \<Rightarrow> (tid \<Rightarrow> 'a thread_scheme) \<Rightarrow> (simple_event \<times> (tid \<Rightarrow> 'a thread_scheme)) res" where
  "simple_raise e ts =
     res_bind (simple_wake (m_tiddie e) ts) (\<lambda>ts'. Inr (e\<lparr>m_tiddie := None\<rparr>, ts'))"

definition simple_defunct :: "simple_event \<Rightarrow> (tid \<Rightarrow> 'a thread_scheme) \<Rightarrow> (simple_event \<times> (tid \<Rightarrow> 'a thread_scheme)) res" where
  "simple_defunct e ts =
     (let e' = e\<lparr>s_defunct := True\<rparr> in
      res_bind (simple_wake (m_tiddie e') ts) (\<lambda>ts'. Inr (e'\<lparr>m_tiddie := None\<rparr>, ts')))"

subsection \<open>Invariant and behaviour\<close>

text \<open>The queue holds a thread at most once, and a parked thread of this event that nobody
  has woken is on the queue.\<close>

definition event_wf :: "event \<Rightarrow> bool" where
  "event_wf e \<longleftrightarrow> distinct (m_tiddies e) \<and> (m_defunct e \<longrightarrow> m_tiddies e = [])"

lemma setStatus_runnable [simp]: "setStatus TS_RUNNABLE t = Inr (t\<lparr>status := TS_RUNNABLE\<rparr>)"
  by (simp add: setStatus_def)

lemma event_wf_new [simp]: "event_wf new_event"
  by (simp add: event_wf_def new_event_def)

lemma event_wf_enqueue [simp]: "event_wf e \<Longrightarrow> event_wf (event_enqueue t e)"
  by (auto simp: event_wf_def event_enqueue_def)

lemma event_wf_release [simp]: "event_wf (event_release e)"
  by (simp add: event_wf_def event_release_def)

lemma event_wait_wf: "event_wf e \<Longrightarrow> event_wf (fst (event_wait up t n e ts))"
  by (simp add: event_wait_def)

lemma wake_all_ok:
  "\<forall>t \<in> set q. status (ts t) \<noteq> TS_DEAD \<Longrightarrow>
     wake_all q ts =
       Inr (\<lambda>t. if t \<in> set q then (ts t)\<lparr>status := TS_RUNNABLE\<rparr> else ts t)"
proof (induction q arbitrary: ts)
  case Nil
  then show ?case by simp
next
  case (Cons a q)
  let ?ts = "ts(a := (ts a)\<lparr>status := TS_RUNNABLE\<rparr>)"
  have "\<forall>t \<in> set q. status (?ts t) \<noteq> TS_DEAD"
    using Cons.prems by simp
  note IH = Cons.IH [OF this]
  have "(\<lambda>t. if t \<in> set q then (?ts t)\<lparr>status := TS_RUNNABLE\<rparr> else ?ts t) =
      (\<lambda>t. if t \<in> set (a # q) then (ts t)\<lparr>status := TS_RUNNABLE\<rparr> else ts t)"
    by (auto simp: fun_eq_iff)
  with IH Cons.prems show ?case by (simp del: fun_upd_apply)
qed

lemma wake_all_dead:
  "t \<in> set q \<Longrightarrow> status (ts t) = TS_DEAD \<Longrightarrow> wake_all q ts = Inl AssertFailed"
proof (induction q arbitrary: ts)
  case (Cons a q)
  show ?case
  proof (cases "status (ts a) = TS_DEAD")
    case False
    with Cons.prems have "t \<in> set q" "status ((ts(a := ts a\<lparr>status := TS_RUNNABLE\<rparr>)) t) = TS_DEAD"
      by auto
    then show ?thesis using Cons.IH False by simp
  qed simp
qed simp

lemma event_raise_ok:
  assumes "\<forall>t \<in> set (m_tiddies e). status (ts t) \<noteq> TS_DEAD"
  shows "event_raise e ts =
    Inr (int (length (m_tiddies e)), e\<lparr>m_tiddies := []\<rparr>,
         \<lambda>t. if t \<in> set (m_tiddies e) then (ts t)\<lparr>status := TS_RUNNABLE\<rparr> else ts t)"
  by (simp add: event_raise_def event_release_def wake_all_ok [OF assms])



end
