(* ===== verification/ByteQueue.thy ===== *)
theory ByteQueue
  imports Prelude
begin

text \<open>
  The interface of a bounded byte queue, as pipes, message queues and TCP sockets rely on
  it: \<open>put\<close> takes as many bytes as fit and says how many, \<open>get\<close> delivers as many as there
  are up to the request. The laws say what both do to the abstract contents; the lemmas
  derive what a client may rely on, above all that over any sequence of calls the bytes
  come out in the order they went in, none lost and none invented.
\<close>

datatype 'b queue_op = Put "'b list" | Get nat

fun queue_run ::
    "('b list \<Rightarrow> 'q \<Rightarrow> ('q \<times> nat) res) \<Rightarrow> (nat \<Rightarrow> 'q \<Rightarrow> ('q \<times> 'b list) res)
       \<Rightarrow> 'b queue_op list \<Rightarrow> 'q \<Rightarrow> ('q \<times> 'b list \<times> 'b list) res" where
  "queue_run put get [] q = Inr (q, [], [])"
| "queue_run put get (Put d # ops) q =
     res_bind (put d q) (\<lambda>(q1, n).
     res_bind (queue_run put get ops q1) (\<lambda>(q2, a, r). Inr (q2, take n d @ a, r)))"
| "queue_run put get (Get k # ops) q =
     res_bind (get k q) (\<lambda>(q1, d).
     res_bind (queue_run put get ops q1) (\<lambda>(q2, a, r). Inr (q2, a, d @ r)))"

locale byte_queue =
  fixes inv :: "'q \<Rightarrow> bool"
    and data :: "'q \<Rightarrow> 'b list"
    and cap :: "'q \<Rightarrow> nat"
    and put :: "'b list \<Rightarrow> 'q \<Rightarrow> ('q \<times> nat) res"
    and get :: "nat \<Rightarrow> 'q \<Rightarrow> ('q \<times> 'b list) res"
  assumes put_law: "inv q \<Longrightarrow> \<exists>q'. put d q = Inr (q', min (length d) (cap q - length (data q)))
      \<and> inv q' \<and> cap q' = cap q
      \<and> data q' = data q @ take (min (length d) (cap q - length (data q))) d"
    and get_law: "inv q \<Longrightarrow> \<exists>q'. get k q = Inr (q', take k (data q)) \<and> inv q' \<and> cap q' = cap q
      \<and> data q' = drop k (data q)"
    and cap_law: "inv q \<Longrightarrow> length (data q) \<le> cap q"
begin

lemma put_all:
  assumes "inv q" "length (data q) + length d \<le> cap q"
  shows "\<exists>q'. put d q = Inr (q', length d) \<and> inv q' \<and> cap q' = cap q \<and> data q' = data q @ d"
  using put_law [OF assms(1), of d] assms(2) by (simp add: min_def split: if_splits)

lemma get_all:
  assumes "inv q" "k \<le> length (data q)"
  shows "\<exists>q' d. get k q = Inr (q', d) \<and> length d = k \<and> inv q' \<and> data q = d @ data q'"
  using get_law [OF assms(1), of k] assms(2) by auto

lemma run_fifo:
  "inv q \<Longrightarrow> \<exists>q' a r. queue_run put get ops q = Inr (q', a, r) \<and> inv q' \<and> cap q' = cap q
     \<and> data q @ a = r @ data q'"
proof (induction ops arbitrary: q)
  case Nil
  then show ?case by simp
next
  case (Cons x ops)
  show ?case
  proof (cases x)
    case (Put d)
    obtain q1 n where 1: "put d q = Inr (q1, n)" "inv q1" "cap q1 = cap q"
        "data q1 = data q @ take n d"
      using put_law [OF Cons.prems] by blast
    from Cons.IH [OF 1(2)] 1 show ?thesis by (auto simp: Put)
  next
    case (Get k)
    obtain q1 where 1: "get k q = Inr (q1, take k (data q))" "inv q1" "cap q1 = cap q"
        "data q1 = drop k (data q)"
      using get_law [OF Cons.prems] by blast
    from Cons.IH [OF 1(2)] obtain q2 a r where "queue_run put get ops q1 = Inr (q2, a, r)"
        "inv q2" "cap q2 = cap q1" "data q1 @ a = r @ data q2" by blast
    moreover from this(4) 1(4) have "data q @ a = (take k (data q) @ r) @ data q2"
      by (metis append.assoc append_take_drop_id)
    ultimately show ?thesis using 1 by (simp add: Get)
  qed
qed

text \<open>The backlog never exceeds the capacity, whatever the clients do.\<close>

lemma run_bounded:
  "inv q \<Longrightarrow> queue_run put get ops q = Inr (q', a, r) \<Longrightarrow>
     length a \<le> length r + cap q \<and> length (data q') \<le> cap q"
  using run_fifo [of q ops] cap_law [of q'] cap_law [of q]
  by (auto dest!: arg_cong [where f = length])

end

end
