(* ===== verification/CircularBuffer.thy ===== *)
theory CircularBuffer
  imports CString Event ByteQueue
begin

text \<open>
  The byte ring of \<open>mem/circularbuffer.cpp\<close>, which carries pipes, message queues and the
  send and receive sides of TCP sockets.

  \<open>circ\<close> is the class with its fields; positions and sizes are C \<open>int\<close>s whose range the
  invariant bounds, so they are \<^typ>\<open>int\<close>. A call of \<open>read\<close>, \<open>write\<close> or \<open>writeAtomic\<close>
  holds the buffer's spinlock from one suspension to the next: it copies chunk after chunk
  and gives the lock up only where it finds nothing to do, calls \<open>m_event.wait()\<close> and
  yields. One such stretch is \<open>read_loop\<close>, \<open>write_loop\<close> or \<open>writeAtomic_loop\<close>; its result
  says whether the call has finished (\<open>Completed\<close>), has given up (\<open>Interrupted\<close>) or has
  suspended (\<open>Blocked\<close>) and will re-enter the loop with the remaining \<open>offset\<close> and \<open>len\<close>.
  The copies are \<open>memcpy\<close> calls on real allocations: an access outside one is a fault.
\<close>

record circ =
  m_buffer :: "u8 list"
  m_size :: int
  m_readPos :: int
  m_writePos :: int
  m_event :: event

datatype loop_exit = Completed | Interrupted | Blocked

definition newCircularBuffer :: "int \<Rightarrow> circ" where
  "newCircularBuffer sz =
     \<lparr>m_buffer = replicate (nat sz) 0, m_size = sz, m_readPos = 0, m_writePos = 0,
      m_event = new_event\<rparr>"

definition findDistance :: "circ \<Rightarrow> int \<Rightarrow> int \<Rightarrow> int" where
  "findDistance cb a b =
     (let a = (if a < 0 then a + m_size cb else a);
          b = (if b < 0 then b + m_size cb else b);
          c = b - a
      in if c < 0 then c + m_size cb else c)"

definition readAvailable :: "circ \<Rightarrow> int" where
  "readAvailable cb = min (m_size cb) (findDistance cb (m_readPos cb) (m_writePos cb))"

definition writeAvailable :: "circ \<Rightarrow> int" where
  "writeAvailable cb = min (m_size cb) (findDistance cb (m_writePos cb) (m_readPos cb - 1))"

definition readAvailableCut :: "circ \<Rightarrow> int" where
  "readAvailableCut cb =
     (let len = m_size cb;
          len = min len (m_size cb - m_readPos cb)
      in min len (findDistance cb (m_readPos cb) (m_writePos cb)))"

definition writeAvailableCut :: "circ \<Rightarrow> int" where
  "writeAvailableCut cb =
     (let len = m_size cb;
          len = min len (m_size cb - m_writePos cb)
      in min len (findDistance cb (m_writePos cb) (m_readPos cb - 1)))"

definition getReadPos :: "circ \<Rightarrow> int" where
  "getReadPos cb = m_readPos cb"

definition getWritePos :: "circ \<Rightarrow> int" where
  "getWritePos cb = m_writePos cb"

text \<open>\<open>Heap::realloc\<close> keeps the common prefix and hands out zeroed memory beyond it;
  \<open>resize\<close> leaves \<open>m_size\<close> as it is.\<close>

definition resize :: "int \<Rightarrow> circ \<Rightarrow> circ" where
  "resize new_size cb =
     cb\<lparr>m_readPos := 0, m_writePos := 0,
        m_buffer := take (nat new_size) (m_buffer cb) @
                    replicate (nat new_size - length (m_buffer cb)) 0\<rparr>"

text \<open>A \<open>memcpy\<close> of a negative \<open>int\<close> count is a count near \<open>2^64\<close>: out of bounds.\<close>

definition copy_bytes ::
    "u8 list \<Rightarrow> int \<Rightarrow> u8 list \<Rightarrow> int \<Rightarrow> int \<Rightarrow> u8 list res" where
  "copy_bytes dst dst_at src src_at n =
     (if n < 0 \<or> dst_at < 0 \<or> src_at < 0 then Inl OutOfBounds
      else memcpy dst (nat dst_at) src (nat src_at) (nat n))"

function read_loop ::
    "tid \<Rightarrow> bool \<Rightarrow> int \<Rightarrow> circ \<Rightarrow> u8 list \<Rightarrow> int \<Rightarrow> int
       \<Rightarrow> (circ \<times> u8 list \<times> int \<times> int \<times> loop_exit) res" where
  "read_loop self intr quota cb buffer offset len =
     (if len > 0 then
        let clen = min len (readAvailableCut cb) in
        if clen = 0 then
          (if (writeAvailable cb < len \<and> intr)
              \<or> (readAvailable cb \<le> len \<and> quota \<noteq> -1 \<and> offset \<ge> quota)
           then Inr (cb, buffer, offset, len, Interrupted)
           else Inr (cb\<lparr>m_event := event_enqueue self (m_event cb)\<rparr>, buffer, offset, len, Blocked))
        else if clen < 0 then Inl OutOfBounds
        else
          (case copy_bytes buffer offset (m_buffer cb) (m_readPos cb) clen of
             Inl e \<Rightarrow> Inl e
           | Inr buffer' \<Rightarrow>
               let rp = m_readPos cb + clen;
                   cb' = cb\<lparr>m_readPos := (if rp = m_size cb then 0 else rp),
                            m_event := event_release (m_event cb)\<rparr>
               in read_loop self intr quota cb' buffer' (offset + clen) (len - clen))
      else Inr (cb, buffer, offset, len, Completed))"
  by pat_completeness auto
termination
  by (relation "measure (\<lambda>(self, intr, quota, cb, buffer, offset, len). nat len)") auto

function write_loop ::
    "tid \<Rightarrow> bool \<Rightarrow> circ \<Rightarrow> u8 list \<Rightarrow> int \<Rightarrow> int \<Rightarrow> (circ \<times> int \<times> int \<times> loop_exit) res" where
  "write_loop self intr cb buffer offset len =
     (if len > 0 then
        let clen = min len (writeAvailableCut cb) in
        if clen = 0 then
          (if writeAvailable cb < len \<and> intr then Inr (cb, offset, len, Interrupted)
           else Inr (cb\<lparr>m_event := event_enqueue self (m_event cb)\<rparr>, offset, len, Blocked))
        else if clen < 0 then Inl OutOfBounds
        else
          (case copy_bytes (m_buffer cb) (m_writePos cb) buffer offset clen of
             Inl e \<Rightarrow> Inl e
           | Inr mem \<Rightarrow>
               let wp = m_writePos cb + clen;
                   cb' = cb\<lparr>m_buffer := mem,
                            m_writePos := (if wp = m_size cb then 0 else wp),
                            m_event := event_release (m_event cb)\<rparr>
               in write_loop self intr cb' buffer (offset + clen) (len - clen))
      else Inr (cb, offset, len, Completed))"
  by pat_completeness auto
termination
  by (relation "measure (\<lambda>(self, intr, cb, buffer, offset, len). nat len)") auto

function writeAtomic_loop ::
    "tid \<Rightarrow> bool \<Rightarrow> circ \<Rightarrow> u8 list \<Rightarrow> int \<Rightarrow> int \<Rightarrow> (circ \<times> int \<times> int \<times> loop_exit) res" where
  "writeAtomic_loop self intr cb buffer offset len =
     (if len > 0 then
        let clen = min len (writeAvailableCut cb) in
        if clen < len then
          (if writeAvailable cb < len \<and> intr then Inr (cb, offset, len, Interrupted)
           else Inr (cb\<lparr>m_event := event_enqueue self (m_event cb)\<rparr>, offset, len, Blocked))
        else
          (case copy_bytes (m_buffer cb) (m_writePos cb) buffer offset clen of
             Inl e \<Rightarrow> Inl e
           | Inr mem \<Rightarrow>
               let wp = m_writePos cb + clen;
                   cb' = cb\<lparr>m_buffer := mem,
                            m_writePos := (if wp = m_size cb then 0 else wp),
                            m_event := event_release (m_event cb)\<rparr>
               in writeAtomic_loop self intr cb' buffer (offset + clen) (len - clen))
      else Inr (cb, offset, len, Completed))"
  by pat_completeness auto
termination
  by (relation "measure (\<lambda>(self, intr, cb, buffer, offset, len). nat len)") auto

declare read_loop.simps [simp del] write_loop.simps [simp del] writeAtomic_loop.simps [simp del]

text \<open>The calls up to their first suspension: nothing to do for a length of at most 0,
  otherwise the loop from offset 0. The value returned to the caller is the offset.\<close>

definition cb_read ::
    "tid \<Rightarrow> bool \<Rightarrow> u8 list \<Rightarrow> int \<Rightarrow> int \<Rightarrow> circ \<Rightarrow> (circ \<times> u8 list \<times> int \<times> int \<times> loop_exit) res" where
  "cb_read self intr buffer len quota cb =
     (if len \<le> 0 then Inr (cb, buffer, 0, len, Completed)
      else read_loop self intr quota cb buffer 0 len)"

definition cb_write ::
    "tid \<Rightarrow> bool \<Rightarrow> u8 list \<Rightarrow> int \<Rightarrow> circ \<Rightarrow> (circ \<times> int \<times> int \<times> loop_exit) res" where
  "cb_write self intr buffer len cb =
     (if len \<le> 0 then Inr (cb, 0, len, Completed)
      else write_loop self intr cb buffer 0 len)"

definition cb_writeAtomic ::
    "tid \<Rightarrow> bool \<Rightarrow> u8 list \<Rightarrow> int \<Rightarrow> circ \<Rightarrow> (circ \<times> int \<times> int \<times> loop_exit) res" where
  "cb_writeAtomic self intr buffer len cb =
     (if len \<le> 0 then Inr (cb, 0, len, Completed)
      else writeAtomic_loop self intr cb buffer 0 len)"


subsection \<open>The abstract queue and the invariant\<close>

definition circ_inv :: "circ \<Rightarrow> bool" where
  "circ_inv cb \<longleftrightarrow> 0 < m_size cb \<and> length (m_buffer cb) = nat (m_size cb)
     \<and> 0 \<le> m_readPos cb \<and> m_readPos cb < m_size cb
     \<and> 0 \<le> m_writePos cb \<and> m_writePos cb < m_size cb \<and> event_wf (m_event cb)
     \<and> \<not> m_defunct (m_event cb)"

definition contents :: "circ \<Rightarrow> u8 list" where
  "contents cb =
     (let r = nat (m_readPos cb); w = nat (m_writePos cb) in
      if r \<le> w then take (w - r) (drop r (m_buffer cb))
      else drop r (m_buffer cb) @ take w (m_buffer cb))"

lemma circ_inv_new [simp]: "0 < sz \<Longrightarrow> circ_inv (newCircularBuffer sz)"
  by (simp add: circ_inv_def newCircularBuffer_def new_event_def event_wf_def)

lemma contents_new [simp]: "contents (newCircularBuffer sz) = []"
  by (simp add: contents_def newCircularBuffer_def)

lemma circ_inv_event [simp]:
  "circ_inv (cb\<lparr>m_event := e\<rparr>) \<longleftrightarrow>
     circ_inv (cb\<lparr>m_event := new_event\<rparr>) \<and> event_wf e \<and> \<not> m_defunct e"
  by (auto simp: circ_inv_def new_event_def event_wf_def)

lemma contents_event [simp]: "contents (cb\<lparr>m_event := e\<rparr>) = contents cb"
  by (simp add: contents_def Let_def)

lemma length_contents:
  "circ_inv cb \<Longrightarrow> int (length (contents cb)) =
     (if m_readPos cb \<le> m_writePos cb then m_writePos cb - m_readPos cb
      else m_size cb - m_readPos cb + m_writePos cb)"
  by (auto simp: circ_inv_def contents_def Let_def)

lemma readAvailable_contents:
  "circ_inv cb \<Longrightarrow> readAvailable cb = int (length (contents cb))"
  unfolding length_contents
  by (auto simp: circ_inv_def readAvailable_def findDistance_def Let_def)

lemma writeAvailable_contents:
  "circ_inv cb \<Longrightarrow> writeAvailable cb = m_size cb - 1 - int (length (contents cb))"
  unfolding length_contents
  by (auto simp: circ_inv_def writeAvailable_def findDistance_def Let_def)

lemma readAvailableCut_contents:
  "circ_inv cb \<Longrightarrow>
     readAvailableCut cb = min (m_size cb - m_readPos cb) (int (length (contents cb)))"
  unfolding length_contents
  by (auto simp: circ_inv_def readAvailableCut_def findDistance_def Let_def)

lemma writeAvailableCut_contents:
  "circ_inv cb \<Longrightarrow>
     writeAvailableCut cb =
       min (m_size cb - m_writePos cb) (m_size cb - 1 - int (length (contents cb)))"
  unfolding length_contents
  by (auto simp: circ_inv_def writeAvailableCut_def findDistance_def Let_def)

lemmas available_contents [circ_defs] =
  readAvailable_contents writeAvailable_contents readAvailableCut_contents
  writeAvailableCut_contents

lemma contents_bound: "circ_inv cb \<Longrightarrow> int (length (contents cb)) < m_size cb"
  unfolding length_contents by (auto simp: circ_inv_def)

text \<open>One chunk read: the bytes copied are the head of the queue.\<close>

definition after_read :: "int \<Rightarrow> circ \<Rightarrow> circ" where
  "after_read k cb =
     (let rp = m_readPos cb + k in
      cb\<lparr>m_readPos := (if rp = m_size cb then 0 else rp),
         m_event := event_release (m_event cb)\<rparr>)"

definition after_write :: "u8 list \<Rightarrow> int \<Rightarrow> circ \<Rightarrow> circ" where
  "after_write mem k cb =
     (let wp = m_writePos cb + k in
      cb\<lparr>m_buffer := mem, m_writePos := (if wp = m_size cb then 0 else wp),
         m_event := event_release (m_event cb)\<rparr>)"

lemma after_read_inv:
  "circ_inv cb \<Longrightarrow> 0 < k \<Longrightarrow> k \<le> readAvailableCut cb \<Longrightarrow> circ_inv (after_read k cb)"
  by (auto simp: after_read_def circ_inv_def readAvailableCut_def event_release_def
      event_wf_def Let_def)

lemma after_read_contents:
  assumes inv: "circ_inv cb" and k: "0 < k" "k \<le> readAvailableCut cb"
  shows "contents cb = take (nat k) (drop (nat (m_readPos cb)) (m_buffer cb))
           @ contents (after_read k cb)"
proof -
  define r w s K b where "r = nat (m_readPos cb)" and "w = nat (m_writePos cb)"
    and "s = nat (m_size cb)" and "K = nat k" and "b = m_buffer cb"
  have ints: "m_readPos cb = int r" "m_writePos cb = int w" "m_size cb = int s" "k = int K"
    using inv k by (auto simp: circ_inv_def r_def w_def s_def K_def)
  have bounds: "r < s" "w < s" "length b = s" "0 < K" "K \<le> s - r"
      "r \<le> w \<Longrightarrow> K \<le> w - r"
    using inv k by (auto simp: circ_inv_def readAvailableCut_contents length_contents ints b_def
        split: if_splits)
  have "take K (drop r b) @ take (w - (r + K)) (drop (r + K) b) = take (w - r) (drop r b)"
    if "r + K \<le> w"
  proof -
    have "w - r = K + (w - (r + K))" using that by simp
    then show ?thesis by (simp only: take_add drop_drop add.commute [of K r])
  qed
  moreover have "take K (drop r b) @ drop (r + K) b = drop r b"
    by (metis add.commute append_take_drop_id drop_drop)
  moreover have "take K (drop r b) = drop r b" if "r + K = s"
    using that bounds by simp
  ultimately show ?thesis
    using bounds
    by (auto simp: contents_def after_read_def Let_def ints b_def [symmetric] nat_int_add)
qed


lemma after_write_inv:
  "circ_inv cb \<Longrightarrow> 0 < k \<Longrightarrow> k \<le> writeAvailableCut cb \<Longrightarrow> length mem = length (m_buffer cb) \<Longrightarrow>
     circ_inv (after_write mem k cb)"
  by (auto simp: after_write_def circ_inv_def writeAvailableCut_def event_release_def
      event_wf_def Let_def)

lemma after_write_contents:
  assumes inv: "circ_inv cb" and k: "0 < k" "k \<le> writeAvailableCut cb"
    and d: "length d = nat k"
    and mem: "mem = take (nat (m_writePos cb)) (m_buffer cb) @ d
                @ drop (nat (m_writePos cb) + nat k) (m_buffer cb)"
  shows "contents (after_write mem k cb) = contents cb @ d"
proof -
  define r w s K b where "r = nat (m_readPos cb)" and "w = nat (m_writePos cb)"
    and "s = nat (m_size cb)" and "K = nat k" and "b = m_buffer cb"
  have ints: "m_readPos cb = int r" "m_writePos cb = int w" "m_size cb = int s" "k = int K"
    using inv k by (auto simp: circ_inv_def r_def w_def s_def K_def)
  have len: "length b = s" "length d = K" "r < s" "w < s" "0 < K" "w + K \<le> s"
    using inv k d by (auto simp: circ_inv_def writeAvailableCut_contents ints b_def)
  have room: "r \<le> w \<Longrightarrow> w + K = s \<Longrightarrow> 0 < r" "\<not> r \<le> w \<Longrightarrow> w + K < r"
    using inv k by (auto simp: writeAvailableCut_contents length_contents ints split: if_splits)
  have mem': "mem = take w b @ d @ drop (w + K) b"
    unfolding mem by (simp add: ints b_def)
  have low: "drop r mem = drop r (take w b) @ d @ drop (w + K) b" if "r \<le> w"
    using that len unfolding mem' by simp
  have high: "drop r mem = drop r b" if "w + K < r"
    using that len unfolding mem' by simp
  show ?thesis
  proof (cases "r \<le> w")
    case True
    show ?thesis
    proof (cases "w + K = s")
      case True
      with \<open>r \<le> w\<close> room len low show ?thesis
        by (simp add: contents_def after_write_def Let_def ints b_def [symmetric] drop_take)
    next
      case False
      with \<open>r \<le> w\<close> len low show ?thesis
        by (simp add: contents_def after_write_def Let_def ints b_def [symmetric] drop_take
            nat_int_add)
    qed
  next
    case False
    with room have "w + K < r" by simp
    with False len high show ?thesis
      by (simp add: contents_def after_write_def Let_def ints b_def [symmetric] nat_int_add)
         (simp add: mem')
  qed
qed

subsection \<open>The loops against the abstract queue\<close>

lemma copy_bytes_ok:
  assumes "0 \<le> n" "0 \<le> dst_at" "0 \<le> src_at"
    and "src_at + n \<le> int (length src)" "dst_at + n \<le> int (length dst)"
  shows "copy_bytes dst dst_at src src_at n =
       Inr (take (nat dst_at) dst @ take (nat n) (drop (nat src_at) src)
            @ drop (nat dst_at + nat n) dst)"
proof -
  have "nat src_at + nat n \<le> length src" "nat dst_at + nat n \<le> length dst"
    using assms by linarith+
  with assms(1-3) show ?thesis by (simp add: copy_bytes_def memcpy_spec)
qed

definition read_exit :: "circ \<Rightarrow> bool \<Rightarrow> int \<Rightarrow> int \<Rightarrow> int \<Rightarrow> loop_exit" where
  "read_exit cb intr quota offset left =
     (if left = 0 then Completed
      else if (m_size cb - 1 < left \<and> intr) \<or> (quota \<noteq> -1 \<and> offset \<ge> quota) then Interrupted
      else Blocked)"

definition write_exit :: "bool \<Rightarrow> int \<Rightarrow> loop_exit" where
  "write_exit intr left =
     (if left = 0 then Completed else if intr then Interrupted else Blocked)"

lemma read_loop_copy:
  assumes "circ_inv cb" "0 < len" "contents cb \<noteq> []" "0 \<le> offset"
    and "offset + len \<le> int (length buffer)"
    and "k = min len (readAvailableCut cb)"
  shows "0 < k" "k \<le> readAvailableCut cb"
    and "read_loop self intr quota cb buffer offset len =
      read_loop self intr quota (after_read k cb)
        (take (nat offset) buffer @ take (nat k) (contents cb)
         @ drop (nat offset + nat k) buffer) (offset + k) (len - k)"
proof -
  show k: "0 < k" "k \<le> readAvailableCut cb"
    using assms by (auto simp: readAvailableCut_contents circ_inv_def)
  have inb: "m_readPos cb + k \<le> int (length (m_buffer cb))"
    using assms(1) k by (auto simp: readAvailableCut_contents circ_inv_def)
  have "copy_bytes buffer offset (m_buffer cb) (m_readPos cb) k =
      Inr (take (nat offset) buffer @ take (nat k) (drop (nat (m_readPos cb)) (m_buffer cb))
           @ drop (nat offset + nat k) buffer)"
    using assms k inb by (intro copy_bytes_ok) (auto simp: circ_inv_def)
  moreover have "take (nat k) (drop (nat (m_readPos cb)) (m_buffer cb)) = take (nat k) (contents cb)"
    using inb assms(1) by (subst after_read_contents [OF assms(1) k]) (auto simp: circ_inv_def)
  ultimately show "read_loop self intr quota cb buffer offset len =
      read_loop self intr quota (after_read k cb)
        (take (nat offset) buffer @ take (nat k) (contents cb)
         @ drop (nat offset + nat k) buffer) (offset + k) (len - k)"
    using assms(2) k
    by (subst read_loop.simps) (simp add: Let_def after_read_def assms(6) [symmetric])
qed


lemma after_read_frame [simp]:
  "m_size (after_read k cb) = m_size cb"
  "m_size (after_write mem k cb) = m_size cb"
  by (simp_all add: after_read_def after_write_def Let_def)

lemma suspend_inv [simp]:
  "circ_inv cb \<Longrightarrow> circ_inv (cb\<lparr>m_event := event_enqueue self (m_event cb)\<rparr>)"
  "circ_inv cb \<Longrightarrow> self \<in> set (m_tiddies (event_enqueue self (m_event cb)))"
  by (auto simp: circ_inv_def event_enqueue_def event_wf_def)

lemma splice_splice:
  assumes "a + k \<le> length xs" "length ys = k"
  shows "take (a + k) (take a xs @ ys @ drop (a + k) xs) = take a xs @ ys"
    and "drop (a + (k + j)) (take a xs @ ys @ drop (a + k) xs) = drop (a + (k + j)) xs"
  using assms by (simp_all add: min_def add.commute add.left_commute)

text \<open>What one stretch of \<open>read\<close> achieves: it moves as many bytes as there are, up to the
  request, from the head of the queue to the caller's buffer.\<close>

definition read_result ::
    "tid \<Rightarrow> bool \<Rightarrow> int \<Rightarrow> circ \<Rightarrow> u8 list \<Rightarrow> int \<Rightarrow> int
       \<Rightarrow> (circ \<times> u8 list \<times> int \<times> int \<times> loop_exit) res \<Rightarrow> bool" where
  "read_result self intr quota cb buffer offset len r \<longleftrightarrow>
     (let n = min len (int (length (contents cb)));
          ex = read_exit cb intr quota (offset + n) (len - n)
      in \<exists>cb'. r = Inr (cb', take (nat offset) buffer @ take (nat n) (contents cb)
                              @ drop (nat offset + nat n) buffer, offset + n, len - n, ex)
           \<and> circ_inv cb' \<and> contents cb' = drop (nat n) (contents cb) \<and> m_size cb' = m_size cb
           \<and> (ex = Blocked \<longrightarrow> self \<in> set (m_tiddies (m_event cb'))))"

lemma read_result_step:
  assumes inv: "circ_inv cb" and k: "0 < k" "k \<le> len" "k \<le> readAvailableCut cb"
    and bnd: "0 \<le> offset" "offset + len \<le> int (length buffer)"
    and rest: "read_result self intr quota (after_read k cb)
        (take (nat offset) buffer @ take (nat k) (contents cb)
         @ drop (nat offset + nat k) buffer) (offset + k) (len - k) r"
  shows "read_result self intr quota cb buffer offset len r"
proof -
  define C where "C = contents cb"
  have C': "contents (after_read k cb) = drop (nat k) C" and kC: "k \<le> int (length C)"
    using after_read_contents [OF inv k(1,3)] inv k
    by (auto simp: C_def circ_inv_def readAvailableCut_def readAvailableCut_contents Let_def)
  define j n where "j = min (len - k) (int (length (drop (nat k) C)))"
    and "n = min len (int (length C))"
  have nj: "n = k + j" "0 \<le> j" using k kC by (auto simp: j_def n_def)
  have nats: "nat (offset + k) = nat offset + nat k" "nat n = nat k + nat j"
    using bnd k nj by (simp_all add: nat_add_distrib)
  let ?buf = "take (nat offset) buffer @ take (nat k) C @ drop (nat offset + nat k) buffer"
  have "take (nat (offset + k)) ?buf @ take (nat j) (drop (nat k) C)
          @ drop (nat (offset + k) + nat j) ?buf
      = take (nat offset) buffer @ take (nat n) C @ drop (nat offset + nat n) buffer"
    unfolding nats add.assoc
    by (subst splice_splice, use bnd kC k in \<open>simp, simp\<close>)+ (simp add: take_add)
  moreover have "drop (nat j) (drop (nat k) C) = drop (nat n) C"
    unfolding nats by (simp add: add.commute)
  moreover have "read_exit (after_read k cb) = read_exit cb"
    by (simp add: read_exit_def fun_eq_iff)
  moreover have "offset + k + j = offset + n" "len - k - j = len - n"
    using nj by simp_all
  ultimately show ?thesis
    using rest unfolding read_result_def C' C_def [symmetric] j_def [symmetric] n_def [symmetric]
      Let_def after_read_frame by (simp only:)
qed

lemma read_loop_result:
  assumes "circ_inv cb" "0 \<le> len" "0 \<le> offset" "offset + len \<le> int (length buffer)"
  shows "read_result self intr quota cb buffer offset len
           (read_loop self intr quota cb buffer offset len)"
  using assms
proof (induction "nat len" arbitrary: cb buffer offset len rule: less_induct)
  case less
  note inv = less.prems(1) and bnd = less.prems(2-4)
  consider (zero) "len = 0" | (empty) "0 < len" "contents cb = []"
    | (more) "0 < len" "contents cb \<noteq> []"
    using bnd by linarith
  then show ?case
  proof cases
    case zero
    then show ?thesis using inv
      by (subst read_loop.simps) (simp add: read_exit_def read_result_def)
  next
    case empty
    then have "min len (readAvailableCut cb) = 0" "readAvailable cb = 0"
        "writeAvailable cb = m_size cb - 1"
      using inv by (auto simp: circ_defs circ_inv_def)
    then show ?thesis using inv empty
      by (subst read_loop.simps)
         (auto simp: read_exit_def read_result_def simp del: circ_inv_event)
  next
    case more
    define k where "k = min len (readAvailableCut cb)"
    note step = read_loop_copy [OF inv more bnd(2,3) k_def]
    have k: "k \<le> len" "k \<le> int (length (contents cb))"
      using inv by (auto simp: k_def circ_defs)
    show ?thesis
      unfolding step(3)
      by (rule read_result_step [OF inv step(1) k(1) step(2) bnd(2,3)], rule less.hyps)
         (use step(1) bnd k in \<open>auto simp: after_read_inv [OF inv step(1,2)]\<close>)
  qed
qed

subsection \<open>Writing\<close>

definition write_result ::
    "tid \<Rightarrow> bool \<Rightarrow> circ \<Rightarrow> u8 list \<Rightarrow> int \<Rightarrow> int \<Rightarrow> (circ \<times> int \<times> int \<times> loop_exit) res \<Rightarrow> bool" where
  "write_result self intr cb buffer offset len r \<longleftrightarrow>
     (let n = min len (m_size cb - 1 - int (length (contents cb)));
          ex = write_exit intr (len - n)
      in \<exists>cb'. r = Inr (cb', offset + n, len - n, ex) \<and> circ_inv cb'
           \<and> contents cb' = contents cb @ take (nat n) (drop (nat offset) buffer)
           \<and> m_size cb' = m_size cb
           \<and> (ex = Blocked \<longrightarrow> self \<in> set (m_tiddies (m_event cb'))))"

text \<open>One chunk of either write loop, \<open>k\<close> bytes from \<open>buffer + offset\<close>.\<close>

lemma write_chunk:
  assumes inv: "circ_inv cb" and k: "0 < k" "k \<le> writeAvailableCut cb"
    and bnd: "0 \<le> offset" "offset + k \<le> int (length buffer)"
  obtains mem where "copy_bytes (m_buffer cb) (m_writePos cb) buffer offset k = Inr mem"
    and "circ_inv (after_write mem k cb)"
    and "contents (after_write mem k cb) = contents cb @ take (nat k) (drop (nat offset) buffer)"
proof -
  let ?d = "take (nat k) (drop (nat offset) buffer)"
  let ?mem = "take (nat (m_writePos cb)) (m_buffer cb) @ ?d
                @ drop (nat (m_writePos cb) + nat k) (m_buffer cb)"
  have wp: "m_writePos cb + k \<le> int (length (m_buffer cb))"
    using inv k by (auto simp: circ_inv_def writeAvailableCut_def Let_def)
  have d: "length ?d = nat k" using k bnd by simp
  have "copy_bytes (m_buffer cb) (m_writePos cb) buffer offset k = Inr ?mem"
    using inv k bnd wp by (intro copy_bytes_ok) (auto simp: circ_inv_def)
  moreover have "circ_inv (after_write ?mem k cb)"
    using inv k wp d by (intro after_write_inv) (auto simp: circ_inv_def)
  ultimately show ?thesis
    using that after_write_contents [OF inv k d refl] by blast
qed

lemma write_result_step:
  assumes inv: "circ_inv cb" and k: "0 < k" "k \<le> len" "k \<le> writeAvailableCut cb"
    and bnd: "0 \<le> offset" "offset + len \<le> int (length buffer)"
    and C': "contents cb1 = contents cb @ take (nat k) (drop (nat offset) buffer)"
    and sz: "m_size cb1 = m_size cb"
    and rest: "write_result self intr cb1 buffer (offset + k) (len - k) r"
  shows "write_result self intr cb buffer offset len r"
proof -
  define j n where "j = min (len - k) (m_size cb - 1 - int (length (contents cb1)))"
    and "n = min len (m_size cb - 1 - int (length (contents cb)))"
  have l1: "int (length (contents cb1)) = int (length (contents cb)) + k"
    using k bnd unfolding C' by simp
  have nj: "n = k + j" "0 \<le> j"
    using k inv l1 by (auto simp: j_def n_def writeAvailableCut_contents)
  have "nat (offset + k) = nat offset + nat k" "nat n = nat k + nat j"
    using bnd k nj by (simp_all add: nat_add_distrib)
  then have "take (nat k) (drop (nat offset) buffer) @ take (nat j) (drop (nat (offset + k)) buffer)
      = take (nat n) (drop (nat offset) buffer)"
    by (simp only: take_add drop_drop add.commute [of "nat k" "nat offset"])
  moreover have "offset + k + j = offset + n" "len - k - j = len - n"
    using nj by simp_all
  ultimately show ?thesis
    using rest unfolding write_result_def sz j_def [symmetric] n_def [symmetric] Let_def
    by (simp only: C' append_assoc)
qed

lemma write_loop_result:
  assumes "circ_inv cb" "0 \<le> len" "0 \<le> offset" "offset + len \<le> int (length buffer)"
  shows "write_result self intr cb buffer offset len (write_loop self intr cb buffer offset len)"
  using assms
proof (induction "nat len" arbitrary: cb offset len rule: less_induct)
  case less
  note inv = less.prems(1) and bnd = less.prems(2-4)
  have cut: "0 \<le> writeAvailableCut cb" "writeAvailableCut cb \<le> writeAvailable cb"
      "writeAvailableCut cb = 0 \<longleftrightarrow> writeAvailable cb = 0"
    using inv contents_bound [OF inv] by (auto simp: circ_defs circ_inv_def)
  consider (zero) "len = 0" | (full) "0 < len" "writeAvailable cb = 0"
    | (more) "0 < len" "0 < writeAvailableCut cb"
    using bnd cut by linarith
  then show ?case
  proof cases
    case zero
    then show ?thesis using inv contents_bound [OF inv]
      by (subst write_loop.simps) (simp add: write_exit_def write_result_def)
  next
    case full
    moreover have "writeAvailableCut cb = 0" using full cut by simp
    ultimately show ?thesis using inv
      by (subst write_loop.simps)
         (auto simp: write_exit_def write_result_def writeAvailable_contents simp del: circ_inv_event)
  next
    case more
    define k where "k = min len (writeAvailableCut cb)"
    have k: "0 < k" "k \<le> len" "k \<le> writeAvailableCut cb" using more by (auto simp: k_def)
    have "offset + k \<le> int (length buffer)" using k bnd by simp
    with write_chunk [OF inv k(1,3) bnd(2)] obtain mem where
      mem: "copy_bytes (m_buffer cb) (m_writePos cb) buffer offset k = Inr mem"
      "circ_inv (after_write mem k cb)"
      "contents (after_write mem k cb) = contents cb @ take (nat k) (drop (nat offset) buffer)"
      by blast
    have "write_loop self intr cb buffer offset len =
        write_loop self intr (after_write mem k cb) buffer (offset + k) (len - k)"
      using more k mem(1)
      by (subst write_loop.simps) (simp add: Let_def after_write_def k_def [symmetric])
    then show ?thesis
      using mem(2) k bnd
      by (auto intro!: write_result_step [OF inv k bnd(2,3) mem(3)] less.hyps)
  qed
qed

text \<open>\<open>writeAtomic\<close> copies the whole request in one chunk or nothing.\<close>

lemma writeAtomic_loop_cases:
  assumes "circ_inv cb" "0 < len" "0 \<le> offset" "offset + len \<le> int (length buffer)"
  shows "if len \<le> writeAvailableCut cb
    then \<exists>cb'. writeAtomic_loop self intr cb buffer offset len = Inr (cb', offset + len, 0, Completed)
      \<and> circ_inv cb' \<and> m_size cb' = m_size cb
      \<and> contents cb' = contents cb @ take (nat len) (drop (nat offset) buffer)
    else writeAtomic_loop self intr cb buffer offset len =
      (if writeAvailable cb < len \<and> intr then Inr (cb, offset, len, Interrupted)
       else Inr (cb\<lparr>m_event := event_enqueue self (m_event cb)\<rparr>, offset, len, Blocked))"
proof (cases "len \<le> writeAvailableCut cb")
  case True
  obtain mem where mem: "copy_bytes (m_buffer cb) (m_writePos cb) buffer offset len = Inr mem"
    "circ_inv (after_write mem len cb)"
    "contents (after_write mem len cb) = contents cb @ take (nat len) (drop (nat offset) buffer)"
    using write_chunk [OF assms(1,2) True assms(3,4)] .
  have "writeAtomic_loop self intr cb buffer offset len =
      writeAtomic_loop self intr (after_write mem len cb) buffer (offset + len) 0"
    using True assms(2) mem(1)
    by (subst writeAtomic_loop.simps) (simp add: Let_def after_write_def min_absorb1)
  also have "\<dots> = Inr (after_write mem len cb, offset + len, 0, Completed)"
    by (subst writeAtomic_loop.simps) simp
  finally show ?thesis using True mem(2,3) by simp
next
  case False
  with assms(2) show ?thesis
    by (subst writeAtomic_loop.simps) (simp add: Let_def min_def)
qed


subsection \<open>The ring as a bounded byte queue\<close>

definition cb_put :: "tid \<Rightarrow> bool \<Rightarrow> u8 list \<Rightarrow> circ \<Rightarrow> (circ \<times> nat) res" where
  "cb_put self intr d cb =
     res_bind (cb_write self intr d (int (length d)) cb) (\<lambda>(cb', offset, left, ex).
       Inr (cb', nat offset))"

definition cb_get :: "tid \<Rightarrow> bool \<Rightarrow> nat \<Rightarrow> circ \<Rightarrow> (circ \<times> u8 list) res" where
  "cb_get self intr k cb =
     res_bind (cb_read self intr (replicate k 0) (int k) (-1) cb)
       (\<lambda>(cb', buffer, offset, left, ex). Inr (cb', take (nat offset) buffer))"

definition cb_capacity :: "circ \<Rightarrow> nat" where
  "cb_capacity cb = nat (m_size cb) - 1"

lemma cb_write_result:
  assumes "circ_inv cb" "0 \<le> len" "len \<le> int (length buffer)"
  shows "write_result self intr cb buffer 0 len (cb_write self intr buffer len cb)"
  using assms write_loop_result [of cb len 0 buffer self intr] contents_bound [of cb]
  by (auto simp: cb_write_def write_result_def write_exit_def min_def)

lemma cb_read_result:
  assumes "circ_inv cb" "0 \<le> len" "len \<le> int (length buffer)"
  shows "read_result self intr quota cb buffer 0 len (cb_read self intr buffer len quota cb)"
  using assms read_loop_result [of cb len 0 buffer self intr]
  by (auto simp: cb_read_def read_result_def read_exit_def)

lemma cb_put_law:
  assumes "circ_inv cb"
  shows "\<exists>cb'. cb_put self intr d cb = Inr (cb', min (length d) (cb_capacity cb - length (contents cb)))
      \<and> circ_inv cb' \<and> cb_capacity cb' = cb_capacity cb
      \<and> contents cb' = contents cb @ take (min (length d) (cb_capacity cb - length (contents cb))) d"
proof -
  let ?n = "min (int (length d)) (m_size cb - 1 - int (length (contents cb)))"
  have "nat ?n = min (length d) (cb_capacity cb - length (contents cb))"
    using contents_bound [OF assms] by (simp add: cb_capacity_def)
  with cb_write_result [OF assms, of "int (length d)" d self intr] show ?thesis
    by (auto simp: write_result_def Let_def cb_put_def cb_capacity_def)
qed

lemma cb_get_law:
  assumes "circ_inv cb"
  shows "\<exists>cb'. cb_get self intr k cb = Inr (cb', take k (contents cb)) \<and> circ_inv cb'
      \<and> cb_capacity cb' = cb_capacity cb \<and> contents cb' = drop k (contents cb)"
proof -
  have "nat (min (int k) (int (length (contents cb)))) = min k (length (contents cb))" by simp
  with cb_read_result [OF assms, of "int k" "replicate k 0" self intr "-1"] show ?thesis
    by (auto simp: read_result_def Let_def cb_get_def cb_capacity_def min_def)
qed

interpretation cbq: byte_queue circ_inv contents cb_capacity "cb_put self intr" "cb_get self intr"
  for self intr
proof (unfold_locales, goal_cases)
  case (1 q d)
  then show ?case by (rule cb_put_law)
next
  case (2 q k)
  then show ?case by (rule cb_get_law)
next
  case (3 q)
  then show ?case using contents_bound [of q] by (auto simp: cb_capacity_def circ_inv_def)
qed

subsection \<open>Properties\<close>

text \<open>
  Threads interleave at suspension points only, so what happens to a buffer is a sequence
  of stretches, each one thread's uninterrupted stay inside \<open>read\<close>, \<open>write\<close> or
  \<open>writeAtomic\<close>. \<open>stretch_run\<close> plays such a sequence and collects the bytes taken from
  the callers and the bytes handed to the callers.
\<close>

datatype stretch =
    SRead tid bool int nat
  | SWrite tid bool "u8 list"
  | SWriteAtomic tid bool "u8 list"

fun stretch_step :: "stretch \<Rightarrow> circ \<Rightarrow> (circ \<times> u8 list \<times> u8 list) res" where
  "stretch_step (SRead self intr quota k) cb =
     res_bind (cb_read self intr (replicate k 0) (int k) quota cb)
       (\<lambda>(cb', buffer, offset, left, ex). Inr (cb', [], take (nat offset) buffer))"
| "stretch_step (SWrite self intr d) cb =
     res_bind (cb_write self intr d (int (length d)) cb)
       (\<lambda>(cb', offset, left, ex). Inr (cb', take (nat offset) d, []))"
| "stretch_step (SWriteAtomic self intr d) cb =
     res_bind (cb_writeAtomic self intr d (int (length d)) cb)
       (\<lambda>(cb', offset, left, ex). Inr (cb', take (nat offset) d, []))"

fun stretch_run :: "stretch list \<Rightarrow> circ \<Rightarrow> (circ \<times> u8 list \<times> u8 list) res" where
  "stretch_run [] cb = Inr (cb, [], [])"
| "stretch_run (s # ss) cb =
     res_bind (stretch_step s cb) (\<lambda>(cb1, w1, r1).
     res_bind (stretch_run ss cb1) (\<lambda>(cb2, w2, r2). Inr (cb2, w1 @ w2, r1 @ r2)))"

lemma stretch_step_ok:
  assumes "circ_inv cb"
  shows "\<exists>cb' w r. stretch_step s cb = Inr (cb', w, r) \<and> circ_inv cb' \<and> m_size cb' = m_size cb
           \<and> contents cb @ w = r @ contents cb'"
proof (cases s)
  case (SRead self intr quota k)
  have "nat (min (int k) (int (length (contents cb)))) = min k (length (contents cb))" by simp
  with SRead cb_read_result [OF assms, of "int k" "replicate k 0" self intr quota]
  show ?thesis by (auto simp: read_result_def Let_def min_def)
next
  case (SWrite self intr d)
  with cb_write_result [OF assms, of "int (length d)" d self intr]
  show ?thesis by (auto simp: write_result_def Let_def)
next
  case (SWriteAtomic self intr d)
  with writeAtomic_loop_cases [OF assms, of "int (length d)" 0 d self intr] assms
  show ?thesis by (auto simp: cb_writeAtomic_def split: if_splits simp del: circ_inv_event)
qed

text \<open>
  C1. Pipes, message queues and TCP buffers never corrupt or reorder a stream: whatever
  threads do to a well-formed buffer with \<open>read\<close>, \<open>write\<close> and \<open>writeAtomic\<close>, in whatever
  interleaving, no access leaves the allocation, the buffer stays well formed, and the bytes
  it held followed by those accepted are the bytes handed out followed by those it holds.
\<close>

theorem circ_stream:
  assumes "circ_inv cb"
  shows "\<exists>cb' w r. stretch_run ss cb = Inr (cb', w, r) \<and> circ_inv cb'
           \<and> contents cb @ w = r @ contents cb' \<and> int (length (contents cb')) < m_size cb"
  using assms
proof (induction ss arbitrary: cb)
  case Nil
  then show ?case using contents_bound by simp
next
  case (Cons s ss)
  obtain cb1 w1 r1 where 1: "stretch_step s cb = Inr (cb1, w1, r1)" "circ_inv cb1"
      "m_size cb1 = m_size cb" "contents cb @ w1 = r1 @ contents cb1"
    using stretch_step_ok [OF Cons.prems] by blast
  obtain cb2 w2 r2 where 2: "stretch_run ss cb1 = Inr (cb2, w2, r2)" "circ_inv cb2"
      "contents cb1 @ w2 = r2 @ contents cb2" "int (length (contents cb2)) < m_size cb1"
    using Cons.IH [OF 1(2)] by blast
  have "contents cb @ w1 @ w2 = (r1 @ r2) @ contents cb2"
    using 1(4) 2(3) by (metis append.assoc)
  with 1 2 show ?case by simp
qed

text \<open>Witness of C1: two writers and a reader on a pipe-sized buffer.\<close>

theorem circ_stream_witness:
  "\<exists>cb' w r. stretch_run [SWrite 1 False [1, 2, 3], SWriteAtomic 2 False [4], SRead 3 False 1 2]
       (newCircularBuffer 8192) = Inr (cb', w, r)
     \<and> contents (newCircularBuffer 8192) @ w = r @ contents cb'"
proof -
  have "circ_inv (newCircularBuffer 8192)" by simp
  from circ_stream [OF this] show ?thesis by blast
qed

text \<open>
  A call of \<open>CircularBuffer::read\<close> delivers the oldest bytes in order, as many as there
  are up to the request, leaves the rest of the caller's buffer alone and keeps the rest
  queued. It finishes when the request is met, or when \<open>quota\<close> bytes have been delivered;
  it suspends otherwise, and then it is on the buffer's event. The interruption test takes
  part only for a request larger than the whole buffer.
\<close>

lemma cb_read_spec:
  assumes "circ_inv cb" "0 \<le> len" "len \<le> int (length buffer)"
    and "n = min len (int (length (contents cb)))"
  shows "\<exists>cb'. cb_read self intr buffer len quota cb =
      Inr (cb', take (nat n) (contents cb) @ drop (nat n) buffer, n, len - n,
           if n = len then Completed
           else if (m_size cb - 1 < len - n \<and> intr) \<or> (quota \<noteq> -1 \<and> n \<ge> quota) then Interrupted
           else Blocked)
    \<and> circ_inv cb' \<and> contents cb' = drop (nat n) (contents cb)
    \<and> (n < len \<and> \<not> intr \<and> quota = -1 \<longrightarrow> self \<in> set (m_tiddies (m_event cb')))"
  using cb_read_result [OF assms(1-3), of self intr quota]
  unfolding read_result_def Let_def assms(4) [symmetric] read_exit_def by auto

text \<open>
  \<open>CircularBuffer::writeAtomic\<close> is all or nothing, but it needs the whole request in one
  piece before the end of the array: when the request crosses the end it suspends even on
  an empty buffer with room for it, interrupted or not, changes nothing but the wait
  queue, and no amount of reading will ever let it through.
\<close>

lemma writeAtomic_all_or_nothing:
  assumes "circ_inv cb" "0 < len" "len \<le> int (length buffer)"
    and "fits \<longleftrightarrow> len \<le> m_size cb - m_writePos cb \<and> len \<le> m_size cb - 1 - int (length (contents cb))"
  shows "\<exists>cb' ex. cb_writeAtomic self intr buffer len cb =
           Inr (cb', if fits then len else 0, if fits then 0 else len, ex)
         \<and> circ_inv cb' \<and> (ex = Completed \<longleftrightarrow> fits)
         \<and> contents cb' = contents cb @ (if fits then take (nat len) buffer else [])
         \<and> (m_size cb - m_writePos cb < len \<and> contents cb = [] \<and> len \<le> m_size cb - 1
              \<longrightarrow> ex = Blocked \<and> m_writePos cb' = m_writePos cb)"
proof (cases "len \<le> writeAvailableCut cb")
  case True
  with writeAtomic_loop_cases [OF assms(1,2), of 0 buffer self intr] assms
  show ?thesis by (auto simp: cb_writeAtomic_def writeAvailableCut_contents)
next
  case False
  let ?ex = "if writeAvailable cb < len \<and> intr then Interrupted else Blocked"
  let ?cb = "if writeAvailable cb < len \<and> intr then cb
             else cb\<lparr>m_event := event_enqueue self (m_event cb)\<rparr>"
  from False writeAtomic_loop_cases [OF assms(1,2), of 0 buffer self intr] assms
  have "cb_writeAtomic self intr buffer len cb = Inr (?cb, 0, len, ?ex)"
    by (simp add: cb_writeAtomic_def)
  with False assms show ?thesis
    by (intro exI [of _ ?cb] exI [of _ ?ex])
       (auto simp: writeAvailableCut_contents writeAvailable_contents simp del: circ_inv_event)
qed

text \<open>
  \<open>CircularBuffer::resize\<close> keeps \<open>m_size\<close>, so shrinking leaves the positions free to
  run past the new allocation: a write that fits the old size but not the new one touches
  memory outside the buffer.
\<close>

lemma resize_shrink_overruns:
  assumes "circ_inv cb" "0 \<le> new_size" "new_size < len" "len < m_size cb"
    and "len \<le> int (length buffer)"
  shows "m_size (resize new_size cb) = m_size cb
    \<and> int (length (m_buffer (resize new_size cb))) = new_size
    \<and> cb_write self intr buffer len (resize new_size cb) = Inl OutOfBounds"
proof -
  let ?cb = "resize new_size cb"
  have fields: "m_size ?cb = m_size cb" "m_writePos ?cb = 0" "m_readPos ?cb = 0"
      "length (m_buffer ?cb) = nat new_size"
    using assms by (auto simp: resize_def circ_inv_def)
  have cut: "writeAvailableCut ?cb = m_size cb - 1"
    using assms(1) by (auto simp: writeAvailableCut_def findDistance_def fields circ_inv_def Let_def)
  have "copy_bytes (m_buffer ?cb) 0 buffer 0 len = Inl OutOfBounds"
    using memcpy_overrun [of 0 "nat len" buffer 0 "m_buffer ?cb"] fields assms
    by (simp add: copy_bytes_def memcpy_def)
  with assms have "cb_write self intr buffer len ?cb = Inl OutOfBounds"
    unfolding cb_write_def by (subst write_loop.simps) (simp add: cut fields Let_def)
  with fields assms show ?thesis by simp
qed

end
