(* ===== verification/Bitmap.thy ===== *)
theory Bitmap
  imports CString
begin

unbundle bit_operations_syntax

text \<open>
  Allocation bitmaps. The frame allocator, the kernel heap and the port tables of the
  network stack all keep an array of \<open>uint32_t\<close> and walk it with a word index \<open>ii\<close> and a
  bit index \<open>ib\<close>. This theory reads such an array as a set of taken slots and says what
  the single-bit operations of the source (\<open>m & (1 << ib)\<close>, \<open>m |= 1 << ib\<close>,
  \<open>m &= ~(1 << ib)\<close>) and their sweeps over a range do to it.
\<close>

definition bm_get :: "u32 list \<Rightarrow> nat \<Rightarrow> bool" where
  "bm_get bm i = bit (bm ! (i div 32)) (i mod 32)"

definition bm_bits :: "u32 list \<Rightarrow> nat" where
  "bm_bits bm = 32 * length bm"

definition free_run :: "u32 list \<Rightarrow> nat \<Rightarrow> nat \<Rightarrow> bool" where
  "free_run bm s n \<longleftrightarrow> (\<forall>j < n. \<not> bm_get bm (s + j))"

definition used_run :: "u32 list \<Rightarrow> nat \<Rightarrow> nat \<Rightarrow> bool" where
  "used_run bm s n \<longleftrightarrow> (\<forall>j < n. bm_get bm (s + j))"

definition free_count :: "u32 list \<Rightarrow> nat \<Rightarrow> nat" where
  "free_count bm n = card {i. i < n \<and> \<not> bm_get bm i}"

text \<open>\<open>1 << ib\<close> as the 32-bit mask, and the index pair of the next slot.\<close>

definition bit_mask :: "nat \<Rightarrow> u32" where
  "bit_mask ib = push_bit ib 1"

definition next_slot :: "nat \<Rightarrow> nat \<Rightarrow> nat \<times> nat" where
  "next_slot ii ib = (let ib = ib + 1 in if ib \<ge> 32 then (ii + 1, 0) else (ii, ib))"

lemma mask_test [simp]: "(w AND bit_mask ib \<noteq> 0) = bit w ib"
  unfolding bit_mask_def bit_iff_and_push_bit_not_eq_0 ..

lemma mask_test0 [simp]: "(w AND bit_mask ib = 0) = (\<not> bit w ib)"
  using mask_test [of w ib] by blast

lemma bit_mask_bit [simp]: "bit (bit_mask ib) j \<longleftrightarrow> j = ib \<and> ib < 32"
  by (auto simp: bit_mask_def bit_exp_iff)

lemma next_slot_index:
  "ib < 32 \<Longrightarrow> next_slot ii ib = (ii', ib') \<Longrightarrow> ib' < 32 \<and> 32 * ii' + ib' = Suc (32 * ii + ib)"
  by (auto simp: next_slot_def Let_def split: if_splits)

lemma slot_split: "(32 * ii + ib) div 32 = ii" "(32 * ii + ib) mod 32 = ib" if "ib < 32"
  for ii ib :: nat
  using that by simp_all

lemma bm_get_set:
  assumes "ii < length bm" "ib < 32"
  shows "bm_get (bm[ii := bm ! ii OR bit_mask ib]) i \<longleftrightarrow> bm_get bm i \<or> i = 32 * ii + ib"
proof (cases "i div 32 = ii")
  case True
  then have "i = 32 * ii + ib \<longleftrightarrow> i mod 32 = ib" by presburger
  with assms True show ?thesis
    by (auto simp: bm_get_def bit_or_iff)
next
  case False
  with assms show ?thesis by (auto simp: bm_get_def)
qed

lemma bm_get_clear:
  assumes "ii < length bm" "ib < 32"
  shows "bm_get (bm[ii := bm ! ii AND NOT (bit_mask ib)]) i \<longleftrightarrow> bm_get bm i \<and> i \<noteq> 32 * ii + ib"
proof (cases "i div 32 = ii")
  case True
  then have "i = 32 * ii + ib \<longleftrightarrow> i mod 32 = ib" by presburger
  with assms True show ?thesis
    by (auto simp: bm_get_def bit_and_iff bit_not_iff)
next
  case False
  with assms show ?thesis by (auto simp: bm_get_def)
qed

lemma bm_get_slot [bitmap_simps]: "ib < 32 \<Longrightarrow> bit (bm ! ii) ib = bm_get bm (32 * ii + ib)"
  by (simp add: bm_get_def)

lemma free_run_Suc: "free_run bm s (Suc n) \<longleftrightarrow> \<not> bm_get bm s \<and> free_run bm (Suc s) n"
  by (auto simp: free_run_def less_Suc_eq_0_disj)

lemma used_run_Suc: "used_run bm s (Suc n) \<longleftrightarrow> bm_get bm s \<and> used_run bm (Suc s) n"
  by (auto simp: used_run_def less_Suc_eq_0_disj)

lemma free_run_0 [simp]: "free_run bm s 0"
  by (simp add: free_run_def)

lemma free_run_append: "free_run bm s (a + b) \<longleftrightarrow> free_run bm s a \<and> free_run bm (s + a) b"
  by (induction a arbitrary: s) (simp_all add: free_run_Suc)

lemma free_run_iff: "free_run bm s n \<longleftrightarrow> (\<forall>i \<in> {s..<s + n}. \<not> bm_get bm i)"
  by (auto simp: free_run_def dest!: le_Suc_ex)

lemma used_run_iff: "used_run bm s n \<longleftrightarrow> (\<forall>i \<in> {s..<s + n}. bm_get bm i)"
  by (auto simp: used_run_def dest!: le_Suc_ex)

lemma free_run_le: "free_run bm s n \<Longrightarrow> m \<le> n \<Longrightarrow> free_run bm s m"
  by (auto simp: free_run_def)

lemma taken_union:
  "(\<And>i. P' i \<longleftrightarrow> P i \<or> a \<le> i \<and> i < b) \<Longrightarrow> b \<le> N \<Longrightarrow>
     {i. i < N \<and> P' i} = {i. i < N \<and> P i} \<union> {a..<b}" for a b N :: nat
  by (simp add: set_eq_iff) (metis order_less_le_trans)

lemma taken_diff:
  "(\<And>i. P' i \<longleftrightarrow> P i \<and> \<not> (a \<le> i \<and> i < b)) \<Longrightarrow>
     {i. i < N \<and> P' i} = {i. i < N \<and> P i} - {a..<b}" for a b N :: nat
  by (simp add: set_eq_iff)

lemma free_count_le: "free_count bm n \<le> n"
proof -
  have "card {i. i < n \<and> \<not> bm_get bm i} \<le> card {..<n}"
    by (rule card_mono) auto
  then show ?thesis by (simp add: free_count_def)
qed

lemma free_count_all: "\<forall>i < n. \<not> bm_get bm i \<Longrightarrow> free_count bm n = n"
proof -
  assume "\<forall>i < n. \<not> bm_get bm i"
  then have "{i. i < n \<and> \<not> bm_get bm i} = {..<n}" by auto
  then show ?thesis by (simp add: free_count_def)
qed

lemma free_run_count:
  assumes "free_run bm s k" "s + k \<le> n"
  shows "k \<le> free_count bm n"
proof -
  have "card {s..<s + k} \<le> card {i. i < n \<and> \<not> bm_get bm i}"
    using assms by (intro card_mono) (auto simp: free_run_def dest!: le_Suc_ex)
  then show ?thesis by (simp add: free_count_def)
qed

text \<open>Taking, or giving back, a run changes the number of free slots by its length.\<close>

lemma free_count_take:
  assumes "free_run bm s k" "s + k \<le> n"
    and "\<forall>i < n. bm_get bm' i \<longleftrightarrow> bm_get bm i \<or> s \<le> i \<and> i < s + k"
  shows "free_count bm' n = free_count bm n - k"
proof -
  have "{i. i < n \<and> \<not> bm_get bm' i} = {i. i < n \<and> \<not> bm_get bm i} - {s..<s + k}"
    using assms(3) by auto
  moreover have "{s..<s + k} \<subseteq> {i. i < n \<and> \<not> bm_get bm i}"
    using assms(1,2) by (auto simp: free_run_def dest!: le_Suc_ex)
  ultimately show ?thesis by (simp add: free_count_def card_Diff_subset)
qed

lemma free_count_give:
  assumes "used_run bm s k" "s + k \<le> n"
    and "\<forall>i < n. bm_get bm' i \<longleftrightarrow> bm_get bm i \<and> \<not> (s \<le> i \<and> i < s + k)"
  shows "free_count bm' n = free_count bm n + k"
proof -
  have "{i. i < n \<and> \<not> bm_get bm' i} = {i. i < n \<and> \<not> bm_get bm i} \<union> {s..<s + k}"
    using assms by auto
  moreover have "{s..<s + k} \<inter> {i. i < n \<and> \<not> bm_get bm i} = {}"
    using assms(1) by (auto simp: used_run_def dest!: le_Suc_ex)
  ultimately show ?thesis by (simp add: free_count_def card_Un_disjoint Int_commute)
qed

subsection \<open>First-fit search\<close>

text \<open>What the loop knows before frame \<open>i\<close>: the \<open>f\<close> frames before it are free, the run
  cannot be extended to the left, and no run of the wanted length ends before \<open>i\<close>.\<close>

definition search_inv :: "u32 list \<Rightarrow> nat \<Rightarrow> nat \<Rightarrow> nat \<Rightarrow> bool" where
  "search_inv bm want i f \<longleftrightarrow>
     f \<le> i \<and> f < want \<and> free_run bm (i - f) f \<and> (f = i \<or> bm_get bm (i - f - 1))
     \<and> (\<forall>s. s + want \<le> i \<longrightarrow> \<not> free_run bm s want)"

definition first_run :: "u32 list \<Rightarrow> nat \<Rightarrow> nat \<Rightarrow> nat \<Rightarrow> bool" where
  "first_run bm want limit s \<longleftrightarrow>
     s + want \<le> limit \<and> free_run bm s want \<and> (\<forall>s' < s. \<not> free_run bm s' want)"

definition no_run :: "u32 list \<Rightarrow> nat \<Rightarrow> nat \<Rightarrow> bool" where
  "no_run bm want limit \<longleftrightarrow> (\<forall>s. s + want \<le> limit \<longrightarrow> \<not> free_run bm s want)"

text \<open>What a finished search reports: the first run that is long enough, or \<open>-1\<close>.\<close>

definition find_post :: "u32 list \<Rightarrow> nat \<Rightarrow> nat \<Rightarrow> int \<Rightarrow> bool" where
  "find_post bm want limit r \<longleftrightarrow>
     (if r = -1 then no_run bm want limit else 0 \<le> r \<and> first_run bm want limit (nat r))"

lemma free_run_snoc: "free_run bm s n \<Longrightarrow> \<not> bm_get bm (s + n) \<Longrightarrow> free_run bm s (Suc n)"
  by (simp add: free_run_def less_Suc_eq)

lemma free_run_last: "free_run bm s n \<Longrightarrow> s \<le> i \<Longrightarrow> i < s + n \<Longrightarrow> \<not> bm_get bm i"
  by (auto simp: free_run_def dest!: le_Suc_ex)

lemma search_inv_start: "0 < want \<Longrightarrow> search_inv bm want 0 0"
  by (simp add: search_inv_def)

lemma search_inv_taken:
  assumes "search_inv bm want i f" "bm_get bm i"
  shows "search_inv bm want (Suc i) 0"
proof -
  have "\<not> free_run bm s want" if "s + want \<le> Suc i" for s
    using assms that free_run_last [of bm s want i] by (cases "s + want = Suc i") (auto simp: search_inv_def)
  then show ?thesis using assms by (auto simp: search_inv_def)
qed

lemma search_inv_free:
  assumes "search_inv bm want i f" "\<not> bm_get bm i" "Suc f < want"
  shows "search_inv bm want (Suc i) (Suc f)"
proof -
  have "\<not> free_run bm s want" if "s + want \<le> Suc i" for s
  proof (cases "s + want = Suc i")
    case True
    then have "s \<le> i - f - 1" "i - f - 1 < s + want" "f \<noteq> i"
      using assms(3) by auto
    then show ?thesis
      using assms(1) free_run_last [of bm s want "i - f - 1"] by (auto simp: search_inv_def)
  next
    case False
    with that assms(1) show ?thesis by (simp add: search_inv_def)
  qed
  moreover have "free_run bm (i - f) (Suc f)"
    using assms(1,2) by (auto simp: search_inv_def intro: free_run_snoc)
  ultimately show ?thesis using assms(1,3) by (auto simp: search_inv_def)
qed

lemma search_inv_hit:
  assumes "search_inv bm want i f" "\<not> bm_get bm i" "Suc f = want" "Suc i \<le> limit"
  shows "first_run bm want limit (i - f)"
proof -
  have "free_run bm (i - f) (Suc f)"
    using assms(1,2) by (auto simp: search_inv_def intro: free_run_snoc)
  then show ?thesis using assms by (auto simp: first_run_def search_inv_def)
qed

end
