(* ===== verification/SlotAllocator.thy ===== *)
theory SlotAllocator
  imports Prelude
begin

text \<open>
  The contract between an allocator of consecutive slots and its clients, for physical
  frames and heap pieces alike: a search that returns a start has found a free run, taking
  a free run marks exactly that run, giving a taken run back frees exactly that run. The
  exact variant adds that the search fails only when there is no free run.
\<close>

locale slot_allocator =
  fixes inv :: "'p \<Rightarrow> bool"
    and limit :: "'p \<Rightarrow> nat"
    and taken :: "'p \<Rightarrow> nat set"
    and search :: "nat \<Rightarrow> 'p \<Rightarrow> nat option res"
    and grab :: "nat \<Rightarrow> nat \<Rightarrow> 'p \<Rightarrow> 'p res"
    and give :: "nat \<Rightarrow> nat \<Rightarrow> 'p \<Rightarrow> 'p res"
  assumes search_found: "inv p \<Longrightarrow> search n p = Inr (Some s) \<Longrightarrow>
      0 < n \<and> s + n \<le> limit p \<and> {s..<s + n} \<inter> taken p = {}"
    and grab_law: "inv p \<Longrightarrow> s + n \<le> limit p \<Longrightarrow> {s..<s + n} \<inter> taken p = {} \<Longrightarrow>
      \<exists>p'. grab s n p = Inr p' \<and> inv p' \<and> limit p' = limit p \<and> taken p' = taken p \<union> {s..<s + n}"
    and give_law: "inv p \<Longrightarrow> s + n \<le> limit p \<Longrightarrow> {s..<s + n} \<subseteq> taken p \<Longrightarrow>
      \<exists>p'. give s n p = Inr p' \<and> inv p' \<and> limit p' = limit p \<and> taken p' = taken p - {s..<s + n}"
begin

lemma search_grab:
  assumes "inv p" "search n p = Inr (Some s)"
  shows "\<exists>p'. grab s n p = Inr p' \<and> inv p' \<and> limit p' = limit p
           \<and> taken p' = taken p \<union> {s..<s + n} \<and> {s..<s + n} \<inter> taken p = {}"
  using search_found [OF assms] grab_law [OF assms(1), of s n] by auto

lemma grab_give:
  assumes "inv p" "s + n \<le> limit p" "{s..<s + n} \<inter> taken p = {}"
  shows "\<exists>p' p''. grab s n p = Inr p' \<and> give s n p' = Inr p'' \<and> inv p'' \<and> taken p'' = taken p"
proof -
  obtain p' where 1: "grab s n p = Inr p'" "inv p'" "limit p' = limit p"
      "taken p' = taken p \<union> {s..<s + n}"
    using grab_law [OF assms] by blast
  moreover obtain p'' where "give s n p' = Inr p''" "inv p''" "taken p'' = taken p' - {s..<s + n}"
    using give_law [OF 1(2), of s n] 1 assms(2) by auto
  ultimately show ?thesis using assms(3) by blast
qed

end

locale exact_slot_allocator = slot_allocator +
  assumes search_exact: "inv p \<Longrightarrow> 0 < n \<Longrightarrow> search n p = Inr None \<Longrightarrow>
      s + n \<le> limit p \<Longrightarrow> {s..<s + n} \<inter> taken p \<noteq> {}"
    and search_total: "inv p \<Longrightarrow> \<exists>r. search n p = Inr r"
begin

text \<open>A free run of the wanted length is enough for an allocation to succeed.\<close>

lemma room_suffices:
  assumes "inv p" "0 < n" "s + n \<le> limit p" "{s..<s + n} \<inter> taken p = {}"
  shows "\<exists>s' p'. search n p = Inr (Some s') \<and> grab s' n p = Inr p' \<and> inv p'
           \<and> taken p' = taken p \<union> {s'..<s' + n} \<and> {s'..<s' + n} \<inter> taken p = {}"
proof -
  obtain r where "search n p = Inr r" using search_total [OF assms(1)] by blast
  moreover from this obtain s' where "r = Some s'"
    using search_exact [OF assms(1,2) _ assms(3)] assms(4) by (cases r) auto
  ultimately show ?thesis using search_grab [OF assms(1)] by blast
qed

end

end
