(* ===== verification/FramePiece.thy ===== *)
theory FramePiece
  imports Bitmap SlotAllocator
begin

text \<open>
  One piece of physical memory (\<open>mem/frame_piece.hpp\<close>): a run of page frames with a bitmap
  of the taken ones. \<open>find\<close> searches first fit, \<open>alloc\<close> and \<open>free\<close> mark and unmark a run
  and assert that every frame was in the other state. The loops keep the source's word and
  bit index; \<open>lid\<close> is an \<open>int32_t\<close> that the division by \<open>sizeof\<close> converts to \<open>size_t\<close>.
\<close>

record frame_piece =
  fp_start :: u64
  fp_size :: u32
  frames_free :: u32
  fp_bitmap :: "u32 list"

definition lid_word :: "int \<Rightarrow> nat" where
  "lid_word lid = unat (ucast ((word_of_int lid :: u64) div 32) :: u32)"

definition lid_bit :: "int \<Rightarrow> nat" where
  "lid_bit lid = unat (ucast ((word_of_int lid :: u64) mod 32) :: u16)"

definition i32_of_nat :: "nat \<Rightarrow> int" where
  "i32_of_nat i = sint (word_of_nat i :: u32)"

text \<open>\<open>memset(m_bitmap, 0, amnt / 8)\<close> on memory that held \<open>old\<close>: the first \<open>amnt / 8\<close>
  bytes are cleared, little-endian, and the bits of a last incomplete byte stay.\<close>

definition clear_bytes :: "nat \<Rightarrow> u32 list \<Rightarrow> u32 list" where
  "clear_bytes n old =
     map (\<lambda>(i, w). w AND NOT (mask (8 * min 4 (n - 4 * i)))) (enumerate 0 old)"

definition fp_init :: "u64 \<Rightarrow> u32 \<Rightarrow> u32 list \<Rightarrow> frame_piece" where
  "fp_init addr amnt old =
     \<lparr>fp_start = addr, fp_size = amnt, frames_free = amnt,
      fp_bitmap = clear_bytes (unat (amnt div 8)) old\<rparr>"

fun mark_frames :: "u32 list \<Rightarrow> nat \<Rightarrow> nat \<Rightarrow> nat \<Rightarrow> u32 list res" where
  "mark_frames bm ii ib 0 = Inr bm"
| "mark_frames bm ii ib (Suc n) =
     res_bind (cell_get bm ii) (\<lambda>w.
     res_bind (res_assert (w AND bit_mask ib = 0)) (\<lambda>_.
     res_bind (cell_set bm ii (w OR bit_mask ib)) (\<lambda>bm'.
       case next_slot ii ib of (ii', ib') \<Rightarrow> mark_frames bm' ii' ib' n)))"

definition fp_alloc :: "int \<Rightarrow> u32 \<Rightarrow> frame_piece \<Rightarrow> frame_piece res" where
  "fp_alloc lid amount p =
     res_bind (mark_frames (fp_bitmap p) (lid_word lid) (lid_bit lid) (unat amount)) (\<lambda>bm.
       Inr (p\<lparr>fp_bitmap := bm, frames_free := frames_free p - amount\<rparr>))"

fun unmark_frames :: "u32 list \<Rightarrow> nat \<Rightarrow> nat \<Rightarrow> nat \<Rightarrow> u32 list res" where
  "unmark_frames bm ii ib 0 = Inr bm"
| "unmark_frames bm ii ib (Suc n) =
     res_bind (cell_get bm ii) (\<lambda>w.
     res_bind (res_assert (w AND bit_mask ib \<noteq> 0)) (\<lambda>_.
     res_bind (cell_set bm ii (w AND NOT (bit_mask ib))) (\<lambda>bm'.
       case next_slot ii ib of (ii', ib') \<Rightarrow> unmark_frames bm' ii' ib' n)))"

definition fp_free :: "int \<Rightarrow> u32 \<Rightarrow> frame_piece \<Rightarrow> frame_piece res" where
  "fp_free lid amount p =
     res_bind (unmark_frames (fp_bitmap p) (lid_word lid) (lid_bit lid) (unat amount)) (\<lambda>bm.
       Inr (p\<lparr>fp_bitmap := bm, frames_free := frames_free p + amount\<rparr>))"

text \<open>The search loop, \<open>n\<close> frames still to look at from frame \<open>i\<close> on.\<close>

fun find_frames ::
    "u32 list \<Rightarrow> u32 \<Rightarrow> nat \<Rightarrow> nat \<Rightarrow> nat \<Rightarrow> nat \<Rightarrow> u32 \<Rightarrow> int \<Rightarrow> int res" where
  "find_frames bm amount 0 i ii ib found start = Inr (-1)"
| "find_frames bm amount (Suc n) i ii ib found start =
     res_bind (cell_get bm ii) (\<lambda>w.
       case next_slot ii ib of (ii', ib') \<Rightarrow>
         if w AND bit_mask ib = 0 then
           let start = (if start = -1 then i32_of_nat i else start);
               found = found + 1
           in if found = amount then Inr start
              else find_frames bm amount n (Suc i) ii' ib' found start
         else find_frames bm amount n (Suc i) ii' ib' 0 (-1))"

definition fp_find :: "u32 \<Rightarrow> frame_piece \<Rightarrow> int res" where
  "fp_find amount p =
     (if amount = 0 \<or> amount > frames_free p then Inr (-1)
      else find_frames (fp_bitmap p) amount (unat (fp_size p)) 0 0 0 0 (-1))"

subsection \<open>Invariant\<close>

definition fp_wf :: "frame_piece \<Rightarrow> bool" where
  "fp_wf p \<longleftrightarrow> unat (fp_size p) < 2 ^ 31 \<and> unat (fp_size p) \<le> bm_bits (fp_bitmap p)
     \<and> unat (frames_free p) = free_count (fp_bitmap p) (unat (fp_size p))"

definition fp_taken :: "frame_piece \<Rightarrow> nat set" where
  "fp_taken p = {i. i < unat (fp_size p) \<and> bm_get (fp_bitmap p) i}"

lemma lid_index:
  assumes "0 \<le> lid" "lid < 2 ^ 31"
  shows "lid_bit lid < 32" "32 * lid_word lid + lid_bit lid = nat lid"
proof -
  have u: "unat (word_of_int lid :: u64) = nat lid"
    using assms by (intro unat_word_of_int_small) simp_all
  have "nat lid div 32 < 2 ^ 32" using assms by simp
  then have "lid_word lid = nat lid div 32"
    unfolding lid_word_def unat_ucast_mod unat_div u by simp
  moreover have "lid_bit lid = nat lid mod 32"
    unfolding lid_bit_def unat_ucast_mod unat_mod u by simp
  ultimately show "lid_bit lid < 32" "32 * lid_word lid + lid_bit lid = nat lid" by simp_all
qed

lemma i32_of_nat_small [simp]: "i < 2 ^ 31 \<Longrightarrow> i32_of_nat i = int i"
  by (simp add: i32_of_nat_def signed_of_nat signed_take_bit_int_eq_self)

lemma mark_frames_ok:
  assumes "ib < 32" "32 * ii + ib + n \<le> bm_bits bm" "free_run bm (32 * ii + ib) n"
  shows "\<exists>bm'. mark_frames bm ii ib n = Inr bm' \<and> length bm' = length bm
           \<and> (\<forall>i. bm_get bm' i \<longleftrightarrow> bm_get bm i \<or> 32 * ii + ib \<le> i \<and> i < 32 * ii + ib + n)"
  using assms
proof (induction n arbitrary: bm ii ib)
  case 0
  then show ?case by auto
next
  case (Suc n)
  obtain ii' ib' where nx: "next_slot ii ib = (ii', ib')" by fastforce
  note ix = next_slot_index [OF Suc.prems(1) nx]
  have ii: "ii < length bm" using Suc.prems(2) by (simp add: bm_bits_def)
  have fr: "\<not> bm_get bm (32 * ii + ib)" "free_run bm (32 * ii' + ib') n"
    using Suc.prems(3) ix by (simp_all add: free_run_Suc)
  let ?bm = "bm[ii := bm ! ii OR bit_mask ib]"
  note g = bm_get_set [OF ii Suc.prems(1)]
  have "\<exists>bm'. mark_frames ?bm ii' ib' n = Inr bm' \<and> length bm' = length ?bm
      \<and> (\<forall>i. bm_get bm' i \<longleftrightarrow> bm_get ?bm i \<or> 32 * ii' + ib' \<le> i \<and> i < 32 * ii' + ib' + n)"
    by (rule Suc.IH) (use Suc.prems ix fr in \<open>auto simp: bm_bits_def free_run_def g\<close>)
  moreover have "mark_frames bm ii ib (Suc n) = mark_frames ?bm ii' ib' n"
    using ii fr(1) Suc.prems(1) by (simp add: nx bitmap_simps)
  ultimately show ?case using ix by (auto simp: g)
qed

lemma mark_frames_taken:
  assumes "ib < 32" "32 * ii + ib + n \<le> bm_bits bm" "\<not> free_run bm (32 * ii + ib) n"
  shows "mark_frames bm ii ib n = Inl AssertFailed"
  using assms
proof (induction n arbitrary: bm ii ib)
  case 0
  then show ?case by (simp add: free_run_def)
next
  case (Suc n)
  obtain ii' ib' where nx: "next_slot ii ib = (ii', ib')" by fastforce
  note ix = next_slot_index [OF Suc.prems(1) nx]
  have ii: "ii < length bm" using Suc.prems(2) by (simp add: bm_bits_def)
  let ?bm = "bm[ii := bm ! ii OR bit_mask ib]"
  note g = bm_get_set [OF ii Suc.prems(1)]
  show ?case
  proof (cases "bm_get bm (32 * ii + ib)")
    case True
    then show ?thesis using ii Suc.prems(1) by (simp add: nx bitmap_simps)
  next
    case False
    then have "\<not> free_run ?bm (32 * ii' + ib') n"
      using Suc.prems(3) ix by (auto simp: free_run_Suc) (auto simp: free_run_def g)
    then have "mark_frames ?bm ii' ib' n = Inl AssertFailed"
      by (intro Suc.IH) (use Suc.prems ix in \<open>auto simp: bm_bits_def\<close>)
    then show ?thesis using ii False Suc.prems(1) by (simp add: nx bitmap_simps)
  qed
qed

lemma unmark_frames_ok:
  assumes "ib < 32" "32 * ii + ib + n \<le> bm_bits bm" "used_run bm (32 * ii + ib) n"
  shows "\<exists>bm'. unmark_frames bm ii ib n = Inr bm' \<and> length bm' = length bm
           \<and> (\<forall>i. bm_get bm' i \<longleftrightarrow> bm_get bm i \<and> \<not> (32 * ii + ib \<le> i \<and> i < 32 * ii + ib + n))"
  using assms
proof (induction n arbitrary: bm ii ib)
  case 0
  then show ?case by auto
next
  case (Suc n)
  obtain ii' ib' where nx: "next_slot ii ib = (ii', ib')" by fastforce
  note ix = next_slot_index [OF Suc.prems(1) nx]
  have ii: "ii < length bm" using Suc.prems(2) by (simp add: bm_bits_def)
  have us: "bm_get bm (32 * ii + ib)" "used_run bm (32 * ii' + ib') n"
    using Suc.prems(3) ix by (simp_all add: used_run_Suc)
  let ?bm = "bm[ii := bm ! ii AND NOT (bit_mask ib)]"
  note g = bm_get_clear [OF ii Suc.prems(1)]
  have "\<exists>bm'. unmark_frames ?bm ii' ib' n = Inr bm' \<and> length bm' = length ?bm
      \<and> (\<forall>i. bm_get bm' i \<longleftrightarrow> bm_get ?bm i \<and> \<not> (32 * ii' + ib' \<le> i \<and> i < 32 * ii' + ib' + n))"
    by (rule Suc.IH) (use Suc.prems ix us in \<open>auto simp: bm_bits_def used_run_def g\<close>)
  moreover have "unmark_frames bm ii ib (Suc n) = unmark_frames ?bm ii' ib' n"
    using ii us(1) Suc.prems(1) by (simp add: nx bitmap_simps)
  ultimately show ?case using ix by (auto simp: g)
qed


subsection \<open>The search\<close>

lemma find_frames_spec:
  assumes "ib < 32" "32 * ii + ib = i" "i + n \<le> bm_bits bm" "i + n < 2 ^ 31"
    and "search_inv bm (unat amount) i (unat found)"
    and "start = (if found = 0 then -1 else int (i - unat found))"
  shows "\<exists>r. find_frames bm amount n i ii ib found start = Inr r
     \<and> find_post bm (unat amount) (i + n) r"
  using assms
proof (induction n arbitrary: i ii ib found start)
  case 0
  then show ?case by (simp add: search_inv_def no_run_def find_post_def)
next
  case (Suc n)
  obtain ii' ib' where nx: "next_slot ii ib = (ii', ib')" by fastforce
  note ix = next_slot_index [OF Suc.prems(1) nx]
  have ii: "ii < length bm" using Suc.prems(2,3) by (simp add: bm_bits_def)
  have bit: "bit (bm ! ii) ib = bm_get bm i" using Suc.prems(1,2) by (simp add: bitmap_simps)
  note IH = Suc.IH [of ib' ii' "Suc i"]
  have ix': "ib' < 32" "32 * ii' + ib' = Suc i" using ix Suc.prems(2) by simp_all
  show ?case
  proof (cases "bm_get bm i")
    case True
    then show ?thesis
      using IH [of 0 "-1"] ix' Suc.prems search_inv_taken [OF Suc.prems(5) True] ii
      by (simp add: nx bit)
  next
    case free: False
    have found1: "unat (found + 1) = Suc (unat found)"
      using Suc.prems(5) unat_less_2p [of amount] by (simp add: search_inv_def unat_word_ariths)
    let ?start = "if start = -1 then i32_of_nat i else start"
    have start: "?start = int (Suc i - unat (found + 1))"
      by (cases "found = 0") (use Suc.prems(4,6) in \<open>simp_all add: found1 del: of_nat_diff\<close>)
    show ?thesis
    proof (cases "found + 1 = amount")
      case True
      then have "Suc (unat found) = unat amount" using found1 by simp
      then have "first_run bm (unat amount) (i + Suc n) (i - unat found)"
        by (intro search_inv_hit [OF Suc.prems(5) free]) simp_all
      then show ?thesis using True free ii start found1 by (simp add: nx bit find_post_def)
    next
      case False
      then have "Suc (unat found) < unat amount"
        using found1 Suc.prems(5) by (metis Suc_lessI search_inv_def word_unat_eq_iff)
      then have "search_inv bm (unat amount) (Suc i) (unat (found + 1))"
        using search_inv_free [OF Suc.prems(5) free] found1 by simp
      moreover have "found + 1 \<noteq> 0" using found1 by (metis unat_0 nat.distinct(1))
      ultimately show ?thesis
        using IH [of "found + 1" ?start] False ix' Suc.prems(3,4) start free ii
        by (simp add: nx bit Let_def)
    qed
  qed
qed

lemma fp_find_result:
  assumes "fp_wf p"
  shows "\<exists>r. fp_find amount p = Inr r
     \<and> (amount = 0 \<and> r = -1 \<or>
        amount \<noteq> 0 \<and> find_post (fp_bitmap p) (unat amount) (unat (fp_size p)) r)"
proof (cases "amount = 0 \<or> amount > frames_free p")
  case True
  have "no_run (fp_bitmap p) (unat amount) (unat (fp_size p))" if "amount > frames_free p"
    using that assms free_run_count
    by (fastforce simp: no_run_def fp_wf_def word_less_nat_alt not_le [symmetric])
  with True show ?thesis by (auto simp: fp_find_def find_post_def)
next
  case False
  with find_frames_spec [of 0 0 0 "unat (fp_size p)" "fp_bitmap p" amount 0 "-1"] assms
  show ?thesis
    by (auto simp: fp_find_def fp_wf_def search_inv_start unat_gt_0 split: if_splits)
qed

lemma fp_alloc_ok:
  assumes "fp_wf p" "0 \<le> lid" "nat lid + unat amount \<le> unat (fp_size p)"
    and "free_run (fp_bitmap p) (nat lid) (unat amount)"
  shows "\<exists>p'. fp_alloc lid amount p = Inr p' \<and> fp_wf p' \<and> fp_start p' = fp_start p
     \<and> fp_size p' = fp_size p \<and> frames_free p' = frames_free p - amount
     \<and> (\<forall>i. bm_get (fp_bitmap p') i \<longleftrightarrow>
            bm_get (fp_bitmap p) i \<or> nat lid \<le> i \<and> i < nat lid + unat amount)"
proof -
  have lid: "lid < 2 ^ 31" using assms(1,3) by (simp add: fp_wf_def) linarith
  note ix = lid_index [OF assms(2) lid]
  obtain bm where bm: "mark_frames (fp_bitmap p) (lid_word lid) (lid_bit lid) (unat amount) = Inr bm"
    "length bm = length (fp_bitmap p)"
    "\<forall>i. bm_get bm i \<longleftrightarrow> bm_get (fp_bitmap p) i \<or> nat lid \<le> i \<and> i < nat lid + unat amount"
    using mark_frames_ok [OF ix(1), of "lid_word lid" "unat amount" "fp_bitmap p"] assms
    unfolding ix(2) by (auto simp: fp_wf_def)
  have "unat (frames_free p - amount) = free_count bm (unat (fp_size p))"
    using free_count_take [OF assms(4,3)] bm(3) free_run_count [OF assms(4,3)] assms(1)
    by (simp add: fp_wf_def unat_sub word_le_nat_alt)
  then show ?thesis using bm assms(1) by (simp add: fp_alloc_def fp_wf_def bm_bits_def)
qed

lemma fp_free_ok:
  assumes "fp_wf p" "0 \<le> lid" "nat lid + unat amount \<le> unat (fp_size p)"
    and "used_run (fp_bitmap p) (nat lid) (unat amount)"
  shows "\<exists>p'. fp_free lid amount p = Inr p' \<and> fp_wf p' \<and> fp_start p' = fp_start p
     \<and> fp_size p' = fp_size p \<and> frames_free p' = frames_free p + amount
     \<and> (\<forall>i. bm_get (fp_bitmap p') i \<longleftrightarrow>
            bm_get (fp_bitmap p) i \<and> \<not> (nat lid \<le> i \<and> i < nat lid + unat amount))"
proof -
  have lid: "lid < 2 ^ 31" using assms(1,3) by (simp add: fp_wf_def) linarith
  note ix = lid_index [OF assms(2) lid]
  obtain bm where bm: "unmark_frames (fp_bitmap p) (lid_word lid) (lid_bit lid) (unat amount) = Inr bm"
    "length bm = length (fp_bitmap p)"
    "\<forall>i. bm_get bm i \<longleftrightarrow> bm_get (fp_bitmap p) i \<and> \<not> (nat lid \<le> i \<and> i < nat lid + unat amount)"
    using unmark_frames_ok [OF ix(1), of "lid_word lid" "unat amount" "fp_bitmap p"] assms
    unfolding ix(2) by (auto simp: fp_wf_def)
  have cnt: "free_count bm (unat (fp_size p)) = unat (frames_free p) + unat amount"
    using free_count_give [OF assms(4,3)] bm(3) assms(1) by (simp add: fp_wf_def)
  moreover have "unat (frames_free p + amount) = unat (frames_free p) + unat amount"
    using cnt free_count_le [of bm "unat (fp_size p)"] assms(1)
    by (simp add: fp_wf_def unat_word_ariths)
  ultimately show ?thesis using bm assms(1) by (simp add: fp_free_def fp_wf_def bm_bits_def)
qed


subsection \<open>A frame piece as an exact slot allocator\<close>

definition fp_search :: "nat \<Rightarrow> frame_piece \<Rightarrow> nat option res" where
  "fp_search n p =
     (if n < 2 ^ 32 then
        res_bind (fp_find (word_of_nat n) p) (\<lambda>r. Inr (if r = -1 then None else Some (nat r)))
      else Inr None)"

definition fp_grab :: "nat \<Rightarrow> nat \<Rightarrow> frame_piece \<Rightarrow> frame_piece res" where
  "fp_grab s n p = fp_alloc (int s) (word_of_nat n) p"

definition fp_give :: "nat \<Rightarrow> nat \<Rightarrow> frame_piece \<Rightarrow> frame_piece res" where
  "fp_give s n p = fp_free (int s) (word_of_nat n) p"

lemma free_run_taken:
  "s + n \<le> unat (fp_size p) \<Longrightarrow>
     free_run (fp_bitmap p) s n \<longleftrightarrow> {s..<s + n} \<inter> fp_taken p = {}"
  by (auto simp: free_run_iff fp_taken_def)

lemma used_run_taken:
  "s + n \<le> unat (fp_size p) \<Longrightarrow> used_run (fp_bitmap p) s n \<longleftrightarrow> {s..<s + n} \<subseteq> fp_taken p"
  by (auto simp: used_run_iff fp_taken_def)

lemma unat_small: "n \<le> unat (w :: u32) \<Longrightarrow> unat (word_of_nat n :: u32) = n"
  using unat_less_2p [of w] by (simp add: unat_of_nat)

interpretation fpa: exact_slot_allocator fp_wf "\<lambda>p. unat (fp_size p)" fp_taken fp_search fp_grab fp_give
proof (unfold_locales, goal_cases)
  case (1 p n s)
  then have n: "n < 2 ^ 32" "unat (word_of_nat n :: u32) = n"
    by (auto simp: fp_search_def unat_of_nat split: if_splits)
  from 1 fp_find_result [OF 1(1), of "word_of_nat n"] n
  have "0 < n" "first_run (fp_bitmap p) n (unat (fp_size p)) s"
    by (auto simp: fp_search_def find_post_def unat_eq_0 [symmetric] split: if_splits)
  then show ?case using free_run_taken by (auto simp: first_run_def)
next
  case (2 p s n)
  then show ?case
    using fp_alloc_ok [of p "int s" "word_of_nat n"] unat_small [of n "fp_size p"]
    by (fastforce simp: fp_grab_def free_run_taken fp_taken_def)
next
  case (3 p s n)
  then show ?case
    using fp_free_ok [of p "int s" "word_of_nat n"] unat_small [of n "fp_size p"]
    by (fastforce simp: fp_give_def used_run_taken fp_taken_def)
next
  case (4 p n s)
  have n: "n < 2 ^ 32" using 4(4) unat_less_2p [of "fp_size p"] by simp
  with 4 fp_find_result [OF 4(1), of "word_of_nat n"]
  have "no_run (fp_bitmap p) n (unat (fp_size p))"
    by (auto simp: fp_search_def find_post_def unat_of_nat word_of_nat_eq_0_iff split: if_splits
        dest!: nat_dvd_not_less)
  then show ?case using 4(4) free_run_taken by (auto simp: no_run_def)
next
  case (5 p n)
  then show ?case using fp_find_result [OF 5, of "word_of_nat n"] by (auto simp: fp_search_def)
qed

subsection \<open>Properties\<close>

text \<open>
  \<open>frame_piece::find\<close> is exact first fit: on a well-formed piece it never reads outside
  the bitmap and returns the first run of \<open>amount\<close> free frames inside the piece, or \<open>-1\<close>
  when the request is empty or there is no such run.
\<close>

lemma fp_find_first_fit:
  assumes "fp_wf p"
  shows "\<exists>r. fp_find amount p = Inr r
    \<and> (r = -1 \<longleftrightarrow> amount = 0 \<or>
          (\<forall>s. s + unat amount \<le> unat (fp_size p) \<longrightarrow> \<not> free_run (fp_bitmap p) s (unat amount)))
    \<and> (r \<noteq> -1 \<longrightarrow> 0 \<le> r \<and> nat r + unat amount \<le> unat (fp_size p)
          \<and> free_run (fp_bitmap p) (nat r) (unat amount)
          \<and> (\<forall>s < nat r. \<not> free_run (fp_bitmap p) s (unat amount)))"
proof -
  obtain r where r: "fp_find amount p = Inr r" "amount = 0 \<and> r = -1 \<or>
        amount \<noteq> 0 \<and> find_post (fp_bitmap p) (unat amount) (unat (fp_size p)) r"
    using fp_find_result [OF assms] by blast
  show ?thesis
    by (rule exI [of _ r]) (use r in \<open>auto simp: find_post_def no_run_def first_run_def split: if_splits\<close>)
qed


text \<open>
  C3. Taking and giving back frames is exact: \<open>frame_piece::alloc\<close> of a free run marks
  precisely that run, \<open>frame_piece::free\<close> of a taken run clears precisely that run, both
  keep \<open>frames_free\<close> equal to the number of free frames, giving back what was just taken
  restores the set of taken frames, and taking a run that is not wholly free stops the
  kernel on the assertion instead of handing a frame out twice.
\<close>

theorem fp_alloc_free_exact:
  assumes "fp_wf p" "0 \<le> lid" "nat lid + unat amount \<le> unat (fp_size p)"
  shows "(if free_run (fp_bitmap p) (nat lid) (unat amount)
     then \<exists>p' p''. fp_alloc lid amount p = Inr p' \<and> fp_wf p' \<and> frames_free p' = frames_free p - amount
        \<and> fp_taken p' = fp_taken p \<union> {nat lid..<nat lid + unat amount}
        \<and> fp_free lid amount p' = Inr p'' \<and> fp_wf p'' \<and> frames_free p'' = frames_free p
        \<and> fp_taken p'' = fp_taken p
     else fp_alloc lid amount p = Inl AssertFailed)"
proof (cases "free_run (fp_bitmap p) (nat lid) (unat amount)")
  case True
  obtain p' where p': "fp_alloc lid amount p = Inr p'" "fp_wf p'" "fp_size p' = fp_size p"
      "frames_free p' = frames_free p - amount"
      "\<forall>i. bm_get (fp_bitmap p') i \<longleftrightarrow>
         bm_get (fp_bitmap p) i \<or> nat lid \<le> i \<and> i < nat lid + unat amount"
    using fp_alloc_ok [OF assms True] by blast
  have used: "used_run (fp_bitmap p') (nat lid) (unat amount)" using p'(5) by (simp add: used_run_def)
  have le: "nat lid + unat amount \<le> unat (fp_size p')" using assms(3) p'(3) by simp
  obtain p'' where p'': "fp_free lid amount p' = Inr p''" "fp_wf p''" "fp_size p'' = fp_size p'"
      "frames_free p'' = frames_free p' + amount"
      "\<forall>i. bm_get (fp_bitmap p'') i \<longleftrightarrow>
         bm_get (fp_bitmap p') i \<and> \<not> (nat lid \<le> i \<and> i < nat lid + unat amount)"
    using fp_free_ok [OF p'(2) assms(2) le used] by blast
  have t': "fp_taken p' = fp_taken p \<union> {nat lid..<nat lid + unat amount}"
    unfolding fp_taken_def p'(3) by (rule taken_union [OF p'(5) [rule_format] assms(3)])
  moreover have "fp_taken p'' = fp_taken p' - {nat lid..<nat lid + unat amount}"
    unfolding fp_taken_def p''(3) by (rule taken_diff [OF p''(5) [rule_format]])
  moreover have "{nat lid..<nat lid + unat amount} \<inter> fp_taken p = {}"
    using True free_run_taken [OF assms(3)] by simp
  then have "fp_taken p' - {nat lid..<nat lid + unat amount} = fp_taken p"
    unfolding t' by blast
  ultimately show ?thesis using True p' p'' by simp
next
  case False
  have lid: "lid < 2 ^ 31" using assms(1,3) by (simp add: fp_wf_def) linarith
  note ix = lid_index [OF assms(2) lid]
  have "mark_frames (fp_bitmap p) (lid_word lid) (lid_bit lid) (unat amount) = Inl AssertFailed"
    using False assms by (intro mark_frames_taken) (auto simp: ix fp_wf_def)
  with False show ?thesis by (simp add: fp_alloc_def)
qed

text \<open>Witness of C3: two frames at the end of a 32-frame piece.\<close>

theorem fp_alloc_free_exact_witness:
  "\<exists>p' p''. fp_alloc 30 2 \<lparr>fp_start = 0, fp_size = 32, frames_free = 32, fp_bitmap = [0]\<rparr> = Inr p'
     \<and> fp_taken p' = {30, 31} \<and> fp_free 30 2 p' = Inr p'' \<and> fp_taken p'' = {}"
proof -
  let ?p = "\<lparr>fp_start = 0, fp_size = 32, frames_free = 32, fp_bitmap = [0]\<rparr> :: frame_piece"
  have bits: "bm_get [0] i = False" if "i < 32" for i using that by (simp add: bm_get_def)
  have "free_count [0] 32 = 32" using bits by (simp add: free_count_all)
  then have wf: "fp_wf ?p" by (simp add: fp_wf_def bm_bits_def)
  have "fp_taken ?p = {}" using bits by (auto simp: fp_taken_def)
  moreover have "{30..<32 :: nat} = {30, 31}" by auto
  moreover have "free_run [0] 30 2" using bits by (simp add: free_run_def)
  ultimately show ?thesis using fp_alloc_free_exact [OF wf, of 30 2] by auto
qed

end
