(* ===== verification/CMath.thy ===== *)
theory CMath
  imports Prelude
begin

unbundle bit_operations_syntax

text \<open>
  Arithmetic helpers: \<open>include/aex/math.hpp\<close>, \<open>include/aex/mem/align.hpp\<close>,
  \<open>include/aex/byte.hpp\<close> and \<open>Mem::Phys::ceiltopg\<close>. The templates are used at \<open>int\<close> and at
  \<open>size_t\<close>; the first instance is on \<^typ>\<open>int\<close> with C's division, which rounds towards
  zero, the second on 64-bit words, where the addition of the alignment may wrap.
\<close>

definition c_div :: "int \<Rightarrow> int \<Rightarrow> int" where
  "c_div a b = sgn a * sgn b * (\<bar>a\<bar> div \<bar>b\<bar>)"

definition clamp :: "'a::linorder \<Rightarrow> 'a \<Rightarrow> 'a \<Rightarrow> 'a" where
  "clamp a minv maxv = max (min a maxv) minv"

definition inrange :: "'a::linorder \<Rightarrow> 'a \<Rightarrow> 'a \<Rightarrow> bool" where
  "inrange val lo hi \<longleftrightarrow> val \<ge> lo \<and> val \<le> hi"

definition int_floor :: "int \<Rightarrow> int \<Rightarrow> int" where
  "int_floor val alignment = c_div val alignment * alignment"

definition int_ceil :: "int \<Rightarrow> int \<Rightarrow> int" where
  "int_ceil val alignment = c_div (val + alignment - 1) alignment * alignment"

definition size_floor :: "u64 \<Rightarrow> u64 \<Rightarrow> u64" where
  "size_floor val alignment = (val div alignment) * alignment"

definition size_ceil :: "u64 \<Rightarrow> u64 \<Rightarrow> u64" where
  "size_ceil val alignment = ((val + alignment - 1) div alignment) * alignment"

definition PAGE_SIZE :: int where
  "PAGE_SIZE = 4096"

definition ceiltopg :: "int \<Rightarrow> int" where
  "ceiltopg a = c_div (a + (PAGE_SIZE - 1)) PAGE_SIZE"

definition pagealigned :: "u64 \<Rightarrow> bool" where
  "pagealigned val \<longleftrightarrow> val AND (4096 - 1) = 0"

definition pagefloor :: "u64 \<Rightarrow> u64" where
  "pagefloor val = size_floor val 4096"

definition pageceil :: "u64 \<Rightarrow> u64" where
  "pageceil val = size_ceil val 4096"

definition bswap16 :: "u16 \<Rightarrow> u16" where
  "bswap16 x = (drop_bit 8 (x AND 0xFF00)) OR (push_bit 8 x)"

definition bswap32 :: "u32 \<Rightarrow> u32" where
  "bswap32 x = (drop_bit 24 (x AND 0xFF000000)) OR (drop_bit 8 (x AND 0x00FF0000))
     OR (push_bit 8 (x AND 0x0000FF00)) OR (push_bit 24 x)"

text \<open>The kernel runs on a little-endian machine: \<open>to_big_endian\<close> and \<open>from_big_endian\<close> swap.\<close>

definition to_big_endian16 :: "u16 \<Rightarrow> u16" where
  "to_big_endian16 = bswap16"

definition from_big_endian16 :: "u16 \<Rightarrow> u16" where
  "from_big_endian16 = bswap16"

definition to_big_endian32 :: "u32 \<Rightarrow> u32" where
  "to_big_endian32 = bswap32"

definition from_big_endian32 :: "u32 \<Rightarrow> u32" where
  "from_big_endian32 = bswap32"

text \<open>\<open>fromBCD\<close> on an \<open>int8_t\<close>: the masks are applied to the promoted \<open>int\<close>.\<close>

definition fromBCD :: "u8 \<Rightarrow> u8" where
  "fromBCD val = (let v = (scast val :: u32) in
     ucast (drop_bit 1 (v AND 0xF0) + drop_bit 3 (v AND 0xF0) + (v AND 0x0F)))"

lemma c_div_nonneg: "0 \<le> a \<Longrightarrow> 0 < b \<Longrightarrow> c_div a b = a div b"
  by (cases "a = 0") (simp_all add: c_div_def)

lemma clamp_bounds: "lo \<le> hi \<Longrightarrow> lo \<le> clamp a lo hi \<and> clamp a lo hi \<le> hi"
  by (simp add: clamp_def)

lemma int_ceil_bounds:
  assumes "0 \<le> val" "0 < alignment"
  shows "val \<le> int_ceil val alignment" "int_ceil val alignment < val + alignment"
    and "alignment dvd int_ceil val alignment"
proof -
  let ?q = "(val + alignment - 1) div alignment"
  have eq: "int_ceil val alignment = ?q * alignment"
    using assms by (simp add: int_ceil_def c_div_nonneg)
  have "?q * alignment + (val + alignment - 1) mod alignment = val + alignment - 1"
    by simp
  moreover have "0 \<le> (val + alignment - 1) mod alignment"
      "(val + alignment - 1) mod alignment < alignment"
    using assms by simp_all
  ultimately show "val \<le> int_ceil val alignment" "int_ceil val alignment < val + alignment"
    unfolding eq by linarith+
  show "alignment dvd int_ceil val alignment" by (simp add: eq)
qed

lemma ceiltopg_pos:
  assumes "0 < a"
  shows "0 < ceiltopg a" "(ceiltopg a - 1) * PAGE_SIZE < a" "a \<le> ceiltopg a * PAGE_SIZE"
proof -
  define q r where "q = (a + 4095) div 4096" and "r = (a + 4095) mod 4096"
  have eq: "ceiltopg a = q"
    using assms by (simp add: ceiltopg_def PAGE_SIZE_def c_div_nonneg q_def)
  have "q * 4096 + r = a + 4095" "0 \<le> r" "r < 4096"
    by (simp_all add: q_def r_def)
  note qr = this
  show "0 < ceiltopg a" unfolding eq using qr assms by linarith
  show "(ceiltopg a - 1) * PAGE_SIZE < a" unfolding eq PAGE_SIZE_def using qr assms by (simp add: algebra_simps)
  show "a \<le> ceiltopg a * PAGE_SIZE" unfolding eq PAGE_SIZE_def using qr assms by linarith
qed

text \<open>Byte swapping, bit by bit.\<close>

lemma bswap16_bit:
  "bit (bswap16 x) n \<longleftrightarrow> (if n < 8 then bit x (n + 8) else n < 16 \<and> bit x (n - 8))"
proof -
  have "(0xFF00 :: u16) = push_bit 8 (mask 8)" by (simp add: mask_numeral)
  note masks = this
  show ?thesis
    unfolding bswap16_def masks by (auto simp: bit_simps bit_imp_le_length ac_simps)
qed

lemma bswap32_bit:
  "bit (bswap32 x) n \<longleftrightarrow>
     (if n < 8 then bit x (n + 24) else if n < 16 then bit x (n + 8)
      else if n < 24 then bit x (n - 8) else n < 32 \<and> bit x (n - 24))"
proof -
  have "(0xFF000000 :: u32) = push_bit 24 (mask 8)" "(0xFF0000 :: u32) = push_bit 16 (mask 8)"
      "(0xFF00 :: u32) = push_bit 8 (mask 8)"
    by (simp_all add: mask_numeral)
  note masks = this
  show ?thesis
    unfolding bswap32_def masks by (auto simp: bit_simps bit_imp_le_length ac_simps)
qed

lemma bswap16_involutive [simp]: "bswap16 (bswap16 x) = x"
  by (rule bit_word_eqI) (auto simp: bswap16_bit)

lemma bswap32_involutive [simp]: "bswap32 (bswap32 x) = x"
  by (rule bit_word_eqI) (auto simp: bswap32_bit)

end
