(* ===== verification/Phys.thy ===== *)
theory Phys
  imports FramePiece CMath
begin

unbundle bit_operations_syntax

text \<open>
  The physical memory allocator (\<open>mem/phys.cpp\<close>). The pieces linked from \<open>first_piece\<close> are
  a list, \<open>current_piece\<close> is its last element while the memory map is read. \<open>alloc\<close> walks
  the pieces, \<open>free\<close> picks a piece by its start, \<open>init\<close> builds the pieces from the memory
  map of the boot loader. The memory a new piece is laid out in is a parameter \<open>ram\<close> (the
  words found at a physical address), as are the extent of the kernel image and the map.

  The allocator is refined to a set of taken page numbers: an allocation adds a run of
  consecutive pages that were not in the set.
\<close>

definition i32_wrap :: "int \<Rightarrow> int" where
  "i32_wrap x = sint (word_of_int x :: u32)"

definition ceiltopg32 :: "int \<Rightarrow> int" where
  "ceiltopg32 a = c_div (i32_wrap (a + (PAGE_SIZE - 1))) PAGE_SIZE"

definition ceiltopg64 :: "u64 \<Rightarrow> u64" where
  "ceiltopg64 a = (a + (4096 - 1)) div 4096"

record phys =
  pieces :: "frame_piece list"
  frames_available :: u64
  frames_taken_by_kernel :: u64

definition piece_addr :: "frame_piece \<Rightarrow> int \<Rightarrow> u64" where
  "piece_addr p start = fp_start p + word_of_int (i32_wrap (start * PAGE_SIZE))"

fun alloc_pieces :: "u32 \<Rightarrow> frame_piece list \<Rightarrow> (u64 \<times> frame_piece list) option res" where
  "alloc_pieces frames [] = Inr None"
| "alloc_pieces frames (p # ps) =
     (let next = res_bind (alloc_pieces frames ps) (\<lambda>r.
            Inr (map_option (\<lambda>(a, ps'). (a, p # ps')) r))
      in if frames_free p < frames then next
         else res_bind (fp_find frames p) (\<lambda>start.
           if start = -1 then next
           else res_bind (fp_alloc start frames p) (\<lambda>p'. Inr (Some (piece_addr p start, p' # ps)))))"

definition phys_alloc :: "int \<Rightarrow> phys \<Rightarrow> (u64 \<times> phys) res" where
  "phys_alloc amount st =
     (let frames = (word_of_int (ceiltopg32 amount) :: u32)
      in if pieces st = [] then Inl NullDeref
         else res_bind (alloc_pieces frames (pieces st)) (\<lambda>r. case r of
           None \<Rightarrow> Inl KPanic
         | Some (addr, ps) \<Rightarrow>
             Inr (addr, st\<lparr>pieces := ps, frames_available := frames_available st - ucast frames\<rparr>)))"

text \<open>The frame number of an address in a piece, narrowed to the \<open>int32_t\<close> parameter.\<close>

definition addr_lid :: "u64 \<Rightarrow> int" where
  "addr_lid addr = sint (ucast (addr div 4096) :: u32)"

fun free_pieces :: "u64 \<Rightarrow> u32 \<Rightarrow> frame_piece list \<Rightarrow> frame_piece list res" where
  "free_pieces addr frames [] = Inl KPanic"
| "free_pieces addr frames (p # ps) =
     (if fp_start p > addr then res_bind (free_pieces addr frames ps) (\<lambda>ps'. Inr (p # ps'))
      else res_bind (fp_free (addr_lid (addr - fp_start p)) frames p) (\<lambda>p'. Inr (p' # ps)))"

definition phys_free :: "u64 \<Rightarrow> int \<Rightarrow> phys \<Rightarrow> phys res" where
  "phys_free addr amount st =
     (case pieces st of [] \<Rightarrow> Inl NullDeref
      | p # _ \<Rightarrow>
        if addr < fp_start p then Inr st
        else let frames = (word_of_int (ceiltopg32 amount) :: u32)
             in res_bind (free_pieces addr frames (pieces st)) (\<lambda>ps.
               Inr (st\<lparr>pieces := ps, frames_available := frames_available st + ucast frames\<rparr>)))"

subsection \<open>Building the pieces from the memory map\<close>

definition root_capacity :: int where
  "root_capacity = (8192 - 24) * 8"

definition root_words :: nat where
  "root_words = (8192 - 24) div 4"

text \<open>The memory for a piece of \<open>frames\<close> frames, in bytes (an \<open>int\<close>), and the words of its
  bitmap: what the allocation leaves behind the 24 bytes of the header.\<close>

definition frp_size :: "u32 \<Rightarrow> int" where
  "frp_size frames =
     sint (ucast (ceiltopg64 (24 + ucast ((frames + 1) div 8)) * 4096) :: u32)"

definition piece_words :: "u32 \<Rightarrow> nat" where
  "piece_words frames = (nat (frp_size frames) - 24) div 4"

definition createPieces ::
    "(u64 \<Rightarrow> nat \<Rightarrow> u32) \<Rightarrow> u64 \<Rightarrow> u64 \<Rightarrow> u32 \<Rightarrow> phys \<Rightarrow> phys res" where
  "createPieces ram kimage addr frames st =
     (let at_first = length (pieces st) \<le> 1;
          amnt = min root_capacity (sint frames);
          taken = ceiltopg64 kimage
      in res_bind
           (if at_first then
              res_bind (fp_alloc 0 (ucast taken)
                  (fp_init addr (word_of_int amnt) (map (ram 0) [0..<root_words]))) (\<lambda>p.
                Inr (st\<lparr>pieces := [p], frames_taken_by_kernel := taken\<rparr>,
                     addr + word_of_int (i32_wrap (amnt * PAGE_SIZE)),
                     frames - word_of_int amnt))
            else Inr (st, addr, frames)) (\<lambda>(st, addr, frames).
         if frames = 0 then Inr st
         else res_bind (phys_alloc (frp_size frames) st) (\<lambda>(mem, st).
           Inr (st\<lparr>pieces := pieces st @
              [fp_init addr frames (map (ram mem) [0..<piece_words frames])]\<rparr>))))"

record mmap_entry =
  me_addr :: u64
  me_len :: u64
  me_type :: u32

fun init_regions ::
    "(u64 \<Rightarrow> nat \<Rightarrow> u32) \<Rightarrow> u64 \<Rightarrow> mmap_entry list \<Rightarrow> phys \<Rightarrow> phys res" where
  "init_regions ram kimage [] st = Inr st"
| "init_regions ram kimage (e # es) st =
     (if me_type e \<noteq> 1 \<or> me_addr e < 0x100000 then init_regions ram kimage es st
      else if me_addr e AND 0xFFF \<noteq> 0 then Inl KPanic
      else let frames = me_len e div 4096
           in if frames < 8 then init_regions ram kimage es st
              else res_bind (createPieces ram kimage (me_addr e) (ucast frames)
                     (st\<lparr>frames_available := frames_available st + frames\<rparr>))
                   (init_regions ram kimage es))"

text \<open>\<open>first_piece\<close> points at the zeroed root piece when the enumeration starts; the count
  of the pieces at its end is only printed.\<close>

definition phys_init :: "(u64 \<Rightarrow> nat \<Rightarrow> u32) \<Rightarrow> u64 \<Rightarrow> mmap_entry list \<Rightarrow> phys res" where
  "phys_init ram kimage mmap =
     init_regions ram kimage mmap
       \<lparr>pieces = [\<lparr>fp_start = 0, fp_size = 0, frames_free = 0,
                   fp_bitmap = map (ram 0) [0..<root_words]\<rparr>],
        frames_available = 0, frames_taken_by_kernel = 0\<rparr>"

subsection \<open>Walking the pieces\<close>

lemma i32_wrap_id [simp]: "- (2 ^ 31) \<le> x \<Longrightarrow> x < 2 ^ 31 \<Longrightarrow> i32_wrap x = x"
  by (simp add: i32_wrap_def signed_of_int signed_take_bit_int_eq_self)

definition frames_of :: "int \<Rightarrow> nat" where
  "frames_of amount = nat ((amount + 4095) div 4096)"

lemma frames_of_unat:
  assumes "0 < amount" "amount \<le> 2 ^ 31 - 4096"
  shows "unat (word_of_int (ceiltopg32 amount) :: u32) = frames_of amount" "0 < frames_of amount"
    "frames_of amount \<le> 2 ^ 19"
proof -
  have c: "ceiltopg32 amount = (amount + 4095) div 4096"
    using assms by (simp add: ceiltopg32_def PAGE_SIZE_def c_div_nonneg)
  show "unat (word_of_int (ceiltopg32 amount) :: u32) = frames_of amount"
    unfolding c frames_of_def by (rule unat_word_of_int_small) (use assms in simp_all)
  show "0 < frames_of amount" "frames_of amount \<le> 2 ^ 19"
    using assms by (simp_all add: frames_of_def)
qed

lemma fp_free_low: "fp_wf p \<Longrightarrow> frames_free p < frames \<Longrightarrow> no_run (fp_bitmap p) (unat frames) (unat (fp_size p))"
  using fp_find_result [of p frames] by (auto simp: fp_find_def find_post_def)

lemma alloc_pieces_result:
  assumes "\<forall>p \<in> set ps. fp_wf p" "frames \<noteq> 0"
  shows "(\<exists>pre p post s p'. ps = pre @ p # post
      \<and> (\<forall>q \<in> set pre. no_run (fp_bitmap q) (unat frames) (unat (fp_size q)))
      \<and> first_run (fp_bitmap p) (unat frames) (unat (fp_size p)) s
      \<and> fp_alloc (int s) frames p = Inr p'
      \<and> alloc_pieces frames ps = Inr (Some (piece_addr p (int s), pre @ p' # post)))
    \<or> (\<forall>q \<in> set ps. no_run (fp_bitmap q) (unat frames) (unat (fp_size q)))
       \<and> alloc_pieces frames ps = Inr None"
  using assms
proof (induction ps)
  case (Cons p ps)
  have wf: "fp_wf p" using Cons.prems by simp
  obtain r where r: "fp_find frames p = Inr r"
      "find_post (fp_bitmap p) (unat frames) (unat (fp_size p)) r"
    using fp_find_result [OF wf, of frames] Cons.prems(2) by blast
  show ?case
  proof (cases "r = -1")
    case True
    then have no: "no_run (fp_bitmap p) (unat frames) (unat (fp_size p))"
      using r by (simp add: find_post_def)
    have step: "alloc_pieces frames (p # ps) = res_bind (alloc_pieces frames ps) (\<lambda>r.
            Inr (map_option (\<lambda>(a, ps'). (a, p # ps')) r))"
      using r True by (simp add: Let_def)
    have wfs: "\<forall>q \<in> set ps. fp_wf q" using Cons.prems(1) by simp
    from Cons.IH [OF wfs Cons.prems(2)] show ?thesis
      unfolding step
    proof (elim disjE exE conjE, goal_cases)
      case (1 pre q post s p')
      with no show ?case
        by (intro disjI1 exI [of _ "p # pre"] exI [of _ q] exI [of _ post] exI [of _ s] exI [of _ p']) simp
    qed (use no in simp_all)
  next
    case False
    then have hit: "0 \<le> r" "first_run (fp_bitmap p) (unat frames) (unat (fp_size p)) (nat r)"
      using r by (simp_all add: find_post_def)
    then have "\<exists>p'. fp_alloc r frames p = Inr p'"
      using fp_alloc_ok [OF wf, of r frames] by (auto simp: first_run_def)
    then obtain p' where p': "fp_alloc r frames p = Inr p'" by blast
    have "\<not> frames_free p < frames"
      using fp_free_low [OF wf, of frames] hit(2) by (auto simp: no_run_def first_run_def)
    then have "alloc_pieces frames (p # ps) = Inr (Some (piece_addr p r, p' # ps))"
      using r(1) False p' by (simp add: Let_def)
    then show ?thesis
      by (intro disjI1 exI [of _ "[]"] exI [of _ p] exI [of _ ps] exI [of _ "nat r"] exI [of _ p'])
        (use hit p' in simp)
  qed
qed simp


subsection \<open>The taken pages\<close>

definition piece_base :: "frame_piece \<Rightarrow> nat" where
  "piece_base p = unat (fp_start p) div 4096"

definition piece_pages :: "frame_piece \<Rightarrow> nat set" where
  "piece_pages p = {piece_base p..<piece_base p + unat (fp_size p)}"

definition piece_taken :: "frame_piece \<Rightarrow> nat set" where
  "piece_taken p = (+) (piece_base p) ` fp_taken p"

definition taken_pages :: "phys \<Rightarrow> nat set" where
  "taken_pages st = (\<Union>p \<in> set (pieces st). piece_taken p)"

text \<open>A sound piece, and one whose addresses are all computed without an overflow, at most 2 GiB of memory.\<close>

definition piece_sound :: "frame_piece \<Rightarrow> bool" where
  "piece_sound p \<longleftrightarrow> fp_wf p \<and> 4096 dvd unat (fp_start p) \<and> unat (fp_start p) + 4096 * unat (fp_size p) \<le> 2 ^ 64"

fun pieces_sound :: "frame_piece list \<Rightarrow> bool" where
  "pieces_sound [] = True"
| "pieces_sound (p # ps) \<longleftrightarrow>
     piece_sound p \<and> (\<forall>q \<in> set ps. piece_pages p \<inter> piece_pages q = {}) \<and> pieces_sound ps"

definition piece_ok :: "frame_piece \<Rightarrow> bool" where
  "piece_ok p \<longleftrightarrow> fp_wf p \<and> 4096 dvd unat (fp_start p)
     \<and> unat (fp_start p) + 4096 * unat (fp_size p) \<le> 2 ^ 64 \<and> unat (fp_size p) \<le> 2 ^ 19"

fun pieces_ok :: "frame_piece list \<Rightarrow> bool" where
  "pieces_ok [] = True"
| "pieces_ok (p # ps) \<longleftrightarrow>
     piece_ok p \<and> (\<forall>q \<in> set ps. piece_pages p \<inter> piece_pages q = {}) \<and> pieces_ok ps"

lemma piece_ok_sound: "piece_ok p \<longleftrightarrow> piece_sound p \<and> unat (fp_size p) \<le> 2 ^ 19"
  by (auto simp: piece_ok_def piece_sound_def)

lemma pieces_ok_sound: "pieces_ok ps \<longleftrightarrow> pieces_sound ps \<and> (\<forall>p \<in> set ps. unat (fp_size p) \<le> 2 ^ 19)"
  by (induction ps) (auto simp: piece_ok_sound)

lemma pieces_sound_append:
  "pieces_sound (xs @ ys) \<longleftrightarrow> pieces_sound xs \<and> pieces_sound ys
     \<and> (\<forall>p \<in> set xs. \<forall>q \<in> set ys. piece_pages p \<inter> piece_pages q = {})"
  by (induction xs) auto

lemma pieces_sound_wf: "pieces_sound ps \<Longrightarrow> p \<in> set ps \<Longrightarrow> piece_sound p"
  by (induction ps) auto

lemma piece_taken_pages: "piece_taken p \<subseteq> piece_pages p"
  by (auto simp: piece_taken_def piece_pages_def fp_taken_def)

text \<open>The offset of a frame is computed as an \<open>int\<close>: up to 2 GiB behind the start of the piece it is right, and beyond it is not.\<close>

lemma i32_wrap_eq: "i32_wrap x = x \<longleftrightarrow> - (2 ^ 31) \<le> x \<and> x < 2 ^ 31"
proof
  assume "i32_wrap x = x"
  then show "- (2 ^ 31) \<le> x \<and> x < 2 ^ 31"
    using sint_ge [of "word_of_int x :: u32"] sint_lt [of "word_of_int x :: u32"] by (simp add: i32_wrap_def)
qed simp

lemma piece_addr_page:
  assumes "piece_sound p" "s < unat (fp_size p)"
  shows "unat (piece_addr p (int s)) = 4096 * (piece_base p + s) \<longleftrightarrow> s < 2 ^ 19"
proof -
  have base: "unat (fp_start p) = 4096 * piece_base p" using assms by (simp add: piece_sound_def piece_base_def)
  have le: "4096 * (piece_base p + s) < 2 ^ 64" using assms base by (auto simp: piece_sound_def)
  have "unat (piece_addr p (int s)) = 4096 * (piece_base p + s) \<longleftrightarrow> piece_addr p (int s) = of_nat (4096 * (piece_base p + s))"
    using le by (simp add: word_unat_eq_iff unsigned_of_nat take_bit_nat_eq_self del: of_nat_mult of_nat_add)
  also have "(of_nat (4096 * (piece_base p + s)) :: u64) = fp_start p + word_of_int (int s * 4096)"
  proof -
    have "(of_nat (4096 * (piece_base p + s)) :: u64) = of_nat (unat (fp_start p)) + of_nat (4096 * s)"
      unfolding base by (simp only: distrib_left of_nat_add)
    also have "of_nat (unat (fp_start p)) = fp_start p" by simp
    finally show ?thesis by (simp add: mult.commute)
  qed
  also have "piece_addr p (int s) = fp_start p + word_of_int (int s * 4096)
      \<longleftrightarrow> (word_of_int (i32_wrap (int s * 4096)) :: u64) = word_of_int (int s * 4096)"
    by (simp add: piece_addr_def PAGE_SIZE_def)
  also have "\<dots> \<longleftrightarrow> i32_wrap (int s * 4096) = int s * 4096"
  proof
    let ?x = "int s * 4096" and ?w = "i32_wrap (int s * 4096)"
    have r: "- (2 ^ 31) \<le> ?w" "?w < 2 ^ 31"
      using sint_ge [of "word_of_int ?x :: u32"] sint_lt [of "word_of_int ?x :: u32"] by (simp_all add: i32_wrap_def)
    have "s < 2 ^ 32" using assms(2) unat_less_2p [of "fp_size p"] by simp
    then have x: "0 \<le> ?x" "?x < 2 ^ 44" by auto
    assume "(word_of_int ?w :: u64) = word_of_int ?x"
    then have "?w mod 2 ^ 64 = ?x mod 2 ^ 64" unfolding word_of_int_eq_iff take_bit_eq_mod by simp
    then have "2 ^ 64 dvd ?w - ?x" by (simp add: mod_eq_dvd_iff)
    moreover have "\<bar>?w - ?x\<bar> < 2 ^ 64" using r x by simp
    ultimately show "?w = ?x" using zdvd_imp_le [of "2 ^ 64" "\<bar>?w - ?x\<bar>"] by auto
  qed simp
  also have "\<dots> \<longleftrightarrow> s < 2 ^ 19" unfolding i32_wrap_eq by simp
  finally show ?thesis .
qed

text \<open>Taking a run of frames in one of the pieces takes that run of pages.\<close>

lemma piece_alloc_taken:
  assumes "piece_sound p" "first_run (fp_bitmap p) (unat frames) (unat (fp_size p)) s"
    and "fp_alloc (int s) frames p = Inr p'"
  shows "piece_sound p'" "fp_size p' = fp_size p" "piece_pages p' = piece_pages p"
    "piece_taken p' = piece_taken p \<union> {piece_base p + s..<piece_base p + s + unat frames}"
    "{piece_base p + s..<piece_base p + s + unat frames} \<inter> piece_taken p = {}"
    "{piece_base p + s..<piece_base p + s + unat frames} \<subseteq> piece_pages p"
proof -
  have wf: "fp_wf p" and le: "s + unat frames \<le> unat (fp_size p)"
    and free: "free_run (fp_bitmap p) s (unat frames)"
    using assms(1,2) by (simp_all add: piece_sound_def first_run_def)
  have p': "fp_wf p'" "fp_start p' = fp_start p" "fp_size p' = fp_size p"
    and bits: "\<forall>i. bm_get (fp_bitmap p') i \<longleftrightarrow> bm_get (fp_bitmap p) i \<or> s \<le> i \<and> i < s + unat frames"
    using fp_alloc_ok [OF wf, of "int s" frames] le free assms(3) by auto
  show "piece_sound p'" using assms(1) p' by (simp add: piece_sound_def)
  show "fp_size p' = fp_size p" by (rule p'(3))
  show "piece_pages p' = piece_pages p" using p' by (simp add: piece_pages_def piece_base_def)
  have "fp_taken p' = fp_taken p \<union> {s..<s + unat frames}"
    unfolding fp_taken_def p'(3) by (rule taken_union [OF bits [rule_format] le])
  then show "piece_taken p' = piece_taken p \<union> {piece_base p + s..<piece_base p + s + unat frames}"
    using p'(2) by (simp add: piece_taken_def piece_base_def image_Un ac_simps)
  have "{s..<s + unat frames} \<inter> fp_taken p = {}" using free free_run_taken [OF le] by simp
  then show "{piece_base p + s..<piece_base p + s + unat frames} \<inter> piece_taken p = {}"
    by (auto simp: piece_taken_def)
  show "{piece_base p + s..<piece_base p + s + unat frames} \<subseteq> piece_pages p"
    using le by (auto simp: piece_pages_def)
qed

lemma phys_alloc_result:
  assumes "pieces_sound (pieces st)" "pieces st \<noteq> []" "0 < amount" "amount \<le> 2 ^ 31 - 4096"
  shows "case phys_alloc amount st of
      Inl e \<Rightarrow> e = KPanic \<and> (\<forall>p \<in> set (pieces st). no_run (fp_bitmap p) (frames_of amount) (unat (fp_size p)))
    | Inr (addr, st') \<Rightarrow>
        \<exists>p \<in> set (pieces st). \<exists>s.
          let pages = {piece_base p + s..<piece_base p + s + frames_of amount}
          in pages \<subseteq> piece_pages p \<and> pages \<inter> taken_pages st = {} \<and> taken_pages st' = taken_pages st \<union> pages
             \<and> pieces_sound (pieces st') \<and> map fp_size (pieces st') = map fp_size (pieces st)
             \<and> frames_available st' = frames_available st - word_of_nat (frames_of amount)
             \<and> (unat addr = 4096 * (piece_base p + s) \<longleftrightarrow> s < 2 ^ 19)"
proof -
  let ?f = "word_of_int (ceiltopg32 amount) :: u32"
  note fr = frames_of_unat [OF assms(3,4)]
  have f0: "?f \<noteq> 0" using fr(1,2) by (metis unat_0 less_irrefl)
  have wfs: "\<forall>p \<in> set (pieces st). fp_wf p"
    using pieces_sound_wf [OF assms(1)] by (simp add: piece_sound_def)
  from alloc_pieces_result [OF wfs f0] show ?thesis
  proof (elim disjE exE conjE, goal_cases)
    case (1 pre p post s p')
    have ok: "piece_sound p" using pieces_sound_wf [OF assms(1)] 1(1) by simp
    note t = piece_alloc_taken [OF ok 1(3,4), unfolded fr(1)]
    have "s < unat (fp_size p)" using 1(3) fr(1,2) by (simp add: first_run_def)
    note a = piece_addr_page [OF ok this]
    have alloc: "phys_alloc amount st = Inr (piece_addr p (int s),
        st\<lparr>pieces := pre @ p' # post, frames_available := frames_available st - ucast ?f\<rparr>)"
      using assms(2) 1(5) by (simp add: phys_alloc_def Let_def)
    have other: "{piece_base p + s..<piece_base p + s + frames_of amount} \<inter> piece_taken q = {}"
      if "q \<in> set pre \<or> q \<in> set post" for q
    proof -
      have "piece_pages p \<inter> piece_pages q = {}"
        using that assms(1) unfolding 1(1) pieces_sound_append by auto
      then show ?thesis using t(6) piece_taken_pages [of q] by blast
    qed
    have "pieces_sound (pre @ p' # post)"
      using assms(1) t(1,3) unfolding 1(1) pieces_sound_append by simp
    moreover have "(ucast ?f :: u64) = word_of_nat (frames_of amount)"
      by (simp add: fr(1) flip: fr(1))
    moreover have "p \<in> set (pieces st)" using 1(1) by simp
    moreover have "taken_pages (st\<lparr>pieces := pre @ p' # post, frames_available := x\<rparr>)
        = taken_pages st \<union> {piece_base p + s..<piece_base p + s + frames_of amount}" for x
      unfolding taken_pages_def 1(1) using t(4) by auto
    moreover have "{piece_base p + s..<piece_base p + s + frames_of amount} \<inter> taken_pages st = {}"
      unfolding taken_pages_def 1(1) using t(5) other by auto
    moreover have "map fp_size (pre @ p' # post) = map fp_size (pieces st)" using t(2) 1(1) by simp
    ultimately show ?case
      unfolding alloc sum.case prod.case Let_def using t(6) a by (intro bexI [of _ p] exI [of _ s] conjI) simp_all
  next
    case 2
    then show ?case using assms(2) fr(1) by (simp add: phys_alloc_def Let_def)
  qed
qed


text \<open>One frame, as the page tables take it.\<close>

lemma phys_alloc_frame:
  assumes "pieces_ok (pieces st)" "pieces st \<noteq> []" "phys_alloc amount st = Inr (f, st')" "amount = 1 \<or> amount = 4096"
  shows "4096 dvd unat f" "unat f div 4096 \<notin> taken_pages st"
    "taken_pages st' = insert (unat f div 4096) (taken_pages st)" "pieces_ok (pieces st')" "pieces st' \<noteq> []"
proof -
  have n: "frames_of amount = 1" "0 < amount" "amount \<le> 2 ^ 31 - 4096" using assms(4) by (auto simp: frames_of_def)
  have ok: "pieces_sound (pieces st)" "\<forall>p \<in> set (pieces st). unat (fp_size p) \<le> 2 ^ 19"
    using assms(1) by (simp_all add: pieces_ok_sound)
  from phys_alloc_result [OF ok(1) assms(2) n(2,3)] obtain p s where r: "p \<in> set (pieces st)"
    "{piece_base p + s..<piece_base p + s + 1} \<subseteq> piece_pages p" "{piece_base p + s..<piece_base p + s + 1} \<inter> taken_pages st = {}"
    "taken_pages st' = taken_pages st \<union> {piece_base p + s..<piece_base p + s + 1}" "pieces_sound (pieces st')"
    "map fp_size (pieces st') = map fp_size (pieces st)" "unat f = 4096 * (piece_base p + s) \<longleftrightarrow> s < 2 ^ 19"
    unfolding assms(3) n(1) sum.case prod.case Let_def by (elim bexE exE conjE) (rule that)
  have "s < unat (fp_size p)" using r(2) by (auto simp: piece_pages_def)
  moreover have "unat (fp_size p) \<le> 2 ^ 19" using ok(2) r(1) by blast
  ultimately have "unat f = 4096 * (piece_base p + s)" using r(7) by linarith
  then show t: "4096 dvd unat f" "unat f div 4096 \<notin> taken_pages st"
    "taken_pages st' = insert (unat f div 4096) (taken_pages st)"
    using r(3,4) by auto
  have sizes: "fp_size ` set (pieces st') = fp_size ` set (pieces st)" using r(6) by (metis list.set_map)
  have "\<forall>p \<in> set (pieces st'). unat (fp_size p) \<le> 2 ^ 19"
  proof
    fix q assume "q \<in> set (pieces st')"
    then obtain q' where "q' \<in> set (pieces st)" "fp_size q = fp_size q'" using sizes by blast
    then show "unat (fp_size q) \<le> 2 ^ 19" using ok(2) by simp
  qed
  then show "pieces_ok (pieces st')" using r(5) by (simp add: pieces_ok_sound)
  from t(3) show "pieces st' \<noteq> []" by (auto simp: taken_pages_def)
qed


text \<open>An empty 32-frame piece at 1 MiB, the example of the witnesses below.\<close>

definition small_piece :: frame_piece where
  "small_piece = \<lparr>fp_start = 0x100000, fp_size = 32, frames_free = 32, fp_bitmap = [0]\<rparr>"

definition small_phys :: phys where
  "small_phys = \<lparr>pieces = [small_piece], frames_available = 32, frames_taken_by_kernel = 0\<rparr>"

lemma small_piece_ok: "piece_ok small_piece" "fp_taken small_piece = {}"
proof -
  have bits: "\<not> bm_get [0] i" if "i < 32" for i using that by (simp add: bm_get_def)
  then have "free_count [0] 32 = 32" by (simp add: free_count_all)
  then show "piece_ok small_piece" by (simp add: piece_ok_def small_piece_def fp_wf_def bm_bits_def)
  show "fp_taken small_piece = {}" using bits by (auto simp: fp_taken_def small_piece_def)
qed


subsection \<open>Giving pages back\<close>

lemma free_first_piece:
  "phys_free addr amount (st\<lparr>pieces := p # ps\<rparr>) =
     (if addr < fp_start p then Inr (st\<lparr>pieces := p # ps\<rparr>)
      else let frames = (word_of_int (ceiltopg32 amount) :: u32)
           in res_bind (fp_free (addr_lid (addr - fp_start p)) frames p) (\<lambda>p'.
             Inr (st\<lparr>pieces := p' # ps, frames_available := frames_available st + ucast frames\<rparr>)))"
  by (cases "fp_free (addr_lid (addr - fp_start p)) (word_of_int (ceiltopg32 amount)) p")
    (auto simp: phys_free_def Let_def not_less)

lemma addr_lid_page:
  assumes "unat addr = unat a + 4096 * k" "k < 2 ^ 31"
  shows "addr_lid (addr - a) = int k"
proof -
  have "unat (addr - a) = 4096 * k"
    using assms by (simp add: unat_sub word_le_nat_alt)
  then have "unat ((addr - a) div 4096) = k" by (simp add: unat_div)
  then have "ucast ((addr - a) div 4096) = (word_of_nat k :: u32)"
    by (simp add: word_unat_eq_iff unat_ucast_mod unat_of_nat)
  then show ?thesis
    using assms(2) i32_of_nat_small [of k] by (simp add: addr_lid_def i32_of_nat_def)
qed

lemma lid_word_int: "k < 2 ^ 31 \<Longrightarrow> lid_word (int k) = k div 32"
  using lid_index [of "int k"] by (metis nat_int of_nat_0_le_iff of_nat_less_iff of_nat_numeral of_nat_power slot_split(1))

text \<open>
  \<open>Phys::free\<close> serves the first piece only. Pages taken in the first piece go back
  exactly, and freeing what \<open>alloc\<close> took there undoes it; but an address in a later piece
  is looked up in the first piece's bitmap too, because every address that passes the first
  guard also passes the test \<open>piece->start > addr\<close> of the first round: no later piece ever
  changes, and an address whose frame number lies beyond the first bitmap reads outside it.
\<close>

lemma phys_free_first_only:
  assumes "piece_ok p" "pieces st = p # ps" "0 < amount" "amount \<le> 2 ^ 31 - 4096"
    and "unat addr = unat (fp_start p) + 4096 * k" "k < 2 ^ 31"
  shows "(k + frames_of amount \<le> unat (fp_size p)
            \<and> {piece_base p + k..<piece_base p + k + frames_of amount} \<subseteq> piece_taken p \<longrightarrow>
          (\<exists>p' st'. phys_free addr amount st = Inr st' \<and> pieces st' = p' # ps \<and> piece_ok p'
             \<and> piece_taken p' = piece_taken p - {piece_base p + k..<piece_base p + k + frames_of amount}))
     \<and> (\<forall>st'. phys_free addr amount st = Inr st' \<longrightarrow> tl (pieces st') = ps)
     \<and> (bm_bits (fp_bitmap p) \<le> k \<longrightarrow> phys_free addr amount st = Inl OutOfBounds)"
proof -
  let ?f = "word_of_int (ceiltopg32 amount) :: u32"
  note fr = frames_of_unat [OF assms(3,4)]
  have wf: "fp_wf p" using assms(1) by (simp add: piece_ok_def)
  have "\<not> addr < fp_start p" using assms(5) by (simp add: word_less_nat_alt)
  moreover have "st\<lparr>pieces := p # ps\<rparr> = st" using assms(2) by (cases st) simp
  ultimately have free: "phys_free addr amount st = res_bind (fp_free (int k) ?f p) (\<lambda>p'.
             Inr (st\<lparr>pieces := p' # ps, frames_available := frames_available st + ucast ?f\<rparr>))"
    using free_first_piece [of addr amount p ps st] addr_lid_page [OF assms(5,6)] by (simp add: Let_def)
  have "\<exists>p' st'. phys_free addr amount st = Inr st' \<and> pieces st' = p' # ps \<and> piece_ok p'
      \<and> piece_taken p' = piece_taken p - {piece_base p + k..<piece_base p + k + frames_of amount}"
    if le: "k + frames_of amount \<le> unat (fp_size p)"
      and taken: "{piece_base p + k..<piece_base p + k + frames_of amount} \<subseteq> piece_taken p"
  proof -
    have "x \<in> fp_taken p" if "x \<in> {k..<k + frames_of amount}" for x
    proof -
      have "piece_base p + x \<in> piece_taken p" using that taken by auto
      then show ?thesis by (auto simp: piece_taken_def)
    qed
    then have "{k..<k + frames_of amount} \<subseteq> fp_taken p" by blast
    then have "used_run (fp_bitmap p) k (frames_of amount)" using used_run_taken [OF le] by simp
    then obtain p' where p': "fp_free (int k) ?f p = Inr p'" "fp_wf p'" "fp_start p' = fp_start p"
        "fp_size p' = fp_size p" "\<forall>i. bm_get (fp_bitmap p') i \<longleftrightarrow>
           bm_get (fp_bitmap p) i \<and> \<not> (k \<le> i \<and> i < k + frames_of amount)"
      using fp_free_ok [OF wf, of "int k" ?f] le fr(1) by auto
    have "fp_taken p' = fp_taken p - {k..<k + frames_of amount}"
      unfolding fp_taken_def p'(4) by (rule taken_diff [OF p'(5) [rule_format]])
    then have "piece_taken p' = piece_taken p - {piece_base p + k..<piece_base p + k + frames_of amount}"
      using p'(3) by (simp add: piece_taken_def piece_base_def image_set_diff ac_simps)
    moreover have "piece_ok p'" using assms(1) p' by (simp add: piece_ok_def)
    ultimately show ?thesis using free p'(1) by simp
  qed
  moreover have "tl (pieces st') = ps" if "phys_free addr amount st = Inr st'" for st'
    using that free by (auto simp: res_bind_Inr_iff)
  moreover have "phys_free addr amount st = Inl OutOfBounds" if "bm_bits (fp_bitmap p) \<le> k"
  proof -
    have "length (fp_bitmap p) \<le> lid_word (int k)"
      using that lid_word_int [OF assms(6)] by (simp add: bm_bits_def)
    moreover obtain n where "frames_of amount = Suc n" using fr(2) gr0_implies_Suc by blast
    ultimately show ?thesis using free fr(1) by (simp add: fp_free_def cell_get_def)
  qed
  ultimately show ?thesis by blast
qed

subsection \<open>Reading the memory map\<close>

lemma clear_bytes_bit:
  "i < 32 * length old \<Longrightarrow> bm_get (clear_bytes n old) i \<longleftrightarrow> bm_get old i \<and> 8 * n \<le> i"
proof -
  assume i: "i < 32 * length old"
  then have w: "i div 32 < length old" by auto
  have "8 * n \<le> i \<longleftrightarrow> 8 * min 4 (n - 4 * (i div 32)) \<le> i mod 32"
  proof -
    have "8 * n \<le> 32 * q + r \<longleftrightarrow> 8 * min 4 (n - 4 * q) \<le> r" if "r < 32" for q r
      using that by (auto simp: min_def)
    from this [of "i mod 32" "i div 32"] show ?thesis by simp
  qed
  then show ?thesis using w
    by (auto simp: bm_get_def clear_bytes_def nth_enumerate_eq bit_simps)
qed

lemma fp_init_empty:
  assumes "8 dvd unat amnt" "unat amnt \<le> 32 * length old" "unat amnt < 2 ^ 31"
  shows "fp_wf (fp_init addr amnt old)" "fp_taken (fp_init addr amnt old) = {}"
    "fp_start (fp_init addr amnt old) = addr" "fp_size (fp_init addr amnt old) = amnt"
proof -
  let ?p = "fp_init addr amnt old"
  have "8 * unat (amnt div 8) = unat amnt" using assms(1) by (simp add: unat_div)
  then have free: "\<not> bm_get (fp_bitmap ?p) i" if "i < unat amnt" for i
    using that assms(2) by (simp add: fp_init_def clear_bytes_bit)
  then have "free_count (fp_bitmap ?p) (unat amnt) = unat amnt" by (simp add: free_count_all)
  then show "fp_wf ?p" using assms by (simp add: fp_wf_def fp_init_def bm_bits_def clear_bytes_def)
  show "fp_taken ?p = {}" using free by (auto simp: fp_taken_def fp_init_def)
qed (simp_all add: fp_init_def)


definition region_frames :: "mmap_entry \<Rightarrow> nat" where
  "region_frames e = unat (me_len e) div 4096"

text \<open>A region the root piece can hold: usable memory above 1 MiB, page aligned, a multiple of
  eight frames, at most the 65344 frames of the root bitmap, and room for the kernel.\<close>

definition root_region :: "u64 \<Rightarrow> mmap_entry \<Rightarrow> bool" where
  "root_region kimage e \<longleftrightarrow> me_type e = 1 \<and> 0x100000 \<le> unat (me_addr e) \<and> me_addr e AND 0xFFF = 0
     \<and> unat (me_addr e) + unat (me_len e) \<le> 2 ^ 64
     \<and> 0 < region_frames e \<and> 8 dvd region_frames e \<and> region_frames e \<le> 65344
     \<and> unat (ceiltopg64 kimage) \<le> region_frames e"

definition root_piece :: "(u64 \<Rightarrow> nat \<Rightarrow> u32) \<Rightarrow> u64 \<Rightarrow> mmap_entry \<Rightarrow> frame_piece res" where
  "root_piece ram kimage e =
     fp_alloc 0 (ucast (ceiltopg64 kimage))
       (fp_init (me_addr e) (word_of_nat (region_frames e)) (map (ram 0) [0..<root_words]))"

lemma aligned_dvd: "(a :: u64) AND 0xFFF = 0 \<Longrightarrow> 4096 dvd unat a"
proof -
  assume "a AND 0xFFF = 0"
  moreover have "(0xFFF :: u64) = mask 12" by (simp add: mask_numeral)
  ultimately have "take_bit 12 a = 0" by (simp add: take_bit_eq_mask)
  then have "take_bit 12 (unat a) = 0" by (simp flip: unsigned_take_bit_eq)
  then show ?thesis by (simp add: take_bit_eq_mod mod_eq_0_iff_dvd)
qed

lemma root_piece_ok:
  assumes "root_region kimage e"
  obtains p where "root_piece ram kimage e = Inr p" "piece_ok p"
    "piece_pages p = {unat (me_addr e) div 4096..<unat (me_addr e) div 4096 + region_frames e}"
    "piece_taken p = {unat (me_addr e) div 4096..<unat (me_addr e) div 4096 + unat (ceiltopg64 kimage)}"
proof -
  let ?f = "word_of_nat (region_frames e) :: u32"
  let ?old = "map (ram 0) [0..<root_words]"
  let ?p = "fp_init (me_addr e) ?f ?old"
  let ?k = "ucast (ceiltopg64 kimage) :: u32"
  have f: "unat ?f = region_frames e" using assms by (simp add: root_region_def unat_of_nat)
  have k: "unat ?k = unat (ceiltopg64 kimage)"
    using assms by (simp add: root_region_def unat_ucast_mod)
  have init: "fp_wf ?p" "fp_taken ?p = {}" "fp_start ?p = me_addr e" "fp_size ?p = ?f"
    by (rule fp_init_empty; use assms f in \<open>simp add: root_region_def root_words_def\<close>)+
  have len: "unat (me_addr e) + 4096 * region_frames e \<le> 2 ^ 64"
    using assms by (auto simp: root_region_def region_frames_def)
  have ok: "piece_sound ?p"
    using init f len assms aligned_dvd by (simp add: piece_sound_def root_region_def)
  have le: "0 + unat ?k \<le> unat (fp_size ?p)" using assms f k init(4) by (simp add: root_region_def)
  have "first_run (fp_bitmap ?p) (unat ?k) (unat (fp_size ?p)) 0"
    using le free_run_taken [OF le] init(2) by (simp add: first_run_def)
  moreover obtain p where p: "fp_alloc (int 0) ?k ?p = Inr p"
    using fp_alloc_ok [OF init(1), of 0 ?k] le free_run_taken [OF le] init(2) by auto
  ultimately have "piece_sound p" "fp_size p = ?f" "piece_pages p = piece_pages ?p"
      "piece_taken p = piece_taken ?p \<union> {piece_base ?p..<piece_base ?p + unat ?k}"
    using piece_alloc_taken [OF ok] init(4) by auto
  moreover have "region_frames e \<le> 2 ^ 19" using assms by (simp add: root_region_def)
  ultimately have "piece_ok p" "piece_pages p = piece_pages ?p"
      "piece_taken p = piece_taken ?p \<union> {piece_base ?p..<piece_base ?p + unat ?k}"
    using f by (simp_all add: piece_ok_sound)
  with p show ?thesis
    by (intro that [of p]) (simp_all add: root_piece_def piece_pages_def piece_base_def init f k
        piece_taken_def)
qed

lemma init_regions_root:
  assumes "root_region kimage e" "length (pieces st) \<le> 1"
  shows "init_regions ram kimage (e # es) st = res_bind (root_piece ram kimage e) (\<lambda>p.
     init_regions ram kimage es (st\<lparr>frames_available := frames_available st + word_of_nat (region_frames e),
       pieces := [p], frames_taken_by_kernel := ceiltopg64 kimage\<rparr>))"
proof -
  let ?fr = "me_len e div 4096"
  have u: "unat ?fr = region_frames e" by (simp add: region_frames_def unat_div)
  have w: "?fr = word_of_nat (region_frames e)" by (simp flip: u)
  have r: "0 < region_frames e" "8 dvd region_frames e" "region_frames e \<le> 65344"
    using assms(1) by (simp_all add: root_region_def)
  have "8 \<le> region_frames e" using r(1,2) by (auto dest: dvd_imp_le)
  then have big: "\<not> ?fr < 8" using u by (simp add: word_less_nat_alt)
  have c: "(ucast (word_of_nat (region_frames e) :: u64) :: u32) = word_of_nat (region_frames e)"
    using r(3) by (simp add: word_unat_eq_iff unat_ucast_mod unat_of_nat)
  have s: "sint (word_of_nat (region_frames e) :: u32) = int (region_frames e)"
    using i32_of_nat_small [of "region_frames e"] r(3) by (simp add: i32_of_nat_def)
  have "\<not> me_addr e < 0x100000" "me_type e = 1" "me_addr e AND 0xFFF = 0"
    using assms(1) by (simp_all add: root_region_def word_less_nat_alt)
  moreover have "min root_capacity (int (region_frames e)) = int (region_frames e)"
    using r(3) by (simp add: root_capacity_def)
  ultimately show ?thesis
    using big assms(2) unfolding init_regions.simps createPieces_def root_piece_def
    by (simp add: Let_def res_bind_assoc w c s)
qed

text \<open>
  Reading the memory map. With one region the root piece can hold, \<open>Phys::init\<close> ends
  with one well-formed piece over exactly that region, in which exactly the frames of the
  kernel image are taken. With a second such region the root piece is initialised again,
  because \<open>current_piece\<close> still equals \<open>first_piece\<close>: the pages of the first region are in
  no piece any more, although \<open>frames_available\<close> counts them.
\<close>

lemma phys_init_regions:
  assumes "root_region kimage e" "root_region kimage e2"
  shows "(\<exists>st p. phys_init ram kimage [e] = Inr st \<and> pieces st = [p] \<and> pieces_ok (pieces st)
      \<and> piece_pages p = {unat (me_addr e) div 4096..<unat (me_addr e) div 4096 + region_frames e}
      \<and> taken_pages st = {unat (me_addr e) div 4096..<unat (me_addr e) div 4096 + unat (ceiltopg64 kimage)}
      \<and> frames_available st = word_of_nat (region_frames e))
    \<and> (\<exists>st p. phys_init ram kimage [e, e2] = Inr st \<and> pieces st = [p] \<and> pieces_ok (pieces st)
      \<and> piece_pages p = {unat (me_addr e2) div 4096..<unat (me_addr e2) div 4096 + region_frames e2}
      \<and> frames_available st = word_of_nat (region_frames e + region_frames e2))"
    (is "?one \<and> ?two")
proof
  obtain p where p: "root_piece ram kimage e = Inr p" "piece_ok p"
    "piece_pages p = {unat (me_addr e) div 4096..<unat (me_addr e) div 4096 + region_frames e}"
    "piece_taken p = {unat (me_addr e) div 4096..<unat (me_addr e) div 4096 + unat (ceiltopg64 kimage)}"
    using root_piece_ok [OF assms(1)] .
  obtain p2 where p2: "root_piece ram kimage e2 = Inr p2" "piece_ok p2"
    "piece_pages p2 = {unat (me_addr e2) div 4096..<unat (me_addr e2) div 4096 + region_frames e2}"
    using root_piece_ok [OF assms(2)] .
  show ?one
    using p by (simp add: phys_init_def init_regions_root [OF assms(1)] taken_pages_def del: init_regions.simps(2))
  show ?two
    using p(1) p2 by (simp add: phys_init_def init_regions_root [OF assms(1)]
        init_regions_root [OF assms(2)] del: init_regions.simps(2))
qed

end
