(* ===== verification/ByteMem.thy ===== *)
theory ByteMem
  imports Prelude
begin

unbundle bit_operations_syntax

text \<open>
  Byte-addressed memory, for code that lays structures out in raw memory: a function from
  addresses to bytes with \<open>memset\<close> and \<open>memcpy\<close> of a range and little-endian loads and
  stores of the integer widths the kernel uses.
\<close>

type_synonym mem = "nat \<Rightarrow> u8"

definition mem_set :: "nat \<Rightarrow> nat \<Rightarrow> u8 \<Rightarrow> mem \<Rightarrow> mem" where
  "mem_set a n v m = (\<lambda>x. if a \<le> x \<and> x < a + n then v else m x)"

definition mem_copy :: "nat \<Rightarrow> nat \<Rightarrow> nat \<Rightarrow> mem \<Rightarrow> mem" where
  "mem_copy d s n m = (\<lambda>x. if d \<le> x \<and> x < d + n then m (s + (x - d)) else m x)"

definition store_le :: "nat \<Rightarrow> nat \<Rightarrow> 'a::len word \<Rightarrow> mem \<Rightarrow> mem" where
  "store_le n a w m = (\<lambda>x. if a \<le> x \<and> x < a + n then ucast (drop_bit (8 * (x - a)) w) else m x)"

fun load_le :: "nat \<Rightarrow> nat \<Rightarrow> mem \<Rightarrow> 'a::len word" where
  "load_le 0 a m = 0"
| "load_le (Suc n) a m = ucast (m a) OR push_bit 8 (load_le n (Suc a) m)"

lemma mem_set_outside [simp]: "x < a \<or> a + n \<le> x \<Longrightarrow> mem_set a n v m x = m x"
  by (auto simp: mem_set_def)

lemma mem_set_inside [simp]: "a \<le> x \<Longrightarrow> x < a + n \<Longrightarrow> mem_set a n v m x = v"
  by (simp add: mem_set_def)

lemma store_le_outside [simp]: "x < a \<or> a + n \<le> x \<Longrightarrow> store_le n a w m x = m x"
  by (auto simp: store_le_def)

lemma mem_copy_outside [simp]: "x < d \<or> d + n \<le> x \<Longrightarrow> mem_copy d s n m x = m x"
  by (auto simp: mem_copy_def)

lemma mem_copy_inside [simp]: "i < n \<Longrightarrow> mem_copy d s n m (d + i) = m (s + i)"
  by (simp add: mem_copy_def)

lemma load_le_bit:
  "bit (load_le n a m :: 'a::len word) k \<longleftrightarrow>
     k < LENGTH('a) \<and> k < 8 * n \<and> bit (m (a + k div 8)) (k mod 8)"
proof (induction n arbitrary: a k)
  case (Suc n)
  show ?case
  proof (cases "k < 8")
    case True
    then show ?thesis by (auto simp: bit_simps Suc)
  next
    case False
    then have "(k - 8) div 8 = k div 8 - 1" "(k - 8) mod 8 = k mod 8" "0 < k div 8"
      by (auto simp: le_mod_geq le_div_geq)
    moreover have "\<not> bit (m a) k" using False by (auto dest: bit_imp_le_length)
    moreover have "k - 8 < 8 * n \<longleftrightarrow> k < 8 * Suc n"
        "k < LENGTH('a) \<Longrightarrow> k - 8 < LENGTH('a)"
      using False by auto
    ultimately show ?thesis using False by (auto simp: bit_simps Suc)
  qed
qed simp

lemma load_store_le:
  "LENGTH('a) \<le> 8 * n \<Longrightarrow> load_le n a (store_le n a w m) = (w :: 'a::len word)"
proof (rule bit_word_eqI)
  fix k assume n: "LENGTH('a) \<le> 8 * n" "k < LENGTH('a)"
  have "8 * (k div 8) + k mod 8 = k" "k mod 8 < 8" "k div 8 < n" using n by auto
  then show "bit (load_le n a (store_le n a w m) :: 'a word) k = bit w k"
    using n by (simp add: load_le_bit store_le_def bit_simps)
qed

lemma load_le_cong:
  "(\<And>x. a \<le> x \<Longrightarrow> x < a + n \<Longrightarrow> m x = m' x) \<Longrightarrow> load_le n a m = (load_le n a m' :: 'a::len word)"
  by (induction n arbitrary: a) auto

lemma store_load_le:
  "8 * n \<le> LENGTH('a) \<Longrightarrow> store_le n a (load_le n a m :: 'a::len word) m = m"
proof (rule ext)
  fix x assume n: "8 * n \<le> LENGTH('a)"
  show "store_le n a (load_le n a m :: 'a word) m x = m x"
  proof (cases "a \<le> x \<and> x < a + n")
    case True
    then obtain d where d: "x = a + d" "d < n" by (auto dest!: le_Suc_ex)
    have "bit (ucast (drop_bit (8 * d) (load_le n a m :: 'a word)) :: u8) k = bit (m x) k"
      if "k < 8" for k
    proof -
      have "8 * d + k < 8 * n" "(8 * d + k) div 8 = d" "(8 * d + k) mod 8 = k"
        using d(2) that by auto
      then show ?thesis using n that d(1) by (auto simp: bit_simps load_le_bit add.commute)
    qed
    then show ?thesis using d by (auto simp: store_le_def intro!: bit_word_eqI)
  qed (auto simp: store_le_def)
qed

end
