(* ===== verification/Heap.thy ===== *)
theory Heap
  imports Bitmap SlotAllocator ByteMem
begin

unbundle bit_operations_syntax

text \<open>
  The kernel heap (\<open>mem/heap.cpp\<close>): a list of slabs, each with a bitmap of 16-byte pieces
  and a data area right behind it. A block is a run of pieces whose first piece holds the
  header (a sanity word and the number of pieces).

  The data areas live in a byte memory, the bitmap is a list of words. A word index behind
  the bitmap reaches the words of the data area, as it does in the kernel, and an index
  behind the mapping is \<open>OutOfBounds\<close>. Piece counts and addresses are natural numbers:
  \<open>malloc\<close> refuses requests above 64 MiB, so the 32-bit counters of the source do not wrap.
  The address of the memory a new slab is built in comes from the kernel's page map and is
  a parameter. The locks are not modelled: an operation is one step.
\<close>

definition ALLOC_SIZE :: nat where "ALLOC_SIZE = 16"

definition SANITY_XOR :: u64 where "SANITY_XOR = 0x28AC829B1F5231EC"

definition ceilToAllocSize :: "nat \<Rightarrow> nat" where
  "ceilToAllocSize val = (val + ALLOC_SIZE - 1) div ALLOC_SIZE * ALLOC_SIZE"

definition ceilToPiece :: "nat \<Rightarrow> nat" where
  "ceilToPiece val = ceilToAllocSize val div ALLOC_SIZE"

record slab =
  sl_pieces :: nat
  sl_free_pieces :: nat
  sl_data :: nat
  sl_bitmap :: "u32 list"
  sl_end :: nat

text \<open>\<open>sl_end\<close> is the end of the mapping the slab was built in; \<open>next\<close> is the position in
  the list of slabs.\<close>

record heap =
  slabs :: "slab list"
  hmem :: mem
  heap_allocated :: u64
  heap_free :: u64

subsection \<open>Words of a slab\<close>

definition slab_words :: "slab \<Rightarrow> nat" where
  "slab_words s = length (sl_bitmap s) + (sl_end s - sl_data s) div 4"

definition word_get :: "slab \<Rightarrow> mem \<Rightarrow> nat \<Rightarrow> u32 res" where
  "word_get s m ii =
     (if ii < length (sl_bitmap s) then Inr (sl_bitmap s ! ii)
      else if ii < slab_words s then Inr (load_le 4 (sl_data s + 4 * (ii - length (sl_bitmap s))) m)
      else Inl OutOfBounds)"

definition word_set :: "slab \<Rightarrow> mem \<Rightarrow> nat \<Rightarrow> u32 \<Rightarrow> (slab \<times> mem) res" where
  "word_set s m ii w =
     (if ii < length (sl_bitmap s) then Inr (s\<lparr>sl_bitmap := (sl_bitmap s)[ii := w]\<rparr>, m)
      else if ii < slab_words s
      then Inr (s, store_le 4 (sl_data s + 4 * (ii - length (sl_bitmap s))) w m)
      else Inl OutOfBounds)"

fun mark_loop :: "(u32 \<Rightarrow> nat \<Rightarrow> u32) \<Rightarrow> slab \<Rightarrow> mem \<Rightarrow> nat \<Rightarrow> nat \<Rightarrow> u32 \<Rightarrow> nat \<Rightarrow> (slab \<times> mem) res" where
  "mark_loop f s m ii ib buffer 0 = word_set s m ii buffer"
| "mark_loop f s m ii ib buffer (Suc amount) =
     (let buffer = f buffer ib; ib = ib + 1
      in if ib \<ge> 32 then
           res_bind (word_set s m ii buffer) (\<lambda>(s, m).
           res_bind (word_get s m (ii + 1)) (\<lambda>buffer. mark_loop f s m (ii + 1) 0 buffer amount))
         else mark_loop f s m ii ib buffer amount)"

text \<open>\<open>mark\<close> and \<open>unmark\<close> are the same loop around \<open>buffer |= 1 << ib\<close> and
  \<open>buffer &= ~(1 << ib)\<close>.\<close>

definition mark :: "nat \<Rightarrow> nat \<Rightarrow> slab \<Rightarrow> mem \<Rightarrow> (slab \<times> mem) res" where
  "mark start amount s m =
     (if amount = 0 then Inr (s, m)
      else res_bind (word_get s m (start div 32)) (\<lambda>buffer.
        mark_loop (\<lambda>b ib. b OR bit_mask ib) s m (start div 32) (start mod 32) buffer amount))"

definition unmark :: "nat \<Rightarrow> nat \<Rightarrow> slab \<Rightarrow> mem \<Rightarrow> (slab \<times> mem) res" where
  "unmark start amount s m =
     (if amount = 0 then Inr (s, m)
      else res_bind (word_get s m (start div 32)) (\<lambda>buffer.
        mark_loop (\<lambda>b ib. b AND NOT (bit_mask ib)) s m (start div 32) (start mod 32) buffer amount))"

subsection \<open>The search for free pieces\<close>

text \<open>One word: \<open>left\<close> bits from bit \<open>i\<close> on. The result is the start of a run that reached
  \<open>amount\<close>, or the counters after the word.\<close>

fun scan_word :: "u32 \<Rightarrow> nat \<Rightarrow> nat \<Rightarrow> nat \<Rightarrow> nat \<Rightarrow> nat \<Rightarrow> int \<Rightarrow> int + nat \<times> nat \<times> int" where
  "scan_word buffer amount 0 i index combo start = Inr (index, combo, start)"
| "scan_word buffer amount (Suc left) i index combo start =
     (if buffer AND bit_mask i = 0 then
        let combo = combo + 1; start = (if start = -1 then int index else start)
        in if combo = amount then Inl start
           else scan_word buffer amount left (i + 1) (index + 1) combo start
      else scan_word buffer amount left (i + 1) (index + 1) 0 (-1))"

function findFree_loop ::
    "slab \<Rightarrow> mem \<Rightarrow> nat \<Rightarrow> nat \<Rightarrow> nat \<Rightarrow> nat \<Rightarrow> int \<Rightarrow> int res" where
  "findFree_loop s m amount index ii combo start =
     (if index \<le> sl_pieces s then
        (if ii < slab_words s then
          res_bind (word_get s m ii) (\<lambda>buffer.
            if buffer = -1 then findFree_loop s m amount (index + 32) (ii + 1) 0 (-1)
            else case scan_word buffer amount (min (sl_pieces s - index) 32) 0 index combo start of
                   Inl found \<Rightarrow> Inr found
                 | Inr (index, combo, start) \<Rightarrow>
                     findFree_loop s m amount index (ii + 1) combo start)
         else Inl OutOfBounds)
      else Inr (-1))"
  by pat_completeness auto

termination
  by (relation "measure (\<lambda>(s, m, amount, index, ii, combo, start). slab_words s - ii)") auto

definition findFree :: "nat \<Rightarrow> slab \<Rightarrow> mem \<Rightarrow> int res" where
  "findFree amount s m =
     (if amount > sl_free_pieces s \<or> amount = 0 then Inr (-1)
      else findFree_loop s m amount 0 0 0 (-1))"

subsection \<open>Slab operations\<close>

definition SLAB_SIZE :: nat where "SLAB_SIZE = 48"

definition pageceil_nat :: "nat \<Rightarrow> nat" where
  "pageceil_nat a = (a + 4095) div 4096 * 4096"

definition createFromVMem :: "nat \<Rightarrow> nat \<Rightarrow> heap \<Rightarrow> slab \<times> heap" where
  "createFromVMem at sz h =
     (let pieces = sz div ALLOC_SIZE div 32 * 32;
          data_offset = ceilToAllocSize (SLAB_SIZE + ceilToAllocSize (pieces div 8));
          sz = sz + data_offset;
          words = (data_offset - SLAB_SIZE) div 4;
          m = mem_set (at + SLAB_SIZE) pieces 0 (hmem h);
          s = \<lparr>sl_pieces = pieces, sl_free_pieces = pieces, sl_data = at + data_offset,
               sl_bitmap = map (\<lambda>i. load_le 4 (at + SLAB_SIZE + 4 * i) m) [0..<words],
               sl_end = at + pageceil_nat sz\<rparr>
      in (s, h\<lparr>hmem := m,
               heap_allocated := heap_allocated h + word_of_nat (pieces * ALLOC_SIZE),
               heap_free := heap_free h + word_of_nat (pieces * ALLOC_SIZE)\<rparr>))"

definition sanity_of :: "nat \<Rightarrow> u64" where
  "sanity_of ptr = word_of_nat ptr XOR SANITY_XOR"

definition header_sanity :: "mem \<Rightarrow> nat \<Rightarrow> u64" where
  "header_sanity m ptr = load_le 8 (ptr - ALLOC_SIZE) m"

definition header_len :: "mem \<Rightarrow> nat \<Rightarrow> u32" where
  "header_len m ptr = load_le 4 (ptr - ALLOC_SIZE + 8) m"

definition put_header :: "nat \<Rightarrow> nat \<Rightarrow> mem \<Rightarrow> mem" where
  "put_header addr pieces m =
     store_le 8 addr (sanity_of (addr + ALLOC_SIZE)) (store_le 4 (addr + 8) (word_of_nat pieces :: u32) m)"

text \<open>The pointer returned (\<open>None\<close> for a null pointer), the slab, the memory and the bytes
  taken off \<open>heap_free\<close>.\<close>

definition slab_alloc :: "nat \<Rightarrow> slab \<Rightarrow> mem \<Rightarrow> (nat option \<times> slab \<times> mem \<times> nat) res" where
  "slab_alloc sz s m =
     (if sz = 0 then Inr (None, s, m, 0)
      else let pieces = ceilToPiece (sz + ALLOC_SIZE)
           in res_bind (findFree pieces s m) (\<lambda>start.
                if start = -1 then Inr (None, s, m, 0)
                else res_bind (mark (nat start) pieces s m) (\<lambda>(s, m).
                  let addr = sl_data s + nat start * ALLOC_SIZE;
                      m = put_header addr pieces (mem_set addr (pieces * ALLOC_SIZE) 0 m)
                  in Inr (Some (addr + ALLOC_SIZE), s, m, pieces * ALLOC_SIZE))))"

definition slab_free :: "nat \<Rightarrow> slab \<Rightarrow> mem \<Rightarrow> (slab \<times> mem \<times> nat) res" where
  "slab_free ptr s m =
     (let block = ptr - ALLOC_SIZE
      in if header_sanity m ptr \<noteq> sanity_of ptr then Inl KPanic
         else res_bind (unmark (unat (word_of_int (int block - int (sl_data s)) :: u32) div ALLOC_SIZE) (unat (header_len m ptr)) s m) (\<lambda>(s, m).
           let len = unat (header_len m ptr)
           in Inr (s, mem_set block (len * ALLOC_SIZE) 0x5A m, len * ALLOC_SIZE)))"

definition owns :: "slab \<Rightarrow> nat \<Rightarrow> bool" where
  "owns s ptr \<longleftrightarrow> ptr \<ge> sl_data s \<and> ptr \<le> sl_data s + sl_pieces s * ALLOC_SIZE"

definition slab_size :: "mem \<Rightarrow> nat \<Rightarrow> nat res" where
  "slab_size m ptr =
     (if header_sanity m ptr \<noteq> sanity_of ptr then Inl KPanic
      else Inr (unat (header_len m ptr - 1) * ALLOC_SIZE))"

subsection \<open>The heap\<close>

text \<open>\<open>vm k sz\<close> is where the page map puts the mapping of the \<open>k\<close>-th slab. \<open>n\<close> bounds the
  slabs one request may add; \<open>None\<close> when that is not enough. The slabs already tried are in
  \<open>before\<close>.\<close>

fun malloc_loop ::
    "(nat \<Rightarrow> nat \<Rightarrow> nat) \<Rightarrow> nat \<Rightarrow> nat \<Rightarrow> slab list \<Rightarrow> slab list \<Rightarrow> heap \<Rightarrow> (nat \<times> heap) option res" where
  "malloc_loop vm sz n before (s # after) h =
     res_bind (slab_alloc sz s (hmem h)) (\<lambda>(ptr, s', m, used).
       case ptr of
         Some p \<Rightarrow> Inr (Some (p, h\<lparr>slabs := before @ s' # after, hmem := m,
                                     heap_free := heap_free h - word_of_nat used\<rparr>))
       | None \<Rightarrow> malloc_loop vm sz n (before @ [s]) after h)"
| "malloc_loop vm sz 0 before [] h = Inr None"
| "malloc_loop vm sz (Suc n) before [] h =
     (let (s, h) = createFromVMem (vm (length before) sz) (max (sz * 2) 0x100000) h
      in malloc_loop vm sz n before [s] h)"

definition malloc :: "(nat \<Rightarrow> nat \<Rightarrow> nat) \<Rightarrow> nat \<Rightarrow> heap \<Rightarrow> (nat option \<times> heap) res" where
  "malloc vm sz h =
     (if sz = 0 then Inr (None, h)
      else if sz > 67108864 then Inr (None, h)
      else if slabs h = [] then Inl NullDeref
      else res_bind (malloc_loop vm sz 2 [] (slabs h) h) (\<lambda>r. case r of
             None \<Rightarrow> Inl KPanic
           | Some (p, h) \<Rightarrow> Inr (Some p, h)))"

fun free_loop :: "nat \<Rightarrow> slab list \<Rightarrow> mem \<Rightarrow> (slab list \<times> mem \<times> nat) res" where
  "free_loop ptr [] m = Inl KPanic"
| "free_loop ptr (s # ss) m =
     (if owns s ptr then
        res_bind (slab_free ptr s m) (\<lambda>(s, m, given). Inr (s # ss, m, given))
      else res_bind (free_loop ptr ss m) (\<lambda>(ss, m, given). Inr (s # ss, m, given)))"

definition heap_free_ptr :: "nat option \<Rightarrow> heap \<Rightarrow> heap res" where
  "heap_free_ptr ptr h =
     (case ptr of None \<Rightarrow> Inr h
      | Some p \<Rightarrow> res_bind (free_loop p (slabs h) (hmem h)) (\<lambda>(ss, m, given).
          Inr (h\<lparr>slabs := ss, hmem := m, heap_free := heap_free h + word_of_nat given\<rparr>)))"

fun msize_loop :: "nat \<Rightarrow> slab list \<Rightarrow> mem \<Rightarrow> nat res" where
  "msize_loop ptr [] m = Inl KPanic"
| "msize_loop ptr (s # ss) m = (if owns s ptr then slab_size m ptr else msize_loop ptr ss m)"

definition msize :: "nat option \<Rightarrow> heap \<Rightarrow> nat res" where
  "msize ptr h = (case ptr of None \<Rightarrow> Inr 0 | Some p \<Rightarrow> msize_loop p (slabs h) (hmem h))"

definition msize_total :: "nat option \<Rightarrow> heap \<Rightarrow> nat res" where
  "msize_total ptr h = res_bind (msize ptr h) (\<lambda>n. Inr (n + ALLOC_SIZE))"

definition msize_total_len :: "nat \<Rightarrow> nat" where
  "msize_total_len len = ceilToAllocSize len + ALLOC_SIZE"

definition realloc ::
    "(nat \<Rightarrow> nat \<Rightarrow> nat) \<Rightarrow> nat option \<Rightarrow> nat \<Rightarrow> heap \<Rightarrow> (nat option \<times> heap) res" where
  "realloc vm ptr sz h =
     (case ptr of None \<Rightarrow> malloc vm sz h
      | Some p \<Rightarrow>
        if sz = 0 then res_bind (heap_free_ptr ptr h) (\<lambda>h. Inr (None, h))
        else res_bind (msize ptr h) (\<lambda>oldsize.
             res_bind (malloc vm sz h) (\<lambda>(newptr, h). case newptr of
               None \<Rightarrow> res_bind (heap_free_ptr ptr h) (\<lambda>h. Inr (None, h))
             | Some q \<Rightarrow>
                 res_bind (heap_free_ptr ptr (h\<lparr>hmem := mem_copy q p (min oldsize sz) (hmem h)\<rparr>))
                   (\<lambda>h. Inr (Some q, h)))))"

definition heap_init :: "(nat \<Rightarrow> nat \<Rightarrow> nat) \<Rightarrow> heap \<Rightarrow> heap res" where
  "heap_init vm h =
     (let (s, h) = createFromVMem (vm 0 0x100000) 0x100000 h; h = h\<lparr>slabs := [s]\<rparr>
      in res_bind (malloc vm 24 h) (\<lambda>(a, h).
         res_bind (malloc vm 24 h) (\<lambda>(b, h).
         res_bind (heap_free_ptr a h) (\<lambda>h.
         res_bind (malloc vm 24 h) (\<lambda>(c, h).
           if a \<noteq> c then Inl KPanic
           else res_bind (heap_free_ptr b h) (heap_free_ptr c))))))"


subsection \<open>Marking\<close>

definition slab_wf :: "slab \<Rightarrow> bool" where
  "slab_wf s \<longleftrightarrow> 32 dvd sl_pieces s \<and> 0 < sl_pieces s \<and> sl_pieces s < 2 ^ 28
     \<and> sl_pieces s \<le> bm_bits (sl_bitmap s) \<and> sl_free_pieces s = sl_pieces s
     \<and> 16 \<le> sl_data s \<and> sl_data s + 16 * sl_pieces s \<le> sl_end s \<and> sl_end s < 2 ^ 64"

definition slab_taken :: "slab \<Rightarrow> nat set" where
  "slab_taken s = {i. i < sl_pieces s \<and> bm_get (sl_bitmap s) i}"

lemma slab_words_more: "slab_wf s \<Longrightarrow> length (sl_bitmap s) < slab_words s"
  by (auto simp: slab_wf_def slab_words_def)

lemma bm_get_write:
  assumes "ii < length bm" "ib < 32" "\<And>j. j < 32 \<Longrightarrow> bit w' j \<longleftrightarrow> (if j = ib then v else bit w j)"
  shows "bm_get (bm[ii := w']) i \<longleftrightarrow> (if i = 32 * ii + ib then v else bm_get (bm[ii := w]) i)"
proof (cases "i div 32 = ii")
  case True
  then have "i = 32 * ii + ib \<longleftrightarrow> i mod 32 = ib" by presburger
  with assms True show ?thesis by (simp add: bm_get_def)
next
  case False
  with assms show ?thesis by (auto simp: bm_get_def)
qed

text \<open>Both sweeps at once: \<open>f\<close> writes the value \<open>v\<close> into one bit.\<close>

lemma mark_loop_spec:
  assumes f: "\<And>b ib j. ib < 32 \<Longrightarrow> j < 32 \<Longrightarrow> bit (f b ib) j \<longleftrightarrow> (if j = ib then v else bit b j)"
    and "ib < 32" "ii < length (sl_bitmap s)" "32 * ii + ib + n \<le> bm_bits (sl_bitmap s)"
    and "length (sl_bitmap s) < slab_words s"
  shows "\<exists>bm'. mark_loop f s m ii ib buffer n = Inr (s\<lparr>sl_bitmap := bm'\<rparr>, m)
     \<and> length bm' = length (sl_bitmap s)
     \<and> (\<forall>i. bm_get bm' i \<longleftrightarrow> (if 32 * ii + ib \<le> i \<and> i < 32 * ii + ib + n then v
                              else bm_get ((sl_bitmap s)[ii := buffer]) i))"
  using assms(2-5)
proof (induction n arbitrary: s ii ib buffer)
  case 0
  then show ?case by (intro exI [of _ "(sl_bitmap s)[ii := buffer]"]) (auto simp: word_set_def)
next
  case (Suc n)
  let ?bm = "sl_bitmap s"
  let ?b = "f buffer ib"
  let ?s = "s\<lparr>sl_bitmap := ?bm[ii := ?b]\<rparr>"
  have w: "bm_get (?bm[ii := ?b]) i \<longleftrightarrow> (if i = 32 * ii + ib then v else bm_get (?bm[ii := buffer]) i)" for i
    by (rule bm_get_write) (use Suc.prems f in auto)
  consider "ib + 1 < 32" | "ib = 31" "ii + 1 < length ?bm" | "ib = 31" "ii + 1 = length ?bm" "n = 0"
    using Suc.prems by (fastforce simp: bm_bits_def)
  then show ?case
  proof cases
    case 1
    obtain bm' where bm': "mark_loop f s m ii (ib + 1) ?b n = Inr (s\<lparr>sl_bitmap := bm'\<rparr>, m)"
      "length bm' = length ?bm" "\<forall>i. bm_get bm' i \<longleftrightarrow>
         (if 32 * ii + (ib + 1) \<le> i \<and> i < 32 * ii + (ib + 1) + n then v else bm_get (?bm[ii := ?b]) i)"
      using Suc.IH [of "ib + 1" ii s ?b] 1 Suc.prems by auto
    have "mark_loop f s m ii ib buffer (Suc n) = mark_loop f s m ii (ib + 1) ?b n"
      using 1 by (simp add: Let_def)
    with bm' show ?thesis by (intro exI [of _ bm']) (auto simp: w)
  next
    case 2
    have g: "word_get ?s m (ii + 1) = Inr (?bm ! (ii + 1))" using 2 by (simp add: word_get_def)
    have "\<exists>bm'. mark_loop f ?s m (ii + 1) 0 (?bm ! (ii + 1)) n = Inr (?s\<lparr>sl_bitmap := bm'\<rparr>, m)
      \<and> length bm' = length (sl_bitmap ?s) \<and> (\<forall>i. bm_get bm' i \<longleftrightarrow>
         (if 32 * (ii + 1) + 0 \<le> i \<and> i < 32 * (ii + 1) + 0 + n then v
          else bm_get ((sl_bitmap ?s)[ii + 1 := ?bm ! (ii + 1)]) i))"
      by (rule Suc.IH) (use 2 Suc.prems in \<open>auto simp: bm_bits_def slab_words_def\<close>)
    moreover have "(sl_bitmap ?s)[ii + 1 := ?bm ! (ii + 1)] = ?bm[ii := ?b]"
      using list_update_id [of "?bm[ii := ?b]" "ii + 1"] by simp
    ultimately obtain bm' where bm': "mark_loop f ?s m (ii + 1) 0 (?bm ! (ii + 1)) n = Inr (?s\<lparr>sl_bitmap := bm'\<rparr>, m)"
      "length bm' = length ?bm" "\<forall>i. bm_get bm' i \<longleftrightarrow>
         (if 32 * (ii + 1) \<le> i \<and> i < 32 * (ii + 1) + n then v else bm_get (?bm[ii := ?b]) i)"
      by auto
    have "mark_loop f s m ii ib buffer (Suc n) = mark_loop f ?s m (ii + 1) 0 (?bm ! (ii + 1)) n"
      using 2 g Suc.prems by (simp add: Let_def word_set_def)
    moreover have "bm_get bm' i \<longleftrightarrow> (if 32 * ii + ib \<le> i \<and> i < 32 * ii + ib + Suc n then v
        else bm_get (?bm[ii := buffer]) i)" for i
      using bm'(3) [rule_format, of i] w [of i] 2(1) by (cases "i = 32 * ii + ib") auto
    ultimately show ?thesis using bm'(1,2) by (intro exI [of _ bm']) simp
  next
    case 3
    let ?a = "sl_data s + 4 * (ii + 1 - length ?bm)"
    have "word_get ?s m (ii + 1) = Inr (load_le 4 ?a m)" "slab_words ?s = slab_words s"
      using 3 Suc.prems(4) by (simp_all add: word_get_def slab_words_def)
    moreover have "word_set ?s m (ii + 1) (load_le 4 ?a m) = Inr (?s, m)"
      using 3 Suc.prems(4) by (simp add: word_set_def slab_words_def store_load_le)
    ultimately have "mark_loop f s m ii ib buffer (Suc n) = Inr (?s, m)"
      using 3 Suc.prems by (simp add: Let_def word_set_def)
    moreover have "bm_get (?bm[ii := ?b]) i \<longleftrightarrow> (if 32 * ii + ib \<le> i \<and> i < 32 * ii + ib + Suc n then v
        else bm_get (?bm[ii := buffer]) i)" for i
      using w [of i] 3 by auto
    ultimately show ?thesis by (intro exI [of _ "?bm[ii := ?b]"]) simp
  qed
qed

lemma sweep_spec:
  assumes f: "\<And>b ib j. ib < 32 \<Longrightarrow> j < 32 \<Longrightarrow> bit (f b ib) j \<longleftrightarrow> (if j = ib then v else bit b j)"
    and "slab_wf s" "start + n \<le> sl_pieces s" "n \<noteq> 0"
  shows "\<exists>bm'. res_bind (word_get s m (start div 32)) (\<lambda>b. mark_loop f s m (start div 32) (start mod 32) b n)
       = Inr (s\<lparr>sl_bitmap := bm'\<rparr>, m)
     \<and> length bm' = length (sl_bitmap s)
     \<and> (\<forall>i. bm_get bm' i \<longleftrightarrow> (if start \<le> i \<and> i < start + n then v else bm_get (sl_bitmap s) i))"
proof -
  have ii: "start div 32 < length (sl_bitmap s)"
    using assms(2-4) by (auto simp: slab_wf_def bm_bits_def)
  have le: "32 * (start div 32) + start mod 32 + n \<le> bm_bits (sl_bitmap s)"
    using assms(2,3) by (simp add: slab_wf_def)
  obtain bm' where "mark_loop f s m (start div 32) (start mod 32) (sl_bitmap s ! (start div 32)) n
       = Inr (s\<lparr>sl_bitmap := bm'\<rparr>, m)" "length bm' = length (sl_bitmap s)"
     "\<forall>i. bm_get bm' i \<longleftrightarrow> (if start \<le> i \<and> i < start + n then v else bm_get (sl_bitmap s) i)"
    using mark_loop_spec [where f = f and v = v, OF f _ ii le slab_words_more [OF assms(2)],
        of m "sl_bitmap s ! (start div 32)"] by auto
  then show ?thesis using ii by (intro exI [of _ bm']) (simp add: word_get_def)
qed

lemma set_one_bit:
  "ib < 32 \<Longrightarrow> j < 32 \<Longrightarrow> bit (b OR bit_mask ib) j \<longleftrightarrow> (if j = ib then True else bit b j)"
  "ib < 32 \<Longrightarrow> j < 32 \<Longrightarrow> bit (b AND NOT (bit_mask ib)) j \<longleftrightarrow> (if j = ib then False else bit b j)"
  for b :: u32
  by (auto simp: bit_or_iff bit_and_iff bit_not_iff)

lemma mark_spec:
  assumes "slab_wf s" "start + n \<le> sl_pieces s"
  shows "\<exists>s'. mark start n s m = Inr (s', m) \<and> slab_wf s' \<and> sl_pieces s' = sl_pieces s
     \<and> sl_data s' = sl_data s \<and> sl_end s' = sl_end s
     \<and> slab_taken s' = slab_taken s \<union> {start..<start + n}"
proof (cases "n = 0")
  case False
  obtain bm' where bm': "mark start n s m = Inr (s\<lparr>sl_bitmap := bm'\<rparr>, m)"
     "length bm' = length (sl_bitmap s)"
     and bits: "\<forall>i. bm_get bm' i \<longleftrightarrow> (if start \<le> i \<and> i < start + n then True else bm_get (sl_bitmap s) i)"
    using sweep_spec [where f = "\<lambda>b ib. b OR bit_mask ib" and v = True, OF set_one_bit(1) assms False, of m]
      False unfolding mark_def by (simp only: if_False) blast
  have "{i. i < sl_pieces s \<and> bm_get bm' i} = {i. i < sl_pieces s \<and> bm_get (sl_bitmap s) i} \<union> {start..<start + n}"
    by (rule taken_union [OF _ assms(2)]) (use bits in auto)
  then show ?thesis using assms(1) bm'
    by (intro exI [of _ "s\<lparr>sl_bitmap := bm'\<rparr>"]) (simp add: slab_wf_def slab_taken_def bm_bits_def)
qed (use assms in \<open>simp add: mark_def\<close>)

lemma unmark_spec:
  assumes "slab_wf s" "start + n \<le> sl_pieces s"
  shows "\<exists>s'. unmark start n s m = Inr (s', m) \<and> slab_wf s' \<and> sl_pieces s' = sl_pieces s
     \<and> sl_data s' = sl_data s \<and> sl_end s' = sl_end s
     \<and> slab_taken s' = slab_taken s - {start..<start + n}"
proof (cases "n = 0")
  case False
  obtain bm' where bm': "unmark start n s m = Inr (s\<lparr>sl_bitmap := bm'\<rparr>, m)"
     "length bm' = length (sl_bitmap s)"
     and bits: "\<forall>i. bm_get bm' i \<longleftrightarrow> (if start \<le> i \<and> i < start + n then False else bm_get (sl_bitmap s) i)"
    using sweep_spec [where f = "\<lambda>b ib. b AND NOT (bit_mask ib)" and v = False,
        OF set_one_bit(2) assms False, of m]
      False unfolding unmark_def by (simp only: if_False) blast
  have "{i. i < sl_pieces s \<and> bm_get bm' i} = {i. i < sl_pieces s \<and> bm_get (sl_bitmap s) i} - {start..<start + n}"
    by (rule taken_diff) (use bits in simp)
  then show ?thesis using assms(1) bm'
    by (intro exI [of _ "s\<lparr>sl_bitmap := bm'\<rparr>"]) (simp add: slab_wf_def slab_taken_def bm_bits_def)
qed (use assms in \<open>simp add: unmark_def\<close>)

subsection \<open>Searching\<close>

definition scan_start :: "nat \<Rightarrow> nat \<Rightarrow> int" where
  "scan_start index combo = (if combo = 0 then -1 else int (index - combo))"

text \<open>What a word leaves behind: the first run, or the search state at index \<open>e\<close>.\<close>

definition scan_post :: "u32 list \<Rightarrow> nat \<Rightarrow> nat \<Rightarrow> nat \<Rightarrow> int + nat \<times> nat \<times> int \<Rightarrow> bool" where
  "scan_post bm amount limit e r = (case r of
      Inl r \<Rightarrow> 0 \<le> r \<and> first_run bm amount limit (nat r)
    | Inr (index, combo, start) \<Rightarrow> index = e \<and> search_inv bm amount index combo
        \<and> start = scan_start index combo)"

lemma scan_word_spec:
  assumes "i + left \<le> 32" "search_inv bm amount (32 * ii + i) combo" "32 * ii + i + left \<le> limit"
  shows "scan_post bm amount limit (32 * ii + i + left)
     (scan_word (bm ! ii) amount left i (32 * ii + i) combo (scan_start (32 * ii + i) combo))"
  using assms
proof (induction left arbitrary: i combo)
  case (Suc left)
  let ?x = "32 * ii + i"
  have bit: "bit (bm ! ii) i = bm_get bm ?x" using Suc.prems(1) by (simp add: bitmap_simps)
  show ?case
  proof (cases "bm_get bm ?x")
    case True
    with Suc.IH [of "i + 1" 0] Suc.prems search_inv_taken [OF Suc.prems(2) True] show ?thesis
      by (simp add: bit scan_start_def)
  next
    case free: False
    have le: "combo \<le> ?x" "combo < amount" using Suc.prems(2) by (simp_all add: search_inv_def)
    have start: "(if scan_start ?x combo = -1 then int ?x else scan_start ?x combo) = int (?x - combo)"
      using le by (simp add: scan_start_def)
    show ?thesis
    proof (cases "combo + 1 = amount")
      case True
      then have "first_run bm amount limit (?x - combo)"
        using search_inv_hit [OF Suc.prems(2) free, of limit] Suc.prems(3) by simp
      then show ?thesis using free True start by (simp add: bit Let_def scan_post_def del: of_nat_diff)
    next
      case False
      have "scan_word (bm ! ii) amount (Suc left) i ?x combo (scan_start ?x combo) =
          scan_word (bm ! ii) amount left (i + 1) (?x + 1) (combo + 1) (int (?x - combo))"
        unfolding scan_word.simps Let_def mask_test0 bit start using free False by simp
      with False Suc.IH [of "i + 1" "combo + 1"] Suc.prems search_inv_free [OF Suc.prems(2) free] le
      show ?thesis by (simp add: scan_start_def del: of_nat_diff scan_word.simps)
    qed
  qed
qed (simp add: scan_post_def)

lemma search_inv_full:
  assumes "search_inv bm want i f" "\<And>k. k < n \<Longrightarrow> bm_get bm (i + k)" "0 < n"
  shows "search_inv bm want (i + n) 0"
  using assms(2,3)
proof (induction n)
  case (Suc n)
  show ?case
  proof (cases n)
    case 0
    then show ?thesis using assms(1) Suc.prems(1) [of 0] search_inv_taken by simp
  next
    case (Suc n')
    then have "search_inv bm want (i + n) 0" using Suc.IH Suc.prems(1) by simp
    then show ?thesis using search_inv_taken [of bm want "i + n" 0] Suc.prems(1) [of n] by simp
  qed
qed simp

text \<open>Behind the last piece the loop goes on until it reads a word of ones or leaves the mapping.\<close>

definition ones_behind :: "slab \<Rightarrow> mem \<Rightarrow> nat \<Rightarrow> bool" where
  "ones_behind s m ii \<longleftrightarrow> (\<exists>j \<in> {ii..<slab_words s}. word_get s m j = Inr (-1))"

lemma ones_behind_step:
  "ii < slab_words s \<Longrightarrow> ones_behind s m ii \<longleftrightarrow> word_get s m ii = Inr (-1) \<or> ones_behind s m (Suc ii)"
proof -
  assume "ii < slab_words s"
  then have "{ii..<slab_words s} = insert ii {Suc ii..<slab_words s}" by auto
  then show ?thesis by (simp add: ones_behind_def)
qed

lemma findFree_loop_past:
  assumes "length (sl_bitmap s) \<le> slab_words s"
  shows "findFree_loop s m amount (sl_pieces s) ii combo start =
     (if ones_behind s m ii then Inr (-1) else Inl OutOfBounds)"
proof (induction "slab_words s - ii" arbitrary: ii)
  case 0
  then show ?case by (simp add: ones_behind_def)
next
  case (Suc n)
  then have ii: "ii < slab_words s" by simp
  then obtain w where w: "word_get s m ii = Inr w" using ii by (cases "ii < length (sl_bitmap s)") (auto simp: word_get_def)
  have IH: "findFree_loop s m amount (sl_pieces s) (Suc ii) combo start =
     (if ones_behind s m (Suc ii) then Inr (-1) else Inl OutOfBounds)"
    by (rule Suc.hyps(1)) (use Suc.hyps(2) in simp)
  have past: "findFree_loop s m amount (sl_pieces s + 32) (Suc ii) 0 (-1) = Inr (-1)"
    by (subst findFree_loop.simps) simp
  show ?case
    unfolding ones_behind_step [OF ii] w
    by (subst findFree_loop.simps) (use ii w IH past in \<open>simp del: findFree_loop.simps\<close>)
qed


lemma findFree_loop_spec:
  assumes "slab_wf s" "32 * ii \<le> sl_pieces s" "search_inv (sl_bitmap s) amount (32 * ii) combo"
  shows "(\<exists>st. first_run (sl_bitmap s) amount (sl_pieces s) st
        \<and> findFree_loop s m amount (32 * ii) ii combo (scan_start (32 * ii) combo) = Inr (int st))
     \<or> no_run (sl_bitmap s) amount (sl_pieces s)
        \<and> findFree_loop s m amount (32 * ii) ii combo (scan_start (32 * ii) combo) =
            (if ones_behind s m (sl_pieces s div 32) then Inr (-1) else Inl OutOfBounds)"
  using assms(2,3)
proof (induction "sl_pieces s - 32 * ii" arbitrary: ii combo rule: less_induct)
  case less
  let ?bm = "sl_bitmap s"
  show ?case
  proof (cases "32 * ii = sl_pieces s")
    case True
    have "no_run ?bm amount (sl_pieces s)"
      using less.prems(2) True by (auto simp: no_run_def search_inv_def)
    moreover have "sl_pieces s div 32 = ii" using True by simp
    ultimately show ?thesis
      using findFree_loop_past [of s m amount ii combo "scan_start (32 * ii) combo"]
        slab_words_more [OF assms(1)] True by simp
  next
    case False
    obtain k where k: "sl_pieces s = 32 * k" using assms(1) by (auto simp: slab_wf_def)
    then have le: "32 * Suc ii \<le> sl_pieces s" using less.prems(1) False by simp
    have ii: "ii < length ?bm" using le assms(1) by (auto simp: slab_wf_def bm_bits_def)
    then have w: "word_get s m ii = Inr (?bm ! ii)" "ii < slab_words s"
      using slab_words_more [OF assms(1)] by (simp_all add: word_get_def)
    have left: "min (sl_pieces s - 32 * ii) 32 = 32" using le by simp
    note IH = less.hyps [of "Suc ii"]
    have lt: "sl_pieces s - 32 * Suc ii < sl_pieces s - 32 * ii" using le by simp
    show ?thesis
    proof (cases "?bm ! ii = -1")
      case True
      have "bm_get ?bm (32 * ii + j)" if "j < 32" for j
        using that True by (simp add: bm_get_def)
      then have "search_inv ?bm amount (32 * ii + 32) 0"
        by (intro search_inv_full [OF less.prems(2)]) simp_all
      moreover have "findFree_loop s m amount (32 * ii) ii combo (scan_start (32 * ii) combo) =
          findFree_loop s m amount (32 * Suc ii) (Suc ii) 0 (-1)"
        by (subst findFree_loop.simps) (use less.prems(1) w True in \<open>simp add: add.commute del: findFree_loop.simps\<close>)
      ultimately show ?thesis using IH [of 0] lt le by (simp add: scan_start_def add.commute del: findFree_loop.simps)
    next
      case word: False
      let ?r = "scan_word (?bm ! ii) amount 32 0 (32 * ii) combo (scan_start (32 * ii) combo)"
      have post: "scan_post ?bm amount (sl_pieces s) (32 * ii + 32) ?r"
        using scan_word_spec [of 0 32 ?bm amount ii combo "sl_pieces s"] less.prems(2) le by simp
      have step: "findFree_loop s m amount (32 * ii) ii combo (scan_start (32 * ii) combo) =
          (case ?r of Inl found \<Rightarrow> Inr found
           | Inr (index, combo, start) \<Rightarrow> findFree_loop s m amount index (ii + 1) combo start)"
        by (subst findFree_loop.simps) (use less.prems(1) w word left in \<open>simp del: findFree_loop.simps\<close>)
      show ?thesis
      proof (cases ?r)
        case (Inl r)
        with post step show ?thesis
          by (intro disjI1 exI [of _ "nat r"]) (simp add: scan_post_def)
      next
        case (Inr t)
        then obtain c where c: "?r = Inr (32 * Suc ii, c, scan_start (32 * Suc ii) c)"
            "search_inv ?bm amount (32 * Suc ii) c"
          using post by (cases t) (auto simp: scan_post_def add.commute)
        with IH [OF lt le c(2)] step show ?thesis by (simp del: findFree_loop.simps mult_Suc_right)
      qed
    qed
  qed
qed

lemma findFree_result:
  assumes "slab_wf s"
  shows "(\<exists>st. first_run (sl_bitmap s) amount (sl_pieces s) st \<and> 0 < amount
        \<and> findFree amount s m = Inr (int st))
     \<or> (0 < amount \<longrightarrow> no_run (sl_bitmap s) amount (sl_pieces s))
        \<and> findFree amount s m = (if amount = 0 \<or> amount > sl_pieces s
             \<or> ones_behind s m (sl_pieces s div 32) then Inr (-1) else Inl OutOfBounds)"
proof (cases "amount = 0 \<or> amount > sl_pieces s")
  case True
  then show ?thesis using assms by (auto simp: findFree_def slab_wf_def no_run_def)
next
  case False
  with findFree_loop_spec [OF assms, of 0 amount 0 m] show ?thesis
    using assms by (auto simp: findFree_def slab_wf_def scan_start_def search_inv_start
        simp del: findFree_loop.simps)
qed


subsection \<open>A slab as a slot allocator\<close>

definition slab_search :: "nat \<Rightarrow> slab \<times> mem \<Rightarrow> nat option res" where
  "slab_search n p = res_bind (findFree n (fst p) (snd p)) (\<lambda>r. Inr (if r = -1 then None else Some (nat r)))"

definition slab_grab :: "nat \<Rightarrow> nat \<Rightarrow> slab \<times> mem \<Rightarrow> (slab \<times> mem) res" where
  "slab_grab st n p = mark st n (fst p) (snd p)"

definition slab_give :: "nat \<Rightarrow> nat \<Rightarrow> slab \<times> mem \<Rightarrow> (slab \<times> mem) res" where
  "slab_give st n p = unmark st n (fst p) (snd p)"

lemma free_run_slab:
  "st + n \<le> sl_pieces s \<Longrightarrow> free_run (sl_bitmap s) st n \<longleftrightarrow> {st..<st + n} \<inter> slab_taken s = {}"
  by (auto simp: free_run_iff slab_taken_def)

interpretation sla: slot_allocator "\<lambda>p. slab_wf (fst p)" "\<lambda>p. sl_pieces (fst p)" "\<lambda>p. slab_taken (fst p)"
  slab_search slab_grab slab_give
proof (unfold_locales, goal_cases)
  case (1 p n st)
  with findFree_result [OF 1(1), of n "snd p"] have "0 < n" "first_run (sl_bitmap (fst p)) n (sl_pieces (fst p)) st"
    by (auto simp: slab_search_def split: if_splits)
  then show ?case using free_run_slab by (auto simp: first_run_def)
next
  case (2 p st n)
  then show ?case using mark_spec [of "fst p" st n "snd p"] by (auto simp: slab_grab_def)
next
  case (3 p st n)
  then show ?case using unmark_spec [of "fst p" st n "snd p"] by (auto simp: slab_give_def)
qed

subsection \<open>Blocks\<close>

text \<open>A live block of \<open>n\<close> pieces whose client pointer is \<open>ptr\<close>.\<close>

definition block :: "slab \<Rightarrow> mem \<Rightarrow> nat \<Rightarrow> nat \<Rightarrow> nat \<Rightarrow> bool" where
  "block s m st n ptr \<longleftrightarrow> ptr = sl_data s + 16 * st + 16 \<and> 0 < n \<and> st + n \<le> sl_pieces s
     \<and> {st..<st + n} \<subseteq> slab_taken s
     \<and> header_sanity m ptr = sanity_of ptr \<and> header_len m ptr = word_of_nat n"

definition pieces_for :: "nat \<Rightarrow> nat" where
  "pieces_for sz = ceilToPiece (sz + ALLOC_SIZE)"

lemma pieces_for_bounds:
  "16 * (pieces_for sz - 1) < sz + 16" "sz \<le> 16 * (pieces_for sz - 1)" "0 < pieces_for sz"
  by (auto simp: pieces_for_def ceilToPiece_def ceilToAllocSize_def ALLOC_SIZE_def)

lemma put_header_outside [simp]: "x < a \<or> a + 16 \<le> x \<Longrightarrow> put_header a n m x = m x"
  by (auto simp: put_header_def ALLOC_SIZE_def)

lemma header_of_put:
  "header_sanity (put_header a n m) (a + 16) = sanity_of (a + 16)"
  "header_len (put_header a n m) (a + 16) = word_of_nat n"
proof -
  show "header_sanity (put_header a n m) (a + 16) = sanity_of (a + 16)"
    by (simp add: header_sanity_def put_header_def ALLOC_SIZE_def load_store_le)
  have "load_le 4 (a + 8) (put_header a n m) = (load_le 4 (a + 8) (store_le 4 (a + 8) (word_of_nat n :: u32) m) :: u32)"
    unfolding put_header_def by (rule load_le_cong) simp
  then show "header_len (put_header a n m) (a + 16) = word_of_nat n"
    by (simp add: header_len_def ALLOC_SIZE_def load_store_le)
qed

lemma header_cong:
  assumes "\<And>x. ptr - 16 \<le> x \<Longrightarrow> x < ptr \<Longrightarrow> m' x = m x" "16 \<le> ptr"
  shows "header_sanity m' ptr = header_sanity m ptr" "header_len m' ptr = header_len m ptr"
  unfolding header_sanity_def header_len_def ALLOC_SIZE_def
  by (rule load_le_cong, use assms in simp)+

definition slab_same :: "slab \<Rightarrow> slab \<Rightarrow> bool" where
  "slab_same s s' \<longleftrightarrow> slab_wf s' \<and> sl_pieces s' = sl_pieces s \<and> sl_data s' = sl_data s \<and> sl_end s' = sl_end s"

definition new_block_mem :: "nat \<Rightarrow> nat \<Rightarrow> mem \<Rightarrow> mem" where
  "new_block_mem addr n m = put_header addr n (mem_set addr (n * 16) 0 m)"

lemma slab_alloc_fit:
  assumes "slab_wf s" "0 < sz" "first_run (sl_bitmap s) (pieces_for sz) (sl_pieces s) st"
  shows "\<exists>s'. slab_alloc sz s m = Inr (Some (sl_data s + 16 * st + 16), s',
        new_block_mem (sl_data s + 16 * st) (pieces_for sz) m, pieces_for sz * 16)
     \<and> slab_same s s' \<and> slab_taken s' = slab_taken s \<union> {st..<st + pieces_for sz}
     \<and> {st..<st + pieces_for sz} \<inter> slab_taken s = {} \<and> st + pieces_for sz \<le> sl_pieces s"
proof -
  let ?n = "pieces_for sz"
  have n: "0 < ?n" by (rule pieces_for_bounds)
  have st: "st + ?n \<le> sl_pieces s" using assms(3) by (simp add: first_run_def)
  have "\<not> no_run (sl_bitmap s) ?n (sl_pieces s)" using assms(3) by (auto simp: no_run_def first_run_def)
  then obtain st' where st': "first_run (sl_bitmap s) ?n (sl_pieces s) st'" "findFree ?n s m = Inr (int st')"
    using findFree_result [OF assms(1), of ?n m] n by blast
  moreover have "st' = st"
    using st'(1) assms(3) by (auto simp: first_run_def) (metis linorder_neqE_nat)
  ultimately have find: "findFree ?n s m = Inr (int st)" by simp
  obtain s' where s': "mark st ?n s m = Inr (s', m)" "slab_wf s'" "sl_pieces s' = sl_pieces s"
     "sl_data s' = sl_data s" "sl_end s' = sl_end s" "slab_taken s' = slab_taken s \<union> {st..<st + ?n}"
    using mark_spec [OF assms(1) st, of m] by blast
  have "{st..<st + ?n} \<inter> slab_taken s = {}"
    using assms(3) free_run_slab [OF st] by (simp add: first_run_def)
  then show ?thesis
    using s' find assms(2) st unfolding slab_alloc_def pieces_for_def [symmetric]
    by (simp add: Let_def slab_same_def ALLOC_SIZE_def new_block_mem_def mult.commute)
qed

lemma new_block_mem_facts:
  "x < a \<or> a + 16 * n \<le> x \<Longrightarrow> 0 < n \<Longrightarrow> new_block_mem a n m x = m x"
  "a + 16 \<le> x \<Longrightarrow> x < a + 16 * n \<Longrightarrow> new_block_mem a n m x = 0"
  "header_sanity (new_block_mem a n m) (a + 16) = sanity_of (a + 16)"
  "header_len (new_block_mem a n m) (a + 16) = word_of_nat n"
  by (auto simp: new_block_mem_def header_of_put)

lemma block_offset:
  assumes "slab_wf s" "block s m st n ptr"
  shows "unat (word_of_int (int (ptr - 16) - int (sl_data s)) :: u32) div 16 = st" "16 \<le> ptr"
    "unat (word_of_nat n :: u32) = n"
proof -
  have ptr: "ptr = sl_data s + 16 * st + 16" and n: "st + n < 2 ^ 28" "0 < n"
    using assms by (auto simp: block_def slab_wf_def)
  have "int (ptr - 16) - int (sl_data s) = int (16 * st)" using ptr by simp
  moreover have "unat (word_of_int (int (16 * st)) :: u32) = 16 * st"
    using n by (simp add: unat_word_of_int_small del: of_int_of_nat_eq of_nat_mult)
  ultimately show "unat (word_of_int (int (ptr - 16) - int (sl_data s)) :: u32) div 16 = st" by simp
  show "16 \<le> ptr" using ptr by simp
  show "unat (word_of_nat n :: u32) = n" using n by (simp add: unat_of_nat)
qed

lemma slab_free_block:
  assumes "slab_wf s" "block s m st n ptr"
  shows "\<exists>s'. slab_free ptr s m = Inr (s', mem_set (ptr - 16) (n * 16) 0x5A m, n * 16)
     \<and> slab_same s s' \<and> slab_taken s' = slab_taken s - {st..<st + n}"
proof -
  have st: "st + n \<le> sl_pieces s" "header_sanity m ptr = sanity_of ptr" "header_len m ptr = word_of_nat n"
    using assms(2) unfolding block_def by blast+
  obtain s' where s': "unmark st n s m = Inr (s', m)" "slab_wf s'" "sl_pieces s' = sl_pieces s"
     "sl_data s' = sl_data s" "sl_end s' = sl_end s" "slab_taken s' = slab_taken s - {st..<st + n}"
    using unmark_spec [OF assms(1) st(1), of m] by blast
  then show ?thesis
    using st block_offset [OF assms] unfolding slab_free_def ALLOC_SIZE_def
    by (simp add: Let_def slab_same_def)
qed

lemma slab_size_block:
  "slab_wf s \<Longrightarrow> block s m st n ptr \<Longrightarrow> slab_size m ptr = Inr (16 * (n - 1))"
proof -
  assume a: "slab_wf s" "block s m st n ptr"
  note n = block_offset(3) [OF a]
  have h: "header_sanity m ptr = sanity_of ptr" "header_len m ptr = word_of_nat n" "0 < n"
    using a(2) unfolding block_def by blast+
  have "unat ((word_of_nat n :: u32) - 1) = n - 1"
    using n h(3) by (subst unat_sub) (simp_all add: word_le_nat_alt)
  with h show ?thesis by (simp add: slab_size_def ALLOC_SIZE_def)
qed


subsection \<open>Heaps of several slabs\<close>

definition slab_span :: "slab \<Rightarrow> nat set" where
  "slab_span s = {sl_data s - 16..<sl_end s}"

fun slabs_ok :: "slab list \<Rightarrow> bool" where
  "slabs_ok [] = True"
| "slabs_ok (s # ss) \<longleftrightarrow>
     slab_wf s \<and> (\<forall>t \<in> set ss. slab_span s \<inter> slab_span t = {}) \<and> slabs_ok ss"

lemma slabs_ok_append:
  "slabs_ok (xs @ ys) \<longleftrightarrow> slabs_ok xs \<and> slabs_ok ys
     \<and> (\<forall>s \<in> set xs. \<forall>t \<in> set ys. slab_span s \<inter> slab_span t = {})"
  by (induction xs) auto

lemma slabs_ok_wf: "slabs_ok ss \<Longrightarrow> s \<in> set ss \<Longrightarrow> slab_wf s"
  by (induction ss) auto

lemma slabs_ok_same: "slabs_ok (pre @ s # post) \<Longrightarrow> slab_same s s' \<Longrightarrow> slabs_ok (pre @ s' # post)"
  by (auto simp: slabs_ok_append slab_same_def slab_span_def)

text \<open>The addresses of a block, header included.\<close>

definition block_range :: "nat \<Rightarrow> nat \<Rightarrow> nat set" where
  "block_range ptr n = {ptr - 16..<ptr - 16 + 16 * n}"

definition heap_block :: "heap \<Rightarrow> nat \<Rightarrow> nat \<Rightarrow> bool" where
  "heap_block h ptr n \<longleftrightarrow> (\<exists>s \<in> set (slabs h). \<exists>st. block s (hmem h) st n ptr)"

lemma block_range_span:
  "slab_wf s \<Longrightarrow> block s m st n ptr \<Longrightarrow> block_range ptr n \<subseteq> slab_span s"
  by (auto simp: block_def block_range_def slab_span_def slab_wf_def)

lemma block_owned:
  assumes "slabs_ok (pre @ s # post)" "block s m st n ptr"
  shows "owns s ptr" "t \<in> set pre \<Longrightarrow> \<not> owns t ptr"
proof -
  have wf: "slab_wf s" using slabs_ok_wf [OF assms(1)] by simp
  show "owns s ptr" using assms(2) by (auto simp: block_def owns_def ALLOC_SIZE_def)
  assume t: "t \<in> set pre"
  then have wft: "slab_wf t" and dis: "slab_span t \<inter> slab_span s = {}"
    using slabs_ok_wf [OF assms(1)] assms(1) by (auto simp: slabs_ok_append)
  have "ptr - 1 \<in> slab_span s"
    using assms(2) wf by (auto simp: block_def slab_span_def slab_wf_def)
  then have "ptr - 1 \<notin> slab_span t" using dis by blast
  then show "\<not> owns t ptr" using wft by (auto simp: slab_span_def owns_def slab_wf_def ALLOC_SIZE_def)
qed

lemma free_loop_block:
  assumes "\<forall>t \<in> set pre. \<not> owns t ptr" "owns s ptr" "slab_free ptr s m = Inr (s', m', k)"
  shows "free_loop ptr (pre @ s # post) m = Inr (pre @ s' # post, m', k)"
  using assms by (induction pre) auto

lemma msize_loop_block:
  "\<forall>t \<in> set pre. \<not> owns t ptr \<Longrightarrow> owns s ptr \<Longrightarrow> msize_loop ptr (pre @ s # post) m = slab_size m ptr"
  by (induction pre) auto

lemma heap_free_block:
  assumes "slabs_ok (slabs h)" "slabs h = pre @ s # post" "block s (hmem h) st n ptr"
  shows "\<exists>s' h'. heap_free_ptr (Some ptr) h = Inr h' \<and> slabs h' = pre @ s' # post
     \<and> slab_same s s' \<and> slab_taken s' = slab_taken s - {st..<st + n}
     \<and> slabs_ok (slabs h') \<and> hmem h' = mem_set (ptr - 16) (16 * n) 0x5A (hmem h)"
proof -
  have wf: "slab_wf s" using slabs_ok_wf [OF assms(1)] assms(2) by simp
  note ow = block_owned [OF assms(1) [unfolded assms(2)] assms(3)]
  obtain s' where s': "slab_free ptr s (hmem h) = Inr (s', mem_set (ptr - 16) (n * 16) 0x5A (hmem h), n * 16)"
      "slab_same s s'" "slab_taken s' = slab_taken s - {st..<st + n}"
    using slab_free_block [OF wf assms(3)] by blast
  have "free_loop ptr (slabs h) (hmem h) = Inr (pre @ s' # post, mem_set (ptr - 16) (n * 16) 0x5A (hmem h), n * 16)"
    unfolding assms(2) by (rule free_loop_block) (use ow s' in blast)+
  then show ?thesis
    using s' slabs_ok_same [OF assms(1) [unfolded assms(2)] s'(2)]
    by (simp add: heap_free_ptr_def mult.commute)
qed

lemma msize_block:
  assumes "slabs_ok (slabs h)" "slabs h = pre @ s # post" "block s (hmem h) st n ptr"
  shows "msize (Some ptr) h = Inr (16 * (n - 1))"
proof -
  have wf: "slab_wf s" using slabs_ok_wf [OF assms(1)] assms(2) by simp
  note ow = block_owned [OF assms(1) [unfolded assms(2)] assms(3)]
  have "msize_loop ptr (slabs h) (hmem h) = slab_size (hmem h) ptr"
    unfolding assms(2) by (rule msize_loop_block) (use ow in blast)+
  then show ?thesis using slab_size_block [OF wf assms(3)] by (simp add: msize_def)
qed

text \<open>A slab the walk passes over: it has no room, and the search comes back to say so.\<close>

definition passes_over :: "mem \<Rightarrow> nat \<Rightarrow> slab \<Rightarrow> bool" where
  "passes_over m n s \<longleftrightarrow> no_run (sl_bitmap s) n (sl_pieces s)
     \<and> (n > sl_pieces s \<or> ones_behind s m (sl_pieces s div 32))"

lemma slab_alloc_none:
  assumes "slab_wf s" "passes_over m (pieces_for sz) s" "0 < sz"
  shows "slab_alloc sz s m = Inr (None, s, m, 0)"
proof -
  have "\<not> first_run (sl_bitmap s) (pieces_for sz) (sl_pieces s) st" for st
    using assms(2) by (auto simp: passes_over_def no_run_def first_run_def)
  then have "findFree (pieces_for sz) s m = Inr (-1)"
    using findFree_result [OF assms(1), of "pieces_for sz" m] assms(2)
    by (auto simp: passes_over_def)
  then show ?thesis using assms(3) by (simp add: slab_alloc_def pieces_for_def Let_def)
qed

lemma malloc_loop_fit:
  assumes "\<forall>t \<in> set pre. slab_wf t \<and> passes_over (hmem h) (pieces_for sz) t" "0 < sz"
    and "slab_alloc sz s (hmem h) = Inr (Some p, s', m, used)"
  shows "malloc_loop vm sz n bef (pre @ s # post) h = Inr (Some (p,
     h\<lparr>slabs := bef @ pre @ s' # post, hmem := m, heap_free := heap_free h - word_of_nat used\<rparr>))"
  using assms by (induction pre arbitrary: bef) (auto simp: slab_alloc_none)

lemma first_run_exists:
  assumes "\<not> no_run bm n limit"
  shows "\<exists>st. first_run bm n limit st"
proof -
  obtain st where st: "free_run bm st n" "st + n \<le> limit" using assms by (auto simp: no_run_def)
  define lst where "lst = (LEAST s. free_run bm s n)"
  have "free_run bm lst n" "lst \<le> st" "\<forall>s < lst. \<not> free_run bm s n"
    unfolding lst_def using st(1) by (auto intro: LeastI Least_le dest: not_less_Least)
  then have "first_run bm n limit lst" using st(2) by (simp add: first_run_def)
  then show ?thesis ..
qed

text \<open>The walk over the slabs: it ends at the first slab with room, at a slab whose search does not come back, or behind the last one.\<close>

fun runs_off :: "mem \<Rightarrow> nat \<Rightarrow> slab list \<Rightarrow> bool" where
  "runs_off m n [] = False"
| "runs_off m n (s # ss) \<longleftrightarrow> no_run (sl_bitmap s) n (sl_pieces s) \<and> (passes_over m n s \<longrightarrow> runs_off m n ss)"

lemma slab_alloc_off:
  assumes "slab_wf s" "no_run (sl_bitmap s) (pieces_for sz) (sl_pieces s)" "\<not> passes_over m (pieces_for sz) s" "0 < sz"
  shows "slab_alloc sz s m = Inl OutOfBounds"
proof -
  have "\<not> first_run (sl_bitmap s) (pieces_for sz) (sl_pieces s) st" for st
    using assms(2) by (auto simp: no_run_def first_run_def)
  then have "findFree (pieces_for sz) s m = Inl OutOfBounds"
    using findFree_result [OF assms(1), of "pieces_for sz" m] assms(2,3) pieces_for_bounds(3) [of sz] by (auto simp: passes_over_def)
  then show ?thesis using assms(4) by (simp add: slab_alloc_def pieces_for_def Let_def)
qed

lemma walk_cases:
  assumes "\<forall>s \<in> set ss. slab_wf s"
  obtains (off) "runs_off m (pieces_for sz) ss" "\<And>vm n bef h. hmem h = m \<Longrightarrow> 0 < sz \<Longrightarrow> malloc_loop vm sz n bef ss h = Inl OutOfBounds"
  | (room) pre s post where "\<not> runs_off m (pieces_for sz) ss" "ss = pre @ s # post" "\<forall>t \<in> set pre. passes_over m (pieces_for sz) t"
      "\<not> no_run (sl_bitmap s) (pieces_for sz) (sl_pieces s)"
  | (full) "\<not> runs_off m (pieces_for sz) ss" "\<And>vm n bef h. hmem h = m \<Longrightarrow> 0 < sz \<Longrightarrow> malloc_loop vm sz n bef ss h = malloc_loop vm sz n (bef @ ss) [] h"
  using assms
proof (induction ss arbitrary: thesis)
  case Nil
  then show ?case by simp
next
  case (Cons s ss)
  let ?n = "pieces_for sz"
  have wf: "slab_wf s" using Cons.prems(4) by simp
  show ?case
  proof (cases "no_run (sl_bitmap s) ?n (sl_pieces s)")
    case False
    then show ?thesis using Cons.prems(2) [of "[]" s ss] by simp
  next
    case run: True
    show ?thesis
    proof (cases "passes_over m ?n s")
      case False
      then show ?thesis using Cons.prems(1) run slab_alloc_off [OF wf run] by simp
    next
      case True
      have pass: "malloc_loop vm sz n bef (s # ss) h = malloc_loop vm sz n (bef @ [s]) ss h" if "hmem h = m" "0 < sz" for vm n bef h
        using slab_alloc_none [OF wf _ that(2)] True that(1) by simp
      show ?thesis
      proof (rule Cons.IH)
        fix pre t post
        assume "\<not> runs_off m ?n ss" "ss = pre @ t # post" "\<forall>u \<in> set pre. passes_over m ?n u" "\<not> no_run (sl_bitmap t) ?n (sl_pieces t)"
        then show ?thesis using Cons.prems(2) [of "s # pre" t post] True run by simp
      qed (use Cons.prems(1,3,4) pass True run in simp_all)
    qed
  qed
qed

text \<open>What an allocation in slab \<open>s\<close> does, in one place: the facts the properties share.\<close>

definition took_block :: "heap \<Rightarrow> slab list \<Rightarrow> slab \<Rightarrow> slab list \<Rightarrow> nat \<Rightarrow> nat \<Rightarrow> slab \<Rightarrow> heap \<Rightarrow> nat \<Rightarrow> bool" where
  "took_block h pre s post n st s' h' ptr \<longleftrightarrow> slabs h = pre @ s # post \<and> slabs_ok (slabs h) \<and> slabs h' = pre @ s' # post
     \<and> slab_same s s' \<and> slabs_ok (slabs h') \<and> block s' (hmem h') st n ptr \<and> hmem h' = new_block_mem (ptr - 16) n (hmem h)
     \<and> slab_taken s' = slab_taken s \<union> {st..<st + n} \<and> {st..<st + n} \<inter> slab_taken s = {}"

lemma alloc_in_slab:
  assumes "slabs_ok (slabs h)" "slabs h = pre @ s # post" "\<not> no_run (sl_bitmap s) (pieces_for sz) (sl_pieces s)" "0 < sz"
  obtains st ptr s' h' where "took_block h pre s post (pieces_for sz) st s' h' ptr"
    "slab_alloc sz s (hmem h) = Inr (Some ptr, s', hmem h', pieces_for sz * 16)"
    "h' = h\<lparr>slabs := pre @ s' # post, hmem := hmem h', heap_free := heap_free h - word_of_nat (pieces_for sz * 16)\<rparr>"
proof -
  let ?n = "pieces_for sz"
  have wf: "slab_wf s" using slabs_ok_wf [OF assms(1)] assms(2) by auto
  obtain st where "first_run (sl_bitmap s) ?n (sl_pieces s) st"
    using first_run_exists [OF assms(3)] by blast
  then obtain s' where s': "slab_alloc sz s (hmem h) = Inr (Some (sl_data s + 16 * st + 16), s',
        new_block_mem (sl_data s + 16 * st) ?n (hmem h), ?n * 16)"
     "slab_same s s'" "slab_taken s' = slab_taken s \<union> {st..<st + ?n}"
     "{st..<st + ?n} \<inter> slab_taken s = {}" "st + ?n \<le> sl_pieces s"
    using slab_alloc_fit [OF wf assms(4)] by blast
  define ptr where "ptr = sl_data s + 16 * st + 16"
  define h' where "h' = h\<lparr>slabs := pre @ s' # post, hmem := new_block_mem (ptr - 16) ?n (hmem h),
      heap_free := heap_free h - word_of_nat (?n * 16)\<rparr>"
  have p16: "ptr - 16 = sl_data s + 16 * st" by (simp add: ptr_def)
  have "block s' (hmem h') st ?n ptr"
    using s' new_block_mem_facts(3,4) [of "ptr - 16" ?n "hmem h"] pieces_for_bounds(3) [of sz]
    by (auto simp: block_def h'_def slab_same_def ptr_def)
  moreover have "slabs_ok (slabs h')"
    using slabs_ok_same [OF assms(1) [unfolded assms(2)] s'(2)] by (simp add: h'_def)
  ultimately have "took_block h pre s post ?n st s' h' ptr"
    using assms(1,2) s'(2-4) by (simp add: took_block_def h'_def)
  moreover have "slab_alloc sz s (hmem h) = Inr (Some ptr, s', hmem h', ?n * 16)" using s'(1) by (simp add: h'_def ptr_def)
  ultimately show ?thesis by (rule that) (simp add: h'_def)
qed

subsection \<open>New slabs\<close>

text \<open>
  The slab a request adds when no slab has room, and what is asked of the memory the page map gives for it: it lies inside
  the address space and apart from the slabs there are.
\<close>

definition new_slab :: "(nat \<Rightarrow> nat \<Rightarrow> nat) \<Rightarrow> nat \<Rightarrow> heap \<Rightarrow> slab \<times> heap" where
  "new_slab vm sz h = createFromVMem (vm (length (slabs h)) sz) (max (sz * 2) 0x100000) h"

definition fresh_mapping :: "(nat \<Rightarrow> nat \<Rightarrow> nat) \<Rightarrow> nat \<Rightarrow> heap \<Rightarrow> bool" where
  "fresh_mapping vm sz h \<longleftrightarrow> (let at = vm (length (slabs h)) sz; stop = sl_end (fst (new_slab vm sz h)) in
     stop < 2 ^ 64 \<and> (\<forall>t \<in> set (slabs h). {at..<stop} \<inter> slab_span t = {}))"

definition grown :: "(nat \<Rightarrow> nat \<Rightarrow> nat) \<Rightarrow> nat \<Rightarrow> heap \<Rightarrow> heap" where
  "grown vm sz h = (snd (new_slab vm sz h))\<lparr>slabs := slabs h @ [fst (new_slab vm sz h)]\<rparr>"

lemma load_le_zero: "(\<And>x. a \<le> x \<Longrightarrow> x < a + n \<Longrightarrow> m x = 0) \<Longrightarrow> load_le n a m = (0 :: 'a::len word)"
  by (induction n arbitrary: a) auto

lemma createFromVMem_slab:
  assumes "512 \<le> bytes" "bytes < 2 ^ 31" "sl_end (fst (createFromVMem at bytes h)) < 2 ^ 64"
  defines "s \<equiv> fst (createFromVMem at bytes h)" and "h' \<equiv> snd (createFromVMem at bytes h)"
  shows "slab_wf s" "slab_taken s = {}" "sl_pieces s = bytes div 16 div 32 * 32" "slab_span s \<subseteq> {at..<sl_end s}" "slabs h' = slabs h"
    "\<And>x. x \<notin> {at..<sl_end s} \<Longrightarrow> hmem h' x = hmem h x"
proof -
  define pieces where "pieces = bytes div 16 div 32 * 32"
  define room where "room = ceilToAllocSize (pieces div 8)"
  define m where "m = mem_set (at + 48) pieces 0 (hmem h)"
  have pieces: "32 dvd pieces" "32 \<le> pieces" "pieces < 2 ^ 28" "16 * pieces \<le> bytes"
    using assms(1,2) by (auto simp: pieces_def)
  have room: "pieces \<le> 8 * room" "room \<le> pieces" "16 dvd room"
    using pieces(1,2) by (auto simp: room_def ceilToAllocSize_def ALLOC_SIZE_def elim!: dvdE)
  have off: "ceilToAllocSize (48 + room) = 48 + room" using room(3) by (auto simp: ceilToAllocSize_def ALLOC_SIZE_def elim!: dvdE)
  have s: "s = \<lparr>sl_pieces = pieces, sl_free_pieces = pieces, sl_data = at + (48 + room),
      sl_bitmap = map (\<lambda>i. load_le 4 (at + 48 + 4 * i) m) [0..<room div 4], sl_end = at + pageceil_nat (bytes + (48 + room))\<rparr>"
    and h': "hmem h' = m" "slabs h' = slabs h"
    by (simp_all add: s_def h'_def createFromVMem_def Let_def SLAB_SIZE_def ALLOC_SIZE_def m_def off flip: pieces_def room_def)
  have ceil: "x \<le> pageceil_nat x" for x by (auto simp: pageceil_nat_def)
  have zero: "load_le 4 (at + 48 + 4 * i) m = (0 :: u32)" if "i < room div 4" for i
    by (rule load_le_zero) (use that room(2) in \<open>auto simp: m_def\<close>)
  then have bm: "sl_bitmap s = replicate (room div 4) 0" by (simp add: s map_replicate_trivial [symmetric] cong: map_cong)
  have "bm_bits (sl_bitmap s) = 8 * room" using room(3) by (auto simp: bm bm_bits_def elim!: dvdE)
  then show "slab_wf s"
    using pieces room ceil [of "bytes + (48 + room)"] assms(3) unfolding s_def [symmetric] by (auto simp: slab_wf_def s)
  have "\<not> bm_get (sl_bitmap s) i" if "i < pieces" for i
  proof -
    have "i div 32 < room div 4" using that room(1,3) by (auto elim!: dvdE)
    then show ?thesis by (simp add: bm bm_get_def)
  qed
  then show "slab_taken s = {}" by (auto simp: slab_taken_def s)
  show "sl_pieces s = bytes div 16 div 32 * 32" by (simp add: s pieces_def)
  show "slab_span s \<subseteq> {at..<sl_end s}" by (auto simp: slab_span_def s)
  show "slabs h' = slabs h" by (rule h')
  show "hmem h' x = hmem h x" if "x \<notin> {at..<sl_end s}" for x
  proof -
    have "at + 48 + pieces \<le> sl_end s" using ceil [of "bytes + (48 + room)"] pieces(4) by (simp add: s)
    then show ?thesis using that by (auto simp: h'(1) m_def mem_set_def)
  qed
qed

lemma grown_facts:
  assumes "slabs_ok (slabs h)" "fresh_mapping vm sz h" "0 < sz" "sz \<le> 67108864"
  defines "s \<equiv> fst (new_slab vm sz h)"
  shows "slabs (grown vm sz h) = slabs h @ [s]" "slabs_ok (slabs (grown vm sz h))" "slab_taken s = {}"
    "\<not> no_run (sl_bitmap s) (pieces_for sz) (sl_pieces s)"
    "\<And>t x. t \<in> set (slabs h) \<Longrightarrow> x \<in> slab_span t \<Longrightarrow> hmem (grown vm sz h) x = hmem h x"
proof -
  let ?at = "vm (length (slabs h)) sz" and ?size = "max (sz * 2) 0x100000"
  have size: "512 \<le> ?size" "?size < 2 ^ 31" using assms(4) by auto
  have fresh: "sl_end s < 2 ^ 64" "\<And>t. t \<in> set (slabs h) \<Longrightarrow> {?at..<sl_end s} \<inter> slab_span t = {}"
    using assms(2) by (simp_all add: fresh_mapping_def Let_def s_def)
  note c = createFromVMem_slab [OF size fresh(1) [unfolded s_def new_slab_def], folded new_slab_def, folded s_def]
  show slabs: "slabs (grown vm sz h) = slabs h @ [s]" by (simp add: grown_def s_def)
  show "slabs_ok (slabs (grown vm sz h))"
    unfolding slabs slabs_ok_append using assms(1) c(1,4) fresh(2) by auto
  show taken: "slab_taken s = {}" by (rule c)
  have "pieces_for sz \<le> sl_pieces s"
  proof -
    define big q r where "big = ?size" and "q = big div 16" and "r = q div 32 * 32"
    have "sz * 2 \<le> big" "0x100000 \<le> big" by (simp_all add: big_def)
    moreover have "16 * pieces_for sz < sz + 32" using pieces_for_bounds(1) [of sz] by linarith
    moreover have "big < 16 * (q + 1)" unfolding q_def by simp
    moreover have "q < r + 32" by (simp add: r_def)
    ultimately show ?thesis unfolding c(3) big_def [symmetric] q_def [symmetric] r_def [symmetric] by simp
  qed
  moreover from this have "free_run (sl_bitmap s) 0 (pieces_for sz)" using free_run_slab [of 0 "pieces_for sz" s] taken by simp
  ultimately show "\<not> no_run (sl_bitmap s) (pieces_for sz) (sl_pieces s)" by (auto simp: no_run_def intro!: exI [of _ 0])
  show "hmem (grown vm sz h) x = hmem h x" if "t \<in> set (slabs h)" "x \<in> slab_span t" for t x
  proof -
    have "x \<notin> {?at..<sl_end s}" using fresh(2) [OF that(1)] that(2) by blast
    from c(6) [OF this] show ?thesis by (simp add: grown_def)
  qed
qed

lemma block_disjoint:
  assumes "slabs_ok (pre @ s # post)" "t \<in> set (pre @ s # post)" "block t m tst k q"
    and "block s' m' st n ptr" "slab_same s s'" "{st..<st + n} \<inter> slab_taken s = {}"
  shows "block_range q k \<inter> block_range ptr n = {}"
proof (cases "t = s")
  case True
  have q: "q = sl_data s + 16 * tst + 16" "0 < k" "{tst..<tst + k} \<subseteq> slab_taken s"
    using assms(3) True unfolding block_def by blast+
  have p: "ptr = sl_data s + 16 * st + 16" "0 < n"
    using assms(4,5) unfolding block_def slab_same_def by auto
  have "{tst..<tst + k} \<inter> {st..<st + n} = {}" using q(3) assms(6) by blast
  then have "max tst st \<notin> {tst..<tst + k} \<or> max tst st \<notin> {st..<st + n}" by blast
  then have "tst + k \<le> st \<or> st + n \<le> tst" using q(2) p(2) by (simp add: max_def split: if_splits)
  then show ?thesis using q(1) p(1) by (auto simp: block_range_def)
next
  case False
  have wf: "slab_wf t" "slab_wf s'" using slabs_ok_wf [OF assms(1,2)] assms(5) by (auto simp: slab_same_def)
  have "slab_span t \<inter> slab_span s = {}"
    using assms(1,2) False by (auto simp: slabs_ok_append)
  moreover have "slab_span s' = slab_span s" using assms(5) by (simp add: slab_same_def slab_span_def)
  ultimately show ?thesis
    using block_range_span [OF wf(1) assms(3)] block_range_span [OF wf(2) assms(4)] by blast
qed

text \<open>A block keeps its header and its place when the memory outside it changes and its slab
  takes more pieces.\<close>

lemma block_header_survives:
  assumes "block t m tst k q" "\<forall>x \<in> {q - 16..<q}. m' x = m x"
    and "sl_data t' = sl_data t" "sl_pieces t' = sl_pieces t" "{tst..<tst + k} \<subseteq> slab_taken t'"
  shows "block t' m' tst k q"
proof -
  have "16 \<le> q" using assms(1) by (auto simp: block_def)
  then have "header_sanity m' q = header_sanity m q" "header_len m' q = header_len m q"
    using header_cong [of q m' m] assms(2) by auto
  then show ?thesis using assms unfolding block_def by auto
qed

lemma header_in_range: "block t m tst k q \<Longrightarrow> {q - 16..<q} \<subseteq> block_range q k"
  by (auto simp: block_range_def block_def)

lemma block_survives:
  assumes "block t m tst k q" "\<forall>x \<in> block_range q k. m' x = m x"
    and "sl_data t' = sl_data t" "sl_pieces t' = sl_pieces t" "{tst..<tst + k} \<subseteq> slab_taken t'"
  shows "block t' m' tst k q"
  using block_header_survives [OF assms(1) _ assms(3-5)] assms(2) header_in_range [OF assms(1)] by blast

lemma outside_range: "x \<notin> block_range ptr n \<Longrightarrow> x < ptr - 16 \<or> ptr - 16 + 16 * n \<le> x"
  by (simp add: block_range_def) linarith

text \<open>An allocation leaves the blocks of the heap alone.\<close>

lemma malloc_keeps_blocks:
  assumes "slabs_ok (slabs h)" "slabs h = pre @ s # post" "slabs h' = pre @ s' # post"
    and "slab_same s s'" "block s' (hmem h') st n ptr" "hmem h' = new_block_mem (ptr - 16) n (hmem h)"
    and "slab_taken s' = slab_taken s \<union> {st..<st + n}" "{st..<st + n} \<inter> slab_taken s = {}"
    and "heap_block h q k"
  shows "heap_block h' q k" "block_range q k \<inter> block_range ptr n = {}"
    "\<forall>x \<in> block_range q k. hmem h' x = hmem h x"
proof -
  obtain t tst where t: "t \<in> set (pre @ s # post)" "block t (hmem h) tst k q"
    using assms(9) unfolding heap_block_def assms(2) by blast
  have n: "0 < n" using assms(5) by (simp add: block_def)
  show dis: "block_range q k \<inter> block_range ptr n = {}"
    by (rule block_disjoint [OF assms(1) [unfolded assms(2)] t assms(5,4,8)])
  show same: "\<forall>x \<in> block_range q k. hmem h' x = hmem h x"
    unfolding assms(6) using dis new_block_mem_facts(1) [OF outside_range n] by blast
  have taken: "{tst..<tst + k} \<subseteq> slab_taken t" using t(2) by (simp add: block_def)
  have "block t (hmem h') tst k q" by (rule block_survives [OF t(2) same _ _ taken]) simp_all
  moreover have "block s' (hmem h') tst k q" if "t = s"
    by (rule block_survives [OF t(2) same]) (use that assms(4,7) taken in \<open>auto simp: slab_same_def\<close>)
  ultimately show "heap_block h' q k" using t(1) assms(3) by (auto simp: heap_block_def)
qed

text \<open>Freeing a block leaves the blocks that do not overlap it alone.\<close>

lemma heap_free_keeps:
  assumes "slabs_ok (slabs h)" "heap_block h p n" "heap_block h q k"
    and "block_range p n \<inter> block_range q k = {}"
  shows "\<exists>h'. heap_free_ptr (Some p) h = Inr h' \<and> slabs_ok (slabs h') \<and> heap_block h' q k
     \<and> hmem h' = mem_set (p - 16) (16 * n) 0x5A (hmem h)"
proof -
  obtain s st where s: "s \<in> set (slabs h)" "block s (hmem h) st n p"
    using assms(2) unfolding heap_block_def by blast
  obtain t tst where t: "t \<in> set (slabs h)" "block t (hmem h) tst k q"
    using assms(3) unfolding heap_block_def by blast
  obtain a b where ab: "slabs h = a @ s # b" using s(1) by (metis split_list)
  obtain s' h' where f: "heap_free_ptr (Some p) h = Inr h'" "slabs h' = a @ s' # b" "slab_same s s'"
     "slab_taken s' = slab_taken s - {st..<st + n}" "slabs_ok (slabs h')"
     "hmem h' = mem_set (p - 16) (16 * n) 0x5A (hmem h)"
    using heap_free_block [OF assms(1) ab s(2)] by blast
  have same: "\<forall>x \<in> block_range q k. hmem h' x = hmem h x"
    unfolding f(6) using assms(4) mem_set_outside [OF outside_range] by blast
  have taken: "{tst..<tst + k} \<subseteq> slab_taken t" using t(2) by (simp add: block_def)
  have "block t (hmem h') tst k q" by (rule block_survives [OF t(2) same _ _ taken]) simp_all
  moreover have "block s' (hmem h') tst k q" if "t = s"
  proof -
    have "{tst..<tst + k} \<inter> {st..<st + n} = {}"
    proof (rule ccontr)
      assume "{tst..<tst + k} \<inter> {st..<st + n} \<noteq> {}"
      then obtain i where i: "i \<in> {tst..<tst + k}" "i \<in> {st..<st + n}" by blast
      have "sl_data s + 16 * i \<in> block_range q k" "sl_data s + 16 * i \<in> block_range p n"
        using i t(2) s(2) that by (auto simp: block_def block_range_def)
      then show False using assms(4) by blast
    qed
    then have "{tst..<tst + k} \<subseteq> slab_taken s'" using taken f(4) that by blast
    then show ?thesis
      by (intro block_survives [OF t(2) same]) (use that f(3) in \<open>auto simp: slab_same_def\<close>)
  qed
  ultimately have "heap_block h' q k" using t(1) ab f(2) by (auto simp: heap_block_def)
  with f(1,5,6) show ?thesis by blast
qed

subsection \<open>What \<open>malloc\<close> does\<close>

lemma malloc_outcome:
  assumes "slabs_ok (slabs h)" "slabs h \<noteq> []" "fresh_mapping vm sz h" "0 < sz" "sz \<le> 67108864"
  shows "if runs_off (hmem h) (pieces_for sz) (slabs h) then malloc vm sz h = Inl OutOfBounds
     else \<exists>g pre s post st s' h' ptr. (g = h \<or> g = grown vm sz h) \<and> took_block g pre s post (pieces_for sz) st s' h' ptr
       \<and> malloc vm sz h = Inr (Some ptr, h')"
proof -
  let ?n = "pieces_for sz"
  have wfs: "\<forall>s \<in> set (slabs h). slab_wf s" using slabs_ok_wf [OF assms(1)] by blast
  have start: "malloc vm sz h = res_bind (malloc_loop vm sz 2 [] (slabs h) h) (\<lambda>r. case r of None \<Rightarrow> Inl KPanic | Some (p, h) \<Rightarrow> Inr (Some p, h))"
    using assms(2,4,5) by (simp add: malloc_def)
  from wfs show ?thesis
  proof (cases rule: walk_cases [of "slabs h" "hmem h" sz])
    case off
    then show ?thesis using start off(2) [OF refl assms(4)] by simp
  next
    case (room pre s post)
    obtain st ptr s' h' where a: "took_block h pre s post ?n st s' h' ptr"
        "slab_alloc sz s (hmem h) = Inr (Some ptr, s', hmem h', ?n * 16)"
        "h' = h\<lparr>slabs := pre @ s' # post, hmem := hmem h', heap_free := heap_free h - word_of_nat (?n * 16)\<rparr>"
      using alloc_in_slab [OF assms(1) room(2,4) assms(4)] .
    have "malloc_loop vm sz 2 [] (slabs h) h = Inr (Some (ptr, h'))"
      unfolding room(2) using malloc_loop_fit [of pre h sz s, OF _ assms(4) a(2)] wfs room(2,3) a(3) by simp
    then have "malloc vm sz h = Inr (Some ptr, h')" using start by simp
    then show ?thesis unfolding if_not_P [OF room(1)] using a(1) by (intro exI [of _ h]) blast
  next
    case full
    let ?s = "fst (new_slab vm sz h)" and ?g = "grown vm sz h"
    note g = grown_facts [OF assms(1,3,4,5)]
    obtain st ptr s' h' where a: "took_block ?g (slabs h) ?s [] ?n st s' h' ptr"
        "slab_alloc sz ?s (hmem ?g) = Inr (Some ptr, s', hmem h', ?n * 16)"
        "h' = ?g\<lparr>slabs := slabs h @ s' # [], hmem := hmem h', heap_free := heap_free ?g - word_of_nat (?n * 16)\<rparr>"
      using alloc_in_slab [OF g(2,1,4) assms(4)] .
    have "malloc_loop vm sz 2 [] (slabs h) h = malloc_loop vm sz 1 (slabs h) [?s] (snd (new_slab vm sz h))"
      unfolding full(2) [OF refl assms(4)] numeral_2_eq_2 One_nat_def malloc_loop.simps(3) new_slab_def append_Nil by (simp only: Let_def case_prod_beta)
    also have "\<dots> = Inr (Some (ptr, h'))" using a(2,3) by (simp add: grown_def)
    finally have "malloc vm sz h = Inr (Some ptr, h')" using start by simp
    then show ?thesis unfolding if_not_P [OF full(1)] using a(1) by (intro exI [of _ ?g]) blast
  qed
qed

text \<open>A request that adds a slab leaves the blocks there are.\<close>

lemma grown_blocks:
  assumes "slabs_ok (slabs h)" "fresh_mapping vm sz h" "0 < sz" "sz \<le> 67108864" "g = h \<or> g = grown vm sz h" "heap_block h q k"
  shows "heap_block g q k" "\<forall>x \<in> block_range q k. hmem g x = hmem h x"
proof -
  note g = grown_facts [OF assms(1-4)]
  obtain t st where t: "t \<in> set (slabs h)" "block t (hmem h) st k q" using assms(6) unfolding heap_block_def by blast
  have wf: "slab_wf t" by (rule slabs_ok_wf [OF assms(1) t(1)])
  have same: "\<forall>x \<in> block_range q k. hmem (grown vm sz h) x = hmem h x"
    using block_range_span [OF wf t(2)] g(5) [OF t(1)] by blast
  have "{st..<st + k} \<subseteq> slab_taken t" using t(2) by (simp add: block_def)
  then have "block t (hmem (grown vm sz h)) st k q" by (intro block_survives [OF t(2) same]) simp_all
  then have "heap_block (grown vm sz h) q k" using t(1) g(1) by (auto simp: heap_block_def)
  then show "heap_block g q k" "\<forall>x \<in> block_range q k. hmem g x = hmem h x" using assms(5,6) same by auto
qed

lemma grown_taken:
  assumes "slabs_ok (slabs h)" "fresh_mapping vm sz h" "0 < sz" "sz \<le> 67108864" "g = h \<or> g = grown vm sz h"
  shows "map slab_taken (slabs g) = map slab_taken (slabs h) \<or> map slab_taken (slabs g) = map slab_taken (slabs h) @ [{}]"
  using assms(5) grown_facts(1,3) [OF assms(1-4)] by auto

subsection \<open>Taken bytes\<close>

text \<open>The bytes of the taken pieces of a heap, headers included.\<close>

definition slab_bytes :: "slab \<Rightarrow> nat set" where
  "slab_bytes s = {x. sl_data s \<le> x \<and> (x - sl_data s) div 16 \<in> slab_taken s}"

definition taken_bytes :: "heap \<Rightarrow> nat set" where
  "taken_bytes h = (\<Union>s \<in> set (slabs h). slab_bytes s)"

lemma slab_bytes_span: "slab_wf s \<Longrightarrow> slab_bytes s \<subseteq> slab_span s"
  by (auto simp: slab_bytes_def slab_span_def slab_wf_def slab_taken_def)

lemma block_range_bytes: "block s m st n ptr \<Longrightarrow> block_range ptr n = {x. sl_data s \<le> x \<and> (x - sl_data s) div 16 \<in> {st..<st + n}}"
  by (auto simp: block_def block_range_def div_le_mono)

lemma took_block_bytes:
  assumes "took_block h pre s post n st s' h' ptr"
  shows "taken_bytes h' = taken_bytes h \<union> block_range ptr n"
proof -
  have "slab_bytes s' = slab_bytes s \<union> block_range ptr n"
    using assms unfolding took_block_def slab_same_def by (auto simp: slab_bytes_def block_range_bytes)
  then show ?thesis using assms by (auto simp: took_block_def taken_bytes_def)
qed

lemma heap_free_bytes:
  assumes "slabs_ok (slabs h)" "heap_block h p n" "heap_free_ptr (Some p) h = Inr h'"
  shows "taken_bytes h' = taken_bytes h - block_range p n"
proof -
  obtain s st where s: "s \<in> set (slabs h)" "block s (hmem h) st n p" using assms(2) unfolding heap_block_def by blast
  obtain a b where ab: "slabs h = a @ s # b" using s(1) by (metis split_list)
  obtain s' where f: "slabs h' = a @ s' # b" "slab_same s s'" "slab_taken s' = slab_taken s - {st..<st + n}"
    using heap_free_block [OF assms(1) ab s(2)] assms(3) by auto
  have wf: "slab_wf t" if "t \<in> set (slabs h)" for t using slabs_ok_wf [OF assms(1) that] .
  have "slab_bytes s' = slab_bytes s - block_range p n"
    using f(2,3) by (auto simp: slab_bytes_def block_range_bytes [OF s(2)] slab_same_def)
  moreover have "slab_bytes t \<inter> block_range p n = {}" if "t \<in> set a \<union> set b" for t
  proof -
    have "slab_span t \<inter> slab_span s = {}" using that assms(1) unfolding ab slabs_ok_append by auto
    moreover have "t \<in> set (slabs h)" using that ab by auto
    ultimately show ?thesis using slab_bytes_span [OF wf] block_range_span [OF wf [OF s(1)] s(2)] by blast
  qed
  ultimately show ?thesis unfolding taken_bytes_def f(1) ab by auto
qed

lemma grown_bytes:
  assumes "slabs_ok (slabs h)" "fresh_mapping vm sz h" "0 < sz" "sz \<le> 67108864" "g = h \<or> g = grown vm sz h"
  shows "taken_bytes g = taken_bytes h"
  using assms(5) grown_facts(1,3) [OF assms(1-4)] by (auto simp: taken_bytes_def slab_bytes_def)

subsection \<open>Properties\<close>

text \<open>
  \<open>Slab::findFree\<close>. When the slab has a run of \<open>amount\<close> free pieces the search returns
  the first one. When it has none, the bound \<open>index <= pieces\<close> lets the loop run on behind
  the bitmap without advancing \<open>index\<close>: it reports \<open>-1\<close> only if some word behind the bitmap,
  in the slab's data, happens to be all ones, and otherwise reads past the mapping.
\<close>

lemma findFree_first_fit:
  assumes "slab_wf s" "0 < amount" "amount \<le> sl_pieces s"
  shows "(\<forall>st. first_run (sl_bitmap s) amount (sl_pieces s) st \<longrightarrow> findFree amount s m = Inr (int st))
    \<and> (no_run (sl_bitmap s) amount (sl_pieces s) \<longrightarrow>
        findFree amount s m =
          (if \<exists>j \<in> {sl_pieces s div 32..<slab_words s}. word_get s m j = Inr (-1)
           then Inr (-1) else Inl OutOfBounds))"
proof -
  have uniq: "st' = st" if "first_run (sl_bitmap s) amount (sl_pieces s) st"
      "first_run (sl_bitmap s) amount (sl_pieces s) st'" for st st'
    using that by (auto simp: first_run_def) (metis linorder_neqE_nat)
  have excl: "\<not> no_run (sl_bitmap s) amount (sl_pieces s)"
    if "first_run (sl_bitmap s) amount (sl_pieces s) st" for st
    using that by (auto simp: no_run_def first_run_def)
  show ?thesis
    using findFree_result [OF assms(1), of amount m] assms(2,3) uniq excl
    unfolding ones_behind_def by (metis not_less less_numeral_extra(3))
qed

text \<open>
  C5. \<open>malloc\<close> hands out fresh, zeroed memory. For a heap of sound slabs and a request of up to 64 MiB, with the memory for a new slab
  apart from the others (\<open>fresh_mapping\<close>), there are two outcomes. If the walk meets a slab without room whose search runs off its bitmap (\<open>runs_off\<close>,
  see \<open>findFree_first_fit\<close>), it reads past the mapping. Otherwise, from a slab there is or from one it adds, the
  request returns a block of at least \<open>sz\<close> and less than \<open>sz + 16\<close> bytes, all zero; every
  block that was live keeps its header and its contents and does not overlap the new one; exactly the bytes of the new block become taken;
  and freeing it gives back exactly the pieces it took.
\<close>

theorem malloc_fresh_block:
  assumes "slabs_ok (slabs h)" "slabs h \<noteq> []" "fresh_mapping vm sz h" "0 < sz" "sz \<le> 67108864"
  shows "if runs_off (hmem h) (pieces_for sz) (slabs h) then malloc vm sz h = Inl OutOfBounds
    else \<exists>ptr h' k. malloc vm sz h = Inr (Some ptr, h') \<and> slabs_ok (slabs h')
      \<and> msize (Some ptr) h' = Inr k \<and> sz \<le> k \<and> k < sz + 16
      \<and> (\<forall>x \<in> {ptr..<ptr + k}. hmem h' x = 0)
      \<and> (\<forall>q n. heap_block h q n \<longrightarrow> heap_block h' q n
            \<and> block_range q n \<inter> {ptr - 16..<ptr + k} = {}
            \<and> (\<forall>x \<in> block_range q n. hmem h' x = hmem h x))
      \<and> taken_bytes h' = taken_bytes h \<union> {ptr - 16..<ptr + k}
      \<and> (\<exists>h''. heap_free_ptr (Some ptr) h' = Inr h'' \<and> slabs_ok (slabs h'')
            \<and> (map slab_taken (slabs h'') = map slab_taken (slabs h) \<or> map slab_taken (slabs h'') = map slab_taken (slabs h) @ [{}]))"
proof (cases "runs_off (hmem h) (pieces_for sz) (slabs h)")
  case True
  then show ?thesis using malloc_outcome [OF assms] by simp
next
  case False
  let ?n = "pieces_for sz"
  obtain g pre s post st s' h' ptr where g: "g = h \<or> g = grown vm sz h" and took: "took_block g pre s post ?n st s' h' ptr"
      and run: "malloc vm sz h = Inr (Some ptr, h')"
    using malloc_outcome [OF assms] unfolding if_not_P [OF False] by (elim exE conjE) (rule that)
  note m = took [unfolded took_block_def]
  have ptr: "16 \<le> ptr" using m by (auto simp: block_def)
  have range: "{ptr - 16..<ptr + 16 * (?n - 1)} = block_range ptr ?n"
    using ptr pieces_for_bounds(3) [of sz] by (simp add: block_range_def diff_mult_distrib2)
  have live: "heap_block h' q k \<and> block_range q k \<inter> block_range ptr ?n = {} \<and> (\<forall>x \<in> block_range q k. hmem h' x = hmem h x)"
    if "heap_block h q k" for q k
    using malloc_keeps_blocks [of g pre s post h' s' st ?n ptr q k] m grown_blocks [OF assms(1,3-5) g that] by auto
  obtain s'' h'' where f: "heap_free_ptr (Some ptr) h' = Inr h''" "slabs h'' = pre @ s'' # post"
     "slab_taken s'' = slab_taken s' - {st..<st + ?n}" "slabs_ok (slabs h'')"
    using heap_free_block [of h' pre s' post st ?n ptr] m by blast
  have "slab_taken s'' = slab_taken s" using f(3) m by blast
  then have "map slab_taken (slabs h'') = map slab_taken (slabs g)" using f(2) m by simp
  then have given: "map slab_taken (slabs h'') = map slab_taken (slabs h) \<or> map slab_taken (slabs h'') = map slab_taken (slabs h) @ [{}]"
    using grown_taken [OF assms(1,3-5) g] by simp
  have zero: "\<forall>x \<in> {ptr..<ptr + 16 * (?n - 1)}. hmem h' x = 0"
    using m ptr pieces_for_bounds(3) [of sz] by (auto intro!: new_block_mem_facts(2))
  have len: "msize (Some ptr) h' = Inr (16 * (?n - 1))" using msize_block [of h' pre s' post st ?n ptr] m by blast
  have bytes: "taken_bytes h' = taken_bytes h \<union> block_range ptr ?n"
    using took_block_bytes [OF took] grown_bytes [OF assms(1,3-5) g] by simp
  have "malloc vm sz h = Inr (Some ptr, h') \<and> slabs_ok (slabs h') \<and> msize (Some ptr) h' = Inr (16 * (?n - 1))
      \<and> sz \<le> 16 * (?n - 1) \<and> 16 * (?n - 1) < sz + 16 \<and> (\<forall>x \<in> {ptr..<ptr + 16 * (?n - 1)}. hmem h' x = 0)
      \<and> (\<forall>q n. heap_block h q n \<longrightarrow> heap_block h' q n \<and> block_range q n \<inter> {ptr - 16..<ptr + 16 * (?n - 1)} = {}
            \<and> (\<forall>x \<in> block_range q n. hmem h' x = hmem h x))
      \<and> taken_bytes h' = taken_bytes h \<union> {ptr - 16..<ptr + 16 * (?n - 1)}
      \<and> (\<exists>h''. heap_free_ptr (Some ptr) h' = Inr h'' \<and> slabs_ok (slabs h'')
            \<and> (map slab_taken (slabs h'') = map slab_taken (slabs h) \<or> map slab_taken (slabs h'') = map slab_taken (slabs h) @ [{}]))"
    unfolding range using run m len live zero bytes f(1,4) given pieces_for_bounds(1,2) [of sz] by blast
  then show ?thesis unfolding if_not_P [OF False] by blast
qed


text \<open>A heap of one empty slab of 32 pieces at address 4096, the example of the witnesses; a new slab would be mapped at 1 GiB.\<close>

definition small_slab :: slab where
  "small_slab = \<lparr>sl_pieces = 32, sl_free_pieces = 32, sl_data = 4096, sl_bitmap = [0], sl_end = 8192\<rparr>"

definition small_heap :: heap where
  "small_heap = \<lparr>slabs = [small_slab], hmem = (\<lambda>_. 0), heap_allocated = 512, heap_free = 512\<rparr>"

lemma small_slab_facts:
  "slab_wf small_slab" "slab_taken small_slab = {}"
  "n \<le> 32 \<Longrightarrow> first_run (sl_bitmap small_slab) n (sl_pieces small_slab) 0"
proof -
  have bits: "\<not> bm_get [0] i" if "i < 32" for i using that by (simp add: bm_get_def)
  show "slab_wf small_slab" by (simp add: slab_wf_def small_slab_def bm_bits_def)
  show "slab_taken small_slab = {}" using bits by (auto simp: slab_taken_def small_slab_def)
  show "n \<le> 32 \<Longrightarrow> first_run (sl_bitmap small_slab) n (sl_pieces small_slab) 0"
    using bits by (auto simp: first_run_def free_run_def small_slab_def)
qed

definition high_vm :: "nat \<Rightarrow> nat \<Rightarrow> nat" where
  "high_vm k sz = 0x40000000"

lemma high_vm_fresh:
  assumes "\<forall>t \<in> set (slabs h). sl_end t \<le> 0x40000000" "sz \<le> 67108864"
  shows "fresh_mapping high_vm sz h"
proof -
  have "\<forall>t \<in> set (slabs h). {0x40000000..<e} \<inter> slab_span t = {}" for e
    using assms(1) by (auto simp: slab_span_def dest!: bspec)
  moreover have "sl_end (fst (new_slab high_vm sz h)) < 2 ^ 64"
  proof -
    define big where "big = max (sz * 2) 0x100000"
    have c: "pageceil_nat x \<le> x + 4095" "ceilToAllocSize x \<le> x + 15" for x
      by (simp_all add: pageceil_nat_def ceilToAllocSize_def ALLOC_SIZE_def)
    have "big div ALLOC_SIZE div 32 * 32 div 8 \<le> big" by (simp add: ALLOC_SIZE_def)
    moreover have "sl_end (fst (new_slab high_vm sz h)) = 0x40000000 + pageceil_nat (big
        + ceilToAllocSize (SLAB_SIZE + ceilToAllocSize (big div ALLOC_SIZE div 32 * 32 div 8)))"
      by (simp add: new_slab_def createFromVMem_def Let_def high_vm_def big_def)
    moreover have "big \<le> 2 ^ 28" using assms(2) by (simp add: big_def)
    ultimately show ?thesis
      using c(1) [of "big + ceilToAllocSize (SLAB_SIZE + ceilToAllocSize (big div ALLOC_SIZE div 32 * 32 div 8))"]
        c(2) [of "SLAB_SIZE + ceilToAllocSize (big div ALLOC_SIZE div 32 * 32 div 8)"] c(2) [of "big div ALLOC_SIZE div 32 * 32 div 8"]
      by (simp add: SLAB_SIZE_def)
  qed
  ultimately show ?thesis by (simp add: fresh_mapping_def Let_def high_vm_def)
qed

text \<open>Witness of C5: 24 bytes from the small heap, and 1000 bytes, more than its slab has, from a new slab.\<close>

theorem malloc_fresh_block_witness:
  "(\<exists>ptr h' k. malloc high_vm 24 small_heap = Inr (Some ptr, h') \<and> msize (Some ptr) h' = Inr k
     \<and> 24 \<le> k \<and> k < 40 \<and> (\<forall>x \<in> {ptr..<ptr + k}. hmem h' x = 0))
   \<and> (\<exists>ptr h' k. malloc high_vm 1000 small_heap = Inr (Some ptr, h') \<and> msize (Some ptr) h' = Inr k \<and> 1000 \<le> k \<and> k < 1016)"
proof -
  have n: "pieces_for 24 = 3" "pieces_for 1000 = 64"
    by (simp_all add: pieces_for_def ceilToPiece_def ceilToAllocSize_def ALLOC_SIZE_def)
  have "\<not> no_run (sl_bitmap small_slab) 3 (sl_pieces small_slab)"
    using small_slab_facts(3) [of 3] unfolding no_run_def first_run_def by fastforce
  moreover have "passes_over m 64 small_slab" for m by (auto simp: passes_over_def no_run_def small_slab_def)
  ultimately have "\<not> runs_off (hmem small_heap) (pieces_for 24) (slabs small_heap)"
      "\<not> runs_off (hmem small_heap) (pieces_for 1000) (slabs small_heap)"
    by (simp_all add: n small_heap_def)
  moreover have "slabs_ok (slabs small_heap)" "slabs small_heap \<noteq> []" "\<forall>t \<in> set (slabs small_heap). sl_end t \<le> 0x40000000"
    using small_slab_facts(1) by (simp_all add: small_heap_def) (simp add: small_slab_def)
  ultimately show ?thesis
    using malloc_fresh_block [of small_heap high_vm 24] malloc_fresh_block [of small_heap high_vm 1000] high_vm_fresh [of small_heap]
    by (simp del: runs_off.simps) blast
qed

text \<open>Copying into the bytes of a block leaves the headers of both blocks.\<close>

lemma copy_keeps_blocks:
  assumes p: "heap_block h p n" and q: "heap_block h q m" and apart: "block_range p n \<inter> block_range q m = {}"
    and fits: "q + k \<le> q - 16 + 16 * m"
  shows "heap_block (h\<lparr>hmem := mem_copy q a k (hmem h)\<rparr>) p n" "heap_block (h\<lparr>hmem := mem_copy q a k (hmem h)\<rparr>) q m"
proof -
  let ?m = "mem_copy q a k (hmem h)"
  have out: "?m x = hmem h x" if "x < q \<or> q + k \<le> x" for x using that by simp
  obtain t st where t: "t \<in> set (slabs h)" "block t (hmem h) st n p" using p unfolding heap_block_def by blast
  obtain u su where u: "u \<in> set (slabs h)" "block u (hmem h) su m q" using q unfolding heap_block_def by blast
  have "\<forall>x \<in> {p - 16..<p}. ?m x = hmem h x"
  proof
    fix x assume "x \<in> {p - 16..<p}"
    then have "x \<in> block_range p n" using header_in_range [OF t(2)] by blast
    then have "x < q - 16 \<or> q - 16 + 16 * m \<le> x" using apart outside_range [of x q m] by blast
    then show "?m x = hmem h x" using fits by (intro out) linarith
  qed
  then have "block t ?m st n p"
    by (rule block_header_survives [OF t(2)]) (use t(2) in \<open>simp_all add: block_def\<close>)
  then show "heap_block (h\<lparr>hmem := ?m\<rparr>) p n" using t(1) unfolding heap_block_def by auto
  have "block u ?m su m q"
    by (rule block_header_survives [OF u(2)]) (use u(2) out in \<open>simp_all add: block_def\<close>)
  then show "heap_block (h\<lparr>hmem := ?m\<rparr>) q m" using u(1) unfolding heap_block_def by auto
qed

text \<open>
  C6. \<open>realloc\<close> moves a block without losing its contents, under the conditions of \<open>malloc\<close>. For a live block of \<open>n\<close> pieces
  and a new size from 1 byte to 64 MiB, it fails as \<open>malloc\<close> does when the search for room runs off a bitmap. Otherwise the result is a live block of the new size whose
  first bytes, as many as fit both blocks, are those of the old block; the old block is freed: of the taken bytes, exactly
  those of the old block are gone and those of the new block are added; and every other live block keeps its header and contents.
\<close>

theorem realloc_keeps_contents:
  assumes "slabs_ok (slabs h)" "fresh_mapping vm sz h" "0 < sz" "sz \<le> 67108864" "heap_block h p n"
  shows "if runs_off (hmem h) (pieces_for sz) (slabs h) then realloc vm (Some p) sz h = Inl OutOfBounds
    else \<exists>q h'. realloc vm (Some p) sz h = Inr (Some q, h') \<and> slabs_ok (slabs h')
      \<and> heap_block h' q (pieces_for sz)
      \<and> (\<forall>i < min (16 * (n - 1)) sz. hmem h' (q + i) = hmem h (p + i))
      \<and> block_range p n \<inter> block_range q (pieces_for sz) = {}
      \<and> taken_bytes h' = (taken_bytes h - block_range p n) \<union> block_range q (pieces_for sz)
      \<and> (\<forall>r k. heap_block h r k \<and> block_range r k \<inter> block_range p n = {}
           \<longrightarrow> heap_block h' r k \<and> (\<forall>x \<in> block_range r k. hmem h' x = hmem h x))
      \<and> (\<forall>x \<in> block_range p n. hmem h' x = 0x5A)"
proof -
  let ?n = "pieces_for sz" and ?old = "16 * (n - 1)"
  obtain t tst where t: "t \<in> set (slabs h)" "block t (hmem h) tst n p"
    using assms(5) unfolding heap_block_def by blast
  have ne: "slabs h \<noteq> []" using t(1) by auto
  have old: "msize (Some p) h = Inr ?old"
    using split_list [OF t(1)] msize_block [OF assms(1) _ t(2)] by blast
  show ?thesis
  proof (cases "runs_off (hmem h) ?n (slabs h)")
    case True
    then show ?thesis using malloc_outcome [OF assms(1) ne assms(2-4)] old assms(3) by (simp add: realloc_def)
  next
    case False
    obtain g pre s post st s' h1 q where g: "g = h \<or> g = grown vm sz h" and took: "took_block g pre s post ?n st s' h1 q"
        and run: "malloc vm sz h = Inr (Some q, h1)"
      using malloc_outcome [OF assms(1) ne assms(2-4)] unfolding if_not_P [OF False] by (elim exE conjE) (rule that)
    note m = took [unfolded took_block_def]
    have live: "heap_block h1 r k \<and> block_range r k \<inter> block_range q ?n = {} \<and> (\<forall>x \<in> block_range r k. hmem h1 x = hmem h x)"
      if "heap_block h r k" for r k
      using malloc_keeps_blocks [of g pre s post h1 s' st ?n q r k] m grown_blocks [OF assms(1-4) g that] by auto
    note kp = live [OF assms(5)]
    have n: "0 < n" "16 \<le> p" "0 < ?n" "16 \<le> q" using t(2) m by (auto simp: block_def)
    have fits: "q + min ?old sz \<le> q - 16 + 16 * ?n"
    proof -
      obtain k where "?n = Suc k" using n(3) gr0_implies_Suc by blast
      then show ?thesis using pieces_for_bounds(2) [of sz] n(4) by simp
    qed
    define h2 where "h2 = h1\<lparr>hmem := mem_copy q p (min ?old sz) (hmem h1)\<rparr>"
    have "slabs_ok (slabs h1)" using m by blast
    then have ok2: "slabs_ok (slabs h2)" by (simp add: h2_def)
    have "heap_block h1 q ?n" using m unfolding heap_block_def by auto
    note b = copy_keeps_blocks [OF _ this _ fits, of _ _ p, folded h2_def]
    have bp: "heap_block h2 p n" "heap_block h2 q ?n" using b kp by blast+
    obtain h3 where f: "heap_free_ptr (Some p) h2 = Inr h3" "slabs_ok (slabs h3)" "heap_block h3 q ?n"
       "hmem h3 = mem_set (p - 16) (16 * n) 0x5A (hmem h2)"
      using heap_free_keeps [OF ok2 bp] kp by blast
    have "realloc vm (Some p) sz h = Inr (Some q, h3)"
      using assms(3) run old f(1) by (simp add: realloc_def h2_def)
    moreover have "hmem h3 (q + i) = hmem h (p + i)" if i: "i < min ?old sz" for i
    proof -
      have "q + i \<in> block_range q ?n" using i fits n(4) unfolding block_range_def atLeastLessThan_iff by linarith
      then have "q + i \<notin> block_range p n" using kp by blast
      then have "hmem h3 (q + i) = hmem h2 (q + i)" unfolding f(4) by (intro mem_set_outside outside_range)
      moreover have "p + i \<in> block_range p n"
        using i n(1,2) unfolding block_range_def by (cases n) auto
      ultimately show ?thesis using kp i by (simp add: h2_def)
    qed
    moreover have "taken_bytes h3 = (taken_bytes h - block_range p n) \<union> block_range q ?n"
    proof -
      have "taken_bytes h2 = taken_bytes h \<union> block_range q ?n"
        using took_block_bytes [OF took] grown_bytes [OF assms(1-4) g] by (simp add: h2_def taken_bytes_def)
      then show ?thesis using heap_free_bytes [OF ok2 bp(1) f(1)] kp by blast
    qed
    moreover have "heap_block h3 r k \<and> (\<forall>x \<in> block_range r k. hmem h3 x = hmem h x)"
      if r: "heap_block h r k" "block_range r k \<inter> block_range p n = {}" for r k
    proof -
      note lr = live [OF r(1)]
      have "heap_block h2 r k" using b(1) lr by blast
      then have "heap_block h3 r k" using heap_free_keeps [OF ok2 bp(1), of r k] r(2) f(1) by auto
      moreover have "hmem h3 x = hmem h x" if x: "x \<in> block_range r k" for x
      proof -
        have "x \<notin> block_range p n" "x \<notin> block_range q ?n" using x r(2) lr by blast+
        then have "hmem h3 x = hmem h2 x" unfolding f(4) by (intro mem_set_outside outside_range)
        also have "x < q \<or> q + min ?old sz \<le> x" using outside_range [OF \<open>x \<notin> block_range q ?n\<close>] fits by linarith
        then have "hmem h2 x = hmem h1 x" by (simp add: h2_def)
        finally show ?thesis using lr x by simp
      qed
      ultimately show ?thesis by blast
    qed
    moreover have "\<forall>x \<in> block_range p n. hmem h3 x = 0x5A" unfolding f(4) block_range_def by simp
    ultimately show ?thesis unfolding if_not_P [OF False] using f(2,3) kp by (intro exI [of _ q] exI [of _ h3]) blast
  qed
qed


text \<open>Witness of C6: the first three pieces of a slab are a block of 32 bytes; it grows to 100.\<close>

theorem realloc_keeps_contents_witness:
  "\<exists>h q h'. slabs h = [small_slab\<lparr>sl_bitmap := [7]\<rparr>] \<and> heap_block h 4112 3
     \<and> realloc high_vm (Some 4112) 100 h = Inr (Some q, h')
     \<and> (\<forall>i < 32. hmem h' (q + i) = hmem h (4112 + i)) \<and> taken_bytes h' = (taken_bytes h - block_range 4112 3) \<union> block_range q 8"
proof -
  let ?s = "small_slab\<lparr>sl_bitmap := [7]\<rparr>"
  let ?h = "\<lparr>slabs = [?s], hmem = new_block_mem 4096 3 (\<lambda>_. 0), heap_allocated = 512, heap_free = 464\<rparr> :: heap"
  have "\<forall>i \<in> set [0..<32]. bm_get [7] i \<longleftrightarrow> i < 3" by code_simp
  then have bits: "bm_get [7] i \<longleftrightarrow> i < 3" if "i < 32" for i using that by simp
  have wf: "slab_wf ?s" by (simp add: slab_wf_def small_slab_def bm_bits_def)
  have "slab_taken ?s = {0..<3}" using bits by (auto simp: slab_taken_def small_slab_def)
  then have "block ?s (hmem ?h) 0 3 4112"
    using new_block_mem_facts(3,4) [of 4096 3 "\<lambda>_. 0"] by (simp add: block_def small_slab_def)
  then have blk: "heap_block ?h 4112 3" by (auto simp: heap_block_def)
  have n: "pieces_for 100 = 8" by (simp add: pieces_for_def ceilToPiece_def ceilToAllocSize_def ALLOC_SIZE_def)
  moreover have "free_run [7] 3 8" using bits by (simp add: free_run_def)
  ultimately have "\<not> no_run (sl_bitmap ?s) (pieces_for 100) (sl_pieces ?s)"
    by (auto simp: no_run_def small_slab_def intro!: exI [of _ 3])
  then have room: "\<not> runs_off (hmem ?h) (pieces_for 100) (slabs ?h)" by simp
  have ok: "slabs_ok (slabs ?h)" using wf by simp
  have "fresh_mapping high_vm 100 ?h" by (rule high_vm_fresh) (simp_all add: small_slab_def)
  from realloc_keeps_contents [OF ok this _ _ blk] room obtain q h' where "realloc high_vm (Some 4112) 100 ?h = Inr (Some q, h')"
      "\<forall>i < min (16 * (3 - 1)) 100. hmem h' (q + i) = hmem ?h (4112 + i)"
      "taken_bytes h' = (taken_bytes ?h - block_range 4112 3) \<union> block_range q (pieces_for 100)"
    by auto
  with blk n show ?thesis by (intro exI [of _ ?h] exI [of _ q] exI [of _ h']) simp
qed

end
