(* ===== verification/SlotTable.thy ===== *)
theory SlotTable
  imports Prelude
begin

text \<open>
  The contracts of the kernel's containers. A \<open>slot_table\<close> hands out small integer handles,
  always the lowest free one (file descriptors, threads of a process, mapped regions); a
  \<open>list_seq\<close> is an array that behaves as a list under appending, erasing and clearing.
\<close>

locale slot_table =
  fixes inv :: "'s \<Rightarrow> bool"
    and lookup :: "'s \<Rightarrow> nat \<Rightarrow> 'a option"
    and add :: "'a \<Rightarrow> 's \<Rightarrow> (nat \<times> 's) res"
    and del :: "nat \<Rightarrow> 's \<Rightarrow> 's res"
  assumes add_law: "inv s \<Longrightarrow> \<exists>i s'. add x s = Inr (i, s') \<and> inv s' \<and> lookup s i = None
      \<and> (\<forall>j < i. lookup s j \<noteq> None) \<and> lookup s' = (lookup s)(i \<mapsto> x)"
    and del_law: "inv s \<Longrightarrow> lookup s i \<noteq> None \<Longrightarrow>
      \<exists>s'. del i s = Inr s' \<and> inv s' \<and> lookup s' = (lookup s)(i := None)"
begin

lemma add_del:
  assumes "inv s"
  shows "\<exists>i s' s''. add x s = Inr (i, s') \<and> del i s' = Inr s'' \<and> inv s'' \<and> lookup s'' = lookup s"
proof -
  obtain i s' where 1: "add x s = Inr (i, s')" "inv s'" "lookup s i = None"
      "lookup s' = (lookup s)(i \<mapsto> x)"
    using add_law [OF assms] by blast
  then obtain s'' where "del i s' = Inr s''" "inv s''" "lookup s'' = (lookup s')(i := None)"
    using del_law [of s' i] by auto
  moreover have "(lookup s')(i := None) = lookup s" using 1 by auto
  ultimately show ?thesis using 1 by auto
qed

text \<open>A handle that was just given back is handed out next, if no lower one is free.\<close>

lemma del_add_reuses:
  assumes "inv s" "lookup s i \<noteq> None" "\<forall>j < i. lookup s j \<noteq> None"
  shows "\<exists>s' s''. del i s = Inr s' \<and> add x s' = Inr (i, s'') \<and> inv s'' \<and> lookup s'' = (lookup s)(i \<mapsto> x)"
proof -
  obtain s' where 1: "del i s = Inr s'" "inv s'" "lookup s' = (lookup s)(i := None)"
    using del_law [OF assms(1,2)] by blast
  obtain k s'' where 2: "add x s' = Inr (k, s'')" "inv s''" "lookup s' k = None"
      "\<forall>j < k. lookup s' j \<noteq> None" "lookup s'' = (lookup s')(k \<mapsto> x)"
    using add_law [OF 1(2)] by blast
  have "\<not> i < k" using 2(4) 1(3) by auto
  moreover have "\<not> k < i" using 2(3) 1(3) assms(3) by auto
  ultimately have "k = i" by simp
  with 1 2 show ?thesis by auto
qed

end

datatype 'a seq_op = Push 'a | Erase nat | Clear

fun seq_apply :: "'a seq_op \<Rightarrow> 'a list \<Rightarrow> 'a list" where
  "seq_apply (Push x) xs = xs @ [x]"
| "seq_apply (Erase i) xs = take i xs @ drop (Suc i) xs"
| "seq_apply Clear xs = []"

locale list_seq =
  fixes inv :: "'s \<Rightarrow> bool"
    and elems :: "'s \<Rightarrow> 'a list"
    and step :: "'a seq_op \<Rightarrow> 's \<Rightarrow> 's res"
  assumes step_law: "inv s \<Longrightarrow> \<exists>s'. step op s = Inr s' \<and> inv s' \<and> elems s' = seq_apply op (elems s)"
begin

fun run :: "'a seq_op list \<Rightarrow> 's \<Rightarrow> 's res" where
  "run [] s = Inr s"
| "run (op # ops) s = res_bind (step op s) (run ops)"

lemma run_refines:
  "inv s \<Longrightarrow> \<exists>s'. run ops s = Inr s' \<and> inv s' \<and> elems s' = fold seq_apply ops (elems s)"
proof (induction ops arbitrary: s)
  case (Cons op ops)
  obtain s' where "step op s = Inr s'" "inv s'" "elems s' = seq_apply op (elems s)"
    using step_law [OF Cons.prems, of op] by blast
  with Cons.IH [of s'] show ?case by simp
qed simp

end

end
