(* ===== verification/Vector.thy ===== *)
theory Vector
  imports CMath CString SlotTable
begin

text \<open>
  \<open>Mem::Vector<T, chunk_count, minimum_allocation>\<close> (\<open>include/aex/mem/vector.hpp\<close>). The array
  is a list of \<open>m_mem_count\<close> cells, empty for a null pointer; \<open>Heap::realloc\<close> keeps the common
  prefix and delivers zeroed cells (\<open>z\<close>) behind it, as the heap's theorems say. The template
  arguments are parameters. The cell behind the allocation, which \<open>erase\<close> reads, is the
  parameter \<open>behind\<close>. Element destructors are not modelled.
\<close>

record 'a vector =
  m_mem_count :: int
  m_count :: int
  m_array :: "'a list"

definition new_vector :: "'a vector" where
  "new_vector = \<lparr>m_mem_count = 0, m_count = 0, m_array = []\<rparr>"

definition vec_realloc :: "'a \<Rightarrow> int \<Rightarrow> 'a list \<Rightarrow> 'a list" where
  "vec_realloc z n arr = take (nat n) arr @ replicate (nat n - length arr) z"

text \<open>\<open>operator[]\<close> and \<open>at\<close>: an index out of range reads the first element.\<close>

definition vec_at :: "int \<Rightarrow> 'a vector \<Rightarrow> 'a res" where
  "vec_at index v =
     (let i = (if index < 0 \<or> index \<ge> m_count v then 0 else nat index)
      in if m_array v = [] then Inl NullDeref else cell_get (m_array v) i)"

definition vec_push :: "int \<Rightarrow> 'a \<Rightarrow> 'a \<Rightarrow> 'a vector \<Rightarrow> (int \<times> 'a vector) res" where
  "vec_push chunk z val v =
     (let count = m_count v + 1; new_mem_count = int_ceil count chunk;
          v = (if new_mem_count \<noteq> m_mem_count v
               then v\<lparr>m_mem_count := new_mem_count, m_array := vec_realloc z new_mem_count (m_array v)\<rparr>
               else v)
      in res_bind (cell_set (m_array v) (nat (count - 1)) val) (\<lambda>arr.
           Inr (count - 1, v\<lparr>m_count := count, m_array := arr\<rparr>)))"

definition deallocCheck :: "int \<Rightarrow> int \<Rightarrow> 'a \<Rightarrow> 'a vector \<Rightarrow> 'a vector" where
  "deallocCheck chunk minimum z v =
     (let new_mem_count = int_ceil (m_count v) chunk
      in if new_mem_count \<noteq> m_mem_count v \<and> new_mem_count > minimum
         then v\<lparr>m_mem_count := new_mem_count, m_array := vec_realloc z new_mem_count (m_array v)\<rparr>
         else v)"

definition vec_erase :: "int \<Rightarrow> int \<Rightarrow> 'a \<Rightarrow> 'a list \<Rightarrow> int \<Rightarrow> 'a vector \<Rightarrow> 'a vector res" where
  "vec_erase chunk minimum z behind index v =
     (if index < 0 \<or> index \<ge> m_count v then Inr v
      else let copy_amount = m_mem_count v - index
           in res_bind (memcpy_within (m_array v @ behind) (nat index) (nat index + 1) (nat copy_amount)) (\<lambda>cells.
                Inr (deallocCheck chunk minimum z
                  (v\<lparr>m_count := m_count v - 1, m_array := take (length (m_array v)) cells\<rparr>))))"

definition vec_clear :: "int \<Rightarrow> int \<Rightarrow> 'a \<Rightarrow> 'a vector \<Rightarrow> 'a vector res" where
  "vec_clear chunk minimum z v =
     (let v = deallocCheck chunk minimum z (v\<lparr>m_count := 0\<rparr>)
      in if m_array v = [] then Inr v
         else res_bind (memset (m_array v) 0 z (nat (m_mem_count v))) (\<lambda>arr. Inr (v\<lparr>m_array := arr\<rparr>)))"

fun pushRecursive :: "int \<Rightarrow> 'a \<Rightarrow> 'a list \<Rightarrow> 'a vector \<Rightarrow> 'a vector res" where
  "pushRecursive chunk z [] v = Inr v"
| "pushRecursive chunk z (x # rest) v =
     res_bind (vec_push chunk z x v) (\<lambda>(_, v). pushRecursive chunk z rest v)"

subsection \<open>The list a vector holds\<close>

definition vec_inv :: "'a vector \<Rightarrow> bool" where
  "vec_inv v \<longleftrightarrow> 0 \<le> m_count v \<and> m_count v \<le> m_mem_count v \<and> int (length (m_array v)) = m_mem_count v"

definition vec_list :: "'a vector \<Rightarrow> 'a list" where
  "vec_list v = take (nat (m_count v)) (m_array v)"

lemma vec_list_length: "vec_inv v \<Longrightarrow> length (vec_list v) = nat (m_count v)"
  by (auto simp: vec_inv_def vec_list_def)

lemma length_vec_realloc: "0 \<le> n \<Longrightarrow> int (length (vec_realloc z n arr)) = n"
  by (simp add: vec_realloc_def)

lemma take_vec_realloc:
  "k \<le> length arr \<Longrightarrow> int k \<le> n \<Longrightarrow> take k (vec_realloc z n arr) = take k arr"
proof -
  assume a: "k \<le> length arr" "int k \<le> n"
  then have "k \<le> nat n" by linarith
  then show ?thesis using a(1) by (simp add: vec_realloc_def min_def)
qed

lemma int_ceil_0: "0 < c \<Longrightarrow> int_ceil 0 c = 0"
  by (simp add: int_ceil_def c_div_nonneg)

lemma deallocCheck_spec:
  assumes "vec_inv v" "0 < chunk"
  shows "vec_inv (deallocCheck chunk minimum z v)" "vec_list (deallocCheck chunk minimum z v) = vec_list v"
proof -
  have c: "0 \<le> m_count v" "m_count v \<le> int_ceil (m_count v) chunk"
    using assms int_ceil_bounds(1) [of "m_count v" chunk] by (auto simp: vec_inv_def)
  then have "0 \<le> int_ceil (m_count v) chunk" by linarith
  with c assms(1) show "vec_inv (deallocCheck chunk minimum z v)"
    by (auto simp: deallocCheck_def Let_def vec_inv_def length_vec_realloc)
  show "vec_list (deallocCheck chunk minimum z v) = vec_list v"
    using c assms(1) by (auto simp: deallocCheck_def Let_def vec_list_def vec_inv_def intro!: take_vec_realloc)
qed

lemma vec_push_spec:
  assumes "vec_inv v" "0 < chunk"
  shows "\<exists>v'. vec_push chunk z x v = Inr (m_count v, v') \<and> vec_inv v' \<and> vec_list v' = vec_list v @ [x]"
proof -
  let ?n = "int_ceil (m_count v + 1) chunk"
  have n: "m_count v + 1 \<le> ?n" "0 \<le> m_count v"
    using assms int_ceil_bounds(1) [of "m_count v + 1" chunk] by (auto simp: vec_inv_def)
  define w where "w = (if ?n \<noteq> m_mem_count v
     then v\<lparr>m_mem_count := ?n, m_array := vec_realloc z ?n (m_array v)\<rparr> else v)"
  have w: "int (length (m_array w)) = ?n" "m_mem_count w = ?n"
    "take (nat (m_count v)) (m_array w) = vec_list v"
    using assms(1) n by (auto simp: w_def vec_inv_def length_vec_realloc vec_list_def intro!: take_vec_realloc)
  have i: "nat (m_count v) < length (m_array w)" using w(1) n by linarith
  let ?v' = "w\<lparr>m_count := m_count v + 1, m_array := (m_array w)[nat (m_count v) := x]\<rparr>"
  have "vec_push chunk z x v = Inr (m_count v, ?v')"
    using i by (simp add: vec_push_def Let_def flip: w_def)
  moreover have "vec_inv ?v'" using n w by (simp add: vec_inv_def)
  moreover have "nat (m_count v + 1) = Suc (nat (m_count v))" using n(2) by simp
  then have "vec_list ?v' = vec_list v @ [x]" using i w(3) by (simp add: vec_list_def)
  ultimately show ?thesis by blast
qed


lemma memcpy_within_overrun:
  "di < length m \<Longrightarrow> memcpy_within m di (Suc di) (length m - di) = Inl OutOfBounds"
proof (induction "length m - di" arbitrary: m di)
  case (Suc n)
  then obtain k where k: "length m - di = Suc k" by (metis Suc_diff_Suc)
  show ?case
  proof (cases "Suc di < length m")
    case True
    let ?m = "m[di := m ! Suc di]"
    have "memcpy_within ?m (Suc di) (Suc (Suc di)) (length ?m - Suc di) = Inl OutOfBounds"
      by (rule Suc.hyps(1)) (use Suc.hyps(2) True in simp_all)
    moreover have "length ?m - Suc di = k" using k by simp
    ultimately show ?thesis using True k Suc.prems by simp
  next
    case False
    then show ?thesis using k by simp
  qed
qed simp

lemma vec_erase_spec:
  assumes "vec_inv v" "0 < chunk" "length behind = 1"
  shows "\<exists>v'. vec_erase chunk minimum z behind (int i) v = Inr v' \<and> vec_inv v'
     \<and> vec_list v' = take i (vec_list v) @ drop (Suc i) (vec_list v)"
proof (cases "int i < m_count v")
  case False
  with vec_list_length [OF assms(1)] assms(1) show ?thesis by (auto simp: vec_erase_def)
next
  case True
  let ?a = "m_array v"
  have len: "int (length ?a) = m_mem_count v" "m_count v \<le> m_mem_count v"
    using assms(1) by (auto simp: vec_inv_def)
  have i: "i < length ?a" "nat (m_mem_count v - int i) = length ?a - i" using True len by linarith+
  have "memcpy_within (?a @ behind) i (Suc i) (length ?a - i) =
      Inr (take i ?a @ drop (Suc i) ?a @ behind @ behind)"
    using memcpy_within_down [of i "Suc i" "length ?a - i" "?a @ behind"] i assms(3) by simp
  moreover have "take (length ?a) (take i ?a @ drop (Suc i) ?a @ behind @ behind) =
      take i ?a @ drop (Suc i) ?a @ behind"
    using i assms(3) by simp
  moreover define w where "w = v\<lparr>m_count := m_count v - 1, m_array := take i ?a @ drop (Suc i) ?a @ behind\<rparr>"
  ultimately have er: "vec_erase chunk minimum z behind (int i) v = Inr (deallocCheck chunk minimum z w)"
    using True i by (simp add: vec_erase_def Let_def)
  have inv: "vec_inv w"
    using i len True assms(3) by (simp add: w_def vec_inv_def)
  have "vec_list w = take i (vec_list v) @ drop (Suc i) (vec_list v)"
  proof -
    let ?c = "nat (m_count v)"
    have c: "i < ?c" "?c \<le> length ?a" "nat (m_count v - 1) = ?c - 1" using True len by linarith+
    have "take (?c - 1) (take i ?a @ drop (Suc i) ?a @ behind) = take i ?a @ take (?c - Suc i) (drop (Suc i) ?a)"
    proof -
      have "min (?c - 1) i = i" "min (length ?a) i = i" using c by simp_all
      then show ?thesis using c by simp
    qed
    then show ?thesis using c by (simp add: w_def vec_list_def drop_take min_absorb2)
  qed
  with er deallocCheck_spec [OF inv assms(2)] show ?thesis by auto
qed

lemma vec_clear_spec:
  assumes "vec_inv v" "0 < chunk"
  shows "\<exists>v'. vec_clear chunk minimum z v = Inr v' \<and> vec_inv v' \<and> vec_list v' = []"
proof -
  define w where "w = deallocCheck chunk minimum z (v\<lparr>m_count := 0\<rparr>)"
  have "vec_inv (v\<lparr>m_count := 0\<rparr>)" using assms(1) by (auto simp: vec_inv_def)
  then have inv: "vec_inv w" unfolding w_def by (rule deallocCheck_spec(1) [OF _ assms(2)])
  have c: "m_count w = 0" by (simp add: w_def deallocCheck_def Let_def)
  have len: "nat (m_mem_count w) = length (m_array w)" using inv unfolding vec_inv_def by linarith
  define arr where "arr = (if m_array w = [] then [] else replicate (length (m_array w)) z)"
  have "memset (m_array w) 0 z (length (m_array w)) = Inr (replicate (length (m_array w)) z)"
    using memset_spec [of 0 "length (m_array w)" "m_array w" z] by simp
  then have "vec_clear chunk minimum z v = Inr (w\<lparr>m_array := arr\<rparr>)"
    unfolding vec_clear_def Let_def w_def [symmetric] len arr_def by (cases w) simp
  moreover have "vec_inv (w\<lparr>m_array := arr\<rparr>)"
    using inv unfolding vec_inv_def arr_def by (cases "m_array w") simp_all
  moreover have "vec_list (w\<lparr>m_array := arr\<rparr>) = []" using c unfolding vec_list_def by simp
  ultimately show ?thesis by blast
qed

subsection \<open>A vector as a list\<close>

text \<open>The operations with the template arguments of the kernel's queues,
  \<open>Vector<T, 16, 16>\<close>, on elements whose zeroed cell is \<open>None\<close>.\<close>

fun vec_step :: "'a option seq_op \<Rightarrow> 'a option vector \<Rightarrow> 'a option vector res" where
  "vec_step (Push x) v = res_bind (vec_push 16 None x v) (\<lambda>(_, v). Inr v)"
| "vec_step (Erase i) v = vec_erase 16 16 None [None] (int i) v"
| "vec_step Clear v = vec_clear 16 16 None v"

interpretation vecl: list_seq vec_inv vec_list vec_step
proof unfold_locales
  fix v :: "'a option vector" and op
  assume v: "vec_inv v"
  show "\<exists>v'. vec_step op v = Inr v' \<and> vec_inv v' \<and> vec_list v' = seq_apply op (vec_list v)"
  proof (cases op)
    case (Push x)
    then show ?thesis using vec_push_spec [OF v, of 16 None x] by auto
  next
    case (Erase i)
    then show ?thesis using vec_erase_spec [OF v, of 16 "[None]" 16 None i] by simp
  next
    case Clear
    then show ?thesis using vec_clear_spec [OF v, of 16 16 None] by simp
  qed
qed

text \<open>
  C7. A \<open>Vector\<close> behaves as a list: starting from any well-formed vector, \<open>push\<close> appends and
  returns the old length, \<open>erase\<close> of an index removes exactly that element (and does nothing
  out of range), \<open>clear\<close> empties, whatever the chunk size and the minimum allocation; no cell
  outside the allocation is written. \<open>erase\<close> does read the one cell behind the allocation
  (\<open>behind\<close>), whose value never reaches an element of the list.
\<close>

theorem vector_refines_list:
  assumes "vec_inv v" "0 < chunk"
  shows "(\<exists>v'. vec_push chunk z x v = Inr (int (length (vec_list v)), v') \<and> vec_inv v'
           \<and> vec_list v' = vec_list v @ [x])
    \<and> (\<exists>v'. vec_erase chunk minimum z [b] (int i) v = Inr v' \<and> vec_inv v'
           \<and> vec_list v' = take i (vec_list v) @ drop (Suc i) (vec_list v))
    \<and> (i < length (vec_list v) \<longrightarrow> vec_erase chunk minimum z [] (int i) v = Inl OutOfBounds)
    \<and> (\<exists>v'. vec_clear chunk minimum z v = Inr v' \<and> vec_inv v' \<and> vec_list v' = [])
    \<and> (vec_list v \<noteq> [] \<longrightarrow> vec_at k v = Inr (vec_list v !
           (if 0 \<le> k \<and> k < int (length (vec_list v)) then nat k else 0)))"
proof (intro conjI impI)
  have len: "int (length (vec_list v)) = m_count v"
    using vec_list_length [OF assms(1)] assms(1) by (simp add: vec_inv_def)
  show "\<exists>v'. vec_push chunk z x v = Inr (int (length (vec_list v)), v') \<and> vec_inv v'
           \<and> vec_list v' = vec_list v @ [x]"
    using vec_push_spec [OF assms, of z x] len by simp
  show "\<exists>v'. vec_erase chunk minimum z [b] (int i) v = Inr v' \<and> vec_inv v'
           \<and> vec_list v' = take i (vec_list v) @ drop (Suc i) (vec_list v)"
    using vec_erase_spec [OF assms, of "[b]" minimum z i] by simp
  show "\<exists>v'. vec_clear chunk minimum z v = Inr v' \<and> vec_inv v' \<and> vec_list v' = []"
    by (rule vec_clear_spec [OF assms])
  show "vec_erase chunk minimum z [] (int i) v = Inl OutOfBounds" if "i < length (vec_list v)"
  proof -
    have i: "int i < m_count v" "int i < m_mem_count v" using that len assms(1) unfolding vec_inv_def by linarith+
    have a: "length (m_array v) = nat (m_mem_count v)" using assms(1) unfolding vec_inv_def by linarith
    have "memcpy_within (m_array v) i (Suc i) (length (m_array v) - i) = Inl OutOfBounds"
      using memcpy_within_overrun [of i "m_array v"] i a by simp
    moreover have "nat (m_mem_count v - int i) = length (m_array v) - i" using a i by simp
    ultimately show ?thesis using i by (simp add: vec_erase_def Let_def)
  qed
  show "vec_at k v = Inr (vec_list v ! (if 0 \<le> k \<and> k < int (length (vec_list v)) then nat k else 0))"
    if "vec_list v \<noteq> []"
  proof -
    have "m_array v \<noteq> []" "0 < m_count v" "m_count v \<le> int (length (m_array v))"
      using that len assms(1) by (auto simp: vec_list_def vec_inv_def)
    then show ?thesis by (auto simp: vec_at_def Let_def len vec_list_def cell_get_def)
  qed
qed

text \<open>Witness of C7: the second of two elements is erased.\<close>

theorem vector_refines_list_witness:
  "vec_inv \<lparr>m_mem_count = 16, m_count = 2, m_array = 7 # 8 # replicate 14 (0 :: nat)\<rparr>
   \<and> (\<exists>v'. vec_erase 16 16 0 [99] 1 \<lparr>m_mem_count = 16, m_count = 2, m_array = 7 # 8 # replicate 14 0\<rparr> = Inr v'
        \<and> vec_list v' = [7 :: nat])
   \<and> vec_erase 16 16 0 [] 1 \<lparr>m_mem_count = 16, m_count = 2, m_array = 7 # 8 # replicate 14 (0 :: nat)\<rparr>
       = Inl OutOfBounds"
proof -
  let ?v = "\<lparr>m_mem_count = 16, m_count = 2, m_array = 7 # 8 # replicate 14 (0 :: nat)\<rparr>"
  have inv: "vec_inv ?v" by (simp add: vec_inv_def)
  have l: "vec_list ?v = [7, 8]" by (simp add: vec_list_def)
  show ?thesis
    using vector_refines_list [OF inv, of 16 0 0 16 99 1 0] inv unfolding l by auto
qed

end
