(* ===== verification/LazyVector.thy ===== *)
theory LazyVector
  imports CString SlotTable
begin

text \<open>
  \<open>Mem::LazyVector<T>\<close> (\<open>include/aex/mem/lazyvector.hpp\<close>): an array of \<open>optional<T>\<close> whose
  indices are handles. A cell is an \<open>option\<close>, the array always has \<open>m_count\<close> cells (\<open>resize\<close>
  reallocates to exactly that, and new cells are zeroed, hence empty), and \<open>m_rcount\<close> counts
  the cells that hold a value. \<open>dflt\<close> is the value of an empty \<open>optional\<close>.
\<close>

record 'a lazyvector =
  lv_rcount :: int
  lv_array :: "'a option list"

definition lv_count :: "'a lazyvector \<Rightarrow> int" where
  "lv_count v = int (length (lv_array v))"

definition new_lazyvector :: "'a lazyvector" where
  "new_lazyvector = \<lparr>lv_rcount = 0, lv_array = []\<rparr>"

text \<open>\<open>resize\<close> after \<open>m_count\<close> became \<open>n\<close>.\<close>

definition lv_resize :: "nat \<Rightarrow> 'a option list \<Rightarrow> 'a option list" where
  "lv_resize n arr = take n arr @ replicate (n - length arr) None"

definition lv_at :: "'a \<Rightarrow> int \<Rightarrow> 'a lazyvector \<Rightarrow> 'a res" where
  "lv_at dflt index v =
     (let i = (if index < 0 \<or> index \<ge> lv_count v then 0 else nat index)
      in if lv_array v = [] then Inl NullDeref
         else res_bind (cell_get (lv_array v) i) (\<lambda>c. Inr (case c of None \<Rightarrow> dflt | Some x \<Rightarrow> x)))"

definition lv_set :: "int \<Rightarrow> 'a \<Rightarrow> 'a lazyvector \<Rightarrow> 'a lazyvector res" where
  "lv_set index val v =
     (let arr = (if index \<ge> lv_count v then lv_resize (nat (index + 1)) (lv_array v) else lv_array v)
      in if index < 0 then Inl OutOfBounds
         else res_bind (cell_get arr (nat index)) (\<lambda>c.
           let rcount = (if c = None then lv_rcount v + 1 else lv_rcount v)
           in res_bind (cell_set arr (nat index) (Some val)) (\<lambda>arr.
              res_bind (res_assert (rcount \<le> int (length arr))) (\<lambda>_.
                Inr (v\<lparr>lv_rcount := rcount, lv_array := arr\<rparr>)))))"

definition lv_present :: "int \<Rightarrow> 'a lazyvector \<Rightarrow> bool" where
  "lv_present index v =
     (if index < 0 \<or> index \<ge> lv_count v then False else lv_array v ! nat index \<noteq> None)"

fun lv_find_hole :: "'a option list \<Rightarrow> nat \<Rightarrow> nat option" where
  "lv_find_hole [] i = None"
| "lv_find_hole (c # cs) i = (if c \<noteq> None then lv_find_hole cs (i + 1) else Some i)"

definition lv_push :: "'a \<Rightarrow> 'a lazyvector \<Rightarrow> (int \<times> 'a lazyvector) res" where
  "lv_push val v =
     (let rcount = lv_rcount v + 1
      in case lv_find_hole (lv_array v) 0 of
           Some i \<Rightarrow> Inr (int i, v\<lparr>lv_rcount := rcount, lv_array := (lv_array v)[i := Some val]\<rparr>)
         | None \<Rightarrow>
             let n = length (lv_array v) + 1; arr = lv_resize n (lv_array v)
             in res_bind (cell_set arr (n - 1) (Some val)) (\<lambda>arr.
                res_bind (res_assert (rcount \<le> int n)) (\<lambda>_.
                  Inr (int (n - 1), v\<lparr>lv_rcount := rcount, lv_array := arr\<rparr>))))"

text \<open>The loop that drops empty cells at the end: the new \<open>m_count\<close>.\<close>

fun lv_trim :: "'a option list \<Rightarrow> nat \<Rightarrow> nat" where
  "lv_trim arr 0 = 0"
| "lv_trim arr (Suc n) = (if arr ! n = None then lv_trim arr n else Suc n)"

definition lv_erase :: "int \<Rightarrow> 'a lazyvector \<Rightarrow> 'a lazyvector res" where
  "lv_erase index v =
     (if index < 0 \<or> index \<ge> lv_count v then Inr v
      else let rcount = lv_rcount v - 1;
               arr = (lv_array v)[nat index := None];
               n = lv_trim arr (length arr);
               arr = (if n \<noteq> length arr then lv_resize n arr else arr)
           in res_bind (res_assert (rcount \<le> int n)) (\<lambda>_.
                Inr (v\<lparr>lv_rcount := rcount, lv_array := arr\<rparr>)))"

subsection \<open>The table of handles\<close>

definition lv_lookup :: "'a lazyvector \<Rightarrow> nat \<Rightarrow> 'a option" where
  "lv_lookup v i = (if i < length (lv_array v) then lv_array v ! i else None)"

definition present_count :: "'a option list \<Rightarrow> nat" where
  "present_count arr = length (filter (\<lambda>c. c \<noteq> None) arr)"

definition lv_inv :: "'a lazyvector \<Rightarrow> bool" where
  "lv_inv v \<longleftrightarrow> lv_rcount v = int (present_count (lv_array v))
     \<and> (lv_array v \<noteq> [] \<longrightarrow> last (lv_array v) \<noteq> None)"

lemma present_count_le: "present_count arr \<le> length arr"
  by (simp add: present_count_def)

lemma present_count_update:
  assumes "i < length arr"
  shows "int (present_count (arr[i := c])) =
     int (present_count arr) - (if arr ! i = None then 0 else 1) + (if c = None then 0 else 1)"
proof -
  have "present_count arr = present_count (take i arr @ arr ! i # drop (Suc i) arr)"
    by (rule arg_cong [OF id_take_nth_drop [OF assms]])
  also have "\<dots> = present_count (take i arr) + (if arr ! i = None then 0 else 1)
      + present_count (drop (Suc i) arr)"
    by (simp add: present_count_def)
  finally have "present_count arr = present_count (take i arr) + (if arr ! i = None then 0 else 1)
      + present_count (drop (Suc i) arr)" .
  moreover have "present_count (arr[i := c]) = present_count (take i arr) + (if c = None then 0 else 1)
      + present_count (drop (Suc i) arr)"
    using assms by (simp add: present_count_def upd_conv_take_nth_drop)
  ultimately show ?thesis by simp
qed

lemma lv_find_hole_spec:
  "case lv_find_hole arr k of
     None \<Rightarrow> \<forall>c \<in> set arr. c \<noteq> None
   | Some i \<Rightarrow> k \<le> i \<and> i - k < length arr \<and> arr ! (i - k) = None \<and> (\<forall>j < i - k. arr ! j \<noteq> None)"
proof (induction arr arbitrary: k)
  case (Cons c cs)
  show ?case
  proof (cases c)
    case (Some x)
    show ?thesis
    proof (cases "lv_find_hole cs (k + 1)")
      case None
      with Cons.IH [of "k + 1"] Some show ?thesis by simp
    next
      case (Some i)
      with Cons.IH [of "k + 1"] have i: "k + 1 \<le> i" "i - (k + 1) < length cs"
        "cs ! (i - (k + 1)) = None" "\<forall>j < i - (k + 1). cs ! j \<noteq> None" by simp_all
      obtain d where d: "i = k + 1 + d" using i(1) le_Suc_ex by blast
      show ?thesis using i \<open>c = Some x\<close> Some d by (auto simp: less_Suc_eq_0_disj)
    qed
  qed simp
qed simp

lemma lv_trim_le: "lv_trim arr n \<le> n"
  by (induction n) auto

lemma lv_trim_spec:
  "(\<forall>i. lv_trim arr n \<le> i \<and> i < n \<longrightarrow> arr ! i = None)
     \<and> (0 < lv_trim arr n \<longrightarrow> arr ! (lv_trim arr n - 1) \<noteq> None)"
  by (induction n) (auto simp: less_Suc_eq)

lemma present_count_trim: "present_count (take (lv_trim arr (length arr)) arr) = present_count arr"
proof -
  let ?n = "lv_trim arr (length arr)"
  have "\<forall>c \<in> set (drop ?n arr). c = None"
    using lv_trim_spec [of arr "length arr"] by (auto simp: in_set_conv_nth)
  then have "filter (\<lambda>c. c \<noteq> None) (drop ?n arr) = []" by (simp add: filter_empty_conv)
  then have "filter (\<lambda>c. c \<noteq> None) (take ?n arr @ drop ?n arr) = filter (\<lambda>c. c \<noteq> None) (take ?n arr)"
    by (simp only: filter_append append_Nil2)
  then show ?thesis by (simp add: present_count_def)
qed

lemma lv_push_spec:
  assumes "lv_inv v"
  shows "\<exists>i v'. lv_push x v = Inr (int i, v') \<and> lv_inv v' \<and> lv_lookup v i = None
     \<and> (\<forall>j < i. lv_lookup v j \<noteq> None) \<and> lv_lookup v' = (lv_lookup v)(i \<mapsto> x)"
proof (cases "lv_find_hole (lv_array v) 0")
  case (Some i)
  let ?a = "lv_array v"
  have i: "i < length ?a" "?a ! i = None" "\<forall>j < i. ?a ! j \<noteq> None"
    using Some lv_find_hole_spec [of ?a 0] by simp_all
  let ?v = "v\<lparr>lv_rcount := lv_rcount v + 1, lv_array := ?a[i := Some x]\<rparr>"
  have "lv_push x v = Inr (int i, ?v)" using Some by (simp add: lv_push_def Let_def)
  moreover have "lv_inv ?v"
    using assms i present_count_update [OF i(1), of "Some x"]
    by (auto simp: lv_inv_def last_conv_nth nth_list_update)
  moreover have "lv_lookup ?v = (lv_lookup v)(i \<mapsto> x)"
    using i by (auto simp: lv_lookup_def fun_eq_iff nth_list_update)
  ultimately show ?thesis using i by (intro exI [of _ i] exI [of _ ?v]) (auto simp: lv_lookup_def)
next
  case None
  let ?a = "lv_array v"
  have full: "\<forall>c \<in> set ?a. c \<noteq> None" using None lv_find_hole_spec [of ?a 0] by simp
  then have cnt: "present_count ?a = length ?a" by (simp add: present_count_def filter_id_conv)
  have arr: "(lv_resize (length ?a + 1) ?a)[length ?a := Some x] = ?a @ [Some x]"
    by (simp add: lv_resize_def list_update_append)
  let ?v = "v\<lparr>lv_rcount := lv_rcount v + 1, lv_array := ?a @ [Some x]\<rparr>"
  have "lv_push x v = Inr (int (length ?a), ?v)"
    using None assms cnt arr by (simp add: lv_push_def Let_def lv_inv_def lv_resize_def)
  moreover have "lv_inv ?v" using assms by (simp add: lv_inv_def present_count_def)
  moreover have "lv_lookup ?v = (lv_lookup v)(length ?a \<mapsto> x)"
    by (auto simp: lv_lookup_def fun_eq_iff nth_append)
  ultimately show ?thesis using full
    by (intro exI [of _ "length ?a"] exI [of _ ?v]) (auto simp: lv_lookup_def)
qed

lemma lv_set_spec:
  assumes "lv_inv v"
  shows "\<exists>v'. lv_set (int k) x v = Inr v' \<and> lv_inv v' \<and> lv_lookup v' = (lv_lookup v)(k \<mapsto> x)"
proof -
  let ?a = "lv_array v"
  define arr where "arr = (if k < length ?a then ?a else ?a @ replicate (Suc k - length ?a) None)"
  have grow: "(if int k \<ge> lv_count v then lv_resize (nat (int k + 1)) ?a else ?a) = arr"
    by (auto simp: arr_def lv_count_def lv_resize_def nat_add_distrib)
  have k: "k < length arr" by (auto simp: arr_def)
  have look: "lv_lookup v j = (if j < length arr then arr ! j else None)" for j
    by (auto simp: lv_lookup_def arr_def nth_append)
  have cnt: "present_count arr = present_count ?a" by (simp add: arr_def present_count_def)
  have upd: "int (present_count (arr[k := Some x])) = lv_rcount v + (if arr ! k = None then 1 else 0)"
    using present_count_update [OF k, of "Some x"] cnt assms by (simp add: lv_inv_def)
  let ?v = "v\<lparr>lv_rcount := int (present_count (arr[k := Some x])), lv_array := arr[k := Some x]\<rparr>"
  have "int (present_count (arr[k := Some x])) \<le> int (length arr)"
    using present_count_le [of "arr[k := Some x]"] by simp
  then have "lv_set (int k) x v = Inr ?v"
    using k upd by (cases "arr ! k") (simp_all add: lv_set_def grow Let_def)
  moreover have "lv_inv ?v"
    using assms k by (auto simp: lv_inv_def arr_def last_conv_nth nth_list_update nth_append)
  moreover have "lv_lookup ?v = (lv_lookup v)(k \<mapsto> x)"
    using k by (auto simp: look lv_lookup_def [of ?v] nth_list_update)
  ultimately show ?thesis by blast
qed

lemma lv_erase_effect:
  assumes "i < length (lv_array v)" "lv_rcount v \<le> int (present_count (lv_array v))"
    and "lv_array v ! i \<noteq> None \<or> lv_rcount v = int (present_count (lv_array v))"
  shows "\<exists>v'. lv_erase (int i) v = Inr v' \<and> lv_rcount v' = lv_rcount v - 1
     \<and> lv_lookup v' = (lv_lookup v)(i := None)
     \<and> (lv_array v' \<noteq> [] \<longrightarrow> last (lv_array v') \<noteq> None)
     \<and> int (present_count (lv_array v')) =
         int (present_count (lv_array v)) - (if lv_array v ! i = None then 0 else 1)"
proof -
  let ?a = "(lv_array v)[i := None]"
  let ?n = "lv_trim ?a (length ?a)"
  have n: "?n \<le> length ?a" by (rule lv_trim_le)
  have arr: "(if ?n \<noteq> length ?a then lv_resize ?n ?a else ?a) = take ?n ?a"
    using n by (simp add: lv_resize_def)
  have cnt: "int (present_count (take ?n ?a)) =
      int (present_count (lv_array v)) - (if lv_array v ! i = None then 0 else 1)"
    using present_count_update [OF assms(1), of None] present_count_trim [of ?a] by simp
  have "int (present_count (take ?n ?a)) \<le> int ?n" using present_count_le [of "take ?n ?a"] n by simp
  then have le: "lv_rcount v - 1 \<le> int ?n" using cnt assms(2,3) by (auto split: if_splits)
  let ?v = "v\<lparr>lv_rcount := lv_rcount v - 1, lv_array := take ?n ?a\<rparr>"
  have "lv_erase (int i) v = Inr ?v"
    using assms(1) le arr by (simp add: lv_erase_def lv_count_def Let_def)
  moreover have "lv_lookup ?v = (lv_lookup v)(i := None)"
  proof
    fix j
    have "?a ! j = None" if "?n \<le> j" "j < length ?a"
      using lv_trim_spec [of ?a "length ?a"] that by blast
    then show "lv_lookup ?v j = ((lv_lookup v)(i := None)) j"
      using n by (cases "j < ?n") (auto simp: lv_lookup_def nth_list_update)
  qed
  moreover have "last (take ?n ?a) \<noteq> None" if "take ?n ?a \<noteq> []"
    using lv_trim_spec [of ?a "length ?a"] n that by (simp add: last_conv_nth)
  ultimately show ?thesis using cnt by (intro exI [of _ ?v]) simp
qed

definition lv_add :: "'a \<Rightarrow> 'a lazyvector \<Rightarrow> (nat \<times> 'a lazyvector) res" where
  "lv_add x v = res_bind (lv_push x v) (\<lambda>(i, v). Inr (nat i, v))"

definition lv_del :: "nat \<Rightarrow> 'a lazyvector \<Rightarrow> 'a lazyvector res" where
  "lv_del i v = lv_erase (int i) v"

interpretation lvt: slot_table lv_inv lv_lookup lv_add lv_del
proof (unfold_locales, goal_cases)
  case (1 s x)
  then show ?case using lv_push_spec [OF 1, of x] by (auto simp: lv_add_def)
next
  case (2 s i)
  then have i: "i < length (lv_array s)" "lv_array s ! i \<noteq> None"
    by (auto simp: lv_lookup_def split: if_splits)
  with lv_erase_effect [of i s] 2(1) show ?case by (auto simp: lv_del_def lv_inv_def)
qed


text \<open>
  C8. A \<open>LazyVector\<close> is a table of handles: \<open>push\<close> stores under the lowest free index and
  returns it, \<open>set\<close> stores under any index that is not negative, \<open>erase\<close> empties the cell and
  trims the array, and \<open>realCount\<close> is the number of values held. That count is kept only as
  long as \<open>erase\<close> is called for cells that hold a value: erasing an empty cell in range
  removes nothing but still lowers it. \<open>set\<close> with a negative index writes before the array.
\<close>

theorem lazyvector_table:
  assumes "lv_inv v"
  shows "(\<exists>i v'. lv_push x v = Inr (int i, v') \<and> lv_inv v' \<and> lv_lookup v i = None
            \<and> (\<forall>j < i. lv_lookup v j \<noteq> None) \<and> lv_lookup v' = (lv_lookup v)(i \<mapsto> x))
    \<and> (\<exists>v'. lv_set (int k) x v = Inr v' \<and> lv_inv v' \<and> lv_lookup v' = (lv_lookup v)(k \<mapsto> x))
    \<and> (lv_lookup v k \<noteq> None \<longrightarrow>
         (\<exists>v'. lv_erase (int k) v = Inr v' \<and> lv_inv v' \<and> lv_lookup v' = (lv_lookup v)(k := None)))
    \<and> (int k < lv_count v \<and> lv_lookup v k = None \<longrightarrow>
         (\<exists>v'. lv_erase (int k) v = Inr v' \<and> lv_lookup v' = lv_lookup v
            \<and> lv_rcount v' = int (present_count (lv_array v')) - 1))
    \<and> (z < 0 \<longrightarrow> lv_set z x v = Inl OutOfBounds)"
proof (intro conjI impI)
  show "\<exists>i v'. lv_push x v = Inr (int i, v') \<and> lv_inv v' \<and> lv_lookup v i = None
            \<and> (\<forall>j < i. lv_lookup v j \<noteq> None) \<and> lv_lookup v' = (lv_lookup v)(i \<mapsto> x)"
    by (rule lv_push_spec [OF assms])
  show "\<exists>v'. lv_set (int k) x v = Inr v' \<and> lv_inv v' \<and> lv_lookup v' = (lv_lookup v)(k \<mapsto> x)"
    by (rule lv_set_spec [OF assms])
  show "\<exists>v'. lv_erase (int k) v = Inr v' \<and> lv_inv v' \<and> lv_lookup v' = (lv_lookup v)(k := None)"
    if "lv_lookup v k \<noteq> None"
    using lvt.del_law [OF assms that] by (simp add: lv_del_def)
  show "\<exists>v'. lv_erase (int k) v = Inr v' \<and> lv_lookup v' = lv_lookup v
            \<and> lv_rcount v' = int (present_count (lv_array v')) - 1"
    if k: "int k < lv_count v \<and> lv_lookup v k = None"
  proof -
    have "k < length (lv_array v)" "lv_array v ! k = None"
      using k by (auto simp: lv_count_def lv_lookup_def)
    with lv_erase_effect [of k v] assms k show ?thesis by (auto simp: lv_inv_def fun_upd_idem)
  qed
qed (simp add: lv_set_def)

text \<open>Witness of C8: a table with handles 0 and 2 in use; the next handle is 1, and erasing
  handle 1 before it is used leaves a count of one for two values.\<close>

theorem lazyvector_table_witness:
  "\<exists>v. lv_array v = [Some (10 :: nat), None, Some 30] \<and> lv_rcount v = 2
     \<and> (\<exists>v'. lv_push 20 v = Inr (1, v'))
     \<and> (\<exists>v'. lv_erase 1 v = Inr v' \<and> lv_rcount v' = int (present_count (lv_array v')) - 1)"
proof -
  let ?v = "\<lparr>lv_rcount = 2, lv_array = [Some (10 :: nat), None, Some 30]\<rparr>"
  have inv: "lv_inv ?v" by (simp add: lv_inv_def present_count_def)
  have "\<exists>v'. lv_push 20 ?v = Inr (1, v')" by (simp add: lv_push_def)
  moreover have "\<exists>v'. lv_erase 1 ?v = Inr v' \<and> lv_rcount v' = int (present_count (lv_array v')) - 1"
    using lazyvector_table [OF inv, of 20 1 0] by (auto simp: lv_count_def lv_lookup_def)
  ultimately show ?thesis by (intro exI [of _ ?v]) simp
qed

end
