(* ===== verification/CText.thy ===== *)
theory CText
  imports CString CMath
begin

unbundle bit_operations_syntax

text \<open>
  C strings: \<open>strlen\<close>, \<open>strcmp\<close>, \<open>strncpy\<close> of \<open>kernel/string.cpp\<close> and \<open>itos\<close>, \<open>stoi\<close>,
  \<open>tolower\<close>, \<open>toupper\<close> of \<open>include/aex/string.hpp\<close>. A string in memory is a list of cells
  with a NUL; running off the list is \<open>OutOfBounds\<close>. \<open>cstr s\<close> is the memory of a literal.
\<close>

definition NUL :: char where "NUL = CHR 0x00"

definition cstr :: "string \<Rightarrow> char list" where
  "cstr s = s @ [NUL]"

text \<open>\<open>char\<close> is signed on the target.\<close>

definition char_val :: "char \<Rightarrow> int" where
  "char_val c = (let n = int (of_char c) in if n < 128 then n else n - 256)"

fun strlen_loop :: "char list \<Rightarrow> int \<Rightarrow> int res" where
  "strlen_loop [] len = Inl OutOfBounds"
| "strlen_loop (c # cs) len = (if c \<noteq> NUL then strlen_loop cs (len + 1) else Inr len)"

definition strlen :: "char list \<Rightarrow> int res" where
  "strlen str = strlen_loop str 0"

fun strcmp :: "char list \<Rightarrow> char list \<Rightarrow> int res" where
  "strcmp (a # as) (b # bs) =
     (if char_val a < char_val b then Inr (-1)
      else if char_val a > char_val b then Inr 1
      else if a \<noteq> NUL \<and> b \<noteq> NUL then strcmp as bs
      else Inr 0)"
| "strcmp as bs = Inl OutOfBounds"

definition strncpy_len :: "int \<Rightarrow> u64 \<Rightarrow> int" where
  "strncpy_len l num = sint (ucast (min (word_of_int l) (num - 1)) :: u32)"

definition strncpy :: "char list \<Rightarrow> nat \<Rightarrow> char list \<Rightarrow> u64 \<Rightarrow> char list res" where
  "strncpy dst at src num =
     res_bind (strlen src) (\<lambda>l.
       let len = strncpy_len l num
       in if len < 0 then Inr dst
          else res_bind (memcpy_loop dst at src 0 (nat len)) (\<lambda>dst.
               cell_set dst (at + nat len) NUL))"

definition tolower :: "char \<Rightarrow> char" where
  "tolower c = (if inrange (char_val c) (char_val CHR ''A'') (char_val CHR ''Z'')
                then char_of (of_char c + 32 :: nat) else c)"

definition toupper :: "char \<Rightarrow> char" where
  "toupper c = (if inrange (char_val c) (char_val CHR ''a'') (char_val CHR ''z'')
                then char_of (of_char c - 32 :: nat) else c)"

definition xtox_dictionary :: string where
  "xtox_dictionary = ''zyxwvutsrqponmlkjihgfedcba9876543210123456789abcdefghijklmnopqrstuvwxyz''"

definition c_mod :: "int \<Rightarrow> int \<Rightarrow> int" where
  "c_mod a b = a - c_div a b * b"

text \<open>\<open>itos\<close> writes the digits from the lowest to the highest into the buffer and then swaps
  them into order. \<open>out\<close> is what is in the buffer so far.\<close>

lemma c_div_shrinks: "2 \<le> b \<Longrightarrow> n \<noteq> 0 \<Longrightarrow> nat \<bar>c_div n b\<bar> < nat \<bar>n\<bar>"
proof -
  assume a: "2 \<le> b" "n \<noteq> 0"
  have "\<bar>n\<bar> div \<bar>b\<bar> < \<bar>n\<bar>" using a by (intro int_div_less_self) auto
  moreover have "0 \<le> \<bar>n\<bar> div \<bar>b\<bar>" using a by (simp add: pos_imp_zdiv_nonneg_iff)
  ultimately show ?thesis using a by (simp add: c_div_def abs_mult)
qed

function itos_digits :: "int \<Rightarrow> int \<Rightarrow> string \<Rightarrow> string" where
  "itos_digits num base out =
     (let out = out @ [xtox_dictionary ! nat (35 + c_mod num base)]; num' = c_div num base
      in if num' \<noteq> 0 \<and> 2 \<le> base then itos_digits num' base out else out)"
  by pat_completeness auto

termination
proof (relation "measure (\<lambda>(num, base, out). nat \<bar>num\<bar>)", goal_cases)
  case (2 num base out x xa)
  have "num \<noteq> 0" using 2 by (auto simp: c_div_def)
  then show ?case using 2 c_div_shrinks [of base num] by simp
qed simp

function swap_loop :: "char list \<Rightarrow> nat \<Rightarrow> nat \<Rightarrow> char list" where
  "swap_loop buf low ptr =
     (if low < ptr then swap_loop (buf[low := buf ! ptr, ptr := buf ! low]) (low + 1) (ptr - 1) else buf)"
  by pat_completeness auto

termination by (relation "measure (\<lambda>(buf, low, ptr). ptr - low)") auto

declare itos_digits.simps [simp del]
declare swap_loop.simps [simp del]

definition itos :: "int \<Rightarrow> int \<Rightarrow> string" where
  "itos num base =
     (if base < 2 \<or> base > 36 then ''''
      else let out = (if num < 0 \<and> base = 10 then ''-'' else '''');
               low = length out;
               buf = itos_digits num base out
           in swap_loop buf low (length buf - 1))"

fun stoi_loop :: "int \<Rightarrow> string \<Rightarrow> int \<Rightarrow> int" where
  "stoi_loop base [] res = res"
| "stoi_loop base (c # cs) res = stoi_loop base cs (res * base + char_val c - char_val CHR ''0'')"

definition stoi :: "int \<Rightarrow> string \<Rightarrow> int" where
  "stoi base str =
     (if str \<noteq> [] \<and> hd str = CHR ''-'' then - 1 * stoi_loop base (tl str) 0
      else stoi_loop base str 0)"

subsection \<open>Strings in memory\<close>

lemma strlen_loop_cstr:
  "NUL \<notin> set s \<Longrightarrow> strlen_loop (s @ NUL # rest) len = Inr (len + int (length s))"
  by (induction s arbitrary: len) auto

lemma strlen_cstr [simp]: "NUL \<notin> set s \<Longrightarrow> strlen (cstr s) = Inr (int (length s))"
  by (simp add: strlen_def cstr_def strlen_loop_cstr)

lemma char_val_eq [simp]: "char_val a = char_val b \<longleftrightarrow> a = b"
proof
  assume eq: "char_val a = char_val b"
  have "m = n" if "(if m < 128 then m else m - 256) = (if n < 128 then n else n - 256)"
      "0 \<le> m" "m < 256" "0 \<le> n" "n < 256" for m n :: int
    using that by (auto split: if_splits)
  from this [of "int (of_char a)" "int (of_char b)"] eq
  have "(of_char a :: nat) = of_char b" unfolding char_val_def Let_def by simp
  then show "a = b" by simp
qed simp

lemma strcmp_eq_0:
  "NUL \<notin> set a \<Longrightarrow> NUL \<notin> set b \<Longrightarrow> \<exists>r. strcmp (cstr a) (cstr b) = Inr r \<and> (r = 0 \<longleftrightarrow> a = b)"
proof (induction a arbitrary: b)
  case Nil
  then show ?case by (cases b) (auto simp: cstr_def)
next
  case (Cons x a)
  show ?case
  proof (cases b)
    case Nil
    then show ?thesis using Cons.prems by (auto simp: cstr_def)
  next
    case (Cons y b')
    then show ?thesis
    proof (cases "x = y")
      case True
      then show ?thesis using Cons Cons.IH [of b'] Cons.prems by (auto simp: cstr_def)
    next
      case False
      then have "char_val x \<noteq> char_val y" by simp
      then show ?thesis using Cons False by (auto simp: cstr_def)
    qed
  qed
qed

lemma strncpy_len_full:
  assumes "length s < 2 ^ 31" "length s < unat num"
  shows "strncpy_len (int (length s)) num = int (length s)"
proof -
  have u: "unat (word_of_int (int (length s)) :: u64) = length s"
    using assms(1) by (simp add: unat_word_of_int_small del: of_int_of_nat_eq)
  have "unat (num - 1) = unat num - 1" using assms(2) by (subst unat_sub) (simp_all add: word_le_nat_alt)
  then have "word_of_int (int (length s)) \<le> num - 1"
    using u assms(2) by (simp add: word_le_nat_alt del: of_int_of_nat_eq)
  then have m: "min (word_of_int (int (length s))) (num - 1) = (word_of_int (int (length s)) :: u64)"
    by (simp add: min_def)
  have "sint (ucast (word_of_int (int (length s)) :: u64) :: u32) = int (length s)"
    using assms(1) by (simp add: signed_ucast_eq signed_of_nat unsigned_of_nat take_bit_nat_eq_self
        signed_take_bit_int_eq_self)
  then show ?thesis unfolding strncpy_len_def m .
qed


subsection \<open>Numbers\<close>

lemma swap_loop_rev:
  "swap_loop (A @ M @ C) (length A) (length A + length M - 1) = A @ rev M @ C"
proof (induction M arbitrary: A C rule: length_induct)
  case (1 M)
  consider "length M \<le> 1" | x B y where "M = x # B @ [y]"
    by (cases M; cases "tl M" rule: rev_cases) auto
  then show ?case
  proof cases
    case 1
    then have "rev M = M" by (cases M) auto
    moreover have "\<not> length A < length A + length M - 1" using 1 by simp
    ultimately show ?thesis by (subst swap_loop.simps) (simp del: swap_loop.simps)
  next
    case (2 x B y)
    let ?buf = "A @ M @ C"
    have "?buf[length A := ?buf ! (length A + length M - 1), length A + length M - 1 := ?buf ! length A]
        = (A @ [y]) @ B @ x # C"
      using 2 by (simp add: nth_append list_update_append)
    moreover have "swap_loop ((A @ [y]) @ B @ x # C) (length (A @ [y])) (length (A @ [y]) + length B - 1)
        = (A @ [y]) @ rev B @ x # C"
      by (rule 1 [rule_format]) (use 2 in simp)
    ultimately show ?thesis using 2 by (subst swap_loop.simps) (simp del: swap_loop.simps)
  qed
qed

lemma itos_digits_append: "itos_digits num base (a @ b) = a @ itos_digits num base b"
proof (induction num base b rule: itos_digits.induct)
  case (1 num base b)
  then show ?case by (subst (1 2) itos_digits.simps) (simp add: Let_def)
qed

lemma dictionary_digit:
  "- 9 \<le> r \<Longrightarrow> r \<le> 9 \<Longrightarrow> char_val (xtox_dictionary ! nat (35 + r)) = 48 + \<bar>r\<bar>"
proof -
  assume "- 9 \<le> r" "r \<le> 9"
  then have "r \<in> set [-9..9]" by (simp only: set_upto atLeastAtMost_iff)
  moreover have "\<forall>r \<in> set [-9..9]. char_val (xtox_dictionary ! nat (35 + r)) = 48 + \<bar>r\<bar>"
    by code_simp
  ultimately show ?thesis by blast
qed

lemma stoi_loop_append: "stoi_loop base (a @ b) r = stoi_loop base b (stoi_loop base a r)"
  by (induction a arbitrary: r) auto

lemma c_mod_10: "- 9 \<le> c_mod n 10" "c_mod n 10 \<le> 9" "\<bar>n\<bar> = 10 * \<bar>c_div n 10\<bar> + \<bar>c_mod n 10\<bar>"
  by (auto simp: c_mod_def c_div_def abs_if sgn_if)

lemma stoi_itos_digits: "stoi_loop 10 (rev (itos_digits num 10 [])) 0 = \<bar>num\<bar>"
proof (induction "nat \<bar>num\<bar>" arbitrary: num rule: less_induct)
  case less
  let ?d = "xtox_dictionary ! nat (35 + c_mod num 10)"
  have d: "char_val ?d = 48 + \<bar>c_mod num 10\<bar>" by (rule dictionary_digit) (rule c_mod_10)+
  have z: "char_val CHR ''0'' = 48" by code_simp
  show ?case
  proof (cases "c_div num 10 = 0")
    case True
    then show ?thesis using c_mod_10(3) [of num] by (subst itos_digits.simps) (simp add: d z Let_def)
  next
    case False
    then have "num \<noteq> 0" by (auto simp: c_div_def)
    then have "stoi_loop 10 (rev (itos_digits (c_div num 10) 10 [])) 0 = \<bar>c_div num 10\<bar>"
      by (intro less.hyps c_div_shrinks) simp_all
    moreover have "itos_digits num 10 [] = ?d # itos_digits (c_div num 10) 10 []"
      using False itos_digits_append [of "c_div num 10" 10 "[?d]" "[]"]
      by (subst itos_digits.simps) (simp add: Let_def del: itos_digits.simps)
    ultimately show ?thesis using c_mod_10(3) [of num]
      by (simp add: stoi_loop_append d z del: itos_digits.simps)
  qed
qed

lemma itos_10:
  "itos num 10 = (if num < 0 then ''-'' else []) @ rev (itos_digits num 10 [])"
proof -
  let ?ds = "itos_digits num 10 []" and ?sg = "if num < 0 then ''-'' else []"
  have ne: "?ds \<noteq> []"
    using itos_digits_append [of "c_div num 10" 10 "[xtox_dictionary ! nat (35 + c_mod num 10)]" "[]"]
    by (subst itos_digits.simps) (simp add: Let_def del: itos_digits.simps)
  have buf: "itos_digits num 10 ?sg = ?sg @ ?ds" using itos_digits_append [of num 10 ?sg "[]"] by simp
  have "swap_loop (?sg @ ?ds @ []) (length ?sg) (length ?sg + length ?ds - 1) = ?sg @ rev ?ds @ []"
    by (rule swap_loop_rev)
  then show ?thesis
    unfolding itos_def Let_def by (simp add: buf del: itos_digits.simps swap_loop.simps cong: if_cong)
qed

text \<open>
  Printing and reading numbers. For every integer, \<open>stoi\<close> in base 10 reads back what
  \<open>itos\<close> in base 10 wrote, sign included; in bases the routine does not support \<open>itos\<close> writes
  the empty string.
\<close>

lemma stoi_itos_roundtrip:
  "stoi 10 (itos num 10) = num \<and> (base < 2 \<or> base > 36 \<longrightarrow> itos num base = [])"
proof -
  let ?ds = "rev (itos_digits num 10 [])"
  have ne: "?ds \<noteq> [] \<and> hd ?ds \<noteq> CHR ''-''"
  proof -
    have "\<forall>c \<in> set (itos_digits num 10 out). c \<noteq> CHR ''-''" if "CHR ''-'' \<notin> set out" for out
      using that
    proof (induction num "10 :: int" out rule: itos_digits.induct)
      case (1 num out)
      have "char_val (xtox_dictionary ! nat (35 + c_mod num 10)) \<noteq> char_val CHR ''-''"
        using dictionary_digit [OF c_mod_10(1,2), of num] by (simp add: char_val_def [of "CHR ''-''"])
      then have "CHR ''-'' \<notin> set (out @ [xtox_dictionary ! nat (35 + c_mod num 10)])" using 1(2) by auto
      with 1 show ?case by (subst itos_digits.simps) (auto simp: Let_def simp del: itos_digits.simps)
    qed
    then have "\<forall>c \<in> set ?ds. c \<noteq> CHR ''-''" by (metis set_rev list.set(1) empty_iff)
    moreover have "?ds \<noteq> []"
      using itos_digits_append [of "c_div num 10" 10 "[xtox_dictionary ! nat (35 + c_mod num 10)]" "[]"]
      by (subst itos_digits.simps) (simp add: Let_def del: itos_digits.simps)
    ultimately show ?thesis by (metis hd_in_set)
  qed
  have "stoi 10 (itos num 10) = num"
    using ne stoi_itos_digits [of num] unfolding itos_10 stoi_def
    by (cases "num < 0") (simp_all del: itos_digits.simps)
  then show ?thesis by (simp add: itos_def)
qed

end
