(* ===== verification/Path.thy ===== *)
theory Path
  imports CText
begin

text \<open>
  Path handling (\<open>fs/path.cpp\<close>): the \<open>Walker\<close> that splits a path into names, \<open>get_filename\<close>,
  \<open>is_valid\<close>, \<open>count_levels\<close> and \<open>canonize_path\<close>. A path is a string without NUL; \<open>path_at\<close>
  reads its terminator at the end. Buffers are lists of cells. The specification is
  \<open>path_pieces\<close>, the names between the slashes, and a stack of names for \<open>canonize_path\<close>.
\<close>

definition MAX_PATH_LEN :: nat where "MAX_PATH_LEN = 2048"
definition MAX_FILENAME_LEN :: nat where "MAX_FILENAME_LEN = 256"

abbreviation (input) SLASH :: char where "SLASH \<equiv> CHR ''/''"

definition path_at :: "string \<Rightarrow> nat \<Rightarrow> char" where
  "path_at path i = (if i < length path then path ! i else NUL)"

lemma path_at_slash: "path_at path i = SLASH \<Longrightarrow> i < length path"
  by (auto simp: path_at_def NUL_def split: if_splits)

lemma path_at_more: "path_at path i \<noteq> NUL \<Longrightarrow> i < length path"
  by (auto simp: path_at_def split: if_splits)

text \<open>The two inner loops: over slashes and over the characters of a name.\<close>

function skip_slashes :: "string \<Rightarrow> nat \<Rightarrow> nat" where
  "skip_slashes path index = (if path_at path index = SLASH then skip_slashes path (index + 1) else index)"
  by pat_completeness auto

termination
  by (relation "measure (\<lambda>(path, index). length path - index)") (auto dest: path_at_slash)

function skip_name :: "string \<Rightarrow> nat \<Rightarrow> nat" where
  "skip_name path index =
     (if path_at path index \<noteq> NUL \<and> path_at path index \<noteq> SLASH then skip_name path (index + 1) else index)"
  by pat_completeness auto

termination
  by (relation "measure (\<lambda>(path, index). length path - index)") (auto dest: path_at_more)

declare skip_slashes.simps [simp del]
declare skip_name.simps [simp del]

lemma skip_slashes_ge: "index \<le> skip_slashes path index"
proof (induction path index rule: skip_slashes.induct)
  case (1 path index)
  then show ?case by (subst skip_slashes.simps) auto
qed

lemma skip_name_ge: "index \<le> skip_name path index"
proof (induction path index rule: skip_name.induct)
  case (1 path index)
  then show ?case by (subst skip_name.simps) auto
qed

lemma skip_name_gr: "path_at path i \<noteq> NUL \<Longrightarrow> path_at path i \<noteq> SLASH \<Longrightarrow> i < skip_name path i"
  using skip_name_ge [of "i + 1" path] by (subst skip_name.simps) simp

lemma skip_slashes_gr: "path_at path i = SLASH \<Longrightarrow> i < skip_slashes path i"
  using skip_slashes_ge [of "i + 1" path] by (subst skip_slashes.simps) simp

lemma skip_slashes_stop: "path_at path (skip_slashes path i) \<noteq> SLASH"
proof (induction path i rule: skip_slashes.induct)
  case (1 path i)
  then show ?case by (subst skip_slashes.simps) auto
qed

function count_loop :: "string \<Rightarrow> nat \<Rightarrow> nat \<Rightarrow> nat" where
  "count_loop path index cnt =
     (if path_at path index \<noteq> NUL
      then count_loop path (skip_slashes path (skip_name path index)) (cnt + 1) else cnt)"
  by pat_completeness auto

termination
proof (relation "measure (\<lambda>(path, index, cnt). length path - index)", goal_cases)
  case (2 path index cnt)
  have "index < skip_slashes path (skip_name path index)"
  proof (cases "path_at path index = SLASH")
    case True
    then show ?thesis using skip_slashes_gr [of path index] by (simp add: skip_name.simps)
  next
    case False
    then show ?thesis using 2 skip_name_gr [of path index] skip_slashes_ge [of "skip_name path index" path] by simp
  qed
  then show ?case using path_at_more [OF 2] by simp
qed simp

declare count_loop.simps [simp del]

definition count_levels :: "string \<Rightarrow> nat" where
  "count_levels path = count_loop path (skip_slashes path 0) 0"

record walker =
  w_path :: string
  w_index :: nat
  w_too_long :: bool
  w_level :: nat
  w_levels :: nat

definition newWalker :: "string \<Rightarrow> walker" where
  "newWalker path = \<lparr>w_path = path, w_index = 0, w_too_long = False, w_level = 0,
     w_levels = count_levels path\<rparr>"

text \<open>The copy loop of \<open>next\<close>: the name so far and the index; \<open>None\<close> when it is too long.\<close>

function copy_name :: "string \<Rightarrow> nat \<Rightarrow> string \<Rightarrow> (string option \<times> nat)" where
  "copy_name path index buffer =
     (if path_at path index \<noteq> NUL \<and> path_at path index \<noteq> SLASH then
        if length buffer \<ge> MAX_FILENAME_LEN - 1 then (None, index)
        else copy_name path (index + 1) (buffer @ [path_at path index])
      else (Some buffer, index))"
  by pat_completeness auto

termination
  by (relation "measure (\<lambda>(path, index, buffer). length path - index)") (auto dest: path_at_more)

declare copy_name.simps [simp del]

definition walker_next :: "walker \<Rightarrow> string option \<times> walker" where
  "walker_next w =
     (if path_at (w_path w) (w_index w) = NUL \<or> w_too_long w then (None, w)
      else let index = skip_slashes (w_path w) (w_index w)
           in case copy_name (w_path w) index [] of
                (None, i) \<Rightarrow> (None, w\<lparr>w_index := i, w_too_long := True\<rparr>)
              | (Some piece, i) \<Rightarrow>
                  if piece = [] then (None, w\<lparr>w_index := i\<rparr>)
                  else (Some piece, w\<lparr>w_index := i, w_level := w_level w + 1\<rparr>))"

definition isFinal :: "walker \<Rightarrow> bool" where
  "isFinal w \<longleftrightarrow> w_level w = w_levels w"

fun last_slash :: "string \<Rightarrow> nat \<Rightarrow> nat \<Rightarrow> nat" where
  "last_slash [] i p = p"
| "last_slash (c # cs) i p = last_slash cs (i + 1) (if c = SLASH then i + 1 else p)"

text \<open>\<open>get_filename\<close>: the caller's buffer afterwards, or the path itself for paths of at most
  one character.\<close>

definition get_filename :: "char list \<Rightarrow> string \<Rightarrow> int \<Rightarrow> (char list + string) res" where
  "get_filename buffer path num =
     (let len = length path
      in if len \<le> 1 then Inr (Inr path)
         else let len = (if path_at path (len - 1) = SLASH then len - 1 else len);
                  p = last_slash (take len path) 0 0
              in res_bind (strncpy buffer 0 (cstr (drop p path)) (word_of_int (min num (int (len - p) + 1))))
                   (\<lambda>buffer. Inr (Inl buffer)))"

definition check_length :: "string \<Rightarrow> bool" where
  "check_length path \<longleftrightarrow> length path + 1 < MAX_PATH_LEN"

definition ends_with_slash :: "string \<Rightarrow> bool res" where
  "ends_with_slash path =
     (if path = [] then Inl OutOfBounds else Inr (path_at path (length path - 1) = SLASH))"

text \<open>The nested loops of \<open>is_valid\<close> as one: \<open>chars\<close> is \<open>chars_this_piece\<close>.\<close>

function valid_loop :: "string \<Rightarrow> nat \<Rightarrow> nat \<Rightarrow> bool" where
  "valid_loop path index chars =
     (if path_at path index = NUL then True
      else if path_at path index \<noteq> SLASH then
        (if chars \<ge> MAX_FILENAME_LEN - 1 then False else valid_loop path (index + 1) (chars + 1))
      else valid_loop path (skip_slashes path index) chars)"
  by pat_completeness auto

termination
proof (relation "measure (\<lambda>(path, index, chars). length path - index)", goal_cases)
  case (3 path index chars)
  then show ?case using skip_slashes_gr [of path index] path_at_slash [of path index] by auto
qed (auto dest: path_at_more)

declare valid_loop.simps [simp del]

definition is_valid :: "string \<Rightarrow> bool" where
  "is_valid path =
     (if \<not> check_length path then False
      else if path_at path 0 \<noteq> SLASH then False
      else valid_loop path (skip_slashes path 1) 0)"

fun back_to_slash :: "char list \<Rightarrow> nat \<Rightarrow> nat res" where
  "back_to_slash buf 0 = Inr 0"
| "back_to_slash buf (Suc n) =
     res_bind (cell_get buf (Suc n)) (\<lambda>c. if c \<noteq> SLASH then back_to_slash buf n else Inr (Suc n))"

text \<open>One name in \<open>canonize_path\<close>: the buffer and the index afterwards, \<open>None\<close> for the null
  pointer. \<open>limit\<close> is \<open>buffer_len\<close> after its decrement.\<close>

definition canon_piece :: "nat \<Rightarrow> string \<Rightarrow> char list \<Rightarrow> nat \<Rightarrow> (char list \<times> nat) option res" where
  "canon_piece limit piece buf index =
     res_bind (strcmp (cstr piece) (cstr ''.'')) (\<lambda>dot.
     res_bind (strcmp (cstr piece) (cstr ''..'')) (\<lambda>dotdot.
       if dot = 0 then Inr (Some (buf, index))
       else if dotdot = 0 then
         res_bind (back_to_slash buf index) (\<lambda>index.
           if index = 0 then Inr (Some (buf, index))
           else res_bind (cell_set buf index NUL) (\<lambda>buf. Inr (Some (buf, index))))
       else if index + length piece \<ge> limit then Inr None
       else res_bind (cell_set buf index SLASH) (\<lambda>buf.
            res_bind (strncpy buf (index + 1) (cstr piece) (word_of_nat MAX_PATH_LEN)) (\<lambda>buf.
            res_bind (cell_set buf (index + 1 + length piece) NUL) (\<lambda>buf.
              Inr (Some (buf, index + 1 + length piece)))))))"


text \<open>Every name the walker returns moves its index on.\<close>

lemma copy_name_ge: "snd (copy_name path index buffer) \<ge> index + (length (the (fst (copy_name path index buffer))) - length buffer)
    \<or> fst (copy_name path index buffer) = None"
proof (induction path index buffer rule: copy_name.induct)
  case (1 path index buffer)
  then show ?case by (subst (1 2 3) copy_name.simps) auto
qed

lemma walker_next_moves:
  "walker_next w = (Some piece, w') \<Longrightarrow> w_path w' = w_path w \<and> w_index w < w_index w' \<and> w_index w < length (w_path w)"
proof -
  assume a: "walker_next w = (Some piece, w')"
  then have more: "w_index w < length (w_path w)"
    by (auto simp: walker_next_def split: if_splits intro: path_at_more)
  let ?i = "skip_slashes (w_path w) (w_index w)"
  from a have c: "copy_name (w_path w) ?i [] = (Some piece, w_index w')" "piece \<noteq> []" "w_path w' = w_path w"
    by (auto simp: walker_next_def Let_def split: if_splits prod.splits option.splits)
  then have "?i + length piece \<le> w_index w'" using copy_name_ge [where path = "w_path w" and index = ?i and buffer = "[]"] by simp
  moreover have "w_index w \<le> ?i" by (rule skip_slashes_ge)
  ultimately show ?thesis using c(2,3) more by (cases piece) auto
qed

function canon_loop :: "nat \<Rightarrow> walker \<Rightarrow> char list \<Rightarrow> nat \<Rightarrow> (char list \<times> nat) option res" where
  "canon_loop limit w buf index =
     (case walker_next w of
        (None, _) \<Rightarrow> Inr (Some (buf, index))
      | (Some piece, w') \<Rightarrow>
          res_bind (canon_piece limit piece buf index) (\<lambda>r. case r of
            None \<Rightarrow> Inr None
          | Some (buf, index) \<Rightarrow> canon_loop limit w' buf index))"
  by pat_completeness auto

termination
  by (relation "measure (\<lambda>(limit, w, buf, index). length (w_path w) - w_index w)")
    (auto dest: walker_next_moves [OF sym])

declare canon_loop.simps [simp del]

text \<open>The buffer before the walk: the base path in front of a relative path.\<close>

definition canon_start :: "string \<Rightarrow> string \<Rightarrow> char list \<Rightarrow> (char list \<times> nat) option res" where
  "canon_start path base_path buf =
     (if base_path \<noteq> [] \<and> path_at path 0 \<noteq> SLASH then
        if length base_path > length buf - 1 then Inr None
        else res_bind (memcpy buf 0 base_path 0 (length base_path)) (\<lambda>buf.
             res_bind (cell_set buf (length base_path) NUL) (\<lambda>buf.
             res_bind (cell_get buf (length base_path - 1)) (\<lambda>c.
               Inr (Some (buf, if c = SLASH then length base_path - 1 else length base_path)))))
      else Inr (Some (buf, 0)))"

text \<open>The buffer is the caller's, of \<open>buffer_len\<close> cells.\<close>

definition canonize_path :: "string \<Rightarrow> string \<Rightarrow> char list \<Rightarrow> char list option res" where
  "canonize_path path base_path buffer =
     (if length buffer < 2 then Inr None
      else let limit = length buffer - 1; buf = buffer[0 := SLASH, 1 := NUL, limit := NUL]
           in res_bind (canon_start path base_path buf) (\<lambda>r. case r of
                None \<Rightarrow> Inr None
              | Some (buf, index) \<Rightarrow>
                  res_bind (canon_loop limit (newWalker path) buf index) (\<lambda>r. case r of
                    None \<Rightarrow> Inr None
                  | Some (buf, index) \<Rightarrow>
                      res_bind (ends_with_slash path) (\<lambda>sl.
                        if sl then
                          if index \<ge> limit then Inr None
                          else res_bind (cell_set buf index SLASH) (\<lambda>buf.
                               res_bind (cell_set buf (index + 1) NUL) (\<lambda>buf. Inr (Some buf)))
                        else Inr (Some buf)))))"

subsection \<open>The names of a path\<close>

function path_pieces :: "string \<Rightarrow> string list" where
  "path_pieces s =
     (let r = dropWhile (\<lambda>c. c = SLASH) s
      in if r = [] then [] else takeWhile (\<lambda>c. c \<noteq> SLASH) r # path_pieces (dropWhile (\<lambda>c. c \<noteq> SLASH) r))"
  by pat_completeness auto

termination
proof (relation "measure length", goal_cases)
  case (2 s r)
  then have "hd r \<noteq> SLASH" by (metis (mono_tags, lifting) hd_dropWhile)
  then have "length (dropWhile (\<lambda>c. c \<noteq> SLASH) r) < length r"
    using 2(2) by (cases r) (auto simp: length_dropWhile_le le_imp_less_Suc)
  then show ?case using 2(1) length_dropWhile_le [of "\<lambda>c. c = SLASH" s] by simp
qed simp

declare path_pieces.simps [simp del]

lemma drop_nth_Cons: "i < length xs \<Longrightarrow> drop i xs = xs ! i # drop (Suc i) xs"
  by (simp add: Cons_nth_drop_Suc)

lemma skip_slashes_drop:
  "i \<le> length path \<Longrightarrow> drop (skip_slashes path i) path = dropWhile (\<lambda>c. c = SLASH) (drop i path)
     \<and> skip_slashes path i \<le> length path"
proof (induction path i rule: skip_slashes.induct)
  case (1 path i)
  show ?case
  proof (cases "path_at path i = SLASH")
    case True
    with path_at_slash [OF True] 1(1) [OF True] show ?thesis
      by (subst (1 2) skip_slashes.simps) (simp add: drop_nth_Cons path_at_def)
  next
    case False
    then show ?thesis using 1(2)
      by (cases "i < length path") (simp_all add: skip_slashes.simps drop_nth_Cons path_at_def)
  qed
qed

lemma path_at_NUL: "NUL \<notin> set path \<Longrightarrow> path_at path i = NUL \<longleftrightarrow> \<not> i < length path"
  unfolding path_at_def by (metis nth_mem)

lemma path_at_end:
  "NUL \<notin> set path \<Longrightarrow> \<not> (path_at path i \<noteq> NUL \<and> path_at path i \<noteq> SLASH) \<Longrightarrow>
     i < length path \<Longrightarrow> path ! i = SLASH"
  using path_at_NUL [of path i] by (auto simp: path_at_def)

lemma skip_name_drop:
  "i \<le> length path \<Longrightarrow> NUL \<notin> set path \<Longrightarrow>
     drop (skip_name path i) path = dropWhile (\<lambda>c. c \<noteq> SLASH) (drop i path)
     \<and> skip_name path i \<le> length path"
proof (induction path i rule: skip_name.induct)
  case (1 path i)
  show ?case
  proof (cases "path_at path i \<noteq> NUL \<and> path_at path i \<noteq> SLASH")
    case True
    then have i: "i < length path" using path_at_more by blast
    then have "path ! i \<noteq> SLASH" using True by (simp add: path_at_def)
    note i = i this
    have "skip_name path i = skip_name path (i + 1)" using True by (subst skip_name.simps) simp
    then show ?thesis using 1(1) [OF True _ 1(3)] i by (simp add: drop_nth_Cons)
  next
    case False
    then have "skip_name path i = i" by (subst skip_name.simps) auto
    then show ?thesis using 1(2) path_at_end [OF 1(3) False]
      by (cases "i < length path") (simp_all add: drop_nth_Cons)
  qed
qed

lemma copy_name_spec:
  "i \<le> length path \<Longrightarrow> NUL \<notin> set path \<Longrightarrow> length buffer \<le> 255 \<Longrightarrow>
     copy_name path i buffer =
       (let p = takeWhile (\<lambda>c. c \<noteq> SLASH) (drop i path)
        in if length buffer + length p \<le> 255 then (Some (buffer @ p), i + length p)
           else (None, i + (255 - length buffer)))"
proof (induction path i buffer rule: copy_name.induct)
  case (1 path i buffer)
  show ?case
  proof (cases "path_at path i \<noteq> NUL \<and> path_at path i \<noteq> SLASH")
    case True
    then have i: "i < length path" using path_at_more by blast
    show ?thesis
    proof (cases "length buffer = 255")
      case True
      then show ?thesis using \<open>path_at path i \<noteq> NUL \<and> path_at path i \<noteq> SLASH\<close> i
        by (subst copy_name.simps) (simp add: MAX_FILENAME_LEN_def drop_nth_Cons path_at_def)
    next
      case False
      then have "\<not> MAX_FILENAME_LEN - 1 \<le> length buffer" using 1(4) by (simp add: MAX_FILENAME_LEN_def)
      with True 1(1) [OF True this] i 1(3,4) False show ?thesis
        by (subst copy_name.simps) (auto simp: drop_nth_Cons path_at_def Let_def)
    qed
  next
    case False
    then have "copy_name path i buffer = (Some buffer, i)" by (subst copy_name.simps) auto
    then show ?thesis using 1(2,4) path_at_end [OF 1(3) False]
      by (cases "i < length path") (simp_all add: drop_nth_Cons)
  qed
qed


text \<open>\<open>next\<close> returns the first name of what is left of the path.\<close>

lemma walker_next_spec:
  assumes "w_index w \<le> length (w_path w)" "NUL \<notin> set (w_path w)" "\<not> w_too_long w"
    and r: "r = dropWhile (\<lambda>c. c = SLASH) (drop (w_index w) (w_path w))"
    and p: "p = takeWhile (\<lambda>c. c \<noteq> SLASH) r" and short: "length p \<le> 255"
  shows "if r = [] then fst (walker_next w) = None
     else \<exists>i. walker_next w = (Some p, w\<lparr>w_index := i, w_level := w_level w + 1\<rparr>)
          \<and> i \<le> length (w_path w) \<and> drop i (w_path w) = dropWhile (\<lambda>c. c \<noteq> SLASH) r \<and> p \<noteq> []
          \<and> w_index w + length p \<le> i
          \<and> (w_index w < length (w_path w) \<and> w_path w ! w_index w = SLASH \<longrightarrow> w_index w + length p < i)"
proof -
  let ?path = "w_path w" and ?j = "skip_slashes (w_path w) (w_index w)"
  have j: "drop ?j ?path = r" "?j \<le> length ?path" "w_index w \<le> ?j"
    using skip_slashes_drop [OF assms(1)] r skip_slashes_ge by auto
  have cn: "copy_name ?path ?j [] = (Some p, ?j + length p)"
    using copy_name_spec [OF j(2) assms(2), of "[]"] p short j(1) by (simp add: Let_def)
  show ?thesis
  proof (cases "r = []")
    case True
    then show ?thesis using cn p by (simp add: walker_next_def Let_def)
  next
    case False
    have "hd r \<noteq> SLASH" using False r by (metis (mono_tags, lifting) hd_dropWhile)
    then have pne: "p \<noteq> []" using False p by (cases r) auto
    have "w_index w < length ?path" using False r assms(1) by (cases "w_index w = length ?path") auto
    then have "path_at ?path (w_index w) \<noteq> NUL" using path_at_NUL [OF assms(2)] by simp
    then have nx: "walker_next w = (Some p, w\<lparr>w_index := ?j + length p, w_level := w_level w + 1\<rparr>)"
      using assms(3) cn pne by (simp add: walker_next_def Let_def)
    have "drop (?j + length p) ?path = drop (length p) r" using j(1) by (simp add: add.commute flip: drop_drop)
    also have "\<dots> = dropWhile (\<lambda>c. c \<noteq> SLASH) r" unfolding p by (simp add: dropWhile_eq_drop)
    finally have d: "drop (?j + length p) ?path = dropWhile (\<lambda>c. c \<noteq> SLASH) r" .
    have "length p \<le> length r" unfolding p by (rule length_takeWhile_le)
    moreover have "length r = length ?path - ?j" using j(1) by auto
    ultimately have le: "?j + length p \<le> length ?path" using j(2) by linarith
    have "w_index w < ?j" if "w_index w < length ?path" "?path ! w_index w = SLASH"
      using that skip_slashes_gr [of ?path "w_index w"] by (simp add: path_at_def)
    then show ?thesis using False nx d le pne j(3) by auto
  qed
qed

text \<open>The names still ahead of the walker.\<close>

definition ahead :: "walker \<Rightarrow> string list" where
  "ahead w = path_pieces (drop (w_index w) (w_path w))"

fun walk_all :: "nat \<Rightarrow> walker \<Rightarrow> string list" where
  "walk_all 0 w = []"
| "walk_all (Suc n) w = (case walker_next w of (None, _) \<Rightarrow> [] | (Some p, w') \<Rightarrow> p # walk_all n w')"

definition walker_ok :: "walker \<Rightarrow> bool" where
  "walker_ok w \<longleftrightarrow> w_index w \<le> length (w_path w) \<and> NUL \<notin> set (w_path w) \<and> \<not> w_too_long w
     \<and> (\<forall>p \<in> set (ahead w). length p \<le> 255)"

lemma walker_step:
  assumes "walker_ok w"
  shows "case ahead w of [] \<Rightarrow> fst (walker_next w) = None
    | p # ps \<Rightarrow> \<exists>i. walker_next w = (Some p, w\<lparr>w_index := i, w_level := w_level w + 1\<rparr>)
         \<and> walker_ok (w\<lparr>w_index := i, w_level := w_level w + 1\<rparr>)
         \<and> ahead (w\<lparr>w_index := i, w_level := w_level w + 1\<rparr>) = ps
         \<and> p \<noteq> [] \<and> SLASH \<notin> set p \<and> NUL \<notin> set p \<and> w_index w + length p \<le> i
         \<and> (w_index w < length (w_path w) \<and> w_path w ! w_index w = SLASH \<longrightarrow> w_index w + length p < i)
         \<and> (i < length (w_path w) \<longrightarrow> w_path w ! i = SLASH)"
proof -
  define r where "r = dropWhile (\<lambda>c. c = SLASH) (drop (w_index w) (w_path w))"
  define p where "p = takeWhile (\<lambda>c. c \<noteq> SLASH) r"
  define q where "q = dropWhile (\<lambda>c. c \<noteq> SLASH) r"
  have ok: "w_index w \<le> length (w_path w)" "NUL \<notin> set (w_path w)" "\<not> w_too_long w"
    "\<forall>p \<in> set (ahead w). length p \<le> 255" using assms by (simp_all add: walker_ok_def)
  have ah: "ahead w = (if r = [] then [] else p # path_pieces q)"
    unfolding ahead_def r_def p_def q_def by (subst path_pieces.simps) (simp add: Let_def)
  have short: "length p \<le> 255" if "r \<noteq> []" using ok(4) ah that by simp
  show ?thesis
  proof (cases "r = []")
    case True
    then have "p = []" by (simp add: p_def)
    then show ?thesis using walker_next_spec [OF ok(1-3) r_def p_def] True ah by simp
  next
    case False
    obtain i where i: "walker_next w = (Some p, w\<lparr>w_index := i, w_level := w_level w + 1\<rparr>)"
      "i \<le> length (w_path w)" "drop i (w_path w) = q" "p \<noteq> []" "w_index w + length p \<le> i"
      "w_index w < length (w_path w) \<and> w_path w ! w_index w = SLASH \<longrightarrow> w_index w + length p < i"
      using walker_next_spec [OF ok(1-3) r_def p_def short [OF False]] False unfolding q_def by auto
    let ?w = "w\<lparr>w_index := i, w_level := w_level w + 1\<rparr>"
    have "ahead ?w = path_pieces q" using i(3) by (simp add: ahead_def)
    then have "walker_ok ?w" using ok i(2) ah False by (simp add: walker_ok_def)
    moreover have "SLASH \<notin> set p" unfolding p_def by (auto dest: set_takeWhileD)
    moreover have "NUL \<notin> set p"
      using ok(2) unfolding p_def r_def by (meson in_set_dropD set_dropWhileD set_takeWhileD)
    moreover have "w_path w ! i = SLASH" if "i < length (w_path w)"
    proof -
      have "hd q = w_path w ! i" "q \<noteq> []" using that i(3) by (auto simp: hd_drop_conv_nth)
      then show ?thesis unfolding q_def by (metis (mono_tags, lifting) hd_dropWhile)
    qed
    ultimately show ?thesis using i ah False \<open>ahead ?w = path_pieces q\<close> by auto
  qed
qed

lemma walk_all_ahead: "walker_ok w \<Longrightarrow> length (ahead w) \<le> n \<Longrightarrow> walk_all n w = take n (ahead w)"
proof (induction n arbitrary: w)
  case (Suc n)
  show ?case
  proof (cases "ahead w")
    case Nil
    then show ?thesis using walker_step [OF Suc.prems(1)] by (auto split: prod.splits option.splits)
  next
    case (Cons p ps)
    then show ?thesis using walker_step [OF Suc.prems(1)] Suc.IH Suc.prems(2) by auto
  qed
qed simp


subsection \<open>Canonical paths as stacks of names\<close>

definition render :: "string list \<Rightarrow> string" where
  "render ps = concat (map (\<lambda>p. SLASH # p) ps)"

definition push_name :: "string list \<Rightarrow> string \<Rightarrow> string list" where
  "push_name st p = (if p = ''.'' then st else if p = ''..'' then butlast st else st @ [p])"

definition good_name :: "string \<Rightarrow> bool" where
  "good_name p \<longleftrightarrow> p \<noteq> [] \<and> SLASH \<notin> set p \<and> NUL \<notin> set p"

definition c_string :: "char list \<Rightarrow> string" where
  "c_string buf = takeWhile (\<lambda>c. c \<noteq> NUL) buf"

text \<open>
  The stack is not all that is left of a path. When it runs empty, the last name popped stays in the buffer, and a base that ends with a
  slash keeps it until the first name: \<open>canon_names\<close> computes the stack, the text the buffer shows when the stack is empty, and whether
  the slash of the base is still there; \<open>None\<close> when a name does not fit the buffer.
\<close>

type_synonym canon_state = "string list \<times> string \<times> bool"

fun canon_name :: "nat \<Rightarrow> canon_state \<Rightarrow> string \<Rightarrow> canon_state option" where
  "canon_name limit (ps, g, sl) p =
     (if p = ''.'' then Some (ps, g, sl)
      else if p = ''..'' then Some (if sl then ps else butlast ps, if length ps = 1 \<and> \<not> sl then render ps else g, False)
      else if length (render ps) + length p + 1 \<le> limit then Some (ps @ [p], g, False) else None)"

fun canon_names :: "nat \<Rightarrow> canon_state \<Rightarrow> string list \<Rightarrow> canon_state option" where
  "canon_names limit c [] = Some c"
| "canon_names limit c (p # ps) = (case canon_name limit c p of None \<Rightarrow> None | Some c \<Rightarrow> canon_names limit c ps)"

text \<open>The canonical text of a path in a buffer of \<open>n\<close> cells, with a base of the names \<open>bps\<close> and a slash at its end or not.\<close>

definition base_text :: "string list \<Rightarrow> bool \<Rightarrow> string" where
  "base_text bps sl = render bps @ (if sl then ''/'' else [])"

definition canon_text :: "string \<Rightarrow> string list \<Rightarrow> bool \<Rightarrow> nat \<Rightarrow> string option" where
  "canon_text path bps sl n =
     (let relative = path ! 0 \<noteq> SLASH in
      if n < 2 \<or> relative \<and> length (base_text bps sl) > n - 1 then None
      else case canon_names (n - 1) (if relative then (bps, ''/'', sl \<and> bps \<noteq> []) else ([], ''/'', False)) (path_pieces path) of
        None \<Rightarrow> None
      | Some (ps, g, sl) \<Rightarrow>
          if last path = SLASH then if length (render ps) \<ge> n - 1 then None else Some (render ps @ ''/'')
          else Some (if ps = [] then g else base_text ps sl))"

fun canon_inv :: "nat \<Rightarrow> canon_state \<Rightarrow> char list \<Rightarrow> nat \<Rightarrow> bool" where
  "canon_inv limit (ps, g, sl) buf index \<longleftrightarrow> length buf = limit + 1 \<and> index = length (render ps) \<and> index \<le> limit
     \<and> take index buf = render ps \<and> (\<forall>p \<in> set ps. good_name p)
     \<and> (if ps = [] then \<not> sl \<and> length g \<le> limit \<and> take (length g) buf = g \<and> buf ! length g = NUL \<and> NUL \<notin> set g
        else if sl then index < limit \<and> buf ! index = SLASH \<and> buf ! (index + 1) = NUL else buf ! index = NUL)"

lemma NUL_not_SLASH [simp]: "NUL \<noteq> SLASH" "SLASH \<noteq> NUL"
  by (simp_all add: NUL_def)

lemma render_snoc [simp]: "render (ps @ [p]) = render ps @ SLASH # p" "render [] = []"
  by (simp_all add: render_def)

lemma render_no_NUL: "\<forall>p \<in> set ps. good_name p \<Longrightarrow> NUL \<notin> set (render ps)"
  by (auto simp: render_def good_name_def)

lemma back_to_slash_spec:
  "a + k < length buf \<Longrightarrow> (\<And>j. a < j \<Longrightarrow> j \<le> a + k \<Longrightarrow> buf ! j \<noteq> SLASH) \<Longrightarrow> a = 0 \<or> buf ! a = SLASH \<Longrightarrow>
     back_to_slash buf (a + k) = Inr a"
proof (induction k)
  case 0
  then show ?case by (cases a) auto
qed auto

lemma canon_dotdot:
  "canon_piece limit ''..'' buf index = res_bind (back_to_slash buf index) (\<lambda>index.
     if index = 0 then Inr (Some (buf, index))
     else res_bind (cell_set buf index NUL) (\<lambda>buf. Inr (Some (buf, index))))"
proof -
  have "strcmp (cstr ''..'') (cstr ''.'') \<noteq> Inr 0" "strcmp (cstr ''..'') (cstr ''..'') = Inr 0"
      "\<exists>r. strcmp (cstr ''..'') (cstr ''.'') = Inr r"
    using strcmp_eq_0 [of "''..''" "''.''"] strcmp_eq_0 [of "''..''" "''..''"] by (auto simp: NUL_def)
  then show ?thesis by (auto simp: canon_piece_def)
qed

lemma canon_parent:
  assumes "canon_inv limit (ps, g, sl) buf index"
  shows "\<exists>buf' index'. canon_piece limit ''..'' buf index = Inr (Some (buf', index'))
     \<and> canon_inv limit (if sl then ps else butlast ps, if length ps = 1 \<and> \<not> sl then render ps else g, False) buf' index'"
proof (cases ps rule: rev_cases)
  case Nil
  with assms have "index = 0" by simp
  then show ?thesis unfolding canon_dotdot using assms Nil by auto
next
  case (snoc qs q)
  let ?a = "length (render qs)"
  have inv: "length buf = limit + 1" "index = ?a + Suc (length q)" "index \<le> limit"
      "take index buf = render qs @ SLASH # q" "\<forall>p \<in> set ps. good_name p"
    using assms unfolding snoc by auto
  show ?thesis
  proof (cases sl)
    case True
    then have "buf ! index = SLASH" using assms snoc by auto
    then have "back_to_slash buf index = Inr index" using inv(1-3) by simp
    then show ?thesis unfolding canon_dotdot using assms True inv(1-3) snoc by auto
  next
    case sl: False
    have NUL: "buf ! index = NUL" using assms sl snoc by auto
    have nth: "buf ! j = (render qs @ SLASH # q) ! j" if "j < index" for j
      using inv(4) that by (metis nth_take)
    have "buf ! j \<noteq> SLASH" if lo: "?a < j" and hi: "j \<le> ?a + Suc (length q)" for j
    proof (cases "j = index")
      case True
      then show ?thesis using NUL by simp
    next
      case False
      obtain d where d: "j = ?a + Suc d" using less_imp_Suc_add [OF lo] by auto
      then have "d < length q" using hi False inv(2) by simp
      then have "buf ! j = q ! d" using nth [of j] d inv(2) by (simp add: nth_append)
      moreover have "SLASH \<notin> set q" using inv(5) snoc by (simp add: good_name_def)
      ultimately show ?thesis using \<open>d < length q\<close> by (metis nth_mem)
    qed
    moreover have "buf ! ?a = SLASH" using nth [of ?a] inv(2) by (simp add: nth_append)
    ultimately have bk: "back_to_slash buf index = Inr ?a"
      unfolding inv(2) by (intro back_to_slash_spec) (use inv(1-3) in simp_all)
    have tk: "take ?a buf = render qs" using arg_cong [OF inv(4), of "take ?a"] inv(2) by simp
    show ?thesis
    proof (cases "?a = 0")
      case True
      then have qs: "qs = []" by (cases qs) (auto simp: render_def)
      moreover have "NUL \<notin> set q" using inv(5) snoc by (simp add: good_name_def)
      ultimately show ?thesis unfolding canon_dotdot bk using snoc sl inv NUL by (simp add: Suc_le_eq render_def)
    next
      case False
      have "canon_inv limit (qs, g', False) (buf[?a := NUL]) ?a" for g'
        using inv tk snoc False by auto
      moreover have "length ps \<noteq> 1" using snoc False by auto
      ultimately show ?thesis unfolding canon_dotdot bk using snoc sl False inv(1-3) by simp
    qed
  qed
qed

lemma canon_push:
  assumes "canon_inv limit (ps, g, sl) buf index" "good_name piece" "length piece \<le> 255" "piece \<noteq> ''.''" "piece \<noteq> ''..''"
    and "index + length piece + 1 \<le> limit"
  shows "\<exists>buf' index'. canon_piece limit piece buf index = Inr (Some (buf', index'))
     \<and> canon_inv limit (ps @ [piece], g, False) buf' index'"
proof -
  have g: "NUL \<notin> set piece" using assms(2) by (simp add: good_name_def)
  obtain r1 r2 where cmp: "strcmp (cstr piece) (cstr ''.'') = Inr r1" "r1 \<noteq> 0"
      "strcmp (cstr piece) (cstr ''..'') = Inr r2" "r2 \<noteq> 0"
    using strcmp_eq_0 [OF g, of "''.''"] strcmp_eq_0 [OF g, of "''..''"] assms(4,5) by (auto simp: NUL_def)
  have inv: "length buf = limit + 1" "index = length (render ps)" "take index buf = render ps"
      "\<forall>p \<in> set ps. good_name p"
    using assms(1) by auto
  let ?n = "index + 1 + length piece"
  define rest where "rest = drop ?n buf"
  have rest: "rest \<noteq> []" "length rest = limit + 1 - ?n" using assms(6) inv(1) by (auto simp: rest_def)
  have len: "strncpy_len (int (length piece)) (word_of_nat MAX_PATH_LEN) = int (length piece)"
    using assms(3) by (intro strncpy_len_full) (simp_all add: MAX_PATH_LEN_def)
  have cp: "memcpy_loop (buf[index := SLASH]) (index + 1) (cstr piece) 0 (length piece) =
      Inr (render ps @ SLASH # piece @ rest)"
    using memcpy_loop_spec [of 0 "length piece" "cstr piece" "index + 1" "buf[index := SLASH]"] assms(6) inv
    by (simp add: cstr_def rest_def)
  have set: "cell_set (render ps @ SLASH # piece @ t) ?n NUL = Inr (render ps @ SLASH # piece @ t[0 := NUL])"
    if "t \<noteq> []" for t
    using that inv(2) by (simp add: cell_set_def list_update_append)
  have "strncpy (buf[index := SLASH]) (index + 1) (cstr piece) (word_of_nat MAX_PATH_LEN) =
      Inr (render ps @ SLASH # piece @ rest[0 := NUL])"
    using set [OF rest(1)] by (simp add: strncpy_def g len cp [folded Suc_eq_plus1] Let_def)
  moreover have "cell_set buf index SLASH = Inr (buf[index := SLASH])" using inv(1) assms(6) by simp
  moreover have "\<not> limit \<le> index + length piece" using assms(6) by simp
  ultimately have "canon_piece limit piece buf index = Inr (Some (render ps @ SLASH # piece @ rest[0 := NUL], ?n))"
    using cmp set [of "rest[0 := NUL]"] rest(1) by (simp add: canon_piece_def)
  moreover have "canon_inv limit (ps @ [piece], g, False) (render ps @ SLASH # piece @ rest[0 := NUL]) ?n"
    using inv assms(2,6) rest by (simp add: nth_append)
  ultimately show ?thesis by blast
qed

lemma canon_piece_spec:
  assumes "canon_inv limit c buf index" "good_name piece" "length piece \<le> 255"
  shows "case canon_name limit c piece of None \<Rightarrow> canon_piece limit piece buf index = Inr None
    | Some c' \<Rightarrow> \<exists>buf' index'. canon_piece limit piece buf index = Inr (Some (buf', index')) \<and> canon_inv limit c' buf' index'"
proof -
  obtain ps g sl where c: "c = (ps, g, sl)" by (cases c)
  have index: "index = length (render ps)" using assms(1) c by simp
  consider "piece = ''.''" | "piece = ''..''" | "piece \<noteq> ''.''" "piece \<noteq> ''..''" by blast
  then show ?thesis
  proof cases
    case 1
    then have "strcmp (cstr piece) (cstr ''.'') = Inr 0" "\<exists>r. strcmp (cstr piece) (cstr ''..'') = Inr r"
      using strcmp_eq_0 [of "''.''" "''.''"] strcmp_eq_0 [of "''.''" "''..''"] by (auto simp: NUL_def)
    then show ?thesis using assms(1) 1 c by (auto simp: canon_piece_def)
  next
    case 2
    then show ?thesis using canon_parent [OF assms(1) [unfolded c]] c by (simp del: canon_inv.simps)
  next
    case 3
    show ?thesis
    proof (cases "index + length piece + 1 \<le> limit")
      case True
      then show ?thesis using canon_push [OF assms(1) [unfolded c] assms(2,3) 3 True] 3 c index True by (simp del: canon_inv.simps)
    next
      case False
      have g: "NUL \<notin> set piece" using assms(2) by (simp add: good_name_def)
      obtain r1 r2 where "strcmp (cstr piece) (cstr ''.'') = Inr r1" "r1 \<noteq> 0" "strcmp (cstr piece) (cstr ''..'') = Inr r2" "r2 \<noteq> 0"
        using strcmp_eq_0 [OF g, of "''.''"] strcmp_eq_0 [OF g, of "''..''"] 3 by (auto simp: NUL_def)
      then have "canon_piece limit piece buf index = Inr None" using False by (simp add: canon_piece_def)
      then show ?thesis using 3 c index False by simp
    qed
  qed
qed

lemma canon_loop_spec:
  assumes "walker_ok w" "canon_inv limit c buf index"
  shows "case canon_names limit c (ahead w) of None \<Rightarrow> canon_loop limit w buf index = Inr None
    | Some c' \<Rightarrow> \<exists>buf' index'. canon_loop limit w buf index = Inr (Some (buf', index')) \<and> canon_inv limit c' buf' index'"
  using assms
proof (induction "ahead w" arbitrary: w c buf index)
  case Nil
  then obtain w' where "walker_next w = (None, w')"
    using walker_step [OF Nil(2)] by (cases "walker_next w") auto
  then have "canon_loop limit w buf index = Inr (Some (buf, index))" by (subst canon_loop.simps) simp
  then show ?case using Nil.prems(2) Nil.hyps [symmetric] by simp
next
  case (Cons p rest)
  obtain i where i: "walker_next w = (Some p, w\<lparr>w_index := i, w_level := w_level w + 1\<rparr>)"
      "walker_ok (w\<lparr>w_index := i, w_level := w_level w + 1\<rparr>)"
      "ahead (w\<lparr>w_index := i, w_level := w_level w + 1\<rparr>) = rest" "good_name p"
    using walker_step [OF Cons.prems(1)] Cons.hyps(2) [symmetric] by (auto simp: good_name_def)
  let ?w = "w\<lparr>w_index := i, w_level := w_level w + 1\<rparr>"
  have short: "length p \<le> 255" using Cons.prems(1) Cons.hyps(2) [symmetric] by (simp add: walker_ok_def)
  note piece = canon_piece_spec [OF Cons.prems(2) i(4) short]
  show ?case
  proof (cases "canon_name limit c p")
    case None
    then have "canon_loop limit w buf index = Inr None" using piece by (subst canon_loop.simps) (simp add: i(1))
    then show ?thesis using None Cons.hyps(2) [symmetric] by simp
  next
    case (Some c1)
    then obtain buf1 index1 where c1: "canon_piece limit p buf index = Inr (Some (buf1, index1))" "canon_inv limit c1 buf1 index1"
      using piece by auto
    have eq: "canon_loop limit w buf index = canon_loop limit ?w buf1 index1"
      by (subst canon_loop.simps) (simp add: i(1) c1(1))
    show ?thesis
      unfolding Cons.hyps(2) [symmetric] canon_names.simps Some option.case eq by (rule Cons.hyps(1) [OF i(3) [symmetric] i(2) c1(2), unfolded i(3)])
  qed
qed

text \<open>With a base that does not end in a slash the stack is the fold of the names, and a buffer long enough holds every step.\<close>

lemma canon_names_stack:
  "canon_names limit (ps, g, False) names = Some (ps', g', sl') \<Longrightarrow> ps' = foldl push_name ps names \<and> \<not> sl'"
  by (induction names arbitrary: ps g) (auto simp: push_name_def split: if_splits)

lemma canon_names_room:
  "length (render ps) + sum_list (map (\<lambda>p. length p + 1) names) \<le> limit \<Longrightarrow>
   \<exists>ps' g' sl'. canon_names limit (ps, g, sl) names = Some (ps', g', sl')
     \<and> length (render ps') \<le> length (render ps) + sum_list (map (\<lambda>p. length p + 1) names)"
proof (induction names arbitrary: ps g sl)
  case (Cons p names)
  have "length (render (butlast ps)) \<le> length (render ps)" by (cases ps rule: rev_cases) simp_all
  then have "\<exists>qs h b. canon_name limit (ps, g, sl) p = Some (qs, h, b) \<and> length (render qs) \<le> length (render ps) + length p + 1"
    using Cons.prems by auto
  then obtain qs h b where q: "canon_name limit (ps, g, sl) p = Some (qs, h, b)" "length (render qs) \<le> length (render ps) + length p + 1"
    by blast
  have "length (render qs) + sum_list (map (\<lambda>p. length p + 1) names) \<le> limit" using q(2) Cons.prems by simp
  from Cons.IH [OF this, of h b] q show ?case by (simp del: canon_name.simps) force
qed simp

lemma path_pieces_total: "sum_list (map (\<lambda>p. length p + 1) (path_pieces s)) \<le> length s + (if s \<noteq> [] \<and> hd s \<noteq> SLASH then 1 else 0)"
proof (induction s rule: path_pieces.induct)
  case (1 s)
  let ?r = "dropWhile (\<lambda>c. c = SLASH) s"
  let ?p = "takeWhile (\<lambda>c. c \<noteq> SLASH) ?r" and ?q = "dropWhile (\<lambda>c. c \<noteq> SLASH) ?r"
  show ?case
  proof (cases "?r = []")
    case True
    then show ?thesis by (subst path_pieces.simps) simp
  next
    case False
    have pp: "path_pieces s = ?p # path_pieces ?q" using False by (subst path_pieces.simps) (simp add: Let_def)
    have "\<not> (?q \<noteq> [] \<and> hd ?q \<noteq> SLASH)" using hd_dropWhile [of "\<lambda>c. c \<noteq> SLASH" ?r] by blast
    then have "sum_list (map (\<lambda>p. length p + 1) (path_pieces ?q)) \<le> length ?q" using 1 [OF refl False] by (simp only: if_False)
    moreover have "length ?p + length ?q = length ?r" by (metis length_append takeWhile_dropWhile_id)
    moreover have "length ?r \<le> length s" by (rule length_dropWhile_le)
    moreover have "length ?r < length s" if "s \<noteq> []" "hd s = SLASH"
      using that length_dropWhile_le [of "\<lambda>c. c = SLASH" "tl s"] by (cases s) simp_all
    moreover have "s \<noteq> []" using False by auto
    moreover have "sum_list (map (\<lambda>p. length p + 1) (path_pieces s)) = length ?p + 1 + sum_list (map (\<lambda>p. length p + 1) (path_pieces ?q))"
      unfolding pp by simp
    ultimately show ?thesis by (cases "hd s = SLASH") simp_all
  qed
qed

lemma c_string_prefix: "NUL \<notin> set s \<Longrightarrow> take (length s) buf = s \<Longrightarrow> length s < length buf \<Longrightarrow>
    buf ! length s = NUL \<Longrightarrow> c_string buf = s"
proof -
  assume a: "NUL \<notin> set s" "take (length s) buf = s" "length s < length buf" "buf ! length s = NUL"
  have "buf = s @ NUL # drop (Suc (length s)) buf"
    using a by (metis append_take_drop_id drop_nth_Cons)
  moreover have "takeWhile (\<lambda>c. c \<noteq> NUL) (s @ NUL # t) = s" for t
    using a(1) by (induction s) auto
  ultimately show ?thesis unfolding c_string_def by metis
qed

lemma canon_start_spec:
  assumes "length buf = limit + 1" "buf ! 0 = SLASH" "buf ! 1 = NUL" "1 \<le> limit" "\<forall>p \<in> set bps. good_name p"
  shows "if path_at path 0 \<noteq> SLASH \<and> length (base_text bps sl) > limit then canon_start path (base_text bps sl) buf = Inr None
    else \<exists>buf' index. canon_start path (base_text bps sl) buf = Inr (Some (buf', index))
      \<and> canon_inv limit (if path_at path 0 \<noteq> SLASH then (bps, ''/'', sl \<and> bps \<noteq> []) else ([], ''/'', False)) buf' index"
proof -
  let ?b = "base_text bps sl"
  have top: "canon_inv limit ([], ''/'', False) buf 0" using assms(1-4) by (cases buf) auto
  consider (none) "path_at path 0 = SLASH \<or> ?b = []" | (long) "path_at path 0 \<noteq> SLASH" "?b \<noteq> []" "length ?b > limit"
    | (fits) "path_at path 0 \<noteq> SLASH" "?b \<noteq> []" "\<not> length ?b > limit" by blast
  then show ?thesis
  proof cases
    case none
    then have "bps = [] \<and> \<not> sl \<or> path_at path 0 = SLASH" by (auto simp: base_text_def render_def split: if_splits)
    then show ?thesis using none top by (auto simp: canon_start_def)
  next
    case long
    then show ?thesis using assms(1) by (simp add: canon_start_def)
  next
    case fits
    have cp: "memcpy buf 0 ?b 0 (length ?b) = Inr (?b @ drop (length ?b) buf)"
      using memcpy_spec [of 0 "length ?b" ?b 0 buf] assms(1) fits(3) by simp
    let ?buf = "(?b @ drop (length ?b) buf)[length ?b := NUL]"
    have "0 < length ?b" using fits(2) by simp
    then have "length ?b - 1 < length ?b" "length ?b \<noteq> length ?b - 1" by linarith+
    then have last: "?buf ! (length ?b - 1) = last ?b" using fits(2) by (simp add: nth_append last_conv_nth)
    have run: "canon_start path ?b buf = Inr (Some (?buf, if last ?b = SLASH then length ?b - 1 else length ?b))"
      using fits cp assms(1) last by (simp add: canon_start_def)
    have len: "length ?buf = limit + 1" "?buf ! length ?b = NUL" "take (length ?b) ?buf = ?b" using fits(3) assms(1) by auto
    have "canon_inv limit (bps, ''/'', sl \<and> bps \<noteq> []) ?buf (if last ?b = SLASH then length ?b - 1 else length ?b)"
    proof (cases sl)
      case True
      then have b: "?b = render bps @ ''/''" by (simp add: base_text_def)
      show ?thesis
      proof (cases "bps = []")
        case True
        then show ?thesis using b fits(3) assms(1) by (auto simp: nth_append)
      next
        case False
        then show ?thesis using True b fits(3) assms(1,5) by (auto simp: nth_append)
      qed
    next
      case False
      then have b: "?b = render bps" by (simp add: base_text_def)
      then obtain qs q where bps: "bps = qs @ [q]" using fits(2) by (cases bps rule: rev_cases) auto
      then have "q \<noteq> []" "SLASH \<notin> set q" using assms(5) by (auto simp: good_name_def)
      then have "last ?b \<noteq> SLASH" unfolding b unfolding bps by (auto dest: last_in_set)
      then show ?thesis using False b bps fits(3) assms(1,5) len by auto
    qed
    moreover have "\<not> (path_at path 0 \<noteq> SLASH \<and> length ?b > limit)" using fits(3) by blast
    ultimately show ?thesis unfolding if_P [OF fits(1)] using run by (simp only: if_False) blast
  qed
qed

text \<open>The end of \<open>canonize_path\<close>: the slash of the path, and what the buffer then shows.\<close>

lemma canon_done:
  assumes "canon_inv limit (ps, g, b) buf index" "length buffer = limit + 1"
  shows "if slash then if index \<ge> limit then length (render ps) \<ge> limit
       else \<exists>buf'. res_bind (cell_set buf index SLASH) (\<lambda>buf. res_bind (cell_set buf (index + 1) NUL) (\<lambda>buf. Inr (Some buf))) = Inr (Some buf')
         \<and> length buf' = length buffer \<and> c_string buf' = render ps @ ''/'' \<and> \<not> length (render ps) \<ge> limit
     else length buf = length buffer \<and> c_string buf = (if ps = [] then g else base_text ps b)"
proof -
  have inv: "length buf = limit + 1" "index = length (render ps)" "take index buf = render ps" "\<forall>p \<in> set ps. good_name p"
    using assms(1) by auto
  note noNUL = render_no_NUL [OF inv(4)]
  show ?thesis
  proof (cases slash)
    case False
    have "c_string buf = (if ps = [] then g else base_text ps b)"
    proof (cases "ps = []")
      case True
      then have "c_string buf = g" by (intro c_string_prefix) (use assms(1) inv(1) in auto)
      then show ?thesis using True by simp
    next
      case ps: False
      show ?thesis
      proof (cases b)
        case True
        then have "index < limit" "buf ! index = SLASH" "buf ! (index + 1) = NUL" using assms(1) ps by auto
        then have "c_string buf = render ps @ ''/''"
          by (intro c_string_prefix) (use noNUL inv in \<open>auto simp: take_Suc_conv_app_nth\<close>)
        then show ?thesis using True ps by (simp add: base_text_def)
      next
        case False
        then have "buf ! index = NUL" "index \<le> limit" using assms(1) ps by auto
        then have "c_string buf = render ps" by (intro c_string_prefix) (use noNUL inv in auto)
        then show ?thesis using False ps by (simp add: base_text_def)
      qed
    qed
    then show ?thesis using False inv(1) assms(2) by simp
  next
    case True
    show ?thesis
    proof (cases "index \<ge> limit")
      case False
      then have lt: "index < limit" by simp
      let ?b = "buf[index := SLASH, index + 1 := NUL]"
      have "c_string ?b = render ps @ ''/''"
        by (rule c_string_prefix) (use noNUL inv lt in \<open>auto simp: take_Suc_conv_app_nth\<close>)
      then show ?thesis using True lt inv(1,2) assms(2) by simp
    qed (use True inv(2) in simp)
  qed
qed

lemma canonize_exact:
  assumes "NUL \<notin> set path" "path \<noteq> []" "\<forall>p \<in> set (path_pieces path). length p \<le> 255" "\<forall>p \<in> set bps. good_name p" "2 \<le> length buffer"
  shows "case canon_text path bps sl (length buffer) of
      None \<Rightarrow> canonize_path path (base_text bps sl) buffer = Inr None
    | Some text \<Rightarrow> \<exists>buf. canonize_path path (base_text bps sl) buffer = Inr (Some buf) \<and> length buf = length buffer \<and> c_string buf = text"
proof -
  define limit where "limit = length buffer - 1"
  have limit: "length buffer = limit + 1" "1 \<le> limit" "\<not> length buffer < 2" using assms(5) by (auto simp: limit_def)
  let ?buf = "buffer[0 := SLASH, 1 := NUL, limit := NUL]"
  let ?c = "if path ! 0 \<noteq> SLASH then (bps, ''/'', sl \<and> bps \<noteq> []) else ([], ''/'', False)"
  have buf: "length ?buf = limit + 1" "?buf ! 0 = SLASH" "?buf ! 1 = NUL"
    using limit by (simp_all add: nth_list_update)
  have p0: "path_at path 0 = path ! 0" using assms(2) by (simp add: path_at_def)
  note begins = canon_start_spec [OF buf limit(2) assms(4), of path sl, unfolded p0]
  have lp: "ends_with_slash path = Inr (last path = SLASH)"
    using assms(2) by (simp add: ends_with_slash_def path_at_def last_conv_nth)
  have ref: "canon_text path bps sl (length buffer) = (if path ! 0 \<noteq> SLASH \<and> length (base_text bps sl) > limit then None
      else case canon_names limit ?c (path_pieces path) of None \<Rightarrow> None
        | Some (ps, g, sl) \<Rightarrow> if last path = SLASH then if length (render ps) \<ge> limit then None else Some (render ps @ ''/'')
            else Some (if ps = [] then g else base_text ps sl))"
    unfolding canon_text_def Let_def limit_def [symmetric] using limit(3) by simp
  have code: "canonize_path path (base_text bps sl) buffer = res_bind (canon_start path (base_text bps sl) ?buf) (\<lambda>r. case r of
        None \<Rightarrow> Inr None
      | Some (buf, index) \<Rightarrow> res_bind (canon_loop limit (newWalker path) buf index) (\<lambda>r. case r of
          None \<Rightarrow> Inr None
        | Some (buf, index) \<Rightarrow> if last path = SLASH then
            if index \<ge> limit then Inr None
            else res_bind (cell_set buf index SLASH) (\<lambda>buf. res_bind (cell_set buf (index + 1) NUL) (\<lambda>buf. Inr (Some buf)))
          else Inr (Some buf)))"
    unfolding canonize_path_def Let_def limit_def [symmetric] lp res_bind_simps using limit(3) by (simp only: if_False)
  show ?thesis
  proof (cases "path ! 0 \<noteq> SLASH \<and> length (base_text bps sl) > limit")
    case True
    then show ?thesis unfolding ref code using begins by simp
  next
    case False
    then obtain buf1 index1 where s: "canon_start path (base_text bps sl) ?buf = Inr (Some (buf1, index1))" "canon_inv limit ?c buf1 index1"
      using begins unfolding if_not_P [OF False] by blast
    have ok: "walker_ok (newWalker path)" "ahead (newWalker path) = path_pieces path"
      using assms(1,3) by (simp_all add: walker_ok_def newWalker_def ahead_def)
    note loop = canon_loop_spec [OF ok(1) s(2), unfolded ok(2)]
    show ?thesis
    proof (cases "canon_names limit ?c (path_pieces path)")
      case None
      then have "canon_loop limit (newWalker path) buf1 index1 = Inr None" using loop by simp
      then have "canonize_path path (base_text bps sl) buffer = Inr None" unfolding code s(1) by simp
      moreover have "canon_text path bps sl (length buffer) = None" unfolding ref if_not_P [OF False] None by simp
      ultimately show ?thesis by simp
    next
      case (Some c)
      obtain ps g b where c: "c = (ps, g, b)" by (cases c)
      obtain buf2 index2 where l: "canon_loop limit (newWalker path) buf1 index1 = Inr (Some (buf2, index2))" "canon_inv limit (ps, g, b) buf2 index2"
        using loop unfolding Some c option.case by blast
      note fin = canon_done [OF l(2) limit(1), of "last path = SLASH"]
      show ?thesis unfolding ref code s(1) if_not_P [OF False] Some c using l(1) fin by (auto split: if_splits)
    qed
  qed
qed

lemma canon_text_room:
  assumes "path \<noteq> []" "length (base_text bps sl) + length path + 3 \<le> n"
  shows "canon_text path bps sl n \<noteq> None"
proof -
  let ?c = "if path ! 0 \<noteq> SLASH then (bps, ''/'', sl \<and> bps \<noteq> []) else ([], ''/'', False)"
  obtain qs g0 b0 where c: "?c = (qs, g0, b0)" by (cases ?c)
  have total: "sum_list (map (\<lambda>p. length p + 1) (path_pieces path)) \<le> length path + 1" using path_pieces_total [of path] by (simp split: if_splits)
  have "length (render qs) \<le> length (base_text bps sl)" using c by (auto simp: base_text_def split: if_splits)
  then have room: "length (render qs) + sum_list (map (\<lambda>p. length p + 1) (path_pieces path)) \<le> n - 2" using total assms(2) by linarith
  then have "length (render qs) + sum_list (map (\<lambda>p. length p + 1) (path_pieces path)) \<le> n - 1" by linarith
  from canon_names_room [OF this, of g0 b0] obtain ps g b where names: "canon_names (n - 1) ?c (path_pieces path) = Some (ps, g, b)"
      "length (render ps) \<le> length (render qs) + sum_list (map (\<lambda>p. length p + 1) (path_pieces path))"
    unfolding c by blast
  then have "\<not> length (render ps) \<ge> n - 1" using room assms(2) by linarith
  moreover have "\<not> (n < 2 \<or> path ! 0 \<noteq> SLASH \<and> length (base_text bps sl) > n - 1)" using assms(2) by auto
  ultimately show ?thesis using names(1) by (simp add: canon_text_def Let_def)
qed



text \<open>Where the stack runs empty without a trailing slash the buffer keeps the name that was
  popped, and a base with a trailing slash swallows the first \<open>..\<close>: both results name a
  directory that the path does not denote.\<close>

lemma canonize_parent_of_top:
  "map_sum id (map_option c_string) (canonize_path ''/a/..'' [] (replicate 16 NUL)) = Inr (Some ''/a'')"
  "map_sum id (map_option c_string) (canonize_path ''..'' ''/a/b/'' (replicate 16 NUL)) = Inr (Some ''/a/b'')"
  by code_simp+

subsection \<open>Counting and validating\<close>

lemma count_loop_spec:
  "i \<le> length path \<Longrightarrow> NUL \<notin> set path \<Longrightarrow> path_at path i \<noteq> SLASH \<Longrightarrow>
     count_loop path i n = n + length (path_pieces (drop i path))"
proof (induction path i n rule: count_loop.induct)
  case (1 path i n)
  show ?case
  proof (cases "path_at path i = NUL")
    case True
    then have "drop i path = []" using path_at_NUL [OF 1(3), of i] by simp
    then show ?thesis using True by (simp add: count_loop.simps path_pieces.simps)
  next
    case False
    let ?k = "skip_slashes path (skip_name path i)"
    have n: "skip_name path i \<le> length path" "drop (skip_name path i) path = dropWhile (\<lambda>c. c \<noteq> SLASH) (drop i path)"
      using skip_name_drop [OF 1(2,3)] by blast+
    have k: "?k \<le> length path" "drop ?k path = dropWhile (\<lambda>c. c = SLASH) (drop (skip_name path i) path)"
      using skip_slashes_drop [OF n(1)] by blast+
    have ks: "path_at path ?k \<noteq> SLASH" by (rule skip_slashes_stop)
    have i: "i < length path" "drop i path \<noteq> []" using path_at_more [OF False] by simp_all
    then have "hd (drop i path) \<noteq> SLASH" using 1(4) by (simp add: hd_drop_conv_nth path_at_def)
    then have dw: "dropWhile (\<lambda>c. c = SLASH) (drop i path) = drop i path" using i(2) by (cases "drop i path") auto
    have "path_pieces (dropWhile (\<lambda>c. c = SLASH) s) = path_pieces s" for s
      by (subst (1 2) path_pieces.simps) simp
    then have "length (path_pieces (drop i path)) = Suc (length (path_pieces (drop ?k path)))"
      unfolding k(2) n(2) by (subst path_pieces.simps) (simp add: dw i(1) Let_def not_le)
    moreover have "count_loop path i n = count_loop path ?k (n + 1)"
      using False by (subst count_loop.simps) simp
    ultimately show ?thesis using 1(1) [OF False k(1) 1(3) ks] by simp
  qed
qed

lemma valid_loop_spec:
  "i \<le> length path \<Longrightarrow> NUL \<notin> set path \<Longrightarrow> c \<le> 255 \<Longrightarrow>
     valid_loop path i c \<longleftrightarrow> c + length (filter (\<lambda>x. x \<noteq> SLASH) (drop i path)) \<le> 255"
proof (induction path i c rule: valid_loop.induct)
  case (1 path i c)
  consider "path_at path i = NUL" | "path_at path i \<noteq> NUL" "path_at path i \<noteq> SLASH"
    | "path_at path i \<noteq> NUL" "path_at path i = SLASH" by blast
  then show ?case
  proof cases
    case 1
    then show ?thesis using \<open>c \<le> 255\<close> \<open>NUL \<notin> set path\<close> path_at_NUL [of path i]
      by (subst valid_loop.simps) simp
  next
    case 2
    then have i: "i < length path" "path ! i \<noteq> SLASH" using path_at_more [OF 2(1)] 2(2) by (auto simp: path_at_def)
    show ?thesis
    proof (cases "c \<ge> 255")
      case True
      then show ?thesis using 2 i by (subst valid_loop.simps) (simp add: MAX_FILENAME_LEN_def drop_nth_Cons)
    next
      case False
      then have "\<not> c \<ge> MAX_FILENAME_LEN - 1" by (simp add: MAX_FILENAME_LEN_def)
      with 2 i False \<open>NUL \<notin> set path\<close> "1.IH"(1) [OF 2(1,2)] show ?thesis
        by (subst valid_loop.simps) (simp add: drop_nth_Cons)
    qed
  next
    case 3
    let ?k = "skip_slashes path i"
    have k: "?k \<le> length path" "drop ?k path = dropWhile (\<lambda>c. c = SLASH) (drop i path)"
      using skip_slashes_drop [OF 1(3)] by blast+
    have "filter (\<lambda>x. x \<noteq> SLASH) (dropWhile (\<lambda>c. c = SLASH) s) = filter (\<lambda>x. x \<noteq> SLASH) s" for s
      by (induction s) auto
    moreover have "valid_loop path i c = valid_loop path ?k c" using 3 by (subst valid_loop.simps) simp
    ultimately show ?thesis using "1.IH"(2) [OF 3(1)] 3(2) k 1(4,5) by simp
  qed
qed

lemma path_pieces_length: "length (path_pieces s) \<le> length s"
proof (induction s rule: path_pieces.induct)
  case (1 s)
  let ?r = "dropWhile (\<lambda>c. c = SLASH) s"
  show ?case
  proof (cases "?r = []")
    case False
    then have "hd ?r \<noteq> SLASH" by (metis (mono_tags, lifting) hd_dropWhile)
    then have "length (dropWhile (\<lambda>c. c \<noteq> SLASH) ?r) < length ?r"
      using False by (cases ?r) (auto simp: length_dropWhile_le le_imp_less_Suc)
    moreover have "length ?r \<le> length s" by (rule length_dropWhile_le)
    ultimately show ?thesis using 1 [OF refl False] False by (subst path_pieces.simps) (simp add: Let_def)
  qed (subst path_pieces.simps, simp)
qed

lemma count_levels_pieces:
  assumes "NUL \<notin> set path"
  shows "count_levels path = length (path_pieces path)"
proof -
  have k: "skip_slashes path 0 \<le> length path" "drop (skip_slashes path 0) path = dropWhile (\<lambda>c. c = SLASH) path"
    using skip_slashes_drop [of 0 path] by auto
  have "path_pieces (dropWhile (\<lambda>c. c = SLASH) path) = path_pieces path"
    by (subst (1 2) path_pieces.simps) simp
  then show ?thesis
    using count_loop_spec [OF k(1) assms skip_slashes_stop, of 0] k(2) by (simp add: count_levels_def)
qed

text \<open>
  \<open>Walker\<close> and \<open>count_levels\<close>. For a path whose names fit, walking with \<open>next\<close> yields
  exactly the names between the slashes, in order, and then stops; \<open>count_levels\<close> is their
  number, so that \<open>isFinal\<close> holds after the last one.
\<close>

lemma walker_enumerates_names:
  assumes "NUL \<notin> set path" "\<forall>p \<in> set (path_pieces path). length p \<le> 255"
  shows "walk_all (Suc (length path)) (newWalker path) = path_pieces path
    \<and> count_levels path = length (path_pieces path)
    \<and> w_levels (newWalker path) = length (walk_all (Suc (length path)) (newWalker path))"
proof -
  have ok: "walker_ok (newWalker path)" "ahead (newWalker path) = path_pieces path"
    using assms by (simp_all add: walker_ok_def newWalker_def ahead_def)
  have "length (path_pieces path) \<le> Suc (length path)" using path_pieces_length [of path] by simp
  then have w: "walk_all (Suc (length path)) (newWalker path) = path_pieces path"
    using walk_all_ahead [OF ok(1), of "Suc (length path)"] ok(2) by simp
  with w count_levels_pieces [OF assms(1)] show ?thesis by (simp add: newWalker_def)
qed

text \<open>
  \<open>is_valid\<close> bounds the whole path by \<open>MAX_FILENAME_LEN\<close>. A path is accepted exactly when
  it fits \<open>MAX_PATH_LEN\<close>, starts with a slash and the lengths of all its names \<^emph>\<open>together\<close> are at
  most 255, because \<open>chars_this_piece\<close> is not reset between names; the limit the walker applies
  is 255 for each name.
\<close>

lemma is_valid_total_length:
  assumes "NUL \<notin> set path"
  shows "is_valid path \<longleftrightarrow> length path < 2047 \<and> path \<noteq> [] \<and> hd path = SLASH
    \<and> length (filter (\<lambda>c. c \<noteq> SLASH) path) \<le> 255"
proof (cases "path \<noteq> [] \<and> hd path = SLASH")
  case False
  then have "path_at path 0 \<noteq> SLASH" by (auto simp: path_at_def hd_conv_nth)
  with False show ?thesis by (auto simp: is_valid_def)
next
  case True
  then obtain rest where path: "path = SLASH # rest" by (cases path) auto
  have k: "skip_slashes path 1 \<le> length path" "drop (skip_slashes path 1) path = dropWhile (\<lambda>c. c = SLASH) rest"
    using skip_slashes_drop [of 1 path] path by auto
  have "filter (\<lambda>x. x \<noteq> SLASH) (dropWhile (\<lambda>c. c = SLASH) s) = filter (\<lambda>x. x \<noteq> SLASH) s" for s
    by (induction s) auto
  then show ?thesis
    using valid_loop_spec [OF k(1) assms, of 0] k(2) path
    by (auto simp: is_valid_def check_length_def MAX_PATH_LEN_def path_at_def)
qed

end
