(* ===== verification/Errno.thy ===== *)
theory Errno
  imports Prelude
begin

text \<open>
  Error codes (\<open>include/aex/errno.hpp\<close>, \<open>kernel/errno.cpp\<close>) and \<open>optional<T>\<close>, the result type
  of fallible calls: \<open>'a optional\<close> is either the error code or the value. The enumeration's
  values are their positions, and \<open>error_names\<close> is the table indexed by them, with null
  entries behind the last name up to its 128 slots.
\<close>

datatype error_t =
    ENONE | E2BIG | EACCES | EADDRINUSE | EADDRNOTAVAIL | EAGAIN
  | EBADF | EBADMSG | EBOTHER | EBUSY | ECANCELED | ECHILD
  | ECONNABORTED | ECONNREFUSED | ECONNRESET | EDEADLK | EDESTADDRREQ | EDOM
  | EDQUOT | EEXIST | EFAULT | EFBIG | EHOSTUNREACH | EIDRM
  | EILSEQ | EINPROGRESS | EINTR | EINVAL | EIO | EISCONN
  | EISDIR | ELOOP | EMFILE | EMLINK | EMSGSIZE | EMULTIHOP
  | ENAMETOOLONG | ENETDOWN | ENETRESET | ENETUNREACH | ENFILE | ENOBUFS
  | ENODATA | ENODEV | ENOENT | ENOEXEC | ENOLINK | ENOMEM
  | ENOMSG | ENOPROTOOPT | ENOSPC | ENOSR | ENOSTR | ENOSYS
  | ENOTBLK | ENOTCONN | ENOTDIR | ENOTEMPTY | ENOTRECOVERABLE | ENOTSOCK
  | ENOTSUP | ENOTTY | ENXIO | EOPNOTSUPP | EOVERFLOW | EOWNERDEAD
  | EPERM | EPIPE | EPROTO | EPROTONOSUPPORT | EPROTOTYPE | ERANGE
  | EROFS | ESPIPE | ESHUTDOWN | ESOCKTNOSUPPORT | ESRCH | ETIMEDOUT

type_synonym 'a optional = "error_t + 'a"

definition error_list :: "error_t list" where
  "error_list = [ENONE, E2BIG, EACCES, EADDRINUSE, EADDRNOTAVAIL, EAGAIN, EBADF,
     EBADMSG, EBOTHER, EBUSY, ECANCELED, ECHILD, ECONNABORTED, ECONNREFUSED,
     ECONNRESET, EDEADLK, EDESTADDRREQ, EDOM, EDQUOT, EEXIST, EFAULT,
     EFBIG, EHOSTUNREACH, EIDRM, EILSEQ, EINPROGRESS, EINTR, EINVAL,
     EIO, EISCONN, EISDIR, ELOOP, EMFILE, EMLINK, EMSGSIZE,
     EMULTIHOP, ENAMETOOLONG, ENETDOWN, ENETRESET, ENETUNREACH, ENFILE, ENOBUFS,
     ENODATA, ENODEV, ENOENT, ENOEXEC, ENOLINK, ENOMEM, ENOMSG,
     ENOPROTOOPT, ENOSPC, ENOSR, ENOSTR, ENOSYS, ENOTBLK, ENOTCONN,
     ENOTDIR, ENOTEMPTY, ENOTRECOVERABLE, ENOTSOCK, ENOTSUP, ENOTTY, ENXIO,
     EOPNOTSUPP, EOVERFLOW, EOWNERDEAD, EPERM, EPIPE, EPROTO, EPROTONOSUPPORT,
     EPROTOTYPE, ERANGE, EROFS, ESPIPE, ESHUTDOWN, ESOCKTNOSUPPORT, ESRCH,
     ETIMEDOUT]"

definition error_names :: "string list" where
  "error_names =
     [''None'',
      ''Argument list too long'',
      ''Permission denied'',
      ''Address already in use'',
      ''Cannot assign requested address'',
      ''Try again'',
      ''Bad file number'',
      ''Bad message'',
      ''Cannot be bothered to implement'',
      ''Device or resource busy'',
      ''Operation canceled'',
      ''No child processes'',
      ''Software caused connection abort'',
      ''Connection refused'',
      ''Connection reset by peer'',
      ''Resource deadlock would occur'',
      ''Destination address required'',
      ''Mathematics argument out of domain of function'',
      ''Reserved'',
      ''File exists'',
      ''Bad address'',
      ''File too large'',
      ''No route to host'',
      ''Identifier removed'',
      ''Illegal byte sequence'',
      ''Operation in progress'',
      ''Interrupted system call'',
      ''Invalid argument'',
      ''I/O error'',
      ''Transport endpoint is already connected'',
      ''Is a directory'',
      ''Too many levels of symbolic links'',
      ''File descriptor value too large'',
      ''Too many links'',
      ''Message too large'',
      ''Reserved'',
      ''Filename too long'',
      ''Network is down'',
      ''Network dropped connection because of reset'',
      ''Network is unreachable'',
      ''Too many files open in system'',
      ''No buffer space available'',
      ''No message is available on the STREAM head read queue'',
      ''No such device'',
      ''No such file or directory'',
      ''Exec format error'',
      ''Reserved'',
      ''Out of memory'',
      ''No message of the desired type'',
      ''Protocol not available'',
      ''No space left on device'',
      ''No STREAM resources'',
      ''Not a STREAM'',
      ''Not implemented'',
      ''Block device required'',
      ''Transport endpoint is not connected'',
      ''Not a directory'',
      ''Directory not empty'',
      ''State not recoverable'',
      ''Not a socket'',
      ''Not supported'',
      ''Iappropriate I/O control operation'',
      ''No such device of address'',
      ''Operation not supported on socket'',
      ''Value too large to be stored in data type'',
      ''Previous owner died'',
      ''Operation not permitted'',
      ''Broken pipe'',
      ''Protocol error'',
      ''Protocol not supported'',
      ''Protocol wrong type for socket'',
      ''Result too large'',
      ''Read-only filesystem'',
      ''Invalid seek'',
      ''Cannot send after transport endpoint shutdown'',
      ''Socket type not supported'',
      ''No such process'',
      ''Connection timed out'']"

text \<open>\<open>strerror\<close> on the integer value of a code: \<open>None\<close> is a null pointer.\<close>

definition strerror :: "int \<Rightarrow> string option res" where
  "strerror code =
     (if code < 0 then Inr (Some ''Unknown'')
      else if nat code < length error_names then Inr (Some (error_names ! nat code))
      else if code < 128 then Inr None
      else Inl OutOfBounds)"

fun list_index :: "'a \<Rightarrow> 'a list \<Rightarrow> nat" where
  "list_index x [] = 0"
| "list_index x (y # ys) = (if x = y then 0 else Suc (list_index x ys))"

definition error_code :: "error_t \<Rightarrow> int" where
  "error_code e = int (list_index e error_list)"

lemma error_tables: "length error_names = length error_list" "length error_list = 78"
  by (simp_all add: error_names_def error_list_def)

lemma error_list_complete: "e \<in> set error_list"
  by (cases e) (simp_all add: error_list_def)

lemma list_index_less: "x \<in> set xs \<Longrightarrow> list_index x xs < length xs"
  by (induction xs) auto

text \<open>Every code of the enumeration has a name in the table.\<close>

lemma strerror_named: "\<exists>s. strerror (error_code e) = Inr (Some s) \<and> s = error_names ! list_index e error_list"
  using list_index_less [OF error_list_complete, of e] by (simp add: strerror_def error_code_def error_tables)

end
