(* ===== verification/Checksum.thy ===== *)
theory Checksum
  imports CMath
begin

unbundle bit_operations_syntax

text \<open>
  The internet checksum (\<open>netstack/checksum.hpp\<close>): \<open>sum_bytes\<close> adds the 16-bit words of a
  buffer as the machine reads them, little-endian, plus a last odd byte; \<open>to_checksum\<close> folds
  the carries back and complements. The sum is a 32-bit word, as in the source.

  A checksum that was computed over a buffer with a zeroed field and then stored in that
  field makes the buffer sum to a checksum of zero, which is what the receivers test.
\<close>

text \<open>\<open>bong[i]\<close>: the \<open>i\<close>-th 16-bit word.\<close>

definition le16 :: "u8 \<Rightarrow> u8 \<Rightarrow> u16" where
  "le16 lo hi = ucast lo OR push_bit 8 (ucast hi)"

fun sum_bytes :: "u8 list \<Rightarrow> u32" where
  "sum_bytes [] = 0"
| "sum_bytes [b] = ucast b"
| "sum_bytes (lo # hi # rest) = ucast (le16 lo hi) + sum_bytes rest"

lemma fold_step:
  "unat ((s AND 0xFFFF) + drop_bit 16 s :: u32) = unat s mod 65536 + unat s div 65536"
proof -
  have "s AND 0xFFFF = take_bit 16 s" by (simp add: take_bit_eq_mask mask_numeral)
  then have m: "unat (s AND 0xFFFF) = unat s mod 65536"
    by (simp add: unsigned_take_bit_eq take_bit_eq_mod unat_mod)
  have d: "unat (drop_bit 16 s) = unat s div 65536" by (simp add: drop_bit_eq_div unat_div)
  have "unat s div 65536 < 65536" using unat_less_2p [of s] by (simp add: less_mult_imp_div_less)
  then have "unat s mod 65536 + unat s div 65536 < 2 ^ 32" by (simp add: add_strict_mono)
  then show ?thesis by (simp add: unat_word_ariths m d)
qed

lemma drop_16_0: "drop_bit 16 s = (0 :: u32) \<longleftrightarrow> unat s < 65536"
proof -
  have "unat (drop_bit 16 s) = unat s div 65536" by (simp add: drop_bit_eq_div unat_div)
  then show ?thesis by (metis div_eq_0_iff unat_eq_0 zero_neq_numeral)
qed

function fold_carries :: "u32 \<Rightarrow> u32" where
  "fold_carries s = (if drop_bit 16 s \<noteq> 0 then fold_carries ((s AND 0xFFFF) + drop_bit 16 s) else s)"
  by pat_completeness auto

termination
proof (relation "measure unat", goal_cases)
  case (2 s)
  then have "65536 \<le> unat s" by (simp add: drop_16_0)
  then have "0 < unat s div 65536" by (simp add: div_greater_zero_iff)
  then have "unat s mod 65536 + unat s div 65536 < unat s"
    using div_mult_mod_eq [of "unat s" 65536] by linarith
  then show ?case by (simp add: fold_step)
qed simp

declare fold_carries.simps [simp del]

definition to_checksum :: "u32 \<Rightarrow> u16" where
  "to_checksum s = from_big_endian16 (ucast (NOT (fold_carries s)))"

subsection \<open>One's complement arithmetic\<close>

text \<open>Folding keeps the sum modulo 65535 and turns a positive sum into a positive word.\<close>

lemma fold_carries_spec:
  "unat (fold_carries s) < 65536 \<and> unat (fold_carries s) mod 65535 = unat s mod 65535
     \<and> (unat (fold_carries s) = 0 \<longleftrightarrow> unat s = 0)"
proof (induction s rule: fold_carries.induct)
  case (1 s)
  show ?case
  proof (cases "drop_bit 16 s = 0")
    case True
    then show ?thesis by (subst (1 2 3) fold_carries.simps) (simp add: drop_16_0 [symmetric])
  next
    case False
    let ?t = "(s AND 0xFFFF) + drop_bit 16 s"
    have big: "65536 \<le> unat s" using False by (simp add: drop_16_0)
    have "unat s = 65535 * (unat s div 65536) + (unat s mod 65536 + unat s div 65536)"
      using div_mult_mod_eq [of "unat s" 65536] by simp
    then have "unat s mod 65535 = unat ?t mod 65535"
      unfolding fold_step by (metis mod_mult_self4)
    moreover have "unat ?t \<noteq> 0" unfolding fold_step using big by auto
    moreover have "fold_carries s = fold_carries ?t" using False by (subst fold_carries.simps) simp
    ultimately show ?thesis using 1 [OF False] big by simp
  qed
qed

lemma not_fold:
  "unat (ucast (NOT (fold_carries s)) :: u16) = 65535 - unat (fold_carries s)"
proof -
  let ?f = "fold_carries s"
  have f: "unat ?f < 65536" using fold_carries_spec by blast
  have "ucast (NOT ?f) = (NOT (ucast ?f) :: u16)" by (rule bit_word_eqI) (simp add: bit_simps)
  moreover have "unat (ucast ?f :: u16) = unat ?f" using f by (simp add: unat_ucast_mod)
  moreover have "unat (NOT w) = 65535 - unat w" for w :: u16
  proof -
    have "NOT w = -1 - w" by (simp add: not_eq_complement)
    then show ?thesis by (simp add: unat_sub unsigned_minus_1_eq_mask mask_eq_exp_minus_1)
  qed
  ultimately show ?thesis by simp
qed


lemma bswap16_zero: "bswap16 0 = 0"
  by (simp add: bswap16_def)

lemma to_checksum_0: "to_checksum s = 0 \<longleftrightarrow> unat s \<noteq> 0 \<and> 65535 dvd unat s"
proof -
  let ?f = "fold_carries s"
  have "to_checksum s = 0 \<longleftrightarrow> (ucast (NOT ?f) :: u16) = 0"
    by (metis from_big_endian16_def to_checksum_def bswap16_involutive bswap16_zero)
  also have "\<dots> \<longleftrightarrow> unat ?f = 65535"
    using not_fold [of s] fold_carries_spec [of s] by (auto simp: word_unat_eq_iff)
  also have "\<dots> \<longleftrightarrow> unat s \<noteq> 0 \<and> 65535 dvd unat s"
  proof -
    have f: "unat ?f < 65536" "unat ?f mod 65535 = unat s mod 65535" "unat ?f = 0 \<longleftrightarrow> unat s = 0"
      using fold_carries_spec by blast+
    have "unat ?f = 65535" if "unat ?f mod 65535 = 0" "unat ?f \<noteq> 0"
    proof (rule ccontr)
      assume "unat ?f \<noteq> 65535"
      then have "unat ?f mod 65535 = unat ?f" using f(1) by simp
      then show False using that by simp
    qed
    then show ?thesis using f(2,3) by (auto simp: dvd_eq_mod_eq_0)
  qed
  finally show ?thesis .
qed

text \<open>The value the receiver sums up when the stored field holds the checksum of the rest.\<close>

lemma checksum_completes:
  assumes "unat s + 65535 < 2 ^ 32"
  shows "to_checksum (s + ucast (to_big_endian16 (to_checksum s))) = 0"
proof -
  let ?f = "fold_carries s" and ?c = "ucast (NOT (fold_carries s)) :: u16"
  have c: "to_big_endian16 (to_checksum s) = ?c"
    by (simp add: to_checksum_def to_big_endian16_def from_big_endian16_def)
  have "unat (ucast ?c :: u32) = unat ?c" by (simp add: unat_ucast_mod)
  then have "unat (ucast ?c :: u32) = 65535 - unat ?f" using not_fold by simp
  moreover have f: "unat ?f < 65536" "unat ?f mod 65535 = unat s mod 65535" "unat ?f = 0 \<longleftrightarrow> unat s = 0"
    using fold_carries_spec by blast+
  ultimately have sum: "unat (s + ucast ?c) = unat s + (65535 - unat ?f)"
    using assms by (simp add: unat_word_ariths)
  have "(unat s + (65535 - unat ?f)) mod 65535 = 0"
  proof -
    have "(unat s + (65535 - unat ?f)) mod 65535 = (unat ?f + (65535 - unat ?f)) mod 65535"
      by (rule mod_add_cong) (use f(2) in simp_all)
    then show ?thesis using f(1) by simp
  qed
  moreover have "unat s + (65535 - unat ?f) \<noteq> 0" using f by auto
  ultimately show ?thesis unfolding c to_checksum_0 sum by (simp add: dvd_eq_mod_eq_0)
qed


subsection \<open>Sums of buffers\<close>

lemma unat_le16: "unat (ucast (le16 lo hi) :: u32) < 65536"
  using unat_less_2p [of "le16 lo hi"] by (simp add: unat_ucast_mod)

lemma sum_bytes_bound: "length bs \<le> 65536 \<Longrightarrow> unat (sum_bytes bs) \<le> 65535 * ((length bs + 1) div 2)"
proof (induction bs rule: sum_bytes.induct)
  case (2 b)
  then show ?case using unat_less_2p [of b] by (simp add: unat_ucast_mod)
next
  case (3 lo hi rest)
  have "(length rest + 1) div 2 \<le> 32768" using 3(2) by simp
  then have "65535 * ((length rest + 1) div 2) \<le> 65535 * 32768" by (intro mult_le_mono2)
  with 3 have "unat (sum_bytes rest) \<le> 65535 * ((length rest + 1) div 2)" "unat (sum_bytes rest) \<le> 65535 * 32768"
    by simp_all
  then show ?case using unat_le16 [of lo hi] by (simp add: unat_word_ariths)
qed simp

lemma sum_bytes_append:
  "even (length as) \<Longrightarrow> sum_bytes (as @ bs) = sum_bytes as + sum_bytes bs"
  by (induction as rule: sum_bytes.induct) auto

text \<open>A 16-bit field in host order as the bytes of memory, big-endian.\<close>

definition be_bytes16 :: "u16 \<Rightarrow> u8 list" where
  "be_bytes16 w = [ucast (drop_bit 8 w), ucast w]"

lemma le16_be_bytes: "le16 (ucast (drop_bit 8 w)) (ucast w) = bswap16 w"
  by (rule bit_word_eqI) (auto simp: bswap16_bit le16_def bit_simps ac_simps dest: bit_imp_le_length)

lemma sum_be_bytes16: "sum_bytes (be_bytes16 w) = ucast (to_big_endian16 w)"
  by (simp add: be_bytes16_def le16_be_bytes to_big_endian16_def)

lemma checksum_field:
  assumes "even (length as)" "even (length pseudo)" "length as + length bs + length pseudo < 65000"
  shows "to_checksum (sum_bytes pseudo + sum_bytes (as @ be_bytes16
     (to_checksum (sum_bytes pseudo + sum_bytes (as @ be_bytes16 0 @ bs))) @ bs)) = 0"
proof -
  let ?s = "sum_bytes pseudo + sum_bytes (as @ be_bytes16 0 @ bs)"
  have field: "sum_bytes pseudo + sum_bytes (as @ be_bytes16 w @ bs) =
      sum_bytes pseudo + sum_bytes (as @ bs) + ucast (to_big_endian16 w)" for w
    using assms(1) sum_be_bytes16 [of w] sum_bytes_append [of "be_bytes16 w" bs]
    by (simp add: sum_bytes_append be_bytes16_def)
  have zero: "?s = sum_bytes pseudo + sum_bytes (as @ bs)"
    unfolding field by (simp add: to_big_endian16_def bswap16_zero)
  have "unat (sum_bytes pseudo) \<le> 65535 * ((length pseudo + 1) div 2)"
      "unat (sum_bytes (as @ bs)) \<le> 65535 * ((length (as @ bs) + 1) div 2)"
    using assms(3) by (intro sum_bytes_bound; simp)+
  moreover have "65535 * ((length pseudo + 1) div 2) + 65535 * ((length (as @ bs) + 1) div 2) \<le> 65535 * 32501"
    using assms(3) by (simp only: distrib_left [symmetric], intro mult_le_mono2) simp
  ultimately have "unat (sum_bytes pseudo) + unat (sum_bytes (as @ bs)) \<le> 65535 * 32501" by linarith
  then have "unat ?s + 65535 < 2 ^ 32" unfolding zero by (simp add: unat_word_ariths)
  from checksum_completes [OF this, unfolded zero] show ?thesis
    unfolding field by (simp add: to_big_endian16_def bswap16_zero)
qed

text \<open>
  The internet checksum verifies. Over any buffer with an even number of bytes in front
  of the two bytes of its checksum field, storing in that field (in network order) the
  checksum computed with the field zeroed makes the whole buffer pass the receivers' test
  \<open>to_checksum(sum) == 0\<close>, also together with the sum of a pseudo header.
\<close>

lemma checksum_verifies:
  assumes "even (length as)" "even (length pseudo)" "length as + length bs + length pseudo < 65000"
  shows "to_checksum (sum_bytes pseudo + sum_bytes (as @ be_bytes16
     (to_checksum (sum_bytes pseudo + sum_bytes (as @ be_bytes16 0 @ bs))) @ bs)) = 0"
  by (rule checksum_field [OF assms])

end
