(* ===== verification/Packet.thy ===== *)
theory Packet
  imports Checksum CString Errno
begin

unbundle bit_operations_syntax

text \<open>
  What the layers of the network stack share: big-endian fields in packet buffers
  (\<open>AEX::big_endian<T>\<close>), IPv4 and MAC addresses (\<open>include/aex/net/ipv4.hpp\<close>,
  \<open>include/aex/net/ethernet.hpp\<close>), and the queues of the stack, \<open>Mem::Vector\<close>s seen through
  their refinement to lists.
\<close>

definition le32 :: "u8 \<Rightarrow> u8 \<Rightarrow> u8 \<Rightarrow> u8 \<Rightarrow> u32" where
  "le32 a b c d = ucast a OR push_bit 8 (ucast b) OR push_bit 16 (ucast c) OR push_bit 24 (ucast d)"

text \<open>\<open>big_endian<T>::get\<close> on the bytes of the field, and the bytes \<open>set\<close> leaves there.\<close>

definition get_be16 :: "u8 \<Rightarrow> u8 \<Rightarrow> u16" where
  "get_be16 a b = from_big_endian16 (le16 a b)"

definition get_be32 :: "u8 \<Rightarrow> u8 \<Rightarrow> u8 \<Rightarrow> u8 \<Rightarrow> u32" where
  "get_be32 a b c d = from_big_endian32 (le32 a b c d)"

definition be_bytes32 :: "u32 \<Rightarrow> u8 list" where
  "be_bytes32 w = [ucast (drop_bit 24 w), ucast (drop_bit 16 w), ucast (drop_bit 8 w), ucast w]"

subsection \<open>Addresses\<close>

datatype ipv4_addr = IPv4 u8 u8 u8 u8
datatype mac_addr = MAC u8 u8 u8 u8 u8 u8

fun addr_bytes :: "ipv4_addr \<Rightarrow> u8 list" where
  "addr_bytes (IPv4 a b c d) = [a, b, c, d]"

fun mac_bytes :: "mac_addr \<Rightarrow> u8 list" where
  "mac_bytes (MAC a b c d e f) = [a, b, c, d, e, f]"

text \<open>\<open>*((uint32_t*) bytes)\<close>, on a little-endian machine.\<close>

fun addr_load :: "ipv4_addr \<Rightarrow> u32" where
  "addr_load (IPv4 a b c d) = le32 a b c d"

definition addr_of_u32 :: "u32 \<Rightarrow> ipv4_addr" where
  "addr_of_u32 v = IPv4 (ucast (drop_bit 24 v)) (ucast (drop_bit 16 v)) (ucast (drop_bit 8 v)) (ucast v)"

definition addr_to_u32 :: "ipv4_addr \<Rightarrow> u32" where
  "addr_to_u32 a = from_big_endian32 (addr_load a)"

definition addr_eq :: "ipv4_addr \<Rightarrow> ipv4_addr \<Rightarrow> bool" where
  "addr_eq a b \<longleftrightarrow> memcmp (addr_bytes a) (addr_bytes b) 4 = Inr 0"

definition addr_or :: "ipv4_addr \<Rightarrow> ipv4_addr \<Rightarrow> ipv4_addr" where
  "addr_or a b = addr_of_u32 (to_big_endian32 (addr_load a OR addr_load b))"

definition addr_and :: "ipv4_addr \<Rightarrow> ipv4_addr \<Rightarrow> ipv4_addr" where
  "addr_and a b = addr_of_u32 (to_big_endian32 (addr_load a AND addr_load b))"

definition addr_xor :: "ipv4_addr \<Rightarrow> ipv4_addr \<Rightarrow> ipv4_addr" where
  "addr_xor a b = addr_of_u32 (to_big_endian32 (addr_load a XOR addr_load b))"

definition addr_not :: "ipv4_addr \<Rightarrow> ipv4_addr" where
  "addr_not a = addr_of_u32 (to_big_endian32 (NOT (addr_load a)))"

definition isSubnettedWith :: "ipv4_addr \<Rightarrow> ipv4_addr \<Rightarrow> ipv4_addr \<Rightarrow> bool" where
  "isSubnettedWith a destination mask' \<longleftrightarrow> addr_eq (addr_and a mask') (addr_and destination mask')"

definition IPv4_ANY :: ipv4_addr where
  "IPv4_ANY = IPv4 0 0 0 0"

definition IPv4_BROADCAST :: ipv4_addr where
  "IPv4_BROADCAST = IPv4 255 255 255 255"

definition mac_eq :: "mac_addr \<Rightarrow> mac_addr \<Rightarrow> bool" where
  "mac_eq a b \<longleftrightarrow> memcmp (mac_bytes a) (mac_bytes b) 6 = Inr 0"

fun isBroadcast :: "mac_addr \<Rightarrow> bool" where
  "isBroadcast (MAC a b c d e f) \<longleftrightarrow> a AND 1 \<noteq> 0"

subsection \<open>Queues\<close>

text \<open>\<open>Vector::erase\<close> on the list a vector holds.\<close>

definition erase_at :: "nat \<Rightarrow> 'a list \<Rightarrow> 'a list" where
  "erase_at i xs = take i xs @ drop (Suc i) xs"

lemma length_erase_at [simp]: "i < length xs \<Longrightarrow> length (erase_at i xs) = length xs - 1"
  by (simp add: erase_at_def)

lemma set_erase_at: "set (erase_at i xs) \<subseteq> set xs"
  by (auto simp: erase_at_def dest: in_set_takeD in_set_dropD)

lemma erase_at_split: "i < length xs \<Longrightarrow> xs = take i xs @ xs ! i # drop (Suc i) xs"
  by (rule id_take_nth_drop)

subsection \<open>Field laws\<close>

lemma get_be16_bytes [simp]: "get_be16 (ucast (drop_bit 8 w)) (ucast w) = w"
  by (simp add: get_be16_def le16_be_bytes from_big_endian16_def)

lemma le32_bit:
  "bit (le32 a b c d) n \<longleftrightarrow> (if n < 8 then bit a n else if n < 16 then bit b (n - 8)
     else if n < 24 then bit c (n - 16) else n < 32 \<and> bit d (n - 24))"
  by (auto simp: le32_def bit_simps dest: bit_imp_le_length)

lemma le32_be_bytes:
  "le32 (ucast (drop_bit 24 w)) (ucast (drop_bit 16 w)) (ucast (drop_bit 8 w)) (ucast w) = bswap32 w"
  by (rule bit_word_eqI) (auto simp: bswap32_bit le32_bit bit_simps ac_simps dest: bit_imp_le_length)

lemma get_be32_bytes [simp]:
  "get_be32 (ucast (drop_bit 24 w)) (ucast (drop_bit 16 w)) (ucast (drop_bit 8 w)) (ucast w) = w"
  by (simp add: get_be32_def le32_be_bytes from_big_endian32_def)

lemma bytes_of_bswap32_le32:
  "ucast (drop_bit 24 (bswap32 (le32 a b c d))) = a" "ucast (drop_bit 16 (bswap32 (le32 a b c d))) = b"
  "ucast (drop_bit 8 (bswap32 (le32 a b c d))) = c" "ucast (bswap32 (le32 a b c d)) = d"
  by (rule bit_word_eqI; simp add: bit_simps bswap32_bit le32_bit)+

lemma addr_of_to_u32 [simp]: "addr_of_u32 (addr_to_u32 a) = a" "addr_to_u32 (addr_of_u32 v) = v"
proof -
  show "addr_of_u32 (addr_to_u32 a) = a"
    by (cases a) (simp add: addr_of_u32_def addr_to_u32_def from_big_endian32_def bytes_of_bswap32_le32)
  show "addr_to_u32 (addr_of_u32 v) = v"
    by (simp add: addr_of_u32_def addr_to_u32_def from_big_endian32_def le32_be_bytes)
qed

text \<open>The word-wise operators work byte by byte.\<close>

lemma le32_bitwise:
  "le32 a b c d AND le32 a' b' c' d' = le32 (a AND a') (b AND b') (c AND c') (d AND d')"
  "le32 a b c d OR le32 a' b' c' d' = le32 (a OR a') (b OR b') (c OR c') (d OR d')"
  "le32 a b c d XOR le32 a' b' c' d' = le32 (a XOR a') (b XOR b') (c XOR c') (d XOR d')"
  "NOT (le32 a b c d) = le32 (NOT a) (NOT b) (NOT c) (NOT d)"
  by (rule bit_word_eqI; auto simp: le32_bit bit_simps)+

lemma addr_ops [simp]:
  "addr_and (IPv4 a b c d) (IPv4 a' b' c' d') = IPv4 (a AND a') (b AND b') (c AND c') (d AND d')"
  "addr_or (IPv4 a b c d) (IPv4 a' b' c' d') = IPv4 (a OR a') (b OR b') (c OR c') (d OR d')"
  "addr_xor (IPv4 a b c d) (IPv4 a' b' c' d') = IPv4 (a XOR a') (b XOR b') (c XOR c') (d XOR d')"
  "addr_not (IPv4 a b c d) = IPv4 (NOT a) (NOT b) (NOT c) (NOT d)"
  by (simp_all add: addr_and_def addr_or_def addr_xor_def addr_not_def addr_of_u32_def
      to_big_endian32_def le32_bitwise bytes_of_bswap32_le32)

lemma addr_eq_iff [simp]: "addr_eq a b \<longleftrightarrow> a = b"
  using memcmp_eq_iff [of "addr_bytes a" 4 "addr_bytes b"]
  by (cases a; cases b) (auto simp: addr_eq_def)

lemma mac_eq_iff [simp]: "mac_eq a b \<longleftrightarrow> a = b"
  using memcmp_eq_iff [of "mac_bytes a" 6 "mac_bytes b"]
  by (cases a; cases b) (auto simp: mac_eq_def)

lemma length_addr_bytes [simp]: "length (addr_bytes a) = 4"
  by (cases a) simp

lemma length_be_bytes [simp]: "length (be_bytes16 w) = 2" "length (be_bytes32 v) = 4"
  by (simp_all add: be_bytes16_def be_bytes32_def)

end
