(* ===== verification/Ipv4.thy ===== *)
theory Ipv4
  imports Packet CMath
begin

unbundle bit_operations_syntax

text \<open>
  Network devices (\<open>dev/netdevice.cpp\<close>) and the IPv4 layer of the network stack
  (\<open>layer/network/ipv4.cpp\<close>): choosing the interface, building and sending packets, the
  queue of packets a driver could not take yet, and parsing of received packets.

  A packet is the list of its bytes; the header is read and written through a record with
  its encoding. The drivers' virtual \<open>send\<close> is a parameter: a function of the device, the
  bytes and the state \<open>'w\<close> of the drivers. An upcall of \<open>parse\<close> into the transport layers is
  a value, which the layer above consumes.
\<close>

subsection \<open>Network devices\<close>

datatype dev_type_t = DEV_BLOCK | DEV_CHAR | DEV_NET
datatype net_type_t = NET_IPv4 | NET_IPv6 | NET_ARP | NET_RAW

record ipv4_info =
  mac :: mac_addr
  addr :: ipv4_addr
  mask_addr :: ipv4_addr
  broadcast :: ipv4_addr
  gateway :: ipv4_addr

record device =
  dev_type :: dev_type_t
  info :: ipv4_info
  metric :: int

definition set_broadcast :: "ipv4_info \<Rightarrow> ipv4_info" where
  "set_broadcast i = i\<lparr>broadcast := addr_or (addr i) (addr_not (mask_addr i))\<rparr>"

definition setIPv4Address :: "ipv4_addr \<Rightarrow> device \<Rightarrow> device" where
  "setIPv4Address a d = d\<lparr>info := set_broadcast ((info d)\<lparr>addr := a\<rparr>)\<rparr>"

definition setIPv4Mask :: "ipv4_addr \<Rightarrow> device \<Rightarrow> device" where
  "setIPv4Mask a d = d\<lparr>info := set_broadcast ((info d)\<lparr>mask_addr := a\<rparr>)\<rparr>"

definition setIPv4Gateway :: "ipv4_addr \<Rightarrow> device \<Rightarrow> device" where
  "setIPv4Gateway a d = d\<lparr>info := (info d)\<lparr>gateway := a\<rparr>\<rparr>"

definition setMetric :: "int \<Rightarrow> device \<Rightarrow> device" where
  "setMetric m d = d\<lparr>metric := m\<rparr>"

text \<open>\<open>Dev::devices\<close>: the device table, with an empty slot as \<open>None\<close>.\<close>

type_synonym devices = "device option list"

definition devices_get :: "int \<Rightarrow> devices \<Rightarrow> device option" where
  "devices_get i ds = (if i < 0 \<or> i \<ge> int (length ds) then None else ds ! nat i)"

definition get_net_device :: "int \<Rightarrow> devices \<Rightarrow> device option" where
  "get_net_device i ds = (case devices_get i ds of
     None \<Rightarrow> devices_get (-1) ds
   | Some d \<Rightarrow> if dev_type d \<noteq> DEV_NET then devices_get (-1) ds else Some d)"

text \<open>The loop of \<open>get_interface\<close>: the table from index \<open>i\<close> on, with the best device so far.\<close>

fun interface_loop :: "ipv4_addr \<Rightarrow> devices \<Rightarrow> int \<Rightarrow> int \<Rightarrow> int \<Rightarrow> device option \<times> int" where
  "interface_loop a [] i best_generic best_metric = (None, best_generic)"
| "interface_loop a (None # ds) i best_generic best_metric = interface_loop a ds (i + 1) best_generic best_metric"
| "interface_loop a (Some d # ds) i best_generic best_metric =
     (if dev_type d \<noteq> DEV_NET then interface_loop a ds (i + 1) best_generic best_metric
      else
        let (bg, bm) = (if metric d < best_metric then (i, metric d) else (best_generic, best_metric)) in
        if \<not> addr_eq (addr_and (addr (info d)) (mask_addr (info d))) (addr_and a (mask_addr (info d)))
        then interface_loop a ds (i + 1) bg bm
        else (Some d, bg))"

definition get_interface :: "devices \<Rightarrow> ipv4_addr \<Rightarrow> device option" where
  "get_interface ds a = (case interface_loop a ds 0 (-1) 23232323 of
     (Some d, _) \<Rightarrow> Some d
   | (None, best_generic) \<Rightarrow> devices_get best_generic ds)"

subsection \<open>The header\<close>

record ipv4_header =
  ip_header_len :: u8
  ip_version :: u8
  ip_dsf :: u8
  ip_total_len :: u16
  ip_id :: u16
  ip_flags :: u16
  ip_ttl :: u8
  ip_protocol :: u8
  ip_checksum :: u16
  ip_source :: ipv4_addr
  ip_destination :: ipv4_addr

text \<open>The packed layout: 20 bytes, the two 4-bit fields sharing the first.\<close>

definition ipv4_header_bytes :: "ipv4_header \<Rightarrow> u8 list" where
  "ipv4_header_bytes h =
     [(ip_header_len h AND 0x0F) OR push_bit 4 (ip_version h), ip_dsf h]
     @ be_bytes16 (ip_total_len h) @ be_bytes16 (ip_id h) @ be_bytes16 (ip_flags h)
     @ [ip_ttl h, ip_protocol h] @ be_bytes16 (ip_checksum h)
     @ addr_bytes (ip_source h) @ addr_bytes (ip_destination h)"

text \<open>The header seen through \<open>(ipv4_header*) buffer\<close>.\<close>

fun ipv4_header_of :: "u8 list \<Rightarrow> ipv4_header res" where
  "ipv4_header_of (b0 # dsf # tl1 # tl2 # id1 # id2 # fl1 # fl2 # ttl # proto # c1 # c2
       # s1 # s2 # s3 # s4 # d1 # d2 # d3 # d4 # rest) =
     Inr \<lparr>ip_header_len = b0 AND 0x0F, ip_version = drop_bit 4 b0, ip_dsf = dsf,
       ip_total_len = get_be16 tl1 tl2, ip_id = get_be16 id1 id2, ip_flags = get_be16 fl1 fl2,
       ip_ttl = ttl, ip_protocol = proto, ip_checksum = get_be16 c1 c2,
       ip_source = IPv4 s1 s2 s3 s4, ip_destination = IPv4 d1 d2 d3 d4\<rparr>"
| "ipv4_header_of _ = Inl OutOfBounds"

definition put_ipv4_header :: "ipv4_header \<Rightarrow> u8 list \<Rightarrow> u8 list" where
  "put_ipv4_header h buffer = ipv4_header_bytes h @ drop 20 buffer"

definition IPv4_TCP :: u8 where "IPv4_TCP = 6"
definition IPv4_UDP :: u8 where "IPv4_UDP = 17"

definition encaps_len :: "nat \<Rightarrow> nat" where
  "encaps_len payload_len = 20 + payload_len"

text \<open>\<open>encapsulate\<close> leaves the checksum and the source as they are; \<open>send\<close> fills them in.\<close>

definition encapsulate :: "u8 list \<Rightarrow> u16 \<Rightarrow> ipv4_addr \<Rightarrow> u8 \<Rightarrow> u8 list res" where
  "encapsulate buffer len dst protocol = res_bind (ipv4_header_of buffer) (\<lambda>h.
     Inr (put_ipv4_header (h\<lparr>ip_header_len := 5, ip_version := 4, ip_dsf := 0,
       ip_total_len := len + 20, ip_id := 0x2137, ip_flags := 0x4000, ip_ttl := 72,
       ip_protocol := protocol, ip_destination := dst\<rparr>) buffer))"

subsection \<open>Sending\<close>

type_synonym 'w driver = "device \<Rightarrow> u8 list \<Rightarrow> net_type_t \<Rightarrow> 'w \<Rightarrow> error_t \<times> 'w"

text \<open>\<open>send\<close> fills in the source and the checksum in place: the changed buffer is returned.\<close>

definition ipv4_fill :: "device \<Rightarrow> u8 list \<Rightarrow> u8 list res" where
  "ipv4_fill dev buffer = res_bind (ipv4_header_of buffer) (\<lambda>h.
     let h = h\<lparr>ip_source := addr (info dev), ip_checksum := 0\<rparr> in
     Inr (put_ipv4_header (h\<lparr>ip_checksum := to_checksum (sum_bytes (ipv4_header_bytes h))\<rparr>) buffer))"

definition ipv4_send :: "'w driver \<Rightarrow> devices \<Rightarrow> u8 list \<Rightarrow> 'w \<Rightarrow> (error_t \<times> u8 list \<times> 'w) res" where
  "ipv4_send drv ds buffer w = res_bind (ipv4_header_of buffer) (\<lambda>h.
     case get_interface ds (ip_destination h) of
       None \<Rightarrow> Inr (ENETUNREACH, buffer, w)
     | Some dev \<Rightarrow> res_bind (ipv4_fill dev buffer) (\<lambda>buffer.
         let (err, w) = drv dev buffer NET_IPv4 w in Inr (err, buffer, w)))"

record retx_frame =
  tries :: u8
  fr_data :: "u8 list"
  fr_len :: u16

record retx_state =
  m_retx_queue :: "retx_frame list"
  m_retx_queue_size :: u32

definition MAX_RETX_QUEUE_SIZE :: u32 where "MAX_RETX_QUEUE_SIZE = 65536"
definition MAX_RETX_TRIES :: u8 where "MAX_RETX_TRIES = 8"

definition SIZEOF_RETX_FRAME :: u64 where "SIZEOF_RETX_FRAME = 24"

definition frame_msize :: "u64 \<Rightarrow> u64" where
  "frame_msize len = size_ceil len 16 + 16"

definition frame_cost :: "u16 \<Rightarrow> u64" where
  "frame_cost len = SIZEOF_RETX_FRAME + frame_msize (ucast len)"

definition retx_add :: "u8 list \<Rightarrow> retx_state \<Rightarrow> retx_state" where
  "retx_add buffer q =
     (let len = of_nat (length buffer) in
      if ucast (m_retx_queue_size q) + frame_cost len > ucast MAX_RETX_QUEUE_SIZE then q
      else q\<lparr>m_retx_queue_size := ucast (ucast (m_retx_queue_size q) + frame_cost len),
             m_retx_queue := m_retx_queue q @ [\<lparr>tries = 0, fr_data = buffer, fr_len = len\<rparr>]\<rparr>)"

text \<open>The buffer is the caller's: what \<open>route\<close> queues is the buffer after \<open>send\<close> filled it in.\<close>

definition ipv4_route ::
  "'w driver \<Rightarrow> devices \<Rightarrow> u8 list \<Rightarrow> retx_state \<Rightarrow> 'w \<Rightarrow> (error_t \<times> retx_state \<times> 'w) res" where
  "ipv4_route drv ds buffer q w = res_bind (ipv4_send drv ds buffer w) (\<lambda>(err, buffer, w).
     Inr (err, if err = EAGAIN then retx_add buffer q else q, w))"

text \<open>One pass of \<open>retx\<close> over the queue from index \<open>i\<close> on.\<close>

function retx_loop ::
  "'w driver \<Rightarrow> devices \<Rightarrow> nat \<Rightarrow> retx_state \<Rightarrow> 'w \<Rightarrow> (retx_state \<times> 'w) res" where
  "retx_loop drv ds i q w =
     (if i < length (m_retx_queue q) then
        let frame = m_retx_queue q ! i; t = tries frame + 1 in
        case ipv4_send drv ds (fr_data frame) w of
          Inl e \<Rightarrow> Inl e
        | Inr (err, buffer, w) \<Rightarrow>
            if err = ENONE \<or> t = MAX_RETX_TRIES then
              retx_loop drv ds i
                (q\<lparr>m_retx_queue_size := ucast (ucast (m_retx_queue_size q) - frame_cost (fr_len frame)),
                   m_retx_queue := erase_at i (m_retx_queue q)\<rparr>) w
            else
              retx_loop drv ds (i + 1)
                (q\<lparr>m_retx_queue := (m_retx_queue q)[i := frame\<lparr>tries := t, fr_data := buffer\<rparr>]\<rparr>) w
      else Inr (q, w))"
  by pat_completeness auto
termination
  by (relation "measure (\<lambda>(drv, ds, i, q, w). length (m_retx_queue q) - i)") auto

declare retx_loop.simps [simp del]

definition retx :: "'w driver \<Rightarrow> devices \<Rightarrow> retx_state \<Rightarrow> 'w \<Rightarrow> (bool \<times> retx_state \<times> 'w) res" where
  "retx drv ds q w = res_bind (retx_loop drv ds 0 q w) (\<lambda>(q, w). Inr (m_retx_queue q = [], q, w))"

subsection \<open>Receiving\<close>

datatype upcall =
    TCP_parse "u8 list" ipv4_addr ipv4_addr
  | UDP_parse "u8 list" ipv4_addr ipv4_addr

text \<open>
  \<open>parse\<close> on a buffer of \<open>len\<close> bytes. \<open>header->total_len < header_len\<close> compares as \<open>int\<close>.
\<close>

definition ipv4_parse :: "device \<Rightarrow> u8 list \<Rightarrow> upcall option res" where
  "ipv4_parse dev buffer = res_bind (cell_get buffer 0) (\<lambda>b0.
     let header_len = 4 * unat (b0 AND 0x0F) in
     if header_len < 20 \<or> length buffer < header_len then Inr None
     else res_bind (ipv4_header_of buffer) (\<lambda>h.
       let dst = ip_destination h in
       if \<not> addr_eq dst (addr (info dev)) \<and> \<not> addr_eq dst IPv4_BROADCAST
          \<and> \<not> addr_eq dst (broadcast (info dev)) then Inr None
       else if to_checksum (sum_bytes (take header_len buffer)) \<noteq> 0 then Inr None
       else if unat (ip_total_len h) < header_len then Inr None
       else
         let len = min (unat (ip_total_len h)) (length buffer) - header_len;
             payload = take len (drop header_len buffer) in
         if ip_protocol h = IPv4_TCP then Inr (Some (TCP_parse payload (ip_source h) dst))
         else if ip_protocol h = IPv4_UDP then Inr (Some (UDP_parse payload (ip_source h) dst))
         else Inr None))"

subsection \<open>The header and its bytes\<close>

lemma length_ipv4_header_bytes [simp]: "length (ipv4_header_bytes h) = 20"
  by (simp add: ipv4_header_bytes_def)

definition header_nibbles :: "ipv4_header \<Rightarrow> bool" where
  "header_nibbles h \<longleftrightarrow> ip_header_len h < 16 \<and> ip_version h < 16"

lemma nibble_bits: "w < 16 \<Longrightarrow> bit w n \<Longrightarrow> n < 4" for w :: u8
proof (rule ccontr)
  assume a: "w < 16" "bit w n" "\<not> n < 4"
  have "take_bit 4 w = w" using a(1) by (simp add: take_bit_eq_mod word_unat_eq_iff unat_mod word_less_nat_alt)
  then have "\<not> bit w n" using a(3) by (metis bit_take_bit_iff)
  then show False using a(2) by simp
qed

lemma nibbles_join:
  assumes "a < 16" "v < 16"
  shows "((a AND 0x0F) OR push_bit 4 v) AND 0x0F = (a :: u8)" "drop_bit 4 ((a AND 0x0F) OR push_bit 4 v) = (v :: u8)"
proof -
  have m: "(0x0F :: u8) = mask 4" by (simp add: mask_numeral)
  show "((a AND 0x0F) OR push_bit 4 v) AND 0x0F = a" unfolding m
    by (rule bit_word_eqI) (auto simp: bit_simps dest: nibble_bits [OF assms(1)])
  have "bit v n \<Longrightarrow> n + 4 < 8" for n using nibble_bits [OF assms(2)] by fastforce
  then show "drop_bit 4 ((a AND 0x0F) OR push_bit 4 v) = v" unfolding m
    by (intro bit_word_eqI) (auto simp: bit_simps ac_simps)
qed

lemma nibble_up: "v < 16 \<Longrightarrow> drop_bit 4 (push_bit 4 v) = (v :: u8)"
  using nibbles_join(2) [of 0 v] by simp

lemma ipv4_header_of_bytes:
  assumes "header_nibbles h"
  shows "ipv4_header_of (ipv4_header_bytes h @ rest) = Inr h"
proof -
  obtain s1 s2 s3 s4 d1 d2 d3 d4 where "ip_source h = IPv4 s1 s2 s3 s4" "ip_destination h = IPv4 d1 d2 d3 d4"
    by (metis ipv4_addr.exhaust)
  then show ?thesis
    using assms by (cases h) (simp add: ipv4_header_bytes_def be_bytes16_def header_nibbles_def nibbles_join nibble_up)
qed

lemma ipv4_header_of_put: "header_nibbles h \<Longrightarrow> ipv4_header_of (put_ipv4_header h buffer) = Inr h"
  by (simp add: put_ipv4_header_def ipv4_header_of_bytes)

lemma list_20:
  "length xs = 20 \<Longrightarrow> \<exists>b0 b1 b2 b3 b4 b5 b6 b7 b8 b9 b10 b11 b12 b13 b14 b15 b16 b17 b18 b19.
     xs = [b0, b1, b2, b3, b4, b5, b6, b7, b8, b9, b10, b11, b12, b13, b14, b15, b16, b17, b18, b19]"
  by (auto simp: length_Suc_conv numeral_eq_Suc)

lemma ipv4_header_of_ok:
  "20 \<le> length buffer \<longleftrightarrow> (\<exists>h. ipv4_header_of buffer = Inr h \<and> header_nibbles h)"
proof
  assume "20 \<le> length buffer"
  then have "length (take 20 buffer) = 20" by simp
  from list_20 [OF this] obtain b0 b1 b2 b3 b4 b5 b6 b7 b8 b9 b10 b11 b12 b13 b14 b15 b16 b17 b18 b19 where
    "take 20 buffer = [b0, b1, b2, b3, b4, b5, b6, b7, b8, b9, b10, b11, b12, b13, b14, b15, b16, b17, b18, b19]"
    by (elim exE) blast
  then have "buffer = [b0, b1, b2, b3, b4, b5, b6, b7, b8, b9, b10, b11, b12, b13, b14, b15, b16, b17, b18, b19] @ drop 20 buffer"
    by (metis append_take_drop_id)
  then obtain rest where b: "buffer = b0 # b1 # b2 # b3 # b4 # b5 # b6 # b7 # b8 # b9 # b10 # b11 # b12
      # b13 # b14 # b15 # b16 # b17 # b18 # b19 # rest" by auto
  have "b0 AND 0x0F < 16" "drop_bit 4 b0 < 16"
  proof -
    have "b0 AND 0x0F = take_bit 4 b0" by (simp add: take_bit_eq_mask mask_numeral)
    then show "b0 AND 0x0F < 16" by (simp add: word_less_nat_alt take_bit_eq_mod unat_mod)
    show "drop_bit 4 b0 < 16"
      using unat_less_2p [of b0]
      by (simp add: word_less_nat_alt drop_bit_eq_div unat_div less_mult_imp_div_less)
  qed
  then show "\<exists>h. ipv4_header_of buffer = Inr h \<and> header_nibbles h"
    unfolding b by (simp add: header_nibbles_def)
next
  assume "\<exists>h. ipv4_header_of buffer = Inr h \<and> header_nibbles h"
  then show "20 \<le> length buffer" by (auto elim: ipv4_header_of.elims)
qed

lemma ipv4_fill_total:
  assumes "20 \<le> length buffer"
  shows "\<exists>buffer'. ipv4_fill dev buffer = Inr buffer' \<and> length buffer' = length buffer"
  using assms ipv4_header_of_ok [of buffer] by (auto simp: ipv4_fill_def Let_def put_ipv4_header_def)

lemma ipv4_send_total:
  assumes "20 \<le> length buffer"
  shows "\<exists>err buffer' w'. ipv4_send drv ds buffer w = Inr (err, buffer', w') \<and> length buffer' = length buffer"
proof -
  obtain h where "ipv4_header_of buffer = Inr h" using assms ipv4_header_of_ok by blast
  moreover obtain buffer' where "ipv4_fill dev buffer = Inr (buffer' dev) \<and> length (buffer' dev) = length buffer" for dev
    using ipv4_fill_total [OF assms] by metis
  ultimately show ?thesis
    by (cases "get_interface ds (ip_destination h)") (auto simp: ipv4_send_def split: prod.splits)
qed

subsection \<open>Delivery\<close>

definition accepts :: "device \<Rightarrow> ipv4_addr \<Rightarrow> bool" where
  "accepts dev dst \<longleftrightarrow> dst = addr (info dev) \<or> dst = IPv4_BROADCAST \<or> dst = broadcast (info dev)"

definition upcall_for :: "u8 \<Rightarrow> u8 list \<Rightarrow> ipv4_addr \<Rightarrow> ipv4_addr \<Rightarrow> upcall option" where
  "upcall_for protocol payload src dst =
     (if protocol = IPv4_TCP then Some (TCP_parse payload src dst)
      else if protocol = IPv4_UDP then Some (UDP_parse payload src dst) else None)"

lemma filled_checksum:
  assumes "ip_checksum h = 0"
  shows "to_checksum (sum_bytes (ipv4_header_bytes
           (h\<lparr>ip_checksum := to_checksum (sum_bytes (ipv4_header_bytes h))\<rparr>))) = 0"
proof -
  define as where "as = [(ip_header_len h AND 0x0F) OR push_bit 4 (ip_version h), ip_dsf h]
     @ be_bytes16 (ip_total_len h) @ be_bytes16 (ip_id h) @ be_bytes16 (ip_flags h) @ [ip_ttl h, ip_protocol h]"
  define bs where "bs = addr_bytes (ip_source h) @ addr_bytes (ip_destination h)"
  have split: "ipv4_header_bytes (h\<lparr>ip_checksum := c\<rparr>) = as @ be_bytes16 c @ bs" for c
    by (simp add: ipv4_header_bytes_def as_def bs_def)
  have "h = h\<lparr>ip_checksum := 0\<rparr>" using assms by simp
  then have h: "ipv4_header_bytes h = as @ be_bytes16 0 @ bs" using split by metis
  have "length as = 10" "length bs = 8" by (simp_all add: as_def bs_def)
  then show ?thesis
    unfolding split h using checksum_field [of as "[]" bs] by simp
qed

lemma sent_packet:
  assumes "20 \<le> length buffer" "length buffer < 65536" "encapsulate buffer len dst protocol = Inr buffer1"
    and "ipv4_fill dev buffer1 = Inr packet"
  shows "\<exists>h. packet = ipv4_header_bytes h @ drop 20 buffer \<and> header_nibbles h \<and> ip_header_len h = 5
    \<and> ip_total_len h = len + 20 \<and> ip_protocol h = protocol \<and> ip_source h = addr (info dev)
    \<and> ip_destination h = dst \<and> to_checksum (sum_bytes (ipv4_header_bytes h)) = 0"
proof -
  obtain h where h: "ipv4_header_of buffer = Inr h" "header_nibbles h" using assms(1) ipv4_header_of_ok by blast
  define h1 where "h1 = h\<lparr>ip_header_len := 5, ip_version := 4, ip_dsf := 0,
       ip_total_len := len + 20, ip_id := 0x2137, ip_flags := 0x4000, ip_ttl := 72,
       ip_protocol := protocol, ip_destination := dst\<rparr>"
  define h2 where "h2 = h1\<lparr>ip_source := addr (info dev), ip_checksum := 0\<rparr>"
  have b1: "buffer1 = put_ipv4_header h1 buffer"
    using assms(3) h by (simp add: encapsulate_def h1_def)
  have n1: "header_nibbles h1" by (simp add: header_nibbles_def h1_def)
  have "packet = put_ipv4_header (h2\<lparr>ip_checksum := to_checksum (sum_bytes (ipv4_header_bytes h2))\<rparr>) buffer1"
    using assms(4) unfolding b1 ipv4_fill_def ipv4_header_of_put [OF n1] by (simp add: Let_def h2_def)
  moreover have "drop 20 buffer1 = drop 20 buffer" by (simp add: b1 put_ipv4_header_def)
  moreover have "ip_checksum h2 = 0" by (simp add: h2_def)
  note filled_checksum [OF this]
  ultimately show ?thesis
    by (intro exI [of _ "h2\<lparr>ip_checksum := to_checksum (sum_bytes (ipv4_header_bytes h2))\<rparr>"])
      (simp add: put_ipv4_header_def h2_def h1_def header_nibbles_def)
qed

lemma parse_header_packet:
  assumes "header_nibbles h" "ip_header_len h = 5" "to_checksum (sum_bytes (ipv4_header_bytes h)) = 0"
    and "ip_total_len h = of_nat (20 + length payload)" "20 + length payload < 65536"
    and "accepts dev (ip_destination h)"
  shows "ipv4_parse dev (ipv4_header_bytes h @ payload) =
    Inr (upcall_for (ip_protocol h) payload (ip_source h) (ip_destination h))"
proof -
  have b0: "(ipv4_header_bytes h @ payload) ! 0 AND 0x0F = 5"
    using nibbles_join(1) [of "ip_header_len h" "ip_version h"] assms(1,2)
    by (simp add: ipv4_header_bytes_def header_nibbles_def)
  have tl: "unat (ip_total_len h) = 20 + length payload"
    unfolding assms(4) by (simp only: unat_of_nat) (use assms(5) in simp)
  have four: "4 * unat ((ipv4_header_bytes h @ payload) ! 0 AND 0x0F) = 20" unfolding b0 by simp
  show ?thesis
    unfolding ipv4_parse_def using assms(3,6) four tl
    by (simp add: ipv4_header_of_bytes [OF assms(1)] cell_get_def accepts_def upcall_for_def Let_def)
qed

subsection \<open>Choosing the interface\<close>

definition in_subnet :: "ipv4_addr \<Rightarrow> device option \<Rightarrow> bool" where
  "in_subnet a od \<longleftrightarrow> (case od of None \<Rightarrow> False
     | Some d \<Rightarrow> dev_type d = DEV_NET \<and> isSubnettedWith (addr (info d)) a (mask_addr (info d)))"

definition is_net :: "device option \<Rightarrow> bool" where
  "is_net od \<longleftrightarrow> (case od of None \<Rightarrow> False | Some d \<Rightarrow> dev_type d = DEV_NET)"

lemma interface_loop_hit:
  "\<exists>od \<in> set ds. in_subnet a od \<Longrightarrow> fst (interface_loop a ds i bg bm) = hd (filter (in_subnet a) ds)"
proof (induction ds arbitrary: i bg bm)
  case (Cons od ds)
  show ?case
  proof (cases "in_subnet a od")
    case True
    then obtain d where "od = Some d" by (cases od) (auto simp: in_subnet_def)
    with True show ?thesis by (auto simp: in_subnet_def isSubnettedWith_def Let_def)
  next
    case False
    then have "\<exists>od \<in> set ds. in_subnet a od" using Cons.prems by simp
    note IH = Cons.IH [OF this]
    show ?thesis using False
      by (cases od) (auto simp: IH in_subnet_def isSubnettedWith_def Let_def)
  qed
qed simp

text \<open>What the loop knows of the devices it has passed: the index of the first cheapest one.\<close>

definition best_so_far :: "devices \<Rightarrow> nat \<Rightarrow> int \<Rightarrow> int \<Rightarrow> bool" where
  "best_so_far ds n bg bm \<longleftrightarrow>
     (if bg = -1 then bm = 23232323 \<and> (\<forall>j < n. is_net (ds ! j) \<longrightarrow> 23232323 \<le> metric (the (ds ! j)))
      else 0 \<le> bg \<and> bg < int n \<and> is_net (ds ! nat bg) \<and> metric (the (ds ! nat bg)) = bm \<and> bm < 23232323
        \<and> (\<forall>j < n. is_net (ds ! j) \<longrightarrow> bm \<le> metric (the (ds ! j)) \<and> (metric (the (ds ! j)) = bm \<longrightarrow> nat bg \<le> j)))"

lemma best_so_far_step:
  assumes "best_so_far ds n bg bm" "n < length ds" "ds ! n = Some d" "dev_type d = DEV_NET"
  shows "metric d < bm \<Longrightarrow> best_so_far ds (Suc n) (int n) (metric d)"
    and "\<not> metric d < bm \<Longrightarrow> best_so_far ds (Suc n) bg bm"
proof -
  have net: "is_net (ds ! n)" "the (ds ! n) = d" using assms(3,4) by (simp_all add: is_net_def)
  have bound: "bm \<le> 23232323" using assms(1) by (auto simp: best_so_far_def split: if_splits)
  have all: "is_net (ds ! j) \<Longrightarrow> bm \<le> metric (the (ds ! j))" if "j < n" for j
    using assms(1) that by (auto simp: best_so_far_def split: if_splits)
  show "best_so_far ds (Suc n) (int n) (metric d)" if less: "metric d < bm"
    unfolding best_so_far_def using net bound all less by (force simp: less_Suc_eq)
  show "best_so_far ds (Suc n) bg bm" if "\<not> metric d < bm"
    using assms(1) net that unfolding best_so_far_def by (force simp: less_Suc_eq split: if_splits)
qed

lemma best_so_far_skip:
  "best_so_far ds n bg bm \<Longrightarrow> \<not> is_net (ds ! n) \<Longrightarrow> best_so_far ds (Suc n) bg bm"
  unfolding best_so_far_def by (auto simp: less_Suc_eq split: if_splits)

lemma interface_loop_miss:
  assumes "\<forall>od \<in> set ds. \<not> in_subnet a od" "best_so_far (done @ ds) (length done) bg bm"
  shows "\<exists>bg' bm'. interface_loop a ds (int (length done)) bg bm = (None, bg')
           \<and> best_so_far (done @ ds) (length (done @ ds)) bg' bm'"
  using assms
proof (induction ds arbitrary: "done" bg bm)
  case (Cons od ds)
  have IH: "\<exists>bg' bm'. interface_loop a ds (int (length done) + 1) bg bm = (None, bg')
      \<and> best_so_far (done @ od # ds) (length (done @ od # ds)) bg' bm'"
    if "best_so_far (done @ od # ds) (Suc (length done)) bg bm" for bg bm
    using Cons.IH [of "done @ [od]" bg bm] Cons.prems(1) that by (simp add: add.commute)
  show ?case
  proof (cases "is_net od")
    case False
    then show ?thesis using IH [OF best_so_far_skip [OF Cons.prems(2)]] by (cases od) (auto simp: is_net_def)
  next
    case True
    then obtain d where d: "od = Some d" "dev_type d = DEV_NET" by (cases od) (auto simp: is_net_def)
    have "\<not> isSubnettedWith (addr (info d)) a (mask_addr (info d))"
      using Cons.prems(1) d by (simp add: in_subnet_def)
    then show ?thesis
      using best_so_far_step [OF Cons.prems(2), of d] d IH by (auto simp: isSubnettedWith_def Let_def)
  qed
qed auto

text \<open>
  Interface selection. The packet goes out through the first network device whose subnet
  holds the destination; when there is none, through the first network device of the least
  metric among those below 23232323, and nowhere when there is no such device.
\<close>

lemma get_interface_spec:
  "((\<exists>od \<in> set ds. in_subnet a od) \<longrightarrow> get_interface ds a = hd (filter (in_subnet a) ds))
   \<and> ((\<forall>od \<in> set ds. \<not> in_subnet a od) \<longrightarrow>
      (case get_interface ds a of
         None \<Rightarrow> \<forall>od \<in> set ds. is_net od \<longrightarrow> 23232323 \<le> metric (the od)
       | Some d \<Rightarrow> \<exists>i < length ds. ds ! i = Some d \<and> dev_type d = DEV_NET \<and> metric d < 23232323
           \<and> (\<forall>j < length ds. is_net (ds ! j) \<longrightarrow> metric d \<le> metric (the (ds ! j))
                \<and> (metric (the (ds ! j)) = metric d \<longrightarrow> i \<le> j))))"
proof (intro conjI impI)
  assume hit: "\<exists>od \<in> set ds. in_subnet a od"
  then have "in_subnet a (hd (filter (in_subnet a) ds))"
    by (metis (mono_tags, lifting) filter_empty_conv hd_in_set mem_Collect_eq set_filter)
  then show "get_interface ds a = hd (filter (in_subnet a) ds)"
    using interface_loop_hit [OF hit, of 0 "-1" 23232323]
    by (cases "hd (filter (in_subnet a) ds)") (auto simp: get_interface_def in_subnet_def split: prod.splits)
next
  assume miss: "\<forall>od \<in> set ds. \<not> in_subnet a od"
  have "best_so_far ([] @ ds) (length []) (-1) 23232323" by (simp add: best_so_far_def)
  from interface_loop_miss [OF miss this] obtain bg bm where
    l: "interface_loop a ds 0 (-1) 23232323 = (None, bg)" "best_so_far ds (length ds) bg bm" by auto
  show "case get_interface ds a of
         None \<Rightarrow> \<forall>od \<in> set ds. is_net od \<longrightarrow> 23232323 \<le> metric (the od)
       | Some d \<Rightarrow> \<exists>i < length ds. ds ! i = Some d \<and> dev_type d = DEV_NET \<and> metric d < 23232323
           \<and> (\<forall>j < length ds. is_net (ds ! j) \<longrightarrow> metric d \<le> metric (the (ds ! j))
                \<and> (metric (the (ds ! j)) = metric d \<longrightarrow> i \<le> j))"
  proof (cases "bg = -1")
    case True
    then have "get_interface ds a = None" by (simp add: get_interface_def l(1) devices_get_def)
    then show ?thesis using l(2) True by (auto simp: best_so_far_def in_set_conv_nth)
  next
    case False
    then have b: "0 \<le> bg" "nat bg < length ds" "is_net (ds ! nat bg)" "metric (the (ds ! nat bg)) = bm" "bm < 23232323"
        "\<forall>j < length ds. is_net (ds ! j) \<longrightarrow> bm \<le> metric (the (ds ! j)) \<and> (metric (the (ds ! j)) = bm \<longrightarrow> nat bg \<le> j)"
      using l(2) by (auto simp: best_so_far_def)
    then obtain d where d: "ds ! nat bg = Some d" "dev_type d = DEV_NET"
      by (cases "ds ! nat bg") (auto simp: is_net_def)
    moreover from this have "get_interface ds a = Some d"
      using b(1,2) by (simp add: get_interface_def l(1) devices_get_def)
    ultimately show ?thesis using b by (auto intro!: exI [of _ "nat bg"])
  qed
qed

text \<open>Two network interfaces, for the examples below.\<close>

definition lo_device :: device where
  "lo_device = \<lparr>dev_type = DEV_NET, info = \<lparr>mac = MAC 0 0 0 0 0 0, addr = IPv4 127 0 0 1,
     mask_addr = IPv4 255 0 0 0, broadcast = IPv4 127 255 255 255, gateway = IPv4 0 0 0 0\<rparr>, metric = 1000000\<rparr>"

definition eth_device :: device where
  "eth_device = \<lparr>dev_type = DEV_NET, info = \<lparr>mac = MAC 2 0 0 0 0 1, addr = IPv4 10 0 0 2,
     mask_addr = IPv4 255 255 255 0, broadcast = IPv4 10 0 0 255, gateway = IPv4 10 0 0 1\<rparr>, metric = 100\<rparr>"

subsection \<open>End to end\<close>

lemma encapsulate_rest:
  assumes "length head = 20" "encapsulate (head @ rest) len dst protocol = Inr buffer"
  shows "encapsulate (head @ rest') len dst protocol = Inr (take 20 buffer @ rest')"
proof -
  have "ipv4_header_of (head @ r) = ipv4_header_of head" for r
    using list_20 [OF assms(1)] by (elim exE) simp
  then show ?thesis using assms by (auto simp: encapsulate_def put_ipv4_header_def res_bind_Inr_iff)
qed

lemma delivered:
  assumes "length head = 20" "length payload + 20 < 65536"
  shows "\<exists>buffer packet. encapsulate (head @ payload) (of_nat (length payload)) dst protocol = Inr buffer
    \<and> ipv4_fill dev buffer = Inr packet \<and> length packet = length payload + 20
    \<and> ipv4_parse dev' packet = Inr (if accepts dev' dst
        then upcall_for protocol payload (addr (info dev)) dst else None)"
proof -
  let ?b = "head @ payload" and ?n = "of_nat (length payload) :: u16"
  have "20 \<le> length ?b" using assms by simp
  then obtain h0 where "ipv4_header_of ?b = Inr h0" using ipv4_header_of_ok by blast
  then obtain buffer where e: "encapsulate ?b ?n dst protocol = Inr buffer" "length buffer = length ?b"
    using assms by (simp add: encapsulate_def put_ipv4_header_def)
  then obtain packet where f: "ipv4_fill dev buffer = Inr packet" "length packet = length ?b"
    using ipv4_fill_total [of buffer dev] assms by auto
  obtain h where h: "packet = ipv4_header_bytes h @ payload" "header_nibbles h" "ip_header_len h = 5"
      "ip_total_len h = ?n + 20" "ip_protocol h = protocol" "ip_source h = addr (info dev)"
      "ip_destination h = dst" "to_checksum (sum_bytes (ipv4_header_bytes h)) = 0"
    using sent_packet [OF \<open>20 \<le> length ?b\<close> _ e(1) f(1)] assms by auto
  have "ipv4_parse dev' packet = Inr (if accepts dev' dst
      then upcall_for protocol payload (addr (info dev)) dst else None)"
  proof (cases "accepts dev' dst")
    case True
    then show ?thesis
      unfolding h(1) using parse_header_packet [OF h(2,3,8), of payload dev'] h assms(2) by (simp add: add.commute)
  next
    case False
    have "ipv4_header_of packet = Inr h" unfolding h(1) by (rule ipv4_header_of_bytes [OF h(2)])
    then show ?thesis using False f(2) assms h(7)
      by (simp add: ipv4_parse_def cell_get_def Let_def accepts_def)
  qed
  with e f assms show ?thesis by simp
qed

text \<open>
  C10. An encapsulated packet arrives. Whatever is in the buffer's first 20 bytes, a packet
  built by \<open>encapsulate\<close>, completed by \<open>send\<close> on one device and handed to \<open>parse\<close> on a device
  that owns the destination (or for which it is a broadcast) reaches the transport layer its
  protocol names with exactly the payload, the sender's address and the destination; on any
  other device it is dropped.
\<close>

theorem ipv4_delivery:
  assumes "length head = 20" "length payload + 20 < 65536"
  shows "\<exists>buffer packet. encapsulate (head @ payload) (of_nat (length payload)) dst protocol = Inr buffer
    \<and> ipv4_fill dev buffer = Inr packet \<and> length packet = length payload + 20
    \<and> ipv4_parse dev' packet = Inr (if accepts dev' dst
        then upcall_for protocol payload (addr (info dev)) dst else None)"
  by (rule delivered [OF assms])

text \<open>Witness of C10: a three-byte UDP payload from one Ethernet device to itself.\<close>

theorem ipv4_delivery_witness:
  "\<exists>buffer packet. encapsulate (replicate 20 7 @ [1, 2, 3]) 3 (IPv4 10 0 0 2) 17 = Inr buffer
    \<and> ipv4_fill eth_device buffer = Inr packet \<and> length packet = 23
    \<and> ipv4_parse eth_device packet = Inr (Some (UDP_parse [1, 2, 3] (IPv4 10 0 0 2) (IPv4 10 0 0 2)))"
  using ipv4_delivery [of "replicate 20 7" "[1, 2, 3]" "IPv4 10 0 0 2" 17 eth_device eth_device]
  by (simp add: accepts_def upcall_for_def eth_device_def IPv4_TCP_def IPv4_UDP_def)

subsection \<open>The retransmission queue\<close>

definition queue_cost :: "retx_frame list \<Rightarrow> nat" where
  "queue_cost q = sum_list (map (\<lambda>f. unat (frame_cost (fr_len f))) q)"

definition frame_ok :: "retx_frame \<Rightarrow> bool" where
  "frame_ok f \<longleftrightarrow> unat (tries f) < 8 \<and> 20 \<le> length (fr_data f) \<and> length (fr_data f) = unat (fr_len f)"

definition retx_inv :: "retx_state \<Rightarrow> bool" where
  "retx_inv q \<longleftrightarrow> unat (m_retx_queue_size q) = queue_cost (m_retx_queue q)
     \<and> queue_cost (m_retx_queue q) \<le> 65536 \<and> (\<forall>f \<in> set (m_retx_queue q). frame_ok f)"

lemma frame_cost_unat: "unat (frame_cost len) = 40 + 16 * ((unat len + 15) div 16)"
proof -
  have l: "unat len < 65536" using unat_less_2p [of len] by simp
  have "unat (ucast len :: u64) = unat len" using l by (simp add: unat_ucast_mod)
  then have s: "unat (ucast len + 16 - 1 :: u64) = unat len + 15"
    using l by (simp add: unat_word_ariths)
  have d: "(unat len + 15) div 16 \<le> 4096" using l by linarith
  have "unat (size_ceil (ucast len) 16) = (unat len + 15) div 16 * 16"
    unfolding size_ceil_def using s d by (simp add: unat_word_ariths unat_div)
  then show ?thesis
    using d by (simp add: frame_cost_def frame_msize_def SIZEOF_RETX_FRAME_def unat_word_ariths)
qed

lemma frame_cost_bound: "unat (frame_cost len) \<le> 65600"
  using unat_less_2p [of len] by (simp add: frame_cost_unat)

lemma queue_cost_erase:
  assumes "i < length q"
  shows "queue_cost q = unat (frame_cost (fr_len (q ! i))) + queue_cost (erase_at i q)"
  by (subst erase_at_split [OF assms]) (simp add: queue_cost_def erase_at_def)

lemma queue_cost_update:
  assumes "i < length q" "fr_len f = fr_len (q ! i)"
  shows "queue_cost (q[i := f]) = queue_cost q"
proof -
  let ?g = "\<lambda>f. unat (frame_cost (fr_len f))"
  have "map ?g (q[i := f]) = (map ?g q)[i := map ?g q ! i]" using assms by (simp add: map_update)
  then show ?thesis unfolding queue_cost_def by (simp only: list_update_id)
qed

lemma retx_inv_add:
  assumes "retx_inv q" "20 \<le> length buffer" "length buffer < 65536"
  shows "retx_inv (retx_add buffer q)"
proof -
  let ?n = "of_nat (length buffer) :: u16"
  have n: "unat ?n = length buffer" using assms(3) by (simp add: unat_of_nat)
  let ?s = "ucast (m_retx_queue_size q) + frame_cost ?n :: u64"
  have "unat (ucast (m_retx_queue_size q) :: u64) = queue_cost (m_retx_queue q)"
    using assms(1) unat_less_2p [of "m_retx_queue_size q"] by (simp add: retx_inv_def unat_ucast_mod)
  then have s: "unat ?s = queue_cost (m_retx_queue q) + unat (frame_cost ?n)"
    using assms(1) frame_cost_bound [of ?n] by (simp add: retx_inv_def unat_word_ariths)
  show ?thesis
  proof (cases "?s > ucast MAX_RETX_QUEUE_SIZE")
    case True
    then show ?thesis using assms(1) by (simp add: retx_add_def Let_def)
  next
    case False
    then have le: "queue_cost (m_retx_queue q) + unat (frame_cost ?n) \<le> 65536"
      unfolding not_less word_le_nat_alt s by (simp add: MAX_RETX_QUEUE_SIZE_def)
    then have "unat (ucast ?s :: u32) = queue_cost (m_retx_queue q) + unat (frame_cost ?n)"
      by (simp add: unat_ucast_mod s)
    then show ?thesis
      using False le assms n by (auto simp: retx_add_def Let_def retx_inv_def queue_cost_def frame_ok_def)
  qed
qed

lemma retx_inv_erase:
  assumes "retx_inv q" "i < length (m_retx_queue q)"
  shows "retx_inv (q\<lparr>m_retx_queue_size := ucast (ucast (m_retx_queue_size q) - frame_cost (fr_len (m_retx_queue q ! i))),
           m_retx_queue := erase_at i (m_retx_queue q)\<rparr>)"
proof -
  let ?c = "frame_cost (fr_len (m_retx_queue q ! i))" and ?s = "m_retx_queue_size q"
  have u: "unat (ucast ?s :: u64) = unat ?s" using unat_less_2p [of ?s] by (simp add: unat_ucast_mod)
  have cost: "unat ?s = unat ?c + queue_cost (erase_at i (m_retx_queue q))" "unat ?s \<le> 65536"
    using assms(1) queue_cost_erase [OF assms(2)] by (auto simp: retx_inv_def)
  then have "unat (ucast ?s - ?c :: u64) = queue_cost (erase_at i (m_retx_queue q))"
    using u by (simp add: unat_sub word_le_nat_alt)
  then have "unat (ucast (ucast ?s - ?c :: u64) :: u32) = queue_cost (erase_at i (m_retx_queue q))"
    using cost by (simp add: unat_ucast_mod)
  then show ?thesis using assms cost set_erase_at [of i "m_retx_queue q"] by (auto simp: retx_inv_def)
qed

lemma tries_step:
  "unat (t :: u8) < 8 \<Longrightarrow> unat (t + 1) = Suc (unat t)"
  "unat (t :: u8) < 8 \<Longrightarrow> t + 1 \<noteq> MAX_RETX_TRIES \<Longrightarrow> unat (t + 1) < 8"
proof -
  show *: "unat (t + 1) = Suc (unat t)" if "unat t < 8" using that by (simp add: unat_word_ariths)
  show "unat (t + 1) < 8" if "unat t < 8" "t + 1 \<noteq> MAX_RETX_TRIES"
  proof -
    have "unat (t + 1) \<noteq> 8" using that(2) by (simp add: MAX_RETX_TRIES_def word_unat_eq_iff)
    then show ?thesis using * [OF that(1)] that(1) by simp
  qed
qed

text \<open>One pass: frames behind \<open>i\<close> have been tried once more than \<open>k\<close> times.\<close>

definition aged :: "nat \<Rightarrow> nat \<Rightarrow> retx_frame list \<Rightarrow> bool" where
  "aged k i q \<longleftrightarrow> (\<forall>j < length q. (if j < i then k < unat (tries (q ! j)) else k \<le> unat (tries (q ! j))))"

lemma aged_erase: "aged k i q \<Longrightarrow> i < length q \<Longrightarrow> aged k i (erase_at i q)"
  by (auto simp: aged_def erase_at_def nth_append min_def)

lemma aged_update:
  "aged k i q \<Longrightarrow> i < length q \<Longrightarrow> k < unat (tries f) \<Longrightarrow> aged k (Suc i) (q[i := f])"
  by (auto simp: aged_def nth_list_update less_Suc_eq)

lemma retx_loop_ok:
  assumes "retx_inv q" "aged k i (m_retx_queue q)"
  shows "\<exists>q' w'. retx_loop drv ds i q w = Inr (q', w') \<and> retx_inv q'
           \<and> (\<forall>f \<in> set (m_retx_queue q'). k < unat (tries f))"
  using assms
proof (induction drv ds i q w rule: retx_loop.induct)
  case (1 drv ds i q w)
  show ?case
  proof (cases "i < length (m_retx_queue q)")
    case False
    then show ?thesis using 1(3,4) by (subst retx_loop.simps) (auto simp: aged_def in_set_conv_nth)
  next
    case True
    let ?f = "m_retx_queue q ! i"
    have f: "frame_ok ?f" using 1(3) True by (simp add: retx_inv_def)
    then obtain err buffer w1 where send: "ipv4_send drv ds (fr_data ?f) w = Inr (err, buffer, w1)"
        "length buffer = length (fr_data ?f)"
      using ipv4_send_total [of "fr_data ?f" drv ds w] by (auto simp: frame_ok_def)
    show ?thesis
    proof (cases "err = ENONE \<or> tries ?f + 1 = MAX_RETX_TRIES")
      case out: True
      show ?thesis
        using 1(1) [OF True refl refl send(1) refl refl out retx_inv_erase [OF 1(3) True]] aged_erase [OF 1(4) True]
          True out send by (subst retx_loop.simps) simp
    next
      case stay: False
      let ?f' = "?f\<lparr>tries := tries ?f + 1, fr_data := buffer\<rparr>"
      have t: "unat (tries ?f + 1) = Suc (unat (tries ?f))" "unat (tries ?f + 1) < 8"
        using tries_step [of "tries ?f"] f stay by (simp_all add: frame_ok_def)
      have "k < unat (tries ?f')" using t 1(4) True by (auto simp: aged_def)
      moreover have "retx_inv (q\<lparr>m_retx_queue := (m_retx_queue q)[i := ?f']\<rparr>)"
        using 1(3) True t f send(2) by (auto simp: retx_inv_def queue_cost_update frame_ok_def
            dest!: set_update_subset_insert [THEN subsetD])
      ultimately show ?thesis
        using 1(2) [OF True refl refl send(1) refl refl stay] aged_update [OF 1(4) True, of ?f'] True stay send
        by (subst retx_loop.simps) (simp add: Let_def)
    qed
  qed
qed

fun retx_rounds :: "'w driver \<Rightarrow> devices \<Rightarrow> nat \<Rightarrow> retx_state \<Rightarrow> 'w \<Rightarrow> (retx_state \<times> 'w) res" where
  "retx_rounds drv ds 0 q w = Inr (q, w)"
| "retx_rounds drv ds (Suc n) q w = res_bind (retx drv ds q w) (\<lambda>(_, q, w). retx_rounds drv ds n q w)"

lemma retx_rounds_ok:
  assumes "retx_inv q" "\<forall>f \<in> set (m_retx_queue q). k \<le> unat (tries f)"
  shows "\<exists>q' w'. retx_rounds drv ds n q w = Inr (q', w') \<and> retx_inv q'
           \<and> (\<forall>f \<in> set (m_retx_queue q'). k + n \<le> unat (tries f))"
  using assms
proof (induction n arbitrary: k q w)
  case (Suc n)
  have "aged k 0 (m_retx_queue q)" using Suc.prems(2) by (simp add: aged_def)
  then obtain q1 w1 where 1: "retx_loop drv ds 0 q w = Inr (q1, w1)" "retx_inv q1"
      "\<forall>f \<in> set (m_retx_queue q1). Suc k \<le> unat (tries f)"
    using retx_loop_ok [OF Suc.prems(1)] by (metis Suc_leI)
  show ?case using Suc.IH [OF 1(2,3)] 1(1) by (simp add: retx_def)
qed simp

text \<open>
  C11. The retransmission queue is bounded and drains. The byte count kept beside the queue is
  the memory its frames use, never above 64 KiB; queueing keeps that, no frame is retried
  more than 8 times, and whatever the drivers answer, 8 passes of the retransmission loop
  empty a queue nothing is added to.
\<close>

theorem retx_bounded_and_drains:
  assumes "retx_inv q"
  shows "(20 \<le> length buffer \<and> length buffer < 65536 \<longrightarrow>
            (\<exists>err q' w'. ipv4_route drv ds buffer q w = Inr (err, q', w') \<and> retx_inv q'))
    \<and> (\<exists>q' w'. retx_rounds drv ds n q w = Inr (q', w') \<and> retx_inv q')
    \<and> (\<exists>q' w'. retx_rounds drv ds 8 q w = Inr (q', w') \<and> m_retx_queue q' = [] \<and> m_retx_queue_size q' = 0)"
proof (intro conjI impI)
  assume b: "20 \<le> length buffer \<and> length buffer < 65536"
  then obtain err buffer' w' where "ipv4_send drv ds buffer w = Inr (err, buffer', w')" "length buffer' = length buffer"
    using ipv4_send_total [of buffer drv ds w] by auto
  then show "\<exists>err q' w'. ipv4_route drv ds buffer q w = Inr (err, q', w') \<and> retx_inv q'"
    using b assms retx_inv_add [of q buffer'] by (simp add: ipv4_route_def)
next
  show "\<exists>q' w'. retx_rounds drv ds n q w = Inr (q', w') \<and> retx_inv q'"
    using retx_rounds_ok [OF assms, of 0] by (meson le0)
next
  obtain q' w' where r: "retx_rounds drv ds 8 q w = Inr (q', w')" "retx_inv q'"
      "\<forall>f \<in> set (m_retx_queue q'). 0 + 8 \<le> unat (tries f)"
    using retx_rounds_ok [OF assms, of 0 drv ds 8 w] by auto
  have "m_retx_queue q' = []"
  proof (cases "m_retx_queue q'")
    case (Cons f fs)
    then show ?thesis using r(2,3) by (auto simp: retx_inv_def frame_ok_def)
  qed simp
  with r show "\<exists>q' w'. retx_rounds drv ds 8 q w = Inr (q', w') \<and> m_retx_queue q' = [] \<and> m_retx_queue_size q' = 0"
    by (auto simp: retx_inv_def queue_cost_def unat_eq_0)
qed

text \<open>Witness of C11: one queued frame and a driver that is always busy.\<close>

theorem retx_bounded_and_drains_witness:
  "\<exists>q' w'. retx_rounds (\<lambda>d b t w. (EAGAIN, Suc w)) [Some eth_device] 8
     \<lparr>m_retx_queue = [\<lparr>tries = 0, fr_data = replicate 20 0, fr_len = 20\<rparr>], m_retx_queue_size = 72\<rparr> (0 :: nat)
     = Inr (q', w') \<and> m_retx_queue q' = []"
proof -
  have "retx_inv \<lparr>m_retx_queue = [\<lparr>tries = 0, fr_data = replicate 20 0, fr_len = 20\<rparr>], m_retx_queue_size = 72\<rparr>"
    by (simp add: retx_inv_def frame_ok_def queue_cost_def frame_cost_unat)
  from retx_bounded_and_drains [OF this, of "[]" "\<lambda>d b t w. (EAGAIN, Suc w)" "[Some eth_device]" 0 0]
  show ?thesis by blast
qed

end
