(* ===== verification/Arp.thy ===== *)
theory Arp
  imports Ipv4
begin

unbundle bit_operations_syntax

text \<open>
  Address resolution: the ARP table (\<open>layer/link/arp/table.cpp\<close>) and the ARP layer
  (\<open>layer/link/arp.cpp\<close>) of the network stack. The table holds the learned entries and the
  queries under way; time is the kernel's uptime in nanoseconds, an argument of every
  operation that reads it. What C++ leaves uninitialised (the \<open>updating\<close> flag of a new
  entry, the destination address of a request) is an argument too.
\<close>

definition to_arp_uuid :: "u16 \<Rightarrow> u16 \<Rightarrow> u32" where
  "to_arp_uuid hardware protocol = ucast hardware + push_bit 16 (ucast protocol)"

definition ARP_ETHERNET :: u16 where "ARP_ETHERNET = 1"
definition ETH_IPv4 :: u16 where "ETH_IPv4 = 0x0800"
definition ARP_REQUEST :: u16 where "ARP_REQUEST = 1"
definition ARP_REPLY :: u16 where "ARP_REPLY = 2"

abbreviation eth_ipv4_uuid :: u32 where
  "eth_ipv4_uuid \<equiv> to_arp_uuid ARP_ETHERNET ETH_IPv4"

definition ARP_REFRESH_NS :: u64 where "ARP_REFRESH_NS = 10 * 1000000000"
definition ARP_TIMEOUT_NS :: u64 where "ARP_TIMEOUT_NS = 15 * 1000000000"
definition ARP_INTERVAL_NS :: u64 where "ARP_INTERVAL_NS = 1 * 1000000000"
definition ARP_RETRIES :: u32 where "ARP_RETRIES = 5"

record arp_entry =
  en_uuid :: u32
  set_at :: u64
  updating :: bool
  en_ipv4 :: ipv4_addr
  en_mac :: mac_addr

record arp_query =
  qu_uuid :: u32
  retry_at :: u64
  retries :: u32
  qu_ipv4 :: ipv4_addr

record arp_table =
  m_entries :: "arp_entry list"
  m_queries :: "arp_query list"

subsection \<open>The table\<close>

fun find_query :: "ipv4_addr \<Rightarrow> arp_query list \<Rightarrow> bool" where
  "find_query ip [] = False"
| "find_query ip (q # qs) =
     (if qu_uuid q \<noteq> eth_ipv4_uuid then find_query ip qs
      else if addr_eq (qu_ipv4 q) ip then True else find_query ip qs)"

definition query_mac :: "ipv4_addr \<Rightarrow> arp_table \<Rightarrow> arp_table" where
  "query_mac ip t =
     (if find_query ip (m_queries t) then t
      else t\<lparr>m_queries := m_queries t @ [\<lparr>qu_uuid = eth_ipv4_uuid, retry_at = 0, retries = 0, qu_ipv4 = ip\<rparr>]\<rparr>)"

text \<open>The index at which the scan of the entries stops.\<close>

fun find_entry :: "ipv4_addr \<Rightarrow> arp_entry list \<Rightarrow> nat \<Rightarrow> nat option" where
  "find_entry ip [] i = None"
| "find_entry ip (e # es) i =
     (if en_uuid e \<noteq> eth_ipv4_uuid then find_entry ip es (i + 1)
      else if addr_eq (en_ipv4 e) ip then Some i else find_entry ip es (i + 1))"

text \<open>A stale entry is left in place: the \<open>erase\<close> goes to the queries.\<close>

definition get_mac :: "u64 \<Rightarrow> ipv4_addr \<Rightarrow> arp_table \<Rightarrow> mac_addr option \<times> arp_table" where
  "get_mac time ip t = (case find_entry ip (m_entries t) 0 of
     None \<Rightarrow> (None, query_mac ip t)
   | Some i \<Rightarrow>
       let entry = m_entries t ! i in
       if time - set_at entry > ARP_TIMEOUT_NS then
         (None, query_mac ip (t\<lparr>m_queries := erase_at i (m_queries t)\<rparr>))
       else if time - set_at entry > ARP_REFRESH_NS then
         (Some (en_mac entry), query_mac ip (t\<lparr>m_entries := (m_entries t)[i := entry\<lparr>updating := True\<rparr>]\<rparr>))
       else (Some (en_mac entry), t))"

text \<open>The first loop of \<open>set_mac\<close>: every query for the address is dropped.\<close>

function drop_queries :: "ipv4_addr \<Rightarrow> nat \<Rightarrow> arp_query list \<Rightarrow> arp_query list" where
  "drop_queries ip i qs =
     (if i < length qs then
        if qu_uuid (qs ! i) \<noteq> eth_ipv4_uuid then drop_queries ip (i + 1) qs
        else if addr_eq (qu_ipv4 (qs ! i)) ip then drop_queries ip i (erase_at i qs)
        else drop_queries ip (i + 1) qs
      else qs)"
  by pat_completeness auto
termination
  by (relation "measure (\<lambda>(ip, i, qs). length qs - i)") auto

declare drop_queries.simps [simp del]

definition set_mac :: "u64 \<Rightarrow> bool \<Rightarrow> ipv4_addr \<Rightarrow> mac_addr \<Rightarrow> arp_table \<Rightarrow> arp_table" where
  "set_mac time junk ip mc t =
     (let t = t\<lparr>m_queries := drop_queries ip 0 (m_queries t)\<rparr> in
      case find_entry ip (m_entries t) 0 of
        Some i \<Rightarrow> t\<lparr>m_entries := (m_entries t)[i := (m_entries t ! i)\<lparr>set_at := time, updating := False, en_mac := mc\<rparr>]\<rparr>
      | None \<Rightarrow> t\<lparr>m_entries := m_entries t @ [\<lparr>en_uuid = eth_ipv4_uuid, set_at = time, updating = junk,
                   en_ipv4 = ip, en_mac = mc\<rparr>]\<rparr>)"

subsection \<open>Packets\<close>

record arp_packet =
  hardware_type :: u16
  protocol_type :: u16
  hardware_len :: u8
  protocol_len :: u8
  operation :: u16
  source_mac :: mac_addr
  source_ipv4 :: ipv4_addr
  destination_mac :: mac_addr
  destination_ipv4 :: ipv4_addr
  footer :: "u8 list"

definition arp_packet_bytes :: "arp_packet \<Rightarrow> u8 list" where
  "arp_packet_bytes p = be_bytes16 (hardware_type p) @ be_bytes16 (protocol_type p)
     @ [hardware_len p, protocol_len p] @ be_bytes16 (operation p)
     @ mac_bytes (source_mac p) @ addr_bytes (source_ipv4 p)
     @ mac_bytes (destination_mac p) @ addr_bytes (destination_ipv4 p) @ footer p"

text \<open>\<open>aexAEXaexAEX\<close>\<close>

definition AEX_FOOTER :: "u8 list" where
  "AEX_FOOTER = [97, 101, 120, 65, 69, 88, 97, 101, 120, 65, 69, 88]"

definition mac_request :: "mac_addr \<Rightarrow> device \<Rightarrow> ipv4_addr \<Rightarrow> arp_packet" where
  "mac_request junk_mac dev ip =
     \<lparr>hardware_type = ARP_ETHERNET, protocol_type = ETH_IPv4, hardware_len = 6, protocol_len = 4,
       operation = ARP_REQUEST, source_mac = mac (info dev), source_ipv4 = addr (info dev),
       destination_mac = junk_mac, destination_ipv4 = ip, footer = AEX_FOOTER\<rparr>"

definition send_mac_request :: "'w driver \<Rightarrow> devices \<Rightarrow> mac_addr \<Rightarrow> ipv4_addr \<Rightarrow> 'w \<Rightarrow> 'w" where
  "send_mac_request drv ds junk_mac ip w = (case get_interface ds ip of
     None \<Rightarrow> w
   | Some dev \<Rightarrow> snd (drv dev (arp_packet_bytes (mac_request junk_mac dev ip)) NET_ARP w))"

text \<open>One round of \<open>ARPTable::loop\<close>, over the queries from index \<open>i\<close> on.\<close>

function arp_loop ::
  "'w driver \<Rightarrow> devices \<Rightarrow> mac_addr \<Rightarrow> u64 \<Rightarrow> nat \<Rightarrow> arp_query list \<Rightarrow> 'w \<Rightarrow> arp_query list \<times> 'w" where
  "arp_loop drv ds junk_mac time i qs w =
     (if i < length qs then
        let query = qs ! i in
        if time < retry_at query then arp_loop drv ds junk_mac time (i + 1) qs w
        else if retries query = ARP_RETRIES then arp_loop drv ds junk_mac time i (erase_at i qs) w
        else arp_loop drv ds junk_mac time (i + 1)
               (qs[i := query\<lparr>retry_at := time + ARP_INTERVAL_NS, retries := retries query + 1\<rparr>])
               (if qu_uuid query = eth_ipv4_uuid then send_mac_request drv ds junk_mac (qu_ipv4 query) w else w)
      else (qs, w))"
  by pat_completeness auto
termination
  by (relation "measure (\<lambda>(drv, ds, junk_mac, time, i, qs, w). length qs - i)") (auto simp: Let_def)

declare arp_loop.simps [simp del]

definition arp_round :: "'w driver \<Rightarrow> devices \<Rightarrow> mac_addr \<Rightarrow> u64 \<Rightarrow> arp_table \<Rightarrow> 'w \<Rightarrow> arp_table \<times> 'w" where
  "arp_round drv ds junk_mac time t w =
     (let (qs, w) = arp_loop drv ds junk_mac time 0 (m_queries t) w in (t\<lparr>m_queries := qs\<rparr>, w))"

text \<open>
  The fields of \<open>(arp_packet*) buffer\<close> the handler reads one by one, and the whole 40-byte
  structure, which it copies to answer a request.
\<close>

fun arp_sender_of :: "u8 list \<Rightarrow> (mac_addr \<times> ipv4_addr) res" where
  "arp_sender_of (h1 # h2 # p1 # p2 # hl # pl # o1 # o2 # sm1 # sm2 # sm3 # sm4 # sm5 # sm6
      # s1 # s2 # s3 # s4 # rest) = Inr (MAC sm1 sm2 sm3 sm4 sm5 sm6, IPv4 s1 s2 s3 s4)"
| "arp_sender_of _ = Inl OutOfBounds"

definition arp_target_of :: "u8 list \<Rightarrow> ipv4_addr res" where
  "arp_target_of buffer = res_bind (cell_get buffer 24) (\<lambda>a. res_bind (cell_get buffer 25) (\<lambda>b.
     res_bind (cell_get buffer 26) (\<lambda>c. res_bind (cell_get buffer 27) (\<lambda>d. Inr (IPv4 a b c d)))))"

fun arp_packet_of :: "u8 list \<Rightarrow> arp_packet res" where
  "arp_packet_of (h1 # h2 # p1 # p2 # hl # pl # o1 # o2 # sm1 # sm2 # sm3 # sm4 # sm5 # sm6
      # s1 # s2 # s3 # s4 # dm1 # dm2 # dm3 # dm4 # dm5 # dm6 # d1 # d2 # d3 # d4 # rest) =
     (if length rest < 12 then Inl OutOfBounds
      else Inr \<lparr>hardware_type = get_be16 h1 h2, protocol_type = get_be16 p1 p2, hardware_len = hl,
       protocol_len = pl, operation = get_be16 o1 o2, source_mac = MAC sm1 sm2 sm3 sm4 sm5 sm6,
       source_ipv4 = IPv4 s1 s2 s3 s4, destination_mac = MAC dm1 dm2 dm3 dm4 dm5 dm6,
       destination_ipv4 = IPv4 d1 d2 d3 d4, footer = take 12 rest\<rparr>)"
| "arp_packet_of _ = Inl OutOfBounds"

definition handle_eth_ipv4 ::
  "'w driver \<Rightarrow> device \<Rightarrow> u64 \<Rightarrow> bool \<Rightarrow> u8 list \<Rightarrow> arp_table \<Rightarrow> 'w \<Rightarrow> (arp_table \<times> 'w) res" where
  "handle_eth_ipv4 drv dev time junk buffer t w =
     res_bind (cell_get buffer 4) (\<lambda>hl. res_bind (cell_get buffer 5) (\<lambda>pl.
     if hl \<noteq> 6 \<or> pl \<noteq> 4 then Inr (t, w)
     else res_bind (cell_get buffer 6) (\<lambda>o1. res_bind (cell_get buffer 7) (\<lambda>o2.
       let op = get_be16 o1 o2 in
       if op = ARP_REQUEST then
         res_bind (arp_target_of buffer) (\<lambda>target.
           if \<not> addr_eq (addr (info dev)) target then Inr (t, w)
           else res_bind (arp_packet_of buffer) (\<lambda>packet.
             let reply = packet\<lparr>operation := ARP_REPLY, source_ipv4 := addr (info dev),
                   source_mac := mac (info dev), destination_ipv4 := source_ipv4 packet,
                   destination_mac := source_mac packet, footer := AEX_FOOTER\<rparr>
             in Inr (t, snd (drv dev (arp_packet_bytes reply) NET_ARP w))))
       else if op = ARP_REPLY then
         res_bind (arp_sender_of buffer) (\<lambda>(src_mac, src_ipv4).
           Inr (set_mac time junk src_ipv4 src_mac t, w))
       else Inr (t, w)))))"

definition arp_parse ::
  "'w driver \<Rightarrow> device \<Rightarrow> u64 \<Rightarrow> bool \<Rightarrow> u8 list \<Rightarrow> arp_table \<Rightarrow> 'w \<Rightarrow> (arp_table \<times> 'w) res" where
  "arp_parse drv dev time junk buffer t w =
     res_bind (cell_get buffer 4) (\<lambda>hl. res_bind (cell_get buffer 5) (\<lambda>pl.
     if length buffer < 8 + unat hl + unat pl then Inr (t, w)
     else res_bind (cell_get buffer 0) (\<lambda>h1. res_bind (cell_get buffer 1) (\<lambda>h2.
       res_bind (cell_get buffer 2) (\<lambda>p1. res_bind (cell_get buffer 3) (\<lambda>p2.
         if to_arp_uuid (get_be16 h1 h2) (get_be16 p1 p2) = eth_ipv4_uuid
         then handle_eth_ipv4 drv dev time junk buffer t w else Inr (t, w)))))))"

subsection \<open>The table as a map\<close>

definition arp_inv :: "arp_table \<Rightarrow> bool" where
  "arp_inv t \<longleftrightarrow> (\<forall>e \<in> set (m_entries t). en_uuid e = eth_ipv4_uuid) \<and> distinct (map en_ipv4 (m_entries t))
     \<and> (\<forall>q \<in> set (m_queries t). qu_uuid q = eth_ipv4_uuid \<and> unat (retries q) \<le> 5)
     \<and> distinct (map qu_ipv4 (m_queries t))"

lemma find_query_iff:
  "\<forall>q \<in> set qs. qu_uuid q = eth_ipv4_uuid \<Longrightarrow> find_query ip qs \<longleftrightarrow> ip \<in> qu_ipv4 ` set qs"
  by (induction qs) auto

lemma find_entry_cases:
  assumes "\<forall>e \<in> set es. en_uuid e = eth_ipv4_uuid"
  shows "case find_entry ip es k of
     None \<Rightarrow> ip \<notin> en_ipv4 ` set es
   | Some i \<Rightarrow> k \<le> i \<and> i - k < length es \<and> en_ipv4 (es ! (i - k)) = ip"
  using assms
proof (induction es arbitrary: k)
  case (Cons e es)
  show ?case
  proof (cases "en_ipv4 e = ip")
    case False
    then have "find_entry ip (e # es) k = find_entry ip es (k + 1)" using Cons.prems by simp
    then show ?thesis using Cons.IH [of "k + 1"] Cons.prems False
      by (auto split: option.splits simp: nth_Cons' image_iff Suc_diff_le)
  qed (use Cons.prems in simp)
qed simp

lemma find_entry_index:
  assumes "\<forall>e \<in> set es. en_uuid e = eth_ipv4_uuid" "distinct (map en_ipv4 es)"
  shows "find_entry ip es 0 = Some i \<longleftrightarrow> i < length es \<and> en_ipv4 (es ! i) = ip"
    and "find_entry ip es 0 = None \<longleftrightarrow> ip \<notin> en_ipv4 ` set es"
proof -
  note spec = find_entry_cases [OF assms(1), of ip 0]
  have uniq: "i = j" if "i < length es" "j < length es" "en_ipv4 (es ! i) = en_ipv4 (es ! j)" for i j
    using assms(2) that by (auto simp: distinct_conv_nth)
  show "find_entry ip es 0 = Some i \<longleftrightarrow> i < length es \<and> en_ipv4 (es ! i) = ip"
  proof (cases "find_entry ip es 0")
    case None
    then have "ip \<notin> en_ipv4 ` set es" using spec by simp
    then show ?thesis using None by (auto dest: nth_mem)
  next
    case (Some j)
    then show ?thesis using spec uniq [of i j] by auto
  qed
  show "find_entry ip es 0 = None \<longleftrightarrow> ip \<notin> en_ipv4 ` set es"
    using spec by (cases "find_entry ip es 0") (auto dest: nth_mem)
qed

lemma drop_queries_filter:
  assumes "\<forall>q \<in> set qs. qu_uuid q = eth_ipv4_uuid"
  shows "drop_queries ip i qs = take i qs @ filter (\<lambda>q. qu_ipv4 q \<noteq> ip) (drop i qs)"
  using assms
proof (induction ip i qs rule: drop_queries.induct)
  case (1 ip i qs)
  show ?case
  proof (cases "i < length qs")
    case True
    have u: "qu_uuid (qs ! i) = eth_ipv4_uuid" using 1(4) True by simp
    have d: "drop i qs = qs ! i # drop (i + 1) qs" using True by (simp add: Cons_nth_drop_Suc)
    show ?thesis
    proof (cases "qu_ipv4 (qs ! i) = ip")
      case hit: True
      have "\<forall>q \<in> set (erase_at i qs). qu_uuid q = eth_ipv4_uuid" using 1(4) set_erase_at [of i qs] by auto
      then have "drop_queries ip i (erase_at i qs) = take i qs @ filter (\<lambda>q. qu_ipv4 q \<noteq> ip) (drop (Suc i) qs)"
        using 1(2) [OF True _ _ ] u hit True by (simp add: erase_at_def)
      then show ?thesis using True u hit d by (subst drop_queries.simps) simp
    next
      case miss: False
      have "drop_queries ip (i + 1) qs = take (i + 1) qs @ filter (\<lambda>q. qu_ipv4 q \<noteq> ip) (drop (i + 1) qs)"
        using 1(3) [OF True] u miss 1(4) by simp
      then show ?thesis using True u miss d by (subst drop_queries.simps) (simp add: take_Suc_conv_app_nth)
    qed
  qed (subst drop_queries.simps, simp)
qed

lemma arp_inv_query_mac: "arp_inv t \<Longrightarrow> arp_inv (query_mac ip t)"
  by (auto simp: arp_inv_def query_mac_def find_query_iff)

lemma distinct_map_erase: "distinct (map f xs) \<Longrightarrow> distinct (map f (erase_at i xs))"
proof (cases "i < length xs")
  case True
  assume "distinct (map f xs)"
  then have "distinct (map f (take i xs @ xs ! i # drop (Suc i) xs))" using erase_at_split [OF True] by metis
  then show ?thesis by (auto simp: erase_at_def)
qed (simp add: erase_at_def)

lemma arp_inv_get_mac: "arp_inv t \<Longrightarrow> arp_inv (snd (get_mac time ip t))"
proof -
  assume inv: "arp_inv t"
  have 1: "arp_inv (t\<lparr>m_queries := erase_at i (m_queries t)\<rparr>)" for i
    using inv set_erase_at [of i "m_queries t"] by (auto simp: arp_inv_def distinct_map_erase)
  have 2: "arp_inv (t\<lparr>m_entries := (m_entries t)[i := (m_entries t ! i)\<lparr>updating := True\<rparr>]\<rparr>)"
    if "i < length (m_entries t)" for i
    using inv that by (auto simp: arp_inv_def map_update distinct_list_update list_update_same_conv
        dest!: set_update_subset_insert [THEN subsetD])
  have "find_entry ip (m_entries t) 0 = Some i \<Longrightarrow> i < length (m_entries t)" for i
    using inv find_entry_index(1) by (auto simp: arp_inv_def)
  then show ?thesis
    using inv 1 2 by (auto simp: get_mac_def Let_def arp_inv_query_mac split: option.splits)
qed

lemma map_update_same: "i < length xs \<Longrightarrow> f y = f (xs ! i) \<Longrightarrow> map f (xs[i := y]) = map f xs"
  by (metis list_update_id map_update nth_map)

lemma arp_inv_set_mac:
  assumes "arp_inv t"
  shows "arp_inv (set_mac time junk ip mc t)"
proof -
  have q: "drop_queries ip 0 (m_queries t) = filter (\<lambda>q. qu_ipv4 q \<noteq> ip) (m_queries t)"
    using assms drop_queries_filter [of "m_queries t" ip 0] by (simp add: arp_inv_def)
  note idx = find_entry_index [of "m_entries t" ip]
  show ?thesis
  proof (cases "find_entry ip (m_entries t) 0")
    case None
    then show ?thesis using assms idx by (auto simp: set_mac_def q arp_inv_def distinct_map_filter)
  next
    case (Some i)
    then have i: "i < length (m_entries t)" "en_ipv4 (m_entries t ! i) = ip"
      using assms idx by (auto simp: arp_inv_def)
    then show ?thesis
      using assms Some by (auto simp: set_mac_def q arp_inv_def distinct_map_filter map_update_same
          dest!: set_update_subset_insert [THEN subsetD])
  qed
qed

text \<open>What \<open>get_mac\<close> answers, by the entry for the address.\<close>

definition arp_answer :: "u64 \<Rightarrow> arp_entry option \<Rightarrow> mac_addr option" where
  "arp_answer time e = (case e of None \<Rightarrow> None
     | Some e \<Rightarrow> if time - set_at e > ARP_TIMEOUT_NS then None else Some (en_mac e))"

definition entry_for :: "ipv4_addr \<Rightarrow> arp_entry list \<Rightarrow> arp_entry option" where
  "entry_for ip es = find (\<lambda>e. en_ipv4 e = ip) es"

lemma entry_for_index:
  assumes "distinct (map en_ipv4 es)" "i < length es" "en_ipv4 (es ! i) = ip"
  shows "entry_for ip es = Some (es ! i)"
  using assms unfolding entry_for_def find_Some_iff
  by (intro exI [of _ i]) (auto simp: distinct_conv_nth)

lemma entry_for_None: "entry_for ip es = None \<longleftrightarrow> ip \<notin> en_ipv4 ` set es"
  by (auto simp: entry_for_def find_None_iff)

lemma get_mac_answer:
  assumes "arp_inv t"
  shows "fst (get_mac time ip t) = arp_answer time (entry_for ip (m_entries t))"
proof (cases "find_entry ip (m_entries t) 0")
  case None
  then have "entry_for ip (m_entries t) = None"
    using assms find_entry_index(2) [of "m_entries t" ip] by (simp add: arp_inv_def entry_for_None)
  then show ?thesis using None by (simp add: get_mac_def arp_answer_def)
next
  case (Some i)
  then have "entry_for ip (m_entries t) = Some (m_entries t ! i)"
    using assms find_entry_index(1) [of "m_entries t" ip i] by (auto simp: arp_inv_def entry_for_index)
  then show ?thesis using Some by (simp add: get_mac_def arp_answer_def Let_def)
qed

lemma find_append: "find P (xs @ ys) = (case find P xs of None \<Rightarrow> find P ys | Some x \<Rightarrow> Some x)"
  by (induction xs) auto

lemma entry_for_set_mac:
  assumes "arp_inv t"
  shows "\<exists>b. entry_for ip (m_entries (set_mac time junk ip mc t)) =
      Some \<lparr>en_uuid = eth_ipv4_uuid, set_at = time, updating = b, en_ipv4 = ip, en_mac = mc\<rparr>"
    and "ip' \<noteq> ip \<Longrightarrow> entry_for ip' (m_entries (set_mac time junk ip mc t)) = entry_for ip' (m_entries t)"
proof -
  note inv = arp_inv_set_mac [OF assms, of time junk ip mc]
  note idx = find_entry_index [of "m_entries t" ip]
  have main: "(\<exists>b. entry_for ip (m_entries (set_mac time junk ip mc t)) =
      Some \<lparr>en_uuid = eth_ipv4_uuid, set_at = time, updating = b, en_ipv4 = ip, en_mac = mc\<rparr>)
    \<and> (ip' \<noteq> ip \<longrightarrow> entry_for ip' (m_entries (set_mac time junk ip mc t)) = entry_for ip' (m_entries t))"
  proof (cases "find_entry ip (m_entries t) 0")
    case None
    then have "ip \<notin> en_ipv4 ` set (m_entries t)" using idx assms by (simp add: arp_inv_def)
    moreover have es: "m_entries (set_mac time junk ip mc t) = m_entries t @
        [\<lparr>en_uuid = eth_ipv4_uuid, set_at = time, updating = junk, en_ipv4 = ip, en_mac = mc\<rparr>]"
      using None by (simp add: set_mac_def Let_def)
    ultimately have "entry_for ip (m_entries t) = None" by (simp add: entry_for_None)
    then show ?thesis unfolding es entry_for_def find_append by (auto split: option.splits)
  next
    case (Some i)
    then have i: "i < length (m_entries t)" "en_ipv4 (m_entries t ! i) = ip"
      using idx assms by (auto simp: arp_inv_def)
    let ?e = "(m_entries t ! i)\<lparr>set_at := time, updating := False, en_mac := mc\<rparr>"
    have es: "m_entries (set_mac time junk ip mc t) = (m_entries t)[i := ?e]"
      using Some by (simp add: set_mac_def Let_def)
    have "entry_for ip ((m_entries t)[i := ?e]) = Some ?e"
      using entry_for_index [of "(m_entries t)[i := ?e]" i ip] i inv es by (simp add: arp_inv_def)
    moreover have "en_uuid (m_entries t ! i) = eth_ipv4_uuid" using assms i by (simp add: arp_inv_def)
    moreover have "entry_for ip' ((m_entries t)[i := ?e]) = entry_for ip' (m_entries t)" if "ip' \<noteq> ip"
    proof -
      let ?P = "\<lambda>e. en_ipv4 e = ip'" and ?a = "take i (m_entries t)" and ?b = "drop (Suc i) (m_entries t)"
      have skip: "find ?P (?a @ e # ?b) = find ?P (?a @ ?b)" if "en_ipv4 e = ip" for e
        using that \<open>ip' \<noteq> ip\<close> by (simp add: find_append split: option.split)
      have "find ?P ((m_entries t)[i := ?e]) = find ?P (?a @ ?b)"
        unfolding upd_conv_take_nth_drop [OF i(1)] by (rule skip) (use i(2) in simp)
      moreover have "find ?P (m_entries t) = find ?P (?a @ ?b)"
        by (subst id_take_nth_drop [OF i(1)]) (rule skip [OF i(2)])
      ultimately show ?thesis unfolding entry_for_def by simp
    qed
    ultimately show ?thesis unfolding es using i by (cases "m_entries t ! i") auto
  qed
  then show "\<exists>b. entry_for ip (m_entries (set_mac time junk ip mc t)) =
      Some \<lparr>en_uuid = eth_ipv4_uuid, set_at = time, updating = b, en_ipv4 = ip, en_mac = mc\<rparr>" by blast
  show "ip' \<noteq> ip \<Longrightarrow> entry_for ip' (m_entries (set_mac time junk ip mc t)) = entry_for ip' (m_entries t)"
    using main by blast
qed

subsection \<open>Rounds of queries\<close>

definition query_stays :: "u64 \<Rightarrow> arp_query \<Rightarrow> bool" where
  "query_stays time q \<longleftrightarrow> time < retry_at q \<or> retries q \<noteq> ARP_RETRIES"

definition query_next :: "u64 \<Rightarrow> arp_query \<Rightarrow> arp_query" where
  "query_next time q = (if time < retry_at q then q
     else q\<lparr>retry_at := time + ARP_INTERVAL_NS, retries := retries q + 1\<rparr>)"

definition query_due :: "u64 \<Rightarrow> arp_query \<Rightarrow> bool" where
  "query_due time q \<longleftrightarrow> \<not> time < retry_at q \<and> retries q \<noteq> ARP_RETRIES"

lemma arp_loop_eq:
  assumes "\<forall>q \<in> set (drop i qs). qu_uuid q = eth_ipv4_uuid"
  shows "arp_loop drv ds jm time i qs w =
     (take i qs @ map (query_next time) (filter (query_stays time) (drop i qs)),
      fold (\<lambda>q. send_mac_request drv ds jm (qu_ipv4 q)) (filter (query_due time) (drop i qs)) w)"
  using assms
proof (induction drv ds jm time i qs w rule: arp_loop.induct)
  case (1 drv ds jm time i qs w)
  show ?case
  proof (cases "i < length qs")
    case True
    let ?q = "qs ! i"
    have d: "drop i qs = ?q # drop (Suc i) qs" using True by (simp add: Cons_nth_drop_Suc)
    have u: "qu_uuid ?q = eth_ipv4_uuid" "\<forall>q \<in> set (drop (Suc i) qs). qu_uuid q = eth_ipv4_uuid"
      using 1(4) d by auto
    have t: "take (Suc i) qs = take i qs @ [?q]" using True by (simp add: take_Suc_conv_app_nth)
    consider (wait) "time < retry_at ?q" | (drop) "\<not> time < retry_at ?q" "retries ?q = ARP_RETRIES"
      | (send) "\<not> time < retry_at ?q" "retries ?q \<noteq> ARP_RETRIES" by blast
    then show ?thesis
    proof cases
      case wait
      then have "query_stays time ?q" "query_next time ?q = ?q" "\<not> query_due time ?q"
        by (simp_all add: query_stays_def query_next_def query_due_def)
      then show ?thesis using 1(1) [OF True refl wait] u d t True wait by (subst arp_loop.simps) simp
    next
      case drop
      then have "\<not> query_stays time ?q" "\<not> query_due time ?q" by (simp_all add: query_stays_def query_due_def)
      moreover have "drop i (erase_at i qs) = drop (Suc i) qs" "take i (erase_at i qs) = take i qs"
        using True by (simp_all add: erase_at_def)
      ultimately show ?thesis using 1(2) [OF True refl drop] u d True drop by (subst arp_loop.simps) simp
    next
      case send
      let ?q' = "?q\<lparr>retry_at := time + ARP_INTERVAL_NS, retries := retries ?q + 1\<rparr>"
      have "query_stays time ?q" "query_next time ?q = ?q'" "query_due time ?q"
        using send by (simp_all add: query_stays_def query_next_def query_due_def)
      moreover have "drop (Suc i) (qs[i := ?q']) = drop (Suc i) qs" "take (Suc i) (qs[i := ?q']) = take i qs @ [?q']"
        using True by simp_all
      ultimately show ?thesis using 1(3) [OF True refl send] u d True send
        by (subst arp_loop.simps) (simp add: Let_def)
    qed
  qed (subst arp_loop.simps, simp)
qed

lemma arp_round_queries:
  assumes "arp_inv t"
  shows "arp_round drv ds jm time t w =
    (t\<lparr>m_queries := map (query_next time) (filter (query_stays time) (m_queries t))\<rparr>,
     fold (\<lambda>q. send_mac_request drv ds jm (qu_ipv4 q)) (filter (query_due time) (m_queries t)) w)"
  using arp_loop_eq [of 0 "m_queries t" drv ds jm time w] assms by (simp add: arp_round_def arp_inv_def)

lemma query_next_ip [simp]: "qu_ipv4 (query_next time q) = qu_ipv4 q" "qu_uuid (query_next time q) = qu_uuid q"
  by (simp_all add: query_next_def)

lemma query_next_retries:
  assumes "unat (retries q) \<le> 5" "query_stays time q"
  shows "unat (retries (query_next time q)) \<le> 5"
    and "\<not> time < retry_at q \<Longrightarrow> unat (retries (query_next time q)) = Suc (unat (retries q))"
proof -
  have "unat (retries q) < 5" if "\<not> time < retry_at q"
    using assms that by (auto simp: query_stays_def ARP_RETRIES_def word_unat_eq_iff)
  then show "unat (retries (query_next time q)) \<le> 5"
    "\<not> time < retry_at q \<Longrightarrow> unat (retries (query_next time q)) = Suc (unat (retries q))"
    using assms(1) by (auto simp: query_next_def unat_word_ariths)
qed

lemma arp_inv_round:
  assumes "arp_inv t"
  shows "arp_inv (fst (arp_round drv ds jm time t w))"
proof -
  have "distinct (map qu_ipv4 (filter (query_stays time) (m_queries t)))"
    using assms by (simp add: arp_inv_def distinct_map_filter)
  moreover have "map qu_ipv4 (map (query_next time) qs) = map qu_ipv4 qs" for qs by simp
  ultimately show ?thesis
    using assms query_next_retries(1) unfolding arp_round_queries [OF assms] arp_inv_def by (auto simp: o_def)
qed

text \<open>
  C12. The ARP cache. After \<open>set_mac\<close> a lookup of the address within 15 seconds returns that
  MAC and later nothing; entries for other addresses are untouched. There is never more than
  one entry or query per address and a query is never retried more than 5 times, whatever
  sequence of operations runs. A failed lookup leaves a query for the address behind.
\<close>

theorem arp_cache:
  assumes "arp_inv t"
  shows "fst (get_mac now ip (set_mac time junk ip mc t)) = (if now - time > ARP_TIMEOUT_NS then None else Some mc)
    \<and> (ip' \<noteq> ip \<longrightarrow> fst (get_mac now ip' (set_mac time junk ip mc t)) = fst (get_mac now ip' t))
    \<and> arp_inv (set_mac time junk ip mc t) \<and> arp_inv (snd (get_mac now ip t))
    \<and> arp_inv (fst (arp_round drv ds jm now t w))
    \<and> (fst (get_mac now ip t) = None \<longrightarrow> ip \<in> qu_ipv4 ` set (m_queries (snd (get_mac now ip t))))"
proof (intro conjI impI)
  note inv = arp_inv_set_mac [OF assms, of time junk ip mc]
  show "fst (get_mac now ip (set_mac time junk ip mc t)) = (if now - time > ARP_TIMEOUT_NS then None else Some mc)"
    using get_mac_answer [OF inv, of now ip] entry_for_set_mac(1) [OF assms, of ip time junk mc]
    by (auto simp: arp_answer_def)
  show "fst (get_mac now ip' (set_mac time junk ip mc t)) = fst (get_mac now ip' t)" if "ip' \<noteq> ip"
    using get_mac_answer [OF inv, of now ip'] get_mac_answer [OF assms, of now ip']
      entry_for_set_mac(2) [OF assms that] by simp
  show "ip \<in> qu_ipv4 ` set (m_queries (snd (get_mac now ip t)))" if "fst (get_mac now ip t) = None"
  proof -
    have q: "ip \<in> qu_ipv4 ` set (m_queries (query_mac ip s))" if "\<forall>q \<in> set (m_queries s). qu_uuid q = eth_ipv4_uuid" for s
      using find_query_iff [OF that, of ip] by (auto simp: query_mac_def)
    have "\<forall>q \<in> set (erase_at i (m_queries t)). qu_uuid q = eth_ipv4_uuid" for i
      using assms set_erase_at [of i "m_queries t"] by (auto simp: arp_inv_def)
    then show ?thesis using that q [of t] q [of "t\<lparr>m_queries := erase_at i (m_queries t)\<rparr>" for i] assms
      by (auto simp: get_mac_def arp_inv_def Let_def split: option.splits if_splits)
  qed
qed (rule arp_inv_set_mac [OF assms] arp_inv_get_mac [OF assms] arp_inv_round [OF assms])+

text \<open>Witness of C12: an empty table learns one address.\<close>

theorem arp_cache_witness:
  "fst (get_mac 5000000000 (IPv4 10 0 0 9) (set_mac 0 False (IPv4 10 0 0 9) (MAC 1 2 3 4 5 6)
     \<lparr>m_entries = [], m_queries = []\<rparr>)) = Some (MAC 1 2 3 4 5 6)"
proof -
  have "arp_inv \<lparr>m_entries = [], m_queries = []\<rparr>" by (simp add: arp_inv_def)
  note arp_cache [OF this, of 5000000000 "IPv4 10 0 0 9" 0 False "MAC 1 2 3 4 5 6"]
  from this [THEN conjunct1] show ?thesis by (simp add: ARP_TIMEOUT_NS_def)
qed

text \<open>Rounds of the resolver thread at the given times.\<close>

fun arp_rounds :: "'w driver \<Rightarrow> devices \<Rightarrow> mac_addr \<Rightarrow> u64 list \<Rightarrow> arp_table \<Rightarrow> 'w \<Rightarrow> arp_table \<times> 'w" where
  "arp_rounds drv ds jm [] t w = (t, w)"
| "arp_rounds drv ds jm (time # tms) t w =
     (let (t, w) = arp_round drv ds jm time t w in arp_rounds drv ds jm tms t w)"

fun spaced :: "u64 list \<Rightarrow> bool" where
  "spaced (a # b # ts) \<longleftrightarrow> unat a + 1000000000 \<le> unat b \<and> spaced (b # ts)"
| "spaced _ \<longleftrightarrow> True"

lemma arp_rounds_age:
  assumes "arp_inv t" "spaced tms" "tms \<noteq> [] \<Longrightarrow> \<forall>q \<in> set (m_queries t). retry_at q \<le> hd tms"
    and "\<forall>q \<in> set (m_queries t). k \<le> unat (retries q)"
  shows "arp_inv (fst (arp_rounds drv ds jm tms t w))
    \<and> (\<forall>q \<in> set (m_queries (fst (arp_rounds drv ds jm tms t w))). k + length tms \<le> unat (retries q))"
  using assms
proof (induction tms arbitrary: t w k)
  case (Cons time tms)
  let ?r = "arp_round drv ds jm time t w"
  have due: "\<forall>q \<in> set (m_queries t). \<not> time < retry_at q" using Cons.prems(3) by fastforce
  have next': "\<forall>q \<in> set (m_queries (fst ?r)). Suc k \<le> unat (retries q) \<and> retry_at q = time + ARP_INTERVAL_NS"
  proof
    fix q assume "q \<in> set (m_queries (fst ?r))"
    then obtain p where p: "p \<in> set (m_queries t)" "query_stays time p" "q = query_next time p"
      unfolding arp_round_queries [OF Cons.prems(1)] by auto
    have "unat (retries p) \<le> 5" using Cons.prems(1) p(1) by (simp add: arp_inv_def)
    from query_next_retries(2) [OF this p(2)] due p show
      "Suc k \<le> unat (retries q) \<and> retry_at q = time + ARP_INTERVAL_NS"
      using Cons.prems(4) by (auto simp: query_next_def)
  qed
  have "\<forall>q \<in> set (m_queries (fst ?r)). retry_at q \<le> hd tms" if ne: "tms \<noteq> []"
  proof -
    obtain b ts where b: "tms = b # ts" using ne by (cases tms) auto
    then have "unat time + 1000000000 \<le> unat b" using Cons.prems(2) by simp
    moreover have "unat b < 2 ^ 64" using unat_less_2p [of b] by simp
    ultimately have "time + ARP_INTERVAL_NS \<le> b"
      by (simp add: word_le_nat_alt ARP_INTERVAL_NS_def unat_word_ariths)
    then show ?thesis using next' b by auto
  qed
  moreover have "spaced tms" using Cons.prems(2) by (cases tms) auto
  ultimately have "arp_inv (fst (arp_rounds drv ds jm tms (fst ?r) (snd ?r)))
    \<and> (\<forall>q \<in> set (m_queries (fst (arp_rounds drv ds jm tms (fst ?r) (snd ?r)))). Suc k + length tms \<le> unat (retries q))"
    by (intro Cons.IH [OF arp_inv_round [OF Cons.prems(1)]]) (use next' in auto)
  then show ?case by (simp add: case_prod_unfold Let_def)
qed simp

text \<open>
  The resolver thread. One round of its loop, which erases from the vector while it walks
  it, is the same as dropping the queries that are due after 5 tries, advancing the due ones
  and sending one request for each of these, in order. A query nobody answers is gone after
  6 rounds that are a second or more apart.
\<close>

lemma arp_resolver:
  assumes "arp_inv t"
  shows "arp_round drv ds jm time t w =
      (t\<lparr>m_queries := map (query_next time) (filter (query_stays time) (m_queries t))\<rparr>,
       fold (\<lambda>q. send_mac_request drv ds jm (qu_ipv4 q)) (filter (query_due time) (m_queries t)) w)
    \<and> (spaced tms \<and> length tms = 6 \<and> (\<forall>q \<in> set (m_queries t). retry_at q \<le> hd tms) \<longrightarrow>
        m_queries (fst (arp_rounds drv ds jm tms t w)) = [])"
proof (intro conjI impI)
  assume s: "spaced tms \<and> length tms = 6 \<and> (\<forall>q \<in> set (m_queries t). retry_at q \<le> hd tms)"
  let ?qs = "m_queries (fst (arp_rounds drv ds jm tms t w))"
  have r: "arp_inv (fst (arp_rounds drv ds jm tms t w))" "\<forall>q \<in> set ?qs. 0 + 6 \<le> unat (retries q)"
    using arp_rounds_age [OF assms, of tms 0 drv ds jm w] s by auto
  have "\<forall>q \<in> set ?qs. False"
  proof
    fix q assume q: "q \<in> set ?qs"
    then have "unat (retries q) \<le> 5" using r(1) by (simp add: arp_inv_def)
    then show False using r(2) q by fastforce
  qed
  then show "?qs = []" by simp
qed (rule arp_round_queries [OF assms])

subsection \<open>Request and reply\<close>

lemma arp_bytes_ops:
  assumes "length (footer p) = 12"
  shows "arp_packet_of (arp_packet_bytes p) = Inr p"
    and "arp_sender_of (arp_packet_bytes p) = Inr (source_mac p, source_ipv4 p)"
    and "arp_target_of (arp_packet_bytes p) = Inr (destination_ipv4 p)"
    and "length (arp_packet_bytes p) = 40"
    and "\<And>n. n < 40 \<Longrightarrow> cell_get (arp_packet_bytes p) n = Inr (arp_packet_bytes p ! n)"
proof -
  obtain a1 a2 a3 a4 a5 a6 where a: "source_mac p = MAC a1 a2 a3 a4 a5 a6" by (metis mac_addr.exhaust)
  obtain b1 b2 b3 b4 b5 b6 where b: "destination_mac p = MAC b1 b2 b3 b4 b5 b6" by (metis mac_addr.exhaust)
  obtain s1 s2 s3 s4 where s: "source_ipv4 p = IPv4 s1 s2 s3 s4" by (metis ipv4_addr.exhaust)
  obtain d1 d2 d3 d4 where d: "destination_ipv4 p = IPv4 d1 d2 d3 d4" by (metis ipv4_addr.exhaust)
  note shape = arp_packet_bytes_def be_bytes16_def a b s d
  show len: "length (arp_packet_bytes p) = 40" using assms by (simp add: shape)
  show "arp_packet_of (arp_packet_bytes p) = Inr p" 
    using assms a b s d by (cases p) (simp add: arp_packet_bytes_def be_bytes16_def)
  show "arp_sender_of (arp_packet_bytes p) = Inr (source_mac p, source_ipv4 p)" by (simp add: shape)
  show "arp_target_of (arp_packet_bytes p) = Inr (destination_ipv4 p)"
    by (simp add: shape arp_target_of_def cell_get_def)
  show "\<And>n. n < 40 \<Longrightarrow> cell_get (arp_packet_bytes p) n = Inr (arp_packet_bytes p ! n)" using len by simp
qed

lemma arp_packet_header:
  "arp_packet_bytes p ! 0 = ucast (drop_bit 8 (hardware_type p))" "arp_packet_bytes p ! Suc 0 = ucast (hardware_type p)"
  "arp_packet_bytes p ! 2 = ucast (drop_bit 8 (protocol_type p))" "arp_packet_bytes p ! 3 = ucast (protocol_type p)"
  "arp_packet_bytes p ! 4 = hardware_len p" "arp_packet_bytes p ! 5 = protocol_len p"
  "arp_packet_bytes p ! 6 = ucast (drop_bit 8 (operation p))" "arp_packet_bytes p ! 7 = ucast (operation p)"
  by (simp_all add: arp_packet_bytes_def be_bytes16_def)

lemma arp_parse_packet:
  assumes "length (footer p) = 12" "hardware_type p = ARP_ETHERNET" "protocol_type p = ETH_IPv4"
    and "hardware_len p = 6" "protocol_len p = 4"
  shows "arp_parse drv dev time junk (arp_packet_bytes p) t w =
    (if operation p = ARP_REQUEST then
       if addr (info dev) \<noteq> destination_ipv4 p then Inr (t, w)
       else Inr (t, snd (drv dev (arp_packet_bytes (p\<lparr>operation := ARP_REPLY, source_ipv4 := addr (info dev),
                   source_mac := mac (info dev), destination_ipv4 := source_ipv4 p,
                   destination_mac := source_mac p, footer := AEX_FOOTER\<rparr>)) NET_ARP w))
     else if operation p = ARP_REPLY then Inr (set_mac time junk (source_ipv4 p) (source_mac p) t, w)
     else Inr (t, w))"
  using assms arp_bytes_ops [OF assms(1)]
  by (simp add: arp_parse_def handle_eth_ipv4_def arp_packet_header Let_def)

text \<open>
  C13. Resolution works end to end. The request the resolver sends for the address of another
  host is ignored by every device but the owner of that address, which answers with one
  40-byte reply; parsing that reply makes the asking host learn exactly the owner's MAC. A
  request cut to 18 bytes or more but fewer than 28 passes the length check and is read
  behind its end.
\<close>

theorem arp_exchange:
  "\<exists>reply. length reply = 40
     \<and> arp_parse drv devB time junk (arp_packet_bytes (mac_request jm devA ip)) tB w =
         Inr (tB, if addr (info devB) = ip then snd (drv devB reply NET_ARP w) else w)
     \<and> (addr (info devB) = ip \<longrightarrow>
         arp_parse drv' devA time' junk' reply tA w' = Inr (set_mac time' junk' ip (mac (info devB)) tA, w'))
     \<and> (18 \<le> n \<and> n < 28 \<longrightarrow>
         arp_parse drv devB time junk (take n (arp_packet_bytes (mac_request jm devA ip))) tB w = Inl OutOfBounds)"
proof -
  let ?p = "mac_request jm devA ip"
  let ?r = "?p\<lparr>operation := ARP_REPLY, source_ipv4 := addr (info devB), source_mac := mac (info devB),
    destination_ipv4 := source_ipv4 ?p, destination_mac := source_mac ?p, footer := AEX_FOOTER\<rparr>"
  have p: "length (footer ?p) = 12" "hardware_type ?p = ARP_ETHERNET" "protocol_type ?p = ETH_IPv4"
      "hardware_len ?p = 6" "protocol_len ?p = 4" "operation ?p = ARP_REQUEST" "destination_ipv4 ?p = ip"
    by (simp_all add: mac_request_def AEX_FOOTER_def)
  have r: "length (footer ?r) = 12" "hardware_type ?r = ARP_ETHERNET" "protocol_type ?r = ETH_IPv4"
      "hardware_len ?r = 6" "protocol_len ?r = 4" "operation ?r = ARP_REPLY" "ARP_REPLY \<noteq> ARP_REQUEST"
    using p by (simp_all add: AEX_FOOTER_def ARP_REPLY_def ARP_REQUEST_def)
  have cut: "arp_parse drv devB time junk (take n (arp_packet_bytes ?p)) tB w = Inl OutOfBounds"
    if "18 \<le> n" "n < 28"
  proof -
    let ?b = "take n (arp_packet_bytes ?p)"
    have get: "cell_get ?b k = Inr (arp_packet_bytes ?p ! k)" if "k < 18" for k
      using that \<open>18 \<le> n\<close> \<open>n < 28\<close> arp_bytes_ops(4) [OF p(1)] by simp
    have "arp_target_of ?b = Inl OutOfBounds"
      using \<open>n < 28\<close> by (auto simp: arp_target_of_def cell_get_def)
    moreover have "length ?b = n" using that arp_bytes_ops(4) [OF p(1)] by simp
    ultimately show ?thesis
      using that p by (simp add: arp_parse_def handle_eth_ipv4_def get arp_packet_header Let_def)
  qed
  have 1: "arp_parse drv devB time junk (arp_packet_bytes ?p) tB w =
      Inr (tB, if addr (info devB) = ip then snd (drv devB (arp_packet_bytes ?r) NET_ARP w) else w)"
    using p(6,7) by (simp add: arp_parse_packet [OF p(1-5)])
  have 2: "arp_parse drv' devA time' junk' (arp_packet_bytes ?r) tA w' =
      Inr (set_mac time' junk' (addr (info devB)) (mac (info devB)) tA, w')"
    using r(6,7) by (simp add: arp_parse_packet [OF r(1-5)])
  show ?thesis
    by (rule exI [of _ "arp_packet_bytes ?r"]) (use 1 2 cut arp_bytes_ops(4) [OF r(1)] in blast)
qed

text \<open>Witness of C13: two hosts on one Ethernet.\<close>

theorem arp_exchange_witness:
  "\<exists>reply. arp_parse (\<lambda>d b t w. (ENONE, w @ [b])) eth_device 7 False
       (arp_packet_bytes (mac_request (MAC 0 0 0 0 0 0) lo_device (IPv4 10 0 0 2))) \<lparr>m_entries = [], m_queries = []\<rparr> []
     = Inr (\<lparr>m_entries = [], m_queries = []\<rparr>, [reply])
   \<and> arp_parse (\<lambda>d b t w. (ENONE, w @ [b])) lo_device 8 False reply \<lparr>m_entries = [], m_queries = []\<rparr> []
     = Inr (set_mac 8 False (IPv4 10 0 0 2) (MAC 2 0 0 0 0 1) \<lparr>m_entries = [], m_queries = []\<rparr>, [])"
  using arp_exchange [of "\<lambda>d b t w. (ENONE, w @ [b])" eth_device 7 False "MAC 0 0 0 0 0 0" lo_device "IPv4 10 0 0 2"
      "\<lparr>m_entries = [], m_queries = []\<rparr>" "[]" "\<lambda>d b t w. (ENONE, w @ [b])" 8 False "\<lparr>m_entries = [], m_queries = []\<rparr>" "[]" 0]
  by (auto simp: eth_device_def)

end
