(* ===== verification/Ports.thy ===== *)
theory Ports
  imports Bitmap
begin

unbundle bit_operations_syntax

text \<open>
  Port tables of \<open>UDPProtocol\<close> and \<open>TCPProtocol\<close> (\<open>protocol/inet/udp.cpp\<close>,
  \<open>protocol/inet/tcp.cpp\<close> of the network stack; the two are the same code): a bitmap of 65536
  bits in 2048 words, one bit per port, and the last port handed out to a socket that did
  not ask for one. Every access to the bitmap is checked against its 2048 words.
\<close>

record port_table =
  m_port_bitmap :: "u32 list"
  m_port_dynamic_last :: u16

definition ports_init :: port_table where
  "ports_init = \<lparr>m_port_bitmap = replicate (65536 div 4 div 8) 0, m_port_dynamic_last = 49151\<rparr>"

text \<open>The inner loop of \<open>allocateDynamicPort\<close>: the first clear bit of the word from \<open>ib\<close> on.\<close>

function port_bit :: "u32 \<Rightarrow> nat \<Rightarrow> nat option" where
  "port_bit buffer ib =
     (if ib < 32 then if buffer AND bit_mask ib \<noteq> 0 then port_bit buffer (ib + 1) else Some ib
      else None)"
  by pat_completeness auto
termination
  by (relation "measure (\<lambda>(buffer, ib). 32 - ib)") auto

declare port_bit.simps [simp del]

text \<open>The outer loop, with the number of rounds left of the 16385 it makes.\<close>

fun port_loop :: "nat \<Rightarrow> nat \<Rightarrow> nat \<Rightarrow> port_table \<Rightarrow> (u16 \<times> port_table) res" where
  "port_loop 0 ii ib t = Inr (0, t)"
| "port_loop (Suc rounds) ii ib t =
     res_bind (cell_get (m_port_bitmap t) ii) (\<lambda>buffer.
       case port_bit buffer ib of
         Some ib' \<Rightarrow>
           res_bind (cell_set (m_port_bitmap t) ii (buffer OR bit_mask ib')) (\<lambda>bm.
             let port = of_nat (ii * 32 + ib') in
             Inr (port, t\<lparr>m_port_bitmap := bm, m_port_dynamic_last := port\<rparr>))
       | None \<Rightarrow>
           let ii = ii + 1 in port_loop rounds (if ii \<ge> 8192 then 49152 div 4 else ii) 0 t)"

definition allocateDynamicPort :: "port_table \<Rightarrow> (u16 \<times> port_table) res" where
  "allocateDynamicPort t =
     (let last1 = m_port_dynamic_last t + 1;
          last2 = (if last1 = 0 then 49152 else last1)
      in port_loop (65536 - 49152 + 1) (unat last2 div 32) (unat last2 mod 32)
           (t\<lparr>m_port_dynamic_last := last2\<rparr>))"

definition allocatePort :: "u16 \<Rightarrow> port_table \<Rightarrow> (bool \<times> port_table) res" where
  "allocatePort port t =
     (let ii = unat port div 32; ib = unat port mod 32 in
      res_bind (cell_get (m_port_bitmap t) ii) (\<lambda>w.
        if w AND bit_mask ib \<noteq> 0 then Inr (False, t)
        else res_bind (cell_set (m_port_bitmap t) ii (w OR bit_mask ib)) (\<lambda>bm.
          Inr (True, t\<lparr>m_port_bitmap := bm\<rparr>))))"

definition freePort :: "u16 \<Rightarrow> port_table \<Rightarrow> port_table res" where
  "freePort port t =
     (let ii = unat port div 32; ib = unat port mod 32 in
      res_bind (cell_get (m_port_bitmap t) ii) (\<lambda>w.
        res_bind (cell_set (m_port_bitmap t) ii (w AND NOT (bit_mask ib))) (\<lambda>bm.
          Inr (t\<lparr>m_port_bitmap := bm\<rparr>))))"

subsection \<open>The table as a set of ports\<close>

definition ports_inv :: "port_table \<Rightarrow> bool" where
  "ports_inv t \<longleftrightarrow> length (m_port_bitmap t) = 2048"

definition taken_ports :: "port_table \<Rightarrow> u16 set" where
  "taken_ports t = {p. bm_get (m_port_bitmap t) (unat p)}"

text \<open>The port the search for a dynamic port starts from.\<close>

definition dynamic_start :: "port_table \<Rightarrow> u16" where
  "dynamic_start t = (if m_port_dynamic_last t + 1 = 0 then 49152 else m_port_dynamic_last t + 1)"

lemma unat_port: "unat (p :: u16) < 65536"
  using unat_less_2p [of p] by simp

lemma port_index: "unat (p :: u16) div 32 < 2048" "unat (p :: u16) mod 32 < 32"
  using unat_port [of p] by (simp_all add: div_less_iff_less_mult)

lemma ports_inv_init: "ports_inv ports_init" "taken_ports ports_init = {}"
proof -
  show "ports_inv ports_init" by (simp add: ports_inv_def ports_init_def)
  have "\<not> bm_get (replicate 2048 0) (unat p)" for p :: u16
    unfolding bm_get_def nth_replicate [OF port_index(1)] by simp
  then show "taken_ports ports_init = {}" by (simp add: taken_ports_def ports_init_def)
qed

text \<open>Reserving and releasing one port touches that port only.\<close>

lemma allocatePort_spec:
  assumes "ports_inv t"
  shows "if p \<in> taken_ports t then allocatePort p t = Inr (False, t)
         else \<exists>t'. allocatePort p t = Inr (True, t') \<and> ports_inv t'
           \<and> taken_ports t' = insert p (taken_ports t) \<and> m_port_dynamic_last t' = m_port_dynamic_last t"
proof -
  let ?ii = "unat p div 32" and ?ib = "unat p mod 32"
  have idx: "?ii < length (m_port_bitmap t)" "?ib < 32" using port_index assms by (simp_all add: ports_inv_def)
  have split: "32 * ?ii + ?ib = unat p" by simp
  have "p \<in> taken_ports t \<longleftrightarrow> bit (m_port_bitmap t ! ?ii) ?ib" by (simp add: taken_ports_def bm_get_def)
  moreover have "taken_ports (t\<lparr>m_port_bitmap := (m_port_bitmap t)[?ii := m_port_bitmap t ! ?ii OR bit_mask ?ib]\<rparr>)
      = insert p (taken_ports t)"
    unfolding taken_ports_def set_eq_iff using bm_get_set [OF idx, unfolded split]
    by (simp add: word_unat_eq_iff) blast
  ultimately show ?thesis using idx assms
    by (simp add: allocatePort_def Let_def cell_get_def cell_set_def ports_inv_def)
qed

lemma freePort_spec:
  assumes "ports_inv t"
  shows "\<exists>t'. freePort p t = Inr t' \<and> ports_inv t' \<and> taken_ports t' = taken_ports t - {p}
           \<and> m_port_dynamic_last t' = m_port_dynamic_last t"
proof -
  let ?ii = "unat p div 32" and ?ib = "unat p mod 32"
  have idx: "?ii < length (m_port_bitmap t)" "?ib < 32" using port_index assms by (simp_all add: ports_inv_def)
  have split: "32 * ?ii + ?ib = unat p" by simp
  have "taken_ports (t\<lparr>m_port_bitmap := (m_port_bitmap t)[?ii := m_port_bitmap t ! ?ii AND NOT (bit_mask ?ib)]\<rparr>)
      = taken_ports t - {p}"
    unfolding taken_ports_def set_eq_iff using bm_get_clear [OF idx, unfolded split] by (simp add: word_unat_eq_iff)
  then show ?thesis using idx assms
    by (simp add: freePort_def Let_def cell_get_def cell_set_def ports_inv_def)
qed

subsection \<open>Dynamic ports\<close>

lemma port_bit_spec:
  "ib \<le> 32 \<Longrightarrow> case port_bit w ib of
     Some j \<Rightarrow> ib \<le> j \<and> j < 32 \<and> \<not> bit w j \<and> (\<forall>k. ib \<le> k \<and> k < j \<longrightarrow> bit w k)
   | None \<Rightarrow> \<forall>k. ib \<le> k \<and> k < 32 \<longrightarrow> bit w k"
proof (induction w ib rule: port_bit.induct)
  case (1 w ib)
  show ?case
  proof (cases "ib < 32 \<and> bit w ib")
    case True
    then have eq: "port_bit w ib = port_bit w (ib + 1)" by (subst port_bit.simps) simp
    have IH: "case port_bit w (ib + 1) of
        Some j \<Rightarrow> ib + 1 \<le> j \<and> j < 32 \<and> \<not> bit w j \<and> (\<forall>k. ib + 1 \<le> k \<and> k < j \<longrightarrow> bit w k)
      | None \<Rightarrow> \<forall>k. ib + 1 \<le> k \<and> k < 32 \<longrightarrow> bit w k"
      by (rule 1(1)) (use True in simp_all)
    have here: "bit w k" if "ib \<le> k" "ib + 1 \<le> k \<Longrightarrow> bit w k" for k
      using that True by (cases "k = ib") auto
    show ?thesis unfolding eq using IH here by (auto split: option.splits)
  next
    case False
    then show ?thesis using 1(2) by (subst port_bit.simps) auto
  qed
qed

lemma word_index: "32 * ii \<le> k \<Longrightarrow> k < 32 * Suc ii \<Longrightarrow> k div 32 = ii \<and> k = 32 * ii + k mod 32" for k ii :: nat
  by (metis add.commute div_mult_mod_eq div_nat_eqI mult.commute)

lemma port_loop_hit:
  assumes "length (m_port_bitmap t) = 2048" "ib < 32" "2048 - ii < rounds"
    and "32 * ii + ib \<le> q" "q < 65536" "\<not> bm_get (m_port_bitmap t) q"
    and "\<And>k. 32 * ii + ib \<le> k \<Longrightarrow> k < q \<Longrightarrow> bm_get (m_port_bitmap t) k"
  shows "port_loop rounds ii ib t = Inr (of_nat q,
     t\<lparr>m_port_bitmap := (m_port_bitmap t)[q div 32 := m_port_bitmap t ! (q div 32) OR bit_mask (q mod 32)],
       m_port_dynamic_last := of_nat q\<rparr>)"
  using assms
proof (induction rounds arbitrary: ii ib)
  case (Suc rounds)
  let ?w = "m_port_bitmap t ! ii"
  have ii: "ii < 2048" using Suc.prems(2,4,5) by linarith
  note spec = port_bit_spec [OF less_imp_le [OF Suc.prems(2)], of ?w]
  show ?case
  proof (cases "port_bit ?w ib")
    case None
    with spec have full: "\<And>k. ib \<le> k \<Longrightarrow> k < 32 \<Longrightarrow> bit ?w k" by simp
    have far: "32 * Suc ii \<le> q"
    proof (rule ccontr)
      assume "\<not> 32 * Suc ii \<le> q"
      then have "q div 32 = ii" "ib \<le> q mod 32" using word_index [of ii q] Suc.prems(2,4) by auto
      then show False using full [of "q mod 32"] Suc.prems(6) by (simp add: bm_get_def)
    qed
    then have "Suc ii < 2048" using Suc.prems(5) by simp
    moreover have "port_loop rounds (Suc ii) 0 t = Inr (of_nat q,
       t\<lparr>m_port_bitmap := (m_port_bitmap t)[q div 32 := m_port_bitmap t ! (q div 32) OR bit_mask (q mod 32)],
         m_port_dynamic_last := of_nat q\<rparr>)"
    proof (rule Suc.IH)
      show "2048 - Suc ii < rounds" using Suc.prems(3) ii by linarith
      show "bm_get (m_port_bitmap t) k" if "32 * Suc ii + 0 \<le> k" "k < q" for k
        by (rule Suc.prems(7)) (use that Suc.prems(2) in simp_all)
    qed (use Suc.prems far in simp_all)
    ultimately show ?thesis using ii Suc.prems(1) None by (simp add: Let_def)
  next
    case (Some j)
    with spec have j: "ib \<le> j" "j < 32" "\<not> bit ?w j" "\<And>k. ib \<le> k \<Longrightarrow> k < j \<Longrightarrow> bit ?w k"
      by simp_all
    have "\<not> 32 * ii + j < q"
      using Suc.prems(7) [of "32 * ii + j"] j by (auto simp: bm_get_def)
    moreover have "\<not> q < 32 * ii + j"
    proof
      assume "q < 32 * ii + j"
      then have "q div 32 = ii" "ib \<le> q mod 32" "q mod 32 < j" using word_index [of ii q] j(2) Suc.prems(2,4) by auto
      then show False using j(4) Suc.prems(6) by (simp add: bm_get_def)
    qed
    ultimately have "q = 32 * ii + j" by linarith
    then show ?thesis using ii Suc.prems(1) Some j(2) by (simp add: Let_def ac_simps)
  qed
qed simp

lemma port_loop_miss:
  assumes "length (m_port_bitmap t) = 2048" "ib < 32" "ii \<le> 2048" "2048 - ii < rounds"
    and "\<And>k. 32 * ii + ib \<le> k \<Longrightarrow> k < 65536 \<Longrightarrow> bm_get (m_port_bitmap t) k"
  shows "port_loop rounds ii ib t = Inl OutOfBounds"
  using assms
proof (induction rounds arbitrary: ii ib)
  case (Suc rounds)
  show ?case
  proof (cases "ii = 2048")
    case False
    with Suc.prems(3) have ii: "ii < 2048" by simp
    have "port_bit (m_port_bitmap t ! ii) ib = None"
    proof (cases "port_bit (m_port_bitmap t ! ii) ib")
      case (Some j)
      then show ?thesis
        using port_bit_spec [OF less_imp_le [OF Suc.prems(2)], of "m_port_bitmap t ! ii"] ii
          Suc.prems(5) [of "32 * ii + j"] by (simp add: bm_get_def)
    qed simp
    moreover have "port_loop rounds (Suc ii) 0 t = Inl OutOfBounds"
    proof (rule Suc.IH)
      show "bm_get (m_port_bitmap t) k" if "32 * Suc ii + 0 \<le> k" "k < 65536" for k
        by (rule Suc.prems(5)) (use that Suc.prems(2) in simp_all)
    qed (use Suc.prems ii in simp_all)
    ultimately show ?thesis using ii Suc.prems(1) by (simp add: Let_def)
  qed (use Suc.prems(1) in simp)
qed simp

definition first_free_port :: "port_table \<Rightarrow> u16 \<Rightarrow> bool" where
  "first_free_port t q \<longleftrightarrow> q \<notin> taken_ports t \<and> dynamic_start t \<le> q
     \<and> (\<forall>p. dynamic_start t \<le> p \<and> p < q \<longrightarrow> p \<in> taken_ports t)"

lemma dynamic_split: "32 * (unat p div 32) + unat p mod 32 = unat (p :: u16)"
  by simp

lemma allocateDynamicPort_hit:
  assumes inv: "ports_inv t" and q: "first_free_port t q"
  shows "\<exists>t'. allocateDynamicPort t = Inr (q, t') \<and> ports_inv t'
           \<and> taken_ports t' = insert q (taken_ports t) \<and> m_port_dynamic_last t' = q"
proof -
  let ?s = "dynamic_start t" and ?q = "unat q" and ?bm = "m_port_bitmap t"
  let ?t = "t\<lparr>m_port_dynamic_last := ?s\<rparr>"
  have idx: "?q div 32 < length ?bm" "?q mod 32 < 32" using port_index inv by (simp_all add: ports_inv_def)
  have taken: "bm_get ?bm k" if "unat ?s \<le> k" "k < ?q" for k
  proof -
    have "unat (of_nat k :: u16) = k" using that(2) unat_port [of q] by (simp add: unat_of_nat)
    then show ?thesis using q that
      unfolding first_free_port_def taken_ports_def
      by (metis (mono_tags, lifting) mem_Collect_eq word_le_nat_alt word_less_nat_alt)
  qed
  have "allocateDynamicPort t = port_loop 16385 (unat ?s div 32) (unat ?s mod 32) ?t"
    by (simp add: allocateDynamicPort_def dynamic_start_def Let_def)
  also have "\<dots> = Inr (of_nat ?q, ?t\<lparr>m_port_bitmap := ?bm[?q div 32 := ?bm ! (?q div 32) OR bit_mask (?q mod 32)],
      m_port_dynamic_last := of_nat ?q\<rparr>)"
    using port_loop_hit [of ?t "unat ?s mod 32" "unat ?s div 32" 16385 ?q] inv q taken unat_port
    unfolding dynamic_split by (simp add: ports_inv_def first_free_port_def taken_ports_def word_le_nat_alt)
  finally show ?thesis
    using bm_get_set [OF idx] inv by (auto simp: taken_ports_def ports_inv_def word_unat_eq_iff [symmetric])
qed

lemma allocateDynamicPort_miss:
  assumes inv: "ports_inv t" and full: "\<And>q. dynamic_start t \<le> q \<Longrightarrow> q \<in> taken_ports t"
  shows "allocateDynamicPort t = Inl OutOfBounds"
proof -
  let ?s = "dynamic_start t" and ?t = "t\<lparr>m_port_dynamic_last := dynamic_start t\<rparr>"
  have taken: "bm_get (m_port_bitmap t) k" if "unat ?s \<le> k" "k < 65536" for k
  proof -
    have "unat (of_nat k :: u16) = k" using that(2) by (simp add: unat_of_nat)
    then show ?thesis using full [of "of_nat k"] that by (simp add: taken_ports_def word_le_nat_alt)
  qed
  have "port_loop 16385 (unat ?s div 32) (unat ?s mod 32) ?t = Inl OutOfBounds"
    using port_loop_miss [of ?t "unat ?s mod 32" "unat ?s div 32" 16385] inv taken port_index [of ?s]
    unfolding dynamic_split by (simp add: ports_inv_def)
  then show ?thesis by (simp add: allocateDynamicPort_def dynamic_start_def Let_def)
qed

lemma first_free_port_ex:
  assumes "dynamic_start t \<le> q" "q \<notin> taken_ports t"
  shows "\<exists>q. first_free_port t q"
proof -
  let ?P = "\<lambda>p. dynamic_start t \<le> p \<and> p \<notin> taken_ports t"
  obtain p where "?P p" "\<And>p'. ?P p' \<Longrightarrow> unat p \<le> unat p'"
    using ex_has_least_nat [of ?P q unat] assms by blast
  then have "first_free_port t p"
    unfolding first_free_port_def by (metis leD word_less_nat_alt)
  then show ?thesis by blast
qed

lemma dynamic_start_pos: "dynamic_start t \<noteq> 0"
  by (simp add: dynamic_start_def)

subsection \<open>The pool contract\<close>

text \<open>
  What a socket layer relies on: a pool hands out names that were free, reserves a given
  name exactly when it was free, and releases only the name it is given.
\<close>

locale name_pool =
  fixes inv :: "'t \<Rightarrow> bool"
    and taken :: "'t \<Rightarrow> 'n set"
    and fresh :: "'t \<Rightarrow> ('n \<times> 't) res"
    and reserve :: "'n \<Rightarrow> 't \<Rightarrow> (bool \<times> 't) res"
    and release :: "'n \<Rightarrow> 't \<Rightarrow> 't res"
  assumes fresh_law: "inv t \<Longrightarrow> fresh t = Inr (n, t') \<Longrightarrow>
      inv t' \<and> n \<notin> taken t \<and> taken t' = insert n (taken t)"
    and reserve_law: "inv t \<Longrightarrow> reserve n t = Inr (b, t') \<Longrightarrow>
      inv t' \<and> (b \<longleftrightarrow> n \<notin> taken t) \<and> taken t' = insert n (taken t)"
    and release_law: "inv t \<Longrightarrow> \<exists>t'. release n t = Inr t' \<and> inv t' \<and> taken t' = taken t - {n}"
    and reserve_total: "inv t \<Longrightarrow> \<exists>r. reserve n t = Inr r"
begin

definition holders_ok :: "'n list \<Rightarrow> 't \<Rightarrow> bool" where
  "holders_ok ns t \<longleftrightarrow> inv t \<and> distinct ns \<and> set ns \<subseteq> taken t"

text \<open>A list of names held by different holders stays duplicate-free.\<close>

lemma holders_fresh:
  assumes "holders_ok ns t" "fresh t = Inr (n, t')"
  shows "holders_ok (ns @ [n]) t'"
  using assms fresh_law [of t n t'] by (auto simp: holders_ok_def)

lemma holders_release:
  assumes "holders_ok ns t" "i < length ns"
  shows "\<exists>t'. release (ns ! i) t = Inr t' \<and> holders_ok (take i ns @ drop (Suc i) ns) t'"
proof -
  obtain t' where t': "release (ns ! i) t = Inr t'" "inv t'" "taken t' = taken t - {ns ! i}"
    using release_law assms by (metis holders_ok_def)
  have eq: "ns = take i ns @ ns ! i # drop (Suc i) ns" using assms(2) by (rule id_take_nth_drop)
  then have "distinct (take i ns @ ns ! i # drop (Suc i) ns)"
      "set (take i ns) \<union> set (drop (Suc i) ns) \<subseteq> taken t"
    using assms(1) unfolding holders_ok_def by (metis, metis Un_subset_iff set_append set_subset_Cons subset_trans)
  then show ?thesis using t' by (auto simp: holders_ok_def)
qed

lemma holders_rebind:
  assumes ok: "holders_ok ns t" and i: "i < length ns" and new: "n \<notin> taken t"
    and res: "reserve n t = Inr (b, t1)" and rel: "release (ns ! i) t1 = Inr t2"
  shows "holders_ok (ns[i := n]) t2" "holders_ok (ns[i := n]) t1"
proof -
  have t1: "inv t1" "taken t1 = insert n (taken t)" using reserve_law [OF _ res] ok by (simp_all add: holders_ok_def)
  have t2: "inv t2" "taken t2 = taken t1 - {ns ! i}" using release_law [OF t1(1), of "ns ! i"] rel by auto
  have d: "distinct (ns[i := n])" using ok new by (auto simp: holders_ok_def intro: distinct_list_update)
  have "set (ns[i := n]) \<subseteq> insert n (set ns - {ns ! i})"
    using ok i by (auto simp: holders_ok_def set_update_distinct)
  moreover have "n \<noteq> ns ! i" using ok new nth_mem [OF i] unfolding holders_ok_def by blast
  moreover have "set ns \<subseteq> taken t" using ok by (simp add: holders_ok_def)
  ultimately have "set (ns[i := n]) \<subseteq> taken t2" "set (ns[i := n]) \<subseteq> taken t1" using t1 t2 by blast+
  then show "holders_ok (ns[i := n]) t2" "holders_ok (ns[i := n]) t1"
    using d t1 t2 by (simp_all add: holders_ok_def)
qed

end

lemma allocateDynamicPort_fresh:
  assumes "ports_inv t" "allocateDynamicPort t = Inr (q, t')"
  shows "ports_inv t' \<and> q \<notin> taken_ports t \<and> taken_ports t' = insert q (taken_ports t)"
proof (cases "\<exists>q. first_free_port t q")
  case True
  then obtain p where p: "first_free_port t p" by blast
  then show ?thesis using allocateDynamicPort_hit [OF assms(1) p] assms(2) by (auto simp: first_free_port_def)
next
  case False
  then have "\<And>q. dynamic_start t \<le> q \<Longrightarrow> q \<in> taken_ports t" using first_free_port_ex [of t] by blast
  then have "allocateDynamicPort t = Inl OutOfBounds" by (rule allocateDynamicPort_miss [OF assms(1)])
  then show ?thesis using assms(2) by simp
qed

interpretation ports: name_pool ports_inv taken_ports allocateDynamicPort allocatePort freePort
proof
  show "ports_inv t' \<and> b = (n \<notin> taken_ports t) \<and> taken_ports t' = insert n (taken_ports t)"
    if "ports_inv t" "allocatePort n t = Inr (b, t')" for t n b t'
    using allocatePort_spec [OF that(1), of n] that by (auto split: if_splits)
  show "\<exists>r. allocatePort n t = Inr r" if "ports_inv t" for t n
    using allocatePort_spec [OF that, of n] by (auto split: if_splits)
qed (auto simp: allocateDynamicPort_fresh dest: freePort_spec)

text \<open>
  Port allocation. On a table of 65536 bits a dynamic port is the first free port at or
  behind the successor of the last one handed out (49152 after 65535), never port 0; it is
  marked, remembered, and nothing else changes. When every port from there to 65535 is taken
  the search does not come back to 49152: it reads the bitmap behind its end. Reserving a
  given port succeeds exactly when it is free, and freeing releases that port only.
\<close>

lemma port_allocation:
  assumes inv: "ports_inv t"
  shows "(\<forall>q. first_free_port t q \<longrightarrow> q \<noteq> 0 \<and> (\<exists>t'. allocateDynamicPort t = Inr (q, t') \<and> ports_inv t'
             \<and> taken_ports t' = insert q (taken_ports t) \<and> m_port_dynamic_last t' = q))
    \<and> ((\<forall>q. dynamic_start t \<le> q \<longrightarrow> q \<in> taken_ports t) \<longrightarrow> allocateDynamicPort t = Inl OutOfBounds)
    \<and> (\<forall>p. if p \<in> taken_ports t then allocatePort p t = Inr (False, t)
           else \<exists>t'. allocatePort p t = Inr (True, t') \<and> ports_inv t'
             \<and> taken_ports t' = insert p (taken_ports t) \<and> m_port_dynamic_last t' = m_port_dynamic_last t)
    \<and> (\<forall>p. \<exists>t'. freePort p t = Inr t' \<and> ports_inv t' \<and> taken_ports t' = taken_ports t - {p}
             \<and> m_port_dynamic_last t' = m_port_dynamic_last t)"
proof (intro conjI allI impI)
  show "q \<noteq> 0" if "first_free_port t q" for q
    using that dynamic_start_pos [of t] by (auto simp: first_free_port_def)
qed (use inv allocateDynamicPort_hit allocateDynamicPort_miss allocatePort_spec freePort_spec in blast)+

end
