(* ===== verification/Udp.thy ===== *)
theory Udp
  imports Ipv4 Ports Event
begin

unbundle bit_operations_syntax

text \<open>
  UDP: the transport layer (\<open>layer/transport/udp.cpp\<close>), the protocol with its table of
  sockets (\<open>protocol/inet/udp.cpp\<close>) and the sockets (\<open>socket/inet/udp.cpp\<close>). A socket is an
  address in a store; the protocol's vector holds the addresses. The linked list of
  datagrams of a socket is the list of its nodes from first to last. A call that blocks is
  split at the block: \<open>receive_stretch\<close> is one pass of the waiting loop.
\<close>

datatype socket_domain_t = AF_UNSPEC | AF_INET | AF_INET6 | AF_UNIX
datatype socket_type_t = SOCK_STREAM | SOCK_DGRAM | SOCK_SEQPACKET | SOCK_RAW

record sockaddr_inet =
  sa_domain :: socket_domain_t
  sa_port :: u16
  sa_addr :: ipv4_addr

record datagram =
  dg_source_address :: ipv4_addr
  dg_source_port :: u16
  dg_buffer :: "u8 list"

record udp_socket =
  source_address :: ipv4_addr
  source_port :: u16
  destination_address :: ipv4_addr
  destination_port :: u16
  m_buffered_size :: u64
  datagrams :: "datagram list"
  m_event :: simple_event

type_synonym sock_ptr = nat

record udp_state =
  sockets :: "sock_ptr list"
  udp_store :: "sock_ptr \<Rightarrow> udp_socket option"
  udp_ports :: port_table
  udp_threads :: threads

definition UDP_SOCKET_BUFFER_SIZE :: u64 where "UDP_SOCKET_BUFFER_SIZE = 1048576"

definition new_udp_socket :: udp_socket where
  "new_udp_socket = \<lparr>source_address = IPv4_ANY, source_port = 0, destination_address = IPv4_ANY,
     destination_port = 0, m_buffered_size = 0, datagrams = [],
     m_event = \<lparr>m_tiddie = None, s_defunct = False\<rparr>\<rparr>"

text \<open>\<open>*socket\<close> for a pointer into the store.\<close>

definition sock_at :: "sock_ptr \<Rightarrow> udp_state \<Rightarrow> udp_socket res" where
  "sock_at p st = (case udp_store st p of None \<Rightarrow> Inl NullDeref | Some s \<Rightarrow> Inr s)"

definition sock_put :: "sock_ptr \<Rightarrow> udp_socket \<Rightarrow> udp_state \<Rightarrow> udp_state" where
  "sock_put p s st = st\<lparr>udp_store := (udp_store st)(p \<mapsto> s)\<rparr>"

subsection \<open>Sockets\<close>

text \<open>\<open>ptr\<close> is what \<open>new UDPSocket()\<close> returned, 0 when memory ran out.\<close>

definition udp_createSocket :: "socket_type_t \<Rightarrow> sock_ptr \<Rightarrow> udp_state \<Rightarrow> (sock_ptr optional \<times> udp_state) res" where
  "udp_createSocket type ptr st =
     (if type \<noteq> SOCK_DGRAM then Inr (Inl ESOCKTNOSUPPORT, st)
      else if ptr = 0 then Inr (Inl ENOMEM, st)
      else res_bind (allocateDynamicPort (udp_ports st)) (\<lambda>(port, ports).
        let st = st\<lparr>udp_ports := ports\<rparr> in
        if port = 0 then Inr (Inl ENOMEM, st)
        else Inr (Inr ptr, (sock_put ptr (new_udp_socket\<lparr>source_port := port\<rparr>) st)
               \<lparr>sockets := sockets st @ [ptr]\<rparr>)))"

definition udp_connect :: "sockaddr_inet \<Rightarrow> udp_socket \<Rightarrow> error_t \<times> udp_socket" where
  "udp_connect m_addr s =
     (if sa_domain m_addr \<noteq> AF_INET then (EINVAL, s)
      else (ENONE, s\<lparr>destination_address := sa_addr m_addr, destination_port := sa_port m_addr\<rparr>))"

definition udp_bind :: "sock_ptr \<Rightarrow> sockaddr_inet \<Rightarrow> udp_state \<Rightarrow> (error_t \<times> udp_state) res" where
  "udp_bind p m_addr st = res_bind (sock_at p st) (\<lambda>s.
     if sa_domain m_addr \<noteq> AF_INET then Inr (EINVAL, st)
     else res_bind (allocatePort (sa_port m_addr) (udp_ports st)) (\<lambda>(ok, ports).
       if \<not> ok then Inr (EADDRINUSE, st\<lparr>udp_ports := ports\<rparr>)
       else res_bind (if source_port s \<noteq> 0 then freePort (source_port s) ports else Inr ports) (\<lambda>ports.
         Inr (ENONE, sock_put p (s\<lparr>source_address := sa_addr m_addr, source_port := sa_port m_addr\<rparr>)
                (st\<lparr>udp_ports := ports\<rparr>)))))"

text \<open>The loop of the destructor: the first occurrence of the pointer is erased.\<close>

fun erase_ptr :: "sock_ptr \<Rightarrow> sock_ptr list \<Rightarrow> sock_ptr list" where
  "erase_ptr p [] = []"
| "erase_ptr p (q # qs) = (if q \<noteq> p then q # erase_ptr p qs else qs)"

definition udp_destroy :: "sock_ptr \<Rightarrow> udp_state \<Rightarrow> udp_state res" where
  "udp_destroy p st = res_bind (sock_at p st) (\<lambda>s.
     let st = st\<lparr>sockets := erase_ptr p (sockets st)\<rparr> in
     res_bind (if source_port s \<noteq> 0 then freePort (source_port s) (udp_ports st) else Inr (udp_ports st)) (\<lambda>ports.
       Inr (st\<lparr>udp_ports := ports, udp_store := (udp_store st)(p := None)\<rparr>)))"

definition udp_fake_header :: "ipv4_addr \<Rightarrow> ipv4_addr \<Rightarrow> u16 \<Rightarrow> u8 list" where
  "udp_fake_header src dst len = addr_bytes src @ addr_bytes dst @ [0, 17] @ be_bytes16 len"

definition udp_header_bytes :: "u16 \<Rightarrow> u16 \<Rightarrow> u16 \<Rightarrow> u16 \<Rightarrow> u8 list" where
  "udp_header_bytes sport dport total_length checksum =
     be_bytes16 sport @ be_bytes16 dport @ be_bytes16 total_length @ be_bytes16 checksum"

text \<open>
  \<open>sendTo\<close> up to the call of \<open>IPv4Layer::route\<close>: the packet it builds on the stack, whose
  header bytes were \<open>junk\<close>. The pseudo header is built from \<open>destination_address\<close>, whatever
  address the datagram goes to.
\<close>

definition udp_packet ::
  "u8 list \<Rightarrow> devices \<Rightarrow> udp_socket \<Rightarrow> u8 list \<Rightarrow> sockaddr_inet option \<Rightarrow> u8 list optional res" where
  "udp_packet junk ds s buffer dst_addr =
     (let len = length buffer in
      case (case dst_addr of
              Some a \<Rightarrow> Some (sa_addr a, sa_port a)
            | None \<Rightarrow> if destination_port s = 0 then None else Some (destination_address s, destination_port s)) of
        None \<Rightarrow> Inr (Inl ENOTCONN)
      | Some (address, port) \<Rightarrow>
          (case get_interface ds address of
             None \<Rightarrow> Inr (Inl ENETUNREACH)
           | Some dev \<Rightarrow>
               res_bind (encapsulate (take 20 junk @ replicate (8 + len) 0) (of_nat (8 + len)) address IPv4_UDP) (\<lambda>packet.
                 let total = of_nat (len + 8);
                     m_fake_header = udp_fake_header (addr (info dev)) (destination_address s) total;
                     sum = sum_bytes m_fake_header
                       + sum_bytes (udp_header_bytes (source_port s) port total 0) + sum_bytes buffer;
                     checksum = to_checksum sum
                 in Inr (Inr (take 20 packet @ udp_header_bytes (source_port s) port total checksum @ buffer)))))"

definition udp_sendTo ::
  "'w driver \<Rightarrow> devices \<Rightarrow> u8 list \<Rightarrow> udp_socket \<Rightarrow> u8 list \<Rightarrow> sockaddr_inet option \<Rightarrow> retx_state \<Rightarrow> 'w
     \<Rightarrow> (nat optional \<times> retx_state \<times> 'w) res" where
  "udp_sendTo drv ds junk s buffer dst_addr q w =
     res_bind (udp_packet junk ds s buffer dst_addr) (\<lambda>r. case r of
       Inl err \<Rightarrow> Inr (Inl err, q, w)
     | Inr packet \<Rightarrow> res_bind (ipv4_route drv ds packet q w) (\<lambda>(_, q, w). Inr (Inr (length buffer), q, w)))"

text \<open>One pass of the waiting loop of \<open>receiveFrom\<close>: the datagram, or the caller parked.\<close>

definition receive_stretch ::
  "u64 \<Rightarrow> tid \<Rightarrow> sock_ptr \<Rightarrow> udp_state \<Rightarrow> (datagram option \<times> udp_state) res" where
  "receive_stretch uptime current p st = res_bind (sock_at p st) (\<lambda>s.
     case datagrams s of
       [] \<Rightarrow> res_bind (simple_wait uptime current 0 (m_event s) (udp_threads st)) (\<lambda>(e, ts).
              Inr (None, sock_put p (s\<lparr>m_event := e\<rparr>) (st\<lparr>udp_threads := ts\<rparr>)))
     | d # rest \<Rightarrow> Inr (Some d, sock_put p (s\<lparr>datagrams := rest\<rparr>) st))"

text \<open>What the caller of \<open>receiveFrom\<close> gets: its buffer, the length and the sender.\<close>

definition receive_copy :: "u8 list \<Rightarrow> datagram \<Rightarrow> (u8 list \<times> nat \<times> sockaddr_inet) res" where
  "receive_copy buffer d =
     res_bind (memcpy buffer 0 (dg_buffer d) 0 (min (length (dg_buffer d)) (length buffer))) (\<lambda>buffer.
       Inr (buffer, length (dg_buffer d),
            \<lparr>sa_domain = AF_INET, sa_port = dg_source_port d, sa_addr = dg_source_address d\<rparr>))"

definition udp_socket_received ::
  "ipv4_addr \<Rightarrow> u16 \<Rightarrow> u8 list \<Rightarrow> sock_ptr \<Rightarrow> udp_state \<Rightarrow> udp_state res" where
  "udp_socket_received src src_port buffer p st = res_bind (sock_at p st) (\<lambda>s.
     if m_buffered_size s + of_nat (length buffer) > UDP_SOCKET_BUFFER_SIZE then Inr st
     else res_bind (simple_raise (m_event s) (udp_threads st)) (\<lambda>(e, ts).
       Inr (sock_put p (s\<lparr>datagrams := datagrams s @ [\<lparr>dg_source_address = src, dg_source_port = src_port,
              dg_buffer = buffer\<rparr>], m_event := e\<rparr>) (st\<lparr>udp_threads := ts\<rparr>))))"

subsection \<open>Protocol and layer\<close>

fun udp_deliver ::
  "ipv4_addr \<Rightarrow> u16 \<Rightarrow> ipv4_addr \<Rightarrow> u16 \<Rightarrow> u8 list \<Rightarrow> sock_ptr list \<Rightarrow> udp_state \<Rightarrow> udp_state res" where
  "udp_deliver src src_port dst dst_port buffer [] st = Inr st"
| "udp_deliver src src_port dst dst_port buffer (p # ps) st = res_bind (sock_at p st) (\<lambda>s.
     if dst_port \<noteq> source_port s then udp_deliver src src_port dst dst_port buffer ps st
     else if \<not> addr_eq dst (source_address s) \<and> \<not> addr_eq (source_address s) IPv4_ANY
     then udp_deliver src src_port dst dst_port buffer ps st
     else res_bind (udp_socket_received src src_port buffer p st)
            (\<lambda>st. udp_deliver src src_port dst dst_port buffer ps st))"

definition udp_packetReceived ::
  "ipv4_addr \<Rightarrow> u16 \<Rightarrow> ipv4_addr \<Rightarrow> u16 \<Rightarrow> u8 list \<Rightarrow> udp_state \<Rightarrow> udp_state res" where
  "udp_packetReceived src src_port dst dst_port buffer st =
     (if dst_port = 0 then Inr st else udp_deliver src src_port dst dst_port buffer (sockets st) st)"

fun udp_parse :: "u8 list \<Rightarrow> ipv4_addr \<Rightarrow> ipv4_addr \<Rightarrow> udp_state \<Rightarrow> udp_state res" where
  "udp_parse (s1 # s2 # d1 # d2 # l1 # l2 # c1 # c2 # payload) src_addr dst_addr st =
     (let buffer = s1 # s2 # d1 # d2 # l1 # l2 # c1 # c2 # payload;
          total_length = get_be16 l1 l2;
          deliver = udp_packetReceived src_addr (get_be16 s1 s2) dst_addr (get_be16 d1 d2) payload st in
      if get_be16 c1 c2 \<noteq> 0 then
        if unat total_length > length buffer then Inl OutOfBounds
        else
          let total = sum_bytes (udp_fake_header src_addr dst_addr total_length)
                + sum_bytes (take (unat total_length) buffer) in
          if to_checksum total \<noteq> 0 then Inr st else deliver
      else deliver)"
| "udp_parse _ src_addr dst_addr st = Inr st"

text \<open>\<open>ipv4_received\<close> for a UDP packet: the IPv4 layer and what it calls.\<close>

definition udp_ipv4_received :: "device \<Rightarrow> u8 list \<Rightarrow> udp_state \<Rightarrow> udp_state res" where
  "udp_ipv4_received dev buffer st = res_bind (ipv4_parse dev buffer) (\<lambda>u. case u of
     Some (UDP_parse payload src dst) \<Rightarrow> udp_parse payload src dst st
   | _ \<Rightarrow> Inr st)"

subsection \<open>Delivery to sockets\<close>

definition udp_matches :: "ipv4_addr \<Rightarrow> u16 \<Rightarrow> udp_socket \<Rightarrow> bool" where
  "udp_matches dst dst_port s \<longleftrightarrow> dst_port = source_port s \<and> (dst = source_address s \<or> source_address s = IPv4_ANY)"

definition udp_ok :: "udp_state \<Rightarrow> bool" where
  "udp_ok st \<longleftrightarrow> distinct (sockets st)
     \<and> (\<forall>p \<in> set (sockets st). \<exists>s. udp_store st p = Some s \<and> m_buffered_size s = 0)"

lemma simple_raise_ok: "\<exists>e' ts'. simple_raise e ts = Inr (e', ts')"
  by (cases "m_tiddie e") (auto simp: simple_raise_def simple_wake_def)

lemma udp_socket_received_ok:
  assumes "udp_store st p = Some s" "m_buffered_size s = 0" "length buffer < 65536"
  shows "\<exists>st' e. udp_socket_received src src_port buffer p st = Inr st' \<and> sockets st' = sockets st
    \<and> udp_store st' = (udp_store st)(p \<mapsto> s\<lparr>datagrams := datagrams s @ [\<lparr>dg_source_address = src,
        dg_source_port = src_port, dg_buffer = buffer\<rparr>], m_event := e\<rparr>)"
proof -
  have "\<not> of_nat (length buffer) > UDP_SOCKET_BUFFER_SIZE"
    using assms(3) by (simp add: UDP_SOCKET_BUFFER_SIZE_def word_less_nat_alt unat_of_nat)
  moreover obtain e' ts' where "simple_raise (m_event s) (udp_threads st) = Inr (e', ts')"
    using simple_raise_ok by blast
  ultimately show ?thesis using assms by (simp add: udp_socket_received_def sock_at_def sock_put_def) blast
qed

text \<open>What delivering to a list of sockets leaves in the store.\<close>

definition same_but :: "datagram list \<Rightarrow> udp_socket option \<Rightarrow> udp_socket option \<Rightarrow> bool" where
  "same_but ds so so' \<longleftrightarrow> (case so of
     None \<Rightarrow> so' = None
   | Some s \<Rightarrow> \<exists>s'. so' = Some s' \<and> m_buffered_size s' = m_buffered_size s
       \<and> source_port s' = source_port s \<and> source_address s' = source_address s
       \<and> datagrams s' = datagrams s @ ds)"

definition delivered_to :: "sock_ptr set \<Rightarrow> datagram \<Rightarrow> udp_state \<Rightarrow> udp_state \<Rightarrow> bool" where
  "delivered_to ps d st st' \<longleftrightarrow> sockets st' = sockets st
     \<and> (\<forall>p. same_but (if p \<in> ps then [d] else []) (udp_store st p) (udp_store st' p))"

lemma same_but_Nil: "same_but [] so so"
  by (simp add: same_but_def split: option.split)

lemma same_but_trans: "same_but ds so so' \<Longrightarrow> same_but ds' so' so'' \<Longrightarrow> same_but (ds @ ds') so so''"
  by (auto simp: same_but_def split: option.splits)

lemma delivered_to_none: "delivered_to {} d st st"
  by (simp add: delivered_to_def same_but_Nil)

lemma delivered_to_step:
  assumes "udp_store st p = Some s" "sockets st1 = sockets st"
    and "udp_store st1 = (udp_store st)(p \<mapsto> s\<lparr>datagrams := datagrams s @ [d], m_event := e\<rparr>)"
    and "delivered_to ps d st1 st'" "p \<notin> ps"
  shows "delivered_to (insert p ps) d st st'"
proof -
  have "same_but (if q \<in> insert p ps then [d] else []) (udp_store st q) (udp_store st' q)" for q
  proof (cases "q = p")
    case True
    have "same_but [d] (udp_store st p) (udp_store st1 p)" using assms(1,3) by (simp add: same_but_def)
    moreover have "same_but [] (udp_store st1 p) (udp_store st' p)"
      using assms(4,5) by (auto simp: delivered_to_def dest: spec [of _ p])
    ultimately show ?thesis using same_but_trans [of "[d]" _ _ "[]"] True by fastforce
  next
    case False
    then show ?thesis using assms(3,4) by (auto simp: delivered_to_def dest: spec [of _ q])
  qed
  then show ?thesis using assms(2,4) by (simp add: delivered_to_def)
qed

lemma udp_deliver_ok:
  assumes "distinct ps" "\<forall>p \<in> set ps. \<exists>s. udp_store st p = Some s \<and> m_buffered_size s = 0" "length buffer < 65536"
  shows "\<exists>st'. udp_deliver src src_port dst dst_port buffer ps st = Inr st'
    \<and> delivered_to {p \<in> set ps. udp_matches dst dst_port (the (udp_store st p))}
        \<lparr>dg_source_address = src, dg_source_port = src_port, dg_buffer = buffer\<rparr> st st'"
  using assms
proof (induction ps arbitrary: st)
  case Nil
  then show ?case by (simp add: delivered_to_none)
next
  case (Cons p ps)
  let ?d = "\<lparr>dg_source_address = src, dg_source_port = src_port, dg_buffer = buffer\<rparr>"
  obtain s where s: "udp_store st p = Some s" "m_buffered_size s = 0" using Cons.prems by auto
  show ?case
  proof (cases "udp_matches dst dst_port s")
    case False
    then have "{q \<in> set (p # ps). udp_matches dst dst_port (the (udp_store st q))} =
        {q \<in> set ps. udp_matches dst dst_port (the (udp_store st q))}" using s by auto
    then show ?thesis
      using Cons.IH [of st] Cons.prems s False by (auto simp: sock_at_def udp_matches_def)
  next
    case True
    obtain st1 e where 1: "udp_socket_received src src_port buffer p st = Inr st1" "sockets st1 = sockets st"
        "udp_store st1 = (udp_store st)(p \<mapsto> s\<lparr>datagrams := datagrams s @ [?d], m_event := e\<rparr>)"
      using udp_socket_received_ok [OF s Cons.prems(3)] by blast
    have "\<forall>q \<in> set ps. \<exists>s. udp_store st1 q = Some s \<and> m_buffered_size s = 0"
      using Cons.prems(1,2) 1(3) by auto
    from Cons.IH [OF _ this Cons.prems(3)] Cons.prems(1) obtain st' where
      st': "udp_deliver src src_port dst dst_port buffer ps st1 = Inr st'"
        "delivered_to {q \<in> set ps. udp_matches dst dst_port (the (udp_store st1 q))} ?d st1 st'" by auto
    have "{q \<in> set ps. udp_matches dst dst_port (the (udp_store st1 q))} =
        {q \<in> set ps. udp_matches dst dst_port (the (udp_store st q))}"
      using Cons.prems(1) 1(3) by auto
    moreover have "insert p {q \<in> set ps. udp_matches dst dst_port (the (udp_store st q))} =
        {q \<in> set (p # ps). udp_matches dst dst_port (the (udp_store st q))}" using s True by auto
    ultimately have "delivered_to {q \<in> set (p # ps). udp_matches dst dst_port (the (udp_store st q))} ?d st st'"
      using delivered_to_step [OF s(1) 1(2,3) st'(2)] Cons.prems(1) by auto
    moreover have "udp_deliver src src_port dst dst_port buffer (p # ps) st = Inr st'"
      using True s 1(1) st'(1) by (auto simp: sock_at_def udp_matches_def)
    ultimately show ?thesis by blast
  qed
qed

subsection \<open>From socket to socket\<close>

definition udp_target :: "udp_socket \<Rightarrow> sockaddr_inet option \<Rightarrow> ipv4_addr \<Rightarrow> u16 \<Rightarrow> bool" where
  "udp_target s dst_addr dst port \<longleftrightarrow> (case dst_addr of
     Some a \<Rightarrow> sa_addr a = dst \<and> sa_port a = port
   | None \<Rightarrow> destination_port s \<noteq> 0 \<and> destination_address s = dst \<and> destination_port s = port)"

definition udp_checksum :: "ipv4_addr \<Rightarrow> ipv4_addr \<Rightarrow> u16 \<Rightarrow> u16 \<Rightarrow> u8 list \<Rightarrow> u16" where
  "udp_checksum src dst sport dport buffer =
     (let total = of_nat (length buffer + 8) in
      to_checksum (sum_bytes (udp_fake_header src dst total) + sum_bytes (udp_header_bytes sport dport total 0)
        + sum_bytes buffer))"

lemma length_udp_header_bytes [simp]: "length (udp_header_bytes a b c d) = 8"
  by (simp add: udp_header_bytes_def)

lemma udp_packet_ok:
  assumes "length junk = 20" "udp_target s dst_addr dst port" "get_interface ds dst = Some dev"
  shows "\<exists>packet. udp_packet junk ds s buffer dst_addr = Inr (Inr packet)
    \<and> encapsulate (junk @ udp_header_bytes (source_port s) port (of_nat (length buffer + 8))
         (udp_checksum (addr (info dev)) (destination_address s) (source_port s) port buffer) @ buffer)
        (of_nat (length buffer + 8)) dst IPv4_UDP = Inr packet"
proof -
  let ?r = "replicate (8 + length buffer) 0"
  obtain h0 where "ipv4_header_of (junk @ ?r) = Inr h0" using ipv4_header_of_ok [of "junk @ ?r"] assms(1) by auto
  then obtain b where b: "encapsulate (junk @ ?r) (of_nat (length buffer + 8)) dst IPv4_UDP = Inr b"
    by (simp add: encapsulate_def)
  have t: "(case dst_addr of Some a \<Rightarrow> Some (sa_addr a, sa_port a)
      | None \<Rightarrow> if destination_port s = 0 then None else Some (destination_address s, destination_port s)) = Some (dst, port)"
    using assms(2) by (auto simp: udp_target_def split: option.splits)
  have l: "(of_nat (8 + length buffer) :: u16) = of_nat (length buffer + 8)" by (simp add: add.commute)
  show ?thesis
    unfolding udp_packet_def Let_def t l using b assms(1,3) encapsulate_rest [OF assms(1) b]
    by (simp add: udp_checksum_def Let_def)
qed

lemma udp_parse_bytes:
  assumes "length buffer < 64000"
  shows "udp_parse (udp_header_bytes sport dport (of_nat (length buffer + 8)) c @ buffer) src dst st =
    (if c \<noteq> 0 \<and> to_checksum (sum_bytes (udp_fake_header src dst (of_nat (length buffer + 8)))
           + sum_bytes (udp_header_bytes sport dport (of_nat (length buffer + 8)) c @ buffer)) \<noteq> 0 then Inr st
     else udp_packetReceived src sport dst dport buffer st)"
proof -
  let ?n = "of_nat (length buffer + 8) :: u16"
  have n: "unat ?n = length buffer + 8" by (simp only: unat_of_nat) (use assms in simp)
  define x where "x = ?n"
  have x: "unat x = length buffer + 8" using n by (simp add: x_def)
  show ?thesis
    unfolding x_def [symmetric] using x
    by (simp add: udp_header_bytes_def be_bytes16_def Let_def)
qed

lemma udp_checksum_ok:
  assumes "length buffer < 64000"
  shows "to_checksum (sum_bytes (udp_fake_header src dst (of_nat (length buffer + 8)))
     + sum_bytes (udp_header_bytes sport dport (of_nat (length buffer + 8)) (udp_checksum src dst sport dport buffer) @ buffer)) = 0"
proof -
  let ?n = "of_nat (length buffer + 8) :: u16"
  let ?as = "be_bytes16 sport @ be_bytes16 dport @ be_bytes16 ?n"
  have eq: "udp_header_bytes sport dport ?n c @ buffer = ?as @ be_bytes16 c @ buffer" for c
    by (simp add: udp_header_bytes_def)
  have "sum_bytes (udp_header_bytes sport dport ?n 0) + sum_bytes buffer = sum_bytes (?as @ be_bytes16 0 @ buffer)"
    unfolding eq [symmetric] by (rule sum_bytes_append [symmetric]) simp
  then have c: "udp_checksum src dst sport dport buffer =
      to_checksum (sum_bytes (udp_fake_header src dst ?n) + sum_bytes (?as @ be_bytes16 0 @ buffer))"
    unfolding udp_checksum_def Let_def add.assoc by simp
  show ?thesis
    unfolding eq c by (rule checksum_field) (use assms in \<open>simp_all add: udp_fake_header_def\<close>)
qed

lemma udp_received_bytes:
  assumes "length junk = 20" "length rest = n" "n + 20 < 65536"
    and "encapsulate (junk @ rest) (of_nat n) dst IPv4_UDP = Inr packet" "accepts dev' dst"
  shows "\<exists>packet'. ipv4_fill dev packet = Inr packet'
    \<and> udp_ipv4_received dev' packet' st = udp_parse rest (addr (info dev)) dst st"
proof -
  obtain packet' where "ipv4_fill dev packet = Inr packet'"
      "ipv4_parse dev' packet' = Inr (upcall_for IPv4_UDP rest (addr (info dev)) dst)"
    using delivered [OF assms(1), of rest dst IPv4_UDP dev dev'] assms(2-5) by auto
  then show ?thesis
    by (auto simp: udp_ipv4_received_def upcall_for_def IPv4_TCP_def IPv4_UDP_def)
qed

text \<open>
  C14. UDP datagrams arrive. What a connected socket sends (or one that names the address it
  is connected to) reaches, through the IPv4 layers of both hosts and both checksums, every
  socket of the receiver bound to the destination port and address: each gets the whole
  payload once, at the end of its queue, with the sender's address and port, and no other
  socket changes.
\<close>

theorem udp_delivery:
  assumes "length junk = 20" "length buffer < 64000" "udp_target s dst_addr dst port" "destination_address s = dst"
    and "get_interface ds dst = Some dev" "accepts dev' dst" "port \<noteq> 0" "udp_ok st"
  shows "\<exists>packet packet' st'. udp_packet junk ds s buffer dst_addr = Inr (Inr packet)
    \<and> ipv4_fill dev packet = Inr packet' \<and> udp_ipv4_received dev' packet' st = Inr st'
    \<and> delivered_to {p \<in> set (sockets st). udp_matches dst port (the (udp_store st p))}
        \<lparr>dg_source_address = addr (info dev), dg_source_port = source_port s, dg_buffer = buffer\<rparr> st st'"
proof -
  let ?c = "udp_checksum (addr (info dev)) (destination_address s) (source_port s) port buffer"
  let ?rest = "udp_header_bytes (source_port s) port (of_nat (length buffer + 8)) ?c @ buffer"
  obtain packet where p: "udp_packet junk ds s buffer dst_addr = Inr (Inr packet)"
      "encapsulate (junk @ ?rest) (of_nat (length buffer + 8)) dst IPv4_UDP = Inr packet"
    using udp_packet_ok [OF assms(1,3,5)] by blast
  obtain packet' where p': "ipv4_fill dev packet = Inr packet'"
      "udp_ipv4_received dev' packet' st = udp_parse ?rest (addr (info dev)) dst st"
    using udp_received_bytes [OF assms(1) _ _ p(2) assms(6), of dev st] assms(2) by auto
  have "udp_parse ?rest (addr (info dev)) dst st =
      udp_packetReceived (addr (info dev)) (source_port s) dst port buffer st"
    using udp_parse_bytes [OF assms(2)] udp_checksum_ok [OF assms(2)] by (simp add: assms(4))
  moreover have "length buffer < 65536" using assms(2) by simp
  ultimately show ?thesis
    using udp_deliver_ok [of "sockets st" st buffer "addr (info dev)" "source_port s" dst port] p(1) p' assms(7,8)
    by (auto simp: udp_packetReceived_def udp_ok_def)
qed

text \<open>Witness of C14: two bytes from a connected socket to the socket bound to port 53.\<close>

definition dns_client :: udp_socket where
  "dns_client = new_udp_socket\<lparr>source_port := 49152, destination_address := IPv4 10 0 0 2, destination_port := 53\<rparr>"

definition dns_server :: udp_state where
  "dns_server = \<lparr>sockets = [1], udp_store = [1 \<mapsto> new_udp_socket\<lparr>source_port := 53\<rparr>],
     udp_ports = ports_init, udp_threads = (\<lambda>_. undefined)\<rparr>"

theorem udp_delivery_witness:
  "\<exists>packet packet' st'. udp_packet (replicate 20 0) [Some eth_device] dns_client [1, 2] None = Inr (Inr packet)
    \<and> ipv4_fill eth_device packet = Inr packet' \<and> udp_ipv4_received eth_device packet' dns_server = Inr st'
    \<and> map_option datagrams (udp_store st' 1) = Some [\<lparr>dg_source_address = IPv4 10 0 0 2, dg_source_port = 49152, dg_buffer = [1, 2]\<rparr>]"
proof -
  have "get_interface [Some eth_device] (IPv4 10 0 0 2) = Some eth_device"
    by (simp add: get_interface_def eth_device_def Let_def)
  moreover have "udp_ok dns_server" by (simp add: udp_ok_def dns_server_def new_udp_socket_def)
  moreover have "udp_target dns_client None (IPv4 10 0 0 2) 53"
    by (simp add: udp_target_def dns_client_def)
  moreover have "accepts eth_device (IPv4 10 0 0 2)" by (simp add: accepts_def eth_device_def)
  moreover have "{p \<in> set (sockets dns_server). udp_matches (IPv4 10 0 0 2) 53 (the (udp_store dns_server p))} = {1}"
    by (auto simp: dns_server_def udp_matches_def new_udp_socket_def)
  ultimately show ?thesis
    using udp_delivery [of "replicate 20 0" "[1, 2]" dns_client None "IPv4 10 0 0 2" 53 "[Some eth_device]" eth_device
        eth_device dns_server]
    by (fastforce simp: delivered_to_def same_but_def dns_client_def dns_server_def new_udp_socket_def eth_device_def
        dest: spec [of _ 1])
qed

text \<open>The sum of a pseudo header splits off the destination.\<close>

lemma fake_header_sum:
  "sum_bytes (udp_fake_header src dst n) =
     sum_bytes (addr_bytes dst) + (sum_bytes (addr_bytes src) + sum_bytes ([0, 17] @ be_bytes16 n))"
  unfolding udp_fake_header_def by (subst sum_bytes_append, simp, subst sum_bytes_append) (simp_all add: ac_simps)

lemma sum_small: "length bs \<le> 65000 \<Longrightarrow> unat (sum_bytes bs) \<le> 65535 * 32500"
proof -
  assume a: "length bs \<le> 65000"
  then have "unat (sum_bytes bs) \<le> 65535 * ((length bs + 1) div 2)" by (intro sum_bytes_bound) simp
  also have "\<dots> \<le> 65535 * 32500" using a by (intro mult_le_mono2) simp
  finally show ?thesis .
qed

lemma dvd_add_same_mod: "m dvd a + r \<Longrightarrow> m dvd b + r \<Longrightarrow> a mod m = b mod m" for a b r m :: nat
proof (induction a b rule: linorder_wlog)
  case (le a b)
  then have "m dvd (b + r) - (a + r)" by (intro dvd_diff_nat)
  then show ?case using le(1) by (simp add: mod_eq_dvd_iff_nat [of a b m, symmetric])
next
  case (sym a b)
  then show ?case by simp
qed

lemma wrong_pseudo_sum:
  assumes "length bs \<le> 65000"
    and "unat (sum_bytes (addr_bytes dst)) mod 65535 \<noteq> unat (sum_bytes (addr_bytes dst')) mod 65535"
    and "to_checksum (sum_bytes (udp_fake_header src dst n) + sum_bytes bs) = 0"
  shows "to_checksum (sum_bytes (udp_fake_header src dst' n) + sum_bytes bs) \<noteq> 0"
proof -
  define R where "R = sum_bytes (addr_bytes src) + sum_bytes ([0, 17] @ be_bytes16 n) + sum_bytes bs"
  have four: "length ys = 4 \<Longrightarrow> unat (sum_bytes ys) \<le> 131070" for ys
    using sum_bytes_bound [of ys] by simp
  have "unat (sum_bytes bs) \<le> 2129887500" using sum_small [OF assms(1)] by simp
  then have R: "unat R \<le> 2130149640"
    using four [of "addr_bytes src"] four [of "[0, 17] @ be_bytes16 n"] unfolding R_def
    by (simp add: unat_word_ariths del: sum_bytes.simps)
  have total: "sum_bytes (udp_fake_header src d n) + sum_bytes bs = sum_bytes (addr_bytes d) + R" for d
    by (simp add: fake_header_sum R_def ac_simps del: sum_bytes.simps)
  have nat: "unat (sum_bytes (addr_bytes d) + R) = unat (sum_bytes (addr_bytes d)) + unat R" for d
    using four [of "addr_bytes d"] R by (simp add: unat_word_ariths)
  have "unat (sum_bytes (addr_bytes dst)) mod 65535 = unat (sum_bytes (addr_bytes dst')) mod 65535"
    if "65535 dvd unat (sum_bytes (addr_bytes dst)) + unat R" "65535 dvd unat (sum_bytes (addr_bytes dst')) + unat R"
    using that by (rule dvd_add_same_mod)
  then show ?thesis using assms(2,3) unfolding total to_checksum_0 nat by blast
qed

text \<open>
  \<open>sendTo\<close> with an address of its own computes the checksum over the pseudo header of the
  \<open>connected\<close> address. Unless the two addresses have the same checksum (or the sum happens to
  come out as the 0 that stands for "no checksum"), the receiving host drops the datagram
  and no socket changes.
\<close>

lemma udp_sendTo_other_address_dropped:
  assumes "length junk = 20" "length buffer < 64000" "udp_target s dst_addr dst port"
    and "get_interface ds dst = Some dev" "accepts dev' dst"
    and "udp_checksum (addr (info dev)) (destination_address s) (source_port s) port buffer \<noteq> 0"
    and "unat (sum_bytes (addr_bytes (destination_address s))) mod 65535 \<noteq> unat (sum_bytes (addr_bytes dst)) mod 65535"
  shows "\<exists>packet packet'. udp_packet junk ds s buffer dst_addr = Inr (Inr packet)
    \<and> ipv4_fill dev packet = Inr packet' \<and> udp_ipv4_received dev' packet' st = Inr st"
proof -
  let ?c = "udp_checksum (addr (info dev)) (destination_address s) (source_port s) port buffer"
  let ?rest = "udp_header_bytes (source_port s) port (of_nat (length buffer + 8)) ?c @ buffer"
  obtain packet where p: "udp_packet junk ds s buffer dst_addr = Inr (Inr packet)"
      "encapsulate (junk @ ?rest) (of_nat (length buffer + 8)) dst IPv4_UDP = Inr packet"
    using udp_packet_ok [OF assms(1,3,4)] by blast
  obtain packet' where p': "ipv4_fill dev packet = Inr packet'"
      "udp_ipv4_received dev' packet' st = udp_parse ?rest (addr (info dev)) dst st"
    using udp_received_bytes [OF assms(1) _ _ p(2) assms(5), of dev st] assms(2) by auto
  have "length ?rest \<le> 65000" using assms(2) by simp
  from wrong_pseudo_sum [OF this assms(7) udp_checksum_ok [OF assms(2)]]
  have "udp_parse ?rest (addr (info dev)) dst st = Inr st"
    using udp_parse_bytes [OF assms(2)] assms(6) by simp
  with p p' show ?thesis by simp
qed

subsection \<open>Ports of sockets\<close>

definition sock_port :: "udp_state \<Rightarrow> sock_ptr \<Rightarrow> u16" where
  "sock_port st p = source_port (the (udp_store st p))"

definition udp_inv :: "udp_state \<Rightarrow> bool" where
  "udp_inv st \<longleftrightarrow> distinct (sockets st) \<and> (\<forall>p \<in> set (sockets st). udp_store st p \<noteq> None)
     \<and> ports.holders_ok (map (sock_port st) (sockets st)) (udp_ports st)"

lemma udp_invI:
  "map (sock_port st) (sockets st) = ns \<Longrightarrow> distinct (sockets st) \<Longrightarrow>
   (\<And>p. p \<in> set (sockets st) \<Longrightarrow> udp_store st p \<noteq> None) \<Longrightarrow> ports.holders_ok ns (udp_ports st) \<Longrightarrow> udp_inv st"
  by (auto simp: udp_inv_def)

lemma sock_port_put [simp]:
  "sock_port (sock_put p s st) q = (if q = p then source_port s else sock_port st q)"
  by (simp add: sock_port_def sock_put_def)

lemma sock_put_simps [simp]:
  "sockets (sock_put p s st) = sockets st" "udp_ports (sock_put p s st) = udp_ports st"
  "udp_store (sock_put p s st) = (udp_store st)(p \<mapsto> s)"
  by (simp_all add: sock_put_def)

lemma sock_port_cong: "udp_store st = udp_store st' \<Longrightarrow> sock_port st = sock_port st'"
  by (simp add: sock_port_def fun_eq_iff)

lemma erase_ptr_index:
  "distinct ps \<Longrightarrow> i < length ps \<Longrightarrow> erase_ptr (ps ! i) ps = take i ps @ drop (Suc i) ps"
proof (induction ps arbitrary: i)
  case (Cons q qs)
  then show ?case by (cases i) auto
qed simp

lemma udp_inv_create:
  assumes "udp_inv st" "ptr \<notin> set (sockets st)" "udp_createSocket type ptr st = Inr (r, st')"
  shows "udp_inv st'"
proof (cases "type \<noteq> SOCK_DGRAM \<or> ptr = 0")
  case True
  then have "st' = st" using assms(3) by (cases "type = SOCK_DGRAM") (simp_all add: udp_createSocket_def)
  then show ?thesis using assms(1) by simp
next
  case False
  then obtain port pt where a: "allocateDynamicPort (udp_ports st) = Inr (port, pt)"
    using assms(3) by (auto simp: udp_createSocket_def res_bind_Inr_iff)
  have h: "ports.holders_ok (map (sock_port st) (sockets st) @ [port]) pt"
    by (rule ports.holders_fresh [OF _ a]) (use assms(1) in \<open>simp add: udp_inv_def\<close>)
  show ?thesis
  proof (cases "port = 0")
    case True
    then have st': "st' = st\<lparr>udp_ports := pt\<rparr>" using assms(3) False a by (simp add: udp_createSocket_def Let_def)
    have "sock_port st' = sock_port st" unfolding st' by (rule sock_port_cong) simp
    moreover have "ports.holders_ok (map (sock_port st) (sockets st)) pt"
      using h by (simp add: ports.holders_ok_def)
    ultimately show ?thesis using assms(1) unfolding st' by (simp add: udp_inv_def)
  next
    case port: False
    let ?s = "new_udp_socket\<lparr>source_port := port\<rparr>"
    have st': "st' = (sock_put ptr ?s (st\<lparr>udp_ports := pt\<rparr>))\<lparr>sockets := sockets st @ [ptr]\<rparr>"
      using assms(3) False a port by (simp add: udp_createSocket_def Let_def)
    have "map (sock_port st') (sockets st') = map (sock_port st) (sockets st) @ [port]"
      using assms(2) unfolding st' by (auto simp: sock_port_def sock_put_def)
    then show ?thesis
      by (rule udp_invI) (use assms(1,2) h in \<open>auto simp: st' udp_inv_def\<close>)
  qed
qed

lemma map_sock_update:
  assumes "distinct ps" "i < length ps"
  shows "map (\<lambda>q. if q = ps ! i then v else f q) ps = (map f ps)[i := v]"
  using assms by (auto simp: list_eq_iff_nth_eq nth_list_update distinct_conv_nth)

lemma udp_inv_bind:
  assumes inv: "udp_inv st" and p: "p \<in> set (sockets st)"
  shows "\<exists>err st'. udp_bind p m_addr st = Inr (err, st') \<and> udp_inv st'
     \<and> (sa_domain m_addr = AF_INET \<longrightarrow> (err = ENONE \<longleftrightarrow> sa_port m_addr \<notin> taken_ports (udp_ports st)))"
proof -
  obtain i where i: "i < length (sockets st)" "p = sockets st ! i" using p by (metis in_set_conv_nth)
  obtain s where s: "udp_store st p = Some s" using inv p by (auto simp: udp_inv_def)
  let ?ns = "map (sock_port st) (sockets st)" and ?n = "sa_port m_addr"
  have ok: "ports.holders_ok ?ns (udp_ports st)" and d: "distinct (sockets st)" using inv by (simp_all add: udp_inv_def)
  have pinv: "ports_inv (udp_ports st)" using ok by (simp add: ports.holders_ok_def)
  show ?thesis
  proof (cases "sa_domain m_addr = AF_INET")
    case False
    then show ?thesis using inv s by (simp add: udp_bind_def sock_at_def)
  next
    case True
    obtain b t1 where a: "allocatePort ?n (udp_ports st) = Inr (b, t1)"
      using ports.reserve_total [OF pinv, of ?n] by auto
    have b: "b \<longleftrightarrow> ?n \<notin> taken_ports (udp_ports st)" "taken_ports t1 = insert ?n (taken_ports (udp_ports st))" "ports_inv t1"
      using ports.reserve_law [OF pinv a] by simp_all
    show ?thesis
    proof (cases b)
      case False
      have "sock_port (st\<lparr>udp_ports := t1\<rparr>) = sock_port st" by (rule sock_port_cong) simp
      moreover have "ports.holders_ok ?ns t1" using ok b by (auto simp: ports.holders_ok_def)
      ultimately show ?thesis
        using inv s True a b(1) False by (auto simp: udp_bind_def sock_at_def udp_inv_def)
    next
      case fresh: True
      obtain t2 where t2: "freePort (?ns ! i) t1 = Inr t2" using ports.release_law [OF b(3)] by blast
      have h: "ports.holders_ok (?ns[i := ?n]) t2" "ports.holders_ok (?ns[i := ?n]) t1"
        using ports.holders_rebind [OF ok _ _ a t2] i b(1) fresh by auto
      have sp: "source_port s = ?ns ! i" using i s by (simp add: sock_port_def)
      let ?s = "s\<lparr>source_address := sa_addr m_addr, source_port := ?n\<rparr>"
      have inv': "udp_inv (sock_put p ?s (st\<lparr>udp_ports := t\<rparr>))" if "ports.holders_ok (?ns[i := ?n]) t" for t
      proof -
        have "sock_port (st\<lparr>udp_ports := t\<rparr>) = sock_port st" by (rule sock_port_cong) simp
        then have "map (sock_port (sock_put p ?s (st\<lparr>udp_ports := t\<rparr>))) (sockets st) = ?ns[i := ?n]"
          unfolding map_sock_update [OF d i(1), of ?n "sock_port st", symmetric] i(2) by simp
        then show ?thesis using that inv unfolding udp_inv_def by auto
      qed
      show ?thesis
      proof (cases "source_port s = 0")
        case True
        then show ?thesis using \<open>sa_domain m_addr = AF_INET\<close> s a fresh b(1) inv' [OF h(2)]
          by (simp add: udp_bind_def sock_at_def)
      next
        case False
        then show ?thesis using \<open>sa_domain m_addr = AF_INET\<close> s a fresh b(1) inv' [OF h(1)] t2 sp
          by (simp add: udp_bind_def sock_at_def)
      qed
    qed
  qed
qed

lemma udp_inv_destroy:
  assumes inv: "udp_inv st" and p: "p \<in> set (sockets st)"
  shows "\<exists>st'. udp_destroy p st = Inr st' \<and> udp_inv st' \<and> set (sockets st') = set (sockets st) - {p}
     \<and> (sock_port st p \<noteq> 0 \<longrightarrow> sock_port st p \<notin> taken_ports (udp_ports st'))"
proof -
  obtain i where i: "i < length (sockets st)" "p = sockets st ! i" using p by (metis in_set_conv_nth)
  obtain s where s: "udp_store st p = Some s" using inv p by (auto simp: udp_inv_def)
  let ?ns = "map (sock_port st) (sockets st)"
  define as bs where "as = take i (sockets st)" and "bs = drop (Suc i) (sockets st)"
  have ok: "ports.holders_ok ?ns (udp_ports st)" and d: "distinct (sockets st)" using inv by (simp_all add: udp_inv_def)
  have sp: "source_port s = ?ns ! i" "sock_port st p = source_port s" using i s by (simp_all add: sock_port_def)
  have er: "erase_ptr p (sockets st) = as @ bs" using erase_ptr_index [OF d i(1)] i(2) by (simp add: as_def bs_def)
  have split: "sockets st = as @ p # bs" unfolding as_def bs_def i(2) by (rule id_take_nth_drop [OF i(1)])
  have ns: "take i ?ns @ drop (Suc i) ?ns = map (sock_port st) (as @ bs)"
    by (simp add: as_def bs_def take_map drop_map)
  have "ports_inv (udp_ports st)" using ok by (simp add: ports.holders_ok_def)
  then obtain t where t: "freePort (?ns ! i) (udp_ports st) = Inr t" "taken_ports t = taken_ports (udp_ports st) - {?ns ! i}"
    using ports.release_law by blast
  have h: "ports.holders_ok (map (sock_port st) (as @ bs)) t"
    using ports.holders_release [OF ok, of i] i(1) t(1) ns by simp
  have h0: "ports.holders_ok (map (sock_port st) (as @ bs)) (udp_ports st)"
    using ok unfolding split by (auto simp: ports.holders_ok_def)
  define fin where "fin pt = st\<lparr>sockets := as @ bs, udp_ports := pt, udp_store := (udp_store st)(p := None)\<rparr>" for pt
  have fin: "udp_inv (fin pt) \<and> set (sockets (fin pt)) = set (sockets st) - {p}"
    if "ports.holders_ok (map (sock_port st) (as @ bs)) pt" for pt
  proof -
    have "p \<notin> set (as @ bs)" "distinct (as @ bs)" using d unfolding split by auto
    note new = this
    have set: "set (sockets st) = insert p (set (as @ bs))" unfolding split by auto
    have "map (sock_port (fin pt)) (sockets (fin pt)) = map (sock_port st) (as @ bs)"
      using new(1) by (auto simp: sock_port_def fin_def)
    then have "udp_inv (fin pt)"
      by (rule udp_invI) (use new set that inv in \<open>auto simp: fin_def udp_inv_def\<close>)
    then show ?thesis using new set by (auto simp: fin_def)
  qed
  show ?thesis
  proof (cases "source_port s = 0")
    case True
    then show ?thesis using s er fin [OF h0] sp by (simp add: udp_destroy_def sock_at_def fin_def Let_def)
  next
    case False
    then show ?thesis using s er fin [OF h] sp t by (simp add: udp_destroy_def sock_at_def fin_def Let_def)
  qed
qed

text \<open>
  No two UDP sockets share a port. The invariant (every socket of the table is alive, its
  port is reserved, and ports are pairwise different) is kept by creating, binding and
  destroying sockets; binding succeeds exactly when the wanted port is free, and destroying
  a socket frees its port.
\<close>

lemma udp_ports_unique:
  assumes "udp_inv st"
  shows "distinct (map (sock_port st) (sockets st))
    \<and> (\<forall>type ptr r st'. ptr \<notin> set (sockets st) \<and> udp_createSocket type ptr st = Inr (r, st') \<longrightarrow> udp_inv st')
    \<and> (\<forall>p \<in> set (sockets st). \<forall>m_addr. \<exists>err st'. udp_bind p m_addr st = Inr (err, st') \<and> udp_inv st'
         \<and> (sa_domain m_addr = AF_INET \<longrightarrow> (err = ENONE \<longleftrightarrow> sa_port m_addr \<notin> taken_ports (udp_ports st))))
    \<and> (\<forall>p \<in> set (sockets st). \<exists>st'. udp_destroy p st = Inr st' \<and> udp_inv st' \<and> set (sockets st') = set (sockets st) - {p}
         \<and> (sock_port st p \<noteq> 0 \<longrightarrow> sock_port st p \<notin> taken_ports (udp_ports st')))"
proof (intro conjI ballI allI impI)
  show "distinct (map (sock_port st) (sockets st))" using assms by (simp add: udp_inv_def ports.holders_ok_def)
qed (use assms udp_inv_create udp_inv_bind udp_inv_destroy in blast)+

end
