(* ===== verification/TcpSegment.thy ===== *)
theory TcpSegment
  imports Ipv4 CText CircularBuffer
begin

unbundle bit_operations_syntax

text \<open>
  TCP, first part: sequence numbers, the header, segments on the wire and options
  (\<open>socket/inet/tcp.cpp\<close>, \<open>socket/inet/tcp.hpp\<close>, \<open>layer/transport/tcp.cpp\<close> of the network stack).
\<close>

subsection \<open>Sequence numbers\<close>

definition SEQ_EXTENT :: u32 where "SEQ_EXTENT = 2147483647"

definition is_before :: "u32 \<Rightarrow> u32 \<Rightarrow> u32 \<Rightarrow> bool" where
  "is_before val start extent =
     (if val = start then False
      else if val > start then 0xFFFFFFFF - val + start \<le> extent
      else if val < start then start - val \<le> extent
      else False)"

definition is_before_or_equal :: "u32 \<Rightarrow> u32 \<Rightarrow> u32 \<Rightarrow> bool" where
  "is_before_or_equal val start extent =
     (if val = start then True
      else if val > start then 0xFFFFFFFF - val + start \<le> extent
      else if val < start then start - val \<le> extent
      else False)"

definition is_after :: "u32 \<Rightarrow> u32 \<Rightarrow> u32 \<Rightarrow> bool" where
  "is_after val start extent = (\<not> is_before_or_equal val start extent)"

definition is_after_or_equal :: "u32 \<Rightarrow> u32 \<Rightarrow> u32 \<Rightarrow> bool" where
  "is_after_or_equal val start extent = (\<not> is_before val start extent)"

subsection \<open>States, flags and constants\<close>

datatype tcp_state_t =
    TCP_LISTEN | TCP_SYN_SENT | TCP_SYN_RECEIVED | TCP_ESTABLISHED | TCP_FIN_WAIT_1 | TCP_FIN_WAIT_2
  | TCP_CLOSE_WAIT | TCP_CLOSING | TCP_LAST_ACK | TCP_TIME_WAIT | TCP_CLOSED

definition TCP_FIN :: u16 where "TCP_FIN = 0x01"
definition TCP_SYN :: u16 where "TCP_SYN = 0x02"
definition TCP_RST :: u16 where "TCP_RST = 0x04"
definition TCP_PSH :: u16 where "TCP_PSH = 0x08"
definition TCP_ACK :: u16 where "TCP_ACK = 0x10"

definition TCP_RETRANSMIT_INTERVAL :: u64 where "TCP_RETRANSMIT_INTERVAL = 2 * 1000000000"
definition TCP_CONNECTION_TIMEOUT :: u64 where "TCP_CONNECTION_TIMEOUT = 7 * 1000000000"
definition TCP_RETRIES :: u8 where "TCP_RETRIES = 5"
definition TCP_TX_BUFFER_SIZE :: int where "TCP_TX_BUFFER_SIZE = 4096"
definition TCP_RX_BUFFER_SIZE :: int where "TCP_RX_BUFFER_SIZE = 8192 + 64"
definition TCP_MIN_MSS :: u16 where "TCP_MIN_MSS = 256"
definition TCP_PROBE_SLACK :: int where "TCP_PROBE_SLACK = 64"

text \<open>\<open>tcp_debug_serialize_flags\<close>, from flag \<open>i\<close> on, with the text so far.\<close>

definition flag_names :: "string list" where
  "flag_names = [''fin'', ''syn'', ''rst'', ''psh'', ''ack'', ''urg'']"

fun serialize_flags_loop :: "string list \<Rightarrow> nat \<Rightarrow> u32 \<Rightarrow> string \<Rightarrow> string" where
  "serialize_flags_loop [] i flags text = text"
| "serialize_flags_loop (bong # bongs) i flags text =
     (if flags AND push_bit i 1 = 0 then serialize_flags_loop bongs (i + 1) flags text
      else serialize_flags_loop bongs (i + 1) flags
             ((if text \<noteq> '''' then text @ ''/'' else text) @ bong))"

definition tcp_debug_serialize_flags :: "u32 \<Rightarrow> string" where
  "tcp_debug_serialize_flags flags = serialize_flags_loop flag_names 0 flags '''' @ [NUL]"

subsection \<open>Header and segments\<close>

record tcp_header =
  th_source_port :: u16
  th_destination_port :: u16
  th_seq_number :: u32
  th_ack_number :: u32
  goddamned_bitvalues :: u16
  th_window :: u16
  th_checksum :: u16
  th_urgent_pointer :: u16

definition tcp_header_bytes :: "tcp_header \<Rightarrow> u8 list" where
  "tcp_header_bytes h = be_bytes16 (th_source_port h) @ be_bytes16 (th_destination_port h)
     @ be_bytes32 (th_seq_number h) @ be_bytes32 (th_ack_number h)
     @ be_bytes16 (goddamned_bitvalues h) @ be_bytes16 (th_window h)
     @ be_bytes16 (th_checksum h) @ be_bytes16 (th_urgent_pointer h)"

text \<open>\<open>(tcp_header*) buffer\<close>\<close>

fun tcp_header_of :: "u8 list \<Rightarrow> tcp_header res" where
  "tcp_header_of (a1 # a2 # b1 # b2 # s1 # s2 # s3 # s4 # k1 # k2 # k3 # k4 # g1 # g2 # w1 # w2 # c1 # c2 # u1 # u2 # rest) =
     Inr \<lparr>th_source_port = get_be16 a1 a2, th_destination_port = get_be16 b1 b2,
       th_seq_number = get_be32 s1 s2 s3 s4, th_ack_number = get_be32 k1 k2 k3 k4,
       goddamned_bitvalues = get_be16 g1 g2, th_window = get_be16 w1 w2,
       th_checksum = get_be16 c1 c2, th_urgent_pointer = get_be16 u1 u2\<rparr>"
| "tcp_header_of _ = Inl OutOfBounds"

definition tcp_fake_header :: "ipv4_addr \<Rightarrow> ipv4_addr \<Rightarrow> u16 \<Rightarrow> u8 list" where
  "tcp_fake_header src dst len = addr_bytes src @ addr_bytes dst @ [0, 6] @ be_bytes16 len"

record segment =
  sg_seq :: u32
  sg_ack :: u32
  ack_with :: u32
  sg_flags :: u16
  retransmit_at :: u64
  sg_retries :: u8
  sg_header_len :: nat
  sg_data :: "u8 list"

definition new_segment :: segment where
  "new_segment = \<lparr>sg_seq = 0, sg_ack = 0, ack_with = 0, sg_flags = 0, retransmit_at = 0, sg_retries = 0,
     sg_header_len = 8, sg_data = []\<rparr>"

text \<open>
  The bytes \<open>sendSegment\<close> puts behind the IPv4 header: sender \<open>src\<close>, receiver \<open>dst\<close>,
  the ports and the window it advertises.
\<close>

definition segment_header :: "u16 \<Rightarrow> u16 \<Rightarrow> u16 \<Rightarrow> segment \<Rightarrow> tcp_header" where
  "segment_header sport dport window seg =
     \<lparr>th_source_port = sport, th_destination_port = dport, th_seq_number = sg_seq seg,
       th_ack_number = sg_ack seg,
       goddamned_bitvalues = push_bit 12 (of_nat (sg_header_len seg div 4)) OR sg_flags seg,
       th_window = window, th_checksum = 0, th_urgent_pointer = 0\<rparr>"

definition segment_bytes :: "ipv4_addr \<Rightarrow> ipv4_addr \<Rightarrow> u16 \<Rightarrow> u16 \<Rightarrow> u16 \<Rightarrow> segment \<Rightarrow> u8 list" where
  "segment_bytes src dst sport dport window seg =
     (let h = segment_header sport dport window seg;
          sum = sum_bytes (tcp_fake_header src dst (of_nat (length (sg_data seg) + 20)))
            + sum_bytes (tcp_header_bytes h) + sum_bytes (sg_data seg)
      in tcp_header_bytes (h\<lparr>th_checksum := to_checksum sum\<rparr>) @ sg_data seg)"

subsection \<open>Layer and options\<close>

text \<open>\<open>TCPLayer::parse\<close>: the ports and the buffer it hands to the protocol.\<close>

definition tcp_parse :: "u8 list \<Rightarrow> ipv4_addr \<Rightarrow> ipv4_addr \<Rightarrow> (u16 \<times> u16 \<times> u8 list) option" where
  "tcp_parse buffer src_addr dst_addr =
     (case tcp_header_of buffer of
        Inl _ \<Rightarrow> None
      | Inr header \<Rightarrow>
          let hdr_len = drop_bit 10 (goddamned_bitvalues header) in
          if unat hdr_len > length buffer then None
          else
            let total = sum_bytes (tcp_fake_header src_addr dst_addr (of_nat (length buffer))) + sum_bytes buffer in
            if to_checksum total \<noteq> 0 then None
            else Some (th_source_port header, th_destination_port header, buffer))"

text \<open>\<open>readOptions\<close>, from byte \<open>i\<close> on: the maximum segment size it leaves.\<close>

function read_options :: "u8 list \<Rightarrow> nat \<Rightarrow> nat \<Rightarrow> u16 \<Rightarrow> u16 res" where
  "read_options buffer hdr_len i snd_mss =
     (if i < hdr_len then
        res_bind (cell_get buffer i) (\<lambda>kind. res_bind (cell_get buffer (i + 1)) (\<lambda>len.
          let len = (if len < 2 then 2 else len) in
          if kind = 0 then Inr snd_mss
          else if kind = 1 then Inr snd_mss
          else if kind = 2 then
            res_bind (cell_get buffer (i + 2)) (\<lambda>m1. res_bind (cell_get buffer (i + 3)) (\<lambda>m2.
              read_options buffer hdr_len (i + unat len) (clamp (get_be16 m1 m2) TCP_MIN_MSS 1460)))
          else read_options buffer hdr_len (i + unat len) snd_mss))
      else Inr snd_mss)"
  by pat_completeness auto
termination
proof (relation "measure (\<lambda>(buffer, hdr_len, i, mss). hdr_len - i)", goal_cases)
  case (2 buffer hdr_len i snd_mss kind l len)
  have "0 < unat len" using 2(2) by (auto simp: unat_gt_0 word_less_nat_alt)
  then show ?case using 2(1) by simp
next
  case (3 buffer hdr_len i snd_mss kind l len)
  have "0 < unat len" using 3(2) by (auto simp: unat_gt_0 word_less_nat_alt)
  then show ?case using 3(1) by simp
qed simp

declare read_options.simps [simp del]

end
