(* ===== verification/TcpSocket.thy ===== *)
theory TcpSocket
  imports TcpSegment
begin

unbundle bit_operations_syntax

text \<open>
  TCP, second part: the socket (\<open>socket/inet/tcp.cpp\<close>). An operation works on one socket and
  on the list of packets it has handed to \<open>IPv4Layer::route\<close>, oldest first. Its
  environment (the time, the devices, the calling thread, the junk bytes of the stack the
  packet is built on) is a record. A call that waits is split at the wait: what runs
  between two waits holds the socket's spinlock, and where the code gives the lock back
  only to send a packet it goes on with the same state.

  The spinlock is not reentrant. The one call that takes it while it is already held is
  visible in the model: \<open>tcp_fin\<close> gets whether its caller holds the lock and then spins
  forever (\<open>Deadlock\<close>).
\<close>

record tcp_block =
  state :: tcp_state_t
  snd_una :: u32
  snd_nxt :: u32
  snd_wnd :: u16
  snd_mss :: u16
  rcv_nxt :: u32
  sending_comp_ack :: bool
  notify_of_window_size :: bool
  closing :: bool
  send_shut :: bool
  receive_shut :: bool

definition new_tcp_block :: tcp_block where
  "new_tcp_block = \<lparr>state = TCP_CLOSED, snd_una = 0, snd_nxt = 0, snd_wnd = 0, snd_mss = 0, rcv_nxt = 0,
     sending_comp_ack = False, notify_of_window_size = False, closing = False, send_shut = False,
     receive_shut = False\<rparr>"

record tcp_listen_entry =
  le_source_address :: ipv4_addr
  le_source_port :: u16
  le_block :: tcp_block

type_synonym tcp_ptr = nat

record tcp_socket =
  t_source_address :: ipv4_addr
  t_source_port :: u16
  t_destination_address :: ipv4_addr
  t_destination_port :: u16
  m_tx_event :: event
  m_rx_event :: event
  m_tx_buffer :: circ
  m_rx_buffer :: circ
  m_retransmission_queue :: "segment list"
  m_listen_queue :: "tcp_listen_entry list option"
  m_accept_queue :: "tcp_ptr list option"
  m_block :: tcp_block
  m_listen_backlog :: int
  m_async_id :: u16

definition new_tcp_socket :: tcp_socket where
  "new_tcp_socket = \<lparr>t_source_address = IPv4_ANY, t_source_port = 0, t_destination_address = IPv4_ANY,
     t_destination_port = 0, m_tx_event = new_event, m_rx_event = new_event,
     m_tx_buffer = newCircularBuffer TCP_TX_BUFFER_SIZE, m_rx_buffer = newCircularBuffer TCP_RX_BUFFER_SIZE,
     m_retransmission_queue = [], m_listen_queue = None, m_accept_queue = None,
     m_block = new_tcp_block, m_listen_backlog = 0, m_async_id = 0\<rparr>"

record tcp_env =
  now :: u64
  devs :: devices
  self :: tid
  intr :: bool
  junk :: "u8 list"

type_synonym packets = "u8 list list"

text \<open>Shorthands for updates of the block.\<close>

abbreviation upd_block :: "(tcp_block \<Rightarrow> tcp_block) \<Rightarrow> tcp_socket \<Rightarrow> tcp_socket" where
  "upd_block f s \<equiv> s\<lparr>m_block := f (m_block s)\<rparr>"

abbreviation tcp_state :: "tcp_socket \<Rightarrow> tcp_state_t" where
  "tcp_state s \<equiv> state (m_block s)"

definition set_state :: "tcp_state_t \<Rightarrow> tcp_socket \<Rightarrow> tcp_socket" where
  "set_state st s = upd_block (\<lambda>b. b\<lparr>state := st\<rparr>) s"

definition raise_rx :: "tcp_socket \<Rightarrow> tcp_socket" where
  "raise_rx s = s\<lparr>m_rx_event := event_release (m_rx_event s)\<rparr>"

definition raise_tx :: "tcp_socket \<Rightarrow> tcp_socket" where
  "raise_tx s = s\<lparr>m_tx_event := event_release (m_tx_event s)\<rparr>"

subsection \<open>Closing, window and sending\<close>

definition tcp__close :: "tcp_socket \<Rightarrow> tcp_socket" where
  "tcp__close s =
     (raise_rx (raise_tx (upd_block (\<lambda>b. b\<lparr>state := TCP_CLOSED, send_shut := True, receive_shut := True\<rparr>) s)))
     \<lparr>m_listen_queue := None, m_accept_queue := None, m_retransmission_queue := []\<rparr>"

definition tcp_reset :: "tcp_socket \<Rightarrow> bool \<times> tcp_socket" where
  "tcp_reset s =
     (let verdict = \<not> (closing (m_block s) \<or> tcp_state s = TCP_LISTEN \<or> tcp_state s = TCP_CLOSED)
      in (verdict, tcp__close (upd_block (\<lambda>b. b\<lparr>closing := True\<rparr>) s)))"

definition getWindow :: "tcp_socket \<Rightarrow> int" where
  "getWindow s =
     (let window = (TCP_RX_BUFFER_SIZE - 1) - readAvailable (m_rx_buffer s)
      in max 0 (window - TCP_PROBE_SLACK))"

text \<open>
  \<open>sendSegment\<close>. Without an interface the closed socket resets itself, which sends nothing
  (\<open>reset\<close> of a closed socket answers false); any other state dereferences the null device.
\<close>

definition sendSegment ::
  "tcp_env \<Rightarrow> segment \<Rightarrow> ipv4_addr \<Rightarrow> u16 \<Rightarrow> tcp_socket \<times> packets \<Rightarrow> (bool \<times> tcp_socket \<times> packets) res" where
  "sendSegment env seg address port = (\<lambda>(s, out).
     case get_interface (devs env) address of
       None \<Rightarrow> if tcp_state s = TCP_CLOSED then Inr (False, snd (tcp_reset s), out) else Inl NullDeref
     | Some dev \<Rightarrow>
         let bytes = segment_bytes (addr (info dev)) address (t_source_port s) port (word_of_int (getWindow s)) seg in
         res_bind (encapsulate (take 20 (junk env) @ bytes) (of_nat (length bytes)) address IPv4_TCP) (\<lambda>packet.
           Inr (True, s, out @ [packet])))"

definition send_to_peer :: "tcp_env \<Rightarrow> segment \<Rightarrow> tcp_socket \<times> packets \<Rightarrow> (tcp_socket \<times> packets) res" where
  "send_to_peer env seg so =
     res_bind (sendSegment env seg (t_destination_address (fst so)) (t_destination_port (fst so)) so)
       (\<lambda>(_, s, out). Inr (s, out))"

definition push_segment :: "segment \<Rightarrow> tcp_socket \<Rightarrow> tcp_socket" where
  "push_segment seg s = s\<lparr>m_retransmission_queue := m_retransmission_queue s @ [seg]\<rparr>"

definition initial_seq :: "u64 \<Rightarrow> u32" where
  "initial_seq uptime = ucast ((uptime - uptime mod 10000) + 2137)"

definition tcp_syn :: "tcp_env \<Rightarrow> tcp_socket \<times> packets \<Rightarrow> (tcp_socket \<times> packets) res" where
  "tcp_syn env = (\<lambda>(s, out).
     let iss = initial_seq (now env);
         s = upd_block (\<lambda>b. b\<lparr>snd_nxt := iss + 1, snd_mss := TCP_MIN_MSS, snd_una := iss\<rparr>) s;
         seg = new_segment\<lparr>sg_seq := iss, sg_flags := TCP_SYN, sg_header_len := 24,
           sg_data := [0x02, 0x04, 0x05, 0xb4], retransmit_at := now env + TCP_RETRANSMIT_INTERVAL,
           ack_with := iss + 1\<rparr>
     in send_to_peer env seg (push_segment seg s, out))"

definition tcp_ack :: "tcp_socket \<Rightarrow> tcp_socket" where
  "tcp_ack s = upd_block (\<lambda>b. b\<lparr>sending_comp_ack := True\<rparr>) s"

definition tcp_ack_manual :: "tcp_env \<Rightarrow> u32 \<Rightarrow> tcp_socket \<times> packets \<Rightarrow> (tcp_socket \<times> packets) res" where
  "tcp_ack_manual env manual so =
     send_to_peer env (new_segment\<lparr>sg_seq := snd_nxt (m_block (fst so)), sg_ack := manual,
       sg_flags := TCP_ACK, sg_header_len := 20\<rparr>) so"

definition tcp_rst :: "tcp_env \<Rightarrow> tcp_socket \<times> packets \<Rightarrow> (tcp_socket \<times> packets) res" where
  "tcp_rst env so =
     (let b = m_block (fst so) in
      send_to_peer env (new_segment\<lparr>sg_ack := (if state b = TCP_SYN_RECEIVED then rcv_nxt b else 0),
        sg_seq := snd_nxt b, sg_flags := TCP_RST, sg_header_len := 20\<rparr>) so)"

definition tcp_fin :: "bool \<Rightarrow> tcp_env \<Rightarrow> tcp_socket \<times> packets \<Rightarrow> (tcp_socket \<times> packets) res" where
  "tcp_fin held env = (\<lambda>(s, out).
     let b = m_block s;
         seg = new_segment\<lparr>sg_seq := snd_nxt b, sg_ack := rcv_nxt b, sg_flags := TCP_FIN OR TCP_ACK,
           sg_header_len := 20, retransmit_at := now env + TCP_RETRANSMIT_INTERVAL, ack_with := snd_nxt b + 1\<rparr>;
         s = upd_block (\<lambda>b. b\<lparr>sending_comp_ack := False, snd_nxt := snd_nxt b + 1\<rparr>) s
     in if held then Inl Deadlock else send_to_peer env seg (push_segment seg s, out))"

definition windowUpdate :: "tcp_env \<Rightarrow> tcp_socket \<times> packets \<Rightarrow> (tcp_socket \<times> packets) res" where
  "windowUpdate env so =
     send_to_peer env (new_segment\<lparr>sg_seq := snd_nxt (m_block (fst so)), sg_ack := rcv_nxt (m_block (fst so)),
       sg_flags := TCP_ACK, sg_header_len := 20\<rparr>) so"

text \<open>\<open>bool send_rst = reset(); ... if (send_rst) rst();\<close>\<close>

definition reset_and_rst :: "tcp_env \<Rightarrow> tcp_socket \<times> packets \<Rightarrow> (tcp_socket \<times> packets) res" where
  "reset_and_rst env = (\<lambda>(s, out).
     let (send_rst, s) = tcp_reset s in if send_rst then tcp_rst env (s, out) else Inr (s, out))"

subsection \<open>The calls of a user\<close>

definition clearState :: "tcp_socket \<Rightarrow> tcp_socket" where
  "clearState s = s\<lparr>m_tx_buffer := resize TCP_TX_BUFFER_SIZE (m_tx_buffer s),
     m_rx_buffer := resize TCP_RX_BUFFER_SIZE (m_rx_buffer s),
     m_retransmission_queue := [],
     m_block := \<lparr>state = TCP_CLOSED, snd_una = 0, snd_nxt = 0, snd_wnd = 0, snd_mss = TCP_MIN_MSS, rcv_nxt = 0,
       sending_comp_ack = False, notify_of_window_size = False, closing = False, send_shut = False,
       receive_shut = False\<rparr>\<rparr>"

text \<open>\<open>connect\<close> up to its waiting loop, one pass of the loop, and what follows it.\<close>

definition connect_begin ::
  "tcp_env \<Rightarrow> ipv4_addr \<times> u16 \<Rightarrow> tcp_socket \<times> packets \<Rightarrow> (error_t option \<times> tcp_socket \<times> packets) res" where
  "connect_begin env dst = (\<lambda>(s, out).
     if tcp_state s \<noteq> TCP_CLOSED then Inr (Some EISCONN, s, out)
     else
       let s = s\<lparr>m_async_id := m_async_id s + 1, t_destination_address := fst dst, t_destination_port := snd dst\<rparr>;
           s = set_state TCP_SYN_SENT (clearState s)
       in res_bind (tcp_syn env (s, out)) (\<lambda>(s, out). Inr (None, s, out)))"

definition connect_waits :: "tcp_env \<Rightarrow> u64 \<Rightarrow> tcp_socket \<Rightarrow> bool" where
  "connect_waits env timeout_at s \<longleftrightarrow>
     tcp_state s \<noteq> TCP_ESTABLISHED \<and> tcp_state s \<noteq> TCP_CLOSED \<and> now env < timeout_at"

definition connect_end :: "tcp_env \<Rightarrow> tcp_socket \<times> packets \<Rightarrow> (error_t \<times> tcp_socket \<times> packets) res" where
  "connect_end env so =
     (if tcp_state (fst so) \<notin> {TCP_ESTABLISHED, TCP_FIN_WAIT_1, TCP_FIN_WAIT_2, TCP_CLOSE_WAIT}
      then res_bind (reset_and_rst env so) (\<lambda>(s, out). Inr (ECONNREFUSED, s, out))
      else Inr (ENONE, so))"

definition tcp_bind :: "ipv4_addr \<times> u16 \<Rightarrow> tcp_socket \<Rightarrow> error_t \<times> tcp_socket" where
  "tcp_bind src s = (ENONE, s\<lparr>t_source_address := fst src, t_source_port := snd src\<rparr>)"

definition tcp_listen :: "int \<Rightarrow> tcp_socket \<Rightarrow> error_t \<times> tcp_socket" where
  "tcp_listen backlog s =
     (if tcp_state s \<noteq> TCP_CLOSED then (EISCONN, s)
      else (ENONE, (set_state TCP_LISTEN s)\<lparr>m_listen_queue := Some [], m_accept_queue := Some [],
        m_listen_backlog := clamp backlog 0 128,
        m_tx_buffer := resize 0 (m_tx_buffer s), m_rx_buffer := resize 0 (m_rx_buffer s)\<rparr>))"

definition accept_check :: "tcp_socket \<Rightarrow> error_t" where
  "accept_check s = (if tcp_state s \<noteq> TCP_LISTEN then EINVAL else ENONE)"

text \<open>\<open>accept\<close> after a wait: the oldest accepted connection, or back to waiting.\<close>

definition accept_stretch :: "tcp_socket \<Rightarrow> (tcp_ptr optional option \<times> tcp_socket) res" where
  "accept_stretch s =
     (case m_accept_queue s of
        None \<Rightarrow> Inl NullDeref
      | Some [] \<Rightarrow> Inr (if tcp_state s = TCP_CLOSED then Some (Inl EINVAL) else None, s)
      | Some (p # ps) \<Rightarrow> Inr (Some (Inr p), s\<lparr>m_accept_queue := Some ps, m_listen_backlog := m_listen_backlog s + 1\<rparr>))"

text \<open>
  The loop of \<open>sendTo\<close> until it is done or has to wait: what is left of the data.
\<close>

definition send_stretch :: "tcp_env \<Rightarrow> u8 list \<Rightarrow> tcp_socket \<Rightarrow> (u8 list \<times> tcp_socket) res" where
  "send_stretch env data s =
     (if data = [] \<or> send_shut (m_block s) then Inr (data, s)
      else
        let av = writeAvailable (m_tx_buffer s) in
        if av = 0 then Inr (data, s\<lparr>m_tx_event := event_enqueue (self env) (m_tx_event s)\<rparr>)
        else
          let k = nat (min av (int (length data))) in
          res_bind (cb_put (self env) (intr env) (take k data) (m_tx_buffer s)) (\<lambda>(cb, _).
            let s = s\<lparr>m_tx_buffer := cb\<rparr> in
            Inr (drop k data, if drop k data = [] then s
                   else s\<lparr>m_tx_event := event_enqueue (self env) (m_tx_event s)\<rparr>)))"

definition sendTo_check :: "u8 list \<Rightarrow> bool \<Rightarrow> tcp_socket \<Rightarrow> error_t" where
  "sendTo_check data has_dst s =
     (if data = [] then EINVAL else if send_shut (m_block s) then EPIPE
      else if has_dst then EISCONN else if tcp_state s \<noteq> TCP_ESTABLISHED then ENOTCONN else ENONE)"

definition receiveFrom_check :: "nat \<Rightarrow> bool \<Rightarrow> tcp_socket \<Rightarrow> error_t" where
  "receiveFrom_check len has_src s =
     (if len = 0 then EINVAL else if has_src then EISCONN
      else if tcp_state s \<noteq> TCP_ESTABLISHED then ENOTCONN else ENONE)"

datatype recv_exit = RecvDone | RecvWait

text \<open>
  The loop of \<open>receiveFrom\<close> until it is done or has to wait: \<open>got\<close> is what was read so far,
  \<open>len\<close> what is still wanted. The buffer is drained by the first pass, so a second pass
  finds it empty.
\<close>

definition tcp_receive_pass ::
  "tcp_env \<Rightarrow> bool \<Rightarrow> nat \<Rightarrow> u8 list \<Rightarrow> tcp_socket \<times> packets \<Rightarrow> (recv_exit \<times> u8 list \<times> tcp_socket \<times> packets) res" where
  "tcp_receive_pass env waitall len got = (\<lambda>(s, out).
     if (\<not> waitall \<and> got \<noteq> []) \<or> receive_shut (m_block s) then Inr (RecvDone, got, s, out)
     else Inr (RecvWait, got, s\<lparr>m_rx_event := event_enqueue (self env) (m_rx_event s)\<rparr>, out))"

definition tcp_receive_stretch ::
  "tcp_env \<Rightarrow> bool \<Rightarrow> nat \<Rightarrow> u8 list \<Rightarrow> tcp_socket \<times> packets \<Rightarrow> (recv_exit \<times> u8 list \<times> tcp_socket \<times> packets) res" where
  "tcp_receive_stretch env waitall len got = (\<lambda>(s, out).
     if len = 0 then Inr (RecvDone, got, s, out)
     else
       let av = readAvailable (m_rx_buffer s) in
       if av = 0 then tcp_receive_pass env waitall len got (s, out)
       else
         let k = nat (min av (int len)) in
         res_bind (cb_get (self env) (intr env) k (m_rx_buffer s)) (\<lambda>(cb, bytes).
           let s = s\<lparr>m_rx_buffer := cb\<rparr>; got = got @ bytes; len = len - k in
           res_bind (if notify_of_window_size (m_block s)
                     then windowUpdate env (upd_block (\<lambda>b. b\<lparr>notify_of_window_size := False\<rparr>) s, out)
                     else Inr (s, out)) (\<lambda>(s, out).
             if len = 0 then Inr (RecvDone, got, s, out)
             else tcp_receive_pass env waitall len got (s, out))))"

text \<open>\<open>shutdown\<close>: its checks and first part, and the part behind its first waiting loop.\<close>

definition shutdown_begin :: "bool \<Rightarrow> bool \<Rightarrow> tcp_socket \<Rightarrow> error_t \<times> bool \<times> tcp_socket" where
  "shutdown_begin rd wr s =
     (if \<not> rd \<and> \<not> wr then (EINVAL, False, s)
      else if tcp_state s \<in> {TCP_LISTEN, TCP_SYN_SENT, TCP_SYN_RECEIVED, TCP_CLOSED} then (ENOTCONN, False, s)
      else
        let s = (if rd then upd_block (\<lambda>b. b\<lparr>receive_shut := True\<rparr>) s else s) in
        if wr \<and> \<not> send_shut (m_block s) then (ENONE, True, upd_block (\<lambda>b. b\<lparr>send_shut := True\<rparr>) s)
        else (ENONE, False, s))"

definition shutdown_drained :: "tcp_socket \<Rightarrow> bool" where
  "shutdown_drained s \<longleftrightarrow> readAvailable (m_tx_buffer s) = 0 \<and> snd_una (m_block s) = snd_nxt (m_block s)"

definition shutdown_fin :: "tcp_env \<Rightarrow> tcp_socket \<times> packets \<Rightarrow> (tcp_socket \<times> packets) res" where
  "shutdown_fin env = (\<lambda>(s, out).
     let s = (if tcp_state s = TCP_ESTABLISHED then set_state TCP_FIN_WAIT_1 s
              else if tcp_state s = TCP_CLOSE_WAIT then set_state TCP_LAST_ACK s else s)
     in tcp_fin False env (s, out))"

text \<open>\<open>close\<close> up to its waiting loop, which ends when the state is \<open>TCP_CLOSED\<close>.\<close>

definition close_begin :: "tcp_env \<Rightarrow> tcp_socket \<times> packets \<Rightarrow> (tcp_socket \<times> packets) res" where
  "close_begin env so =
     (if tcp_state (fst so) = TCP_CLOSE_WAIT then tcp_fin True env so
      else if tcp_state (fst so) \<in> {TCP_LAST_ACK, TCP_CLOSED} then Inr so
      else reset_and_rst env so)"

subsection \<open>The timer\<close>

text \<open>One segment of \<open>package\<close>.\<close>

definition package_segment :: "tcp_env \<Rightarrow> tcp_socket \<Rightarrow> (segment \<times> tcp_socket) res" where
  "package_segment env s =
     res_bind (res_assert (snd_wnd (m_block s) \<noteq> 0)) (\<lambda>_.
       let b = m_block s;
           n = nat (min (readAvailable (m_tx_buffer s)) (min (uint (snd_wnd b)) (uint (snd_mss b))))
       in res_bind (cb_get (self env) (intr env) n (m_tx_buffer s)) (\<lambda>(cb, bytes).
         let seg = new_segment\<lparr>sg_seq := snd_nxt b, sg_ack := rcv_nxt b, sg_flags := TCP_PSH OR TCP_ACK,
               sg_header_len := 20, sg_data := bytes, retransmit_at := now env + TCP_RETRANSMIT_INTERVAL,
               ack_with := snd_nxt b + of_nat n\<rparr>;
             s = upd_block (\<lambda>b. b\<lparr>snd_nxt := snd_nxt b + of_nat n, snd_wnd := snd_wnd b - of_nat n\<rparr>)
                   (s\<lparr>m_tx_buffer := cb\<rparr>)
         in Inr (seg, push_segment seg s)))"

text \<open>
  The loop of \<open>package\<close>. Every round takes at least one byte out of a buffer of 4096, so
  4096 rounds are enough; \<open>fuel\<close> counts them.
\<close>

fun package_loop :: "nat \<Rightarrow> tcp_env \<Rightarrow> tcp_socket \<times> packets \<Rightarrow> (tcp_socket \<times> packets) option res" where
  "package_loop 0 env so = Inr None"
| "package_loop (Suc fuel) env so =
     (if readAvailable (m_tx_buffer (fst so)) = 0 then Inr (Some so)
      else res_bind (package_segment env (fst so)) (\<lambda>(seg, s).
        res_bind (send_to_peer env seg (s, snd so)) (\<lambda>(s, out).
          package_loop fuel env (upd_block (\<lambda>b. b\<lparr>sending_comp_ack := False\<rparr>) s, out))))"

definition package :: "tcp_env \<Rightarrow> tcp_socket \<times> packets \<Rightarrow> (tcp_socket \<times> packets) option res" where
  "package env so = res_bind (package_loop 4097 env so) (\<lambda>r. case r of
     None \<Rightarrow> Inr None
   | Some (s, out) \<Rightarrow>
       if sending_comp_ack (m_block s) then
         res_bind (tcp_ack_manual env (rcv_nxt (m_block s)) (s, out)) (\<lambda>(s, out).
           Inr (Some (upd_block (\<lambda>b. b\<lparr>sending_comp_ack := False\<rparr>) s, out)))
       else Inr (Some (s, out)))"

text \<open>The loop of \<open>retransmit\<close> over the queue from index \<open>i\<close> on; \<open>True\<close> when it ran to the end.\<close>

function retransmit_loop :: "tcp_env \<Rightarrow> nat \<Rightarrow> nat \<Rightarrow> tcp_socket \<times> packets \<Rightarrow> (bool \<times> tcp_socket \<times> packets) res" where
  "retransmit_loop env count i (s, out) =
     (if i < count then
        (case cell_get (m_retransmission_queue s) i of
           Inl e \<Rightarrow> Inl e
         | Inr seg \<Rightarrow>
             if now env < retransmit_at seg then retransmit_loop env count (i + 1) (s, out)
             else
               let seg = seg\<lparr>sg_retries := sg_retries seg + 1\<rparr> in
               if sg_retries seg > TCP_RETRIES then
                 res_bind (reset_and_rst env (s, out)) (\<lambda>(s, out). Inr (False, s, out))
               else
                 let seg = seg\<lparr>retransmit_at := retransmit_at seg + TCP_RETRANSMIT_INTERVAL\<rparr>;
                     s = s\<lparr>m_retransmission_queue := (m_retransmission_queue s)[i := seg]\<rparr>
                 in (case send_to_peer env seg (s, out) of
                       Inl e \<Rightarrow> Inl e
                     | Inr so \<Rightarrow> retransmit_loop env count (i + 1) so))
      else Inr (True, s, out))"
  by pat_completeness auto
termination
  by (relation "measure (\<lambda>(env, count, i, so). count - i)") auto

declare retransmit_loop.simps [simp del]

definition retransmit :: "tcp_env \<Rightarrow> tcp_socket \<times> packets \<Rightarrow> (tcp_socket \<times> packets) res" where
  "retransmit env so = res_bind (retransmit_loop env (length (m_retransmission_queue (fst so))) 0 so)
     (\<lambda>(finished, s, out). Inr (if finished then raise_tx s else s, out))"

definition tcp_tick :: "tcp_env \<Rightarrow> tcp_socket \<times> packets \<Rightarrow> (tcp_socket \<times> packets) option res" where
  "tcp_tick env so =
     (if tcp_state (fst so) = TCP_CLOSED then Inr (Some so)
      else res_bind (package env so) (\<lambda>r. case r of
        None \<Rightarrow> Inr None
      | Some so \<Rightarrow> res_bind (retransmit env so) (\<lambda>so. Inr (Some so))))"

end
