(* ===== verification/TcpInput.thy ===== *)
theory TcpInput
  imports TcpSocket Ports
begin

unbundle bit_operations_syntax

text \<open>
  TCP, third part: received segments (\<open>packetReceived\<close> and \<open>packetReceivedListen\<close> of
  \<open>socket/inet/tcp.cpp\<close>) and the protocol with its table of sockets (\<open>protocol/inet/tcp.cpp\<close>).
  A received segment is its bytes; \<open>tcp_rx_ack\<close>, \<open>tcp_rx_data\<close> and \<open>tcp_rx_fin\<close> are the stages
  of \<open>packetReceived\<close> in its order, and the flag in their result tells whether the code
  returned there.
\<close>

definition has_flag :: "u16 \<Rightarrow> u16 \<Rightarrow> bool" where
  "has_flag flags f \<longleftrightarrow> flags AND f \<noteq> 0"

subsection \<open>Stages of a received segment\<close>

text \<open>The loop over the retransmission queue: \<open>True\<close> when it closed the connection.\<close>

function ack_loop :: "u32 \<Rightarrow> nat \<Rightarrow> tcp_socket \<Rightarrow> bool \<times> tcp_socket" where
  "ack_loop ackn i s =
     (if i < length (m_retransmission_queue s) then
        let seg = m_retransmission_queue s ! i;
            erase = (\<lambda>s. s\<lparr>m_retransmission_queue := erase_at i (m_retransmission_queue s)\<rparr>) in
        if \<not> is_before_or_equal (ack_with seg) ackn SEQ_EXTENT then ack_loop ackn (i + 1) s
        else if has_flag (sg_flags seg) TCP_FIN then
          if tcp_state s = TCP_FIN_WAIT_1 then ack_loop ackn i (erase (raise_rx (set_state TCP_FIN_WAIT_2 s)))
          else if tcp_state s = TCP_LAST_ACK \<or> tcp_state s = TCP_CLOSING then
            (True, set_state TCP_CLOSED (tcp__close s))
          else ack_loop ackn i (erase s)
        else if has_flag (sg_flags seg) TCP_SYN \<and> tcp_state s = TCP_SYN_RECEIVED then
          ack_loop ackn i (erase (raise_rx (set_state TCP_ESTABLISHED s)))
        else ack_loop ackn i (erase s)
      else (False, s))"
  by pat_completeness auto
termination
  by (relation "measure (\<lambda>(ackn, i, s). length (m_retransmission_queue s) - i)")
    (auto simp: Let_def raise_rx_def set_state_def)

declare ack_loop.simps [simp del]

definition tcp_rx_rst :: "u16 \<Rightarrow> u32 \<Rightarrow> u32 \<Rightarrow> u32 \<Rightarrow> tcp_socket \<Rightarrow> tcp_socket" where
  "tcp_rx_rst flags seqn ackn expected_seqn s =
     (if tcp_state s = TCP_SYN_SENT \<and> has_flag flags TCP_ACK \<and> ackn = snd_nxt (m_block s) then snd (tcp_reset s)
      else if is_after_or_equal seqn expected_seqn SEQ_EXTENT
        \<and> is_before seqn (expected_seqn + word_of_int (getWindow s)) SEQ_EXTENT then snd (tcp_reset s)
      else s)"

definition tcp_rx_syn :: "tcp_env \<Rightarrow> u32 \<Rightarrow> tcp_socket \<times> packets \<Rightarrow> (tcp_socket \<times> packets) res" where
  "tcp_rx_syn env seqn = (\<lambda>(s, out).
     if tcp_state s = TCP_SYN_SENT then
       let s = upd_block (\<lambda>b. b\<lparr>rcv_nxt := seqn + 1\<rparr>) s in
       res_bind (tcp_ack_manual env (rcv_nxt (m_block s)) (s, out)) (\<lambda>(s, out).
         Inr (raise_rx (set_state TCP_SYN_RECEIVED s), out))
     else Inr (s, out))"

definition tcp_rx_ack ::
  "tcp_env \<Rightarrow> u32 \<Rightarrow> u32 \<Rightarrow> u16 \<Rightarrow> tcp_socket \<times> packets \<Rightarrow> (bool \<times> tcp_socket \<times> packets) res" where
  "tcp_rx_ack env seqn ackn window = (\<lambda>(s, out).
     let s = (if is_after_or_equal ackn (snd_una (m_block s)) SEQ_EXTENT
              then upd_block (\<lambda>b. b\<lparr>snd_una := ackn, snd_wnd := window\<rparr>) s else s) in
     if tcp_state s \<in> {TCP_SYN_SENT, TCP_SYN_RECEIVED} \<and> ackn \<noteq> snd_nxt (m_block s) then
       res_bind (reset_and_rst env (upd_block (\<lambda>b. b\<lparr>snd_nxt := ackn, rcv_nxt := seqn\<rparr>) s, out))
         (\<lambda>(s, out). Inr (True, s, out))
     else let (closed, s) = ack_loop ackn 0 s in Inr (closed, s, out))"

definition tcp_rx_data ::
  "tcp_env \<Rightarrow> u32 \<Rightarrow> u32 \<Rightarrow> u8 list \<Rightarrow> tcp_socket \<times> packets \<Rightarrow> (bool \<times> tcp_socket \<times> packets) res" where
  "tcp_rx_data env seqn expected_seqn data = (\<lambda>(s, out).
     if data = [] then Inr (False, s, out)
     else if seqn = expected_seqn then
       if int (length data) > writeAvailable (m_rx_buffer s) then
         res_bind (reset_and_rst env (s, out)) (\<lambda>(s, out). Inr (True, s, out))
       else
         let s = upd_block (\<lambda>b. b\<lparr>rcv_nxt := rcv_nxt b + of_nat (length data)\<rparr>) s in
         res_bind (if receive_shut (m_block s) then Inr (m_rx_buffer s)
                   else res_bind (cb_put (self env) (intr env) data (m_rx_buffer s)) (\<lambda>(cb, _). Inr cb)) (\<lambda>cb.
           let s = tcp_ack (s\<lparr>m_rx_buffer := cb\<rparr>);
               s = (if getWindow s < TCP_RX_BUFFER_SIZE div 2
                    then upd_block (\<lambda>b. b\<lparr>notify_of_window_size := True\<rparr>) s else s)
           in Inr (False, raise_rx s, out))
     else if is_before_or_equal (seqn + of_nat (length data)) (rcv_nxt (m_block s)) SEQ_EXTENT then
       res_bind (tcp_ack_manual env (seqn + of_nat (length data)) (s, out)) (\<lambda>(s, out). Inr (False, s, out))
     else Inr (False, s, out))"

definition tcp_rx_fin :: "tcp_socket \<Rightarrow> tcp_socket" where
  "tcp_rx_fin s =
     (let s = upd_block (\<lambda>b. b\<lparr>receive_shut := True\<rparr>) s;
          take_fin = (\<lambda>s. tcp_ack (upd_block (\<lambda>b. b\<lparr>rcv_nxt := rcv_nxt b + 1\<rparr>) s)) in
      raise_rx
        (if tcp_state s = TCP_FIN_WAIT_1 then set_state TCP_CLOSING (take_fin s)
         else if tcp_state s = TCP_FIN_WAIT_2 then take_fin s
         else if tcp_state s = TCP_ESTABLISHED then set_state TCP_CLOSE_WAIT (take_fin s)
         else s))"

definition header_len_of :: "tcp_header \<Rightarrow> nat" where
  "header_len_of h = unat (drop_bit 12 (goddamned_bitvalues h)) * 4"

text \<open>\<open>packetReceived\<close> of a socket that is not listening.\<close>

definition tcp_received ::
  "tcp_env \<Rightarrow> ipv4_addr \<Rightarrow> u16 \<Rightarrow> u8 list \<Rightarrow> tcp_socket \<times> packets \<Rightarrow> (tcp_socket \<times> packets) res" where
  "tcp_received env src src_port buffer = (\<lambda>(s, out).
     if \<not> addr_eq src (t_destination_address s) \<and> src_port \<noteq> t_destination_port s then Inr (s, out)
     else if tcp_state s = TCP_CLOSED then Inr (s, out)
     else res_bind (tcp_header_of buffer) (\<lambda>h.
       let hdr_len = header_len_of h;
           flags = goddamned_bitvalues h;
           seqn = th_seq_number h;
           ackn = th_ack_number h;
           expected_seqn = rcv_nxt (m_block s);
           data = drop hdr_len buffer in
       res_bind (read_options buffer hdr_len 20 (snd_mss (m_block s))) (\<lambda>mss.
         let s = upd_block (\<lambda>b. b\<lparr>snd_mss := mss\<rparr>) s in
         if has_flag flags TCP_RST then Inr (tcp_rx_rst flags seqn ackn expected_seqn s, out)
         else res_bind (if has_flag flags TCP_SYN then tcp_rx_syn env seqn (s, out) else Inr (s, out)) (\<lambda>so.
           res_bind (if has_flag flags TCP_ACK then tcp_rx_ack env seqn ackn (th_window h) so
                     else Inr (False, so)) (\<lambda>(stop, so).
             if stop then Inr so
             else res_bind (tcp_rx_data env seqn expected_seqn data so) (\<lambda>(stop, s, out).
               if stop then Inr (s, out)
               else Inr (if has_flag flags TCP_FIN \<and> seqn = expected_seqn then tcp_rx_fin s else s, out)))))))"

subsection \<open>Listening\<close>

definition entry_is :: "ipv4_addr \<Rightarrow> u16 \<Rightarrow> tcp_listen_entry \<Rightarrow> bool" where
  "entry_is address port e \<longleftrightarrow> addr_eq (le_source_address e) address \<and> le_source_port e = port"

fun getListenEntry :: "ipv4_addr \<Rightarrow> u16 \<Rightarrow> tcp_listen_entry list \<Rightarrow> nat option" where
  "getListenEntry address port [] = None"
| "getListenEntry address port (e # es) =
     (if \<not> entry_is address port e then map_option Suc (getListenEntry address port es) else Some 0)"

definition tryCreateListenEntry :: "ipv4_addr \<Rightarrow> u16 \<Rightarrow> tcp_listen_entry list \<Rightarrow> tcp_listen_entry list option" where
  "tryCreateListenEntry address port es =
     (if getListenEntry address port es \<noteq> None then None
      else Some (es @ [\<lparr>le_source_address = address, le_source_port = port, le_block = new_tcp_block\<rparr>]))"

function removeEntry :: "ipv4_addr \<Rightarrow> u16 \<Rightarrow> nat \<Rightarrow> tcp_listen_entry list \<Rightarrow> tcp_listen_entry list" where
  "removeEntry address port i es =
     (if i < length es then
        if \<not> entry_is address port (es ! i) then removeEntry address port (i + 1) es
        else removeEntry address port i (erase_at i es)
      else es)"
  by pat_completeness auto
termination
  by (relation "measure (\<lambda>(address, port, i, es). length es - i)") auto

declare removeEntry.simps [simp del]

text \<open>The socket a completed handshake spawns.\<close>

definition spawned_socket :: "device \<Rightarrow> tcp_socket \<Rightarrow> tcp_listen_entry \<Rightarrow> tcp_socket" where
  "spawned_socket dev parent e =
     new_tcp_socket\<lparr>t_source_address := addr (info dev), t_source_port := t_source_port parent,
       t_destination_address := le_source_address e, t_destination_port := le_source_port e,
       m_block := le_block e\<rparr>"

definition handshake_block :: "u64 \<Rightarrow> tcp_header \<Rightarrow> tcp_block \<Rightarrow> tcp_block" where
  "handshake_block uptime h b =
     (let iss1 = ucast ((uptime - uptime mod 10000) + 2137 + 1) in
      b\<lparr>snd_nxt := iss1, snd_mss := TCP_MIN_MSS, snd_wnd := th_window h, snd_una := iss1,
        rcv_nxt := th_seq_number h + 1, state := TCP_SYN_RECEIVED\<rparr>)"

definition listen_syn ::
  "tcp_env \<Rightarrow> ipv4_addr \<Rightarrow> u16 \<Rightarrow> tcp_header \<Rightarrow> tcp_listen_entry list \<Rightarrow> tcp_socket \<times> packets
     \<Rightarrow> (tcp_listen_entry list \<times> tcp_socket \<times> packets) res" where
  "listen_syn env src src_port h es so =
     (let es' = (case tryCreateListenEntry src src_port es of
            None \<Rightarrow> es
          | Some es1 \<Rightarrow> es1[length es := (es1 ! length es)\<lparr>le_block :=
              handshake_block (now env) h (le_block (es1 ! length es))\<rparr>]) in
      case getListenEntry src src_port es' of
        None \<Rightarrow> Inr (es', so)
      | Some i \<Rightarrow>
          let b = le_block (es' ! i);
              seg = new_segment\<lparr>sg_seq := snd_nxt b - 1, sg_ack := rcv_nxt b, sg_flags := TCP_SYN OR TCP_ACK,
                sg_header_len := 24, sg_data := [0x02, 0x04, 0x05, 0xb4]\<rparr>
          in res_bind (sendSegment env seg src src_port so) (\<lambda>(_, so). Inr (es', so)))"

text \<open>\<open>packetReceivedListen\<close>; \<open>ptr\<close> is the address a spawned socket gets.\<close>

definition tcp_listen_received ::
  "tcp_env \<Rightarrow> tcp_ptr \<Rightarrow> ipv4_addr \<Rightarrow> u16 \<Rightarrow> u8 list \<Rightarrow> tcp_socket \<times> packets
     \<Rightarrow> (tcp_socket option \<times> tcp_socket \<times> packets) res" where
  "tcp_listen_received env ptr src src_port buffer = (\<lambda>(s, out).
     res_bind (tcp_header_of buffer) (\<lambda>h.
       let hdr_len = header_len_of h; flags = goddamned_bitvalues h in
       if has_flag flags TCP_RST then Inr (None, s, out)
       else (case (m_listen_queue s, m_accept_queue s) of
         (Some es, Some acc) \<Rightarrow>
           res_bind (if has_flag flags TCP_SYN then listen_syn env src src_port h es (s, out)
                     else Inr (es, s, out)) (\<lambda>(es, s, out).
             case getListenEntry src src_port es of
               None \<Rightarrow> Inr (None, s\<lparr>m_listen_queue := Some es\<rparr>, out)
             | Some i \<Rightarrow>
                 res_bind (read_options buffer hdr_len 20 (snd_mss (le_block (es ! i)))) (\<lambda>mss.
                   let e = (es ! i)\<lparr>le_block := (le_block (es ! i))\<lparr>snd_mss := mss\<rparr>\<rparr>;
                       es = es[i := e] in
                   if has_flag flags TCP_ACK \<and> state (le_block e) = TCP_SYN_RECEIVED
                      \<and> is_after_or_equal (th_ack_number h) (snd_nxt (le_block e)) SEQ_EXTENT
                      \<and> m_listen_backlog s > 0 then
                     (case get_interface (devs env) (le_source_address e) of
                        None \<Rightarrow> Inl AssertFailed
                      | Some dev \<Rightarrow>
                          let e = e\<lparr>le_block := (le_block e)\<lparr>state := TCP_ESTABLISHED\<rparr>\<rparr> in
                          Inr (Some (spawned_socket dev s e),
                               raise_rx (s\<lparr>m_accept_queue := Some (acc @ [ptr]),
                                 m_listen_queue := Some (removeEntry src src_port 0 (es[i := e])),
                                 m_listen_backlog := m_listen_backlog s - 1\<rparr>), out))
                   else Inr (None, s\<lparr>m_listen_queue := Some es\<rparr>, out)))
       | _ \<Rightarrow> Inl NullDeref)))"

subsection \<open>The protocol\<close>

record tcp_proto =
  tcp_sockets :: "tcp_ptr list"
  tcp_store :: "tcp_ptr \<Rightarrow> tcp_socket option"
  tcp_ports :: port_table

definition tsock_at :: "tcp_ptr \<Rightarrow> tcp_proto \<Rightarrow> tcp_socket res" where
  "tsock_at p st = (case tcp_store st p of None \<Rightarrow> Inl NullDeref | Some s \<Rightarrow> Inr s)"

definition tsock_put :: "tcp_ptr \<Rightarrow> tcp_socket \<Rightarrow> tcp_proto \<Rightarrow> tcp_proto" where
  "tsock_put p s st = st\<lparr>tcp_store := (tcp_store st)(p \<mapsto> s)\<rparr>"

definition tcp_createSocket :: "bool \<Rightarrow> tcp_ptr \<Rightarrow> tcp_proto \<Rightarrow> (tcp_ptr optional \<times> tcp_proto) res" where
  "tcp_createSocket is_stream ptr st =
     (if \<not> is_stream then Inr (Inl ESOCKTNOSUPPORT, st)
      else if ptr = 0 then Inr (Inl ENOMEM, st)
      else res_bind (allocateDynamicPort (tcp_ports st)) (\<lambda>(port, ports).
        let st = st\<lparr>tcp_ports := ports\<rparr> in
        if port = 0 then Inr (Inl ENOMEM, st)
        else Inr (Inr ptr, (tsock_put ptr (new_tcp_socket\<lparr>t_source_port := port\<rparr>) st)
               \<lparr>tcp_sockets := tcp_sockets st @ [ptr]\<rparr>)))"

text \<open>The two loops of \<open>TCPProtocol::packetReceived\<close>: the first socket with a connection to the
  sender's port, else the first listener.\<close>

fun find_connected :: "u16 \<Rightarrow> u16 \<Rightarrow> tcp_proto \<Rightarrow> tcp_ptr list \<Rightarrow> tcp_ptr option res" where
  "find_connected src_port dst_port st [] = Inr None"
| "find_connected src_port dst_port st (p # ps) = res_bind (tsock_at p st) (\<lambda>s.
     if dst_port \<noteq> t_source_port s \<or> src_port \<noteq> t_destination_port s
        \<or> tcp_state s = TCP_LISTEN \<or> tcp_state s = TCP_CLOSED
     then find_connected src_port dst_port st ps else Inr (Some p))"

fun find_listener :: "u16 \<Rightarrow> tcp_proto \<Rightarrow> tcp_ptr list \<Rightarrow> tcp_ptr option res" where
  "find_listener dst_port st [] = Inr None"
| "find_listener dst_port st (p # ps) = res_bind (tsock_at p st) (\<lambda>s.
     if dst_port \<noteq> t_source_port s \<or> tcp_state s \<noteq> TCP_LISTEN
     then find_listener dst_port st ps else Inr (Some p))"

definition tcp_packetReceived ::
  "tcp_env \<Rightarrow> tcp_ptr \<Rightarrow> ipv4_addr \<Rightarrow> u16 \<Rightarrow> u16 \<Rightarrow> u8 list \<Rightarrow> tcp_proto \<times> packets \<Rightarrow> (tcp_proto \<times> packets) res" where
  "tcp_packetReceived env ptr src src_port dst_port buffer = (\<lambda>(st, out).
     if dst_port = 0 then Inr (st, out)
     else res_bind (find_connected src_port dst_port st (tcp_sockets st)) (\<lambda>c. case c of
       Some p \<Rightarrow> res_bind (tsock_at p st) (\<lambda>s. res_bind (tcp_received env src src_port buffer (s, out)) (\<lambda>(s, out).
         Inr (tsock_put p s st, out)))
     | None \<Rightarrow> res_bind (find_listener dst_port st (tcp_sockets st)) (\<lambda>l. case l of
         Some p \<Rightarrow> res_bind (tsock_at p st) (\<lambda>s.
           res_bind (tcp_listen_received env ptr src src_port buffer (s, out)) (\<lambda>(spawned, s, out).
             let st = tsock_put p s st in
             Inr (case spawned of
                    None \<Rightarrow> (st, out)
                  | Some s' \<Rightarrow> ((tsock_put ptr s' st)\<lparr>tcp_sockets := tcp_sockets st @ [ptr]\<rparr>, out))))
       | None \<Rightarrow> Inr (st, out))))"

fun terase_ptr :: "tcp_ptr \<Rightarrow> tcp_ptr list \<Rightarrow> tcp_ptr list" where
  "terase_ptr p [] = []"
| "terase_ptr p (q # qs) = (if q \<noteq> p then q # terase_ptr p qs else qs)"

definition tcp_destroy :: "tcp_env \<Rightarrow> tcp_ptr \<Rightarrow> tcp_proto \<times> packets \<Rightarrow> (tcp_proto \<times> packets) res" where
  "tcp_destroy env p = (\<lambda>(st, out). res_bind (tsock_at p st) (\<lambda>s.
     res_bind (reset_and_rst env (s, out)) (\<lambda>(s, out).
       let st = st\<lparr>tcp_sockets := terase_ptr p (tcp_sockets st), tcp_store := (tcp_store st)(p := None)\<rparr> in
       res_bind (if t_source_port s \<noteq> 0 then freePort (t_source_port s) (tcp_ports st) else Inr (tcp_ports st))
         (\<lambda>ports. Inr (st\<lparr>tcp_ports := ports\<rparr>, out)))))"

text \<open>One round of \<open>TCPProtocol::loop\<close> over the sockets.\<close>

fun tick_all :: "tcp_env \<Rightarrow> tcp_ptr list \<Rightarrow> tcp_proto \<times> packets \<Rightarrow> (tcp_proto \<times> packets) option res" where
  "tick_all env [] (st, out) = Inr (Some (st, out))"
| "tick_all env (p # ps) (st, out) = res_bind (tsock_at p st) (\<lambda>s.
     res_bind (tcp_tick env (s, out)) (\<lambda>r. case r of
       None \<Rightarrow> Inr None
     | Some (s, out) \<Rightarrow> tick_all env ps (tsock_put p s st, out)))"

end
