(* ===== verification/TcpStream.thy ===== *)
theory TcpStream
  imports TcpInput
begin

unbundle bit_operations_syntax

text \<open>TCP, fourth part: properties.\<close>

subsection \<open>Sequence numbers\<close>

lemma seq_distance:
  "is_before a b SEQ_EXTENT \<longleftrightarrow> 0 < unat (b - a) \<and> (unat (b - a) < 2 ^ 31 \<or> unat (b - a) = 2 ^ 31 \<and> b < a)"
proof -
  consider "a = b" | "a < b" | "b < a" by fastforce
  then show ?thesis
  proof cases
    case 2
    then have "unat (b - a) = unat b - unat a" by (simp add: unat_sub)
    moreover have "0 < unat (b - a)" using 2 by (simp add: unat_gt_0)
    moreover have "is_before a b SEQ_EXTENT \<longleftrightarrow> unat (b - a) \<le> 2147483647"
      using 2 by (auto simp: is_before_def SEQ_EXTENT_def word_le_nat_alt)
    ultimately show ?thesis using 2 by auto
  next
    case 3
    have d: "unat (b - a) = 2 ^ 32 - unat a + unat b" using 3 unat_less_2p [of a]
      by (simp add: unat_word_ariths unat_sub_if' word_less_nat_alt)
    have "(0xFFFFFFFF :: u32) = - 1" by simp
    then have eq: "0xFFFFFFFF - a + b = b - a - 1" by (simp only:) (simp add: algebra_simps)
    have "unat (b - a - 1) = unat (b - a) - 1"
      using d unat_less_2p [of a] by (intro unat_minus_one) auto
    then have "unat (0xFFFFFFFF - a + b) = unat (b - a) - 1" by (simp only: eq)
    then have "is_before a b SEQ_EXTENT \<longleftrightarrow> unat (b - a) - 1 \<le> 2147483647"
      using 3 by (auto simp: is_before_def SEQ_EXTENT_def word_le_nat_alt)
    then show ?thesis using 3 d unat_less_2p [of a] by auto
  qed (simp add: is_before_def)
qed

lemma is_before_or_equal_iff: "is_before_or_equal a b e \<longleftrightarrow> a = b \<or> is_before a b e"
  by (auto simp: is_before_or_equal_def is_before_def)

lemma seq_antisym: "a \<noteq> b \<Longrightarrow> is_before b a SEQ_EXTENT \<longleftrightarrow> \<not> is_before a b SEQ_EXTENT"
proof -
  assume ne: "a \<noteq> b"
  have "unat a \<noteq> unat b" using ne by (simp add: word_unat_eq_iff [symmetric])
  then have "unat (a - b) = 2 ^ 32 - unat (b - a)"
    using ne unat_less_2p [of a] unat_less_2p [of b]
    by (auto simp: unat_sub_if' word_less_nat_alt not_le)
  moreover have "0 < unat (b - a)" using ne by (simp add: unat_gt_0)
  ultimately show ?thesis
    using ne unat_less_2p [of "b - a"] by (auto simp: seq_distance)
qed


lemma is_after_iff: "is_after a b SEQ_EXTENT \<longleftrightarrow> is_before b a SEQ_EXTENT"
proof (cases "a = b")
  case True
  then show ?thesis by (simp add: is_after_def is_before_def is_before_or_equal_def)
next
  case False
  with seq_antisym [of a b] show ?thesis by (simp add: is_after_def is_before_or_equal_iff)
qed

lemma is_after_or_equal_iff: "is_after_or_equal a b SEQ_EXTENT \<longleftrightarrow> is_before_or_equal b a SEQ_EXTENT"
  using is_after_iff [of b a] by (auto simp: is_after_or_equal_def is_after_def)

text \<open>
  C15. The four sequence-number comparisons agree with the circular order of RFC 793: \<open>a\<close> is
  before \<open>b\<close> when going forward from \<open>a\<close> to \<open>b\<close> takes less than half the circle, and two
  numbers exactly half a circle apart are ordered with the larger one before the smaller one.
  So for two different numbers exactly one is before the other, wrap-around included.
\<close>

theorem sequence_order:
  "(is_before a b SEQ_EXTENT \<longleftrightarrow>
      0 < unat (b - a) \<and> (unat (b - a) < 2 ^ 31 \<or> unat (b - a) = 2 ^ 31 \<and> b < a))
    \<and> (a \<noteq> b \<longrightarrow> (is_before b a SEQ_EXTENT \<longleftrightarrow> \<not> is_before a b SEQ_EXTENT))
    \<and> (is_after a b SEQ_EXTENT \<longleftrightarrow> is_before b a SEQ_EXTENT)
    \<and> (is_before_or_equal a b SEQ_EXTENT \<longleftrightarrow> a = b \<or> is_before a b SEQ_EXTENT)
    \<and> (is_after_or_equal a b SEQ_EXTENT \<longleftrightarrow> is_before_or_equal b a SEQ_EXTENT)"
  by (intro conjI seq_distance impI is_before_or_equal_iff seq_antisym is_after_iff is_after_or_equal_iff)

text \<open>Witness of C15: across the wrap.\<close>

theorem sequence_order_witness:
  "is_before 0xFFFFFFF0 5 SEQ_EXTENT \<and> \<not> is_before 5 0xFFFFFFF0 SEQ_EXTENT"
  using sequence_order [of 5 "0xFFFFFFF0"] by (simp add: is_before_def SEQ_EXTENT_def)

subsection \<open>Segments on the wire\<close>

lemma tcp_header_of_bytes [simp]: "tcp_header_of (tcp_header_bytes h @ rest) = Inr h"
  by (simp add: tcp_header_bytes_def be_bytes16_def be_bytes32_def)

lemma length_tcp_header_bytes [simp]: "length (tcp_header_bytes h) = 20"
  by (simp add: tcp_header_bytes_def)

lemma length_segment_bytes [simp]: "length (segment_bytes src dst sp dp w seg) = length (sg_data seg) + 20"
  by (simp add: segment_bytes_def Let_def)

text \<open>Flags are below bit 10, the length of the header is above bit 12.\<close>

lemma segment_bitvalues:
  fixes flags :: u16
  assumes "flags < 0x400" "n = 20 \<or> n = 24"
  shows "unat (drop_bit 12 (push_bit 12 (of_nat (n div 4)) OR flags)) * 4 = n"
    and "unat (drop_bit 10 (push_bit 12 (of_nat (n div 4)) OR flags)) = n"
    and "f < 0x400 \<Longrightarrow> (push_bit 12 (of_nat (n div 4)) OR flags) AND f = flags AND f"
proof -
  have small: "w = take_bit 10 w" if "w < 0x400" for w :: u16
    using that by (simp add: word_unat_eq_iff unsigned_take_bit_eq take_bit_nat_eq_self word_less_nat_alt)
  define w where "w = flags"
  have flags: "flags = take_bit 10 w" using small [OF assms(1)] by (simp add: w_def)
  show "unat (drop_bit 12 (push_bit 12 (of_nat (n div 4)) OR flags)) * 4 = n"
    using assms(2) unfolding flags by (auto simp: drop_bit_take_bit)
  show "unat (drop_bit 10 (push_bit 12 (of_nat (n div 4)) OR flags)) = n"
    using assms(2) unfolding flags by (auto simp: drop_bit_take_bit)
  assume "f < 0x400"
  then have f: "f = take_bit 10 f" by (rule small)
  show "(push_bit 12 (of_nat (n div 4)) OR flags) AND f = flags AND f"
    by (rule bit_word_eqI, subst f, subst (2) f) (auto simp: bit_simps)
qed


lemma segment_checksum:
  assumes "length (sg_data seg) < 64000"
  shows "to_checksum (sum_bytes (tcp_fake_header src dst (of_nat (length (sg_data seg) + 20)))
     + sum_bytes (segment_bytes src dst sp dp w seg)) = 0"
proof -
  let ?h = "segment_header sp dp w seg" and ?p = "tcp_fake_header src dst (of_nat (length (sg_data seg) + 20))"
  let ?as = "be_bytes16 (th_source_port ?h) @ be_bytes16 (th_destination_port ?h) @ be_bytes32 (th_seq_number ?h)
     @ be_bytes32 (th_ack_number ?h) @ be_bytes16 (goddamned_bitvalues ?h) @ be_bytes16 (th_window ?h)"
  let ?bs = "be_bytes16 (th_urgent_pointer ?h) @ sg_data seg"
  have eq: "tcp_header_bytes (?h\<lparr>th_checksum := c\<rparr>) @ sg_data seg = ?as @ be_bytes16 c @ ?bs" for c
    by (simp add: tcp_header_bytes_def)
  have "?h\<lparr>th_checksum := 0\<rparr> = ?h" by (simp add: segment_header_def)
  then have z: "sum_bytes (tcp_header_bytes ?h) + sum_bytes (sg_data seg) = sum_bytes (?as @ be_bytes16 0 @ ?bs)"
    using eq [of 0] sum_bytes_append [of "tcp_header_bytes ?h" "sg_data seg"] by simp
  have "segment_bytes src dst sp dp w seg =
      ?as @ be_bytes16 (to_checksum (sum_bytes ?p + sum_bytes (?as @ be_bytes16 0 @ ?bs))) @ ?bs"
    unfolding segment_bytes_def Let_def eq add.assoc z ..
  then show ?thesis
    by (simp only:) (rule checksum_field, use assms in \<open>simp_all add: tcp_fake_header_def\<close>)
qed

text \<open>A segment as \<open>sendSegment\<close> builds it is one \<open>TCPLayer::parse\<close> lets through.\<close>

definition sendable :: "segment \<Rightarrow> bool" where
  "sendable seg \<longleftrightarrow> length (sg_data seg) < 64000 \<and> sg_flags seg < 0x400
     \<and> (sg_header_len seg = 20 \<or> sg_header_len seg = 24 \<and> 4 \<le> length (sg_data seg))"

lemma segment_header_of:
  "\<exists>c. tcp_header_of (segment_bytes src dst sp dp w seg) = Inr ((segment_header sp dp w seg)\<lparr>th_checksum := c\<rparr>)"
  by (simp add: segment_bytes_def Let_def) blast

lemma tcp_parse_segment:
  assumes "sendable seg"
  shows "tcp_parse (segment_bytes src dst sp dp w seg) src dst = Some (sp, dp, segment_bytes src dst sp dp w seg)"
proof -
  obtain c where h: "tcp_header_of (segment_bytes src dst sp dp w seg) = Inr ((segment_header sp dp w seg)\<lparr>th_checksum := c\<rparr>)"
    using segment_header_of by blast
  have "sg_flags seg < 0x400" "sg_header_len seg = 20 \<or> sg_header_len seg = 24"
    using assms by (auto simp: sendable_def)
  from segment_bitvalues(2) [OF this]
  have "unat (drop_bit 10 (goddamned_bitvalues (segment_header sp dp w seg))) = sg_header_len seg"
    by (simp add: segment_header_def)
  then show ?thesis
    using assms h segment_checksum [of seg src dst sp dp w]
    by (auto simp: tcp_parse_def sendable_def segment_header_def Let_def)
qed


subsection \<open>Cutting the stream into segments\<close>

fun slices :: "nat \<Rightarrow> 'a list \<Rightarrow> 'a list list" where
  "slices k xs = (if xs = [] \<or> k = 0 then [] else take k xs # slices k (drop k xs))"

declare slices.simps [simp del]

lemma slices_Nil [simp]: "slices k [] = []"
  by (subst slices.simps) simp

lemma slices_ne: "xs \<noteq> [] \<Longrightarrow> 0 < k \<Longrightarrow> slices k xs = take k xs # slices k (drop k xs)"
  by (subst slices.simps) simp

lemma concat_slices: "0 < k \<Longrightarrow> concat (slices k xs) = xs"
  by (induction k xs rule: slices.induct) (subst slices.simps, auto)

lemma slices_bounds: "x \<in> set (slices k xs) \<Longrightarrow> 0 < length x \<and> length x \<le> k \<and> length x \<le> length xs"
proof (induction k xs rule: slices.induct)
  case (1 k xs)
  then show ?case by (subst (asm) (2) slices.simps) (auto split: if_splits)
qed

lemma unat_sub_of_nat: "n \<le> unat w \<Longrightarrow> unat (w - of_nat n) = unat w - n" for w :: "'b::len word"
proof -
  assume n: "n \<le> unat w"
  then have "n < 2 ^ LENGTH('b)" using unat_less_2p [of w] by linarith
  then have "unat (of_nat n :: 'b word) = n" by (simp add: unat_of_nat)
  then show ?thesis using n by (simp add: unat_sub word_le_nat_alt)
qed

text \<open>The segments for a list of slices, the first one numbered \<open>sq\<close>.\<close>

definition data_segment :: "tcp_env \<Rightarrow> u32 \<Rightarrow> u32 \<Rightarrow> u8 list \<Rightarrow> segment" where
  "data_segment env ackn sq d =
     new_segment\<lparr>sg_seq := sq, sg_ack := ackn, sg_flags := TCP_PSH OR TCP_ACK, sg_header_len := 20, sg_data := d,
       retransmit_at := now env + TCP_RETRANSMIT_INTERVAL, ack_with := sq + of_nat (length d)\<rparr>"

fun segments_for :: "tcp_env \<Rightarrow> u32 \<Rightarrow> u32 \<Rightarrow> u8 list list \<Rightarrow> segment list" where
  "segments_for env ackn sq [] = []"
| "segments_for env ackn sq (d # ds) =
     data_segment env ackn sq d # segments_for env ackn (sq + of_nat (length d)) ds"

definition packet_for :: "tcp_env \<Rightarrow> device \<Rightarrow> tcp_socket \<Rightarrow> segment \<Rightarrow> u8 list \<Rightarrow> bool" where
  "packet_for env dev s seg packet \<longleftrightarrow>
     (let bytes = segment_bytes (addr (info dev)) (t_destination_address s) (t_source_port s) (t_destination_port s)
            (word_of_int (getWindow s)) seg
      in encapsulate (take 20 (junk env) @ bytes) (of_nat (length bytes)) (t_destination_address s) IPv4_TCP = Inr packet)"

lemma send_to_peer_ok:
  assumes "get_interface (devs env) (t_destination_address s) = Some dev" "20 \<le> length (junk env)"
  shows "\<exists>packet. send_to_peer env seg (s, out) = Inr (s, out @ [packet]) \<and> packet_for env dev s seg packet"
proof -
  let ?bytes = "segment_bytes (addr (info dev)) (t_destination_address s) (t_source_port s) (t_destination_port s)
            (word_of_int (getWindow s)) seg"
  have "20 \<le> length (take 20 (junk env) @ ?bytes)" by simp
  then obtain h0 where "ipv4_header_of (take 20 (junk env) @ ?bytes) = Inr h0" using ipv4_header_of_ok by blast
  then show ?thesis
    using assms(1) by (simp add: send_to_peer_def sendSegment_def packet_for_def encapsulate_def Let_def)
qed

lemma packet_for_cong:
  "t_destination_address s' = t_destination_address s \<Longrightarrow> t_destination_port s' = t_destination_port s \<Longrightarrow>
   t_source_port s' = t_source_port s \<Longrightarrow> m_rx_buffer s' = m_rx_buffer s \<Longrightarrow>
   packet_for env dev s' seg p = packet_for env dev s seg p"
  by (simp add: packet_for_def getWindow_def)

lemma package_segment_ok:
  assumes inv: "circ_inv (m_tx_buffer s)"
    and w: "snd_wnd (m_block s) \<noteq> 0"
  defines "d \<equiv> take (min (unat (snd_wnd (m_block s))) (unat (snd_mss (m_block s)))) (contents (m_tx_buffer s))"
  shows "\<exists>cb. circ_inv cb \<and> cb_capacity cb = cb_capacity (m_tx_buffer s)
    \<and> contents cb = drop (length d) (contents (m_tx_buffer s))
    \<and> package_segment env s = Inr (data_segment env (rcv_nxt (m_block s)) (snd_nxt (m_block s)) d,
        s\<lparr>m_tx_buffer := cb,
          m_block := (m_block s)\<lparr>snd_nxt := snd_nxt (m_block s) + of_nat (length d),
            snd_wnd := snd_wnd (m_block s) - of_nat (length d)\<rparr>,
          m_retransmission_queue := m_retransmission_queue s
            @ [data_segment env (rcv_nxt (m_block s)) (snd_nxt (m_block s)) d]\<rparr>)"
proof -
  let ?b = "m_block s" and ?c = "contents (m_tx_buffer s)"
  define n where "n = nat (min (readAvailable (m_tx_buffer s)) (min (uint (snd_wnd ?b)) (uint (snd_mss ?b))))"
  obtain x y where "uint (snd_wnd ?b) = int x" "unat (snd_wnd ?b) = x" "uint (snd_mss ?b) = int y" "unat (snd_mss ?b) = y"
    by (metis uint_nat)
  then have n: "n = length d"
    by (simp add: n_def d_def readAvailable_contents [OF inv])
  obtain cb where cb: "cb_get (self env) (intr env) n (m_tx_buffer s) = Inr (cb, take n ?c)" "circ_inv cb"
      "cb_capacity cb = cb_capacity (m_tx_buffer s)" "contents cb = drop n ?c"
    using cb_get_law [OF inv] by blast
  have t: "take n ?c = d" unfolding n by (simp add: d_def min_def)
  show ?thesis
    unfolding package_segment_def Let_def n_def [symmetric] cb(1) t n
    by (rule exI [of _ cb]) (simp add: w cb(1) [unfolded n, unfolded t [unfolded n]] cb(2,3) cb(4) [unfolded n] push_segment_def data_segment_def)
qed


text \<open>What \<open>package\<close> makes of a socket with \<open>c\<close> in its transmit buffer, which becomes \<open>cb\<close>.\<close>

definition packaged :: "tcp_env \<Rightarrow> circ \<Rightarrow> tcp_socket \<Rightarrow> tcp_socket" where
  "packaged env cb s =
     (let b = m_block s; c = contents (m_tx_buffer s) in
      s\<lparr>m_tx_buffer := cb,
        m_block := b\<lparr>snd_nxt := snd_nxt b + of_nat (length c), snd_wnd := snd_wnd b - of_nat (length c),
          sending_comp_ack := (c = [] \<and> sending_comp_ack b)\<rparr>,
        m_retransmission_queue := m_retransmission_queue s
          @ segments_for env (rcv_nxt b) (snd_nxt b) (slices (unat (snd_mss b)) c)\<rparr>)"

lemma package_loop_ok:
  assumes "get_interface (devs env) (t_destination_address s) = Some dev" "20 \<le> length (junk env)"
    and "circ_inv (m_tx_buffer s)" "length (contents (m_tx_buffer s)) \<le> unat (snd_wnd (m_block s))"
    and "length (contents (m_tx_buffer s)) < fuel" "0 < unat (snd_mss (m_block s))"
  shows "\<exists>cb ps. package_loop fuel env (s, out) = Inr (Some (packaged env cb s, out @ ps))
    \<and> circ_inv cb \<and> contents cb = [] \<and> cb_capacity cb = cb_capacity (m_tx_buffer s)
    \<and> list_all2 (packet_for env dev s)
        (segments_for env (rcv_nxt (m_block s)) (snd_nxt (m_block s))
          (slices (unat (snd_mss (m_block s))) (contents (m_tx_buffer s)))) ps"
  using assms
proof (induction fuel arbitrary: s out)
  case (Suc fuel)
  note inv = Suc.prems(3) and dev = Suc.prems(1,2)
  let ?b = "m_block s" and ?c = "contents (m_tx_buffer s)"
  show ?case
  proof (cases "?c = []")
    case True
    then have "package_loop (Suc fuel) env (s, out) = Inr (Some (packaged env (m_tx_buffer s) s, out @ []))"
      by (simp add: readAvailable_contents [OF inv] packaged_def Let_def)
    then show ?thesis using True inv by (intro exI [of _ "m_tx_buffer s"] exI [of _ "[]"]) simp
  next
    case False
    define d where "d = take (unat (snd_mss ?b)) ?c"
    let ?sg = "data_segment env (rcv_nxt ?b) (snd_nxt ?b) d"
    have d: "0 < length d" "length d \<le> length ?c" "drop (unat (snd_mss ?b)) ?c = drop (length d) ?c"
      using False Suc.prems(6) by (auto simp: d_def min_def)
    have wz: "snd_wnd ?b \<noteq> 0" using Suc.prems(4) False by auto
    have d1: "take (min (unat (snd_wnd ?b)) (unat (snd_mss ?b))) ?c = d"
      using Suc.prems(4) by (simp add: d_def min_def)
    obtain cb where cb: "circ_inv cb" "cb_capacity cb = cb_capacity (m_tx_buffer s)" "contents cb = drop (length d) ?c"
      and seg: "package_segment env s = Inr (?sg,
        s\<lparr>m_tx_buffer := cb, m_block := ?b\<lparr>snd_nxt := snd_nxt ?b + of_nat (length d),
            snd_wnd := snd_wnd ?b - of_nat (length d)\<rparr>,
          m_retransmission_queue := m_retransmission_queue s @ [?sg]\<rparr>)"
      using package_segment_ok [OF inv wz] d1 by force
    define s1 where "s1 = s\<lparr>m_tx_buffer := cb, m_block := ?b\<lparr>snd_nxt := snd_nxt ?b + of_nat (length d),
            snd_wnd := snd_wnd ?b - of_nat (length d)\<rparr>,
          m_retransmission_queue := m_retransmission_queue s @ [?sg]\<rparr>"
    define s2 where "s2 = upd_block (\<lambda>b. b\<lparr>sending_comp_ack := False\<rparr>) s1"
    obtain p where p: "send_to_peer env ?sg (s1, out) = Inr (s1, out @ [p])"
        "packet_for env dev s1 ?sg p"
      using send_to_peer_ok [of env s1 dev] dev by (auto simp: s1_def)
    have step: "package_loop (Suc fuel) env (s, out) = package_loop fuel env (s2, out @ [p])"
      using False by (simp add: readAvailable_contents [OF inv] seg s1_def [symmetric] p(1) s2_def)
    have wnd: "unat (snd_wnd ?b - of_nat (length d)) = unat (snd_wnd ?b) - length d"
      using d(2) Suc.prems(4) by (intro unat_sub_of_nat) simp
    have "length ?c - length d < fuel" using Suc.prems(5) d(1,2) by linarith
    then have pre: "get_interface (devs env) (t_destination_address s2) = Some dev" "20 \<le> length (junk env)"
      "circ_inv (m_tx_buffer s2)" "length (contents (m_tx_buffer s2)) \<le> unat (snd_wnd (m_block s2))"
      "length (contents (m_tx_buffer s2)) < fuel" "0 < unat (snd_mss (m_block s2))"
      using Suc.prems d(2) cb(1,3) wnd by (simp_all add: s2_def s1_def)
    have same: "packet_for env dev s2 = packet_for env dev s" "packet_for env dev s1 = packet_for env dev s"
      by (intro ext packet_for_cong; simp add: s2_def s1_def)+
    obtain cb' ps where IH: "package_loop fuel env (s2, out @ [p]) = Inr (Some (packaged env cb' s2, (out @ [p]) @ ps))"
        "circ_inv cb'" "contents cb' = []" "cb_capacity cb' = cb_capacity (m_tx_buffer s2)"
        "list_all2 (packet_for env dev s2) (segments_for env (rcv_nxt (m_block s2)) (snd_nxt (m_block s2))
          (slices (unat (snd_mss (m_block s2))) (contents (m_tx_buffer s2)))) ps"
      using Suc.IH [OF pre, of "out @ [p]"] by blast
    have "packaged env cb' s2 = packaged env cb' s"
      using False Suc.prems(6) d cb(3) by (simp add: packaged_def Let_def s2_def s1_def slices_ne d_def)
    moreover have "list_all2 (packet_for env dev s) (segments_for env (rcv_nxt ?b) (snd_nxt ?b)
          (slices (unat (snd_mss ?b)) ?c)) (p # ps)"
      using IH(5) p(2) False Suc.prems(6) d(3) cb(3)
      by (simp add: slices_ne d_def [symmetric] same) (simp add: s2_def s1_def)
    ultimately show ?thesis using step IH cb(2) by (intro exI [of _ cb'] exI [of _ "p # ps"]) (simp add: s2_def s1_def)
  qed
qed simp


lemma package_loop_assert:
  assumes "get_interface (devs env) (t_destination_address s) = Some dev" "20 \<le> length (junk env)"
    and "circ_inv (m_tx_buffer s)" "unat (snd_wnd (m_block s)) < length (contents (m_tx_buffer s))"
    and "unat (snd_wnd (m_block s)) < fuel" "0 < unat (snd_mss (m_block s))"
  shows "package_loop fuel env (s, out) = Inl AssertFailed"
  using assms
proof (induction fuel arbitrary: s out)
  case (Suc fuel)
  note inv = Suc.prems(3)
  let ?b = "m_block s" and ?c = "contents (m_tx_buffer s)"
  have ne: "?c \<noteq> []" using Suc.prems(4) by auto
  show ?case
  proof (cases "snd_wnd ?b = 0")
    case True
    then show ?thesis using ne by (simp add: readAvailable_contents [OF inv] package_segment_def)
  next
    case False
    define d where "d = take (min (unat (snd_wnd ?b)) (unat (snd_mss ?b))) ?c"
    have "0 < unat (snd_wnd ?b)" using False by (simp add: unat_gt_0)
    then have d: "0 < length d" "length d \<le> unat (snd_wnd ?b)" using Suc.prems(4,6) by (auto simp: d_def)
    let ?sg = "data_segment env (rcv_nxt ?b) (snd_nxt ?b) d"
    obtain cb where cb: "circ_inv cb" "contents cb = drop (length d) ?c"
      and seg: "package_segment env s = Inr (?sg, s\<lparr>m_tx_buffer := cb,
          m_block := ?b\<lparr>snd_nxt := snd_nxt ?b + of_nat (length d), snd_wnd := snd_wnd ?b - of_nat (length d)\<rparr>,
          m_retransmission_queue := m_retransmission_queue s @ [?sg]\<rparr>)"
      using package_segment_ok [OF inv False] d_def by blast
    define s1 where "s1 = s\<lparr>m_tx_buffer := cb,
          m_block := ?b\<lparr>snd_nxt := snd_nxt ?b + of_nat (length d), snd_wnd := snd_wnd ?b - of_nat (length d)\<rparr>,
          m_retransmission_queue := m_retransmission_queue s @ [?sg]\<rparr>"
    define s2 where "s2 = upd_block (\<lambda>b. b\<lparr>sending_comp_ack := False\<rparr>) s1"
    obtain p where p: "send_to_peer env ?sg (s1, out) = Inr (s1, out @ [p])"
      using send_to_peer_ok [of env s1 dev] Suc.prems(1,2) by (auto simp: s1_def)
    have step: "package_loop (Suc fuel) env (s, out) = package_loop fuel env (s2, out @ [p])"
      using ne by (simp add: readAvailable_contents [OF inv] seg s1_def [symmetric] p(1) s2_def)
    have wnd: "unat (snd_wnd ?b - of_nat (length d)) = unat (snd_wnd ?b) - length d"
      using d(2) by (rule unat_sub_of_nat)
    have "unat (snd_wnd ?b) - length d < fuel" using Suc.prems(5) d by linarith
    then have "get_interface (devs env) (t_destination_address s2) = Some dev" "20 \<le> length (junk env)"
      "circ_inv (m_tx_buffer s2)" "unat (snd_wnd (m_block s2)) < length (contents (m_tx_buffer s2))"
      "unat (snd_wnd (m_block s2)) < fuel" "0 < unat (snd_mss (m_block s2))"
      using Suc.prems d(2) cb wnd by (simp_all add: s2_def s1_def diff_less_mono)
    then show ?thesis using Suc.IH [of s2 "out @ [p]"] step by simp
  qed
qed simp

subsection \<open>Receiving in an established connection\<close>

lemma ack_loop_established:
  "tcp_state s = TCP_ESTABLISHED \<Longrightarrow> \<exists>q. ack_loop ackn i s = (False, s\<lparr>m_retransmission_queue := q\<rparr>)"
proof (induction ackn i s rule: ack_loop.induct)
  case (1 ackn i s)
  let ?s = "s\<lparr>m_retransmission_queue := erase_at i (m_retransmission_queue s)\<rparr>"
  have st: "tcp_state ?s = TCP_ESTABLISHED" using 1(6) by simp
  consider (stop) "\<not> i < length (m_retransmission_queue s)"
    | (skip) "i < length (m_retransmission_queue s)"
        "\<not> is_before_or_equal (ack_with (m_retransmission_queue s ! i)) ackn SEQ_EXTENT"
    | (erase) "i < length (m_retransmission_queue s)"
        "is_before_or_equal (ack_with (m_retransmission_queue s ! i)) ackn SEQ_EXTENT" by blast
  then show ?case
  proof cases
    case stop
    then show ?thesis
      by (subst ack_loop.simps) (auto intro!: exI [of _ "m_retransmission_queue s"])
  next
    case skip
    then show ?thesis using 1(1) [OF skip(1) refl refl skip(2) 1(6)] by (subst ack_loop.simps) (simp add: Let_def)
  next
    case erase
    have "ack_loop ackn i s = ack_loop ackn i ?s"
      using erase 1(6) by (subst ack_loop.simps) (simp add: Let_def)
    moreover have "\<exists>q. ack_loop ackn i ?s = (False, ?s\<lparr>m_retransmission_queue := q\<rparr>)"
    proof (cases "has_flag (sg_flags (m_retransmission_queue s ! i)) TCP_FIN")
      case True
      then show ?thesis using 1(3) [OF erase(1) refl refl] erase(2) 1(6) st by simp
    next
      case False
      then show ?thesis using 1(5) [OF erase(1) refl refl] erase(2) 1(6) st by simp
    qed
    ultimately show ?thesis by auto
  qed
qed


text \<open>The parts of a socket a data segment leaves alone, and what it does to the rest.\<close>

definition took_data :: "u8 list \<Rightarrow> tcp_socket \<Rightarrow> tcp_socket \<Rightarrow> bool" where
  "took_data d r r' \<longleftrightarrow> circ_inv (m_rx_buffer r') \<and> cb_capacity (m_rx_buffer r') = cb_capacity (m_rx_buffer r)
     \<and> contents (m_rx_buffer r') = contents (m_rx_buffer r) @ d
     \<and> rcv_nxt (m_block r') = rcv_nxt (m_block r) + of_nat (length d)
     \<and> tcp_state r' = tcp_state r \<and> receive_shut (m_block r') = receive_shut (m_block r)
     \<and> t_source_port r' = t_source_port r \<and> t_destination_port r' = t_destination_port r
     \<and> m_tx_buffer r' = m_tx_buffer r"

lemma took_data_refl: "circ_inv (m_rx_buffer r) \<Longrightarrow> took_data [] r r"
  by (simp add: took_data_def)

lemma took_data_trans: "took_data d r r1 \<Longrightarrow> took_data e r1 r2 \<Longrightarrow> took_data (d @ e) r r2"
  by (simp add: took_data_def)

lemma tcp_rx_data_ok:
  assumes "circ_inv (m_rx_buffer s)" "d \<noteq> []" "\<not> receive_shut (m_block s)"
    and "length d \<le> cb_capacity (m_rx_buffer s) - length (contents (m_rx_buffer s))"
  shows "\<exists>s'. tcp_rx_data env (rcv_nxt (m_block s)) (rcv_nxt (m_block s)) d (s, out) = Inr (False, s', out)
    \<and> took_data d s s'"
proof -
  obtain cb where cb: "cb_put (self env) (intr env) d (m_rx_buffer s) = Inr (cb, min (length d)
        (cb_capacity (m_rx_buffer s) - length (contents (m_rx_buffer s))))" "circ_inv cb"
      "cb_capacity cb = cb_capacity (m_rx_buffer s)" "contents cb = contents (m_rx_buffer s) @ take (min (length d)
        (cb_capacity (m_rx_buffer s) - length (contents (m_rx_buffer s)))) d"
    using cb_put_law [OF assms(1)] by blast
  have "\<not> int (length d) > writeAvailable (m_rx_buffer s)"
    using assms(1,4) contents_bound [OF assms(1)] by (simp add: writeAvailable_contents cb_capacity_def)
  then show ?thesis
    using assms(2-4) cb by (simp add: tcp_rx_data_def Let_def took_data_def raise_rx_def tcp_ack_def)
qed

lemma tcp_rx_ack_established:
  assumes "tcp_state s = TCP_ESTABLISHED" "circ_inv (m_rx_buffer s)"
  shows "\<exists>s'. tcp_rx_ack env seqn ackn window (s, out) = Inr (False, s', out) \<and> took_data [] s s'"
proof -
  define s1 where "s1 = (if is_after_or_equal ackn (snd_una (m_block s)) SEQ_EXTENT
              then upd_block (\<lambda>b. b\<lparr>snd_una := ackn, snd_wnd := window\<rparr>) s else s)"
  have st: "tcp_state s1 = TCP_ESTABLISHED" using assms by (simp add: s1_def)
  then obtain q where "ack_loop ackn 0 s1 = (False, s1\<lparr>m_retransmission_queue := q\<rparr>)"
    using ack_loop_established by blast
  then have "tcp_rx_ack env seqn ackn window (s, out) = Inr (False, s1\<lparr>m_retransmission_queue := q\<rparr>, out)"
    using st unfolding tcp_rx_ack_def s1_def [symmetric] Let_def by (simp add: s1_def [symmetric])
  moreover have "took_data [] s (s1\<lparr>m_retransmission_queue := q\<rparr>)"
    using assms by (simp add: took_data_def s1_def)
  ultimately show ?thesis by blast
qed

lemma tcp_received_data:
  assumes r: "tcp_state r = TCP_ESTABLISHED" "circ_inv (m_rx_buffer r)" "\<not> receive_shut (m_block r)"
      "t_destination_port r = sp"
    and d: "d \<noteq> []" "length d \<le> cb_capacity (m_rx_buffer r) - length (contents (m_rx_buffer r))"
  shows "\<exists>r'. tcp_received env src sp (segment_bytes src dst sp dp w (data_segment env' ackn (rcv_nxt (m_block r)) d)) (r, out)
      = Inr (r', out) \<and> took_data d r r'"
proof -
  let ?sg = "data_segment env' ackn (rcv_nxt (m_block r)) d"
  let ?bytes = "segment_bytes src dst sp dp w ?sg"
  have sg: "sg_flags ?sg = 0x18" "sg_header_len ?sg = 20" "sg_data ?sg = d" "sg_seq ?sg = rcv_nxt (m_block r)" "sg_ack ?sg = ackn"
    by (simp_all add: data_segment_def new_segment_def TCP_PSH_def TCP_ACK_def)
  obtain h where h: "tcp_header_of ?bytes = Inr h" "goddamned_bitvalues h = 0x5018" "th_seq_number h = rcv_nxt (m_block r)"
      "th_ack_number h = ackn" "th_window h = w"
    using segment_header_of [of src dst sp dp w ?sg] by (auto simp: segment_header_def sg)
  have len: "header_len_of h = 20" by (simp add: header_len_of_def h(2))
  have data: "drop 20 ?bytes = d" by (simp add: segment_bytes_def Let_def sg)
  have opt: "read_options ?bytes 20 20 mss = Inr mss" for mss by (subst read_options.simps) simp
  obtain r1 where r1: "tcp_rx_ack env (rcv_nxt (m_block r)) ackn w
        (upd_block (\<lambda>b. b\<lparr>snd_mss := snd_mss b\<rparr>) r, out) = Inr (False, r1, out)" "took_data [] r r1"
    using tcp_rx_ack_established [OF r(1,2), of env "rcv_nxt (m_block r)" ackn w out] by auto
  obtain r2 where r2: "tcp_rx_data env (rcv_nxt (m_block r1)) (rcv_nxt (m_block r1)) d (r1, out) = Inr (False, r2, out)"
      "took_data d r1 r2"
    using tcp_rx_data_ok [of r1 d env out] r d r1(2) by (auto simp: took_data_def)
  have "tcp_received env src sp ?bytes (r, out) = Inr (r2, out)"
    using r r1 r2(1)
    by (simp add: tcp_received_def h len opt data Let_def has_flag_def TCP_RST_def TCP_SYN_def TCP_ACK_def TCP_FIN_def took_data_def)
  moreover have "took_data d r r2" using took_data_trans [OF r1(2) r2(2)] by simp
  ultimately show ?thesis by blast
qed


subsection \<open>From one socket to another\<close>

text \<open>
  A packet that arrives at a device: \<open>IPv4Layer::parse\<close>, \<open>TCPLayer::parse\<close> and
  \<open>TCPProtocol::packetReceived\<close>; then a sequence of packets.
\<close>

definition tcp_ipv4_received ::
  "tcp_env \<Rightarrow> tcp_ptr \<Rightarrow> device \<Rightarrow> u8 list \<Rightarrow> tcp_proto \<times> packets \<Rightarrow> (tcp_proto \<times> packets) res" where
  "tcp_ipv4_received env ptr dev packet st = res_bind (ipv4_parse dev packet) (\<lambda>up. case up of
     Some (TCP_parse payload src dst) \<Rightarrow> (case tcp_parse payload src dst of
         Some (sport, dport, buffer) \<Rightarrow> tcp_packetReceived env ptr src sport dport buffer st
       | None \<Rightarrow> Inr st)
   | _ \<Rightarrow> Inr st)"

fun tcp_deliver ::
  "tcp_env \<Rightarrow> tcp_ptr \<Rightarrow> device \<Rightarrow> u8 list list \<Rightarrow> tcp_proto \<times> packets \<Rightarrow> (tcp_proto \<times> packets) res" where
  "tcp_deliver env ptr dev [] st = Inr st"
| "tcp_deliver env ptr dev (p # ps) st = res_bind (tcp_ipv4_received env ptr dev p st) (tcp_deliver env ptr dev ps)"

lemma segment_received:
  assumes "sendable seg" "20 \<le> length (junk env)" "packet_for env dev s seg p" "accepts dev' (t_destination_address s)"
  shows "\<exists>p'. ipv4_fill dev p = Inr p' \<and> tcp_ipv4_received env' ptr dev' p' st =
    tcp_packetReceived env' ptr (addr (info dev)) (t_source_port s) (t_destination_port s)
      (segment_bytes (addr (info dev)) (t_destination_address s) (t_source_port s) (t_destination_port s)
            (word_of_int (getWindow s)) seg) st"
proof -
  let ?bytes = "segment_bytes (addr (info dev)) (t_destination_address s) (t_source_port s) (t_destination_port s)
            (word_of_int (getWindow s)) seg"
  obtain b p' where "encapsulate (take 20 (junk env) @ ?bytes) (of_nat (length ?bytes)) (t_destination_address s) IPv4_TCP = Inr b"
      and p': "ipv4_fill dev b = Inr p'"
      "ipv4_parse dev' p' = Inr (upcall_for IPv4_TCP ?bytes (addr (info dev)) (t_destination_address s))"
    using delivered [of "take 20 (junk env)" ?bytes "t_destination_address s" IPv4_TCP dev dev'] assms(1,2,4)
    by (auto simp: sendable_def)
  then have "b = p" using assms(3) by (simp add: packet_for_def Let_def)
  then show ?thesis
    using p' tcp_parse_segment [OF assms(1)]
    by (simp add: tcp_ipv4_received_def upcall_for_def)
qed

text \<open>Which socket gets a packet depends only on the ports and states of the sockets.\<close>

lemma find_connected_put:
  assumes "find_connected sp dp st ps = Inr (Some p)" "tcp_store st p = Some r"
    and "tcp_state r' = tcp_state r" "t_source_port r' = t_source_port r" "t_destination_port r' = t_destination_port r"
  shows "find_connected sp dp (tsock_put p r' st) ps = Inr (Some p)"
  using assms
  by (induction ps) (auto simp: tsock_at_def tsock_put_def res_bind_Inr_iff split: option.splits if_splits)

lemma find_connected_ports:
  assumes "find_connected sp dp st ps = Inr (Some p)" "tcp_store st p = Some r"
  shows "t_source_port r = dp \<and> t_destination_port r = sp"
  using assms
  by (induction ps) (auto simp: tsock_at_def res_bind_Inr_iff split: option.splits if_splits)

definition tcp_receiver :: "u16 \<Rightarrow> u16 \<Rightarrow> tcp_ptr \<Rightarrow> tcp_socket \<Rightarrow> tcp_proto \<Rightarrow> bool" where
  "tcp_receiver sp dp p r st \<longleftrightarrow> dp \<noteq> 0 \<and> find_connected sp dp st (tcp_sockets st) = Inr (Some p)
     \<and> tcp_store st p = Some r \<and> tcp_state r = TCP_ESTABLISHED \<and> circ_inv (m_rx_buffer r)
     \<and> \<not> receive_shut (m_block r)"

lemma packet_received_data:
  assumes "tcp_receiver sp dp p r st" "d \<noteq> []"
    and "length d \<le> cb_capacity (m_rx_buffer r) - length (contents (m_rx_buffer r))"
  shows "\<exists>r'. tcp_packetReceived env ptr src sp dp
      (segment_bytes src dst sp dp w (data_segment env' ackn (rcv_nxt (m_block r)) d)) (st, out)
      = Inr (tsock_put p r' st, out) \<and> took_data d r r' \<and> tcp_receiver sp dp p r' (tsock_put p r' st)"
proof -
  note r = assms(1) [unfolded tcp_receiver_def]
  have "t_destination_port r = sp" using find_connected_ports r by blast
  then obtain r' where r': "tcp_received env src sp (segment_bytes src dst sp dp w (data_segment env' ackn (rcv_nxt (m_block r)) d)) (r, out)
      = Inr (r', out)" "took_data d r r'"
    using tcp_received_data [of r sp d env src dst dp w env' ackn out] r assms(2,3) by blast
  then have "tcp_receiver sp dp p r' (tsock_put p r' st)"
    using r find_connected_put [of sp dp st "tcp_sockets st" p r r']
    by (simp add: tcp_receiver_def took_data_def) (simp add: tsock_put_def)
  moreover have "tcp_packetReceived env ptr src sp dp
      (segment_bytes src dst sp dp w (data_segment env' ackn (rcv_nxt (m_block r)) d)) (st, out) = Inr (tsock_put p r' st, out)"
    using r r'(1) by (simp add: tcp_packetReceived_def tsock_at_def)
  ultimately show ?thesis using r'(2) by blast
qed

lemma segments_delivered:
  assumes "tcp_receiver (t_source_port s) (t_destination_port s) p r st" "rcv_nxt (m_block r) = sq"
    and "\<forall>d \<in> set ds. 0 < length d \<and> length d < 64000"
    and "length (concat ds) \<le> cb_capacity (m_rx_buffer r) - length (contents (m_rx_buffer r))"
    and "20 \<le> length (junk env)" "list_all2 (packet_for env dev s) (segments_for env ackn sq ds) ps"
    and "accepts dev' (t_destination_address s)"
  shows "\<exists>ps' r' st'. list_all2 (\<lambda>p p'. ipv4_fill dev p = Inr p') ps ps'
    \<and> tcp_deliver env' ptr dev' ps' (st, out) = Inr (st', out)
    \<and> tcp_store st' p = Some r' \<and> took_data (concat ds) r r'"
  using assms
proof (induction ds arbitrary: r st sq ps)
  case Nil
  then show ?case using took_data_refl [of r] by (auto simp: tcp_receiver_def)
next
  case (Cons d ds)
  let ?sg = "data_segment env ackn sq d"
  obtain q qs where ps: "ps = q # qs" "packet_for env dev s ?sg q"
      "list_all2 (packet_for env dev s) (segments_for env ackn (sq + of_nat (length d)) ds) qs"
    using Cons.prems(6) by (auto simp: list_all2_Cons1)
  have "sendable ?sg"
    using Cons.prems(3) by (simp add: sendable_def data_segment_def new_segment_def TCP_PSH_def TCP_ACK_def)
  then obtain q' where q': "ipv4_fill dev q = Inr q'" "tcp_ipv4_received env' ptr dev' q' (st, out) =
      tcp_packetReceived env' ptr (addr (info dev)) (t_source_port s) (t_destination_port s)
        (segment_bytes (addr (info dev)) (t_destination_address s) (t_source_port s) (t_destination_port s)
            (word_of_int (getWindow s)) ?sg) (st, out)"
    using segment_received [OF _ Cons.prems(5) ps(2) Cons.prems(7)] by blast
  obtain r1 where r1: "tcp_ipv4_received env' ptr dev' q' (st, out) = Inr (tsock_put p r1 st, out)" "took_data d r r1"
      "tcp_receiver (t_source_port s) (t_destination_port s) p r1 (tsock_put p r1 st)"
    using packet_received_data [OF Cons.prems(1), of d env' ptr "addr (info dev)" "t_destination_address s"
        "word_of_int (getWindow s)" env ackn out] Cons.prems(2,3,4)
    unfolding q'(2) by auto
  have n1: "rcv_nxt (m_block r1) = sq + of_nat (length d)"
    and room1: "length (concat ds) \<le> cb_capacity (m_rx_buffer r1) - length (contents (m_rx_buffer r1))"
    using Cons.prems(2,4) r1(2) by (auto simp: took_data_def)
  obtain qs' r' st' where "list_all2 (\<lambda>p p'. ipv4_fill dev p = Inr p') qs qs'"
      "tcp_deliver env' ptr dev' qs' (tsock_put p r1 st, out) = Inr (st', out)"
      "tcp_store st' p = Some r'" "took_data (concat ds) r1 r'"
    using Cons.IH [OF r1(3) n1 _ room1 Cons.prems(5) ps(3) Cons.prems(7)] Cons.prems(3) by auto
  then show ?case
    using q'(1) r1(1,2) ps(1) took_data_trans
    by (intro exI [of _ "q' # qs'"] exI [of _ r'] exI [of _ st']) auto
qed


lemma package_ok:
  assumes "get_interface (devs env) (t_destination_address s) = Some dev" "20 \<le> length (junk env)"
    and "circ_inv (m_tx_buffer s)" "length (contents (m_tx_buffer s)) \<le> 4096" "snd_mss (m_block s) \<noteq> 0"
    and "length (contents (m_tx_buffer s)) \<le> unat (snd_wnd (m_block s))" "contents (m_tx_buffer s) \<noteq> []"
  shows "\<exists>cb ps. package env (s, out) = Inr (Some (packaged env cb s, out @ ps))
    \<and> circ_inv cb \<and> contents cb = []
    \<and> list_all2 (packet_for env dev s)
        (segments_for env (rcv_nxt (m_block s)) (snd_nxt (m_block s))
          (slices (unat (snd_mss (m_block s))) (contents (m_tx_buffer s)))) ps"
proof -
  have "0 < unat (snd_mss (m_block s))" using assms(5) by (simp add: unat_gt_0)
  then obtain cb ps where "package_loop 4097 env (s, out) = Inr (Some (packaged env cb s, out @ ps))"
      "circ_inv cb" "contents cb = []" "list_all2 (packet_for env dev s)
        (segments_for env (rcv_nxt (m_block s)) (snd_nxt (m_block s))
          (slices (unat (snd_mss (m_block s))) (contents (m_tx_buffer s)))) ps"
    using package_loop_ok [OF assms(1-3,6), of 4097 out] assms(4) by auto
  moreover have "\<not> sending_comp_ack (m_block (packaged env cb s))" using assms(7) by (simp add: packaged_def Let_def)
  ultimately show ?thesis by (auto simp: package_def)
qed

text \<open>
  C16. What the timer sends. With an interface to the peer, \<open>package\<close> cuts everything the
  transmit buffer holds into consecutive pieces of the maximum segment size (the last one
  may be shorter), appends one segment for each to the retransmission queue, numbered
  without gaps from \<open>snd_nxt\<close>, hands one packet for each to IPv4, empties the buffer and
  moves \<open>snd_nxt\<close> behind the last byte; the pieces put together are the buffer. It does so
  if the peer's window covers the whole buffer. If it does not, the assertion on the window fails
  and the kernel stops. Either way the loop ends: 4097 rounds are enough.
\<close>

theorem tcp_package:
  assumes "get_interface (devs env) (t_destination_address s) = Some dev" "20 \<le> length (junk env)"
    and "circ_inv (m_tx_buffer s)" "length (contents (m_tx_buffer s)) \<le> 4096" "snd_mss (m_block s) \<noteq> 0"
    and "contents (m_tx_buffer s) \<noteq> []"
  defines "c \<equiv> contents (m_tx_buffer s)" and "pieces \<equiv> slices (unat (snd_mss (m_block s))) (contents (m_tx_buffer s))"
  shows "if length c \<le> unat (snd_wnd (m_block s)) then
      concat pieces = c \<and> (\<forall>d \<in> set pieces. 0 < length d \<and> length d \<le> unat (snd_mss (m_block s)))
      \<and> (\<exists>s' ps. package env (s, out) = Inr (Some (s', out @ ps))
        \<and> contents (m_tx_buffer s') = [] \<and> snd_nxt (m_block s') = snd_nxt (m_block s) + of_nat (length c)
        \<and> m_retransmission_queue s' = m_retransmission_queue s
            @ segments_for env (rcv_nxt (m_block s)) (snd_nxt (m_block s)) pieces
        \<and> list_all2 (packet_for env dev s) (segments_for env (rcv_nxt (m_block s)) (snd_nxt (m_block s)) pieces) ps)
    else package env (s, out) = Inl AssertFailed"
proof (cases "length c \<le> unat (snd_wnd (m_block s))")
  case True
  have mss: "0 < unat (snd_mss (m_block s))" using assms(5) by (simp add: unat_gt_0)
  obtain cb ps where "package env (s, out) = Inr (Some (packaged env cb s, out @ ps))" "circ_inv cb" "contents cb = []"
      "list_all2 (packet_for env dev s) (segments_for env (rcv_nxt (m_block s)) (snd_nxt (m_block s)) pieces) ps"
    using package_ok [OF assms(1-5) _ assms(6), of out] True unfolding c_def pieces_def by blast
  then show ?thesis
    using True concat_slices [OF mss] slices_bounds
    by (auto simp: packaged_def Let_def c_def pieces_def)
next
  case False
  have "0 < unat (snd_mss (m_block s))" using assms(5) by (simp add: unat_gt_0)
  then have "package_loop 4097 env (s, out) = Inl AssertFailed"
    using package_loop_assert [OF assms(1-3), of 4097 out] False assms(4) by (simp add: c_def)
  then show ?thesis using False by (simp add: package_def)
qed

text \<open>A host that talks to itself over its own device: a sender with three bytes to send, a receiver.\<close>

definition demo_env :: tcp_env where
  "demo_env = \<lparr>now = 0, devs = [Some eth_device], self = 1, intr = True, junk = replicate 20 0\<rparr>"

definition demo_sender :: tcp_socket where
  "demo_sender = new_tcp_socket\<lparr>t_source_port := 49152, t_destination_address := IPv4 10 0 0 2, t_destination_port := 80,
     m_tx_buffer := \<lparr>m_buffer = [7, 8, 9, 0], m_size = 4, m_readPos = 0, m_writePos = 3, m_event = new_event\<rparr>,
     m_block := new_tcp_block\<lparr>state := TCP_ESTABLISHED, snd_nxt := 100, snd_wnd := 2, snd_mss := 2, rcv_nxt := 5\<rparr>\<rparr>"

definition demo_receiver :: tcp_socket where
  "demo_receiver = new_tcp_socket\<lparr>t_source_port := 80, t_destination_port := 49152,
     m_block := new_tcp_block\<lparr>state := TCP_ESTABLISHED, rcv_nxt := 100\<rparr>\<rparr>"

definition demo_proto :: tcp_proto where
  "demo_proto = \<lparr>tcp_sockets = [1], tcp_store = [1 \<mapsto> demo_receiver], tcp_ports = ports_init\<rparr>"

lemma demo_facts:
  "get_interface (devs demo_env) (t_destination_address demo_sender) = Some eth_device"
  "20 \<le> length (junk demo_env)" "circ_inv (m_tx_buffer demo_sender)" "contents (m_tx_buffer demo_sender) = [7, 8, 9]"
  "snd_mss (m_block demo_sender) = 2" "snd_wnd (m_block demo_sender) = 2" "snd_nxt (m_block demo_sender) = 100"
  "accepts eth_device (t_destination_address demo_sender)"
  "t_source_port demo_sender = 49152" "t_destination_port demo_sender = 80"
  by (simp_all add: demo_env_def demo_sender_def get_interface_def eth_device_def Let_def circ_inv_def contents_def
      new_event_def event_wf_def accepts_def)

text \<open>Witness of C16: three bytes, of which the peer's window takes two.\<close>

theorem tcp_package_witness: "package demo_env (demo_sender, []) = Inl AssertFailed"
  using tcp_package [of demo_env demo_sender eth_device "[]"] demo_facts by simp

text \<open>
  C17. A byte stream from one socket to another. The sender's timer sends what its transmit
  buffer holds; the packets, filled in by the sending device and delivered in order, pass the
  IPv4 layer, the checksums and the socket lookup of the receiving host, and afterwards the
  receive buffer of the connected socket has grown by exactly the bytes the transmit buffer
  held, and both ends agree on the next sequence number.
\<close>

theorem tcp_stream:
  assumes "get_interface (devs env) (t_destination_address s) = Some dev" "20 \<le> length (junk env)"
    and "circ_inv (m_tx_buffer s)" "length (contents (m_tx_buffer s)) \<le> 4096" "snd_mss (m_block s) \<noteq> 0"
    and "length (contents (m_tx_buffer s)) \<le> unat (snd_wnd (m_block s))" "contents (m_tx_buffer s) \<noteq> []"
    and "accepts dev' (t_destination_address s)" "tcp_receiver (t_source_port s) (t_destination_port s) p r st"
    and "rcv_nxt (m_block r) = snd_nxt (m_block s)"
    and "length (contents (m_tx_buffer s)) \<le> cb_capacity (m_rx_buffer r) - length (contents (m_rx_buffer r))"
  shows "\<exists>s' ps ps' st' r'. package env (s, out) = Inr (Some (s', out @ ps))
    \<and> list_all2 (\<lambda>p p'. ipv4_fill dev p = Inr p') ps ps'
    \<and> tcp_deliver env' ptr dev' ps' (st, out') = Inr (st', out')
    \<and> tcp_store st' p = Some r'
    \<and> contents (m_rx_buffer r') = contents (m_rx_buffer r) @ contents (m_tx_buffer s)
    \<and> contents (m_tx_buffer s') = [] \<and> rcv_nxt (m_block r') = snd_nxt (m_block s')"
proof -
  let ?c = "contents (m_tx_buffer s)"
  let ?ds = "slices (unat (snd_mss (m_block s))) ?c"
  have mss: "0 < unat (snd_mss (m_block s))" using assms(5) by (simp add: unat_gt_0)
  obtain cb ps where ps: "package env (s, out) = Inr (Some (packaged env cb s, out @ ps))" "contents cb = []"
      "list_all2 (packet_for env dev s) (segments_for env (rcv_nxt (m_block s)) (snd_nxt (m_block s)) ?ds) ps"
    using package_ok [OF assms(1-7), of out] by blast
  have ds: "\<forall>d \<in> set ?ds. 0 < length d \<and> length d < 64000"
    using slices_bounds [of _ _ ?c] assms(4) by fastforce
  have room: "length (concat ?ds) \<le> cb_capacity (m_rx_buffer r) - length (contents (m_rx_buffer r))"
    using assms(11) by (simp add: concat_slices [OF mss])
  obtain ps' r' st' where "list_all2 (\<lambda>p p'. ipv4_fill dev p = Inr p') ps ps'"
      "tcp_deliver env' ptr dev' ps' (st, out') = Inr (st', out')" "tcp_store st' p = Some r'" "took_data ?c r r'"
    using segments_delivered [OF assms(9,10) ds room assms(2) ps(3) assms(8), of env' ptr out']
    by (auto simp: concat_slices [OF mss])
  then show ?thesis
    using ps(1,2) assms(10)
    by (intro exI [of _ "packaged env cb s"] exI [of _ ps] exI [of _ ps'] exI [of _ st'] exI [of _ r'])
      (simp add: took_data_def packaged_def Let_def)
qed


text \<open>Witness of C17: the same bytes when the window takes them all.\<close>

theorem tcp_stream_witness:
  "\<exists>s' ps ps' st' r'. package demo_env (upd_block (\<lambda>b. b\<lparr>snd_wnd := 1000\<rparr>) demo_sender, []) = Inr (Some (s', ps))
    \<and> list_all2 (\<lambda>p p'. ipv4_fill eth_device p = Inr p') ps ps'
    \<and> tcp_deliver demo_env 2 eth_device ps' (demo_proto, []) = Inr (st', []) \<and> tcp_store st' 1 = Some r'
    \<and> contents (m_rx_buffer r') = [7, 8, 9]"
proof -
  let ?s = "upd_block (\<lambda>b. b\<lparr>snd_wnd := 1000\<rparr>) demo_sender"
  have r: "circ_inv (m_rx_buffer demo_receiver)" "contents (m_rx_buffer demo_receiver) = []"
      "rcv_nxt (m_block demo_receiver) = 100" "cb_capacity (m_rx_buffer demo_receiver) = 8255"
    by (simp_all add: demo_receiver_def new_tcp_socket_def TCP_RX_BUFFER_SIZE_def cb_capacity_def newCircularBuffer_def
        circ_inv_def contents_def new_event_def event_wf_def)
  moreover have "tcp_receiver 49152 80 1 demo_receiver demo_proto"
    using r(1) by (simp add: tcp_receiver_def demo_proto_def tsock_at_def)
      (simp add: demo_receiver_def new_tcp_block_def)
  ultimately show ?thesis
    using tcp_stream [of demo_env ?s eth_device eth_device 1 demo_receiver demo_proto "[]" demo_env 2 "[]"] demo_facts
    by simp blast
qed

end
