(* ===== verification/TcpStates.thy ===== *)
theory TcpStates
  imports TcpStream
begin

unbundle bit_operations_syntax

text \<open>
  TCP, fifth part: the connection as a state machine, and what any segment at all can do
  to the bytes already received.
\<close>

subsection \<open>The state machine\<close>

text \<open>The changes of state the handling of one segment is made of; no edge leaves \<open>TCP_CLOSED\<close>.\<close>

inductive tcp_edge :: "tcp_state_t \<Rightarrow> tcp_state_t \<Rightarrow> bool" where
  "tcp_edge TCP_SYN_SENT TCP_SYN_RECEIVED"
| "tcp_edge TCP_SYN_RECEIVED TCP_ESTABLISHED"
| "tcp_edge TCP_ESTABLISHED TCP_CLOSE_WAIT"
| "tcp_edge TCP_FIN_WAIT_1 TCP_FIN_WAIT_2"
| "tcp_edge TCP_FIN_WAIT_1 TCP_CLOSING"
| "tcp_edge st TCP_CLOSED"

inductive_simps tcp_edge_from: "tcp_edge st st'"

text \<open>
  What can happen to one socket (\<open>tcp_step\<close> below says how), and the states each event may leave it in. Nothing is left
  after \<open>close\<close> in \<open>TCP_CLOSE_WAIT\<close>: the call does not return.
\<close>

datatype tcp_event = EvSegment | EvListener | EvTimer | EvConnect | EvConnected | EvBind | EvListen | EvAccept | EvSend | EvReceive
  | EvShutdown | EvFin | EvClose

fun segment_moves :: "tcp_state_t \<Rightarrow> tcp_state_t set" where
  "segment_moves TCP_SYN_SENT = {TCP_SYN_SENT, TCP_SYN_RECEIVED, TCP_ESTABLISHED, TCP_CLOSE_WAIT, TCP_CLOSED}"
| "segment_moves TCP_SYN_RECEIVED = {TCP_SYN_RECEIVED, TCP_ESTABLISHED, TCP_CLOSE_WAIT, TCP_CLOSED}"
| "segment_moves TCP_ESTABLISHED = {TCP_ESTABLISHED, TCP_CLOSE_WAIT, TCP_CLOSED}"
| "segment_moves TCP_FIN_WAIT_1 = {TCP_FIN_WAIT_1, TCP_FIN_WAIT_2, TCP_CLOSING, TCP_CLOSED}"
| "segment_moves st = {st, TCP_CLOSED}"

fun tcp_moves :: "tcp_event \<Rightarrow> tcp_state_t \<Rightarrow> tcp_state_t set" where
  "tcp_moves EvSegment st = segment_moves st"
| "tcp_moves EvConnect st = (if st = TCP_CLOSED then {TCP_SYN_SENT, TCP_CLOSED} else {st})"
| "tcp_moves EvConnected st = (if st \<in> {TCP_ESTABLISHED, TCP_FIN_WAIT_1, TCP_FIN_WAIT_2, TCP_CLOSE_WAIT} then {st} else {TCP_CLOSED})"
| "tcp_moves EvListen st = (if st = TCP_CLOSED then {TCP_LISTEN, TCP_CLOSED} else {st})"
| "tcp_moves EvFin st = (if st = TCP_ESTABLISHED then {TCP_FIN_WAIT_1, TCP_CLOSED}
     else if st = TCP_CLOSE_WAIT then {TCP_LAST_ACK, TCP_CLOSED} else {st, TCP_CLOSED})"
| "tcp_moves EvClose st = (if st = TCP_CLOSE_WAIT then {} else if st = TCP_LAST_ACK then {st} else {TCP_CLOSED})"
| "tcp_moves ev st = (if ev \<in> {EvListener, EvTimer, EvReceive} then {st, TCP_CLOSED} else {st})"

lemma segment_moves: "tcp_edge\<^sup>*\<^sup>* st st' \<Longrightarrow> st' \<in> segment_moves st"
proof (induction rule: rtranclp_induct)
  case base
  then show ?case by (cases st) simp_all
next
  case (step y z)
  then show ?case by (cases st) (auto simp: tcp_edge_from)
qed

text \<open>Two kinds of operations that leave the received bytes alone: those that move along the edges, and those that at most close.\<close>

definition calm :: "tcp_socket \<Rightarrow> tcp_socket \<Rightarrow> bool" where
  "calm s s' \<longleftrightarrow> tcp_state s' \<in> {tcp_state s, TCP_CLOSED} \<and> m_rx_buffer s' = m_rx_buffer s"

lemma calm_refl [simp]: "calm s s"
  by (simp add: calm_def)

lemma calm_trans: "calm s s1 \<Longrightarrow> calm s1 s2 \<Longrightarrow> calm s s2"
  by (auto simp: calm_def)

lemma calm_same: "tcp_state s' = tcp_state s \<Longrightarrow> m_rx_buffer s' = m_rx_buffer s \<Longrightarrow> calm s s'"
  by (simp add: calm_def)

lemma calm_closed: "tcp_state s' = TCP_CLOSED \<Longrightarrow> m_rx_buffer s' = m_rx_buffer s \<Longrightarrow> calm s s'"
  by (simp add: calm_def)

lemma calm_state: "calm s s' \<Longrightarrow> tcp_state s' \<in> {tcp_state s, TCP_CLOSED}"
  by (simp add: calm_def)

definition quiet :: "tcp_socket \<Rightarrow> tcp_socket \<Rightarrow> bool" where
  "quiet s s' \<longleftrightarrow> tcp_edge\<^sup>*\<^sup>* (tcp_state s) (tcp_state s') \<and> m_rx_buffer s' = m_rx_buffer s"

lemma quiet_refl [simp]: "quiet s s"
  by (simp add: quiet_def)

lemma quiet_trans: "quiet s s1 \<Longrightarrow> quiet s1 s2 \<Longrightarrow> quiet s s2"
  by (auto simp: quiet_def)

lemma quiet_same: "tcp_state s' = tcp_state s \<Longrightarrow> m_rx_buffer s' = m_rx_buffer s \<Longrightarrow> quiet s s'"
  by (simp add: quiet_def)

lemma quiet_edge: "tcp_edge (tcp_state s) (tcp_state s') \<Longrightarrow> m_rx_buffer s' = m_rx_buffer s \<Longrightarrow> quiet s s'"
  by (auto simp: quiet_def)

lemma quiet_closed: "tcp_state s' = TCP_CLOSED \<Longrightarrow> m_rx_buffer s' = m_rx_buffer s \<Longrightarrow> quiet s s'"
  by (rule quiet_edge) (auto intro: tcp_edge.intros)

lemma calm_quiet: "calm s s' \<Longrightarrow> quiet s s'"
  by (auto simp: calm_def intro: quiet_same quiet_closed)

lemmas tcp_small = set_state_def raise_rx_def raise_tx_def tcp__close_def tcp_reset_def push_segment_def tcp_ack_def Let_def

lemma tcp_reset_calm: "calm s (snd (tcp_reset s))"
  by (rule calm_closed) (simp_all add: tcp_small)

lemma sendSegment_calm: "sendSegment env seg a port (s, out) = Inr (r, s', out') \<Longrightarrow> calm s s'"
  using tcp_reset_calm [of s]
  by (auto simp: sendSegment_def Let_def res_bind_Inr_iff split: option.splits if_splits)

lemma send_to_peer_calm: "send_to_peer env seg (s, out) = Inr (s', out') \<Longrightarrow> calm s s'"
  by (auto simp: send_to_peer_def res_bind_Inr_iff dest: sendSegment_calm)

text \<open>Sending something from a socket that differs from \<open>s\<close> only in places that do not matter.\<close>

lemma calm_send:
  "send_to_peer env seg (s1, out) = Inr (s', out') \<Longrightarrow> tcp_state s1 = tcp_state s \<Longrightarrow>
   m_rx_buffer s1 = m_rx_buffer s \<Longrightarrow> calm s s'"
  using calm_trans [OF calm_same send_to_peer_calm] by blast

lemma tcp_ack_manual_calm: "tcp_ack_manual env n (s, out) = Inr (s', out') \<Longrightarrow> calm s s'"
  by (auto simp: tcp_ack_manual_def dest: send_to_peer_calm)

lemma windowUpdate_calm: "windowUpdate env (s, out) = Inr (s', out') \<Longrightarrow> calm s s'"
  by (auto simp: windowUpdate_def dest: send_to_peer_calm)

lemma tcp_rst_calm: "tcp_rst env (s, out) = Inr (s', out') \<Longrightarrow> calm s s'"
  by (auto simp: tcp_rst_def Let_def dest: send_to_peer_calm)

lemma tcp_fin_calm: "tcp_fin held env (s, out) = Inr (s', out') \<Longrightarrow> calm s s'"
  by (auto simp: tcp_fin_def Let_def push_segment_def split: if_splits elim!: calm_send)

lemma tcp_syn_calm: "tcp_syn env (s, out) = Inr (s', out') \<Longrightarrow> calm s s'"
  by (auto simp: tcp_syn_def Let_def push_segment_def elim!: calm_send)

lemma reset_and_rst_calm: "reset_and_rst env (s, out) = Inr (s', out') \<Longrightarrow> calm s s'"
  using tcp_reset_calm [of s] by (auto simp: reset_and_rst_def split: prod.splits if_splits dest: tcp_rst_calm intro: calm_trans)

subsection \<open>Received segments\<close>

lemma ack_loop_quiet: "quiet s (snd (ack_loop ackn i s))"
proof (induction ackn i s rule: ack_loop.induct)
  case (1 ackn i s)
  let ?q = "m_retransmission_queue s"
  let ?er = "\<lambda>s. s\<lparr>m_retransmission_queue := erase_at i (m_retransmission_queue s)\<rparr>"
  note IH = 1 [OF _ refl refl]
  have fw2: "quiet s (?er (raise_rx (set_state TCP_FIN_WAIT_2 s)))" if "tcp_state s = TCP_FIN_WAIT_1"
    using that by (intro quiet_edge) (simp_all add: tcp_small tcp_edge.intros)
  have est: "quiet s (?er (raise_rx (set_state TCP_ESTABLISHED s)))" if "tcp_state s = TCP_SYN_RECEIVED"
    using that by (intro quiet_edge) (simp_all add: tcp_small tcp_edge.intros)
  have cl: "quiet s (set_state TCP_CLOSED (tcp__close s))" by (intro quiet_closed) (simp_all add: tcp_small)
  have er: "quiet s (?er s)" by (intro quiet_same) simp_all
  show ?case
    by (subst ack_loop.simps)
      (use IH fw2 est cl er in \<open>auto simp: Let_def intro: quiet_trans\<close>)
qed

lemma tcp_rx_rst_quiet: "quiet s (tcp_rx_rst flags seqn ackn expected s)"
  using calm_quiet [OF tcp_reset_calm [of s]] by (simp add: tcp_rx_rst_def)

lemma tcp_rx_syn_quiet:
  assumes "tcp_rx_syn env seqn (s, out) = Inr (s', out')"
  shows "quiet s s'"
proof (cases "tcp_state s = TCP_SYN_SENT")
  case True
  let ?s = "upd_block (\<lambda>b. b\<lparr>rcv_nxt := seqn + 1\<rparr>) s"
  obtain s1 where s1: "tcp_ack_manual env (seqn + 1) (?s, out) = Inr (s1, out')" "s' = raise_rx (set_state TCP_SYN_RECEIVED s1)"
    using assms True by (auto simp: tcp_rx_syn_def Let_def res_bind_Inr_iff)
  have "m_rx_buffer s' = m_rx_buffer s" using tcp_ack_manual_calm [OF s1(1)] s1(2) by (simp add: calm_def tcp_small)
  then show ?thesis using True s1(2) by (intro quiet_edge) (simp_all add: tcp_small tcp_edge.intros)
qed (use assms in \<open>simp add: tcp_rx_syn_def\<close>)

lemma tcp_rx_ack_quiet:
  assumes "tcp_rx_ack env seqn ackn window (s, out) = Inr (stop, s', out')"
  shows "quiet s s'"
proof -
  define s1 where "s1 = (if is_after_or_equal ackn (snd_una (m_block s)) SEQ_EXTENT
              then upd_block (\<lambda>b. b\<lparr>snd_una := ackn, snd_wnd := window\<rparr>) s else s)"
  have same: "quiet s s1" by (rule quiet_same) (simp_all add: s1_def)
  show ?thesis
  proof (cases "tcp_state s1 \<in> {TCP_SYN_SENT, TCP_SYN_RECEIVED} \<and> ackn \<noteq> snd_nxt (m_block s1)")
    case True
    let ?s = "upd_block (\<lambda>b. b\<lparr>snd_nxt := ackn, rcv_nxt := seqn\<rparr>) s1"
    have "reset_and_rst env (?s, out) = Inr (s', out')"
      using assms True unfolding tcp_rx_ack_def s1_def [symmetric] Let_def
      by (auto simp: s1_def [symmetric] res_bind_Inr_iff)
    moreover have "quiet s ?s" using same by (simp add: quiet_def)
    ultimately show ?thesis using quiet_trans calm_quiet [OF reset_and_rst_calm] by blast
  next
    case False
    then have "s' = snd (ack_loop ackn 0 s1)"
      using assms unfolding tcp_rx_ack_def s1_def [symmetric] Let_def
      by (auto simp: s1_def [symmetric] split: prod.splits)
    then show ?thesis using quiet_trans [OF same ack_loop_quiet] by simp
  qed
qed

lemma tcp_rx_fin_quiet: "quiet s (tcp_rx_fin s)"
proof -
  consider "tcp_state s = TCP_FIN_WAIT_1" | "tcp_state s = TCP_ESTABLISHED"
    | "tcp_state s \<noteq> TCP_FIN_WAIT_1" "tcp_state s \<noteq> TCP_ESTABLISHED" by blast
  then show ?thesis
  proof cases
    case 3
    then show ?thesis by (intro quiet_same) (simp_all add: tcp_rx_fin_def tcp_small)
  qed (intro quiet_edge; simp add: tcp_rx_fin_def tcp_small tcp_edge.intros)+
qed

text \<open>
  The data of a segment is taken as a whole or not at all, and only if it starts at the next
  byte expected.
\<close>

lemma tcp_rx_data_moves:
  assumes "tcp_rx_data env seqn expected d (s, out) = Inr (stop, s', out')" "circ_inv (m_rx_buffer s)"
  shows "tcp_edge\<^sup>*\<^sup>* (tcp_state s) (tcp_state s') \<and> circ_inv (m_rx_buffer s')
    \<and> contents (m_rx_buffer s') \<in> {contents (m_rx_buffer s)} \<union> (if seqn = expected then {contents (m_rx_buffer s) @ d} else {})"
proof -
  have q: "quiet s s' \<Longrightarrow> ?thesis" using assms(2) by (simp add: quiet_def)
  consider (none) "d = []" | (late) "d \<noteq> []" "seqn \<noteq> expected"
    | (over) "d \<noteq> []" "seqn = expected" "int (length d) > writeAvailable (m_rx_buffer s)"
    | (fits) "d \<noteq> []" "seqn = expected" "\<not> int (length d) > writeAvailable (m_rx_buffer s)" by blast
  then show ?thesis
  proof cases
    case fits
    obtain cb where cb: "cb_put (self env) (intr env) d (m_rx_buffer s) = Inr (cb, min (length d)
        (cb_capacity (m_rx_buffer s) - length (contents (m_rx_buffer s))))" "circ_inv cb"
        "contents cb = contents (m_rx_buffer s) @ take (min (length d)
        (cb_capacity (m_rx_buffer s) - length (contents (m_rx_buffer s)))) d"
      using cb_put_law [OF assms(2)] by blast
    moreover have "length d \<le> cb_capacity (m_rx_buffer s) - length (contents (m_rx_buffer s))"
      using fits(3) assms(2) by (simp add: writeAvailable_contents cb_capacity_def)
    ultimately show ?thesis
      using assms fits by (auto simp: tcp_rx_data_def tcp_small split: if_splits)
  next
    case over
    then have "reset_and_rst env (s, out) = Inr (s', out')" using assms(1) by (auto simp: tcp_rx_data_def res_bind_Inr_iff)
    then show ?thesis using q calm_quiet [OF reset_and_rst_calm] by blast
  next
    case late
    then have "s' = s \<or> tcp_ack_manual env (seqn + of_nat (length d)) (s, out) = Inr (s', out')"
      using assms(1) by (auto simp: tcp_rx_data_def res_bind_Inr_iff split: if_splits)
    then show ?thesis using q calm_quiet [OF tcp_ack_manual_calm] quiet_refl by blast
  qed (use assms in \<open>simp add: tcp_rx_data_def\<close>)
qed


lemma tcp_received_moves:
  assumes "tcp_received env src sp buffer (s, out) = Inr (s', out')" "circ_inv (m_rx_buffer s)"
  shows "tcp_edge\<^sup>*\<^sup>* (tcp_state s) (tcp_state s') \<and> circ_inv (m_rx_buffer s')
    \<and> (contents (m_rx_buffer s') = contents (m_rx_buffer s)
      \<or> (\<exists>h. tcp_header_of buffer = Inr h \<and> th_seq_number h = rcv_nxt (m_block s)
           \<and> contents (m_rx_buffer s') = contents (m_rx_buffer s) @ drop (header_len_of h) buffer))"
proof (cases "\<not> addr_eq src (t_destination_address s) \<and> sp \<noteq> t_destination_port s \<or> tcp_state s = TCP_CLOSED")
  case True
  then have "s' = s" using assms(1) unfolding tcp_received_def by (auto split: if_splits)
  then show ?thesis using assms(2) by simp
next
  case False
  then have c: "\<not> (\<not> addr_eq src (t_destination_address s) \<and> sp \<noteq> t_destination_port s)" "tcp_state s \<noteq> TCP_CLOSED" by blast+
  note run = assms(1) [unfolded tcp_received_def case_prod_conv if_not_P [OF c(1)] if_not_P [OF c(2)]]
  obtain h mss where h: "tcp_header_of buffer = Inr h" and mss: "read_options buffer (header_len_of h) 20 (snd_mss (m_block s)) = Inr mss"
    using run by (auto simp: res_bind_Inr_iff Let_def)
  define s0 where "s0 = upd_block (\<lambda>b. b\<lparr>snd_mss := mss\<rparr>) s"
  let ?flags = "goddamned_bitvalues h" and ?e = "rcv_nxt (m_block s)"
  have q: "quiet s s' \<Longrightarrow> ?thesis" using assms(2) by (simp add: quiet_def)
  have q0: "quiet s s0" by (rule quiet_same) (simp_all add: s0_def)
  show ?thesis
  proof (cases "has_flag ?flags TCP_RST")
    case True
    have "s' = tcp_rx_rst ?flags (th_seq_number h) (th_ack_number h) ?e s0"
      using run True by (simp add: h mss Let_def s0_def)
    then show ?thesis using q quiet_trans [OF q0 tcp_rx_rst_quiet] by simp
  next
    case norst: False
    obtain s1 out1 s2 out2 stop where
      s1: "(if has_flag ?flags TCP_SYN then tcp_rx_syn env (th_seq_number h) (s0, out) else Inr (s0, out)) = Inr (s1, out1)"
      and s2: "(if has_flag ?flags TCP_ACK then tcp_rx_ack env (th_seq_number h) (th_ack_number h) (th_window h) (s1, out1)
          else Inr (False, s1, out1)) = Inr (stop, s2, out2)"
      and rest: "(if stop then Inr (s2, out2)
             else res_bind (tcp_rx_data env (th_seq_number h) ?e (drop (header_len_of h) buffer) (s2, out2)) (\<lambda>(stop, s, out).
               if stop then Inr (s, out)
               else Inr (if has_flag ?flags TCP_FIN \<and> th_seq_number h = ?e then tcp_rx_fin s else s, out))) = Inr (s', out')"
      using run norst unfolding s0_def by (auto simp: h mss Let_def res_bind_Inr_iff)
    have q1: "quiet s s1" using s1 q0 tcp_rx_syn_quiet quiet_trans by (auto split: if_splits)
    have q2: "quiet s s2" using s2 q1 tcp_rx_ack_quiet quiet_trans by (auto split: if_splits)
    show ?thesis
    proof (cases stop)
      case True
      then show ?thesis using rest q q2 by simp
    next
      case False
      then obtain s3 out3 stop3 where s3: "tcp_rx_data env (th_seq_number h) ?e (drop (header_len_of h) buffer) (s2, out2) = Inr (stop3, s3, out3)"
          "s' = s3 \<or> s' = tcp_rx_fin s3"
        using rest by (auto simp: res_bind_Inr_iff split: if_splits)
      have "circ_inv (m_rx_buffer s2)" using q2 assms(2) by (simp add: quiet_def)
      note d = tcp_rx_data_moves [OF s3(1) this]
      have "quiet s3 s'" using s3(2) tcp_rx_fin_quiet by auto
      then show ?thesis using d q2 h by (auto simp: quiet_def split: if_splits)
    qed
  qed
qed

subsection \<open>The timer and the calls\<close>

lemma package_segment_calm: "package_segment env s = Inr (seg, s') \<Longrightarrow> calm s s'"
  by (auto simp: package_segment_def tcp_small res_bind_Inr_iff intro!: calm_same)

lemma package_loop_calm: "package_loop fuel env (s, out) = Inr (Some (s', out')) \<Longrightarrow> calm s s'"
proof (induction fuel arbitrary: s out)
  case (Suc fuel)
  show ?case
  proof (cases "readAvailable (m_tx_buffer s) = 0")
    case False
    then obtain seg s1 s2 out2 where s: "package_segment env s = Inr (seg, s1)" "send_to_peer env seg (s1, out) = Inr (s2, out2)"
        "package_loop fuel env (upd_block (\<lambda>b. b\<lparr>sending_comp_ack := False\<rparr>) s2, out2) = Inr (Some (s', out'))"
      using Suc.prems by (auto simp: res_bind_Inr_iff)
    let ?s3 = "upd_block (\<lambda>b. b\<lparr>sending_comp_ack := False\<rparr>) s2"
    have "calm s2 ?s3" by (rule calm_same) simp_all
    then show ?thesis
      using package_segment_calm [OF s(1)] send_to_peer_calm [OF s(2)] Suc.IH [OF s(3)] calm_trans by blast
  qed (use Suc.prems in simp)
qed simp

lemma package_calm:
  assumes "package env (s, out) = Inr (Some (s', out'))"
  shows "calm s s'"
proof -
  obtain r where r: "package_loop 4097 env (s, out) = Inr r" using assms by (auto simp: package_def res_bind_Inr_iff)
  then obtain s1 out1 where s1: "package_loop 4097 env (s, out) = Inr (Some (s1, out1))"
    using assms by (cases r) (auto simp: package_def)
  then have "s' = s1 \<or> (\<exists>s2 out2. tcp_ack_manual env (rcv_nxt (m_block s1)) (s1, out1) = Inr (s2, out2)
        \<and> s' = upd_block (\<lambda>b. b\<lparr>sending_comp_ack := False\<rparr>) s2)"
    using assms by (auto simp: package_def res_bind_Inr_iff split: if_splits)
  then have "calm s1 s'" using calm_trans [OF tcp_ack_manual_calm calm_same] by auto
  then show ?thesis using package_loop_calm [OF s1] calm_trans by blast
qed

lemma retransmit_loop_calm: "retransmit_loop env count i (s, out) = Inr (fin, s', out') \<Longrightarrow> calm s s'"
proof (induction env count i "(s, out)" arbitrary: s out rule: retransmit_loop.induct)
  case (1 env count i s out)
  consider (fin) "\<not> i < count" | (read) e where "i < count" "cell_get (m_retransmission_queue s) i = Inl e"
    | (go) seg where "i < count" "cell_get (m_retransmission_queue s) i = Inr seg"
    by (cases "cell_get (m_retransmission_queue s) i") auto
  then show ?case
  proof cases
    case fin
    then show ?thesis using 1(3) by (subst (asm) retransmit_loop.simps) simp
  next
    case read
    then show ?thesis using 1(3) by (subst (asm) retransmit_loop.simps) simp
  next
    case (go seg)
    let ?seg = "seg\<lparr>sg_retries := sg_retries seg + 1\<rparr>"
    let ?seg2 = "?seg\<lparr>retransmit_at := retransmit_at ?seg + TCP_RETRANSMIT_INTERVAL\<rparr>"
    let ?s2 = "s\<lparr>m_retransmission_queue := (m_retransmission_queue s)[i := ?seg2]\<rparr>"
    consider (early) "now env < retransmit_at seg" | (over) "\<not> now env < retransmit_at seg" "sg_retries ?seg > TCP_RETRIES"
      | (again) "\<not> now env < retransmit_at seg" "\<not> sg_retries ?seg > TCP_RETRIES" by blast
    then show ?thesis
    proof cases
      case early
      then show ?thesis using 1(1) [OF go early] 1(3) go by (subst (asm) (2) retransmit_loop.simps) simp
    next
      case over
      then have "reset_and_rst env (s, out) = Inr (s', out')"
        using 1(3) go by (subst (asm) retransmit_loop.simps) (auto simp: Let_def res_bind_Inr_iff)
      then show ?thesis by (rule reset_and_rst_calm)
    next
      case again
      then obtain s3 out3 where s3: "send_to_peer env ?seg2 (?s2, out) = Inr (s3, out3)"
          "retransmit_loop env count (i + 1) (s3, out3) = Inr (fin, s', out')"
        using 1(3) go by (subst (asm) retransmit_loop.simps) (auto simp: Let_def split: sum.splits)
      have "calm s3 s'" using 1(2) [OF go again(1) refl again(2) refl refl s3] .
      moreover have "calm s s3" using calm_send [OF s3(1)] by simp
      ultimately show ?thesis using calm_trans by blast
    qed
  qed
qed

lemma tcp_tick_calm:
  assumes "tcp_tick env (s, out) = Inr (Some (s', out'))"
  shows "calm s s'"
proof (cases "tcp_state s = TCP_CLOSED")
  case False
  then obtain s1 out1 s2 out2 fin where s: "package env (s, out) = Inr (Some (s1, out1))"
      "retransmit_loop env (length (m_retransmission_queue s1)) 0 (s1, out1) = Inr (fin, s2, out2)"
      "s' = (if fin then raise_tx s2 else s2)"
    using assms by (auto simp: tcp_tick_def retransmit_def res_bind_Inr_iff split: option.splits)
  have "calm s2 s'" using s(3) by (auto intro: calm_same simp: tcp_small)
  then show ?thesis using package_calm [OF s(1)] retransmit_loop_calm [OF s(2)] calm_trans by blast
qed (use assms in \<open>simp add: tcp_tick_def\<close>)


text \<open>Everything that can happen to one socket, in any order: the calls of its users (split where
  they wait), received segments and the timer.\<close>

inductive tcp_step :: "tcp_event \<Rightarrow> tcp_socket \<Rightarrow> tcp_socket \<Rightarrow> bool" where
  received: "tcp_received env src sp buffer (s, out) = Inr (s', out') \<Longrightarrow> circ_inv (m_rx_buffer s) \<Longrightarrow> tcp_step EvSegment s s'"
| listening: "tcp_listen_received env ptr src sp buffer (s, out) = Inr (spawned, s', out') \<Longrightarrow> tcp_step EvListener s s'"
| timer: "tcp_tick env (s, out) = Inr (Some (s', out')) \<Longrightarrow> tcp_step EvTimer s s'"
| connecting: "connect_begin env dst (s, out) = Inr (e, s', out') \<Longrightarrow> tcp_step EvConnect s s'"
| connected: "connect_end env (s, out) = Inr (e', s', out') \<Longrightarrow> tcp_step EvConnected s s'"
| binding: "tcp_bind a s = (e', s') \<Longrightarrow> tcp_step EvBind s s'"
| listen: "tcp_listen backlog s = (e', s') \<Longrightarrow> tcp_step EvListen s s'"
| accept: "accept_stretch s = Inr (a', s') \<Longrightarrow> tcp_step EvAccept s s'"
| send: "send_stretch env data s = Inr (rest, s') \<Longrightarrow> tcp_step EvSend s s'"
| receive: "tcp_receive_stretch env waitall len got (s, out) = Inr (x, got', s', out') \<Longrightarrow> tcp_step EvReceive s s'"
| shutting: "shutdown_begin rd wr s = (e', go, s') \<Longrightarrow> tcp_step EvShutdown s s'"
| shut: "shutdown_fin env (s, out) = Inr (s', out') \<Longrightarrow> tcp_step EvFin s s'"
| close: "close_begin env (s, out) = Inr (s', out') \<Longrightarrow> tcp_step EvClose s s'"

lemma connect_begin_moves:
  assumes "connect_begin env dst (s, out) = Inr (e, s', out')"
  shows "tcp_state s' \<in> tcp_moves EvConnect (tcp_state s)"
proof (cases "tcp_state s = TCP_CLOSED")
  case True
  define s1 where "s1 = set_state TCP_SYN_SENT (clearState (s\<lparr>m_async_id := m_async_id s + 1,
      t_destination_address := fst dst, t_destination_port := snd dst\<rparr>))"
  have run: "tcp_syn env (s1, out) = Inr (s', out')"
    using assms True by (auto simp: connect_begin_def Let_def s1_def res_bind_Inr_iff)
  have "tcp_state s1 = TCP_SYN_SENT" by (simp add: s1_def set_state_def)
  then show ?thesis using calm_state [OF tcp_syn_calm [OF run]] True by simp
qed (use assms in \<open>simp add: connect_begin_def\<close>)

lemma shutdown_fin_moves:
  assumes "shutdown_fin env (s, out) = Inr (s', out')"
  shows "tcp_state s' \<in> tcp_moves EvFin (tcp_state s)"
proof -
  define s1 where "s1 = (if tcp_state s = TCP_ESTABLISHED then set_state TCP_FIN_WAIT_1 s
              else if tcp_state s = TCP_CLOSE_WAIT then set_state TCP_LAST_ACK s else s)"
  have "tcp_fin False env (s1, out) = Inr (s', out')"
    using assms by (simp add: shutdown_fin_def Let_def s1_def)
  from calm_state [OF tcp_fin_calm [OF this]] show ?thesis by (auto simp: s1_def set_state_def split: if_splits)
qed

lemma reset_and_rst_closed: "reset_and_rst env (s, out) = Inr (s', out') \<Longrightarrow> tcp_state s' = TCP_CLOSED"
  by (auto simp: reset_and_rst_def tcp_small split: prod.splits if_splits dest!: tcp_rst_calm calm_state)

lemma connect_end_moves: "connect_end env (s, out) = Inr (e, s', out') \<Longrightarrow> tcp_state s' \<in> tcp_moves EvConnected (tcp_state s)"
  by (auto simp: connect_end_def res_bind_Inr_iff split: if_splits dest: reset_and_rst_closed)

text \<open>In \<open>TCP_CLOSE_WAIT\<close>, \<open>close\<close> takes the spinlock it already holds and never returns.\<close>

lemma close_wait_deadlock: "tcp_state s = TCP_CLOSE_WAIT \<Longrightarrow> close_begin env (s, out) = Inl Deadlock"
  by (simp add: close_begin_def tcp_fin_def Let_def)

lemma close_begin_moves:
  assumes "close_begin env (s, out) = Inr (s', out')"
  shows "tcp_state s' \<in> tcp_moves EvClose (tcp_state s)"
proof (cases "tcp_state s = TCP_CLOSE_WAIT")
  case True
  then show ?thesis using assms close_wait_deadlock by simp
qed (use assms in \<open>auto simp: close_begin_def split: if_splits dest: reset_and_rst_closed\<close>)

lemma listen_syn_calm: "listen_syn env src sp h es (s, out) = Inr (es', s', out') \<Longrightarrow> calm s s'"
  by (auto simp: listen_syn_def Let_def res_bind_Inr_iff split: option.splits dest: sendSegment_calm)

lemma tcp_listen_received_moves:
  assumes "tcp_listen_received env ptr src sp buffer (s, out) = Inr (spawned, s', out')"
  shows "tcp_state s' \<in> tcp_moves EvListener (tcp_state s)"
proof -
  obtain h where h: "tcp_header_of buffer = Inr h" using assms by (auto simp: tcp_listen_received_def res_bind_Inr_iff)
  note run = assms [unfolded tcp_listen_received_def case_prod_conv h res_bind_simps Let_def]
  show ?thesis
  proof (cases "has_flag (goddamned_bitvalues h) TCP_RST")
    case True
    then show ?thesis using run by simp
  next
    case False
    obtain es acc where q: "m_listen_queue s = Some es" "m_accept_queue s = Some acc"
      using run False by (auto split: option.splits)
    obtain es1 s1 out1 where s1: "(if has_flag (goddamned_bitvalues h) TCP_SYN then listen_syn env src sp h es (s, out)
        else Inr (es, s, out)) = Inr (es1, s1, out1)"
      and st: "tcp_state s' = tcp_state s1"
      using run False by (auto simp: q res_bind_Inr_iff raise_rx_def split: option.splits if_splits)
    have "calm s s1" using s1 listen_syn_calm by (auto split: if_splits)
    then show ?thesis unfolding st using calm_state by simp
  qed
qed

lemma receive_stretch_moves:
  assumes "tcp_receive_stretch env waitall len got (s, out) = Inr (x, got', s', out')"
  shows "tcp_state s' \<in> tcp_moves EvReceive (tcp_state s)"
proof -
  have pass: "tcp_state s2 = tcp_state s1" if "tcp_receive_pass env waitall n g (s1, out1) = Inr (x, g', s2, out2)" for n g s1 out1 g' s2 out2
    using that by (auto simp: tcp_receive_pass_def split: if_splits)
  consider "tcp_state s' = tcp_state s"
    | cb s1 out1 where "windowUpdate env (upd_block (\<lambda>b. b\<lparr>notify_of_window_size := False\<rparr>) (s\<lparr>m_rx_buffer := cb\<rparr>), out) = Inr (s1, out1)"
        "tcp_state s' = tcp_state s1"
    using assms by (auto simp: tcp_receive_stretch_def Let_def res_bind_Inr_iff split: if_splits dest!: pass)
  then show ?thesis
  proof cases
    case (2 cb s1 out1)
    then show ?thesis using calm_state [OF windowUpdate_calm [OF 2(1)]] by simp
  qed simp
qed

lemma tcp_step_moves: "tcp_step ev s s' \<Longrightarrow> tcp_state s' \<in> tcp_moves ev (tcp_state s)"
proof (induction rule: tcp_step.induct)
  case (received env src sp buffer s out s' out')
  then show ?case using tcp_received_moves segment_moves by simp
next
  case (listen backlog s e' s')
  then show ?case by (auto simp: tcp_listen_def set_state_def split: if_splits)
next
  case (accept s a' s')
  then show ?case by (auto simp: accept_stretch_def split: option.splits list.splits)
next
  case (send env data s rest s')
  then show ?case by (auto simp: send_stretch_def Let_def res_bind_Inr_iff split: if_splits)
next
  case (shutting rd wr s e' go s')
  then show ?case by (auto simp: shutdown_begin_def Let_def split: if_splits)
next
  case (timer env s out s' out')
  then show ?case using calm_state [OF tcp_tick_calm] by simp
next
  case (binding a s e' s')
  then show ?case by (auto simp: tcp_bind_def)
qed (auto simp del: tcp_moves.simps intro: tcp_listen_received_moves receive_stretch_moves connect_begin_moves shutdown_fin_moves
    connect_end_moves close_begin_moves)


subsection \<open>Properties\<close>

text \<open>
  C18. No segment, however malformed or forged, can damage the received stream: whatever bytes
  arrive in whatever state, if handling them returns at all, the receive buffer is still a valid ring and holds what it held
  before, followed by nothing or by exactly the payload of this segment, the latter only if
  the segment starts at the byte the socket expects next.
\<close>

theorem tcp_received_safe:
  assumes "tcp_received env src sp buffer (s, out) = Inr (s', out')" "circ_inv (m_rx_buffer s)"
  shows "circ_inv (m_rx_buffer s') \<and> (\<exists>d. contents (m_rx_buffer s') = contents (m_rx_buffer s) @ d
    \<and> (d = [] \<or> (\<exists>h. tcp_header_of buffer = Inr h \<and> th_seq_number h = rcv_nxt (m_block s)
           \<and> d = drop (header_len_of h) buffer)))"
  using tcp_received_moves [OF assms] by auto

text \<open>Witness of C18: a segment of two bytes that starts one byte too early.\<close>

definition early_segment :: "u8 list" where
  "early_segment = segment_bytes (IPv4 10 0 0 1) (IPv4 10 0 0 2) 80 49152 1000
     (new_segment\<lparr>sg_seq := 99, sg_flags := TCP_PSH, sg_header_len := 20, sg_data := [1, 2]\<rparr>)"

definition idle_socket :: tcp_socket where
  "idle_socket = new_tcp_socket\<lparr>t_source_port := 49152, t_destination_address := IPv4 10 0 0 1, t_destination_port := 80,
     m_block := new_tcp_block\<lparr>state := TCP_ESTABLISHED, rcv_nxt := 100\<rparr>\<rparr>"

theorem tcp_received_safe_witness:
  "\<exists>s'. tcp_received \<lparr>now = 0, devs = [], self = 1, intr = True, junk = []\<rparr> (IPv4 10 0 0 1) 80 early_segment (idle_socket, [])
       = Inr (s', []) \<and> contents (m_rx_buffer s') = []"
proof -
  let ?env = "\<lparr>now = 0, devs = [], self = 1, intr = True, junk = []\<rparr>"
  obtain h where h: "tcp_header_of early_segment = Inr h" "goddamned_bitvalues h = 0x5008" "th_seq_number h = 99"
    by (auto simp: early_segment_def segment_bytes_def Let_def segment_header_def new_segment_def TCP_PSH_def)
  have len: "header_len_of h = 20" by (simp add: header_len_of_def h(2))
  have data: "drop 20 early_segment = [1, 2]"
    by (simp add: early_segment_def segment_bytes_def Let_def tcp_header_bytes_def new_segment_def be_bytes16_def be_bytes32_def)
  have opt: "read_options early_segment 20 20 mss = Inr mss" for mss by (subst read_options.simps) simp
  have "\<exists>s'. tcp_received ?env (IPv4 10 0 0 1) 80 early_segment (idle_socket, []) = Inr (s', [])"
    by (simp add: tcp_received_def idle_socket_def h len opt data Let_def new_tcp_block_def has_flag_def TCP_RST_def
        TCP_SYN_def TCP_ACK_def TCP_FIN_def tcp_rx_data_def is_before_or_equal_def SEQ_EXTENT_def)
  then obtain s' where s': "tcp_received ?env (IPv4 10 0 0 1) 80 early_segment (idle_socket, []) = Inr (s', [])" by blast
  moreover have "circ_inv (m_rx_buffer idle_socket)" "contents (m_rx_buffer idle_socket) = []"
      "rcv_nxt (m_block idle_socket) = 100"
    by (simp_all add: idle_socket_def new_tcp_socket_def TCP_RX_BUFFER_SIZE_def)
  ultimately show ?thesis
    using tcp_received_safe [OF s'] h by (intro exI [of _ s']) auto
qed

text \<open>
  C19. The state machine of a connection. Every event that returns leaves the socket in one of the states \<open>tcp_moves\<close> lists for it: a connection is
  opened by \<open>connect\<close> and \<open>listen\<close> from \<open>TCP_CLOSED\<close> only; a segment moves it forward through the handshake, into \<open>TCP_CLOSE_WAIT\<close>
  or through the states of its own closing, or closes it, and never opens a closed one; shutting down
  moves \<open>TCP_ESTABLISHED\<close> to \<open>TCP_FIN_WAIT_1\<close> and \<open>TCP_CLOSE_WAIT\<close> to \<open>TCP_LAST_ACK\<close>; the timer and the other calls leave the state or
  close. Compared with RFC 793, the state \<open>TCP_TIME_WAIT\<close> is never entered, and a \<open>close\<close> in \<open>TCP_CLOSE_WAIT\<close> does not return.
\<close>

theorem tcp_states:
  "(tcp_step ev s s' \<longrightarrow> tcp_state s' \<in> tcp_moves ev (tcp_state s))
   \<and> ((\<lambda>s s'. \<exists>ev. tcp_step ev s s')\<^sup>*\<^sup>* new_tcp_socket s \<longrightarrow> tcp_state s \<noteq> TCP_TIME_WAIT)"
proof -
  have "TCP_TIME_WAIT \<notin> segment_moves st" if "st \<noteq> TCP_TIME_WAIT" for st using that by (cases st) simp_all
  then have "TCP_TIME_WAIT \<notin> tcp_moves ev st" if "st \<noteq> TCP_TIME_WAIT" for ev st using that by (cases ev) auto
  then have step: "tcp_step ev v w \<Longrightarrow> tcp_state v \<noteq> TCP_TIME_WAIT \<Longrightarrow> tcp_state w \<noteq> TCP_TIME_WAIT" for ev v w
    using tcp_step_moves by metis
  have "tcp_state s \<noteq> TCP_TIME_WAIT" if "(\<lambda>s s'. \<exists>ev. tcp_step ev s s')\<^sup>*\<^sup>* new_tcp_socket s"
    using that by induction (use step in \<open>auto simp: new_tcp_socket_def new_tcp_block_def\<close>)
  then show ?thesis using tcp_step_moves by blast
qed

text \<open>Witness of C19: a new socket that listens.\<close>

theorem tcp_states_witness:
  "tcp_step EvListen new_tcp_socket (snd (tcp_listen 5 new_tcp_socket))
   \<and> tcp_state (snd (tcp_listen 5 new_tcp_socket)) \<in> {TCP_LISTEN, TCP_CLOSED}
   \<and> tcp_state (snd (tcp_listen 5 new_tcp_socket)) \<noteq> TCP_TIME_WAIT"
proof -
  let ?l = "snd (tcp_listen 5 new_tcp_socket)"
  have l: "tcp_step EvListen new_tcp_socket ?l" by (rule tcp_step.listen [of 5 _ "fst (tcp_listen 5 new_tcp_socket)"]) simp
  have "tcp_state new_tcp_socket = TCP_CLOSED" by (simp add: new_tcp_socket_def new_tcp_block_def)
  moreover have "(\<lambda>s s'. \<exists>ev. tcp_step ev s s')\<^sup>*\<^sup>* new_tcp_socket ?l" using l by blast
  ultimately show ?thesis
    using tcp_states [of EvListen new_tcp_socket ?l] tcp_states [of _ ?l ?l] l by auto
qed

end
