(* ===== verification/Paging.thy ===== *)
theory Paging
  imports Phys
begin

unbundle bit_operations_syntax

text \<open>
  Page tables (\<open>arch/x86_64/mem/paging.cpp\<close>). A frame of physical memory is its 512 words, so
  physical memory maps the address of a frame and an index to a word. Tables are looked at
  through windows (\<open>pptr\<close>): a window shows the frame it is aimed at, every pointer the code
  gets from \<open>aim_pptr\<close> is used before its window is aimed anew, and so a pointer to a table is
  the physical address of the table here. Which windows are taken is part of the state. Frames
  come from the physical memory allocator of theory \<open>Phys\<close>. The broadcasts that flush caches of
  translations change none of this state.
\<close>

definition PPTR_AMOUNT :: nat where "PPTR_AMOUNT = 256"
definition MEM_PAGE_MASK :: u64 where "MEM_PAGE_MASK = NOT 0xFFF"

definition PAGE_PRESENT :: u64 where "PAGE_PRESENT = 0x01"
definition PAGE_WRITE :: u64 where "PAGE_WRITE = 0x02"
definition PAGE_USER :: u64 where "PAGE_USER = 0x04"
definition PAGE_NOPHYS :: u64 where "PAGE_NOPHYS = 0x200"
definition PAGE_EXEC :: u64 where "PAGE_EXEC = 0x1000"
definition PAGE_FIXED :: u64 where "PAGE_FIXED = 0x2000"
definition PAGE_ARBITRARY :: u64 where "PAGE_ARBITRARY = 0x4000"
definition ARBITRARY_MARK :: u64 where "ARBITRARY_MARK = 0x00AA000000000000"

type_synonym ram = "u64 \<Rightarrow> nat \<Rightarrow> u64"

record vmem =
  ram :: ram
  vm_phys :: phys
  pptr_taken :: "bool list"

record pagemap =
  vstart :: u64
  vend :: u64
  pageRoot :: u64
  gflags :: u32

definition set_entry :: "u64 \<Rightarrow> nat \<Rightarrow> u64 \<Rightarrow> vmem \<Rightarrow> vmem" where
  "set_entry t i v st = st\<lparr>ram := (ram st)(t := (ram st t)(i := v))\<rparr>"

definition fill_frame :: "u64 \<Rightarrow> u64 \<Rightarrow> vmem \<Rightarrow> vmem" where
  "fill_frame t v st = st\<lparr>ram := (ram st)(t := (\<lambda>_. v))\<rparr>"

definition frame_alloc :: "int \<Rightarrow> vmem \<Rightarrow> (u64 \<times> vmem) res" where
  "frame_alloc amount st = res_bind (phys_alloc amount (vm_phys st)) (\<lambda>(f, ph). Inr (f, st\<lparr>vm_phys := ph\<rparr>))"

subsection \<open>Windows\<close>

text \<open>\<open>alloc_pptr\<close> panics after a thousand scans that found no free window; no other
  thread frees one in between here.\<close>

fun first_untaken :: "bool list \<Rightarrow> nat option" where
  "first_untaken [] = None"
| "first_untaken (b # bs) = (if b then map_option Suc (first_untaken bs) else Some 0)"

definition alloc_pptr :: "vmem \<Rightarrow> (nat \<times> vmem) res" where
  "alloc_pptr st = (case first_untaken (pptr_taken st) of
     None \<Rightarrow> Inl KPanic
   | Some i \<Rightarrow> Inr (i, st\<lparr>pptr_taken := (pptr_taken st)[i := True]\<rparr>))"

definition free_pptr :: "nat \<Rightarrow> vmem \<Rightarrow> vmem" where
  "free_pptr i st = st\<lparr>pptr_taken := (pptr_taken st)[i := False]\<rparr>"

definition aim_pptr :: "u64 \<Rightarrow> u64" where
  "aim_pptr at = at AND MEM_PAGE_MASK"

text \<open>A body run with a window of its own.\<close>

definition with_pptr :: "vmem \<Rightarrow> (vmem \<Rightarrow> ('a \<times> vmem) res) \<Rightarrow> ('a \<times> vmem) res" where
  "with_pptr st body = res_bind (alloc_pptr st) (\<lambda>(pptr, st).
     res_bind (body st) (\<lambda>(r, st). Inr (r, free_pptr pptr st)))"

subsection \<open>Walking the tables\<close>

definition table_index :: "u64 \<Rightarrow> nat \<Rightarrow> nat" where
  "table_index va shift = unat (drop_bit shift va AND 0x1FF)"

text \<open>The table of an address, if there is one, and the address moved on by \<open>skip_by\<close> if not.\<close>

definition find_table :: "u64 \<Rightarrow> u64 \<Rightarrow> ram \<Rightarrow> u64 \<Rightarrow> u64 option \<times> u64" where
  "find_table root va m skip_by =
     (let pml4 = aim_pptr root in
      if m pml4 (table_index va 39) = 0 then (None, skip_by + 0x8000000000)
      else let pdp = aim_pptr (m pml4 (table_index va 39) AND NOT 0xFFF) in
      if m pdp (table_index va 30) = 0 then (None, skip_by + 0x40000000)
      else let pd = aim_pptr (m pdp (table_index va 30) AND NOT 0xFFF) in
      if m pd (table_index va 21) = 0 then (None, skip_by + 0x200000)
      else (Some (aim_pptr (m pd (table_index va 21) AND NOT 0xFFF)), skip_by))"

definition findTable :: "pagemap \<Rightarrow> u64 \<Rightarrow> ram \<Rightarrow> u64 option" where
  "findTable p va m = fst (find_table (pageRoot p) va m 0)"

fun ensure_loop :: "nat \<Rightarrow> nat \<Rightarrow> u64 \<Rightarrow> u64 \<Rightarrow> vmem \<Rightarrow> (u64 \<times> vmem) res" where
  "ensure_loop 0 shift va ptable st = Inr (ptable, st)"
| "ensure_loop (Suc n) shift va ptable st =
     (let index = table_index va shift in
      res_bind (if ram st ptable index AND PAGE_PRESENT = 0
                then res_bind (frame_alloc 4096 st) (\<lambda>(phys, st). Inr (True, set_entry ptable index phys st))
                else Inr (False, st)) (\<lambda>(fresh, st).
        let st = set_entry ptable index (ram st ptable index OR (PAGE_USER OR PAGE_WRITE OR PAGE_PRESENT)) st;
            next_ptable = aim_pptr (ram st ptable index AND MEM_PAGE_MASK);
            st = (if fresh then fill_frame next_ptable 0 st else st)
        in ensure_loop n (shift - 9) va next_ptable st))"

definition findTableEnsure :: "pagemap \<Rightarrow> u64 \<Rightarrow> vmem \<Rightarrow> (u64 \<times> vmem) res" where
  "findTableEnsure p va st = ensure_loop 3 39 va (aim_pptr (pageRoot p)) st"

definition assign :: "pagemap \<Rightarrow> u64 \<Rightarrow> u64 \<Rightarrow> u16 \<Rightarrow> vmem \<Rightarrow> vmem res" where
  "assign p virt phys flags st =
     (let va = virt AND MEM_PAGE_MASK; paddr = phys AND MEM_PAGE_MASK in
      res_bind (findTableEnsure p va st) (\<lambda>(ptable, st).
        Inr (set_entry ptable (table_index va 12) (paddr OR ucast flags) st)))"

definition unassign :: "pagemap \<Rightarrow> u64 \<Rightarrow> vmem \<Rightarrow> (u64 \<times> vmem) res" where
  "unassign p virt st =
     res_bind (res_assert (virt \<ge> vstart p)) (\<lambda>_. res_bind (res_assert (virt \<le> vend p)) (\<lambda>_.
       let va = virt AND MEM_PAGE_MASK in
       res_bind (findTableEnsure p va st) (\<lambda>(ptable, st).
         let e = ram st ptable (table_index va 12); st = set_entry ptable (table_index va 12) 0 st in
         Inr (if e AND PAGE_NOPHYS \<noteq> 0 then 0 else e AND MEM_PAGE_MASK, st))))"

definition rawof_internal :: "pagemap \<Rightarrow> u64 \<Rightarrow> ram \<Rightarrow> u64" where
  "rawof_internal p va m = (case findTable p (va AND NOT 0xFFF) m of
     None \<Rightarrow> 0 | Some t \<Rightarrow> m t (table_index va 12))"

definition paddrof_internal :: "pagemap \<Rightarrow> u64 \<Rightarrow> ram \<Rightarrow> u64" where
  "paddrof_internal p va m = (case findTable p (va AND NOT 0xFFF) m of
     None \<Rightarrow> 0
   | Some t \<Rightarrow> if m t (table_index va 12) AND MEM_PAGE_MASK = 0 then 0
       else (m t (table_index va 12) AND MEM_PAGE_MASK) + (va AND 0xFFF))"

definition rawof :: "pagemap \<Rightarrow> u64 \<Rightarrow> vmem \<Rightarrow> (u64 \<times> vmem) res" where
  "rawof p va st = with_pptr st (\<lambda>st. Inr (rawof_internal p va (ram st), st))"

definition paddrof :: "pagemap \<Rightarrow> u64 \<Rightarrow> vmem \<Rightarrow> (u64 \<times> vmem) res" where
  "paddrof p va st = with_pptr st (\<lambda>st. Inr (paddrof_internal p va (ram st), st))"

subsection \<open>Looking for free pages\<close>

text \<open>
  The loop of \<open>findContiguous\<close>. At the end of the address space \<open>vaddr\<close> wraps, and the loop may run forever, so
  not returning is \<open>None\<close>; the null pointer is 0.
\<close>

partial_function (option) contiguous_loop ::
  "pagemap \<Rightarrow> ram \<Rightarrow> u64 \<Rightarrow> u64 \<Rightarrow> nat \<Rightarrow> u64 \<Rightarrow> u64 \<Rightarrow> u64 \<Rightarrow> u64 \<Rightarrow> u64 option" where
  "contiguous_loop p m amount m_vend index tb vaddr combo start =
     (if vaddr < m_vend then
        if index \<ge> 512 \<and> findTable p vaddr m = None then
          (if combo + 512 \<ge> amount then Some start
           else contiguous_loop p m amount m_vend 512 tb (vaddr + 4096 * 512) (combo + 512) start)
        else
          let (index, tb) = (if index \<ge> 512 then (0, the (findTable p vaddr m)) else (index, tb)) in
          if m tb index \<noteq> 0 then
            contiguous_loop p m amount m_vend (index + 1) tb (vaddr + 4096) 0 (vaddr + 4096)
          else if combo + 1 \<ge> amount then Some start
          else contiguous_loop p m amount m_vend (index + 1) tb (vaddr + 4096) (combo + 1) start
      else Some 0)"

definition search_start :: "pagemap \<Rightarrow> bool \<Rightarrow> u64" where
  "search_start p executable =
     (if executable then
        if vstart p = 0xFFFF800000000000 then 0xFFFFFFFF80000000
        else if vend p = 0x00007FFFFFFFFFFF then 0x00007FFF80000000 else vstart p
      else vstart p)"

definition findContiguous :: "pagemap \<Rightarrow> u64 \<Rightarrow> bool \<Rightarrow> vmem \<Rightarrow> (u64 \<times> vmem) res option" where
  "findContiguous p amount executable st =
     (if amount = 0 then Some (Inr (0, st))
      else
        let m_vstart = search_start p executable in
        case (case findTable p m_vstart (ram st) of
                Some t \<Rightarrow> Inr (t, st) | None \<Rightarrow> findTableEnsure p m_vstart st) of
          Inl e \<Rightarrow> Some (Inl e)
        | Inr (tb, st) \<Rightarrow> map_option (\<lambda>a. Inr (a, st))
            (contiguous_loop p (ram st) amount (vend p) (table_index m_vstart 12) tb m_vstart 0 m_vstart))"


subsection \<open>Mapping and freeing\<close>

text \<open>A call that may not return and may fail.\<close>

definition run_bind :: "'a res option \<Rightarrow> ('a \<Rightarrow> 'b res option) \<Rightarrow> 'b res option" where
  "run_bind m f = (case m of None \<Rightarrow> None | Some (Inl e) \<Rightarrow> Some (Inl e) | Some (Inr x) \<Rightarrow> f x)"

text \<open>The address new pages go to: the source, or the start of enough free pages.\<close>

definition place :: "pagemap \<Rightarrow> u64 \<Rightarrow> u64 \<Rightarrow> bool \<Rightarrow> u64 \<Rightarrow> vmem \<Rightarrow> (u64 \<times> vmem) res option" where
  "place p flags source executable amount st =
     (if flags AND PAGE_FIXED \<noteq> 0 then Some (Inr (source, st)) else findContiguous p amount executable st)"

fun alloc_loop :: "nat \<Rightarrow> pagemap \<Rightarrow> u64 \<Rightarrow> u16 \<Rightarrow> vmem \<Rightarrow> vmem res" where
  "alloc_loop 0 p vaddr flags st = Inr st"
| "alloc_loop (Suc n) p vaddr flags st = res_bind (frame_alloc 4096 st) (\<lambda>(phys, st).
     res_bind (assign p vaddr phys flags (fill_frame (aim_pptr phys) 0 st)) (\<lambda>st.
       alloc_loop n p (vaddr + 4096) flags st))"

definition pm_alloc :: "pagemap \<Rightarrow> u64 \<Rightarrow> u32 \<Rightarrow> u64 \<Rightarrow> vmem \<Rightarrow> (u64 \<times> vmem) res option" where
  "pm_alloc p bytes flags source st =
     (if bytes = 0 then Some (Inr (0, st))
      else case alloc_pptr st of Inl e \<Rightarrow> Some (Inl e) | Inr (pptr, st) \<Rightarrow>
        let amount = ceiltopg64 bytes in
        run_bind (place p (ucast flags) source (ucast flags AND PAGE_EXEC \<noteq> 0) amount st) (\<lambda>(vaddr, st).
          if vaddr = 0 then Some (Inl KPanic)
          else
            let flags = (flags OR ucast PAGE_PRESENT OR gflags p) AND 0xFFF in
            Some (res_bind (alloc_loop (unat amount) p vaddr (ucast flags) st) (\<lambda>st.
              Inr (vaddr, free_pptr pptr st)))))"

text \<open>The loop of \<open>allocContinuous\<close> clears the frames it maps, the loop of \<open>map\<close> does not.\<close>

fun map_loop :: "bool \<Rightarrow> nat \<Rightarrow> pagemap \<Rightarrow> u64 \<Rightarrow> u64 \<Rightarrow> u16 \<Rightarrow> vmem \<Rightarrow> vmem res" where
  "map_loop clear 0 p vaddr paddr flags st = Inr st"
| "map_loop clear (Suc n) p vaddr paddr flags st =
     res_bind (assign p vaddr paddr flags (if clear then fill_frame (aim_pptr paddr) 0 st else st)) (\<lambda>st.
       map_loop clear n p (vaddr + 4096) (paddr + 4096) flags st)"

definition allocContinuous :: "pagemap \<Rightarrow> u64 \<Rightarrow> u32 \<Rightarrow> u64 \<Rightarrow> vmem \<Rightarrow> (u64 \<times> vmem) res option" where
  "allocContinuous p bytes flags source st =
     (if bytes = 0 then Some (Inr (0, st))
      else case alloc_pptr st of Inl e \<Rightarrow> Some (Inl e) | Inr (pptr, st) \<Rightarrow>
        let amount = ceiltopg64 bytes in
        run_bind (place p (ucast flags) source (ucast flags AND PAGE_EXEC \<noteq> 0) amount st) (\<lambda>(vaddr, st).
          let flags = (flags OR ucast PAGE_PRESENT OR gflags p) AND 0xFFF in
          Some (res_bind (frame_alloc (sint (ucast bytes :: u32)) st) (\<lambda>(paddr, st).
            res_bind (map_loop True (unat amount) p vaddr paddr (ucast flags) st) (\<lambda>st.
              Inr (vaddr, free_pptr pptr st))))))"

fun mark_arbitrary :: "nat \<Rightarrow> pagemap \<Rightarrow> u64 \<Rightarrow> u16 \<Rightarrow> vmem \<Rightarrow> vmem res" where
  "mark_arbitrary 0 p vaddr flags st = Inr st"
| "mark_arbitrary (Suc n) p vaddr flags st =
     res_bind (assign p vaddr ARBITRARY_MARK flags st) (\<lambda>st. mark_arbitrary n p (vaddr + 4096) flags st)"

definition pm_map :: "pagemap \<Rightarrow> u64 \<Rightarrow> u64 \<Rightarrow> u16 \<Rightarrow> u64 \<Rightarrow> vmem \<Rightarrow> (u64 \<times> vmem) res option" where
  "pm_map p bytes paddr flags source st =
     (let flags = flags OR ucast PAGE_NOPHYS OR ucast PAGE_PRESENT in
      case alloc_pptr st of Inl e \<Rightarrow> Some (Inl e) | Inr (pptr, st) \<Rightarrow>
        let amount = ceiltopg64 bytes in
        run_bind (place p (ucast flags) source False amount st) (\<lambda>(start, st).
          let offset = paddr AND 0xFFF;
              amount = (if offset > 0 then amount + 1 else amount);
              arbitrary = (ucast flags AND PAGE_ARBITRARY \<noteq> 0);
              flags = (if arbitrary then flags AND NOT (ucast PAGE_PRESENT) else flags);
              flags = (flags OR ucast (gflags p)) AND 0x0FFF
          in Some (res_bind (if arbitrary then mark_arbitrary (unat amount) p start flags st
                             else map_loop False (unat amount) p start (paddr - offset) flags st) (\<lambda>st.
               Inr (start + offset, free_pptr pptr st)))))"

text \<open>
  \<open>free\<close>: the frames it gives back are collected, and returned after every 256 of them and at
  the end.
\<close>

fun free_frames :: "int \<Rightarrow> u64 list \<Rightarrow> vmem \<Rightarrow> vmem res" where
  "free_frames bytes [] st = Inr st"
| "free_frames bytes (f # fs) st =
     res_bind (phys_free f bytes (vm_phys st)) (\<lambda>ph. free_frames bytes fs (st\<lparr>vm_phys := ph\<rparr>))"

definition poison :: "pagemap \<Rightarrow> u64 \<Rightarrow> vmem \<Rightarrow> vmem" where
  "poison p vaddr st =
     (let raw = rawof_internal p vaddr (ram st) in
      if raw \<noteq> 0 \<and> raw AND MEM_PAGE_MASK \<noteq> ARBITRARY_MARK \<and> raw AND PAGE_NOPHYS = 0
      then fill_frame (aim_pptr (raw AND MEM_PAGE_MASK)) 0x5A st else st)"

fun unmap_loop :: "nat \<Rightarrow> pagemap \<Rightarrow> u64 \<Rightarrow> u64 list \<Rightarrow> vmem \<Rightarrow> (u64 list \<times> vmem) res" where
  "unmap_loop 0 p vaddr free_buff st = Inr (free_buff, st)"
| "unmap_loop (Suc n) p vaddr free_buff st =
     res_bind (unassign p vaddr (poison p vaddr st)) (\<lambda>(addr, st).
       if addr = 0 then unmap_loop n p (vaddr + 4096) free_buff st
       else if length free_buff + 1 = 256
         then res_bind (free_frames 4096 (free_buff @ [addr]) st) (\<lambda>st. unmap_loop n p (vaddr + 4096) [] st)
         else unmap_loop n p (vaddr + 4096) (free_buff @ [addr]) st)"

definition pm_free :: "pagemap \<Rightarrow> u64 \<Rightarrow> u64 \<Rightarrow> vmem \<Rightarrow> (unit \<times> vmem) res" where
  "pm_free p addr bytes st = with_pptr st (\<lambda>st.
     res_bind (unmap_loop (unat (ceiltopg64 bytes)) p addr [] st) (\<lambda>(free_buff, st).
       res_bind (free_frames 4096 free_buff st) (\<lambda>st. Inr ((), st))))"

subsection \<open>Creating and destroying page maps\<close>

definition share_kernel_half :: "u64 \<Rightarrow> u64 \<Rightarrow> vmem \<Rightarrow> vmem" where
  "share_kernel_half a b st =
     st\<lparr>ram := (ram st)(a := (\<lambda>i. if i < 256 then 0 else if i < 512 then ram st b i else ram st a i))\<rparr>"

definition newPagemap :: "pagemap \<Rightarrow> u64 \<Rightarrow> u64 \<Rightarrow> u32 \<Rightarrow> vmem \<Rightarrow> (pagemap \<times> vmem) res" where
  "newPagemap kpm start fin flags0 st = with_pptr st (\<lambda>st. with_pptr st (\<lambda>st.
     res_bind (frame_alloc 1 st) (\<lambda>(root, st).
       Inr (\<lparr>vstart = start, vend = fin, pageRoot = root, gflags = flags0\<rparr>,
            share_kernel_half (aim_pptr root) (aim_pptr (pageRoot kpm)) st))))"

definition pagemap_of_root :: "u64 \<Rightarrow> pagemap" where
  "pagemap_of_root root = \<lparr>vstart = 0, vend = 0x00007FFFFFFFFFFF, pageRoot = root, gflags = 0\<rparr>"

text \<open>
  The frames of one page table that \<open>~Pagemap\<close> frees, then of a directory, and so on up. The tables
  are read before any of them changes: freeing a frame does not write to it. An index of the root
  table past its last entry would leave the window.
\<close>

definition owned_pages :: "ram \<Rightarrow> u64 \<Rightarrow> u64 list" where
  "owned_pages m pt = map (\<lambda>i. m pt i AND MEM_PAGE_MASK)
     (filter (\<lambda>i. m pt i \<noteq> 0 \<and> m pt i \<noteq> ARBITRARY_MARK \<and> m pt i AND PAGE_NOPHYS = 0) [0..<512])"

definition owned_below :: "(ram \<Rightarrow> u64 \<Rightarrow> u64 list) \<Rightarrow> nat list \<Rightarrow> ram \<Rightarrow> u64 \<Rightarrow> u64 list" where
  "owned_below below indices m t =
     concat (map (\<lambda>i. below m (aim_pptr (m t i)) @ [m t i AND MEM_PAGE_MASK]) (filter (\<lambda>i. m t i \<noteq> 0) indices))"

definition destroyed_frames :: "pagemap \<Rightarrow> ram \<Rightarrow> u64 list" where
  "destroyed_frames p m =
     owned_below (owned_below (owned_below owned_pages [0..<512]) [0..<512])
       [unat (vstart p div 0x1000000000000)..<unat (vend p div 0x1000000000000 + 1)] m (aim_pptr (pageRoot p))
     @ [pageRoot p]"

definition destroyPagemap :: "pagemap \<Rightarrow> vmem \<Rightarrow> (unit \<times> vmem) res" where
  "destroyPagemap p st = with_pptr st (\<lambda>st. with_pptr st (\<lambda>st. with_pptr st (\<lambda>st. with_pptr st (\<lambda>st.
     if 512 \<le> unat (vend p div 0x1000000000000) then Inl OutOfBounds
     else res_bind (free_frames 1 (destroyed_frames p (ram st)) st) (\<lambda>st. Inr ((), st))))))"

fun first_levels_loop :: "u64 \<Rightarrow> nat list \<Rightarrow> vmem \<Rightarrow> vmem res" where
  "first_levels_loop root [] st = Inr st"
| "first_levels_loop root (i # is) st =
     (if ram st root i \<noteq> 0 then first_levels_loop root is st
      else res_bind (frame_alloc 4096 st) (\<lambda>(f, st).
        first_levels_loop root is (fill_frame (aim_pptr f) 0 (set_entry root i f st))))"

definition create_first_levels :: "pagemap \<Rightarrow> vmem \<Rightarrow> (unit \<times> vmem) res" where
  "create_first_levels kpm st = with_pptr st (\<lambda>st. with_pptr st (\<lambda>st.
     res_bind (first_levels_loop (aim_pptr (pageRoot kpm)) [256..<512] st) (\<lambda>st. Inr ((), st))))"

text \<open>\<open>cleanup\<close> passes a null pointer for the address to skip, which a missing table writes to.\<close>

definition vm_cleanup :: "pagemap \<Rightarrow> vmem \<Rightarrow> (unit \<times> vmem) res" where
  "vm_cleanup kpm st = with_pptr st (\<lambda>st.
     case findTable kpm 0 (ram st) of
       None \<Rightarrow> Inl NullDeref
     | Some t \<Rightarrow> Inr ((), fill_frame t 0 st))"

text \<open>\<open>fork\<close>: the entries of one table, then the loop over the address space.\<close>

fun fork_table :: "nat list \<Rightarrow> u64 \<Rightarrow> u64 \<Rightarrow> vmem \<Rightarrow> vmem res" where
  "fork_table [] srctbl dsttbl st = Inr st"
| "fork_table (i # is) srctbl dsttbl st =
     (let e = ram st srctbl i in
      if e = 0 then fork_table is srctbl dsttbl st
      else if e AND NOT MEM_PAGE_MASK AND PAGE_NOPHYS \<noteq> 0 then fork_table is srctbl dsttbl (set_entry dsttbl i e st)
      else res_bind (frame_alloc 4096 st) (\<lambda>(dstaddr, st).
        let st = st\<lparr>ram := (ram st)(aim_pptr dstaddr := ram st (aim_pptr (e AND MEM_PAGE_MASK)))\<rparr>
        in fork_table is srctbl dsttbl (set_entry dsttbl i (dstaddr OR (e AND NOT MEM_PAGE_MASK)) st)))"

partial_function (option) fork_loop :: "pagemap \<Rightarrow> pagemap \<Rightarrow> u64 \<Rightarrow> vmem \<Rightarrow> vmem res option" where
  "fork_loop p child vaddr st =
     (if vaddr < vend p then
        (case find_table (pageRoot p) vaddr (ram st) vaddr of
           (None, vaddr) \<Rightarrow> fork_loop p child vaddr st
         | (Some srctbl, _) \<Rightarrow>
             (case res_bind (findTableEnsure child vaddr st) (\<lambda>(dsttbl, st).
                fork_table [0..<512] srctbl dsttbl (fill_frame dsttbl 0 st)) of
                Inl e \<Rightarrow> Some (Inl e)
              | Inr st \<Rightarrow> fork_loop p child (vaddr + 512 * 4096) st))
      else Some (Inr st))"

definition pm_fork :: "pagemap \<Rightarrow> pagemap \<Rightarrow> u32 \<Rightarrow> vmem \<Rightarrow> (pagemap \<times> vmem) res option" where
  "pm_fork kpm p flags0 st =
     (case res_bind (alloc_pptr st) (\<lambda>(a, st). res_bind (alloc_pptr st) (\<lambda>(b, st).
        res_bind (alloc_pptr st) (\<lambda>(c, st). res_bind (alloc_pptr st) (\<lambda>(d, st).
          res_bind (newPagemap kpm (vstart p) (vend p) flags0 st) (\<lambda>(child, st). Inr ([d, c, b, a], child, st)))))) of
        Inl e \<Rightarrow> Some (Inl e)
      | Inr (windows, child, st) \<Rightarrow> run_bind (fork_loop p child 0 st) (\<lambda>st.
          Some (Inr (child, fold free_pptr windows st))))"

end
