(* ===== verification/PageStore.thy ===== *)
theory PageStore
  imports Prelude
begin

text \<open>
  What the loops that map pages rely on: putting an entry at an address changes the
  translation of the page of this address and of no other. A page is what the processor
  distinguishes: bits 12 to 47 of an address.
\<close>

definition vpage :: "u64 \<Rightarrow> nat" where
  "vpage va = unat va div 4096 mod 2 ^ 36"

lemma vpage_add: "vpage (va + of_nat k * 4096) = (vpage va + k) mod 2 ^ 36"
proof -
  have "unat (va + of_nat k * 4096) = (unat va + k * 4096) mod (4096 * 2 ^ 52)"
    by (simp add: unat_word_ariths unat_of_nat mod_simps)
  moreover have "x mod (4096 * 2 ^ 52) div 4096 mod 2 ^ 36 = x div 4096 mod 2 ^ 36" for x :: nat
  proof -
    have "x mod (4096 * 2 ^ 52) = 4096 * (x div 4096 mod 2 ^ 52) + x mod 4096" by (rule mod_mult2_eq)
    then have "x mod (4096 * 2 ^ 52) div 4096 = x div 4096 mod 2 ^ 52" by simp
    then show ?thesis by (simp add: mod_mod_cancel)
  qed
  ultimately show ?thesis by (simp add: vpage_def mod_simps add.commute)
qed

lemma vpage_run_inj:
  assumes "vpage (va + of_nat j * 4096) = vpage (va + of_nat k * 4096)" "j < n" "k < n" "n \<le> 2 ^ 36"
  shows "j = k"
proof -
  have "(vpage va + j) mod 2 ^ 36 = (vpage va + k) mod 2 ^ 36" using assms(1) by (simp only: vpage_add)
  then have "j mod 2 ^ 36 = k mod 2 ^ 36" unfolding nat_mod_eq_iff by auto
  then show ?thesis using assms(2-4) by simp
qed

text \<open>\<open>n\<close> pages from an address on, page \<open>k\<close> of them filled with \<open>x k\<close>.\<close>

fun put_run :: "(u64 \<Rightarrow> 'x \<Rightarrow> 's \<Rightarrow> 's res) \<Rightarrow> nat \<Rightarrow> u64 \<Rightarrow> (nat \<Rightarrow> 'x) \<Rightarrow> 's \<Rightarrow> 's res" where
  "put_run put 0 va x s = Inr s"
| "put_run put (Suc n) va x s = res_bind (put va (x 0) s) (\<lambda>s. put_run put n (va + 4096) (\<lambda>k. x (Suc k)) s)"

locale page_store =
  fixes ok :: "'s \<Rightarrow> bool" and look :: "u64 \<Rightarrow> 's \<Rightarrow> u64" and put :: "u64 \<Rightarrow> 'x \<Rightarrow> 's \<Rightarrow> 's res"
    and entry :: "'x \<Rightarrow> u64"
  assumes put_ok: "ok s \<Longrightarrow> put va x s = Inr s' \<Longrightarrow> ok s'"
    and put_look: "ok s \<Longrightarrow> put va x s = Inr s' \<Longrightarrow> look vb s' = (if vpage vb = vpage va then entry x else look vb s)"
begin

lemma run_other:
  assumes "ok s" "put_run put n va x s = Inr s'" "\<And>k. k < n \<Longrightarrow> vpage vb \<noteq> vpage (va + of_nat k * 4096)"
  shows "ok s' \<and> look vb s' = look vb s"
  using assms
proof (induction n arbitrary: va x s)
  case (Suc n)
  obtain s1 where s1: "put va (x 0) s = Inr s1" "put_run put n (va + 4096) (\<lambda>k. x (Suc k)) s1 = Inr s'"
    using Suc.prems(2) by (auto simp: res_bind_Inr_iff)
  have "vpage vb \<noteq> vpage (va + 4096 + of_nat k * 4096)" if "k < n" for k
    using Suc.prems(3) [of "Suc k"] that by (simp add: algebra_simps)
  from Suc.IH [OF put_ok [OF Suc.prems(1) s1(1)] s1(2) this]
  show ?case using put_look [OF Suc.prems(1) s1(1)] Suc.prems(3) [of 0] by simp
qed simp

lemma run_look:
  assumes "ok s" "put_run put n va x s = Inr s'" "n \<le> 2 ^ 36" "k < n"
  shows "look (va + of_nat k * 4096) s' = entry (x k)"
  using assms
proof (induction n arbitrary: va x s k)
  case (Suc n)
  obtain s1 where s1: "put va (x 0) s = Inr s1" "put_run put n (va + 4096) (\<lambda>k. x (Suc k)) s1 = Inr s'"
    using Suc.prems(2) by (auto simp: res_bind_Inr_iff)
  note ok1 = put_ok [OF Suc.prems(1) s1(1)]
  show ?case
  proof (cases k)
    case 0
    have "vpage va \<noteq> vpage (va + 4096 + of_nat j * 4096)" if "j < n" for j
      using vpage_run_inj [of va 0 "Suc j" "Suc n"] that Suc.prems(3) by (auto simp: algebra_simps)
    from run_other [OF ok1 s1(2) this] show ?thesis using 0 put_look [OF Suc.prems(1) s1(1)] by simp
  next
    case (Suc j)
    then show ?thesis using Suc.IH [OF ok1 s1(2), of j] Suc.prems(3,4) by (simp add: algebra_simps)
  qed
qed simp

end

end
