(* ===== verification/PageTables.thy ===== *)
theory PageTables
  imports Paging PageStore
begin

unbundle bit_operations_syntax

text \<open>
  The page tables as a tree: what a walk finds, that tables never share frames, and that
  installing an entry changes the translation of one page only.
\<close>

subsection \<open>Masks and indices\<close>

lemma page_mask: "MEM_PAGE_MASK = NOT (mask 12)" "NOT 0xFFF = MEM_PAGE_MASK"
  by (simp_all add: MEM_PAGE_MASK_def mask_numeral)

lemma mask_mask [simp]: "x AND MEM_PAGE_MASK AND MEM_PAGE_MASK = x AND MEM_PAGE_MASK"
  by (simp add: and.assoc)

lemma aim_pptr_mask [simp]: "aim_pptr (x AND MEM_PAGE_MASK) = x AND MEM_PAGE_MASK"
  by (simp add: aim_pptr_def)

lemma aligned_mask: "4096 dvd unat f \<Longrightarrow> f AND MEM_PAGE_MASK = f"
proof -
  assume "4096 dvd unat f"
  then have "take_bit 12 (unat f) = 0" by (simp add: take_bit_eq_mod)
  then have z: "take_bit 12 f = 0" by (simp add: word_unat_eq_iff unsigned_take_bit_eq)
  have "\<not> bit f n" if "n < 12" for n
    using that z bit_take_bit_iff [of 12 f n] by simp
  then show ?thesis
    by (intro bit_word_eqI) (auto simp: page_mask bit_simps not_less, metis not_less)
qed

definition low :: "u64 \<Rightarrow> bool" where
  "low x \<longleftrightarrow> x AND MEM_PAGE_MASK = 0"

lemma or_low: "low x \<Longrightarrow> (e OR x) AND MEM_PAGE_MASK = e AND MEM_PAGE_MASK"
  by (simp add: low_def bit.conj_disj_distrib2)

lemma table_flags: "low (PAGE_USER OR PAGE_WRITE OR PAGE_PRESENT)"
    "(e OR (PAGE_USER OR PAGE_WRITE OR PAGE_PRESENT)) AND PAGE_PRESENT \<noteq> 0"
proof -
  show "low (PAGE_USER OR PAGE_WRITE OR PAGE_PRESENT)"
    by (simp add: low_def PAGE_USER_def PAGE_WRITE_def PAGE_PRESENT_def MEM_PAGE_MASK_def)
  have "bit ((e OR (PAGE_USER OR PAGE_WRITE OR PAGE_PRESENT)) AND PAGE_PRESENT) 0"
    by (simp add: bit_simps PAGE_PRESENT_def)
  then show "(e OR (PAGE_USER OR PAGE_WRITE OR PAGE_PRESENT)) AND PAGE_PRESENT \<noteq> 0" by auto
qed

lemma table_index_bound: "table_index va shift < 512"
proof -
  have "drop_bit shift va AND 0x1FF \<le> 0x1FF" by (rule word_and_le1)
  then show ?thesis by (simp add: table_index_def word_le_nat_alt)
qed

lemma table_index_nat: "table_index va shift = unat va div 2 ^ shift mod 512"
proof -
  have "drop_bit shift va AND 0x1FF = take_bit 9 (drop_bit shift va)"
    by (simp add: take_bit_eq_mask mask_numeral)
  then have "table_index va shift = take_bit 9 (drop_bit shift (unat va))"
    using take_bit_nat_eq_self [OF unat_less_2p [of va]]
    by (simp only: table_index_def unsigned_take_bit_eq unsigned_drop_bit_eq)
  then show ?thesis by (simp add: drop_bit_eq_div take_bit_eq_mod)
qed

lemma table_index_page [simp]: "12 \<le> shift \<Longrightarrow> table_index (va AND MEM_PAGE_MASK) shift = table_index va shift"
  unfolding table_index_def page_mask
  by (rule arg_cong [of _ _ unat], rule bit_word_eqI) (auto simp: bit_simps dest: bit_imp_le_length)

subsection \<open>Paths through the tables\<close>

fun tbl :: "ram \<Rightarrow> u64 \<Rightarrow> nat list \<Rightarrow> u64 option" where
  "tbl m t [] = Some t"
| "tbl m t (i # is) = (if m t i = 0 then None else tbl m (m t i AND MEM_PAGE_MASK) is)"

definition path_of :: "u64 \<Rightarrow> nat list" where
  "path_of va = [table_index va 39, table_index va 30, table_index va 21]"

definition root_of :: "pagemap \<Rightarrow> u64" where
  "root_of p = aim_pptr (pageRoot p)"

lemma tbl_append: "tbl m t (P @ Q) = Option.bind (tbl m t P) (\<lambda>u. tbl m u Q)"
  by (induction m t P rule: tbl.induct) auto

lemma findTable_tbl: "findTable p va m = tbl m (root_of p) (path_of va)"
  unfolding findTable_def find_table_def Let_def page_mask(2) by (simp add: path_of_def root_of_def)

lemma path_of_page [simp]: "path_of (va AND MEM_PAGE_MASK) = path_of va"
  by (simp add: path_of_def)

lemma rawof_tbl: "rawof_internal p va m = (case tbl m (root_of p) (path_of va) of None \<Rightarrow> 0 | Some t \<Rightarrow> m t (table_index va 12))"
  unfolding rawof_internal_def page_mask(2) by (simp add: findTable_tbl)

lemma paddrof_raw: "paddrof_internal p va m =
    (if rawof_internal p va m AND MEM_PAGE_MASK = 0 then 0 else (rawof_internal p va m AND MEM_PAGE_MASK) + (va AND 0xFFF))"
  unfolding paddrof_internal_def page_mask(2) by (simp add: rawof_tbl findTable_tbl split: option.splits)

subsection \<open>The invariant\<close>

text \<open>
  A table is live if all entries on the way to it are marked present. An entry that is not 0 and not marked
  present leads to a ghost. The walk of the code follows ghosts, too, so they must be empty.
\<close>

definition present :: "u64 \<Rightarrow> bool" where
  "present e \<longleftrightarrow> e AND PAGE_PRESENT \<noteq> 0"

fun live :: "ram \<Rightarrow> u64 \<Rightarrow> nat list \<Rightarrow> u64 option" where
  "live m t [] = Some t"
| "live m t (i # is) = (if present (m t i) then live m (m t i AND MEM_PAGE_MASK) is else None)"

definition inner :: "nat list \<Rightarrow> bool" where
  "inner P \<longleftrightarrow> length P \<le> 3 \<and> (\<forall>i \<in> set P. i < 512)"

definition ghosts :: "ram \<Rightarrow> u64 \<Rightarrow> u64 set" where
  "ghosts m root = {m t i AND MEM_PAGE_MASK | P t i. inner (P @ [i]) \<and> live m root P = Some t
     \<and> \<not> present (m t i) \<and> m t i \<noteq> 0}"

definition live_tables :: "ram \<Rightarrow> u64 \<Rightarrow> u64 set" where
  "live_tables m root = {t. \<exists>P. inner P \<and> live m root P = Some t}"

definition frame_of :: "u64 \<Rightarrow> nat" where
  "frame_of t = unat t div 4096"

definition unshared :: "ram \<Rightarrow> u64 \<Rightarrow> bool" where
  "unshared m root \<longleftrightarrow>
     (\<forall>P Q t. inner P \<longrightarrow> inner Q \<longrightarrow> live m root P = Some t \<longrightarrow> live m root Q = Some t \<longrightarrow> P = Q)"

definition tables_ok :: "ram \<Rightarrow> u64 \<Rightarrow> nat set \<Rightarrow> bool" where
  "tables_ok m root taken \<longleftrightarrow> unshared m root
     \<and> frame_of ` (live_tables m root \<union> ghosts m root) \<subseteq> taken
     \<and> live_tables m root \<inter> ghosts m root = {} \<and> (\<forall>g \<in> ghosts m root. \<forall>j. m g j = 0)"

definition vm_ok :: "pagemap \<Rightarrow> vmem \<Rightarrow> bool" where
  "vm_ok p st \<longleftrightarrow> tables_ok (ram st) (root_of p) (taken_pages (vm_phys st))
     \<and> pieces_ok (pieces (vm_phys st)) \<and> pieces (vm_phys st) \<noteq> []"

lemma live_append: "live m t (P @ Q) = Option.bind (live m t P) (\<lambda>u. live m u Q)"
  by (induction m t P rule: live.induct) auto

lemma inner_path_of: "inner (path_of va)" "length (path_of va) = 3"
  by (simp_all add: inner_def path_of_def table_index_bound)

lemma inner_prefix: "inner (P @ Q) \<Longrightarrow> inner P"
  by (auto simp: inner_def)

lemma present_0 [simp]: "\<not> present 0"
  by (simp add: present_def)

text \<open>The walk of the code sees the live tables and, behind a ghost, nothing.\<close>

lemma tbl_live:
  assumes "\<forall>g \<in> ghosts m root. \<forall>j. m g j = 0" "inner (P @ Q)" "live m root P = Some t"
  shows "(case tbl m t Q of None \<Rightarrow> 0 | Some u \<Rightarrow> m u i) = (case live m t Q of None \<Rightarrow> 0 | Some u \<Rightarrow> m u i)"
  using assms(2,3)
proof (induction Q arbitrary: P t)
  case (Cons j Q)
  show ?case
  proof (cases "present (m t j)")
    case True
    then have "live m root (P @ [j]) = Some (m t j AND MEM_PAGE_MASK)" using Cons.prems(2) by (simp add: live_append)
    then show ?thesis using Cons.IH [of "P @ [j]"] Cons.prems(1) True by auto
  next
    case False
    have "m t j \<noteq> 0 \<Longrightarrow> m t j AND MEM_PAGE_MASK \<in> ghosts m root"
      using Cons.prems False inner_prefix [of "P @ [j]" Q] by (auto simp: ghosts_def)
    then have "m t j \<noteq> 0 \<Longrightarrow> m (m t j AND MEM_PAGE_MASK) k = 0" for k using assms(1) by blast
    then show ?thesis using False by (cases Q) auto
  qed
qed simp

lemma rawof_live:
  assumes "tables_ok m (root_of p) taken"
  shows "rawof_internal p va m = (case live m (root_of p) (path_of va) of None \<Rightarrow> 0 | Some t \<Rightarrow> m t (table_index va 12))"
  unfolding rawof_tbl using assms tbl_live [of m "root_of p" "[]" "path_of va" "root_of p" "table_index va 12"] inner_path_of
  by (simp add: tables_ok_def)

lemma live_unique:
  "tables_ok m root taken \<Longrightarrow> inner P \<Longrightarrow> inner Q \<Longrightarrow> live m root P = Some t \<Longrightarrow> live m root Q = Some t \<Longrightarrow> P = Q"
  by (auto simp: tables_ok_def unshared_def)

lemma live_frame: "tables_ok m root taken \<Longrightarrow> inner P \<Longrightarrow> live m root P = Some t \<Longrightarrow> frame_of t \<in> taken"
  by (auto simp: tables_ok_def live_tables_def)

text \<open>A memory that agrees on all upper entries, up to flags that do not matter, has the same tables.\<close>

definition same_upper :: "ram \<Rightarrow> u64 \<Rightarrow> ram \<Rightarrow> bool" where
  "same_upper m root m' \<longleftrightarrow> (\<forall>P u j. inner (P @ [j]) \<longrightarrow> live m root P = Some u \<longrightarrow>
     m' u j = m u j \<or> present (m u j) \<and> present (m' u j) \<and> m' u j AND MEM_PAGE_MASK = m u j AND MEM_PAGE_MASK)"

lemma same_upperD:
  "same_upper m root m' \<Longrightarrow> inner (P @ [j]) \<Longrightarrow> live m root P = Some u \<Longrightarrow>
     m' u j = m u j \<or> present (m u j) \<and> present (m' u j) \<and> m' u j AND MEM_PAGE_MASK = m u j AND MEM_PAGE_MASK"
  by (auto simp: same_upper_def)

lemma same_upper_live:
  assumes "same_upper m root m'" "inner Q"
  shows "live m' root Q = live m root Q"
  using assms(2)
proof (induction Q rule: rev_induct)
  case (snoc j Q)
  then have "live m' root Q = live m root Q" using inner_prefix by blast
  then show ?case
    using same_upperD [OF assms(1) snoc.prems] by (cases "live m root Q") (auto simp: live_append)
qed simp

lemma same_upper_ok:
  assumes "tables_ok m root taken" "same_upper m root m'" "\<forall>g \<in> ghosts m root. m' g = m g" "taken \<subseteq> taken'"
  shows "tables_ok m' root taken'"
proof -
  have live: "live m' root Q = live m root Q" if "inner Q" for Q using same_upper_live [OF assms(2) that] .
  have lt: "live_tables m' root = live_tables m root" by (auto simp: live_tables_def live)
  have gh: "ghosts m' root \<subseteq> ghosts m root"
  proof
    fix g assume "g \<in> ghosts m' root"
    then obtain P t i where g: "g = m' t i AND MEM_PAGE_MASK" "inner (P @ [i])" "live m root P = Some t"
        "\<not> present (m' t i)" "m' t i \<noteq> 0"
      using live inner_prefix by (auto simp: ghosts_def)
    then have "m' t i = m t i" using same_upperD [OF assms(2) g(2,3)] by auto
    then show "g \<in> ghosts m root" using g by (auto simp: ghosts_def)
  qed
  have un: "unshared m' root"
    unfolding unshared_def by (intro allI impI) (rule live_unique [OF assms(1)], simp_all add: live)
  have z: "\<forall>g \<in> ghosts m' root. \<forall>j. m' g j = 0"
    using gh assms(1,3) by (metis (no_types, lifting) subsetD tables_ok_def)
  have "frame_of ` (live_tables m root \<union> ghosts m root) \<subseteq> taken" "live_tables m root \<inter> ghosts m root = {}"
    using assms(1) by (auto simp: tables_ok_def)
  then show ?thesis using un z gh assms(4) unfolding tables_ok_def lt by blast
qed


subsection \<open>Three kinds of writes\<close>

text \<open>Into a frame that is neither a live table nor a ghost.\<close>

lemma write_elsewhere:
  assumes ok: "tables_ok m root taken" and f: "f \<notin> live_tables m root" "f \<notin> ghosts m root" and le: "taken \<subseteq> taken'"
  shows "tables_ok (m(f := w)) root taken'" "inner Q \<Longrightarrow> live (m(f := w)) root Q = live m root Q"
proof -
  have s: "same_upper m root (m(f := w))"
    using f(1) by (auto simp: same_upper_def live_tables_def dest: inner_prefix)
  show "tables_ok (m(f := w)) root taken'" using same_upper_ok [OF ok s _ le] f(2) by auto
  show "inner Q \<Longrightarrow> live (m(f := w)) root Q = live m root Q" by (rule same_upper_live [OF s])
qed

text \<open>Flags onto an entry that is present.\<close>

lemma write_flags:
  assumes ok: "tables_ok m root taken" and t: "inner (P @ [i])" "live m root P = Some t" "present (m t i)"
    and e: "present e" "e AND MEM_PAGE_MASK = m t i AND MEM_PAGE_MASK"
  defines "m' \<equiv> m(t := (m t)(i := e))"
  shows "tables_ok m' root taken" "inner Q \<Longrightarrow> live m' root Q = live m root Q"
proof -
  have s: "same_upper m root m'" using t(3) e by (auto simp: same_upper_def m'_def)
  have "t \<in> live_tables m root" using t(1,2) inner_prefix by (auto simp: live_tables_def)
  then have "t \<notin> ghosts m root" using ok by (auto simp: tables_ok_def)
  then show "tables_ok m' root taken" using same_upper_ok [OF ok s] by (auto simp: m'_def)
  show "inner Q \<Longrightarrow> live m' root Q = live m root Q" by (rule same_upper_live [OF s])
qed

text \<open>An entry of a last table.\<close>

lemma write_leaf:
  fixes i :: nat and e :: u64
  assumes ok: "tables_ok m root taken" and t: "inner P" "length P = 3" "live m root P = Some t"
  defines "m' \<equiv> m(t := (m t)(i := e))"
  shows "tables_ok m' root taken" "inner Q \<Longrightarrow> live m' root Q = live m root Q"
proof -
  have s: "same_upper m root m'"
    unfolding same_upper_def
  proof (intro allI impI)
    fix Q u j assume Q: "inner (Q @ [j])" "live m root Q = Some u"
    then have "u \<noteq> t" using live_unique [OF ok _ t(1) _ t(3), of Q] inner_prefix [OF Q(1)] t(2) by (auto simp: inner_def)
    then show "m' u j = m u j \<or> present (m u j) \<and> present (m' u j) \<and> m' u j AND MEM_PAGE_MASK = m u j AND MEM_PAGE_MASK"
      by (simp add: m'_def)
  qed
  have "t \<in> live_tables m root" using t by (auto simp: live_tables_def)
  then have "t \<notin> ghosts m root" using ok by (auto simp: tables_ok_def)
  then show "tables_ok m' root taken" using same_upper_ok [OF ok s] by (auto simp: m'_def)
  show "inner Q \<Longrightarrow> live m' root Q = live m root Q" by (rule same_upper_live [OF s])
qed

text \<open>A new table below a live one.\<close>

lemma write_link:
  assumes ok: "tables_ok m root taken" and t: "inner (P @ [i])" "live m root P = Some t" "\<not> present (m t i)"
    and f: "frame_of f \<notin> taken" "present e" "e AND MEM_PAGE_MASK = f"
  defines "m' \<equiv> m(t := (m t)(i := e), f := (\<lambda>_. 0))"
  shows "tables_ok m' root (insert (frame_of f) taken)"
    "inner Q \<Longrightarrow> live m' root Q = (if Q = P @ [i] then Some f else live m root Q)"
proof -
  have "t \<in> live_tables m root" using t(1,2) inner_prefix by (auto simp: live_tables_def)
  then have tt: "t \<notin> ghosts m root" "t \<noteq> f" using ok f(1) by (auto simp: tables_ok_def)
  have new: "live m' root Q = (if Q = P @ [i] then Some f else live m root Q)" if "inner Q" for Q
    using that
  proof (induction Q rule: rev_induct)
    case (snoc j Q)
    then have IH: "live m' root Q = (if Q = P @ [i] then Some f else live m root Q)" using inner_prefix by blast
    show ?case
    proof (cases "Q = P @ [i]")
      case True
      have "m' f j = 0" by (simp add: m'_def)
      then show ?thesis
        using True IH t(2,3) live_append [of m' root Q "[j]"] by (simp add: live_append [of m root])
    next
      case False
      then have Q: "live m' root Q = live m root Q" using IH by simp
      show ?thesis
      proof (cases "live m root Q")
        case (Some u)
        have uf: "u \<noteq> f" using live_frame [OF ok inner_prefix [OF snoc.prems] Some] f(1) by auto
        have ut: "u = t \<longleftrightarrow> Q = P"
          using live_unique [OF ok inner_prefix [OF snoc.prems] inner_prefix [OF t(1)] Some] t(2) Some by auto
        have "m' u j = (if Q = P \<and> j = i then e else m u j)" using uf ut by (auto simp: m'_def)
        then show ?thesis
          using Q Some f(2,3) live_append [of m' root Q "[j]"] live_append [of m root Q "[j]"] by auto
      qed (use Q in \<open>auto simp: live_append, use t(2) in auto\<close>)
    qed
  qed simp
  show "inner Q \<Longrightarrow> live m' root Q = (if Q = P @ [i] then Some f else live m root Q)" by (rule new)
  have lt: "live_tables m' root = insert f (live_tables m root)"
  proof (rule set_eqI, rule iffI)
    fix x assume "x \<in> live_tables m' root"
    then obtain Q where "inner Q" "live m' root Q = Some x" by (auto simp: live_tables_def)
    then show "x \<in> insert f (live_tables m root)" using new [of Q] by (auto simp: live_tables_def split: if_splits)
  next
    fix x assume x: "x \<in> insert f (live_tables m root)"
    have "live m root (P @ [i]) = None" using t(2,3) by (simp add: live_append)
    then show "x \<in> live_tables m' root"
      using x new t(1) by (fastforce simp: live_tables_def)
  qed
  have fresh: "f \<notin> live_tables m root" "f \<notin> ghosts m root" using ok f(1) by (auto simp: tables_ok_def)
  have gh: "ghosts m' root \<subseteq> ghosts m root"
  proof
    fix g assume "g \<in> ghosts m' root"
    then obtain Q u j where g: "g = m' u j AND MEM_PAGE_MASK" "inner (Q @ [j])" "live m' root Q = Some u"
        "\<not> present (m' u j)" "m' u j \<noteq> 0" by (auto simp: ghosts_def)
    then have u: "u \<noteq> f" by (auto simp: m'_def)
    then have "live m root Q = Some u" using new [OF inner_prefix [OF g(2)]] g(3) by (auto split: if_splits)
    moreover have "m' u j = m u j" using g(4) f(2) u by (auto simp: m'_def split: if_splits)
    ultimately show "g \<in> ghosts m root" using g by (auto simp: ghosts_def)
  qed
  have "unshared m' root"
    unfolding unshared_def
  proof (intro allI impI)
    fix A B u assume a: "inner A" "inner B" "live m' root A = Some u" "live m' root B = Some u"
    have "live m root C \<noteq> Some f" if "inner C" for C using that fresh(1) by (auto simp: live_tables_def)
    then show "A = B"
      using a new live_unique [OF ok a(1,2)] by (auto split: if_splits)
  qed
  then show "tables_ok m' root (insert (frame_of f) taken)"
    using ok gh fresh tt(1) unfolding tables_ok_def lt
    by (auto simp: m'_def)
qed


subsection \<open>Making tables\<close>

text \<open>One level of \<open>findTableEnsure\<close>.\<close>

definition ensure_step :: "u64 \<Rightarrow> nat \<Rightarrow> vmem \<Rightarrow> (u64 \<times> vmem) res" where
  "ensure_step t i st =
     (if present (ram st t i) then
        let e = ram st t i OR (PAGE_USER OR PAGE_WRITE OR PAGE_PRESENT) in
        Inr (e AND MEM_PAGE_MASK, set_entry t i e st)
      else res_bind (frame_alloc 4096 st) (\<lambda>(f, st).
        let e = f OR (PAGE_USER OR PAGE_WRITE OR PAGE_PRESENT) in
        Inr (e AND MEM_PAGE_MASK, fill_frame (e AND MEM_PAGE_MASK) 0 (set_entry t i e st))))"

lemma set_entry_twice [simp]: "set_entry t i v (set_entry t i w st) = set_entry t i v st"
  "ram (set_entry t i v st) t i = v"
  by (simp_all add: set_entry_def)

lemma ensure_loop_step:
  "ensure_loop (Suc n) shift va t st = res_bind (ensure_step t (table_index va shift) st) (\<lambda>(nt, st).
     ensure_loop n (shift - 9) va nt st)"
  by (auto simp: ensure_step_def present_def Let_def res_bind_assoc split: sum.splits intro!: arg_cong2 [of _ _ _ _ res_bind])

text \<open>What table making leaves alone: the translations, the live tables, the taken frames, the windows.\<close>

definition grown :: "pagemap \<Rightarrow> vmem \<Rightarrow> vmem \<Rightarrow> bool" where
  "grown p st st' \<longleftrightarrow> vm_ok p st' \<and> (\<forall>va. rawof_internal p va (ram st') = rawof_internal p va (ram st))
     \<and> (\<forall>Q t. inner Q \<longrightarrow> live (ram st) (root_of p) Q = Some t \<longrightarrow> live (ram st') (root_of p) Q = Some t)
     \<and> taken_pages (vm_phys st) \<subseteq> taken_pages (vm_phys st') \<and> pptr_taken st' = pptr_taken st"

lemma grown_refl: "vm_ok p st \<Longrightarrow> grown p st st"
  by (simp add: grown_def)

lemma grown_trans: "grown p st st1 \<Longrightarrow> grown p st1 st2 \<Longrightarrow> grown p st st2"
  unfolding grown_def by auto

text \<open>Translations are the same if the last tables and their entries are.\<close>

lemma rawof_same:
  assumes "tables_ok m (root_of p) taken" "tables_ok m' (root_of p) taken'"
    and "\<And>Q t i. inner Q \<Longrightarrow> length Q = 3 \<Longrightarrow> live m' (root_of p) Q = Some t \<Longrightarrow>
       live m (root_of p) Q = Some t \<and> m' t i = m t i \<or> live m (root_of p) Q = None \<and> m' t i = 0"
    and "\<And>Q. inner Q \<Longrightarrow> live m' (root_of p) Q = None \<Longrightarrow> live m (root_of p) Q = None"
  shows "rawof_internal p va m' = rawof_internal p va m"
  unfolding rawof_live [OF assms(1)] rawof_live [OF assms(2)]
  using assms(3) [OF inner_path_of, of va _ "table_index va 12"] assms(4) [OF inner_path_of(1), of va]
  by (cases "live m' (root_of p) (path_of va)") auto

lemma ensure_step_ok:
  assumes ok: "vm_ok p st" and t: "inner (P @ [i])" "live (ram st) (root_of p) P = Some t"
    and run: "ensure_step t i st = Inr (nt, st')"
  shows "grown p st st' \<and> live (ram st') (root_of p) (P @ [i]) = Some nt"
proof -
  let ?m = "ram st" and ?r = "root_of p"
  have tok: "tables_ok ?m ?r (taken_pages (vm_phys st))" using ok by (simp add: vm_ok_def)
  have P: "inner P" "length P < 3" using t(1) by (auto simp: inner_def)
  have leaf: "u \<noteq> t" if "inner Q" "length Q = 3" "live ?m ?r Q = Some u" for Q u
    using live_unique [OF tok that(1) P(1) that(3)] t(2) that(2) P(2) by auto
  show ?thesis
  proof (cases "present (?m t i)")
    case True
    define e where "e = ?m t i OR (PAGE_USER OR PAGE_WRITE OR PAGE_PRESENT)"
    have e: "present e" "e AND MEM_PAGE_MASK = ?m t i AND MEM_PAGE_MASK"
      using table_flags or_low by (simp_all add: e_def present_def)
    have st': "st' = set_entry t i e st" "nt = ?m t i AND MEM_PAGE_MASK"
      using run True e by (simp_all add: ensure_step_def Let_def e_def [symmetric])
    note w = write_flags [OF tok t True e]
    have m': "ram st' = ?m(t := (?m t)(i := e))" by (simp add: st'(1) set_entry_def)
    have "rawof_internal p va (ram st') = rawof_internal p va ?m" for va
    proof (rule rawof_same [OF tok w(1) [folded m']])
      fix Q u k assume "inner Q" "length Q = 3" "live (ram st') ?r Q = Some u"
      then show "live ?m ?r Q = Some u \<and> ram st' u k = ?m u k \<or> live ?m ?r Q = None \<and> ram st' u k = 0"
        using w(2) [folded m'] leaf by (auto simp: m')
    qed (simp add: w(2) [folded m'])
    moreover have "vm_ok p st'" using ok w(1) [folded m'] by (simp add: vm_ok_def st'(1) set_entry_def)
    moreover have "live (ram st') ?r (P @ [i]) = Some nt"
      using w(2) [OF t(1), folded m'] t(2) True by (simp add: live_append st'(2))
    ultimately show ?thesis
      using w(2) [folded m'] by (simp add: grown_def) (simp add: st'(1) set_entry_def)
  next
    case False
    obtain f ph where f: "phys_alloc 4096 (vm_phys st) = Inr (f, ph)"
      using run False by (auto simp: ensure_step_def frame_alloc_def res_bind_Inr_iff)
    have fr: "4096 dvd unat f" "frame_of f \<notin> taken_pages (vm_phys st)"
        "taken_pages ph = insert (frame_of f) (taken_pages (vm_phys st))" "pieces_ok (pieces ph)" "pieces ph \<noteq> []"
      using phys_alloc_frame [OF _ _ f] ok by (auto simp: vm_ok_def frame_of_def)
    define e where "e = f OR (PAGE_USER OR PAGE_WRITE OR PAGE_PRESENT)"
    have e: "present e" "e AND MEM_PAGE_MASK = f"
      using table_flags or_low aligned_mask [OF fr(1)] by (simp_all add: e_def present_def)
    have st': "st' = fill_frame f 0 (set_entry t i e (st\<lparr>vm_phys := ph\<rparr>))" "nt = f"
      using run False e by (auto simp: ensure_step_def frame_alloc_def f Let_def e_def [symmetric])
    note w = write_link [OF tok t False fr(2) e]
    have m': "ram st' = ?m(t := (?m t)(i := e), f := (\<lambda>_. 0))" by (simp add: st'(1) set_entry_def fill_frame_def)
    have none: "live ?m ?r (P @ [i]) = None" using t(2) False by (simp add: live_append)
    have "rawof_internal p va (ram st') = rawof_internal p va ?m" for va
    proof (rule rawof_same [OF tok w(1) [folded m']])
      fix Q u k assume Q: "inner Q" "length Q = 3" "live (ram st') ?r Q = Some u"
      show "live ?m ?r Q = Some u \<and> ram st' u k = ?m u k \<or> live ?m ?r Q = None \<and> ram st' u k = 0"
      proof (cases "Q = P @ [i]")
        case True
        then show ?thesis using none Q w(2) [folded m', OF Q(1)] by (auto simp: m')
      next
        case False
        then have u: "live ?m ?r Q = Some u" using Q w(2) [folded m', OF Q(1)] by simp
        then have "u \<noteq> f" using live_frame [OF tok Q(1) u] fr(2) by auto
        then show ?thesis using u leaf [OF Q(1,2) u] by (auto simp: m')
      qed
    qed (auto simp: w(2) [folded m'] split: if_splits)
    moreover have "vm_ok p st'"
      using ok w(1) [folded m'] fr by (simp add: vm_ok_def) (simp add: st'(1) set_entry_def fill_frame_def)
    moreover have "live (ram st') ?r (P @ [i]) = Some nt" using w(2) [folded m', OF t(1)] st'(2) by simp
    ultimately show ?thesis
      using w(2) [folded m'] none fr(3) by (auto simp: grown_def) (auto simp: st'(1) set_entry_def fill_frame_def)
  qed
qed


lemma ensure_loop_ok:
  assumes "vm_ok p st" "inner (P @ map (\<lambda>k. table_index va (shift - 9 * k)) [0..<n])"
    and "live (ram st) (root_of p) P = Some t" "ensure_loop n shift va t st = Inr (t', st')"
  shows "grown p st st' \<and> live (ram st') (root_of p) (P @ map (\<lambda>k. table_index va (shift - 9 * k)) [0..<n]) = Some t'"
  using assms
proof (induction n arbitrary: P shift t st)
  case 0
  then show ?case by (auto intro: grown_refl)
next
  case (Suc n)
  let ?i = "table_index va shift"
  have idx: "map (\<lambda>k. table_index va (shift - 9 * k)) [0..<Suc n]
      = ?i # map (\<lambda>k. table_index va (shift - 9 - 9 * k)) [0..<n]"
    unfolding upt_conv_Cons [OF zero_less_Suc] map_Suc_upt [symmetric] by (simp add: diff_diff_add)
  obtain nt st1 where s: "ensure_step t ?i st = Inr (nt, st1)" "ensure_loop n (shift - 9) va nt st1 = Inr (t', st')"
    using Suc.prems(4) unfolding ensure_loop_step by (auto simp: res_bind_Inr_iff)
  have inn: "inner ((P @ [?i]) @ map (\<lambda>k. table_index va (shift - 9 - 9 * k)) [0..<n])"
    using Suc.prems(2) unfolding idx by simp
  have one: "grown p st st1" "live (ram st1) (root_of p) (P @ [?i]) = Some nt"
    using ensure_step_ok [OF Suc.prems(1) inner_prefix [OF inn] Suc.prems(3) s(1)] by auto
  then have "vm_ok p st1" by (simp add: grown_def)
  from Suc.IH [OF this inn one(2) s(2)] show ?case
    unfolding idx using grown_trans [OF one(1)] by simp
qed

lemma path_of_levels: "path_of va = map (\<lambda>k. table_index va (39 - 9 * k)) [0..<3]"
  by (simp add: path_of_def upt_conv_Cons)

lemma findTableEnsure_ok:
  assumes "vm_ok p st" "findTableEnsure p va st = Inr (t, st')"
  shows "grown p st st' \<and> live (ram st') (root_of p) (path_of va) = Some t"
  using ensure_loop_ok [of p st "[]" va 39 3 "root_of p" t st'] assms inner_path_of(1) [of va]
  by (simp add: findTableEnsure_def root_of_def path_of_levels)

subsection \<open>Pages\<close>

lemma vpage_indices:
  "vpage va = ((table_index va 39 * 512 + table_index va 30) * 512 + table_index va 21) * 512 + table_index va 12"
proof -
  define y where "y = unat va div 4096"
  have i: "table_index va 12 = y mod 512" "table_index va 21 = y div 512 mod 512"
      "table_index va 30 = y div 512 div 512 mod 512" "table_index va 39 = y div 512 div 512 div 512 mod 512"
    by (simp_all add: table_index_nat y_def div_mult2_eq [symmetric])
  have step: "a mod (512 * b) = 512 * (a div 512 mod b) + a mod 512" for a b :: nat by (rule mod_mult2_eq)
  have "y mod (512 * (512 * (512 * 512))) =
      512 * (512 * (512 * (y div 512 div 512 div 512 mod 512) + y div 512 div 512 mod 512) + y div 512 mod 512) + y mod 512"
    unfolding step by simp
  then show ?thesis unfolding i by (simp add: vpage_def y_def)
qed

lemma digits_512:
  fixes a b c d :: nat
  shows "a * 512 + b = c * 512 + d \<Longrightarrow> b < 512 \<Longrightarrow> d < 512 \<Longrightarrow> a = c \<and> b = d"
    and "b < 512 \<Longrightarrow> (a * 512 + b) div 512 = a" and "b < 512 \<Longrightarrow> (a * 512 + b) mod 512 = b"
proof -
  assume that: "a * 512 + b = c * 512 + d" "b < 512" "d < 512"
  have "(a * 512 + b) div 512 = (c * 512 + d) div 512" "(a * 512 + b) mod 512 = (c * 512 + d) mod 512" using that(1) by simp_all
  then show "a = c \<and> b = d" using that(2,3) by simp
qed simp_all

lemma same_slot: "path_of va = path_of vb \<and> table_index va 12 = table_index vb 12 \<longleftrightarrow> vpage va = vpage vb"
proof
  show "path_of va = path_of vb \<and> table_index va 12 = table_index vb 12 \<Longrightarrow> vpage va = vpage vb"
    by (simp add: vpage_indices path_of_def)
  assume "vpage va = vpage vb"
  from digits_512(1) [OF this [unfolded vpage_indices] table_index_bound table_index_bound]
  have 1: "(table_index va 39 * 512 + table_index va 30) * 512 + table_index va 21
      = (table_index vb 39 * 512 + table_index vb 30) * 512 + table_index vb 21" "table_index va 12 = table_index vb 12" by simp_all
  from digits_512(1) [OF 1(1) table_index_bound table_index_bound] have 2: "table_index va 39 * 512 + table_index va 30
      = table_index vb 39 * 512 + table_index vb 30" "table_index va 21 = table_index vb 21" by simp_all
  from digits_512(1) [OF 2(1) table_index_bound table_index_bound] 1 2 show
    "path_of va = path_of vb \<and> table_index va 12 = table_index vb 12" by (simp add: path_of_def)
qed

subsection \<open>One page mapped\<close>

lemma rawof_vpage:
  assumes "vpage va = vpage vb"
  shows "rawof_internal p va m = rawof_internal p vb m"
proof -
  have e: "path_of va = path_of vb" "table_index va 12 = table_index vb 12" using same_slot [of va vb] assms by auto
  show ?thesis unfolding rawof_tbl e ..
qed

lemma write_leaf_raw:
  assumes ok: "tables_ok m (root_of p) taken" and t: "live m (root_of p) (path_of va) = Some t"
  shows "rawof_internal p vb (m(t := (m t)(table_index va 12 := e))) =
    (if vpage vb = vpage va then e else rawof_internal p vb m)"
proof -
  let ?m' = "m(t := (m t)(table_index va 12 := e))"
  note w = write_leaf [OF ok inner_path_of t, where i = "table_index va 12" and e = e]
  have live: "live ?m' (root_of p) (path_of vb) = live m (root_of p) (path_of vb)" by (rule w(2) [OF inner_path_of(1)])
  show ?thesis
  proof (cases "live m (root_of p) (path_of vb)")
    case None
    then have "path_of vb \<noteq> path_of va" using t by auto
    then have "vpage vb \<noteq> vpage va" using same_slot [of vb va] by blast
    moreover have "rawof_internal p vb ?m' = 0" using None live by (simp only: rawof_live [OF w(1)] option.case)
    moreover have "rawof_internal p vb m = 0" using None by (simp only: rawof_live [OF ok] option.case)
    ultimately show ?thesis by simp
  next
    case (Some u)
    have "u = t \<longleftrightarrow> path_of vb = path_of va"
    proof
      assume "u = t"
      then show "path_of vb = path_of va"
        by (intro live_unique [OF ok inner_path_of(1) inner_path_of(1) Some]) (simp add: t)
    qed (use t Some in simp)
    then have "(m(t := (m t)(table_index va 12 := e))) u (table_index vb 12) =
        (if vpage vb = vpage va then e else m u (table_index vb 12))"
      unfolding same_slot [of vb va, symmetric] by auto
    moreover have "rawof_internal p vb ?m' = ?m' u (table_index vb 12)"
      using Some live by (simp only: rawof_live [OF w(1)] option.case)
    moreover have "rawof_internal p vb m = m u (table_index vb 12)" using Some by (simp add: rawof_live [OF ok])
    ultimately show ?thesis by simp
  qed
qed


text \<open>
  What mapping \<open>e\<close> at one page does: the invariant stays, this page translates to \<open>e\<close>, all other pages as
  before, no frame is given back.
\<close>

definition remapped :: "pagemap \<Rightarrow> (nat \<Rightarrow> u64 option) \<Rightarrow> vmem \<Rightarrow> vmem \<Rightarrow> bool" where
  "remapped p new st st' \<longleftrightarrow> vm_ok p st'
     \<and> (\<forall>va. rawof_internal p va (ram st') = (case new (vpage va) of Some e \<Rightarrow> e | None \<Rightarrow> rawof_internal p va (ram st)))
     \<and> taken_pages (vm_phys st) \<subseteq> taken_pages (vm_phys st') \<and> pptr_taken st' = pptr_taken st"

lemma assign_ok:
  assumes "vm_ok p st" "assign p virt phys flags st = Inr st'"
  shows "remapped p [vpage virt \<mapsto> (phys AND MEM_PAGE_MASK) OR ucast flags] st st'"
proof -
  let ?va = "virt AND MEM_PAGE_MASK" and ?e = "(phys AND MEM_PAGE_MASK) OR ucast flags"
  obtain t st1 where t: "findTableEnsure p ?va st = Inr (t, st1)" "st' = set_entry t (table_index virt 12) ?e st1"
    using assms(2) by (auto simp: assign_def Let_def res_bind_Inr_iff)
  have g: "grown p st st1" "live (ram st1) (root_of p) (path_of virt) = Some t"
    using findTableEnsure_ok [OF assms(1) t(1)] by auto
  then have ok1: "tables_ok (ram st1) (root_of p) (taken_pages (vm_phys st1))" by (simp add: grown_def vm_ok_def)
  have m': "ram st' = (ram st1)(t := (ram st1 t)(table_index virt 12 := ?e))" by (simp add: t(2) set_entry_def)
  have "tables_ok (ram st') (root_of p) (taken_pages (vm_phys st1))"
    unfolding m' using write_leaf(1) [OF ok1 inner_path_of g(2)] .
  moreover have "rawof_internal p va (ram st') = (if vpage va = vpage virt then ?e else rawof_internal p va (ram st))" for va
    using write_leaf_raw [OF ok1 g(2)] g(1) by (simp add: m' grown_def)
  moreover have "vm_phys st' = vm_phys st1" "pptr_taken st' = pptr_taken st1" by (simp_all add: t(2) set_entry_def)
  ultimately show ?thesis using g(1) by (auto simp: remapped_def grown_def vm_ok_def)
qed


interpretation pages: page_store "vm_ok p" "\<lambda>va st. rawof_internal p va (ram st)"
  "\<lambda>va x. assign p va x flags" "\<lambda>x. (x AND MEM_PAGE_MASK) OR ucast flags" for p flags
proof (unfold_locales, goal_cases)
  case (1 st va x st')
  then show ?case using assign_ok [OF 1] by (simp add: remapped_def)
next
  case (2 st va x st' vb)
  then show ?case using assign_ok [OF 2] by (simp add: remapped_def)
qed

lemma map_loop_run:
  "map_loop False n p va pa flags st = put_run (\<lambda>va x. assign p va x flags) n va (\<lambda>k. pa + of_nat k * 4096) st"
proof (induction n arbitrary: va pa st)
  case (Suc n)
  have "(\<lambda>k. pa + 4096 + of_nat k * 4096) = (\<lambda>k. pa + of_nat (Suc k) * 4096)" by (simp add: algebra_simps)
  then have "map_loop False n p (va + 4096) (pa + 4096) flags =
      put_run (\<lambda>va x. assign p va x flags) n (va + 4096) (\<lambda>k. pa + of_nat (Suc k) * 4096)"
    by (intro ext) (simp only: Suc.IH)
  then show ?case by simp
qed simp

lemma mark_arbitrary_run:
  "mark_arbitrary n p va flags st = put_run (\<lambda>va x. assign p va x flags) n va (\<lambda>k. ARBITRARY_MARK) st"
  by (induction n arbitrary: va st) (simp_all add: fun_eq_iff res_bind_def split: sum.splits)

subsection \<open>Free pages\<close>

lemma findTable_None: "findTable p va m = None \<Longrightarrow> path_of vb = path_of va \<Longrightarrow> rawof_internal p vb m = 0"
  by (simp add: rawof_tbl findTable_tbl)

lemma findTable_Some: "findTable p va m = Some t \<Longrightarrow> path_of vb = path_of va \<Longrightarrow> rawof_internal p vb m = m t (table_index vb 12)"
  by (simp add: rawof_tbl findTable_tbl)

text \<open>Addresses of pages: all pages of one table have the same path.\<close>

definition page_aligned :: "u64 \<Rightarrow> bool" where
  "page_aligned va \<longleftrightarrow> 4096 dvd unat va"

lemma page_aligned_step [simp]: "page_aligned va \<Longrightarrow> page_aligned (va + 4096)"
  by (auto simp: page_aligned_def unat_word_ariths dvd_mod)

lemma page_aligned_table [simp]: "page_aligned va \<Longrightarrow> page_aligned (va + 4096 * 512)"
  by (auto simp: page_aligned_def unat_word_ariths dvd_mod)

lemma index_vpage: "table_index va 12 = vpage va mod 512"
  unfolding vpage_indices digits_512(3) [OF table_index_bound] ..

lemma path_vpage: "path_of va = path_of vb \<longleftrightarrow> vpage va div 512 = vpage vb div 512"
proof -
  have d: "vpage v div 512 = (table_index v 39 * 512 + table_index v 30) * 512 + table_index v 21" for v
    unfolding vpage_indices digits_512(2) [OF table_index_bound] ..
  show ?thesis
  proof
    assume "vpage va div 512 = vpage vb div 512"
    from digits_512(1) [OF this [unfolded d] table_index_bound table_index_bound]
    have 2: "table_index va 39 * 512 + table_index va 30 = table_index vb 39 * 512 + table_index vb 30"
      "table_index va 21 = table_index vb 21" by simp_all
    from digits_512(1) [OF 2(1) table_index_bound table_index_bound] 2 show "path_of va = path_of vb"
      by (simp add: path_of_def)
  qed (simp add: d path_of_def)
qed

lemma table_index_add:
  assumes "table_index va 12 + k < 512"
  shows "table_index (va + of_nat k * 4096) 12 = table_index va 12 + k" "path_of (va + of_nat k * 4096) = path_of va"
proof -
  define a b where "a = vpage va div 512" and "b = vpage va mod 512"
  have ab: "vpage va = a * 512 + b" "b + k < 512" using assms by (simp_all add: a_def b_def index_vpage)
  have "vpage va < 2 ^ 36" by (simp add: vpage_def)
  then have "a < 2 ^ 27" by (simp add: a_def less_mult_imp_div_less)
  then have "vpage va + k < 2 ^ 36" using ab by simp
  then have v: "vpage (va + of_nat k * 4096) = a * 512 + (b + k)" unfolding vpage_add using ab(1) by simp
  show "table_index (va + of_nat k * 4096) 12 = table_index va 12 + k"
    unfolding index_vpage v digits_512(3) [OF ab(2)] by (simp add: b_def)
  show "path_of (va + of_nat k * 4096) = path_of va"
    unfolding path_vpage v digits_512(2) [OF ab(2)] by (simp add: a_def)
qed


text \<open>
  What the loop knows: the last \<open>combo\<close> pages, from \<open>start\<close> up to \<open>vaddr\<close>, are free; \<open>index\<close> is the place of
  \<open>vaddr\<close> in the table \<open>tb\<close>, or 512 at the start of the next table.
\<close>

definition free_pages :: "pagemap \<Rightarrow> ram \<Rightarrow> u64 \<Rightarrow> nat \<Rightarrow> bool" where
  "free_pages p m start n \<longleftrightarrow> (\<forall>k < n. rawof_internal p (start + of_nat k * 4096) m = 0)"

definition loop_inv :: "pagemap \<Rightarrow> ram \<Rightarrow> nat \<Rightarrow> u64 \<Rightarrow> u64 \<Rightarrow> u64 \<Rightarrow> u64 \<Rightarrow> bool" where
  "loop_inv p m index tb vaddr combo start \<longleftrightarrow>
     (index < 512 \<longrightarrow> index = table_index vaddr 12 \<and> findTable p vaddr m = Some tb)
     \<and> (512 \<le> index \<longrightarrow> table_index vaddr 12 = 0)
     \<and> vaddr = start + combo * 4096 \<and> free_pages p m start (unat combo) \<and> page_aligned start \<and> page_aligned vaddr"

lemma free_pages_snoc: "free_pages p m start (n + k) \<longleftrightarrow> free_pages p m start n \<and> free_pages p m (start + of_nat n * 4096) k"
proof -
  have "rawof_internal p (start + of_nat (n + j) * 4096) m = rawof_internal p (start + of_nat n * 4096 + of_nat j * 4096) m" for j
    by (simp add: algebra_simps)
  then have raw: "rawof_internal p (start + of_nat j * 4096) m = rawof_internal p (start + of_nat n * 4096 + of_nat (j - n) * 4096) m"
    if "n \<le> j" for j using that by (metis le_add_diff_inverse)
  show ?thesis
  proof
    assume a: "free_pages p m start (n + k)"
    have "rawof_internal p (start + of_nat n * 4096 + of_nat j * 4096) m = 0" if "j < k" for j
    proof -
      have "rawof_internal p (start + of_nat (n + j) * 4096) m = 0" using a that by (simp only: free_pages_def add_less_cancel_left)
      moreover have "start + of_nat (n + j) * 4096 = start + of_nat n * 4096 + of_nat j * 4096" by (simp add: algebra_simps)
      ultimately show ?thesis by (simp only:)
    qed
    then show "free_pages p m start n \<and> free_pages p m (start + of_nat n * 4096) k"
      using a by (simp add: free_pages_def)
  next
    assume a: "free_pages p m start n \<and> free_pages p m (start + of_nat n * 4096) k"
    show "free_pages p m start (n + k)"
      unfolding free_pages_def
    proof (intro allI impI)
      fix j assume j: "j < n + k"
      show "rawof_internal p (start + of_nat j * 4096) m = 0"
      proof (cases "j < n")
        case False
        then have "j - n < k" "n \<le> j" using j by simp_all
        then show ?thesis using a raw [of j] by (simp only: free_pages_def)
      qed (use a in \<open>simp add: free_pages_def\<close>)
    qed
  qed
qed

lemma next_page_slot:
  assumes "index = table_index vaddr 12" "findTable p vaddr m = Some tb"
  shows "index + 1 < 512 \<Longrightarrow> index + 1 = table_index (vaddr + 4096) 12 \<and> findTable p (vaddr + 4096) m = Some tb"
    and "512 \<le> index + 1 \<Longrightarrow> table_index (vaddr + 4096) 12 = 0"
proof -
  show "index + 1 = table_index (vaddr + 4096) 12 \<and> findTable p (vaddr + 4096) m = Some tb" if "index + 1 < 512"
    using table_index_add [of vaddr 1] that assms by (simp add: findTable_tbl)
  show "table_index (vaddr + 4096) 12 = 0" if "512 \<le> index + 1"
    using vpage_add [of vaddr 1] that assms(1) table_index_bound [of vaddr 12]
    unfolding index_vpage by (simp add: mod_mod_cancel mod_Suc)
qed


lemma loop_advance:
  assumes "loop_inv p m index tb vaddr combo start" "free_pages p m vaddr k"
    and "unat combo + k < 2 ^ 52" "page_aligned start"
  shows "free_pages p m start (unat combo + k)" "vaddr + of_nat k * 4096 = start + (combo + of_nat k) * 4096"
    "unat (combo + of_nat k) = unat combo + k"
proof -
  have v: "vaddr = start + of_nat (unat combo) * 4096" using assms(1) by (simp add: loop_inv_def)
  then show "free_pages p m start (unat combo + k)"
    using assms(1,2) by (simp add: free_pages_snoc loop_inv_def)
  show "vaddr + of_nat k * 4096 = start + (combo + of_nat k) * 4096" using v by (simp add: algebra_simps)
  have "unat (of_nat k :: u64) = k" using assms(3) by (simp add: unat_of_nat)
  then show "unat (combo + of_nat k) = unat combo + k" using assms(3) by (simp add: unat_word_ariths)
qed

definition loop_post :: "pagemap \<Rightarrow> ram \<Rightarrow> u64 \<Rightarrow> u64 \<Rightarrow> nat \<Rightarrow> u64 \<Rightarrow> u64 \<Rightarrow> u64 \<Rightarrow> u64 \<Rightarrow> u64 \<Rightarrow> bool" where
  "loop_post p m amount m_vend index tb vaddr combo start r \<longleftrightarrow>
     (loop_inv p m index tb vaddr combo start \<longrightarrow> combo < amount \<longrightarrow> unat amount \<le> 2 ^ 40 \<longrightarrow>
        r = 0 \<or> free_pages p m r (unat amount) \<and> page_aligned r)"

lemma contiguous_loop_post:
  assumes "contiguous_loop p m amount m_vend index tb vaddr combo start = Some r"
  shows "loop_post p m amount m_vend index tb vaddr combo start r"
proof (rule contiguous_loop.raw_induct [where P = loop_post], goal_cases)
  case (1 loop p m amount m_vend index tb vaddr combo start r)
  show ?case
    unfolding loop_post_def
  proof (intro impI)
    assume inv: "loop_inv p m index tb vaddr combo start" and less: "combo < amount" and small: "unat amount \<le> 2 ^ 40"
    have c40: "unat combo < 2 ^ 40" using less small by (simp add: word_less_nat_alt)
    have al: "page_aligned start" and va: "page_aligned vaddr" using inv unfolding loop_inv_def by blast+
    note post = 1(1) [unfolded loop_post_def, rule_format, OF _ _ _ small]
    consider (stop) "\<not> vaddr < m_vend"
      | (gap) "vaddr < m_vend" "512 \<le> index" "findTable p vaddr m = None"
      | (slot) j t where "vaddr < m_vend" "\<not> (512 \<le> index \<and> findTable p vaddr m = None)"
          "(if 512 \<le> index then (0, the (findTable p vaddr m)) else (index, tb)) = (j, t)"
          "j = table_index vaddr 12" "findTable p vaddr m = Some t"
      using inv by (cases "512 \<le> index") (auto simp: loop_inv_def)
    then show "r = 0 \<or> free_pages p m r (unat amount) \<and> page_aligned r"
    proof cases
      case stop
      then show ?thesis using 1(2) by simp
    next
      case gap
      have zero: "table_index vaddr 12 = 0" using inv gap(2) unfolding loop_inv_def by blast
      have "free_pages p m vaddr 512"
        using findTable_None [OF gap(3)] table_index_add(2) [of vaddr] zero by (simp add: free_pages_def)
      note adv = loop_advance [OF inv this _ al]
      have c: "unat combo + 512 < 2 ^ 52" using c40 by simp
      show ?thesis
      proof (cases "amount \<le> combo + 512")
        case True
        then have "unat amount \<le> unat combo + 512" using adv(3) [OF c] by (simp add: word_le_nat_alt)
        then show ?thesis
          using 1(2) gap True adv(1) [OF c] al free_pages_snoc [of p m start "unat amount" "unat combo + 512 - unat amount"] by simp
      next
        case False
        then have "loop p m amount m_vend 512 tb (vaddr + 4096 * 512) (combo + 512) start = Some r" using 1(2) gap by simp
        moreover have "table_index (vaddr + 4096 * 512) 12 = 0"
          using vpage_add [of vaddr 512] zero unfolding index_vpage by (simp add: mod_mod_cancel mod_simps)
        then have "loop_inv p m 512 tb (vaddr + 4096 * 512) (combo + 512) start"
          using adv [OF c] al page_aligned_table [OF va] by (simp add: loop_inv_def)
        ultimately show ?thesis using post False by (simp add: not_le)
      qed
    next
      case (slot j t)
      have raw: "rawof_internal p vaddr m = m t j" using findTable_Some [OF slot(5)] slot(4) by simp
      have nxt: "(j + 1 < 512 \<longrightarrow> j + 1 = table_index (vaddr + 4096) 12 \<and> findTable p (vaddr + 4096) m = Some t)
          \<and> (512 \<le> j + 1 \<longrightarrow> table_index (vaddr + 4096) 12 = 0)"
        using next_page_slot [OF slot(4,5)] by blast
      note run = 1(2) [unfolded if_P [OF slot(1)] if_not_P [OF slot(2)] slot(3) Let_def case_prod_conv]
      show ?thesis
      proof (cases "m t j = 0")
        case False
        have "loop_inv p m (j + 1) t (vaddr + 4096) 0 (vaddr + 4096)"
          using nxt page_aligned_step [OF va] by (simp add: loop_inv_def free_pages_def)
        moreover have "loop p m amount m_vend (j + 1) t (vaddr + 4096) 0 (vaddr + 4096) = Some r" using run False by simp
        moreover have "0 < amount" using less by (simp add: word_gt_0) auto
        ultimately show ?thesis using post by blast
      next
        case True
        then have "free_pages p m vaddr 1" using raw by (simp add: free_pages_def)
        note adv = loop_advance [OF inv this _ al]
        have c: "unat combo + 1 < 2 ^ 52" using c40 by simp
        show ?thesis
        proof (cases "amount \<le> combo + 1")
          case le: True
          then have "unat amount \<le> unat combo + 1" using adv(3) [OF c] by (simp add: word_le_nat_alt)
          then show ?thesis
            using run True le adv(1) [OF c] al free_pages_snoc [of p m start "unat amount" "unat combo + 1 - unat amount"] by simp
        next
          case False
          then have "loop p m amount m_vend (j + 1) t (vaddr + 4096) (combo + 1) start = Some r" using run True by simp
          moreover have "loop_inv p m (j + 1) t (vaddr + 4096) (combo + 1) start"
            using nxt adv [OF c] al page_aligned_step [OF va] by (simp add: loop_inv_def)
          ultimately show ?thesis using post False by (simp add: not_le)
        qed
      qed
    qed
  qed
qed (rule assms)

end
