(* ===== verification/PageMap.thy ===== *)
theory PageMap
  imports PageTables
begin

unbundle bit_operations_syntax

text \<open>
  Properties of page maps: finding free pages, and mapping physical memory.
\<close>

subsection \<open>Finding free pages\<close>

lemma live_tbl: "live m t P = Some u \<Longrightarrow> tbl m t P = Some u"
  by (induction m t P rule: live.induct) (auto simp: present_def split: if_splits)

lemma contiguous_loop_total:
  assumes "unat m_vend \<le> 2 ^ 64 - 2 ^ 21"
  shows "\<exists>r. contiguous_loop p m amount m_vend index tb vaddr combo start = Some r"
proof (induction "unat m_vend - unat vaddr" arbitrary: index tb vaddr combo start rule: less_induct)
  case less
  show ?case
  proof (cases "vaddr < m_vend")
    case True
    then have lt: "unat vaddr < unat m_vend" by (simp add: word_less_nat_alt)
    have big: "unat (vaddr + 4096 * 512) = unat vaddr + 2 ^ 21" "unat (vaddr + 4096) = unat vaddr + 4096"
      using lt assms by (simp_all add: unat_word_ariths)
    have "\<exists>r. contiguous_loop p m amount m_vend i t (vaddr + 4096 * 512) c s = Some r"
      "\<exists>r. contiguous_loop p m amount m_vend i t (vaddr + 4096) c s = Some r" for i t c s
      using less [of "vaddr + 4096 * 512" i t c s] less [of "vaddr + 4096" i t c s] lt big by auto
    then show ?thesis
      by (subst contiguous_loop.simps) (simp add: Let_def split: prod.splits)
  qed (subst contiguous_loop.simps, simp)
qed

lemma findContiguous_result:
  assumes "vm_ok p st" "amount \<noteq> 0" "unat amount \<le> 2 ^ 40" "page_aligned (search_start p executable)"
    and "findContiguous p amount executable st = Some (Inr (a, st'))"
  shows "grown p st st' \<and> (a = 0 \<or> free_pages p (ram st') a (unat amount) \<and> page_aligned a)"
proof -
  let ?v = "search_start p executable"
  obtain tb where tb: "(case findTable p ?v (ram st) of Some t \<Rightarrow> Inr (t, st) | None \<Rightarrow> findTableEnsure p ?v st) = Inr (tb, st')"
      and loop: "contiguous_loop p (ram st') amount (vend p) (table_index ?v 12) tb ?v 0 ?v = Some a"
    using assms(2,5) by (auto simp: findContiguous_def Let_def split: sum.splits prod.splits)
  have g: "grown p st st' \<and> findTable p ?v (ram st') = Some tb"
  proof (cases "findTable p ?v (ram st)")
    case None
    then show ?thesis using tb findTableEnsure_ok [OF assms(1)] live_tbl by (auto simp: findTable_tbl)
  qed (use tb assms(1) grown_refl in auto)
  then have "loop_inv p (ram st') (table_index ?v 12) tb ?v 0 ?v"
    using assms(4) table_index_bound [of ?v 12] by (simp add: loop_inv_def free_pages_def)
  moreover have "0 < amount" using assms(2) by (simp add: word_gt_0)
  ultimately show ?thesis
    using contiguous_loop_post [OF loop] assms(3) g by (simp add: loop_post_def)
qed

text \<open>
  \<open>findContiguous\<close> finds free pages. On sound page tables, in an address space that does not
  reach the last two megabytes, the search for \<open>amount\<close> pages ends; the address it returns, unless
  it is null, is aligned, none of the \<open>amount\<close> pages from it on is mapped, and the tables the
  search made on its way change no translation and keep the tables sound.
\<close>

lemma findContiguous_free:
  assumes "vm_ok p st" "amount \<noteq> 0" "unat amount \<le> 2 ^ 40" "page_aligned (search_start p executable)"
    and "unat (vend p) \<le> 2 ^ 64 - 2 ^ 21"
  shows "\<exists>r. findContiguous p amount executable st = Some r
    \<and> (\<forall>a st'. r = Inr (a, st') \<longrightarrow> vm_ok p st'
        \<and> (\<forall>va. rawof_internal p va (ram st') = rawof_internal p va (ram st))
        \<and> (a = 0 \<or> page_aligned a \<and> (\<forall>k < unat amount. rawof_internal p (a + of_nat k * 4096) (ram st') = 0)))"
proof -
  have "\<exists>r. findContiguous p amount executable st = Some r"
    using assms(2) contiguous_loop_total [OF assms(5)]
    by (auto simp: findContiguous_def Let_def split: sum.splits prod.splits option.splits)
  then show ?thesis
    using findContiguous_result [OF assms(1-4)] by (auto simp: grown_def free_pages_def)
qed


text \<open>An address space with one frame, the empty root table, taken.\<close>

definition small_vm :: vmem where
  "small_vm = \<lparr>ram = (\<lambda>_ _. 0), vm_phys = \<lparr>pieces = [\<lparr>fp_start = 0x100000, fp_size = 32, frames_free = 31, fp_bitmap = [1]\<rparr>],
     frames_available = 31, frames_taken_by_kernel = 0\<rparr>, pptr_taken = [False, False, False, False]\<rparr>"

definition small_pm :: pagemap where
  "small_pm = \<lparr>vstart = 0x400000, vend = 0x00007FFFFFFFFFFF, pageRoot = 0x100000, gflags = 0\<rparr>"

lemma small_vm_ok: "vm_ok small_pm small_vm"
proof -
  let ?p = "\<lparr>fp_start = 0x100000, fp_size = 32, frames_free = 31, fp_bitmap = [1]\<rparr> :: frame_piece"
  have "\<forall>i \<in> set [0..<32]. bm_get [1] i \<longleftrightarrow> i = 0" by code_simp
  then have bits: "bm_get [1] i \<longleftrightarrow> i = 0" if "i < 32" for i using that by simp
  have "{i. i < 32 \<and> \<not> bm_get [1] i} = {1..<32}" using bits by (auto simp: Suc_le_eq)
  then have "free_count [1] 32 = 31" by (simp add: free_count_def)
  then have "piece_ok ?p" by (simp add: piece_ok_def fp_wf_def bm_bits_def)
  moreover have "0x100 \<in> taken_pages (vm_phys small_vm)"
    using bits [of 0] by (auto simp: taken_pages_def small_vm_def piece_taken_def fp_taken_def piece_base_def)
  moreover have l: "live (\<lambda>_ _. 0) r P = (if P = [] then Some r else None)" for r P by (cases P) auto
  have "ghosts (\<lambda>_ _. 0) r = {}" "live_tables (\<lambda>_ _. 0) r = {r}" "unshared (\<lambda>_ _. 0) r" for r
    by (auto simp: ghosts_def live_tables_def unshared_def l inner_def split: if_splits)
  moreover have "root_of small_pm = 0x100000" by (simp add: root_of_def small_pm_def aim_pptr_def MEM_PAGE_MASK_def)
  ultimately show ?thesis by (simp add: vm_ok_def tables_ok_def small_vm_def frame_of_def)
qed

subsection \<open>Mapping physical memory\<close>

lemma in_page:
  assumes "page_aligned s" "unat off < 4096"
  shows "vpage (s + off) = vpage s" "(s + off) AND 0xFFF = off"
proof -
  obtain q where q: "unat s = 4096 * q" using assms(1) by (auto simp: page_aligned_def)
  have "q < 2 ^ 52" using q unat_less_2p [of s] by simp
  then have u: "unat (s + off) = 4096 * q + unat off" using assms(2) q by (simp add: unat_word_ariths)
  then show "vpage (s + off) = vpage s" using assms(2) q by (simp add: vpage_def)
  have "(s + off) AND 0xFFF = take_bit 12 (s + off)" by (simp add: take_bit_eq_mask mask_numeral)
  moreover have "take_bit 12 (s + off) = off"
    using u assms(2) by (simp add: word_unat_eq_iff take_bit_eq_mod unat_mod)
  ultimately show "(s + off) AND 0xFFF = off" by simp
qed

lemma page_aligned_run: "page_aligned s \<Longrightarrow> page_aligned (s + of_nat j * 4096)"
proof (induction j)
  case (Suc j)
  then show ?case using page_aligned_step [of "s + of_nat j * 4096"] by (simp add: algebra_simps)
qed simp

lemma unat_ceiltopg64:
  assumes "unat b \<le> 2 ^ 63"
  shows "unat (ceiltopg64 b) = (unat b + 4095) div 4096"
  using assms by (simp add: ceiltopg64_def unat_div unat_word_ariths)

lemma low_flags: "low (ucast (x AND 0x0FFF :: u16))"
proof -
  have e: "x AND 0x0FFF = take_bit 12 x" by (simp add: take_bit_eq_mask mask_numeral)
  have "ucast (x AND 0x0FFF) AND MEM_PAGE_MASK = (0 :: u64)"
    unfolding page_mask(1) e by (rule bit_word_eqI) (auto simp: bit_simps)
  then show ?thesis by (simp add: low_def)
qed

text \<open>The pages \<open>map\<close> takes: one more for memory that does not start at a page.\<close>

definition map_pages :: "u64 \<Rightarrow> u64 \<Rightarrow> nat" where
  "map_pages bytes paddr = unat (ceiltopg64 bytes) + (if paddr AND 0xFFF = 0 then 0 else 1)"

lemma map_run_translates:
  assumes "vm_ok p st" "map_loop False n p s pa flags st = Inr st'" "low (ucast flags)"
    and "page_aligned s" "page_aligned pa" "n \<le> 2 ^ 36" "pa \<noteq> 0" "unat pa + n * 4096 \<le> 2 ^ 64" "j < n" "r < 4096"
  shows "paddrof_internal p (s + of_nat j * 4096 + of_nat r) (ram st') = pa + of_nat j * 4096 + of_nat r"
proof -
  let ?f = "pa + of_nat j * 4096"
  have r: "unat (of_nat r :: u64) < 4096" using assms(10) by (simp add: unat_of_nat)
  note at = in_page [OF page_aligned_run [OF assms(4)] r, of j]
  have "rawof_internal p (s + of_nat j * 4096) (ram st') = (?f AND MEM_PAGE_MASK) OR ucast flags"
    by (rule pages.run_look [OF assms(1) assms(2) [unfolded map_loop_run] assms(6,9)])
  then have raw: "rawof_internal p (s + of_nat j * 4096 + of_nat r) (ram st') AND MEM_PAGE_MASK = ?f"
    using rawof_vpage [OF at(1)] or_low [OF assms(3)] page_aligned_run [OF assms(5), of j]
    by (simp add: aligned_mask page_aligned_def)
  have "j * 4096 < n * 4096" using assms(9) by simp
  then have "unat ?f = unat pa + j * 4096" using assms(6,8) by (simp add: unat_word_ariths unat_of_nat)
  moreover have "0 < unat pa" using assms(7) by (simp add: unat_gt_0)
  ultimately have "?f \<noteq> 0" by (metis add_is_0 less_irrefl unat_0)
  then show ?thesis by (simp add: paddrof_raw raw at(2))
qed

lemma map_run_others:
  assumes "vm_ok p st" "map_loop False n p s pa flags st = Inr st'"
  shows "vm_ok p st'" "\<And>va. (\<forall>k < n. vpage va \<noteq> vpage (s + of_nat k * 4096))
    \<Longrightarrow> rawof_internal p va (ram st') = rawof_internal p va (ram st)"
    "pptr_taken st' = pptr_taken st"
proof -
  show "rawof_internal p va (ram st') = rawof_internal p va (ram st)"
    if "\<forall>k < n. vpage va \<noteq> vpage (s + of_nat k * 4096)" for va
    using pages.run_other [OF assms(1) assms(2) [unfolded map_loop_run], of va] that by blast
  have "vm_ok p st' \<and> pptr_taken st' = pptr_taken st"
    using assms
  proof (induction n arbitrary: s pa st)
    case (Suc n)
    obtain st1 where st1: "assign p s pa flags st = Inr st1" "map_loop False n p (s + 4096) (pa + 4096) flags st1 = Inr st'"
      using Suc.prems(2) by (auto simp: res_bind_Inr_iff)
    have "vm_ok p st1" "pptr_taken st1 = pptr_taken st"
      using assign_ok [OF Suc.prems(1) st1(1)] unfolding remapped_def by blast+
    then show ?case using Suc.IH [OF _ st1(2)] by simp
  qed simp
  then show "vm_ok p st'" "pptr_taken st' = pptr_taken st" by simp_all
qed

lemma window_state:
  "alloc_pptr st = Inr (w, st') \<Longrightarrow> ram st' = ram st \<and> vm_phys st' = vm_phys st \<and> pptr_taken st' = (pptr_taken st)[w := True]
     \<and> w < length (pptr_taken st) \<and> \<not> pptr_taken st ! w"
  "ram (free_pptr w st) = ram st" "vm_phys (free_pptr w st) = vm_phys st" "pptr_taken (free_pptr w st) = (pptr_taken st)[w := False]"
proof -
  have f: "first_untaken bs = Some i \<Longrightarrow> i < length bs \<and> \<not> bs ! i" for bs i
    by (induction bs arbitrary: i) (auto split: if_splits)
  assume "alloc_pptr st = Inr (w, st')"
  then show "ram st' = ram st \<and> vm_phys st' = vm_phys st \<and> pptr_taken st' = (pptr_taken st)[w := True]
     \<and> w < length (pptr_taken st) \<and> \<not> pptr_taken st ! w"
    using f by (auto simp: alloc_pptr_def split: option.splits)
qed (simp_all add: free_pptr_def)

lemma vm_ok_window: "ram st' = ram st \<Longrightarrow> vm_phys st' = vm_phys st \<Longrightarrow> vm_ok p st' = vm_ok p st"
  by (simp add: vm_ok_def)

text \<open>The two parts of a call of \<open>map\<close> that does not ask for arbitrary pages.\<close>

lemma pm_map_split:
  assumes "pm_map p bytes paddr flags source st = Some (Inr (a, st'))" "flags AND 0x4000 = 0"
  obtains w st0 s st1 st2 fl where "alloc_pptr st = Inr (w, st0)"
    "place p (ucast (flags OR ucast PAGE_NOPHYS OR ucast PAGE_PRESENT)) source False (ceiltopg64 bytes) st0 = Some (Inr (s, st1))"
    "low (ucast fl)" "map_loop False (unat (if paddr AND 0xFFF > 0 then ceiltopg64 bytes + 1 else ceiltopg64 bytes)) p s
       (paddr - (paddr AND 0xFFF)) fl st1 = Inr st2"
    "a = s + (paddr AND 0xFFF)" "st' = free_pptr w st2"
proof -
  let ?fl = "flags OR ucast PAGE_NOPHYS OR ucast PAGE_PRESENT :: u16"
  have "?fl AND 0x4000 = flags AND 0x4000"
    by (simp add: bit.conj_disj_distrib2 PAGE_NOPHYS_def PAGE_PRESENT_def)
  then have "ucast ?fl AND PAGE_ARBITRARY = ucast (flags AND 0x4000)"
    using arg_cong [of "?fl AND 0x4000" _ "ucast :: u16 \<Rightarrow> u64"] unfolding unsigned_and_eq
    by (simp add: PAGE_ARBITRARY_def unsigned_and_eq)
  then have arb: "(ucast ?fl AND PAGE_ARBITRARY \<noteq> 0) = False" using assms(2) by (simp only: unsigned_0) simp
  obtain w st0 where w: "alloc_pptr st = Inr (w, st0)"
    using assms(1) by (auto simp: pm_map_def Let_def split: sum.splits)
  obtain s st1 where s: "place p (ucast ?fl) source False (ceiltopg64 bytes) st0 = Some (Inr (s, st1))"
    using assms(1) w by (auto simp: pm_map_def Let_def run_bind_def split: option.splits sum.splits)
  note rest = assms(1) [unfolded pm_map_def Let_def w sum.case prod.case s run_bind_def option.case arb if_False]
  from rest obtain st2 where "map_loop False (unat (if paddr AND 0xFFF > 0 then ceiltopg64 bytes + 1 else ceiltopg64 bytes)) p s
       (paddr - (paddr AND 0xFFF)) ((?fl OR ucast (gflags p)) AND 0x0FFF) st1 = Inr st2"
     "a = s + (paddr AND 0xFFF)" "st' = free_pptr w st2"
    by (auto simp only: option.inject res_bind_Inr_iff sum.inject prod.inject)
  then show thesis using that w s low_flags by blast
qed


lemma place_start:
  assumes "vm_ok p st" "place p flags source False amount st = Some (Inr (s, st'))"
    and "amount \<noteq> 0" "unat amount \<le> 2 ^ 40" "page_aligned source" "page_aligned (vstart p)"
  shows "vm_ok p st'" "\<And>va. rawof_internal p va (ram st') = rawof_internal p va (ram st)" "page_aligned s"
    "pptr_taken st' = pptr_taken st"
    "flags AND PAGE_FIXED = 0 \<Longrightarrow> s = 0 \<or> free_pages p (ram st) s (unat amount)"
    "flags AND PAGE_FIXED \<noteq> 0 \<Longrightarrow> s = source"
proof -
  have r: "if flags AND PAGE_FIXED \<noteq> 0 then s = source \<and> st' = st
    else grown p st st' \<and> (s = 0 \<or> free_pages p (ram st') s (unat amount) \<and> page_aligned s)"
    using findContiguous_result [OF assms(1,3,4), of False s st'] assms(2,6)
    by (auto simp: place_def search_start_def split: if_splits)
  moreover have "page_aligned 0" by (simp add: page_aligned_def)
  ultimately show "vm_ok p st'" "\<And>va. rawof_internal p va (ram st') = rawof_internal p va (ram st)" "page_aligned s"
    "pptr_taken st' = pptr_taken st" "flags AND PAGE_FIXED = 0 \<Longrightarrow> s = 0 \<or> free_pages p (ram st) s (unat amount)"
    "flags AND PAGE_FIXED \<noteq> 0 \<Longrightarrow> s = source"
    using assms(1,5) by (auto simp: grown_def free_pages_def split: if_splits)
qed

lemma paddr_parts:
  fixes paddr :: u64
  assumes "4096 \<le> paddr"
  shows "page_aligned (paddr - (paddr AND 0xFFF))" "paddr - (paddr AND 0xFFF) \<noteq> 0" "unat (paddr AND 0xFFF) < 4096"
    "unat (paddr - (paddr AND 0xFFF)) + unat (paddr AND 0xFFF) = unat paddr"
proof -
  have "paddr AND 0xFFF = take_bit 12 paddr" by (simp add: take_bit_eq_mask mask_numeral)
  then have o: "unat (paddr AND 0xFFF) = unat paddr mod 4096"
    by (simp add: take_bit_eq_mod unat_mod)
  then have "paddr AND 0xFFF \<le> paddr" by (simp add: word_le_nat_alt)
  then have d: "unat (paddr - (paddr AND 0xFFF)) = unat paddr - unat paddr mod 4096" using o by (simp add: unat_sub)
  then show "page_aligned (paddr - (paddr AND 0xFFF))" by (simp add: page_aligned_def)
  have "4096 \<le> unat paddr" using assms by (simp add: word_le_nat_alt)
  moreover have "unat paddr mod 4096 < 4096" by simp
  ultimately have "unat (paddr - (paddr AND 0xFFF)) \<noteq> 0" unfolding d by linarith
  then show "paddr - (paddr AND 0xFFF) \<noteq> 0" by auto
  show "unat (paddr AND 0xFFF) < 4096" "unat (paddr - (paddr AND 0xFFF)) + unat (paddr AND 0xFFF) = unat paddr"
    unfolding d o by simp_all
qed


lemma map_count:
  assumes "0 < bytes" "unat bytes \<le> 2 ^ 40"
  shows "unat (if 0 < paddr AND 0xFFF then ceiltopg64 bytes + 1 else ceiltopg64 bytes) = map_pages bytes paddr"
    "map_pages bytes paddr \<le> 2 ^ 36" "unat bytes + unat (paddr AND 0xFFF) \<le> map_pages bytes paddr * 4096"
    "ceiltopg64 bytes \<noteq> 0" "unat (ceiltopg64 bytes) \<le> 2 ^ 40" "map_pages bytes paddr * 4096 < unat bytes + 8192"
proof -
  have c: "unat (ceiltopg64 bytes) = (unat bytes + 4095) div 4096" using assms(2) by (simp add: unat_ceiltopg64)
  have z: "(0 < paddr AND 0xFFF) = (paddr AND 0xFFF \<noteq> 0)" by (simp add: word_gt_0)
  have b: "unat (ceiltopg64 bytes) \<le> 2 ^ 29" using c assms(2) by simp
  then have "unat (ceiltopg64 bytes + 1) = unat (ceiltopg64 bytes) + 1" by (simp add: unat_word_ariths)
  then show "unat (if 0 < paddr AND 0xFFF then ceiltopg64 bytes + 1 else ceiltopg64 bytes) = map_pages bytes paddr"
    unfolding z map_pages_def by simp
  show "map_pages bytes paddr \<le> 2 ^ 36" "unat (ceiltopg64 bytes) \<le> 2 ^ 40" using b by (simp_all add: map_pages_def)
  have "paddr AND 0xFFF \<le> 0xFFF" by (rule word_and_le1)
  then have "unat (paddr AND 0xFFF) \<le> 4095" by (simp add: word_le_nat_alt)
  then show "unat bytes + unat (paddr AND 0xFFF) \<le> map_pages bytes paddr * 4096"
    unfolding map_pages_def c by (cases "paddr AND 0xFFF = 0") simp_all
  have "q div 4096 * 4096 \<le> q" for q :: nat by simp
  from this [of "unat bytes + 4095"] have "unat (ceiltopg64 bytes) * 4096 < unat bytes + 4096" by (simp only: c)
  then show "map_pages bytes paddr * 4096 < unat bytes + 8192" by (simp add: map_pages_def)
  have "0 < unat bytes" using assms(1) by (simp add: word_less_nat_alt)
  then have "0 < unat (ceiltopg64 bytes)" unfolding c by simp
  then show "ceiltopg64 bytes \<noteq> 0" by auto
qed

lemma map_run_bytes:
  assumes "vm_ok p st" "map_loop False n p s (paddr - off) fl st = Inr st'" "low (ucast fl)" "page_aligned s"
    and "4096 \<le> paddr" "off = paddr AND 0xFFF" "n \<le> 2 ^ 36" "unat (paddr - off) + n * 4096 \<le> 2 ^ 64" "unat off + k < n * 4096"
  shows "paddrof_internal p (s + off + of_nat k) (ram st') = paddr + of_nat k"
proof -
  define j r where "j = (unat off + k) div 4096" and "r = (unat off + k) mod 4096"
  have "(of_nat (unat off + k) :: u64) = of_nat (j * 4096 + r)" by (simp add: j_def r_def)
  then have jr: "off + of_nat k = of_nat j * 4096 + of_nat r" by simp
  note part = paddr_parts [OF assms(5), folded assms(6)]
  have "j < n" "r < 4096" using assms(9) by (simp_all add: j_def r_def less_mult_imp_div_less)
  from map_run_translates [OF assms(1-4) part(1) assms(7) part(2) assms(8) this]
  have "paddrof_internal p (s + of_nat j * 4096 + of_nat r) (ram st') = paddr - off + of_nat j * 4096 + of_nat r" .
  moreover have "s + off + of_nat k = s + of_nat j * 4096 + of_nat r" using jr by (simp add: algebra_simps)
  moreover have "paddr + of_nat k = paddr - off + of_nat j * 4096 + of_nat r" using jr by (simp add: algebra_simps)
  ultimately show ?thesis by (simp only:)
qed

text \<open>
  C20. \<open>map\<close> makes physical memory visible. Mapping \<open>bytes\<close> bytes of physical memory from \<open>paddr\<close> on, in sound
  page tables, gives an address at which every one of these bytes, aligned or not, translates to its physical
  address; the translation of no page outside the ones taken changes, the tables stay sound, and every window is
  given back. The pages are the ones asked for, if the call fixes them, and otherwise, if \<open>paddr\<close> is aligned and
  the address not null, they were free.
\<close>

theorem map_translates:
  assumes "vm_ok p st" "page_aligned source" "page_aligned (vstart p)" "0 < bytes" "unat bytes \<le> 2 ^ 40"
    and "4096 \<le> paddr" "unat paddr + unat bytes + 8192 \<le> 2 ^ 64" "flags AND 0x4000 = 0"
    and "pm_map p bytes paddr flags source st = Some (Inr (a, st'))"
  shows "(\<forall>k < unat bytes. paddrof_internal p (a + of_nat k) (ram st') = paddr + of_nat k)
    \<and> (\<forall>va. (\<forall>k < map_pages bytes paddr. vpage va \<noteq> vpage (a + of_nat k * 4096))
          \<longrightarrow> rawof_internal p va (ram st') = rawof_internal p va (ram st))
    \<and> vm_ok p st' \<and> pptr_taken st' = pptr_taken st
    \<and> (flags AND 0x2000 \<noteq> 0 \<longrightarrow> a = source + (paddr AND 0xFFF))
    \<and> (flags AND 0x2000 = 0 \<longrightarrow> paddr AND 0xFFF = 0 \<longrightarrow> a \<noteq> 0 \<longrightarrow>
         (\<forall>k < map_pages bytes paddr. rawof_internal p (a + of_nat k * 4096) (ram st) = 0))"
proof -
  define off n where "off = paddr AND 0xFFF" and "n = map_pages bytes paddr"
  note part = paddr_parts [OF assms(6), folded off_def]
  note cnt = map_count(1-3,6) [OF assms(4,5), of paddr, folded off_def n_def]
  note amount = map_count(4,5) [OF assms(4,5)]
  obtain w st0 s st1 st2 fl where w: "alloc_pptr st = Inr (w, st0)"
    and pl: "place p (ucast (flags OR ucast PAGE_NOPHYS OR ucast PAGE_PRESENT)) source False (ceiltopg64 bytes) st0 = Some (Inr (s, st1))"
    and lo: "low (ucast fl)" and run: "map_loop False n p s (paddr - off) fl st1 = Inr st2"
    and a: "a = s + off" "st' = free_pptr w st2"
    using pm_map_split [OF assms(9,8)] unfolding cnt(1) [unfolded off_def] n_def off_def by metis
  have win: "ram st0 = ram st" "vm_phys st0 = vm_phys st" "pptr_taken st0 = (pptr_taken st)[w := True]"
    "w < length (pptr_taken st)" "\<not> pptr_taken st ! w"
    using window_state(1) [OF w] by blast+
  have ok0: "vm_ok p st0" using assms(1) vm_ok_window [OF win(1,2)] by simp
  note start = place_start [OF ok0 pl amount assms(2,3)]
  note ran = map_run_others [OF start(1) run]
  have page: "vpage (a + of_nat k * 4096) = vpage (s + of_nat k * 4096)" for k
    using in_page(1) [OF page_aligned_run [OF start(3), of k] part(3)] by (simp add: a(1) algebra_simps)
  have bnd: "unat (paddr - off) + n * 4096 \<le> 2 ^ 64" using cnt(4) part(4) assms(7) by linarith
  have "unat off + k < n * 4096" if "k < unat bytes" for k using that cnt(3) by simp
  note bytes = map_run_bytes [OF start(1) run lo start(3) assms(6) off_def cnt(2) bnd this]
  have fixed: "ucast (flags OR ucast PAGE_NOPHYS OR ucast PAGE_PRESENT) AND PAGE_FIXED = (ucast (flags AND 0x2000) :: u64)"
    by (simp add: PAGE_FIXED_def unsigned_or_eq unsigned_and_eq bit.conj_disj_distrib2 PAGE_NOPHYS_def PAGE_PRESENT_def)
  have wide: "ucast (x :: u16) = (0 :: u64) \<longleftrightarrow> x = 0" for x by transfer (simp add: take_bit_take_bit)
  have a_free: "off = 0 \<Longrightarrow> a = s \<and> n = unat (ceiltopg64 bytes)" by (simp add: a n_def map_pages_def off_def)
  show ?thesis
  proof (intro conjI)
    show "\<forall>k < unat bytes. paddrof_internal p (a + of_nat k) (ram st') = paddr + of_nat k"
      using bytes by (simp add: a window_state(2))
    show "\<forall>va. (\<forall>k < map_pages bytes paddr. vpage va \<noteq> vpage (a + of_nat k * 4096))
          \<longrightarrow> rawof_internal p va (ram st') = rawof_internal p va (ram st)"
      unfolding page a(2) window_state(2) n_def [symmetric] using ran(2) start(2) win by simp
    show "vm_ok p st'" using vm_ok_window [of st' st2] ran(1) by (simp add: a(2) window_state)
    show "pptr_taken st' = pptr_taken st" using ran(3) start(4) win list_update_id [of "pptr_taken st" w] by (simp add: a(2) window_state)
    show "flags AND 0x2000 \<noteq> 0 \<longrightarrow> a = source + (paddr AND 0xFFF)"
      using start(6) by (simp add: fixed wide a(1) off_def)
    show "flags AND 0x2000 = 0 \<longrightarrow> paddr AND 0xFFF = 0 \<longrightarrow> a \<noteq> 0 \<longrightarrow>
         (\<forall>k < map_pages bytes paddr. rawof_internal p (a + of_nat k * 4096) (ram st) = 0)"
      using start(5) a_free win by (auto simp: fixed wide off_def n_def free_pages_def)
  qed
qed


text \<open>
  Witness of C20: the text screen, 4000 bytes of device memory, mapped at a fixed address of the small
  address space.
\<close>

theorem map_translates_witness:
  "\<exists>st'. pm_map small_pm 4000 0xB8000 0x2002 0x600000 small_vm = Some (Inr (0x600000, st'))
     \<and> vm_ok small_pm st' \<and> paddrof_internal small_pm (0x600000 + 3999) (ram st') = 0xB8000 + 3999"
proof -
  let ?r = "pm_map small_pm 4000 0xB8000 0x2002 0x600000 small_vm"
  have "case ?r of Some r \<Rightarrow> \<not> isl r | None \<Rightarrow> False" by code_simp
  then obtain a st' where r: "?r = Some (Inr (a, st'))"
    by (cases ?r) (auto split: sum.splits, metis isl_def obj_sumE surj_pair)
  have "page_aligned 0x600000" "page_aligned (vstart small_pm)"
    by (simp_all add: small_pm_def page_aligned_def)
  note m = map_translates [OF small_vm_ok this _ _ _ _ _ r, simplified]
  from m have "a = 0x600000" "vm_ok small_pm st'" by simp_all
  moreover from m have "\<forall>k < 4000. paddrof_internal small_pm (a + of_nat k) (ram st') = 0xB8000 + of_nat k" by (elim conjE)
  note this [rule_format, of 3999]
  ultimately show ?thesis using r by simp
qed

end
