(* ===== verification/Locks.thy ===== *)
theory Locks
  imports Event
begin

text \<open>
  Locks (\<open>kernel/spinlock.cpp\<close>, \<open>kernel/mutex.cpp\<close>, \<open>kernel/rwspinlock.cpp\<close>, \<open>kernel/rwmutex.cpp\<close>),
  run by several threads at once. The steps of different threads interleave, so a method is the list
  of its atomic instructions in the order of the code, and a thread that runs it has the
  instructions it still has to execute. A method that calls another contains its instructions. What
  happens beside the lock is left to the thread: the processor given up in a loop, and
  signals and aborts handled when the thread stops being busy.
\<close>

subsection \<open>Counters of a thread\<close>

definition addBusy :: "'a thread_scheme \<Rightarrow> 'a thread_scheme" where "addBusy t = t\<lparr>m_busy := m_busy t + 1\<rparr>"
definition subBusy :: "'a thread_scheme \<Rightarrow> 'a thread_scheme" where "subBusy t = t\<lparr>m_busy := m_busy t - 1\<rparr>"
definition isBusy :: "'a thread_scheme \<Rightarrow> bool" where "isBusy t \<longleftrightarrow> m_busy t > 0"
definition addCritical :: "'a thread_scheme \<Rightarrow> 'a thread_scheme" where
  "addCritical t = t\<lparr>m_busy := m_busy t + 1, m_critical := m_critical t + 1\<rparr>"
definition subCritical :: "'a thread_scheme \<Rightarrow> 'a thread_scheme" where
  "subCritical t = t\<lparr>m_critical := m_critical t - 1, m_busy := m_busy t - 1\<rparr>"
definition isCritical :: "'a thread_scheme \<Rightarrow> bool" where "isCritical t \<longleftrightarrow> m_critical t > 0"

subsection \<open>State\<close>

text \<open>
  The fields of a lock: the lock word and owner of \<open>Spinlock\<close> and \<open>Mutex\<close>, and the counters which
  the readers-writer locks have beside their \<open>Spinlock\<close>. A counter never exceeds the number of threads.
\<close>

record lock =
  m_lock :: bool
  m_thread :: "tid option"
  m_read :: int
  m_write :: int

definition new_lock :: lock where
  "new_lock = \<lparr>m_lock = False, m_thread = None, m_read = 0, m_write = 0\<rparr>"

datatype instr =
    ZeroCount \<comment> \<open>\<open>size_t count = 0\<close>\<close>
  | AddCritical | SubCritical | AddBusy | SubBusy | IncHeld | DecHeld
  | SetOwner | ClearOwner \<comment> \<open>\<open>m_thread = ...\<close>\<close>
  | SpinLoop | RawLoop | MutexLoop \<comment> \<open>\<open>while (!__sync_bool_compare_and_swap(&m_lock, false, true))\<close>\<close>
  | SpinHang u64 | MutexHang \<comment> \<open>\<open>count++\<close> and the panics in the loops\<close>
  | SpinTry | RawTry | MutexTry \<comment> \<open>the same swap, tried once\<close>
  | Unlock | AssertUnlock | TryUnlock \<comment> \<open>\<open>__sync_bool_compare_and_swap(&m_lock, true, false)\<close>\<close>
  | AssertBusy
  | WhileWriting | IfWriting \<comment> \<open>\<open>Mem::atomic_read(&m_write)\<close>\<close>
  | AssertReading | AssertWriting
  | AddRead | SubRead | AddWrite | SubWrite

datatype role = Outside | Inside | InsideRaw | Reading | Writing

record actor =
  thr :: thread
  held_mutexes :: int
  count :: u64
  code :: "instr list"
  role_of :: role

record world =
  the_lock :: lock
  actors :: "tid \<Rightarrow> actor"
  stopped :: "fault option"

subsection \<open>Methods\<close>

definition HUNG_LIMIT :: u64 where "HUNG_LIMIT = 12212222 * 50"
definition HUNG_LIMIT_RAW :: u64 where "HUNG_LIMIT_RAW = 12212222 * 10"

definition Spinlock_acquire :: "instr list" where
  "Spinlock_acquire = [ZeroCount, AddCritical, SpinLoop, SetOwner]"

definition spin_retry :: "instr list" where
  "spin_retry = [SubCritical, SpinHang HUNG_LIMIT, AddCritical]"

definition Spinlock_release :: "instr list" where
  "Spinlock_release = [Unlock, SubCritical, ClearOwner]"

definition Spinlock_tryAcquire :: "instr list" where
  "Spinlock_tryAcquire = [AddCritical, SpinTry]"

definition isAcquired :: "lock \<Rightarrow> bool" where
  "isAcquired l = m_lock l"

definition Spinlock_acquireRaw :: "instr list" where
  "Spinlock_acquireRaw = [ZeroCount, RawLoop]"

definition raw_retry :: "instr list" where
  "raw_retry = [SpinHang HUNG_LIMIT_RAW]"

definition Spinlock_releaseRaw :: "instr list" where
  "Spinlock_releaseRaw = [Unlock]"

definition Spinlock_tryAcquireRaw :: "instr list" where
  "Spinlock_tryAcquireRaw = [RawTry]"

definition Spinlock_tryReleaseRaw :: "instr list" where
  "Spinlock_tryReleaseRaw = [TryUnlock]"

definition Mutex_acquire :: "instr list" where
  "Mutex_acquire = [ZeroCount, AddBusy, MutexLoop, SetOwner, IncHeld]"

definition mutex_retry :: "instr list" where
  "mutex_retry = [SubBusy, MutexHang, AddBusy]"

definition Mutex_release :: "instr list" where
  "Mutex_release = [AssertBusy, AssertUnlock, ClearOwner, DecHeld, SubBusy]"

definition Mutex_tryAcquire :: "instr list" where
  "Mutex_tryAcquire = [AddBusy, MutexTry, SetOwner, IncHeld]"

definition RWSpinlock_acquire_read :: "instr list" where
  "RWSpinlock_acquire_read = Spinlock_acquire @ [WhileWriting, AddCritical, AddRead] @ Spinlock_release"

definition RWSpinlock_acquire_write :: "instr list" where
  "RWSpinlock_acquire_write = Spinlock_acquire @ [WhileWriting, AddCritical, AddWrite] @ Spinlock_release"

definition RWSpinlock_upgrade :: "instr list" where
  "RWSpinlock_upgrade = Spinlock_acquire @ [WhileWriting, AddWrite, SubRead] @ Spinlock_release"

definition RWSpinlock_downgrade :: "instr list" where
  "RWSpinlock_downgrade = Spinlock_acquire @ [AddRead, SubWrite] @ Spinlock_release"

definition RWSpinlock_release_read :: "instr list" where
  "RWSpinlock_release_read = [AssertReading, SubRead, SubCritical]"

definition RWSpinlock_release_write :: "instr list" where
  "RWSpinlock_release_write = [AssertWriting, SubWrite, SubCritical]"

definition writing_retry :: "instr list" where
  "writing_retry = Spinlock_release @ Spinlock_acquire"

definition RWMutex_acquire_read :: "instr list" where
  "RWMutex_acquire_read = Spinlock_acquire @ [WhileWriting, AddBusy, AddRead] @ Spinlock_release"

definition RWMutex_acquire_write :: "instr list" where
  "RWMutex_acquire_write = Spinlock_acquire @ [WhileWriting, AddBusy, AddWrite] @ Spinlock_release"

definition RWMutex_tryAcquire_read :: "instr list" where
  "RWMutex_tryAcquire_read = Spinlock_acquire @ [IfWriting, AddBusy, AddRead] @ Spinlock_release"

definition RWMutex_tryAcquire_write :: "instr list" where
  "RWMutex_tryAcquire_write = Spinlock_acquire @ [IfWriting, AddBusy, AddWrite] @ Spinlock_release"

definition RWMutex_upgrade :: "instr list" where
  "RWMutex_upgrade = Spinlock_acquire @ [WhileWriting, AddWrite, SubRead] @ Spinlock_release"

definition RWMutex_downgrade :: "instr list" where
  "RWMutex_downgrade = Spinlock_acquire @ [AddRead, SubWrite] @ Spinlock_release"

definition RWMutex_release_read :: "instr list" where
  "RWMutex_release_read = [AssertReading, SubRead, SubBusy]"

definition RWMutex_release_write :: "instr list" where
  "RWMutex_release_write = [AssertWriting, SubWrite, SubBusy]"

text \<open>\<open>acquired_read\<close> and \<open>acquired_write\<close> only look, holding the spinlock.\<close>

definition RWMutex_acquired :: "instr list" where
  "RWMutex_acquired = Spinlock_acquire @ Spinlock_release"

datatype lock_kind = KSpin | KMutex | KRWSpin | KRWMutex

text \<open>The calls of a thread in a role, and the role it has when the call returns.\<close>

fun methods :: "lock_kind \<Rightarrow> (role \<times> instr list \<times> role) list" where
  "methods KSpin =
    [(Outside, Spinlock_acquire, Inside), (Outside, Spinlock_tryAcquire, Inside), (Inside, Spinlock_release, Outside),
     (Outside, Spinlock_acquireRaw, InsideRaw), (Outside, Spinlock_tryAcquireRaw, InsideRaw),
     (InsideRaw, Spinlock_releaseRaw, Outside), (InsideRaw, Spinlock_tryReleaseRaw, Outside)]"
| "methods KMutex =
    [(Outside, Mutex_acquire, Inside), (Outside, Mutex_tryAcquire, Inside), (Inside, Mutex_release, Outside)]"
| "methods KRWSpin =
    [(Outside, RWSpinlock_acquire_read, Reading), (Outside, RWSpinlock_acquire_write, Writing),
     (Reading, RWSpinlock_upgrade, Writing), (Writing, RWSpinlock_downgrade, Reading),
     (Reading, RWSpinlock_release_read, Outside), (Writing, RWSpinlock_release_write, Outside)]"
| "methods KRWMutex =
    [(Outside, RWMutex_acquire_read, Reading), (Outside, RWMutex_acquire_write, Writing),
     (Outside, RWMutex_tryAcquire_read, Reading), (Outside, RWMutex_tryAcquire_write, Writing),
     (Reading, RWMutex_upgrade, Writing), (Writing, RWMutex_downgrade, Reading),
     (Reading, RWMutex_release_read, Outside), (Writing, RWMutex_release_write, Outside),
     (Outside, RWMutex_acquired, Outside), (Reading, RWMutex_acquired, Reading), (Writing, RWMutex_acquired, Writing)]"

subsection \<open>Execution\<close>

text \<open>
  One instruction, run by thread \<open>t\<close>; \<open>code\<close> holds the instructions behind it. A loop whose condition
  does not hold puts its body and itself in front of them. A call that fails drops them: it
  undoes what it did, and the role stays what it was.
\<close>

fun exec :: "tid \<Rightarrow> instr \<Rightarrow> actor \<times> lock \<Rightarrow> (actor \<times> lock) res" where
  "exec t ZeroCount (a, l) = Inr (a\<lparr>count := 0\<rparr>, l)"
| "exec t AddCritical (a, l) = Inr (a\<lparr>thr := addCritical (thr a)\<rparr>, l)"
| "exec t SubCritical (a, l) = Inr (a\<lparr>thr := subCritical (thr a)\<rparr>, l)"
| "exec t AddBusy (a, l) = Inr (a\<lparr>thr := addBusy (thr a)\<rparr>, l)"
| "exec t SubBusy (a, l) = Inr (a\<lparr>thr := subBusy (thr a)\<rparr>, l)"
| "exec t IncHeld (a, l) = Inr (a\<lparr>held_mutexes := held_mutexes a + 1\<rparr>, l)"
| "exec t DecHeld (a, l) = Inr (a\<lparr>held_mutexes := held_mutexes a - 1\<rparr>, l)"
| "exec t SetOwner (a, l) = Inr (a, l\<lparr>m_thread := Some t\<rparr>)"
| "exec t ClearOwner (a, l) = Inr (a, l\<lparr>m_thread := None\<rparr>)"
| "exec t SpinLoop (a, l) =
     Inr (if m_lock l then (a\<lparr>code := spin_retry @ SpinLoop # code a\<rparr>, l) else (a, l\<lparr>m_lock := True\<rparr>))"
| "exec t RawLoop (a, l) =
     Inr (if m_lock l then (a\<lparr>code := raw_retry @ RawLoop # code a\<rparr>, l) else (a, l\<lparr>m_lock := True\<rparr>))"
| "exec t MutexLoop (a, l) =
     Inr (if m_lock l then (a\<lparr>code := mutex_retry @ MutexLoop # code a\<rparr>, l) else (a, l\<lparr>m_lock := True\<rparr>))"
| "exec t (SpinHang limit) (a, l) =
     (if count a + 1 > limit then Inl KPanic else Inr (a\<lparr>count := count a + 1\<rparr>, l))"
| "exec t MutexHang (a, l) =
     (let c = count a + 1 in
      if c > HUNG_LIMIT then Inl (if m_thread l = None then NullDeref else KPanic)
      else if isCritical (thr a) \<and> c = 1 \<and> m_thread l = None then Inl NullDeref
      else Inr (a\<lparr>count := c\<rparr>, l))"
| "exec t SpinTry (a, l) =
     Inr (if m_lock l then (a\<lparr>code := [SubCritical], role_of := Outside\<rparr>, l) else (a, l\<lparr>m_lock := True\<rparr>))"
| "exec t RawTry (a, l) =
     Inr (if m_lock l then (a\<lparr>code := [], role_of := Outside\<rparr>, l) else (a, l\<lparr>m_lock := True\<rparr>))"
| "exec t MutexTry (a, l) =
     Inr (if m_lock l then (a\<lparr>code := [SubBusy], role_of := Outside\<rparr>, l) else (a, l\<lparr>m_lock := True\<rparr>))"
| "exec t Unlock (a, l) = (if m_lock l then Inr (a, l\<lparr>m_lock := False\<rparr>) else Inl KPanic)"
| "exec t AssertUnlock (a, l) = (if m_lock l then Inr (a, l\<lparr>m_lock := False\<rparr>) else Inl AssertFailed)"
| "exec t TryUnlock (a, l) = Inr (a, l\<lparr>m_lock := False\<rparr>)"
| "exec t AssertBusy (a, l) = (if isBusy (thr a) then Inr (a, l) else Inl AssertFailed)"
| "exec t WhileWriting (a, l) =
     Inr (if m_write l \<noteq> 0 then (a\<lparr>code := writing_retry @ WhileWriting # code a\<rparr>, l) else (a, l))"
| "exec t IfWriting (a, l) =
     Inr (if m_write l \<noteq> 0 then (a\<lparr>code := Spinlock_release, role_of := Outside\<rparr>, l) else (a, l))"
| "exec t AssertReading (a, l) = (if m_read l > 0 then Inr (a, l) else Inl AssertFailed)"
| "exec t AssertWriting (a, l) = (if m_write l > 0 then Inr (a, l) else Inl AssertFailed)"
| "exec t AddRead (a, l) = Inr (a, l\<lparr>m_read := m_read l + 1\<rparr>)"
| "exec t SubRead (a, l) = Inr (a, l\<lparr>m_read := m_read l - 1\<rparr>)"
| "exec t AddWrite (a, l) = Inr (a, l\<lparr>m_write := m_write l + 1\<rparr>)"
| "exec t SubWrite (a, l) = Inr (a, l\<lparr>m_write := m_write l - 1\<rparr>)"

definition put_actor :: "tid \<Rightarrow> actor \<Rightarrow> world \<Rightarrow> world" where
  "put_actor t a w = w\<lparr>actors := (actors w)(t := a)\<rparr>"

text \<open>One step of thread \<open>t\<close>: it starts a call, or executes its next instruction.\<close>

definition run_instr :: "tid \<Rightarrow> world \<Rightarrow> world" where
  "run_instr t w = (case code (actors w t) of [] \<Rightarrow> w
     | i # is \<Rightarrow> (case exec t i ((actors w t)\<lparr>code := is\<rparr>, the_lock w) of
         Inl f \<Rightarrow> w\<lparr>stopped := Some f\<rparr>
       | Inr (a, l) \<Rightarrow> put_actor t a w\<lparr>the_lock := l\<rparr>))"

inductive lock_step :: "lock_kind \<Rightarrow> nat \<Rightarrow> world \<Rightarrow> world \<Rightarrow> bool" for k n where
  call: "t < n \<Longrightarrow> stopped w = None \<Longrightarrow> code (actors w t) = [] \<Longrightarrow> (role_of (actors w t), p, r) \<in> set (methods k) \<Longrightarrow>
    lock_step k n w (put_actor t ((actors w t)\<lparr>code := p, role_of := r\<rparr>) w)"
| run: "t < n \<Longrightarrow> stopped w = None \<Longrightarrow> code (actors w t) \<noteq> [] \<Longrightarrow> lock_step k n w (run_instr t w)"

text \<open>At the beginning the lock is free and no thread uses it; the busy counters are far from their width.\<close>

definition fresh_world :: "nat \<Rightarrow> world \<Rightarrow> bool" where
  "fresh_world n w \<longleftrightarrow> the_lock w = new_lock \<and> stopped w = None
     \<and> (\<forall>t < n. code (actors w t) = [] \<and> role_of (actors w t) = Outside \<and> m_busy (thr (actors w t)) < 0xFF00)"

end
