(* ===== verification/Ledger.thy ===== *)
theory Ledger
  imports Prelude
begin

text \<open>
  Counters kept by many threads: a counter is the sum of the shares the threads have in it, if
  every step changes it by what one thread's share changes. A share is 0 or 1, so a counter
  that is at most 1 belongs to one thread.
\<close>

locale ledger =
  fixes n :: nat and counter :: "'s \<Rightarrow> int" and share :: "'s \<Rightarrow> nat \<Rightarrow> int" and ok :: "'s \<Rightarrow> bool"
    and step :: "'s \<Rightarrow> 's \<Rightarrow> bool"
  assumes ok_step: "ok s \<Longrightarrow> step s s' \<Longrightarrow> ok s'"
    and share_step: "ok s \<Longrightarrow> counter s = (\<Sum>t < n. share s t) \<Longrightarrow> step s s' \<Longrightarrow>
      \<exists>t < n. (\<forall>u. u \<noteq> t \<longrightarrow> share s' u = share s u) \<and> counter s' - counter s = share s' t - share s t"
    and share_range: "ok s \<Longrightarrow> t < n \<Longrightarrow> share s t \<in> {0, 1}"
begin

definition balanced :: "'s \<Rightarrow> bool" where
  "balanced s \<longleftrightarrow> ok s \<and> counter s = (\<Sum>t < n. share s t)"

lemma balanced_step:
  assumes "balanced s" "step s s'"
  shows "balanced s'"
proof -
  have ok: "ok s" "counter s = (\<Sum>t < n. share s t)" using assms(1) by (simp_all add: balanced_def)
  then obtain t where t: "t < n" "\<And>u. u \<noteq> t \<Longrightarrow> share s' u = share s u" "counter s' - counter s = share s' t - share s t"
    using share_step [OF ok assms(2)] by blast
  have split: "(\<Sum>u < n. f u) = f t + (\<Sum>u \<in> {..<n} - {t}. f u)" for f :: "nat \<Rightarrow> int"
    using t(1) by (simp add: sum.remove)
  have "(\<Sum>u \<in> {..<n} - {t}. share s' u) = (\<Sum>u \<in> {..<n} - {t}. share s u)" by (rule sum.cong) (auto simp: t(2))
  then have "counter s' = (\<Sum>u < n. share s' u)"
    using assms(1) t(3) split [of "share s'"] split [of "share s"] by (simp add: balanced_def)
  then show ?thesis using ok_step [OF ok(1) assms(2)] by (simp add: balanced_def)
qed

lemma balanced_reachable: "step\<^sup>*\<^sup>* s s' \<Longrightarrow> balanced s \<Longrightarrow> balanced s'"
  by (induction rule: rtranclp_induct) (auto intro: balanced_step)

lemma balanced_owners: "balanced s \<Longrightarrow> counter s = int (card {t. t < n \<and> share s t = 1})"
proof -
  assume b: "balanced s"
  then have "(\<Sum>t < n. share s t) = (\<Sum>t < n. if share s t = 1 then 1 else 0)"
    by (intro sum.cong) (use share_range [of s] in \<open>auto simp: balanced_def\<close>)
  also have "\<dots> = int (card {t. t < n \<and> share s t = 1})"
    by (simp add: sum.If_cases Int_def)
  finally show ?thesis using b by (simp add: balanced_def)
qed

lemma owner_counts: "balanced s \<Longrightarrow> t < n \<Longrightarrow> share s t = 1 \<Longrightarrow> 0 < counter s"
  using balanced_owners [of s] card_gt_0_iff [of "{t. t < n \<and> share s t = 1}"] by auto

lemma owner_unique:
  assumes "balanced s" "counter s \<le> 1" "t < n" "u < n" "share s t = 1" "share s u = 1"
  shows "t = u"
proof -
  have "card {t. t < n \<and> share s t = 1} \<le> Suc 0" using assms(1,2) balanced_owners by simp
  then show ?thesis using assms(3-6) by (simp add: card_le_Suc0_iff_eq)
qed

lemma no_owner: "balanced s \<Longrightarrow> counter s = 0 \<Longrightarrow> t < n \<Longrightarrow> share s t = 0"
  using owner_counts [of s t] share_range [of s t] by (auto simp: balanced_def)

end

end
