(* ===== verification/LockSafety.thy ===== *)
theory LockSafety
  imports Locks Ledger
begin

text \<open>
  Mutual exclusion. Every instruction changes the lock word, the counters of readers and writers and
  the counters of its thread by a fixed amount. So what a thread has of each of them follows
  from the role it is on its way to and the instructions it still has to execute, and the lock
  word and the counters are the sums of these shares, whatever the interleaving.
\<close>

subsection \<open>Shares\<close>

fun lockw :: "instr \<Rightarrow> int" where
  "lockw i = (if i \<in> {SpinLoop, RawLoop, MutexLoop, SpinTry, RawTry, MutexTry} then 1
     else if i \<in> {Unlock, AssertUnlock, TryUnlock} then -1 else 0)"

fun readw :: "instr \<Rightarrow> int" where
  "readw i = (if i = AddRead then 1 else if i = SubRead then -1 else 0)"

fun writew :: "instr \<Rightarrow> int" where
  "writew i = (if i = AddWrite then 1 else if i = SubWrite then -1 else 0)"

fun critw :: "instr \<Rightarrow> int" where
  "critw i = (if i = AddCritical then 1 else if i = SubCritical then -1 else 0)"

fun busyw :: "instr \<Rightarrow> int" where
  "busyw i = (if i \<in> {AddCritical, AddBusy} then 1 else if i \<in> {SubCritical, SubBusy} then -1 else 0)"

fun heldw :: "instr \<Rightarrow> int" where
  "heldw i = (if i = IncHeld then 1 else if i = DecHeld then -1 else 0)"

definition role_lock :: "role \<Rightarrow> int" where "role_lock r = of_bool (r \<in> {Inside, InsideRaw})"
definition role_read :: "role \<Rightarrow> int" where "role_read r = of_bool (r = Reading)"
definition role_write :: "role \<Rightarrow> int" where "role_write r = of_bool (r = Writing)"

definition role_crit :: "lock_kind \<Rightarrow> role \<Rightarrow> int" where
  "role_crit k r = of_bool (k = KSpin \<and> r = Inside \<or> k = KRWSpin \<and> r \<in> {Reading, Writing})"

definition role_busy :: "lock_kind \<Rightarrow> role \<Rightarrow> int" where
  "role_busy k r = of_bool (r \<in> {Inside, Reading, Writing})"

definition role_held :: "lock_kind \<Rightarrow> role \<Rightarrow> int" where
  "role_held k r = of_bool (k = KMutex \<and> r = Inside)"

definition part :: "(role \<Rightarrow> int) \<Rightarrow> (instr \<Rightarrow> int) \<Rightarrow> role \<Rightarrow> instr list \<Rightarrow> int" where
  "part f g r p = f r - sum_list (map g p)"

abbreviation "lock_part \<equiv> part role_lock lockw"
abbreviation "read_part \<equiv> part role_read readw"
abbreviation "write_part \<equiv> part role_write writew"
abbreviation "crit_part k \<equiv> part (role_crit k) critw"
abbreviation "busy_part k \<equiv> part (role_busy k) busyw"
abbreviation "held_part k \<equiv> part (role_held k) heldw"

lemma part_Nil [simp]: "part f g r [] = f r"
  by (simp add: part_def)

lemma part_Cons [simp]: "part f g r (i # p) = part f g r p - g i"
  by (simp add: part_def)

lemma part_append [simp]: "part f g r (p @ q) = part f g r q - sum_list (map g p)"
  by (simp add: part_def)

text \<open>
  A thread past the test of \<open>m_write\<close> that has yet to count itself as a writer or as a reader, with no
  step in between at which it could lose the lock. A writer that becomes a reader (\<open>downgrade\<close>) counts itself
  as a reader without that test: it still has to give up the writer's count.
\<close>

fun checked :: "instr list \<Rightarrow> bool" where
  "checked [] = False"
| "checked (i # p) = (i = AddWrite \<or> i = AddRead \<and> SubWrite \<notin> set p \<or>
     i \<notin> {SpinLoop, RawLoop, MutexLoop, SpinTry, RawTry, MutexTry, Unlock, AssertUnlock, TryUnlock, WhileWriting, IfWriting,
       SubWrite} \<and> checked p)"

text \<open>What is left to a call that fails at its first instruction.\<close>

fun on_failure :: "instr \<Rightarrow> instr list option" where
  "on_failure SpinTry = Some [SubCritical]"
| "on_failure RawTry = Some []"
| "on_failure MutexTry = Some [SubBusy]"
| "on_failure IfWriting = Some Spinlock_release"
| "on_failure _ = None"

definition same_parts :: "lock_kind \<Rightarrow> role \<Rightarrow> instr list \<Rightarrow> role \<Rightarrow> instr list \<Rightarrow> bool" where
  "same_parts k r p r' p' \<longleftrightarrow> lock_part r p = lock_part r' p' \<and> read_part r p = read_part r' p' \<and> write_part r p = write_part r' p'
     \<and> crit_part k r p = crit_part k r' p' \<and> busy_part k r p = busy_part k r' p' \<and> held_part k r p = held_part k r' p'"

text \<open>What is asked of the instructions left, and of all that follow them.\<close>

definition sound_here :: "lock_kind \<Rightarrow> role \<Rightarrow> instr list \<Rightarrow> bool" where
  "sound_here k r p \<longleftrightarrow> lock_part r p \<in> {0, 1} \<and> read_part r p \<in> {0, 1} \<and> write_part r p \<in> {0, 1}
     \<and> (checked p \<longrightarrow> lock_part r p = 1)
     \<and> (case p of [] \<Rightarrow> True | i # q \<Rightarrow>
          (i \<in> {Unlock, AssertUnlock, TryUnlock, WhileWriting, IfWriting} \<longrightarrow> lock_part r p = 1)
          \<and> (i = AssertReading \<longrightarrow> read_part r p = 1) \<and> (i = AssertWriting \<longrightarrow> write_part r p = 1)
          \<and> (i \<in> {SpinLoop, RawLoop, MutexLoop, SpinTry, RawTry, MutexTry, Unlock, AssertUnlock, TryUnlock, AddWrite, SubWrite}
               \<longrightarrow> \<not> checked q)
          \<and> (i = AddRead \<and> SubWrite \<in> set q \<longrightarrow> write_part r p = 1)
          \<and> (i = AssertBusy \<longrightarrow> busy_part k r p = 1)
          \<and> (case on_failure i of None \<Rightarrow> True | Some e \<Rightarrow> same_parts k r p Outside e))"

fun sound :: "lock_kind \<Rightarrow> role \<Rightarrow> instr list \<Rightarrow> bool" where
  "sound k r [] = sound_here k r []"
| "sound k r (i # p) = (sound_here k r (i # p) \<and> sound k r p)"

lemmas method_defs = Spinlock_acquire_def Spinlock_release_def Spinlock_tryAcquire_def Spinlock_acquireRaw_def
  Spinlock_releaseRaw_def Spinlock_tryAcquireRaw_def Spinlock_tryReleaseRaw_def Mutex_acquire_def Mutex_release_def
  Mutex_tryAcquire_def RWSpinlock_acquire_read_def RWSpinlock_acquire_write_def RWSpinlock_upgrade_def
  RWSpinlock_downgrade_def RWSpinlock_release_read_def RWSpinlock_release_write_def RWMutex_acquire_read_def
  RWMutex_acquire_write_def RWMutex_tryAcquire_read_def RWMutex_tryAcquire_write_def RWMutex_upgrade_def
  RWMutex_downgrade_def RWMutex_release_read_def RWMutex_release_write_def RWMutex_acquired_def

lemmas role_defs = role_lock_def role_read_def role_write_def role_crit_def role_busy_def role_held_def

text \<open>Every method is sound, and begins with the shares of the role it is called in.\<close>

lemma methods_sound:
  assumes "(r0, p, r) \<in> set (methods k)"
  shows "sound k r p" "same_parts k r p r0 []" "\<not> checked p"
proof -
  have "\<forall>(r0, p, r) \<in> set (methods k). sound k r p \<and> same_parts k r p r0 [] \<and> \<not> checked p"
    by (cases k) (simp_all add: method_defs sound_here_def same_parts_def role_defs)
  then show "sound k r p" "same_parts k r p r0 []" "\<not> checked p" using assms by auto
qed


subsection \<open>One instruction\<close>

definition moves :: "lock_kind \<Rightarrow> actor \<times> lock \<Rightarrow> actor \<times> lock \<Rightarrow> bool" where
  "moves k = (\<lambda>(a, l) (a', l'). let r = role_of a; p = code a; r' = role_of a'; p' = code a' in
     of_bool (m_lock l') - of_bool (m_lock l) = lock_part r' p' - lock_part r p
     \<and> m_read l' - m_read l = read_part r' p' - read_part r p
     \<and> m_write l' - m_write l = write_part r' p' - write_part r p
     \<and> m_critical (thr a') - m_critical (thr a) = of_int (crit_part k r' p' - crit_part k r p)
     \<and> m_busy (thr a') - m_busy (thr a) = of_int (busy_part k r' p' - busy_part k r p)
     \<and> held_mutexes a' - held_mutexes a = held_part k r' p' - held_part k r p)"

lemmas retry_defs = spin_retry_def raw_retry_def mutex_retry_def writing_retry_def Spinlock_release_def Spinlock_acquire_def
lemmas thread_defs = addCritical_def subCritical_def addBusy_def subBusy_def isBusy_def

lemma sound_tl: "sound k r (i # p) \<Longrightarrow> sound k r p"
  by simp

lemma sound_head: "sound k r p \<Longrightarrow> sound_here k r p"
  by (cases p) auto

lemma retry_sound:
  assumes "sound k r (i # p)"
  shows "i = SpinLoop \<Longrightarrow> sound k r (spin_retry @ i # p)" "i = RawLoop \<Longrightarrow> sound k r (raw_retry @ i # p)"
    "i = MutexLoop \<Longrightarrow> sound k r (mutex_retry @ i # p)" "i = WhileWriting \<Longrightarrow> sound k r (writing_retry @ i # p)"
  using assms sound_head [OF assms] by (auto simp: retry_defs sound_here_def)

lemma failure_sound: "sound_here k Outside []" "sound_here k Outside [SubCritical]" "sound_here k Outside [SubBusy]"
    "sound k Outside Spinlock_release"
  by (simp_all add: sound_here_def Spinlock_release_def role_defs)

lemma failure_parts:
  assumes "sound k r (i # p)"
  shows "i = SpinTry \<Longrightarrow> same_parts k r (i # p) Outside [SubCritical]" "i = RawTry \<Longrightarrow> same_parts k r (i # p) Outside []"
    "i = MutexTry \<Longrightarrow> same_parts k r (i # p) Outside [SubBusy]" "i = IfWriting \<Longrightarrow> same_parts k r (i # p) Outside Spinlock_release"
  using sound_head [OF assms] by (auto simp: sound_here_def)

lemma exec_sound:
  assumes "sound k (role_of a) (i # code a)" "exec t i (a, l) = Inr (a', l')"
  shows "sound k (role_of a') (code a')"
  using assms retry_sound [OF assms(1)]
  by (cases i) (auto split: if_splits simp: Let_def failure_sound)

lemma exec_moves:
  assumes "sound k (role_of a) (i # code a)" "i = TryUnlock \<longrightarrow> m_lock l" "exec t i (a, l) = Inr (a', l')"
  shows "moves k (a\<lparr>code := i # code a\<rparr>, l) (a', l')"
  using assms(2,3) failure_parts [OF assms(1)] unfolding moves_def same_parts_def
  by (cases i; clarsimp split: if_splits simp: Let_def retry_defs thread_defs)

subsection \<open>Many threads\<close>

definition actor_part :: "(role \<Rightarrow> int) \<Rightarrow> (instr \<Rightarrow> int) \<Rightarrow> world \<Rightarrow> tid \<Rightarrow> int" where
  "actor_part f g w t = part f g (role_of (actors w t)) (code (actors w t))"

abbreviation "lock_share \<equiv> actor_part role_lock lockw"
abbreviation "read_share \<equiv> actor_part role_read readw"
abbreviation "write_share \<equiv> actor_part role_write writew"

definition lock_word :: "world \<Rightarrow> int" where
  "lock_word w = of_bool (m_lock (the_lock w))"

definition codes_sound :: "lock_kind \<Rightarrow> nat \<Rightarrow> world \<Rightarrow> bool" where
  "codes_sound k n w \<longleftrightarrow> (\<forall>t < n. sound k (role_of (actors w t)) (code (actors w t)))"

definition all_sound :: "lock_kind \<Rightarrow> nat \<Rightarrow> world \<Rightarrow> bool" where
  "all_sound k n w \<longleftrightarrow> codes_sound k n w \<and> lock_word w = (\<Sum>t < n. lock_share w t)"

lemma all_sound_here: "all_sound k n w \<Longrightarrow> t < n \<Longrightarrow> sound_here k (role_of (actors w t)) (code (actors w t))"
  by (simp add: all_sound_def codes_sound_def sound_head)

lemma lock_share_range: "all_sound k n w \<Longrightarrow> t < n \<Longrightarrow> lock_share w t \<in> {0, 1}"
  using all_sound_here [of k n w t] by (simp add: sound_here_def actor_part_def)

lemma holder_locked:
  assumes "all_sound k n w" "t < n" "lock_share w t = 1"
  shows "m_lock (the_lock w)"
proof -
  have "lock_share w t \<le> (\<Sum>t < n. lock_share w t)"
    using lock_share_range [OF assms(1)] by (intro member_le_sum) (auto simp: assms(2), smt (verit) insert_iff singletonD)
  then show ?thesis using assms(1,3) by (cases "m_lock (the_lock w)") (simp_all add: all_sound_def lock_word_def)
qed

text \<open>What the next instruction of a thread does.\<close>

lemma run_cases:
  assumes "code (actors w t) \<noteq> []"
  obtains (fault) f where "run_instr t w = w\<lparr>stopped := Some f\<rparr>"
  | (exec) i p a' l' where "code (actors w t) = i # p" "exec t i ((actors w t)\<lparr>code := p\<rparr>, the_lock w) = Inr (a', l')"
      "run_instr t w = (put_actor t a' w)\<lparr>the_lock := l'\<rparr>"
proof -
  obtain i p where code: "code (actors w t) = i # p" using assms by (cases "code (actors w t)") auto
  show thesis
  proof (cases "exec t i ((actors w t)\<lparr>code := p\<rparr>, the_lock w)")
    case (Inr y)
    then show ?thesis using exec [of i p "fst y" "snd y"] code by (cases y) (simp add: run_instr_def)
  qed (use fault code in \<open>simp add: run_instr_def\<close>)
qed

lemma codes_sound_step:
  assumes "codes_sound k n w" "lock_step k n w w'"
  shows "codes_sound k n w'"
  using assms(2)
proof cases
  case (call t p r)
  then show ?thesis using assms(1) methods_sound(1) [OF call(5)] by (simp add: codes_sound_def put_actor_def)
next
  case (run t)
  from run(4) show ?thesis
  proof (cases rule: run_cases)
    case (exec i p a' l')
    have "sound k (role_of (actors w t)) (code (actors w t))" using assms(1) run(2) unfolding codes_sound_def by blast
    then have "sound k (role_of a') (code a')"
      using exec_sound [of k "(actors w t)\<lparr>code := p\<rparr>" i t "the_lock w" a' l'] exec by simp
    then show ?thesis using assms(1) run(1) exec(3) by (simp add: codes_sound_def put_actor_def)
  qed (use assms(1) run(1) in \<open>simp add: codes_sound_def\<close>)
qed

text \<open>A step changes one thread, and this thread and the lock move together; or it stops the kernel.\<close>

lemma moves_refl: "moves k (a, l) (a, l)"
  by (simp add: moves_def)

lemma step_moves:
  assumes "all_sound k n w" "lock_step k n w w'"
  obtains t where "t < n" "\<And>u. u \<noteq> t \<Longrightarrow> actors w' u = actors w u"
    "moves k (actors w t, the_lock w) (actors w' t, the_lock w')"
  using assms(2)
proof cases
  case (call t p r)
  have "moves k (actors w t, the_lock w) ((actors w t)\<lparr>code := p, role_of := r\<rparr>, the_lock w)"
    using methods_sound(2) [OF call(5)] call(4) by (simp add: moves_def same_parts_def)
  then show ?thesis using that [of t] call by (simp add: put_actor_def)
next
  case (run t)
  from run(4) show ?thesis
  proof (cases rule: run_cases)
    case (fault f)
    then show ?thesis using that [OF run(2)] run(1) by (simp add: moves_refl)
  next
    case (exec i p a' l')
    have sound: "sound k (role_of (actors w t)) (i # p)"
      using assms(1) run(2) exec(1) unfolding all_sound_def codes_sound_def by metis
    then have "i = TryUnlock \<Longrightarrow> lock_share w t = 1"
      using sound_head [OF sound] exec(1) by (simp add: sound_here_def actor_part_def)
    then have locked: "i = TryUnlock \<longrightarrow> m_lock (the_lock w)" using holder_locked [OF assms(1) run(2)] by blast
    have same: "(actors w t)\<lparr>code := i # p\<rparr> = actors w t" using exec(1) by simp
    have "moves k ((actors w t)\<lparr>code := i # p\<rparr>, the_lock w) (a', l')"
      using exec_moves [of k "(actors w t)\<lparr>code := p\<rparr>" i "the_lock w" t a' l'] exec(2) sound locked by simp
    then show ?thesis
      unfolding same using that [OF run(2)] run(1) exec(3) by (simp add: put_actor_def)
  qed
qed

lemma moves_parts:
  assumes "moves k (actors w t, the_lock w) (actors w' t, the_lock w')"
  shows "lock_word w' - lock_word w = lock_share w' t - lock_share w t"
    "m_read (the_lock w') - m_read (the_lock w) = read_share w' t - read_share w t"
    "m_write (the_lock w') - m_write (the_lock w) = write_share w' t - write_share w t"
  using assms by (simp_all add: moves_def Let_def lock_word_def actor_part_def)

lemma share_other: "actors w' u = actors w u \<Longrightarrow> actor_part f g w' u = actor_part f g w u"
  by (simp add: actor_part_def)

lemma shares_range:
  assumes "all_sound k n w" "t < n"
  shows "read_share w t \<in> {0, 1}" "write_share w t \<in> {0, 1}"
  using all_sound_here [OF assms] by (simp_all add: sound_here_def actor_part_def)

interpretation locks: ledger n lock_word lock_share "codes_sound k n" "lock_step k n" for k n
proof (unfold_locales, goal_cases)
  case (2 w w')
  then have "all_sound k n w" by (simp add: all_sound_def)
  from step_moves [OF this 2(3)] show ?case using moves_parts(1) share_other by metis
next
  case (3 w t)
  then show ?case using sound_head by (fastforce simp: codes_sound_def sound_here_def actor_part_def)
qed (rule codes_sound_step)

lemma all_sound_step: "all_sound k n w \<Longrightarrow> lock_step k n w w' \<Longrightarrow> all_sound k n w'"
  using locks.balanced_step [of n k w w'] by (simp add: locks.balanced_def [of n k] all_sound_def)

interpretation readers: ledger n "\<lambda>w. m_read (the_lock w)" read_share "all_sound k n" "lock_step k n" for k n
proof (unfold_locales, goal_cases)
  case (2 w w')
  from step_moves [OF 2(1,3)] show ?case using moves_parts(2) share_other by metis
qed (use all_sound_step shares_range in blast)+

interpretation writers: ledger n "\<lambda>w. m_write (the_lock w)" write_share "all_sound k n" "lock_step k n" for k n
proof (unfold_locales, goal_cases)
  case (2 w w')
  from step_moves [OF 2(1,3)] show ?case using moves_parts(3) share_other by metis
qed (use all_sound_step shares_range in blast)+


subsection \<open>The invariant\<close>

lemma exec_checked:
  assumes "sound k (role_of a) (i # code a)" "exec t i (a, l) = Inr (a', l')" "checked (code a')"
    "checked (i # code a) \<Longrightarrow> m_write l = 0"
  shows "m_write l' = 0"
  using assms(2-4) sound_head [OF assms(1)]
  by (cases i; clarsimp split: if_splits simp: Let_def retry_defs sound_here_def)

lemma exec_write: "exec t i (a, l) = Inr (a', l') \<Longrightarrow> m_write l' \<le> m_write l \<or> i = AddWrite \<and> m_write l' = m_write l + 1"
  by (cases i; clarsimp split: if_splits simp: Let_def)

definition counters :: "lock_kind \<Rightarrow> world \<Rightarrow> world \<Rightarrow> tid \<Rightarrow> bool" where
  "counters k w0 w t \<longleftrightarrow> (let a = actors w t; a0 = actors w0 t in
     m_critical (thr a) = m_critical (thr a0) + of_int (crit_part k (role_of a) (code a))
     \<and> m_busy (thr a) = m_busy (thr a0) + of_int (busy_part k (role_of a) (code a))
     \<and> held_mutexes a = held_mutexes a0 + held_part k (role_of a) (code a))"

definition lock_inv :: "lock_kind \<Rightarrow> nat \<Rightarrow> world \<Rightarrow> world \<Rightarrow> bool" where
  "lock_inv k n w0 w \<longleftrightarrow> readers.balanced n k w \<and> writers.balanced n k w \<and> m_write (the_lock w) \<le> 1
     \<and> (\<forall>t < n. checked (code (actors w t)) \<longrightarrow> m_write (the_lock w) = 0) \<and> (\<forall>t < n. counters k w0 w t)"


lemma lock_invD:
  assumes "lock_inv k n w0 w"
  shows "all_sound k n w" "readers.balanced n k w" "writers.balanced n k w" "m_write (the_lock w) \<le> 1" "locks.balanced n k w"
    "\<And>t. t < n \<Longrightarrow> checked (code (actors w t)) \<Longrightarrow> m_write (the_lock w) = 0" "\<And>t. t < n \<Longrightarrow> counters k w0 w t"
  using assms unfolding lock_inv_def readers.balanced_def all_sound_def locks.balanced_def by blast+

text \<open>Nobody but the holder of the lock can be about to count itself as a writer.\<close>

lemma checked_holds: "all_sound k n w \<Longrightarrow> t < n \<Longrightarrow> checked (code (actors w t)) \<Longrightarrow> lock_share w t = 1"
  using all_sound_here [of k n w t] by (simp add: sound_here_def actor_part_def)

lemma holder_unique:
  assumes "locks.balanced n k w" "t < n" "u < n" "lock_share w t = 1" "lock_share w u = 1"
  shows "t = u"
  by (rule locks.owner_unique [OF assms(1) _ assms(2-5)]) (simp add: lock_word_def)

lemma writes_step:
  assumes inv: "lock_inv k n w0 w" and step: "lock_step k n w w'"
  shows "m_write (the_lock w') \<le> 1 \<and> (\<forall>u < n. checked (code (actors w' u)) \<longrightarrow> m_write (the_lock w') = 0)"
  using step
proof cases
  case (call t p r)
  then show ?thesis using lock_invD(4,6) [OF inv] methods_sound(3) [OF call(5)] by (auto simp: put_actor_def)
next
  case (run t)
  note D = lock_invD [OF inv]
  from run(4) show ?thesis
  proof (cases rule: run_cases)
    case (fault f)
    then show ?thesis using D(4,6) run(1) by simp
  next
    case (exec i p a' l')
    let ?a = "(actors w t)\<lparr>code := p\<rparr>"
    have w': "actors w' = (actors w)(t := a')" "the_lock w' = l'" using run(1) exec(3) by (simp_all add: put_actor_def)
    have sound: "sound k (role_of ?a) (i # code ?a)"
      using D(1) run(2) exec(1) unfolding all_sound_def codes_sound_def by (metis actor.select_convs(4,5) actor.surjective actor.update_convs(4))
    have ck: "checked (i # code ?a) \<Longrightarrow> m_write (the_lock w) = 0" using D(6) [OF run(2)] exec(1) by simp
    note own = exec_checked [OF sound exec(2) _ ck]
    have le: "m_write l' \<le> 1" using exec_write [OF exec(2)] D(4) ck by auto
    have "m_write l' = 0" if u: "u < n" "u \<noteq> t" "checked (code (actors w u))" for u
    proof -
      have z: "m_write (the_lock w) = 0" using D(6) u by blast
      have "i \<noteq> AddWrite"
        using checked_holds [OF D(1) u(1,3)] checked_holds [OF D(1) run(2)] holder_unique [OF D(5) u(1) run(2)] u(2) exec(1) by auto
      then have "m_write l' \<le> 0" using exec_write [OF exec(2)] z by auto
      moreover have "0 \<le> m_write l'"
        using writers.balanced_owners [OF writers.balanced_step [OF D(3) step]] w'(2) by simp
      ultimately show ?thesis by simp
    qed
    then show ?thesis using le own by (auto simp: w')
  qed
qed

lemma counters_step:
  assumes inv: "lock_inv k n w0 w" and step: "lock_step k n w w'" and "t < n"
  shows "counters k w0 w' t"
proof -
  note D = lock_invD [OF inv]
  obtain u where u: "u < n" "\<And>v. v \<noteq> u \<Longrightarrow> actors w' v = actors w v"
    "moves k (actors w u, the_lock w) (actors w' u, the_lock w')"
    using step_moves [OF D(1) step] by blast
  show ?thesis
  proof (cases "t = u")
    case True
    then show ?thesis using u(3) D(7) [OF assms(3)] by (simp add: moves_def counters_def Let_def algebra_simps)
  qed (use u(2) D(7) [OF assms(3)] in \<open>simp add: counters_def\<close>)
qed

lemma lock_inv_step:
  assumes "lock_inv k n w0 w" "lock_step k n w w'"
  shows "lock_inv k n w0 w'"
  unfolding lock_inv_def
proof (intro conjI)
  show "readers.balanced n k w'" by (rule readers.balanced_step [OF lock_invD(2) [OF assms(1)] assms(2)])
  show "writers.balanced n k w'" by (rule writers.balanced_step [OF lock_invD(3) [OF assms(1)] assms(2)])
qed (use writes_step [OF assms] counters_step [OF assms] in blast)+

lemma lock_inv_fresh:
  assumes "fresh_world n w"
  shows "lock_inv k n w w"
proof -
  have a: "code (actors w t) = []" "role_of (actors w t) = Outside" if "t < n" for t using assms that by (simp_all add: fresh_world_def)
  have l: "the_lock w = new_lock" using assms by (simp add: fresh_world_def)
  have sums: "(\<Sum>t < n. actor_part f g w t) = (\<Sum>t < n. f Outside)" for f g
    by (rule sum.cong) (simp_all add: actor_part_def a)
  have ok: "all_sound k n w"
    unfolding all_sound_def codes_sound_def sums by (simp add: a failure_sound lock_word_def l new_lock_def role_defs)
  show ?thesis
    unfolding lock_inv_def readers.balanced_def writers.balanced_def sums
    using ok by (simp add: a l new_lock_def role_defs counters_def)
qed

lemma lock_inv_reachable: "(lock_step k n)\<^sup>*\<^sup>* w0 w \<Longrightarrow> fresh_world n w0 \<Longrightarrow> lock_inv k n w0 w"
  by (induction rule: rtranclp_induct) (auto intro: lock_inv_fresh lock_inv_step)

subsection \<open>Why the kernel stops\<close>

definition hanging :: "world \<Rightarrow> tid \<Rightarrow> bool" where
  "hanging w t \<longleftrightarrow> (\<exists>p. (\<exists>limit. code (actors w t) = SpinHang limit # p \<and> limit < count (actors w t) + 1)
     \<or> code (actors w t) = MutexHang # p \<and> (HUNG_LIMIT < count (actors w t) + 1 \<or> m_thread (the_lock w) = None))"

lemma exec_fault:
  assumes "exec t i (a, l) = Inl f"
  shows "i = MutexHang \<and> (HUNG_LIMIT < count a + 1 \<or> m_thread l = None) \<or> (\<exists>limit. i = SpinHang limit \<and> limit < count a + 1) \<or> i \<in> {Unlock, AssertUnlock} \<and> \<not> m_lock l
    \<or> i = AssertBusy \<and> \<not> isBusy (thr a) \<or> i = AssertReading \<and> m_read l \<le> 0 \<or> i = AssertWriting \<and> m_write l \<le> 0"
  using assms by (cases i) (auto split: if_splits simp: Let_def)

lemma step_stopped:
  assumes inv: "lock_inv k n w0 w" and fresh: "fresh_world n w0" and step: "lock_step k n w w'" and "stopped w' = Some f"
  shows "\<exists>t < n. hanging w' t"
  using step
proof cases
  case (call t p r)
  then show ?thesis using assms(4) by (simp add: put_actor_def)
next
  case (run t)
  note D = lock_invD [OF inv]
  obtain i p where code: "code (actors w t) = i # p" using run(4) by (cases "code (actors w t)") auto
  let ?a = "(actors w t)\<lparr>code := p\<rparr>"
  have ex: "exec t i (?a, the_lock w) = Inl f" and w': "w' = w\<lparr>stopped := Some f\<rparr>"
    using assms(4) run(1,3) code by (auto simp: run_instr_def put_actor_def split: sum.splits prod.splits)
  note here = all_sound_here [OF D(1) run(2), unfolded code]
  have "i \<in> {Unlock, AssertUnlock} \<Longrightarrow> lock_share w t = 1" "i = AssertReading \<Longrightarrow> read_share w t = 1"
      "i = AssertWriting \<Longrightarrow> write_share w t = 1"
    using here unfolding actor_part_def code by (auto simp: sound_here_def)
  then have 1: "i \<in> {Unlock, AssertUnlock} \<Longrightarrow> m_lock (the_lock w)" and 2: "i = AssertReading \<Longrightarrow> 0 < m_read (the_lock w)"
      "i = AssertWriting \<Longrightarrow> 0 < m_write (the_lock w)"
    using holder_locked [OF D(1) run(2)] readers.owner_counts [OF D(2) run(2)] writers.owner_counts [OF D(3) run(2)] by blast+
  have 3: "isBusy (thr ?a)" if "i = AssertBusy"
  proof -
    have "busy_part k (role_of (actors w t)) (code (actors w t)) = 1" using here that code by (simp add: sound_here_def)
    then have "m_busy (thr ?a) = m_busy (thr (actors w0 t)) + 1" using D(7) [OF run(2)] by (simp add: counters_def Let_def)
    moreover have "m_busy (thr (actors w0 t)) < 0xFF00" using fresh run(2) by (simp add: fresh_world_def)
    ultimately show ?thesis by (simp add: isBusy_def word_less_nat_alt unat_word_ariths)
  qed
  have "i = MutexHang \<and> (HUNG_LIMIT < count ?a + 1 \<or> m_thread (the_lock w) = None) \<or> (\<exists>limit. i = SpinHang limit \<and> limit < count ?a + 1)"
    using exec_fault [OF ex] 1 2 3 by auto
  then show ?thesis using run(2) code by (auto simp: hanging_def w')
qed


lemma stopped_hanging:
  assumes "fresh_world n w0" "(lock_step k n)\<^sup>*\<^sup>* w0 w" "stopped w = Some f"
  shows "\<exists>t < n. hanging w t"
  using assms(2)
proof (cases rule: rtranclp.cases)
  case rtrancl_refl
  then show ?thesis using assms(1,3) by (simp add: fresh_world_def)
next
  case (rtrancl_into_rtrancl v)
  then show ?thesis using step_stopped [OF lock_inv_reachable [OF _ assms(1)] assms(1) _ assms(3)] by blast
qed

subsection \<open>Exclusion\<close>

definition in_role :: "world \<Rightarrow> tid \<Rightarrow> role set \<Rightarrow> bool" where
  "in_role w t R \<longleftrightarrow> code (actors w t) = [] \<and> role_of (actors w t) \<in> R"

lemma exec_read: "exec t i (a, l) = Inr (a', l') \<Longrightarrow> m_read l' \<le> m_read l \<or> i = AddRead"
  by (cases i; clarsimp split: if_splits simp: Let_def)

text \<open>The threads that hold the lock for writing are owners of a share, and none is about to give it up.\<close>

lemma writer_share: "in_role w t {Writing} \<Longrightarrow> write_share w t = 1"
  by (simp add: in_role_def actor_part_def role_defs)

lemma no_writer:
  assumes "writers.balanced n k w" "m_write (the_lock w) = 0" "u < n"
  shows "\<not> in_role w u {Writing}"
  using writers.owner_counts [OF assms(1,3) writer_share] assms(2) by auto

text \<open>A thread counts itself as a reader or as a writer only while no thread holds the lock for writing.\<close>

lemma entry_step:
  assumes inv: "lock_inv k n w0 w" and step: "lock_step k n w w'" and u: "u < n"
  shows "m_read (the_lock w) < m_read (the_lock w') \<Longrightarrow> \<not> in_role w u {Writing}"
    "m_write (the_lock w) < m_write (the_lock w') \<Longrightarrow> m_write (the_lock w) = 0 \<and> \<not> in_role w u {Writing}"
proof -
  note D = lock_invD [OF inv]
  have *: "(m_read (the_lock w) < m_read (the_lock w') \<longrightarrow> \<not> in_role w u {Writing})
    \<and> (m_write (the_lock w) < m_write (the_lock w') \<longrightarrow> m_write (the_lock w) = 0)"
    using step
  proof cases
    case (call t p r)
    then show ?thesis by (simp add: put_actor_def)
  next
    case (run t)
    from run(4) show ?thesis
    proof (cases rule: run_cases)
      case (fault f)
      then show ?thesis using run(1) by simp
    next
      case (exec i p a' l')
      have l': "the_lock w' = l'" using run(1) exec(3) by simp
      have reads: "m_read (the_lock w) < m_read l' \<Longrightarrow> i = AddRead" and writes: "m_write (the_lock w) < m_write l' \<Longrightarrow> i = AddWrite"
        using exec_read [OF exec(2)] exec_write [OF exec(2)] by auto
      have zero: "checked (i # p) \<Longrightarrow> m_write (the_lock w) = 0" using D(6) [OF run(2)] exec(1) by simp
      have "\<not> in_role w u {Writing}" if i: "i = AddRead"
      proof (cases "SubWrite \<in> set p")
        case True
        then have "write_share w t = 1"
          using all_sound_here [OF D(1) run(2)] exec(1) i by (simp add: sound_here_def actor_part_def)
        moreover have "\<not> in_role w t {Writing}" using run(4) by (simp add: in_role_def)
        ultimately show ?thesis using writers.owner_unique [OF D(3,4) u run(2) writer_share] by blast
      qed (use i zero no_writer [OF D(3) _ u] in simp)
      moreover have "m_write (the_lock w) = 0" if "i = AddWrite" using zero that by simp
      ultimately show ?thesis unfolding l' using reads writes by blast
    qed
  qed
  then show "m_read (the_lock w) < m_read (the_lock w') \<Longrightarrow> \<not> in_role w u {Writing}" by blast
  show "m_write (the_lock w) < m_write (the_lock w') \<Longrightarrow> m_write (the_lock w) = 0 \<and> \<not> in_role w u {Writing}"
    using * no_writer [OF D(3) _ u] by blast
qed

text \<open>A thread that runs alone: its call, and then its instructions one after the other.\<close>

definition solo :: "tid \<Rightarrow> instr list \<Rightarrow> role \<Rightarrow> nat \<Rightarrow> world \<Rightarrow> world" where
  "solo t p r m w = (run_instr t ^^ m) (put_actor t ((actors w t)\<lparr>code := p, role_of := r\<rparr>) w)"

lemma run_instr_stopped: "stopped (run_instr t w) = None \<Longrightarrow> stopped w = None"
  by (auto simp: run_instr_def put_actor_def split: list.splits sum.splits prod.splits)

lemma run_instr_idle: "code (actors w t) = [] \<Longrightarrow> run_instr t w = w"
  by (simp add: run_instr_def)

lemma solo_reachable:
  assumes "t < n" "in_role w t {q}" "(q, p, r) \<in> set (methods k)" "stopped (solo t p r m w) = None"
  shows "(lock_step k n)\<^sup>*\<^sup>* w (solo t p r m w)"
proof -
  have "(lock_step k n)\<^sup>*\<^sup>* v ((run_instr t ^^ m) v)" if "stopped ((run_instr t ^^ m) v) = None" for v m
    using that
  proof (induction m)
    case (Suc m)
    let ?u = "(run_instr t ^^ m) v"
    have s: "stopped ?u = None" using Suc.prems run_instr_stopped [of t ?u] by simp
    show ?case
    proof (cases "code (actors ?u t) = []")
      case True
      then show ?thesis using Suc.IH [OF s] by (simp add: run_instr_idle)
    next
      case False
      then show ?thesis using Suc.IH [OF s] lock_step.run [OF assms(1) s False] by (auto intro: rtranclp.rtrancl_into_rtrancl)
    qed
  qed simp
  moreover have "stopped w = None"
  proof -
    have "stopped ((run_instr t ^^ m) v) = None \<Longrightarrow> stopped v = None" for v m
      by (induction m) (auto dest: run_instr_stopped)
    from this [OF assms(4) [unfolded solo_def]] show ?thesis by (simp add: put_actor_def)
  qed
  then have "lock_step k n w (put_actor t ((actors w t)\<lparr>code := p, role_of := r\<rparr>) w)"
    using assms(1-3) by (intro lock_step.call) (auto simp: in_role_def)
  ultimately show ?thesis using assms(4) unfolding solo_def by (meson converse_rtranclp_into_rtranclp)
qed

definition idle_thread :: thread where
  "idle_thread = \<lparr>status = TS_RUNNABLE, wakeup_at = 0, m_busy = 0, m_critical = 0\<rparr>"

definition idle_world :: world where
  "idle_world = \<lparr>the_lock = new_lock, actors = (\<lambda>_. \<lparr>thr = idle_thread, held_mutexes = 0, count = 0, code = [], role_of = Outside\<rparr>),
     stopped = None\<rparr>"

lemma idle_world_fresh: "fresh_world n idle_world"
  by (simp add: fresh_world_def idle_world_def idle_thread_def)

text \<open>
  C21. Mutual exclusion, for spinlocks, mutexes and the readers-writer locks alike. However the instructions of any
  number of threads interleave, at most one thread is between the return of \<open>acquire\<close> or of a successful \<open>tryAcquire\<close>
  and its call of \<open>release\<close>, raw calls included, and the lock word is set as long as there is one and clear
  when no thread is inside or in a call. A thread that has left has the busy, critical and mutex counters it
  came with. No release finds the lock free and no assertion fails: the kernel stops only because a thread waited
  longer than the limit, or because a mutex it waits for has no owner entered.
\<close>

theorem lock_exclusion:
  assumes "fresh_world n w0" "(lock_step k n)\<^sup>*\<^sup>* w0 w"
  shows "(\<forall>t u. t < n \<and> u < n \<and> in_role w t {Inside, InsideRaw} \<and> in_role w u {Inside, InsideRaw} \<longrightarrow> t = u)
    \<and> (\<forall>t < n. in_role w t {Inside, InsideRaw} \<longrightarrow> isAcquired (the_lock w))
    \<and> ((\<forall>t < n. in_role w t {Outside, Reading, Writing}) \<longrightarrow> \<not> isAcquired (the_lock w))
    \<and> (\<forall>t < n. in_role w t {Outside} \<longrightarrow> (let a = actors w t; a0 = actors w0 t in m_busy (thr a) = m_busy (thr a0)
          \<and> m_critical (thr a) = m_critical (thr a0) \<and> held_mutexes a = held_mutexes a0))
    \<and> (\<forall>f. stopped w = Some f \<longrightarrow> (\<exists>t < n. hanging w t))"
proof -
  note D = lock_invD [OF lock_inv_reachable [OF assms(2,1)]]
  have share: "lock_share w t = of_bool (role_of (actors w t) \<in> {Inside, InsideRaw})" if "code (actors w t) = []" for t
    using that by (simp add: actor_part_def role_lock_def)
  show ?thesis
  proof (intro conjI)
    show "\<forall>t u. t < n \<and> u < n \<and> in_role w t {Inside, InsideRaw} \<and> in_role w u {Inside, InsideRaw} \<longrightarrow> t = u"
      using holder_unique [OF D(5)] share by (auto simp: in_role_def)
    show "\<forall>t < n. in_role w t {Inside, InsideRaw} \<longrightarrow> isAcquired (the_lock w)"
      using holder_locked [OF D(1)] share by (auto simp: in_role_def isAcquired_def)
    show "(\<forall>t < n. in_role w t {Outside, Reading, Writing}) \<longrightarrow> \<not> isAcquired (the_lock w)"
    proof
      assume "\<forall>t < n. in_role w t {Outside, Reading, Writing}"
      then have "(\<Sum>t < n. lock_share w t) = 0" by (intro sum.neutral) (auto simp: in_role_def share)
      then show "\<not> isAcquired (the_lock w)" using D(1) by (simp add: all_sound_def lock_word_def isAcquired_def)
    qed
    show "\<forall>t < n. in_role w t {Outside} \<longrightarrow> (let a = actors w t; a0 = actors w0 t in m_busy (thr a) = m_busy (thr a0)
          \<and> m_critical (thr a) = m_critical (thr a0) \<and> held_mutexes a = held_mutexes a0)"
      using D(7) by (auto simp: in_role_def counters_def Let_def role_defs)
  qed (use stopped_hanging [OF assms] in blast)
qed


text \<open>Witness of C21: the first of two threads takes a spinlock; then the second is not inside.\<close>

theorem lock_exclusion_witness:
  "\<exists>w. (lock_step KSpin 2)\<^sup>*\<^sup>* idle_world w \<and> in_role w 0 {Inside} \<and> isAcquired (the_lock w) \<and> \<not> in_role w 1 {Inside}"
proof -
  let ?w = "solo 0 Spinlock_acquire Inside 4 idle_world"
  have r: "(lock_step KSpin 2)\<^sup>*\<^sup>* idle_world ?w"
    by (rule solo_reachable [of _ _ _ Outside])
      (simp_all add: in_role_def idle_world_def solo_def eval_nat_numeral run_instr_def put_actor_def new_lock_def Spinlock_acquire_def)
  have i: "in_role ?w 0 {Inside}"
    by (simp add: in_role_def idle_world_def solo_def eval_nat_numeral run_instr_def put_actor_def new_lock_def Spinlock_acquire_def)
  note ex = lock_exclusion [OF idle_world_fresh r]
  have "\<forall>t u. t < 2 \<and> u < 2 \<and> in_role ?w t {Inside, InsideRaw} \<and> in_role ?w u {Inside, InsideRaw} \<longrightarrow> t = u"
    "\<forall>t < 2. in_role ?w t {Inside, InsideRaw} \<longrightarrow> isAcquired (the_lock ?w)" by (fact ex [THEN conjunct1] ex [THEN conjunct2, THEN conjunct1])+
  from this(1) [rule_format, of 0 1] this(2) [rule_format, of 0] i have "isAcquired (the_lock ?w) \<and> \<not> in_role ?w 1 {Inside}"
    by (auto simp: in_role_def)
  then show ?thesis using r i by blast
qed


subsection \<open>Readers and writers\<close>

lemmas solo_simps = in_role_def solo_def eval_nat_numeral run_instr_def put_actor_def new_lock_def Spinlock_acquire_def Spinlock_release_def

text \<open>A thread alone with the lock: its instructions until one fails.\<close>

fun runs :: "tid \<Rightarrow> nat \<Rightarrow> actor \<times> lock \<Rightarrow> (actor \<times> lock) option" where
  "runs t 0 x = Some x"
| "runs t (Suc m) (a, l) = (case code a of [] \<Rightarrow> Some (a, l)
     | i # is \<Rightarrow> (case exec t i (a\<lparr>code := is\<rparr>, l) of Inl f \<Rightarrow> None | Inr y \<Rightarrow> runs t m y))"

lemma runs_world:
  assumes "runs t m (a, l) = Some (a', l')"
  shows "(run_instr t ^^ m) ((put_actor t a w)\<lparr>the_lock := l\<rparr>) = (put_actor t a' w)\<lparr>the_lock := l'\<rparr>"
  using assms
proof (induction m arbitrary: a l)
  case (Suc m)
  show ?case
  proof (cases "code a")
    case Nil
    have "(run_instr t ^^ m) v = v" if "code (actors v t) = []" for v m using that by (induction m) (simp_all add: run_instr_idle)
    then show ?thesis using Suc.prems Nil by (simp add: put_actor_def run_instr_idle)
  next
    case (Cons i p)
    then obtain a1 l1 where x: "exec t i (a\<lparr>code := p\<rparr>, l) = Inr (a1, l1)" "runs t m (a1, l1) = Some (a', l')"
      using Suc.prems by (auto split: sum.splits)
    have "run_instr t ((put_actor t a w)\<lparr>the_lock := l\<rparr>) = (put_actor t a1 w)\<lparr>the_lock := l1\<rparr>"
      using x(1) Cons by (simp add: run_instr_def put_actor_def)
    then show ?thesis using Suc.IH [OF x(2)] by (simp only: funpow_Suc_right o_apply)
  qed
qed simp

lemma runs_solo:
  assumes "runs t m ((actors w t)\<lparr>code := p, role_of := r\<rparr>, the_lock w) = Some (a', l')" "stopped w = None" "t < n"
    "in_role w t {q}" "(q, p, r) \<in> set (methods k)"
  shows "(lock_step k n)\<^sup>*\<^sup>* w ((put_actor t a' w)\<lparr>the_lock := l'\<rparr>)"
proof -
  have "(put_actor t ((actors w t)\<lparr>code := p, role_of := r\<rparr>) w)\<lparr>the_lock := the_lock w\<rparr>
      = put_actor t ((actors w t)\<lparr>code := p, role_of := r\<rparr>) w" by (simp add: put_actor_def)
  then have e: "solo t p r m w = (put_actor t a' w)\<lparr>the_lock := l'\<rparr>"
    using runs_world [OF assms(1), of w] by (simp add: solo_def)
  show ?thesis using solo_reachable [OF assms(3-5), of m] assms(2) unfolding e by (simp add: put_actor_def)
qed

text \<open>A reader, and a writer that comes after it.\<close>

lemma reader_then_writer:
  assumes "fresh_world n w0" "2 \<le> n" "k \<in> {KRWSpin, KRWMutex}"
  shows "\<exists>w. (lock_step k n)\<^sup>*\<^sup>* w0 w \<and> in_role w 0 {Reading} \<and> in_role w 1 {Writing}"
proof -
  define rd wr where "rd = (if k = KRWSpin then RWSpinlock_acquire_read else RWMutex_acquire_read)"
    and "wr = (if k = KRWSpin then RWSpinlock_acquire_write else RWMutex_acquire_write)"
  have m: "(Outside, rd, Reading) \<in> set (methods k)" "(Outside, wr, Writing) \<in> set (methods k)"
    using assms(3) by (auto simp: rd_def wr_def)
  let ?l = "\<lambda>r w. \<lparr>m_lock = False, m_thread = None, m_read = r, m_write = w\<rparr>"
  have run: "\<exists>a'. runs t 10 (a\<lparr>code := rd, role_of := Reading\<rparr>, ?l 0 0) = Some (a', ?l 1 0) \<and> code a' = [] \<and> role_of a' = Reading"
    "\<exists>a'. runs t 10 (a\<lparr>code := wr, role_of := Writing\<rparr>, ?l 1 0) = Some (a', ?l 1 1) \<and> code a' = [] \<and> role_of a' = Writing" for a t
    by (cases "k = KRWSpin"; simp add: rd_def wr_def eval_nat_numeral method_defs)+
  have w0: "the_lock w0 = ?l 0 0" "stopped w0 = None" "in_role w0 0 {Outside}" "in_role w0 1 {Outside}" "0 < n" "1 < n"
    using assms(1,2) by (simp_all add: fresh_world_def new_lock_def in_role_def)
  obtain a where a: "runs 0 10 ((actors w0 0)\<lparr>code := rd, role_of := Reading\<rparr>, ?l 0 0) = Some (a, ?l 1 0)" "code a = []" "role_of a = Reading"
    using run(1) by blast
  define w1 where "w1 = (put_actor 0 a w0)\<lparr>the_lock := ?l 1 0\<rparr>"
  have r1: "(lock_step k n)\<^sup>*\<^sup>* w0 w1" unfolding w1_def by (rule runs_solo [OF _ w0(2,5,3) m(1)]) (simp only: w0, rule a)
  have w1: "the_lock w1 = ?l 1 0" "stopped w1 = None" "in_role w1 1 {Outside}" "in_role w1 0 {Reading}"
    using w0 a by (simp_all add: w1_def put_actor_def in_role_def)
  obtain b where b: "runs 1 10 ((actors w1 1)\<lparr>code := wr, role_of := Writing\<rparr>, ?l 1 0) = Some (b, ?l 1 1)" "code b = []" "role_of b = Writing"
    using run(2) by blast
  define w2 where "w2 = (put_actor 1 b w1)\<lparr>the_lock := ?l 1 1\<rparr>"
  have "(lock_step k n)\<^sup>*\<^sup>* w1 w2" unfolding w2_def by (rule runs_solo [OF _ w1(2) w0(6) w1(3) m(2)]) (simp only: w1, rule b)
  then have "(lock_step k n)\<^sup>*\<^sup>* w0 w2" using r1 by (meson rtranclp_trans)
  then show ?thesis using w1 b by (intro exI [of _ w2]) (simp add: w2_def put_actor_def in_role_def)
qed

text \<open>
  C22. What the readers-writer locks guarantee. In every interleaving at most one thread holds the lock for writing; when no
  call is under way, \<open>m_read\<close> and \<open>m_write\<close> count the readers and the writers; no step of any thread
  counts a reader or a writer in while a thread holds the lock for writing, and none counts a writer in unless
  \<open>m_write\<close> is zero; while a writer holds the lock, a thread that waits in \<open>acquire\<close> or \<open>upgrade\<close> releases the spinlock
  and starts over and a \<open>tryAcquire\<close> gives up. But nothing keeps a
  writer waiting for readers: with two threads or more, a state is reachable in which one thread reads while another writes.
\<close>

theorem rw_exclusion:
  assumes "fresh_world n w0" "(lock_step k n)\<^sup>*\<^sup>* w0 w"
  shows "(\<forall>t u. t < n \<and> u < n \<and> in_role w t {Writing} \<and> in_role w u {Writing} \<longrightarrow> t = u)
    \<and> ((\<forall>t < n. code (actors w t) = []) \<longrightarrow> m_read (the_lock w) = int (card {t. t < n \<and> role_of (actors w t) = Reading})
         \<and> m_write (the_lock w) = int (card {t. t < n \<and> role_of (actors w t) = Writing}))
    \<and> (\<forall>t u p. u < n \<and> in_role w u {Writing} \<and> code (actors w t) = WhileWriting # p
         \<longrightarrow> code (actors (run_instr t w) t) = Spinlock_release @ Spinlock_acquire @ WhileWriting # p)
    \<and> (\<forall>t u p. u < n \<and> in_role w u {Writing} \<and> code (actors w t) = IfWriting # p
         \<longrightarrow> code (actors (run_instr t w) t) = Spinlock_release \<and> role_of (actors (run_instr t w) t) = Outside)
    \<and> (\<forall>w'. lock_step k n w w' \<longrightarrow>
         (m_read (the_lock w) < m_read (the_lock w') \<longrightarrow> (\<forall>u < n. \<not> in_role w u {Writing}))
         \<and> (m_write (the_lock w) < m_write (the_lock w') \<longrightarrow> m_write (the_lock w) = 0 \<and> (\<forall>u < n. \<not> in_role w u {Writing})))
    \<and> (2 \<le> n \<and> k \<in> {KRWSpin, KRWMutex} \<longrightarrow> (\<exists>v. (lock_step k n)\<^sup>*\<^sup>* w0 v \<and> in_role v 0 {Reading} \<and> in_role v 1 {Writing}))"
proof -
  note D = lock_invD [OF lock_inv_reachable [OF assms(2,1)]]
  have share: "read_share w t = of_bool (role_of (actors w t) = Reading)" "write_share w t = of_bool (role_of (actors w t) = Writing)"
    if "code (actors w t) = []" for t using that by (simp_all add: actor_part_def role_defs)
  note writing = writer_share [of w]
  note inv = lock_inv_reachable [OF assms(2,1)]
  show ?thesis
  proof (intro conjI)
    show "\<forall>t u. t < n \<and> u < n \<and> in_role w t {Writing} \<and> in_role w u {Writing} \<longrightarrow> t = u"
      using writers.owner_unique [OF D(3,4)] writing by blast
    show "(\<forall>t < n. code (actors w t) = []) \<longrightarrow> m_read (the_lock w) = int (card {t. t < n \<and> role_of (actors w t) = Reading})
         \<and> m_write (the_lock w) = int (card {t. t < n \<and> role_of (actors w t) = Writing})"
    proof
      assume "\<forall>t < n. code (actors w t) = []"
      then have "{t. t < n \<and> read_share w t = 1} = {t. t < n \<and> role_of (actors w t) = Reading}"
        "{t. t < n \<and> write_share w t = 1} = {t. t < n \<and> role_of (actors w t) = Writing}" by (auto simp: share)
      then show "m_read (the_lock w) = int (card {t. t < n \<and> role_of (actors w t) = Reading})
         \<and> m_write (the_lock w) = int (card {t. t < n \<and> role_of (actors w t) = Writing})"
        using readers.balanced_owners [OF D(2)] writers.balanced_owners [OF D(3)] by simp
    qed
    have "code (actors (run_instr t w) t) = Spinlock_release @ Spinlock_acquire @ WhileWriting # p"
      if "u < n" "in_role w u {Writing}" "code (actors w t) = WhileWriting # p" for t u p
      using writers.owner_counts [OF D(3) that(1) writing [OF that(2)]] that(3)
      by (simp add: run_instr_def put_actor_def writing_retry_def)
    then show "\<forall>t u p. u < n \<and> in_role w u {Writing} \<and> code (actors w t) = WhileWriting # p
         \<longrightarrow> code (actors (run_instr t w) t) = Spinlock_release @ Spinlock_acquire @ WhileWriting # p" by blast
    have "code (actors (run_instr t w) t) = Spinlock_release \<and> role_of (actors (run_instr t w) t) = Outside"
      if "u < n" "in_role w u {Writing}" "code (actors w t) = IfWriting # p" for t u p
      using writers.owner_counts [OF D(3) that(1) writing [OF that(2)]] that(3) by (simp add: run_instr_def put_actor_def)
    then show "\<forall>t u p. u < n \<and> in_role w u {Writing} \<and> code (actors w t) = IfWriting # p
         \<longrightarrow> code (actors (run_instr t w) t) = Spinlock_release \<and> role_of (actors (run_instr t w) t) = Outside" by blast
    show "\<forall>w'. lock_step k n w w' \<longrightarrow>
         (m_read (the_lock w) < m_read (the_lock w') \<longrightarrow> (\<forall>u < n. \<not> in_role w u {Writing}))
         \<and> (m_write (the_lock w) < m_write (the_lock w') \<longrightarrow> m_write (the_lock w) = 0 \<and> (\<forall>u < n. \<not> in_role w u {Writing}))"
    proof (intro allI impI conjI)
      fix w' assume s: "lock_step k n w w'" and g: "m_write (the_lock w) < m_write (the_lock w')"
      have "0 < n" using s by cases auto
      then show "m_write (the_lock w) = 0" using entry_step(2) [OF inv s _ g] by blast
    qed (use entry_step [OF inv] in blast)+
  qed (use reader_then_writer [OF assms(1)] in blast)
qed

text \<open>Witness of C22: one of two threads reads, then both its share and the other thread's intrusion are seen.\<close>

theorem rw_exclusion_witness:
  "(\<exists>w. (lock_step KRWMutex 2)\<^sup>*\<^sup>* idle_world w \<and> in_role w 0 {Reading} \<and> m_read (the_lock w) = 1)
   \<and> (\<exists>v. (lock_step KRWMutex 2)\<^sup>*\<^sup>* idle_world v \<and> in_role v 0 {Reading} \<and> in_role v 1 {Writing})"
proof -
  let ?w = "solo 0 RWMutex_acquire_read Reading 10 idle_world"
  have r: "(lock_step KRWMutex 2)\<^sup>*\<^sup>* idle_world ?w"
    by (rule solo_reachable [of _ _ _ Outside]) (simp_all add: solo_simps idle_world_def RWMutex_acquire_read_def)
  have i: "in_role ?w 0 {Reading}" "in_role ?w 1 {Outside}"
    by (simp_all add: solo_simps idle_world_def RWMutex_acquire_read_def)
  then have c: "\<forall>t < 2. code (actors ?w t) = []" "{t. t < 2 \<and> role_of (actors ?w t) = Reading} = {0}"
    by (auto simp: in_role_def less_2_cases_iff)
  note ex = rw_exclusion [OF idle_world_fresh r]
  have "(\<forall>t < 2. code (actors ?w t) = []) \<longrightarrow> m_read (the_lock ?w) = int (card {t. t < 2 \<and> role_of (actors ?w t) = Reading})
         \<and> m_write (the_lock ?w) = int (card {t. t < 2 \<and> role_of (actors ?w t) = Writing})"
    "(2 :: nat) \<le> 2 \<and> KRWMutex \<in> {KRWSpin, KRWMutex} \<longrightarrow>
       (\<exists>v. (lock_step KRWMutex 2)\<^sup>*\<^sup>* idle_world v \<and> in_role v 0 {Reading} \<and> in_role v 1 {Writing})"
    by (fact ex [THEN conjunct2, THEN conjunct1] ex [THEN conjunct2, THEN conjunct2, THEN conjunct2, THEN conjunct2, THEN conjunct2])+
  then have "m_read (the_lock ?w) = 1"
    "\<exists>v. (lock_step KRWMutex 2)\<^sup>*\<^sup>* idle_world v \<and> in_role v 0 {Reading} \<and> in_role v 1 {Writing}" using c by simp_all
  then show ?thesis using r i by blast
qed

end
