(* ===== verification/Block.thy ===== *)
theory Block
  imports CMath Errno
begin

unbundle bit_operations_syntax

text \<open>
  Block devices and handles (\<open>dev/blockdevice.cpp\<close>, \<open>dev/blockhandle.cpp\<close>). A driver implements
  \<open>readBlock\<close>, so it is a parameter here: the bytes a call stores in the buffer. What \<open>read\<close> stores is
  contiguous, so the buffer is the list of the bytes stored so far, and beside it the count of bytes
  read that the process is charged with. A handle shares its buffer and the device with its copies.
\<close>

record block_device =
  m_sector_size :: u16
  m_sector_count :: u64
  m_max_combo :: u16
  m_init_counter :: int

definition new_block_device :: "u16 \<Rightarrow> u64 \<Rightarrow> u16 \<Rightarrow> block_device" where
  "new_block_device sector_size sector_count max_sectors_at_once =
     \<lparr>m_sector_size = sector_size, m_sector_count = sector_count, m_max_combo = max_sectors_at_once, m_init_counter = 0\<rparr>"

text \<open>The driver's \<open>initBlock\<close> and \<open>releaseBlock\<close> give the results \<open>init\<close> and \<open>rel\<close>.\<close>

definition initExt :: "error_t \<Rightarrow> block_device \<Rightarrow> error_t \<times> block_device" where
  "initExt init d = (if m_init_counter d = 0 then init else ENONE, d\<lparr>m_init_counter := m_init_counter d + 1\<rparr>)"

definition releaseExt :: "error_t \<Rightarrow> block_device \<Rightarrow> (error_t \<times> block_device) res" where
  "releaseExt rel d =
     (let d = d\<lparr>m_init_counter := m_init_counter d - 1\<rparr> in
      res_bind (res_assert (m_init_counter d \<ge> 0)) (\<lambda>_.
        Inr (if m_init_counter d = 0 then rel else ENONE, d)))"

text \<open>A handle: how many copies share its buffer, and the device.\<close>

record block_handle =
  bh_refs :: int
  bh_device :: block_device

definition open_block_handle :: "error_t \<Rightarrow> block_device option \<Rightarrow> block_handle optional" where
  "open_block_handle init device = (case device of None \<Rightarrow> Inl ENONE
     | Some d \<Rightarrow> (case initExt init d of (e, d) \<Rightarrow>
         if e \<noteq> ENONE then Inl e else Inr \<lparr>bh_refs = 1, bh_device = d\<rparr>))"

definition bh_copy :: "block_handle \<Rightarrow> block_handle" where
  "bh_copy h = h\<lparr>bh_refs := bh_refs h + 1\<rparr>"

definition bh_drop :: "error_t \<Rightarrow> block_handle \<Rightarrow> block_handle res" where
  "bh_drop rel h =
     (let h = h\<lparr>bh_refs := bh_refs h - 1\<rparr> in
      if bh_refs h \<noteq> 0 then Inr h
      else res_bind (releaseExt rel (bh_device h)) (\<lambda>(_, d). Inr (h\<lparr>bh_device := d\<rparr>)))"

subsection \<open>Reading\<close>

type_synonym read_block = "u64 \<Rightarrow> u32 \<Rightarrow> u8 list"

definition isAligned :: "u64 \<Rightarrow> bool" where
  "isAligned addr \<longleftrightarrow> addr AND 1 = 0"

definition isPerfect :: "u16 \<Rightarrow> u64 \<Rightarrow> u32 \<Rightarrow> bool" where
  "isPerfect ss start len \<longleftrightarrow> start mod ucast ss = 0 \<and> len mod ucast ss = 0"

text \<open>
  The loop for a buffer at an odd address. It may never end, so not returning is \<open>None\<close>. The loop ends
  the call when nothing is left to read, and else leaves an aligned buffer.
\<close>

partial_function (option) misaligned_loop ::
  "read_block \<Rightarrow> u16 \<Rightarrow> u64 \<Rightarrow> u64 \<Rightarrow> u32 \<Rightarrow> u8 list \<Rightarrow> u64 \<Rightarrow> (u64 \<times> u32 \<times> u8 list \<times> u64) option" where
  "misaligned_loop rd ss buffer start len out used =
     (if isAligned buffer then Some (start, len, out, used)
      else
        let sector = rd (start div ucast ss) 1;
            used = used + ucast ss;
            mlen = (ucast (min (start AND (ucast ss - 1)) (ucast len)) :: u16);
            mlen = (if mlen = 0 then min (ucast len) ss else mlen);
            out = out @ take (unat mlen) sector;
            len = len - ucast mlen
        in if len = 0 then Some (start + ucast mlen, 0, out, used)
           else misaligned_loop rd ss (buffer + ucast mlen) (start + ucast mlen) len out used)"

partial_function (option) block_loop ::
  "read_block \<Rightarrow> u16 \<Rightarrow> u16 \<Rightarrow> u64 \<Rightarrow> u32 \<Rightarrow> bool \<Rightarrow> u64 \<Rightarrow> u32 \<Rightarrow> u8 list \<Rightarrow> u64 \<Rightarrow> (u8 list \<times> u64) option" where
  "block_loop rd ss max_combo start len combo combo_start combo_count out used =
     (if len > 0 then
        let offset = (ucast (start - size_floor start (ucast ss)) :: u32);
            llen = min (ucast ss - offset) len;
            flush = (combo \<and> combo_count = ucast max_combo);
            out = (if flush then out @ rd combo_start combo_count else out);
            used = (if flush then used + ucast (combo_count * ucast ss) else used);
            combo = (combo \<and> \<not> flush)
        in
        if \<not> isPerfect ss start llen then
          let out = (if combo then out @ rd combo_start combo_count else out);
              out = out @ take (unat llen) (drop (unat offset) (rd (start div ucast ss) 1))
          in block_loop rd ss max_combo (start + ucast llen) (len - llen) False combo_start combo_count out (used + ucast ss)
        else
          block_loop rd ss max_combo (start + ucast llen) (len - llen) True
            (if combo then combo_start else start div ucast ss) (if combo then combo_count + 1 else 1) out used
      else Some (if combo then (out @ rd combo_start combo_count, used + ucast (combo_count * ucast ss)) else (out, used)))"

definition bh_read :: "read_block \<Rightarrow> block_handle \<Rightarrow> u64 \<Rightarrow> u64 \<Rightarrow> u32 \<Rightarrow> u64 \<Rightarrow> (u8 list \<times> u64) option" where
  "bh_read rd h buffer start len used =
     (let ss = m_sector_size (bh_device h) in
      case misaligned_loop rd ss buffer start len [] used of None \<Rightarrow> None
      | Some (start, len, out, used) \<Rightarrow> block_loop rd ss (m_max_combo (bh_device h)) start len False 0 0 out used)"

definition bh_write :: "block_handle \<Rightarrow> unit res" where
  "bh_write h = Inl KPanic"

subsection \<open>What a read delivers\<close>

text \<open>The bytes of a disk from an address on.\<close>

definition disk_bytes :: "(u64 \<Rightarrow> u8) \<Rightarrow> u64 \<Rightarrow> nat \<Rightarrow> u8 list" where
  "disk_bytes disk start n = map (\<lambda>i. disk (start + of_nat i)) [0..<n]"

text \<open>A driver that delivers whole sectors, if it is asked for no more than it can read at once.\<close>

definition delivers :: "(u64 \<Rightarrow> u8) \<Rightarrow> u16 \<Rightarrow> u16 \<Rightarrow> read_block \<Rightarrow> bool" where
  "delivers disk ss max_combo rd \<longleftrightarrow>
     (\<forall>s c. 1 \<le> unat c \<and> unat c \<le> unat max_combo \<longrightarrow> rd s c = disk_bytes disk (s * ucast ss) (unat c * unat ss))"

lemma length_disk_bytes [simp]: "length (disk_bytes disk start n) = n"
  by (simp add: disk_bytes_def)

lemma disk_bytes_append: "disk_bytes disk start n @ disk_bytes disk (start + of_nat n) k = disk_bytes disk start (n + k)"
proof -
  have "map (\<lambda>i. disk (start + of_nat i)) [n..<n + k] = map (\<lambda>i. disk (start + of_nat (n + i))) [0..<k]"
    by (rule nth_equalityI) (simp_all del: of_nat_add)
  moreover have "[0..<n + k] = [0..<n] @ [n..<n + k]" by (rule upt_add_eq_append) simp
  ultimately show ?thesis by (simp add: disk_bytes_def add.assoc)
qed

lemma disk_bytes_part:
  assumes "d + k \<le> n"
  shows "take k (drop d (disk_bytes disk start n)) = disk_bytes disk (start + of_nat d) k"
proof (rule nth_equalityI)
  fix i assume "i < length (take k (drop d (disk_bytes disk start n)))"
  then have "i < k" "d + i < n" using assms by simp_all
  then show "take k (drop d (disk_bytes disk start n)) ! i = disk_bytes disk (start + of_nat d) k ! i"
    by (simp add: disk_bytes_def add.assoc)
qed (use assms in simp)

text \<open>
  Where a loop pass is: the offset in the sector, what the pass reads, and what is left. All sectors
  asked for are pending or delivered.
\<close>

lemma pass_sizes:
  fixes start :: u64 and len :: u32 and ss :: u16
  assumes "0 < ss" "0 < len"
  defines "offset \<equiv> ucast (start - size_floor start (ucast ss)) :: u32"
  defines "llen \<equiv> min (ucast ss - offset) len"
  shows "unat offset = unat start mod unat ss" "0 < unat llen" "unat llen \<le> unat len" "unat offset + unat llen \<le> unat ss"
    "isPerfect ss start llen \<longleftrightarrow> unat start mod unat ss = 0 \<and> unat llen = unat ss"
proof -
  have ss: "0 < unat ss" "unat ss < 2 ^ 16" using assms(1) unat_less_2p [of ss] by (simp_all add: word_less_nat_alt)
  have u: "unat (ucast ss :: u64) = unat ss" "unat (ucast ss :: u32) = unat ss"
    using ss(2) by (simp_all add: unat_ucast_mod)
  have "unat (size_floor start (ucast ss)) = unat start div unat ss * unat ss"
  proof -
    have le: "unat start div unat ss \<le> unat start" "unat start div unat ss * unat ss \<le> unat start" by simp_all
    have "unat start < 2 ^ 64" using unat_less_2p [of start] by simp
    note le_less_trans [OF le(1) this] le_less_trans [OF le(2) this]
    then show ?thesis by (simp add: size_floor_def unat_word_ariths unat_div u)
  qed
  moreover have "unat start div unat ss * unat ss \<le> unat start" by simp
  ultimately have "unat (start - size_floor start (ucast ss)) = unat start mod unat ss"
    by (simp add: unat_sub word_le_nat_alt minus_div_mult_eq_mod)
  moreover have m: "unat start mod unat ss < unat ss" using ss(1) by simp
  ultimately show off: "unat offset = unat start mod unat ss"
    using ss(2) by (simp add: offset_def unat_ucast_mod)
  have rest: "unat (ucast ss - offset) = unat ss - unat offset"
    using m by (simp add: unat_sub word_le_nat_alt u off)
  have min: "unat llen = min (unat ss - unat offset) (unat len)"
    unfolding llen_def rest [symmetric] by (simp add: min_def word_le_nat_alt)
  have "0 < unat len" using assms(2) by (simp add: word_less_nat_alt)
  then show "0 < unat llen" "unat llen \<le> unat len" "unat offset + unat llen \<le> unat ss"
    using min m off by simp_all
  show "isPerfect ss start llen \<longleftrightarrow> unat start mod unat ss = 0 \<and> unat llen = unat ss"
  proof -
    have "unat (start mod ucast ss) = unat start mod unat ss" "unat (llen mod ucast ss) = unat llen mod unat ss"
      by (simp_all add: unat_mod u)
    then have "isPerfect ss start llen \<longleftrightarrow> unat start mod unat ss = 0 \<and> unat llen mod unat ss = 0"
      unfolding isPerfect_def by (metis unat_0 word_unat_eq_iff)
    moreover have "unat llen mod unat ss = 0 \<longleftrightarrow> unat llen = unat ss"
      using \<open>0 < unat llen\<close> \<open>unat offset + unat llen \<le> unat ss\<close> by (cases "unat llen = unat ss") auto
    ultimately show ?thesis by simp
  qed
qed


text \<open>The run of whole sectors not yet read: it ends where the loop is, and the driver can read it at once.\<close>

definition pending :: "(u64 \<Rightarrow> u8) \<Rightarrow> u16 \<Rightarrow> u16 \<Rightarrow> u64 \<Rightarrow> bool \<Rightarrow> u64 \<Rightarrow> u32 \<Rightarrow> u8 list \<Rightarrow> u8 list \<Rightarrow> bool" where
  "pending disk ss max_combo start combo cs cc out done_so_far \<longleftrightarrow>
     (if combo then 1 \<le> unat cc \<and> unat cc \<le> unat max_combo \<and> cs * ucast ss + of_nat (unat cc * unat ss) = start
        \<and> out @ disk_bytes disk (cs * ucast ss) (unat cc * unat ss) = done_so_far
      else out = done_so_far)"

lemma pending_flush:
  assumes "delivers disk ss max_combo rd" "pending disk ss max_combo start combo cs cc out bytes"
  shows "(if combo then out @ rd cs cc else out) = bytes"
  using assms by (auto simp: pending_def delivers_def)

lemma sector_start:
  fixes start :: u64 and ss :: u16
  shows "start div ucast ss * ucast ss + of_nat (unat start mod unat ss) = start"
proof -
  have u: "unat (ucast ss :: u64) = unat ss" using unat_less_2p [of ss] by (simp add: unat_ucast_mod)
  have "(of_nat (unat start div unat ss * unat ss + unat start mod unat ss) :: u64) = start" by simp
  moreover have "of_nat (unat (start div ucast ss)) = start div ucast ss" by simp
  then have "start div ucast ss = of_nat (unat start div unat ss)" by (simp only: unat_div u)
  ultimately show ?thesis by (simp only: of_nat_add of_nat_mult of_nat_unat)
qed

lemma pending_whole:
  assumes "pending disk ss max_combo start combo cs cc out bytes" "combo \<Longrightarrow> unat cc < unat max_combo" "1 \<le> unat max_combo"
    and "0 < ss" "unat start mod unat ss = 0"
  shows "pending disk ss max_combo (start + of_nat (unat ss)) True (if combo then cs else start div ucast ss) (if combo then cc + 1 else 1) out
    (bytes @ disk_bytes disk start (unat ss))"
proof (cases combo)
  case True
  have "unat cc < 2 ^ 16" using assms(2) [OF True] unat_less_2p [of max_combo] by simp
  then have c: "unat (cc + 1) = unat cc + 1" by (simp add: unat_word_ariths)
  have s: "cs * ucast ss + of_nat (unat cc * unat ss) = start" using assms(1) True by (simp add: pending_def)
  have "disk_bytes disk (cs * ucast ss) (unat cc * unat ss + unat ss)
      = disk_bytes disk (cs * ucast ss) (unat cc * unat ss) @ disk_bytes disk start (unat ss)"
    using disk_bytes_append [of disk "cs * ucast ss" "unat cc * unat ss" "unat ss"] s by simp
  then show ?thesis using True assms(1,2) c s by (simp add: pending_def add.commute distrib_left)
next
  case False
  have "start div ucast ss * ucast ss = start" using sector_start [of start ss] assms(5) by simp
  then show ?thesis using False assms(1,3) by (simp add: pending_def)
qed

lemma read_part:
  assumes "delivers disk ss max_combo rd" "1 \<le> unat max_combo" "0 < ss" "unat offset = unat start mod unat ss" "unat offset + n \<le> unat ss"
  shows "take n (drop (unat offset) (rd (start div ucast ss) 1)) = disk_bytes disk start n"
proof -
  have "rd (start div ucast ss) 1 = disk_bytes disk (start div ucast ss * ucast ss) (unat ss)"
    using assms(1,2) by (simp add: delivers_def)
  then show ?thesis using disk_bytes_part [OF assms(5), of disk "start div ucast ss * ucast ss"] sector_start [of start ss] assms(4) by simp
qed


lemma block_loop_bytes:
  assumes "delivers disk ss max_combo rd" "1 \<le> unat max_combo" "0 < ss"
    and "pending disk ss max_combo (S + of_nat k) combo cs cc out (disk_bytes disk S k)"
  shows "\<exists>u. block_loop rd ss max_combo (S + of_nat k) len combo cs cc out used = Some (disk_bytes disk S (k + unat len), u)"
  using assms(4)
proof (induction "unat len" arbitrary: len k combo cs cc out used rule: less_induct)
  case less
  let ?start = "S + of_nat k"
  show ?case
  proof (cases "len = 0")
    case True
    then show ?thesis using pending_flush [OF assms(1) less.prems] by (subst block_loop.simps) auto
  next
    case False
    then have pos: "0 < len" by (simp add: word_gt_0)
    define offset llen where "offset = (ucast (?start - size_floor ?start (ucast ss)) :: u32)" and "llen = min (ucast ss - offset) len"
    note sz = pass_sizes [OF assms(3) pos, of ?start, folded offset_def llen_def]
    define flush where "flush = (combo \<and> cc = ucast max_combo)"
    define c o1 u1 where "c = (combo \<and> \<not> flush)" and "o1 = (if flush then out @ rd cs cc else out)"
      and "u1 = (if flush then used + ucast (cc * ucast ss) else used)"
    have cc: "unat (ucast max_combo :: u32) = unat max_combo" using unat_less_2p [of max_combo] by (simp add: unat_ucast_mod)
    have p: "pending disk ss max_combo ?start c cs cc o1 (disk_bytes disk S k)"
      using less.prems pending_flush [OF assms(1) less.prems] by (auto simp: pending_def c_def o1_def flush_def)
    have room: "unat cc < unat max_combo" if c
    proof -
      have "unat cc \<noteq> unat max_combo" using that cc unfolding c_def flush_def by (metis word_unat_eq_iff)
      then show ?thesis using p that by (simp add: pending_def)
    qed
    have rest: "unat (len - llen) = unat len - unat llen" using sz(3) by (simp add: unat_sub word_le_nat_alt)
    then have smaller: "unat (len - llen) < unat len" using sz(2,3) by linarith
    have st: "?start + ucast llen = S + of_nat (k + unat llen)" by (simp add: add.assoc)
    have more: "disk_bytes disk S k @ disk_bytes disk ?start (unat llen) = disk_bytes disk S (k + unat llen)"
      by (rule disk_bytes_append)
    have total: "k + unat llen + unat (len - llen) = k + unat len" using rest sz(3) by simp
    note IH = less.hyps [OF smaller, of "k + unat llen", unfolded total, folded st]
    have step: "block_loop rd ss max_combo ?start len combo cs cc out used =
        (if \<not> isPerfect ss ?start llen
         then block_loop rd ss max_combo (?start + ucast llen) (len - llen) False cs cc
           ((if c then o1 @ rd cs cc else o1) @ take (unat llen) (drop (unat offset) (rd (?start div ucast ss) 1))) (u1 + ucast ss)
         else block_loop rd ss max_combo (?start + ucast llen) (len - llen) True
           (if c then cs else ?start div ucast ss) (if c then cc + 1 else 1) o1 u1)"
      using pos by (subst block_loop.simps)
        (simp only: Let_def offset_def llen_def flush_def c_def o1_def u1_def if_True)
    show ?thesis
    proof (cases "isPerfect ss ?start llen")
      case True
      then have w: "unat ?start mod unat ss = 0" "unat llen = unat ss" using sz(5) by simp_all
      have "pending disk ss max_combo (?start + ucast llen) True (if c then cs else ?start div ucast ss) (if c then cc + 1 else 1) o1
          (disk_bytes disk S (k + unat llen))"
        using pending_whole [OF p room assms(2,3) w(1)] more unfolding w(2) [symmetric] of_nat_unat by simp
      then show ?thesis using IH True unfolding step by simp
    next
      case False
      have "pending disk ss max_combo (?start + ucast llen) False cs cc
          ((if c then o1 @ rd cs cc else o1) @ take (unat llen) (drop (unat offset) (rd (?start div ucast ss) 1)))
          (disk_bytes disk S (k + unat llen))"
        unfolding pending_flush [OF assms(1) p] read_part [OF assms(1-3) sz(1,4)] more by (simp add: pending_def)
      then show ?thesis using IH False unfolding step by simp
    qed
  qed
qed


text \<open>
  C23. \<open>BlockHandle::read\<close> delivers the disk. From a driver that delivers the sectors it is asked for, as long as it is
  asked for at most \<open>maxCombo\<close> at once, a read into a buffer at an even address returns, and has stored exactly the bytes of
  the disk from \<open>start\<close> on, \<open>len\<close> of them, wherever they begin and end in their sectors.
\<close>

theorem block_read_bytes:
  assumes "delivers disk (m_sector_size (bh_device h)) (m_max_combo (bh_device h)) rd"
    and "0 < m_sector_size (bh_device h)" "0 < m_max_combo (bh_device h)" "even (unat buffer)"
  shows "\<exists>used'. bh_read rd h buffer start len used = Some (disk_bytes disk start (unat len), used')"
proof -
  have "isAligned buffer" using assms(4) by (simp add: isAligned_def and_one_eq even_iff_mod_2_eq_zero word_unat_eq_iff unat_mod)
  then have "misaligned_loop rd ss buffer start len [] used = Some (start, len, [], used)" for ss
    by (simp add: misaligned_loop.simps)
  moreover have "1 \<le> unat (m_max_combo (bh_device h))" using assms(3) by (simp add: word_less_nat_alt)
  from block_loop_bytes [OF assms(1) this assms(2), of start 0 False 0 0 "[]" len used]
  have "\<exists>u. block_loop rd (m_sector_size (bh_device h)) (m_max_combo (bh_device h)) start len False 0 0 [] used
      = Some (disk_bytes disk start (unat len), u)"
    by (simp add: pending_def disk_bytes_def)
  ultimately show ?thesis by (simp add: bh_read_def Let_def)
qed

text \<open>
  Witness of C23: a disk of sectors of four bytes whose bytes are their addresses, and a driver that can read two sectors
  at once. A read that begins in one sector and ends four sectors behind takes a part, two runs and a part.
\<close>

theorem block_read_bytes_witness:
  "\<exists>used. bh_read (\<lambda>s c. map (\<lambda>i. ucast (s * 4 + of_nat i)) [0..<unat c * 4])
     \<lparr>bh_refs = 1, bh_device = \<lparr>m_sector_size = 4, m_sector_count = 100, m_max_combo = 2, m_init_counter = 1\<rparr>\<rparr> 0x1000 3 15 0
   = Some ([3, 4, 5, 6, 7, 8, 9, 10, 11, 12, 13, 14, 15, 16, 17], used)"
proof -
  let ?h = "\<lparr>bh_refs = 1, bh_device = \<lparr>m_sector_size = 4, m_sector_count = 100, m_max_combo = 2, m_init_counter = 1\<rparr>\<rparr>"
  let ?rd = "\<lambda>s c. map (\<lambda>i. ucast (s * 4 + of_nat i)) [0..<unat c * 4] :: u8 list"
  have "delivers ucast 4 2 ?rd" by (simp add: delivers_def disk_bytes_def)
  then have "\<exists>used. bh_read ?rd ?h 0x1000 3 15 0 = Some (disk_bytes ucast 3 (unat (15 :: u32)), used)"
    using block_read_bytes [of ucast ?h ?rd "0x1000" 3 15 0] by simp
  moreover have "disk_bytes ucast 3 (unat (15 :: u32)) = [3, 4, 5, 6, 7, 8, 9, 10, 11, 12, 13, 14, 15, 16, 17]"
    by (simp add: disk_bytes_def upt_rec)
  ultimately show ?thesis by simp
qed

end
