(* ===== verification/SmartPtr.thy ===== *)
theory SmartPtr
  imports Prelude "HOL-Library.Multiset"
begin

text \<open>
  Reference counts (\<open>include/aex/mem/smartptr.hpp\<close>, \<open>include/aex/mem/smartarray.hpp\<close>). Objects and the
  control blocks \<open>sp_shared\<close> are numbers. The store says which control blocks are allocated, with their
  counts, and which objects are; using a freed one stops the kernel. A smart pointer is the pair of its two pointers.
\<close>

record store =
  counts :: "nat \<Rightarrow> int option"
  live :: "nat \<Rightarrow> bool"
  fresh :: nat

record sptr =
  m_val :: "nat option"
  m_refs :: "nat option"

definition getNull :: sptr where
  "getNull = \<lparr>m_val = None, m_refs = None\<rparr>"

subsection \<open>Counters\<close>

definition increment :: "nat \<Rightarrow> store \<Rightarrow> store res" where
  "increment b h = (case counts h b of None \<Rightarrow> Inl OutOfBounds | Some n \<Rightarrow> Inr (h\<lparr>counts := (counts h)(b \<mapsto> n + 1)\<rparr>))"

definition decrement :: "nat \<Rightarrow> store \<Rightarrow> (bool \<times> store) res" where
  "decrement b h = (case counts h b of None \<Rightarrow> Inl OutOfBounds
     | Some n \<Rightarrow> Inr (n - 1 = 0, h\<lparr>counts := (counts h)(b \<mapsto> n - 1)\<rparr>))"

definition ref_count :: "nat \<Rightarrow> store \<Rightarrow> int res" where
  "ref_count b h = (case counts h b of None \<Rightarrow> Inl OutOfBounds | Some n \<Rightarrow> Inr n)"

definition delete_object :: "nat \<Rightarrow> store \<Rightarrow> store res" where
  "delete_object v h = (if live h v then Inr (h\<lparr>live := (live h)(v := False)\<rparr>) else Inl OutOfBounds)"

definition delete_block :: "nat \<Rightarrow> store \<Rightarrow> store res" where
  "delete_block b h = (if counts h b = None then Inl OutOfBounds else Inr (h\<lparr>counts := (counts h)(b := None)\<rparr>))"

definition new_object :: "store \<Rightarrow> nat \<times> store" where
  "new_object h = (fresh h, h\<lparr>live := (live h)(fresh h := True), fresh := fresh h + 1\<rparr>)"

definition new_shared :: "store \<Rightarrow> nat \<times> store" where
  "new_shared h = (fresh h, h\<lparr>counts := (counts h)(fresh h \<mapsto> 1), fresh := fresh h + 1\<rparr>)"

subsection \<open>Smart pointers\<close>

definition sp_of :: "nat \<Rightarrow> store \<Rightarrow> sptr \<times> store" where
  "sp_of v h = (case new_shared h of (b, h) \<Rightarrow> (\<lparr>m_val = Some v, m_refs = Some b\<rparr>, h))"

definition sp_copy :: "sptr \<Rightarrow> store \<Rightarrow> (sptr \<times> store) res" where
  "sp_copy s h = (case m_refs s of None \<Rightarrow> Inr (s, h) | Some b \<Rightarrow> res_bind (increment b h) (\<lambda>h. Inr (s, h)))"

definition cleanup :: "sptr \<Rightarrow> store \<Rightarrow> store res" where
  "cleanup s h = res_bind (case m_val s of None \<Rightarrow> Inr h | Some v \<Rightarrow> delete_object v h) (\<lambda>h.
     case m_refs s of None \<Rightarrow> Inr h | Some b \<Rightarrow> delete_block b h)"

definition sp_drop :: "sptr \<Rightarrow> store \<Rightarrow> store res" where
  "sp_drop s h = (case m_refs s of None \<Rightarrow> Inr h
     | Some b \<Rightarrow> res_bind (decrement b h) (\<lambda>(last_ref, h). if last_ref then cleanup s h else Inr h))"

text \<open>\<open>operator=\<close> for different pointers: the old value is let go, then the new one is taken.\<close>

definition sp_assign :: "sptr \<Rightarrow> sptr \<Rightarrow> store \<Rightarrow> (sptr \<times> store) res" where
  "sp_assign this sp h = res_bind (sp_drop this h) (sp_copy sp)"

definition isValid :: "sptr \<Rightarrow> bool" where
  "isValid s \<longleftrightarrow> m_val s \<noteq> None"

definition refCount :: "sptr \<Rightarrow> store \<Rightarrow> int res" where
  "refCount s h = (case m_refs s of None \<Rightarrow> Inl NullDeref | Some b \<Rightarrow> ref_count b h)"

definition defuse :: "sptr \<Rightarrow> sptr" where
  "defuse s = s\<lparr>m_refs := None\<rparr>"

subsection \<open>Arrays of counted objects\<close>

text \<open>An element has the two pointers of a smart pointer.\<close>

definition sa_get :: "int \<Rightarrow> sptr list \<Rightarrow> store \<Rightarrow> (sptr \<times> store) res" where
  "sa_get index es h =
     (if index < 0 \<or> index \<ge> int (length es) then Inr (getNull, h)
      else let e = es ! nat index in
        case m_refs e of None \<Rightarrow> Inr (getNull, h) | Some b \<Rightarrow> res_bind (increment b h) (\<lambda>h. Inr (e, h)))"

fun find_slot :: "nat \<Rightarrow> sptr list \<Rightarrow> store \<Rightarrow> nat option res" where
  "find_slot i [] h = Inr None"
| "find_slot i (e # es) h =
     (case (m_val e, m_refs e) of
        (Some v, Some b) \<Rightarrow> res_bind (ref_count b h) (\<lambda>n. if n = 0 then Inr (Some i) else find_slot (i + 1) es h)
      | _ \<Rightarrow> Inr (Some i))"

definition findSlotOrMakeSlot :: "sptr list \<Rightarrow> store \<Rightarrow> (nat \<times> sptr list) res" where
  "findSlotOrMakeSlot es h = res_bind (find_slot 0 es h) (\<lambda>r. case r of
     Some i \<Rightarrow> Inr (i, es) | None \<Rightarrow> Inr (length es, es @ [getNull]))"

definition sa_addRef :: "nat \<Rightarrow> sptr list \<Rightarrow> store \<Rightarrow> (nat \<times> sptr list \<times> store) res" where
  "sa_addRef v es h = res_bind (findSlotOrMakeSlot es h) (\<lambda>(i, es).
     case sp_of v h of (e, h) \<Rightarrow> Inr (i, es[i := e], h))"

definition sa_addRef_counter :: "nat \<Rightarrow> nat \<Rightarrow> sptr list \<Rightarrow> store \<Rightarrow> (nat \<times> sptr list \<times> store) res" where
  "sa_addRef_counter v b es h = res_bind (findSlotOrMakeSlot es h) (\<lambda>(i, es).
     Inr (i, es[i := \<lparr>m_val = Some v, m_refs = Some b\<rparr>], h))"

definition element_die :: "sptr \<Rightarrow> store \<Rightarrow> (sptr \<times> store) res" where
  "element_die e h = res_bind (sp_drop e h) (\<lambda>h. Inr (getNull, h))"

definition sa_remove :: "int \<Rightarrow> sptr list \<Rightarrow> store \<Rightarrow> (sptr list \<times> store) res" where
  "sa_remove index es h =
     (if index < 0 \<or> index \<ge> int (length es) then Inr (es, h)
      else res_bind (element_die (es ! nat index) h) (\<lambda>(e, h). Inr (es[nat index := e], h)))"

text \<open>The iterator: the pointer it keeps is assigned, and the one \<open>get\<close> made for it goes out of scope.\<close>

fun sa_next :: "nat \<Rightarrow> nat \<Rightarrow> sptr \<Rightarrow> sptr list \<Rightarrow> store \<Rightarrow> (nat \<times> sptr \<times> nat option \<times> store) res" where
  "sa_next 0 index current es h = Inr (index, current, None, h)"
| "sa_next (Suc left) index current es h =
     res_bind (sa_get (int index) es h) (\<lambda>(ptr, h).
       if \<not> isValid ptr then sa_next left (index + 1) current es h
       else res_bind (sp_assign current ptr h) (\<lambda>(current, h).
         res_bind (sp_drop ptr h) (\<lambda>h. Inr (index + 1, current, m_val current, h))))"

definition iterator_next :: "nat \<Rightarrow> sptr \<Rightarrow> sptr list \<Rightarrow> store \<Rightarrow> (nat \<times> sptr \<times> nat option \<times> store) res" where
  "iterator_next index current es h = sa_next (length es - index) index current es h"

subsection \<open>A program that uses them\<close>

text \<open>Pointers in scope, one array, and what a program can do with them. A pointer out of scope is null.\<close>

record pool =
  heap :: store
  handles :: "sptr list"
  elements :: "sptr list"

datatype sp_op = Create | Copy nat | Assign nat nat | Drop nat | Get int | AddRef | Remove int

definition handle :: "pool \<Rightarrow> nat \<Rightarrow> sptr" where
  "handle p i = (if i < length (handles p) then handles p ! i else getNull)"

fun sp_run :: "sp_op \<Rightarrow> pool \<Rightarrow> pool res" where
  "sp_run Create p = (case new_object (heap p) of (v, h) \<Rightarrow> case sp_of v h of (s, h) \<Rightarrow>
     Inr (p\<lparr>heap := h, handles := handles p @ [s]\<rparr>))"
| "sp_run (Copy i) p = res_bind (sp_copy (handle p i) (heap p)) (\<lambda>(s, h). Inr (p\<lparr>heap := h, handles := handles p @ [s]\<rparr>))"
| "sp_run (Assign i j) p = (if i = j \<or> i \<ge> length (handles p) then Inr p
     else res_bind (sp_assign (handle p i) (handle p j) (heap p)) (\<lambda>(s, h). Inr (p\<lparr>heap := h, handles := (handles p)[i := s]\<rparr>)))"
| "sp_run (Drop i) p = res_bind (sp_drop (handle p i) (heap p)) (\<lambda>h. Inr (p\<lparr>heap := h, handles := (handles p)[i := getNull]\<rparr>))"
| "sp_run (Get k) p = res_bind (sa_get k (elements p) (heap p)) (\<lambda>(s, h). Inr (p\<lparr>heap := h, handles := handles p @ [s]\<rparr>))"
| "sp_run AddRef p = (case new_object (heap p) of (v, h) \<Rightarrow>
     res_bind (sa_addRef v (elements p) h) (\<lambda>(_, es, h). Inr (p\<lparr>heap := h, elements := es\<rparr>)))"
| "sp_run (Remove k) p = res_bind (sa_remove k (elements p) (heap p)) (\<lambda>(es, h). Inr (p\<lparr>heap := h, elements := es\<rparr>))"

fun sp_runs :: "sp_op list \<Rightarrow> pool \<Rightarrow> pool res" where
  "sp_runs [] p = Inr p"
| "sp_runs (op # ops) p = res_bind (sp_run op p) (sp_runs ops)"

definition empty_pool :: pool where
  "empty_pool = \<lparr>heap = \<lparr>counts = (\<lambda>_. None), live = (\<lambda>_. False), fresh = 0\<rparr>, handles = [], elements = []\<rparr>"


subsection \<open>Counts are exact\<close>

definition refs_to :: "nat \<Rightarrow> sptr multiset \<Rightarrow> nat" where
  "refs_to b M = size (filter_mset (\<lambda>s. m_refs s = Some b) M)"

definition paired :: "sptr multiset \<Rightarrow> bool" where
  "paired M \<longleftrightarrow> (\<forall>s \<in># M. (m_val s = None) = (m_refs s = None))
     \<and> (\<forall>s \<in># M. \<forall>t \<in># M. m_refs s \<noteq> None \<longrightarrow> (m_refs s = m_refs t) = (m_val s = m_val t))"

definition exact :: "store \<Rightarrow> sptr multiset \<Rightarrow> bool" where
  "exact h M \<longleftrightarrow> paired M
     \<and> (\<forall>b. counts h b = (if refs_to b M = 0 then None else Some (int (refs_to b M))))
     \<and> (\<forall>v. live h v \<longleftrightarrow> (\<exists>s \<in># M. m_val s = Some v))
     \<and> (\<forall>b. refs_to b M \<noteq> 0 \<longrightarrow> b < fresh h) \<and> (\<forall>v. live h v \<longrightarrow> v < fresh h)"

lemma exactD:
  assumes "exact h M"
  shows "paired M" "\<And>b. counts h b = (if refs_to b M = 0 then None else Some (int (refs_to b M)))"
    "\<And>v. live h v \<longleftrightarrow> (\<exists>s \<in># M. m_val s = Some v)" "\<And>b. refs_to b M \<noteq> 0 \<Longrightarrow> b < fresh h" "\<And>v. live h v \<Longrightarrow> v < fresh h"
  using assms unfolding exact_def by blast+

lemma refs_to_add [simp]: "refs_to b (add_mset s M) = (if m_refs s = Some b then Suc (refs_to b M) else refs_to b M)"
  by (simp add: refs_to_def)

lemma refs_to_zero: "refs_to b M = 0 \<longleftrightarrow> (\<forall>s \<in># M. m_refs s \<noteq> Some b)"
  by (auto simp: refs_to_def)

lemma paired_add: "paired (add_mset s M) \<Longrightarrow> paired M"
  by (auto simp: paired_def)

lemma exact_null [simp]: "exact h (add_mset getNull M) \<longleftrightarrow> exact h M"
proof -
  have "paired (add_mset getNull M) \<longleftrightarrow> paired M" by (auto simp: paired_def getNull_def)
  then show ?thesis by (simp add: exact_def) (simp add: getNull_def)
qed

lemma retain:
  assumes "exact h M" "s \<in># M"
  shows "\<exists>h'. sp_copy s h = Inr (s, h') \<and> exact h' (add_mset s M)"
proof (cases "m_refs s")
  case None
  then have "s = getNull" using exactD(1) [OF assms(1)] assms(2) by (auto simp: paired_def getNull_def intro: sptr.equality)
  then show ?thesis using assms(1) by (simp add: sp_copy_def getNull_def) (simp add: getNull_def [symmetric])
next
  case (Some b)
  note D = exactD [OF assms(1)]
  have r: "refs_to b M \<noteq> 0" using Some assms(2) by (auto simp: refs_to_zero)
  have "paired (add_mset s M)" using D(1) assms(2) by (auto simp: paired_def)
  moreover have "live h v \<longleftrightarrow> (\<exists>t \<in># add_mset s M. m_val t = Some v)" for v using D(3) assms(2) by auto
  ultimately have "exact (h\<lparr>counts := (counts h)(b \<mapsto> int (refs_to b M) + 1)\<rparr>) (add_mset s M)"
    using D r Some by (auto simp: exact_def)
  then show ?thesis using D(2) [of b] r Some by (simp add: sp_copy_def increment_def)
qed

lemma release:
  assumes "exact h (add_mset s M)"
  shows "\<exists>h'. sp_drop s h = Inr h' \<and> exact h' M"
proof (cases "m_refs s")
  case None
  then have "s = getNull" using exactD(1) [OF assms] by (auto simp: paired_def getNull_def intro: sptr.equality)
  then show ?thesis using assms None by (simp add: sp_drop_def)
next
  case (Some b)
  note D = exactD [OF assms]
  obtain v where v: "m_val s = Some v" using D(1) Some by (auto simp: paired_def)
  have cnt: "counts h b = Some (int (refs_to b M) + 1)" using D(2) [of b] Some by simp
  have p: "paired M" by (rule paired_add [OF D(1)])
  have same: "m_val t = Some v \<longleftrightarrow> m_refs t = Some b" if "t \<in># M" for t
    using D(1) that Some v unfolding paired_def by (metis insert_noteq_member option.distinct(1) union_single_eq_member insert_iff set_mset_add_mset_insert)
  show ?thesis
  proof (cases "refs_to b M = 0")
    case True
    let ?h = "h\<lparr>counts := (counts h)(b := None), live := (live h)(v := False)\<rparr>"
    have "\<not> (\<exists>t \<in># M. m_val t = Some v)" using True same by (auto simp: refs_to_zero)
    then have "exact ?h M" using p D Some v True by (auto simp: exact_def split: if_splits)
    moreover have "sp_drop s h = Inr ?h"
      using Some v cnt True D(3) [of v] by (simp add: sp_drop_def decrement_def cleanup_def delete_object_def delete_block_def)
    ultimately show ?thesis by blast
  next
    case False
    then obtain t where "t \<in># M" "m_refs t = Some b" by (auto simp: refs_to_zero)
    then have "\<exists>t \<in># M. m_val t = Some v" using same by blast
    then have "exact (h\<lparr>counts := (counts h)(b \<mapsto> int (refs_to b M))\<rparr>) M"
      using p D Some v False by (auto simp: exact_def split: if_splits)
    then show ?thesis using Some cnt False by (simp add: sp_drop_def decrement_def)
  qed
qed

lemma create:
  assumes "exact h M" "new_object h = (v, h1)" "sp_of v h1 = (s, h2)"
  shows "exact h2 (add_mset s M)"
proof -
  note D = exactD [OF assms(1)]
  have v: "v = fresh h" and h1: "h1 = h\<lparr>live := (live h)(v := True), fresh := fresh h + 1\<rparr>"
    using assms(2) by (auto simp: new_object_def)
  have s: "s = \<lparr>m_val = Some v, m_refs = Some (v + 1)\<rparr>"
    and h2: "h2 = h\<lparr>live := (live h)(v := True), counts := (counts h)(v + 1 \<mapsto> 1), fresh := fresh h + 2\<rparr>"
    using assms(3) by (auto simp: sp_of_def new_shared_def h1 v)
  have new: "refs_to (v + 1) M = 0" using D(4) [of "v + 1"] v by auto
  have "m_refs t \<noteq> Some (v + 1)" "m_val t \<noteq> Some v" if "t \<in># M" for t
    using that new D(3) [of v] D(5) [of v] v by (auto simp: refs_to_zero)
  then have "paired (add_mset s M)" using D(1) by (auto simp: paired_def s)
  then show ?thesis
    unfolding exact_def h2 using D(2,3) new D(4,5) v by (auto simp: s less_Suc_eq)
qed


definition pointers :: "pool \<Rightarrow> sptr multiset" where
  "pointers p = mset (handles p) + mset (elements p)"

lemma mset_pick: "i < length xs \<Longrightarrow> mset xs = add_mset (xs ! i) (mset xs - {#xs ! i#})"
  by (simp add: nth_mem_mset)

lemma handle_pointer: "exact h (pointers p) \<Longrightarrow> handle p i \<in># pointers p \<or> handle p i = getNull"
  by (auto simp: handle_def pointers_def)

lemma exact_copy:
  assumes "exact h M" "s \<in># M \<or> s = getNull"
  shows "\<exists>h'. sp_copy s h = Inr (s, h') \<and> exact h' (add_mset s M)"
proof (cases "s = getNull")
  case True
  then show ?thesis using assms(1) exact_null by (simp add: sp_copy_def getNull_def [symmetric]) (simp add: getNull_def)
qed (use retain assms in blast)

text \<open>A place of a list that lets go of its pointer, and takes another.\<close>

lemma exact_drop_at:
  assumes "exact h (mset xs + N)" "i < length xs"
  shows "\<exists>h'. sp_drop (xs ! i) h = Inr h' \<and> exact h' (mset xs - {#xs ! i#} + N)"
proof -
  have "mset xs + N = add_mset (xs ! i) (mset xs - {#xs ! i#} + N)" using mset_pick [OF assms(2)] by simp
  then have "exact h (add_mset (xs ! i) (mset xs - {#xs ! i#} + N))" using assms(1) by (simp only:)
  then show ?thesis by (rule release)
qed

lemma mset_other:
  assumes "i < length xs" "j < length xs" "i \<noteq> j"
  shows "xs ! j \<in># mset xs - {#xs ! i#}"
proof -
  have "mset xs = mset (take i xs @ xs ! i # drop (Suc i) xs)" using id_take_nth_drop [OF assms(1)] by simp
  then have "mset xs - {#xs ! i#} = mset (take i xs) + mset (drop (Suc i) xs)" by simp
  moreover have "xs ! j \<in> set (take i xs) \<or> xs ! j \<in> set (drop (Suc i) xs)"
  proof (cases "j < i")
    case True
    then show ?thesis using assms(2) by (auto simp: in_set_conv_nth)
  next
    case False
    then have "drop (Suc i) xs ! (j - Suc i) = xs ! j" "j - Suc i < length (drop (Suc i) xs)" using assms by simp_all
    then show ?thesis by (metis nth_mem)
  qed
  ultimately show ?thesis by simp
qed

lemma find_slot_counts: "counts g = counts h \<Longrightarrow> find_slot k es g = find_slot k es h"
  by (induction es arbitrary: k) (auto simp: ref_count_def split: option.splits)

lemma find_slot_null:
  assumes "exact h (mset es + N)"
  shows "\<exists>r. find_slot k es h = Inr r \<and> (\<forall>i. r = Some i \<longrightarrow> k \<le> i \<and> i - k < length es \<and> es ! (i - k) = getNull)"
  using assms
proof (induction es arbitrary: k N)
  case (Cons e es)
  have x: "exact h (mset es + add_mset e N)" using Cons.prems by simp
  note D = exactD [OF Cons.prems]
  show ?case
  proof (cases "m_refs e")
    case None
    moreover have "m_val e = None" using None D(1) by (auto simp: paired_def)
    ultimately show ?thesis by (auto simp: getNull_def intro: sptr.equality)
  next
    case (Some b)
    obtain v where v: "m_val e = Some v" using Some D(1) by (auto simp: paired_def)
    have "ref_count b h = Inr (1 + int (refs_to b (mset es + N)))" using D(2) [of b] Some by (simp add: ref_count_def)
    then have step: "find_slot k (e # es) h = find_slot (k + 1) es h" using Some v by simp
    obtain r where r: "find_slot (k + 1) es h = Inr r" "\<And>i. r = Some i \<Longrightarrow> k + 1 \<le> i \<and> i - (k + 1) < length es \<and> es ! (i - (k + 1)) = getNull"
      using Cons.IH [OF x, of "k + 1"] by blast
    have "k \<le> i \<and> i - k < length (e # es) \<and> (e # es) ! (i - k) = getNull" if "r = Some i" for i
    proof -
      have "i - k = Suc (i - (k + 1))" using r(2) [OF that] by linarith
      then show ?thesis using r(2) [OF that] by simp
    qed
    then show ?thesis unfolding step using r(1) by blast
  qed
qed simp

lemma slot_null:
  assumes "exact h (mset es + N)"
  shows "\<exists>i es'. findSlotOrMakeSlot es h = Inr (i, es') \<and> i < length es' \<and> es' ! i = getNull \<and> (exact g (mset es' + N) \<longleftrightarrow> exact g (mset es + N))"
proof -
  obtain r where r: "find_slot 0 es h = Inr r" "\<And>i. r = Some i \<Longrightarrow> i < length es \<and> es ! i = getNull"
    using find_slot_null [OF assms, of 0] by auto
  show ?thesis
  proof (cases r)
    case None
    then show ?thesis using r(1) by (simp add: findSlotOrMakeSlot_def nth_append)
  qed (use r in \<open>simp add: findSlotOrMakeSlot_def\<close>)
qed


text \<open>Every operation succeeds and keeps the counts exact.\<close>

lemma assign_exact:
  assumes "exact (heap p) (pointers p)"
  shows "\<exists>p'. sp_run (Assign i j) p = Inr p' \<and> exact (heap p') (pointers p')"
proof (cases "i = j \<or> i \<ge> length (handles p)")
  case False
  then have i: "i < length (handles p)" "handle p i = handles p ! i" by (simp_all add: handle_def)
  let ?N = "mset (handles p) - {#handles p ! i#} + mset (elements p)"
  obtain h1 where h1: "sp_drop (handles p ! i) (heap p) = Inr h1" "exact h1 ?N"
    using exact_drop_at [OF assms [unfolded pointers_def] i(1)] by blast
  have "handle p j \<in># ?N \<or> handle p j = getNull"
  proof (cases "j < length (handles p)")
    case True
    then have "handle p j \<in># mset (handles p) - {#handles p ! i#}" using mset_other [OF i(1) True] False by (simp add: handle_def)
    then show ?thesis by (simp only: union_iff simp_thms)
  qed (simp add: handle_def)
  then obtain h2 where h2: "sp_copy (handle p j) h1 = Inr (handle p j, h2)" "exact h2 (add_mset (handle p j) ?N)"
    using exact_copy [OF h1(2)] by blast
  then show ?thesis using False h1(1) i by (simp add: sp_assign_def mset_update pointers_def)
qed (use assms in auto)

lemma elements_exact: "exact (heap p) (pointers p) \<Longrightarrow> exact (heap p) (mset (elements p) + mset (handles p))"
  by (simp add: pointers_def add.commute)

lemma addRef_exact:
  assumes "exact (heap p) (pointers p)"
  shows "\<exists>p'. sp_run AddRef p = Inr p' \<and> exact (heap p') (pointers p')"
proof -
  obtain v h1 where n: "new_object (heap p) = (v, h1)" by fastforce
  obtain s h2 where o: "sp_of v h1 = (s, h2)" by fastforce
  have "findSlotOrMakeSlot es h1 = findSlotOrMakeSlot es (heap p)" for es
    using n find_slot_counts [of h1 "heap p"] by (auto simp: findSlotOrMakeSlot_def new_object_def)
  moreover obtain i es where es: "findSlotOrMakeSlot (elements p) (heap p) = Inr (i, es)" "i < length es" "es ! i = getNull"
    "exact (heap p) (mset es + mset (handles p))"
    using slot_null [OF elements_exact [OF assms], of "heap p"] elements_exact [OF assms] by blast
  ultimately have run: "sp_run AddRef p = Inr (p\<lparr>heap := h2, elements := es[i := s]\<rparr>)"
    using n o by (simp add: sa_addRef_def)
  let ?N = "mset es - {#getNull#} + mset (handles p)"
  have "mset es + mset (handles p) = add_mset getNull ?N" using mset_pick [OF es(2)] es(3) by simp
  then have "exact (heap p) ?N" using es(4) by (simp only: exact_null)
  from create [OF this n o] show ?thesis using run es(2,3) by (simp add: pointers_def mset_update add.commute)
qed

lemma get_exact:
  assumes "exact (heap p) (pointers p)"
  shows "\<exists>p'. sp_run (Get k) p = Inr p' \<and> exact (heap p') (pointers p')"
proof (cases "k < 0 \<or> k \<ge> int (length (elements p)) \<or> m_refs (elements p ! nat k) = None")
  case True
  then show ?thesis using assms by (auto simp: sa_get_def Let_def pointers_def)
next
  case False
  then have "nat k < length (elements p)" by linarith
  then have "elements p ! nat k \<in># pointers p" by (simp add: pointers_def)
  from retain [OF assms this] False show ?thesis by (auto simp: sa_get_def sp_copy_def Let_def pointers_def res_bind_Inr_iff)
qed

lemma sp_run_exact:
  assumes "exact (heap p) (pointers p)"
  shows "\<exists>p'. sp_run op p = Inr p' \<and> exact (heap p') (pointers p')"
proof (cases op)
  case Create
  obtain v h1 s h2 where n: "new_object (heap p) = (v, h1)" "sp_of v h1 = (s, h2)" by fastforce
  then show ?thesis using create [OF assms n] Create by (simp add: pointers_def)
next
  case (Copy i)
  then show ?thesis using exact_copy [OF assms handle_pointer [OF assms], of i] by (auto simp: pointers_def)
next
  case (Drop i)
  show ?thesis
  proof (cases "i < length (handles p)")
    case True
    then show ?thesis using exact_drop_at [OF assms [unfolded pointers_def] True] Drop
      by (auto simp: handle_def mset_update pointers_def)
  qed (use Drop assms in \<open>simp add: handle_def sp_drop_def getNull_def pointers_def not_less list_update_beyond\<close>)
next
  case (Remove k)
  show ?thesis
  proof (cases "k < 0 \<or> k \<ge> int (length (elements p))")
    case False
    then have k: "nat k < length (elements p)" by linarith
    from exact_drop_at [OF elements_exact [OF assms] k] k False Remove show ?thesis
      by (auto simp: sa_remove_def element_die_def mset_update pointers_def add.commute)
  qed (use Remove assms in \<open>auto simp: sa_remove_def\<close>)
qed (use assms assign_exact get_exact addRef_exact in blast)+

lemma sp_runs_exact: "exact (heap p) (pointers p) \<Longrightarrow> \<exists>p'. sp_runs ops p = Inr p' \<and> exact (heap p') (pointers p')"
proof (induction ops arbitrary: p)
  case (Cons op ops)
  obtain p1 where "sp_run op p = Inr p1" "exact (heap p1) (pointers p1)" using sp_run_exact [OF Cons.prems] by blast
  then show ?case using Cons.IH by auto
qed simp

text \<open>
  C24. Reference counts are exact. Whatever a program does with smart pointers and an array of counted objects, creating, copying,
  assigning and dropping pointers, adding, looking up and removing elements, nothing freed is used and nothing is freed
  twice; every control block counts the pointers and elements that refer to it and is freed with the last of them, and an object
  lives exactly as long as a pointer or an element refers to it.
\<close>

theorem smart_pointers_exact:
  "\<exists>p. sp_runs ops empty_pool = Inr p
     \<and> (\<forall>b. let n = length (filter (\<lambda>s. m_refs s = Some b) (handles p @ elements p)) in
           counts (heap p) b = (if n = 0 then None else Some (int n)))
     \<and> (\<forall>v. live (heap p) v \<longleftrightarrow> (\<exists>s \<in> set (handles p @ elements p). m_val s = Some v))"
proof -
  have "exact (heap empty_pool) (pointers empty_pool)" by (simp add: exact_def paired_def empty_pool_def pointers_def refs_to_def)
  then obtain p where p: "sp_runs ops empty_pool = Inr p" "exact (heap p) (pointers p)" using sp_runs_exact by blast
  have n: "refs_to b (pointers p) = length (filter (\<lambda>s. m_refs s = Some b) (handles p @ elements p))" for b
    by (simp add: refs_to_def pointers_def flip: mset_filter)
  show ?thesis using p(1) exactD(2,3) [OF p(2)] unfolding n by (auto simp: Let_def pointers_def)
qed

end
