(* ===== verification/ProcLists.thy ===== *)
theory ProcLists
  imports Prelude
begin

text \<open>
  The lists of processes and threads (\<open>proc/proc.cpp\<close>): rings of nodes linked by \<open>next\<close> and \<open>prev\<close>, with a head,
  a tail and a size. A node is a number, a null pointer is \<open>None\<close>. The locks the callers hold are not part of a list.
\<close>

record links =
  next_of :: "nat \<Rightarrow> nat option"
  prev_of :: "nat \<Rightarrow> nat option"
  list_size :: int
  list_head :: "nat option"
  list_tail :: "nat option"

definition set_next :: "nat option \<Rightarrow> nat option \<Rightarrow> links \<Rightarrow> links res" where
  "set_next a b l = (case a of None \<Rightarrow> Inl NullDeref | Some n \<Rightarrow> Inr (l\<lparr>next_of := (next_of l)(n := b)\<rparr>))"

definition set_prev :: "nat option \<Rightarrow> nat option \<Rightarrow> links \<Rightarrow> links res" where
  "set_prev a b l = (case a of None \<Rightarrow> Inl NullDeref | Some n \<Rightarrow> Inr (l\<lparr>prev_of := (prev_of l)(n := b)\<rparr>))"

text \<open>A node put between the tail and the head.\<close>

definition link_last :: "nat \<Rightarrow> links \<Rightarrow> links res" where
  "link_last t l =
     res_bind (set_next (list_tail l) (Some t) (l\<lparr>list_size := list_size l + 1\<rparr>)) (\<lambda>l.
     res_bind (set_next (Some t) (list_head l) l) (\<lambda>l.
     res_bind (set_prev (Some t) (list_tail l) l) (\<lambda>l.
       let l = l\<lparr>list_tail := Some t\<rparr> in set_prev (list_head l) (list_tail l) l)))"

definition unlink :: "nat \<Rightarrow> links \<Rightarrow> links res" where
  "unlink t l =
     (let l = l\<lparr>list_size := list_size l - 1\<rparr>;
          l = (if list_head l = Some t then l\<lparr>list_head := next_of l t\<rparr> else l);
          l = (if list_tail l = Some t then l\<lparr>list_tail := prev_of l t\<rparr> else l)
      in res_bind (set_prev (next_of l t) (prev_of l t) l) (\<lambda>l. set_next (prev_of l t) (next_of l t) l))"

text \<open>\<open>counter\<close> is the number of processes made so far, the next identifier.\<close>

definition add_process :: "nat \<Rightarrow> int \<times> links \<Rightarrow> (int \<times> int \<times> links) res" where
  "add_process p = (\<lambda>(counter, l).
     if list_head l = None then
       Inr (counter, counter + 1, l\<lparr>list_size := list_size l + 1, list_head := Some p, list_tail := Some p,
              next_of := (next_of l)(p := Some p), prev_of := (prev_of l)(p := Some p)\<rparr>)
     else res_bind (link_last p l) (\<lambda>l. Inr (counter, counter + 1, l)))"

definition remove_process :: "nat \<Rightarrow> links \<Rightarrow> links res" where
  "remove_process p l = res_bind (res_assert (list_size l > 0)) (\<lambda>_. unlink p l)"

definition add_thread :: "nat \<Rightarrow> links \<Rightarrow> links res" where
  "add_thread t l = res_bind (res_assert (list_size l > 0)) (\<lambda>_. link_last t l)"

text \<open>The idle threads are not in the list but may point into it.\<close>

definition redirect_idles :: "nat list \<Rightarrow> nat \<Rightarrow> links \<Rightarrow> links" where
  "redirect_idles idles t l =
     fold (\<lambda>i l. if next_of l i = Some t then l\<lparr>next_of := (next_of l)(i := next_of l t)\<rparr> else l) idles l"

definition remove_thread :: "nat list \<Rightarrow> int \<Rightarrow> nat \<Rightarrow> links \<Rightarrow> links res" where
  "remove_thread idles held t l =
     res_bind (res_assert (held = 0)) (\<lambda>_. res_bind (res_assert (list_size l > 0)) (\<lambda>_.
     res_bind (unlink t (redirect_idles idles t l)) (\<lambda>l. Inr (l\<lparr>next_of := (next_of l)(t := None)\<rparr>))))"

text \<open>The loop over a list: as many nodes as its size says, from the head on.\<close>

fun walk :: "nat \<Rightarrow> nat option \<Rightarrow> links \<Rightarrow> nat list res" where
  "walk 0 p l = Inr []"
| "walk (Suc n) None l = Inl NullDeref"
| "walk (Suc n) (Some p) l = res_bind (walk n (next_of l p) l) (\<lambda>ps. Inr (p # ps))"

definition listed :: "links \<Rightarrow> nat list res" where
  "listed l = walk (nat (list_size l)) (list_head l) l"

subsection \<open>Rings\<close>

definition linked :: "links \<Rightarrow> nat list \<Rightarrow> bool" where
  "linked l = successively (\<lambda>a b. next_of l a = Some b \<and> prev_of l b = Some a)"

definition cycle :: "links \<Rightarrow> nat list \<Rightarrow> bool" where
  "cycle l xs \<longleftrightarrow> xs \<noteq> [] \<and> distinct xs \<and> linked l (xs @ [hd xs])"

definition is_ring :: "links \<Rightarrow> nat list \<Rightarrow> bool" where
  "is_ring l xs \<longleftrightarrow> cycle l xs \<and> list_size l = int (length xs) \<and> list_head l = Some (hd xs) \<and> list_tail l = Some (last xs)"

lemma linked_append: "linked l (xs @ ys) \<longleftrightarrow> linked l xs \<and> linked l ys
    \<and> (xs = [] \<or> ys = [] \<or> next_of l (last xs) = Some (hd ys) \<and> prev_of l (hd ys) = Some (last xs))"
  by (auto simp: linked_def successively_append_iff)

lemma linked_single [simp]: "linked l [x]"
  by (simp add: linked_def)

lemma linked_Cons: "ys \<noteq> [] \<Longrightarrow> linked l (x # ys) \<longleftrightarrow> next_of l x = Some (hd ys) \<and> prev_of l (hd ys) = Some x \<and> linked l ys"
  using linked_append [of l "[x]" ys] by auto

text \<open>A list does not notice changes to the next node of its last one, to the previous node of its first, or elsewhere.\<close>

lemma linked_cong:
  assumes "linked l xs" "\<And>a. a \<in> set (butlast xs) \<Longrightarrow> next_of l' a = next_of l a" "\<And>a. a \<in> set (tl xs) \<Longrightarrow> prev_of l' a = prev_of l a"
  shows "linked l' xs"
  using assms
proof (induction xs)
  case (Cons x xs)
  show ?case
  proof (cases xs)
    case (Cons y ys)
    have "prev_of l' a = prev_of l a" if "a \<in> set (tl xs)" for a using Cons.prems(3) [of a] that by (auto dest: list.set_sel(2) [rotated] simp: Cons)
    then have "linked l' xs"
      using Cons.IH Cons.prems Cons by (auto simp: linked_Cons)
    moreover have "next_of l' x = Some (hd xs)" "prev_of l' (hd xs) = Some x"
      using Cons.prems Cons by (simp_all add: linked_Cons)
    ultimately show ?thesis using Cons by (simp add: linked_Cons)
  qed simp
qed (simp add: linked_def)

lemma cycle_rotate: "cycle l (us @ vs) \<longleftrightarrow> cycle l (vs @ us)"
proof -
  have "cycle l (us @ vs) \<Longrightarrow> cycle l (vs @ us)" for us vs
    by (cases "us = []"; cases "vs = []") (auto simp: cycle_def linked_append hd_append)
  then show ?thesis by blast
qed


lemma link_last_ring:
  assumes "is_ring l xs" "t \<notin> set xs"
  shows "\<exists>l'. link_last t l = Inr l' \<and> is_ring l' (xs @ [t]) \<and> (\<forall>a. a \<notin> insert t (set xs) \<longrightarrow> next_of l' a = next_of l a)"
proof -
  have xs: "xs \<noteq> []" "distinct xs" "linked l xs" using assms(1) by (simp_all add: is_ring_def cycle_def linked_append)
  let ?l = "l\<lparr>list_size := list_size l + 1, next_of := (next_of l)(last xs := Some t, t := Some (hd xs)),
    prev_of := (prev_of l)(t := Some (last xs), hd xs := Some t), list_tail := Some t\<rparr>"
  have "last xs \<noteq> t" "hd xs \<noteq> t" using assms(2) xs(1) by auto
  then have run: "link_last t l = Inr ?l"
    using assms(1) by (simp add: link_last_def set_next_def set_prev_def is_ring_def Let_def fun_upd_twist)
  have "linked ?l xs"
  proof (rule linked_cong [OF xs(3)])
    show "next_of ?l a = next_of l a" if "a \<in> set (butlast xs)" for a
      using that xs assms(2) by (auto dest: in_set_butlastD) (metis append_butlast_last_id distinct_append disjoint_iff list.set_intros(1))
    show "prev_of ?l a = prev_of l a" if "a \<in> set (tl xs)" for a
      using that xs assms(2) by (cases xs) auto
  qed
  then have "is_ring ?l (xs @ [t])"
    using assms xs \<open>last xs \<noteq> t\<close> \<open>hd xs \<noteq> t\<close> by (auto simp: is_ring_def cycle_def linked_append hd_append linked_Cons)
  then show ?thesis using run xs(1) by (intro exI [of _ ?l]) auto
qed

lemma cycle_remove:
  assumes "cycle l (t # ws)" "ws \<noteq> []"
    and "next_of l' = (next_of l)(last ws := Some (hd ws))" "prev_of l' = (prev_of l)(hd ws := Some (last ws))"
  shows "cycle l' ws" "next_of l t = Some (hd ws)" "prev_of l t = Some (last ws)"
proof -
  have c: "distinct ws" "linked l ws" "t \<notin> set ws" "next_of l t = Some (hd ws)" "prev_of l t = Some (last ws)"
    using assms(1,2) by (auto simp: cycle_def linked_append linked_Cons)
  have "linked l' ws"
  proof (rule linked_cong [OF c(2)])
    show "next_of l' a = next_of l a" if "a \<in> set (butlast ws)" for a
      using that c(1) assms(2,3) by auto (metis append_butlast_last_id distinct_append disjoint_iff list.set_intros(1))
    show "prev_of l' a = prev_of l a" if "a \<in> set (tl ws)" for a using that c(1) assms(4) by (cases ws) auto
  qed
  then show "cycle l' ws" using assms(2-4) c(1) by (simp add: cycle_def linked_append)
  show "next_of l t = Some (hd ws)" "prev_of l t = Some (last ws)" by (fact c)+
qed

lemma unlink_ring:
  assumes "is_ring l (us @ t # vs)" "us @ vs \<noteq> []"
  shows "\<exists>l'. unlink t l = Inr l' \<and> is_ring l' (us @ vs) \<and> (\<forall>a. a \<notin> set (us @ vs) \<longrightarrow> next_of l' a = next_of l a)"
proof -
  let ?ws = "vs @ us"
  have c: "cycle l (t # ?ws)" and d: "distinct (us @ t # vs)" using assms(1) cycle_rotate [of l us "t # vs"] by (simp_all add: is_ring_def cycle_def)
  define l1 where "l1 = l\<lparr>list_size := list_size l - 1, list_head := Some (hd (us @ vs)), list_tail := Some (last (us @ vs)),
    prev_of := (prev_of l)(hd ?ws := Some (last ?ws)), next_of := (next_of l)(last ?ws := Some (hd ?ws))\<rparr>"
  have ne: "?ws \<noteq> []" using assms(2) by auto
  have n: "cycle l1 ?ws" "next_of l t = Some (hd ?ws)" "prev_of l t = Some (last ?ws)"
    by (rule cycle_remove [OF c ne, of l1]; simp add: l1_def)+
  have t: "t \<notin> set ?ws" using d by auto
  then have "last ?ws \<noteq> t" "hd ?ws \<noteq> t" using ne by (metis last_in_set hd_in_set)+
  then have run: "unlink t l = Inr l1"
    using assms d n(2,3) unfolding unlink_def l1_def
    by (cases us; cases vs rule: rev_cases) (auto simp: is_ring_def set_next_def set_prev_def Let_def hd_append)
  have "is_ring l1 (us @ vs)" using n(1) cycle_rotate [of l1 vs us] assms(1) by (simp add: is_ring_def l1_def)
  moreover have "next_of l1 a = next_of l a" if "a \<notin> set (us @ vs)" for a
    using that ne last_in_set [OF ne] by (auto simp: l1_def)
  ultimately show ?thesis using run by blast
qed


subsection \<open>Lists of processes and threads\<close>

lemma walk_ring:
  assumes "linked l (ys @ [z])" "n = length ys"
  shows "walk n (Some (hd (ys @ [z]))) l = Inr ys"
  using assms
proof (induction ys arbitrary: n)
  case (Cons y ys)
  then have "linked l (ys @ [z])" "next_of l y = Some (hd (ys @ [z]))" by (simp_all add: linked_Cons)
  then show ?case using Cons.IH [of "length ys"] Cons.prems(2) by simp
qed simp

lemma listed_ring: "is_ring l xs \<Longrightarrow> listed l = Inr xs"
  using walk_ring [of l xs "hd xs" "length xs"] by (auto simp: is_ring_def cycle_def listed_def hd_append)

lemma redirect_idles_ring:
  assumes "is_ring l xs" "set idles \<inter> set xs = {}" "t \<in> set xs"
  shows "is_ring (redirect_idles idles t l) xs"
    "next_of (redirect_idles idles t l) a = (if a \<in> set idles \<and> next_of l a = Some t then next_of l t else next_of l a)"
    "prev_of (redirect_idles idles t l) = prev_of l"
proof -
  have "next_of (redirect_idles idles t l) a = (if a \<in> set idles \<and> next_of l a = Some t then next_of l t else next_of l a)
      \<and> prev_of (redirect_idles idles t l) = prev_of l \<and> list_size (redirect_idles idles t l) = list_size l
      \<and> list_head (redirect_idles idles t l) = list_head l \<and> list_tail (redirect_idles idles t l) = list_tail l" if "t \<notin> set idles" for a
    using that unfolding redirect_idles_def
  proof (induction idles arbitrary: l)
    case (Cons i idles)
    then show ?case using Cons.IH by (auto split: if_splits)
  qed simp
  then have r: "next_of (redirect_idles idles t l) a = (if a \<in> set idles \<and> next_of l a = Some t then next_of l t else next_of l a)"
    "prev_of (redirect_idles idles t l) = prev_of l" "list_size (redirect_idles idles t l) = list_size l"
    "list_head (redirect_idles idles t l) = list_head l" "list_tail (redirect_idles idles t l) = list_tail l" for a
    using assms(2,3) by blast+
  show "next_of (redirect_idles idles t l) a = (if a \<in> set idles \<and> next_of l a = Some t then next_of l t else next_of l a)"
    "prev_of (redirect_idles idles t l) = prev_of l" by (fact r)+
  have "linked (redirect_idles idles t l) (xs @ [hd xs])"
    by (rule linked_cong [of l]) (use assms r in \<open>auto simp: is_ring_def cycle_def\<close>)
  then show "is_ring (redirect_idles idles t l) xs" using assms(1) r by (simp add: is_ring_def cycle_def)
qed

lemma ring_other_next:
  assumes "is_ring l xs" "t \<notin> set xs"
  shows "is_ring (l\<lparr>next_of := (next_of l)(t := v)\<rparr>) xs"
proof -
  have "linked (l\<lparr>next_of := (next_of l)(t := v)\<rparr>) (xs @ [hd xs])"
    by (rule linked_cong [of l]) (use assms in \<open>auto simp: is_ring_def cycle_def\<close>)
  then show ?thesis using assms(1) by (simp add: is_ring_def cycle_def)
qed

lemma add_thread_ring:
  "is_ring l xs \<Longrightarrow> t \<notin> set xs \<Longrightarrow> \<exists>l'. add_thread t l = Inr l' \<and> is_ring l' (xs @ [t])
    \<and> (\<forall>a. a \<notin> insert t (set xs) \<longrightarrow> next_of l' a = next_of l a)"
  using link_last_ring [of l xs t] by (auto simp: add_thread_def is_ring_def cycle_def)

lemma add_process_ring:
  assumes "is_ring l xs \<and> t \<notin> set xs \<or> list_head l = None \<and> list_size l = 0 \<and> xs = []"
  shows "\<exists>l'. add_process t (c, l) = Inr (c, c + 1, l') \<and> is_ring l' (xs @ [t])"
  using assms
proof
  assume "is_ring l xs \<and> t \<notin> set xs"
  then show ?thesis using link_last_ring [of l xs t] by (auto simp: add_process_def is_ring_def)
next
  assume "list_head l = None \<and> list_size l = 0 \<and> xs = []"
  then show ?thesis by (simp add: add_process_def is_ring_def cycle_def linked_Cons)
qed

lemma remove_thread_ring:
  assumes "is_ring l xs" "t \<in> set xs" "xs \<noteq> [t]" "set idles \<inter> set xs = {}"
  shows "\<exists>l'. remove_thread idles 0 t l = Inr l' \<and> is_ring l' (remove1 t xs) \<and> next_of l' t = None
    \<and> (\<forall>a. a \<in> set idles \<longrightarrow> next_of l' a = (if next_of l a = Some t then next_of l t else next_of l a))"
proof -
  obtain us vs where xs: "xs = us @ t # vs" "t \<notin> set us" using split_list_first [OF assms(2)] by blast
  have ne: "us @ vs \<noteq> []" using xs assms(3) by auto
  have r1: "remove1 t xs = us @ vs" using xs by (simp add: remove1_append)
  let ?l = "redirect_idles idles t l"
  note red = redirect_idles_ring [OF assms(1,4,2)]
  obtain l1 where l1: "unlink t ?l = Inr l1" "is_ring l1 (us @ vs)" "\<And>a. a \<notin> set (us @ vs) \<Longrightarrow> next_of l1 a = next_of ?l a"
    using unlink_ring [OF red(1) [unfolded xs(1)] ne] by blast
  have d: "t \<notin> set (us @ vs)" using assms(1) xs by (auto simp: is_ring_def cycle_def)
  let ?l1 = "l1\<lparr>next_of := (next_of l1)(t := None)\<rparr>"
  have "is_ring ?l1 (us @ vs)" by (rule ring_other_next [OF l1(2) d])
  moreover have "remove_thread idles 0 t l = Inr ?l1"
    using l1(1) assms(1) red(1) by (simp add: remove_thread_def is_ring_def cycle_def)
  moreover have "next_of ?l1 a = (if next_of l a = Some t then next_of l t else next_of l a)" if "a \<in> set idles" for a
  proof -
    have "a \<notin> set (us @ vs)" "a \<noteq> t" using that assms(2,4) xs(1) by auto
    then show ?thesis using l1(3) [of a] red(2) [of a] that by simp
  qed
  ultimately show ?thesis unfolding r1 by auto
qed

lemma ring_next_other:
  assumes "is_ring l xs" "t \<in> set xs" "xs \<noteq> [t]"
  shows "\<exists>n \<in> set (remove1 t xs). next_of l t = Some n"
proof -
  obtain us vs where xs: "xs = us @ t # vs" "t \<notin> set us" using split_list_first [OF assms(2)] by blast
  have ne: "vs @ us \<noteq> []" using xs assms(3) by auto
  have "cycle l (t # vs @ us)" using assms(1) cycle_rotate [of l us "t # vs"] xs(1) by (simp add: is_ring_def)
  then have "next_of l t = Some (hd (vs @ us))" using ne by (auto simp: cycle_def linked_Cons hd_append)
  moreover have "hd (vs @ us) \<in> set (remove1 t xs)" using hd_in_set [OF ne] xs by (auto simp: remove1_append)
  ultimately show ?thesis by blast
qed


subsection \<open>Sequences of operations\<close>

text \<open>What the operations on the list of threads do to the pointers, and to the list of the nodes.\<close>

datatype list_op = Add nat | Remove nat

fun link_op :: "nat list \<Rightarrow> list_op \<Rightarrow> links \<Rightarrow> links res" where
  "link_op idles (Add t) l = add_thread t l"
| "link_op idles (Remove t) l = remove_thread idles 0 t l"

fun link_ops :: "nat list \<Rightarrow> list_op list \<Rightarrow> links \<Rightarrow> links res" where
  "link_ops idles [] l = Inr l"
| "link_ops idles (c # cs) l = res_bind (link_op idles c l) (link_ops idles cs)"

fun spec_op :: "list_op \<Rightarrow> nat list \<Rightarrow> nat list" where
  "spec_op (Add t) xs = xs @ [t]"
| "spec_op (Remove t) xs = remove1 t xs"

fun allowed :: "nat list \<Rightarrow> list_op \<Rightarrow> nat list \<Rightarrow> bool" where
  "allowed idles (Add t) xs \<longleftrightarrow> t \<notin> set xs \<and> t \<notin> set idles"
| "allowed idles (Remove t) xs \<longleftrightarrow> t \<in> set xs \<and> xs \<noteq> [t]"

fun allowed_all :: "nat list \<Rightarrow> list_op list \<Rightarrow> nat list \<Rightarrow> bool" where
  "allowed_all idles [] xs \<longleftrightarrow> True"
| "allowed_all idles (c # cs) xs \<longleftrightarrow> allowed idles c xs \<and> allowed_all idles cs (spec_op c xs)"

definition list_inv :: "nat list \<Rightarrow> links \<Rightarrow> nat list \<Rightarrow> bool" where
  "list_inv idles l xs \<longleftrightarrow> is_ring l xs \<and> set idles \<inter> set xs = {} \<and>
     (\<forall>i \<in> set idles. case next_of l i of None \<Rightarrow> True | Some n \<Rightarrow> n \<in> set xs)"

lemma link_op_inv:
  assumes "list_inv idles l xs" "allowed idles c xs"
  shows "\<exists>l'. link_op idles c l = Inr l' \<and> list_inv idles l' (spec_op c xs)"
proof (cases c)
  case (Add t)
  then obtain l' where "add_thread t l = Inr l'" "is_ring l' (xs @ [t])" "\<forall>a. a \<notin> insert t (set xs) \<longrightarrow> next_of l' a = next_of l a"
    using add_thread_ring [of l xs t] assms by (auto simp: list_inv_def)
  moreover from this have "next_of l' i = next_of l i" if "i \<in> set idles" for i
    using that assms Add by (auto simp: list_inv_def)
  ultimately show ?thesis using assms Add by (fastforce simp: list_inv_def split: option.splits)
next
  case (Remove t)
  then obtain l' where l': "remove_thread idles 0 t l = Inr l'" "is_ring l' (remove1 t xs)"
      "\<And>a. a \<in> set idles \<Longrightarrow> next_of l' a = (if next_of l a = Some t then next_of l t else next_of l a)"
    using remove_thread_ring [of l xs t idles] assms by (auto simp: list_inv_def)
  obtain n where n: "n \<in> set (remove1 t xs)" "next_of l t = Some n"
    using ring_next_other [of l xs t] assms Remove by (auto simp: list_inv_def)
  have "distinct xs" using assms(1) by (simp add: list_inv_def is_ring_def cycle_def)
  then have "case next_of l' i of None \<Rightarrow> True | Some n \<Rightarrow> n \<in> set (remove1 t xs)" if "i \<in> set idles" for i
    using l'(3) [OF that] n that assms(1) by (auto simp: list_inv_def split: option.splits)
  moreover have "set idles \<inter> set (remove1 t xs) = {}" using assms(1) notin_set_remove1 by (fastforce simp: list_inv_def)
  ultimately show ?thesis using l'(1,2) Remove by (simp add: list_inv_def)
qed

text \<open>
  C25. The list of threads refines a list of nodes. From a ring that holds \<open>xs\<close> and into which the idle threads point, every sequence of
  adding new threads and removing threads but the last runs without a null pointer and without a failed assertion, and the pointers
  it leaves are a ring again: linked both ways, with the right head, tail and size; the loop over the list visits exactly the threads of
  the abstract list in its order, and no idle thread points at a thread that was removed.
\<close>

theorem thread_list_refines:
  assumes "list_inv idles l xs" "allowed_all idles cs xs"
  shows "\<exists>l'. link_ops idles cs l = Inr l' \<and> list_inv idles l' (fold spec_op cs xs) \<and> listed l' = Inr (fold spec_op cs xs)"
  using assms
proof (induction cs arbitrary: l xs)
  case Nil
  then show ?case by (simp add: list_inv_def listed_ring)
next
  case (Cons c cs)
  obtain l1 where l1: "link_op idles c l = Inr l1" "list_inv idles l1 (spec_op c xs)"
    using link_op_inv [of idles l xs c] Cons.prems by auto
  then show ?case using Cons.IH [OF l1(2)] Cons.prems(2) by simp
qed

text \<open>Witness of C25: two threads are started beside the first, and the first ends; the idle thread 9 is redirected.\<close>

theorem thread_list_refines_witness:
  defines "l \<equiv> \<lparr>next_of = [0 \<mapsto> 0, 9 \<mapsto> 0], prev_of = [0 \<mapsto> 0], list_size = 1, list_head = Some 0, list_tail = Some 0\<rparr>"
  shows "list_inv [9] l [0] \<and> allowed_all [9] [Add 1, Add 2, Remove 0] [0]
    \<and> (\<exists>l'. link_ops [9] [Add 1, Add 2, Remove 0] l = Inr l' \<and> list_inv [9] l' [1, 2] \<and> listed l' = Inr [1, 2])"
proof -
  have "list_inv [9] l [0]" "allowed_all [9] [Add 1, Add 2, Remove 0] [0]"
    by (simp_all add: l_def list_inv_def is_ring_def cycle_def linked_Cons)
  then show ?thesis using thread_list_refines [of "[9]" l "[0]" "[Add 1, Add 2, Remove 0]"] by simp
qed

end
