(* ===== verification/ThreadState.thy ===== *)
theory ThreadState
  imports Locks ProcLists LazyVector
begin

text \<open>
  The state of a thread (\<open>include/aex/proc/thread.hpp\<close>, \<open>include/aex/ipc/signal.hpp\<close>, \<open>include/aex/arch/proc/context.hpp\<close>), shared by the
  scheduler, the life cycle of threads and the delivery of signals. It extends the fields the events and locks use. Of
  a context the registers that the kernel sets by name are fields, all others are one list.
\<close>

record siginfo =
  si_signo :: int
  si_code :: int
  si_errno :: int
  si_pid :: int
  si_uid :: int
  si_addr :: u64
  si_status :: int
  si_band :: int
  si_value :: u64

record ctx =
  rip :: u64
  rdi :: u64
  rsi :: u64
  rsp :: u64
  reg_cs :: u64
  reg_ss :: u64
  other_regs :: "u64 list"

record kthread = thread +
  t_parent :: nat
  t_locked :: bool
  held_mutexes :: int
  sched_counter :: int
  m_detached :: bool
  m_aborting :: bool
  m_joiner :: "tid option"
  in_signal :: bool
  m_pending_signals :: "siginfo list"
  context_main :: ctx
  context_aux :: ctx
  saved_stack :: u64
  kernel_stack :: u64
  aux_stack :: u64
  kernel_stack_size :: int
  aux_stack_size :: int

text \<open>\<open>Thread::Thread\<close>: memory of the heap is zeroed.\<close>

definition zero_ctx :: ctx where
  "zero_ctx = \<lparr>rip = 0, rdi = 0, rsi = 0, rsp = 0, reg_cs = 0, reg_ss = 0, other_regs = []\<rparr>"

definition new_thread :: "nat \<Rightarrow> kthread" where
  "new_thread process = \<lparr>status = TS_FRESH, wakeup_at = 0, m_busy = 0, m_critical = 0, t_parent = process, t_locked = False,
     held_mutexes = 0, sched_counter = 0, m_detached = False, m_aborting = False, m_joiner = None, in_signal = False,
     m_pending_signals = [], context_main = zero_ctx, context_aux = zero_ctx, saved_stack = 0, kernel_stack = 0, aux_stack = 0,
     kernel_stack_size = 0, aux_stack_size = 0\<rparr>"

definition interrupted :: "kthread \<Rightarrow> bool" where
  "interrupted th \<longleftrightarrow> m_aborting th \<or> (int (length (m_pending_signals th)) > 0 \<and> \<not> in_signal th)"

definition thread_start :: "kthread \<Rightarrow> kthread" where
  "thread_start th = (if status th = TS_FRESH then th\<lparr>status := TS_RUNNABLE\<rparr> else th)"

record thread_state =
  s_busy :: u16
  s_critical :: u16
  s_status :: status_t

definition saveState :: "kthread \<Rightarrow> thread_state" where
  "saveState th = \<lparr>s_busy = m_busy th, s_critical = m_critical th, s_status = status th\<rparr>"

definition loadState :: "thread_state \<Rightarrow> kthread \<Rightarrow> kthread" where
  "loadState s th = th\<lparr>m_busy := s_busy s, m_critical := s_critical s, status := s_status s\<rparr>"

lemma new_thread_simps [simp]:
  "status (new_thread p) = TS_FRESH" "m_busy (new_thread p) = 0" "m_critical (new_thread p) = 0" "t_parent (new_thread p) = p"
  "\<not> t_locked (new_thread p)" "held_mutexes (new_thread p) = 0" "sched_counter (new_thread p) = 0" "\<not> m_detached (new_thread p)"
  "\<not> m_aborting (new_thread p)" "m_joiner (new_thread p) = None" "\<not> in_signal (new_thread p)" "m_pending_signals (new_thread p) = []"
  "wakeup_at (new_thread p) = 0"
  by (simp_all add: new_thread_def)


subsection \<open>Processes and the kernel\<close>

text \<open>
  The state the life cycle of threads and processes works on: threads and processes by their addresses, the rings they are linked
  in, and the calls the broker thread has yet to make. A spinlock is whether it is held; it is not reentrant, and a thread
  that acquires one it holds itself spins until the kernel gives up.
\<close>

record sigaction =
  action :: u8
  handler :: u64
  restorer :: u64
  sig_mask :: u32
  flags :: u32

record kproc =
  p_pid :: int
  p_parent_pid :: int
  p_status :: status_t
  p_ret_code :: int
  m_exiting :: bool
  p_locked :: bool
  threads_locked :: bool
  thread_counter :: int
  p_threads :: "tid lazyvector"
  child_event :: event
  m_signals :: "sigaction list"

datatype broker_call = Cleanup tid | ExitThreaded nat | SignalEnter tid siginfo | SignalExit tid

record kern =
  kthreads :: "tid \<Rightarrow> kthread"
  kprocs :: "nat \<Rightarrow> kproc"
  thread_ring :: links
  process_ring :: links
  idle_threads :: "tid list"
  broker_queue :: "broker_call list"
  current :: tid
  pid_counter :: int

definition upd_thread :: "tid \<Rightarrow> (kthread \<Rightarrow> kthread) \<Rightarrow> kern \<Rightarrow> kern" where
  "upd_thread t f st = st\<lparr>kthreads := (kthreads st)(t := f (kthreads st t))\<rparr>"

definition upd_proc :: "nat \<Rightarrow> (kproc \<Rightarrow> kproc) \<Rightarrow> kern \<Rightarrow> kern" where
  "upd_proc p f st = st\<lparr>kprocs := (kprocs st)(p := f (kprocs st p))\<rparr>"

definition lock_thread :: "tid \<Rightarrow> kern \<Rightarrow> kern res" where
  "lock_thread t st =
     (if t_locked (kthreads st t) then Inl KPanic
      else Inr (upd_thread (current st) addCritical (upd_thread t (\<lambda>th. th\<lparr>t_locked := True\<rparr>) st)))"

definition unlock_thread :: "tid \<Rightarrow> kern \<Rightarrow> kern res" where
  "unlock_thread t st =
     (if \<not> t_locked (kthreads st t) then Inl KPanic
      else Inr (upd_thread (current st) subCritical (upd_thread t (\<lambda>th. th\<lparr>t_locked := False\<rparr>) st)))"

definition lock_threads :: "nat \<Rightarrow> kern \<Rightarrow> kern res" where
  "lock_threads p st =
     (if threads_locked (kprocs st p) then Inl KPanic
      else Inr (upd_thread (current st) addCritical (upd_proc p (\<lambda>pr. pr\<lparr>threads_locked := True\<rparr>) st)))"

definition unlock_threads :: "nat \<Rightarrow> kern \<Rightarrow> kern res" where
  "unlock_threads p st =
     (if \<not> threads_locked (kprocs st p) then Inl KPanic
      else Inr (upd_thread (current st) subCritical (upd_proc p (\<lambda>pr. pr\<lparr>threads_locked := False\<rparr>) st)))"

definition lock_proc :: "nat \<Rightarrow> kern \<Rightarrow> kern res" where
  "lock_proc p st =
     (if p_locked (kprocs st p) then Inl KPanic
      else Inr (upd_thread (current st) addCritical (upd_proc p (\<lambda>pr. pr\<lparr>p_locked := True\<rparr>) st)))"

definition unlock_proc :: "nat \<Rightarrow> kern \<Rightarrow> kern res" where
  "unlock_proc p st =
     (if \<not> p_locked (kprocs st p) then Inl KPanic
      else Inr (upd_thread (current st) subCritical (upd_proc p (\<lambda>pr. pr\<lparr>p_locked := False\<rparr>) st)))"

definition broker :: "broker_call \<Rightarrow> kern \<Rightarrow> kern" where
  "broker c st = st\<lparr>broker_queue := broker_queue st @ [c]\<rparr>"

lemma critical_balance [simp]: "subCritical (addCritical th) = th" "subBusy (addBusy th) = th"
  by (simp_all add: subCritical_def addCritical_def subBusy_def addBusy_def)

lemma unlocked_same [simp]:
  "\<not> t_locked th \<Longrightarrow> th\<lparr>t_locked := False\<rparr> = th" "\<not> threads_locked pr \<Longrightarrow> pr\<lparr>threads_locked := False\<rparr> = pr"
  "\<not> p_locked pr \<Longrightarrow> pr\<lparr>p_locked := False\<rparr> = pr"
  by (cases th; simp) (cases pr; simp)+

end
