(* ===== verification/Scheduler.thy ===== *)
theory Scheduler
  imports ProcLists ThreadState
begin

unbundle bit_operations_syntax

text \<open>
  The scheduler (\<open>proc/scheduler.cpp\<close>): on one processor, it walks the ring of threads from the current one on and takes the
  first that may run, or the idle thread of the processor. What it reads of a thread and of its process, and the
  fields of the processor it sets, are the state; loading the context and the stack of the thread is left out.
\<close>

record sched =
  ring :: links
  threads :: "nat \<Rightarrow> kthread"
  nice :: "nat \<Rightarrow> int"
  cpu_affinity :: "nat \<Rightarrow> u32"
  cpu_time_ns :: "nat \<Rightarrow> u64"
  idle_thread :: nat
  current_thread :: nat
  should_yield :: bool
  measurement_start_ns :: u64

definition masked :: "u32 \<Rightarrow> nat \<Rightarrow> bool" where
  "masked m_mask cpuid \<longleftrightarrow> m_mask AND push_bit cpuid 1 \<noteq> 0"

definition set_mask :: "nat \<Rightarrow> bool \<Rightarrow> u32 \<Rightarrow> u32" where
  "set_mask cpuid b m_mask = (if b then m_mask OR push_bit cpuid 1 else m_mask AND NOT (push_bit cpuid 1))"

definition set_thread :: "nat \<Rightarrow> kthread \<Rightarrow> sched \<Rightarrow> sched" where
  "set_thread t th st = st\<lparr>threads := (threads st)(t := th)\<rparr>"

text \<open>The \<open>switch\<close> over the status of a thread, and its new counter.\<close>

definition may_run :: "u64 \<Rightarrow> kthread \<Rightarrow> bool" where
  "may_run uptime th = (case status th of
     TS_RUNNABLE \<Rightarrow> True
   | TS_BLOCKED \<Rightarrow> interrupted th
   | TS_SLEEPING \<Rightarrow> \<not> (sint uptime < sint (wakeup_at th) \<and> \<not> interrupted th)
   | _ \<Rightarrow> False)"

definition credit :: "int \<Rightarrow> int \<Rightarrow> int" where
  "credit n counter = (if n < 0 then counter + (1000000 + 50000 * - n) else counter + (1000000 - 25000 * n))"

definition wake :: "nat \<Rightarrow> sched \<Rightarrow> sched" where
  "wake t st = (if status (threads st t) = TS_SLEEPING then set_thread t ((threads st t)\<lparr>status := TS_RUNNABLE\<rparr>) st else st)"

definition take_thread :: "nat \<Rightarrow> sched \<Rightarrow> sched" where
  "take_thread t st = (let th = threads st t in
     set_thread t (th\<lparr>sched_counter := credit (nice st (t_parent th)) (sched_counter th) - 1000000, t_locked := True\<rparr>) st)"

fun pick :: "nat \<Rightarrow> nat \<Rightarrow> u64 \<Rightarrow> nat \<Rightarrow> sched \<Rightarrow> (nat option \<times> nat \<times> sched) res" where
  "pick 0 cpu uptime t st = Inr (None, t, st)"
| "pick (Suc n) cpu uptime t st = (case next_of (ring st) t of None \<Rightarrow> Inl NullDeref
     | Some t \<Rightarrow>
         if \<not> may_run uptime (threads st t) then pick n cpu uptime t st
         else let st = wake t st; th = threads st t in
           if masked (cpu_affinity st (t_parent th)) cpu then pick n cpu uptime t st
           else if credit (nice st (t_parent th)) (sched_counter th) < 1000000 then pick n cpu uptime t st
           else if t_locked th then pick n cpu uptime t st
           else res_bind (res_assert (sched_counter (threads (take_thread t st) t) < 25000000)) (\<lambda>_.
             Inr (Some t, t, take_thread t st)))"

definition run_idle :: "nat \<Rightarrow> sched \<Rightarrow> sched" where
  "run_idle t st = (let idle = idle_thread st in
     (set_thread idle ((threads st idle)\<lparr>t_locked := True\<rparr>) st)\<lparr>current_thread := idle,
        ring := (ring st)\<lparr>next_of := (next_of (ring st))(idle := if t = idle then list_head (ring st) else Some t)\<rparr>\<rparr>)"

text \<open>The time since the last switch is charged and the thread is let go.\<close>

definition switch_from :: "u64 \<Rightarrow> nat \<Rightarrow> sched \<Rightarrow> sched res" where
  "switch_from uptime t st =
     (let th = threads st t; delta = uptime - measurement_start_ns st in
      if \<not> t_locked th then Inl KPanic
      else Inr ((set_thread t (th\<lparr>t_locked := False\<rparr>) st)\<lparr>measurement_start_ns := uptime,
             cpu_time_ns := (cpu_time_ns st)(t_parent th := cpu_time_ns st (t_parent th) + delta)\<rparr>))"

text \<open>\<open>got\<close> is whether the lock of the scheduler was free; a thread that cannot go on waits for it.\<close>

definition schedule :: "nat \<Rightarrow> u64 \<Rightarrow> bool \<Rightarrow> sched \<Rightarrow> sched res" where
  "schedule cpu uptime got st =
     (let t = current_thread st in
      if m_critical (threads st t) > 0 then Inr (st\<lparr>should_yield := True\<rparr>)
      else
        let full = (sched_counter (threads st t) \<ge> 1000000);
            st = (if full then set_thread t ((threads st t)\<lparr>sched_counter := sched_counter (threads st t) - 1000000\<rparr>) st else st)
        in
        if status (threads st t) = TS_RUNNABLE \<and> (full \<or> \<not> got) then Inr st
        else res_bind (switch_from uptime t st) (\<lambda>st.
          case (if next_of (ring st) t = None then list_head (ring st) else Some t) of None \<Rightarrow> Inl NullDeref
          | Some start \<Rightarrow> res_bind (pick (nat (list_size (ring st) + 1)) cpu uptime start st) (\<lambda>(r, t, st).
              case r of Some t \<Rightarrow> Inr (st\<lparr>current_thread := t\<rparr>) | None \<Rightarrow> Inr (run_idle t st))))"


subsection \<open>What the walk finds\<close>

definition eligible :: "nat \<Rightarrow> u64 \<Rightarrow> sched \<Rightarrow> nat \<Rightarrow> bool" where
  "eligible cpu uptime st t \<longleftrightarrow> (let th = threads st t in may_run uptime th \<and> \<not> masked (cpu_affinity st (t_parent th)) cpu
     \<and> credit (nice st (t_parent th)) (sched_counter th) \<ge> 1000000 \<and> \<not> t_locked th)"

text \<open>On its way the walk makes threads runnable whose time has come, and nothing else.\<close>

definition woken :: "u64 \<Rightarrow> sched \<Rightarrow> sched \<Rightarrow> bool" where
  "woken uptime st st' \<longleftrightarrow> (\<exists>f. st' = st\<lparr>threads := f\<rparr> \<and>
     (\<forall>t. f t = threads st t \<or> status (threads st t) = TS_SLEEPING \<and> may_run uptime (threads st t) \<and> f t = (threads st t)\<lparr>status := TS_RUNNABLE\<rparr>))"

lemma woken_refl [simp]: "woken uptime st st"
  by (auto simp: woken_def intro!: exI [of _ "threads st"])

lemma may_run_runnable [simp]: "may_run uptime (th\<lparr>status := TS_RUNNABLE\<rparr>)"
  by (simp add: may_run_def)

lemma woken_fields:
  assumes "woken uptime st st'"
  shows "ring st' = ring st" "nice st' = nice st" "cpu_affinity st' = cpu_affinity st" "idle_thread st' = idle_thread st"
    "sched_counter (threads st' t) = sched_counter (threads st t)" "t_parent (threads st' t) = t_parent (threads st t)"
    "t_locked (threads st' t) = t_locked (threads st t)" "may_run uptime (threads st' t) = may_run uptime (threads st t)"
proof -
  obtain f where f: "st' = st\<lparr>threads := f\<rparr>" "f t = threads st t \<or> status (threads st t) = TS_SLEEPING
      \<and> may_run uptime (threads st t) \<and> f t = (threads st t)\<lparr>status := TS_RUNNABLE\<rparr>"
    using assms unfolding woken_def by blast
  then show "ring st' = ring st" "nice st' = nice st" "cpu_affinity st' = cpu_affinity st" "idle_thread st' = idle_thread st"
    "sched_counter (threads st' t) = sched_counter (threads st t)" "t_parent (threads st' t) = t_parent (threads st t)"
    "t_locked (threads st' t) = t_locked (threads st t)" "may_run uptime (threads st' t) = may_run uptime (threads st t)"
    by auto
qed

lemma woken_eligible: "woken uptime st st' \<Longrightarrow> eligible cpu uptime st' t = eligible cpu uptime st t"
  by (simp add: eligible_def Let_def woken_fields)

lemma woken_wake:
  assumes "woken uptime st st'" "may_run uptime (threads st' t)"
  shows "woken uptime st (wake t st')"
proof -
  obtain f where f: "st' = st\<lparr>threads := f\<rparr>" "\<And>t. f t = threads st t \<or> status (threads st t) = TS_SLEEPING
      \<and> may_run uptime (threads st t) \<and> f t = (threads st t)\<lparr>status := TS_RUNNABLE\<rparr>"
    using assms(1) unfolding woken_def by blast
  show ?thesis
  proof (cases "status (f t) = TS_SLEEPING")
    case True
    then have "f t = threads st t" using f(2) [of t] by auto
    then have "wake t st' = st\<lparr>threads := f(t := (threads st t)\<lparr>status := TS_RUNNABLE\<rparr>)\<rparr>"
      using True f(1) by (simp add: wake_def set_thread_def)
    then show ?thesis unfolding woken_def using f(2) True \<open>f t = threads st t\<close> assms(2) f(1)
      by (intro exI [of _ "f(t := (threads st t)\<lparr>status := TS_RUNNABLE\<rparr>)"]) auto
  next
    case False
    then show ?thesis using assms(1) f(1) by (simp add: wake_def)
  qed
qed

definition counters_small :: "sched \<Rightarrow> bool" where
  "counters_small st \<longleftrightarrow> (\<forall>t. credit (nice st (t_parent (threads st t))) (sched_counter (threads st t)) < 26000000)"

lemma pick_first:
  assumes "woken uptime st0 st" "linked (ring st0) (a # ys)" "counters_small st0"
  shows "\<exists>st'. woken uptime st0 st' \<and> pick (length ys) cpu uptime a st = Inr (case find (eligible cpu uptime st0) ys of
      Some t \<Rightarrow> (Some t, t, take_thread t st') | None \<Rightarrow> (None, last (a # ys), st'))"
  using assms(1,2)
proof (induction ys arbitrary: a st)
  case Nil
  then show ?case by auto
next
  case (Cons y ys)
  have nx: "next_of (ring st) a = Some y" and lk: "linked (ring st0) (y # ys)"
    using Cons.prems by (simp_all add: linked_Cons woken_fields)
  have end_same: "last (a # y # ys) = last (y # ys)" by simp
  let ?w = "wake y st"
  note same = woken_fields [OF Cons.prems(1)]
  show ?case
  proof (cases "may_run uptime (threads st y)")
    case False
    then have "\<not> eligible cpu uptime st0 y" using same(8) by (simp add: eligible_def)
    moreover have "pick (length (y # ys)) cpu uptime a st = pick (length ys) cpu uptime y st" using nx False by simp
    ultimately show ?thesis using Cons.IH [OF Cons.prems(1) lk] unfolding end_same by (simp del: pick.simps last.simps)
  next
    case True
    have w: "woken uptime st0 ?w" by (rule woken_wake [OF Cons.prems(1) True])
    note ws = woken_fields [OF w]
    have step: "pick (length (y # ys)) cpu uptime a st = (if eligible cpu uptime st0 y then Inr (Some y, y, take_thread y ?w)
        else pick (length ys) cpu uptime y ?w)"
      using nx True same(8) assms(3) by (simp add: Let_def eligible_def ws counters_small_def take_thread_def set_thread_def)
    show ?thesis
    proof (cases "eligible cpu uptime st0 y")
      case True
      then show ?thesis using w unfolding step by auto
    next
      case False
      then show ?thesis using Cons.IH [OF w lk] unfolding step end_same by (simp del: last.simps)
    qed
  qed
qed


subsection \<open>Round robin\<close>

lemma find_again: "zs \<noteq> [] \<Longrightarrow> find P (zs @ [hd zs]) = find P zs"
proof -
  have app: "find P (ys @ [z]) = (case find P ys of None \<Rightarrow> if P z then Some z else None | Some y \<Rightarrow> Some y)" for ys z by (induction ys) auto
  have "find P (ys @ [z]) = find P ys" if "z \<in> set ys" for ys z
  proof (cases "find P ys")
    case None
    then have "\<not> P z" using that by (auto simp: find_None_iff)
    then show ?thesis using None by (simp add: app)
  qed (simp add: app)
  then show "zs \<noteq> [] \<Longrightarrow> find P (zs @ [hd zs]) = find P zs" by simp
qed

lemma ring_from:
  assumes "is_ring l xs" "i < length xs"
  shows "linked l (xs ! i # rotate (Suc i) xs @ [hd (rotate (Suc i) xs)])"
proof -
  have r: "rotate (Suc i) xs = drop (Suc i) xs @ take (Suc i) xs"
    using assms(2) by (cases "Suc i = length xs") (simp_all add: rotate_drop_take)
  moreover have "cycle l (take (Suc i) xs @ drop (Suc i) xs)" using assms(1) by (simp add: is_ring_def)
  ultimately have c: "cycle l (rotate (Suc i) xs)" using cycle_rotate by metis
  have "last (rotate (Suc i) xs) = xs ! i" unfolding r using assms(2) by (simp add: take_Suc_conv_app_nth)
  then show ?thesis using c by (auto simp: cycle_def linked_append linked_Cons hd_append)
qed


text \<open>A thread whose process is nice has too little credit, and none is saved up for it.\<close>

definition starved :: "sched \<Rightarrow> nat \<Rightarrow> bool" where
  "starved st t \<longleftrightarrow> nice st (t_parent (threads st t)) > 0 \<and> sched_counter (threads st t) < 25000 * nice st (t_parent (threads st t))"

lemma schedule_switches:
  assumes "is_ring (ring st) xs" "current_thread st = xs ! i" "i < length xs" "counters_small st"
    and "m_critical (threads st (xs ! i)) = 0" "sched_counter (threads st (xs ! i)) < 1000000" "t_locked (threads st (xs ! i))"
    and "got \<or> status (threads st (xs ! i)) \<noteq> TS_RUNNABLE"
  defines "u \<equiv> set_thread (xs ! i) ((threads st (xs ! i))\<lparr>t_locked := False\<rparr>) st"
  shows "\<exists>st1 st2. threads st1 = threads u \<and> ring st1 = ring st \<and> nice st1 = nice st \<and> idle_thread st1 = idle_thread st \<and> woken uptime st1 st2
    \<and> schedule cpu uptime got st = Inr (case find (eligible cpu uptime u) (rotate (Suc i) xs) of
        Some t \<Rightarrow> (take_thread t st2)\<lparr>current_thread := t\<rparr> | None \<Rightarrow> run_idle (hd (rotate (Suc i) xs)) st2)"
proof -
  let ?t = "xs ! i" and ?zs = "rotate (Suc i) xs"
  define st1 where "st1 = u\<lparr>measurement_start_ns := uptime,
    cpu_time_ns := (cpu_time_ns st)(t_parent (threads st ?t) := cpu_time_ns st (t_parent (threads st ?t)) + (uptime - measurement_start_ns st))\<rparr>"
  have sw: "switch_from uptime ?t st = Inr st1" using assms(7) by (simp add: switch_from_def st1_def u_def Let_def)
  have f1: "threads st1 = threads u" "ring st1 = ring st" "nice st1 = nice st" "idle_thread st1 = idle_thread st"
    by (simp_all add: st1_def u_def set_thread_def)
  have e: "eligible cpu uptime st1 = eligible cpu uptime u" by (simp add: fun_eq_iff eligible_def st1_def)
  have ne: "?zs \<noteq> []" "length (?zs @ [hd ?zs]) = nat (list_size (ring st1) + 1)" using assms(1,3) f1(2) by (auto simp: is_ring_def)
  have lk: "linked (ring st1) (?t # ?zs @ [hd ?zs])" "counters_small st1"
    using ring_from [OF assms(1,3)] assms(4) f1 by (simp_all add: counters_small_def u_def set_thread_def)
  have nx: "next_of (ring st1) ?t \<noteq> None" using lk(1) by (simp add: linked_Cons)
  have last_z: "last (?t # ?zs @ [hd ?zs]) = hd ?zs" by simp
  from pick_first [OF woken_refl lk, of uptime cpu, unfolded find_again [OF ne(1)] e last_z ne(2)]
  obtain st2 where st2: "woken uptime st1 st2" "pick (nat (list_size (ring st1) + 1)) cpu uptime ?t st1 =
      Inr (case find (eligible cpu uptime u) ?zs of Some t \<Rightarrow> (Some t, t, take_thread t st2) | None \<Rightarrow> (None, hd ?zs, st2))" by blast
  have "schedule cpu uptime got st = res_bind (switch_from uptime ?t st) (\<lambda>st.
      case (if next_of (ring st) ?t = None then list_head (ring st) else Some ?t) of None \<Rightarrow> Inl NullDeref
      | Some start \<Rightarrow> res_bind (pick (nat (list_size (ring st) + 1)) cpu uptime start st) (\<lambda>(r, t, st).
          case r of Some t \<Rightarrow> Inr (st\<lparr>current_thread := t\<rparr>) | None \<Rightarrow> Inr (run_idle t st)))"
    using assms(2,5,6,8) by (auto simp: schedule_def Let_def)
  then have "schedule cpu uptime got st = Inr (case find (eligible cpu uptime u) ?zs of
        Some t \<Rightarrow> (take_thread t st2)\<lparr>current_thread := t\<rparr> | None \<Rightarrow> run_idle (hd ?zs) st2)"
    using nx st2(2) by (auto simp: sw split: option.splits)
  then show ?thesis using f1 st2(1) by blast
qed

text \<open>
  C26. The scheduler is round robin among the threads that may run. If the current thread, the \<open>i\<close>-th in the ring, is not critical and
  its counter is used up, then it is let go and the processor goes to the first thread behind it in the ring, itself included as the
  last, that is runnable, interrupted or due, may use this processor, has the credit and is not locked by another, or else to the
  idle thread; the thread chosen is locked and the ring stays a ring. But a thread of a process with a positive nice value, whose
  counter starts at 0, is not chosen, and its counter does not grow, so it never runs.
\<close>

theorem schedule_round_robin:
  assumes "is_ring (ring st) xs" "current_thread st = xs ! i" "i < length xs" "idle_thread st \<notin> set xs" "counters_small st"
    and "m_critical (threads st (xs ! i)) = 0" "sched_counter (threads st (xs ! i)) < 1000000" "t_locked (threads st (xs ! i))"
    and "got \<or> status (threads st (xs ! i)) \<noteq> TS_RUNNABLE"
  shows "\<exists>st'. schedule cpu uptime got st = Inr st' \<and> is_ring (ring st') xs \<and> t_locked (threads st' (current_thread st'))
    \<and> current_thread st' = (case find (eligible cpu uptime (set_thread (xs ! i) ((threads st (xs ! i))\<lparr>t_locked := False\<rparr>) st))
          (rotate (Suc i) xs) of Some t \<Rightarrow> t | None \<Rightarrow> idle_thread st)
    \<and> (\<forall>t \<in> set xs. starved st t \<longrightarrow> current_thread st' \<noteq> t \<and> starved st' t)"
proof -
  let ?u = "set_thread (xs ! i) ((threads st (xs ! i))\<lparr>t_locked := False\<rparr>) st" and ?zs = "rotate (Suc i) xs"
  obtain st1 st2 where f: "threads st1 = threads ?u" "ring st1 = ring st" "nice st1 = nice st" "idle_thread st1 = idle_thread st"
    and w: "woken uptime st1 st2" and run: "schedule cpu uptime got st = Inr (case find (eligible cpu uptime ?u) ?zs of
        Some t \<Rightarrow> (take_thread t st2)\<lparr>current_thread := t\<rparr> | None \<Rightarrow> run_idle (hd ?zs) st2)" (is "_ = Inr ?st'")
    using schedule_switches [OF assms(1-3,5-9), of uptime cpu] by blast
  note ws = woken_fields [OF w]
  have keep: "sched_counter (threads st2 t) = sched_counter (threads st t)" "t_parent (threads st2 t) = t_parent (threads st t)" for t
    by (simp_all add: ws f set_thread_def)
  have poor: "\<not> eligible cpu uptime ?u t" if "starved st t" for t
    using that by (auto simp: starved_def eligible_def credit_def set_thread_def Let_def split: if_splits)
  have "is_ring (ring ?st') xs \<and> t_locked (threads ?st' (current_thread ?st'))
      \<and> current_thread ?st' = (case find (eligible cpu uptime ?u) ?zs of Some t \<Rightarrow> t | None \<Rightarrow> idle_thread st)
      \<and> (\<forall>t \<in> set xs. starved st t \<longrightarrow> current_thread ?st' \<noteq> t \<and> starved ?st' t)"
  proof (cases "find (eligible cpu uptime ?u) ?zs")
    case None
    then show ?thesis
      using assms(1,4) ring_other_next [OF assms(1,4)] keep by (auto simp: run_idle_def Let_def set_thread_def ws f starved_def)
  next
    case (Some c)
    then have "eligible cpu uptime ?u c" by (auto simp: find_Some_iff)
    then show ?thesis using Some assms(1) poor keep
      by (auto simp: take_thread_def Let_def set_thread_def ws f starved_def)
  qed
  then show ?thesis using run by blast
qed

text \<open>Witness of C26: thread 0 has run, thread 1 is nice, thread 2 is asleep and its time has come.\<close>

theorem schedule_round_robin_witness:
  defines "th \<equiv> (new_thread 0)\<lparr>status := TS_RUNNABLE, wakeup_at := 5\<rparr>"
  defines "st \<equiv> \<lparr>ring = \<lparr>next_of = [0 \<mapsto> 1, 1 \<mapsto> 2, 2 \<mapsto> 0], prev_of = [0 \<mapsto> 2, 1 \<mapsto> 0, 2 \<mapsto> 1], list_size = 3, list_head = Some 0, list_tail = Some 2\<rparr>,
      threads = (\<lambda>t. th)(0 := th\<lparr>t_locked := True\<rparr>, 1 := th\<lparr>t_parent := 1\<rparr>, 2 := th\<lparr>status := TS_SLEEPING\<rparr>), nice = (\<lambda>_. 0)(1 := 4),
      cpu_affinity = (\<lambda>_. 0), cpu_time_ns = (\<lambda>_. 0), idle_thread = 9, current_thread = 0, should_yield = False, measurement_start_ns = 0\<rparr>"
  shows "starved st 1 \<and> (\<exists>st'. schedule 0 7 True st = Inr st' \<and> is_ring (ring st') [0, 1, 2] \<and> current_thread st' = 2 \<and> starved st' 1)"
proof -
  have "is_ring (ring st) [0, 1, 2]" by (simp add: st_def is_ring_def cycle_def linked_Cons)
  moreover have "counters_small st" by (simp add: st_def th_def counters_small_def credit_def)
  moreover have poor: "starved st 1" by (simp add: st_def th_def starved_def)
  ultimately have "\<exists>st'. schedule 0 7 True st = Inr st' \<and> is_ring (ring st') [0, 1, 2] \<and> t_locked (threads st' (current_thread st'))
    \<and> current_thread st' = (case find (eligible 0 7 (set_thread ([0, 1, 2] ! 0) ((threads st ([0, 1, 2] ! 0))\<lparr>t_locked := False\<rparr>) st))
          (rotate (Suc 0) [0, 1, 2]) of Some t \<Rightarrow> t | None \<Rightarrow> idle_thread st)
    \<and> (\<forall>t \<in> set [0, 1, 2]. starved st t \<longrightarrow> current_thread st' \<noteq> t \<and> starved st' t)"
    by (intro schedule_round_robin) (simp_all add: st_def th_def)
  moreover have "find (eligible 0 7 (set_thread ([0, 1, 2] ! 0) ((threads st ([0, 1, 2] ! 0))\<lparr>t_locked := False\<rparr>) st)) (rotate (Suc 0) [0, 1, 2]) = Some 2"
    by (simp add: st_def th_def eligible_def set_thread_def may_run_def masked_def credit_def)
  ultimately show ?thesis using poor by auto
qed

end
