(* ===== verification/Threads.thy ===== *)
theory Threads
  imports ThreadState Errno
begin

text \<open>
  The life cycle of threads (\<open>proc/thread.cpp\<close>) and the part of their process in it (\<open>proc/process.cpp\<close>): creating, exiting, joining,
  detaching and aborting a thread, and the broker that deletes it. A method that gives up the processor is split where it does so.
  The stacks, the context and the local storage of a new thread are allocations of the page map.

  Inside these methods the current thread holds a spinlock or is critical, so the \<open>subBusy\<close> calls below do not bring its counter to
  zero and only count (\<open>busy_inside\<close>); what \<open>subBusy\<close> does at zero is in \<open>Signals\<close>.
\<close>

definition assoc :: "nat \<Rightarrow> tid \<Rightarrow> kern \<Rightarrow> kern res" where
  "assoc p t st =
     res_bind (lock_threads p st) (\<lambda>st.
     res_bind (lv_push t (p_threads (kprocs st p))) (\<lambda>(_, v).
     unlock_threads p (upd_proc p (\<lambda>pr. pr\<lparr>p_threads := v\<rparr>) st)))"

fun find_thread :: "tid \<Rightarrow> tid option list \<Rightarrow> nat option" where
  "find_thread t [] = None"
| "find_thread t (c # cs) = (if c = None \<or> c \<noteq> Some t then map_option Suc (find_thread t cs) else Some 0)"

definition unassoc :: "nat \<Rightarrow> tid \<Rightarrow> kern \<Rightarrow> kern res" where
  "unassoc p t st =
     res_bind (lock_threads p st) (\<lambda>st.
     case find_thread t (lv_array (p_threads (kprocs st p))) of None \<Rightarrow> unlock_threads p st
     | Some i \<Rightarrow> res_bind (lv_erase (int i) (p_threads (kprocs st p))) (\<lambda>v.
         unlock_threads p (upd_proc p (\<lambda>pr. pr\<lparr>p_threads := v\<rparr>) st)))"

text \<open>
  \<open>Thread::create\<close> for a process that is there. Its first lines take the lock of the process list and look the process up.
\<close>

definition thread_create :: "nat \<Rightarrow> tid \<Rightarrow> bool \<Rightarrow> kern \<Rightarrow> kern res" where
  "thread_create p t dont_add st =
     res_bind (lock_threads p (upd_thread t (\<lambda>_. new_thread p) st)) (\<lambda>st.
     res_bind (unlock_threads p (upd_proc p (\<lambda>pr. pr\<lparr>thread_counter := thread_counter pr + 1\<rparr>) st)) (\<lambda>st.
     res_bind (assoc p t st) (\<lambda>st.
     if dont_add then Inr st
     else res_bind (add_thread t (thread_ring st)) (\<lambda>l. Inr (st\<lparr>thread_ring := l\<rparr>)))))"

text \<open>
  \<open>Process::exit\<close>: also says whether it returned; a thread of the process itself waits there until it is aborted.
\<close>

definition Process_exit :: "int \<Rightarrow> nat \<Rightarrow> kern \<Rightarrow> (bool \<times> kern) res" where
  "Process_exit rc p st =
     res_bind (lock_proc p st) (\<lambda>st.
     if m_exiting (kprocs st p) then res_bind (unlock_proc p st) (\<lambda>st. Inr (True, st))
     else
       res_bind (unlock_proc p (broker (ExitThreaded p) (upd_proc p (\<lambda>pr. pr\<lparr>m_exiting := True, p_ret_code := rc\<rparr>) st))) (\<lambda>st.
       if t_parent (kthreads st (current st)) = p \<and> \<not> m_aborting (kthreads st (current st))
       then res_bind (res_assert (\<not> isCritical (kthreads st (current st)))) (\<lambda>_. Inr (False, st))
       else Inr (True, st)))"

definition exit_if_last :: "nat \<Rightarrow> kern \<Rightarrow> (bool \<times> kern) res" where
  "exit_if_last p st = (if thread_counter (kprocs st p) = 1 then Process_exit 0 p st else Inr (True, st))"

text \<open>
  \<open>Thread::finish\<close>. The current thread is critical in it, so \<open>Process::exit\<close> does not wait there: it returns or its \<open>yield\<close> fails its
  assertion (\<open>exit_inside\<close>), and the branch for a call that waits is not taken.
\<close>

definition thread_finish :: "tid \<Rightarrow> kern \<Rightarrow> kern res" where
  "thread_finish t st =
     (let st = upd_thread (current st) addCritical st; p = t_parent (kthreads st t) in
      res_bind (res_assert (status (kthreads st t) = TS_DEAD)) (\<lambda>_.
      res_bind (unassoc p t st) (\<lambda>st.
      res_bind (remove_thread (idle_threads st) (held_mutexes (kthreads st t)) t (thread_ring st)) (\<lambda>l.
      res_bind (exit_if_last p (st\<lparr>thread_ring := l\<rparr>)) (\<lambda>(returned, st).
      if \<not> returned then Inl Deadlock
      else Inr (upd_thread (current st) subCritical (broker (Cleanup t) st)))))))"

text \<open>The thread that waits in \<open>join\<close> goes on.\<close>

definition wake_joiner :: "tid \<Rightarrow> kern \<Rightarrow> kern res" where
  "wake_joiner j st =
     res_bind (lock_thread j st) (\<lambda>st.
     res_bind (setStatus TS_RUNNABLE (kthreads st j)) (\<lambda>th.
     unlock_thread j (upd_thread j (\<lambda>_. th) st)))"

definition thread_kill :: "tid \<Rightarrow> kern \<Rightarrow> kern res" where
  "thread_kill t st =
     res_bind (setStatus TS_DEAD (kthreads st t)) (\<lambda>th.
     thread_finish t (upd_thread t (\<lambda>_. th) st))"

definition thread_abort' :: "bool \<Rightarrow> tid \<Rightarrow> kern \<Rightarrow> kern res" where
  "thread_abort' force t st =
     (let st = upd_thread t (\<lambda>th. th\<lparr>m_aborting := True, m_detached := force \<or> m_detached th\<rparr>) st; th = kthreads st t in
      if isBusy th then Inr st
      else case m_joiner th of
        Some j \<Rightarrow> wake_joiner j st
      | None \<Rightarrow>
          if m_detached th then
            res_bind (thread_kill t (upd_thread (current st) addBusy st)) (\<lambda>st. Inr (upd_thread (current st) subBusy st))
          else Inr st)"

definition thread_abort :: "bool \<Rightarrow> tid \<Rightarrow> kern \<Rightarrow> kern res" where
  "thread_abort force t st = res_bind (lock_thread t st) (\<lambda>st. res_bind (thread_abort' force t st) (unlock_thread t))"

text \<open>\<open>Thread::exit\<close>, up to where the thread yields and is not run again, or returns because it is busy.\<close>

definition thread_exit :: "kern \<Rightarrow> kern res" where
  "thread_exit st =
     (let t = current st; th = kthreads st t in
      res_bind (res_assert (t_locked th)) (\<lambda>_.
      res_bind (res_assert (m_pending_signals th = [])) (\<lambda>_.
      if isBusy th then thread_abort' False t st
      else
        let st = upd_thread t addCritical st in
        res_bind (setStatus TS_DEAD (kthreads st t)) (\<lambda>th.
        let st = upd_thread t (\<lambda>_. th) st in
        res_bind (case m_joiner th of
            Some j \<Rightarrow> wake_joiner j st
          | None \<Rightarrow> if m_detached th \<or> thread_counter (kprocs st (t_parent th)) = 1 then thread_finish t st else Inr st) (\<lambda>st.
        let st = upd_thread t subCritical st in
        res_bind (res_assert (\<not> isCritical (kthreads st t))) (\<lambda>_. Inr st))))))"

text \<open>\<open>Thread::join\<close>: its answer, or the state of the current thread it saved before it gave up the processor.\<close>

datatype join_result = Joined error_t | Waits thread_state

definition thread_join :: "tid \<Rightarrow> kern \<Rightarrow> (join_result \<times> kern) res" where
  "thread_join t st =
     (let cur = current st in
      res_bind (lock_thread t st) (\<lambda>st.
      if m_detached (kthreads st t) \<or> m_joiner (kthreads st t) \<noteq> None then res_bind (unlock_thread t st) (\<lambda>st. Inr (Joined EINVAL, st))
      else if t = cur \<or> m_joiner (kthreads st cur) = Some t then res_bind (unlock_thread t st) (\<lambda>st. Inr (Joined EDEADLK, st))
      else
        let st = upd_thread cur addBusy st in
        if status (kthreads st t) = TS_DEAD then
          res_bind (thread_finish t st) (\<lambda>st.
          res_bind (unlock_thread t (upd_thread cur subBusy st)) (\<lambda>st. Inr (Joined ENONE, st)))
        else
          let saved = saveState (kthreads st cur); st = upd_thread t (\<lambda>th. th\<lparr>m_joiner := Some cur\<rparr>) st in
          res_bind (setStatus TS_BLOCKED (kthreads st cur)) (\<lambda>th.
          res_bind (unlock_thread t (upd_thread cur (\<lambda>_. th) st)) (\<lambda>st.
          res_bind (res_assert (\<not> isCritical (kthreads st cur))) (\<lambda>_. Inr (Waits saved, st))))))"

definition thread_join_resume :: "tid \<Rightarrow> thread_state \<Rightarrow> kern \<Rightarrow> (error_t \<times> kern) res" where
  "thread_join_resume t saved st =
     (let cur = current st in
      res_bind (lock_thread t st) (\<lambda>st.
      if interrupted (kthreads st cur) then
        let st = upd_thread t (\<lambda>th. th\<lparr>m_joiner := None\<rparr>) st in
        res_bind (if status (kthreads st t) = TS_DEAD then thread_finish t st
                  else Inr (if m_aborting (kthreads st cur) then upd_thread t (\<lambda>th. th\<lparr>m_detached := True\<rparr>) st else st)) (\<lambda>st.
        res_bind (unlock_thread t (upd_thread cur (\<lambda>th. subBusy (loadState saved th)) st)) (\<lambda>st. Inr (EINTR, st)))
      else
        res_bind (res_assert (\<not> m_detached (kthreads st t))) (\<lambda>_.
        res_bind (res_assert (status (kthreads st cur) = TS_RUNNABLE)) (\<lambda>_.
        res_bind (thread_finish t st) (\<lambda>st.
        res_bind (unlock_thread t (upd_thread cur (\<lambda>th. subBusy (loadState saved th)) st)) (\<lambda>st. Inr (ENONE, st)))))))"

definition thread_detach :: "tid \<Rightarrow> kern \<Rightarrow> (error_t \<times> kern) res" where
  "thread_detach t st =
     res_bind (lock_thread t st) (\<lambda>st.
     if m_detached (kthreads st t) \<or> m_joiner (kthreads st t) \<noteq> None then res_bind (unlock_thread t st) (\<lambda>st. Inr (EINVAL, st))
     else
       res_bind (if status (kthreads st t) = TS_DEAD then thread_finish t st else Inr st) (\<lambda>st.
       res_bind (unlock_thread t (upd_thread t (\<lambda>th. th\<lparr>m_detached := True\<rparr>) st)) (\<lambda>st. Inr (ENONE, st))))"

text \<open>\<open>broker_cleanup\<close> with the destructor, which gives the stacks back to the page maps.\<close>

definition broker_cleanup :: "tid \<Rightarrow> kern \<Rightarrow> kern res" where
  "broker_cleanup t st =
     (let p = t_parent (kthreads st t) in
      res_bind (lock_threads p st) (\<lambda>st.
      res_bind (lock_thread t st) (\<lambda>st.
      res_bind (unlock_thread t (upd_proc p (\<lambda>pr. pr\<lparr>thread_counter := thread_counter pr - 1\<rparr>) st)) (\<lambda>st.
      unlock_threads p st))))"


text \<open>
  The first part of \<open>exit_threaded\<close>: every thread of the process is aborted, with the lock of its threads held. The vector does not
  grow meanwhile, so its first length bounds the rounds.
\<close>

fun exit_loop :: "nat \<Rightarrow> int \<Rightarrow> nat \<Rightarrow> kern \<Rightarrow> kern res" where
  "exit_loop 0 i p st = Inr st"
| "exit_loop (Suc n) i p st = (let v = p_threads (kprocs st p) in
     if i \<ge> lv_count v then Inr st
     else if \<not> lv_present i v then exit_loop n (i + 1) p st
     else res_bind (thread_abort True (the (lv_array v ! nat i)) st) (exit_loop n (i + 1) p))"

definition abort_threads :: "nat \<Rightarrow> kern \<Rightarrow> kern res" where
  "abort_threads p st =
     res_bind (lock_threads p st) (\<lambda>st.
     res_bind (exit_loop (length (lv_array (p_threads (kprocs st p)))) 0 p st) (unlock_threads p))"


subsection \<open>What the methods change\<close>

definition cleanups :: "kern \<Rightarrow> tid list" where
  "cleanups st = concat (map (\<lambda>c. case c of Cleanup t \<Rightarrow> [t] | _ \<Rightarrow> []) (broker_queue st))"

text \<open>Most steps leave the lists of threads, their counts and the work of the broker as they are.\<close>

definition same_life :: "kern \<Rightarrow> kern \<Rightarrow> bool" where
  "same_life st st' \<longleftrightarrow> thread_ring st' = thread_ring st \<and> idle_threads st' = idle_threads st \<and> cleanups st' = cleanups st
     \<and> current st' = current st \<and> (\<forall>p. p_threads (kprocs st' p) = p_threads (kprocs st p) \<and> thread_counter (kprocs st' p) = thread_counter (kprocs st p))
     \<and> (\<forall>t. t_parent (kthreads st' t) = t_parent (kthreads st t))"

lemma same_life_refl [simp]: "same_life st st"
  by (simp add: same_life_def)

lemma same_life_trans [trans]: "same_life a b \<Longrightarrow> same_life b c \<Longrightarrow> same_life a c"
  by (simp add: same_life_def)

lemma counters_parent [simp]:
  "t_parent (addCritical th) = t_parent th" "t_parent (subCritical th) = t_parent th" "t_parent (addBusy th) = t_parent th"
  "t_parent (subBusy th) = t_parent th" "t_parent (loadState s th) = t_parent th"
  by (simp_all add: addCritical_def subCritical_def addBusy_def subBusy_def loadState_def)

lemma same_life_upd [simp]:
  "t_parent (f (kthreads st t)) = t_parent (kthreads st t) \<Longrightarrow> same_life (upd_thread t f st) st' = same_life st st'"
  "p_threads (g (kprocs st p)) = p_threads (kprocs st p) \<Longrightarrow> thread_counter (g (kprocs st p)) = thread_counter (kprocs st p) \<Longrightarrow>
    same_life (upd_proc p g st) st' = same_life st st'"
  "same_life (broker (ExitThreaded p) st) st' = same_life st st'"
  by (auto simp: same_life_def upd_thread_def upd_proc_def cleanups_def broker_def)

lemma same_life_upd_right [simp]:
  "t_parent (f (kthreads st t)) = t_parent (kthreads st t) \<Longrightarrow> same_life st' (upd_thread t f st) = same_life st' st"
  "p_threads (g (kprocs st p)) = p_threads (kprocs st p) \<Longrightarrow> thread_counter (g (kprocs st p)) = thread_counter (kprocs st p) \<Longrightarrow>
    same_life st' (upd_proc p g st) = same_life st' st"
  by (auto simp: same_life_def upd_thread_def upd_proc_def cleanups_def)

lemma same_life_locks:
  "lock_thread t st = Inr st' \<Longrightarrow> same_life st st'" "unlock_thread t st = Inr st' \<Longrightarrow> same_life st st'"
  "lock_threads p st = Inr st' \<Longrightarrow> same_life st st'" "unlock_threads p st = Inr st' \<Longrightarrow> same_life st st'"
  "lock_proc p st = Inr st' \<Longrightarrow> same_life st st'" "unlock_proc p st = Inr st' \<Longrightarrow> same_life st st'"
  by (auto simp: lock_thread_def unlock_thread_def lock_threads_def unlock_threads_def lock_proc_def unlock_proc_def split: if_splits)

lemma setStatus_parent: "setStatus s th = Inr th' \<Longrightarrow> t_parent th' = t_parent th"
  by (auto simp: setStatus_def split: if_splits)

lemma same_life_Process_exit: "Process_exit rc p st = Inr (b, st') \<Longrightarrow> same_life st st'"
  unfolding Process_exit_def by (auto simp: res_bind_Inr_iff split: if_splits dest!: same_life_locks intro: same_life_trans)

lemma same_life_wake_joiner: "wake_joiner j st = Inr st' \<Longrightarrow> same_life st st'"
  unfolding wake_joiner_def
  by (auto simp: res_bind_Inr_iff dest!: same_life_locks dest: setStatus_parent intro: same_life_trans)

subsection \<open>Threads alive, queued and deleted\<close>

definition associated :: "kern \<Rightarrow> nat \<Rightarrow> tid \<Rightarrow> bool" where
  "associated st p t \<longleftrightarrow> t \<in> ran (lv_lookup (p_threads (kprocs st p)))"

definition once :: "(nat \<Rightarrow> 'a option) \<Rightarrow> bool" where
  "once m \<longleftrightarrow> (\<forall>i j x. m i = Some x \<and> m j = Some x \<longrightarrow> i = j)"

definition life_inv :: "tid list \<Rightarrow> kern \<Rightarrow> bool" where
  "life_inv xs st \<longleftrightarrow> list_inv (idle_threads st) (thread_ring st) xs
     \<and> distinct (cleanups st) \<and> set (cleanups st) \<inter> (set xs \<union> set (idle_threads st)) = {}
     \<and> (\<forall>p. lv_inv (p_threads (kprocs st p)) \<and> once (lv_lookup (p_threads (kprocs st p)))
         \<and> (\<forall>t. associated st p t \<longleftrightarrow> t \<in> set xs \<union> set (idle_threads st) \<and> t_parent (kthreads st t) = p)
         \<and> thread_counter (kprocs st p) = int (card {t \<in> set xs \<union> set (idle_threads st) \<union> set (cleanups st). t_parent (kthreads st t) = p}))"

lemma same_life_inv: "same_life st st' \<Longrightarrow> life_inv xs st' = life_inv xs st"
  by (simp add: same_life_def life_inv_def associated_def)

lemma find_thread_spec:
  "case find_thread t arr of None \<Rightarrow> Some t \<notin> set arr | Some i \<Rightarrow> i < length arr \<and> arr ! i = Some t"
  by (induction arr) (auto split: option.splits)

lemma unassoc_effect:
  assumes "lv_inv (p_threads (kprocs st p))" "once (lv_lookup (p_threads (kprocs st p)))" "associated st p t" "unassoc p t st = Inr st'"
  shows "\<exists>v. lv_inv v \<and> once (lv_lookup v) \<and> ran (lv_lookup v) = ran (lv_lookup (p_threads (kprocs st p))) - {t}
    \<and> same_life (upd_proc p (\<lambda>pr. pr\<lparr>p_threads := v\<rparr>) st) st'"
proof -
  let ?v = "p_threads (kprocs st p)"
  obtain st1 where st1: "lock_threads p st = Inr st1" using assms(4) by (auto simp: unassoc_def res_bind_Inr_iff)
  then have same: "p_threads (kprocs st1 p) = ?v" using same_life_locks(3) by (simp add: same_life_def)
  have "find_thread t (lv_array ?v) \<noteq> None"
    using assms(3) find_thread_spec [of t "lv_array ?v"] by (auto simp: associated_def ran_def lv_lookup_def split: option.splits if_splits) (metis nth_mem)
  then obtain i where i: "find_thread t (lv_array ?v) = Some i" by blast
  then have at: "i < length (lv_array ?v)" "lv_array ?v ! i = Some t" using find_thread_spec [of t "lv_array ?v"] by auto
  obtain v where v: "lv_erase (int i) ?v = Inr v" "lv_inv v" "lv_lookup v = (lv_lookup ?v)(i := None)"
    using lv_erase_effect [OF at(1)] assms(1) at(2) by (auto simp: lv_inv_def)
  have "unlock_threads p (upd_proc p (\<lambda>pr. pr\<lparr>p_threads := v\<rparr>) st1) = Inr st'"
    using assms(4) st1 i v(1) same by (simp add: unassoc_def)
  then have "same_life (upd_proc p (\<lambda>pr. pr\<lparr>p_threads := v\<rparr>) st1) st'" by (rule same_life_locks)
  moreover have "same_life (upd_proc p (\<lambda>pr. pr\<lparr>p_threads := v\<rparr>) st) (upd_proc p (\<lambda>pr. pr\<lparr>p_threads := v\<rparr>) st1)"
    using same_life_locks(3) [OF st1] by (simp add: same_life_def upd_proc_def cleanups_def)
  moreover have "once (lv_lookup v)" using assms(2) unfolding v(3) once_def by auto
  moreover have "ran (lv_lookup v) = ran (lv_lookup ?v) - {t}"
  proof -
    have "lv_lookup ?v i = Some t" using at by (simp add: lv_lookup_def)
    then have "(\<exists>a. ((lv_lookup ?v)(i := None)) a = Some x) \<longleftrightarrow> (\<exists>a. lv_lookup ?v a = Some x) \<and> x \<noteq> t" for x
      using assms(2) unfolding once_def by (metis fun_upd_apply option.distinct(1) option.inject)
    then show ?thesis unfolding v(3) ran_def by auto
  qed
  ultimately show ?thesis using v(2) same_life_trans by blast
qed

lemma cleanups_broker [simp]: "cleanups (broker (Cleanup t) st) = cleanups st @ [t]"
  by (simp add: cleanups_def broker_def)

lemma finish_inv:
  assumes "life_inv xs st" "t \<in> set xs" "list_inv (idle_threads st) l (remove1 t xs)"
    and "lv_inv v" "once (lv_lookup v)" "ran (lv_lookup v) = ran (lv_lookup (p_threads (kprocs st p))) - {t}" "p = t_parent (kthreads st t)"
    and "same_life (upd_proc p (\<lambda>pr. pr\<lparr>p_threads := v\<rparr>) (st\<lparr>thread_ring := l\<rparr>)) st'"
  shows "life_inv (remove1 t xs) (broker (Cleanup t) st')"
proof -
  let ?st = "broker (Cleanup t) st'"
  have fields: "idle_threads ?st = idle_threads st" "thread_ring ?st = l" "cleanups ?st = cleanups st @ [t]"
    "\<And>t. t_parent (kthreads ?st t) = t_parent (kthreads st t)" "\<And>q. thread_counter (kprocs ?st q) = thread_counter (kprocs st q)"
    "\<And>q. p_threads (kprocs ?st q) = (if q = p then v else p_threads (kprocs st q))"
    using assms(8) by (simp_all add: same_life_def upd_proc_def broker_def cleanups_def split: if_splits)
  have "distinct xs" using assms(1) by (simp add: life_inv_def list_inv_def is_ring_def cycle_def)
  then have xs: "set (remove1 t xs) = set xs - {t}" by (rule set_remove1_eq)
  have "{u \<in> set (remove1 t xs) \<union> set (idle_threads st) \<union> set (cleanups st @ [t]). t_parent (kthreads st u) = q} =
      {u \<in> set xs \<union> set (idle_threads st) \<union> set (cleanups st). t_parent (kthreads st u) = q}" for q using assms(2) xs by auto
  moreover have "t \<notin> set (cleanups st)" "t \<notin> set (idle_threads st)" using assms(1,2) by (auto simp: life_inv_def list_inv_def)
  ultimately show ?thesis using assms(1-7) unfolding life_inv_def associated_def fields by (auto simp: xs)
qed

lemma finish_effect:
  assumes "life_inv xs st" "t \<in> set xs" "xs \<noteq> [t]" "thread_finish t st = Inr st'"
  shows "life_inv (remove1 t xs) st'" "cleanups st' = cleanups st @ [t]" "current st' = current st"
proof -
  define st0 where "st0 = upd_thread (current st) addCritical st"
  have s0: "same_life st st0" by (simp add: st0_def)
  let ?p = "t_parent (kthreads st0 t)"
  have inv0: "life_inv xs st0" using assms(1) same_life_inv [OF s0] by simp
  obtain st1 l b st3 where run: "unassoc ?p t st0 = Inr st1" "remove_thread (idle_threads st1) (held_mutexes (kthreads st1 t)) t (thread_ring st1) = Inr l"
      "exit_if_last ?p (st1\<lparr>thread_ring := l\<rparr>) = Inr (b, st3)"
      "st' = upd_thread (current st3) subCritical (broker (Cleanup t) st3)"
    using assms(4) unfolding thread_finish_def st0_def [symmetric] Let_def by (auto simp: res_bind_Inr_iff split: if_splits)
  have inv0': "lv_inv (p_threads (kprocs st0 ?p))" "once (lv_lookup (p_threads (kprocs st0 ?p)))" "associated st0 ?p t"
    using inv0 assms(2) by (simp_all add: life_inv_def)
  obtain v where v: "lv_inv v" "once (lv_lookup v)" "ran (lv_lookup v) = ran (lv_lookup (p_threads (kprocs st0 ?p))) - {t}"
      "same_life (upd_proc ?p (\<lambda>pr. pr\<lparr>p_threads := v\<rparr>) st0) st1"
    using unassoc_effect [OF inv0' run(1)] by blast
  have "thread_ring st1 = thread_ring st0" "idle_threads st1 = idle_threads st0" using v(4) by (simp_all add: same_life_def upd_proc_def)
  moreover have "held_mutexes (kthreads st1 t) = 0" using run(2) by (simp add: remove_thread_def res_bind_Inr_iff)
  ultimately have ring: "list_inv (idle_threads st0) l (remove1 t xs)"
    using link_op_inv [of "idle_threads st0" "thread_ring st0" xs "Remove t"] run(2) inv0 assms(2,3) by (auto simp: life_inv_def)
  have "same_life (st1\<lparr>thread_ring := l\<rparr>) st3" using run(3) same_life_Process_exit by (auto simp: exit_if_last_def split: if_splits)
  then have "same_life (upd_proc ?p (\<lambda>pr. pr\<lparr>p_threads := v\<rparr>) (st0\<lparr>thread_ring := l\<rparr>)) st3"
    using v(4) by (simp add: same_life_def upd_proc_def cleanups_def)
  note st3 = this and fin = finish_inv [OF inv0 assms(2) ring v(1-3) refl this]
  show "life_inv (remove1 t xs) st'" using fin same_life_inv [of "broker (Cleanup t) st3" st'] run(4) by simp
  show "cleanups st' = cleanups st @ [t]" "current st' = current st"
    using st3 s0 run(4) by (simp_all add: same_life_def upd_proc_def upd_thread_def cleanups_def broker_def)
qed

text \<open>The outcomes of a method: the lists are as before, or one thread was finished.\<close>

definition ends :: "tid \<Rightarrow> tid list \<Rightarrow> kern \<Rightarrow> kern \<Rightarrow> bool" where
  "ends t xs st st' \<longleftrightarrow> current st' = current st \<and> (cleanups st' = cleanups st \<and> life_inv xs st'
     \<or> cleanups st' = cleanups st @ [t] \<and> life_inv (remove1 t xs) st')"

lemma ends_same:
  assumes "life_inv xs st" "same_life st st'"
  shows "ends t xs st st'"
  using assms same_life_inv [OF assms(2), of xs] by (simp add: ends_def same_life_def)

lemma ends_around:
  assumes "same_life a b" "ends t xs b c" "same_life c d"
  shows "ends t xs a d"
  using assms same_life_inv [OF assms(3)] unfolding ends_def by (auto simp: same_life_def)

definition live :: "tid \<Rightarrow> tid list \<Rightarrow> kern \<Rightarrow> bool" where
  "live t xs st \<longleftrightarrow> life_inv xs st \<and> t \<in> set xs \<and> xs \<noteq> [t]"

lemma live_same: "same_life a b \<Longrightarrow> live t xs b = live t xs a"
  by (simp add: live_def same_life_inv)

lemma finish_ends:
  assumes "live t xs st" "same_life st a" "thread_finish t a = Inr b" "same_life b c"
  shows "ends t xs st c"
proof -
  have "life_inv xs a" "t \<in> set xs" "xs \<noteq> [t]" using live_same [OF assms(2), of t xs] assms(1) by (simp_all add: live_def)
  then have "ends t xs a b" using finish_effect [OF _ _ _ assms(3)] by (simp add: ends_def)
  then show ?thesis by (rule ends_around [OF assms(2) _ assms(4)])
qed

lemmas same_life_dest = same_life_locks same_life_wake_joiner same_life_Process_exit

lemma kill_ends:
  assumes "live t xs st" "same_life st a" "thread_kill t a = Inr b" "same_life b c"
  shows "ends t xs st c"
proof -
  obtain th where th: "setStatus TS_DEAD (kthreads a t) = Inr th" "thread_finish t (upd_thread t (\<lambda>_. th) a) = Inr b"
    using assms(3) by (auto simp: thread_kill_def res_bind_Inr_iff)
  then have "same_life st (upd_thread t (\<lambda>_. th) a)" using assms(2) setStatus_parent [OF th(1)] by simp
  then show ?thesis by (rule finish_ends [OF assms(1) _ th(2) assms(4)])
qed

lemma abort'_ends:
  assumes "live t xs st" "same_life st a" "thread_abort' force t a = Inr b" "same_life b c"
  shows "ends t xs st c"
proof -
  define a' where "a' = upd_thread t (\<lambda>th. th\<lparr>m_aborting := True, m_detached := force \<or> m_detached th\<rparr>) a"
  have s: "same_life st a'" using assms(2) by (simp add: a'_def)
  have "same_life a' b \<or> (\<exists>x. thread_kill t (upd_thread (current a') addBusy a') = Inr x \<and> b = upd_thread (current x) subBusy x)"
    using assms(3) unfolding thread_abort'_def a'_def [symmetric] Let_def
    by (auto simp: res_bind_Inr_iff split: if_splits option.splits dest: same_life_dest)
  then show ?thesis
  proof
    assume "same_life a' b"
    then show ?thesis using ends_same s assms(1,4) same_life_trans unfolding live_def by blast
  next
    assume "\<exists>x. thread_kill t (upd_thread (current a') addBusy a') = Inr x \<and> b = upd_thread (current x) subBusy x"
    then obtain x where x: "thread_kill t (upd_thread (current a') addBusy a') = Inr x" "b = upd_thread (current x) subBusy x" by blast
    show ?thesis by (rule kill_ends [OF assms(1) _ x(1)]) (use s assms(4) x(2) in simp_all)
  qed
qed

lemma exit_ends:
  assumes "live (current st) xs st" "thread_exit st = Inr st'"
  shows "ends (current st) xs st st'"
proof (cases "isBusy (kthreads st (current st))")
  case True
  then show ?thesis using assms(2) abort'_ends [OF assms(1) same_life_refl _ same_life_refl]
    by (auto simp: thread_exit_def Let_def res_bind_Inr_iff)
next
  case False
  define a where "a = upd_thread (current st) addCritical st"
  obtain th x where th: "setStatus TS_DEAD (kthreads a (current st)) = Inr th" and
    run: "(case m_joiner th of Some j \<Rightarrow> wake_joiner j (upd_thread (current st) (\<lambda>_. th) a)
        | None \<Rightarrow> if m_detached th \<or> thread_counter (kprocs (upd_thread (current st) (\<lambda>_. th) a) (t_parent th)) = 1
             then thread_finish (current st) (upd_thread (current st) (\<lambda>_. th) a) else Inr (upd_thread (current st) (\<lambda>_. th) a)) = Inr x"
    and st': "st' = upd_thread (current st) subCritical x"
    using assms(2) False unfolding thread_exit_def a_def Let_def by (auto simp: res_bind_Inr_iff)
  let ?b = "upd_thread (current st) (\<lambda>_. th) a"
  have s: "same_life st ?b" using setStatus_parent [OF th] by (simp add: a_def)
  have "same_life ?b x \<or> thread_finish (current st) ?b = Inr x"
    using run same_life_dest by (auto split: option.splits if_splits simp del: same_life_upd)
  then show ?thesis
  proof
    assume "same_life ?b x"
    then have "same_life st st'" using s st' same_life_trans [OF s] by simp
    then show ?thesis using ends_same assms(1) by (simp add: live_def)
  next
    assume f: "thread_finish (current st) ?b = Inr x"
    show ?thesis by (rule finish_ends [OF assms(1) s f]) (simp add: st')
  qed
qed

lemma same_life_fields:
  assumes "same_life st st'"
  shows "thread_ring st' = thread_ring st" "idle_threads st' = idle_threads st" "cleanups st' = cleanups st" "current st' = current st"
    "p_threads (kprocs st' p) = p_threads (kprocs st p)" "thread_counter (kprocs st' p) = thread_counter (kprocs st p)"
    "t_parent (kthreads st' t) = t_parent (kthreads st t)"
  using assms by (simp_all add: same_life_def)

lemma assoc_effect:
  assumes "lv_inv (p_threads (kprocs st p))" "once (lv_lookup (p_threads (kprocs st p)))" "\<not> associated st p t" "assoc p t st = Inr st'"
  shows "\<exists>v. lv_inv v \<and> once (lv_lookup v) \<and> ran (lv_lookup v) = insert t (ran (lv_lookup (p_threads (kprocs st p))))
    \<and> same_life (upd_proc p (\<lambda>pr. pr\<lparr>p_threads := v\<rparr>) st) st'"
proof -
  let ?v = "p_threads (kprocs st p)"
  obtain st1 where st1: "lock_threads p st = Inr st1" using assms(4) by (auto simp: assoc_def res_bind_Inr_iff)
  note same = same_life_fields [OF same_life_locks(3) [OF st1]]
  obtain i v where v: "lv_push t ?v = Inr (int i, v)" "lv_inv v" "lv_lookup ?v i = None" "lv_lookup v = (lv_lookup ?v)(i \<mapsto> t)"
    using lv_push_spec [OF assms(1)] by blast
  have "unlock_threads p (upd_proc p (\<lambda>pr. pr\<lparr>p_threads := v\<rparr>) st1) = Inr st'"
    using assms(4) st1 v(1) by (simp add: assoc_def same)
  then have "same_life (upd_proc p (\<lambda>pr. pr\<lparr>p_threads := v\<rparr>) st1) st'" by (rule same_life_locks)
  moreover have "same_life (upd_proc p (\<lambda>pr. pr\<lparr>p_threads := v\<rparr>) st) (upd_proc p (\<lambda>pr. pr\<lparr>p_threads := v\<rparr>) st1)"
    using same_life_locks(3) [OF st1] by (simp add: same_life_def upd_proc_def cleanups_def)
  moreover have "once (lv_lookup v)" using assms(2,3) unfolding v(4) once_def associated_def ran_def by auto
  moreover have "ran (lv_lookup v) = insert t (ran (lv_lookup ?v))" using v(3) unfolding v(4) by simp
  ultimately show ?thesis using v(2) same_life_trans by blast
qed

lemma create_inv:
  assumes "life_inv xs st" "t \<notin> set xs" "t \<notin> set (cleanups st)"
    and "list_inv (idle_threads st) l (xs @ [t])" "lv_inv v" "once (lv_lookup v)" "ran (lv_lookup v) = insert t (ran (lv_lookup (p_threads (kprocs st p))))"
    and "same_life (upd_proc p (\<lambda>pr. pr\<lparr>p_threads := v, thread_counter := thread_counter pr + 1\<rparr>)
          (upd_thread t (\<lambda>_. new_thread p) (st\<lparr>thread_ring := l\<rparr>))) st'"
  shows "life_inv (xs @ [t]) st'"
proof -
  have fields: "idle_threads st' = idle_threads st" "thread_ring st' = l" "cleanups st' = cleanups st"
    "\<And>u. t_parent (kthreads st' u) = (if u = t then p else t_parent (kthreads st u))"
    "\<And>q. thread_counter (kprocs st' q) = thread_counter (kprocs st q) + (if q = p then 1 else 0)"
    "\<And>q. p_threads (kprocs st' q) = (if q = p then v else p_threads (kprocs st q))"
    using assms(8) by (simp_all add: same_life_def upd_proc_def upd_thread_def cleanups_def)
  have idle: "t \<notin> set (idle_threads st)" using assms(4) by (auto simp: list_inv_def)
  then have sets: "{u \<in> set (xs @ [t]) \<union> set (idle_threads st) \<union> set (cleanups st). (if u = t then p else t_parent (kthreads st u)) = q} =
      (if q = p then insert t {u \<in> set xs \<union> set (idle_threads st) \<union> set (cleanups st). t_parent (kthreads st u) = q}
       else {u \<in> set xs \<union> set (idle_threads st) \<union> set (cleanups st). t_parent (kthreads st u) = q})" for q using assms(2,3) by auto
  have "\<And>q u. associated st q u \<longleftrightarrow> u \<in> set xs \<union> set (idle_threads st) \<and> t_parent (kthreads st u) = q" using assms(1) by (simp add: life_inv_def)
  with idle show ?thesis using assms(1-7) unfolding life_inv_def fields sets by (auto simp: associated_def fields)
qed

lemma create_effect:
  assumes "life_inv xs st" "t \<notin> set xs" "t \<notin> set (cleanups st)" "t \<notin> set (idle_threads st)" "thread_create p t False st = Inr st'"
  shows "life_inv (xs @ [t]) st'" "cleanups st' = cleanups st"
proof -
  let ?new = "upd_thread t (\<lambda>_. new_thread p) st" and ?count = "\<lambda>pr. pr\<lparr>thread_counter := thread_counter pr + 1\<rparr>"
  obtain a b c l where run: "lock_threads p ?new = Inr a" "unlock_threads p (upd_proc p ?count a) = Inr b" "assoc p t b = Inr c"
      "add_thread t (thread_ring c) = Inr l" "st' = c\<lparr>thread_ring := l\<rparr>"
    using assms(5) by (auto simp: thread_create_def res_bind_Inr_iff)
  have new: "cleanups ?new = cleanups st" "\<And>q. kprocs ?new q = kprocs st q" "thread_ring ?new = thread_ring st" "idle_threads ?new = idle_threads st"
    by (simp_all add: upd_thread_def cleanups_def)
  have a: "same_life ?new a" by (rule same_life_locks(3) [OF run(1)])
  have "same_life (upd_proc p ?count ?new) (upd_proc p ?count a)" using a by (simp add: same_life_def upd_proc_def cleanups_def)
  then have b: "same_life (upd_proc p ?count ?new) b" using same_life_locks(4) [OF run(2)] same_life_trans by blast
  have pb: "p_threads (kprocs b p) = p_threads (kprocs st p)"
    using same_life_fields(5) [OF b] by (simp add: upd_proc_def new)
  have "lv_inv (p_threads (kprocs b p))" "once (lv_lookup (p_threads (kprocs b p)))" "\<not> associated b p t"
    using assms(1,2,4) unfolding pb associated_def by (auto simp: life_inv_def associated_def)
  from assoc_effect [OF this run(3)] obtain v where v: "lv_inv v" "once (lv_lookup v)"
      "ran (lv_lookup v) = insert t (ran (lv_lookup (p_threads (kprocs st p))))" "same_life (upd_proc p (\<lambda>pr. pr\<lparr>p_threads := v\<rparr>) b) c"
    unfolding pb by blast
  have c: "same_life (upd_proc p (\<lambda>pr. pr\<lparr>p_threads := v, thread_counter := thread_counter pr + 1\<rparr>) ?new) c"
    using b v(4) by (auto simp: same_life_def upd_proc_def cleanups_def split: if_splits)
  have ring: "thread_ring c = thread_ring st" "idle_threads c = idle_threads st" using c by (simp_all add: same_life_def upd_proc_def new)
  have "list_inv (idle_threads st) l (xs @ [t])"
    using link_op_inv [of "idle_threads st" "thread_ring st" xs "Add t"] run(4) assms(1,2,4) by (auto simp: life_inv_def ring)
  from create_inv [OF assms(1-3) this v(1-3)] show "life_inv (xs @ [t]) st'"
    using c unfolding run(5) by (simp add: same_life_def upd_proc_def upd_thread_def cleanups_def)
  show "cleanups st' = cleanups st" using c unfolding run(5) by (simp add: same_life_def upd_proc_def upd_thread_def cleanups_def)
qed

lemma lock_around:
  assumes "\<not> threads_locked (kprocs st p)" "\<And>pr b. f (pr\<lparr>threads_locked := b\<rparr>) = (f pr)\<lparr>threads_locked := b\<rparr>"
    "\<And>pr. threads_locked (f pr) = threads_locked pr"
  shows "res_bind (lock_threads p st) (\<lambda>st. unlock_threads p (upd_proc p f st)) = Inr (upd_proc p f st)"
  using assms by (auto simp: lock_threads_def unlock_threads_def upd_thread_def upd_proc_def intro!: kern.equality)

lemma create_runs:
  assumes "life_inv xs st" "t \<notin> set xs" "t \<notin> set (idle_threads st)" "\<not> threads_locked (kprocs st p)"
  shows "\<exists>v l. thread_create p t False st = Inr ((upd_proc p (\<lambda>pr. pr\<lparr>thread_counter := thread_counter pr + 1, p_threads := v\<rparr>)
    (upd_thread t (\<lambda>_. new_thread p) st))\<lparr>thread_ring := l\<rparr>)"
proof -
  let ?a = "upd_thread t (\<lambda>_. new_thread p) st" and ?v = "p_threads (kprocs st p)"
  let ?b = "upd_proc p (\<lambda>pr. pr\<lparr>thread_counter := thread_counter pr + 1\<rparr>) ?a"
  have first: "res_bind (lock_threads p ?a) (\<lambda>st. unlock_threads p (upd_proc p (\<lambda>pr. pr\<lparr>thread_counter := thread_counter pr + 1\<rparr>) st)) = Inr ?b"
    by (rule lock_around) (use assms(4) in \<open>simp_all add: upd_thread_def\<close>)
  have "lv_inv ?v" using assms(1) by (simp add: life_inv_def)
  then obtain i v where v: "lv_push t ?v = Inr (int i, v)" using lv_push_spec [of ?v t] by auto
  let ?c = "upd_thread (current ?b) addCritical (upd_proc p (\<lambda>pr. pr\<lparr>threads_locked := True\<rparr>) ?b)"
  have c: "lock_threads p ?b = Inr ?c" "p_threads (kprocs ?c p) = ?v"
    using assms(4) by (simp_all add: lock_threads_def upd_thread_def upd_proc_def)
  have "res_bind (lock_threads p ?b) (\<lambda>st. unlock_threads p (upd_proc p (\<lambda>pr. pr\<lparr>p_threads := v\<rparr>) st)) = Inr (upd_proc p (\<lambda>pr. pr\<lparr>p_threads := v\<rparr>) ?b)"
    by (rule lock_around) (use assms(4) in \<open>simp_all add: upd_thread_def upd_proc_def\<close>)
  then have second: "assoc p t ?b = Inr (upd_proc p (\<lambda>pr. pr\<lparr>p_threads := v\<rparr>) ?b)" unfolding assoc_def c(1) by (simp add: c(2) v)
  obtain l where "add_thread t (thread_ring st) = Inr l"
    using link_op_inv [of "idle_threads st" "thread_ring st" xs "Add t"] assms(1-3) by (auto simp: life_inv_def)
  moreover obtain a where "lock_threads p ?a = Inr a" "unlock_threads p (upd_proc p (\<lambda>pr. pr\<lparr>thread_counter := thread_counter pr + 1\<rparr>) a) = Inr ?b"
    using first unfolding res_bind_Inr_iff by blast
  moreover have "thread_ring (upd_proc p (\<lambda>pr. pr\<lparr>p_threads := v\<rparr>) ?b) = thread_ring st" by (simp add: upd_thread_def upd_proc_def)
  ultimately have "thread_create p t False st = Inr ((upd_proc p (\<lambda>pr. pr\<lparr>p_threads := v\<rparr>) ?b)\<lparr>thread_ring := l\<rparr>)"
    using second by (simp add: thread_create_def)
  then show ?thesis by (intro exI [of _ v] exI [of _ l]) (simp add: upd_thread_def upd_proc_def)
qed

lemma cleanup_effect:
  assumes "life_inv xs st" "broker_queue st = Cleanup t # q" "broker_cleanup t (st\<lparr>broker_queue := q\<rparr>) = Inr st'"
  shows "life_inv xs st'" "cleanups st = t # cleanups st'"
proof -
  let ?st = "st\<lparr>broker_queue := q\<rparr>" and ?p = "t_parent (kthreads st t)" and ?count = "\<lambda>pr. pr\<lparr>thread_counter := thread_counter pr - 1\<rparr>"
  obtain a b c where run: "lock_threads ?p ?st = Inr a" "lock_thread t a = Inr b" "unlock_thread t (upd_proc ?p ?count b) = Inr c"
      "unlock_threads ?p c = Inr st'"
    using assms(3) by (auto simp: broker_cleanup_def Let_def res_bind_Inr_iff)
  have "same_life ?st b" using same_life_trans [OF same_life_locks(3) [OF run(1)] same_life_locks(1) [OF run(2)]] .
  then have "same_life (upd_proc ?p ?count ?st) (upd_proc ?p ?count b)" by (simp add: same_life_def upd_proc_def cleanups_def)
  then have same: "same_life (upd_proc ?p ?count ?st) st'"
    using same_life_locks(2) [OF run(3)] same_life_locks(4) [OF run(4)] same_life_trans by blast
  have clean: "cleanups st = t # cleanups ?st" using assms(2) by (simp add: cleanups_def)
  have fields: "idle_threads st' = idle_threads st" "thread_ring st' = thread_ring st" "cleanups st' = cleanups ?st"
    "\<And>u. t_parent (kthreads st' u) = t_parent (kthreads st u)" "\<And>q. p_threads (kprocs st' q) = p_threads (kprocs st q)"
    "\<And>q. thread_counter (kprocs st' q) = thread_counter (kprocs st q) - (if q = ?p then 1 else 0)"
    using same by (simp_all add: same_life_def upd_proc_def cleanups_def)
  show "cleanups st = t # cleanups st'" using clean fields(3) by simp
  have gone: "t \<notin> set xs" "t \<notin> set (idle_threads st)" "t \<notin> set (cleanups ?st)" using assms(1) clean by (auto simp: life_inv_def)
  have "{u \<in> set xs \<union> set (idle_threads st) \<union> set (cleanups st). t_parent (kthreads st u) = p} =
      (if p = ?p then insert t {u \<in> set xs \<union> set (idle_threads st) \<union> set (cleanups ?st). t_parent (kthreads st u) = p}
       else {u \<in> set xs \<union> set (idle_threads st) \<union> set (cleanups ?st). t_parent (kthreads st u) = p})" for p using clean by auto
  then have "int (card {u \<in> set xs \<union> set (idle_threads st) \<union> set (cleanups ?st). t_parent (kthreads st u) = p}) =
      int (card {u \<in> set xs \<union> set (idle_threads st) \<union> set (cleanups st). t_parent (kthreads st u) = p}) - (if p = ?p then 1 else 0)" for p
    using gone by simp
  then show "life_inv xs st'" using assms(1) clean unfolding life_inv_def fields associated_def by auto
qed


subsection \<open>Claims on a thread\<close>

text \<open>
  Who is to finish a thread is written in two of its fields: the thread that waits for it in \<open>join\<close>, and whether it is detached and finishes
  itself. A thread has no joiner twice, and a finished thread keeps its claim until it is deleted.
\<close>

definition claims :: "kern \<Rightarrow> tid \<Rightarrow> tid option \<times> bool" where
  "claims st t = (m_joiner (kthreads st t), m_detached (kthreads st t))"

definition keeps :: "kern \<Rightarrow> kern \<Rightarrow> bool" where
  "keeps st st' \<longleftrightarrow> same_life st st' \<and> claims st' = claims st"

definition finished :: "tid \<Rightarrow> kern \<Rightarrow> kern \<Rightarrow> bool" where
  "finished t st st' \<longleftrightarrow> (\<exists>a b. same_life st a \<and> thread_finish t a = Inr b \<and> same_life b st')"

lemma counters_claims [simp]:
  "m_joiner (addCritical th) = m_joiner th" "m_joiner (subCritical th) = m_joiner th" "m_joiner (addBusy th) = m_joiner th"
  "m_joiner (subBusy th) = m_joiner th" "m_joiner (loadState s th) = m_joiner th"
  "m_detached (addCritical th) = m_detached th" "m_detached (subCritical th) = m_detached th" "m_detached (addBusy th) = m_detached th"
  "m_detached (subBusy th) = m_detached th" "m_detached (loadState s th) = m_detached th"
  by (simp_all add: addCritical_def subCritical_def addBusy_def subBusy_def loadState_def)

lemma claims_upd [simp]:
  "m_joiner (f (kthreads st t)) = m_joiner (kthreads st t) \<Longrightarrow> m_detached (f (kthreads st t)) = m_detached (kthreads st t) \<Longrightarrow>
    claims (upd_thread t f st) = claims st"
  "claims (upd_proc p g st) = claims st" "claims (broker c st) = claims st" "claims (st\<lparr>thread_ring := l\<rparr>) = claims st"
  "claims (st\<lparr>current := u\<rparr>) = claims st" "claims (st\<lparr>broker_queue := q\<rparr>) = claims st"
  by (auto simp: claims_def upd_thread_def upd_proc_def broker_def)

lemma claims_locks:
  "lock_thread t st = Inr st' \<Longrightarrow> claims st' = claims st" "unlock_thread t st = Inr st' \<Longrightarrow> claims st' = claims st"
  "lock_threads p st = Inr st' \<Longrightarrow> claims st' = claims st" "unlock_threads p st = Inr st' \<Longrightarrow> claims st' = claims st"
  "lock_proc p st = Inr st' \<Longrightarrow> claims st' = claims st" "unlock_proc p st = Inr st' \<Longrightarrow> claims st' = claims st"
  by (auto simp: lock_thread_def unlock_thread_def lock_threads_def unlock_threads_def lock_proc_def unlock_proc_def split: if_splits)

lemma setStatus_claims: "setStatus s th = Inr th' \<Longrightarrow> m_joiner th' = m_joiner th \<and> m_detached th' = m_detached th"
  by (auto simp: setStatus_def split: if_splits)

lemma claims_wake_joiner: "wake_joiner j st = Inr st' \<Longrightarrow> claims st' = claims st"
  unfolding wake_joiner_def by (auto simp: res_bind_Inr_iff dest!: claims_locks setStatus_claims)

lemma claims_finish:
  assumes "thread_finish t st = Inr st'"
  shows "claims st' = claims st"
proof -
  have "unassoc p t a = Inr b \<Longrightarrow> claims b = claims a" for p a b
    unfolding unassoc_def by (auto simp: res_bind_Inr_iff split: option.splits dest!: claims_locks)
  moreover have "exit_if_last p a = Inr (r, b) \<Longrightarrow> claims b = claims a" for p a r b
    unfolding exit_if_last_def Process_exit_def by (auto simp: res_bind_Inr_iff split: if_splits dest!: claims_locks)
  ultimately show ?thesis using assms unfolding thread_finish_def Let_def
    by (fastforce simp: res_bind_Inr_iff split: if_splits)
qed

lemmas claims_dest = claims_locks claims_wake_joiner claims_finish

lemma claims_fields: "claims a = claims b \<Longrightarrow> m_joiner (kthreads a t) = m_joiner (kthreads b t) \<and> m_detached (kthreads a t) = m_detached (kthreads b t)"
  by (metis claims_def fst_conv snd_conv)

lemma finished_around: "same_life st a \<Longrightarrow> thread_finish t a = Inr b \<Longrightarrow> same_life b st' \<Longrightarrow> finished t st st'"
  by (auto simp: finished_def)

text \<open>What the methods do, with the claims that decide it.\<close>

lemma join_cases:
  assumes "thread_join t st = Inr (r, st')"
  shows "(\<exists>e. r = Joined e \<and> e \<noteq> ENONE) \<and> keeps st st'
    \<or> claims st t = (None, False) \<and> r = Joined ENONE \<and> finished t st st' \<and> claims st' = claims st
    \<or> claims st t = (None, False) \<and> (\<exists>saved. r = Waits saved) \<and> same_life st st' \<and> claims st' = (claims st)(t := (Some (current st), False))"
proof -
  obtain a where a: "lock_thread t st = Inr a" using assms by (auto simp: thread_join_def Let_def res_bind_Inr_iff)
  note L = same_life_locks(1) [OF a] and C = claims_locks(1) [OF a]
  have cur: "current a = current st" using L by (simp add: same_life_def)
  note run = assms [unfolded thread_join_def Let_def a, simplified]
  consider (busy) "m_detached (kthreads a t) \<or> m_joiner (kthreads a t) \<noteq> None \<or> t = current st \<or> m_joiner (kthreads a (current st)) = Some t"
    | (dead) "\<not> m_detached (kthreads a t)" "m_joiner (kthreads a t) = None" "t \<noteq> current st" "m_joiner (kthreads a (current st)) \<noteq> Some t"
        "status (kthreads (upd_thread (current st) addBusy a) t) = TS_DEAD"
    | (wait) "\<not> m_detached (kthreads a t)" "m_joiner (kthreads a t) = None" "t \<noteq> current st" "m_joiner (kthreads a (current st)) \<noteq> Some t"
        "status (kthreads (upd_thread (current st) addBusy a) t) \<noteq> TS_DEAD" by blast
  then show ?thesis
  proof cases
    case busy
    then obtain e where e: "r = Joined e" "e \<noteq> ENONE" "unlock_thread t a = Inr st'"
      using run by (auto simp: res_bind_Inr_iff split: if_splits)
    then show ?thesis using L C same_life_locks(2) [OF e(3)] claims_locks(2) [OF e(3)] same_life_trans by (auto simp: keeps_def)
  next
    case dead
    then obtain b where b: "thread_finish t (upd_thread (current st) addBusy a) = Inr b" "unlock_thread t (upd_thread (current st) subBusy b) = Inr st'"
        "r = Joined ENONE" using run by (auto simp: res_bind_Inr_iff)
    have "finished t st st'" by (rule finished_around [OF _ b(1)]) (use L same_life_locks(2) [OF b(2)] in simp_all)
    then show ?thesis using dead(1,2) C claims_finish [OF b(1)] claims_locks(2) [OF b(2)] b(3) claims_fields [OF C, of t]
      by (simp add: claims_def [of st t])
  next
    case wait
    let ?b = "upd_thread t (\<lambda>th. th\<lparr>m_joiner := Some (current st)\<rparr>) (upd_thread (current st) addBusy a)"
    obtain th saved where b: "setStatus TS_BLOCKED (kthreads ?b (current st)) = Inr th" "unlock_thread t (upd_thread (current st) (\<lambda>_. th) ?b) = Inr st'"
        "r = Waits saved" using run wait by (auto simp: res_bind_Inr_iff)
    have "same_life st st'" using same_life_trans [OF L] same_life_locks(2) [OF b(2)] setStatus_parent [OF b(1)] by simp
    moreover have "claims ?b = (claims a)(t := (Some (current st), False))"
      using wait(1,3) by (auto simp: claims_def upd_thread_def)
    then have "claims st' = (claims st)(t := (Some (current st), False))"
      using claims_locks(2) [OF b(2)] setStatus_claims [OF b(1)] C by simp
    ultimately show ?thesis using wait(1,2) b(3) claims_fields [OF C, of t] by (simp add: claims_def [of st t])
  qed
qed

lemma detach_cases:
  assumes "thread_detach t st = Inr (e, st')"
  shows "e \<noteq> ENONE \<and> keeps st st'
    \<or> claims st t = (None, False) \<and> e = ENONE \<and> (finished t st st' \<or> same_life st st') \<and> claims st' = (claims st)(t := (None, True))"
proof -
  obtain a where a: "lock_thread t st = Inr a" using assms by (auto simp: thread_detach_def res_bind_Inr_iff)
  note L = same_life_locks(1) [OF a] and C = claims_locks(1) [OF a]
  note run = assms [unfolded thread_detach_def a, simplified]
  show ?thesis
  proof (cases "m_detached (kthreads a t) \<or> m_joiner (kthreads a t) \<noteq> None")
    case True
    then have e: "e = EINVAL" "unlock_thread t a = Inr st'" using run by (auto simp: res_bind_Inr_iff)
    then show ?thesis using L C same_life_locks(2) [OF e(2)] claims_locks(2) [OF e(2)] same_life_trans by (auto simp: keeps_def)
  next
    case False
    then obtain b where b: "(if status (kthreads a t) = TS_DEAD then thread_finish t a else Inr a) = Inr b"
        "unlock_thread t (upd_thread t (\<lambda>th. th\<lparr>m_detached := True\<rparr>) b) = Inr st'" "e = ENONE" using run by (auto simp: res_bind_Inr_iff)
    have cb: "claims b = claims a" using b(1) claims_finish by (auto split: if_splits)
    have "claims st' = (claims b)(t := (m_joiner (kthreads b t), True))"
      unfolding claims_locks(2) [OF b(2)] by (auto simp: claims_def upd_thread_def)
    then have c: "claims st' = (claims st)(t := (None, True))" using False C cb claims_fields [OF cb, of t] by simp
    have s: "same_life b st'" using same_life_locks(2) [OF b(2)] by simp
    have "finished t st st' \<or> same_life st st'"
      using b(1) finished_around [OF L _ s] same_life_trans [OF L] s by (auto split: if_splits)
    then show ?thesis using False c b(3) claims_fields [OF C, of t] by (auto simp: claims_def [of st t])
  qed
qed

lemma resume_cases:
  assumes "thread_join_resume t saved st = Inr (e, st')"
  shows "(finished t st st' \<or> same_life st st') \<and> (\<forall>u. u \<noteq> t \<longrightarrow> claims st' u = claims st u)"
proof -
  obtain a where a: "lock_thread t st = Inr a" using assms by (auto simp: thread_join_resume_def Let_def res_bind_Inr_iff)
  note L = same_life_locks(1) [OF a] and C = claims_locks(1) [OF a]
  have off: "claims (upd_thread t f b) u = claims b u" if "u \<noteq> t" for f b u using that by (simp add: claims_def upd_thread_def)
  have "\<exists>b c. (b = a \<or> b = upd_thread t (\<lambda>th. th\<lparr>m_joiner := None\<rparr>) a) \<and>
      (thread_finish t b = Inr c \<or> c = b \<or> c = upd_thread t (\<lambda>th. th\<lparr>m_detached := True\<rparr>) b) \<and>
      unlock_thread t (upd_thread (current st) (\<lambda>th. subBusy (loadState saved th)) c) = Inr st'"
    using assms unfolding thread_join_resume_def Let_def a
    by (simp add: res_bind_Inr_iff split: if_splits) blast+
  then obtain b c where b: "b = a \<or> b = upd_thread t (\<lambda>th. th\<lparr>m_joiner := None\<rparr>) a"
      and c: "thread_finish t b = Inr c \<or> c = b \<or> c = upd_thread t (\<lambda>th. th\<lparr>m_detached := True\<rparr>) b"
      and u: "unlock_thread t (upd_thread (current st) (\<lambda>th. subBusy (loadState saved th)) c) = Inr st'" by blast
  have sb: "same_life st b" using b L by auto
  have sc: "same_life c st'" using same_life_locks(2) [OF u] by simp
  have "finished t st st' \<or> same_life st st'"
    using c finished_around [OF sb _ sc] same_life_trans [OF sb] sc by auto
  moreover have "claims st' v = claims st v" if "v \<noteq> t" for v
  proof -
    have "claims st' v = claims c v" using claims_locks(2) [OF u] by simp
    also have "\<dots> = claims b v" using c claims_finish off [OF that] by auto
    also have "\<dots> = claims st v" using b C off [OF that] by auto
    finally show ?thesis .
  qed
  ultimately show ?thesis by blast
qed

lemma abort'_cases:
  assumes "thread_abort' force t st = Inr st'"
  shows "claims st' = (claims st)(t := (fst (claims st t), force \<or> snd (claims st t)))
    \<and> (same_life st st' \<or> fst (claims st t) = None \<and> (force \<or> snd (claims st t)) \<and> finished t st st')"
proof -
  define a where "a = upd_thread t (\<lambda>th. th\<lparr>m_aborting := True, m_detached := force \<or> m_detached th\<rparr>) st"
  have L: "same_life st a" by (simp add: a_def)
  have C: "claims a = (claims st)(t := (fst (claims st t), force \<or> snd (claims st t)))"
    by (auto simp: a_def claims_def upd_thread_def)
  have j: "m_joiner (kthreads a t) = fst (claims st t)" "m_detached (kthreads a t) = (force \<or> snd (claims st t))"
    by (auto simp: a_def claims_def upd_thread_def)
  have "claims st' = claims a \<and> same_life a st' \<or> fst (claims st t) = None \<and> (force \<or> snd (claims st t)) \<and>
      (\<exists>x. thread_kill t (upd_thread (current a) addBusy a) = Inr x \<and> st' = upd_thread (current x) subBusy x)"
    using assms unfolding thread_abort'_def a_def [symmetric] Let_def j [symmetric]
    by (auto simp: res_bind_Inr_iff split: if_splits option.splits dest: same_life_dest claims_dest)
  then show ?thesis
  proof
    assume "claims st' = claims a \<and> same_life a st'"
    then show ?thesis using C same_life_trans [OF L] by simp
  next
    assume *: "fst (claims st t) = None \<and> (force \<or> snd (claims st t)) \<and>
      (\<exists>x. thread_kill t (upd_thread (current a) addBusy a) = Inr x \<and> st' = upd_thread (current x) subBusy x)"
    then obtain x th where x: "setStatus TS_DEAD (kthreads (upd_thread (current a) addBusy a) t) = Inr th"
        "thread_finish t (upd_thread t (\<lambda>_. th) (upd_thread (current a) addBusy a)) = Inr x" "st' = upd_thread (current x) subBusy x"
      by (auto simp: thread_kill_def res_bind_Inr_iff)
    have "finished t st st'"
      by (rule finished_around [OF _ x(2)]) (use L x(3) setStatus_parent [OF x(1)] in simp_all)
    moreover have "claims st' = claims a" using claims_finish [OF x(2)] setStatus_claims [OF x(1)] x(3) by simp
    ultimately show ?thesis using * C by simp
  qed
qed

lemma abort_cases:
  assumes "thread_abort force t st = Inr st'"
  shows "claims st' = (claims st)(t := (fst (claims st t), force \<or> snd (claims st t)))
    \<and> (same_life st st' \<or> fst (claims st t) = None \<and> (force \<or> snd (claims st t)) \<and> finished t st st')"
proof -
  obtain a b where run: "lock_thread t st = Inr a" "thread_abort' force t a = Inr b" "unlock_thread t b = Inr st'"
    using assms by (auto simp: thread_abort_def res_bind_Inr_iff)
  note L = same_life_locks(1) [OF run(1)] same_life_locks(2) [OF run(3)] and C = claims_locks(1) [OF run(1)] claims_locks(2) [OF run(3)]
  have "finished t a b \<Longrightarrow> finished t st st'" unfolding finished_def using L same_life_trans by blast
  moreover have "same_life a b \<Longrightarrow> same_life st st'" using L same_life_trans by blast
  ultimately show ?thesis using abort'_cases [OF run(2)] unfolding C(1) C(2) by blast
qed

lemma exit_cases:
  assumes "thread_exit st = Inr st'"
  defines "t \<equiv> current st"
  shows "claims st' = claims st \<and> (same_life st st' \<or> fst (claims st t) = None
    \<and> (snd (claims st t) \<or> thread_counter (kprocs st (t_parent (kthreads st t))) = 1) \<and> finished t st st')"
proof (cases "isBusy (kthreads st t)")
  case True
  then have run: "thread_abort' False t st = Inr st'" using assms(1) by (auto simp: thread_exit_def t_def Let_def res_bind_Inr_iff)
  have "isBusy (kthreads (upd_thread t (\<lambda>th. th\<lparr>m_aborting := True, m_detached := False \<or> m_detached th\<rparr>) st) t)"
    using True by (simp add: upd_thread_def isBusy_def)
  then have "st' = upd_thread t (\<lambda>th. th\<lparr>m_aborting := True, m_detached := False \<or> m_detached th\<rparr>) st"
    using run by (simp add: thread_abort'_def Let_def)
  then show ?thesis by simp
next
  case False
  define a where "a = upd_thread t addCritical st"
  obtain th x where th: "setStatus TS_DEAD (kthreads a t) = Inr th" and
    run: "(case m_joiner th of Some j \<Rightarrow> wake_joiner j (upd_thread t (\<lambda>_. th) a)
        | None \<Rightarrow> if m_detached th \<or> thread_counter (kprocs (upd_thread t (\<lambda>_. th) a) (t_parent th)) = 1
             then thread_finish t (upd_thread t (\<lambda>_. th) a) else Inr (upd_thread t (\<lambda>_. th) a)) = Inr x"
    and st': "st' = upd_thread t subCritical x"
    using assms(1) False unfolding thread_exit_def a_def t_def Let_def by (auto simp: res_bind_Inr_iff)
  let ?b = "upd_thread t (\<lambda>_. th) a"
  have s: "same_life st ?b" using setStatus_parent [OF th] by (simp add: a_def)
  have c: "claims ?b = claims st" using setStatus_claims [OF th] by (simp add: a_def)
  have f: "m_joiner th = fst (claims st t)" "m_detached th = snd (claims st t)" "t_parent th = t_parent (kthreads st t)"
    "thread_counter (kprocs ?b p) = thread_counter (kprocs st p)" for p
    using setStatus_claims [OF th] setStatus_parent [OF th] by (simp_all add: a_def claims_def upd_thread_def)
  have sx: "same_life x st'" "claims st' = claims x" by (simp_all add: st')
  have "claims x = claims ?b" using run claims_dest by (auto split: option.splits if_splits simp del: claims_upd)
  moreover have "same_life ?b x \<or> fst (claims st t) = None
      \<and> (snd (claims st t) \<or> thread_counter (kprocs st (t_parent (kthreads st t))) = 1) \<and> thread_finish t ?b = Inr x"
    using run same_life_dest unfolding f by (auto split: option.splits if_splits simp del: same_life_upd)
  ultimately show ?thesis using c sx same_life_trans [OF s] same_life_trans [OF _ sx(1)] finished_around [OF s _ sx(1)] by metis
qed

subsection \<open>Runs\<close>

text \<open>
  Runs of the kernel, with the threads deleted so far (\<open>ds\<close>), the threads whose creator has yet to settle their fate (\<open>H\<close>), and the threads that
  wait in \<open>join\<close>, each with the thread it waits for (\<open>W\<close>). Any thread may call \<open>join\<close> and \<open>detach\<close> on a thread of \<open>H\<close> that is not
  deleted, be it running, dead, waited for, or finished already: only \<open>m_detached\<close> and \<open>m_joiner\<close> tell them. The pointer is given up once one of these
  calls has returned success, or \<open>join\<close> has returned at all after it waited, and with the last thread of a process. \<open>abort\<close> goes to the
  threads in the vector of a process. The thread that exits is the running one, in the list. No call is made on the only thread of the list; every
  thread made gets a name of its own; the broker deletes the threads in its queue; the processor goes from thread to thread; and
  the other steps of the kernel touch neither the lists nor the joiner or the detachment of a thread.
\<close>

inductive life_run :: "kern \<Rightarrow> tid set \<Rightarrow> tid list \<Rightarrow> tid set \<Rightarrow> (tid \<Rightarrow> (tid \<times> thread_state) option) \<Rightarrow> kern \<Rightarrow> bool" for st0 H0 where
  start: "life_run st0 H0 [] H0 Map.empty st0"
| create: "life_run st0 H0 ds H W st \<Longrightarrow> listed (thread_ring st) = Inr xs \<Longrightarrow> t \<notin> set xs \<union> set (cleanups st) \<union> set (idle_threads st) \<union> set ds \<Longrightarrow>
    thread_create p t False st = Inr st' \<Longrightarrow> life_run st0 H0 ds (insert t H) W st'"
| exit: "life_run st0 H0 ds H W st \<Longrightarrow> listed (thread_ring st) = Inr xs \<Longrightarrow> current st \<in> set xs \<Longrightarrow> xs \<noteq> [current st] \<Longrightarrow>
    thread_exit st = Inr st' \<Longrightarrow>
    H' = (if thread_counter (kprocs st (t_parent (kthreads st (current st)))) = 1 then H - {current st} else H) \<Longrightarrow> life_run st0 H0 ds H' W st'"
| join: "life_run st0 H0 ds H W st \<Longrightarrow> t \<in> H \<Longrightarrow> t \<notin> set ds \<Longrightarrow> listed (thread_ring st) \<noteq> Inr [t] \<Longrightarrow> W (current st) = None \<Longrightarrow>
    thread_join t st = Inr (Joined e, st') \<Longrightarrow> life_run st0 H0 ds (if e = ENONE then H - {t} else H) W st'"
| wait: "life_run st0 H0 ds H W st \<Longrightarrow> t \<in> H \<Longrightarrow> t \<notin> set ds \<Longrightarrow> listed (thread_ring st) \<noteq> Inr [t] \<Longrightarrow> W (current st) = None \<Longrightarrow>
    thread_join t st = Inr (Waits saved, st') \<Longrightarrow> life_run st0 H0 ds H (W(current st \<mapsto> (t, saved))) st'"
| resume: "life_run st0 H0 ds H W st \<Longrightarrow> W (current st) = Some (t, saved) \<Longrightarrow> listed (thread_ring st) \<noteq> Inr [t] \<Longrightarrow>
    thread_join_resume t saved st = Inr (e, st') \<Longrightarrow> life_run st0 H0 ds (H - {t}) (W(current st := None)) st'"
| detach: "life_run st0 H0 ds H W st \<Longrightarrow> t \<in> H \<Longrightarrow> t \<notin> set ds \<Longrightarrow> listed (thread_ring st) \<noteq> Inr [t] \<Longrightarrow>
    thread_detach t st = Inr (e, st') \<Longrightarrow> life_run st0 H0 ds (if e = ENONE then H - {t} else H) W st'"
| abort: "life_run st0 H0 ds H W st \<Longrightarrow> associated st p t \<Longrightarrow> t \<notin> set (idle_threads st) \<Longrightarrow> listed (thread_ring st) \<noteq> Inr [t] \<Longrightarrow>
    thread_abort force t st = Inr st' \<Longrightarrow> life_run st0 H0 ds H W st'"
| cleanup: "life_run st0 H0 ds H W st \<Longrightarrow> broker_queue st = Cleanup t # q \<Longrightarrow> broker_cleanup t (st\<lparr>broker_queue := q\<rparr>) = Inr st' \<Longrightarrow>
    life_run st0 H0 (t # ds) H W st'"
| switch: "life_run st0 H0 ds H W st \<Longrightarrow> life_run st0 H0 ds H W (st\<lparr>current := t\<rparr>)"
| other: "life_run st0 H0 ds H W st \<Longrightarrow> keeps st st' \<Longrightarrow> life_run st0 H0 ds H W st'"

text \<open>
  A thread is waited for by its joiner and nobody else, while it is in the list; and a finished thread is detached unless its
  pointer has been given up.
\<close>

definition held :: "tid list \<Rightarrow> tid set \<Rightarrow> (tid \<Rightarrow> (tid \<times> thread_state) option) \<Rightarrow> tid list \<Rightarrow> kern \<Rightarrow> bool" where
  "held ds H W xs st \<longleftrightarrow> H \<subseteq> set xs \<union> set (cleanups st) \<union> set ds \<and> (\<forall>t \<in> set (cleanups st) \<inter> H. snd (claims st t))
     \<and> (\<forall>c w. W c = Some w \<longrightarrow> fst w \<in> set xs \<and> fst (claims st (fst w)) = Some c)"

definition accounted :: "tid list \<Rightarrow> tid set \<Rightarrow> (tid \<Rightarrow> (tid \<times> thread_state) option) \<Rightarrow> tid list \<Rightarrow> kern \<Rightarrow> bool" where
  "accounted ds H W xs st \<longleftrightarrow> life_inv xs st \<and> set ds \<inter> (set (cleanups st) \<union> set xs) = {} \<and> distinct ds \<and> held ds H W xs st"

lemma life_inv_switch [simp]: "life_inv xs (st\<lparr>current := t\<rparr>) = life_inv xs st"
  by (simp add: life_inv_def associated_def cleanups_def)

lemma life_inv_listed: "life_inv xs st \<Longrightarrow> listed (thread_ring st) = Inr ys \<longleftrightarrow> ys = xs"
  using listed_ring by (auto simp: life_inv_def list_inv_def)

lemma accounted_keeps:
  assumes "accounted ds H W xs st" "same_life st st'" "claims st' = claims st" "H' \<subseteq> H"
  shows "accounted ds H' W xs st'"
  using assms(1,4) same_life_inv [OF assms(2)] same_life_fields(3) [OF assms(2)] unfolding accounted_def held_def assms(3) by auto

lemma accounted_waits: "accounted ds H W xs st \<Longrightarrow> W c = Some w \<Longrightarrow> fst w \<in> set xs \<and> fst (claims st (fst w)) = Some c"
  unfolding accounted_def held_def by blast

text \<open>A call on a listed thread that may finish it, if nobody waits for it but a caller who stops waiting.\<close>

lemma accounted_call:
  assumes acc: "accounted ds H W xs st" and t: "t \<in> set xs" "xs \<noteq> [t]" and call: "same_life st st' \<or> finished t st st'"
    and fin: "\<not> same_life st st' \<Longrightarrow> snd (claims st' t) \<or> t \<notin> H'"
    and claims: "\<And>u. u \<noteq> t \<Longrightarrow> claims st' u = claims st u" and H: "H' \<subseteq> H"
    and W: "\<And>c w. W' c = Some w \<Longrightarrow> fst w \<noteq> t \<and> W c = Some w \<or> fst w = t \<and> same_life st st' \<and> fst (claims st' t) = Some c"
  shows "\<exists>xs'. accounted ds H' W' xs' st'"
proof (cases "same_life st st'")
  case True
  have "t \<notin> set (cleanups st)" using acc t(1) by (auto simp: accounted_def life_inv_def)
  then have "\<forall>u \<in> set (cleanups st) \<inter> H'. snd (claims st' u)"
    using acc H claims unfolding accounted_def held_def by (metis IntD1 IntD2 IntI subsetD)
  moreover have "fst w \<in> set xs \<and> fst (claims st' (fst w)) = Some c" if "W' c = Some w" for c w
    using W [OF that] t(1) claims [of "fst w"] accounted_waits [OF acc, of c w] by auto
  moreover have "H' \<subseteq> set xs \<union> set (cleanups st) \<union> set ds" using acc H unfolding accounted_def held_def by blast
  ultimately have "held ds H' W' xs st'" unfolding held_def same_life_fields(3) [OF True] by blast
  then have "accounted ds H' W' xs st'"
    using acc same_life_inv [OF True] unfolding accounted_def same_life_fields(3) [OF True] by simp
  then show ?thesis ..
next
  case False
  have "live t xs st" using acc t by (simp add: accounted_def live_def)
  moreover obtain a b where ab: "same_life st a" "thread_finish t a = Inr b" "same_life b st'" using call False by (auto simp: finished_def)
  ultimately have "life_inv xs a" by (simp add: live_def same_life_inv)
  note f = finish_effect [OF this t ab(2)]
  have new: "life_inv (remove1 t xs) st'" "cleanups st' = cleanups st @ [t]"
    using f same_life_inv [OF ab(3)] same_life_fields(3) [OF ab(3)] same_life_fields(3) [OF ab(1)] by simp_all
  have "distinct xs" using acc by (simp add: accounted_def life_inv_def list_inv_def is_ring_def cycle_def)
  then have rm: "set (remove1 t xs) = set xs - {t}" by (rule set_remove1_eq)
  note fin = fin [OF False]
  have "t \<notin> set (cleanups st)" using acc t(1) by (auto simp: accounted_def life_inv_def)
  then have "\<forall>u \<in> set (cleanups st') \<inter> H'. snd (claims st' u)"
    using acc H claims fin unfolding accounted_def held_def new(2) by fastforce
  moreover have "fst w \<in> set (remove1 t xs) \<and> fst (claims st' (fst w)) = Some c" if "W' c = Some w" for c w
    using W [OF that] False claims [of "fst w"] accounted_waits [OF acc, of c w] unfolding rm by auto
  moreover have "H' \<subseteq> set (remove1 t xs) \<union> set (cleanups st') \<union> set ds"
    using acc H unfolding rm new(2) accounted_def held_def by auto
  ultimately have "accounted ds H' W' (remove1 t xs) st'"
    using acc new(1) t(1) unfolding accounted_def held_def rm new(2) by auto
  then show ?thesis ..
qed

lemma accounted_listed: "accounted ds H W xs st \<Longrightarrow> listed (thread_ring st) = Inr xs"
  using life_inv_listed [of xs st xs] by (simp add: accounted_def)

lemma accounted_unwaited: "accounted ds H W xs st \<Longrightarrow> fst (claims st t) = None \<Longrightarrow> W c = Some w \<Longrightarrow> fst w \<noteq> t"
  using accounted_waits by fastforce

text \<open>A finished thread nobody has given up is detached, so \<open>join\<close> and \<open>detach\<close> refuse it.\<close>

lemma accounted_claimed:
  assumes "accounted ds H W xs st" "t \<in> H" "t \<notin> set ds"
  shows "t \<in> set xs \<or> snd (claims st t)"
  using assms unfolding accounted_def held_def by auto

lemma create_claims:
  assumes "thread_create p t False st = Inr st'"
  shows "claims st' = (claims st)(t := (None, False))"
proof -
  have "assoc p t a = Inr b \<Longrightarrow> claims b = claims a" for a b
    unfolding assoc_def by (auto simp: res_bind_Inr_iff dest!: claims_locks)
  moreover have "claims (upd_thread t (\<lambda>_. new_thread p) st) = (claims st)(t := (None, False))"
    by (auto simp: claims_def upd_thread_def)
  ultimately show ?thesis using assms unfolding thread_create_def by (auto simp: res_bind_Inr_iff dest!: claims_locks)
qed

lemma life_run_accounted:
  assumes "life_run st0 H0 ds H W st" "accounted [] H0 Map.empty xs0 st0"
  shows "\<exists>xs. accounted ds H W xs st"
  using assms
proof (induction rule: life_run.induct)
  case (create ds H W st ys t p st')
  then obtain xs where acc: "accounted ds H W xs st" by blast
  then have [simp]: "ys = xs" using accounted_listed create.hyps(2) by force
  have new: "life_inv (xs @ [t]) st'" "cleanups st' = cleanups st"
    using create_effect [of xs st t p st'] acc create.hyps by (auto simp: accounted_def)
  have "accounted ds (insert t H) W (xs @ [t]) st'"
    using acc new(1) create.hyps(3) accounted_waits [OF acc]
    unfolding accounted_def held_def new(2) create_claims [OF create.hyps(4)] by fastforce
  then show ?case ..
next
  case (exit ds H W st ys st' H')
  then obtain xs where acc: "accounted ds H W xs st" by blast
  then have [simp]: "ys = xs" using accounted_listed exit.hyps(2) by force
  note c = exit_cases [OF exit.hyps(5)]
  show ?case
  proof (cases "same_life st st'")
    case False
    then show ?thesis using c exit.hyps(3,4,6) accounted_unwaited [OF acc]
      by (intro accounted_call [OF acc, of "current st"]) auto
  next
    case True
    have "H' \<subseteq> H" using exit.hyps(6) by auto
    then show ?thesis using c accounted_keeps [OF acc True] by blast
  qed
next
  case (join ds H W st t e st')
  then obtain xs where acc: "accounted ds H W xs st" by blast
  from join_cases [OF join.hyps(6)] show ?case
  proof (elim disjE conjE exE, goal_cases)
    case (1 e')
    then show ?case using accounted_keeps [OF acc, of st' H] by (auto simp: keeps_def)
  next
    case 2
    have "t \<in> set xs" "xs \<noteq> [t]" using accounted_claimed [OF acc join.hyps(2,3)] 2 accounted_listed [OF acc] join.hyps(4) by auto
    then show ?case using 2 accounted_unwaited [OF acc] by (intro accounted_call [OF acc, of t]) auto
  qed simp
next
  case (wait ds H W st t saved st')
  then obtain xs where acc: "accounted ds H W xs st" by blast
  from join_cases [OF wait.hyps(6)] have c: "claims st t = (None, False)" "same_life st st'"
      "claims st' = (claims st)(t := (Some (current st), False))" by auto
  have t: "t \<in> set xs" "xs \<noteq> [t]" using accounted_claimed [OF acc wait.hyps(2,3)] c accounted_listed [OF acc] wait.hyps(4) by auto
  show ?case
    by (rule accounted_call [OF acc t disjI1 [OF c(2)]]) (use c accounted_unwaited [OF acc] in \<open>auto split: if_splits\<close>)
next
  case (resume ds H W st t saved e st')
  then obtain xs where acc: "accounted ds H W xs st" by blast
  have w: "t \<in> set xs" "fst (claims st t) = Some (current st)" using accounted_waits [OF acc resume.hyps(2)] by simp_all
  have "xs \<noteq> [t]" using accounted_listed [OF acc] resume.hyps(3) by auto
  moreover have "fst v \<noteq> t" if "(W(current st := None)) c = Some v" for c v
    using that accounted_waits [OF acc, of c v] w(2) by (auto split: if_splits)
  ultimately show ?case using resume_cases [OF resume.hyps(4)] w(1)
    by (intro accounted_call [OF acc, of t]) (auto split: if_splits)
next
  case (detach ds H W st t e st')
  then obtain xs where acc: "accounted ds H W xs st" by blast
  from detach_cases [OF detach.hyps(5)] show ?case
  proof (elim disjE conjE, goal_cases)
    case 1
    then show ?case using accounted_keeps [OF acc, of st' H] by (auto simp: keeps_def)
  next
    case 2
    have "t \<in> set xs" "xs \<noteq> [t]" using accounted_claimed [OF acc detach.hyps(2,3)] 2 accounted_listed [OF acc] detach.hyps(4) by auto
    then show ?case using 2 accounted_unwaited [OF acc] by (intro accounted_call [OF acc, of t]) auto
  next
    case 3
    have "t \<in> set xs" "xs \<noteq> [t]" using accounted_claimed [OF acc detach.hyps(2,3)] 3 accounted_listed [OF acc] detach.hyps(4) by auto
    then show ?case using 3 accounted_unwaited [OF acc] by (intro accounted_call [OF acc, of t]) auto
  qed
next
  case (abort ds H W st p t force st')
  then obtain xs where acc: "accounted ds H W xs st" by blast
  have t: "t \<in> set xs" "xs \<noteq> [t]"
    using acc abort.hyps(2-4) accounted_listed [OF acc] by (auto simp: accounted_def life_inv_def)
  note c = abort_cases [OF abort.hyps(5)]
  show ?case
    by (rule accounted_call [OF acc t]) (use c accounted_waits [OF acc] in \<open>auto split: if_splits\<close>)
next
  case (cleanup ds H W st t q st')
  then obtain xs where acc: "accounted ds H W xs st" by blast
  then have "life_inv xs st" by (simp add: accounted_def)
  note e = cleanup_effect [OF this cleanup.hyps(2,3)]
  have c: "claims st' = claims st"
    using cleanup.hyps(3) unfolding broker_cleanup_def Let_def by (auto simp: res_bind_Inr_iff dest!: claims_locks)
  have "accounted (t # ds) H W xs st'"
    using acc e(1) unfolding accounted_def held_def e(2) c by (auto simp: life_inv_def e(2))
  then show ?case ..
next
  case (switch ds H W st t)
  then show ?case by (simp add: accounted_def held_def) (simp add: cleanups_def)
next
  case (other ds H W st st')
  then show ?case using accounted_keeps by (metis keeps_def subset_refl)
qed auto

text \<open>A kernel whose vectors of threads have no holes.\<close>

lemma life_inv_vectors:
  assumes "list_inv (idle_threads st) (thread_ring st) xs" "broker_queue st = []" "distinct (idle_threads st)"
    and "\<And>p. p_threads (kprocs st p) = \<lparr>lv_rcount = int (length (filter (\<lambda>t. t_parent (kthreads st t) = p) (xs @ idle_threads st))),
          lv_array = map Some (filter (\<lambda>t. t_parent (kthreads st t) = p) (xs @ idle_threads st))\<rparr>"
    and "\<And>p. thread_counter (kprocs st p) = int (length (filter (\<lambda>t. t_parent (kthreads st t) = p) (xs @ idle_threads st)))"
  shows "life_inv xs st"
proof -
  define ts where "ts p = filter (\<lambda>t. t_parent (kthreads st t) = p) (xs @ idle_threads st)" for p
  define vec where "vec us = \<lparr>lv_rcount = int (length us), lv_array = map Some us\<rparr>" for us :: "tid list"
  have v: "p_threads (kprocs st p) = vec (ts p)" "thread_counter (kprocs st p) = int (length (ts p))" for p
    unfolding ts_def vec_def by (fact assms(4), fact assms(5))
  have d: "distinct (ts p)" "set (ts p) = {t \<in> set xs \<union> set (idle_threads st). t_parent (kthreads st t) = p}" for p
    using assms(1,3) by (auto simp: ts_def list_inv_def is_ring_def cycle_def)
  have look: "lv_lookup (vec us) i = (if i < length us then Some (us ! i) else None)" for i us by (simp add: lv_lookup_def vec_def)
  have "lv_inv (vec us)" for us by (cases "us = []") (simp_all add: vec_def lv_inv_def present_count_def last_map comp_def)
  moreover have "once (lv_lookup (vec us))" if "distinct us" for us
    using that by (auto simp: once_def look nth_eq_iff_index_eq split: if_splits)
  moreover have "ran (lv_lookup (vec us)) = set us" for us
    by (simp add: ran_def look set_conv_nth) (metis option.inject option.distinct(1))
  moreover have "length (ts p) = card {t \<in> set xs \<union> set (idle_threads st). t_parent (kthreads st t) = p}" for p
    using distinct_card [OF d(1)] d(2) by simp
  moreover have "cleanups st = []" using assms(2) by (simp add: cleanups_def)
  ultimately show ?thesis using assms(1) d unfolding life_inv_def associated_def v by simp
qed

text \<open>A kernel with one thread, and a script for it: a thread is made, aborted by force, joined in vain and deleted.\<close>

definition one_ring :: links where
  "one_ring = \<lparr>next_of = [0 \<mapsto> 0], prev_of = [0 \<mapsto> 0], list_size = 1, list_head = Some 0, list_tail = Some 0\<rparr>"

definition one_thread :: kern where
  "one_thread = (let pr = (\<lambda>n. \<lparr>p_pid = 1, p_parent_pid = 0, p_status = TS_RUNNABLE, p_ret_code = 0, m_exiting = False, p_locked = False,
       threads_locked = False, thread_counter = int (length n), p_threads = \<lparr>lv_rcount = int (length n), lv_array = map Some n\<rparr>,
       child_event = new_event, m_signals = []\<rparr>)
     in \<lparr>kthreads = (\<lambda>_. new_thread 1), kprocs = (\<lambda>p. pr (if p = 1 then [0] else [])), thread_ring = one_ring, process_ring = one_ring,
       idle_threads = [], broker_queue = [], current = 0, pid_counter = 3\<rparr>)"

lemma one_thread_inv: "life_inv [0] one_thread" "cleanups one_thread = []"
proof -
  show "life_inv [0] one_thread"
    by (rule life_inv_vectors) (simp_all add: one_thread_def one_ring_def Let_def list_inv_def is_ring_def cycle_def linked_Cons)
qed (simp add: one_thread_def Let_def cleanups_def)

lemma one_thread_script:
  "res_bind (thread_create 1 1 False one_thread) (\<lambda>a. res_bind (thread_abort True 1 a) (\<lambda>b. res_bind (thread_join 1 b) (\<lambda>(r, c).
     res_bind (broker_cleanup 1 (c\<lparr>broker_queue := []\<rparr>)) (\<lambda>d.
       Inr (lv_array (p_threads (kprocs a 1)), listed (thread_ring a), idle_threads a, r, broker_queue c, listed (thread_ring b)))))) =
   Inr ([Some 0, Some 1], Inr [0, 1], [], Joined EINVAL, [Cleanup 1], Inr [0])"
  by code_simp

text \<open>
  C27. Threads are deleted once, and counted exactly. In every run of creating, exiting, joining, detaching and aborting threads and of
  the broker, each thread is in one place: in the list of threads, in the queue of the broker after \<open>finish\<close>, or deleted; nothing is
  finished or deleted twice, although \<open>join\<close> and \<open>detach\<close> are called on threads that are dead, waited for or finished already (see \<open>life_run\<close> for
  what is asked of the callers). A thread that waits in \<open>join\<close> is the joiner of a thread in the list. The list is a ring no idle thread points
  out of, a process has exactly its listed and idle threads in its vector, and
  its \<open>thread_counter\<close> is the number of its threads not deleted yet, which is what \<open>exit\<close> waits for to become zero.
\<close>

theorem threads_deleted_once:
  assumes "life_inv xs0 st0" "cleanups st0 = []" "H0 \<subseteq> set xs0" "life_run st0 H0 ds H W st"
  shows "\<exists>xs. listed (thread_ring st) = Inr xs \<and> list_inv (idle_threads st) (thread_ring st) xs \<and> distinct (ds @ cleanups st @ xs)
    \<and> (\<forall>c t s. W c = Some (t, s) \<longrightarrow> t \<in> set xs \<and> m_joiner (kthreads st t) = Some c)
    \<and> (\<forall>p t. associated st p t \<longleftrightarrow> t \<in> set (xs @ idle_threads st) \<and> t_parent (kthreads st t) = p)
    \<and> (\<forall>p. thread_counter (kprocs st p) = int (card {t \<in> set (cleanups st @ xs @ idle_threads st). t_parent (kthreads st t) = p}))"
proof -
  have "accounted [] H0 Map.empty xs0 st0" using assms(1-3) by (auto simp: accounted_def held_def)
  from life_run_accounted [OF assms(4) this] obtain xs where acc: "accounted ds H W xs st" ..
  then have xs: "life_inv xs st" "set ds \<inter> (set (cleanups st) \<union> set xs) = {}" "distinct ds" by (simp_all add: accounted_def)
  then have "list_inv (idle_threads st) (thread_ring st) xs" by (simp add: life_inv_def)
  then have "distinct xs" "listed (thread_ring st) = Inr xs" by (auto simp: list_inv_def is_ring_def cycle_def listed_ring)
  moreover have "t \<in> set xs \<and> m_joiner (kthreads st t) = Some c" if "W c = Some (t, s)" for c t s
    using accounted_waits [OF acc that] by (simp add: claims_def)
  ultimately show ?thesis using xs by (intro exI [of _ xs]) (auto simp: life_inv_def Un_ac)
qed

text \<open>
  Witness of C27: the only thread makes another one and aborts it by force, which finishes it; a \<open>join\<close> of the finished thread
  is refused, and the broker deletes it.
\<close>

theorem threads_deleted_once_witness:
  "\<exists>st. life_run one_thread {0} [1] {0, 1} Map.empty st \<and> distinct ([1] @ cleanups st @ [0]) \<and> listed (thread_ring st) = Inr [0]"
proof -
  obtain a b r c d where run: "thread_create 1 1 False one_thread = Inr a" "thread_abort True 1 a = Inr b" "thread_join 1 b = Inr (r, c)"
      "broker_cleanup 1 (c\<lparr>broker_queue := []\<rparr>) = Inr d"
      and obs: "lv_array (p_threads (kprocs a 1)) = [Some 0, Some 1]" "listed (thread_ring a) = Inr [0, 1]" "idle_threads a = []"
        "r = Joined EINVAL" "broker_queue c = [Cleanup 1]" "listed (thread_ring b) = Inr [0]"
    using one_thread_script unfolding res_bind_Inr_iff by (auto split: prod.splits simp: res_bind_Inr_iff)
  have start: "listed (thread_ring one_thread) = Inr [0]" using life_inv_listed [OF one_thread_inv(1)] by simp
  have 1: "life_run one_thread {0} [] {1, 0} Map.empty a"
    by (rule life_run.create [OF life_run.start start _ run(1)]) (simp add: one_thread_def Let_def cleanups_def)
  have "lv_lookup (p_threads (kprocs a 1)) 1 = Some 1" unfolding lv_lookup_def obs(1) by simp
  then have "associated a 1 1" unfolding associated_def by (rule ranI)
  from life_run.abort [OF 1 this _ _ run(2)] have 2: "life_run one_thread {0} [] {1, 0} Map.empty b" using obs by simp
  have 3: "life_run one_thread {0} [] {1, 0} Map.empty c"
    using life_run.join [OF 2, of 1 EINVAL c] run(3) obs by simp
  have 4: "life_run one_thread {0} [1] {1, 0} Map.empty d" by (rule life_run.cleanup [OF 3 obs(5) run(4)])
  obtain xs where xs: "listed (thread_ring d) = Inr xs" "distinct ([1] @ cleanups d @ xs)"
    using threads_deleted_once [OF one_thread_inv _ 4] by auto
  have "thread_ring d = thread_ring b"
  proof -
    have "same_life b c" using join_cases [OF run(3)] obs(4) by (auto simp: keeps_def)
    moreover have "thread_ring d = thread_ring c"
      using run(4) unfolding broker_cleanup_def Let_def by (auto simp: res_bind_Inr_iff dest!: same_life_locks simp: same_life_def upd_proc_def)
    ultimately show ?thesis by (simp add: same_life_def)
  qed
  then have "xs = [0]" using xs(1) obs(6) by simp
  then show ?thesis using 4 xs by (auto simp: insert_commute)
qed

end
