(* ===== verification/ProcExit.thy ===== *)
theory ProcExit
  imports Threads
begin

text \<open>
  The end of a process (\<open>exit_threaded\<close> in \<open>proc/process.cpp\<close>, \<open>Thread::exit\<close>, \<open>Thread::abort\<close> and \<open>finish\<close> in \<open>proc/thread.cpp\<close>): when all
  its threads go away, and the calls that stop the kernel instead.
\<close>

text \<open>
  After \<open>abort_threads\<close> the threads of a process come back from what they did in the kernel, one after the other: a thread that runs
  holds its lock, leaves with its counters at zero, and exits. The scheduler lets it go, and the broker works off its queue.
\<close>

definition leave :: "tid \<Rightarrow> kern \<Rightarrow> kern res" where
  "leave t st =
     res_bind (thread_exit ((upd_thread t (\<lambda>th. th\<lparr>m_busy := 0, m_critical := 0, t_locked := True\<rparr>) st)\<lparr>current := t\<rparr>)) (\<lambda>st.
     Inr (upd_thread t (\<lambda>th. th\<lparr>t_locked := False\<rparr>) st))"

fun leave_all :: "tid list \<Rightarrow> kern \<Rightarrow> kern res" where
  "leave_all [] st = Inr st"
| "leave_all (t # ts) st = res_bind (leave t st) (leave_all ts)"

fun run_cleanups :: "nat \<Rightarrow> kern \<Rightarrow> kern res" where
  "run_cleanups 0 st = Inr st"
| "run_cleanups (Suc n) st = (case broker_queue st of
     Cleanup t # q \<Rightarrow> res_bind (broker_cleanup t (st\<lparr>broker_queue := q\<rparr>)) (run_cleanups n)
   | _ \<Rightarrow> Inr st)"

definition flag :: "kthread \<Rightarrow> kthread" where
  "flag th = th\<lparr>m_aborting := True, m_detached := True\<rparr>"

lemma abort_busy:
  assumes "\<not> t_locked (kthreads st t)" "isBusy (kthreads st t)" "t \<noteq> current st"
  shows "thread_abort True t st = Inr (upd_thread t flag st)"
proof -
  let ?c = "current st"
  have "(kthreads st)(t := (kthreads st t)\<lparr>t_locked := True, m_aborting := True, m_detached := True, t_locked := False\<rparr>) = (kthreads st)(t := flag (kthreads st t))"
    using assms(1) by (simp add: flag_def)
  then show ?thesis using assms
    by (simp add: thread_abort_def lock_thread_def thread_abort'_def unlock_thread_def upd_thread_def Let_def isBusy_def flag_def fun_upd_twist)
qed

definition flag_all :: "tid list \<Rightarrow> kern \<Rightarrow> kern" where
  "flag_all ts st = st\<lparr>kthreads := \<lambda>u. if u \<in> set ts then flag (kthreads st u) else kthreads st u\<rparr>"

definition threads_of :: "tid option list \<Rightarrow> tid list" where
  "threads_of arr = concat (map (\<lambda>c. case c of None \<Rightarrow> [] | Some t \<Rightarrow> [t]) arr)"

lemma flag_flag [simp]: "flag (flag th) = flag th"
  by (simp add: flag_def)

lemma exit_loop_flags:
  assumes "lv_array (p_threads (kprocs st p)) = us @ cs" "n = length cs"
    and "\<And>t. t \<in> set (threads_of cs) \<Longrightarrow> \<not> t_locked (kthreads st t) \<and> isBusy (kthreads st t) \<and> t \<noteq> current st"
  shows "exit_loop n (int (length us)) p st = Inr (flag_all (threads_of cs) st)"
  using assms
proof (induction n arbitrary: us cs st)
  case 0
  then show ?case by (simp add: flag_all_def threads_of_def)
next
  case (Suc n)
  then obtain c cs' where cs: "cs = c # cs'" by (cases cs) auto
  have at: "lv_array (p_threads (kprocs st p)) ! length us = c" "int (length us) < lv_count (p_threads (kprocs st p))"
    using Suc.prems(1) cs by (simp_all add: lv_count_def nth_append)
  have step: "int (length us) + 1 = int (length (us @ [c]))" by simp
  show ?case
  proof (cases c)
    case None
    then have "exit_loop (Suc n) (int (length us)) p st = exit_loop n (int (length (us @ [c]))) p st"
      using at by (simp add: Let_def lv_present_def add.commute)
    also have "\<dots> = Inr (flag_all (threads_of cs') st)"
      by (rule Suc.IH) (use Suc.prems cs None in \<open>auto simp: threads_of_def\<close>)
    finally show ?thesis using cs None by (simp add: threads_of_def)
  next
    case (Some t)
    let ?st = "upd_thread t flag st"
    have t: "t \<in> set (threads_of cs)" using cs Some by (simp add: threads_of_def)
    have "exit_loop (Suc n) (int (length us)) p st = exit_loop n (int (length (us @ [c]))) p ?st"
      using at Some abort_busy [of st t] Suc.prems(3) [OF t] by (simp add: Let_def lv_present_def add.commute)
    also have "\<dots> = Inr (flag_all (threads_of cs') ?st)"
      by (rule Suc.IH) (use Suc.prems cs Some in \<open>auto simp: threads_of_def upd_thread_def isBusy_def flag_def\<close>)
    also have "flag_all (threads_of cs') ?st = flag_all (threads_of cs) st"
      using cs Some by (auto simp: flag_all_def upd_thread_def threads_of_def fun_eq_iff)
    finally show ?thesis .
  qed
qed

lemma abort_threads_flags:
  assumes "\<not> threads_locked (kprocs st p)"
    and "\<And>t. t \<in> set (threads_of (lv_array (p_threads (kprocs st p)))) \<Longrightarrow> \<not> t_locked (kthreads st t) \<and> isBusy (kthreads st t) \<and> t \<noteq> current st"
  shows "abort_threads p st = Inr (flag_all (threads_of (lv_array (p_threads (kprocs st p)))) st)"
proof -
  let ?ts = "threads_of (lv_array (p_threads (kprocs st p)))"
  let ?a = "upd_thread (current st) addCritical (upd_proc p (\<lambda>pr. pr\<lparr>threads_locked := True\<rparr>) st)"
  have a: "lock_threads p st = Inr ?a" using assms(1) by (simp add: lock_threads_def upd_proc_def)
  have pa: "p_threads (kprocs ?a p) = p_threads (kprocs st p)" by (simp add: upd_thread_def upd_proc_def)
  have "exit_loop (length (lv_array (p_threads (kprocs ?a p)))) (int (length ([] :: tid option list))) p ?a = Inr (flag_all ?ts ?a)"
    unfolding pa by (rule exit_loop_flags) (use assms(2) pa in \<open>auto simp: upd_thread_def upd_proc_def isBusy_def addCritical_def\<close>)
  moreover have "unlock_threads p (flag_all ?ts ?a) = Inr (flag_all ?ts st)"
    using assms by (auto simp: unlock_threads_def flag_all_def upd_thread_def upd_proc_def fun_eq_iff)
  ultimately show ?thesis using a by (simp add: abort_threads_def)
qed

lemma upd_same [simp]:
  "upd_thread t subCritical (upd_proc p f (upd_thread t addCritical st)) = upd_proc p f st"
  "upd_thread t subCritical (upd_thread t addCritical st) = st"
  by (simp_all add: upd_thread_def upd_proc_def)

lemma unassoc_runs:
  assumes "lv_inv (p_threads (kprocs st p))" "associated st p t" "\<not> threads_locked (kprocs st p)"
  shows "\<exists>v. unassoc p t st = Inr (upd_proc p (\<lambda>pr. pr\<lparr>p_threads := v\<rparr>) st)"
proof -
  let ?v = "p_threads (kprocs st p)"
  let ?a = "upd_thread (current st) addCritical (upd_proc p (\<lambda>pr. pr\<lparr>threads_locked := True\<rparr>) st)"
  have a: "lock_threads p st = Inr ?a" using assms(3) by (simp add: lock_threads_def)
  have pa: "p_threads (kprocs ?a p) = ?v" by (simp add: upd_thread_def upd_proc_def)
  have "find_thread t (lv_array ?v) \<noteq> None"
    using assms(2) find_thread_spec [of t "lv_array ?v"]
    by (auto simp: associated_def ran_def lv_lookup_def split: option.splits if_splits) (metis nth_mem)
  then obtain i where i: "find_thread t (lv_array ?v) = Some i" by blast
  then have at: "i < length (lv_array ?v)" "lv_array ?v ! i = Some t" using find_thread_spec [of t "lv_array ?v"] by auto
  obtain v where v: "lv_erase (int i) ?v = Inr v" using lv_erase_effect [OF at(1)] assms(1) at(2) by (auto simp: lv_inv_def)
  have "unlock_threads p (upd_proc p (\<lambda>pr. pr\<lparr>p_threads := v\<rparr>) ?a) = Inr (upd_proc p (\<lambda>pr. pr\<lparr>p_threads := v\<rparr>) st)"
    using assms(3) by (simp add: unlock_threads_def upd_thread_def upd_proc_def)
  then show ?thesis using a i v pa by (intro exI [of _ v]) (simp add: unassoc_def)
qed

lemma Process_exit_again:
  assumes "m_exiting (kprocs st p)" "\<not> p_locked (kprocs st p)"
  shows "Process_exit rc p st = Inr (True, st)"
  using assms by (simp add: Process_exit_def lock_proc_def unlock_proc_def upd_thread_def upd_proc_def)

text \<open>A thread of a process that is exiting can be finished; beside the lists nothing is changed.\<close>

lemma finish_runs:
  assumes "live t xs st" "status (kthreads st t) = TS_DEAD" "held_mutexes (kthreads st t) = 0" "p = t_parent (kthreads st t)"
    and "m_exiting (kprocs st p)" "\<not> p_locked (kprocs st p)" "\<not> threads_locked (kprocs st p)"
  shows "\<exists>v l. thread_finish t st = Inr (broker (Cleanup t) ((upd_proc p (\<lambda>pr. pr\<lparr>p_threads := v\<rparr>) st)\<lparr>thread_ring := l\<rparr>))"
proof -
  let ?a = "upd_thread (current st) addCritical st"
  have fa: "status (kthreads ?a t) = TS_DEAD" "held_mutexes (kthreads ?a t) = 0" "t_parent (kthreads ?a t) = p" "kprocs ?a = kprocs st"
    using assms by (auto simp: upd_thread_def addCritical_def)
  have inv: "life_inv xs ?a" using assms(1) same_life_inv [of st ?a xs] by (simp add: live_def)
  then have "lv_inv (p_threads (kprocs ?a p))" "associated ?a p t" using fa(3) assms(1) by (auto simp: life_inv_def live_def)
  then obtain v where v: "unassoc p t ?a = Inr (upd_proc p (\<lambda>pr. pr\<lparr>p_threads := v\<rparr>) ?a)"
    using unassoc_runs [of ?a p t] assms(7) fa(4) by auto
  let ?b = "upd_proc p (\<lambda>pr. pr\<lparr>p_threads := v\<rparr>) ?a"
  obtain l where l: "remove_thread (idle_threads ?a) 0 t (thread_ring ?a) = Inr l"
    using link_op_inv [of "idle_threads ?a" "thread_ring ?a" xs "Remove t"] inv assms(1) by (auto simp: life_inv_def live_def)
  have b: "thread_ring ?b = thread_ring ?a" "idle_threads ?b = idle_threads ?a" "kthreads ?b = kthreads ?a" "current ?b = current st"
    by (simp_all add: upd_proc_def upd_thread_def)
  have "exit_if_last p (?b\<lparr>thread_ring := l\<rparr>) = Inr (True, ?b\<lparr>thread_ring := l\<rparr>)"
    using Process_exit_again [of "?b\<lparr>thread_ring := l\<rparr>" p] assms(5,6) fa(4) by (simp add: exit_if_last_def upd_proc_def)
  then have "thread_finish t st = Inr (upd_thread (current st) subCritical (broker (Cleanup t) (?b\<lparr>thread_ring := l\<rparr>)))"
    using fa v l b unfolding thread_finish_def Let_def by simp
  also have "upd_thread (current st) subCritical (broker (Cleanup t) (?b\<lparr>thread_ring := l\<rparr>)) =
      broker (Cleanup t) ((upd_proc p (\<lambda>pr. pr\<lparr>p_threads := v\<rparr>) st)\<lparr>thread_ring := l\<rparr>)"
    by (simp add: broker_def upd_proc_def upd_thread_def)
  finally show ?thesis by blast
qed

text \<open>A thread that was flagged and leaves the kernel, with its counters at zero.\<close>

definition leaving :: "tid \<Rightarrow> kern \<Rightarrow> bool" where
  "leaving t st \<longleftrightarrow> (let th = kthreads st t; pr = kprocs st (t_parent th) in
     t_locked th \<and> m_busy th = 0 \<and> m_critical th = 0 \<and> m_detached th \<and> m_joiner th = None \<and> m_pending_signals th = []
     \<and> held_mutexes th = 0 \<and> m_exiting pr \<and> \<not> p_locked pr \<and> \<not> threads_locked pr)"

lemma exit_runs:
  assumes "live (current st) xs st" "leaving (current st) st"
  shows "\<exists>v l. thread_exit st = Inr (broker (Cleanup (current st)) ((upd_proc (t_parent (kthreads st (current st))) (\<lambda>pr. pr\<lparr>p_threads := v\<rparr>)
      (upd_thread (current st) (\<lambda>th. th\<lparr>status := TS_DEAD\<rparr>) st))\<lparr>thread_ring := l\<rparr>))"
proof -
  let ?t = "current st" and ?p = "t_parent (kthreads st (current st))"
  define a where "a = upd_thread ?t (\<lambda>th. (addCritical th)\<lparr>status := TS_DEAD\<rparr>) st"
  have th: "\<not> isBusy (kthreads st ?t)" "t_locked (kthreads st ?t)" "m_pending_signals (kthreads st ?t) = []"
    "setStatus TS_DEAD (addCritical (kthreads st ?t)) = Inr (kthreads a ?t)" "m_joiner (kthreads a ?t) = None" "m_detached (kthreads a ?t)"
    using assms(2) by (simp_all add: leaving_def isBusy_def setStatus_def addCritical_def a_def upd_thread_def Let_def)
  have run: "thread_exit st = res_bind (thread_finish ?t a) (\<lambda>st. let st = upd_thread ?t subCritical st in
      res_bind (res_assert (\<not> isCritical (kthreads st ?t))) (\<lambda>_. Inr st))"
    using th by (simp add: thread_exit_def Let_def upd_thread_def a_def)
  have live: "live ?t xs a" using assms(1) live_same [of st a] by (simp add: a_def)
  have "status (kthreads a ?t) = TS_DEAD" "held_mutexes (kthreads a ?t) = 0" "?p = t_parent (kthreads a ?t)"
    "m_exiting (kprocs a ?p)" "\<not> p_locked (kprocs a ?p)" "\<not> threads_locked (kprocs a ?p)"
    using assms(2) by (simp_all add: a_def upd_thread_def leaving_def Let_def addCritical_def)
  from finish_runs [OF live this] obtain v l where
    f: "thread_finish ?t a = Inr (broker (Cleanup ?t) ((upd_proc ?p (\<lambda>pr. pr\<lparr>p_threads := v\<rparr>) a)\<lparr>thread_ring := l\<rparr>))" by blast
  have "upd_thread ?t subCritical (broker (Cleanup ?t) ((upd_proc ?p (\<lambda>pr. pr\<lparr>p_threads := v\<rparr>) a)\<lparr>thread_ring := l\<rparr>)) =
      broker (Cleanup ?t) ((upd_proc ?p (\<lambda>pr. pr\<lparr>p_threads := v\<rparr>) (upd_thread ?t (\<lambda>th. th\<lparr>status := TS_DEAD\<rparr>) st))\<lparr>thread_ring := l\<rparr>)"
    by (simp add: a_def broker_def upd_proc_def upd_thread_def addCritical_def subCritical_def)
  note after = this
  have "\<not> isCritical (kthreads st ?t)" using assms(2) by (simp add: leaving_def isCritical_def Let_def)
  then show ?thesis unfolding run f res_bind_simps Let_def after
    by (intro exI [of _ v] exI [of _ l]) (simp add: isCritical_def broker_def upd_proc_def upd_thread_def)
qed

definition open_proc :: "nat \<Rightarrow> kern \<Rightarrow> bool" where
  "open_proc p st \<longleftrightarrow> m_exiting (kprocs st p) \<and> \<not> p_locked (kprocs st p) \<and> \<not> threads_locked (kprocs st p)"

definition doomed :: "nat \<Rightarrow> kthread \<Rightarrow> bool" where
  "doomed p th \<longleftrightarrow> t_parent th = p \<and> \<not> t_locked th \<and> m_detached th \<and> m_joiner th = None \<and> m_pending_signals th = [] \<and> held_mutexes th = 0"

lemma leave_runs:
  assumes "live t xs st" "doomed p (kthreads st t)" "open_proc p st"
  shows "\<exists>st'. leave t st = Inr st' \<and> life_inv (remove1 t xs) st' \<and> broker_queue st' = broker_queue st @ [Cleanup t] \<and> open_proc p st'
    \<and> (\<forall>u. u \<noteq> t \<longrightarrow> kthreads st' u = kthreads st u) \<and> t_parent (kthreads st' t) = p \<and> \<not> t_locked (kthreads st' t)
    \<and> idle_threads st' = idle_threads st"
proof -
  define a where "a = (upd_thread t (\<lambda>th. th\<lparr>m_busy := 0, m_critical := 0, t_locked := True\<rparr>) st)\<lparr>current := t\<rparr>"
  have fa: "current a = t" "leaving (current a) a" "t_parent (kthreads a t) = p"
    using assms(2,3) by (simp_all add: a_def upd_thread_def leaving_def doomed_def open_proc_def Let_def)
  have "life_inv xs a" using assms(1) same_life_inv [OF same_life_upd_right(1) [THEN iffD2, OF _ same_life_refl]] by (simp add: a_def live_def)
  then have la: "live (current a) xs a" using assms(1) fa(1) by (simp add: live_def)
  obtain v l where run: "thread_exit a = Inr (broker (Cleanup t) ((upd_proc p (\<lambda>pr. pr\<lparr>p_threads := v\<rparr>)
      (upd_thread t (\<lambda>th. th\<lparr>status := TS_DEAD\<rparr>) a))\<lparr>thread_ring := l\<rparr>))" (is "_ = Inr ?b")
    using exit_runs [OF la fa(2)] fa by auto
  let ?c = "upd_thread t (\<lambda>th. th\<lparr>t_locked := False\<rparr>) ?b"
  have "ends t xs a ?b" using exit_ends [OF la run] fa(1) by simp
  then have "life_inv (remove1 t xs) ?b" by (simp add: ends_def broker_def upd_proc_def upd_thread_def cleanups_def)
  then have "life_inv (remove1 t xs) ?c" using same_life_inv [of ?b ?c] by simp
  moreover have "leave t st = Inr ?c" using run by (simp add: leave_def a_def)
  moreover have "broker_queue ?c = broker_queue st @ [Cleanup t]" "t_parent (kthreads ?c t) = p" "\<not> t_locked (kthreads ?c t)"
    "open_proc p ?c" "idle_threads ?c = idle_threads st" using assms(2,3) by (simp_all add: broker_def upd_proc_def upd_thread_def a_def doomed_def open_proc_def)
  moreover have "\<forall>u. u \<noteq> t \<longrightarrow> kthreads ?c u = kthreads st u" by (simp add: broker_def upd_proc_def upd_thread_def a_def)
  ultimately show ?thesis by blast
qed

lemma leave_all_runs:
  assumes "life_inv xs st" "set ts \<subseteq> set xs" "distinct ts" "k \<in> set xs" "k \<notin> set ts" "open_proc p st"
    and "\<And>t. t \<in> set ts \<Longrightarrow> doomed p (kthreads st t)"
  shows "\<exists>st'. leave_all ts st = Inr st' \<and> life_inv (fold remove1 ts xs) st' \<and> broker_queue st' = broker_queue st @ map Cleanup ts \<and> open_proc p st'
    \<and> (\<forall>u. u \<notin> set ts \<longrightarrow> kthreads st' u = kthreads st u) \<and> (\<forall>t \<in> set ts. t_parent (kthreads st' t) = p \<and> \<not> t_locked (kthreads st' t))
    \<and> idle_threads st' = idle_threads st"
  using assms
proof (induction ts arbitrary: xs st)
  case (Cons t ts)
  have "xs \<noteq> [t]" using Cons.prems(4,5) by auto
  then have "live t xs st" using Cons.prems(1,2) by (simp add: live_def)
  from leave_runs [OF this Cons.prems(7) Cons.prems(6)] obtain st1 where st1: "leave t st = Inr st1" "life_inv (remove1 t xs) st1"
      "broker_queue st1 = broker_queue st @ [Cleanup t]" "open_proc p st1" "\<forall>u. u \<noteq> t \<longrightarrow> kthreads st1 u = kthreads st u"
      "t_parent (kthreads st1 t) = p" "\<not> t_locked (kthreads st1 t)" "idle_threads st1 = idle_threads st" by auto
  have "distinct xs" using Cons.prems(1) by (simp add: life_inv_def list_inv_def is_ring_def cycle_def)
  then have set1: "set (remove1 t xs) = set xs - {t}" by (rule set_remove1_eq)
  have "doomed p (kthreads st1 u)" if "u \<in> set ts" for u
  proof -
    have "u \<noteq> t" using that Cons.prems(3) by auto
    then show ?thesis using that st1(5) Cons.prems(7) [of u] by simp
  qed
  then obtain st' where st': "leave_all ts st1 = Inr st'" "life_inv (fold remove1 ts (remove1 t xs)) st'"
      "broker_queue st' = broker_queue st1 @ map Cleanup ts" "open_proc p st'" "\<forall>u. u \<notin> set ts \<longrightarrow> kthreads st' u = kthreads st1 u"
      "\<forall>t \<in> set ts. t_parent (kthreads st' t) = p \<and> \<not> t_locked (kthreads st' t)" "idle_threads st' = idle_threads st1"
    using Cons.IH [OF st1(2) _ _ _ _ st1(4)] Cons.prems(2-5) by (auto simp: set1)
  have "t \<notin> set ts" using Cons.prems(3) by simp
  then show ?case using st1 st' by (intro exI [of _ st']) auto
qed simp

lemma cleanup_runs:
  assumes "p = t_parent (kthreads st t)" "\<not> threads_locked (kprocs st p)" "\<not> t_locked (kthreads st t)"
  shows "broker_cleanup t st = Inr (upd_proc p (\<lambda>pr. pr\<lparr>thread_counter := thread_counter pr - 1\<rparr>) st)"
  using assms by (cases "t = current st")
    (simp_all add: broker_cleanup_def lock_threads_def lock_thread_def unlock_thread_def unlock_threads_def upd_thread_def upd_proc_def Let_def fun_upd_twist addCritical_def subCritical_def)

lemma run_cleanups_runs:
  assumes "life_inv xs st" "broker_queue st = map Cleanup ts" "\<not> threads_locked (kprocs st p)"
    and "\<And>t. t \<in> set ts \<Longrightarrow> t_parent (kthreads st t) = p \<and> \<not> t_locked (kthreads st t)"
  shows "\<exists>st'. run_cleanups (length ts) st = Inr st' \<and> life_inv xs st' \<and> broker_queue st' = [] \<and> kthreads st' = kthreads st
    \<and> idle_threads st' = idle_threads st"
  using assms
proof (induction ts arbitrary: st)
  case (Cons t ts)
  let ?st = "st\<lparr>broker_queue := map Cleanup ts\<rparr>" and ?f = "\<lambda>pr. pr\<lparr>thread_counter := thread_counter pr - 1\<rparr>"
  have run: "broker_cleanup t ?st = Inr (upd_proc p ?f ?st)" using cleanup_runs [of p ?st t] Cons.prems(3,4) by simp
  have q: "broker_queue st = Cleanup t # map Cleanup ts" using Cons.prems(2) by simp
  have "life_inv xs (upd_proc p ?f ?st)" by (rule cleanup_effect [OF Cons.prems(1) q run])
  then obtain st' where "run_cleanups (length ts) (upd_proc p ?f ?st) = Inr st'" "life_inv xs st'" "broker_queue st' = []"
      "kthreads st' = kthreads st" "idle_threads st' = idle_threads st"
    using Cons.IH [of "upd_proc p ?f ?st"] Cons.prems(3,4) by (auto simp: upd_proc_def)
  then show ?case using q run by simp
qed simp

lemma fold_remove1: "distinct xs \<Longrightarrow> fold remove1 ts xs = filter (\<lambda>t. t \<notin> set ts) xs"
proof (induction ts arbitrary: xs)
  case (Cons t ts)
  then have "fold remove1 ts (remove1 t xs) = filter (\<lambda>u. u \<notin> set ts) (filter (\<lambda>u. t \<noteq> u) xs)"
    by (simp add: distinct_remove1_removeAll removeAll_filter_not_eq)
  also have "\<dots> = filter (\<lambda>u. u \<notin> set (t # ts)) xs" by (auto intro: filter_cong)
  finally show ?case by simp
qed simp

lemma threads_of_set: "set (threads_of (lv_array v)) = ran (lv_lookup v)"
proof -
  have "t \<in> set (threads_of arr) \<longleftrightarrow> Some t \<in> set arr" for t arr by (auto simp: threads_of_def split: option.splits)
  then show ?thesis by (auto simp: ran_def lv_lookup_def in_set_conv_nth)
qed




subsection \<open>Calls that stop the kernel\<close>

lemma abort_idle:
  assumes "threads_locked (kprocs st (t_parent (kthreads st t)))" "\<not> t_locked (kthreads st t)" "\<not> isBusy (kthreads st t)"
    and "m_joiner (kthreads st t) = None" "t \<noteq> current st"
  shows "thread_abort True t st = Inl KPanic"
proof -
  have "m_busy (kthreads st t) = 0" using assms(3) by (simp add: isBusy_def word_neq_0_conv [symmetric])
  then show ?thesis using assms by (simp add: thread_abort_def lock_thread_def thread_abort'_def thread_kill_def setStatus_def thread_finish_def unassoc_def lock_threads_def
      upd_thread_def Let_def isBusy_def)
qed

lemma exit_loop_panics:
  assumes "lv_array (p_threads (kprocs st p)) = us @ cs" "n = length cs" "threads_locked (kprocs st p)"
    and "\<And>t. t \<in> set (threads_of cs) \<Longrightarrow> t_parent (kthreads st t) = p \<and> \<not> t_locked (kthreads st t) \<and> m_joiner (kthreads st t) = None \<and> t \<noteq> current st"
    and "t \<in> set (threads_of cs)" "\<not> isBusy (kthreads st t)"
  shows "exit_loop n (int (length us)) p st = Inl KPanic"
  using assms
proof (induction n arbitrary: us cs st)
  case 0
  then show ?case by (simp add: threads_of_def)
next
  case (Suc n)
  then obtain c cs' where cs: "cs = c # cs'" by (cases cs) auto
  have at: "lv_array (p_threads (kprocs st p)) ! length us = c" "int (length us) < lv_count (p_threads (kprocs st p))"
    using Suc.prems(1) cs by (simp_all add: lv_count_def nth_append)
  show ?case
  proof (cases c)
    case None
    then have "exit_loop (Suc n) (int (length us)) p st = exit_loop n (int (length (us @ [c]))) p st"
      using at by (simp add: Let_def lv_present_def add.commute)
    also have "\<dots> = Inl KPanic" by (rule Suc.IH) (use Suc.prems cs None in \<open>auto simp: threads_of_def\<close>)
    finally show ?thesis .
  next
    case (Some u)
    have u: "t_parent (kthreads st u) = p" "\<not> t_locked (kthreads st u)" "m_joiner (kthreads st u) = None" "u \<noteq> current st"
      using Suc.prems(4) [of u] cs Some by (simp_all add: threads_of_def)
    have step: "exit_loop (Suc n) (int (length us)) p st = res_bind (thread_abort True u st) (exit_loop n (int (length (us @ [c]))) p)"
      using at Some by (simp add: Let_def lv_present_def add.commute)
    show ?thesis
    proof (cases "isBusy (kthreads st u)")
      case False
      then show ?thesis using step abort_idle [of st u] u Suc.prems(3) by simp
    next
      case True
      have "exit_loop n (int (length (us @ [c]))) p (upd_thread u flag st) = Inl KPanic"
        by (rule Suc.IH) (use Suc.prems cs Some True in \<open>auto simp: threads_of_def upd_thread_def flag_def\<close>)
      then show ?thesis using step abort_busy [OF u(2) True u(4)] by simp
    qed
  qed
qed



text \<open>The last thread of a process may not exit on its own: \<open>Process::exit\<close> yields in a thread that is critical.\<close>

lemma last_thread_exit_panics:
  assumes "live (current st) xs st" "leaving (current st) (upd_proc (t_parent (kthreads st (current st))) (\<lambda>pr. pr\<lparr>m_exiting := True\<rparr>) st)"
    and "thread_counter (kprocs st (t_parent (kthreads st (current st)))) = 1" "\<not> m_exiting (kprocs st (t_parent (kthreads st (current st))))"
    and "\<not> m_aborting (kthreads st (current st))"
  shows "thread_exit st = Inl AssertFailed"
proof -
  let ?t = "current st" and ?p = "t_parent (kthreads st (current st))"
  define a where "a = upd_thread ?t (\<lambda>th. (addCritical th)\<lparr>status := TS_DEAD\<rparr>) st"
  define b where "b = upd_thread ?t addCritical a"
  have th: "t_locked (kthreads st ?t)" "m_busy (kthreads st ?t) = 0" "m_critical (kthreads st ?t) = 0" "m_detached (kthreads st ?t)"
    "m_joiner (kthreads st ?t) = None" "m_pending_signals (kthreads st ?t) = []" "held_mutexes (kthreads st ?t) = 0"
    "\<not> p_locked (kprocs st ?p)" "\<not> threads_locked (kprocs st ?p)"
    using assms(2) by (simp_all add: leaving_def Let_def upd_proc_def)
  have run: "thread_exit st = res_bind (thread_finish ?t a) (\<lambda>st. let st = upd_thread ?t subCritical st in
      res_bind (res_assert (\<not> isCritical (kthreads st ?t))) (\<lambda>_. Inr st))"
    using th by (simp add: thread_exit_def Let_def upd_thread_def a_def isBusy_def setStatus_def addCritical_def)
  have fb: "current a = ?t" "t_parent (kthreads b ?t) = ?p" "kprocs b = kprocs st" "m_critical (kthreads b ?t) = 2" "status (kthreads b ?t) = TS_DEAD"
    "held_mutexes (kthreads b ?t) = 0" "\<not> m_aborting (kthreads b ?t)" "current b = ?t"
    using th assms(5) by (simp_all add: a_def b_def upd_thread_def addCritical_def)
  have inv: "life_inv xs b" using assms(1) same_life_inv [of st b xs] by (simp add: a_def b_def live_def)
  then have "lv_inv (p_threads (kprocs b ?p))" "associated b ?p ?t" using fb(2) assms(1) by (auto simp: life_inv_def live_def)
  then obtain v where v: "unassoc ?p ?t b = Inr (upd_proc ?p (\<lambda>pr. pr\<lparr>p_threads := v\<rparr>) b)" (is "_ = Inr ?c") using unassoc_runs [of b ?p ?t] th(9) fb(3) by auto
  obtain l where l: "remove_thread (idle_threads b) 0 ?t (thread_ring b) = Inr l"
    using link_op_inv [of "idle_threads b" "thread_ring b" xs "Remove (current st)"] inv assms(1) by (auto simp: life_inv_def live_def)
  have "exit_if_last ?p (?c\<lparr>thread_ring := l\<rparr>) = Inl AssertFailed"
    using th(8) fb assms(3,4)
    by (simp add: exit_if_last_def Process_exit_def lock_proc_def unlock_proc_def broker_def upd_proc_def upd_thread_def isCritical_def addCritical_def subCritical_def)
  then have "thread_finish ?t a = Inl AssertFailed"
    using v l fb(2,5,6) unfolding thread_finish_def Let_def fb(1) b_def [symmetric] by (simp add: upd_proc_def)
  then show ?thesis using run by simp
qed

text \<open>A thread that joins itself, exits with signals pending, or joins a thread that is aborted.\<close>

lemma join_self_panics: "t_locked (kthreads st (current st)) \<Longrightarrow> thread_join (current st) st = Inl KPanic"
  by (simp add: thread_join_def lock_thread_def)

lemma exit_pending_panics: "m_pending_signals (kthreads st (current st)) \<noteq> [] \<Longrightarrow> thread_exit st = Inl AssertFailed"
  by (cases "t_locked (kthreads st (current st))") (simp_all add: thread_exit_def Let_def)

end
