(* ===== verification/Signals.thy ===== *)
theory Signals
  imports Threads
begin

unbundle bit_operations_syntax

text \<open>
  Signals (\<open>ipc/process.cpp\<close>, \<open>ipc/thread.cpp\<close>, \<open>include/aex/ipc/signal.hpp\<close>, \<open>arch/x86_64/ipc/signal.cpp\<close>): the actions of a process, sending a
  signal to a thread, and running a handler. A thread that takes a signal asks the broker to exchange its context, and waits;
  the broker puts the old context aside and lets the thread start in the handler, which ends in \<open>sigret\<close> and another call of the broker.
\<close>

subsection \<open>Actions\<close>

definition SIG_TERM :: u8 where "SIG_TERM = 0"
definition SIG_IGN :: u8 where "SIG_IGN = 1"
definition SIG_CORE :: u8 where "SIG_CORE = 2"
definition SIG_STOP :: u8 where "SIG_STOP = 3"
definition SIG_CONT :: u8 where "SIG_CONT = 4"
definition SIG_DFL :: u8 where "SIG_DFL = 5"
definition SIG_USER :: u8 where "SIG_USER = 6"

lemmas sig_actions = SIG_TERM_def SIG_IGN_def SIG_CORE_def SIG_STOP_def SIG_CONT_def SIG_DFL_def SIG_USER_def

definition SA_SIGINFO :: u32 where "SA_SIGINFO = 1"
definition SA_RESTORER :: u32 where "SA_RESTORER = 2"

definition set_action :: "nat \<times> u8 \<Rightarrow> sigaction list \<Rightarrow> sigaction list" where
  "set_action = (\<lambda>(i, a) sigs. sigs[i := (sigs ! i)\<lparr>action := a\<rparr>])"

text \<open>The assignments of \<open>ipc_init\<close>, in their order.\<close>

definition init_actions :: "(nat \<times> u8) list" where
  "init_actions = [(6, SIG_CORE), (14, SIG_TERM), (7, SIG_CORE), (17, SIG_IGN), (18, SIG_CONT), (8, SIG_CORE), (1, SIG_TERM), (4, SIG_CORE),
     (2, SIG_TERM), (29, SIG_TERM), (9, SIG_TERM), (13, SIG_TERM), (27, SIG_TERM), (30, SIG_TERM), (3, SIG_CORE), (11, SIG_CORE),
     (16, SIG_TERM), (19, SIG_STOP), (20, SIG_STOP), (31, SIG_CORE), (15, SIG_TERM), (5, SIG_CORE), (21, SIG_STOP), (22, SIG_STOP),
     (23, SIG_IGN), (10, SIG_TERM), (12, SIG_TERM), (26, SIG_TERM), (24, SIG_CORE), (25, SIG_CORE), (28, SIG_IGN)]"

definition ipc_init :: "sigaction list \<Rightarrow> sigaction list" where
  "ipc_init sigs = fold set_action init_actions sigs"

text \<open>A new process has all actions zero before \<open>ipc_init\<close>, as it comes from the heap.\<close>

definition zero_sigaction :: sigaction where
  "zero_sigaction = \<lparr>action = 0, handler = 0, restorer = 0, sig_mask = 0, flags = 0\<rparr>"

text \<open>The table \<open>def\<close> that \<open>sigaction\<close> uses for \<open>SIG_DFL\<close>.\<close>

definition default_table :: "u8 list" where
  "default_table =
     [0, SIG_TERM, SIG_TERM, SIG_CORE, SIG_CORE, SIG_CORE, SIG_CORE, SIG_CORE,
      SIG_TERM, SIG_TERM, SIG_CORE, SIG_TERM, SIG_TERM, SIG_TERM, SIG_TERM, SIG_IGN,
      SIG_CONT, SIG_STOP, SIG_STOP, SIG_STOP, SIG_STOP, SIG_IGN, SIG_CORE, SIG_CORE,
      SIG_TERM, SIG_TERM, SIG_IGN, SIG_TERM, SIG_TERM, SIG_CORE, 0, 0]"

definition get_sigaction :: "u8 \<Rightarrow> kproc \<Rightarrow> sigaction option" where
  "get_sigaction sig pr = (if \<not> (1 \<le> sig \<and> sig \<le> 31) then None else Some (m_signals pr ! unat sig))"

definition set_sigaction :: "u8 \<Rightarrow> sigaction \<Rightarrow> kproc \<Rightarrow> error_t \<times> kproc" where
  "set_sigaction sig act pr =
     (if \<not> (1 \<le> sig \<and> sig \<le> 31) then (EINVAL, pr)
      else if sig = 9 \<or> sig = 19 \<or> sig = 18 then (EINVAL, pr)
      else
        let sigs = (m_signals pr)[unat sig := act];
            sigs = (if action act = SIG_DFL then set_action (unat sig, default_table ! unat sig) sigs else sigs)
        in (ENONE, pr\<lparr>m_signals := sigs\<rparr>))"

text \<open>The conversion of what a program passes: an address above the small numbers is a handler.\<close>

record sigaction_usr =
  sa_handler :: u64
  sa_sigaction :: u64
  sa_mask :: u32
  sa_flags :: u32
  sa_restorer :: u64

definition sigaction_of_usr :: "sigaction_usr \<Rightarrow> sigaction" where
  "sigaction_of_usr act =
     (let action_pre = (if sa_flags act AND SA_SIGINFO \<noteq> 0 then sa_sigaction act else sa_handler act)
      in \<lparr>action = ucast (max (min action_pre 6) 0), handler = action_pre, restorer = sa_restorer act, sig_mask = sa_mask act, flags = sa_flags act\<rparr>)"


subsection \<open>Contexts of handlers\<close>

text \<open>What \<open>signal_context\<close> pushes on the stack of the program, which is the only thing it writes there.\<close>

datatype stack_slot = Address u64 | Info siginfo

definition sigret_trampoline_or :: "u64 \<Rightarrow> sigaction \<Rightarrow> u64" where
  "sigret_trampoline_or trampoline act = (if flags act AND SA_RESTORER \<noteq> 0 then restorer act else trampoline)"

definition user_context :: "u64 \<Rightarrow> siginfo \<Rightarrow> sigaction \<Rightarrow> u64 \<Rightarrow> ctx \<Rightarrow> ctx" where
  "user_context stack info act arg c =
     c\<lparr>rip := handler act, rdi := ucast (word_of_int (si_signo info) :: u8), rsi := arg, rsp := stack, reg_cs := 0x23, reg_ss := 0x1B\<rparr>"

definition signal_context :: "u64 \<Rightarrow> siginfo \<Rightarrow> sigaction \<Rightarrow> kthread \<Rightarrow> (u64 \<times> stack_slot) list \<times> kthread" where
  "signal_context trampoline info act th =
     (let stack = saved_stack th - 8 in
      ([(stack, Address (sigret_trampoline_or trampoline act))],
       th\<lparr>context_main := user_context stack info act (rsi (context_main th)) (context_main th)\<rparr>))"

definition signal_context_info :: "u64 \<Rightarrow> siginfo \<Rightarrow> sigaction \<Rightarrow> kthread \<Rightarrow> (u64 \<times> stack_slot) list \<times> kthread" where
  "signal_context_info trampoline info act th =
     (let siginfo_rsp = saved_stack th - 56; stack = siginfo_rsp - 8 in
      ([(siginfo_rsp, Info info), (stack, Address (sigret_trampoline_or trampoline act))],
       th\<lparr>context_main := user_context stack info act siginfo_rsp (context_main th)\<rparr>))"

definition swap_stacks :: "kthread \<Rightarrow> kthread" where
  "swap_stacks th = th\<lparr>kernel_stack := aux_stack th, aux_stack := kernel_stack th,
     kernel_stack_size := aux_stack_size th, aux_stack_size := kernel_stack_size th\<rparr>"


subsection \<open>Delivery\<close>

definition enterSignal :: "tid \<Rightarrow> siginfo \<Rightarrow> kern \<Rightarrow> kern res" where
  "enterSignal t info st =
     (let st = broker (SignalEnter t info) (upd_thread t (\<lambda>th. th\<lparr>in_signal := True\<rparr>) st) in
      res_bind (res_assert (\<not> isCritical (kthreads st (current st)))) (\<lambda>_. Inr st))"

definition push_pending :: "tid \<Rightarrow> siginfo \<Rightarrow> kern \<Rightarrow> kern" where
  "push_pending t info st = upd_thread t (\<lambda>th. th\<lparr>m_pending_signals := m_pending_signals th @ [info]\<rparr>) st"

text \<open>\<open>handleSignal\<close>; a thread that ends its own process waits in \<open>Process::exit\<close> for being aborted.\<close>

definition handleSignal :: "tid \<Rightarrow> siginfo \<Rightarrow> kern \<Rightarrow> kern res" where
  "handleSignal t info st =
     (let p = t_parent (kthreads st t) in
      case get_sigaction (word_of_int (si_signo info)) (kprocs st p) of None \<Rightarrow> Inl NullDeref
      | Some act \<Rightarrow>
          if action act = SIG_CORE then res_bind (Process_exit (or (si_signo info) 0x80) p st) (\<lambda>(_, st). Inr st)
          else if action act = SIG_TERM then res_bind (Process_exit (si_signo info) p st) (\<lambda>(_, st). Inr st)
          else if action act = SIG_STOP \<or> action act = SIG_CONT then Inl KPanic
          else if action act = SIG_USER then
            res_bind (if current st \<noteq> t then lock_thread t st else Inr st) (\<lambda>st.
            res_bind (if m_busy (kthreads st t) = 0 \<and> \<not> in_signal (kthreads st t) then enterSignal t info st else Inr (push_pending t info st)) (\<lambda>st.
            if current st \<noteq> t then unlock_thread t st else Inr st))
          else Inr st)"

definition thread_signal' :: "tid \<Rightarrow> siginfo \<Rightarrow> kern \<Rightarrow> (error_t \<times> kern) res" where
  "thread_signal' t info st =
     (if \<not> (1 \<le> si_signo info \<and> si_signo info \<le> 31) then Inr (EINVAL, st)
      else if isBusy (kthreads st t) then Inr (ENONE, push_pending t info st)
      else res_bind (handleSignal t info st) (\<lambda>st. Inr (ENONE, st)))"

definition thread_signal :: "tid \<Rightarrow> siginfo \<Rightarrow> kern \<Rightarrow> (error_t \<times> kern) res" where
  "thread_signal t info st =
     (if \<not> (1 \<le> si_signo info \<and> si_signo info \<le> 31) then Inr (EINVAL, st)
      else if current st = t then
        res_bind (thread_signal' t info (upd_thread t addCritical st)) (\<lambda>(err, st). Inr (err, upd_thread t subCritical st))
      else
        res_bind (lock_thread t st) (\<lambda>st.
        res_bind (thread_signal' t info st) (\<lambda>(err, st).
        res_bind (unlock_thread t st) (\<lambda>st. Inr (err, st)))))"

text \<open>\<open>Process::signal\<close> sends to the first thread.\<close>

definition process_signal :: "nat \<Rightarrow> siginfo \<Rightarrow> kern \<Rightarrow> (error_t \<times> kern) res" where
  "process_signal p info st =
     (if \<not> (1 \<le> si_signo info \<and> si_signo info \<le> 31) then Inr (EINVAL, st)
      else
        res_bind (lock_threads p st) (\<lambda>st.
        res_bind (case find (\<lambda>c. c \<noteq> None) (lv_array (p_threads (kprocs st p))) of
            Some (Some t) \<Rightarrow> thread_signal t info st | _ \<Rightarrow> Inr (EINVAL, st)) (\<lambda>(err, st).
        res_bind (unlock_threads p st) (\<lambda>st. Inr (err, st)))))"

text \<open>\<open>Thread::subBusy\<close>: a thread that is not busy any more exits if it is aborting, or else takes the signal that came last.\<close>

definition thread_subBusy :: "tid \<Rightarrow> kern \<Rightarrow> kern res" where
  "thread_subBusy t st =
     (let st = upd_thread t subBusy st in
      if m_busy (kthreads st t) \<noteq> 0 then Inr st
      else if t = current st \<and> m_aborting (kthreads st t) then thread_exit st
      else
        let st = upd_thread t addCritical st; pending = m_pending_signals (kthreads st t) in
        if pending \<noteq> [] then
          handleSignal t (last pending) (upd_thread t (\<lambda>th. subCritical (th\<lparr>m_pending_signals := butlast pending\<rparr>)) st)
        else Inr (upd_thread t subCritical st))"

definition signal_enter :: "u64 \<Rightarrow> tid \<Rightarrow> siginfo \<Rightarrow> kern \<Rightarrow> ((u64 \<times> stack_slot) list \<times> kern) res" where
  "signal_enter trampoline t info st =
     res_bind (lock_thread t st) (\<lambda>st.
     case get_sigaction (word_of_int (si_signo info)) (kprocs st (t_parent (kthreads st t))) of None \<Rightarrow> Inl NullDeref
     | Some act \<Rightarrow>
         let th = swap_stacks ((kthreads st t)\<lparr>context_aux := context_main (kthreads st t), status := TS_RUNNABLE\<rparr>);
             (pushed, th) = (if flags act AND SA_SIGINFO \<noteq> 0 then signal_context_info trampoline info act th else signal_context trampoline info act th)
         in res_bind (unlock_thread t (upd_thread t (\<lambda>_. th) st)) (\<lambda>st. Inr (pushed, st)))"

definition signal_exit :: "tid \<Rightarrow> kern \<Rightarrow> kern res" where
  "signal_exit t st =
     res_bind (lock_thread t st) (\<lambda>st.
     res_bind (thread_subBusy t (upd_thread t (\<lambda>th. swap_stacks (th\<lparr>context_main := context_aux th\<rparr>)) st)) (\<lambda>st.
     unlock_thread t (upd_thread t (\<lambda>th. th\<lparr>in_signal := False\<rparr>) st)))"

text \<open>\<open>sigret\<close> of the current thread, which does not return when it is in a handler.\<close>

definition thread_sigret :: "kern \<Rightarrow> (error_t option \<times> kern) res" where
  "thread_sigret st =
     (if \<not> in_signal (kthreads st (current st)) then Inr (Some EINVAL, st)
      else
        let st = broker (SignalExit (current st)) st in
        res_bind (res_assert (\<not> isCritical (kthreads st (current st)))) (\<lambda>_. Inr (None, st)))"


subsection \<open>What a handler may rely on\<close>

text \<open>The fields of a thread that belong to a running handler, and the requests to start one.\<close>

definition sig_view :: "kthread \<Rightarrow> bool \<times> ctx \<times> ctx \<times> u64 \<times> u64 \<times> int \<times> int" where
  "sig_view th = (in_signal th, context_main th, context_aux th, kernel_stack th, aux_stack th, kernel_stack_size th, aux_stack_size th)"

definition entries :: "tid \<Rightarrow> broker_call list \<Rightarrow> broker_call list" where
  "entries t q = filter (\<lambda>c. case c of SignalEnter u _ \<Rightarrow> u = t | _ \<Rightarrow> False) q"

definition sig_frame :: "tid \<Rightarrow> kern \<Rightarrow> kern \<Rightarrow> bool" where
  "sig_frame t st st' \<longleftrightarrow> sig_view (kthreads st' t) = sig_view (kthreads st t) \<and> entries t (broker_queue st') = entries t (broker_queue st)"

lemma sig_frame_refl [simp]: "sig_frame t st st"
  by (simp add: sig_frame_def)

lemma sig_frame_trans [trans]: "sig_frame t a b \<Longrightarrow> sig_frame t b c \<Longrightarrow> sig_frame t a c"
  by (simp add: sig_frame_def)

lemma sig_view_counters [simp]:
  "sig_view (addCritical th) = sig_view th" "sig_view (subCritical th) = sig_view th" "sig_view (addBusy th) = sig_view th" "sig_view (subBusy th) = sig_view th"
  "sig_view (th\<lparr>t_locked := b\<rparr>) = sig_view th" "sig_view (th\<lparr>m_pending_signals := ps\<rparr>) = sig_view th" "sig_view (th\<lparr>status := s\<rparr>) = sig_view th"
  "sig_view (th\<lparr>m_aborting := b, m_detached := d\<rparr>) = sig_view th"
  by (simp_all add: sig_view_def addCritical_def subCritical_def addBusy_def subBusy_def)

lemma sig_view_setStatus: "setStatus s th = Inr th' \<Longrightarrow> sig_view th' = sig_view th"
  by (auto simp: setStatus_def split: if_splits)

lemma sig_frame_upd [simp]:
  "u \<noteq> t \<or> sig_view (f (kthreads st u)) = sig_view (kthreads st u) \<Longrightarrow> sig_frame t (upd_thread u f st) st' = sig_frame t st st'"
  "u \<noteq> t \<or> sig_view (f (kthreads st u)) = sig_view (kthreads st u) \<Longrightarrow> sig_frame t st' (upd_thread u f st) = sig_frame t st' st"
  "sig_frame t (upd_proc p g st) st' = sig_frame t st st'" "sig_frame t st' (upd_proc p g st) = sig_frame t st' st"
  "sig_frame t (st\<lparr>thread_ring := l\<rparr>) st' = sig_frame t st st'" "sig_frame t st' (st\<lparr>thread_ring := l\<rparr>) = sig_frame t st' st"
  by (auto simp: sig_frame_def upd_thread_def upd_proc_def)

lemma sig_frame_broker [simp]:
  "sig_frame t (broker (ExitThreaded p) st) st' = sig_frame t st st'" "sig_frame t st' (broker (ExitThreaded p) st) = sig_frame t st' st"
  "sig_frame t (broker (Cleanup u) st) st' = sig_frame t st st'" "sig_frame t st' (broker (Cleanup u) st) = sig_frame t st' st"
  "sig_frame t st' (broker (SignalExit u) st) = sig_frame t st' st" "u \<noteq> t \<Longrightarrow> sig_frame t st' (broker (SignalEnter u info) st) = sig_frame t st' st"
  by (auto simp: sig_frame_def broker_def entries_def)

lemma sig_frame_locks:
  "lock_thread u st = Inr st' \<Longrightarrow> sig_frame t st st'" "unlock_thread u st = Inr st' \<Longrightarrow> sig_frame t st st'"
  "lock_threads p st = Inr st' \<Longrightarrow> sig_frame t st st'" "unlock_threads p st = Inr st' \<Longrightarrow> sig_frame t st st'"
  "lock_proc p st = Inr st' \<Longrightarrow> sig_frame t st st'" "unlock_proc p st = Inr st' \<Longrightarrow> sig_frame t st st'"
  by (auto simp: lock_thread_def unlock_thread_def lock_threads_def unlock_threads_def lock_proc_def unlock_proc_def split: if_splits)

lemma sig_frame_Process_exit: "Process_exit rc p st = Inr (b, st') \<Longrightarrow> sig_frame t st st'"
  unfolding Process_exit_def by (auto simp: res_bind_Inr_iff split: if_splits dest!: sig_frame_locks intro: sig_frame_trans)

lemma sig_frame_wake_joiner: "wake_joiner j st = Inr st' \<Longrightarrow> sig_frame t st st'"
  unfolding wake_joiner_def
  by (auto simp: res_bind_Inr_iff dest!: sig_frame_locks dest: sig_view_setStatus intro: sig_frame_trans)

lemma sig_frame_unassoc: "unassoc p u st = Inr st' \<Longrightarrow> sig_frame t st st'"
  unfolding unassoc_def by (auto simp: res_bind_Inr_iff split: option.splits dest!: sig_frame_locks [where t = t] intro: sig_frame_trans) (erule (1) sig_frame_trans)

lemma sig_frame_exit_if_last: "exit_if_last p st = Inr (b, st') \<Longrightarrow> sig_frame t st st'"
  unfolding exit_if_last_def by (auto split: if_splits dest: sig_frame_Process_exit)

lemma sig_frame_finish: "thread_finish u st = Inr st' \<Longrightarrow> sig_frame t st st'"
  unfolding thread_finish_def Let_def
  by (auto simp: res_bind_Inr_iff split: if_splits dest!: sig_frame_unassoc sig_frame_exit_if_last intro: sig_frame_trans)

lemmas sig_frame_dest = sig_frame_locks sig_frame_Process_exit sig_frame_wake_joiner sig_frame_finish

lemma sig_frame_abort': "thread_abort' force u st = Inr st' \<Longrightarrow> sig_frame t st st'"
  unfolding thread_abort'_def thread_kill_def Let_def
  by (auto simp: res_bind_Inr_iff split: if_splits option.splits dest!: sig_frame_dest sig_view_setStatus intro: sig_frame_trans)

lemma sig_frame_exit: "thread_exit st = Inr st' \<Longrightarrow> sig_frame t st st'"
  unfolding thread_exit_def Let_def
  by (auto simp: res_bind_Inr_iff split: if_splits option.splits dest!: sig_frame_dest sig_frame_abort' sig_view_setStatus intro: sig_frame_trans)

lemma sig_frame_fields: "sig_frame t st st' \<Longrightarrow> in_signal (kthreads st' t) = in_signal (kthreads st t)"
  by (simp add: sig_frame_def sig_view_def)

text \<open>While a handler of \<open>t\<close> runs, signals, to it or to others, change none of this.\<close>

lemma sig_frame_enterSignal: "enterSignal u info st = Inr st' \<Longrightarrow> u \<noteq> t \<Longrightarrow> sig_frame t st st'"
  by (auto simp: enterSignal_def Let_def res_bind_Inr_iff)

lemma sig_frame_push [simp]: "sig_frame t st (push_pending u info st) = True"
  by (simp add: push_pending_def)

lemma sig_frame_handleSignal:
  assumes "in_signal (kthreads st t)" "handleSignal u info st = Inr st'"
  shows "sig_frame t st st'"
proof -
  obtain act where act: "get_sigaction (word_of_int (si_signo info)) (kprocs st (t_parent (kthreads st u))) = Some act"
    using assms(2) by (auto simp: handleSignal_def Let_def split: option.splits)
  show ?thesis
  proof (cases "action act = SIG_USER")
    case False
    then show ?thesis using assms(2) act
      by (auto simp: handleSignal_def Let_def res_bind_Inr_iff split: if_splits dest: sig_frame_Process_exit)
  next
    case True
    obtain a b where ab: "(if current st \<noteq> u then lock_thread u st else Inr st) = Inr a"
        "(if m_busy (kthreads a u) = 0 \<and> \<not> in_signal (kthreads a u) then enterSignal u info a else Inr (push_pending u info a)) = Inr b"
        "(if current b \<noteq> u then unlock_thread u b else Inr b) = Inr st'"
      using assms(2) act True by (auto simp: handleSignal_def Let_def res_bind_Inr_iff sig_actions)
    have a: "sig_frame t st a" using ab(1) by (auto split: if_splits dest: sig_frame_locks)
    then have "in_signal (kthreads a t)" using assms(1) sig_frame_fields by simp
    then have "sig_frame t a b" using ab(2) by (auto split: if_splits dest: sig_frame_enterSignal)
    moreover have "sig_frame t b st'" using ab(3) by (auto split: if_splits dest: sig_frame_locks)
    ultimately show ?thesis using a sig_frame_trans by blast
  qed
qed

lemma sig_frame_signal':
  assumes "in_signal (kthreads st t)" "thread_signal' u info st = Inr (e, st')"
  shows "sig_frame t st st'"
  using assms by (auto simp: thread_signal'_def res_bind_Inr_iff split: if_splits dest: sig_frame_handleSignal)

lemma sig_frame_signal:
  assumes "in_signal (kthreads st t)" "thread_signal u info st = Inr (e, st')"
  shows "sig_frame t st st'"
proof -
  have own: "in_signal (kthreads (upd_thread u addCritical st) t)" using assms(1) by (auto simp: upd_thread_def addCritical_def)
  consider "st' = st" | a where "thread_signal' u info (upd_thread u addCritical st) = Inr (e, a)" "st' = upd_thread u subCritical a"
    | a b where "lock_thread u st = Inr a" "thread_signal' u info a = Inr (e, b)" "unlock_thread u b = Inr st'"
    using assms(2) by (auto simp: thread_signal_def res_bind_Inr_iff split: if_splits)
  then show ?thesis
  proof cases
    case 2
    then show ?thesis using sig_frame_signal' [OF own 2(1)] by simp
  next
    case 3
    have "sig_frame t st a" using 3(1) sig_frame_locks by blast
    moreover from this have "sig_frame t a b" using sig_frame_signal' [OF _ 3(2)] assms(1) sig_frame_fields by simp
    moreover have "sig_frame t b st'" using 3(3) sig_frame_locks by blast
    ultimately show ?thesis using sig_frame_trans by blast
  qed simp
qed

lemma sig_frame_subBusy:
  assumes "in_signal (kthreads st t)" "thread_subBusy u st = Inr st'"
  shows "sig_frame t st st'"
proof -
  define a where "a = upd_thread u subBusy st"
  define b where "b = upd_thread u addCritical a"
  let ?ps = "m_pending_signals (kthreads b u)"
  define c where "c = upd_thread u (\<lambda>th. subCritical (th\<lparr>m_pending_signals := butlast ?ps\<rparr>)) b"
  have f: "sig_frame t st a" "sig_frame t st b" "sig_frame t st c" by (simp_all add: a_def b_def c_def)
  then have "in_signal (kthreads c t)" using assms(1) sig_frame_fields by simp
  then have c: "handleSignal u (last ?ps) c = Inr st' \<Longrightarrow> sig_frame t st st'" using f(3) sig_frame_handleSignal sig_frame_trans by blast
  show ?thesis using assms(2) f(1) c sig_frame_trans unfolding thread_subBusy_def a_def [symmetric] b_def [symmetric] c_def [symmetric] Let_def
    by (auto simp: b_def [symmetric] c_def [symmetric] split: if_splits dest!: sig_frame_exit [where t = t]) (simp_all add: b_def a_def)
qed

lemma sig_frame_sigret: "thread_sigret st = Inr (e, st') \<Longrightarrow> sig_frame t st st'"
  by (auto simp: thread_sigret_def Let_def res_bind_Inr_iff split: if_splits)

lemma sig_frame_pop:
  "broker_queue st = c # q \<Longrightarrow> (case c of SignalEnter u _ \<Rightarrow> u \<noteq> t | _ \<Rightarrow> True) \<Longrightarrow> sig_frame t st (st\<lparr>broker_queue := q\<rparr>)"
  by (auto simp: sig_frame_def entries_def split: broker_call.splits)

definition handler_thread :: "u64 \<Rightarrow> siginfo \<Rightarrow> sigaction \<Rightarrow> kthread \<Rightarrow> (u64 \<times> stack_slot) list \<times> kthread" where
  "handler_thread tr info act th =
     (if flags act AND SA_SIGINFO \<noteq> 0 then signal_context_info tr info act else signal_context tr info act)
       (swap_stacks (th\<lparr>context_aux := context_main th, status := TS_RUNNABLE\<rparr>))"

lemma signal_enter_runs:
  assumes "signal_enter tr t info st = Inr (pushed, st')"
  shows "\<exists>a act th. lock_thread t st = Inr a \<and> get_sigaction (word_of_int (si_signo info)) (kprocs a (t_parent (kthreads a t))) = Some act
    \<and> handler_thread tr info act (kthreads a t) = (pushed, th) \<and> unlock_thread t (upd_thread t (\<lambda>_. th) a) = Inr st'"
proof -
  obtain a where a: "lock_thread t st = Inr a" using assms by (auto simp: signal_enter_def res_bind_Inr_iff)
  then obtain act where act: "get_sigaction (word_of_int (si_signo info)) (kprocs a (t_parent (kthreads a t))) = Some act"
    using assms by (auto simp: signal_enter_def split: option.splits)
  obtain pushed' th where h: "handler_thread tr info act (kthreads a t) = (pushed', th)" by fastforce
  then have "res_bind (unlock_thread t (upd_thread t (\<lambda>_. th) a)) (\<lambda>st. Inr (pushed', st)) = Inr (pushed, st')"
    using assms a act by (cases "flags act AND SA_SIGINFO = 0") (simp_all add: signal_enter_def handler_thread_def Let_def)
  then show ?thesis using a act h by (auto simp: res_bind_Inr_iff)
qed

lemma sig_frame_enter:
  assumes "signal_enter tr u info st = Inr (pushed, st')" "u \<noteq> t"
  shows "sig_frame t st st'"
proof -
  obtain a th where run: "lock_thread u st = Inr a" "unlock_thread u (upd_thread u (\<lambda>_. th) a) = Inr st'"
    using signal_enter_runs [OF assms(1)] by blast
  have "sig_frame t st a" "sig_frame t (upd_thread u (\<lambda>_. th) a) st'" using sig_frame_locks(1) [OF run(1)] sig_frame_locks(2) [OF run(2)] by blast+
  then show ?thesis using assms(2) sig_frame_trans by simp
qed

lemma sig_frame_exit_other:
  assumes "in_signal (kthreads st t)" "signal_exit u st = Inr st'" "u \<noteq> t"
  shows "sig_frame t st st'"
proof -
  let ?f = "\<lambda>th. swap_stacks (th\<lparr>context_main := context_aux th\<rparr>)"
  obtain a b where run: "lock_thread u st = Inr a" "thread_subBusy u (upd_thread u ?f a) = Inr b" "unlock_thread u (upd_thread u (\<lambda>th. th\<lparr>in_signal := False\<rparr>) b) = Inr st'"
    using assms(2) by (auto simp: signal_exit_def res_bind_Inr_iff)
  have "sig_frame t st (upd_thread u ?f a)" using sig_frame_locks(1) [OF run(1)] assms(3) by simp
  moreover from this have "sig_frame t (upd_thread u ?f a) b" using sig_frame_subBusy [OF _ run(2)] assms(1) sig_frame_fields by simp
  moreover have "sig_frame t b st'" using sig_frame_locks(2) [OF run(3), of t] assms(3) by simp
  ultimately show ?thesis using sig_frame_trans by blast
qed


subsection \<open>A handler and its return\<close>

text \<open>
  What may happen from the start of a handler of \<open>t\<close> to its return: signals to any thread, system calls and their ends, changes of
  actions, handlers of other threads, the program itself, which changes its registers at will, and every other step of the kernel, which
  leaves these fields alone.
\<close>

inductive handler_run :: "tid \<Rightarrow> kern \<Rightarrow> kern \<Rightarrow> bool" for t st0 where
  start: "handler_run t st0 st0"
| send: "handler_run t st0 st \<Longrightarrow> thread_signal u info st = Inr (e, st') \<Longrightarrow> handler_run t st0 st'"
| call: "handler_run t st0 st \<Longrightarrow> handler_run t st0 (upd_thread u addBusy st)"
| uncall: "handler_run t st0 st \<Longrightarrow> thread_subBusy u st = Inr st' \<Longrightarrow> handler_run t st0 st'"
| sigret: "handler_run t st0 st \<Longrightarrow> thread_sigret st = Inr (r, st') \<Longrightarrow> handler_run t st0 st'"
| action: "handler_run t st0 st \<Longrightarrow> handler_run t st0 (upd_proc p (\<lambda>pr. snd (set_sigaction sig act pr)) st)"
| program: "handler_run t st0 st \<Longrightarrow> handler_run t st0 (upd_thread u (\<lambda>th. th\<lparr>context_main := c, saved_stack := s\<rparr>) st)"
| enter: "handler_run t st0 st \<Longrightarrow> broker_queue st = SignalEnter u info # q \<Longrightarrow>
    signal_enter tr u info (st\<lparr>broker_queue := q\<rparr>) = Inr (pushed, st') \<Longrightarrow> handler_run t st0 st'"
| exit_other: "handler_run t st0 st \<Longrightarrow> broker_queue st = SignalExit u # q \<Longrightarrow> u \<noteq> t \<Longrightarrow>
    signal_exit u (st\<lparr>broker_queue := q\<rparr>) = Inr st' \<Longrightarrow> handler_run t st0 st'"
| switch: "handler_run t st0 st \<Longrightarrow> handler_run t st0 (st\<lparr>current := u\<rparr>)"
| other: "handler_run t st0 st \<Longrightarrow> sig_frame t st st' \<Longrightarrow> handler_run t st0 st'"

definition in_handler :: "tid \<Rightarrow> ctx \<Rightarrow> u64 \<times> u64 \<times> int \<times> int \<Rightarrow> kern \<Rightarrow> bool" where
  "in_handler t c stacks st \<longleftrightarrow> (let th = kthreads st t in in_signal th \<and> context_aux th = c
     \<and> (kernel_stack th, aux_stack th, kernel_stack_size th, aux_stack_size th) = stacks \<and> entries t (broker_queue st) = [])"

lemma in_handler_frame: "in_handler t c ks st \<Longrightarrow> sig_frame t st st' \<Longrightarrow> in_handler t c ks st'"
  by (auto simp: in_handler_def Let_def sig_frame_def sig_view_def)

lemma in_handler_in: "in_handler t c ks st \<Longrightarrow> in_signal (kthreads st t)"
  by (simp add: in_handler_def Let_def)

lemma handler_run_in: "handler_run t st0 st \<Longrightarrow> in_handler t c ks st0 \<Longrightarrow> in_handler t c ks st"
proof (induction rule: handler_run.induct)
  case (program st u c' s)
  then show ?case by (auto simp: in_handler_def Let_def upd_thread_def)
next
  case (enter st u info q tr pushed st')
  then have h: "in_handler t c ks st" by blast
  then have "u \<noteq> t" using enter.hyps(2) by (auto simp: in_handler_def entries_def Let_def)
  then have "sig_frame t st (st\<lparr>broker_queue := q\<rparr>)" using sig_frame_pop [OF enter.hyps(2)] by simp
  moreover have "sig_frame t (st\<lparr>broker_queue := q\<rparr>) st'" by (rule sig_frame_enter [OF enter.hyps(3) \<open>u \<noteq> t\<close>])
  ultimately show ?case using in_handler_frame [OF h] sig_frame_trans by blast
next
  case (exit_other st u q st')
  then have h: "in_handler t c ks st" by blast
  have p: "sig_frame t st (st\<lparr>broker_queue := q\<rparr>)" using sig_frame_pop [OF exit_other.hyps(2)] by simp
  then have h': "in_handler t c ks (st\<lparr>broker_queue := q\<rparr>)" using in_handler_frame [OF h] by blast
  show ?case by (rule in_handler_frame [OF h' sig_frame_exit_other [OF in_handler_in [OF h'] exit_other.hyps(4,3)]])
next
  case (switch st u)
  then show ?case by (simp add: in_handler_def)
next
  case (send st u info e st')
  then have h: "in_handler t c ks st" by blast
  show ?case by (rule in_handler_frame [OF h sig_frame_signal [OF in_handler_in [OF h] send.hyps(2)]])
next
  case (uncall st u st')
  then have h: "in_handler t c ks st" by blast
  show ?case by (rule in_handler_frame [OF h sig_frame_subBusy [OF in_handler_in [OF h] uncall.hyps(2)]])
next
  case (sigret st r st')
  then have h: "in_handler t c ks st" by blast
  show ?case by (rule in_handler_frame [OF h sig_frame_sigret [OF sigret.hyps(2)]])
next
  case (other st st')
  then have h: "in_handler t c ks st" by blast
  show ?case by (rule in_handler_frame [OF h other.hyps(2)])
next
  case (call st u)
  then have h: "in_handler t c ks st" by blast
  show ?case by (rule in_handler_frame [OF h]) simp
next
  case (action st p sig act)
  then have h: "in_handler t c ks st" by blast
  show ?case by (rule in_handler_frame [OF h]) simp
qed

lemma lock_thread_keeps:
  "lock_thread t st = Inr a \<Longrightarrow> kprocs a = kprocs st \<and> t_parent (kthreads a u) = t_parent (kthreads st u) \<and> saved_stack (kthreads a u) = saved_stack (kthreads st u)"
  by (auto simp: lock_thread_def upd_thread_def addCritical_def split: if_splits)

lemma handler_thread_view:
  assumes "handler_thread tr info act th = (pushed, th')"
  shows "in_signal th' = in_signal th" "context_aux th' = context_main th" "kernel_stack th' = aux_stack th" "aux_stack th' = kernel_stack th"
    "kernel_stack_size th' = aux_stack_size th" "aux_stack_size th' = kernel_stack_size th"
    "rip (context_main th') = handler act" "rdi (context_main th') = ucast (word_of_int (si_signo info) :: u8)" "reg_cs (context_main th') = 0x23"
    "rsp (context_main th') = saved_stack th - (if flags act AND SA_SIGINFO \<noteq> 0 then 64 else 8)"
  using assms by (auto simp: handler_thread_def signal_context_def signal_context_info_def user_context_def swap_stacks_def Let_def split: if_splits)

lemma signal_exit_effect:
  assumes "in_handler t c (k, a, ks, as) st" "signal_exit t st = Inr st'"
  shows "\<not> in_signal (kthreads st' t)" "context_main (kthreads st' t) = c" "kernel_stack (kthreads st' t) = a" "aux_stack (kthreads st' t) = k"
    "kernel_stack_size (kthreads st' t) = as" "aux_stack_size (kthreads st' t) = ks"
proof -
  let ?f = "\<lambda>th. swap_stacks (th\<lparr>context_main := context_aux th\<rparr>)"
  obtain x y where run: "lock_thread t st = Inr x" "thread_subBusy t (upd_thread t ?f x) = Inr y" "unlock_thread t (upd_thread t (\<lambda>th. th\<lparr>in_signal := False\<rparr>) y) = Inr st'"
    using assms(2) by (auto simp: signal_exit_def res_bind_Inr_iff)
  have "in_handler t c (k, a, ks, as) x" by (rule in_handler_frame [OF assms(1) sig_frame_locks(1) [OF run(1)]])
  then have view: "sig_view (kthreads (upd_thread t ?f x) t) = (True, c, c, a, k, as, ks)"
    by (simp add: in_handler_def Let_def sig_view_def upd_thread_def swap_stacks_def)
  then have "in_signal (kthreads (upd_thread t ?f x) t)" by (simp add: sig_view_def)
  then have "sig_frame t (upd_thread t ?f x) y" by (rule sig_frame_subBusy [OF _ run(2)])
  then have y: "sig_view (kthreads y t) = (True, c, c, a, k, as, ks)" using view by (simp add: sig_frame_def)
  then have "sig_view (kthreads (upd_thread t (\<lambda>th. th\<lparr>in_signal := False\<rparr>) y) t) = (False, c, c, a, k, as, ks)" by (simp add: sig_view_def upd_thread_def)
  then have "sig_view (kthreads st' t) = (False, c, c, a, k, as, ks)" using sig_frame_locks(2) [OF run(3), of t] by (simp add: sig_frame_def)
  then show "\<not> in_signal (kthreads st' t)" "context_main (kthreads st' t) = c" "kernel_stack (kthreads st' t) = a" "aux_stack (kthreads st' t) = k"
    "kernel_stack_size (kthreads st' t) = as" "aux_stack_size (kthreads st' t) = ks" by (simp_all add: sig_view_def)
qed

text \<open>The end of a handler, run by the broker: it returns unless it leaves the thread idle with a signal pending that has a handler.\<close>

lemma signal_exit_returns:
  assumes "current st \<noteq> t" "\<not> t_locked (kthreads st t)" "m_busy (kthreads st t) \<noteq> 1 \<or> m_pending_signals (kthreads st t) = []"
  shows "\<exists>st'. signal_exit t st = Inr st'"
proof -
  have "subBusy th = th\<lparr>m_busy := m_busy th - 1\<rparr>" for th :: kthread by (simp add: subBusy_def)
  moreover have "m_busy (kthreads st t) - 1 = 0 \<longleftrightarrow> m_busy (kthreads st t) = 1" by simp
  ultimately show ?thesis using assms
    by (auto simp: signal_exit_def lock_thread_def unlock_thread_def upd_thread_def thread_subBusy_def swap_stacks_def Let_def addCritical_def subCritical_def)
qed

lemma signal_exit_pending:
  assumes "current st \<noteq> t" "\<not> t_locked (kthreads st t)" "m_busy (kthreads st t) = 1" "m_pending_signals (kthreads st t) \<noteq> []"
    and "get_sigaction (word_of_int (si_signo (last (m_pending_signals (kthreads st t))))) (kprocs st (t_parent (kthreads st t))) = Some act" "action act = SIG_USER"
  shows "signal_exit t st = Inl KPanic"
  using assms
  by (simp add: signal_exit_def lock_thread_def upd_thread_def thread_subBusy_def swap_stacks_def subBusy_def Let_def addCritical_def subCritical_def
      handleSignal_def sig_actions)


text \<open>The broker runs these calls to their end.\<close>

lemma signal_enter_ok:
  assumes "current st \<noteq> t" "\<not> t_locked (kthreads st t)"
    and "get_sigaction (word_of_int (si_signo info)) (kprocs st (t_parent (kthreads st t))) = Some act"
  shows "signal_enter tr t info st = Inr (fst (handler_thread tr info act (kthreads st t)), upd_thread t (\<lambda>th. snd (handler_thread tr info act th)) st)"
  using assms
  by (simp add: signal_enter_def lock_thread_def unlock_thread_def upd_thread_def handler_thread_def signal_context_def signal_context_info_def
      swap_stacks_def user_context_def Let_def fun_upd_twist addCritical_def subCritical_def)

lemma signal_exit_ok:
  assumes "current st \<noteq> t" "\<not> t_locked (kthreads st t)" "m_busy (kthreads st t) = 1" "m_pending_signals (kthreads st t) = []"
  shows "signal_exit t st = Inr (upd_thread t (\<lambda>th. (swap_stacks (th\<lparr>context_main := context_aux th\<rparr>))\<lparr>m_busy := 0, in_signal := False\<rparr>) st)"
  using assms
  by (simp add: signal_exit_def lock_thread_def unlock_thread_def upd_thread_def thread_subBusy_def subBusy_def swap_stacks_def
      Let_def fun_upd_twist addCritical_def subCritical_def)


text \<open>A handler is not started in a thread of somebody else: \<open>signal\<close> holds the lock of the thread that \<open>handleSignal\<close> takes again.\<close>

lemma signal_other_panics:
  assumes "current st \<noteq> t" "\<not> isBusy (kthreads st t)" "\<not> t_locked (kthreads st t)" "1 \<le> si_signo info" "si_signo info \<le> 31"
    and "get_sigaction (word_of_int (si_signo info)) (kprocs st (t_parent (kthreads st t))) = Some act" "action act = SIG_USER"
  shows "thread_signal t info st = Inl KPanic"
  using assms by (simp add: thread_signal_def lock_thread_def thread_signal'_def handleSignal_def isBusy_def upd_thread_def Let_def sig_actions)

text \<open>The actions that \<open>SIG_DFL\<close> sets are not those of a new process, for the table of \<open>sigaction\<close> leaves out numbers.\<close>

lemma default_actions_differ:
  "filter (\<lambda>i. default_table ! i \<noteq> action (ipc_init (replicate 32 zero_sigaction) ! i)) [1..<32] =
    [8, 10, 11, 15, 16, 17, 18, 21, 22, 23, 24, 25, 26, 28, 29, 31]"
  by code_simp

end
