(* ===== verification/Processes.thy ===== *)
theory Processes
  imports Signals
begin

text \<open>
  Processes as a tree (\<open>proc/process.cpp\<close>, \<open>get_process\<close> in \<open>proc/proc.cpp\<close>): making a process, signals to it, its end after its threads are
  gone, and waiting for children. These operations hold \<open>processes_lock\<close> and so do not interleave. The page map, the working directory and the
  environment that the destructor frees belong to other components.
\<close>

fun find_pid :: "nat \<Rightarrow> nat option \<Rightarrow> int \<Rightarrow> kern \<Rightarrow> nat option res" where
  "find_pid 0 p pid st = Inr None"
| "find_pid (Suc n) None pid st = Inl NullDeref"
| "find_pid (Suc n) (Some p) pid st =
     (if p_pid (kprocs st p) = pid then Inr (Some p) else find_pid n (next_of (process_ring st) p) pid st)"

definition get_process :: "int \<Rightarrow> kern \<Rightarrow> nat option res" where
  "get_process pid st = find_pid (nat (list_size (process_ring st))) (list_head (process_ring st)) pid st"

definition process_new :: "nat \<Rightarrow> int \<Rightarrow> kern \<Rightarrow> kern res" where
  "process_new p parent st =
     res_bind (add_process p (pid_counter st, process_ring st)) (\<lambda>(pid, counter, l).
     Inr ((upd_proc p (\<lambda>_. \<lparr>p_pid = pid, p_parent_pid = parent, p_status = TS_FRESH, p_ret_code = 0, m_exiting = False, p_locked = False,
            threads_locked = False, thread_counter = 0, p_threads = new_lazyvector, child_event = new_event,
            m_signals = ipc_init (replicate 32 zero_sigaction)\<rparr>) st)
          \<lparr>pid_counter := counter, process_ring := l\<rparr>))"

definition process_ready :: "nat \<Rightarrow> kern \<Rightarrow> kern" where
  "process_ready p st = upd_proc p (\<lambda>pr. pr\<lparr>p_status := TS_RUNNABLE\<rparr>) st"

definition process_delete :: "nat \<Rightarrow> kern \<Rightarrow> kern res" where
  "process_delete p st = res_bind (remove_process p (process_ring st)) (\<lambda>l. Inr (st\<lparr>process_ring := l\<rparr>))"

text \<open>\<open>kill\<close>: the number, the sender and the code of the signal are those of \<open>info\<close>.\<close>

definition process_kill :: "int \<Rightarrow> siginfo \<Rightarrow> kern \<Rightarrow> (error_t \<times> kern) res" where
  "process_kill pid info st =
     res_bind (get_process pid st) (\<lambda>process.
     case process of None \<Rightarrow> Inr (ESRCH, st)
     | Some p \<Rightarrow> if p_status (kprocs st p) = TS_FRESH then Inr (ESRCH, st) else process_signal p info st)"

text \<open>The end of \<open>exit_threaded\<close>: the process is dead, its children go to its parent, which is told.\<close>

fun reparent_loop :: "nat \<Rightarrow> nat option \<Rightarrow> nat \<Rightarrow> kern \<Rightarrow> kern res" where
  "reparent_loop 0 i p st = Inr st"
| "reparent_loop (Suc n) None p st = Inl NullDeref"
| "reparent_loop (Suc n) (Some i) p st =
     reparent_loop n (next_of (process_ring st) i) p
       (if p_parent_pid (kprocs st i) = p_pid (kprocs st p) then upd_proc i (\<lambda>pr. pr\<lparr>p_parent_pid := p_parent_pid (kprocs st p)\<rparr>) st else st)"

definition raise_child_event :: "nat \<Rightarrow> kern \<Rightarrow> kern res" where
  "raise_child_event q st =
     res_bind (event_raise (child_event (kprocs st q)) (kthreads st)) (\<lambda>(_, e, ts).
     Inr ((upd_proc q (\<lambda>pr. pr\<lparr>child_event := e\<rparr>) st)\<lparr>kthreads := ts\<rparr>))"

definition exit_notify :: "nat \<Rightarrow> kern \<Rightarrow> kern res" where
  "exit_notify p st =
     (let st = upd_proc p (\<lambda>pr. pr\<lparr>p_status := TS_DEAD\<rparr>) st in
      res_bind (reparent_loop (nat (list_size (process_ring st))) (list_head (process_ring st)) p st) (\<lambda>st.
      res_bind (get_process (p_parent_pid (kprocs st p)) st) (\<lambda>parent.
      case parent of None \<Rightarrow> Inl NullDeref
      | Some q \<Rightarrow> res_bind (lock_proc q st) (\<lambda>st. res_bind (raise_child_event q st) (unlock_proc q)))))"

text \<open>\<open>try_get\<close>: the error, or the identifier and return code of a dead child, which is deleted.\<close>

fun try_get_loop :: "nat \<Rightarrow> nat option \<Rightarrow> int \<Rightarrow> error_t \<Rightarrow> kern \<Rightarrow> ((error_t + int \<times> int) \<times> kern) res" where
  "try_get_loop 0 p pid err st = Inr (Inl err, st)"
| "try_get_loop (Suc n) None pid err st = Inl NullDeref"
| "try_get_loop (Suc n) (Some p) pid err st =
     (if p_parent_pid (kprocs st p) \<noteq> pid then try_get_loop n (next_of (process_ring st) p) pid err st
      else if p_status (kprocs st p) \<noteq> TS_DEAD then try_get_loop n (next_of (process_ring st) p) pid EAGAIN st
      else res_bind (process_delete p st) (\<lambda>st'. Inr (Inr (p_pid (kprocs st p), p_ret_code (kprocs st p)), st')))"

definition try_get :: "int \<Rightarrow> kern \<Rightarrow> ((error_t + int \<times> int) \<times> kern) res" where
  "try_get pid st = try_get_loop (nat (list_size (process_ring st))) (list_head (process_ring st)) pid ECHILD st"

text \<open>
  One round of \<open>Process::wait\<close> of the current thread: its result, or \<open>None\<close> when the thread waits for the event of its process. When it runs
  again it returns \<open>EINTR\<close> if it was interrupted, and otherwise does another round.
\<close>

definition process_wait :: "u64 \<Rightarrow> kern \<Rightarrow> ((error_t + int \<times> int) option \<times> kern) res" where
  "process_wait uptime st =
     (let p = t_parent (kthreads st (current st)) in
      res_bind (try_get (p_pid (kprocs st p)) st) (\<lambda>(r, st).
      case r of
        Inr val \<Rightarrow> Inr (Some (Inr val), st)
      | Inl err \<Rightarrow>
          if err = ECHILD then Inr (Some (Inl err), st)
          else
            res_bind (lock_proc p st) (\<lambda>st.
            let (e, ts) = event_wait uptime (current st) 0 (child_event (kprocs st p)) (kthreads st) in
            res_bind (unlock_proc p ((upd_proc p (\<lambda>pr. pr\<lparr>child_event := e\<rparr>) st)\<lparr>kthreads := ts\<rparr>)) (\<lambda>st. Inr (None, st)))))"

definition wait_resume :: "u64 \<Rightarrow> kern \<Rightarrow> ((error_t + int \<times> int) option \<times> kern) res" where
  "wait_resume uptime st =
     (if interrupted (kthreads st (current st)) then Inr (Some (Inl EINTR), st) else process_wait uptime st)"


subsection \<open>Walking the list\<close>

lemma find_pid_spec:
  assumes "linked (process_ring st) (ys @ [z])"
  shows "find_pid (length ys) (Some (hd (ys @ [z]))) pid st = Inr (find (\<lambda>p. p_pid (kprocs st p) = pid) ys)"
  using assms
proof (induction ys)
  case (Cons y ys)
  then have "linked (process_ring st) (ys @ [z])" "next_of (process_ring st) y = Some (hd (ys @ [z]))" by (simp_all add: linked_Cons)
  then show ?case using Cons.IH by simp
qed simp

lemma ring_walk:
  assumes "is_ring l ps"
  shows "linked l (ps @ [hd ps])" "list_head l = Some (hd (ps @ [hd ps]))" "nat (list_size l) = length ps"
  using assms by (auto simp: is_ring_def cycle_def hd_append)

lemma get_process_find: "is_ring (process_ring st) ps \<Longrightarrow> get_process pid st = Inr (find (\<lambda>p. p_pid (kprocs st p) = pid) ps)"
  using find_pid_spec [of st ps "hd ps" pid] ring_walk [of "process_ring st" ps] by (simp add: get_process_def)

definition reparented :: "nat list \<Rightarrow> nat \<Rightarrow> kern \<Rightarrow> kern" where
  "reparented ps p st = st\<lparr>kprocs := \<lambda>i. if i \<in> set ps \<and> p_parent_pid (kprocs st i) = p_pid (kprocs st p)
     then (kprocs st i)\<lparr>p_parent_pid := p_parent_pid (kprocs st p)\<rparr> else kprocs st i\<rparr>"

lemma reparent_spec:
  assumes "linked (process_ring st) (ys @ [z])" "p_parent_pid (kprocs st p) \<noteq> p_pid (kprocs st p)"
  shows "reparent_loop (length ys) (Some (hd (ys @ [z]))) p st = Inr (reparented ys p st)"
  using assms
proof (induction ys arbitrary: st)
  case Nil
  then show ?case by (simp add: reparented_def)
next
  case (Cons y ys)
  let ?st = "if p_parent_pid (kprocs st y) = p_pid (kprocs st p) then upd_proc y (\<lambda>pr. pr\<lparr>p_parent_pid := p_parent_pid (kprocs st p)\<rparr>) st else st"
  have l: "linked (process_ring st) (ys @ [z])" "next_of (process_ring st) y = Some (hd (ys @ [z]))"
    using Cons.prems(1) by (simp_all add: linked_Cons)
  have same: "process_ring ?st = process_ring st" "p_pid (kprocs ?st q) = p_pid (kprocs st q)" "p_parent_pid (kprocs ?st p) = p_parent_pid (kprocs st p)" for q
    using Cons.prems(2) by (simp_all add: upd_proc_def)
  have "reparent_loop (length (y # ys)) (Some (hd ((y # ys) @ [z]))) p st = reparent_loop (length ys) (Some (hd (ys @ [z]))) p ?st"
    using l(2) by simp
  also have "\<dots> = Inr (reparented ys p ?st)" by (rule Cons.IH) (use l(1) same Cons.prems(2) in simp_all)
  also have "reparented ys p ?st = reparented (y # ys) p st"
    using Cons.prems(2) unfolding reparented_def same by (auto simp: upd_proc_def fun_eq_iff)
  finally show ?case .
qed

text \<open>The search of \<open>try_get\<close>.\<close>

definition child :: "int \<Rightarrow> kern \<Rightarrow> nat \<Rightarrow> bool" where
  "child pid st p \<longleftrightarrow> p_parent_pid (kprocs st p) = pid"

definition dead_child :: "int \<Rightarrow> kern \<Rightarrow> nat \<Rightarrow> bool" where
  "dead_child pid st p \<longleftrightarrow> child pid st p \<and> p_status (kprocs st p) = TS_DEAD"

lemma try_get_loop_spec:
  assumes "linked (process_ring st) (ys @ [z])"
  shows "try_get_loop (length ys) (Some (hd (ys @ [z]))) pid err st = (case find (dead_child pid st) ys of
      None \<Rightarrow> Inr (Inl (if \<exists>p \<in> set ys. child pid st p then EAGAIN else err), st)
    | Some p \<Rightarrow> res_bind (process_delete p st) (\<lambda>st'. Inr (Inr (p_pid (kprocs st p), p_ret_code (kprocs st p)), st')))"
  using assms
proof (induction ys arbitrary: err)
  case (Cons y ys)
  then have "linked (process_ring st) (ys @ [z])" "next_of (process_ring st) y = Some (hd (ys @ [z]))" by (simp_all add: linked_Cons)
  then show ?case using Cons.IH by (auto simp: dead_child_def child_def split: option.splits)
qed simp

lemma try_get_spec:
  assumes "is_ring (process_ring st) ps"
  shows "try_get pid st = (case find (dead_child pid st) ps of
      None \<Rightarrow> Inr (Inl (if \<exists>p \<in> set ps. child pid st p then EAGAIN else ECHILD), st)
    | Some p \<Rightarrow> res_bind (process_delete p st) (\<lambda>st'. Inr (Inr (p_pid (kprocs st p), p_ret_code (kprocs st p)), st')))"
  using try_get_loop_spec [of st ps "hd ps" pid ECHILD] ring_walk [OF assms] by (simp add: try_get_def)


subsection \<open>The tree of processes\<close>

definition tree_inv :: "nat list \<Rightarrow> kern \<Rightarrow> bool" where
  "tree_inv ps st \<longleftrightarrow> is_ring (process_ring st) ps \<and> inj_on (\<lambda>p. p_pid (kprocs st p)) (set ps)
     \<and> (\<forall>p \<in> set ps. p_pid (kprocs st p) < pid_counter st)
     \<and> (\<forall>p \<in> set ps. \<exists>q \<in> set ps. p_pid (kprocs st q) = p_parent_pid (kprocs st p) \<and> p_status (kprocs st q) \<noteq> TS_DEAD)
     \<and> (\<forall>q \<in> set ps. m_tiddies (child_event (kprocs st q)) \<noteq> [] \<longrightarrow> \<not> (\<exists>p \<in> set ps. dead_child (p_pid (kprocs st q)) st p))"

text \<open>Steps that do not touch the tree.\<close>

definition same_tree :: "kern \<Rightarrow> kern \<Rightarrow> bool" where
  "same_tree st st' \<longleftrightarrow> process_ring st' = process_ring st \<and> pid_counter st' = pid_counter st
     \<and> (\<forall>p. p_pid (kprocs st' p) = p_pid (kprocs st p) \<and> p_parent_pid (kprocs st' p) = p_parent_pid (kprocs st p)
          \<and> p_status (kprocs st' p) = p_status (kprocs st p) \<and> p_ret_code (kprocs st' p) = p_ret_code (kprocs st p)
          \<and> child_event (kprocs st' p) = child_event (kprocs st p))"

lemma same_tree_refl [simp]: "same_tree st st"
  by (simp add: same_tree_def)

lemma same_tree_trans [trans]: "same_tree a b \<Longrightarrow> same_tree b c \<Longrightarrow> same_tree a c"
  by (simp add: same_tree_def)

lemma same_tree_inv: "same_tree st st' \<Longrightarrow> tree_inv ps st' = tree_inv ps st"
  by (simp add: same_tree_def tree_inv_def dead_child_def child_def inj_on_def)

lemma same_tree_locks: "lock_proc p st = Inr st' \<Longrightarrow> same_tree st st'" "unlock_proc p st = Inr st' \<Longrightarrow> same_tree st st'"
  by (auto simp: lock_proc_def unlock_proc_def same_tree_def upd_thread_def upd_proc_def split: if_splits)

lemma find_unique:
  assumes "inj_on f (set ps)" "q \<in> set ps" "f q = v"
  shows "find (\<lambda>p. f p = v) ps = Some q"
proof -
  have "find (\<lambda>p. f p = v) ps \<noteq> None" using assms(2,3) by (auto simp: find_None_iff)
  then obtain r where r: "find (\<lambda>p. f p = v) ps = Some r" by blast
  then have "r \<in> set ps" "f r = v" by (auto simp: find_Some_iff)
  then show ?thesis using r assms by (auto dest: inj_onD)
qed

lemma find_set: "find P xs = Some x \<Longrightarrow> x \<in> set xs"
  by (auto simp: find_Some_iff)

lemma raise_child_event_effect:
  assumes "raise_child_event q st = Inr st'"
  shows "process_ring st' = process_ring st" "pid_counter st' = pid_counter st"
    "kprocs st' = (kprocs st)(q := (kprocs st q)\<lparr>child_event := (child_event (kprocs st q))\<lparr>m_tiddies := []\<rparr>\<rparr>)"
  using assms by (auto simp: raise_child_event_def event_raise_def event_release_def res_bind_Inr_iff upd_proc_def)

lemma exit_effect:
  assumes "tree_inv ps st" "p \<in> set ps" "p_parent_pid (kprocs st p) \<noteq> p_pid (kprocs st p)" "exit_notify p st = Inr st'"
  shows "\<exists>q \<in> set ps. q \<noteq> p \<and> p_pid (kprocs st q) = p_parent_pid (kprocs st p) \<and> p_status (kprocs st q) \<noteq> TS_DEAD
    \<and> same_tree (upd_proc q (\<lambda>pr. pr\<lparr>child_event := (child_event pr)\<lparr>m_tiddies := []\<rparr>\<rparr>) (reparented ps p (upd_proc p (\<lambda>pr. pr\<lparr>p_status := TS_DEAD\<rparr>) st))) st'"
proof -
  define a where "a = upd_proc p (\<lambda>pr. pr\<lparr>p_status := TS_DEAD\<rparr>) st"
  define b where "b = reparented ps p a"
  have ring: "is_ring (process_ring st) ps" "process_ring a = process_ring st" "process_ring b = process_ring st"
    using assms(1) by (simp_all add: tree_inv_def a_def b_def reparented_def upd_proc_def)
  have fields: "p_pid (kprocs b r) = p_pid (kprocs st r)" "p_parent_pid (kprocs b p) = p_parent_pid (kprocs st p)" for r
    using assms(3) by (simp_all add: a_def b_def reparented_def upd_proc_def)
  obtain q where q: "q \<in> set ps" "p_pid (kprocs st q) = p_parent_pid (kprocs st p)" "p_status (kprocs st q) \<noteq> TS_DEAD"
    using assms(1,2) by (auto simp: tree_inv_def)
  have "q \<noteq> p" using q(2) assms(3) by auto
  have "reparent_loop (nat (list_size (process_ring a))) (list_head (process_ring a)) p a = Inr b"
    using reparent_spec [of a ps "hd ps" p] ring_walk [OF ring(1)] assms(3) unfolding ring(2) b_def by (simp add: a_def upd_proc_def)
  moreover have "get_process (p_parent_pid (kprocs b p)) b = Inr (Some q)"
    using get_process_find [of b ps "p_parent_pid (kprocs b p)"] find_unique [of "\<lambda>p. p_pid (kprocs st p)" ps q] q assms(1) ring
    by (simp add: fields tree_inv_def)
  ultimately obtain c d where run: "lock_proc q b = Inr c" "raise_child_event q c = Inr d" "unlock_proc q d = Inr st'"
    using assms(4) unfolding exit_notify_def a_def [symmetric] Let_def by (auto simp: res_bind_Inr_iff)
  let ?e = "upd_proc q (\<lambda>pr. pr\<lparr>child_event := (child_event pr)\<lparr>m_tiddies := []\<rparr>\<rparr>)"
  have "same_tree (?e b) d"
    using same_tree_locks(1) [OF run(1)] raise_child_event_effect [OF run(2)] by (simp add: same_tree_def upd_proc_def)
  then have "same_tree (?e b) st'" using same_tree_locks(2) [OF run(3)] same_tree_trans by blast
  then show ?thesis using q \<open>q \<noteq> p\<close> unfolding a_def b_def by blast
qed

lemma exit_inv:
  assumes "tree_inv ps st" "p \<in> set ps" "p_parent_pid (kprocs st p) \<noteq> p_pid (kprocs st p)" "exit_notify p st = Inr st'"
  shows "tree_inv ps st'" "\<And>i. p_pid (kprocs st' i) = p_pid (kprocs st i)" "pid_counter st' = pid_counter st"
proof -
  obtain q where q: "q \<in> set ps" "q \<noteq> p" "p_pid (kprocs st q) = p_parent_pid (kprocs st p)" "p_status (kprocs st q) \<noteq> TS_DEAD"
    and same: "same_tree (upd_proc q (\<lambda>pr. pr\<lparr>child_event := (child_event pr)\<lparr>m_tiddies := []\<rparr>\<rparr>) (reparented ps p (upd_proc p (\<lambda>pr. pr\<lparr>p_status := TS_DEAD\<rparr>) st))) st'" (is "same_tree ?b _")
    using exit_effect [OF assms] by blast
  let ?parent = "\<lambda>i. if i \<in> set ps \<and> p_parent_pid (kprocs st i) = p_pid (kprocs st p) then p_parent_pid (kprocs st p) else p_parent_pid (kprocs st i)"
  have f: "p_pid (kprocs ?b i) = p_pid (kprocs st i)" "p_parent_pid (kprocs ?b i) = ?parent i" "p_status (kprocs ?b i) = (if i = p then TS_DEAD else p_status (kprocs st i))"
    "m_tiddies (child_event (kprocs ?b i)) = (if i = q then [] else m_tiddies (child_event (kprocs st i)))"
    "process_ring ?b = process_ring st" "pid_counter ?b = pid_counter st" for i
    by (auto simp: reparented_def upd_proc_def)
  note inv = assms(1) [unfolded tree_inv_def]
  have inj: "i = j" if "i \<in> set ps" "j \<in> set ps" "p_pid (kprocs st i) = p_pid (kprocs st j)" for i j using inv that by (auto dest: inj_onD)
  have "\<exists>r \<in> set ps. p_pid (kprocs st r) = ?parent i \<and> (if r = p then TS_DEAD else p_status (kprocs st r)) \<noteq> TS_DEAD" if "i \<in> set ps" for i
  proof (cases "p_parent_pid (kprocs st i) = p_pid (kprocs st p)")
    case True
    then show ?thesis using q that by (intro bexI [of _ q]) auto
  next
    case False
    then obtain r where "r \<in> set ps" "p_pid (kprocs st r) = p_parent_pid (kprocs st i)" "p_status (kprocs st r) \<noteq> TS_DEAD" using inv \<open>i \<in> set ps\<close> by blast
    then show ?thesis using False by (intro bexI [of _ r]) auto
  qed
  moreover have "\<not> (\<exists>i \<in> set ps. ?parent i = p_pid (kprocs st r) \<and> (if i = p then TS_DEAD else p_status (kprocs st i)) = TS_DEAD)"
    if r: "r \<in> set ps" "r \<noteq> q" "m_tiddies (child_event (kprocs st r)) \<noteq> []" for r
  proof -
    have "p_pid (kprocs st r) \<noteq> p_parent_pid (kprocs st p)" using inj [OF r(1) q(1)] r(2) q(3) by auto
    then show ?thesis using inv r assms(2,3) by (auto simp: dead_child_def child_def)
  qed
  ultimately have "tree_inv ps ?b" using inv unfolding tree_inv_def f dead_child_def child_def by auto
  then show "tree_inv ps st'" using same_tree_inv [OF same] by simp
  show "p_pid (kprocs st' i) = p_pid (kprocs st i)" "pid_counter st' = pid_counter st" for i using same f by (simp_all add: same_tree_def)
qed

lemma delete_inv:
  assumes "tree_inv ps st" "p \<in> set ps" "p_status (kprocs st p) = TS_DEAD"
  shows "\<exists>l. process_delete p st = Inr (st\<lparr>process_ring := l\<rparr>) \<and> tree_inv (remove1 p ps) (st\<lparr>process_ring := l\<rparr>)"
proof -
  note inv = assms(1) [unfolded tree_inv_def]
  have ring: "is_ring (process_ring st) ps" and d: "distinct ps" using inv by (auto simp: is_ring_def cycle_def)
  obtain q where q: "q \<in> set ps" "p_status (kprocs st q) \<noteq> TS_DEAD" using inv assms(2) by blast
  obtain us vs where ps: "ps = us @ p # vs" "p \<notin> set us" using split_list_first [OF assms(2)] by blast
  have r1: "remove1 p ps = us @ vs" using ps by (simp add: remove1_append)
  have "q \<noteq> p" using q(2) assms(3) by auto
  then have "us @ vs \<noteq> []" using q(1) ps(1) by auto
  then obtain l where l: "unlink p (process_ring st) = Inr l" "is_ring l (us @ vs)" using unlink_ring [of "process_ring st" us p vs] ring ps(1) by blast
  have "process_delete p st = Inr (st\<lparr>process_ring := l\<rparr>)" using l(1) ring by (simp add: process_delete_def remove_process_def is_ring_def cycle_def)
  moreover have sub: "set (remove1 p ps) = set ps - {p}" by (rule set_remove1_eq [OF d])
  have "\<exists>q \<in> set (remove1 p ps). p_pid (kprocs st q) = p_parent_pid (kprocs st i) \<and> p_status (kprocs st q) \<noteq> TS_DEAD" if "i \<in> set (remove1 p ps)" for i
  proof -
    have "i \<in> set ps" using that sub by simp
    then obtain q where "q \<in> set ps" "p_pid (kprocs st q) = p_parent_pid (kprocs st i)" "p_status (kprocs st q) \<noteq> TS_DEAD" using inv by blast
    moreover from this have "q \<noteq> p" using assms(3) by auto
    ultimately show ?thesis unfolding sub by blast
  qed
  then have "tree_inv (remove1 p ps) (st\<lparr>process_ring := l\<rparr>)"
    using inv l(2) sub r1 unfolding tree_inv_def dead_child_def child_def by (auto simp: inj_on_def)
  ultimately show ?thesis by blast
qed

lemma event_upd_inv:
  assumes "tree_inv ps st" "\<not> (\<exists>p \<in> set ps. dead_child (p_pid (kprocs st w)) st p)"
  shows "tree_inv ps (upd_proc w (\<lambda>pr. pr\<lparr>child_event := e\<rparr>) st)"
proof -
  let ?b = "upd_proc w (\<lambda>pr. pr\<lparr>child_event := e\<rparr>) st"
  have f: "p_pid (kprocs ?b i) = p_pid (kprocs st i)" "p_parent_pid (kprocs ?b i) = p_parent_pid (kprocs st i)" "p_status (kprocs ?b i) = p_status (kprocs st i)"
    "process_ring ?b = process_ring st" "pid_counter ?b = pid_counter st" "i \<noteq> w \<Longrightarrow> child_event (kprocs ?b i) = child_event (kprocs st i)" for i
    by (simp_all add: upd_proc_def)
  have "dead_child pid ?b = dead_child pid st" for pid by (simp add: fun_eq_iff dead_child_def child_def f)
  moreover have "\<not> (\<exists>p \<in> set ps. dead_child (p_pid (kprocs st q)) st p)" if "q \<in> set ps" "m_tiddies (child_event (kprocs ?b q)) \<noteq> []" for q
    using that assms f(6) [of q] by (cases "q = w") (auto simp: tree_inv_def)
  ultimately show ?thesis using assms(1) unfolding tree_inv_def f by simp
qed

text \<open>What one round of \<open>wait\<close> does for the process \<open>w\<close> of the current thread.\<close>

lemma wait_effect:
  assumes "tree_inv ps st" "w = t_parent (kthreads st (current st))" "w \<in> set ps" "process_wait uptime st = Inr (r, st')"
  shows "(case find (dead_child (p_pid (kprocs st w)) st) ps of
      Some p \<Rightarrow> r = Some (Inr (p_pid (kprocs st p), p_ret_code (kprocs st p))) \<and> tree_inv (remove1 p ps) st'
    | None \<Rightarrow> tree_inv ps st' \<and> (r = Some (Inl ECHILD) \<and> \<not> (\<exists>p \<in> set ps. child (p_pid (kprocs st w)) st p)
        \<or> r = None \<and> (\<exists>p \<in> set ps. child (p_pid (kprocs st w)) st p)))"
    "\<And>i. p_pid (kprocs st' i) = p_pid (kprocs st i)" "pid_counter st' = pid_counter st"
proof -
  let ?pid = "p_pid (kprocs st w)"
  have ring: "is_ring (process_ring st) ps" using assms(1) by (simp add: tree_inv_def)
  have "(case find (dead_child ?pid st) ps of
      Some p \<Rightarrow> r = Some (Inr (p_pid (kprocs st p), p_ret_code (kprocs st p))) \<and> tree_inv (remove1 p ps) st'
    | None \<Rightarrow> tree_inv ps st' \<and> (r = Some (Inl ECHILD) \<and> \<not> (\<exists>p \<in> set ps. child ?pid st p) \<or> r = None \<and> (\<exists>p \<in> set ps. child ?pid st p)))
    \<and> (\<forall>i. p_pid (kprocs st' i) = p_pid (kprocs st i)) \<and> pid_counter st' = pid_counter st"
  proof (cases "find (dead_child ?pid st) ps")
    case (Some p)
    then have p: "p \<in> set ps" "p_status (kprocs st p) = TS_DEAD" by (auto simp: find_Some_iff dead_child_def)
    obtain l where l: "process_delete p st = Inr (st\<lparr>process_ring := l\<rparr>)" "tree_inv (remove1 p ps) (st\<lparr>process_ring := l\<rparr>)"
      using delete_inv [OF assms(1) p] by blast
    then show ?thesis using assms(2,4) try_get_spec [OF ring, of ?pid] Some by (auto simp: process_wait_def Let_def)
  next
    case None
    then have none: "\<not> (\<exists>p \<in> set ps. dead_child ?pid st p)" by (auto simp: find_None_iff)
    show ?thesis
    proof (cases "\<exists>p \<in> set ps. child ?pid st p")
      case False
      then show ?thesis using assms(1,2,4) try_get_spec [OF ring, of ?pid] None by (auto simp: process_wait_def Let_def)
    next
      case True
      then obtain a where a: "lock_proc w st = Inr a" "res_bind (case event_wait uptime (current a) 0 (child_event (kprocs a w)) (kthreads a) of
            (e, ts) \<Rightarrow> unlock_proc w ((upd_proc w (\<lambda>pr. pr\<lparr>child_event := e\<rparr>) a)\<lparr>kthreads := ts\<rparr>)) (\<lambda>st. Inr (None, st)) = Inr (r, st')"
        using assms(2,4) try_get_spec [OF ring, of ?pid] None by (auto simp: process_wait_def Let_def res_bind_Inr_iff split_beta)
      obtain e ts where ev: "event_wait uptime (current a) 0 (child_event (kprocs a w)) (kthreads a) = (e, ts)" by fastforce
      have run: "lock_proc w st = Inr a" "unlock_proc w ((upd_proc w (\<lambda>pr. pr\<lparr>child_event := e\<rparr>) a)\<lparr>kthreads := ts\<rparr>) = Inr st'" "r = None"
        using a unfolding ev by (auto simp: res_bind_Inr_iff)
      have "same_tree ((upd_proc w (\<lambda>pr. pr\<lparr>child_event := e\<rparr>) st)) ((upd_proc w (\<lambda>pr. pr\<lparr>child_event := e\<rparr>) a)\<lparr>kthreads := ts\<rparr>)"
        using same_tree_locks(1) [OF run(1)] by (simp add: same_tree_def upd_proc_def)
      then have same: "same_tree (upd_proc w (\<lambda>pr. pr\<lparr>child_event := e\<rparr>) st) st'" using same_tree_locks(2) [OF run(2)] same_tree_trans by blast
      moreover have "tree_inv ps (upd_proc w (\<lambda>pr. pr\<lparr>child_event := e\<rparr>) st)"
        using event_upd_inv [OF assms(1) none] .
      ultimately have "tree_inv ps st'" using same_tree_inv [OF same] by simp
      moreover have "(\<forall>i. p_pid (kprocs st' i) = p_pid (kprocs st i)) \<and> pid_counter st' = pid_counter st"
        using same by (simp add: same_tree_def upd_proc_def)
      ultimately show ?thesis using None True run(3) by simp
    qed
  qed
  then show "(case find (dead_child ?pid st) ps of
      Some p \<Rightarrow> r = Some (Inr (p_pid (kprocs st p), p_ret_code (kprocs st p))) \<and> tree_inv (remove1 p ps) st'
    | None \<Rightarrow> tree_inv ps st' \<and> (r = Some (Inl ECHILD) \<and> \<not> (\<exists>p \<in> set ps. child ?pid st p) \<or> r = None \<and> (\<exists>p \<in> set ps. child ?pid st p)))"
    "\<And>i. p_pid (kprocs st' i) = p_pid (kprocs st i)" "pid_counter st' = pid_counter st" by blast+
qed

lemma new_inv:
  assumes "tree_inv ps st" "p \<notin> set ps" "q \<in> set ps" "p_pid (kprocs st q) = parent" "p_status (kprocs st q) \<noteq> TS_DEAD" "process_new p parent st = Inr st'"
  shows "tree_inv (ps @ [p]) st'" "p_pid (kprocs st' p) = pid_counter st" "\<And>i. i \<noteq> p \<Longrightarrow> kprocs st' i = kprocs st i" "pid_counter st' = pid_counter st + 1"
proof -
  note inv = assms(1) [unfolded tree_inv_def]
  obtain l where l: "add_process p (pid_counter st, process_ring st) = Inr (pid_counter st, pid_counter st + 1, l)" "is_ring l (ps @ [p])"
    using add_process_ring [of "process_ring st" ps p "pid_counter st"] inv assms(2) by blast
  have st': "process_ring st' = l" "pid_counter st' = pid_counter st + 1" "\<And>i. i \<noteq> p \<Longrightarrow> kprocs st' i = kprocs st i"
    "p_pid (kprocs st' p) = pid_counter st" "p_parent_pid (kprocs st' p) = parent" "p_status (kprocs st' p) = TS_FRESH" "child_event (kprocs st' p) = new_event"
    using assms(6) l(1) by (auto simp: process_new_def upd_proc_def)
  then show "p_pid (kprocs st' p) = pid_counter st" "\<And>i. i \<noteq> p \<Longrightarrow> kprocs st' i = kprocs st i" "pid_counter st' = pid_counter st + 1" by blast+
  have old: "kprocs st' i = kprocs st i" if "i \<in> set ps" for i using st'(3) [of i] that assms(2) by auto
  have "inj_on (\<lambda>p. p_pid (kprocs st' p)) (set (ps @ [p]))"
    using inv st'(4) old assms(2) by (fastforce simp: inj_on_def)
  moreover have "\<exists>q \<in> set (ps @ [p]). p_pid (kprocs st' q) = p_parent_pid (kprocs st' i) \<and> p_status (kprocs st' q) \<noteq> TS_DEAD" if "i \<in> set (ps @ [p])" for i
  proof (cases "i = p")
    case True
    then show ?thesis using assms(3-5) old st'(5) by (intro bexI [of _ q]) auto
  next
    case False
    then have i: "i \<in> set ps" using that by simp
    then obtain q where "q \<in> set ps" "p_pid (kprocs st q) = p_parent_pid (kprocs st i)" "p_status (kprocs st q) \<noteq> TS_DEAD" using inv by blast
    then show ?thesis using i old by (intro bexI [of _ q]) auto
  qed
  moreover have "\<not> (\<exists>i \<in> set (ps @ [p]). dead_child (p_pid (kprocs st' r)) st' i)" if "r \<in> set (ps @ [p])" "m_tiddies (child_event (kprocs st' r)) \<noteq> []" for r
  proof -
    have "r \<in> set ps" using that st'(7) by (auto simp: new_event_def)
    then show ?thesis using inv that old st'(6) by (auto simp: dead_child_def child_def)
  qed
  moreover have "\<forall>i \<in> set (ps @ [p]). p_pid (kprocs st' i) < pid_counter st'" using inv st'(2,4) old by fastforce
  ultimately show "tree_inv (ps @ [p]) st'" using l(2) st'(1) unfolding tree_inv_def by blast
qed


subsection \<open>Runs\<close>

text \<open>
  Runs of the operations on processes, with the identifiers \<open>wait\<close> has returned so far. A process is made for a parent that is alive, the root,
  its own parent, does not exit, and only a process that is alive waits.
\<close>

inductive proc_run :: "kern \<Rightarrow> int list \<Rightarrow> kern \<Rightarrow> bool" for st0 where
  start: "proc_run st0 [] st0"
| new: "proc_run st0 cs st \<Longrightarrow> listed (process_ring st) = Inr ps \<Longrightarrow> p \<notin> set ps \<Longrightarrow> q \<in> set ps \<Longrightarrow> p_status (kprocs st q) \<noteq> TS_DEAD \<Longrightarrow>
    process_new p (p_pid (kprocs st q)) st = Inr st' \<Longrightarrow> proc_run st0 cs st'"
| ready: "proc_run st0 cs st \<Longrightarrow> p_status (kprocs st p) = TS_FRESH \<Longrightarrow> proc_run st0 cs (process_ready p st)"
| exit: "proc_run st0 cs st \<Longrightarrow> listed (process_ring st) = Inr ps \<Longrightarrow> p \<in> set ps \<Longrightarrow> p_parent_pid (kprocs st p) \<noteq> p_pid (kprocs st p) \<Longrightarrow>
    exit_notify p st = Inr st' \<Longrightarrow> proc_run st0 cs st'"
| wait: "proc_run st0 cs st \<Longrightarrow> listed (process_ring st) = Inr ps \<Longrightarrow> t_parent (kthreads st (current st)) \<in> set ps \<Longrightarrow>
    process_wait uptime st = Inr (r, st') \<Longrightarrow> proc_run st0 (case r of Some (Inr (pid, _)) \<Rightarrow> pid # cs | _ \<Rightarrow> cs) st'"
| other: "proc_run st0 cs st \<Longrightarrow> same_tree st st' \<Longrightarrow> proc_run st0 cs st'"

text \<open>
  Every identifier there was at the start (\<open>B\<close>) or was given since (from \<open>n\<close> on) is that of a process in the list or was returned, and not both.
\<close>

definition collected :: "int set \<Rightarrow> int \<Rightarrow> nat list \<Rightarrow> int list \<Rightarrow> kern \<Rightarrow> bool" where
  "collected B n ps cs st \<longleftrightarrow> tree_inv ps st \<and> distinct cs \<and> (\<forall>c \<in> set cs. c < pid_counter st \<and> c \<notin> (\<lambda>p. p_pid (kprocs st p)) ` set ps)
     \<and> n \<le> pid_counter st \<and> set cs \<union> (\<lambda>p. p_pid (kprocs st p)) ` set ps = B \<union> {n..<pid_counter st}"

lemma tree_inv_listed: "tree_inv ps st \<Longrightarrow> listed (process_ring st) = Inr qs \<longleftrightarrow> qs = ps"
  using listed_ring by (auto simp: tree_inv_def)

lemma wait_collected:
  assumes "collected B n ps cs st" "t_parent (kthreads st (current st)) \<in> set ps" "process_wait uptime st = Inr (r, st')"
  shows "\<exists>ps'. collected B n ps' (case r of Some (Inr (pid, _)) \<Rightarrow> pid # cs | _ \<Rightarrow> cs) st'"
proof -
  let ?w = "t_parent (kthreads st (current st))"
  have inv: "tree_inv ps st" and cs: "distinct cs" "\<And>c. c \<in> set cs \<Longrightarrow> c < pid_counter st \<and> c \<notin> (\<lambda>p. p_pid (kprocs st p)) ` set ps"
      "n \<le> pid_counter st" "set cs \<union> (\<lambda>p. p_pid (kprocs st p)) ` set ps = B \<union> {n..<pid_counter st}"
    using assms(1) by (auto simp: collected_def)
  note eff = wait_effect [OF inv refl assms(2,3)]
  show ?thesis
  proof (cases "find (dead_child (p_pid (kprocs st ?w)) st) ps")
    case None
    then have "tree_inv ps st'" "(case r of Some (Inr (pid, _)) \<Rightarrow> pid # cs | _ \<Rightarrow> cs) = cs" using eff(1) by auto
    then show ?thesis using cs by (intro exI [of _ ps]) (auto simp: collected_def eff(2,3))
  next
    case (Some p)
    then have p: "p \<in> set ps" "tree_inv (remove1 p ps) st'" "r = Some (Inr (p_pid (kprocs st p), p_ret_code (kprocs st p)))"
      using eff(1) by (simp_all add: find_set [OF Some])
    have d: "distinct ps" "inj_on (\<lambda>p. p_pid (kprocs st p)) (set ps)" "p_pid (kprocs st p) < pid_counter st"
      using inv p(1) by (auto simp: tree_inv_def is_ring_def cycle_def)
    then have "p_pid (kprocs st p) \<notin> (\<lambda>p. p_pid (kprocs st p)) ` set (remove1 p ps)" using p(1) by (auto dest: inj_onD)
    moreover have "c \<notin> (\<lambda>p. p_pid (kprocs st p)) ` set (remove1 p ps)" if "c \<in> set cs" for c using cs(2) [OF that] notin_set_remove1 by fastforce
    moreover have "p_pid (kprocs st p) \<notin> set cs" using cs(2) p(1) by blast
    moreover have "set (p_pid (kprocs st p) # cs) \<union> (\<lambda>p. p_pid (kprocs st p)) ` set (remove1 p ps) = B \<union> {n..<pid_counter st}"
      using cs(4) p(1) d(1) by (auto simp: set_remove1_eq)
    ultimately have "collected B n (remove1 p ps) (p_pid (kprocs st p) # cs) st'"
      using p cs(1-3) d(3) by (simp add: collected_def eff(2,3))
    then show ?thesis using p(3) by auto
  qed
qed

lemma ready_pids: "p_pid (kprocs (process_ready p st) i) = p_pid (kprocs st i)" "pid_counter (process_ready p st) = pid_counter st"
  by (simp_all add: process_ready_def upd_proc_def)

lemma ready_inv:
  assumes "p_status (kprocs st p) = TS_FRESH"
  shows "tree_inv ps (process_ready p st) = tree_inv ps st"
proof -
  let ?b = "process_ready p st"
  have f: "(p_status (kprocs ?b i) = TS_DEAD) = (p_status (kprocs st i) = TS_DEAD)" "p_parent_pid (kprocs ?b i) = p_parent_pid (kprocs st i)"
    "process_ring ?b = process_ring st" "child_event (kprocs ?b i) = child_event (kprocs st i)" for i
    using assms by (simp_all add: process_ready_def upd_proc_def)
  show ?thesis unfolding tree_inv_def dead_child_def child_def f ready_pids ..
qed

lemma proc_run_collected: "proc_run st0 cs st \<Longrightarrow> collected B n ps0 [] st0 \<Longrightarrow> \<exists>ps. collected B n ps cs st"
proof (induction rule: proc_run.induct)
  case start
  then show ?case by (auto simp: collected_def)
next
  case (new cs st ps p q st')
  then obtain ps' where c: "collected B n ps' cs st" by blast
  then have "ps' = ps" using tree_inv_listed [of ps' st ps] new.hyps(2) by (simp add: collected_def)
  with c have inv: "tree_inv ps st" by (simp add: collected_def)
  note eff = new_inv [OF inv new.hyps(3,4) refl new.hyps(5,6)]
  have ids: "(\<lambda>p. p_pid (kprocs st' p)) ` set (ps @ [p]) = insert (pid_counter st) ((\<lambda>p. p_pid (kprocs st p)) ` set ps)"
  proof -
    have "(\<lambda>p. p_pid (kprocs st' p)) ` set ps = (\<lambda>p. p_pid (kprocs st p)) ` set ps"
    proof (intro image_cong refl)
      fix i assume "i \<in> set ps"
      then have "i \<noteq> p" using new.hyps(3) by blast
      from eff(3) [OF this] show "p_pid (kprocs st' i) = p_pid (kprocs st i)" by simp
    qed
    then show ?thesis using eff(2) by simp
  qed
  from c \<open>ps' = ps\<close> have cs: "distinct cs" "\<And>c. c \<in> set cs \<Longrightarrow> c < pid_counter st \<and> c \<notin> (\<lambda>p. p_pid (kprocs st p)) ` set ps"
      "n \<le> pid_counter st" "set cs \<union> (\<lambda>p. p_pid (kprocs st p)) ` set ps = B \<union> {n..<pid_counter st}"
    by (auto simp: collected_def)
  have "{n..<pid_counter st + 1} = insert (pid_counter st) {n..<pid_counter st}" using cs(3) by auto
  then have all: "set cs \<union> insert (pid_counter st) ((\<lambda>p. p_pid (kprocs st p)) ` set ps) = B \<union> {n..<pid_counter st + 1}"
    unfolding Un_insert_right cs(4) by simp
  have fresh: "\<forall>c \<in> set cs. c < pid_counter st + 1 \<and> c \<notin> insert (pid_counter st) ((\<lambda>p. p_pid (kprocs st p)) ` set ps)" using cs(2) by fastforce
  have "collected B n (ps @ [p]) cs st'" unfolding collected_def ids eff(4) using eff(1) cs(1,3) all fresh by simp
  then show ?case by blast
next
  case (ready cs st p)
  then obtain ps where "collected B n ps cs st" by blast
  then have "collected B n ps cs (process_ready p st)" unfolding collected_def ready_inv [OF ready.hyps(2)] ready_pids .
  then show ?case by blast
next
  case (exit cs st ps p st')
  then obtain ps' where c: "collected B n ps' cs st" by blast
  then have "ps' = ps" using tree_inv_listed [of ps' st ps] exit.hyps(2) by (simp add: collected_def)
  then show ?case using c exit_inv [OF _ exit.hyps(3-5)] by (intro exI [of _ ps]) (auto simp: collected_def)
next
  case (wait cs st ps uptime r st')
  then obtain ps' where c: "collected B n ps' cs st" by blast
  then have "ps' = ps" using tree_inv_listed [of ps' st ps] wait.hyps(2) by (simp add: collected_def)
  then show ?case using wait_collected [OF _ wait.hyps(3,4)] c by blast
next
  case (other cs st st')
  then obtain ps where "collected B n ps cs st" by blast
  then have "collected B n ps cs st'" using other.hyps(2) same_tree_inv [OF other.hyps(2)] by (simp add: collected_def same_tree_def)
  then show ?case by blast
qed

text \<open>
  A kernel with the root, process 0, and process 1, and a script for it: process 1 makes process 2, which exits with its code, and waits for it.
\<close>

definition two_processes :: kern where
  "two_processes = (let ring = \<lparr>next_of = [0 \<mapsto> 1, 1 \<mapsto> 0], prev_of = [0 \<mapsto> 1, 1 \<mapsto> 0], list_size = 2, list_head = Some 0, list_tail = Some 1\<rparr>;
       pr = (\<lambda>n. \<lparr>p_pid = n, p_parent_pid = 0, p_status = TS_RUNNABLE, p_ret_code = 0, m_exiting = False, p_locked = False, threads_locked = False,
         thread_counter = 0, p_threads = new_lazyvector, child_event = new_event, m_signals = []\<rparr>)
     in \<lparr>kthreads = (\<lambda>_. new_thread 1), kprocs = (\<lambda>p. pr (int p)), thread_ring = ring, process_ring = ring,
       idle_threads = [], broker_queue = [], current = 0, pid_counter = 2\<rparr>)"

lemma two_processes_inv: "tree_inv [0, 1] two_processes"
  by (simp add: tree_inv_def two_processes_def Let_def is_ring_def cycle_def linked_Cons new_event_def)

lemma two_processes_script:
  "res_bind (process_new 7 1 two_processes) (\<lambda>a. res_bind (exit_notify 7 (process_ready 7 a)) (\<lambda>b. res_bind (process_wait 0 b) (\<lambda>(r, c).
     Inr (p_status (kprocs a 7), p_pid (kprocs a 7), p_parent_pid (kprocs a 7), t_parent (kthreads b (current b)), listed (process_ring b), r, listed (process_ring c))))) =
   Inr (TS_FRESH, 2, 1, 1, Inr [0, 1, 7], Some (Inr (2, 0)), Inr [0, 1])"
  by code_simp

text \<open>
  C31. The tree of processes, and no wakeup of a parent is lost. In every run of making processes, their exits and \<open>wait\<close>: every process has
  a living parent in the list, for a process that exits hands its children, dead ones too, to its parent; a thread waits on the
  \<open>child_event\<close> of a process only while the process has no dead child. No process gets lost and none is reported twice: every process there was at the start or
  was made since is either still in the list, once, or was returned by \<open>wait\<close>, once. And a \<open>wait\<close> in a process of the list that has
  a dead child returns the identifier and the code of a dead child and takes it off the list; otherwise it reports that there is no child, exactly if there is none, or waits.
\<close>

theorem process_tree:
  assumes "tree_inv ps0 st0" "proc_run st0 cs st"
  shows "\<exists>ps. listed (process_ring st) = Inr ps
    \<and> (\<forall>p \<in> set ps. \<exists>q \<in> set ps. p_pid (kprocs st q) = p_parent_pid (kprocs st p) \<and> p_status (kprocs st q) \<noteq> TS_DEAD)
    \<and> (\<forall>q \<in> set ps. m_tiddies (child_event (kprocs st q)) \<noteq> [] \<longrightarrow>
         \<not> (\<exists>p \<in> set ps. p_parent_pid (kprocs st p) = p_pid (kprocs st q) \<and> p_status (kprocs st p) = TS_DEAD))
    \<and> distinct (cs @ map (\<lambda>p. p_pid (kprocs st p)) ps)
    \<and> set (cs @ map (\<lambda>p. p_pid (kprocs st p)) ps) = set (map (\<lambda>p. p_pid (kprocs st0 p)) ps0) \<union> {pid_counter st0..<pid_counter st}
    \<and> (\<forall>uptime r st' w. w = t_parent (kthreads st (current st)) \<and> w \<in> set ps \<and> process_wait uptime st = Inr (r, st') \<longrightarrow>
         (if \<exists>p \<in> set ps. dead_child (p_pid (kprocs st w)) st p
          then \<exists>p \<in> set ps. dead_child (p_pid (kprocs st w)) st p \<and> r = Some (Inr (p_pid (kprocs st p), p_ret_code (kprocs st p)))
            \<and> listed (process_ring st') = Inr (remove1 p ps)
          else r = (if \<exists>p \<in> set ps. child (p_pid (kprocs st w)) st p then None else Some (Inl ECHILD)) \<and> listed (process_ring st') = Inr ps))"
proof -
  have "collected (set (map (\<lambda>p. p_pid (kprocs st0 p)) ps0)) (pid_counter st0) ps0 [] st0" using assms(1) by (simp add: collected_def)
  from proc_run_collected [OF assms(2) this]
  obtain ps where c: "collected (set (map (\<lambda>p. p_pid (kprocs st0 p)) ps0)) (pid_counter st0) ps cs st" by blast
  then have inv: "tree_inv ps st" by (simp add: collected_def)
  then have ps: "listed (process_ring st) = Inr ps" "distinct (map (\<lambda>p. p_pid (kprocs st p)) ps)"
    using tree_inv_listed by (auto simp: tree_inv_def distinct_map is_ring_def cycle_def)
  have wait: "if \<exists>p \<in> set ps. dead_child (p_pid (kprocs st w)) st p
          then \<exists>p \<in> set ps. dead_child (p_pid (kprocs st w)) st p \<and> r = Some (Inr (p_pid (kprocs st p), p_ret_code (kprocs st p)))
            \<and> listed (process_ring st') = Inr (remove1 p ps)
          else r = (if \<exists>p \<in> set ps. child (p_pid (kprocs st w)) st p then None else Some (Inl ECHILD)) \<and> listed (process_ring st') = Inr ps"
    if w: "w = t_parent (kthreads st (current st))" "w \<in> set ps" "process_wait uptime st = Inr (r, st')" for uptime r st' w
  proof (cases "find (dead_child (p_pid (kprocs st w)) st) ps")
    case (Some p)
    then have "p \<in> set ps" "dead_child (p_pid (kprocs st w)) st p" by (auto simp: find_Some_iff)
    then show ?thesis using wait_effect(1) [OF inv w] Some tree_inv_listed [of "remove1 p ps" st'] by auto
  next
    case None
    then have "\<not> (\<exists>p \<in> set ps. dead_child (p_pid (kprocs st w)) st p)" by (auto simp: find_None_iff)
    then show ?thesis using wait_effect(1) [OF inv w] None tree_inv_listed [of ps st'] by auto
  qed
  have "distinct (cs @ map (\<lambda>p. p_pid (kprocs st p)) ps)" using c ps(2) by (auto simp: collected_def)
  moreover have "set (cs @ map (\<lambda>p. p_pid (kprocs st p)) ps) = set (map (\<lambda>p. p_pid (kprocs st0 p)) ps0) \<union> {pid_counter st0..<pid_counter st}"
    using c by (simp add: collected_def)
  ultimately show ?thesis using inv ps(1) wait unfolding tree_inv_def dead_child_def child_def by (intro exI [of _ ps]) blast
qed

text \<open>Witness of C31: process 2 is made, exits and is returned by a \<open>wait\<close> of its parent; the others are still listed.\<close>

theorem process_tree_witness:
  "\<exists>st. proc_run two_processes [2] st \<and> listed (process_ring st) = Inr [0, 1] \<and> distinct ([2] @ map (\<lambda>p. p_pid (kprocs st p)) [0, 1])"
proof -
  obtain a b c where run: "process_new 7 1 two_processes = Inr a" "exit_notify 7 (process_ready 7 a) = Inr b" "process_wait 0 b = Inr (Some (Inr (2, 0)), c)"
      and obs: "p_status (kprocs a 7) = TS_FRESH" "p_pid (kprocs a 7) = 2" "p_parent_pid (kprocs a 7) = 1" "t_parent (kthreads b (current b)) = 1"
        "listed (process_ring b) = Inr [0, 1, 7]" "listed (process_ring c) = Inr [0, 1]"
    using two_processes_script unfolding res_bind_Inr_iff by (auto split: prod.splits simp: res_bind_Inr_iff)
  have l: "listed (process_ring two_processes) = Inr [0, 1]" using tree_inv_listed [OF two_processes_inv] by simp
  have 1: "proc_run two_processes [] a"
    by (rule proc_run.new [OF proc_run.start l, of 7 1]) (use run(1) in \<open>simp_all add: two_processes_def Let_def\<close>)
  note 2 = proc_run.ready [OF 1 obs(1)]
  have "tree_inv [0, 1, 7] a"
    using new_inv(1) [OF two_processes_inv _ _ refl _, of 7 1 a] run(1) by (simp add: two_processes_def Let_def)
  then have l7: "listed (process_ring (process_ready 7 a)) = Inr [0, 1, 7]"
    using tree_inv_listed [of "[0, 1, 7]" "process_ready 7 a"] ready_inv [OF obs(1)] by simp
  have 3: "proc_run two_processes [] b"
    by (rule proc_run.exit [OF 2 l7 _ _ run(2)]) (use obs in \<open>simp_all add: process_ready_def upd_proc_def\<close>)
  have 4: "proc_run two_processes [2] c" using proc_run.wait [OF 3 obs(5) _ run(3)] obs(4) by simp
  obtain ps where "listed (process_ring c) = Inr ps" "distinct ([2] @ map (\<lambda>p. p_pid (kprocs c p)) ps)"
    using process_tree [OF two_processes_inv 4] by blast
  then show ?thesis using 4 obs(6) by auto
qed

end
