(* ===== verification/MessageQueue.thy ===== *)
theory MessageQueue
  imports CircularBuffer Packet
begin

text \<open>
  Message queues (\<open>ipc/messagequeue.cpp\<close>): records of a header and a body on one ring of
  64 KiB, with a count \<open>mq_free\<close> of the bytes that senders may still use. A call holds
  \<open>m_lock\<close> from its start or from its last suspension on; \<open>Waiting\<close> is the suspension of
  its own loop, where it queues itself on \<open>m_event\<close> and gives the lock up, and then starts
  over. \<open>Hung\<close> is a suspension inside the ring: the call sleeps there and keeps \<open>m_lock\<close>.

  The second half states what the queue is meant to be, a bounded queue of messages, and
  shows that it is one as long as readers ask for the length that was sent.
\<close>

unbundle bit_operations_syntax

record message_queue =
  mq_ring :: circ
  mq_free :: int
  mq_event :: event

datatype mq_exit = Done | Waiting | Hung

definition MAX_WAITING_SIZE :: int where
  "MAX_WAITING_SIZE = 65535"

definition newMessageQueue :: message_queue where
  "newMessageQueue =
     \<lparr>mq_ring = newCircularBuffer (MAX_WAITING_SIZE + 1), mq_free = MAX_WAITING_SIZE,
      mq_event = new_event\<rparr>"

text \<open>\<open>int total_len = len + sizeof(message_header)\<close>: a sum of \<open>size_t\<close> cut down to \<open>int\<close>.\<close>

definition total_length :: "int \<Rightarrow> int" where
  "total_length len = signed_take_bit 31 (len + 8)"

definition le_bytes32 :: "u32 \<Rightarrow> u8 list" where
  "le_bytes32 w = [ucast w, ucast (drop_bit 8 w), ucast (drop_bit 16 w), ucast (drop_bit 24 w)]"

definition message_header :: "int \<Rightarrow> int \<Rightarrow> u8 list" where
  "message_header pid len = le_bytes32 (word_of_int pid) @ le_bytes32 (word_of_int len)"

definition message_header_len :: "u8 list \<Rightarrow> int" where
  "message_header_len h = sint (le32 (h ! 4) (h ! 5) (h ! 6) (h ! 7))"

text \<open>The loop that skips what the reader did not ask for, 32 bytes at a time.\<close>

function discard_loop :: "tid \<Rightarrow> bool \<Rightarrow> circ \<Rightarrow> int \<Rightarrow> (circ \<times> loop_exit) res" where
  "discard_loop self intr cb left =
     (if left > 0 then
        (case cb_read self intr (replicate 32 0) (min left 32) (-1) cb of
           Inl e \<Rightarrow> Inl e
         | Inr (cb', buffer, offset, rest, ex) \<Rightarrow>
             if ex = Blocked then Inr (cb', Blocked)
             else if offset = 0 then Inr (cb', ex)
             else discard_loop self intr cb' (left - min left 32))
      else Inr (cb, Completed))"
  by pat_completeness auto
termination
  by (relation "measure (\<lambda>(self, intr, cb, left). nat left)") auto

declare discard_loop.simps [simp del]

text \<open>\<open>readMessage\<close>: the queue, the caller's buffer, the value returned and how the call left
  its stretch. The header is read into a local that the ring fills.\<close>

definition readMessage ::
    "tid \<Rightarrow> bool \<Rightarrow> u8 list \<Rightarrow> int \<Rightarrow> message_queue
       \<Rightarrow> (message_queue \<times> u8 list \<times> int \<times> mq_exit) res" where
  "readMessage self intr ptr len q =
     (let total_len = total_length len in
      if total_len > MAX_WAITING_SIZE then Inr (q, ptr, 0, Done)
      else if MAX_WAITING_SIZE - mq_free q < total_len
      then Inr (q\<lparr>mq_event := event_enqueue self (mq_event q)\<rparr>, ptr, 0, Waiting)
      else
        res_bind (cb_read self intr (replicate 8 0) 8 (-1) (mq_ring q)) (\<lambda>(cb1, header, _, _, ex1).
        if ex1 = Blocked then Inr (q\<lparr>mq_ring := cb1\<rparr>, ptr, 0, Hung) else
        res_bind (cb_read self intr ptr len (-1) cb1) (\<lambda>(cb2, ptr', _, _, ex2).
        if ex2 = Blocked then Inr (q\<lparr>mq_ring := cb2\<rparr>, ptr', 0, Hung) else
        res_bind (discard_loop self intr cb2 (message_header_len header - len)) (\<lambda>(cb3, ex3).
        if ex3 = Blocked then Inr (q\<lparr>mq_ring := cb3\<rparr>, ptr', 0, Hung)
        else Inr (q\<lparr>mq_ring := cb3, mq_free := mq_free q + total_len,
                     mq_event := event_release (mq_event q)\<rparr>,
                  ptr', min (message_header_len header) len, Done)))))"

definition writeMessage ::
    "tid \<Rightarrow> bool \<Rightarrow> int \<Rightarrow> u8 list \<Rightarrow> int \<Rightarrow> message_queue \<Rightarrow> (message_queue \<times> mq_exit) res" where
  "writeMessage self intr pid ptr len q =
     (let total_len = total_length len in
      if total_len > MAX_WAITING_SIZE then Inr (q, Done)
      else if mq_free q < total_len
      then Inr (q\<lparr>mq_event := event_enqueue self (mq_event q)\<rparr>, Waiting)
      else
        let q = q\<lparr>mq_free := mq_free q - total_len\<rparr> in
        res_bind (cb_write self intr (message_header pid len) 8 (mq_ring q)) (\<lambda>(cb1, _, _, ex1).
        if ex1 = Blocked then Inr (q\<lparr>mq_ring := cb1\<rparr>, Hung) else
        res_bind (cb_write self intr ptr len cb1) (\<lambda>(cb2, _, _, ex2).
        if ex2 = Blocked then Inr (q\<lparr>mq_ring := cb2\<rparr>, Hung)
        else Inr (q\<lparr>mq_ring := cb2, mq_event := event_release (mq_event q)\<rparr>, Done))))"

text \<open>\<open>readArray\<close> and \<open>writeArray\<close> on elements of \<open>size\<close> bytes; the quotient is that of
  \<open>size_t\<close>, and a count that returns is not negative.\<close>

definition readArray ::
    "tid \<Rightarrow> bool \<Rightarrow> u8 list \<Rightarrow> int \<Rightarrow> int \<Rightarrow> message_queue
       \<Rightarrow> (message_queue \<times> u8 list \<times> int \<times> mq_exit) res" where
  "readArray self intr buffer count sz q =
     res_bind (readMessage self intr buffer (signed_take_bit 31 (count * sz)) q)
       (\<lambda>(q', buffer', n, ex). Inr (q', buffer', signed_take_bit 31 (take_bit 64 n div sz), ex))"

definition writeArray ::
    "tid \<Rightarrow> bool \<Rightarrow> int \<Rightarrow> u8 list \<Rightarrow> int \<Rightarrow> int \<Rightarrow> message_queue \<Rightarrow> (message_queue \<times> mq_exit) res" where
  "writeArray self intr pid ptr count sz q =
     writeMessage self intr pid ptr (signed_take_bit 31 (count * sz)) q"


subsection \<open>The queue of messages\<close>

type_synonym message = "int \<times> u8 list"

fun message_bytes :: "message \<Rightarrow> u8 list" where
  "message_bytes (pid, d) = message_header pid (int (length d)) @ d"

definition backlog :: "message list \<Rightarrow> nat" where
  "backlog msgs = length (concat (map message_bytes msgs))"

text \<open>What clients do, and what a bounded queue of messages answers: the messages held and
  the threads that wait, the bytes delivered and how the call ends. \<open>None\<close> is a reader that
  gets through with a length other than that of the oldest message, or a length that is no
  \<open>int\<close>.\<close>

datatype mq_op = MWrite tid bool int "u8 list" | MRead tid bool nat

type_synonym mq_abs = "message list \<times> tid list"

definition add_waiter :: "tid \<Rightarrow> tid list \<Rightarrow> tid list" where
  "add_waiter t ws = (if t \<in> set ws then ws else ws @ [t])"

fun mq_spec :: "mq_op \<Rightarrow> mq_abs \<Rightarrow> (mq_abs \<times> u8 list \<times> mq_exit) option" where
  "mq_spec (MWrite self intr pid d) (msgs, ws) =
     (if length d \<ge> 2 ^ 31 - 8 then None
      else if length d + 8 > 65535 then Some ((msgs, ws), [], Done)
      else if backlog msgs + length d + 8 > 65535 then Some ((msgs, add_waiter self ws), [], Waiting)
      else Some ((msgs @ [(pid, d)], []), [], Done))"
| "mq_spec (MRead self intr k) (msgs, ws) =
     (if k \<ge> 2 ^ 31 - 8 then None
      else if k + 8 > 65535 then Some ((msgs, ws), [], Done)
      else if backlog msgs < k + 8 then Some ((msgs, add_waiter self ws), [], Waiting)
      else (case msgs of [] \<Rightarrow> None
            | (pid, d) # rest \<Rightarrow> if length d = k then Some ((rest, []), d, Done) else None))"

fun mq_spec_run :: "mq_op list \<Rightarrow> mq_abs \<Rightarrow> (mq_abs \<times> (u8 list \<times> mq_exit) list) option" where
  "mq_spec_run [] s = Some (s, [])"
| "mq_spec_run (op # ops) s =
     (case mq_spec op s of None \<Rightarrow> None
      | Some (s1, out) \<Rightarrow>
          (case mq_spec_run ops s1 of None \<Rightarrow> None
           | Some (s2, outs) \<Rightarrow> Some (s2, out # outs)))"

fun mq_step :: "mq_op \<Rightarrow> message_queue \<Rightarrow> (message_queue \<times> u8 list \<times> mq_exit) res" where
  "mq_step (MWrite self intr pid d) q =
     res_bind (writeMessage self intr pid d (int (length d)) q) (\<lambda>(q', ex). Inr (q', [], ex))"
| "mq_step (MRead self intr k) q =
     res_bind (readMessage self intr (replicate k 0) (int k) q)
       (\<lambda>(q', ptr, n, ex). Inr (q', take (nat n) ptr, ex))"

fun mq_run :: "mq_op list \<Rightarrow> message_queue \<Rightarrow> (message_queue \<times> (u8 list \<times> mq_exit) list) res" where
  "mq_run [] q = Inr (q, [])"
| "mq_run (op # ops) q =
     res_bind (mq_step op q) (\<lambda>(q1, out).
     res_bind (mq_run ops q1) (\<lambda>(q2, outs). Inr (q2, out # outs)))"

text \<open>The queue holds \<open>msgs\<close> on its ring, with \<open>lost\<close> bytes of its budget gone for good.\<close>

definition mq_holds :: "nat \<Rightarrow> message_queue \<Rightarrow> mq_abs \<Rightarrow> bool" where
  "mq_holds lost q s \<longleftrightarrow>
     circ_inv (mq_ring q) \<and> m_size (mq_ring q) = MAX_WAITING_SIZE + 1
     \<and> contents (mq_ring q) = concat (map message_bytes (fst s))
     \<and> mq_free q = MAX_WAITING_SIZE - int (backlog (fst s)) - int lost
     \<and> (\<forall>m \<in> set (fst s). length (snd m) + 8 \<le> 65535)
     \<and> m_tiddies (mq_event q) = snd s \<and> \<not> m_defunct (mq_event q)"


subsection \<open>The ring carries whole messages\<close>

lemma le32_le_bytes:
  "le32 (ucast w) (ucast (drop_bit 8 w)) (ucast (drop_bit 16 w)) (ucast (drop_bit 24 w)) = w"
  by (rule bit_word_eqI) (auto simp: le32_bit bit_simps)

lemma length_message_header [simp]: "length (message_header pid len) = 8"
  by (simp add: message_header_def le_bytes32_def)

lemma message_header_len [simp]:
  "- (2 ^ 31) \<le> len \<Longrightarrow> len < 2 ^ 31 \<Longrightarrow> message_header_len (message_header pid len) = len"
  by (simp add: message_header_len_def message_header_def le_bytes32_def nth_append le32_le_bytes
      signed_of_int signed_take_bit_int_eq_self)

lemma total_length [simp]:
  "0 \<le> len \<Longrightarrow> len < 2 ^ 31 - 8 \<Longrightarrow> total_length len = len + 8"
  by (simp add: total_length_def signed_take_bit_int_eq_self)

lemma backlog_simps [simp]:
  "backlog [] = 0"
  "backlog ((pid, d) # msgs) = 8 + length d + backlog msgs"
  "backlog (msgs @ [(pid, d)]) = backlog msgs + length d + 8"
  by (simp_all add: backlog_def)

lemma ring_write:
  assumes "circ_inv cb" "int (length (contents cb) + length d) < m_size cb"
  shows "\<exists>cb'. cb_write self intr d (int (length d)) cb = Inr (cb', int (length d), 0, Completed)
      \<and> circ_inv cb' \<and> contents cb' = contents cb @ d \<and> m_size cb' = m_size cb"
proof -
  have n: "min (int (length d)) (m_size cb - 1 - int (length (contents cb))) = int (length d)"
    using assms by simp
  show ?thesis
    using cb_write_result [OF assms(1), of "int (length d)" d self intr]
    unfolding write_result_def Let_def n by (auto simp: write_exit_def)
qed

lemma ring_read:
  assumes "circ_inv cb" "contents cb = d @ rest" "length d \<le> length buffer"
  shows "\<exists>cb'. cb_read self intr buffer (int (length d)) (-1) cb =
        Inr (cb', d @ drop (length d) buffer, int (length d), 0, Completed)
      \<and> circ_inv cb' \<and> contents cb' = rest \<and> m_size cb' = m_size cb"
proof -
  have n: "min (int (length d)) (int (length (contents cb))) = int (length d)"
    using assms by simp
  show ?thesis
    using cb_read_result [OF assms(1), of "int (length d)" buffer self intr "-1"] assms(2,3)
    unfolding read_result_def Let_def n by (auto simp: read_exit_def)
qed

text \<open>The skipping loop takes exactly what is left of the message.\<close>

lemma discard_loop_ok:
  assumes "circ_inv cb" "contents cb = d @ rest"
  shows "\<exists>cb'. discard_loop self intr cb (int (length d)) = Inr (cb', Completed)
      \<and> circ_inv cb' \<and> contents cb' = rest \<and> m_size cb' = m_size cb"
  using assms
proof (induction "length d" arbitrary: cb d rule: less_induct)
  case less
  show ?case
  proof (cases "d = []")
    case True
    then show ?thesis using less.prems by (subst discard_loop.simps) simp
  next
    case False
    let ?k = "min (length d) 32"
    have k: "int (length (take ?k d)) = min (int (length d)) 32" "0 < ?k"
      using False by auto
    have "contents cb = take ?k d @ drop ?k d @ rest" using less.prems by simp
    from ring_read [OF less.prems(1) this, of "replicate 32 0" self intr] k
    obtain cb1 where 1: "cb_read self intr (replicate 32 0) (min (int (length d)) 32) (-1) cb =
          Inr (cb1, take ?k d @ drop ?k (replicate 32 0), min (int (length d)) 32, 0, Completed)"
        "circ_inv cb1" "contents cb1 = drop ?k d @ rest" "m_size cb1 = m_size cb"
      by (auto simp: min_def split: if_splits)
    have "int (length d) - min (int (length d)) 32 = int (length (drop ?k d))" by auto
    then have "discard_loop self intr cb (int (length d)) =
        discard_loop self intr cb1 (int (length (drop ?k d)))"
      using False 1(1) by (subst discard_loop.simps) auto
    moreover have "length (drop ?k d) < length d" using k(2) False by simp
    ultimately show ?thesis using less.hyps [OF _ 1(2,3)] 1(4) by simp
  qed
qed


subsection \<open>The calls\<close>

lemma write_message_ok:
  assumes q: "mq_holds lost q (msgs, ws)"
    and fits: "backlog msgs + lost + length d + 8 \<le> 65535"
  shows "\<exists>q'. writeMessage self intr pid d (int (length d)) q = Inr (q', Done)
      \<and> mq_holds lost q' (msgs @ [(pid, d)], [])"
proof -
  have inv: "circ_inv (mq_ring q)" "m_size (mq_ring q) = 65536"
      "contents (mq_ring q) = concat (map message_bytes msgs)"
      "mq_free q = 65535 - int (backlog msgs) - int lost"
    using q by (auto simp: mq_holds_def MAX_WAITING_SIZE_def)
  have len: "length (contents (mq_ring q)) = backlog msgs" using inv(3) by (simp add: backlog_def)
  let ?h = "message_header pid (int (length d))"
  obtain cb1 where 1: "cb_write self intr ?h 8 (mq_ring q) = Inr (cb1, 8, 0, Completed)"
      "circ_inv cb1" "contents cb1 = contents (mq_ring q) @ ?h" "m_size cb1 = 65536"
    using ring_write [OF inv(1), of ?h self intr] len fits inv(2) by auto
  obtain cb2 where 2: "cb_write self intr d (int (length d)) cb1 = Inr (cb2, int (length d), 0, Completed)"
      "circ_inv cb2" "contents cb2 = contents cb1 @ d" "m_size cb2 = 65536"
    using ring_write [OF 1(2), of d self intr] 1(3,4) len fits by auto
  have "writeMessage self intr pid d (int (length d)) q =
      Inr (q\<lparr>mq_free := mq_free q - (int (length d) + 8), mq_ring := cb2,
             mq_event := event_release (mq_event q)\<rparr>, Done)"
    using fits inv(4) 1(1) 2(1) by (simp add: writeMessage_def MAX_WAITING_SIZE_def)
  moreover have "mq_holds lost (q\<lparr>mq_free := mq_free q - (int (length d) + 8), mq_ring := cb2,
             mq_event := event_release (mq_event q)\<rparr>) (msgs @ [(pid, d)], [])"
    using q fits 1(3) 2(2-4) by (auto simp: mq_holds_def MAX_WAITING_SIZE_def event_release_def)
  ultimately show ?thesis by blast
qed

text \<open>A reader that asks for no more than the oldest message gets that much of it, and the
  message leaves the ring whole; the budget shrinks by what the reader did not ask for.\<close>

lemma read_message_ok:
  assumes q: "mq_holds lost q ((pid, d) # msgs, ws)"
    and k: "k \<le> length d" "length ptr = k"
  shows "\<exists>q'. readMessage self intr ptr (int k) q = Inr (q', take k d, int k, Done)
      \<and> mq_holds (lost + (length d - k)) q' (msgs, [])"
proof -
  have inv: "circ_inv (mq_ring q)" "m_size (mq_ring q) = 65536"
      "mq_free q = 65535 - int (8 + length d + backlog msgs) - int lost" "length d + 8 \<le> 65535"
    using q by (auto simp: mq_holds_def MAX_WAITING_SIZE_def)
  let ?h = "message_header pid (int (length d))"
  have c: "contents (mq_ring q) = ?h @ take k d @ drop k d @ concat (map message_bytes msgs)"
    using q by (simp add: mq_holds_def)
  obtain cb1 where 1: "cb_read self intr (replicate 8 0) 8 (-1) (mq_ring q) = Inr (cb1, ?h, 8, 0, Completed)"
      "circ_inv cb1" "contents cb1 = take k d @ drop k d @ concat (map message_bytes msgs)"
      "m_size cb1 = 65536"
    using ring_read [OF inv(1) c, of "replicate 8 0" self intr] inv(2) by auto
  obtain cb2 where 2: "cb_read self intr ptr (int k) (-1) cb1 = Inr (cb2, take k d, int k, 0, Completed)"
      "circ_inv cb2" "contents cb2 = drop k d @ concat (map message_bytes msgs)" "m_size cb2 = 65536"
    using ring_read [OF 1(2,3), of ptr self intr] 1(4) k by (auto simp: min_absorb2)
  have left: "message_header_len ?h - int k = int (length (drop k d))"
    using inv(4) k by simp
  obtain cb3 where 3: "discard_loop self intr cb2 (int (length (drop k d))) = Inr (cb3, Completed)"
      "circ_inv cb3" "contents cb3 = concat (map message_bytes msgs)" "m_size cb3 = 65536"
    using discard_loop_ok [OF 2(2,3), of self intr] 2(4) by auto
  let ?q = "q\<lparr>mq_ring := cb3, mq_free := mq_free q + (int k + 8), mq_event := event_release (mq_event q)\<rparr>"
  have "readMessage self intr ptr (int k) q = Inr (?q, take k d, int k, Done)"
    using k inv(3,4) 1(1) 2(1) 3(1) left
    by (simp add: readMessage_def MAX_WAITING_SIZE_def del: length_drop)
  moreover have "mq_holds (lost + (length d - k)) ?q (msgs, [])"
    using q k 3(2-4) by (auto simp: mq_holds_def MAX_WAITING_SIZE_def event_release_def)
  ultimately show ?thesis by blast
qed

lemma mq_waits:
  assumes "mq_holds lost q (msgs, ws)"
  shows "mq_holds lost (q\<lparr>mq_event := event_enqueue self (mq_event q)\<rparr>) (msgs, add_waiter self ws)"
  using assms by (auto simp: mq_holds_def event_enqueue_def add_waiter_def)

lemma mq_step_spec:
  assumes q: "mq_holds 0 q s" and spec: "mq_spec op s = Some (s', out)"
  shows "\<exists>q'. mq_step op q = Inr (q', out) \<and> mq_holds 0 q' s'"
proof (cases op)
  case (MWrite self intr pid d)
  obtain msgs ws where s: "s = (msgs, ws)" by fastforce
  have free: "mq_free q = 65535 - int (backlog msgs)"
    using q by (simp add: mq_holds_def MAX_WAITING_SIZE_def s)
  show ?thesis
    using spec q write_message_ok [of 0 q msgs ws d self intr pid] mq_waits [of 0 q msgs ws self] free
    by (auto simp: MWrite s writeMessage_def MAX_WAITING_SIZE_def split: if_splits)
next
  case (MRead self intr k)
  obtain msgs ws where s: "s = (msgs, ws)" by fastforce
  have free: "mq_free q = 65535 - int (backlog msgs)"
    using q by (simp add: mq_holds_def MAX_WAITING_SIZE_def s)
  show ?thesis
  proof (cases "k + 8 > 65535 \<or> backlog msgs < k + 8")
    case True
    then show ?thesis
      using spec q mq_waits [of 0 q msgs ws self] free
      by (auto simp: MRead s readMessage_def MAX_WAITING_SIZE_def split: if_splits)
  next
    case False
    with spec obtain pid d rest where "msgs = (pid, d) # rest" "length d = k" "s' = (rest, [])"
        "out = (d, Done)"
      by (auto simp: MRead s split: if_splits list.splits)
    then show ?thesis
      using q read_message_ok [of 0 q pid d rest ws k "replicate k 0" self intr] by (auto simp: MRead s)
  qed
qed

lemma mq_holds_new: "mq_holds 0 newMessageQueue ([], [])"
  by (simp add: mq_holds_def newMessageQueue_def MAX_WAITING_SIZE_def new_event_def)
     (simp add: newCircularBuffer_def)

lemma mq_run_spec:
  assumes "mq_holds 0 q s" "mq_spec_run ops s = Some (s', outs)"
  shows "\<exists>q'. mq_run ops q = Inr (q', outs) \<and> mq_holds 0 q' s'"
  using assms
proof (induction ops arbitrary: q s outs)
  case Nil
  then show ?case by simp
next
  case (Cons op ops)
  from Cons.prems(2) obtain s1 out outs1 where 1: "mq_spec op s = Some (s1, out)"
      "mq_spec_run ops s1 = Some (s', outs1)" "outs = out # outs1"
    by (auto split: option.splits)
  obtain q1 where 2: "mq_step op q = Inr (q1, out)" "mq_holds 0 q1 s1"
    using mq_step_spec [OF Cons.prems(1) 1(1)] by blast
  from Cons.IH [OF 2(2) 1(2)] 2(1) 1(3) show ?case by (auto simp: split_beta)
qed


subsection \<open>Properties\<close>

text \<open>
  C32. Message queues deliver whole messages, in order: a new queue used by any number of
  senders and readers, where a reader that gets through asks for the length that was sent
  (as \<open>readObject\<close> and \<open>writeObject\<close> on one type do), answers every call as a bounded
  queue of messages does. The bytes on the ring are the messages not yet read, each with its
  sender, a call that cannot go on queues its thread on the event, every transfer wakes
  all of them, and no call is ever suspended inside the ring with the lock held.
\<close>

theorem mq_fifo:
  assumes "mq_spec_run ops ([], []) = Some ((msgs, waiting), outs)"
  shows "\<exists>q. mq_run ops newMessageQueue = Inr (q, outs)
      \<and> contents (mq_ring q) = concat (map message_bytes msgs)
      \<and> mq_free q = MAX_WAITING_SIZE - int (backlog msgs)
      \<and> m_tiddies (mq_event q) = waiting"
  using mq_run_spec [OF mq_holds_new assms] by (auto simp: mq_holds_def)

text \<open>Witness of C32: a reader that comes too early, two senders, and the reader again.\<close>

theorem mq_fifo_witness:
  "\<exists>q. mq_run [MRead 5 False 2, MWrite 6 False 42 [1, 2], MWrite 7 False 43 [3, 4], MRead 5 False 2]
       newMessageQueue = Inr (q, [([], Waiting), ([], Done), ([], Done), ([1, 2], Done)])
     \<and> contents (mq_ring q) = message_header 43 2 @ [3, 4] \<and> mq_free q = 65525
     \<and> m_tiddies (mq_event q) = []"
  using mq_fifo [of "[MRead 5 False 2, MWrite 6 False 42 [1, 2], MWrite 7 False 43 [3, 4], MRead 5 False 2]"
      "[(43, [3, 4])]" "[]" "[([], Waiting), ([], Done), ([], Done), ([1, 2], Done)]"]
  by (simp add: add_waiter_def MAX_WAITING_SIZE_def)

text \<open>
  A reader that asks for less than was sent takes budget from the queue for ever:
  \<open>readMessage\<close> gives back \<open>total_len\<close>, the reader's length, and not the length in the
  header. Once the lost bytes cover a request, a reader passes the test on \<open>m_free\<close> while
  the ring is empty, and sleeps in the ring with \<open>m_lock\<close> held.
\<close>

lemma short_read_hangs:
  assumes q: "mq_holds 0 q ([(pid, d)], ws)" and k: "k + 8 \<le> length d - k"
  shows "\<exists>q1 q2. readMessage self intr (replicate k 0) (int k) q = Inr (q1, take k d, int k, Done)
      \<and> mq_free q1 = MAX_WAITING_SIZE - int (length d - k)
      \<and> readMessage self intr (replicate k 0) (int k) q1 = Inr (q2, replicate k 0, 0, Hung)"
proof -
  have d: "length d + 8 \<le> 65535" using q by (simp add: mq_holds_def)
  have kd: "k \<le> length d" using k by linarith
  obtain q1 where 1: "readMessage self intr (replicate k 0) (int k) q = Inr (q1, take k d, int k, Done)"
      "mq_holds (length d - k) q1 ([], [])"
    using read_message_ok [OF q kd length_replicate, of self intr 0] by auto
  have free: "mq_free q1 = 65535 - int (length d - k)" and ring: "circ_inv (mq_ring q1)"
      "contents (mq_ring q1) = []" "m_size (mq_ring q1) = 65536"
    using 1(2) by (auto simp: mq_holds_def MAX_WAITING_SIZE_def)
  have tests: "\<not> 65535 - mq_free q1 < int k + 8" "k \<le> 65527" using free k d by linarith+
  obtain cb where "cb_read self intr (replicate 8 0) 8 (-1) (mq_ring q1) =
      Inr (cb, replicate 8 0, 0, 8, Blocked)"
    using cb_read_result [OF ring(1), of 8 "replicate 8 0" self intr "-1"] ring
    by (auto simp: read_result_def read_exit_def)
  then have "readMessage self intr (replicate k 0) (int k) q1 =
      Inr (q1\<lparr>mq_ring := cb\<rparr>, replicate k 0, 0, Hung)"
    using tests by (simp add: readMessage_def MAX_WAITING_SIZE_def Let_def)
  with 1(1) free show ?thesis by (auto simp: MAX_WAITING_SIZE_def)
qed

text \<open>A reader that asks for more than the oldest message goes on into the next one: the body
  it delivers contains the header of that message, whose framing is lost.\<close>

lemma long_read_merges:
  assumes q: "mq_holds 0 q ([(p1, d1), (p2, d2)], ws)"
    and k: "k = length d1 + 8 + length d2"
    and d: "k + 8 \<le> 65535"
  shows "\<exists>q'. readMessage self intr (replicate k 0) (int k) q =
      Inr (q', d1 @ message_header p2 (int (length d2)) @ d2, int (length d1), Done)"
proof -
  let ?h = "message_header p1 (int (length d1))"
  let ?b = "d1 @ message_header p2 (int (length d2)) @ d2"
  have ring: "circ_inv (mq_ring q)" "contents (mq_ring q) = ?h @ ?b"
      "mq_free q = 65535 - int (k + 8)"
    using q k by (auto simp: mq_holds_def MAX_WAITING_SIZE_def)
  obtain cb1 where 1: "cb_read self intr (replicate 8 0) 8 (-1) (mq_ring q) = Inr (cb1, ?h, 8, 0, Completed)"
      "circ_inv cb1" "contents cb1 = ?b @ []"
    using ring_read [OF ring(1,2), of "replicate 8 0" self intr] by auto
  obtain cb2 where 2: "cb_read self intr (replicate k 0) (int k) (-1) cb1 = Inr (cb2, ?b, int k, 0, Completed)"
    using ring_read [OF 1(2,3), of "replicate k 0" self intr] k by (auto simp: add.assoc)
  show ?thesis
    using ring(3) 1(1) 2 d k by (simp add: readMessage_def MAX_WAITING_SIZE_def discard_loop.simps)
qed

end
