(* ===== verification/Pipe.thy ===== *)
theory Pipe
  imports CircularBuffer
begin

text \<open>
  Pipes (\<open>ipc/pipe.cpp\<close>): a ring of 8 KiB shared by the reading and the writing file. A
  write of at most \<open>PIPE_BUF\<close> bytes is atomic, a longer one may be cut; a read returns as
  soon as one byte has been delivered. The \<open>size_t\<close> counts are cut down to the ring's
  \<open>int\<close>. The smart pointer the two files hold the pipe by is that of \<open>SmartPtr\<close>.
\<close>

definition PIPE_BUF :: int where
  "PIPE_BUF = 512"

definition PIPE_SIZE :: int where
  "PIPE_SIZE = 8192"

definition newPipe :: circ where
  "newPipe = newCircularBuffer PIPE_SIZE"

definition pipe_write ::
    "tid \<Rightarrow> bool \<Rightarrow> u8 list \<Rightarrow> u64 \<Rightarrow> circ \<Rightarrow> (circ \<times> int \<times> int \<times> loop_exit) res" where
  "pipe_write self intr buf count p =
     (let n = sint (ucast count :: u32) in
      if uint count \<le> PIPE_BUF then cb_writeAtomic self intr buf n p
      else cb_write self intr buf n p)"

definition pipe_read ::
    "tid \<Rightarrow> bool \<Rightarrow> u8 list \<Rightarrow> u64 \<Rightarrow> circ \<Rightarrow> (circ \<times> u8 list \<times> int \<times> int \<times> loop_exit) res" where
  "pipe_read self intr buf count p = cb_read self intr buf (sint (ucast count :: u32)) 1 p"

lemma int_count: "uint (count :: u64) < 2 ^ 31 \<Longrightarrow> sint (ucast count :: u32) = uint count"
  using uint_ge_0 [of count]
  by (simp add: sint_uint unsigned_ucast_eq take_bit_int_eq_self signed_take_bit_eq_take_bit_shift)

text \<open>A short write enters the pipe in one piece or not at all.\<close>

lemma pipe_write_atomic:
  assumes "circ_inv p" "length buf = unat count" "uint count \<le> PIPE_BUF"
  shows "\<exists>p' n left ex. pipe_write self intr buf count p = Inr (p', n, left, ex) \<and> circ_inv p'
      \<and> (ex = Completed \<and> contents p' = contents p @ buf
           \<or> ex \<noteq> Completed \<and> contents p' = contents p)"
proof -
  have c: "sint (ucast count :: u32) = int (length buf)"
    using assms by (simp add: int_count PIPE_BUF_def)
  have w: "pipe_write self intr buf count p = cb_writeAtomic self intr buf (int (length buf)) p"
    unfolding pipe_write_def c Let_def using assms(3) by simp
  show ?thesis
  proof (cases "buf = []")
    case True
    then show ?thesis using assms(1) unfolding w by (auto simp: cb_writeAtomic_def)
  next
    case False
    then have "pipe_write self intr buf count p = writeAtomic_loop self intr p buf 0 (int (length buf))"
        "0 < int (length buf)"
      by (simp_all add: w cb_writeAtomic_def)
    with writeAtomic_loop_cases [OF assms(1) this(2), of 0 buf self intr] assms(1) show ?thesis
      by (auto split: if_splits simp del: circ_inv_event)
  qed
qed

text \<open>A reader of a pipe that holds something gets what there is and does not sleep.\<close>

lemma pipe_read_some:
  assumes "circ_inv p" "length buf = unat count" "uint count < 2 ^ 31" "contents p \<noteq> []"
  defines "n \<equiv> min (length buf) (length (contents p))"
  shows "\<exists>p' left ex. pipe_read self intr buf count p =
        Inr (p', take n (contents p) @ drop n buf, int n, left, ex)
      \<and> ex \<noteq> Blocked \<and> circ_inv p' \<and> contents p' = drop n (contents p)"
proof -
  have c: "sint (ucast count :: u32) = int (length buf)"
    using assms by (simp add: int_count)
  have n: "min (int (length buf)) (int (length (contents p))) = int n"
    by (simp add: n_def)
  have "length buf = n \<or> 1 \<le> n" using assms(4) by (cases "contents p") (auto simp: n_def)
  then show ?thesis
    using cb_read_result [OF assms(1), of "int (length buf)" buf self intr 1]
    unfolding read_result_def Let_def n pipe_read_def c by (auto simp: read_exit_def)
qed

text \<open>A read of \<open>2^31\<close> bytes or more is a negative length to the ring and returns nothing.\<close>

lemma pipe_read_huge:
  "2 ^ 31 \<le> uint count \<Longrightarrow> uint count < 2 ^ 32 \<Longrightarrow>
     pipe_read self intr buf count p =
       Inr (p, buf, 0, uint count - 2 ^ 32, Completed)"
proof -
  assume h: "2 ^ 31 \<le> uint count" "uint count < 2 ^ 32"
  have "sint (ucast count :: u32) = uint count - 2 ^ 32"
    using h by (simp add: sint_uint unsigned_ucast_eq take_bit_int_eq_self
        signed_take_bit_eq_take_bit_shift take_bit_eq_mod mod_pos_geq)
  with h show ?thesis by (simp add: pipe_read_def cb_read_def)
qed

end
