(* ===== verification/INodeFile.thy ===== *)
theory INodeFile
  imports Block CString
begin

unbundle bit_operations_syntax

text \<open>
  Regular files (\<open>fs/inodefile.hpp\<close>): a position, and one block of the file cached behind it. The
  inode of a file system implements \<open>readBlocks\<close>, so it is a parameter: the bytes a call stores
  from the pointer it is given on, for a first block and a 16-bit count. Its error code is not
  looked at by the code. Buffers are real: the caller's is a list, a store outside it is a fault.
  A division by a block size of 0 is a processor exception and stops the kernel.
\<close>

record inode =
  i_id :: u64
  i_type :: u32
  i_mode :: u32
  i_hard_links :: u64
  i_uid :: u32
  i_gid :: u32
  i_dev :: int
  i_access_time :: u64
  i_modify_time :: u64
  i_change_time :: u64
  i_block_count :: u64
  i_block_size :: u64
  i_size :: int

record inode_file =
  m_inode :: inode
  m_pos :: int
  m_block_size :: u16
  m_cached_block :: u64
  m_cache_buffer :: "u8 list"

type_synonym read_blocks = "u64 \<Rightarrow> u16 \<Rightarrow> u8 list"

definition newINodeFile :: "inode \<Rightarrow> u64 \<Rightarrow> inode_file" where
  "newINodeFile ino control_block_size =
     (let bs = ucast control_block_size in
      \<lparr>m_inode = ino, m_pos = 0, m_block_size = bs, m_cached_block = 0xFFFFFFFFFFFFFFFF,
       m_cache_buffer = replicate (unat bs) 0\<rparr>)"

definition inode_isPerfect :: "u16 \<Rightarrow> u64 \<Rightarrow> u32 \<Rightarrow> bool" where
  "inode_isPerfect bs start len \<longleftrightarrow>
     (if start mod ucast bs \<noteq> 0 then False else if len mod ucast bs \<noteq> 0 then False else True)"

text \<open>The bytes of a call of the inode's \<open>readBlocks\<close>, stored at a place in the buffer.\<close>

definition store_blocks :: "u8 list \<Rightarrow> nat \<Rightarrow> u8 list \<Rightarrow> u8 list res" where
  "store_blocks buffer at bytes = memcpy buffer at bytes 0 (length bytes)"

text \<open>Every pass of the loop reads something.\<close>

lemma readBlocks_pass:
  fixes start :: u64 and len :: u32 and bs :: u16
  assumes "0 < len" "bs \<noteq> 0"
  shows "unat (len - min (ucast bs - ucast (start - size_floor start (ucast bs))) len) < unat len"
proof -
  have "0 < bs" using assms(2) by (simp add: word_gt_0)
  note sz = pass_sizes [OF this assms(1), of start]
  then show ?thesis by (simp add: unat_sub word_le_nat_alt)
qed

function readBlocks_loop ::
    "read_blocks \<Rightarrow> u16 \<Rightarrow> u8 list \<Rightarrow> nat \<Rightarrow> u64 \<Rightarrow> u32 \<Rightarrow> bool \<Rightarrow> u64 \<Rightarrow> u32 \<Rightarrow> u8 list res" where
  "readBlocks_loop rd bs buffer at start len combo combo_start combo_count =
     (if len > 0 then
        if bs = 0 then Inl KPanic else
        let offset = (ucast (start - size_floor start (ucast bs)) :: u32);
            llen = min (ucast bs - offset) len
        in
        if \<not> inode_isPerfect bs start llen then
          (case (if combo then
                   res_bind (store_blocks buffer at (rd combo_start (ucast combo_count)))
                     (\<lambda>b. Inr (b, at + unat (combo_count * ucast bs)))
                 else Inr (buffer, at)) of
             Inl e \<Rightarrow> Inl e
           | Inr (buffer, at) \<Rightarrow>
               (case memcpy buffer at (rd (start div ucast bs) 1) (unat offset) (unat llen) of
                  Inl e \<Rightarrow> Inl e
                | Inr buffer \<Rightarrow>
                    readBlocks_loop rd bs buffer (at + unat llen) (start + ucast llen) (len - llen)
                      False combo_start combo_count))
        else
          readBlocks_loop rd bs buffer at (start + ucast llen) (len - llen) True
            (if combo then combo_start else start div ucast bs)
            ((if combo then combo_count else 0) + 1)
      else if combo then store_blocks buffer at (rd combo_start (ucast combo_count))
      else Inr buffer)"
  by pat_completeness auto
termination
  by (relation "measure (\<lambda>(rd, bs, buffer, at, start, len, combo, cs, cc). unat len)")
     (auto intro: readBlocks_pass)

declare readBlocks_loop.simps [simp del]

definition readBlocks :: "read_blocks \<Rightarrow> u16 \<Rightarrow> u8 list \<Rightarrow> nat \<Rightarrow> u64 \<Rightarrow> u32 \<Rightarrow> u8 list res" where
  "readBlocks rd bs buffer at start len = readBlocks_loop rd bs buffer at start len False 0 0"

text \<open>
  \<open>read\<close>: the file, the caller's buffer and the value returned. \<open>m_pos & (m_block_size - 1)\<close> and the
  minimum are cut down to 16 bits, the count given to \<open>readBlocks\<close> to 32.
\<close>

definition file_read_body ::
    "read_blocks \<Rightarrow> u8 list \<Rightarrow> u32 \<Rightarrow> u64 \<Rightarrow> inode_file \<Rightarrow> (inode_file \<times> u8 list \<times> int) res" where
  "file_read_body rd buffer requested_count count f =
     (let bs = m_block_size f in
      if count = 0 then Inr (f, buffer, 0)
      else if bs = 0 then Inl KPanic
      else
        res_bind (if (word_of_int (m_pos f) :: u64) div ucast bs = m_cached_block f then
            let offset = (ucast ((word_of_int (m_pos f) :: u64) AND (ucast bs - 1)) :: u16);
                len = (ucast (min (ucast bs - ucast offset) count) :: u16)
            in res_bind (memcpy buffer 0 (m_cache_buffer f) (unat offset) (unat len)) (\<lambda>buffer.
                 Inr (buffer, unat len, count - ucast len, m_pos f + uint len))
          else Inr (buffer, 0, count, m_pos f)) (\<lambda>(buffer, at, count, pos).
        if count = 0 then Inr (f\<lparr>m_pos := pos\<rparr>, buffer, uint requested_count)
        else
          res_bind (readBlocks rd bs buffer at (word_of_int pos) (ucast count)) (\<lambda>buffer.
          let pos = pos + uint count;
              last_block = (word_of_int pos :: u64) div ucast bs
          in
          res_bind (if last_block \<noteq> m_cached_block f
                    then readBlocks rd bs (m_cache_buffer f) 0 (last_block * ucast bs) (ucast bs)
                    else Inr (m_cache_buffer f)) (\<lambda>cache.
            Inr (f\<lparr>m_pos := pos, m_cached_block := last_block, m_cache_buffer := cache\<rparr>, buffer,
                 uint count)))))"

definition file_read :: "read_blocks \<Rightarrow> u8 list \<Rightarrow> u64 \<Rightarrow> inode_file \<Rightarrow> (inode_file \<times> u8 list \<times> int) res" where
  "file_read rd buffer count f =
     (let requested_count = ucast count;
          count = min (word_of_int (i_size (m_inode f) - m_pos f)) count
      in file_read_body rd buffer requested_count count f)"

datatype seek_mode = SEEK_SET | SEEK_CURRENT | SEEK_END

definition file_seek :: "int \<Rightarrow> seek_mode \<Rightarrow> inode_file \<Rightarrow> inode_file \<times> int optional" where
  "file_seek offset mode f =
     (let new_pos = (case mode of SEEK_SET \<Rightarrow> offset
          | SEEK_CURRENT \<Rightarrow> signed_take_bit 63 (m_pos f + offset)
          | SEEK_END \<Rightarrow> signed_take_bit 63 (i_size (m_inode f) + offset))
      in
      if new_pos < 0 \<or> new_pos > i_size (m_inode f) then (f, Inl EINVAL)
      else (f\<lparr>m_pos := new_pos\<rparr>, Inr new_pos))"

definition file_close :: "inode_file \<Rightarrow> error_t" where
  "file_close f = ENONE"

text \<open>A copy starts as a new file on the same inode and takes over position and cache.\<close>

definition file_dup :: "u64 \<Rightarrow> inode_file \<Rightarrow> inode_file res" where
  "file_dup control_block_size f =
     (let dupd = newINodeFile (m_inode f) control_block_size in
      res_bind (memcpy (m_cache_buffer dupd) 0 (m_cache_buffer f) 0 (unat (m_block_size f))) (\<lambda>cache.
        Inr (dupd\<lparr>m_pos := m_pos f, m_cached_block := m_cached_block f, m_cache_buffer := cache\<rparr>)))"

record file_info =
  containing_dev_id :: int
  f_inode :: u64
  f_type :: u32
  f_mode :: u32
  f_hard_links :: u64
  f_uid :: u32
  f_gid :: u32
  f_dev :: int
  f_total_size :: int
  f_access_time :: u64
  f_modify_time :: u64
  f_change_time :: u64
  f_block_size :: u64
  f_blocks :: u64

definition inode_info :: "inode \<Rightarrow> file_info" where
  "inode_info i =
     \<lparr>containing_dev_id = 0, f_inode = i_id i, f_type = i_type i, f_mode = i_mode i,
      f_hard_links = i_hard_links i, f_uid = i_uid i, f_gid = i_gid i, f_dev = i_dev i,
      f_total_size = i_size i, f_access_time = i_access_time i, f_modify_time = i_modify_time i,
      f_change_time = i_change_time i, f_block_size = i_block_size i, f_blocks = i_block_count i\<rparr>"

definition file_finfo :: "inode_file \<Rightarrow> file_info" where
  "file_finfo f = inode_info (m_inode f)"


subsection \<open>Reading blocks\<close>

text \<open>An inode that delivers the blocks of the file whose bytes are those of \<open>disk\<close>.\<close>

definition inode_delivers :: "(u64 \<Rightarrow> u8) \<Rightarrow> u16 \<Rightarrow> read_blocks \<Rightarrow> bool" where
  "inode_delivers disk bs rd \<longleftrightarrow>
     (\<forall>s c. 1 \<le> unat c \<longrightarrow> rd s c = disk_bytes disk (s * ucast bs) (unat c * unat bs))"

text \<open>A buffer in which the first \<open>n\<close> bytes from \<open>S\<close> on have been placed at \<open>b\<close>.\<close>

definition placed :: "(u64 \<Rightarrow> u8) \<Rightarrow> u64 \<Rightarrow> nat \<Rightarrow> u8 list \<Rightarrow> nat \<Rightarrow> u8 list" where
  "placed disk S b buffer n = take b buffer @ disk_bytes disk S n @ drop (b + n) buffer"

lemma placed_0 [simp]: "placed disk S b buffer 0 = buffer"
  by (simp add: placed_def disk_bytes_def)

lemma place_more:
  assumes "b + n + m \<le> length buffer" "j + m \<le> length bytes"
    and "take m (drop j bytes) = disk_bytes disk (S + of_nat n) m"
  shows "memcpy (placed disk S b buffer n) (b + n) bytes j m = Inr (placed disk S b buffer (n + m))"
proof -
  have "length (placed disk S b buffer n) = length buffer" using assms(1) by (simp add: placed_def)
  moreover have "take (b + n) (placed disk S b buffer n) = take b buffer @ disk_bytes disk S n"
    using assms(1) by (simp add: placed_def min_def)
  moreover have "drop (b + n + m) (placed disk S b buffer n) = drop (b + (n + m)) buffer"
    using assms(1) by (simp add: placed_def min_def ac_simps)
  ultimately show ?thesis
    using assms memcpy_spec [of j m bytes "b + n" "placed disk S b buffer n"]
      disk_bytes_append [of disk S n m]
    by (simp add: placed_def add.assoc)
qed

text \<open>The run of whole blocks not yet read, \<open>n\<close> of the \<open>k\<close> bytes passed being in the buffer.\<close>

definition run_pending :: "u16 \<Rightarrow> u64 \<Rightarrow> nat \<Rightarrow> nat \<Rightarrow> bool \<Rightarrow> u64 \<Rightarrow> u32 \<Rightarrow> bool" where
  "run_pending bs S n k combo cs cc \<longleftrightarrow>
     (if combo then 1 \<le> unat cc \<and> n + unat cc * unat bs = k \<and> cs * ucast bs = S + of_nat n else n = k)"

lemma run_flush:
  assumes rd: "inode_delivers disk bs rd" and run: "run_pending bs S n k True cs cc"
    and "0 < bs" "k \<le> 65535 * unat bs" "b + k \<le> length buffer"
  shows "store_blocks (placed disk S b buffer n) (b + n) (rd cs (ucast cc)) = Inr (placed disk S b buffer k)"
    and "n + unat (cc * ucast bs) = k"
proof -
  have r: "1 \<le> unat cc" "n + unat cc * unat bs = k" "cs * ucast bs = S + of_nat n"
    using run by (simp_all add: run_pending_def)
  have bs: "0 < unat bs" "unat bs < 65536"
    using assms(3) unat_less_2p [of bs] by (simp_all add: word_less_nat_alt)
  have small: "unat cc * unat bs \<le> 65535 * unat bs" using r(2) assms(4) by linarith
  then have cc: "unat cc \<le> 65535" using bs(1) by simp
  have u: "unat (ucast cc :: u16) = unat cc" using cc by (simp add: unat_ucast_mod)
  have d: "rd cs (ucast cc) = disk_bytes disk (S + of_nat n) (unat cc * unat bs)"
    using rd r(1,3) u by (simp add: inode_delivers_def)
  show "store_blocks (placed disk S b buffer n) (b + n) (rd cs (ucast cc)) = Inr (placed disk S b buffer k)"
    using place_more [of b n "unat cc * unat bs" buffer 0 "rd cs (ucast cc)" disk S] r(2) assms(5) d
    by (simp add: store_blocks_def)
  have "unat cc * unat bs < 2 ^ 32" using order.strict_trans1 [OF small] bs(2) by simp
  moreover have "unat (ucast bs :: u32) = unat bs" using bs(2) by (simp add: unat_ucast_mod)
  ultimately show "n + unat (cc * ucast bs) = k" using r(2) by (simp add: unat_word_ariths)
qed

lemma run_whole:
  assumes "run_pending bs S n k combo cs cc" "unat (S + of_nat k) mod unat bs = 0"
    and "0 < bs" "k + unat bs \<le> 65535 * unat bs"
  shows "run_pending bs S n (k + unat bs) True (if combo then cs else (S + of_nat k) div ucast bs)
           ((if combo then cc else 0) + 1)"
proof (cases combo)
  case True
  then have r: "n + unat cc * unat bs = k" "cs * ucast bs = S + of_nat n"
    using assms(1) by (simp_all add: run_pending_def)
  have "0 < unat bs" using assms(3) by (simp add: word_less_nat_alt)
  moreover have "(unat cc + 1) * unat bs \<le> 65535 * unat bs"
    using r(1) assms(4) unfolding add_mult_distrib by linarith
  ultimately have "unat cc + 1 \<le> 65535" by (metis mult_le_cancel2)
  then have "unat (cc + 1) = unat cc + 1" by (simp add: unat_word_ariths)
  with True r show ?thesis by (simp add: run_pending_def)
next
  case False
  moreover have "(S + of_nat k) div ucast bs * ucast bs = S + of_nat k"
    using sector_start [of "S + of_nat k" bs] assms(2) by simp
  ultimately show ?thesis using assms(1) by (simp add: run_pending_def)
qed

lemma inode_isPerfect: "inode_isPerfect = isPerfect"
  by (auto simp: fun_eq_iff inode_isPerfect_def isPerfect_def)

lemma readBlocks_loop_bytes:
  assumes rd: "inode_delivers disk bs rd" and bs: "0 < bs"
    and "run_pending bs S n k combo cs cc"
    and "b + k + unat len \<le> length buffer" "k + unat len \<le> 65535 * unat bs"
  shows "readBlocks_loop rd bs (placed disk S b buffer n) (b + n) (S + of_nat k) len combo cs cc
           = Inr (placed disk S b buffer (k + unat len))"
  using assms(3-)
proof (induction "unat len" arbitrary: len n k combo cs cc rule: less_induct)
  case less
  let ?start = "S + of_nat k"
  note run = less.prems(1) and room = less.prems(2,3)
  have flush: "store_blocks (placed disk S b buffer n) (b + n) (rd cs (ucast cc)) = Inr (placed disk S b buffer k)
      \<and> n + unat (cc * ucast bs) = k" if combo
    using run_flush [OF rd _ bs, of S n k cs cc b buffer] run that room by simp
  have stay: "n = k" if "\<not> combo" using run that by (simp add: run_pending_def)
  show ?case
  proof (cases "len = 0")
    case True
    then show ?thesis using flush stay by (subst readBlocks_loop.simps) auto
  next
    case False
    then have pos: "0 < len" by (simp add: word_gt_0)
    define offset llen where "offset = (ucast (?start - size_floor ?start (ucast bs)) :: u32)"
      and "llen = min (ucast bs - offset) len"
    note sz = pass_sizes [OF bs pos, of ?start, folded offset_def llen_def]
    have rest: "unat (len - llen) = unat len - unat llen" using sz(3) by (simp add: unat_sub word_le_nat_alt)
    have smaller: "unat (len - llen) < unat len" using sz(2,3) rest by linarith
    have st: "?start + ucast llen = S + of_nat (k + unat llen)" by (simp add: add.assoc)
    have left: "k + unat llen + unat (len - llen) = k + unat len" using rest sz(3) by simp
    note IH = less.hyps [OF smaller, of _ "k + unat llen", unfolded left, folded st]
    have room': "b + (k + unat llen) + unat (len - llen) \<le> length buffer"
      using room(1) left by linarith
    have bs0: "bs \<noteq> 0" using bs by auto
    show ?thesis
    proof (cases "isPerfect bs ?start llen")
      case True
      then have w: "unat ?start mod unat bs = 0" "unat llen = unat bs" using sz(5) by simp_all
      have "run_pending bs S n (k + unat llen) True (if combo then cs else ?start div ucast bs)
          ((if combo then cc else 0) + 1)"
        using run_whole [OF run w(1) bs] room(2) sz(3) w(2) by simp
      from IH [OF this room' room(2)] True pos bs0 show ?thesis
        by (subst readBlocks_loop.simps)
           (simp only: Let_def offset_def [symmetric] llen_def [symmetric] inode_isPerfect if_True if_False
             not_True_eq_False simp_thms)
    next
      case False
      have "rd (?start div ucast bs) 1 = disk_bytes disk (?start div ucast bs * ucast bs) (unat bs)"
        using rd by (simp add: inode_delivers_def)
      moreover have "?start div ucast bs * ucast bs + of_nat (unat offset) = ?start"
        using sector_start [of ?start bs] sz(1) by simp
      ultimately have part: "memcpy (placed disk S b buffer k) (b + k) (rd (?start div ucast bs) 1)
          (unat offset) (unat llen) = Inr (placed disk S b buffer (k + unat llen))"
        using room sz(3,4) disk_bytes_part [OF sz(4), of disk "?start div ucast bs * ucast bs"]
        by (intro place_more) auto
      have before: "(if combo then res_bind (store_blocks (placed disk S b buffer n) (b + n) (rd cs (ucast cc)))
            (\<lambda>ba. Inr (ba, b + n + unat (cc * ucast bs))) else Inr (placed disk S b buffer n, b + n))
          = Inr (placed disk S b buffer k, b + k)"
        using flush stay by (auto simp: add.assoc)
      have run': "run_pending bs S (k + unat llen) (k + unat llen) False cs cc" by (simp add: run_pending_def)
      from IH [OF run' room' room(2)] False pos bs0 before part show ?thesis
        by (subst readBlocks_loop.simps)
           (simp only: Let_def offset_def [symmetric] llen_def [symmetric] inode_isPerfect if_True if_False
             not_False_eq_True simp_thms sum.case prod.case add.assoc)
    qed
  qed
qed

lemma readBlocks_bytes:
  assumes "inode_delivers disk bs rd" "0 < bs"
    and "b + unat len \<le> length buffer" "unat len \<le> 65535 * unat bs"
  shows "readBlocks rd bs buffer b S len = Inr (placed disk S b buffer (unat len))"
  using readBlocks_loop_bytes [OF assms(1,2), of S 0 0 False 0 0 b len buffer] assms(3,4)
  by (simp add: readBlocks_def run_pending_def)


subsection \<open>Reading files\<close>

text \<open>
  A file in order: its inode delivers the blocks of the file, the block size is a power of two, the
  position is inside the file, and the cache holds the block it says it holds, if any.
\<close>

definition file_ok :: "(u64 \<Rightarrow> u8) \<Rightarrow> read_blocks \<Rightarrow> inode_file \<Rightarrow> bool" where
  "file_ok disk rd f \<longleftrightarrow>
     inode_delivers disk (m_block_size f) rd \<and> (\<exists>j < 16. unat (m_block_size f) = 2 ^ j)
     \<and> 0 \<le> m_pos f \<and> m_pos f \<le> i_size (m_inode f) \<and> i_size (m_inode f) < 2 ^ 63
     \<and> length (m_cache_buffer f) = unat (m_block_size f)
     \<and> (m_cached_block f = 0xFFFFFFFFFFFFFFFF
        \<or> m_cache_buffer f = disk_bytes disk (m_cached_block f * ucast (m_block_size f)) (unat (m_block_size f)))"

lemma placed_placed:
  "b + k + m \<le> length buffer \<Longrightarrow>
     placed disk (S + of_nat k) (b + k) (placed disk S b buffer k) m = placed disk S b buffer (k + m)"
  by (simp add: placed_def min_def disk_bytes_append [symmetric] ac_simps)

lemma file_bs:
  assumes "file_ok disk rd f"
  shows "0 < m_block_size f" "unat (ucast (m_block_size f) :: u64) = unat (m_block_size f)"
    "unat (ucast (m_block_size f) :: u32) = unat (m_block_size f)" "unat (m_block_size f) \<le> 32768"
    "0 < unat (m_block_size f)"
proof -
  from assms obtain j where j: "j < 16" "unat (m_block_size f) = 2 ^ j" by (auto simp: file_ok_def)
  show "0 < m_block_size f" "0 < unat (m_block_size f)" using j by (simp_all add: word_less_nat_alt)
  have "(2 :: nat) ^ j \<le> 2 ^ 15" using j(1) by (intro power_increasing) auto
  then show "unat (m_block_size f) \<le> 32768" using j(2) by simp
  then show "unat (ucast (m_block_size f) :: u64) = unat (m_block_size f)"
    "unat (ucast (m_block_size f) :: u32) = unat (m_block_size f)" by (simp_all add: unat_ucast_mod)
qed

lemma file_offset:
  assumes "file_ok disk rd f"
  shows "unat (ucast ((x :: u64) AND (ucast (m_block_size f) - 1)) :: u16) = unat x mod unat (m_block_size f)"
proof -
  from assms obtain j where j: "j < 16" "unat (m_block_size f) = 2 ^ j" by (auto simp: file_ok_def)
  have "(2 :: nat) ^ j < 2 ^ 64" using j(1) by (intro power_strict_increasing) auto
  then have "unat (of_nat (2 ^ j) :: u64) = 2 ^ j" unfolding unat_of_nat by simp
  then have p: "unat (2 ^ j :: u64) = 2 ^ j" by simp
  then have "(ucast (m_block_size f) :: u64) = 2 ^ j"
    using file_bs(2) [OF assms] j(2) by (simp add: word_unat_eq_iff)
  then have "x AND (ucast (m_block_size f) - 1) = take_bit j x"
    by (simp add: take_bit_eq_mask mask_eq_exp_minus_1)
  moreover have "unat (take_bit j x) = unat x mod 2 ^ j" by (simp add: take_bit_eq_mod unat_mod p)
  moreover have "unat x mod 2 ^ j < 2 ^ 16"
  proof -
    have "unat x mod 2 ^ j < 2 ^ j" by simp
    also have "(2 :: nat) ^ j < 2 ^ 16" using j(1) by (intro power_strict_increasing) auto
    finally show ?thesis .
  qed
  ultimately show ?thesis using j(2) by (simp add: unat_ucast_mod)
qed

text \<open>How much of a read the cache answers.\<close>

definition cached_part :: "inode_file \<Rightarrow> nat \<Rightarrow> nat" where
  "cached_part f n =
     (if nat (m_pos f) div unat (m_block_size f) = unat (m_cached_block f)
      then min (unat (m_block_size f) - nat (m_pos f) mod unat (m_block_size f)) n else 0)"

lemma cache_read:
  assumes ok: "file_ok disk rd f" and hit: "(word_of_int (m_pos f) :: u64) div ucast (m_block_size f) = m_cached_block f"
    and n: "n = unat (count :: u64)" "n \<le> length buffer"
  defines "offset \<equiv> ucast ((word_of_int (m_pos f) :: u64) AND (ucast (m_block_size f) - 1)) :: u16"
  defines "len \<equiv> ucast (min (ucast (m_block_size f) - ucast offset) count) :: u16"
  shows "unat len = cached_part f n"
    and "memcpy buffer 0 (m_cache_buffer f) (unat offset) (unat len)
       = Inr (placed disk (word_of_int (m_pos f)) 0 buffer (unat len))"
proof -
  let ?bs = "unat (m_block_size f)" and ?P = "word_of_int (m_pos f) :: u64"
  note bs = file_bs [OF ok]
  have P: "unat ?P = nat (m_pos f)" using ok by (intro unat_word_of_int_small) (auto simp: file_ok_def)
  have off: "unat offset = nat (m_pos f) mod ?bs" using file_offset [OF ok, of ?P] P by (simp add: offset_def)
  have offs: "unat offset < ?bs" using off bs(5) by simp
  have o64: "unat (ucast offset :: u64) = unat offset" using unat_less_2p [of offset] by (simp add: unat_ucast_mod)
  have sub: "unat (ucast (m_block_size f) - ucast offset :: u64) = ?bs - unat offset"
    using offs bs(2) o64 by (simp add: unat_sub word_le_nat_alt)
  have "unat (min (ucast (m_block_size f) - ucast offset) count) = min (?bs - unat offset) n"
    unfolding n(1) sub [symmetric] by (simp add: min_def word_le_nat_alt)
  then have len: "unat len = min (?bs - unat offset) n" using bs(4) by (simp add: len_def unat_ucast_mod)
  have div: "nat (m_pos f) div ?bs = unat (m_cached_block f)"
    unfolding hit [symmetric] by (simp add: unat_div P bs(2))
  then show lk: "unat len = cached_part f n" using len off by (simp add: cached_part_def)
  have "unat (m_cached_block f) \<le> nat (m_pos f)" unfolding div [symmetric] by simp
  moreover have "nat (m_pos f) < 2 ^ 63" using ok by (auto simp: file_ok_def)
  ultimately have "m_cached_block f \<noteq> 0xFFFFFFFFFFFFFFFF" by auto
  then have cache: "m_cache_buffer f = disk_bytes disk (m_cached_block f * ucast (m_block_size f)) ?bs"
    using ok by (auto simp: file_ok_def)
  have at: "m_cached_block f * ucast (m_block_size f) + of_nat (unat offset) = ?P"
    using sector_start [of ?P "m_block_size f"] hit off P by simp
  show "memcpy buffer 0 (m_cache_buffer f) (unat offset) (unat len)
       = Inr (placed disk ?P 0 buffer (unat len))"
    using place_more [of 0 0 "unat len" buffer "unat offset" "m_cache_buffer f" disk ?P] n(2) len offs cache at
      disk_bytes_part [of "unat offset" "unat len" ?bs disk "m_cached_block f * ucast (m_block_size f)"]
    by simp
qed


lemma file_read_cached:
  assumes ok: "file_ok disk rd f" and c: "unat (c :: u64) = n" "n \<le> length buffer"
  defines "P \<equiv> word_of_int (m_pos f) :: u64" and "k \<equiv> cached_part f n"
  shows "(if P div ucast (m_block_size f) = m_cached_block f then
            let offset = (ucast (P AND (ucast (m_block_size f) - 1)) :: u16);
                len = (ucast (min (ucast (m_block_size f) - ucast offset) c) :: u16)
            in res_bind (memcpy buffer 0 (m_cache_buffer f) (unat offset) (unat len)) (\<lambda>buffer.
                 Inr (buffer, unat len, c - ucast len, m_pos f + uint len))
          else Inr (buffer, 0, c, m_pos f))
        = Inr (placed disk P 0 buffer k, k, of_nat (n - k), m_pos f + int k)"
proof (cases "P div ucast (m_block_size f) = m_cached_block f")
  case True
  define offset len where "offset = (ucast (P AND (ucast (m_block_size f) - 1)) :: u16)"
    and "len = (ucast (min (ucast (m_block_size f) - ucast offset) c) :: u16)"
  note cr = cache_read [OF ok, folded P_def, OF True c(1) [symmetric] c(2), folded offset_def, folded len_def]
  have k: "unat len = k" "k \<le> n" using cr(1) by (simp_all add: k_def cached_part_def)
  have "unat (ucast len :: u64) = k" using k(1) unat_less_2p [of len] by (simp add: unat_ucast_mod)
  then have "unat (c - ucast len) = n - k" using c(1) k(2) by (simp add: unat_sub word_le_nat_alt)
  then have "of_nat (unat (c - ucast len)) = (of_nat (n - k) :: u64)" by (rule arg_cong)
  then have sub: "c - ucast len = of_nat (n - k)" by (simp only: of_nat_unat ucast_id)
  have "uint len = int k" using k(1) by (simp add: uint_nat)
  then show ?thesis
    using True cr(2) k sub by (simp add: offset_def [symmetric] len_def [symmetric])
next
  case False
  have "unat P = nat (m_pos f)" unfolding P_def using ok by (intro unat_word_of_int_small) (auto simp: file_ok_def)
  then have "k = 0" using False file_bs(2) [OF ok] by (simp add: k_def cached_part_def word_unat_eq_iff unat_div)
  then show ?thesis using False c(1) by (auto simp: word_unat_eq_iff)
qed

text \<open>The rest of a read, and the block that is cached behind it.\<close>

lemma file_read_rest:
  assumes ok: "file_ok disk rd f" and n: "nat (m_pos f) + n \<le> nat (i_size (m_inode f))"
  defines "lb \<equiv> (word_of_int (m_pos f + int n) :: u64) div ucast (m_block_size f)"
  shows "\<exists>cache. (if lb \<noteq> m_cached_block f
        then readBlocks rd (m_block_size f) (m_cache_buffer f) 0 (lb * ucast (m_block_size f)) (ucast (m_block_size f))
        else Inr (m_cache_buffer f)) = Inr cache
      \<and> file_ok disk rd (f\<lparr>m_pos := m_pos f + int n, m_cached_block := lb, m_cache_buffer := cache\<rparr>)"
proof -
  let ?bs = "m_block_size f"
  note bs = file_bs [OF ok]
  have len: "length (m_cache_buffer f) = unat ?bs" "inode_delivers disk ?bs rd" using ok by (simp_all add: file_ok_def)
  have "unat (ucast ?bs :: u32) \<le> 65535 * unat ?bs" using bs by simp
  then have rd: "readBlocks rd ?bs (m_cache_buffer f) 0 (lb * ucast ?bs) (ucast ?bs)
      = Inr (disk_bytes disk (lb * ucast ?bs) (unat ?bs))"
    using readBlocks_bytes [OF len(2) bs(1), of 0 "ucast ?bs" "m_cache_buffer f"] len(1) bs(3)
    by (simp add: placed_def)
  have le: "m_pos f + int n \<le> i_size (m_inode f)" using n ok by (auto simp: file_ok_def)
  show ?thesis
  proof (cases "lb = m_cached_block f")
    case True
    then show ?thesis using ok le by (auto simp: file_ok_def)
  next
    case False
    then show ?thesis using ok le rd by (auto simp: file_ok_def)
  qed
qed

lemma file_read_blocks:
  assumes ok: "file_ok disk rd f" and k: "k \<le> n" and room: "n \<le> length buffer" "n \<le> 65535 * unat (m_block_size f)"
  defines "P \<equiv> word_of_int (m_pos f) :: u64"
  shows "readBlocks rd (m_block_size f) (placed disk P 0 buffer k) k (word_of_int (m_pos f + int k)) (ucast (of_nat (n - k) :: u64))
        = Inr (placed disk P 0 buffer n)"
proof -
  note bs = file_bs [OF ok]
  have "n < 2 ^ 32" using room(2) bs(4) by simp
  then have r32: "unat (ucast (of_nat (n - k) :: u64) :: u32) = n - k" by (simp add: unat_of_nat unat_ucast_mod)
  have start: "(word_of_int (m_pos f + int k) :: u64) = P + of_nat k" by (simp add: P_def)
  show ?thesis
    unfolding start using readBlocks_bytes [OF _ bs(1), of disk rd k "ucast (of_nat (n - k) :: u64)" "placed disk P 0 buffer k" "P + of_nat k"]
      placed_placed [of 0 k "n - k" buffer disk P] ok room k r32
    by (simp add: file_ok_def placed_def [of _ _ 0 _ k])
qed

text \<open>The body of a read that has something to deliver.\<close>

lemma file_read_body_bytes:
  assumes ok: "file_ok disk rd f" and c: "unat c = n" "n \<noteq> 0"
    and room: "n \<le> length buffer" "n \<le> 65535 * unat (m_block_size f)" and le: "nat (m_pos f) + n \<le> nat (i_size (m_inode f))"
  shows "\<exists>f'. file_read_body rd buffer asked c f =
      Inr (f', placed disk (word_of_int (m_pos f)) 0 buffer n, if cached_part f n = n then uint asked else int (n - cached_part f n))
    \<and> m_pos f' = m_pos f + int n \<and> m_inode f' = m_inode f \<and> file_ok disk rd f'"
proof -
  let ?bs = "m_block_size f" and ?P = "word_of_int (m_pos f) :: u64"
  note bs = file_bs [OF ok]
  have nz: "c \<noteq> 0" "?bs \<noteq> 0" using c bs(1) by auto
  define k where "k = cached_part f n"
  have k: "k \<le> n" by (simp add: k_def cached_part_def)
  note first = file_read_cached [OF ok c(1) room(1), folded k_def]
  note blocks = file_read_blocks [OF ok k room]
  have "n < 2 ^ 32" using room(2) bs(4) by simp
  then have r64: "unat (of_nat (n - k) :: u64) = n - k" by (simp add: unat_of_nat)
  then have moved: "m_pos f + int k + uint (of_nat (n - k) :: u64) = m_pos f + int n" using k by (simp add: uint_nat)
  obtain cache where cache: "(if (word_of_int (m_pos f + int n) :: u64) div ucast ?bs \<noteq> m_cached_block f
      then readBlocks rd ?bs (m_cache_buffer f) 0 ((word_of_int (m_pos f + int n) :: u64) div ucast ?bs * ucast ?bs) (ucast ?bs)
      else Inr (m_cache_buffer f)) = Inr cache"
    "file_ok disk rd (f\<lparr>m_pos := m_pos f + int n, m_cached_block := (word_of_int (m_pos f + int n) :: u64) div ucast ?bs,
       m_cache_buffer := cache\<rparr>)"
    using file_read_rest [OF ok le] by blast
  show ?thesis
  proof (cases "k = n")
    case True
    have "file_ok disk rd (f\<lparr>m_pos := m_pos f + int n\<rparr>)" using ok le by (auto simp: file_ok_def)
    moreover have "(of_nat (n - k) :: u64) = 0" using True by simp
    then have "file_read_body rd buffer asked c f = Inr (f\<lparr>m_pos := m_pos f + int k\<rparr>, placed disk ?P 0 buffer k, uint asked)"
      unfolding file_read_body_def Let_def first [unfolded Let_def]
      by (simp only: nz if_False if_True res_bind_simps prod.case refl)
    ultimately show ?thesis using True by (simp add: k_def)
  next
    case False
    then have rest: "(of_nat (n - k) :: u64) \<noteq> 0" using r64 k by auto
    have "file_read_body rd buffer asked c f = Inr (f\<lparr>m_pos := m_pos f + int n,
        m_cached_block := (word_of_int (m_pos f + int n) :: u64) div ucast ?bs, m_cache_buffer := cache\<rparr>,
        placed disk ?P 0 buffer n, uint (of_nat (n - k) :: u64))"
      unfolding file_read_body_def Let_def first [unfolded Let_def]
      by (simp only: nz rest if_False res_bind_simps prod.case blocks moved cache(1))
    moreover have "uint (of_nat (n - k) :: u64) = int (n - k)" using r64 by (simp add: uint_nat)
    ultimately show ?thesis using cache(2) False by (simp add: k_def)
  qed
qed

text \<open>
  The number of blocks of a run is counted in 32 bits and handed to the inode in 16: a run of 65536 whole
  blocks asks for none.
\<close>

lemma readBlocks_run:
  assumes "0 < bs" "unat start mod unat bs = 0" "unat start + k * unat bs < 2 ^ 64" "k * unat bs < 2 ^ 32"
  shows "readBlocks_loop rd bs buffer at start (of_nat (k * unat bs)) True cs cc
     = store_blocks buffer at (rd cs (ucast (cc + of_nat k)))"
  using assms(2-)
proof (induction k arbitrary: start cc)
  case 0
  then show ?case by (subst readBlocks_loop.simps) simp
next
  case (Suc k)
  define len where "len = (of_nat (Suc k * unat bs) :: u32)"
  have bs: "0 < unat bs" "bs \<noteq> 0" using assms(1) by (auto simp: word_less_nat_alt)
  have len: "unat len = Suc k * unat bs" using Suc.prems(3) unfolding len_def by (simp add: unat_of_nat del: of_nat_mult of_nat_add)
  then have pos: "0 < len" using bs(1) by (simp add: word_less_nat_alt)
  define offset llen where "offset = (ucast (start - size_floor start (ucast bs)) :: u32)" and "llen = min (ucast bs - offset) len"
  note sz = pass_sizes [OF assms(1) pos, of start, folded offset_def, folded llen_def]
  have "offset = 0" using sz(1) Suc.prems(1) by (simp add: unat_eq_0)
  have b: "unat (ucast bs :: u32) = unat bs" using unat_less_2p [of bs] by (simp add: unat_ucast_mod)
  then have "llen = ucast bs" unfolding llen_def \<open>offset = 0\<close> using len by (simp add: min_def word_le_nat_alt )
  then have perfect: "isPerfect bs start llen" using sz(5) Suc.prems(1) b by simp
  have rest: "len - llen = of_nat (k * unat bs)" using \<open>llen = ucast bs\<close> by (simp add: len_def algebra_simps)
  have st: "unat (start + ucast llen) = unat start + unat bs"
    using Suc.prems(2) \<open>llen = ucast bs\<close> b by (simp add: unat_word_ariths unat_ucast_mod)
  have "readBlocks_loop rd bs buffer at (start + ucast llen) (of_nat (k * unat bs)) True cs (cc + 1)
      = store_blocks buffer at (rd cs (ucast (cc + 1 + of_nat k)))"
    using Suc.prems st by (intro Suc.IH) simp_all
  then show ?case unfolding len_def [symmetric] using perfect pos bs(2)
    by (subst readBlocks_loop.simps)
       (simp only: Let_def offset_def [symmetric] llen_def [symmetric] inode_isPerfect rest if_True if_False not_True_eq_False simp_thms
         of_nat_Suc add.assoc)
qed

lemma cut_16: "ucast (1 + of_nat 65535 :: u32) = (0 :: u16)"
  by (simp add: word_eq_iff_unsigned unsigned_ucast_eq)

lemma readBlocks_run_cut:
  "readBlocks rd 512 buffer at 0 (65536 * 512) = store_blocks buffer at (rd 0 0)"
proof -
  have "readBlocks rd 512 buffer at 0 (65536 * 512) = readBlocks_loop rd 512 buffer at 512 (65535 * 512) True 0 1"
    unfolding readBlocks_def
    by (subst readBlocks_loop.simps) (simp add: inode_isPerfect_def size_floor_def min_def)
  also have "\<dots> = store_blocks buffer at (rd 0 (ucast (1 + of_nat 65535 :: u32)))"
    using readBlocks_run [of 512 512 65535 rd buffer at 0 1] unfolding cut_16 by simp
  finally show ?thesis unfolding cut_16 .
qed




text \<open>Seeking keeps the file in order and fails exactly outside it; a copy is a file in order at the same place.\<close>

lemma file_seek_ok:
  assumes "file_ok disk rd f"
  shows "file_ok disk rd (fst (file_seek offset mode f))"
    "snd (file_seek offset SEEK_SET f) = (if 0 \<le> offset \<and> offset \<le> i_size (m_inode f) then Inr offset else Inl EINVAL)"
  using assms by (auto simp: file_seek_def file_ok_def Let_def split: seek_mode.splits)

lemma file_dup_ok:
  assumes "file_ok disk rd f" "m_block_size f = ucast control_block_size"
  shows "file_dup control_block_size f = Inr f"
  using assms memcpy_spec [of 0 "unat (m_block_size f)" "m_cache_buffer f" 0 "replicate (unat (m_block_size f)) 0"]
  by (simp add: file_dup_def newINodeFile_def file_ok_def Let_def)

end
