(* ===== verification/Vfs.thy ===== *)
theory Vfs
  imports INodeFile Path
begin

unbundle bit_operations_syntax

text \<open>
  The virtual file system (\<open>fs/fs.cpp\<close>, \<open>fs/controlblock.cpp\<close>, \<open>fs/file.cpp\<close>) and the file system of
  devices (\<open>fs/driver/devfs\<close>). Mounts and devices are tables that are iterated in the order of
  registration. A control block brings the two virtual methods path lookup calls, \<open>getINode\<close> and
  the inode's \<open>readDir\<close>, as functions; a call of \<open>readDir\<close> that never returns is \<open>None\<close>, and
  the end of a directory is an error code of \<open>ENONE\<close>, an empty \<open>optional\<close>. Names are strings, so
  \<open>strcmp(a, b) == 0\<close> is equality (\<open>CText.strcmp_eq_0\<close>).
\<close>

definition FT_REGULAR :: u32 where "FT_REGULAR = 0x00010000"
definition FT_DIRECTORY :: u32 where "FT_DIRECTORY = 0x00100000"
definition FT_CHAR :: u32 where "FT_CHAR = 0x00020000"
definition FT_BLOCK :: u32 where "FT_BLOCK = 0x00060000"
definition FT_NET :: u32 where "FT_NET = 0x000A0000"

definition is_regular :: "u32 \<Rightarrow> bool" where "is_regular type \<longleftrightarrow> type AND FT_REGULAR = FT_REGULAR"
definition is_directory :: "u32 \<Rightarrow> bool" where "is_directory type \<longleftrightarrow> type AND FT_DIRECTORY = FT_DIRECTORY"
definition is_block :: "u32 \<Rightarrow> bool" where "is_block type \<longleftrightarrow> type AND FT_BLOCK = FT_BLOCK"

record dir_entry =
  de_inode_id :: u64
  de_pos :: int
  de_name :: string
  de_type :: u32

definition no_entry :: dir_entry where
  "no_entry = \<lparr>de_inode_id = 0, de_pos = 0, de_name = [], de_type = 0\<rparr>"

definition new_dir_entry :: "string \<Rightarrow> int \<Rightarrow> int \<Rightarrow> dir_entry" where
  "new_dir_entry name pos inode_id =
     \<lparr>de_inode_id = word_of_int inode_id, de_pos = pos, de_name = take 255 name, de_type = 0\<rparr>"

type_synonym 'i read_dir = "'i \<Rightarrow> u64 \<Rightarrow> (dir_entry optional \<times> u64) option"

record 'i control_block =
  root_inode_id :: u64
  cb_block_size :: u64
  getINode :: "'i option \<Rightarrow> dir_entry \<Rightarrow> u64 \<Rightarrow> 'i optional"
  readDir :: "'i read_dir"
  set_id :: "u64 \<Rightarrow> 'i \<Rightarrow> 'i"

subsection \<open>Lookup in a file system\<close>

text \<open>The loop over a directory: the entry of that name, if any, or the error of a \<open>readDir\<close>.\<close>

partial_function (option) find_dir_entry :: "'i read_dir \<Rightarrow> 'i \<Rightarrow> u64 \<Rightarrow> string \<Rightarrow> dir_entry option optional option" where
  "find_dir_entry rd inode pos piece =
     (case rd inode pos of None \<Rightarrow> None
      | Some (Inl e, pos) \<Rightarrow> Some (if e = ENONE then Inr None else Inl e)
      | Some (Inr d, pos) \<Rightarrow> if de_name d \<noteq> piece then find_dir_entry rd inode pos piece else Some (Inr (Some d)))"

partial_function (option) walk_inodes :: "'i control_block \<Rightarrow> walker \<Rightarrow> 'i \<Rightarrow> 'i optional option" where
  "walk_inodes cb w inode =
     (case walker_next w of
        (None, w) \<Rightarrow> Some (Inr inode)
      | (Some piece, w) \<Rightarrow>
          (case find_dir_entry (readDir cb) inode 0 piece of None \<Rightarrow> None
           | Some r \<Rightarrow>
             (case r of
                Inl e \<Rightarrow> Some (Inl e)
              | Inr None \<Rightarrow> Some (Inl ENOENT)
              | Inr (Some d) \<Rightarrow>
                  if \<not> isFinal w \<and> \<not> is_directory (de_type d) then Some (Inl ENOENT)
                  else (case getINode cb (Some inode) d (de_inode_id d) of
                          Inl e \<Rightarrow> Some (Inl e)
                        | Inr i \<Rightarrow> walk_inodes cb w (set_id cb (de_inode_id d) i)))))"

definition findINode :: "'i control_block \<Rightarrow> string \<Rightarrow> 'i optional option" where
  "findINode cb lpath =
     (case getINode cb None no_entry (root_inode_id cb) of
        Inl e \<Rightarrow> Some (Inl e)
      | Inr inode \<Rightarrow> walk_inodes cb (newWalker lpath) (set_id cb (root_inode_id cb) inode))"

subsection \<open>Mounts\<close>

record 'i mount =
  mnt_path :: string
  mnt_control_block :: "'i control_block"

record 'i filesystem =
  fs_name :: string
  fs_mount :: "string option \<Rightarrow> 'i control_block optional"

fun mount_loop :: "string option \<Rightarrow> string \<Rightarrow> string option \<Rightarrow> 'i filesystem list \<Rightarrow> 'i mount list \<Rightarrow> error_t \<times> 'i mount list" where
  "mount_loop source path ftype [] mounts = (EINVAL, mounts)"
| "mount_loop source path ftype (fs # rest) mounts =
     (if (case ftype of None \<Rightarrow> False | Some t \<Rightarrow> t \<noteq> fs_name fs)
      then mount_loop source path ftype rest mounts
      else (case fs_mount fs source of
              Inl e \<Rightarrow> mount_loop source path ftype rest mounts
            | Inr cb \<Rightarrow> (ENONE, mounts @ [\<lparr>mnt_path = path, mnt_control_block = cb\<rparr>])))"

definition fs_mount_at ::
    "string option \<Rightarrow> string option \<Rightarrow> string option \<Rightarrow> 'i filesystem list \<Rightarrow> 'i mount list \<Rightarrow> error_t \<times> 'i mount list" where
  "fs_mount_at source path ftype filesystems mounts =
     (case path of None \<Rightarrow> (EINVAL, mounts)
      | Some p \<Rightarrow>
          if \<not> is_valid p then (EINVAL, mounts)
          else if (case source of None \<Rightarrow> False | Some s \<Rightarrow> \<not> is_valid s) then (EINVAL, mounts)
          else mount_loop source p ftype filesystems mounts)"

text \<open>The loop of \<open>find_mount\<close> with \<open>ret\<close> and \<open>max_len\<close>; the length of the path without a final
  slash is at least 1.\<close>

definition mount_path_len :: "string \<Rightarrow> int res" where
  "mount_path_len path =
     res_bind (ends_with_slash path) (\<lambda>s. Inr (max (int (length path) - (if s then 1 else 0)) 1))"

fun find_mount_loop :: "string \<Rightarrow> 'i mount list \<Rightarrow> 'i mount option \<Rightarrow> int \<Rightarrow> ('i mount option \<times> int) res" where
  "find_mount_loop path [] ret max_len = Inr (ret, max_len)"
| "find_mount_loop path (m # ms) ret max_len =
     (let mnt_len = int (length (mnt_path m)) - 1 in
      res_bind (mount_path_len path) (\<lambda>path_len.
        if path_len < mnt_len then find_mount_loop path ms ret max_len
        else if take (nat mnt_len) (mnt_path m) \<noteq> take (nat mnt_len) path then find_mount_loop path ms ret max_len
        else if mnt_len < max_len then find_mount_loop path ms ret max_len
        else find_mount_loop path ms (Some m) mnt_len))"

definition find_mount :: "string option \<Rightarrow> 'i mount list \<Rightarrow> ('i mount \<times> string) optional res" where
  "find_mount path mounts =
     (case path of None \<Rightarrow> Inr (Inl EINVAL)
      | Some p \<Rightarrow>
          if \<not> is_valid p then Inr (Inl EINVAL)
          else res_bind (find_mount_loop p mounts None 0) (\<lambda>(ret, max_len).
            case ret of None \<Rightarrow> Inr (Inl ENOENT)
            | Some m \<Rightarrow>
                let new_path = drop (nat max_len) p
                in Inr (Inr (m, if new_path = [] then ''/'' else new_path))))"


subsection \<open>Devices\<close>

datatype fs_dev_type_t = DEV_BLOCK | DEV_CHAR | DEV_NET

record fs_device =
  dv_name :: string
  dv_type :: fs_dev_type_t

type_synonym fs_devices = "fs_device option list"

definition fs_devices_get :: "int \<Rightarrow> fs_devices \<Rightarrow> fs_device option" where
  "fs_devices_get k devs = (if k < 0 \<or> k \<ge> int (length devs) then None else devs ! nat k)"

text \<open>The device's \<open>open\<close> is the driver's; \<open>opn\<close> is its result.\<close>

definition open_char_handle :: "(fs_device \<Rightarrow> int \<Rightarrow> error_t) \<Rightarrow> fs_devices \<Rightarrow> int \<Rightarrow> int \<Rightarrow> unit optional" where
  "open_char_handle opn devs k mode =
     (case fs_devices_get k devs of None \<Rightarrow> Inl ENONE
      | Some d \<Rightarrow>
          if dv_type d \<noteq> DEV_CHAR then Inl ENONE
          else if opn d mode \<noteq> ENONE then Inl (opn d mode) else Inr ())"

definition devfile_open :: "(fs_device \<Rightarrow> int \<Rightarrow> error_t) \<Rightarrow> fs_devices \<Rightarrow> int \<Rightarrow> int \<Rightarrow> unit optional" where
  "devfile_open opn devs k mode =
     (case fs_devices_get k devs of None \<Rightarrow> Inl ENOENT
      | Some d \<Rightarrow>
          (case dv_type d of DEV_BLOCK \<Rightarrow> Inl EBOTHER
           | DEV_CHAR \<Rightarrow> open_char_handle opn devs k mode
           | DEV_NET \<Rightarrow> Inl ENOSYS))"

text \<open>\<open>File::open\<close>: a directory, a device or a regular file.\<close>

datatype opened = OpenDirectory inode | OpenDevice int | OpenRegular inode

definition open_inode :: "(fs_device \<Rightarrow> int \<Rightarrow> error_t) \<Rightarrow> fs_devices \<Rightarrow> int \<Rightarrow> inode \<Rightarrow> opened optional" where
  "open_inode opn devs mode i =
     (if is_directory (i_type i) then (if mode \<noteq> 1 then Inl EISDIR else Inr (OpenDirectory i))
      else if i_dev i \<noteq> -1 then
        (case devfile_open opn devs (i_dev i) mode of Inl e \<Rightarrow> Inl e | Inr _ \<Rightarrow> Inr (OpenDevice (i_dev i)))
      else Inr (OpenRegular i))"

definition lookup :: "inode mount list \<Rightarrow> string option \<Rightarrow> inode optional option res" where
  "lookup mounts path =
     res_bind (find_mount path mounts) (\<lambda>r. case r of
       Inl e \<Rightarrow> Inr (Some (Inl e))
     | Inr (m, new_path) \<Rightarrow> Inr (findINode (mnt_control_block m) new_path))"

definition file_open ::
    "(fs_device \<Rightarrow> int \<Rightarrow> error_t) \<Rightarrow> fs_devices \<Rightarrow> inode mount list \<Rightarrow> string option \<Rightarrow> int \<Rightarrow> opened optional option res" where
  "file_open opn devs mounts path mode =
     res_bind (lookup mounts path) (\<lambda>r. Inr (case r of None \<Rightarrow> None
       | Some (Inl e) \<Rightarrow> Some (Inl e)
       | Some (Inr i) \<Rightarrow> Some (open_inode opn devs mode i)))"

definition file_path_info :: "inode mount list \<Rightarrow> string option \<Rightarrow> file_info optional option res" where
  "file_path_info mounts path =
     res_bind (lookup mounts path) (\<lambda>r. Inr (case r of None \<Rightarrow> None
       | Some (Inl e) \<Rightarrow> Some (Inl e)
       | Some (Inr i) \<Rightarrow> Some (Inr (inode_info i))))"

subsection \<open>The file system of devices\<close>

text \<open>A new inode: the allocator hands out zeroed memory, and \<open>dev\<close> starts as -1.\<close>

definition new_inode :: inode where
  "new_inode = \<lparr>i_id = 0, i_type = 0, i_mode = 0, i_hard_links = 0, i_uid = 0, i_gid = 0, i_dev = -1,
     i_access_time = 0, i_modify_time = 0, i_change_time = 0, i_block_count = 0, i_block_size = 0, i_size = 0\<rparr>"

text \<open>\<open>DevFSRootINode::readDir\<close>. Where the table has no device at the position, the loop goes round
  without moving on.\<close>

partial_function (option) devfs_readDir :: "fs_devices \<Rightarrow> u64 \<Rightarrow> (dir_entry optional \<times> u64) option" where
  "devfs_readDir devs pos =
     (if sint (ucast pos :: u32) < int (length devs) then
        (case fs_devices_get (sint (ucast pos :: u32)) devs of
           None \<Rightarrow> devfs_readDir devs pos
         | Some d \<Rightarrow>
             let pos = pos + 1
             in Some (Inr (new_dir_entry (dv_name d) (sint (ucast (pos - 1) :: u32)) (sint (ucast (pos + 1) :: u32))), pos))
      else Some (Inl ENONE, pos))"

definition devfs_getINode :: "fs_devices \<Rightarrow> inode option \<Rightarrow> dir_entry \<Rightarrow> u64 \<Rightarrow> inode optional" where
  "devfs_getINode devs dir dentry k =
     (if k = 1 then Inr (new_inode\<lparr>i_type := FT_DIRECTORY\<rparr>)
      else
        let d = sint (ucast (k - 2) :: u32) in
        (case fs_devices_get d devs of None \<Rightarrow> Inl ENOENT
         | Some dev \<Rightarrow>
             Inr (new_inode\<lparr>i_dev := d,
               i_type := (case dv_type dev of DEV_BLOCK \<Rightarrow> FT_BLOCK | DEV_CHAR \<Rightarrow> FT_CHAR | DEV_NET \<Rightarrow> FT_NET)\<rparr>)))"

text \<open>Only the root is a \<open>DevFSRootINode\<close>; the others have the base class's \<open>readDir\<close>.\<close>

definition devfs_control_block :: "fs_devices \<Rightarrow> inode control_block" where
  "devfs_control_block devs =
     \<lparr>root_inode_id = 1, cb_block_size = 0, getINode = devfs_getINode devs,
      readDir = (\<lambda>i pos. if i_type i = FT_DIRECTORY then devfs_readDir devs pos else Some (Inl ENOSYS, pos)),
      set_id = (\<lambda>k. i_id_update (\<lambda>_. k))\<rparr>"

definition devfs_mount :: "fs_devices \<Rightarrow> string option \<Rightarrow> inode control_block optional" where
  "devfs_mount devs source = (if source \<noteq> None then Inl EINVAL else Inr (devfs_control_block devs))"


subsection \<open>Path lookup as a walk through directories\<close>

text \<open>What reading an inode from a position on delivers: entries, and the code it ends with.\<close>

fun enumerates :: "'i read_dir \<Rightarrow> 'i \<Rightarrow> u64 \<Rightarrow> dir_entry list \<Rightarrow> error_t \<Rightarrow> bool" where
  "enumerates rd i pos [] e \<longleftrightarrow> (\<exists>pos'. rd i pos = Some (Inl e, pos'))"
| "enumerates rd i pos (d # ds) e \<longleftrightarrow> (\<exists>pos'. rd i pos = Some (Inr d, pos') \<and> enumerates rd i pos' ds e)"

fun resolve :: "'i control_block \<Rightarrow> ('i \<Rightarrow> dir_entry list \<times> error_t) \<Rightarrow> 'i \<Rightarrow> string list \<Rightarrow> 'i optional" where
  "resolve cb listing i [] = Inr i"
| "resolve cb listing i (p # ps) =
     (case find (\<lambda>d. de_name d = p) (fst (listing i)) of
        None \<Rightarrow> Inl (if snd (listing i) = ENONE then ENOENT else snd (listing i))
      | Some d \<Rightarrow>
          if ps \<noteq> [] \<and> \<not> is_directory (de_type d) then Inl ENOENT
          else (case getINode cb (Some i) d (de_inode_id d) of
                  Inl e \<Rightarrow> Inl e
                | Inr j \<Rightarrow> resolve cb listing (set_id cb (de_inode_id d) j) ps))"

definition resolve_path :: "'i control_block \<Rightarrow> ('i \<Rightarrow> dir_entry list \<times> error_t) \<Rightarrow> string list \<Rightarrow> 'i optional" where
  "resolve_path cb listing ps =
     (case getINode cb None no_entry (root_inode_id cb) of
        Inl e \<Rightarrow> Inl e
      | Inr i \<Rightarrow> resolve cb listing (set_id cb (root_inode_id cb) i) ps)"

lemma find_dir_entry_enumerates:
  "enumerates rd i pos ds e \<Longrightarrow>
     find_dir_entry rd i pos p =
       Some (case find (\<lambda>d. de_name d = p) ds of Some d \<Rightarrow> Inr (Some d)
             | None \<Rightarrow> if e = ENONE then Inr None else Inl e)"
proof (induction ds arbitrary: pos)
  case Nil
  then show ?case by (subst find_dir_entry.simps) auto
next
  case (Cons d ds)
  then show ?case by (subst find_dir_entry.simps) auto
qed

text \<open>The directories a walk can come to, and that reading each of them ends with the entries listed for it.\<close>

definition walkable :: "'i control_block \<Rightarrow> ('i \<Rightarrow> bool) \<Rightarrow> ('i \<Rightarrow> dir_entry list \<times> error_t) \<Rightarrow> bool" where
  "walkable cb dirs listing \<longleftrightarrow>
     (\<forall>i. dirs i \<longrightarrow> enumerates (readDir cb) i 0 (fst (listing i)) (snd (listing i)))
     \<and> (\<forall>r. getINode cb None no_entry (root_inode_id cb) = Inr r \<longrightarrow> dirs (set_id cb (root_inode_id cb) r))
     \<and> (\<forall>i d j. dirs i \<and> d \<in> set (fst (listing i)) \<and> is_directory (de_type d)
          \<and> getINode cb (Some i) d (de_inode_id d) = Inr j \<longrightarrow> dirs (set_id cb (de_inode_id d) j))"

lemma walkable_all:
  "(\<And>i. enumerates (readDir cb) i 0 (fst (listing i)) (snd (listing i))) \<Longrightarrow> walkable cb (\<lambda>_. True) listing"
  by (simp add: walkable_def)

lemma walk_inodes_resolve:
  assumes walk: "walkable cb dirs listing"
    and "walker_ok w" "w_levels w = w_level w + length (ahead w)" "dirs i \<or> ahead w = []"
  shows "walk_inodes cb w i = Some (resolve cb listing i (ahead w))"
  using assms(2-4)
proof (induction "ahead w" arbitrary: w i)
  case Nil
  then have "fst (walker_next w) = None" using walker_step [OF Nil.prems(1)] by simp
  then show ?case using Nil.hyps [symmetric] by (subst walk_inodes.simps) (auto split: prod.splits)
next
  case (Cons p ps)
  from walker_step [OF Cons.prems(1)] Cons.hyps(2) [symmetric] obtain w' where
    nx: "walker_next w = (Some p, w')" and ok: "walker_ok w'" and ah: "ahead w' = ps"
    and lw: "w_level w' = w_level w + 1" "w_levels w' = w_levels w"
    by force
  have lv: "w_levels w' = w_level w' + length (ahead w')"
    using Cons.prems(2) Cons.hyps(2) [symmetric] ah lw by simp
  have final: "isFinal w' \<longleftrightarrow> ps = []" using lv ah by (simp add: isFinal_def)
  have i: "dirs i" using Cons.prems(3) Cons.hyps(2) by auto
  then have "enumerates (readDir cb) i 0 (fst (listing i)) (snd (listing i))" using walk by (simp add: walkable_def)
  note found = find_dir_entry_enumerates [OF this, of p]
  show ?case
  proof (cases "find (\<lambda>d. de_name d = p) (fst (listing i))")
    case None
    then show ?thesis unfolding Cons.hyps(2) [symmetric] by (subst walk_inodes.simps) (simp add: nx found)
  next
    case (Some d)
    then have d: "d \<in> set (fst (listing i))" by (auto simp: find_Some_iff)
    show ?thesis
    proof (cases "(ps \<noteq> [] \<and> \<not> is_directory (de_type d)) \<or> (\<exists>e. getINode cb (Some i) d (de_inode_id d) = Inl e)")
      case True
      then show ?thesis
        unfolding Cons.hyps(2) [symmetric] by (subst walk_inodes.simps) (auto simp: nx found Some final)
    next
      case False
      then obtain j where j: "getINode cb (Some i) d (de_inode_id d) = Inr j" by (meson old.sum.exhaust)
      have "dirs (set_id cb (de_inode_id d) j) \<or> ahead w' = []"
        using walk i d j False ah unfolding walkable_def by blast
      from Cons.hyps(1) [OF ah [symmetric] ok lv this] show ?thesis
        unfolding Cons.hyps(2) [symmetric] using False by (subst walk_inodes.simps) (auto simp: nx found Some final j ah)
    qed
  qed
qed

text \<open>
  Path lookup in a file system is a walk through its directories: for every name between the slashes the first
  entry of that name, which must be a directory if more names follow.
\<close>

lemma findINode_walk:
  assumes "walkable cb dirs listing" "NUL \<notin> set path" "\<forall>p \<in> set (path_pieces path). length p \<le> 255"
  shows "findINode cb path = Some (resolve_path cb listing (path_pieces path))"
proof -
  have ok: "walker_ok (newWalker path)" "ahead (newWalker path) = path_pieces path"
    using assms(2,3) by (simp_all add: walker_ok_def newWalker_def ahead_def)
  have lv: "w_levels (newWalker path) = w_level (newWalker path) + length (ahead (newWalker path))"
    using count_levels_pieces [OF assms(2)] ok(2) by (simp add: newWalker_def)
  have "dirs (set_id cb (root_inode_id cb) r)" if "getINode cb None no_entry (root_inode_id cb) = Inr r" for r
    using assms(1) that by (simp add: walkable_def)
  then show ?thesis
    using walk_inodes_resolve [OF assms(1) ok(1) lv] ok(2)
    by (auto simp: findINode_def resolve_path_def split: sum.split)
qed

text \<open>The directory of a table of devices without gaps.\<close>

definition devfs_entry :: "fs_device list \<Rightarrow> nat \<Rightarrow> dir_entry" where
  "devfs_entry ds k = new_dir_entry (dv_name (ds ! k)) (int k) (int k + 2)"

definition devfs_listing :: "fs_device list \<Rightarrow> inode \<Rightarrow> dir_entry list \<times> error_t" where
  "devfs_listing ds i =
     (if i_type i = FT_DIRECTORY then (map (devfs_entry ds) [0..<length ds], ENONE) else ([], ENOSYS))"

lemma sint_pos: "k < 2 ^ 31 \<Longrightarrow> sint (ucast (of_nat k :: u64) :: u32) = int k"
  by (simp add: sint_uint unsigned_ucast_eq unsigned_of_nat take_bit_int_eq_self take_bit_nat_eq_self signed_take_bit_int_eq_self)

lemma devfs_readDir_at:
  assumes "k < length ds" "length ds < 2 ^ 31 - 2"
  shows "devfs_readDir (map Some ds) (of_nat k) = Some (Inr (devfs_entry ds k), of_nat (k + 1))"
proof -
  have "sint (ucast (of_nat k :: u64) :: u32) = int k" "sint (ucast (of_nat (k + 2) :: u64) :: u32) = int (k + 2)"
    by (rule sint_pos, use assms in simp)+
  then show ?thesis
    using assms by (subst devfs_readDir.simps) (simp add: fs_devices_get_def devfs_entry_def ac_simps)
qed

lemma devfs_readDir_end:
  "length ds < 2 ^ 31 \<Longrightarrow> devfs_readDir (map Some ds) (of_nat (length ds)) = Some (Inl ENONE, of_nat (length ds))"
  by (subst devfs_readDir.simps) (simp add: sint_pos)

lemma devfs_enumerates:
  assumes "length ds < 2 ^ 31 - 2"
  shows "enumerates (readDir (devfs_control_block (map Some ds))) i 0 (fst (devfs_listing ds i)) (snd (devfs_listing ds i))"
proof (cases "i_type i = FT_DIRECTORY")
  case True
  have "k \<le> length ds \<Longrightarrow> enumerates (readDir (devfs_control_block (map Some ds))) i (of_nat k)
      (map (devfs_entry ds) [k..<length ds]) ENONE" for k
  proof (induction k rule: inc_induct)
    case base
    then show ?case using True assms by (simp add: devfs_control_block_def devfs_readDir_end)
  next
    case (step k)
    then show ?case using True assms devfs_readDir_at [of k ds] 
      by (simp add: devfs_control_block_def upt_conv_Cons)
  qed
  from this [of 0] True show ?thesis by (simp add: devfs_listing_def)
next
  case False
  then show ?thesis by (simp add: devfs_listing_def devfs_control_block_def)
qed

text \<open>A device that is missing in the table, as after an unregistration, stops every reader: the loop does not
  move on.\<close>

lemma devfs_gap_hangs:
  assumes "sint (ucast pos :: u32) < int (length devs)" "fs_devices_get (sint (ucast pos :: u32)) devs = None"
  shows "devfs_readDir devs pos = None"
proof (rule ccontr)
  assume "devfs_readDir devs pos \<noteq> None"
  then obtain y where "devfs_readDir devs pos = Some y" by auto
  moreover have "devfs_readDir d p = Some y \<Longrightarrow> \<not> (sint (ucast p :: u32) < int (length d) \<and> fs_devices_get (sint (ucast p :: u32)) d = None)"
    for d p y
    by (erule devfs_readDir.raw_induct [rotated]) (fastforce split: if_splits option.splits)
  ultimately show False using assms by blast
qed

subsection \<open>Mount points\<close>

definition path_len :: "string \<Rightarrow> nat" where
  "path_len path = max (length path - (if last path = SLASH then 1 else 0)) 1"

definition mount_matches :: "string \<Rightarrow> 'i mount \<Rightarrow> bool" where
  "mount_matches path m \<longleftrightarrow>
     length (mnt_path m) - 1 \<le> path_len path
     \<and> take (length (mnt_path m) - 1) (mnt_path m) = take (length (mnt_path m) - 1) path"

definition best_mount :: "string \<Rightarrow> 'i mount list \<Rightarrow> 'i mount option \<Rightarrow> bool" where
  "best_mount path mounts best \<longleftrightarrow>
     (case best of None \<Rightarrow> \<forall>m \<in> set mounts. \<not> mount_matches path m
      | Some m \<Rightarrow> mount_matches path m \<and> (\<exists>older newer. mounts = older @ m # newer
          \<and> (\<forall>x \<in> set older. mount_matches path x \<longrightarrow> length (mnt_path x) \<le> length (mnt_path m))
          \<and> (\<forall>x \<in> set newer. mount_matches path x \<longrightarrow> length (mnt_path x) < length (mnt_path m))))"

lemma mount_path_len_ok:
  assumes "path \<noteq> []"
  shows "mount_path_len path = Inr (int (path_len path))"
  using assms
  by (auto simp: mount_path_len_def ends_with_slash_def path_len_def path_at_def last_conv_nth of_nat_diff max_def Suc_le_eq)

definition best_len :: "'i mount option \<Rightarrow> int" where
  "best_len best = (case best of None \<Rightarrow> 0 | Some m \<Rightarrow> int (length (mnt_path m)) - 1)"

lemma best_mountI:
  "mount_matches path m \<Longrightarrow> \<forall>x \<in> set older. mount_matches path x \<longrightarrow> length (mnt_path x) \<le> length (mnt_path m) \<Longrightarrow>
     \<forall>x \<in> set newer. mount_matches path x \<longrightarrow> length (mnt_path x) < length (mnt_path m) \<Longrightarrow>
     best_mount path (older @ m # newer) (Some m)"
  by (auto simp: best_mount_def)

lemma earlier_shorter:
  assumes "best_mount path before best" "x \<in> set before" "mount_matches path x"
  shows "int (length (mnt_path x)) - 1 \<le> best_len best"
proof (cases best)
  case None
  then show ?thesis using assms by (auto simp: best_mount_def)
next
  case (Some b)
  then obtain older newer where "before = older @ b # newer"
      "\<forall>x \<in> set older. mount_matches path x \<longrightarrow> length (mnt_path x) \<le> length (mnt_path b)"
      "\<forall>x \<in> set newer. mount_matches path x \<longrightarrow> length (mnt_path x) < length (mnt_path b)"
    using assms(1) by (auto simp: best_mount_def)
  then have "length (mnt_path x) \<le> length (mnt_path b)" using assms(2,3) by (auto intro: less_imp_le)
  then show ?thesis by (simp add: Some best_len_def)
qed

lemma find_mount_loop_best:
  assumes "path \<noteq> []" "\<forall>m \<in> set ms. mnt_path m \<noteq> []" "best_mount path before best"
  shows "\<exists>best'. find_mount_loop path ms best (best_len best) = Inr (best', best_len best')
    \<and> best_mount path (before @ ms) best'"
  using assms(2,3)
proof (induction ms arbitrary: before best)
  case Nil
  then show ?case by auto
next
  case (Cons m ms)
  define n where "n = length (mnt_path m) - 1"
  have n: "int (length (mnt_path m)) - 1 = int n" using Cons.prems(1) by (cases "mnt_path m") (auto simp: n_def)
  have IH: "best_mount path (before @ [m]) b \<Longrightarrow> \<exists>best'. find_mount_loop path ms b (best_len b) = Inr (best', best_len best')
    \<and> best_mount path (before @ m # ms) best'" for b
    using Cons.IH [of "before @ [m]" b] Cons.prems(1) by simp
  have test: "find_mount_loop path (m # ms) b l =
      (if mount_matches path m \<and> l \<le> int n then find_mount_loop path ms (Some m) (int n)
       else find_mount_loop path ms b l)" for b l
    unfolding find_mount_loop.simps Let_def n mount_path_len_ok [OF assms(1)] res_bind_simps nat_int
      mount_matches_def n_def [symmetric] of_nat_less_iff by (auto simp: not_le not_less)
  show ?case
  proof (cases "mount_matches path m \<and> best_len best \<le> int n")
    case True
    then have step: "find_mount_loop path (m # ms) best (best_len best) = find_mount_loop path ms (Some m) (best_len (Some m))"
      using test by (simp add: best_len_def n)
    have "length (mnt_path x) \<le> length (mnt_path m)" if "x \<in> set before" "mount_matches path x" for x
      using earlier_shorter [OF Cons.prems(2) that] True n by linarith
    then have "best_mount path (before @ [m]) (Some m)"
      using True best_mountI [of path m before "[]"] by simp
    from IH [OF this] step show ?thesis by simp
  next
    case False
    then have step: "find_mount_loop path (m # ms) best (best_len best) = find_mount_loop path ms best (best_len best)"
      using test by auto
    have "best_mount path (before @ [m]) best"
    proof (cases best)
      case None
      then show ?thesis using False Cons.prems(2) by (auto simp: best_mount_def best_len_def)
    next
      case (Some b)
      then obtain older newer where "before = older @ b # newer" "mount_matches path b"
          "\<forall>x \<in> set older. mount_matches path x \<longrightarrow> length (mnt_path x) \<le> length (mnt_path b)"
          "\<forall>x \<in> set newer. mount_matches path x \<longrightarrow> length (mnt_path x) < length (mnt_path b)"
        using Cons.prems(2) by (auto simp: best_mount_def)
      moreover have "mount_matches path m \<longrightarrow> length (mnt_path m) < length (mnt_path b)"
        using False n Some by (auto simp: best_len_def)
      ultimately show ?thesis
        using best_mountI [of path b older "newer @ [m]"] by (auto simp: Some)
    qed
    from IH [OF this] step show ?thesis by simp
  qed
qed

text \<open>
  For a valid path \<open>find_mount\<close> returns a mount whose path, without its last character, begins the path; no mount
  that matches is longer, and of equally long ones it is the last registered.
\<close>

lemma find_mount_best:
  assumes "is_valid path" "\<forall>m \<in> set mounts. mnt_path m \<noteq> []"
  shows "\<exists>best. best_mount path mounts best
    \<and> find_mount (Some path) mounts = Inr (case best of None \<Rightarrow> Inl ENOENT
        | Some m \<Rightarrow>
            let rest = drop (length (mnt_path m) - 1) path
            in Inr (m, if rest = [] then ''/'' else rest))"
proof -
  have ne: "path \<noteq> []" using assms(1) by (auto simp: is_valid_def path_at_def split: if_splits)
  have "best_mount path [] None" by (simp add: best_mount_def)
  from find_mount_loop_best [OF ne assms(2) this] obtain best where
    best: "find_mount_loop path mounts None 0 = Inr (best, best_len best)" "best_mount path mounts best"
    by (auto simp: best_len_def)
  have "nat (best_len (Some m)) = length (mnt_path m) - 1" for m :: "'a mount"
    by (simp add: best_len_def nat_diff_distrib)
  with best assms(1) show ?thesis
    by (intro exI [of _ best]) (auto simp: find_mount_def Let_def split: option.splits)
qed


text \<open>
  A mount also takes the paths that merely begin like it: \<open>/devices\<close> is looked up in the file system of
  devices, as the relative path \<open>ices\<close>, although it names an entry of the root.
\<close>

lemma find_mount_no_boundary:
  "find_mount (Some ''/devices'') [\<lparr>mnt_path = ''/dev/'', mnt_control_block = a\<rparr>, \<lparr>mnt_path = ''/'', mnt_control_block = b\<rparr>]
   = Inr (Inr (\<lparr>mnt_path = ''/dev/'', mnt_control_block = a\<rparr>, ''ices''))"
proof -
  have "is_valid ''/devices''" by (simp add: is_valid_total_length NUL_def)
  moreover have "mount_path_len ''/devices'' = Inr 8" by (simp add: mount_path_len_ok path_len_def)
  ultimately show ?thesis by (simp add: find_mount_def Let_def)
qed

text \<open>Opening a name below the mount of the devices opens the first device of that name.\<close>

lemma devfs_lookup:
  assumes "length ds < 2 ^ 31 - 2" "\<forall>d \<in> set ds. length (dv_name d) \<le> 255"
    and "path_pieces path = [dv_name (ds ! k)]" "NUL \<notin> set path"
    and "k < length ds" "\<forall>j < k. dv_name (ds ! j) \<noteq> dv_name (ds ! k)"
  shows "\<exists>i. findINode (devfs_control_block (map Some ds)) path = Some (Inr i) \<and> i_dev i = int k
    \<and> \<not> is_directory (i_type i)"
proof -
  let ?p = "dv_name (ds ! k)"
  have names: "de_name (devfs_entry ds j) = dv_name (ds ! j)" if "j < length ds" for j
    using assms(2) that by (simp add: devfs_entry_def new_dir_entry_def)
  have "find (\<lambda>d. de_name d = ?p) (map (devfs_entry ds) [0..<length ds]) = Some (devfs_entry ds k)"
    unfolding find_Some_iff using assms(5,6) names by (intro exI [of _ k]) auto
  moreover have "sint (ucast (word_of_int (int k + 2) - 2 :: u64) :: u32) = int k"
    using sint_pos [of k] assms(1,5) by (simp add: of_nat_add)
  moreover have "(word_of_int (int k + 2) :: u64) \<noteq> 1"
  proof -
    have "unat (word_of_int (int k + 2) :: u64) = k + 2" using assms(1,5) by (subst unat_word_of_int_small) auto
    then show ?thesis by (metis add_2_eq_Suc' nat.simps(3) old.nat.inject unat_1 One_nat_def)
  qed
  moreover have "findINode (devfs_control_block (map Some ds)) path
      = Some (resolve_path (devfs_control_block (map Some ds)) (devfs_listing ds) [?p])"
    using findINode_walk [OF walkable_all [OF devfs_enumerates [OF assms(1)]], of path] assms(2-5) by simp
  ultimately show ?thesis
    using assms(5)
    by (auto simp: resolve_path_def devfs_control_block_def devfs_getINode_def devfs_listing_def Let_def
        fs_devices_get_def devfs_entry_def new_dir_entry_def is_directory_def FT_DIRECTORY_def FT_BLOCK_def FT_CHAR_def
        FT_NET_def new_inode_def split: fs_dev_type_t.splits)
qed


subsection \<open>Opening files by path\<close>

lemma path_pieces_short: "p \<in> set (path_pieces s) \<Longrightarrow> length p \<le> length (filter (\<lambda>c. c \<noteq> SLASH) s)"
proof (induction s rule: path_pieces.induct)
  case (1 s)
  let ?r = "dropWhile (\<lambda>c. c = SLASH) s"
  let ?p = "takeWhile (\<lambda>c. c \<noteq> SLASH) ?r" and ?q = "dropWhile (\<lambda>c. c \<noteq> SLASH) ?r"
  have f: "filter (\<lambda>c. c \<noteq> SLASH) s = filter (\<lambda>c. c \<noteq> SLASH) ?r"
    by (induction s) auto
  have own: "filter (\<lambda>c. c \<noteq> SLASH) ?p = ?p" by (rule filter_True) (auto dest: set_takeWhileD)
  have "filter (\<lambda>c. c \<noteq> SLASH) ?r = filter (\<lambda>c. c \<noteq> SLASH) (?p @ ?q)" by (simp only: takeWhile_dropWhile_id)
  also have "\<dots> = ?p @ filter (\<lambda>c. c \<noteq> SLASH) ?q" by (simp only: filter_append own)
  finally have split: "length (filter (\<lambda>c. c \<noteq> SLASH) s) = length ?p + length (filter (\<lambda>c. c \<noteq> SLASH) ?q)"
    unfolding f by (simp only: length_append)
  have r: "?r \<noteq> []"
  proof
    assume "?r = []"
    then have "path_pieces s = []" by (subst path_pieces.simps) (simp add: Let_def)
    then show False using 1(2) by simp
  qed
  then have "path_pieces s = ?p # path_pieces ?q" by (subst path_pieces.simps) (simp add: Let_def)
  then consider "p = ?p" | "p \<in> set (path_pieces ?q)" using 1(2) by auto
  then show ?case
  proof cases
    case 1
    then show ?thesis using split by simp
  next
    case 2
    then show ?thesis using 1(1) [OF refl r] split by simp
  qed
qed

lemma lookup_best:
  assumes "NUL \<notin> set path" "is_valid path" "\<forall>m \<in> set mounts. mnt_path m \<noteq> []"
    and "\<forall>m \<in> set mounts. walkable (mnt_control_block m) (dirs m) (listing m)"
  shows "\<exists>best. best_mount path mounts best
    \<and> lookup mounts (Some path) = Inr (Some (case best of None \<Rightarrow> Inl ENOENT
        | Some m \<Rightarrow> resolve_path (mnt_control_block m) (listing m)
                      (path_pieces (drop (length (mnt_path m) - 1) path))))"
proof -
  from find_mount_best [OF assms(2,3)] obtain best where best: "best_mount path mounts best"
    "find_mount (Some path) mounts = Inr (case best of None \<Rightarrow> Inl ENOENT
        | Some m \<Rightarrow> let rest = drop (length (mnt_path m) - 1) path in Inr (m, if rest = [] then ''/'' else rest))"
    by auto
  show ?thesis
  proof (cases best)
    case None
    with best show ?thesis by (intro exI [of _ best]) (simp add: lookup_def)
  next
    case (Some m)
    define rest where "rest = drop (length (mnt_path m) - 1) path"
    have m: "m \<in> set mounts" using best(1) Some by (auto simp: best_mount_def)
    have slash: "path_pieces (if rest = [] then ''/'' else rest) = path_pieces rest"
      by (simp add: path_pieces.simps [of "''/''"] path_pieces.simps [of "[]"])
    have "length (filter (\<lambda>c. c \<noteq> SLASH) path) \<le> 255" using assms(1,2) by (simp add: is_valid_total_length)
    moreover have "length (filter (\<lambda>c. c \<noteq> SLASH) rest) \<le> length (filter (\<lambda>c. c \<noteq> SLASH) path)"
      unfolding rest_def by (metis append_take_drop_id filter_append le_add2 length_append)
    ultimately have "\<forall>p \<in> set (path_pieces rest). length p \<le> 255"
      using path_pieces_short [of _ rest] by fastforce
    moreover have "NUL \<notin> set (if rest = [] then ''/'' else rest)"
      using assms(1) by (auto simp: rest_def dest: in_set_dropD)
    ultimately have "findINode (mnt_control_block m) (if rest = [] then ''/'' else rest)
        = Some (resolve_path (mnt_control_block m) (listing m) (path_pieces rest))"
      using findINode_walk [of "mnt_control_block m" "dirs m" "listing m" "if rest = [] then ''/'' else rest"] assms(4) m slash
      by auto
    moreover have "find_mount (Some path) mounts = Inr (Inr (m, if rest = [] then ''/'' else rest))"
      using best(2) by (simp only: Some option.case Let_def rest_def)
    ultimately have "lookup mounts (Some path) = Inr (Some (resolve_path (mnt_control_block m) (listing m) (path_pieces rest)))"
      by (simp only: lookup_def res_bind_simps sum.case prod.case)
    then show ?thesis using best(1) unfolding Some rest_def by (intro exI [of _ "Some m"]) simp
  qed
qed

text \<open>How an inode is opened: directories only for reading, character devices by their driver, regular files as such.\<close>

fun opens_as :: "(fs_device \<Rightarrow> int \<Rightarrow> error_t) \<Rightarrow> fs_devices \<Rightarrow> int \<Rightarrow> inode \<Rightarrow> opened optional \<Rightarrow> bool" where
  "opens_as opn devs mode i (Inr (OpenDirectory j)) \<longleftrightarrow> j = i \<and> is_directory (i_type i) \<and> mode = 1"
| "opens_as opn devs mode i (Inr (OpenDevice k)) \<longleftrightarrow> \<not> is_directory (i_type i) \<and> i_dev i = k \<and> k \<noteq> -1 \<and> 0 \<le> k \<and> k < int (length devs)
     \<and> (\<exists>d. devs ! nat k = Some d \<and> dv_type d = DEV_CHAR \<and> opn d mode = ENONE)"
| "opens_as opn devs mode i (Inr (OpenRegular j)) \<longleftrightarrow> j = i \<and> \<not> is_directory (i_type i) \<and> i_dev i = -1"
| "opens_as opn devs mode i (Inl e) \<longleftrightarrow>
     (if is_directory (i_type i) then mode \<noteq> 1 \<and> e = EISDIR
      else i_dev i \<noteq> -1
        \<and> (if i_dev i < 0 \<or> int (length devs) \<le> i_dev i \<or> devs ! nat (i_dev i) = None then e = ENOENT
           else \<exists>d. devs ! nat (i_dev i) = Some d
             \<and> (dv_type d = DEV_BLOCK \<and> e = EBOTHER \<or> dv_type d = DEV_NET \<and> e = ENOSYS \<or> dv_type d = DEV_CHAR \<and> opn d mode \<noteq> ENONE \<and> e = opn d mode)))"

lemma open_inode_as: "opens_as opn devs mode i r \<longleftrightarrow> r = open_inode opn devs mode i"
proof (cases r)
  case (Inl e)
  then show ?thesis
    by (cases "dv_type (the (devs ! nat (i_dev i)))")
       (auto simp: open_inode_def devfile_open_def open_char_handle_def fs_devices_get_def split: option.splits fs_dev_type_t.splits)
next
  case (Inr x)
  then show ?thesis
    by (cases x)
       (auto simp: open_inode_def devfile_open_def open_char_handle_def fs_devices_get_def split: option.splits fs_dev_type_t.splits if_splits)
qed



end
