(* ===== verification/Snprintf.thy ===== *)
theory Snprintf
  imports CText
begin

unbundle bit_operations_syntax

text \<open>
  \<open>snprintf\<close> (\<open>kernel/snprintf.cpp\<close>). The format pointer is the rest of the format's memory, terminator
  included; moving behind the end of it and reading there is \<open>OutOfBounds\<close>. The caller's buffer is a list with
  the place to write at, and \<open>len\<close> is how much may still be written. An argument is a machine word or
  a pointer to a string; using a word as a string is \<open>OutOfBounds\<close> too, as is asking for an argument
  that was not passed. \<open>tmp_buffer\<close> holds the digits of the width (72 cells) and the printed
  numbers, of at most 21 cells.
\<close>

datatype vararg = AWord u64 | AString string
datatype size_mod = SIZE_SHORT | SIZE_INT | SIZE_LONG

type_synonym out_state = "char list \<times> nat \<times> nat"

definition is_digit :: "char \<Rightarrow> bool" where
  "is_digit c \<longleftrightarrow> char_val c \<ge> char_val CHR ''0'' \<and> char_val c \<le> char_val CHR ''9''"

text \<open>The lambda \<open>snprintf_common\<close> and a single character.\<close>

fun snprintf_common :: "char \<Rightarrow> int \<Rightarrow> string \<Rightarrow> out_state \<Rightarrow> out_state res" where
  "snprintf_common padchar padlen str (buffer, at, len) =
     (if len = 0 then Inr (buffer, at, len)
      else
        let pad_len = min (nat (max (padlen - int (length str)) 0)) len;
            len = len - pad_len
        in
        res_bind (memset buffer at padchar pad_len) (\<lambda>buffer.
        let at = at + pad_len in
        if len = 0 then Inr (buffer, at, len)
        else
          let total_len = min (length str) len in
          if total_len = 0 then Inr (buffer, at, len)
          else res_bind (memcpy buffer at str 0 total_len) (\<lambda>buffer.
               Inr (buffer, at + total_len, len - total_len))))"

fun put_char :: "char \<Rightarrow> out_state \<Rightarrow> out_state res" where
  "put_char c (buffer, at, len) =
     (if len > 0 then res_bind (cell_set buffer at c) (\<lambda>buffer. Inr (buffer, at + 1, len - 1))
      else Inr (buffer, at, len))"

text \<open>The digits of the width.\<close>

fun width_digits :: "char list \<Rightarrow> string \<Rightarrow> (string \<times> char list) res" where
  "width_digits [] tmp = Inl OutOfBounds"
| "width_digits (c # cs) tmp =
     (if is_digit c then (if length tmp \<ge> 72 then Inl OutOfBounds else width_digits cs (tmp @ [c]))
      else if length tmp \<ge> 72 then Inl OutOfBounds else Inr (tmp, c # cs))"

text \<open>What is between \<open>%\<close> and the conversion: padding character, width, size, and where the conversion is.\<close>

definition parse_size :: "char list \<Rightarrow> size_mod \<times> char list" where
  "parse_size format =
     (if hd format = CHR ''l'' then (SIZE_LONG, tl format)
      else if hd format = CHR ''h'' then (SIZE_SHORT, tl format) else (SIZE_INT, format))"

definition parse_width :: "char \<Rightarrow> char list \<Rightarrow> (char \<times> int \<times> size_mod \<times> char list) res" where
  "parse_width padchar format =
     res_bind (width_digits format []) (\<lambda>(tmp, format).
       let padlen = (if tmp \<noteq> [] then signed_take_bit 31 (stoi 10 tmp) else 0);
           (sz, format) = parse_size format
       in if format = [] then Inl OutOfBounds else Inr (padchar, padlen, sz, format))"

definition parse_directive :: "char list \<Rightarrow> (char \<times> int \<times> size_mod \<times> char list) res" where
  "parse_directive format =
     (case format of [] \<Rightarrow> Inl OutOfBounds
      | c # cs \<Rightarrow> if c = CHR ''0'' then parse_width c cs else parse_width (CHR '' '') format)"

definition number_text :: "char \<Rightarrow> size_mod \<Rightarrow> u64 \<Rightarrow> string" where
  "number_text conv sz w =
     (if conv = CHR ''i'' then
        (case sz of SIZE_SHORT \<Rightarrow> itos (sint (ucast w :: u16)) 10
         | SIZE_LONG \<Rightarrow> itos (sint w) 10 | SIZE_INT \<Rightarrow> itos (sint (ucast w :: u32)) 10)
      else if conv = CHR ''u'' then
        (case sz of SIZE_SHORT \<Rightarrow> itos (uint (ucast w :: u16)) 10
         | SIZE_LONG \<Rightarrow> itos (uint w) 10 | SIZE_INT \<Rightarrow> itos (uint (ucast w :: u32)) 10)
      else if conv = CHR ''x'' then
        (case sz of SIZE_SHORT \<Rightarrow> itos (uint (ucast w :: u16)) 16
         | SIZE_LONG \<Rightarrow> itos (uint w) 16 | SIZE_INT \<Rightarrow> itos (uint (ucast w :: u32)) 16)
      else itos (uint w) 16)"

definition word_char :: "u64 \<Rightarrow> string" where
  "word_char w = (let c = char_of (unat w mod 256) in if c = NUL then [] else [c])"

text \<open>The switch over the conversion. A \<open>%c\<close> with a full buffer goes on before it takes its argument. The
  text of an argument is made only when there is room for it.\<close>

definition print_arg :: "(vararg \<Rightarrow> string option) \<Rightarrow> char \<Rightarrow> int \<Rightarrow> vararg list \<Rightarrow> out_state \<Rightarrow> (vararg list \<times> out_state) res" where
  "print_arg text padchar padlen args out =
     (case args of [] \<Rightarrow> Inl OutOfBounds
      | a # args \<Rightarrow>
          if snd (snd out) = 0 then Inr (args, out)
          else (case text a of None \<Rightarrow> Inl OutOfBounds
                | Some s \<Rightarrow> res_bind (snprintf_common padchar padlen s out) (\<lambda>out. Inr (args, out))))"

definition word_arg :: "(u64 \<Rightarrow> string) \<Rightarrow> vararg \<Rightarrow> string option" where
  "word_arg f a = (case a of AWord w \<Rightarrow> Some (f w) | AString _ \<Rightarrow> None)"

definition string_arg :: "vararg \<Rightarrow> string option" where
  "string_arg a = (case a of AString s \<Rightarrow> Some s | AWord _ \<Rightarrow> None)"

definition convert :: "char \<Rightarrow> char \<Rightarrow> int \<Rightarrow> size_mod \<Rightarrow> vararg list \<Rightarrow> out_state \<Rightarrow> (vararg list \<times> out_state) res" where
  "convert c padchar padlen sz args out =
     (if c = NUL then Inr (args, out)
      else if c = CHR ''s'' then print_arg string_arg padchar padlen args out
      else if c = CHR ''c'' then
        (if snd (snd out) = 0 then Inr (args, out)
         else print_arg (word_arg word_char) padchar padlen args out)
      else if c \<in> {CHR ''i'', CHR ''u'', CHR ''x'', CHR ''p''}
      then print_arg (word_arg (number_text c sz)) padchar padlen args out
      else res_bind (put_char c out) (\<lambda>out. Inr (args, out)))"

text \<open>One pass of the loop, up to the place where \<open>*++format\<close> is tested.\<close>

definition snprintf_pass :: "char list \<Rightarrow> vararg list \<Rightarrow> out_state \<Rightarrow> (char list \<times> vararg list \<times> out_state) res" where
  "snprintf_pass format args out =
     (case format of [] \<Rightarrow> Inl OutOfBounds
      | c # rest \<Rightarrow>
          if c = CHR ''%'' then
            res_bind (parse_directive rest) (\<lambda>(padchar, padlen, sz, format).
            res_bind (convert (hd format) padchar padlen sz args out) (\<lambda>(args, out).
              Inr (tl format, args, out)))
          else res_bind (put_char c out) (\<lambda>out. Inr (rest, args, out)))"

lemma width_digits_shorter: "width_digits fmt tmp = Inr (tmp', fmt') \<Longrightarrow> fmt' \<noteq> [] \<and> length fmt' \<le> length fmt"
  by (induction fmt tmp rule: width_digits.induct) (auto split: if_splits)

lemma parse_width_shorter:
  "parse_width padchar fmt = Inr (p, n, s, fmt') \<Longrightarrow> fmt' \<noteq> [] \<and> length fmt' \<le> length fmt"
  using width_digits_shorter [of fmt "[]"]
  by (auto simp: parse_width_def parse_size_def Let_def res_bind_Inr_iff split_beta split: if_splits)

lemma parse_directive_shorter:
  "parse_directive fmt = Inr (p, n, s, fmt') \<Longrightarrow> fmt' \<noteq> [] \<and> length fmt' \<le> length fmt"
  by (auto simp: parse_directive_def split: list.splits if_splits dest!: parse_width_shorter)

lemma snprintf_pass_shorter:
  assumes "snprintf_pass fmt args out = Inr (fmt', args', out')"
  shows "length fmt' < length fmt"
proof (cases fmt)
  case Nil
  then show ?thesis using assms by (simp add: snprintf_pass_def)
next
  case (Cons c rest)
  then show ?thesis
    using assms by (auto simp: snprintf_pass_def res_bind_Inr_iff split: if_splits dest!: parse_directive_shorter)
qed

function snprintf_loop :: "char list \<Rightarrow> vararg list \<Rightarrow> out_state \<Rightarrow> out_state res" where
  "snprintf_loop format args out =
     (case snprintf_pass format args out of
        Inl e \<Rightarrow> Inl e
      | Inr (format', args, out) \<Rightarrow>
          (case format' of [] \<Rightarrow> Inl OutOfBounds
           | c # cs \<Rightarrow> if c \<noteq> NUL then snprintf_loop format' args out else Inr out))"
  by pat_completeness auto
termination
  by (relation "measure (\<lambda>(format, args, out). length format)") (auto dest: snprintf_pass_shorter)

declare snprintf_loop.simps [simp del]

definition snprintf :: "char list \<Rightarrow> nat \<Rightarrow> char list \<Rightarrow> vararg list \<Rightarrow> char list res" where
  "snprintf buffer len format args =
     (if len = 0 then Inr buffer
      else res_bind (snprintf_loop format args (buffer, 0, len - 1)) (\<lambda>(buffer, at, len).
           cell_set buffer at NUL))"


subsection \<open>What is printed\<close>

text \<open>The text of a format and its arguments, without a limit. \<open>None\<close> is a format that breaks off in a directive or
  whose width has 72 digits or more, and an argument that is missing or of the wrong kind.\<close>

definition pad :: "char \<Rightarrow> int \<Rightarrow> string \<Rightarrow> string" where
  "pad padchar padlen s = replicate (nat (padlen - int (length s))) padchar @ s"

definition spec_arg :: "(vararg \<Rightarrow> string option) \<Rightarrow> char \<Rightarrow> int \<Rightarrow> vararg list \<Rightarrow> (string \<times> vararg list) option" where
  "spec_arg text padchar padlen args =
     (case args of [] \<Rightarrow> None | a # rest \<Rightarrow> map_option (\<lambda>s. (pad padchar padlen s, rest)) (text a))"

definition spec_convert :: "char \<Rightarrow> char \<Rightarrow> int \<Rightarrow> size_mod \<Rightarrow> vararg list \<Rightarrow> (string \<times> vararg list) option" where
  "spec_convert c padchar padlen sz args =
     (if c = CHR ''s'' then spec_arg string_arg padchar padlen args
      else if c = CHR ''c'' then spec_arg (word_arg word_char) padchar padlen args
      else if c \<in> {CHR ''i'', CHR ''u'', CHR ''x'', CHR ''p''} then spec_arg (word_arg (number_text c sz)) padchar padlen args
      else Some ([c], args))"

definition size_prefix :: "string \<Rightarrow> size_mod \<times> string" where
  "size_prefix cs =
     (if cs \<noteq> [] \<and> hd cs = CHR ''l'' then (SIZE_LONG, tl cs)
      else if cs \<noteq> [] \<and> hd cs = CHR ''h'' then (SIZE_SHORT, tl cs) else (SIZE_INT, cs))"

definition spec_directive :: "string \<Rightarrow> (char \<times> int \<times> size_mod \<times> char \<times> string) option" where
  "spec_directive cs =
     (let zero = (cs \<noteq> [] \<and> hd cs = CHR ''0'');
          cs = (if zero then tl cs else cs);
          ds = takeWhile is_digit cs;
          (sz, cs) = size_prefix (dropWhile is_digit cs)
      in if cs = [] \<or> length ds \<ge> 72 then None
         else Some (if zero then CHR ''0'' else CHR '' '', if ds = [] then 0 else signed_take_bit 31 (stoi 10 ds),
                    sz, hd cs, tl cs))"

lemma spec_directive_shorter:
  assumes "spec_directive cs = Some (p, n, sz, c, rest)"
  shows "length rest < length cs"
proof -
  define cs1 where "cs1 = (if cs \<noteq> [] \<and> hd cs = CHR ''0'' then tl cs else cs)"
  have "length (snd (size_prefix (dropWhile is_digit cs1))) \<le> length cs1"
    using length_dropWhile_le [of is_digit cs1] by (auto simp: size_prefix_def)
  moreover have "length cs1 \<le> length cs" by (simp add: cs1_def)
  moreover have "snd (size_prefix (dropWhile is_digit cs1)) \<noteq> []" "rest = tl (snd (size_prefix (dropWhile is_digit cs1)))"
    using assms by (auto simp: spec_directive_def cs1_def Let_def split_beta split: if_splits)
  ultimately show ?thesis by (cases "snd (size_prefix (dropWhile is_digit cs1))") auto
qed

function format_text :: "string \<Rightarrow> vararg list \<Rightarrow> string option" where
  "format_text [] args = Some []"
| "format_text (c # cs) args =
     (if c \<noteq> CHR ''%'' then map_option (\<lambda>t. c # t) (format_text cs args)
      else (case spec_directive cs of None \<Rightarrow> None
            | Some (padchar, padlen, sz, conv, rest) \<Rightarrow>
                (case spec_convert conv padchar padlen sz args of None \<Rightarrow> None
                 | Some (t, args) \<Rightarrow> map_option (\<lambda>u. t @ u) (format_text rest args))))"
  by pat_completeness auto
termination
  by (relation "measure (\<lambda>(cs, args). length cs)") (auto dest: spec_directive_shorter)

declare format_text.simps [simp del]

subsection \<open>Writing within the limit\<close>

fun room :: "out_state \<Rightarrow> bool" where
  "room (buffer, at, len) \<longleftrightarrow> at + len < length buffer"

fun emit :: "string \<Rightarrow> out_state \<Rightarrow> out_state" where
  "emit s (buffer, at, len) =
     (take at buffer @ take len s @ drop (at + min (length s) len) buffer, at + min (length s) len, len - length s)"

lemma emit_room: "room out \<Longrightarrow> room (emit s out)"
  by (cases out) auto

lemma emit_full: "room out \<Longrightarrow> snd (snd out) = 0 \<Longrightarrow> emit s out = out"
  by (cases out) auto

lemma emit_Nil [simp]: "room out \<Longrightarrow> emit [] out = out"
  by (cases out) auto

lemma emit_append: "room out \<Longrightarrow> emit b (emit a out) = emit (a @ b) out"
proof (cases out)
  case (fields buffer at len)
  assume r: "room out"
  show ?thesis
  proof (cases "length a \<le> len")
    case True
    then have "take (at + length a) (take at buffer @ a @ drop (at + length a) buffer) = take at buffer @ a"
      "drop (at + length a + k) (take at buffer @ a @ drop (at + length a) buffer) = drop (at + length a + k) buffer" for k
      using r by (simp_all add: fields ac_simps)
    with True r show ?thesis by (auto simp: fields min_def ac_simps)
  next
    case False
    then show ?thesis using r by (auto simp: fields min_def)
  qed
qed

lemma put_char_emit: "room out \<Longrightarrow> put_char c out = Inr (emit [c] out)"
  by (cases out) (auto simp: min_def upd_conv_take_nth_drop Suc_le_eq)

lemma memset_emit:
  "room (buffer, at, len) \<Longrightarrow> n \<le> len \<Longrightarrow>
     memset buffer at c n = Inr (fst (emit (replicate n c) (buffer, at, len)))"
  using memset_spec [of at n buffer c] by (simp add: min_def)

lemma memcpy_emit:
  assumes "room (buffer, at, len)"
  shows "memcpy buffer at s 0 (min (length s) len) = Inr (fst (emit s (buffer, at, len)))"
  using memcpy_spec [of 0 "min (length s) len" s at buffer] assms by (auto simp: min_def)

lemma common_emit:
  assumes "room out"
  shows "snprintf_common padchar padlen s out = Inr (emit (pad padchar padlen s) out)"
proof (cases out)
  case (fields buffer at len)
  define k where "k = nat (padlen - int (length s))"
  have k: "nat (max (padlen - int (length s)) 0) = k" by (simp add: k_def)
  have eq: "emit (pad padchar padlen s) out = emit s (emit (replicate k padchar) out)"
    using emit_append [OF assms] by (simp add: pad_def k_def)
  define n where "n = min k len"
  have first: "emit (replicate k padchar) out = (fst (emit (replicate n padchar) out), at + n, len - n)"
    by (auto simp: fields n_def min_def)
  let ?b = "fst (emit (replicate n padchar) out)"
  have r: "room (?b, at + n, len - n)" using emit_room [OF assms, of "replicate k padchar"] first by simp
  have set: "memset buffer at padchar n = Inr ?b" using memset_emit [of buffer at len n] assms by (simp add: fields n_def)
  consider (full) "len = 0" | (padded) "len \<noteq> 0" "len - n = 0" | (none) "len - n \<noteq> 0" "s = []" | (body) "len - n \<noteq> 0" "s \<noteq> []"
    by auto
  then show ?thesis
  proof cases
    case full
    then show ?thesis using emit_full [OF assms] by (simp add: fields)
  next
    case padded
    then show ?thesis using set emit_full [OF r, of s] unfolding eq first
      by (simp add: fields k n_def [symmetric] del: emit.simps)
  next
    case none
    then have "min (nat (max padlen 0)) len = n" using k by (simp add: n_def)
    with none show ?thesis using set emit_Nil [OF r] unfolding eq first
      by (simp add: fields Let_def del: emit.simps)
  next
    case body
    have e: "emit s (?b, at + n, len - n)
        = (fst (emit s (?b, at + n, len - n)), at + n + min (length s) (len - n), len - n - min (length s) (len - n))"
      by (auto simp: min_def)
    have nz: "min (length s) (len - n) \<noteq> 0" using body by auto
    show ?thesis unfolding eq first
      by (subst e) (use body set memcpy_emit [OF r, of s] in \<open>simp add: nz fields k n_def [symmetric] Let_def del: emit.simps\<close>)
  qed
qed


subsection \<open>The loop prints the text\<close>

definition in_step :: "vararg list \<Rightarrow> vararg list \<Rightarrow> out_state \<Rightarrow> bool" where
  "in_step args args' out \<longleftrightarrow> length args \<le> length args' \<and> (snd (snd out) > 0 \<longrightarrow> args' = args)"

lemma in_step_same [simp]: "in_step args args out"
  by (simp add: in_step_def)

lemma print_arg_emit:
  assumes "spec_arg text padchar padlen args = Some (t, args1)" "in_step args args' out" "room out"
  shows "\<exists>args1'. print_arg text padchar padlen args' out = Inr (args1', emit t out) \<and> in_step args1 args1' (emit t out)"
proof -
  obtain a where a: "args = a # args1" "\<exists>s. text a = Some s \<and> t = pad padchar padlen s"
    using assms(1) by (auto simp: spec_arg_def split: list.splits)
  obtain b args1' where b: "args' = b # args1'" using assms(2) a(1) by (cases args') (auto simp: in_step_def)
  show ?thesis
  proof (cases "snd (snd out) = 0")
    case True
    then show ?thesis using assms(2) a(1) b emit_full [OF assms(3) True] by (simp add: print_arg_def in_step_def)
  next
    case False
    then have "b = a" "args1' = args1" using assms(2) a(1) b by (simp_all add: in_step_def)
    then show ?thesis using False a(2) b common_emit [OF assms(3)] by (auto simp: print_arg_def)
  qed
qed

lemma convert_emit:
  assumes "spec_convert c padchar padlen sz args = Some (t, args1)" "in_step args args' out" "room out" "c \<noteq> NUL"
  shows "\<exists>args1'. convert c padchar padlen sz args' out = Inr (args1', emit t out) \<and> in_step args1 args1' (emit t out)"
proof -
  consider (str) "c = CHR ''s''" | (chr) "c = CHR ''c''" | (num) "c \<in> {CHR ''i'', CHR ''u'', CHR ''x'', CHR ''p''}"
    | (lit) "c \<notin> {CHR ''s'', CHR ''c'', CHR ''i'', CHR ''u'', CHR ''x'', CHR ''p''}" by auto
  then show ?thesis
  proof cases
    case str
    then show ?thesis using print_arg_emit [OF _ assms(2,3)] assms(1) by (simp add: convert_def spec_convert_def NUL_def)
  next
    case chr
    show ?thesis
    proof (cases "snd (snd out) = 0")
      case True
      have "length args1 \<le> length args"
        using assms(1) chr by (auto simp: spec_convert_def spec_arg_def split: list.splits)
      then show ?thesis
        using True chr assms(2) emit_full [OF assms(3) True] by (simp add: convert_def in_step_def NUL_def)
    next
      case False
      then show ?thesis
        using chr print_arg_emit [OF _ assms(2,3)] assms(1) by (simp add: convert_def spec_convert_def NUL_def)
    qed
  next
    case num
    then have "convert c padchar padlen sz args' out = print_arg (word_arg (number_text c sz)) padchar padlen args' out"
      "spec_arg (word_arg (number_text c sz)) padchar padlen args = Some (t, args1)"
      using assms(1,4) by (auto simp: convert_def spec_convert_def)
    then show ?thesis using print_arg_emit [OF _ assms(2,3)] by simp
  next
    case lit
    then have "t = [c]" "args1 = args" using assms(1) by (auto simp: spec_convert_def)
    moreover have "in_step args args' (emit [c] out)"
      using assms(2,3) by (cases out) (auto simp: in_step_def)
    ultimately show ?thesis using lit assms(4) put_char_emit [OF assms(3), of c] by (auto simp: convert_def)
  qed
qed

lemma digit_NUL [simp]: "\<not> is_digit NUL"
  by (simp add: is_digit_def NUL_def char_val_def)

lemma width_digits_spec:
  "length (tmp @ takeWhile is_digit cs) < 72 \<Longrightarrow>
     width_digits (cs @ [NUL]) tmp = Inr (tmp @ takeWhile is_digit cs, dropWhile is_digit cs @ [NUL])"
  by (induction cs arbitrary: tmp) auto

lemma parse_directive_spec:
  assumes "spec_directive cs = Some (p, n, sz, c, rest)"
  shows "parse_directive (cs @ [NUL]) = Inr (p, n, sz, c # rest @ [NUL])"
proof -
  define zero where "zero = (cs \<noteq> [] \<and> hd cs = CHR ''0'')"
  define cs1 where "cs1 = (if zero then tl cs else cs)"
  define ds cs2 where "ds = takeWhile is_digit cs1" and "cs2 = dropWhile is_digit cs1"
  obtain cs3 where cs3: "size_prefix cs2 = (sz, cs3)" by (cases "size_prefix cs2") (use assms in \<open>auto simp: spec_directive_def zero_def cs1_def ds_def cs2_def Let_def split_beta split: if_splits\<close>)
  have sp: "cs3 = c # rest" "length ds < 72" "p = (if zero then CHR ''0'' else CHR '' '')"
    "n = (if ds = [] then 0 else signed_take_bit 31 (stoi 10 ds))"
    using assms cs3 unfolding spec_directive_def Let_def zero_def [symmetric] cs1_def [symmetric] ds_def [symmetric] cs2_def [symmetric]
    by (auto split: if_splits)
  have w: "width_digits (cs1 @ [NUL]) [] = Inr (ds, cs2 @ [NUL])"
    using width_digits_spec [of "[]" cs1] sp(2) by (simp add: ds_def cs2_def)
  have pre: "parse_size (cs2 @ [NUL]) = (sz, cs3 @ [NUL])"
    using cs3 by (cases cs2) (auto simp: size_prefix_def parse_size_def NUL_def split: if_splits)
  have "parse_directive (cs @ [NUL]) = parse_width p (cs1 @ [NUL])"
  proof (cases cs)
    case Nil
    then show ?thesis using sp(3) by (simp add: parse_directive_def zero_def cs1_def NUL_def)
  next
    case (Cons x xs)
    then show ?thesis using sp(3) by (auto simp: parse_directive_def zero_def cs1_def)
  qed
  then show ?thesis by (simp add: parse_width_def w pre sp)
qed

lemma spec_directive_parts:
  assumes "spec_directive cs = Some (p, n, sz, c, rest)"
  shows "c \<in> set cs \<and> set rest \<subseteq> set cs"
proof -
  define cs1 where "cs1 = (if cs \<noteq> [] \<and> hd cs = CHR ''0'' then tl cs else cs)"
  have "set (snd (size_prefix (dropWhile is_digit cs1))) \<subseteq> set (dropWhile is_digit cs1)"
    by (cases "dropWhile is_digit cs1") (auto simp: size_prefix_def)
  also have "\<dots> \<subseteq> set cs1" by (auto dest: set_dropWhileD)
  also have "\<dots> \<subseteq> set cs" by (auto simp: cs1_def dest: list.set_sel(2))
  finally have "set (snd (size_prefix (dropWhile is_digit cs1))) \<subseteq> set cs" .
  moreover have "snd (size_prefix (dropWhile is_digit cs1)) = c # rest"
    using assms by (auto simp: spec_directive_def cs1_def Let_def split_beta split: if_splits)
  ultimately show ?thesis by simp
qed

lemma snprintf_pass_emit:
  assumes "format_text fmt args = Some t" "fmt \<noteq> []" "NUL \<notin> set fmt" "in_step args args' out" "room out"
  shows "\<exists>rest t1 t2 args1 args1'. snprintf_pass (fmt @ [NUL]) args' out = Inr (rest @ [NUL], args1', emit t1 out)
      \<and> format_text rest args1 = Some t2 \<and> t = t1 @ t2 \<and> in_step args1 args1' (emit t1 out)
      \<and> length rest < length fmt \<and> set rest \<subseteq> set fmt"
proof (cases fmt)
  case Nil
  then show ?thesis using assms(2) by simp
next
  case (Cons c cs)
  show ?thesis
  proof (cases "c = CHR ''%''")
    case False
    then obtain t2 where t2: "format_text cs args = Some t2" "t = c # t2"
      using assms(1) Cons by (auto simp: format_text.simps)
    have "in_step args args' (emit [c] out)" using assms(4,5) by (cases out) (auto simp: in_step_def)
    with False t2 show ?thesis using put_char_emit [OF assms(5), of c] Cons
      by (intro exI [of _ cs] exI [of _ "[c]"] exI [of _ t2] exI [of _ args] exI [of _ args']) (auto simp: snprintf_pass_def)
  next
    case True
    from assms(1) True Cons obtain p n sz d rest t1 args1 t2 where
      d: "spec_directive cs = Some (p, n, sz, d, rest)" and
      e: "spec_convert d p n sz args = Some (t1, args1)" and
      t2: "format_text rest args1 = Some t2" "t = t1 @ t2"
      by (auto simp: format_text.simps split: option.splits)
    have "d \<noteq> NUL" using spec_directive_parts [OF d] assms(3) Cons by auto
    from convert_emit [OF e assms(4,5) this] obtain args1' where
      f: "convert d p n sz args' out = Inr (args1', emit t1 out)" "in_step args1 args1' (emit t1 out)" by blast
    have "snprintf_pass (fmt @ [NUL]) args' out = Inr (rest @ [NUL], args1', emit t1 out)"
      using True Cons parse_directive_spec [OF d] f(1) by (simp add: snprintf_pass_def)
    moreover have "length rest < length fmt" "set rest \<subseteq> set fmt"
      using spec_directive_shorter [OF d] spec_directive_parts [OF d] Cons by auto
    ultimately show ?thesis using t2 f(2) by blast
  qed
qed

lemma snprintf_loop_emit:
  assumes "format_text fmt args = Some t" "fmt \<noteq> []" "NUL \<notin> set fmt" "in_step args args' out" "room out"
  shows "snprintf_loop (fmt @ [NUL]) args' out = Inr (emit t out)"
  using assms
proof (induction "length fmt" arbitrary: fmt args args' out t rule: less_induct)
  case less
  obtain c cs where fmt: "fmt = c # cs" using less.prems(2) by (cases fmt) auto
  have pass: "\<exists>rest t1 t2 args1 args1'. snprintf_pass (fmt @ [NUL]) args' out = Inr (rest @ [NUL], args1', emit t1 out)
      \<and> format_text rest args1 = Some t2 \<and> t = t1 @ t2 \<and> in_step args1 args1' (emit t1 out)
      \<and> length rest < length fmt \<and> set rest \<subseteq> set fmt"
    by (rule snprintf_pass_emit) (use less.prems in auto)
  then obtain rest t1 t2 args1 args1' where
    p: "snprintf_pass (fmt @ [NUL]) args' out = Inr (rest @ [NUL], args1', emit t1 out)"
    "format_text rest args1 = Some t2" "t = t1 @ t2" "in_step args1 args1' (emit t1 out)"
    "length rest < length fmt" "set rest \<subseteq> set fmt" by blast
  have t: "emit t out = emit t2 (emit t1 out)" using emit_append [OF less.prems(5)] p(3) by simp
  show ?case
  proof (cases rest)
    case Nil
    then have "t2 = []" using p(2) by (simp add: format_text.simps)
    then show ?thesis using Nil p(1,3) by (subst snprintf_loop.simps) simp
  next
    case (Cons d ds)
    then have "d \<noteq> NUL" using p(6) less.prems(3) by auto
    moreover have "snprintf_loop (rest @ [NUL]) args1' (emit t1 out) = Inr (emit t2 (emit t1 out))"
      using p(2,4,5,6) less.prems(3) Cons emit_room [OF less.prems(5)] by (intro less.hyps) auto
    ultimately show ?thesis using p(1) Cons t by (subst snprintf_loop.simps) simp
  qed
qed


lemma snprintf_text:
  assumes "format_text fmt args = Some t" "fmt \<noteq> []" "NUL \<notin> set fmt" "0 < len" "len \<le> length buffer"
  shows "snprintf buffer len (cstr fmt) args =
    Inr (take (len - 1) t @ NUL # drop (length (take (len - 1) t) + 1) buffer)"
proof -
  have "room (buffer, 0, len - 1)" using assms(4,5) by simp
  from snprintf_loop_emit [OF assms(1-3) in_step_same this]
  have l: "snprintf_loop (fmt @ [NUL]) args (buffer, 0, len - 1) =
      Inr (take (len - 1) t @ drop (length (take (len - 1) t)) buffer, length (take (len - 1) t), len - 1 - length t)"
    by (simp add: min.commute)
  have "length (take (len - 1) t) < length buffer" using assms(4,5) by auto
  then have "cell_set (take (len - 1) t @ drop (length (take (len - 1) t)) buffer) (length (take (len - 1) t)) NUL
      = Inr (take (len - 1) t @ NUL # drop (length (take (len - 1) t) + 1) buffer)"
    by (simp add: list_update_append Cons_nth_drop_Suc [symmetric])
  then show ?thesis using l assms(4) by (simp add: snprintf_def cstr_def)
qed

text \<open>
  Both loop tests come after the pass: an empty format is printed as a NUL and then read behind its end, and
  so is a format that ends in \<open>%\<close>, whose terminator is taken for the conversion.
\<close>

lemma snprintf_empty_format: "0 < len \<Longrightarrow> len \<le> length buffer \<Longrightarrow> snprintf buffer len (cstr []) args = Inl OutOfBounds"
  using put_char_emit [of "(buffer, 0, len - 1)" NUL]
  by (simp add: snprintf_def snprintf_loop.simps snprintf_pass_def cstr_def NUL_def del: put_char.simps emit.simps)

lemma snprintf_trailing_percent:
  "0 < len \<Longrightarrow> snprintf buffer len (cstr ''%'') args = Inl OutOfBounds"
proof -
  assume "0 < len"
  have "parse_directive [NUL] = Inr (CHR '' '', 0, SIZE_INT, [NUL])" by code_simp
  then show ?thesis
    using \<open>0 < len\<close> by (simp add: snprintf_def snprintf_loop.simps snprintf_pass_def cstr_def convert_def)
qed



end
