(* ===== verification/Input.thy ===== *)
theory Input
  imports CircularBuffer
begin

unbundle bit_operations_syntax

text \<open>
  Keyboard input (\<open>dev/input.cpp\<close>, \<open>dev/input/handle.cpp\<close>): drivers report presses and releases of keys, the
  module keeps which keys are held, counts the modifiers, and writes an event of two bytes, key and
  modifiers, to the ring of every registered handle that has room for it. \<open>leds\<close> is what the devices
  were last told to light. \<open>translate\<close> turns an event into a character by a keymap.
\<close>

definition KEY_CAPSLOCK :: u8 where "KEY_CAPSLOCK = 0x39"
definition KEY_NUMLOCK :: u8 where "KEY_NUMLOCK = 0x53"
definition KEY_LEFTCTRL :: u8 where "KEY_LEFTCTRL = 0xE0"
definition KEY_LEFTSHIFT :: u8 where "KEY_LEFTSHIFT = 0xE1"
definition KEY_LEFTALT :: u8 where "KEY_LEFTALT = 0xE2"
definition KEY_RIGHTCTRL :: u8 where "KEY_RIGHTCTRL = 0xE4"
definition KEY_RIGHTSHIFT :: u8 where "KEY_RIGHTSHIFT = 0xE5"
definition KEY_RIGHTALT :: u8 where "KEY_RIGHTALT = 0xE6"

lemmas key_defs = KEY_CAPSLOCK_def KEY_NUMLOCK_def KEY_LEFTCTRL_def KEY_LEFTSHIFT_def KEY_LEFTALT_def
  KEY_RIGHTCTRL_def KEY_RIGHTSHIFT_def KEY_RIGHTALT_def

definition KEYMOD_CAPSLOCK :: u8 where "KEYMOD_CAPSLOCK = 0x01"
definition KEYMOD_NUMLOCK :: u8 where "KEYMOD_NUMLOCK = 0x02"
definition KEYMOD_SHIFT :: u8 where "KEYMOD_SHIFT = 0x08"
definition KEYMOD_CTRL :: u8 where "KEYMOD_CTRL = 0x10"
definition KEYMOD_ALT :: u8 where "KEYMOD_ALT = 0x20"
definition KEYMOD_ALTGR :: u8 where "KEYMOD_ALTGR = KEYMOD_CTRL OR KEYMOD_ALT"
definition KEYMOD_RELEASE :: u8 where "KEYMOD_RELEASE = 0x80"

record input_state =
  num_lock :: bool
  caps_lock :: bool
  pressed :: "u8 \<Rightarrow> bool"
  shift :: int
  ctrl :: int
  alt :: int
  altgr :: int
  in_handles :: "circ list"
  leds :: u8

definition initial_input :: input_state where
  "initial_input =
     \<lparr>num_lock = True, caps_lock = False, pressed = (\<lambda>_. False), shift = 0, ctrl = 0, alt = 0, altgr = 0,
      in_handles = [], leds = 0\<rparr>"

definition update_leds :: "input_state \<Rightarrow> input_state" where
  "update_leds st =
     (let flags = 0;
          flags = (if num_lock st then flags OR 1 else flags);
          flags = (if caps_lock st then flags OR 2 else flags)
      in st\<lparr>leds := flags\<rparr>)"

definition get_mod :: "input_state \<Rightarrow> u8" where
  "get_mod st =
     (let m = 0;
          m = (if num_lock st then m OR KEYMOD_NUMLOCK else m);
          m = (if caps_lock st then m OR KEYMOD_CAPSLOCK else m);
          m = (if shift st \<noteq> 0 then m OR KEYMOD_SHIFT else m);
          m = (if ctrl st \<noteq> 0 then m OR KEYMOD_CTRL else m);
          m = (if alt st \<noteq> 0 then m OR KEYMOD_ALT else m);
          m = (if altgr st \<noteq> 0 then m OR KEYMOD_ALTGR else m)
      in m)"

subsection \<open>Handles\<close>

definition handle_write :: "tid \<Rightarrow> bool \<Rightarrow> u8 list \<Rightarrow> circ \<Rightarrow> circ res" where
  "handle_write self intr ev h =
     (if writeAvailable h < 2 then Inr h
      else res_bind (cb_write self intr ev 2 h) (\<lambda>(h, _, _, _). Inr h))"

definition handle_read :: "tid \<Rightarrow> bool \<Rightarrow> circ \<Rightarrow> (circ \<times> u8 list \<times> int \<times> int \<times> loop_exit) res" where
  "handle_read self intr h = cb_read self intr [0, 0] 2 (-1) h"

fun write_handles :: "tid \<Rightarrow> bool \<Rightarrow> u8 list \<Rightarrow> circ list \<Rightarrow> circ list res" where
  "write_handles self intr ev [] = Inr []"
| "write_handles self intr ev (h # hs) =
     res_bind (handle_write self intr ev h) (\<lambda>h.
     res_bind (write_handles self intr ev hs) (\<lambda>hs. Inr (h # hs)))"

definition register_handle :: "circ \<Rightarrow> input_state \<Rightarrow> input_state" where
  "register_handle h st = st\<lparr>in_handles := in_handles st @ [h]\<rparr>"

text \<open>A registered device is told the lights at once.\<close>

definition register_device :: "input_state \<Rightarrow> input_state" where
  "register_device st = update_leds st"

subsection \<open>Keys\<close>

definition press_effect :: "u8 \<Rightarrow> input_state \<Rightarrow> input_state" where
  "press_effect code st =
     (if code = KEY_NUMLOCK then update_leds (st\<lparr>num_lock := \<not> num_lock st\<rparr>)
      else if code = KEY_CAPSLOCK then update_leds (st\<lparr>caps_lock := \<not> caps_lock st\<rparr>)
      else if code = KEY_LEFTSHIFT \<or> code = KEY_RIGHTSHIFT then st\<lparr>shift := shift st + 1\<rparr>
      else if code = KEY_LEFTCTRL \<or> code = KEY_RIGHTCTRL then st\<lparr>ctrl := ctrl st + 1\<rparr>
      else if code = KEY_LEFTALT then st\<lparr>alt := alt st + 1\<rparr>
      else if code = KEY_RIGHTALT then st\<lparr>altgr := altgr st + 1\<rparr>
      else st)"

definition release_effect :: "u8 \<Rightarrow> input_state \<Rightarrow> input_state" where
  "release_effect code st =
     (if code = KEY_LEFTSHIFT \<or> code = KEY_RIGHTSHIFT then st\<lparr>shift := shift st - 1\<rparr>
      else if code = KEY_LEFTCTRL \<or> code = KEY_RIGHTCTRL then st\<lparr>ctrl := ctrl st - 1\<rparr>
      else if code = KEY_LEFTALT then st\<lparr>alt := alt st - 1\<rparr>
      else if code = KEY_RIGHTALT then st\<lparr>altgr := altgr st - 1\<rparr>
      else st)"

definition key_press :: "tid \<Rightarrow> bool \<Rightarrow> u8 \<Rightarrow> input_state \<Rightarrow> input_state res" where
  "key_press self intr code st =
     res_bind (write_handles self intr [code, get_mod st] (in_handles st)) (\<lambda>hs.
       let st = st\<lparr>in_handles := hs\<rparr>;
           st = (if \<not> pressed st code then press_effect code st else st)
       in Inr (st\<lparr>pressed := (pressed st)(code := True)\<rparr>))"

definition key_release :: "tid \<Rightarrow> bool \<Rightarrow> u8 \<Rightarrow> input_state \<Rightarrow> input_state res" where
  "key_release self intr code st =
     res_bind (write_handles self intr [code, get_mod st OR KEYMOD_RELEASE] (in_handles st)) (\<lambda>hs.
       let st = st\<lparr>in_handles := hs\<rparr>;
           st = (if pressed st code then release_effect code st else st)
       in Inr (st\<lparr>pressed := (pressed st)(code := False)\<rparr>))"

subsection \<open>Characters\<close>

record key =
  k_normal :: char
  k_shift :: char
  k_ctrl :: char
  k_ctrl_alt :: char
  k_capslock :: char
  k_capslock_shift :: char
  k_capslock_ctrl :: char
  k_capslock_ctrl_alt :: char

definition translate :: "(u8 \<Rightarrow> key) \<Rightarrow> u8 \<Rightarrow> u8 \<Rightarrow> char" where
  "translate keymap keycode mods =
     (let k = keymap keycode; caps = (mods AND KEYMOD_CAPSLOCK \<noteq> 0) in
      if mods AND KEYMOD_ALTGR \<noteq> 0 then (if caps then k_capslock_ctrl_alt k else k_ctrl_alt k)
      else if mods AND KEYMOD_CTRL \<noteq> 0 then (if caps then k_capslock_ctrl k else k_ctrl k)
      else if mods AND KEYMOD_SHIFT \<noteq> 0 then (if caps then k_capslock_shift k else k_shift k)
      else (if caps then k_capslock k else k_normal k))"


subsection \<open>What a keyboard is\<close>

text \<open>The keys held and the two locks; the modifiers follow from them.\<close>

datatype key_op = Press u8 | Release u8

record keyboard =
  held :: "u8 \<Rightarrow> bool"
  num_on :: bool
  caps_on :: bool

definition spec_mod :: "keyboard \<Rightarrow> u8" where
  "spec_mod k =
     (if num_on k then KEYMOD_NUMLOCK else 0) OR (if caps_on k then KEYMOD_CAPSLOCK else 0)
     OR (if held k KEY_LEFTSHIFT \<or> held k KEY_RIGHTSHIFT then KEYMOD_SHIFT else 0)
     OR (if held k KEY_LEFTCTRL \<or> held k KEY_RIGHTCTRL then KEYMOD_CTRL else 0)
     OR (if held k KEY_LEFTALT then KEYMOD_ALT else 0)
     OR (if held k KEY_RIGHTALT then KEYMOD_ALTGR else 0)"

fun spec_key :: "key_op \<Rightarrow> keyboard \<Rightarrow> keyboard \<times> u8 list" where
  "spec_key (Press c) k =
     (k\<lparr>held := (held k)(c := True),
        num_on := (if c = KEY_NUMLOCK \<and> \<not> held k c then \<not> num_on k else num_on k),
        caps_on := (if c = KEY_CAPSLOCK \<and> \<not> held k c then \<not> caps_on k else caps_on k)\<rparr>,
      [c, spec_mod k])"
| "spec_key (Release c) k = (k\<lparr>held := (held k)(c := False)\<rparr>, [c, spec_mod k OR KEYMOD_RELEASE])"

fun spec_keys :: "key_op list \<Rightarrow> keyboard \<Rightarrow> keyboard \<times> u8 list" where
  "spec_keys [] k = (k, [])"
| "spec_keys (op # ops) k =
     (let (k, ev) = spec_key op k; (k, evs) = spec_keys ops k in (k, ev @ evs))"

fun key_step :: "tid \<Rightarrow> bool \<Rightarrow> key_op \<Rightarrow> input_state \<Rightarrow> input_state res" where
  "key_step self intr (Press c) st = key_press self intr c st"
| "key_step self intr (Release c) st = key_release self intr c st"

fun key_run :: "tid \<Rightarrow> bool \<Rightarrow> key_op list \<Rightarrow> input_state \<Rightarrow> input_state res" where
  "key_run self intr [] st = Inr st"
| "key_run self intr (op # ops) st = res_bind (key_step self intr op st) (key_run self intr ops)"

definition counters_exact :: "input_state \<Rightarrow> bool" where
  "counters_exact st \<longleftrightarrow>
     shift st = of_bool (pressed st KEY_LEFTSHIFT) + of_bool (pressed st KEY_RIGHTSHIFT)
     \<and> ctrl st = of_bool (pressed st KEY_LEFTCTRL) + of_bool (pressed st KEY_RIGHTCTRL)
     \<and> alt st = of_bool (pressed st KEY_LEFTALT) \<and> altgr st = of_bool (pressed st KEY_RIGHTALT)"

definition keyboard_of :: "input_state \<Rightarrow> keyboard" where
  "keyboard_of st = \<lparr>held = pressed st, num_on = num_lock st, caps_on = caps_lock st\<rparr>"

definition input_ok :: "input_state \<Rightarrow> bool" where
  "input_ok st \<longleftrightarrow> counters_exact st \<and> (\<forall>h \<in> set (in_handles st). circ_inv h)"

lemma get_mod_spec: "counters_exact st \<Longrightarrow> get_mod st = spec_mod (keyboard_of st)"
  by (simp add: get_mod_def spec_mod_def counters_exact_def keyboard_of_def Let_def ac_simps)

lemma handle_write_room:
  assumes "circ_inv h" "length ev = 2" "int (length (contents h)) + 2 < m_size h"
  shows "\<exists>h'. handle_write self intr ev h = Inr h' \<and> circ_inv h' \<and> contents h' = contents h @ ev \<and> m_size h' = m_size h"
proof -
  have n: "min 2 (m_size h - 1 - int (length (contents h))) = 2" using assms(3) by simp
  have "\<not> writeAvailable h < 2" using assms(1,3) by (simp add: writeAvailable_contents)
  then show ?thesis
    using cb_write_result [OF assms(1), of 2 ev self intr] assms(2)
    unfolding write_result_def Let_def n by (auto simp: handle_write_def)
qed

text \<open>A handle without room loses the event whole.\<close>

lemma handle_write_full:
  "circ_inv h \<Longrightarrow> m_size h \<le> int (length (contents h)) + 2 \<Longrightarrow> handle_write self intr ev h = Inr h"
  by (simp add: handle_write_def writeAvailable_contents)

lemma write_handles_room:
  assumes "length ev = 2" "\<forall>h \<in> set hs. circ_inv h \<and> int (length (contents h)) + 2 < m_size h"
  shows "\<exists>hs'. write_handles self intr ev hs = Inr hs' \<and> (\<forall>h \<in> set hs'. circ_inv h)
    \<and> map contents hs' = map (\<lambda>h. contents h @ ev) hs \<and> map m_size hs' = map m_size hs"
  using assms(2)
proof (induction hs)
  case Nil
  then show ?case by simp
next
  case (Cons h hs)
  then show ?case using handle_write_room [of h ev self intr] assms(1) by auto
qed


lemma press_effect_exact:
  assumes "counters_exact st"
    and "st' = (if \<not> pressed st c then press_effect c st else st)\<lparr>pressed := (pressed st)(c := True)\<rparr>"
  shows "counters_exact st'" "in_handles st' = in_handles st"
    "keyboard_of st' = fst (spec_key (Press c) (keyboard_of st))"
  using assms
  by (auto simp: counters_exact_def press_effect_def keyboard_of_def key_defs update_leds_def Let_def fun_upd_def fun_eq_iff)

lemma release_effect_exact:
  assumes "counters_exact st"
    and "st' = (if pressed st c then release_effect c st else st)\<lparr>pressed := (pressed st)(c := False)\<rparr>"
  shows "counters_exact st'" "in_handles st' = in_handles st"
    "keyboard_of st' = fst (spec_key (Release c) (keyboard_of st))"
  using assms
  by (auto simp: counters_exact_def release_effect_def keyboard_of_def key_defs Let_def fun_upd_def fun_eq_iff)

lemma press_effect_pressed [simp]: "pressed (press_effect c st) = pressed st"
  by (simp add: press_effect_def update_leds_def Let_def)

lemma release_effect_pressed [simp]: "pressed (release_effect c st) = pressed st"
  by (simp add: release_effect_def)

lemma key_step_spec:
  assumes ok: "input_ok st" and room: "\<forall>h \<in> set (in_handles st). int (length (contents h)) + 2 < m_size h"
  shows "\<exists>st'. key_step self intr op st = Inr st' \<and> input_ok st'
    \<and> keyboard_of st' = fst (spec_key op (keyboard_of st))
    \<and> map contents (in_handles st') = map (\<lambda>h. contents h @ snd (spec_key op (keyboard_of st))) (in_handles st)
    \<and> map m_size (in_handles st') = map m_size (in_handles st)"
proof -
  let ?ev = "snd (spec_key op (keyboard_of st))"
  have exact: "counters_exact st" using ok by (simp add: input_ok_def)
  have "length ?ev = 2" by (cases op) simp_all
  from write_handles_room [OF this, of "in_handles st" self intr] ok room obtain hs where
    hs: "write_handles self intr ?ev (in_handles st) = Inr hs" "\<forall>h \<in> set hs. circ_inv h"
    "map contents hs = map (\<lambda>h. contents h @ ?ev) (in_handles st)" "map m_size hs = map m_size (in_handles st)"
    by (auto simp: input_ok_def)
  have ex: "counters_exact (st\<lparr>in_handles := hs\<rparr>)" and kb: "keyboard_of (st\<lparr>in_handles := hs\<rparr>) = keyboard_of st"
    using exact by (simp_all add: counters_exact_def keyboard_of_def)
  show ?thesis
  proof (cases op)
    case (Press c)
    with press_effect_exact [OF ex refl, of c] hs get_mod_spec [OF exact] kb show ?thesis
      by (auto simp: key_press_def Let_def input_ok_def)
  next
    case (Release c)
    with release_effect_exact [OF ex refl, of c] hs get_mod_spec [OF exact] kb show ?thesis
      by (auto simp: key_release_def Let_def input_ok_def)
  qed
qed

text \<open>
  The keyboard counts right and every listener hears everything. Over any sequence of presses and releases,
  repeated and unmatched ones included, the modifier counters are the numbers of modifier keys
  held, a lock changes once for every time its key goes down, and every registered handle with
  room gets one event for each, in order, with the key and the modifiers that were in force before it.
\<close>

lemma key_events:
  assumes "input_ok st" "\<forall>h \<in> set (in_handles st). int (length (contents h)) + 2 * int (length ops) < m_size h"
  shows "\<exists>st'. key_run self intr ops st = Inr st' \<and> input_ok st'
    \<and> keyboard_of st' = fst (spec_keys ops (keyboard_of st))
    \<and> map contents (in_handles st') = map (\<lambda>h. contents h @ snd (spec_keys ops (keyboard_of st))) (in_handles st)"
  using assms
proof (induction ops arbitrary: st)
  case Nil
  then show ?case by simp
next
  case (Cons op ops)
  have "\<forall>h \<in> set (in_handles st). int (length (contents h)) + 2 < m_size h" using Cons.prems(2) by auto
  from key_step_spec [OF Cons.prems(1) this, of self intr op] obtain st1 where
    1: "key_step self intr op st = Inr st1" "input_ok st1" "keyboard_of st1 = fst (spec_key op (keyboard_of st))"
    "map contents (in_handles st1) = map (\<lambda>h. contents h @ snd (spec_key op (keyboard_of st))) (in_handles st)"
    "map m_size (in_handles st1) = map m_size (in_handles st)" by blast
  have len: "length (snd (spec_key op (keyboard_of st))) = 2" by (cases op) simp_all
  have "\<forall>h \<in> set (in_handles st1). int (length (contents h)) + 2 * int (length ops) < m_size h"
  proof
    fix h assume "h \<in> set (in_handles st1)"
    then obtain i where i: "i < length (in_handles st1)" "h = in_handles st1 ! i" by (metis in_set_conv_nth)
    have "length (in_handles st1) = length (in_handles st)" using 1(5) by (metis length_map)
    then have "i < length (in_handles st)" "contents h = contents (in_handles st ! i) @ snd (spec_key op (keyboard_of st))"
      "m_size h = m_size (in_handles st ! i)"
      using i 1(4,5) by (metis nth_map)+
    then show "int (length (contents h)) + 2 * int (length ops) < m_size h"
      using Cons.prems(2) [rule_format, OF nth_mem, of i] len by simp
  qed
  from Cons.IH [OF 1(2) this] obtain st2 where
    2: "key_run self intr ops st1 = Inr st2" "input_ok st2" "keyboard_of st2 = fst (spec_keys ops (keyboard_of st1))"
    "map contents (in_handles st2) = map (\<lambda>h. contents h @ snd (spec_keys ops (keyboard_of st1))) (in_handles st1)" by blast
  have "map contents (in_handles st2) = map (\<lambda>c. c @ snd (spec_keys ops (keyboard_of st1))) (map contents (in_handles st1))"
    using 2(4) by simp
  then have "map contents (in_handles st2)
      = map (\<lambda>h. contents h @ snd (spec_key op (keyboard_of st)) @ snd (spec_keys ops (keyboard_of st1))) (in_handles st)"
    unfolding 1(4) by simp
  with 1 2 show ?case by (simp add: split_beta)
qed

text \<open>
  \<open>KEYMOD_ALTGR\<close> is the bits of control and alt together, and the test is for any of them: control alone is
  taken for AltGr, and the branch for control is never reached.
\<close>

lemma translate_ctrl_unreachable:
  "mods AND KEYMOD_CTRL \<noteq> 0 \<Longrightarrow>
     translate keymap c mods = (if mods AND KEYMOD_CAPSLOCK \<noteq> 0 then k_capslock_ctrl_alt (keymap c) else k_ctrl_alt (keymap c))"
proof -
  assume "mods AND KEYMOD_CTRL \<noteq> 0"
  moreover have "mods AND KEYMOD_CTRL = (mods AND KEYMOD_ALTGR) AND KEYMOD_CTRL"
    by (rule bit_word_eqI) (auto simp: KEYMOD_ALTGR_def bit_simps)
  ultimately have "mods AND KEYMOD_ALTGR \<noteq> 0" by auto
  then show ?thesis by (simp add: translate_def Let_def)
qed

end
