(* ===== verification/DevNames.thy ===== *)
theory DevNames
  imports Path Snprintf
begin

text \<open>
  Names of devices (\<open>dev/name.cpp\<close>): for every pattern the kernel keeps a counter, in letters (\<open>sra\<close>, \<open>srb\<close>, ...)
  or in numbers (\<open>eth0\<close>, \<open>eth1\<close>, ...). The letters count with the lowest place first: behind \<open>srz\<close> comes
  \<open>sraa\<close>, then \<open>srba\<close>. Character arrays have 32 cells; of the array \<open>pattern\<close> only the string in it is ever read.
\<close>

record letter_incrementation =
  li_pattern :: "char list"
  li_current :: "char list"
  li_start :: nat

record number_incrementation =
  ni_pattern :: "char list"
  ni_base :: "char list"
  ni_current :: u32

text \<open>The constructor's search for the place of the letters, with the cells still to go.\<close>

fun place_loop :: "char list \<Rightarrow> nat \<Rightarrow> nat \<Rightarrow> (nat \<times> char list) res" where
  "place_loop cur i 0 = Inr (0, cur)"
| "place_loop cur i (Suc n) =
     res_bind (cell_get cur i) (\<lambda>c.
       if c = NUL then Inl KPanic
       else if c = CHR ''%'' then Inr (i, cur[i := CHR ''a''])
       else place_loop cur (i + 1) n)"

definition new_letter_incrementation :: "char list \<Rightarrow> letter_incrementation res" where
  "new_letter_incrementation pattern =
     res_bind (strncpy (replicate 32 NUL) 0 pattern 32) (\<lambda>pat.
     res_bind (strncpy (replicate 32 NUL) 0 pattern 32) (\<lambda>cur.
     res_bind (place_loop cur 0 32) (\<lambda>(start, cur).
       Inr \<lparr>li_pattern = pat, li_current = cur, li_start = start\<rparr>)))"

text \<open>Counting on: a cell that is empty becomes \<open>a\<close>, one that goes beyond \<open>z\<close> starts over and carries.\<close>

fun letter_count_loop :: "char list \<Rightarrow> nat \<Rightarrow> nat \<Rightarrow> char list" where
  "letter_count_loop cur i 0 = cur"
| "letter_count_loop cur i (Suc n) =
     (if cur ! i = NUL then cur[i := CHR ''a'']
      else
        let c = char_of ((of_char (cur ! i) + 1) mod 256 :: nat) in
        if char_val c > char_val CHR ''z'' then letter_count_loop (cur[i := CHR ''a'']) (i + 1) n
        else cur[i := c])"

definition letter_get :: "char list \<Rightarrow> nat \<Rightarrow> letter_incrementation \<Rightarrow> (char list \<times> letter_incrementation) res" where
  "letter_get buffer len inc =
     res_bind (strncpy buffer 0 (li_current inc) (of_nat len)) (\<lambda>buffer.
     res_bind (cell_set buffer (len - 1) NUL) (\<lambda>buffer.
       Inr (buffer, inc\<lparr>li_current := letter_count_loop (li_current inc) (li_start inc) (32 - li_start inc)\<rparr>)))"

fun letter_find :: "char list \<Rightarrow> nat \<Rightarrow> char list \<Rightarrow> letter_incrementation list
    \<Rightarrow> (char list \<times> letter_incrementation list) option res" where
  "letter_find buffer len pattern [] = Inr None"
| "letter_find buffer len pattern (inc # incs) =
     res_bind (strcmp (li_pattern inc) pattern) (\<lambda>r.
       if r \<noteq> 0
       then res_bind (letter_find buffer len pattern incs) (\<lambda>f.
              Inr (map_option (\<lambda>(b, incs). (b, inc # incs)) f))
       else res_bind (letter_get buffer len inc) (\<lambda>(buffer, inc). Inr (Some (buffer, inc # incs))))"

definition name_letter_increment ::
    "char list \<Rightarrow> nat \<Rightarrow> char list \<Rightarrow> letter_incrementation list \<Rightarrow> (char list \<times> letter_incrementation list) res" where
  "name_letter_increment buffer len pattern incs =
     res_bind (letter_find buffer len pattern incs) (\<lambda>f. case f of
       Some r \<Rightarrow> Inr r
     | None \<Rightarrow>
         res_bind (new_letter_incrementation pattern) (\<lambda>inc.
         res_bind (letter_get buffer len inc) (\<lambda>(buffer, inc). Inr (buffer, incs @ [inc]))))"

subsection \<open>Numbers\<close>

definition new_number_incrementation :: "char list \<Rightarrow> number_incrementation res" where
  "new_number_incrementation pattern =
     res_bind (strncpy (replicate 32 NUL) 0 pattern 32) (\<lambda>pat.
     res_bind (strncpy (replicate 32 NUL) 0 pattern 32) (\<lambda>base.
       Inr \<lparr>ni_pattern = pat, ni_base = map (\<lambda>c. if c = CHR ''%'' then NUL else c) base, ni_current = 0\<rparr>))"

definition number_get :: "char list \<Rightarrow> nat \<Rightarrow> number_incrementation \<Rightarrow> (char list \<times> number_incrementation) res" where
  "number_get buffer len inc =
     res_bind (snprintf buffer len (cstr ''%s%i'')
         [AString (takeWhile (\<lambda>c. c \<noteq> NUL) (ni_base inc)), AWord (ucast (ni_current inc))]) (\<lambda>buffer.
       Inr (buffer, inc\<lparr>ni_current := ni_current inc + 1\<rparr>))"

fun number_find :: "char list \<Rightarrow> nat \<Rightarrow> char list \<Rightarrow> number_incrementation list
    \<Rightarrow> (char list \<times> number_incrementation list) option res" where
  "number_find buffer len pattern [] = Inr None"
| "number_find buffer len pattern (inc # incs) =
     res_bind (strcmp (ni_pattern inc) pattern) (\<lambda>r.
       if r \<noteq> 0
       then res_bind (number_find buffer len pattern incs) (\<lambda>f.
              Inr (map_option (\<lambda>(b, incs). (b, inc # incs)) f))
       else res_bind (number_get buffer len inc) (\<lambda>(buffer, inc). Inr (Some (buffer, inc # incs))))"

definition name_number_increment ::
    "char list \<Rightarrow> nat \<Rightarrow> char list \<Rightarrow> number_incrementation list \<Rightarrow> (char list \<times> number_incrementation list) res" where
  "name_number_increment buffer len pattern incs =
     res_bind (number_find buffer len pattern incs) (\<lambda>f. case f of
       Some r \<Rightarrow> Inr r
     | None \<Rightarrow>
         res_bind (new_number_incrementation pattern) (\<lambda>inc.
         res_bind (number_get buffer len inc) (\<lambda>(buffer, inc). Inr (buffer, incs @ [inc]))))"


subsection \<open>Counting in letters\<close>

definition is_letter :: "char \<Rightarrow> bool" where
  "is_letter c \<longleftrightarrow> 97 \<le> (of_char c :: nat) \<and> (of_char c :: nat) \<le> 122"

fun next_letters :: "string \<Rightarrow> string" where
  "next_letters [] = ''a''"
| "next_letters (c # cs) =
     (if c = CHR ''z'' then CHR ''a'' # next_letters cs else char_of (of_char c + 1 :: nat) # cs)"

definition letters :: "nat \<Rightarrow> string" where
  "letters k = (next_letters ^^ k) ''a''"

fun letters_value :: "string \<Rightarrow> nat" where
  "letters_value [] = 0"
| "letters_value (c # cs) = of_char c - 96 + 26 * letters_value cs"

lemma letter_succ:
  assumes "is_letter c" "c \<noteq> CHR ''z''"
  shows "of_char (char_of (of_char c + 1 :: nat)) = (of_char c + 1 :: nat)" "is_letter (char_of (of_char c + 1 :: nat))"
proof -
  have "(of_char c :: nat) \<noteq> of_char CHR ''z''" using assms(2) by (simp only: of_char_eq_iff not_False_eq_True)
  then have "(of_char c :: nat) \<noteq> 122" by simp
  then have "(of_char c :: nat) < 122" using assms(1) by (simp add: is_letter_def)
  then show "of_char (char_of (of_char c + 1 :: nat)) = (of_char c + 1 :: nat)" by simp
  then show "is_letter (char_of (of_char c + 1 :: nat))"
    using assms(1) \<open>(of_char c :: nat) < 122\<close> by (simp add: is_letter_def)
qed

lemma next_letters_value:
  "\<forall>c \<in> set cs. is_letter c \<Longrightarrow>
     letters_value (next_letters cs) = letters_value cs + 1 \<and> (\<forall>c \<in> set (next_letters cs). is_letter c)
     \<and> length cs \<le> length (next_letters cs)"
proof (induction cs)
  case Nil
  then show ?case by (simp add: is_letter_def)
next
  case (Cons c cs)
  show ?case
  proof (cases "c = CHR ''z''")
    case True
    have "is_letter CHR ''a''" by (simp add: is_letter_def)
    then show ?thesis using True Cons by simp
  next
    case False
    have "is_letter c" using Cons.prems by simp
    then have "96 \<le> (of_char c :: nat)" by (simp add: is_letter_def)
    then show ?thesis using False Cons.prems letter_succ [OF \<open>is_letter c\<close> False] by simp
  qed
qed

lemma letters_facts:
  "letters_value (letters k) = k + 1" "\<forall>c \<in> set (letters k). is_letter c" "letters k \<noteq> []"
proof -
  have *: "letters_value (letters k) = k + 1 \<and> (\<forall>c \<in> set (letters k). is_letter c)"
  proof (induction k)
    case 0
    then show ?case by (simp add: letters_def is_letter_def)
  next
    case (Suc k)
    then show ?case using next_letters_value [of "letters k"] by (simp add: letters_def)
  qed
  then show "letters_value (letters k) = k + 1" "\<forall>c \<in> set (letters k). is_letter c" by auto
  then show "letters k \<noteq> []" by auto
qed

lemma letters_Suc: "letters (Suc k) = next_letters (letters k)"
  by (simp add: letters_def)

lemma letters_inj: "letters j = letters k \<Longrightarrow> j = k"
  by (drule arg_cong [where f = letters_value]) (simp only: letters_facts(1) add_right_cancel)

lemma letter_not_NUL: "is_letter c \<Longrightarrow> c \<noteq> NUL"
proof -
  have "(of_char NUL :: nat) = 0" by (simp add: NUL_def)
  then have "\<not> is_letter NUL" unfolding is_letter_def by linarith
  then show "is_letter c \<Longrightarrow> c \<noteq> NUL" by blast
qed

lemma letter_last: "is_letter c \<Longrightarrow> char_val (char_of ((of_char c + 1) mod 256 :: nat)) > char_val CHR ''z'' \<longleftrightarrow> c = CHR ''z''"
proof -
  assume l: "is_letter c"
  have z: "char_val CHR ''z'' = 122" by code_simp
  have b: "(of_char c :: nat) \<le> 122" using l by (simp add: is_letter_def)
  then have "of_char (char_of ((of_char c + 1) mod 256 :: nat)) = (of_char c + 1 :: nat)" by simp
  then have v: "char_val (char_of ((of_char c + 1) mod 256 :: nat)) = int (of_char c) + 1"
    using b unfolding char_val_def Let_def by simp
  have "c = CHR ''z'' \<longleftrightarrow> (of_char c :: nat) = of_char CHR ''z''" by (simp only: of_char_eq_iff)
  also have "\<dots> \<longleftrightarrow> (of_char c :: nat) = 122" by simp
  finally show ?thesis unfolding v z using b by linarith
qed

text \<open>The loop on the array is the count on the letters, as long as the last cell stays empty.\<close>

lemma letter_count_loop_next:
  assumes "\<forall>c \<in> set ls. is_letter c" "length p + length (next_letters ls) + k = 31" "length p + length ls + m = 31"
  shows "letter_count_loop (p @ ls @ replicate (Suc m) NUL) (length p) (32 - length p) = p @ next_letters ls @ replicate (Suc k) NUL"
  using assms
proof (induction ls arbitrary: p)
  case Nil
  then have n: "32 - length p = Suc (Suc k)" "m = Suc k" by auto
  show ?case unfolding n by (simp add: nth_append)
next
  case (Cons c ls)
  then have n: "32 - length p = Suc (31 - length p)" by auto
  have at: "(p @ (c # ls) @ replicate (Suc m) NUL) ! length p = c" by (simp add: nth_append)
  have l: "is_letter c" "c \<noteq> NUL" using Cons.prems(1) letter_not_NUL by auto
  show ?case
  proof (cases "c = CHR ''z''")
    case True
    let ?p = "p @ [CHR ''a'']"
    have "letter_count_loop (?p @ ls @ replicate (Suc m) NUL) (length ?p) (32 - length ?p) = ?p @ next_letters ls @ replicate (Suc k) NUL"
      using Cons.prems True by (intro Cons.IH) auto
    moreover have "(p @ (c # ls) @ replicate (Suc m) NUL)[length p := CHR ''a''] = ?p @ ls @ replicate (Suc m) NUL"
      by (simp add: list_update_append)
    ultimately show ?thesis
      unfolding n letter_count_loop.simps at Let_def using l(2) letter_last [OF l(1)] True by (simp del: replicate_Suc)
  next
    case False
    have "(of_char c :: nat) + 1 < 256" using l(1) by (simp add: is_letter_def)
    then have "(of_char c + 1) mod 256 = (of_char c + 1 :: nat)" by (rule mod_less)
    moreover have "k = m" using Cons.prems False by simp
    ultimately show ?thesis
      unfolding n letter_count_loop.simps at Let_def using l(2) letter_last [OF l(1)] False
      by (simp add: list_update_append del: replicate_Suc)
  qed
qed


subsection \<open>Strings in arrays\<close>

lemma strncpy_array:
  assumes "NUL \<notin> set s" "length s < 2 ^ 31" "length s < unat num" "length s < length dst"
  shows "strncpy dst 0 (s @ NUL # rest) num = Inr (s @ NUL # drop (length s + 1) dst)"
proof -
  have "strlen (s @ NUL # rest) = Inr (int (length s))"
    using strlen_loop_cstr [OF assms(1), of rest 0] by (simp add: strlen_def)
  moreover have "memcpy_loop dst 0 (s @ NUL # rest) 0 (length s) = Inr (s @ drop (length s) dst)"
    using memcpy_loop_spec [of 0 "length s" "s @ NUL # rest" 0 dst] assms(4) by simp
  moreover have "(s @ drop (length s) dst)[length s := NUL] = s @ NUL # drop (length s + 1) dst"
    using assms(4) by (simp add: list_update_append drop_nth_Cons)
  ultimately show ?thesis
    using strncpy_len_full [OF assms(2,3)] assms(4) by (simp add: strncpy_def Let_def)
qed

lemma strcmp_array:
  "NUL \<notin> set a \<Longrightarrow> NUL \<notin> set b \<Longrightarrow> \<exists>r. strcmp (a @ NUL # g) (cstr b) = Inr r \<and> (r = 0 \<longleftrightarrow> a = b)"
proof (induction a arbitrary: b)
  case Nil
  then show ?case by (cases b) (auto simp: cstr_def)
next
  case (Cons x a)
  show ?case
  proof (cases b)
    case Nil
    then show ?thesis using Cons.prems by (auto simp: cstr_def)
  next
    case (Cons y b')
    show ?thesis
    proof (cases "x = y")
      case True
      then show ?thesis using Cons Cons.IH [of b'] Cons.prems by (auto simp: cstr_def)
    next
      case False
      then have "char_val x \<noteq> char_val y" by simp
      then show ?thesis using Cons False by (auto simp: cstr_def)
    qed
  qed
qed

lemma c_string_array [simp]: "NUL \<notin> set s \<Longrightarrow> c_string (s @ NUL # rest) = s"
  unfolding c_string_def by (induction s) auto

subsection \<open>The counter of a pattern\<close>

definition good_pattern :: "string \<Rightarrow> bool" where
  "good_pattern q \<longleftrightarrow> q \<noteq> [] \<and> last q = CHR ''%'' \<and> CHR ''%'' \<notin> set (butlast q) \<and> NUL \<notin> set q"

definition letter_name :: "string \<Rightarrow> nat \<Rightarrow> string" where
  "letter_name q k = butlast q @ letters k"

text \<open>The counter of pattern \<open>q\<close> that has given \<open>k\<close> names.\<close>

definition letter_entry :: "string \<Rightarrow> nat \<Rightarrow> letter_incrementation \<Rightarrow> bool" where
  "letter_entry q k inc \<longleftrightarrow>
     good_pattern q \<and> (\<exists>g. li_pattern inc = q @ NUL # g)
     \<and> length (letter_name q k) \<le> 31
     \<and> li_current inc = letter_name q k @ replicate (32 - length (letter_name q k)) NUL
     \<and> li_start inc = length q - 1"

lemma letter_name_NUL: "good_pattern q \<Longrightarrow> NUL \<notin> set (letter_name q k)"
  using letters_facts(2) [of k] letter_not_NUL by (auto simp: good_pattern_def letter_name_def dest: in_set_butlastD)

lemma letters_mono: "j \<le> k \<Longrightarrow> length (letters j) \<le> length (letters k)"
proof (induction rule: dec_induct)
  case (step n)
  then show ?case using next_letters_value [OF letters_facts(2) [of n]] by (simp add: letters_Suc)
qed simp

lemma letter_get_ok:
  assumes e: "letter_entry q k inc" and room: "length (letter_name q (Suc k)) \<le> 31"
    and len: "32 \<le> len" "len \<le> length buffer" "len < 2 ^ 31"
  shows "\<exists>b inc'. letter_get buffer len inc = Inr (b, inc') \<and> c_string b = letter_name q k \<and> letter_entry q (Suc k) inc'"
proof -
  let ?n = "letter_name q k"
  have q: "good_pattern q" "length ?n \<le> 31" "li_start inc = length (butlast q)"
    "li_current inc = ?n @ replicate (32 - length ?n) NUL"
    using e by (auto simp: letter_entry_def)
  have cur: "li_current inc = ?n @ NUL # replicate (31 - length ?n) NUL"
    using q(2,4) by (simp add: Suc_diff_le flip: replicate_Suc)
  have "strncpy buffer 0 (li_current inc) (of_nat len) = Inr (?n @ NUL # drop (length ?n + 1) buffer)"
    unfolding cur using letter_name_NUL [OF q(1)] q(2) len by (intro strncpy_array) (auto simp: unat_of_nat)
  moreover have "\<exists>t. cell_set (?n @ NUL # drop (length ?n + 1) buffer) (len - 1) NUL = Inr (?n @ NUL # t)"
  proof (cases "len - 1 - length ?n")
    case 0
    then have "len - 1 = length ?n" using q(2) len by simp
    then show ?thesis by (simp add: list_update_append)
  next
    case (Suc j)
    then have "len - 1 = length ?n + Suc j" by simp
    then show ?thesis using q(2) len by (simp add: list_update_append)
  qed
  moreover have "letter_count_loop (li_current inc) (li_start inc) (32 - li_start inc)
      = letter_name q (Suc k) @ replicate (32 - length (letter_name q (Suc k))) NUL"
  proof -
    have run: "letter_count_loop (butlast q @ letters k @ replicate (Suc (31 - length ?n)) NUL) (length (butlast q)) (32 - length (butlast q))
      = butlast q @ next_letters (letters k) @ replicate (Suc (31 - length (letter_name q (Suc k)))) NUL"
      using letters_facts(2) q(2) room by (intro letter_count_loop_next) (auto simp: letter_name_def letters_Suc)
    have s: "Suc (31 - length ?n) = 32 - length ?n"
      "Suc (31 - length (letter_name q (Suc k))) = 32 - length (letter_name q (Suc k))" using q(2) room by auto
    have names: "?n @ x = butlast q @ letters k @ x" "letter_name q (Suc k) @ x = butlast q @ next_letters (letters k) @ x" for x
      by (simp_all add: letter_name_def letters_Suc)
    show ?thesis unfolding q(3,4) names using run unfolding s .
  qed
  ultimately show ?thesis
    using e room letter_name_NUL [OF q(1), of k] by (auto simp: letter_get_def letter_entry_def)
qed

lemma place_loop_ok:
  "CHR ''%'' \<notin> set p \<Longrightarrow> NUL \<notin> set p \<Longrightarrow>
     place_loop (a @ p @ CHR ''%'' # r) (length a) (Suc (length p + m)) = Inr (length a + length p, a @ p @ CHR ''a'' # r)"
proof (induction p arbitrary: a)
  case Nil
  then show ?case by (simp add: NUL_def list_update_append)
next
  case (Cons c p)
  from Cons.IH [of "a @ [c]"] Cons.prems show ?case by (auto simp: nth_append)
qed

lemma new_letter_ok:
  assumes "good_pattern q" "length q \<le> 30"
  shows "\<exists>inc. new_letter_incrementation (cstr q) = Inr inc \<and> letter_entry q 0 inc"
proof -
  let ?p = "butlast q"
  have q: "q = ?p @ [CHR ''%'']" "CHR ''%'' \<notin> set ?p" "NUL \<notin> set ?p" "NUL \<notin> set q"
    using assms(1) by (auto simp: good_pattern_def dest: in_set_butlastD) (metis append_butlast_last_id)
  have c: "strncpy (replicate 32 NUL) 0 (cstr q) 32 = Inr (q @ NUL # replicate (31 - length q) NUL)"
    unfolding cstr_def using strncpy_array [OF q(4), of 32 "replicate 32 NUL" "[]"] assms(2) by simp
  have len: "length ?p \<le> 29" "Suc (length ?p + (31 - length ?p)) = 32" using assms(2) by auto
  have "place_loop (?p @ CHR ''%'' # (NUL # replicate (31 - length q) NUL)) 0 32
      = Inr (length ?p, ?p @ CHR ''a'' # (NUL # replicate (31 - length q) NUL))"
    using place_loop_ok [OF q(2,3), of "[]" "NUL # replicate (31 - length q) NUL" "31 - length ?p"]
    unfolding len(2) append_Nil list.size(3) add_0 .
  moreover have "?p @ CHR ''%'' # (NUL # replicate (31 - length q) NUL) = q @ NUL # replicate (31 - length q) NUL"
    using q(1) by (metis append.assoc append_Cons append_Nil)
  ultimately have "place_loop (q @ NUL # replicate (31 - length q) NUL) 0 32
      = Inr (length ?p, ?p @ CHR ''a'' # NUL # replicate (31 - length q) NUL)" by simp
  moreover have "replicate (32 - length (letter_name q 0)) NUL = NUL # replicate (31 - length q) NUL"
    using assms by (auto simp: letter_name_def letters_def good_pattern_def Suc_diff_le simp flip: replicate_Suc)
  moreover have "letter_name q 0 @ x = ?p @ CHR ''a'' # x" for x by (simp add: letter_name_def letters_def)
  moreover have "length (letter_name q 0) \<le> 31" using assms(2) by (simp add: letter_name_def letters_def)
  ultimately show ?thesis
    using assms(1) c by (simp add: new_letter_incrementation_def letter_entry_def)
qed


subsection \<open>The table of counters\<close>

definition table_ok :: "string list \<Rightarrow> (string \<Rightarrow> nat) \<Rightarrow> letter_incrementation list \<Rightarrow> bool" where
  "table_ok qs given incs \<longleftrightarrow> distinct qs \<and> list_all2 (\<lambda>q. letter_entry q (given q)) qs incs"

lemma letter_entry_strcmp:
  assumes "letter_entry x k inc" "good_pattern q"
  shows "\<exists>r. strcmp (li_pattern inc) (cstr q) = Inr r \<and> (r = 0 \<longleftrightarrow> x = q)"
  using assms strcmp_array [of x q] by (auto simp: letter_entry_def good_pattern_def)

lemma letter_find_ok:
  assumes "table_ok qs given incs" "good_pattern q" "length (letter_name q (Suc (given q))) \<le> 31"
    and len: "32 \<le> len" "len \<le> length buffer" "len < 2 ^ 31"
  shows "if q \<in> set qs
    then \<exists>b incs'. letter_find buffer len (cstr q) incs = Inr (Some (b, incs')) \<and> c_string b = letter_name q (given q)
      \<and> table_ok qs (given(q := Suc (given q))) incs'
    else letter_find buffer len (cstr q) incs = Inr None"
  using assms(1)
proof (induction qs arbitrary: incs)
  case Nil
  then show ?case by (simp add: table_ok_def)
next
  case (Cons x qs)
  then obtain inc rest where incs: "incs = inc # rest" and e: "letter_entry x (given x) inc"
    and t: "table_ok qs given rest" and new: "x \<notin> set qs"
    by (auto simp: table_ok_def list_all2_Cons1)
  obtain r where r: "strcmp (li_pattern inc) (cstr q) = Inr r" "r = 0 \<longleftrightarrow> x = q"
    using letter_entry_strcmp [OF e assms(2)] by blast
  show ?case
  proof (cases "x = q")
    case True
    obtain b inc' where g: "letter_get buffer len inc = Inr (b, inc')" "c_string b = letter_name q (given q)"
        "letter_entry q (Suc (given q)) inc'"
      using letter_get_ok [OF e _ len] assms(3) True by auto
    have "list_all2 (\<lambda>y. letter_entry y ((given(q := Suc (given q))) y)) qs rest"
      using t new True by (auto simp: table_ok_def elim!: list.rel_mono_strong)
    then show ?thesis using True g r incs t new by (auto simp: table_ok_def)
  next
    case False
    then show ?thesis using Cons.IH [OF t] r incs e new by (auto simp: table_ok_def split: if_splits)
  qed
qed

lemma name_letter_increment_ok:
  assumes "table_ok qs given incs" "good_pattern q" "length q \<le> 30" "length (letter_name q (Suc (given q))) \<le> 31"
    and "q \<notin> set qs \<Longrightarrow> given q = 0"
    and len: "32 \<le> len" "len \<le> length buffer" "len < 2 ^ 31"
  shows "\<exists>b incs' qs'. name_letter_increment buffer len (cstr q) incs = Inr (b, incs') \<and> c_string b = letter_name q (given q)
      \<and> table_ok qs' (given(q := Suc (given q))) incs' \<and> set qs' = insert q (set qs)"
proof (cases "q \<in> set qs")
  case True
  then have "insert q (set qs) = set qs" by auto
  then show ?thesis using letter_find_ok [OF assms(1,2,4) len] True by (auto simp: name_letter_increment_def)
next
  case False
  then have none: "letter_find buffer len (cstr q) incs = Inr None" "given q = 0"
    using letter_find_ok [OF assms(1,2,4) len] assms(5) by auto
  obtain inc where inc: "new_letter_incrementation (cstr q) = Inr inc" "letter_entry q 0 inc"
    using new_letter_ok [OF assms(2,3)] by blast
  obtain b inc' where g: "letter_get buffer len inc = Inr (b, inc')" "c_string b = letter_name q 0" "letter_entry q (Suc 0) inc'"
    using letter_get_ok [OF inc(2) _ len] assms(4) none(2) by auto
  have "list_all2 (\<lambda>y. letter_entry y ((given(q := Suc 0)) y)) qs incs"
    using assms(1) False by (auto simp: table_ok_def elim!: list.rel_mono_strong)
  then have "table_ok (qs @ [q]) (given(q := Suc (given q))) (incs @ [inc'])"
    using assms(1) False g(3) none(2) by (simp add: table_ok_def list_all2_appendI)
  then show ?thesis
    using none inc g by (intro exI [of _ b] exI [of _ "incs @ [inc']"] exI [of _ "qs @ [q]"]) (simp add: name_letter_increment_def)
qed

fun name_run :: "char list \<Rightarrow> nat \<Rightarrow> string list \<Rightarrow> letter_incrementation list \<Rightarrow> (string list \<times> letter_incrementation list) res" where
  "name_run buffer len [] incs = Inr ([], incs)"
| "name_run buffer len (q # qs) incs =
     res_bind (name_letter_increment buffer len (cstr q) incs) (\<lambda>(b, incs).
     res_bind (name_run buffer len qs incs) (\<lambda>(ns, incs). Inr (c_string b # ns, incs)))"

lemma name_run_ok:
  assumes "table_ok known given incs" "\<And>q. q \<notin> set known \<Longrightarrow> given q = 0"
    and "\<forall>q \<in> set qs. good_pattern q \<and> length q \<le> 30 \<and> length (letter_name q (given q + count_list qs q)) \<le> 31"
    and len: "32 \<le> len" "len \<le> length buffer" "len < 2 ^ 31"
  shows "\<exists>incs'. name_run buffer len qs incs =
    Inr (map (\<lambda>i. letter_name (qs ! i) (given (qs ! i) + count_list (take i qs) (qs ! i))) [0..<length qs], incs')"
  using assms(1-3)
proof (induction qs arbitrary: known given incs)
  case Nil
  then show ?case by simp
next
  case (Cons q qs)
  have q: "good_pattern q" "length q \<le> 30" "length (letter_name q (given q + Suc (count_list qs q))) \<le> 31"
    using Cons.prems(3) by auto
  have short: "length (letter_name q (Suc (given q))) \<le> 31"
    using q(3) letters_mono [of "Suc (given q)" "given q + Suc (count_list qs q)"] by (simp add: letter_name_def)
  obtain b incs1 known1 where 1: "name_letter_increment buffer len (cstr q) incs = Inr (b, incs1)"
      "c_string b = letter_name q (given q)" "table_ok known1 (given(q := Suc (given q))) incs1" "set known1 = insert q (set known)"
    using name_letter_increment_ok [OF Cons.prems(1) q(1,2) short Cons.prems(2) len] by blast
  have "\<forall>x \<in> set qs. good_pattern x \<and> length x \<le> 30
      \<and> length (letter_name x ((given(q := Suc (given q))) x + count_list qs x)) \<le> 31"
    using Cons.prems(3) by (auto split: if_splits)
  then obtain incs2 where 2: "name_run buffer len qs incs1 =
      Inr (map (\<lambda>i. letter_name (qs ! i) ((given(q := Suc (given q))) (qs ! i) + count_list (take i qs) (qs ! i))) [0..<length qs], incs2)"
    using Cons.IH [OF 1(3)] 1(4) Cons.prems(2) by auto
  have "(given(q := Suc (given q))) (qs ! i) + count_list (take i qs) (qs ! i)
      = given ((q # qs) ! Suc i) + count_list (take (Suc i) (q # qs)) ((q # qs) ! Suc i)" for i by simp
  then have "map (\<lambda>i. letter_name ((q # qs) ! i) (given ((q # qs) ! i) + count_list (take i (q # qs)) ((q # qs) ! i))) [0..<length (q # qs)]
      = letter_name q (given q) # map (\<lambda>i. letter_name (qs ! i) ((given(q := Suc (given q))) (qs ! i) + count_list (take i qs) (qs ! i))) [0..<length qs]"
    by (simp only: list.size add_Suc_right add_0_right map_upt_Suc nth_Cons_0 nth_Cons_Suc take_0 count_list.simps)
  with 1 2 show ?case by simp
qed




text \<open>The names in numbers: the pattern up to its \<open>%\<close>, and how often it was asked for.\<close>

lemma number_format: "format_text ''%s%i'' [AString b, AWord w] = Some (b @ itos (sint (ucast w :: u32)) 10)"
proof -
  have "spec_directive ''s%i'' = Some (CHR '' '', 0, SIZE_INT, CHR ''s'', ''%i'')" by code_simp
  moreover have "spec_directive ''i'' = Some (CHR '' '', 0, SIZE_INT, CHR ''i'', [])" by code_simp
  ultimately show ?thesis
    by (simp add: format_text.simps spec_convert_def spec_arg_def string_arg_def word_arg_def number_text_def pad_def)
qed

lemma number_get_name:
  assumes "0 < len" "len \<le> length buffer"
  shows "\<exists>rest. number_get buffer len inc =
    Inr (take (len - 1) (takeWhile (\<lambda>c. c \<noteq> NUL) (ni_base inc) @ itos (sint (ni_current inc)) 10) @ NUL # rest,
         inc\<lparr>ni_current := ni_current inc + 1\<rparr>)"
proof -
  have n: "NUL \<notin> set ''%s%i''" by (simp add: NUL_def)
  have "(ucast (ucast (ni_current inc) :: u64) :: u32) = ni_current inc" by (rule bit_word_eqI) (simp add: bit_simps)
  with snprintf_text [OF number_format _ n assms, of "takeWhile (\<lambda>c. c \<noteq> NUL) (ni_base inc)" "ucast (ni_current inc)"]
  show ?thesis by (simp add: number_get_def)
qed

end
