(* ===== verification/Ps2.thy ===== *)
theory Ps2
  imports Input CText
begin

text \<open>
  Typing: the interrupt handler of the PS/2 keyboard (\<open>arch/x86_64/mod/core/ps2/kb.cpp\<close>) with its tables
  (\<open>translation.cpp\<close>), the default key map (\<open>dev/input/default_keymap.cpp\<close>), and the thread that turns the events of
  the input layer into characters of a terminal (\<open>tty_loop\<close> in \<open>dev/input.cpp\<close>, \<open>VTTY::keyPress\<close> in
  \<open>dev/tty.cpp\<close>). The tables are the entries that are not 0; an array leaves the rest 0.
\<close>

definition KEY_A :: u8 where "KEY_A = 0x04"
definition KEY_B :: u8 where "KEY_B = 0x05"
definition KEY_C :: u8 where "KEY_C = 0x06"
definition KEY_D :: u8 where "KEY_D = 0x07"
definition KEY_E :: u8 where "KEY_E = 0x08"
definition KEY_F :: u8 where "KEY_F = 0x09"
definition KEY_G :: u8 where "KEY_G = 0x0A"
definition KEY_H :: u8 where "KEY_H = 0x0B"
definition KEY_I :: u8 where "KEY_I = 0x0C"
definition KEY_J :: u8 where "KEY_J = 0x0D"
definition KEY_K :: u8 where "KEY_K = 0x0E"
definition KEY_L :: u8 where "KEY_L = 0x0F"
definition KEY_M :: u8 where "KEY_M = 0x10"
definition KEY_N :: u8 where "KEY_N = 0x11"
definition KEY_O :: u8 where "KEY_O = 0x12"
definition KEY_P :: u8 where "KEY_P = 0x13"
definition KEY_Q :: u8 where "KEY_Q = 0x14"
definition KEY_R :: u8 where "KEY_R = 0x15"
definition KEY_S :: u8 where "KEY_S = 0x16"
definition KEY_T :: u8 where "KEY_T = 0x17"
definition KEY_U :: u8 where "KEY_U = 0x18"
definition KEY_V :: u8 where "KEY_V = 0x19"
definition KEY_W :: u8 where "KEY_W = 0x1A"
definition KEY_X :: u8 where "KEY_X = 0x1B"
definition KEY_Y :: u8 where "KEY_Y = 0x1C"
definition KEY_Z :: u8 where "KEY_Z = 0x1D"
definition KEY_1 :: u8 where "KEY_1 = 0x1E"
definition KEY_2 :: u8 where "KEY_2 = 0x1F"
definition KEY_3 :: u8 where "KEY_3 = 0x20"
definition KEY_4 :: u8 where "KEY_4 = 0x21"
definition KEY_5 :: u8 where "KEY_5 = 0x22"
definition KEY_6 :: u8 where "KEY_6 = 0x23"
definition KEY_7 :: u8 where "KEY_7 = 0x24"
definition KEY_8 :: u8 where "KEY_8 = 0x25"
definition KEY_9 :: u8 where "KEY_9 = 0x26"
definition KEY_0 :: u8 where "KEY_0 = 0x27"
definition KEY_RETURN :: u8 where "KEY_RETURN = 0x28"
definition KEY_ESCAPE :: u8 where "KEY_ESCAPE = 0x29"
definition KEY_BACKSPACE :: u8 where "KEY_BACKSPACE = 0x2A"
definition KEY_TAB :: u8 where "KEY_TAB = 0x2B"
definition KEY_SPACE :: u8 where "KEY_SPACE = 0x2C"
definition KEY_MINUS :: u8 where "KEY_MINUS = 0x2D"
definition KEY_EQUAL :: u8 where "KEY_EQUAL = 0x2E"
definition KEY_LEFTBRACE :: u8 where "KEY_LEFTBRACE = 0x2F"
definition KEY_RIGHTBRACE :: u8 where "KEY_RIGHTBRACE = 0x30"
definition KEY_BACKSLASH :: u8 where "KEY_BACKSLASH = 0x31"
definition KEY_BACKSLASH2 :: u8 where "KEY_BACKSLASH2 = 0x32"
definition KEY_SEMICOLON :: u8 where "KEY_SEMICOLON = 0x33"
definition KEY_APOSTROPHE :: u8 where "KEY_APOSTROPHE = 0x34"
definition KEY_GRAVE :: u8 where "KEY_GRAVE = 0x35"
definition KEY_COMMA :: u8 where "KEY_COMMA = 0x36"
definition KEY_DOT :: u8 where "KEY_DOT = 0x37"
definition KEY_SLASH :: u8 where "KEY_SLASH = 0x38"
definition KEY_F1 :: u8 where "KEY_F1 = 0x3A"
definition KEY_F2 :: u8 where "KEY_F2 = 0x3B"
definition KEY_F3 :: u8 where "KEY_F3 = 0x3C"
definition KEY_F4 :: u8 where "KEY_F4 = 0x3D"
definition KEY_F5 :: u8 where "KEY_F5 = 0x3E"
definition KEY_F6 :: u8 where "KEY_F6 = 0x3F"
definition KEY_F7 :: u8 where "KEY_F7 = 0x40"
definition KEY_F8 :: u8 where "KEY_F8 = 0x41"
definition KEY_F9 :: u8 where "KEY_F9 = 0x42"
definition KEY_F10 :: u8 where "KEY_F10 = 0x43"
definition KEY_F11 :: u8 where "KEY_F11 = 0x44"
definition KEY_F12 :: u8 where "KEY_F12 = 0x45"
definition KEY_SYSRQ :: u8 where "KEY_SYSRQ = 0x46"
definition KEY_KPASTERISK :: u8 where "KEY_KPASTERISK = 0x55"
definition KEY_KPMINUS :: u8 where "KEY_KPMINUS = 0x56"
definition KEY_KPPLUS :: u8 where "KEY_KPPLUS = 0x57"
definition KEY_KP1 :: u8 where "KEY_KP1 = 0x59"
definition KEY_KP2 :: u8 where "KEY_KP2 = 0x5A"
definition KEY_KP3 :: u8 where "KEY_KP3 = 0x5B"
definition KEY_KP4 :: u8 where "KEY_KP4 = 0x5C"
definition KEY_KP5 :: u8 where "KEY_KP5 = 0x5D"
definition KEY_KP6 :: u8 where "KEY_KP6 = 0x5E"
definition KEY_KP7 :: u8 where "KEY_KP7 = 0x5F"
definition KEY_KP8 :: u8 where "KEY_KP8 = 0x60"
definition KEY_KP9 :: u8 where "KEY_KP9 = 0x61"
definition KEY_KP0 :: u8 where "KEY_KP0 = 0x62"
definition KEY_KPDOT :: u8 where "KEY_KPDOT = 0x63"

lemmas key_codes = key_defs
  KEY_A_def KEY_B_def KEY_C_def KEY_D_def KEY_E_def KEY_F_def
  KEY_G_def KEY_H_def KEY_I_def KEY_J_def KEY_K_def KEY_L_def
  KEY_M_def KEY_N_def KEY_O_def KEY_P_def KEY_Q_def KEY_R_def
  KEY_S_def KEY_T_def KEY_U_def KEY_V_def KEY_W_def KEY_X_def
  KEY_Y_def KEY_Z_def KEY_1_def KEY_2_def KEY_3_def KEY_4_def
  KEY_5_def KEY_6_def KEY_7_def KEY_8_def KEY_9_def KEY_0_def
  KEY_RETURN_def KEY_ESCAPE_def KEY_BACKSPACE_def KEY_TAB_def KEY_SPACE_def KEY_MINUS_def
  KEY_EQUAL_def KEY_LEFTBRACE_def KEY_RIGHTBRACE_def KEY_BACKSLASH_def KEY_BACKSLASH2_def KEY_SEMICOLON_def
  KEY_APOSTROPHE_def KEY_GRAVE_def KEY_COMMA_def KEY_DOT_def KEY_SLASH_def KEY_F1_def
  KEY_F2_def KEY_F3_def KEY_F4_def KEY_F5_def KEY_F6_def KEY_F7_def
  KEY_F8_def KEY_F9_def KEY_F10_def KEY_F11_def KEY_F12_def KEY_SYSRQ_def
  KEY_KPASTERISK_def KEY_KPMINUS_def KEY_KPPLUS_def KEY_KP1_def KEY_KP2_def KEY_KP3_def
  KEY_KP4_def KEY_KP5_def KEY_KP6_def KEY_KP7_def KEY_KP8_def KEY_KP9_def
  KEY_KP0_def KEY_KPDOT_def

subsection \<open>The key map\<close>

definition nullKey :: key where
  "nullKey = \<lparr>k_normal = NUL, k_shift = NUL, k_ctrl = NUL, k_ctrl_alt = NUL,
     k_capslock = NUL, k_capslock_shift = NUL, k_capslock_ctrl = NUL, k_capslock_ctrl_alt = NUL\<rparr>"

definition normalKey :: "char \<Rightarrow> char \<Rightarrow> key" where
  "normalKey lower upper = \<lparr>k_normal = lower, k_shift = upper, k_ctrl = NUL, k_ctrl_alt = NUL,
     k_capslock = upper, k_capslock_shift = lower, k_capslock_ctrl = NUL, k_capslock_ctrl_alt = NUL\<rparr>"

definition symbolKey :: "char \<Rightarrow> key" where
  "symbolKey c = \<lparr>k_normal = c, k_shift = c, k_ctrl = NUL, k_ctrl_alt = NUL,
     k_capslock = c, k_capslock_shift = c, k_capslock_ctrl = NUL, k_capslock_ctrl_alt = NUL\<rparr>"

definition symbolKey2 :: "char \<Rightarrow> char \<Rightarrow> key" where
  "symbolKey2 non_shift shifted = \<lparr>k_normal = non_shift, k_shift = shifted, k_ctrl = NUL, k_ctrl_alt = NUL,
     k_capslock = non_shift, k_capslock_shift = shifted, k_capslock_ctrl = NUL, k_capslock_ctrl_alt = NUL\<rparr>"

definition default_keys :: "(u8 \<times> key) list" where
  "default_keys =
     [(KEY_A, normalKey (CHR 0x61) (CHR 0x41)), (KEY_B, normalKey (CHR 0x62) (CHR 0x42)), (KEY_C, normalKey (CHR 0x63) (CHR 0x43)),
      (KEY_D, normalKey (CHR 0x64) (CHR 0x44)), (KEY_E, normalKey (CHR 0x65) (CHR 0x45)), (KEY_F, normalKey (CHR 0x66) (CHR 0x46)),
      (KEY_G, normalKey (CHR 0x67) (CHR 0x47)), (KEY_H, normalKey (CHR 0x68) (CHR 0x48)), (KEY_I, normalKey (CHR 0x69) (CHR 0x49)),
      (KEY_J, normalKey (CHR 0x6A) (CHR 0x4A)), (KEY_K, normalKey (CHR 0x6B) (CHR 0x4B)), (KEY_L, normalKey (CHR 0x6C) (CHR 0x4C)),
      (KEY_M, normalKey (CHR 0x6D) (CHR 0x4D)), (KEY_N, normalKey (CHR 0x6E) (CHR 0x4E)), (KEY_O, normalKey (CHR 0x6F) (CHR 0x4F)),
      (KEY_P, normalKey (CHR 0x70) (CHR 0x50)), (KEY_Q, normalKey (CHR 0x71) (CHR 0x51)), (KEY_R, normalKey (CHR 0x72) (CHR 0x52)),
      (KEY_S, normalKey (CHR 0x73) (CHR 0x53)), (KEY_T, normalKey (CHR 0x74) (CHR 0x54)), (KEY_U, normalKey (CHR 0x75) (CHR 0x55)),
      (KEY_V, normalKey (CHR 0x76) (CHR 0x56)), (KEY_W, normalKey (CHR 0x77) (CHR 0x57)), (KEY_X, normalKey (CHR 0x78) (CHR 0x58)),
      (KEY_Y, normalKey (CHR 0x79) (CHR 0x59)), (KEY_Z, normalKey (CHR 0x7A) (CHR 0x5A)), (KEY_1, symbolKey2 (CHR 0x31) (CHR 0x21)),
      (KEY_2, symbolKey2 (CHR 0x32) (CHR 0x40)), (KEY_3, symbolKey2 (CHR 0x33) (CHR 0x23)), (KEY_4, symbolKey2 (CHR 0x34) (CHR 0x24)),
      (KEY_5, symbolKey2 (CHR 0x35) (CHR 0x25)), (KEY_6, symbolKey2 (CHR 0x36) (CHR 0x5E)), (KEY_7, symbolKey2 (CHR 0x37) (CHR 0x26)),
      (KEY_8, symbolKey2 (CHR 0x38) (CHR 0x2A)), (KEY_9, symbolKey2 (CHR 0x39) (CHR 0x28)), (KEY_0, symbolKey2 (CHR 0x30) (CHR 0x29)),
      (KEY_RETURN, symbolKey (CHR 0x0D)), (KEY_ESCAPE, symbolKey (CHR 0x1B)), (KEY_BACKSPACE, symbolKey (CHR 0x08)),
      (KEY_TAB, symbolKey (CHR 0x09)), (KEY_SPACE, symbolKey (CHR 0x20)), (KEY_MINUS, symbolKey2 (CHR 0x2D) (CHR 0x5F)),
      (KEY_EQUAL, symbolKey2 (CHR 0x3D) (CHR 0x2B)), (KEY_LEFTBRACE, symbolKey2 (CHR 0x5B) (CHR 0x7B)), (KEY_RIGHTBRACE, symbolKey2 (CHR 0x5D) (CHR 0x7D)),
      (KEY_BACKSLASH, symbolKey2 (CHR 0x5C) (CHR 0x7C)), (KEY_BACKSLASH2, symbolKey2 (CHR 0x5C) (CHR 0x7C)), (KEY_SEMICOLON, symbolKey2 (CHR 0x3B) (CHR 0x3A)),
      (KEY_APOSTROPHE, symbolKey2 (CHR 0x27) (CHR 0x22)), (KEY_GRAVE, symbolKey2 (CHR 0x60) (CHR 0x7E)), (KEY_COMMA, symbolKey2 (CHR 0x2C) (CHR 0x3C)),
      (KEY_DOT, symbolKey2 (CHR 0x2E) (CHR 0x3E)), (KEY_SLASH, symbolKey2 (CHR 0x2F) (CHR 0x3F))]"

definition default_keymap :: "u8 \<Rightarrow> key" where
  "default_keymap c = (case map_of default_keys c of None \<Rightarrow> nullKey | Some k \<Rightarrow> k)"

subsection \<open>Scan codes\<close>

definition normal_codes :: "(u8 \<times> u8) list" where
  "normal_codes =
     [(0x01, KEY_F9), (0x03, KEY_F5), (0x04, KEY_F3), (0x05, KEY_F5),
      (0x06, KEY_F2), (0x07, KEY_F12), (0x09, KEY_F10), (0x0A, KEY_F8),
      (0x0B, KEY_F6), (0x0C, KEY_F4), (0x0D, KEY_TAB), (0x0E, KEY_GRAVE),
      (0x11, KEY_LEFTALT), (0x12, KEY_LEFTSHIFT), (0x14, KEY_LEFTCTRL), (0x15, KEY_Q),
      (0x16, KEY_1), (0x1A, KEY_Z), (0x1B, KEY_S), (0x1C, KEY_A),
      (0x1D, KEY_W), (0x1E, KEY_2), (0x21, KEY_C), (0x22, KEY_X),
      (0x23, KEY_D), (0x24, KEY_E), (0x25, KEY_4), (0x26, KEY_3),
      (0x29, KEY_SPACE), (0x2A, KEY_V), (0x2B, KEY_F), (0x2C, KEY_T),
      (0x2D, KEY_R), (0x2E, KEY_5), (0x31, KEY_N), (0x32, KEY_B),
      (0x33, KEY_H), (0x34, KEY_G), (0x35, KEY_Y), (0x36, KEY_6),
      (0x3A, KEY_M), (0x3B, KEY_J), (0x3C, KEY_U), (0x3D, KEY_7),
      (0x3E, KEY_8), (0x41, KEY_COMMA), (0x42, KEY_K), (0x43, KEY_I),
      (0x44, KEY_O), (0x45, KEY_0), (0x46, KEY_9), (0x49, KEY_DOT),
      (0x4A, KEY_SLASH), (0x4B, KEY_L), (0x4C, KEY_SEMICOLON), (0x4D, KEY_P),
      (0x4E, KEY_MINUS), (0x52, KEY_APOSTROPHE), (0x54, KEY_LEFTBRACE), (0x55, KEY_EQUAL),
      (0x58, KEY_CAPSLOCK), (0x59, KEY_RIGHTSHIFT), (0x5A, KEY_RETURN), (0x5B, KEY_RIGHTBRACE),
      (0x5D, KEY_BACKSLASH), (0x66, KEY_BACKSPACE), (0x69, KEY_KP1), (0x6B, KEY_KP4),
      (0x6C, KEY_KP7), (0x70, KEY_KP0), (0x71, KEY_KPDOT), (0x72, KEY_KP2),
      (0x73, KEY_KP5), (0x74, KEY_KP6), (0x75, KEY_KP8), (0x76, KEY_ESCAPE),
      (0x77, KEY_NUMLOCK), (0x78, KEY_F11), (0x79, KEY_KPPLUS), (0x7A, KEY_KP3),
      (0x7B, KEY_KPMINUS), (0x7C, KEY_KPASTERISK), (0x7D, KEY_KP9), (0x7E, KEY_SYSRQ),
      (0x83, KEY_F7)]"

definition extra_codes :: "(u8 \<times> u8) list" where
  "extra_codes = [(0x11, KEY_RIGHTALT), (0x14, KEY_RIGHTCTRL)]"

definition translation_normal :: "u8 \<Rightarrow> u8" where
  "translation_normal b = (case map_of normal_codes b of None \<Rightarrow> 0 | Some k \<Rightarrow> k)"

definition translation_extra :: "u8 \<Rightarrow> u8" where
  "translation_extra b = (case map_of extra_codes b of None \<Rightarrow> 0 | Some k \<Rightarrow> k)"

text \<open>The static variables of the handler.\<close>

record ps2_state =
  ps2_released :: bool
  ps2_extra :: bool

definition ps2_idle :: ps2_state where
  "ps2_idle = \<lparr>ps2_released = False, ps2_extra = False\<rparr>"

definition kb_irq :: "tid \<Rightarrow> bool \<Rightarrow> u8 \<Rightarrow> ps2_state \<Rightarrow> input_state \<Rightarrow> (ps2_state \<times> input_state) res" where
  "kb_irq self intr byte p st =
     (if byte = 0xE0 then Inr (p\<lparr>ps2_extra := True\<rparr>, st)
      else if byte = 0xF0 then Inr (p\<lparr>ps2_released := True\<rparr>, st)
      else
        let translated = (if \<not> ps2_extra p then translation_normal byte else translation_extra byte) in
        if translated = 0 then Inr (ps2_idle, st)
        else res_bind (if \<not> ps2_released p then key_press self intr translated st else key_release self intr translated st)
          (\<lambda>st. Inr (ps2_idle, st)))"

subsection \<open>From events to characters\<close>

definition inputReady :: circ where
  "inputReady = newCircularBuffer 2048"

definition vtty_keyPress :: "tid \<Rightarrow> bool \<Rightarrow> (u8 \<Rightarrow> key) \<Rightarrow> u8 \<Rightarrow> u8 \<Rightarrow> circ \<Rightarrow> circ res" where
  "vtty_keyPress self intr keymap keycode mods buf =
     (if writeAvailable buf = 0 then Inr buf
      else if mods AND KEYMOD_CTRL \<noteq> 0 \<and> KEY_A \<le> keycode \<and> keycode \<le> KEY_Z
      then res_bind (cb_write self intr [1 + (keycode - KEY_A)] 1 buf) (\<lambda>(buf, _). Inr buf)
      else
        let c = translate keymap keycode mods in
        if c = NUL then Inr buf
        else res_bind (cb_write self intr [of_char c] 1 buf) (\<lambda>(buf, _). Inr buf))"

text \<open>One round of \<open>tty_loop\<close> with its handle; where there is no event the thread waits in the read.\<close>

definition tty_round :: "tid \<Rightarrow> bool \<Rightarrow> (u8 \<Rightarrow> key) \<Rightarrow> circ \<Rightarrow> circ \<Rightarrow> (circ \<times> circ) res" where
  "tty_round self intr keymap h buf =
     res_bind (handle_read self intr h) (\<lambda>(h, ev, _, _, ex).
       if ex = Blocked then Inr (h, buf)
       else if ev ! 1 AND KEYMOD_RELEASE \<noteq> 0 then Inr (h, buf)
       else res_bind (vtty_keyPress self intr keymap (ev ! 0) (ev ! 1) buf) (\<lambda>buf. Inr (h, buf)))"

definition vtty_read :: "tid \<Rightarrow> bool \<Rightarrow> circ \<Rightarrow> (circ \<times> u8 list \<times> int \<times> int \<times> loop_exit) res" where
  "vtty_read self intr buf = cb_read self intr [0] 1 (-1) buf"

text \<open>The keyboard, the input layer with the handle of the terminal, and the buffer of the terminal. The
  handler and the thread of the terminal take turns in any order.\<close>

record console =
  con_ps2 :: ps2_state
  con_input :: input_state
  con_buffer :: circ

definition console_start :: console where
  "console_start = \<lparr>con_ps2 = ps2_idle, con_input = register_handle (newCircularBuffer 1024) initial_input,
     con_buffer = inputReady\<rparr>"

datatype con_act = Byte u8 | TtyRound

fun con_step :: "tid \<Rightarrow> bool \<Rightarrow> (u8 \<Rightarrow> key) \<Rightarrow> con_act \<Rightarrow> console \<Rightarrow> console res" where
  "con_step self intr km (Byte b) st =
     res_bind (kb_irq self intr b (con_ps2 st) (con_input st)) (\<lambda>(p, i). Inr (st\<lparr>con_ps2 := p, con_input := i\<rparr>))"
| "con_step self intr km TtyRound st =
     res_bind (tty_round self intr km (in_handles (con_input st) ! 0) (con_buffer st)) (\<lambda>(h, buf).
       Inr (st\<lparr>con_input := (con_input st)\<lparr>in_handles := (in_handles (con_input st))[0 := h]\<rparr>, con_buffer := buf\<rparr>))"

fun con_run :: "tid \<Rightarrow> bool \<Rightarrow> (u8 \<Rightarrow> key) \<Rightarrow> con_act list \<Rightarrow> console \<Rightarrow> console res" where
  "con_run self intr km [] st = Inr st"
| "con_run self intr km (a # as) st = res_bind (con_step self intr km a st) (con_run self intr km as)"


subsection \<open>What a keyboard sends\<close>

text \<open>A key goes down or up; the codes of the extended keys follow a prefix.\<close>

datatype key_move = KeyMove (mv_down: bool) (mv_extended: bool) (mv_code: u8)

fun scan_bytes :: "key_move \<Rightarrow> u8 list" where
  "scan_bytes (KeyMove down extended code) = (if extended then [0xE0] else []) @ (if down then [] else [0xF0]) @ [code]"

definition plain_code :: "key_move \<Rightarrow> bool" where
  "plain_code m \<longleftrightarrow> mv_code m \<noteq> 0xE0 \<and> mv_code m \<noteq> 0xF0"

fun move_op :: "key_move \<Rightarrow> key_op option" where
  "move_op (KeyMove down extended code) =
     (let k = (if extended then translation_extra code else translation_normal code) in
      if k = 0 then None else Some (if down then Press k else Release k))"

definition key_ops :: "key_move list \<Rightarrow> key_op list" where
  "key_ops ms = List.map_filter move_op ms"

text \<open>The bytes as the handler reads them, one at a time.\<close>

fun scan_step :: "u8 \<Rightarrow> ps2_state \<Rightarrow> ps2_state \<times> key_op list" where
  "scan_step b p =
     (if b = 0xE0 then (p\<lparr>ps2_extra := True\<rparr>, [])
      else if b = 0xF0 then (p\<lparr>ps2_released := True\<rparr>, [])
      else (ps2_idle, case move_op (KeyMove (\<not> ps2_released p) (ps2_extra p) b) of None \<Rightarrow> [] | Some op \<Rightarrow> [op]))"

fun scan_run :: "u8 list \<Rightarrow> ps2_state \<Rightarrow> ps2_state \<times> key_op list" where
  "scan_run [] p = (p, [])"
| "scan_run (b # bs) p = (let (p, o1) = scan_step b p; (p, o2) = scan_run bs p in (p, o1 @ o2))"

lemma kb_irq_scan:
  "kb_irq self intr b p st =
     res_bind (key_run self intr (snd (scan_step b p)) st) (\<lambda>st. Inr (fst (scan_step b p), st))"
proof -
  have "res_bind m (key_run self intr []) = m" for m by (cases m) simp_all
  then show ?thesis by (simp add: kb_irq_def Let_def)
qed

lemma scan_run_append:
  "scan_run (bs @ cs) p = (fst (scan_run cs (fst (scan_run bs p))), snd (scan_run bs p) @ snd (scan_run cs (fst (scan_run bs p))))"
  by (induction bs arbitrary: p) (simp_all add: split_beta)

lemma scan_run_move:
  assumes "plain_code m"
  shows "scan_run (scan_bytes m) ps2_idle = (ps2_idle, case move_op m of None \<Rightarrow> [] | Some op \<Rightarrow> [op])"
proof (cases m)
  case (KeyMove down extended code)
  with assms have "code \<noteq> 0xE0" "code \<noteq> 0xF0" by (simp_all add: plain_code_def)
  with KeyMove show ?thesis by (cases down; cases extended) (simp_all add: ps2_idle_def Let_def)
qed

lemma scan_run_moves:
  assumes "\<forall>m \<in> set ms. plain_code m"
  shows "scan_run (concat (map scan_bytes ms)) ps2_idle = (ps2_idle, key_ops ms)"
  using assms
proof (induction ms)
  case Nil
  then show ?case by (simp add: key_ops_def)
next
  case (Cons m ms)
  then have "scan_run (scan_bytes m) ps2_idle = (ps2_idle, case move_op m of None \<Rightarrow> [] | Some op \<Rightarrow> [op])"
    by (intro scan_run_move) simp
  with Cons show ?case by (simp add: scan_run_append key_ops_def split: option.split)
qed

subsection \<open>What is typed\<close>

definition key_char :: "(u8 \<Rightarrow> key) \<Rightarrow> u8 \<Rightarrow> u8 \<Rightarrow> u8 list" where
  "key_char km c mods =
     (if mods AND KEYMOD_CTRL \<noteq> 0 \<and> KEY_A \<le> c \<and> c \<le> KEY_Z then [1 + (c - KEY_A)]
      else if translate km c mods = NUL then [] else [of_char (translate km c mods)])"

fun event_chars :: "(u8 \<Rightarrow> key) \<Rightarrow> u8 list \<Rightarrow> u8 list" where
  "event_chars km (c # mods # evs) = (if mods AND KEYMOD_RELEASE \<noteq> 0 then [] else key_char km c mods) @ event_chars km evs"
| "event_chars km _ = []"

lemma key_char_short: "length (key_char km c mods) \<le> 1"
  by (simp add: key_char_def)

lemma event_chars_append:
  "even (length evs) \<Longrightarrow> event_chars km (evs @ evs2) = event_chars km evs @ event_chars km evs2"
  by (induction km evs rule: event_chars.induct) simp_all

lemma spec_keys_append:
  "spec_keys (xs @ ys) k = (fst (spec_keys ys (fst (spec_keys xs k))),
     snd (spec_keys xs k) @ snd (spec_keys ys (fst (spec_keys xs k))))"
  by (induction xs arbitrary: k) (simp_all add: split_beta)

lemma spec_keys_even: "even (length (snd (spec_keys ops k)))"
proof (induction ops arbitrary: k)
  case (Cons op ops)
  then show ?case by (cases op) (simp_all add: split_beta)
qed simp

lemma event_chars_length: "2 * length (event_chars km evs) \<le> length evs"
  proof (induction km evs rule: event_chars.induct)
  case (1 km c mods evs)
  then show ?case using key_char_short [of km c mods] by simp
qed simp_all

lemma vtty_keyPress_room:
  assumes inv: "circ_inv buf" and room: "int (length (contents buf)) + 1 < m_size buf"
  shows "\<exists>buf'. vtty_keyPress self intr km c mods buf = Inr buf' \<and> circ_inv buf'
    \<and> contents buf' = contents buf @ key_char km c mods \<and> m_size buf' = m_size buf"
proof -
  have av: "writeAvailable buf \<noteq> 0" using inv room by (simp add: writeAvailable_contents)
  have n: "min 1 (m_size buf - 1 - int (length (contents buf))) = 1" using room by simp
  have "\<exists>buf'. res_bind (cb_write self intr [v] 1 buf) (\<lambda>(buf, _). Inr buf) = Inr buf' \<and> circ_inv buf'
      \<and> contents buf' = contents buf @ [v] \<and> m_size buf' = m_size buf" for v
    using cb_write_result [OF inv, of 1 "[v]" self intr] unfolding write_result_def Let_def n by auto
  then show ?thesis using av inv by (simp add: vtty_keyPress_def key_char_def Let_def)
qed


subsection \<open>Taking turns\<close>

text \<open>Room for \<open>n\<close> more bytes from the keyboard, in the handle and, for what is in the handle too, in the buffer.\<close>

definition con_ok :: "nat \<Rightarrow> console \<Rightarrow> bool" where
  "con_ok n st \<longleftrightarrow> input_ok (con_input st) \<and> circ_inv (con_buffer st)
     \<and> (\<exists>h. in_handles (con_input st) = [h] \<and> even (length (contents h)) \<and> 2 < m_size h
          \<and> int (length (contents h)) + 2 * int n < m_size h
          \<and> 2 * int (length (contents (con_buffer st))) + int (length (contents h)) + 2 * int n < 2 * m_size (con_buffer st) - 2)"

text \<open>What has been typed: in the buffer already, or still on the handle.\<close>

definition typed :: "(u8 \<Rightarrow> key) \<Rightarrow> console \<Rightarrow> u8 list" where
  "typed km st = contents (con_buffer st) @ event_chars km (contents (hd (in_handles (con_input st))))"

lemma byte_step:
  assumes ok: "con_ok (Suc n) st"
    and ops: "scan_step b (con_ps2 st) = (p, ops)"
  shows "\<exists>st'. con_step self intr km (Byte b) st = Inr st' \<and> con_ok n st' \<and> con_ps2 st' = p
    \<and> keyboard_of (con_input st') = fst (spec_keys ops (keyboard_of (con_input st)))
    \<and> typed km st' = typed km st @ event_chars km (snd (spec_keys ops (keyboard_of (con_input st))))
    \<and> length (contents (hd (in_handles (con_input st')))) \<le> length (contents (hd (in_handles (con_input st)))) + 2"
proof -
  let ?k = "keyboard_of (con_input st)"
  from ok obtain h where h: "in_handles (con_input st) = [h]" "even (length (contents h))" "2 < m_size h"
    "int (length (contents h)) + 2 * int (Suc n) < m_size h"
    "2 * int (length (contents (con_buffer st))) + int (length (contents h)) + 2 * int (Suc n) < 2 * m_size (con_buffer st) - 2"
    and inv: "input_ok (con_input st)" "circ_inv (con_buffer st)" by (auto simp: con_ok_def)
  consider "ops = []" | op where "ops = [op]" using ops by (auto split: if_splits option.splits)
  then show ?thesis
  proof cases
    case 1
    then show ?thesis using ops h inv by (auto simp: kb_irq_scan con_ok_def typed_def)
  next
    case (2 op)
    have "\<forall>h \<in> set (in_handles (con_input st)). int (length (contents h)) + 2 < m_size h" using h by simp
    from key_step_spec [OF inv(1) this, of self intr op] obtain i h' where
      i: "key_step self intr op (con_input st) = Inr i" "input_ok i" "keyboard_of i = fst (spec_key op ?k)"
      "in_handles i = [h']" "contents h' = contents h @ snd (spec_key op ?k)" "m_size h' = m_size h"
      using h(1) by (auto simp: map_eq_Cons_conv)
    have len: "length (snd (spec_key op ?k)) = 2" by (cases op) simp_all
    have "con_step self intr km (Byte b) st = Inr (st\<lparr>con_ps2 := p, con_input := i\<rparr>)"
      using ops 2 i(1) by (simp add: kb_irq_scan)
    moreover have "con_ok n (st\<lparr>con_ps2 := p, con_input := i\<rparr>)"
      using h inv i len by (simp add: con_ok_def)
    ultimately show ?thesis using 2 h i len by (simp add: typed_def event_chars_append split_beta)
  qed
qed

lemma handle_read_cases:
  assumes inv: "circ_inv h" and sz: "2 < m_size h"
  shows "contents h = [] \<Longrightarrow> \<exists>h' ev n k. handle_read self intr h = Inr (h', ev, n, k, Blocked)
      \<and> circ_inv h' \<and> contents h' = [] \<and> m_size h' = m_size h"
    and "contents h = c # mods # evs \<Longrightarrow> \<exists>h' n k. handle_read self intr h = Inr (h', [c, mods], n, k, Completed)
      \<and> circ_inv h' \<and> contents h' = evs \<and> m_size h' = m_size h"
  using cb_read_result [OF inv, of 2 "[0, 0]" self intr "-1"] sz
  by (auto simp: read_result_def handle_read_def Let_def read_exit_def)

lemma round_step:
  assumes ok: "con_ok n st"
  shows "\<exists>st'. con_step self intr km TtyRound st = Inr st' \<and> con_ok n st' \<and> con_ps2 st' = con_ps2 st
    \<and> keyboard_of (con_input st') = keyboard_of (con_input st) \<and> typed km st' = typed km st
    \<and> length (contents (hd (in_handles (con_input st')))) = length (contents (hd (in_handles (con_input st)))) - 2"
proof -
  from ok obtain h where h: "in_handles (con_input st) = [h]" "even (length (contents h))" "2 < m_size h"
    "int (length (contents h)) + 2 * int n < m_size h"
    "2 * int (length (contents (con_buffer st))) + int (length (contents h)) + 2 * int n < 2 * m_size (con_buffer st) - 2"
    and inv: "input_ok (con_input st)" "circ_inv (con_buffer st)" by (auto simp: con_ok_def)
  have hi: "circ_inv h" using inv(1) h(1) by (simp add: input_ok_def)
  have set_h: "keyboard_of ((con_input st)\<lparr>in_handles := [h']\<rparr>) = keyboard_of (con_input st)"
    "circ_inv h' \<Longrightarrow> input_ok ((con_input st)\<lparr>in_handles := [h']\<rparr>)" for h'
    using inv(1) by (simp_all add: keyboard_of_def input_ok_def counters_exact_def)
  show ?thesis
  proof (cases "contents h")
    case Nil
    with handle_read_cases(1) [OF hi h(3)] obtain h' ev k l where
      r: "handle_read self intr h = Inr (h', ev, k, l, Blocked)" "circ_inv h'" "contents h' = []" "m_size h' = m_size h"
      by blast
    then have "con_step self intr km TtyRound st = Inr (st\<lparr>con_input := (con_input st)\<lparr>in_handles := [h']\<rparr>\<rparr>)"
      using h(1) by (simp add: tty_round_def)
    then show ?thesis using r h inv set_h [of h'] Nil by (auto simp: con_ok_def typed_def)
  next
    case (Cons c cs)
    then obtain mods evs where c: "contents h = c # mods # evs" using h(2) by (cases cs) auto
    from handle_read_cases(2) [OF hi h(3) c] obtain h' k l where
      r: "handle_read self intr h = Inr (h', [c, mods], k, l, Completed)" "circ_inv h'" "contents h' = evs" "m_size h' = m_size h"
      by blast
    have room: "int (length (contents (con_buffer st))) + 1 < m_size (con_buffer st)" using h(5) c by simp
    obtain buf where b: "(if mods AND KEYMOD_RELEASE \<noteq> 0 then Inr (con_buffer st)
          else vtty_keyPress self intr km c mods (con_buffer st)) = Inr buf" "circ_inv buf" "m_size buf = m_size (con_buffer st)"
      "contents buf = contents (con_buffer st) @ (if mods AND KEYMOD_RELEASE \<noteq> 0 then [] else key_char km c mods)"
      using vtty_keyPress_room [OF inv(2) room, of self intr km c mods] inv(2)
      by (cases "mods AND KEYMOD_RELEASE = 0") auto
    have "tty_round self intr km h (con_buffer st) = Inr (h', buf)"
      using r(1) b(1) by (auto simp: tty_round_def split: if_splits)
    then have "con_step self intr km TtyRound st = Inr (st\<lparr>con_input := (con_input st)\<lparr>in_handles := [h']\<rparr>, con_buffer := buf\<rparr>)"
      using h(1) by simp
    moreover have "con_ok n (st\<lparr>con_input := (con_input st)\<lparr>in_handles := [h']\<rparr>, con_buffer := buf\<rparr>)"
      using r h b inv set_h [of h'] c key_char_short [of km c mods] by (auto simp: con_ok_def)
    ultimately show ?thesis using r h b set_h [of h'] c by (auto simp: typed_def)
  qed
qed


fun bytes_of :: "con_act list \<Rightarrow> u8 list" where
  "bytes_of [] = []"
| "bytes_of (Byte b # as) = b # bytes_of as"
| "bytes_of (TtyRound # as) = bytes_of as"

lemma con_run_spec:
  assumes "con_ok (length (bytes_of acts) + n) st"
    and "scan_run (bytes_of acts) (con_ps2 st) = (p, ops)"
  shows "\<exists>st'. con_run self intr km acts st = Inr st' \<and> con_ok n st' \<and> con_ps2 st' = p
    \<and> keyboard_of (con_input st') = fst (spec_keys ops (keyboard_of (con_input st)))
    \<and> typed km st' = typed km st @ event_chars km (snd (spec_keys ops (keyboard_of (con_input st))))
    \<and> length (contents (hd (in_handles (con_input st')))) \<le> length (contents (hd (in_handles (con_input st)))) + 2 * length (bytes_of acts)"
  using assms
proof (induction acts arbitrary: st ops rule: bytes_of.induct)
  case 1
  then show ?case by simp
next
  case (2 b acts)
  obtain p1 ops1 where s1: "scan_step b (con_ps2 st) = (p1, ops1)" by (cases "scan_step b (con_ps2 st)")
  obtain ops2 where s2: "scan_run (bytes_of acts) p1 = (p, ops2)" "ops = ops1 @ ops2"
    using "2.prems"(2) s1
    by (cases "scan_run (bytes_of acts) p1") (auto simp: split_beta simp del: scan_step.simps)
  have "con_ok (Suc (length (bytes_of acts) + n)) st" using "2.prems"(1) by simp
  from byte_step [OF this s1, of self intr km] obtain st1 where
    1: "con_step self intr km (Byte b) st = Inr st1" "con_ok (length (bytes_of acts) + n) st1" "con_ps2 st1 = p1"
    "keyboard_of (con_input st1) = fst (spec_keys ops1 (keyboard_of (con_input st)))"
    "typed km st1 = typed km st @ event_chars km (snd (spec_keys ops1 (keyboard_of (con_input st))))"
    "length (contents (hd (in_handles (con_input st1)))) \<le> length (contents (hd (in_handles (con_input st)))) + 2" by blast
  from "2.IH" [OF 1(2)] s2(1) 1(3) obtain st2 where
    2: "con_run self intr km acts st1 = Inr st2" "con_ok n st2" "con_ps2 st2 = p"
    "keyboard_of (con_input st2) = fst (spec_keys ops2 (keyboard_of (con_input st1)))"
    "typed km st2 = typed km st1 @ event_chars km (snd (spec_keys ops2 (keyboard_of (con_input st1))))"
    "length (contents (hd (in_handles (con_input st2)))) \<le> length (contents (hd (in_handles (con_input st1)))) + 2 * length (bytes_of acts)"
    by blast
  show ?case using 1 2 s2(2) by (auto simp: spec_keys_append event_chars_append spec_keys_even simp del: con_step.simps)
next
  case (3 acts)
  have "con_ok (length (bytes_of acts) + n) st" using "3.prems"(1) by simp
  from round_step [OF this, of self intr km] obtain st1 where
    1: "con_step self intr km TtyRound st = Inr st1" "con_ok (length (bytes_of acts) + n) st1" "con_ps2 st1 = con_ps2 st"
    "keyboard_of (con_input st1) = keyboard_of (con_input st)" "typed km st1 = typed km st"
    "length (contents (hd (in_handles (con_input st1)))) = length (contents (hd (in_handles (con_input st)))) - 2" by blast
  from "3.IH" [OF 1(2), of ops] "3.prems"(2) 1 show ?case by (auto simp del: con_step.simps)
qed

lemma con_drain:
  assumes "con_ok n st" "length (contents (hd (in_handles (con_input st)))) \<le> 2 * k"
  shows "\<exists>st'. con_run self intr km (replicate k TtyRound) st = Inr st' \<and> contents (con_buffer st') = typed km st
    \<and> keyboard_of (con_input st') = keyboard_of (con_input st) \<and> con_ps2 st' = con_ps2 st"
  using assms
proof (induction k arbitrary: st)
  case 0
  then show ?case by (simp add: typed_def)
next
  case (Suc k)
  from round_step [OF Suc.prems(1), of self intr km] obtain st1 where
    1: "con_step self intr km TtyRound st = Inr st1" "con_ok n st1" "con_ps2 st1 = con_ps2 st"
    "keyboard_of (con_input st1) = keyboard_of (con_input st)" "typed km st1 = typed km st"
    "length (contents (hd (in_handles (con_input st1)))) = length (contents (hd (in_handles (con_input st)))) - 2" by blast
  from Suc.IH [OF 1(2)] Suc.prems(2) 1 show ?case by (auto simp del: con_step.simps)
qed


subsection \<open>Letters\<close>

lemma letter_table:
  "\<forall>n \<in> set [4..<30]. default_keymap (of_nat n) = normalKey (char_of (n + 93)) (char_of (n + 61))
     \<and> char_of (n + 93) \<noteq> NUL \<and> char_of (n + 61) \<noteq> NUL
     \<and> of_char (char_of (n + 93)) = (of_nat n + 93 :: u8) \<and> of_char (char_of (n + 61)) = (of_nat n + 61 :: u8)"
  by code_simp

lemma letter_key:
  assumes "KEY_A \<le> c" "c \<le> KEY_Z"
  shows "default_keymap c = normalKey (char_of (unat c + 93)) (char_of (unat c + 61))"
    "char_of (unat c + 93) \<noteq> NUL" "char_of (unat c + 61) \<noteq> NUL"
    "of_char (char_of (unat c + 93)) = c + 93" "of_char (char_of (unat c + 61)) = c + 61"
proof -
  have "4 \<le> unat c" "unat c < 30" using assms by (simp_all add: word_le_nat_alt KEY_A_def KEY_Z_def)
  then have "unat c \<in> set [4..<30]" by (simp only: set_upt atLeastLessThan_iff)
  from letter_table [rule_format, OF this]
  show "default_keymap c = normalKey (char_of (unat c + 93)) (char_of (unat c + 61))"
    "char_of (unat c + 93) \<noteq> NUL" "char_of (unat c + 61) \<noteq> NUL"
    "of_char (char_of (unat c + 93)) = c + 93" "of_char (char_of (unat c + 61)) = c + 61" by simp_all
qed

text \<open>A letter key types its letter, in upper case if exactly one of shift and caps lock is on; with Ctrl it types
  a control character, and with Alt nothing. AltGr counts as Ctrl, so it types control characters too.\<close>

lemma letter_typed:
  assumes c: "KEY_A \<le> c" "c \<le> KEY_Z"
  shows "key_char default_keymap c mods =
    (if mods AND KEYMOD_CTRL \<noteq> 0 then [1 + (c - KEY_A)]
     else if mods AND KEYMOD_ALT \<noteq> 0 then []
     else [c + (if (mods AND KEYMOD_SHIFT \<noteq> 0) = (mods AND KEYMOD_CAPSLOCK \<noteq> 0) then 93 else 61)])"
proof -
  have "mods AND KEYMOD_ALTGR \<noteq> 0 \<longleftrightarrow> mods AND KEYMOD_CTRL \<noteq> 0 \<or> mods AND KEYMOD_ALT \<noteq> 0"
    by (simp add: KEYMOD_ALTGR_def bit.conj_disj_distrib or_eq_0_iff)
  then show ?thesis
    using c letter_key(2-5) [OF c] by (simp add: key_char_def translate_def letter_key(1) [OF c] normalKey_def Let_def)
qed

lemma f1_unreachable: "KEY_F1 \<noteq> translation_normal b \<and> KEY_F1 \<noteq> translation_extra b"
  by (simp add: translation_normal_def translation_extra_def normal_codes_def extra_codes_def key_codes)




end
