(* ===== verification/Terminal.thy ===== *)
theory Terminal
  imports CString CText
begin

text \<open>
  Terminals: the interpreter of escape sequences (\<open>dev/tty/abstractor.cpp\<close>), the text screen
  (\<open>arch/x86_64/dev/tty/txtty.cpp\<close>) and the writing side of the terminal device (\<open>dev/tty/cdev.cpp\<close>). The
  video memory is a list of cells; writing beside it is a fault. What is sent to the debugging port is kept as a list.
\<close>

record vga_char =
  vc_ascii :: char
  vc_fg :: int
  vc_bg :: int

record txtty =
  tx_width :: int
  tx_height :: int
  tx_output :: "vga_char list"
  tx_cursorx :: int
  tx_cursory :: int
  tx_fg :: int
  tx_bg :: int

definition newTxTTY :: "vga_char list \<Rightarrow> txtty" where
  "newTxTTY output = \<lparr>tx_width = 80, tx_height = 25, tx_output = output, tx_cursorx = 0, tx_cursory = 0, tx_fg = 15, tx_bg = 0\<rparr>"

text \<open>The colours in the order black, red, green, brown, blue, purple, cyan, gray, and their light variants.\<close>

definition ansi_to_vga :: "int list" where
  "ansi_to_vga = [0, 4, 2, 6, 1, 5, 3, 7, 8, 12, 10, 14, 9, 13, 11, 15]"

definition tx_color :: "int \<Rightarrow> txtty \<Rightarrow> txtty" where
  "tx_color ansi t =
     (if ansi \<ge> 30 \<and> ansi \<le> 37 then t\<lparr>tx_fg := ansi_to_vga ! nat (ansi - 30)\<rparr>
      else if ansi \<ge> 40 \<and> ansi \<le> 47 then t\<lparr>tx_bg := ansi_to_vga ! nat (ansi - 40)\<rparr>
      else if ansi \<ge> 90 \<and> ansi \<le> 97 then t\<lparr>tx_fg := ansi_to_vga ! nat (ansi - 90 + 8)\<rparr>
      else if ansi \<ge> 100 \<and> ansi \<le> 107 then t\<lparr>tx_bg := ansi_to_vga ! nat (ansi - 100 + 8)\<rparr>
      else t)"

definition tx_cell :: "char \<Rightarrow> txtty \<Rightarrow> vga_char" where
  "tx_cell c t = \<lparr>vc_ascii = c, vc_fg = tx_fg t, vc_bg = tx_bg t\<rparr>"

text \<open>\<open>scroll\<close>: a line at a time is copied up, then the last line is blanked.\<close>

fun scroll_copies :: "nat \<Rightarrow> nat \<Rightarrow> nat \<Rightarrow> vga_char list \<Rightarrow> vga_char list res" where
  "scroll_copies 0 w n out = Inr out"
| "scroll_copies (Suc k) w n out = res_bind (memcpy_within out 0 w n) (scroll_copies k w n)"

definition tx_scroll :: "nat \<Rightarrow> txtty \<Rightarrow> txtty res" where
  "tx_scroll amnt t =
     (let w = nat (tx_width t); n = nat (tx_width t * (tx_height t - 1)) in
      res_bind (scroll_copies amnt w n (tx_output t)) (\<lambda>out.
      res_bind (memset out n (tx_cell CHR '' '' t) (nat (tx_width t * tx_height t) - n)) (\<lambda>out.
      Inr (t\<lparr>tx_output := out\<rparr>))))"

definition tx_put :: "char \<Rightarrow> txtty \<Rightarrow> txtty res" where
  "tx_put c t =
     (let i = tx_cursorx t + tx_cursory t * tx_width t in
      if i < 0 then Inl OutOfBounds
      else res_bind (cell_set (tx_output t) (nat i) (tx_cell c t)) (\<lambda>out. Inr (t\<lparr>tx_output := out\<rparr>)))"

definition tx_wrap :: "txtty \<Rightarrow> txtty" where
  "tx_wrap t =
     (if tx_cursorx t \<ge> tx_width t then t\<lparr>tx_cursorx := 0, tx_cursory := tx_cursory t + 1\<rparr> else t)"

definition tx_write :: "char \<Rightarrow> txtty \<Rightarrow> txtty res" where
  "tx_write c t =
     res_bind
       (if c = CHR 0x0A then Inr (t\<lparr>tx_cursorx := 0, tx_cursory := tx_cursory t + 1\<rparr>)
        else if c = CHR 0x0D then Inr (t\<lparr>tx_cursorx := 0\<rparr>)
        else res_bind (tx_put c t) (\<lambda>t. Inr (tx_wrap (t\<lparr>tx_cursorx := tx_cursorx t + 1\<rparr>))))
       (\<lambda>t. if tx_cursory t \<ge> tx_height t then tx_scroll 1 (t\<lparr>tx_cursory := tx_cursory t - 1\<rparr>) else Inr t)"

subsection \<open>Escape sequences\<close>

datatype ansi_state = OUT | ANSI_CAT | ANSI_ARGS | ANSI_CODE

record abstractor =
  ab_vtty :: txtty
  ab_state :: ansi_state
  ab_arg :: nat
  ab_ptr :: nat
  ab_args :: "int list"
  ab_cat :: char
  ab_code :: char
  ab_buffer :: "char list"
  ab_port :: "char list"

definition newAbstractor :: "txtty \<Rightarrow> abstractor" where
  "newAbstractor t = \<lparr>ab_vtty = t, ab_state = OUT, ab_arg = 0, ab_ptr = 0, ab_args = replicate 8 0, ab_cat = NUL, ab_code = NUL,
     ab_buffer = replicate 32 NUL, ab_port = []\<rparr>"

definition flush_ansi :: "abstractor \<Rightarrow> abstractor res" where
  "flush_ansi a =
     res_bind (cell_get (ab_args a) 0) (\<lambda>n0.
     res_bind (cell_get (ab_args a) 1) (\<lambda>n1.
       let t = (if ab_cat a = CHR ''['' then
                  if ab_code a = CHR ''m'' then tx_color n0 (ab_vtty a)
                  else if ab_code a = CHR ''H'' then (ab_vtty a)\<lparr>tx_cursorx := n0, tx_cursory := n1\<rparr>
                  else ab_vtty a
                else ab_vtty a)
       in Inr (a\<lparr>ab_vtty := t, ab_ptr := 0, ab_arg := 0\<rparr>)))"

text \<open>The number collected so far; a number too long for an \<open>int\<close> wraps.\<close>

definition ansi_number :: "abstractor \<Rightarrow> int" where
  "ansi_number a = sint (word_of_int (stoi 10 (takeWhile (\<lambda>c. c \<noteq> NUL) (ab_buffer a))) :: u32)"

definition ansi_arg :: "char \<Rightarrow> abstractor \<Rightarrow> abstractor res" where
  "ansi_arg c a =
     res_bind (cell_set (ab_args a) (ab_arg a) (ansi_number a)) (\<lambda>args.
     res_bind (memset (ab_buffer a) 0 NUL 32) (\<lambda>buf.
       let a = a\<lparr>ab_args := args, ab_ptr := 0, ab_arg := (if ab_arg a + 1 = 8 then ab_arg a else ab_arg a + 1), ab_buffer := buf\<rparr> in
       if inrange (char_val c) (char_val CHR '':'') (char_val CHR '';'') then Inr a
       else flush_ansi (a\<lparr>ab_code := c, ab_state := OUT\<rparr>)))"

definition ansi_digit :: "char \<Rightarrow> abstractor \<Rightarrow> abstractor res" where
  "ansi_digit c a =
     (let p = (if ab_ptr a = 31 then ab_ptr a - 1 else ab_ptr a) in
      res_bind (cell_set (ab_buffer a) p c) (\<lambda>buf. Inr (a\<lparr>ab_buffer := buf, ab_ptr := p + 1\<rparr>)))"

definition ab_write :: "char \<Rightarrow> abstractor \<Rightarrow> abstractor res" where
  "ab_write c a =
     (let a = a\<lparr>ab_port := ab_port a @ (if c = CHR 0x0A then [CHR 0x0D, c] else [c])\<rparr> in
      case ab_state a of
        OUT \<Rightarrow>
          if c = CHR 0x1B then Inr (a\<lparr>ab_state := ANSI_CAT\<rparr>)
          else res_bind (tx_write c (ab_vtty a)) (\<lambda>t. Inr (a\<lparr>ab_vtty := t\<rparr>))
      | ANSI_CAT \<Rightarrow>
          res_bind (memset (ab_buffer a) 0 NUL 32) (\<lambda>buf. Inr (a\<lparr>ab_cat := c, ab_state := ANSI_ARGS, ab_buffer := buf\<rparr>))
      | ANSI_ARGS \<Rightarrow>
          if \<not> inrange (char_val c) (char_val CHR ''0'') (char_val CHR ''9'') then ansi_arg c a else ansi_digit c a
      | ANSI_CODE \<Rightarrow> Inr a)"

text \<open>\<open>Abstractor::write(const char*)\<close> and \<open>TTYChar::write\<close>.\<close>

fun ab_write_all :: "string \<Rightarrow> abstractor \<Rightarrow> abstractor res" where
  "ab_write_all [] a = Inr a"
| "ab_write_all (c # cs) a = res_bind (ab_write c a) (ab_write_all cs)"

definition ttychar_write :: "string \<Rightarrow> abstractor \<Rightarrow> (abstractor \<times> int) res" where
  "ttychar_write s a = res_bind (ab_write_all s a) (\<lambda>a. Inr (a, int (length s)))"

subsection \<open>A screen is a window on what was written\<close>

text \<open>All rows ever written; the row of the cursor is one of them, and a new one is added behind the last.\<close>

record history =
  h_rows :: "vga_char list list"
  h_y :: nat
  h_x :: nat
  h_fg :: int
  h_bg :: int

definition h_cell :: "char \<Rightarrow> history \<Rightarrow> vga_char" where
  "h_cell c h = \<lparr>vc_ascii = c, vc_fg = h_fg h, vc_bg = h_bg h\<rparr>"

definition h_newline :: "nat \<Rightarrow> history \<Rightarrow> history" where
  "h_newline w h =
     h\<lparr>h_x := 0, h_y := h_y h + 1,
       h_rows := (if h_y h + 1 < length (h_rows h) then h_rows h else h_rows h @ [replicate w (h_cell CHR '' '' h)])\<rparr>"

datatype token = Put char | Colour nat

text \<open>The eight colours and the eight light ones, of the text and behind it.\<close>

definition colour :: "nat \<Rightarrow> history \<Rightarrow> history" where
  "colour n h =
     (if n \<in> {30..37} then h\<lparr>h_fg := ansi_to_vga ! (n mod 10)\<rparr>
      else if n \<in> {40..47} then h\<lparr>h_bg := ansi_to_vga ! (n mod 10)\<rparr>
      else if n \<in> {90..97} then h\<lparr>h_fg := ansi_to_vga ! (n mod 10 + 8)\<rparr>
      else if n \<in> {100..107} then h\<lparr>h_bg := ansi_to_vga ! (n mod 10 + 8)\<rparr>
      else h)"

fun h_token :: "nat \<Rightarrow> token \<Rightarrow> history \<Rightarrow> history" where
  "h_token w (Put c) h =
     (if c = CHR 0x0A then h_newline w h
      else if c = CHR 0x0D then h\<lparr>h_x := 0\<rparr>
      else
        let h' = h\<lparr>h_rows := (h_rows h)[h_y h := (h_rows h ! h_y h)[h_x h := h_cell c h]]\<rparr>
        in if h_x h + 1 = w then h_newline w h' else h'\<lparr>h_x := h_x h + 1\<rparr>)"
| "h_token w (Colour n) h = colour n h"

fun token_text :: "token \<Rightarrow> string" where
  "token_text (Put c) = [c]"
| "token_text (Colour n) = [CHR 0x1B, CHR ''[''] @ itos (int n) 10 @ ''m''"

text \<open>The screen shows the rows from \<open>up\<close> on.\<close>

definition displays :: "nat \<Rightarrow> history \<Rightarrow> txtty \<Rightarrow> bool" where
  "displays up h t \<longleftrightarrow>
     0 < tx_width t \<and> 0 < tx_height t \<and> length (h_rows h) = up + nat (tx_height t)
     \<and> (\<forall>r \<in> set (h_rows h). length r = nat (tx_width t))
     \<and> tx_output t = concat (drop up (h_rows h))
     \<and> up \<le> h_y h \<and> h_y h < length (h_rows h) \<and> h_x h < nat (tx_width t)
     \<and> tx_cursory t = int (h_y h) - int up \<and> tx_cursorx t = int (h_x h) \<and> tx_fg t = h_fg h \<and> tx_bg t = h_bg h"

lemma concat_update:
  "\<forall>r \<in> set rs. length r = w \<Longrightarrow> k < length rs \<Longrightarrow> x < w \<Longrightarrow>
     (concat rs)[k * w + x := v] = concat (rs[k := (rs ! k)[x := v]])"
proof (induction rs arbitrary: k)
  case (Cons r rs)
  then show ?case by (cases k) (simp_all add: list_update_append)
qed simp

lemma length_concat_rows: "\<forall>r \<in> set rs. length r = w \<Longrightarrow> length (concat rs) = length rs * w"
  by (induction rs) simp_all

lemma scroll_window:
  assumes rows: "\<forall>r \<in> set rs. length r = w" and w: "0 < w" and ht: "length rs = ht" "0 < ht"
  shows "res_bind (scroll_copies 1 w (w * (ht - 1)) (concat rs)) (\<lambda>out. memset out (w * (ht - 1)) v (w * ht - w * (ht - 1)))
    = Inr (concat (tl rs @ [replicate w v]))"
proof -
  obtain r rest where rs: "rs = r # rest" using ht by (cases rs) auto
  have len: "length r = w" "length (concat rest) = w * (ht - 1)" "length (concat rs) = w * ht"
    using rows length_concat_rows [of rest w] by (simp_all add: rs ht(1) [symmetric] mult.commute)
  have n: "w * ht - w * (ht - 1) = w" "w * (ht - 1) + w = w * ht" using ht(2) by (cases ht; simp)+
  have "w + w * (ht - 1) \<le> length (concat rs)" using len(3) n by simp
  from memcpy_within_down [OF w this]
  have "memcpy_within (concat rs) 0 w (w * (ht - 1)) = Inr (concat rest @ drop (w * (ht - 1)) (concat rs))"
    using len by (simp add: rs)
  moreover have "memset (concat rest @ drop (w * (ht - 1)) (concat rs)) (w * (ht - 1)) v w
      = Inr (concat rest @ replicate w v)"
    using len n by (subst memset_spec) simp_all
  ultimately show ?thesis using n(1) by (simp add: rs)
qed


text \<open>The end of a line: the cursor goes down, or the window does.\<close>

definition tx_settle :: "txtty \<Rightarrow> txtty res" where
  "tx_settle t = (if tx_cursory t \<ge> tx_height t then tx_scroll 1 (t\<lparr>tx_cursory := tx_cursory t - 1\<rparr>) else Inr t)"

lemma window_rows:
  assumes "displays up h t"
  shows "\<forall>r \<in> set (drop up (h_rows h)). length r = nat (tx_width t)" "length (drop up (h_rows h)) = nat (tx_height t)"
  using assms by (auto simp: displays_def dest: in_set_dropD)

lemma scroll_displays:
  assumes d: "displays up h t"
  shows "tx_scroll 1 t = Inr (t\<lparr>tx_output := concat (drop (Suc up) (h_rows h) @ [replicate (nat (tx_width t)) (h_cell CHR '' '' h)])\<rparr>)"
proof -
  let ?w = "nat (tx_width t)" and ?ht = "nat (tx_height t)"
  have pos: "0 < ?w" "0 < ?ht" and out: "tx_output t = concat (drop up (h_rows h))"
    and cell: "tx_cell CHR '' '' t = h_cell CHR '' '' h" using d by (simp_all add: displays_def tx_cell_def h_cell_def)
  have n: "nat (tx_width t * (tx_height t - 1)) = ?w * (?ht - 1)" "nat (tx_width t * tx_height t) = ?w * ?ht"
    using pos by (simp_all add: nat_mult_distrib nat_diff_distrib)
  have "tl (drop up (h_rows h)) = drop (Suc up) (h_rows h)" by (simp add: drop_Suc tl_drop)
  then show ?thesis
    using scroll_window [OF window_rows(1) [OF d] pos(1) window_rows(2) [OF d] pos(2), of "h_cell CHR '' '' h"]
    unfolding tx_scroll_def Let_def n out cell by (simp add: res_bind_assoc [symmetric] del: scroll_copies.simps)
qed

lemma newline_displays:
  assumes d: "displays up h t"
  shows "\<exists>up' t'. tx_settle (t\<lparr>tx_cursorx := 0, tx_cursory := tx_cursory t + 1\<rparr>) = Inr t'
    \<and> displays up' (h_newline (nat (tx_width t)) h) t' \<and> tx_width t' = tx_width t \<and> tx_height t' = tx_height t"
proof (cases "h_y h + 1 < length (h_rows h)")
  case True
  then have "displays up (h_newline (nat (tx_width t)) h) (t\<lparr>tx_cursorx := 0, tx_cursory := tx_cursory t + 1\<rparr>)"
    using d by (simp add: h_newline_def displays_def)
  moreover have "int (nat (tx_height t)) = tx_height t" using d by (simp add: displays_def)
  then have "\<not> tx_cursory t + 1 \<ge> tx_height t" using d True unfolding displays_def by linarith
  ultimately show ?thesis by (auto simp: tx_settle_def)
next
  case False
  let ?t = "t\<lparr>tx_cursorx := 0, tx_output := concat (drop (Suc up) (h_rows h) @ [replicate (nat (tx_width t)) (h_cell CHR '' '' h)])\<rparr>"
  have y: "Suc (h_y h) = length (h_rows h)" "tx_cursory t + 1 = tx_height t" "up \<le> length (h_rows h)" "Suc up \<le> length (h_rows h)"
    using d False by (auto simp: displays_def)
  have "displays up (h\<lparr>h_x := 0\<rparr>) (t\<lparr>tx_cursorx := 0\<rparr>)" using d by (simp add: displays_def)
  moreover have "t\<lparr>tx_cursorx := 0, tx_cursory := tx_cursory t\<rparr> = t\<lparr>tx_cursorx := 0\<rparr>" by simp
  ultimately have "tx_settle (t\<lparr>tx_cursorx := 0, tx_cursory := tx_cursory t + 1\<rparr>) = Inr ?t"
    using scroll_displays [of up "h\<lparr>h_x := 0\<rparr>" "t\<lparr>tx_cursorx := 0\<rparr>"]
    by (simp add: tx_settle_def h_cell_def y(2) [symmetric])
  moreover have "displays (Suc up) (h_newline (nat (tx_width t)) h) ?t"
    using d y by (simp add: displays_def h_newline_def)
  ultimately show ?thesis by (intro exI [of _ "Suc up"] exI [of _ ?t]) simp
qed

lemma put_displays:
  assumes d: "displays up h t" and h': "h' = h\<lparr>h_rows := (h_rows h)[h_y h := (h_rows h ! h_y h)[h_x h := h_cell c h]]\<rparr>"
  shows "\<exists>t'. tx_put c t = Inr t' \<and> displays up h' t' \<and> tx_cursorx t' = tx_cursorx t \<and> tx_width t' = tx_width t \<and> tx_height t' = tx_height t"
proof -
  let ?w = "nat (tx_width t)" and ?k = "h_y h - up" and ?rows = "drop up (h_rows h)"
  have y: "up \<le> h_y h" "h_y h < length (h_rows h)" "h_x h < ?w" "int ?w = tx_width t" "tx_cursorx t = int (h_x h)"
    "tx_cursory t = int ?k" "tx_output t = concat ?rows" and cell: "tx_cell c t = h_cell c h"
    using d by (simp_all add: displays_def tx_cell_def h_cell_def)
  obtain n where n: "n = ?k * ?w + h_x h" by blast
  have i: "tx_cursorx t + tx_cursory t * tx_width t = int n" using y(4-6) n by simp
  have k: "?k < length ?rows" using y(1,2) by (simp add: diff_less_mono)
  have "n < length ?rows * ?w" using k y(3) mult_le_mono1 [of "Suc ?k" "length ?rows" ?w] n by simp
  then have "n < length (concat ?rows)" using length_concat_rows [OF window_rows(1) [OF d]] by simp
  moreover have "(concat ?rows)[n := h_cell c h] = concat (?rows[?k := (?rows ! ?k)[h_x h := h_cell c h]])"
    unfolding n by (rule concat_update [OF window_rows(1) [OF d] k y(3)])
  ultimately have "tx_put c t = Inr (t\<lparr>tx_output := concat (?rows[?k := (?rows ! ?k)[h_x h := h_cell c h]])\<rparr>)"
    unfolding tx_put_def i Let_def y(7) cell by simp
  moreover have "?rows[?k := (?rows ! ?k)[h_x h := h_cell c h]] = drop up (h_rows h')"
    using y(1,2) by (simp add: h' drop_update_swap)
  moreover have "\<forall>r \<in> set (h_rows h'). length r = ?w"
    using d nth_mem [of "h_y h" "h_rows h"]
    by (auto simp: h' displays_def dest!: set_update_subset_insert [THEN subsetD])
  ultimately show ?thesis using d by (simp add: displays_def h')
qed


lemma tx_write_displays:
  assumes d: "displays up h t"
  shows "\<exists>up' t'. tx_write c t = Inr t' \<and> displays up' (h_token (nat (tx_width t)) (Put c) h) t' \<and> tx_width t' = tx_width t \<and> tx_height t' = tx_height t"
proof -
  let ?w = "nat (tx_width t)"
  have settle: "tx_settle u = Inr u" if "displays k g u" for k g u
  proof -
    have "int (nat (tx_height u)) = tx_height u" using that by (simp add: displays_def)
    then show ?thesis using that unfolding tx_settle_def displays_def by auto
  qed
  have step: "tx_write c t = res_bind
       (if c = CHR 0x0A then Inr (t\<lparr>tx_cursorx := 0, tx_cursory := tx_cursory t + 1\<rparr>)
        else if c = CHR 0x0D then Inr (t\<lparr>tx_cursorx := 0\<rparr>)
        else res_bind (tx_put c t) (\<lambda>t. Inr (tx_wrap (t\<lparr>tx_cursorx := tx_cursorx t + 1\<rparr>)))) tx_settle"
    by (simp add: tx_write_def tx_settle_def [abs_def])
  consider "c = CHR 0x0A" | "c = CHR 0x0D" "c \<noteq> CHR 0x0A" | "c \<noteq> CHR 0x0A" "c \<noteq> CHR 0x0D" by blast
  then show ?thesis
  proof cases
    case 1
    then show ?thesis unfolding step using newline_displays [OF d] by simp
  next
    case 2
    have d0: "displays up (h\<lparr>h_x := 0\<rparr>) (t\<lparr>tx_cursorx := 0\<rparr>)" using d by (simp add: displays_def)
    show ?thesis unfolding step using 2 d0 settle [OF d0] by auto
  next
    case 3
    obtain h' where h': "h' = h\<lparr>h_rows := (h_rows h)[h_y h := (h_rows h ! h_y h)[h_x h := h_cell c h]]\<rparr>" by blast
    from put_displays [OF d h'] obtain u where
      u: "tx_put c t = Inr u" "displays up h' u" "tx_cursorx u = tx_cursorx t" "tx_width u = tx_width t" "tx_height u = tx_height t" by blast
    have x: "tx_cursorx u = int (h_x h)" "int ?w = tx_width t" "h_x h < ?w" using d u(3) by (simp_all add: displays_def)
    show ?thesis
    proof (cases "h_x h + 1 = ?w")
      case True
      then have "tx_wrap (u\<lparr>tx_cursorx := tx_cursorx u + 1\<rparr>) = u\<lparr>tx_cursorx := 0, tx_cursory := tx_cursory u + 1\<rparr>"
        using x u(4) by (simp add: tx_wrap_def)
      with newline_displays [OF u(2)] True 3 u(1,4,5) show ?thesis unfolding step by (simp add: h' Let_def)
    next
      case False
      have d': "displays up (h'\<lparr>h_x := h_x h + 1\<rparr>) (u\<lparr>tx_cursorx := tx_cursorx u + 1\<rparr>)"
        using u(2,4) x False d by (simp add: displays_def)
      moreover have "tx_wrap (u\<lparr>tx_cursorx := tx_cursorx u + 1\<rparr>) = u\<lparr>tx_cursorx := tx_cursorx u + 1\<rparr>"
        using x False u(4) by (simp add: tx_wrap_def)
      ultimately show ?thesis unfolding step using settle [OF d'] False 3 u(1,4,5) by (auto simp: h' Let_def)
    qed
  qed
qed

lemma color_displays:
  assumes d: "displays up h t"
  shows "displays up (colour n h) (tx_color (int n) t)" "tx_width (tx_color (int n) t) = tx_width t" "tx_height (tx_color (int n) t) = tx_height t"
proof -
  have m: "30 \<le> n \<Longrightarrow> n \<le> 37 \<Longrightarrow> n mod 10 = n - 30" "40 \<le> n \<Longrightarrow> n \<le> 47 \<Longrightarrow> n mod 10 = n - 40"
    "90 \<le> n \<Longrightarrow> n \<le> 97 \<Longrightarrow> n mod 10 = n - 90" "100 \<le> n \<Longrightarrow> n \<le> 107 \<Longrightarrow> n mod 10 = n - 100" by presburger+
  have "tx_color (int n) t = t\<lparr>tx_fg := h_fg (colour n h), tx_bg := h_bg (colour n h)\<rparr>" (is "_ = ?t")
  proof -
    have "tx_fg t = h_fg h" "tx_bg t = h_bg h" using d by (simp_all add: displays_def)
    then show ?thesis using m
      by (auto simp: colour_def tx_color_def nat_diff_distrib nat_add_distrib intro!: arg_cong [where f = "(!) ansi_to_vga"])
  qed
  moreover have "h_rows (colour n h) = h_rows h" "h_x (colour n h) = h_x h" "h_y (colour n h) = h_y h" by (simp_all add: colour_def)
  ultimately show "displays up (colour n h) (tx_color (int n) t)" "tx_width (tx_color (int n) t) = tx_width t" "tx_height (tx_color (int n) t) = tx_height t"
    using d by (simp_all add: displays_def)
qed


subsection \<open>Numbers in escape sequences\<close>

definition decimal :: "char \<Rightarrow> bool" where
  "decimal c \<longleftrightarrow> inrange (char_val c) (char_val CHR ''0'') (char_val CHR ''9'')"

lemma decimal_digits:
  "(\<forall>c \<in> set out. decimal c) \<Longrightarrow> \<forall>c \<in> set (itos_digits num 10 out). decimal c"
proof (induction num "10 :: int" out rule: itos_digits.induct)
  case (1 num out)
  have z: "char_val CHR ''0'' = 48" "char_val CHR ''9'' = 57" by code_simp+
  have "decimal (xtox_dictionary ! nat (35 + c_mod num 10))"
    using dictionary_digit [OF c_mod_10(1,2), of num] c_mod_10(1,2) [of num] by (simp add: decimal_def inrange_def z)
  with 1 show ?case by (subst itos_digits.simps) (auto simp: Let_def)
qed

lemma digits_length: "\<bar>num\<bar> < 10 ^ Suc k \<Longrightarrow> length (itos_digits num 10 []) \<le> Suc k"
proof (induction k arbitrary: num)
  case 0
  then have "c_div num 10 = 0" by (simp add: c_div_def)
  then show ?case by (subst itos_digits.simps) (simp add: Let_def)
next
  case (Suc k)
  have "\<bar>c_div num 10\<bar> < 10 ^ Suc k" using Suc.prems c_mod_10(3) [of num] by simp
  then have "length (itos_digits (c_div num 10) 10 []) \<le> Suc k" by (rule Suc.IH)
  then show ?case
    using itos_digits_append [of "c_div num 10" 10 "[xtox_dictionary ! nat (35 + c_mod num 10)]" "[]"]
    by (subst itos_digits.simps) (simp add: Let_def)
qed

lemma decimal_text:
  assumes "n < 1000"
  shows "\<forall>c \<in> set (itos (int n) 10). decimal c" "length (itos (int n) 10) \<le> 3" "stoi 10 (itos (int n) 10) = int n"
proof -
  have t: "itos (int n) 10 = rev (itos_digits (int n) 10 [])" by (simp add: itos_10)
  show d: "\<forall>c \<in> set (itos (int n) 10). decimal c" using decimal_digits [of "[]" "int n"] by (simp add: t)
  show "length (itos (int n) 10) \<le> 3" using digits_length [of "int n" 2] assms by (simp add: t)
  have "\<not> decimal CHR ''-''" by code_simp
  then have "itos (int n) 10 = [] \<or> hd (itos (int n) 10) \<noteq> CHR ''-''" using d by (metis hd_in_set)
  then show "stoi 10 (itos (int n) 10) = int n" using stoi_itos_digits [of "int n"] by (auto simp: stoi_def t)
qed

text \<open>Reading the digits into the buffer.\<close>

definition reading :: "abstractor \<Rightarrow> string \<Rightarrow> abstractor \<Rightarrow> bool" where
  "reading a ds a' \<longleftrightarrow> ab_state a' = ANSI_ARGS \<and> ab_arg a' = 0 \<and> ab_ptr a' = length ds \<and> ab_cat a' = CHR ''[''
     \<and> ab_buffer a' = ds @ replicate (32 - length ds) NUL \<and> length (ab_args a') = 8 \<and> ab_vtty a' = ab_vtty a"

lemma read_digits:
  "reading a ds a' \<Longrightarrow> \<forall>c \<in> set ds2. decimal c \<Longrightarrow> length ds + length ds2 < 31 \<Longrightarrow>
     \<exists>a''. ab_write_all ds2 a' = Inr a'' \<and> reading a (ds @ ds2) a''"
proof (induction ds2 arbitrary: ds a')
  case Nil
  then show ?case by simp
next
  case (Cons c ds2)
  let ?a = "a'\<lparr>ab_port := ab_port a' @ (if c = CHR 0x0A then [CHR 0x0D, c] else [c]), ab_buffer := (ds @ [c]) @ replicate (31 - length ds) NUL,
     ab_ptr := Suc (length ds)\<rparr>"
  have "32 - length ds = Suc (31 - length ds)" using Cons.prems(3) by simp
  then have "(ds @ replicate (32 - length ds) NUL)[length ds := c] = (ds @ [c]) @ replicate (31 - length ds) NUL"
    by (simp only: list_update_append replicate_Suc) simp
  then have "ab_write c a' = Inr ?a"
    using Cons.prems by (simp add: ab_write_def reading_def Let_def decimal_def ansi_digit_def)
  moreover have "reading a (ds @ [c]) ?a" using Cons.prems by (simp add: reading_def)
  ultimately show ?case using Cons.IH [of "ds @ [c]" ?a] Cons.prems by simp
qed


lemma ab_write_all_append: "ab_write_all (s @ t) a = res_bind (ab_write_all s a) (ab_write_all t)"
proof (induction s arbitrary: a)
  case (Cons c s)
  then have "ab_write_all (s @ t) = (\<lambda>a. res_bind (ab_write_all s a) (ab_write_all t))" by (simp add: fun_eq_iff)
  then show ?case by (simp add: res_bind_assoc)
qed simp

definition ab_idle :: "abstractor \<Rightarrow> bool" where
  "ab_idle a \<longleftrightarrow> ab_state a = OUT \<and> ab_arg a = 0 \<and> ab_ptr a = 0 \<and> length (ab_args a) = 8 \<and> length (ab_buffer a) = 32"

lemma colour_sequence:
  assumes idle: "ab_idle a" and n: "n < 1000"
  shows "\<exists>a'. ab_write_all (token_text (Colour n)) a = Inr a' \<and> ab_idle a' \<and> ab_vtty a' = tx_color (int n) (ab_vtty a)"
proof -
  let ?ds = "itos (int n) 10"
  have z: "char_val CHR ''0'' = 48" "char_val CHR ''9'' = 57" "char_val CHR ''m'' = 109" "char_val CHR '':'' = 58"
    "char_val CHR '';'' = 59" by code_simp+
  obtain a1 where a1: "ab_write_all [CHR 0x1B, CHR ''[''] a = Inr a1" "reading a [] a1"
    using idle memset_spec [of 0 32 "ab_buffer a" NUL] by (simp add: ab_write_def ab_idle_def reading_def Let_def)
  from read_digits [OF a1(2) decimal_text(1) [OF n]] decimal_text(2) [OF n] obtain a2 where
    a2: "ab_write_all ?ds a1 = Inr a2" "reading a ?ds a2" by auto
  have "\<not> decimal NUL" by code_simp
  then have "takeWhile (\<lambda>c. c \<noteq> NUL) (ab_buffer a2) = ?ds"
    using a2(2) decimal_text(1) [OF n] by (auto simp: reading_def takeWhile_append takeWhile_replicate)
  then have "ansi_number a2 = sint (word_of_int (int n) :: u32)" by (simp add: ansi_number_def decimal_text(3) [OF n])
  also have "\<dots> = int n" using n by (simp add: signed_of_nat signed_take_bit_int_eq_self)
  finally have num: "ansi_number a2 = int n" .
  have "ansi_number (a2\<lparr>ab_port := p\<rparr>) = int n" for p using num by (simp add: ansi_number_def)
  then obtain a3 where a3: "ab_write CHR ''m'' a2 = Inr a3" "ab_idle a3" "ab_vtty a3 = tx_color (int n) (ab_vtty a)"
    using a2(2) decimal_text(2) [OF n]
    by (simp add: ab_write_def reading_def Let_def inrange_def z ansi_arg_def memset_spec flush_ansi_def ab_idle_def)
  have "ab_write_all (token_text (Colour n)) a = Inr a3"
    unfolding token_text.simps ab_write_all_append a1(1) a2(1) res_bind_simps by (simp add: a3(1))
  with a3 show ?thesis by blast
qed

text \<open>What may be written: any character but escape itself, and colours.\<close>

fun plain_token :: "token \<Rightarrow> bool" where
  "plain_token (Put c) \<longleftrightarrow> c \<noteq> CHR 0x1B"
| "plain_token (Colour n) \<longleftrightarrow> n < 1000"

lemma token_displays:
  assumes "ab_idle a" "displays up h (ab_vtty a)" "plain_token k"
  shows "\<exists>up' a'. ab_write_all (token_text k) a = Inr a' \<and> ab_idle a'
    \<and> displays up' (h_token (nat (tx_width (ab_vtty a))) k h) (ab_vtty a') \<and> tx_width (ab_vtty a') = tx_width (ab_vtty a) \<and> tx_height (ab_vtty a') = tx_height (ab_vtty a)"
proof (cases k)
  case (Put c)
  from tx_write_displays [OF assms(2), of c] obtain up' t where
    "tx_write c (ab_vtty a) = Inr t" "displays up' (h_token (nat (tx_width (ab_vtty a))) (Put c) h) t"
    "tx_width t = tx_width (ab_vtty a)" "tx_height t = tx_height (ab_vtty a)" by blast
  then show ?thesis using assms(1,3) Put by (auto simp: ab_write_def ab_idle_def Let_def simp del: h_token.simps)
next
  case (Colour n)
  with colour_sequence [OF assms(1), of n] color_displays [OF assms(2), of n] assms(3) show ?thesis
    by (auto simp del: token_text.simps)
qed

lemma tokens_display:
  assumes "ab_idle a" "displays up h (ab_vtty a)" "\<forall>k \<in> set ks. plain_token k"
  shows "\<exists>up' a'. ab_write_all (concat (map token_text ks)) a = Inr a' \<and> ab_idle a'
    \<and> displays up' (fold (h_token (nat (tx_width (ab_vtty a)))) ks h) (ab_vtty a') \<and> tx_height (ab_vtty a') = tx_height (ab_vtty a)"
  using assms
proof (induction ks arbitrary: a up h)
  case Nil
  then show ?case by auto
next
  case (Cons k ks)
  from token_displays [OF Cons.prems(1,2), of k] Cons.prems(3) obtain up1 a1 where
    1: "ab_write_all (token_text k) a = Inr a1" "ab_idle a1"
    "displays up1 (h_token (nat (tx_width (ab_vtty a))) k h) (ab_vtty a1)" "tx_width (ab_vtty a1) = tx_width (ab_vtty a)" "tx_height (ab_vtty a1) = tx_height (ab_vtty a)" by auto
  from Cons.IH [OF 1(2,3)] Cons.prems(3) 1 show ?case by (auto simp: ab_write_all_append)
qed

definition blank_history :: "vga_char list list \<Rightarrow> history" where
  "blank_history rows = \<lparr>h_rows = rows, h_y = 0, h_x = 0, h_fg = 15, h_bg = 0\<rparr>"

text \<open>
  C38. A terminal shows the end of what was written to it. Whatever text is written to a new terminal,
  with line breaks, returns and colours in escape sequences, no write leaves the video memory, and the
  screen shows the last 25 of all rows the text makes: a row is added when a line is full or ends, every character
  has the colours in force when it was written, and the cursor is where the next one goes.
\<close>

theorem terminal_shows_tail:
  assumes "length rows = 25" "\<forall>r \<in> set rows. length r = 80" "\<forall>k \<in> set ks. plain_token k"
    and "h = fold (h_token 80) ks (blank_history rows)"
  shows "\<exists>a. ttychar_write (concat (map token_text ks)) (newAbstractor (newTxTTY (concat rows))) =
      Inr (a, int (length (concat (map token_text ks))))
    \<and> tx_output (ab_vtty a) = concat (drop (length (h_rows h) - 25) (h_rows h))
    \<and> tx_cursorx (ab_vtty a) = int (h_x h) \<and> tx_cursory (ab_vtty a) = int (h_y h) - int (length (h_rows h) - 25)
    \<and> 0 \<le> tx_cursory (ab_vtty a) \<and> tx_cursory (ab_vtty a) < 25"
proof -
  let ?a = "newAbstractor (newTxTTY (concat rows))"
  have start: "ab_idle ?a" "displays 0 (blank_history rows) (ab_vtty ?a)" "nat (tx_width (ab_vtty ?a)) = 80"
    using assms(1,2) by (simp_all add: ab_idle_def newAbstractor_def newTxTTY_def displays_def blank_history_def)
  from tokens_display [OF start(1,2) assms(3)] obtain up a where
    a: "ab_write_all (concat (map token_text ks)) ?a = Inr a" "displays up h (ab_vtty a)"
    "tx_height (ab_vtty a) = tx_height (ab_vtty ?a)"
    unfolding start(3) assms(4) by blast
  moreover have "tx_height (ab_vtty ?a) = 25" by (simp add: newAbstractor_def newTxTTY_def)
  ultimately have "length (h_rows h) = up + 25" using a(2) by (simp add: displays_def)
  then show ?thesis using a by (auto simp: ttychar_write_def displays_def)
qed


definition blank_rows :: "vga_char list list" where
  "blank_rows = replicate 25 (replicate 80 \<lparr>vc_ascii = NUL, vc_fg = 15, vc_bg = 0\<rparr>)"

text \<open>Witness of C38: a red A.\<close>

theorem terminal_shows_tail_witness:
  "\<exists>a. ttychar_write (CHR 0x1B # ''[31mA'') (newAbstractor (newTxTTY (concat blank_rows))) = Inr (a, 6)
     \<and> tx_output (ab_vtty a) ! 0 = \<lparr>vc_ascii = CHR ''A'', vc_fg = 4, vc_bg = 0\<rparr> \<and> tx_cursorx (ab_vtty a) = 1"
proof -
  let ?ks = "[Colour 31, Put CHR ''A'']"
  let ?h = "fold (h_token 80) ?ks (blank_history blank_rows)"
  have ok: "length blank_rows = 25" "\<forall>r \<in> set blank_rows. length r = 80" "\<forall>k \<in> set ?ks. plain_token k"
    by (simp_all add: blank_rows_def)
  have "itos 31 10 = ''31''" by code_simp
  then have t: "concat (map token_text ?ks) = CHR 0x1B # ''[31mA''" by simp
  have h: "length (h_rows ?h) = 25" "h_x ?h = 1" "concat (h_rows ?h) ! 0 = \<lparr>vc_ascii = CHR ''A'', vc_fg = 4, vc_bg = 0\<rparr>"
    by code_simp+
  obtain a where a: "ttychar_write (concat (map token_text ?ks)) (newAbstractor (newTxTTY (concat blank_rows))) =
      Inr (a, int (length (concat (map token_text ?ks))))" "tx_cursorx (ab_vtty a) = int (h_x ?h)"
    "tx_output (ab_vtty a) = concat (drop (length (h_rows ?h) - 25) (h_rows ?h))"
    using terminal_shows_tail [OF ok refl] by blast
  have "tx_output (ab_vtty a) = concat (h_rows ?h)" unfolding a(3) h(1) by (simp only: diff_self_eq_0 drop_0)
  then have "tx_output (ab_vtty a) ! 0 = \<lparr>vc_ascii = CHR ''A'', vc_fg = 4, vc_bg = 0\<rparr>" using h(3) by (simp only:)
  moreover have "tx_cursorx (ab_vtty a) = 1" unfolding a(2) h(2) by simp
  ultimately show ?thesis using a(1) unfolding t by auto
qed

text \<open>Moving the cursor is not checked against the screen: the next character is written beside the video memory.\<close>

lemma cursor_escape_overruns:
  "ttychar_write (CHR 0x1B # ''[0;99Hx'') (newAbstractor (newTxTTY (concat blank_rows))) = Inl OutOfBounds"
  by code_simp

end
