(* ===== verification/FileTable.thy ===== *)
theory FileTable
  imports LazyVector INodeFile Path
begin

text \<open>
  The file descriptors of a process and the system calls on them (\<open>arch/x86_64/mod/core/syscall/fs.cpp\<close>, with
  \<open>usr.cpp\<close>, \<open>usr.hpp\<close>, \<open>mem.cpp\<close>, \<open>pipe\<close> of \<open>ipc.cpp\<close> and the part of \<open>fork\<close> in \<open>proc.cpp\<close>). A file is an
  object behind the virtual methods of \<open>FS::File\<close>, which are a record of functions; the objects live in a store, and a
  descriptor holds the address of one. A call that fails sets \<open>errno\<close> and returns -1.
\<close>

record 'f file_ops =
  fo_read :: "u8 list \<Rightarrow> nat \<Rightarrow> 'f \<Rightarrow> 'f \<times> u8 list \<times> int optional"
  fo_write :: "u8 list \<Rightarrow> 'f \<Rightarrow> 'f \<times> int optional"
  fo_seek :: "int \<Rightarrow> seek_mode \<Rightarrow> 'f \<Rightarrow> 'f \<times> int optional"
  fo_close :: "'f \<Rightarrow> 'f \<times> error_t"
  fo_dup :: "'f \<Rightarrow> 'f optional"
  fo_isatty :: "'f \<Rightarrow> bool"
  fo_get_flags :: "'f \<Rightarrow> u32"
  fo_set_flags :: "u32 \<Rightarrow> 'f \<Rightarrow> 'f"

record descriptor =
  desc_file :: nat
  desc_flags :: u32

record 'f fds =
  descs :: "descriptor lazyvector"
  objects :: "nat \<Rightarrow> 'f"
  fresh :: nat
  usr_errno :: error_t
  usr_mem :: "nat \<Rightarrow> u8"

definition no_desc :: descriptor where
  "no_desc = \<lparr>desc_file = 0, desc_flags = 0\<rparr>"

definition fail :: "error_t \<Rightarrow> 'f fds \<Rightarrow> 'f fds \<times> int" where
  "fail e st = (st\<lparr>usr_errno := e\<rparr>, -1)"

subsection \<open>User memory\<close>

text \<open>Copies between the kernel and a program: neither routine looks at the address.\<close>

definition k2u_memcpy :: "nat \<Rightarrow> u8 list \<Rightarrow> (nat \<Rightarrow> u8) \<Rightarrow> nat \<Rightarrow> u8" where
  "k2u_memcpy dst src m = (\<lambda>x. if dst \<le> x \<and> x < dst + length src then src ! (x - dst) else m x)"

definition u2k_memcpy :: "nat \<Rightarrow> nat \<Rightarrow> (nat \<Rightarrow> u8) \<Rightarrow> u8 list" where
  "u2k_memcpy src len m = map (\<lambda>i. m (src + i)) [0..<len]"

text \<open>A path of the program: its memory from the path on is \<open>usr\<close>. \<open>junk\<close> is what is on the stack if \<open>canonize_path\<close>
  gives up, which is not asked.\<close>

definition copy_and_canonize :: "char list \<Rightarrow> char list \<Rightarrow> string \<Rightarrow> char list \<Rightarrow> char list res" where
  "copy_and_canonize buffer usr cwd junk =
     res_bind (strlen usr) (\<lambda>n.
       let len = min (nat n + 1) MAX_PATH_LEN in
       res_bind (memcpy buffer 0 usr 0 (len + 1)) (\<lambda>buffer.
       res_bind (cell_set buffer len NUL) (\<lambda>buffer.
       res_bind (cell_get buffer 0) (\<lambda>c.
         if c \<noteq> SLASH then
           res_bind (canonize_path (c_string buffer) cwd (replicate MAX_PATH_LEN NUL)) (\<lambda>r.
             Inr (case r of None \<Rightarrow> junk | Some b \<Rightarrow> b))
         else Inr buffer))))"

subsection \<open>Descriptors\<close>

definition get_file :: "int \<Rightarrow> 'f fds \<Rightarrow> nat optional res" where
  "get_file fd st =
     (if \<not> lv_present fd (descs st) then Inr (Inl EBADF)
      else res_bind (lv_at no_desc fd (descs st)) (\<lambda>d. Inr (Inr (desc_file d))))"

definition pop_file :: "int \<Rightarrow> 'f fds \<Rightarrow> ('f fds \<times> nat optional) res" where
  "pop_file fd st =
     (if \<not> lv_present fd (descs st) then Inr (st, Inl EBADF)
      else res_bind (lv_at no_desc fd (descs st)) (\<lambda>d.
           res_bind (lv_erase fd (descs st)) (\<lambda>v. Inr (st\<lparr>descs := v\<rparr>, Inr (desc_file d)))))"

definition get_desc_flags :: "int \<Rightarrow> 'f fds \<Rightarrow> u32 optional res" where
  "get_desc_flags fd st =
     (if \<not> lv_present fd (descs st) then Inr (Inl EBADF)
      else res_bind (lv_at no_desc fd (descs st)) (\<lambda>d. Inr (Inr (desc_flags d))))"

definition set_desc_flags :: "int \<Rightarrow> u32 \<Rightarrow> 'f fds \<Rightarrow> 'f fds res" where
  "set_desc_flags fd flags st =
     (if \<not> lv_present fd (descs st) then Inr st
      else res_bind (lv_at no_desc fd (descs st)) (\<lambda>d.
           res_bind (lv_set fd (d\<lparr>desc_flags := flags\<rparr>) (descs st)) (\<lambda>v. Inr (st\<lparr>descs := v\<rparr>))))"

text \<open>\<open>USR_ENSURE_OPT(get_file(fd))\<close>, then the rest of the call with the file.\<close>

definition with_file :: "int \<Rightarrow> 'f fds \<Rightarrow> (nat \<Rightarrow> ('f fds \<times> int) res) \<Rightarrow> ('f fds \<times> int) res" where
  "with_file fd st body = res_bind (get_file fd st) (\<lambda>r. case r of Inl e \<Rightarrow> Inr (fail e st) | Inr p \<Rightarrow> body p)"

definition put_object :: "nat \<Rightarrow> 'f \<Rightarrow> 'f fds \<Rightarrow> 'f fds" where
  "put_object p f st = st\<lparr>objects := (objects st)(p := f)\<rparr>"

text \<open>\<open>descs.push(file)\<close> of a new object. A descriptor made from a file alone leaves its flags as they happen to be.\<close>

definition add_object :: "'f \<Rightarrow> 'f fds \<Rightarrow> nat \<times> 'f fds" where
  "add_object f st = (fresh st, (put_object (fresh st) f st)\<lparr>fresh := fresh st + 1\<rparr>)"

definition push_file :: "u32 \<Rightarrow> 'f \<Rightarrow> 'f fds \<Rightarrow> ('f fds \<times> int) res" where
  "push_file flags f st =
     (let (p, st) = add_object f st in
      res_bind (lv_push \<lparr>desc_file = p, desc_flags = flags\<rparr> (descs st)) (\<lambda>(fd, v). Inr (st\<lparr>descs := v\<rparr>, fd)))"

subsection \<open>System calls\<close>

text \<open>\<open>open\<close>, with the result of \<open>File::open\<close>.\<close>

definition sys_open :: "u32 \<Rightarrow> 'f optional \<Rightarrow> 'f fds \<Rightarrow> ('f fds \<times> int) res" where
  "sys_open flags opened st = (case opened of Inl e \<Rightarrow> Inr (fail e st) | Inr f \<Rightarrow> push_file flags f st)"

text \<open>\<open>read\<close>: the loop goes on only if a read that succeeded has the code \<open>EINTR\<close>, and a value has the code
  \<open>ENONE\<close>, so it ends after one pass. \<open>stack\<close> is what is in the buffer before.\<close>

definition sys_read :: "'f file_ops \<Rightarrow> u8 list \<Rightarrow> int \<Rightarrow> nat \<Rightarrow> nat \<Rightarrow> 'f fds \<Rightarrow> ('f fds \<times> int) res" where
  "sys_read ops stack fd dst count st =
     with_file fd st (\<lambda>p.
       if count = 0 then Inr (st, 0)
       else
         let len = min count 1024; (f, buffer, r) = fo_read ops stack len (objects st p); st = put_object p f st in
         case r of Inl e \<Rightarrow> Inr (fail EINVAL st)
         | Inr n \<Rightarrow> Inr (st\<lparr>usr_mem := k2u_memcpy dst (take len buffer) (usr_mem st)\<rparr>, n))"

function write_chunks :: "'f file_ops \<Rightarrow> nat \<Rightarrow> nat \<Rightarrow> nat \<Rightarrow> nat \<Rightarrow> int \<Rightarrow> 'f fds \<Rightarrow> 'f fds \<times> int" where
  "write_chunks ops p src count i written st =
     (if i < count then
        let len = min (count - i) 1024; (f, r) = fo_write ops (u2k_memcpy (src + i) len (usr_mem st)) (objects st p);
            st = put_object p f st
        in case r of Inl e \<Rightarrow> fail e st | Inr n \<Rightarrow> write_chunks ops p src count (i + 1024) (written + n) st
      else (st, written))"
  by pat_completeness auto
termination by (relation "measure (\<lambda>(ops, p, src, count, i, written, st). count - i)") auto

declare write_chunks.simps [simp del]

definition sys_write :: "'f file_ops \<Rightarrow> int \<Rightarrow> nat \<Rightarrow> nat \<Rightarrow> 'f fds \<Rightarrow> ('f fds \<times> int) res" where
  "sys_write ops fd src count st = with_file fd st (\<lambda>p. Inr (write_chunks ops p src count 0 0 st))"

text \<open>\<open>close\<close>: the value of \<open>USR_ENSURE_ENONE\<close> is its last expression, 0, whatever the file says.\<close>

definition sys_close :: "'f file_ops \<Rightarrow> int \<Rightarrow> 'f fds \<Rightarrow> ('f fds \<times> int) res" where
  "sys_close ops fd st =
     with_file fd st (\<lambda>p.
       let (f, e) = fo_close ops (objects st p); st = put_object p f st
       in Inr (if e \<noteq> ENONE then st\<lparr>usr_errno := e\<rparr> else st, 0))"

definition sys_dup :: "'f file_ops \<Rightarrow> u32 \<Rightarrow> int \<Rightarrow> 'f fds \<Rightarrow> ('f fds \<times> int) res" where
  "sys_dup ops flags fd st =
     with_file fd st (\<lambda>p. case fo_dup ops (objects st p) of Inl e \<Rightarrow> Inr (fail e st) | Inr f \<Rightarrow> push_file flags f st)"

definition sys_dup2 :: "'f file_ops \<Rightarrow> u32 \<Rightarrow> int \<Rightarrow> int \<Rightarrow> 'f fds \<Rightarrow> ('f fds \<times> int) res" where
  "sys_dup2 ops flags srcfd dstfd st =
     with_file srcfd st (\<lambda>p. case fo_dup ops (objects st p) of
         Inl e \<Rightarrow> Inr (fail e st)
       | Inr f \<Rightarrow>
           let (p, st) = add_object f st in
           res_bind (lv_set dstfd \<lparr>desc_file = p, desc_flags = flags\<rparr> (descs st)) (\<lambda>v. Inr (st\<lparr>descs := v\<rparr>, dstfd)))"

fun seek_mode_of :: "int \<Rightarrow> seek_mode" where
  "seek_mode_of m = (if m = 0 then SEEK_SET else if m = 1 then SEEK_CURRENT else SEEK_END)"

definition sys_seek :: "'f file_ops \<Rightarrow> int \<Rightarrow> int \<Rightarrow> int \<Rightarrow> 'f fds \<Rightarrow> ('f fds \<times> int) res" where
  "sys_seek ops fd pos mode st =
     with_file fd st (\<lambda>p.
       if \<not> (0 \<le> mode \<and> mode \<le> 2) then Inr (fail EINVAL st)
       else let (f, r) = fo_seek ops pos (seek_mode_of mode) (objects st p); st = put_object p f st
            in case r of Inl e \<Rightarrow> Inr (fail e st) | Inr n \<Rightarrow> Inr (st, n))"

definition sys_isatty :: "'f file_ops \<Rightarrow> int \<Rightarrow> 'f fds \<Rightarrow> ('f fds \<times> bool) res" where
  "sys_isatty ops fd st =
     res_bind (get_file fd st) (\<lambda>r. case r of
         Inl e \<Rightarrow> Inr (st\<lparr>usr_errno := e\<rparr>, False)
       | Inr p \<Rightarrow>
           let tty = fo_isatty ops (objects st p) in Inr (st\<lparr>usr_errno := (if tty then ENONE else ENOTTY)\<rparr>, tty))"

definition sys_fcntl :: "'f file_ops \<Rightarrow> u32 \<Rightarrow> int \<Rightarrow> int \<Rightarrow> u32 \<Rightarrow> 'f fds \<Rightarrow> ('f fds \<times> int) res" where
  "sys_fcntl ops junk fd cmd val st =
     with_file fd st (\<lambda>p.
     res_bind (get_desc_flags fd st) (\<lambda>r. case r of Inl e \<Rightarrow> Inr (fail e st) | Inr flags \<Rightarrow>
       if cmd = 1 then sys_dup ops junk fd st
       else if cmd = 2 then Inr (st, sint ((fo_get_flags ops (objects st p) AND 0xFFFF) OR push_bit 16 flags))
       else if cmd = 3 then
         if val AND NOT 0x00010001 \<noteq> 0 then Inr (fail EINVAL st)
         else res_bind (set_desc_flags fd (signed_drop_bit 16 val) st) (\<lambda>st.
           Inr (put_object p (fo_set_flags ops (fo_get_flags ops (objects st p) OR (val AND 0xFFFF)) (objects st p)) st, 0))
       else Inr (st, -1)))"

definition sys_pipe :: "u32 \<Rightarrow> u32 \<Rightarrow> 'f \<Rightarrow> 'f \<Rightarrow> 'f fds \<Rightarrow> ('f fds \<times> int \<times> int) res" where
  "sys_pipe fl1 fl2 r w st =
     res_bind (push_file fl1 r st) (\<lambda>(st, rfd). res_bind (push_file fl2 w st) (\<lambda>(st, wfd). Inr (st, rfd, wfd)))"

text \<open>\<open>fork\<close>: the loop over the descriptors of the parent; the child's table starts empty. The result of \<open>dup\<close> is
  used without asking whether there is one; \<open>junk\<close> stands for its value then.\<close>

fun fork_descs :: "'f file_ops \<Rightarrow> 'f \<Rightarrow> nat \<Rightarrow> nat \<Rightarrow> 'f fds \<Rightarrow> 'f fds \<Rightarrow> 'f fds res" where
  "fork_descs ops junk i 0 parent child = Inr child"
| "fork_descs ops junk i (Suc n) parent child =
     (if \<not> lv_present (int i) (descs parent) then fork_descs ops junk (i + 1) n parent child
      else res_bind (lv_at no_desc (int i) (descs parent)) (\<lambda>d.
        let (p, child) = add_object (case fo_dup ops (objects parent (desc_file d)) of Inl e \<Rightarrow> junk | Inr f \<Rightarrow> f) child in
        res_bind (lv_set (int i) \<lparr>desc_file = p, desc_flags = desc_flags d\<rparr> (descs child)) (\<lambda>v.
          fork_descs ops junk (i + 1) n parent (child\<lparr>descs := v\<rparr>))))"

definition fork_files :: "'f file_ops \<Rightarrow> 'f \<Rightarrow> 'f fds \<Rightarrow> 'f fds \<Rightarrow> 'f fds res" where
  "fork_files ops junk parent child = fork_descs ops junk 0 (nat (lv_count (descs parent))) parent child"


subsection \<open>A table of files\<close>

text \<open>Every descriptor has an object of its own, so a process has a table of files.\<close>

definition fds_ok :: "'f fds \<Rightarrow> bool" where
  "fds_ok st \<longleftrightarrow> lv_inv (descs st) \<and> (\<forall>fd d. lv_lookup (descs st) fd = Some d \<longrightarrow> desc_file d < fresh st)
     \<and> (\<forall>fd fd' d d'. lv_lookup (descs st) fd = Some d \<and> lv_lookup (descs st) fd' = Some d' \<and> desc_file d = desc_file d' \<longrightarrow> fd = fd')"

definition files :: "'f fds \<Rightarrow> nat \<rightharpoonup> 'f \<times> u32" where
  "files st = (\<lambda>fd. map_option (\<lambda>d. (objects st (desc_file d), desc_flags d)) (lv_lookup (descs st) fd))"

lemma get_file_spec:
  "get_file fd st = Inr (case (if 0 \<le> fd then lv_lookup (descs st) (nat fd) else None) of None \<Rightarrow> Inl EBADF | Some d \<Rightarrow> Inr (desc_file d))"
  by (auto simp: get_file_def lv_present_def lv_lookup_def lv_count_def lv_at_def Let_def)

lemma put_object_files:
  assumes ok: "fds_ok st" and d: "lv_lookup (descs st) fd = Some d"
  shows "fds_ok (put_object (desc_file d) f st)" "files (put_object (desc_file d) f st) = (files st)(fd \<mapsto> (f, desc_flags d))"
proof -
  show "fds_ok (put_object (desc_file d) f st)" using ok by (simp add: fds_ok_def put_object_def)
  show "files (put_object (desc_file d) f st) = (files st)(fd \<mapsto> (f, desc_flags d))"
  proof
    fix k
    show "files (put_object (desc_file d) f st) k = ((files st)(fd \<mapsto> (f, desc_flags d))) k"
    proof (cases "k = fd")
      case False
      have "desc_file d' \<noteq> desc_file d" if "lv_lookup (descs st) k = Some d'" for d'
        using ok d that False by (auto simp: fds_ok_def)
      with False show ?thesis by (cases "lv_lookup (descs st) k") (auto simp: files_def put_object_def)
    qed (simp add: files_def put_object_def d)
  qed
qed

lemma new_desc_files:
  assumes ok: "fds_ok st" and st1: "add_object f st = (p, st1)"
    and v: "lv_inv v" "lv_lookup v = (lv_lookup (descs st))(k \<mapsto> \<lparr>desc_file = p, desc_flags = fl\<rparr>)"
  shows "fds_ok (st1\<lparr>descs := v\<rparr>)" "files (st1\<lparr>descs := v\<rparr>) = (files st)(k \<mapsto> (f, fl))"
proof -
  have p: "p = fresh st" "fresh st1 = fresh st + 1" "objects st1 = (objects st)(fresh st := f)"
    using st1 by (auto simp: add_object_def put_object_def)
  have less: "desc_file d < fresh st" if "lv_lookup (descs st) fd = Some d" for fd d
    using ok that by (simp add: fds_ok_def)
  have inj: "fd = fd'" if "lv_lookup (descs st) fd = Some d" "lv_lookup (descs st) fd' = Some d'" "desc_file d = desc_file d'" for fd fd' d d'
    using ok that unfolding fds_ok_def by blast
  have neq: "desc_file d \<noteq> fresh st" if "lv_lookup (descs st) fd = Some d" for fd d using less [OF that] by simp
  show "fds_ok (st1\<lparr>descs := v\<rparr>)"
    using inj v(1) by (auto simp: fds_ok_def p v(2) dest: less neq intro: less_SucI split: if_splits)
  show "files (st1\<lparr>descs := v\<rparr>) = (files st)(k \<mapsto> (f, fl))"
    using neq by (auto simp: files_def p v fun_eq_iff intro!: option.map_cong0)
qed

lemma push_file_spec:
  assumes ok: "fds_ok st"
  shows "\<exists>i st'. push_file fl f st = Inr (st', int i) \<and> fds_ok st' \<and> files st i = None \<and> (\<forall>j < i. files st j \<noteq> None)
    \<and> files st' = (files st)(i \<mapsto> (f, fl)) \<and> usr_errno st' = usr_errno st \<and> usr_mem st' = usr_mem st"
proof -
  obtain p st1 where n: "add_object f st = (p, st1)" by (cases "add_object f st")
  have same: "descs st1 = descs st" "usr_errno st1 = usr_errno st" "usr_mem st1 = usr_mem st"
    using n by (auto simp: add_object_def put_object_def)
  have "lv_inv (descs st)" using ok by (simp add: fds_ok_def)
  from lv_push_spec [OF this, of "\<lparr>desc_file = p, desc_flags = fl\<rparr>"] obtain i v where
    v: "lv_push \<lparr>desc_file = p, desc_flags = fl\<rparr> (descs st) = Inr (int i, v)" "lv_inv v" "lv_lookup (descs st) i = None"
    "\<forall>j < i. lv_lookup (descs st) j \<noteq> None" "lv_lookup v = (lv_lookup (descs st))(i \<mapsto> \<lparr>desc_file = p, desc_flags = fl\<rparr>)" by blast
  from new_desc_files [OF ok n v(2,5)] v n same show ?thesis
    by (intro exI [of _ i] exI [of _ "st1\<lparr>descs := v\<rparr>"]) (simp add: push_file_def files_def)
qed


subsection \<open>What the calls promise\<close>

type_synonym 'f fstate = "(nat \<rightharpoonup> 'f \<times> u32) \<times> error_t \<times> (nat \<Rightarrow> u8)"

datatype 'f fd_op =
    FOpen u32 "'f optional"
  | FRead "u8 list" int nat nat
  | FWrite int nat nat
  | FSeek int int int
  | FClose int
  | FDup u32 int
  | FDup2 u32 int nat

fun fd_step :: "'f file_ops \<Rightarrow> 'f fd_op \<Rightarrow> 'f fds \<Rightarrow> ('f fds \<times> int) res" where
  "fd_step ops (FOpen fl r) st = sys_open fl r st"
| "fd_step ops (FRead stack fd dst count) st = sys_read ops stack fd dst count st"
| "fd_step ops (FWrite fd src count) st = sys_write ops fd src count st"
| "fd_step ops (FSeek fd pos mode) st = sys_seek ops fd pos mode st"
| "fd_step ops (FClose fd) st = sys_close ops fd st"
| "fd_step ops (FDup fl fd) st = sys_dup ops fl fd st"
| "fd_step ops (FDup2 fl fd dst) st = sys_dup2 ops fl fd (int dst) st"

definition fd_get :: "int \<Rightarrow> (nat \<rightharpoonup> 'f \<times> u32) \<Rightarrow> ('f \<times> u32) option" where
  "fd_get fd T = (if 0 \<le> fd then T (nat fd) else None)"

text \<open>The lowest number that is free.\<close>

definition lowest :: "nat \<Rightarrow> (nat \<rightharpoonup> 'a) \<Rightarrow> bool" where
  "lowest i T \<longleftrightarrow> T i = None \<and> (\<forall>j < i. T j \<noteq> None)"

text \<open>Writing a list of bytes, 1024 at a time.\<close>

function write_list :: "'f file_ops \<Rightarrow> u8 list \<Rightarrow> 'f \<Rightarrow> int \<Rightarrow> 'f \<times> int optional" where
  "write_list ops data f n =
     (if data = [] then (f, Inr n)
      else case fo_write ops (take 1024 data) f of
             (f, Inl e) \<Rightarrow> (f, Inl e)
           | (f, Inr k) \<Rightarrow> write_list ops (drop 1024 data) f (n + k))"
  by pat_completeness auto
termination by (relation "measure (\<lambda>(ops, data, f, n). length data)") auto

declare write_list.simps [simp del]

text \<open>A result that may be an error, as the program sees it.\<close>

definition outcome :: "error_t \<Rightarrow> int optional \<Rightarrow> error_t \<times> int" where
  "outcome e r = (case r of Inl e' \<Rightarrow> (e', -1) | Inr n \<Rightarrow> (e, n))"

fun fd_spec :: "'f file_ops \<Rightarrow> 'f fd_op \<Rightarrow> 'f fstate \<Rightarrow> 'f fstate \<Rightarrow> int \<Rightarrow> bool" where
  "fd_spec ops (FOpen fl r) (T, e, m) s' k \<longleftrightarrow>
     (case r of Inl e' \<Rightarrow> s' = (T, e', m) \<and> k = -1
      | Inr f \<Rightarrow> \<exists>i. lowest i T \<and> s' = (T(i \<mapsto> (f, fl)), e, m) \<and> k = int i)"
| "fd_spec ops (FRead stack fd dst count) (T, e, m) s' k \<longleftrightarrow>
     (case fd_get fd T of None \<Rightarrow> s' = (T, EBADF, m) \<and> k = -1
      | Some (f, fl) \<Rightarrow>
          if count = 0 then s' = (T, e, m) \<and> k = 0
          else case fo_read ops stack (min count 1024) f of
                 (f, b, Inl _) \<Rightarrow> s' = (T(nat fd \<mapsto> (f, fl)), EINVAL, m) \<and> k = -1
               | (f, b, Inr n) \<Rightarrow> s' = (T(nat fd \<mapsto> (f, fl)), e, k2u_memcpy dst (take (min count 1024) b) m) \<and> k = n)"
| "fd_spec ops (FWrite fd src count) (T, e, m) s' k \<longleftrightarrow>
     (case fd_get fd T of None \<Rightarrow> s' = (T, EBADF, m) \<and> k = -1
      | Some (f, fl) \<Rightarrow>
          let (f, r) = write_list ops (u2k_memcpy src count m) f 0; (e, n) = outcome e r
          in s' = (T(nat fd \<mapsto> (f, fl)), e, m) \<and> k = n)"
| "fd_spec ops (FSeek fd pos mode) (T, e, m) s' k \<longleftrightarrow>
     (case fd_get fd T of None \<Rightarrow> s' = (T, EBADF, m) \<and> k = -1
      | Some (f, fl) \<Rightarrow>
          if mode < 0 \<or> 2 < mode then s' = (T, EINVAL, m) \<and> k = -1
          else let (f, r) = fo_seek ops pos (seek_mode_of mode) f; (e, n) = outcome e r
               in s' = (T(nat fd \<mapsto> (f, fl)), e, m) \<and> k = n)"
| "fd_spec ops (FClose fd) (T, e, m) s' k \<longleftrightarrow>
     (case fd_get fd T of None \<Rightarrow> s' = (T, EBADF, m) \<and> k = -1
      | Some (f, fl) \<Rightarrow>
          let (f, e') = fo_close ops f in s' = (T(nat fd \<mapsto> (f, fl)), if e' = ENONE then e else e', m) \<and> k = 0)"
| "fd_spec ops (FDup fl fd) (T, e, m) s' k \<longleftrightarrow>
     (case fd_get fd T of None \<Rightarrow> s' = (T, EBADF, m) \<and> k = -1
      | Some (f, _) \<Rightarrow>
          case fo_dup ops f of Inl e' \<Rightarrow> s' = (T, e', m) \<and> k = -1
          | Inr f \<Rightarrow> \<exists>i. lowest i T \<and> s' = (T(i \<mapsto> (f, fl)), e, m) \<and> k = int i)"
| "fd_spec ops (FDup2 fl fd dst) (T, e, m) s' k \<longleftrightarrow>
     (case fd_get fd T of None \<Rightarrow> s' = (T, EBADF, m) \<and> k = -1
      | Some (f, _) \<Rightarrow>
          case fo_dup ops f of Inl e' \<Rightarrow> s' = (T, e', m) \<and> k = -1
          | Inr f \<Rightarrow> s' = (T(dst \<mapsto> (f, fl)), e, m) \<and> k = int dst)"

definition fstate_of :: "'f fds \<Rightarrow> 'f fstate" where
  "fstate_of st = (files st, usr_errno st, usr_mem st)"


lemma with_file_cases:
  obtains (bad) "fd_get fd (files st) = None" "\<And>body. with_file fd st body = Inr (fail EBADF st)"
  | (found) d where "lv_lookup (descs st) (nat fd) = Some d" "fd_get fd (files st) = Some (objects st (desc_file d), desc_flags d)"
      "\<And>body. with_file fd st body = body (desc_file d)"
proof (cases "if 0 \<le> fd then lv_lookup (descs st) (nat fd) else None")
  case None
  then show ?thesis by (intro bad) (auto simp: fd_get_def files_def with_file_def get_file_spec)
next
  case (Some d)
  then show ?thesis by (intro found [of d]) (auto simp: fd_get_def files_def with_file_def get_file_spec split: if_splits)
qed

lemma fail_state [simp]:
  "fstate_of (fst (fail e st)) = (files st, e, usr_mem st)" "snd (fail e st) = -1" "fds_ok (fst (fail e st)) = fds_ok st"
  by (simp_all add: fstate_of_def fail_def files_def fds_ok_def)

lemma errno_mem_frame [simp]:
  "files (st\<lparr>usr_errno := e\<rparr>) = files st" "fds_ok (st\<lparr>usr_errno := e\<rparr>) = fds_ok st"
  "files (st\<lparr>usr_mem := m\<rparr>) = files st" "fds_ok (st\<lparr>usr_mem := m\<rparr>) = fds_ok st"
  "usr_errno (put_object p f st) = usr_errno st" "usr_mem (put_object p f st) = usr_mem st"
  "objects (put_object p f st) p = f" "put_object p g (put_object p f st) = put_object p g st"
  by (simp_all add: files_def fds_ok_def put_object_def)

lemma put_object_same [simp]: "put_object p (objects st p) st = st"
  by (simp add: put_object_def)

lemma u2k_part: "take 1024 (drop i (u2k_memcpy src count m)) = u2k_memcpy (src + i) (min (count - i) 1024) m"
  by (rule nth_equalityI) (auto simp: u2k_memcpy_def add.assoc)

lemma write_chunks_list:
  "write_chunks ops p src count i written st =
     (let (f, r) = write_list ops (drop i (u2k_memcpy src count (usr_mem st))) (objects st p) written
      in case r of Inl e \<Rightarrow> fail e (put_object p f st) | Inr n \<Rightarrow> (put_object p f st, n))"
proof (induction ops p src count i written st rule: write_chunks.induct)
  case (1 ops p src count i written st)
  let ?data = "u2k_memcpy src count (usr_mem st)"
  show ?case
  proof (cases "i < count")
    case False
    then have "drop i ?data = []" by (simp add: u2k_memcpy_def)
    with False show ?thesis by (subst write_chunks.simps, subst write_list.simps) simp
  next
    case True
    then have ne: "drop i ?data \<noteq> []" by (simp add: u2k_memcpy_def)
    obtain f r where w: "fo_write ops (u2k_memcpy (src + i) (min (count - i) 1024) (usr_mem st)) (objects st p) = (f, r)"
      by (cases "fo_write ops (u2k_memcpy (src + i) (min (count - i) 1024) (usr_mem st)) (objects st p)")
    show ?thesis
    proof (cases r)
      case (Inl e)
      with True ne w show ?thesis
        by (subst write_chunks.simps, subst write_list.simps) (simp add: u2k_part Let_def)
    next
      case (Inr n)
      note IH = 1 [OF True refl refl w [symmetric] refl Inr]
      have "write_chunks ops p src count i written st = write_chunks ops p src count (i + 1024) (written + n) (put_object p f st)"
        using True w Inr by (subst write_chunks.simps) (simp add: Let_def)
      moreover have "write_list ops (drop i ?data) (objects st p) written = write_list ops (drop (i + 1024) ?data) f (written + n)"
        using ne w Inr by (subst write_list.simps) (simp add: u2k_part add.commute)
      ultimately show ?thesis using IH by simp
    qed
  qed
qed

definition fd_meets :: "'f file_ops \<Rightarrow> 'f fd_op \<Rightarrow> 'f fds \<Rightarrow> bool" where
  "fd_meets ops op st \<longleftrightarrow>
     (\<exists>st' k. fd_step ops op st = Inr (st', k) \<and> fds_ok st' \<and> fd_spec ops op (fstate_of st) (fstate_of st') k)"

lemma open_meets:
  assumes ok: "fds_ok st"
  shows "fd_meets ops (FOpen fl r) st"
proof (cases r)
  case (Inl e)
  with ok show ?thesis by (auto simp: fd_meets_def sys_open_def fail_def fstate_of_def)
next
  case (Inr f)
  with push_file_spec [OF ok, of fl f] show ?thesis by (auto simp: fd_meets_def sys_open_def fstate_of_def lowest_def)
qed

lemma read_meets:
  assumes ok: "fds_ok st"
  shows "fd_meets ops (FRead stack fd dst count) st"
proof (cases fd st rule: with_file_cases)
  case bad
  with ok show ?thesis by (auto simp: fd_meets_def sys_read_def fail_def fstate_of_def)
next
  case (found d)
  note put = put_object_files [OF ok found(1)]
  obtain f b r where r: "fo_read ops stack (min count 1024) (objects st (desc_file d)) = (f, b, r)"
    by (cases "fo_read ops stack (min count 1024) (objects st (desc_file d))")
  from found ok put r show ?thesis by (cases r) (auto simp: fd_meets_def sys_read_def fstate_of_def fail_def Let_def)
qed

lemma write_meets:
  assumes ok: "fds_ok st"
  shows "fd_meets ops (FWrite fd src count) st"
proof (cases fd st rule: with_file_cases)
  case bad
  with ok show ?thesis by (auto simp: fd_meets_def sys_write_def fail_def fstate_of_def)
next
  case (found d)
  note put = put_object_files [OF ok found(1)]
  obtain f r where r: "write_list ops (u2k_memcpy src count (usr_mem st)) (objects st (desc_file d)) 0 = (f, r)"
    by (cases "write_list ops (u2k_memcpy src count (usr_mem st)) (objects st (desc_file d)) 0")
  from found ok put r show ?thesis
    by (cases r) (auto simp: fd_meets_def sys_write_def write_chunks_list fstate_of_def fail_def Let_def outcome_def)
qed

lemma seek_meets:
  assumes ok: "fds_ok st"
  shows "fd_meets ops (FSeek fd pos mode) st"
proof (cases fd st rule: with_file_cases)
  case bad
  with ok show ?thesis by (auto simp: fd_meets_def sys_seek_def fail_def fstate_of_def)
next
  case (found d)
  note put = put_object_files [OF ok found(1)]
  obtain f r where r: "fo_seek ops pos (seek_mode_of mode) (objects st (desc_file d)) = (f, r)"
    by (cases "fo_seek ops pos (seek_mode_of mode) (objects st (desc_file d))")
  from found ok put r show ?thesis
    by (cases r) (auto simp: fd_meets_def sys_seek_def fstate_of_def fail_def Let_def outcome_def simp del: seek_mode_of.simps)
qed

lemma close_meets:
  assumes ok: "fds_ok st"
  shows "fd_meets ops (FClose fd) st"
proof (cases fd st rule: with_file_cases)
  case bad
  with ok show ?thesis by (auto simp: fd_meets_def sys_close_def fail_def fstate_of_def)
next
  case (found d)
  note put = put_object_files [OF ok found(1)]
  obtain f e where r: "fo_close ops (objects st (desc_file d)) = (f, e)" by (cases "fo_close ops (objects st (desc_file d))")
  from found ok put r show ?thesis by (auto simp: fd_meets_def sys_close_def fstate_of_def Let_def)
qed

lemma dup_meets:
  assumes ok: "fds_ok st"
  shows "fd_meets ops (FDup fl fd) st"
proof (cases fd st rule: with_file_cases)
  case bad
  with ok show ?thesis by (auto simp: fd_meets_def sys_dup_def fail_def fstate_of_def)
next
  case (found d)
  show ?thesis
  proof (cases "fo_dup ops (objects st (desc_file d))")
    case (Inl e)
    with found ok show ?thesis by (auto simp: fd_meets_def sys_dup_def fail_def fstate_of_def)
  next
    case (Inr f)
    with found push_file_spec [OF ok, of fl f] show ?thesis by (auto simp: fd_meets_def sys_dup_def fstate_of_def lowest_def)
  qed
qed

lemma dup2_meets:
  assumes ok: "fds_ok st"
  shows "fd_meets ops (FDup2 fl fd dst) st"
proof (cases fd st rule: with_file_cases)
  case bad
  with ok show ?thesis by (auto simp: fd_meets_def sys_dup2_def fail_def fstate_of_def)
next
  case (found d)
  show ?thesis
  proof (cases "fo_dup ops (objects st (desc_file d))")
    case (Inl e)
    with found ok show ?thesis by (auto simp: fd_meets_def sys_dup2_def fail_def fstate_of_def)
  next
    case (Inr f)
    obtain p st1 where n: "add_object f st = (p, st1)" by (cases "add_object f st")
    have same: "descs st1 = descs st" "usr_errno st1 = usr_errno st" "usr_mem st1 = usr_mem st"
      using n by (auto simp: add_object_def put_object_def)
    have "lv_inv (descs st)" using ok by (simp add: fds_ok_def)
    from lv_set_spec [OF this, of dst "\<lparr>desc_file = p, desc_flags = fl\<rparr>"] obtain v where
      v: "lv_set (int dst) \<lparr>desc_file = p, desc_flags = fl\<rparr> (descs st) = Inr v" "lv_inv v"
      "lv_lookup v = (lv_lookup (descs st))(dst \<mapsto> \<lparr>desc_file = p, desc_flags = fl\<rparr>)" by blast
    with found Inr n same new_desc_files [OF ok n v(2,3)] show ?thesis
      by (auto simp: fd_meets_def sys_dup2_def fstate_of_def)
  qed
qed

lemma fd_step_meets: "fds_ok st \<Longrightarrow> fd_meets ops op st"
  by (cases op) (simp_all add: open_meets read_meets write_meets seek_meets close_meets dup_meets dup2_meets)

fun fd_run :: "'f file_ops \<Rightarrow> 'f fd_op list \<Rightarrow> 'f fds \<Rightarrow> ('f fds \<times> int list) res" where
  "fd_run ops [] st = Inr (st, [])"
| "fd_run ops (a # as) st =
     res_bind (fd_step ops a st) (\<lambda>(st, k). res_bind (fd_run ops as st) (\<lambda>(st, ks). Inr (st, k # ks)))"

fun fd_spec_run :: "'f file_ops \<Rightarrow> 'f fd_op list \<Rightarrow> 'f fstate \<Rightarrow> 'f fstate \<Rightarrow> int list \<Rightarrow> bool" where
  "fd_spec_run ops [] s s' ks \<longleftrightarrow> s' = s \<and> ks = []"
| "fd_spec_run ops (a # as) s s' ks \<longleftrightarrow>
     (\<exists>s1 k ks'. fd_spec ops a s s1 k \<and> fd_spec_run ops as s1 s' ks' \<and> ks = k # ks')"


text \<open>Files that are a list of bytes, appended to by a write and used up by a read.\<close>

definition list_ops :: "u8 list file_ops" where
  "list_ops = \<lparr>fo_read = (\<lambda>b n f. (drop n f, take n f @ drop (length (take n f)) b, Inr (int (length (take n f))))),
     fo_write = (\<lambda>d f. (f @ d, Inr (int (length d)))), fo_seek = (\<lambda>_ _ f. (f, Inl ESPIPE)), fo_close = (\<lambda>f. (f, EIO)),
     fo_dup = Inr, fo_isatty = (\<lambda>_. False), fo_get_flags = (\<lambda>_. 0), fo_set_flags = (\<lambda>_ f. f)\<rparr>"

definition no_files :: "u8 list fds" where
  "no_files = \<lparr>descs = new_lazyvector, objects = (\<lambda>_. []), fresh = 0, usr_errno = ENONE, usr_mem = (\<lambda>_. 7)\<rparr>"


text \<open>A path of 2047 characters or more is copied past the end of the buffer.\<close>

lemma copy_and_canonize_overruns:
  assumes "NUL \<notin> set path" "MAX_PATH_LEN \<le> length path + 1" "length buffer = MAX_PATH_LEN" "rest \<noteq> []"
  shows "copy_and_canonize buffer (path @ NUL # rest) cwd junk = Inl OutOfBounds"
proof -
  have n: "strlen (path @ NUL # rest) = Inr (int (length path))"
    using strlen_loop_cstr [OF assms(1), of rest 0] by (simp add: strlen_def)
  have "min (length path + 1) MAX_PATH_LEN = MAX_PATH_LEN" using assms(2) by simp
  moreover have "memcpy buffer 0 (path @ NUL # rest) 0 (MAX_PATH_LEN + 1) = Inl OutOfBounds"
    using memcpy_overrun [of 0 "MAX_PATH_LEN + 1" "path @ NUL # rest" 0 buffer] assms(2-4)
    by (cases rest) (simp_all add: memcpy_def)
  ultimately show ?thesis by (simp add: copy_and_canonize_def n)
qed

text \<open>\<open>dup2\<close> to a negative number writes in front of the table.\<close>

lemma dup2_negative:
  assumes "lv_lookup (descs st) fd = Some d" "fo_dup ops (objects st (desc_file d)) = Inr f" "dst < 0"
  shows "sys_dup2 ops fl (int fd) dst st = Inl OutOfBounds"
  using assms by (simp add: sys_dup2_def with_file_def get_file_spec add_object_def put_object_def lv_set_def)

end
