(* ===== verification/Iso9660.thy ===== *)
theory Iso9660
  imports Vfs
begin

text \<open>
  The ISO 9660 file system (\<open>mod/init/iso9660\<close>): mounting, reading directories, the inodes of directories and files. The
  bytes the block handle delivers from a position on are a parameter \<open>rd\<close> (\<open>Block\<close> shows that a handle delivers the
  bytes of the disk). A call that runs forever is \<open>None\<close>.
\<close>

text \<open>The fixed part of an entry, as it lies in the bytes of a directory.\<close>

record iso9660_dentry =
  id_len :: u8
  id_data_lba :: u32
  id_data_len :: u32
  id_flags :: u8
  id_name_len :: u8

definition uint32_le :: "u8 list \<Rightarrow> nat \<Rightarrow> u32" where
  "uint32_le b i = ucast (b ! i) OR push_bit 8 (ucast (b ! (i + 1))) OR push_bit 16 (ucast (b ! (i + 2))) OR push_bit 24 (ucast (b ! (i + 3)))"

definition dentry_of :: "u8 list \<Rightarrow> iso9660_dentry" where
  "dentry_of b = \<lparr>id_len = b ! 0, id_data_lba = uint32_le b 2, id_data_len = uint32_le b 10, id_flags = b ! 25, id_name_len = b ! 32\<rparr>"

definition dentry_isDirectory :: "iso9660_dentry \<Rightarrow> bool" where
  "dentry_isDirectory d \<longleftrightarrow> id_flags d AND 2 > 0"

text \<open>\<open>ISO9600DirectoryINode\<close> and \<open>ISO9600FileINode\<close>.\<close>

record iso_inode =
  ii_base :: inode
  ii_dentry :: iso9660_dentry
  ii_directory :: bool

definition directory_inode :: "iso9660_dentry \<Rightarrow> iso_inode" where
  "directory_inode d =
     \<lparr>ii_base = new_inode\<lparr>i_size := uint (id_data_len d), i_type := FT_DIRECTORY, i_hard_links := 1\<rparr>, ii_dentry = d, ii_directory = True\<rparr>"

definition file_inode :: "iso9660_dentry \<Rightarrow> iso_inode" where
  "file_inode d =
     \<lparr>ii_base = new_inode\<lparr>i_size := uint (id_data_len d), i_type := FT_REGULAR, i_hard_links := 1\<rparr>, ii_dentry = d, ii_directory = False\<rparr>"

text \<open>\<open>data_lba.le * BLOCK_SIZE\<close> is computed in 32 bits.\<close>

definition extent_start :: "iso9660_dentry \<Rightarrow> u64" where
  "extent_start d = ucast (id_data_lba d * 2048)"

subsection \<open>Directories\<close>

definition byte_char :: "u8 \<Rightarrow> char" where
  "byte_char b = char_of (unat b)"

definition clean_name :: "char list \<Rightarrow> char list" where
  "clean_name buffer = map (\<lambda>c. if c = CHR '';'' then NUL else c) buffer"

text \<open>The entries of the System Use Sharing Protocol behind the name; the loop goes on to wherever the length byte says.\<close>

partial_function (option) susp_loop :: "u8 list \<Rightarrow> char list \<Rightarrow> int \<Rightarrow> int \<Rightarrow> char list res option" where
  "susp_loop buffer name_buffer lpos max_len =
     (if lpos < max_len then
        let p = nat lpos in
        if buffer ! p < 65 \<or> buffer ! p > 90 then Some (Inr name_buffer)
        else
          let step = uint (buffer ! (p + 2)) in
          if buffer ! p = 67 \<and> buffer ! (p + 1) = 69 then Some (Inl KPanic)
          else if buffer ! p = 78 \<and> buffer ! (p + 1) = 77 then
            (case strncpy name_buffer 0 (map byte_char (drop (p + 5) buffer)) (word_of_int (min (step - 5 + 1) 255)) of
               Inl e \<Rightarrow> Some (Inl e)
             | Inr name_buffer \<Rightarrow> susp_loop buffer name_buffer (lpos + step) max_len)
          else susp_loop buffer name_buffer (lpos + step) max_len
      else Some (Inr name_buffer))"

definition first_name :: "u8 list \<Rightarrow> char list \<Rightarrow> char list res" where
  "first_name buffer stack =
     (let n = unat (id_name_len (dentry_of buffer)) in
      res_bind (memcpy (stack[255 := NUL]) 0 (map byte_char buffer) 33 (min 255 n)) (\<lambda>name_buffer.
      res_bind (cell_set name_buffer n NUL) (\<lambda>name_buffer. Inr (clean_name name_buffer))))"

definition susp_start :: "u8 list \<Rightarrow> int" where
  "susp_start buffer = (let lpos = 33 + uint (id_name_len (dentry_of buffer)) in lpos + lpos mod 2)"

text \<open>\<open>readDir\<close> of a directory; \<open>stack\<close> is what is in the name buffer before.\<close>

partial_function (option) iso_readDir ::
    "(u64 \<Rightarrow> nat \<Rightarrow> u8 list) \<Rightarrow> char list \<Rightarrow> iso_inode \<Rightarrow> u64 \<Rightarrow> (dir_entry optional \<times> u64) res option" where
  "iso_readDir rd stack i pos =
     (let size = word_of_int (i_size (ii_base i)) :: u64 in
      if pos < size then
        let buffer = rd (extent_start (ii_dentry i) + pos) 256; d = dentry_of buffer in
        if id_len d = 0 then
          let pos = size_floor (pos + 2048) 2048 in
          if pos \<ge> size then Some (Inr (Inl ENONE, pos)) else iso_readDir rd stack i pos
        else
          let pos = pos + ucast (id_len d) in
          if id_name_len d = 1 \<and> (buffer ! 33 = 0 \<or> buffer ! 33 = 1) then iso_readDir rd stack i pos
          else
            (case first_name buffer stack of
               Inl e \<Rightarrow> Some (Inl e)
             | Inr name_buffer \<Rightarrow>
                 (case susp_loop buffer name_buffer (susp_start buffer) (255 - susp_start buffer) of
                    None \<Rightarrow> None
                  | Some (Inl e) \<Rightarrow> Some (Inl e)
                  | Some (Inr name_buffer) \<Rightarrow>
                      Some (Inr (Inr ((new_dir_entry (c_string name_buffer) (sint (ucast (pos - ucast (id_len d)) :: u32))
                          (sint (id_data_lba d)))\<lparr>de_type := (if dentry_isDirectory d then FT_DIRECTORY else FT_REGULAR)\<rparr>), pos))))
      else Some (Inr (Inl ENONE, pos)))"

definition iso_seekDir :: "iso_inode \<Rightarrow> u64 \<Rightarrow> u64 \<Rightarrow> error_t \<times> u64" where
  "iso_seekDir i pos new = (if pos \<ge> word_of_int (i_size (ii_base i)) then (ERANGE, pos) else (ENONE, new))"

subsection \<open>Inodes and files\<close>

definition iso_getINode :: "(u64 \<Rightarrow> nat \<Rightarrow> u8 list) \<Rightarrow> iso9660_dentry \<Rightarrow> iso_inode option \<Rightarrow> dir_entry \<Rightarrow> u64 \<Rightarrow> iso_inode optional" where
  "iso_getINode rd root dir dentry k =
     (if k = ucast (id_data_lba root) then Inr (directory_inode root)
      else
        let d = dentry_of (rd (extent_start (ii_dentry (the dir)) + word_of_int (de_pos dentry)) 33) in
        Inr (if is_directory (de_type dentry) then directory_inode d else file_inode d))"

text \<open>A call of \<open>readDir\<close> that stops the kernel does not return either. A file has the \<open>readDir\<close> of the base class.\<close>

definition iso_control_block :: "(u64 \<Rightarrow> nat \<Rightarrow> u8 list) \<Rightarrow> char list \<Rightarrow> iso9660_dentry \<Rightarrow> iso_inode control_block" where
  "iso_control_block rd stack root =
     \<lparr>root_inode_id = ucast (id_data_lba root), cb_block_size = 2048, getINode = iso_getINode rd root,
      readDir = (\<lambda>i pos. if ii_directory i then (case iso_readDir rd stack i pos of Some (Inr r) \<Rightarrow> Some r | _ \<Rightarrow> None)
                         else Some (Inl ENOSYS, pos)),
      set_id = (\<lambda>k i. i\<lparr>ii_base := (ii_base i)\<lparr>i_id := k\<rparr>\<rparr>)\<rparr>"

definition iso_readBlocks :: "(u64 \<Rightarrow> nat \<Rightarrow> u8 list) \<Rightarrow> iso_inode \<Rightarrow> u64 \<Rightarrow> u16 \<Rightarrow> u8 list" where
  "iso_readBlocks rd i block count =
     rd (ucast (id_data_lba (ii_dentry i) * 2048) + block * 2048) (unat (ucast count * 2048 :: u32))"

subsection \<open>Mounting\<close>

text \<open>The volume descriptors, from the 16th block on; \<open>i\<close> counts them, and the terminator leaves the loop.\<close>

function descriptor_loop :: "(u64 \<Rightarrow> nat \<Rightarrow> u8 list) \<Rightarrow> nat \<Rightarrow> iso9660_dentry \<Rightarrow> iso9660_dentry optional" where
  "descriptor_loop rd i root =
     (if i \<ge> 64 then Inl EINVAL
      else
        let buffer = rd (2048 * 16 + 2048 * of_nat i) 2048 in
        if take 5 (drop 1 buffer) \<noteq> [67, 68, 48, 48, 49] then Inl EINVAL
        else if buffer ! 0 = 255 then Inr root
        else descriptor_loop rd (i + 1) (if buffer ! 0 = 1 then dentry_of (drop 156 buffer) else root))"
  by pat_completeness auto
termination by (relation "measure (\<lambda>(rd, i, root). 64 - i)") auto

declare descriptor_loop.simps [simp del]

text \<open>\<open>mount\<close>: \<open>info\<close> is the result of \<open>File::info\<close> on the source, \<open>handle\<close> of \<open>open_block_handle\<close> on its device; \<open>junk\<close> is
  the root entry while no descriptor has given one.\<close>

definition iso_mount ::
    "file_info optional \<Rightarrow> (int \<Rightarrow> (u64 \<Rightarrow> nat \<Rightarrow> u8 list) optional) \<Rightarrow> char list \<Rightarrow> iso9660_dentry \<Rightarrow> string option
      \<Rightarrow> iso_inode control_block optional" where
  "iso_mount info handle stack junk source =
     (if source = None then Inl EINVAL
      else case info of Inl e \<Rightarrow> Inl e
           | Inr fi \<Rightarrow>
               if \<not> is_block (f_type fi) then Inl ENOTBLK
               else case handle (f_dev fi) of Inl e \<Rightarrow> Inl ENOENT
                    | Inr rd \<Rightarrow>
                        case descriptor_loop rd 0 junk of Inl e \<Rightarrow> Inl e | Inr root \<Rightarrow> Inr (iso_control_block rd stack root))"


subsection \<open>Directories on the disk\<close>

text \<open>An entry: the name as it is stored, with its version, the extent, and whether it is a directory.\<close>

record iso_rec =
  ir_raw :: string
  ir_lba :: u32
  ir_len :: u32
  ir_dir :: bool

definition ir_name :: "iso_rec \<Rightarrow> string" where
  "ir_name r = takeWhile (\<lambda>c. c \<noteq> CHR '';'') (ir_raw r)"

definition rec_size :: "nat \<Rightarrow> nat" where
  "rec_size n = 33 + n + (33 + n) mod 2"

text \<open>The bytes at a position are an entry. Behind it is no letter, where the driver would look for more of it.\<close>

definition entry_at :: "(u64 \<Rightarrow> u8) \<Rightarrow> u64 \<Rightarrow> iso_rec \<Rightarrow> bool" where
  "entry_at disk p r \<longleftrightarrow>
     (let b = disk_bytes disk p 256; n = length (ir_raw r) in
      id_len (dentry_of b) = of_nat (rec_size n) \<and> id_data_lba (dentry_of b) = ir_lba r \<and> id_data_len (dentry_of b) = ir_len r
      \<and> id_name_len (dentry_of b) = of_nat n \<and> dentry_isDirectory (dentry_of b) = ir_dir r
      \<and> map byte_char (take n (drop 33 b)) = ir_raw r
      \<and> 1 \<le> n \<and> n \<le> 100 \<and> NUL \<notin> set (ir_raw r) \<and> ir_raw r \<noteq> [CHR 0x01]
      \<and> \<not> (65 \<le> b ! rec_size n \<and> b ! rec_size n \<le> 90))"

definition dots_at :: "(u64 \<Rightarrow> u8) \<Rightarrow> u64 \<Rightarrow> nat \<Rightarrow> bool" where
  "dots_at disk p n \<longleftrightarrow>
     (let b = disk_bytes disk p 256 in
      0 < n \<and> n < 256 \<and> b ! 0 = of_nat n \<and> b ! 32 = 1 \<and> (b ! 33 = 0 \<or> b ! 33 = 1))"

text \<open>A directory from a position on: entries with their positions, the two that stand for the directory itself and its
  parent, and unused rests of blocks.\<close>

inductive iso_dir :: "(u64 \<Rightarrow> u8) \<Rightarrow> u64 \<Rightarrow> nat \<Rightarrow> nat \<Rightarrow> (nat \<times> iso_rec) list \<Rightarrow> bool" for disk base extent where
  dir_end: "extent \<le> pos \<Longrightarrow> iso_dir disk base extent pos []"
| dir_gap: "pos < extent \<Longrightarrow> disk (base + of_nat pos) = 0 \<Longrightarrow> iso_dir disk base extent ((pos div 2048 + 1) * 2048) rs
    \<Longrightarrow> iso_dir disk base extent pos rs"
| dir_dots: "pos < extent \<Longrightarrow> dots_at disk (base + of_nat pos) n \<Longrightarrow> iso_dir disk base extent (pos + n) rs
    \<Longrightarrow> iso_dir disk base extent pos rs"
| dir_entry: "pos < extent \<Longrightarrow> entry_at disk (base + of_nat pos) r \<Longrightarrow> iso_dir disk base extent (pos + rec_size (length (ir_raw r))) rs
    \<Longrightarrow> iso_dir disk base extent pos ((pos, r) # rs)"

definition iso_entry :: "nat \<times> iso_rec \<Rightarrow> dir_entry" where
  "iso_entry = (\<lambda>(pos, r). (new_dir_entry (ir_name r) (int pos) (sint (ir_lba r)))\<lparr>de_type := (if ir_dir r then FT_DIRECTORY else FT_REGULAR)\<rparr>)"

lemma small_u8: "n < 256 \<Longrightarrow> unat (of_nat n :: u8) = n"
  by (simp add: unsigned_of_nat take_bit_nat_eq_self)

lemma rec_size_bounds: "33 + n \<le> rec_size n" "rec_size n \<le> 34 + n" "rec_size n mod 2 = 0"
  by (auto simp: rec_size_def)

lemma entryD:
  assumes e: "entry_at disk p r" and b: "b = disk_bytes disk p 256"
  shows "unat (id_len (dentry_of b)) = rec_size (length (ir_raw r))" "unat (id_name_len (dentry_of b)) = length (ir_raw r)"
    "id_data_lba (dentry_of b) = ir_lba r" "id_data_len (dentry_of b) = ir_len r" "dentry_isDirectory (dentry_of b) = ir_dir r"
    "map byte_char (take (length (ir_raw r)) (drop 33 b)) = ir_raw r" "1 \<le> length (ir_raw r)" "length (ir_raw r) \<le> 100"
    "NUL \<notin> set (ir_raw r)" "ir_raw r \<noteq> [CHR 0x01]"
    "\<not> (65 \<le> b ! rec_size (length (ir_raw r)) \<and> b ! rec_size (length (ir_raw r)) \<le> 90)" "length b = 256"
proof -
  note d = e [unfolded entry_at_def Let_def, folded b]
  have "rec_size (length (ir_raw r)) < 256" using d rec_size_bounds(2) [of "length (ir_raw r)"] by linarith
  then show "unat (id_len (dentry_of b)) = rec_size (length (ir_raw r))" "unat (id_name_len (dentry_of b)) = length (ir_raw r)"
    using d by (simp_all add: small_u8)
  show "length b = 256" using b by simp
qed (use e b in \<open>simp_all add: entry_at_def Let_def\<close>)

lemma first_name_entry:
  assumes e: "entry_at disk p r" and st: "length stack = 256" and b: "b = disk_bytes disk p 256"
  shows "\<exists>name. first_name b stack = Inr name \<and> c_string name = ir_name r"
proof -
  let ?n = "length (ir_raw r)"
  note n = entryD [OF e b]
  have "memcpy (stack[255 := NUL]) 0 (map byte_char b) 33 (min 255 ?n) = Inr (ir_raw r @ drop ?n (stack[255 := NUL]))"
    using n st memcpy_spec [of 33 "min 255 ?n" "map byte_char b" 0 "stack[255 := NUL]"] by (simp add: drop_map take_map)
  then have "first_name b stack = Inr (clean_name ((ir_raw r @ drop ?n (stack[255 := NUL]))[?n := NUL]))"
    using n st by (simp add: first_name_def Let_def)
  moreover have "(ir_raw r @ drop ?n (stack[255 := NUL]))[?n := NUL] = ir_raw r @ (drop ?n (stack[255 := NUL]))[0 := NUL]"
    by (simp add: list_update_append)
  moreover obtain x rest where "drop ?n (stack[255 := NUL]) = x # rest"
    using n(8) st by (cases "drop ?n (stack[255 := NUL])") auto
  moreover have "c_string (clean_name (s @ NUL # rest)) = takeWhile (\<lambda>c. c \<noteq> CHR '';'') s" if "NUL \<notin> set s" for s
    using that by (induction s) (auto simp: c_string_def clean_name_def)
  ultimately show ?thesis using n(9) by (simp add: ir_name_def)
qed

lemma u64_less: "a < 2 ^ 64 \<Longrightarrow> b < 2 ^ 64 \<Longrightarrow> (of_nat a :: u64) < of_nat b \<longleftrightarrow> a < b"
  by (simp add: word_less_nat_alt unsigned_of_nat take_bit_nat_eq_self)

lemma readDir_entry:
  assumes e: "entry_at disk (extent_start (ii_dentry i) + of_nat pos) r" and st: "length stack = 256"
    and sz: "i_size (ii_base i) = int extent" "pos < extent" "extent < 2 ^ 31"
  shows "iso_readDir (disk_bytes disk) stack i (of_nat pos) =
    Some (Inr (Inr (iso_entry (pos, r)), of_nat (pos + rec_size (length (ir_raw r)))))"
proof -
  let ?b = "disk_bytes disk (extent_start (ii_dentry i) + of_nat pos) 256"
  let ?n = "length (ir_raw r)"
  note d = entryD [OF e refl]
  obtain name where name: "first_name ?b stack = Inr name" "c_string name = ir_name r"
    using first_name_entry [OF e st refl] by blast
  have s: "susp_start ?b = int (rec_size ?n)"
    by (simp add: susp_start_def Let_def rec_size_def uint_nat d(2) zmod_int)
  have susp: "susp_loop ?b name (susp_start ?b) (255 - susp_start ?b) = Some (Inr name)"
    using d(11) unfolding s by (subst susp_loop.simps) (auto simp: Let_def not_le)
  have dots: "\<not> (id_name_len (dentry_of ?b) = 1 \<and> (?b ! 33 = 0 \<or> ?b ! 33 = 1))"
  proof
    assume a: "id_name_len (dentry_of ?b) = 1 \<and> (?b ! 33 = 0 \<or> ?b ! 33 = 1)"
    then have "?n = 1" using d(2) by simp
    then have "ir_raw r = [byte_char (?b ! 33)]" using d(6,12) by (simp add: take_Suc_conv_app_nth hd_drop_conv_nth take_Suc)
    moreover have "byte_char 0 = NUL" "byte_char 1 = CHR 0x01" by code_simp+
    ultimately show False using a d(9,10) by auto
  qed
  have "ucast (id_len (dentry_of ?b)) = (of_nat (unat (id_len (dentry_of ?b))) :: u64)" by simp
  then have len: "of_nat pos + ucast (id_len (dentry_of ?b)) = (of_nat (pos + rec_size ?n) :: u64)" unfolding d(1) by simp
  then have prev: "(of_nat (pos + rec_size ?n) :: u64) - ucast (id_len (dentry_of ?b)) = of_nat pos"
    by (metis add_diff_cancel_right')
  have nz: "id_len (dentry_of ?b) \<noteq> 0" using d(1) rec_size_bounds(1) [of ?n] by auto
  have p: "sint (ucast (of_nat pos :: u64) :: u32) = int pos" by (rule sint_pos) (use sz in simp)
  show ?thesis
    by (subst iso_readDir.simps)
       (use sz in \<open>simp add: Let_def u64_less len prev nz dots name susp d(3,5) p iso_entry_def del: of_nat_add\<close>)
qed

lemma readDir_dots:
  assumes d: "dots_at disk (extent_start (ii_dentry i) + of_nat pos) n"
    and sz: "i_size (ii_base i) = int extent" "pos < extent" "extent < 2 ^ 31"
  shows "iso_readDir (disk_bytes disk) stack i (of_nat pos) = iso_readDir (disk_bytes disk) stack i (of_nat (pos + n))"
proof -
  let ?b = "disk_bytes disk (extent_start (ii_dentry i) + of_nat pos) 256"
  have n: "unat (?b ! 0) = n" "0 < n" "?b ! 32 = 1" "?b ! 33 = 0 \<or> ?b ! 33 = 1"
    using d by (auto simp: dots_at_def Let_def small_u8)
  have "ucast (?b ! 0) = (of_nat (unat (?b ! 0)) :: u64)" by simp
  then have len: "?b ! 0 \<noteq> 0" "of_nat pos + ucast (?b ! 0) = (of_nat (pos + n) :: u64)"
    using n(1,2) by auto
  show ?thesis
    by (subst iso_readDir.simps) (use n(4) sz in \<open>simp add: Let_def u64_less dentry_of_def len n(3) del: of_nat_add\<close>)
qed

lemma readDir_end:
  assumes "i_size (ii_base i) = int extent" "extent \<le> pos" "pos < 2 ^ 64"
  shows "iso_readDir rd stack i (of_nat pos) = Some (Inr (Inl ENONE, of_nat pos))"
  by (subst iso_readDir.simps) (use assms in \<open>simp add: Let_def u64_less\<close>)

lemma readDir_gap:
  assumes z: "disk (extent_start (ii_dentry i) + of_nat pos) = 0"
    and sz: "i_size (ii_base i) = int extent" "pos < extent" "extent < 2 ^ 31"
  shows "iso_readDir (disk_bytes disk) stack i (of_nat pos) =
    iso_readDir (disk_bytes disk) stack i (of_nat ((pos div 2048 + 1) * 2048))"
proof -
  let ?b = "disk_bytes disk (extent_start (ii_dentry i) + of_nat pos) 256"
  let ?q = "(pos div 2048 + 1) * 2048"
  have b: "?b ! 0 = 0" using z by (simp add: disk_bytes_def)
  have "pos div 2048 * 2048 \<le> pos" by simp
  then have q: "?q < 2 ^ 32" using sz by simp
  have "of_nat pos + 2048 = (of_nat (pos + 2048) :: u64)" by simp
  moreover have "unat (of_nat (pos + 2048) :: u64) = pos + 2048"
    using sz by (simp add: unsigned_of_nat take_bit_nat_eq_self del: of_nat_add)
  ultimately have "unat ((of_nat pos + 2048 :: u64) div 2048) = pos div 2048 + 1" by (simp add: unat_div del: of_nat_add)
  from arg_cong [OF this, of "of_nat :: nat \<Rightarrow> u64"]
  have "(of_nat pos + 2048 :: u64) div 2048 = of_nat (pos div 2048 + 1)" by simp
  then have fl: "size_floor (of_nat pos + 2048) 2048 = of_nat ?q" by (simp add: size_floor_def)
  show ?thesis
  proof (cases "extent \<le> ?q")
    case True
    then have "iso_readDir (disk_bytes disk) stack i (of_nat ?q) = Some (Inr (Inl ENONE, of_nat ?q))"
      using q sz(1) by (intro readDir_end) simp_all
    moreover have "(of_nat extent :: u64) \<le> of_nat ?q" using u64_less [of ?q extent] True q sz(3) by (simp add: not_less [symmetric] del: of_nat_mult of_nat_add)
    ultimately show ?thesis
      by (subst iso_readDir.simps) (use sz in \<open>simp add: Let_def u64_less dentry_of_def b fl del: of_nat_add of_nat_mult\<close>)
  next
    case False
    then have "\<not> (of_nat extent :: u64) \<le> of_nat ?q" using u64_less [of ?q extent] q sz(3) by (simp add: not_less [symmetric] del: of_nat_mult of_nat_add)
    then show ?thesis
      by (subst iso_readDir.simps) (use sz in \<open>simp add: Let_def u64_less dentry_of_def b fl del: of_nat_add of_nat_mult\<close>)
  qed
qed

lemma readDir_enumerates:
  assumes "iso_dir disk (extent_start (ii_dentry i)) extent pos rs" "i_size (ii_base i) = int extent" "extent < 2 ^ 31"
    "ii_directory i" "length stack = 256" "pos < 2 ^ 32"
  shows "enumerates (readDir (iso_control_block (disk_bytes disk) stack root)) i (of_nat pos) (map iso_entry rs) ENONE"
  using assms(1,6)
proof (induction rule: iso_dir.induct)
  case (dir_end pos)
  then show ?case using readDir_end [OF assms(2), of pos] assms(4) by (simp add: iso_control_block_def)
next
  case (dir_gap pos rs)
  have "pos div 2048 * 2048 \<le> pos" by simp
  then have "(pos div 2048 + 1) * 2048 < 2 ^ 32" using dir_gap.hyps(1) assms(3) by simp
  from dir_gap.IH [OF this] show ?case
    unfolding iso_control_block_def
    by (cases rs) (simp_all add: assms(4) readDir_gap [where disk = disk, OF dir_gap.hyps(2) assms(2) dir_gap.hyps(1) assms(3)] del: of_nat_mult of_nat_add)
next
  case (dir_dots pos n rs)
  have "pos + n < 2 ^ 32" using dir_dots.hyps(1,2) assms(3) by (simp add: dots_at_def Let_def)
  from dir_dots.IH [OF this] show ?case
    unfolding iso_control_block_def
    by (cases rs) (simp_all add: assms(4) readDir_dots [OF dir_dots.hyps(2) assms(2) dir_dots.hyps(1) assms(3)] del: of_nat_add)
next
  case (dir_entry pos r rs)
  have "rec_size (length (ir_raw r)) \<le> 134"
    using entryD(8) [OF dir_entry.hyps(2) refl] rec_size_bounds(2) [of "length (ir_raw r)"] by simp
  then have "pos + rec_size (length (ir_raw r)) < 2 ^ 32" using dir_entry.hyps(1) assms(3) by simp
  from dir_entry.IH [OF this] show ?case
    using readDir_entry [OF dir_entry.hyps(2) assms(5,2) dir_entry.hyps(1) assms(3)]
    by (simp add: iso_control_block_def assms(4) del: of_nat_add)
qed

lemma iso_dir_entries: "iso_dir disk base extent pos rs \<Longrightarrow> (p, r) \<in> set rs \<Longrightarrow> p < extent \<and> entry_at disk (base + of_nat p) r"
  by (induction rule: iso_dir.induct) auto

subsection \<open>Volumes\<close>

text \<open>A volume: the entries of each directory by its extent. Every directory an entry names is there, and no entry has the
  extent of the root.\<close>

type_synonym volume = "u32 \<Rightarrow> u32 \<Rightarrow> (nat \<times> iso_rec) list option"

definition iso_volume :: "(u64 \<Rightarrow> u8) \<Rightarrow> iso9660_dentry \<Rightarrow> volume \<Rightarrow> bool" where
  "iso_volume disk root vol \<longleftrightarrow>
     vol (id_data_lba root) (id_data_len root) \<noteq> None
     \<and> (\<forall>lba len rs. vol lba len = Some rs \<longrightarrow>
          len < 2 ^ 31 \<and> iso_dir disk (ucast (lba * 2048)) (unat len) 0 rs
          \<and> (\<forall>(p, r) \<in> set rs. ir_lba r \<noteq> id_data_lba root \<and> (ir_dir r \<longrightarrow> vol (ir_lba r) (ir_len r) \<noteq> None)))"

text \<open>The walk through a volume.\<close>

fun iso_find :: "volume \<Rightarrow> iso_rec \<Rightarrow> string list \<Rightarrow> iso_rec optional" where
  "iso_find vol r [] = Inr r"
| "iso_find vol r (p # ps) =
     (case find (\<lambda>(_, q). ir_name q = p) (the (vol (ir_lba r) (ir_len r))) of
        None \<Rightarrow> Inl ENOENT
      | Some (_, q) \<Rightarrow> if ps \<noteq> [] \<and> \<not> ir_dir q then Inl ENOENT else iso_find vol q ps)"

definition root_rec :: "iso9660_dentry \<Rightarrow> iso_rec" where
  "root_rec root = \<lparr>ir_raw = [], ir_lba = id_data_lba root, ir_len = id_data_len root, ir_dir = True\<rparr>"

text \<open>The inode of an entry.\<close>

definition inode_of :: "iso_rec \<Rightarrow> iso_inode \<Rightarrow> bool" where
  "inode_of r i \<longleftrightarrow>
     id_data_lba (ii_dentry i) = ir_lba r \<and> id_data_len (ii_dentry i) = ir_len r \<and> ii_directory i = ir_dir r
     \<and> i_size (ii_base i) = uint (ir_len r) \<and> i_type (ii_base i) = (if ir_dir r then FT_DIRECTORY else FT_REGULAR)"

lemma ir_name_short: "entry_at disk p r \<Longrightarrow> length (ir_name r) \<le> 255"
  using entryD(8) [OF _ refl, of disk p r] length_takeWhile_le [of "\<lambda>c. c \<noteq> CHR '';''" "ir_raw r"] by (simp add: ir_name_def)

lemma iso_entry_fields:
  "de_name (iso_entry (p, r)) = take 255 (ir_name r)" "de_pos (iso_entry (p, r)) = int p"
  "de_inode_id (iso_entry (p, r)) = scast (ir_lba r)" "is_directory (de_type (iso_entry (p, r))) = ir_dir r"
  by (simp_all add: iso_entry_def new_dir_entry_def is_directory_def FT_DIRECTORY_def FT_REGULAR_def)

lemma dentry_of_short: "dentry_of (disk_bytes disk p 33) = dentry_of (disk_bytes disk p 256)"
  by (simp add: dentry_of_def uint32_le_def disk_bytes_def)

lemma getINode_entry:
  assumes e: "entry_at disk (extent_start (ii_dentry i) + of_nat p) r" and ne: "ir_lba r \<noteq> id_data_lba root"
  obtains j where "iso_getINode (disk_bytes disk) root (Some i) (iso_entry (p, r)) (de_inode_id (iso_entry (p, r))) = Inr j"
    "inode_of r (j\<lparr>ii_base := (ii_base j)\<lparr>i_id := k\<rparr>\<rparr>)"
proof -
  have "(ucast (scast (ir_lba r) :: u64) :: u32) = ir_lba r"
    by (rule bit_word_eqI) (simp add: bit_ucast_iff bit_signed_iff)
  moreover have "(ucast (ucast (id_data_lba root) :: u64) :: u32) = id_data_lba root"
    by (rule bit_word_eqI) (simp add: bit_ucast_iff)
  ultimately have k: "(scast (ir_lba r) :: u64) \<noteq> ucast (id_data_lba root)" using ne by metis
  let ?d = "dentry_of (disk_bytes disk (extent_start (ii_dentry i) + of_nat p) 256)"
  note d = entryD [OF e refl]
  show ?thesis
    by (rule that [of "if ir_dir r then directory_inode ?d else file_inode ?d"])
       (simp_all add: iso_getINode_def k iso_entry_fields dentry_of_short Let_def inode_of_def d(3,4) directory_inode_def file_inode_def)
qed

text \<open>The entries the driver lists for a directory of the volume.\<close>

definition iso_listing :: "volume \<Rightarrow> iso_inode \<Rightarrow> dir_entry list \<times> error_t" where
  "iso_listing vol i = (map iso_entry (the (vol (id_data_lba (ii_dentry i)) (id_data_len (ii_dentry i)))), ENONE)"

definition iso_known :: "volume \<Rightarrow> iso_inode \<Rightarrow> bool" where
  "iso_known vol i \<longleftrightarrow> (\<exists>r. inode_of r i \<and> ir_dir r \<and> vol (ir_lba r) (ir_len r) \<noteq> None)"

lemma volumeD:
  assumes "iso_volume disk root vol" "vol lba len = Some rs"
  shows "len < 2 ^ 31" "iso_dir disk (ucast (lba * 2048)) (unat len) 0 rs"
    "(p, r) \<in> set rs \<Longrightarrow> ir_lba r \<noteq> id_data_lba root"
    "(p, r) \<in> set rs \<Longrightarrow> ir_dir r \<Longrightarrow> vol (ir_lba r) (ir_len r) \<noteq> None"
    "(p, r) \<in> set rs \<Longrightarrow> entry_at disk (ucast (lba * 2048) + of_nat p) r"
  using assms iso_dir_entries by (fastforce simp: iso_volume_def)+

lemma getINode_root:
  "iso_getINode rd root None no_entry (ucast (id_data_lba root)) = Inr (directory_inode root)"
  "inode_of (root_rec root) ((directory_inode root)\<lparr>ii_base := (ii_base (directory_inode root))\<lparr>i_id := k\<rparr>\<rparr>)"
  by (simp_all add: iso_getINode_def inode_of_def root_rec_def directory_inode_def)

lemma getINode_listed:
  assumes "iso_volume disk root vol" "vol (id_data_lba (ii_dentry i)) (id_data_len (ii_dentry i)) = Some rs" "(p, r) \<in> set rs"
  obtains j where "iso_getINode (disk_bytes disk) root (Some i) (iso_entry (p, r)) (de_inode_id (iso_entry (p, r))) = Inr j"
    "inode_of r (j\<lparr>ii_base := (ii_base j)\<lparr>i_id := k\<rparr>\<rparr>)"
  using getINode_entry [of disk i p r root k] volumeD(3,5) [OF assms] by (auto simp: extent_start_def)

lemma iso_walkable:
  assumes vol: "iso_volume disk root vol" and st: "length stack = 256"
  shows "walkable (iso_control_block (disk_bytes disk) stack root) (iso_known vol) (iso_listing vol)"
  unfolding walkable_def
proof (intro conjI allI impI; (elim conjE)?)
  fix i assume "iso_known vol i"
  then obtain rs where i: "vol (id_data_lba (ii_dentry i)) (id_data_len (ii_dentry i)) = Some rs" "ii_directory i"
    "i_size (ii_base i) = int (unat (id_data_len (ii_dentry i)))"
    by (auto simp: iso_known_def inode_of_def)
  note v = volumeD [OF vol i(1)]
  have "unat (id_data_len (ii_dentry i)) < 2 ^ 31" using v(1) by (simp add: word_less_nat_alt)
  from readDir_enumerates [OF _ i(3) this i(2) st, of disk 0 rs root] v(2) i(1)
  show "enumerates (readDir (iso_control_block (disk_bytes disk) stack root)) i 0 (fst (iso_listing vol i)) (snd (iso_listing vol i))"
    by (simp add: iso_listing_def extent_start_def)
next
  let ?cb = "iso_control_block (disk_bytes disk) stack root"
  fix r assume r: "getINode ?cb None no_entry (root_inode_id ?cb) = Inr r"
  have "vol (id_data_lba root) (id_data_len root) \<noteq> None" using vol by (simp add: iso_volume_def)
  then show "iso_known vol (set_id ?cb (root_inode_id ?cb) r)"
    using r getINode_root(1) [of "disk_bytes disk" root] getINode_root(2) [of root] unfolding iso_known_def
    by (intro exI [of _ "root_rec root"]) (auto simp: iso_control_block_def root_rec_def)
next
  let ?cb = "iso_control_block (disk_bytes disk) stack root"
  fix i d j
  assume i: "iso_known vol i" and d: "d \<in> set (fst (iso_listing vol i))" "is_directory (de_type d)"
    and j: "getINode ?cb (Some i) d (de_inode_id d) = Inr j"
  from i obtain rs where rs: "vol (id_data_lba (ii_dentry i)) (id_data_len (ii_dentry i)) = Some rs"
    by (auto simp: iso_known_def inode_of_def)
  from d(1) rs obtain p r where pr: "(p, r) \<in> set rs" "d = iso_entry (p, r)" by (auto simp: iso_listing_def)
  obtain j' where "iso_getINode (disk_bytes disk) root (Some i) (iso_entry (p, r)) (de_inode_id (iso_entry (p, r))) = Inr j'"
    "inode_of r (j'\<lparr>ii_base := (ii_base j')\<lparr>i_id := de_inode_id d\<rparr>\<rparr>)"
    using getINode_listed [OF vol rs pr(1)] by blast
  then show "iso_known vol (set_id ?cb (de_inode_id d) j)"
    using j d(2) volumeD(4) [OF vol rs pr(1)] unfolding iso_known_def pr(2)
    by (intro exI [of _ r]) (auto simp: iso_control_block_def iso_entry_fields)
qed

lemma find_iso_entry:
  assumes "\<And>p r. (p, r) \<in> set rs \<Longrightarrow> length (ir_name r) \<le> 255"
  shows "find (\<lambda>d. de_name d = s) (map iso_entry rs) = map_option iso_entry (find (\<lambda>(_, q). ir_name q = s) rs)"
  using assms
proof (induction rs)
  case (Cons x rs)
  obtain p r where x: "x = (p, r)" by fastforce
  have "length (ir_name r) \<le> 255" using Cons.prems [of p r] x by simp
  moreover have "find (\<lambda>d. de_name d = s) (map iso_entry rs) = map_option iso_entry (find (\<lambda>(_, q). ir_name q = s) rs)"
    using Cons.prems by (intro Cons.IH) auto
  ultimately show ?case by (simp add: x iso_entry_fields)
qed simp

lemma resolve_iso_find:
  assumes vol: "iso_volume disk root vol" and "inode_of r i" "ps \<noteq> [] \<longrightarrow> vol (ir_lba r) (ir_len r) \<noteq> None"
  shows "case iso_find vol r ps of
      Inl e \<Rightarrow> resolve (iso_control_block (disk_bytes disk) stack root) (iso_listing vol) i ps = Inl e
    | Inr q \<Rightarrow> \<exists>j. resolve (iso_control_block (disk_bytes disk) stack root) (iso_listing vol) i ps = Inr j \<and> inode_of q j"
  using assms(2,3)
proof (induction ps arbitrary: r i)
  case Nil
  then show ?case by simp
next
  case (Cons s ps)
  let ?cb = "iso_control_block (disk_bytes disk) stack root"
  from Cons.prems obtain rs where rs: "vol (id_data_lba (ii_dentry i)) (id_data_len (ii_dentry i)) = Some rs"
    "vol (ir_lba r) (ir_len r) = Some rs" by (auto simp: inode_of_def)
  have "find (\<lambda>d. de_name d = s) (map iso_entry rs) = map_option iso_entry (find (\<lambda>(_, q). ir_name q = s) rs)"
    using volumeD(5) [OF vol rs(1)] ir_name_short by (intro find_iso_entry) blast
  then have f: "find (\<lambda>d. de_name d = s) (fst (iso_listing vol i)) = map_option iso_entry (find (\<lambda>(_, q). ir_name q = s) rs)"
    "snd (iso_listing vol i) = ENONE"
    by (simp_all add: iso_listing_def rs)
  show ?case
  proof (cases "find (\<lambda>(_, q). ir_name q = s) rs")
    case None
    then show ?thesis by (simp add: rs f)
  next
    case (Some pq)
    obtain p q where pq: "pq = (p, q)" by fastforce
    have mem: "(p, q) \<in> set rs" using Some pq by (auto simp: find_Some_iff in_set_conv_nth)
    obtain j where j: "iso_getINode (disk_bytes disk) root (Some i) (iso_entry (p, q)) (de_inode_id (iso_entry (p, q))) = Inr j"
      "inode_of q (j\<lparr>ii_base := (ii_base j)\<lparr>i_id := de_inode_id (iso_entry (p, q))\<rparr>\<rparr>)"
      using getINode_listed [OF vol rs(1) mem] by blast
    show ?thesis
    proof (cases "ps \<noteq> [] \<and> \<not> ir_dir q")
      case True
      then show ?thesis by (simp add: rs f Some pq iso_entry_fields)
    next
      case False
      then have "ps \<noteq> [] \<longrightarrow> vol (ir_lba q) (ir_len q) \<noteq> None" using volumeD(4) [OF vol rs(1) mem] by auto
      note ih = Cons.IH [OF j(2) this]
      have "set_id ?cb = (\<lambda>k i. i\<lparr>ii_base := (ii_base i)\<lparr>i_id := k\<rparr>\<rparr>)" "getINode ?cb = iso_getINode (disk_bytes disk) root"
        by (simp_all add: iso_control_block_def)
      then have "resolve ?cb (iso_listing vol) i (s # ps) =
          resolve ?cb (iso_listing vol) (j\<lparr>ii_base := (ii_base j)\<lparr>i_id := de_inode_id (iso_entry (p, q))\<rparr>\<rparr>) ps"
        using False j(1) by (auto simp: f Some pq iso_entry_fields)
      moreover have "iso_find vol r (s # ps) = iso_find vol q ps" using False by (auto simp: rs Some pq)
      ultimately show ?thesis using ih by (simp only:)
    qed
  qed
qed

lemma disk_bytes_shift: "disk_bytes (\<lambda>a. disk (b + a)) p n = disk_bytes disk (b + p) n"
  by (simp add: disk_bytes_def add.assoc)

lemma iso_blocks:
  assumes "inode_of r i"
  shows "inode_delivers (\<lambda>a. disk (ucast (ir_lba r * 2048) + a)) 2048 (iso_readBlocks (disk_bytes disk) i)"
proof -
  have "unat (ucast c * 2048 :: u32) = unat c * 2048" for c :: u16
    using unat_less_2p [of c] by (simp add: unat_word_ariths unat_ucast_mod)
  then show ?thesis
    using assms by (simp add: inode_delivers_def iso_readBlocks_def inode_of_def disk_bytes_shift)
qed

text \<open>Mounting takes the root directory of the last primary descriptor before the terminator.\<close>

lemma descriptor_loop_root:
  assumes "n < 64" "\<forall>k \<le> n. take 5 (drop 1 (rd (2048 * 16 + 2048 * of_nat k) 2048)) = [67, 68, 48, 48, 49]"
    "\<forall>k < n. rd (2048 * 16 + 2048 * of_nat k) 2048 ! 0 \<noteq> 255" "rd (2048 * 16 + 2048 * of_nat n) 2048 ! 0 = 255" "i \<le> n"
  shows "descriptor_loop rd i root =
    Inr (last (root # map (\<lambda>k. dentry_of (drop 156 (rd (2048 * 16 + 2048 * of_nat k) 2048)))
          (filter (\<lambda>k. rd (2048 * 16 + 2048 * of_nat k) 2048 ! 0 = 1) [i..<n])))"
  using assms(5)
proof (induction "n - i" arbitrary: i root)
  case 0
  then show ?case using assms by (subst descriptor_loop.simps) (simp add: Let_def)
next
  case (Suc m)
  let ?b = "rd (2048 * 16 + 2048 * of_nat i) 2048"
  have i: "i < n" "m = n - (i + 1)" "i + 1 \<le> n" using Suc.hyps(2) by simp_all
  have "descriptor_loop rd i root = descriptor_loop rd (i + 1) (if ?b ! 0 = 1 then dentry_of (drop 156 ?b) else root)"
    using assms(1-3) i(1) by (subst descriptor_loop.simps) (simp add: Let_def)
  moreover note Suc.hyps(1) [OF i(2,3), of "if ?b ! 0 = 1 then dentry_of (drop 156 ?b) else root"]
  ultimately show ?case using i(1) by (simp add: upt_conv_Cons)
qed

text \<open>A field of the sharing protocol whose length is zero keeps the loop where it is.\<close>

lemma susp_zero_hangs:
  assumes "lpos < max_len" "65 \<le> buffer ! nat lpos" "buffer ! nat lpos \<le> 90" "buffer ! (nat lpos + 2) = 0"
    "\<not> (buffer ! nat lpos = 67 \<and> buffer ! (nat lpos + 1) = 69)" "\<not> (buffer ! nat lpos = 78 \<and> buffer ! (nat lpos + 1) = 77)"
  shows "susp_loop buffer name lpos max_len = None"
proof (rule ccontr)
  assume "susp_loop buffer name lpos max_len \<noteq> None"
  then obtain y where "susp_loop buffer name lpos max_len = Some y" by auto
  moreover have "susp_loop b s l n = Some y \<Longrightarrow> \<not> (l < n \<and> 65 \<le> b ! nat l \<and> b ! nat l \<le> 90 \<and> b ! (nat l + 2) = 0
      \<and> \<not> (b ! nat l = 67 \<and> b ! (nat l + 1) = 69) \<and> \<not> (b ! nat l = 78 \<and> b ! (nat l + 1) = 77))" for b s l n y
    apply (erule susp_loop.raw_induct [rotated])
    subgoal premises ind for f b s l n y
    proof
      assume a: "l < n \<and> 65 \<le> b ! nat l \<and> b ! nat l \<le> 90 \<and> b ! (nat l + 2) = 0
        \<and> \<not> (b ! nat l = 67 \<and> b ! (nat l + 1) = 69) \<and> \<not> (b ! nat l = 78 \<and> b ! (nat l + 1) = 77)"
      then have "\<not> (b ! nat l < 65 \<or> 90 < b ! nat l)" by (simp add: not_less)
      then have "f b s (l + uint (b ! (nat l + 2))) n = Some y" using ind(2) a by (simp only: Let_def if_True if_False)
      then have "f b s l n = Some y" using a by simp
      from ind(1) [OF this] a show False by blast
    qed
    done
  ultimately show False using assms by blast
qed


text \<open>A disc whose root directory, at block 20, has one file of five bytes at block 21.\<close>

definition sample_entry :: "u8 \<Rightarrow> u8 \<Rightarrow> u8 \<Rightarrow> u8 \<Rightarrow> u8 list \<Rightarrow> u8 list" where
  "sample_entry len lba n flags raw =
     [len, 0, lba, 0, 0, 0, 0, 0, 0, lba, n, 0, 0, 0, 0, 0, 0, n] @ replicate 7 0 @ [flags, 0, 0, 1, 0, 0, 1, of_nat (length raw)] @ raw"

definition sample_bytes :: "u8 list" where
  "sample_bytes = sample_entry 34 20 108 2 [0] @ sample_entry 34 20 108 2 [1] @ sample_entry 40 21 5 0 [65, 46, 84, 88, 84, 59, 49]"

definition sample_disc :: "u64 \<Rightarrow> u8" where
  "sample_disc p = (if 40960 \<le> p \<and> p < 41068 then sample_bytes ! unat (p - 40960) else 0)"

definition sample_root :: iso9660_dentry where
  "sample_root = \<lparr>id_len = 34, id_data_lba = 20, id_data_len = 108, id_flags = 2, id_name_len = 1\<rparr>"

definition sample_file :: iso_rec where
  "sample_file = \<lparr>ir_raw = ''A.TXT;1'', ir_lba = 21, ir_len = 5, ir_dir = False\<rparr>"

definition sample_volume :: volume where
  "sample_volume lba len = (if lba = 20 \<and> len = 108 then Some [(68, sample_file)] else None)"

lemma sample_ok: "iso_volume sample_disc sample_root sample_volume"
proof -
  have "entry_at sample_disc (40960 + of_nat 68) sample_file" by code_simp
  moreover have "dots_at sample_disc (40960 + of_nat 0) 34" "dots_at sample_disc (40960 + of_nat 34) 34" by code_simp+
  moreover have "rec_size (length (ir_raw sample_file)) = 40" by code_simp
  ultimately have "iso_dir sample_disc 40960 108 68 [(68, sample_file)]"
    "dots_at sample_disc (40960 + of_nat 0) 34" "dots_at sample_disc (40960 + of_nat 34) 34"
    by (auto intro!: dir_entry dir_end)
  then have "iso_dir sample_disc 40960 108 0 [(68, sample_file)]"
    using dir_dots [of 34 108 sample_disc 40960 34] dir_dots [of 0 108 sample_disc 40960 34] by simp
  then show ?thesis
    by (auto simp: iso_volume_def sample_root_def sample_volume_def sample_file_def)
qed


end
