(* ===== verification/Mmap.thy ===== *)
theory Mmap
  imports LazyVector Errno
begin

unbundle bit_operations_syntax

text \<open>
  The memory regions of a process (\<open>mem/mmap.cpp\<close>): the table of regions with \<open>mmap\<close>, \<open>munmap\<close> and the lookup a page
  fault makes, and the choice of a slot in the cache of a region that shows a file. The address the page map gives out
  (\<open>PageMap\<close>) and the methods of a file are arguments.
\<close>

definition MAP_FIXED :: u32 where "MAP_FIXED = 0x04"
definition MAP_ANONYMOUS :: u32 where "MAP_ANONYMOUS = 0x10"

record 'f mmap_region =
  mr_start :: u64
  mr_len :: u64
  mr_file :: "('f \<times> int) option"

definition anonymous_region :: "u64 \<Rightarrow> u64 \<Rightarrow> 'f mmap_region" where
  "anonymous_region addr len = \<lparr>mr_start = addr, mr_len = len, mr_file = None\<rparr>"

definition file_region :: "u64 \<Rightarrow> u64 \<Rightarrow> 'f \<Rightarrow> int \<Rightarrow> 'f mmap_region" where
  "file_region addr len f offset = \<lparr>mr_start = addr, mr_len = len, mr_file = Some (f, offset)\<rparr>"

text \<open>The address is not left of the region and not right of it.\<close>

definition in_region :: "u64 \<Rightarrow> 'f mmap_region \<Rightarrow> bool" where
  "in_region addr r \<longleftrightarrow> \<not> (addr < mr_start r \<or> addr \<ge> mr_start r + mr_len r)"

fun region_search :: "u64 \<Rightarrow> nat \<Rightarrow> nat \<Rightarrow> 'f mmap_region lazyvector \<Rightarrow> (nat \<times> 'f mmap_region) option res" where
  "region_search addr i 0 v = Inr None"
| "region_search addr i (Suc n) v =
     (if \<not> lv_present (int i) v then region_search addr (i + 1) n v
      else res_bind (lv_at (anonymous_region 0 0) (int i) v) (\<lambda>r.
        if \<not> in_region addr r then region_search addr (i + 1) n v else Inr (Some (i, r))))"

definition find_mmap_region :: "u64 \<Rightarrow> 'f mmap_region lazyvector \<Rightarrow> 'f mmap_region option res" where
  "find_mmap_region addr v =
     res_bind (region_search addr 0 (nat (lv_count v)) v) (\<lambda>r. Inr (map_option snd r))"

text \<open>\<open>remove_region\<close>, with the region that is deleted.\<close>

definition remove_region :: "u64 \<Rightarrow> 'f mmap_region lazyvector \<Rightarrow> ('f mmap_region lazyvector \<times> 'f mmap_region option) res" where
  "remove_region addr v =
     res_bind (region_search addr 0 (nat (lv_count v)) v) (\<lambda>r. case r of
         None \<Rightarrow> Inr (v, None)
       | Some (i, r) \<Rightarrow> res_bind (lv_erase (int i) v) (\<lambda>v. Inr (v, Some r)))"

definition munmap :: "u64 \<Rightarrow> 'f mmap_region lazyvector \<Rightarrow> ('f mmap_region lazyvector \<times> error_t) res" where
  "munmap addr v = res_bind (remove_region addr v) (\<lambda>(v, _). Inr (v, ENONE))"

text \<open>\<open>INodeFile::mmap\<close>, with the address the page map returns.\<close>

definition inode_file_mmap :: "u64 \<Rightarrow> u64 \<Rightarrow> int \<Rightarrow> 'f \<Rightarrow> 'f mmap_region optional" where
  "inode_file_mmap addr len offset f = Inr (file_region addr len f offset)"

text \<open>\<open>mmap\<close>: \<open>alloc\<close> is the address the page map returns, \<open>dup\<close> and \<open>fmmap\<close> are the methods of the file.\<close>

definition add_region :: "'f mmap_region \<Rightarrow> 'f mmap_region lazyvector \<Rightarrow> ('f mmap_region lazyvector \<times> u64 optional) res" where
  "add_region r v = res_bind (lv_push r v) (\<lambda>(_, v). Inr (v, Inr (mr_start r)))"

definition mmap ::
    "u64 \<Rightarrow> ('f \<Rightarrow> 'f optional) \<Rightarrow> (u64 \<Rightarrow> int \<Rightarrow> 'f \<Rightarrow> 'f mmap_region optional) \<Rightarrow> u64 \<Rightarrow> u32 \<Rightarrow> 'f option \<Rightarrow> int
      \<Rightarrow> 'f mmap_region lazyvector \<Rightarrow> ('f mmap_region lazyvector \<times> u64 optional) res" where
  "mmap alloc dup fmmap len flags file offset v =
     (if flags AND MAP_FIXED \<noteq> 0 then Inl KPanic
      else if flags AND MAP_ANONYMOUS = 0 \<and> file = None then Inr (v, Inl EBADF)
      else if flags AND MAP_ANONYMOUS \<noteq> 0 then add_region (anonymous_region alloc len) v
      else case dup (the file) of
             Inl e \<Rightarrow> Inr (v, Inl e)
           | Inr g \<Rightarrow> (case fmmap len offset g of Inl e \<Rightarrow> Inr (v, Inl e) | Inr r \<Rightarrow> add_region r v))"

text \<open>\<open>FileBackedMMapRegion::findSlot\<close>, on the pages the slots hold.\<close>

definition CACHE_SLOTS :: nat where "CACHE_SLOTS = 8"

definition slot_after :: "nat \<Rightarrow> nat" where
  "slot_after ptr = (if ptr + 1 \<ge> CACHE_SLOTS then 0 else ptr + 1)"

fun findSlot_loop :: "nat \<Rightarrow> int \<Rightarrow> int \<Rightarrow> int list \<Rightarrow> nat \<Rightarrow> int \<times> nat" where
  "findSlot_loop 0 page prev ids ptr = (-1, ptr)"
| "findSlot_loop (Suc n) page prev ids ptr =
     (let i = ptr; ptr = slot_after ptr in
      if ids ! ptr = page then (-1, ptr)
      else if ids ! ptr = prev then findSlot_loop n page prev ids ptr
      else (int i, ptr))"

definition findSlot :: "int \<Rightarrow> int list \<Rightarrow> nat \<Rightarrow> int \<times> nat" where
  "findSlot page ids ptr = findSlot_loop CACHE_SLOTS page (if page = 0 then 0 else page - 1) ids ptr"

subsection \<open>Lookup\<close>

text \<open>No address is in two regions.\<close>

definition regions_ok :: "'f mmap_region lazyvector \<Rightarrow> bool" where
  "regions_ok v \<longleftrightarrow> lv_inv v
     \<and> (\<forall>i j r s a. lv_lookup v i = Some r \<and> lv_lookup v j = Some s \<and> in_region a r \<and> in_region a s \<longrightarrow> i = j)"

lemma region_search_spec:
  assumes "i + n = length (lv_array v)"
  shows "\<exists>res. region_search addr i n v = Inr res
    \<and> (case res of None \<Rightarrow> \<forall>j r. i \<le> j \<and> lv_lookup v j = Some r \<longrightarrow> \<not> in_region addr r
       | Some (k, r) \<Rightarrow> lv_lookup v k = Some r \<and> in_region addr r)"
  using assms
proof (induction n arbitrary: i)
  case 0
  then show ?case by (auto simp: lv_lookup_def)
next
  case (Suc n)
  from Suc.IH [of "i + 1"] Suc.prems obtain res where ih: "region_search addr (i + 1) n v = Inr res"
    "case res of None \<Rightarrow> \<forall>j r. i + 1 \<le> j \<and> lv_lookup v j = Some r \<longrightarrow> \<not> in_region addr r
       | Some (k, r) \<Rightarrow> lv_lookup v k = Some r \<and> in_region addr r" by auto
  have here: "lv_present (int i) v \<longleftrightarrow> lv_lookup v i \<noteq> None"
    "lv_lookup v i = Some r \<Longrightarrow> lv_at (anonymous_region 0 0) (int i) v = Inr r" for r
    using Suc.prems by (auto simp: lv_present_def lv_lookup_def lv_count_def lv_at_def Let_def)
  have later: "(\<forall>j r. i \<le> j \<and> lv_lookup v j = Some r \<longrightarrow> \<not> in_region addr r)"
    if "\<forall>r. lv_lookup v i = Some r \<longrightarrow> \<not> in_region addr r" "\<forall>j r. i + 1 \<le> j \<and> lv_lookup v j = Some r \<longrightarrow> \<not> in_region addr r"
    using that by (metis le_neq_implies_less Suc_eq_plus1 Suc_leI)
  show ?case
  proof (cases "lv_lookup v i")
    case None
    then show ?thesis using ih here(1) later by (auto split: option.splits)
  next
    case (Some r)
    then show ?thesis using ih here(1) here(2) [OF Some] later by (auto split: option.splits)
  qed
qed

lemma search_region:
  assumes "regions_ok v" "lv_lookup v k = Some r" "in_region addr r"
  shows "region_search addr 0 (nat (lv_count v)) v = Inr (Some (k, r))"
  using region_search_spec [of 0 "nat (lv_count v)" v addr] assms
  by (fastforce simp: regions_ok_def lv_count_def split: option.splits)

lemma find_mmap_region_some:
  "regions_ok v \<Longrightarrow> lv_lookup v k = Some r \<Longrightarrow> in_region addr r \<Longrightarrow> find_mmap_region addr v = Inr (Some r)"
  by (simp add: find_mmap_region_def search_region)

lemma search_none:
  "(\<forall>k r. lv_lookup v k = Some r \<longrightarrow> \<not> in_region addr r) \<Longrightarrow> region_search addr 0 (nat (lv_count v)) v = Inr None"
  using region_search_spec [of 0 "nat (lv_count v)" v addr] by (fastforce simp: lv_count_def split: option.splits)

lemma find_mmap_region_none:
  "(\<forall>k r. lv_lookup v k = Some r \<longrightarrow> \<not> in_region addr r) \<Longrightarrow> find_mmap_region addr v = Inr None"
  by (simp add: find_mmap_region_def search_none)

text \<open>A region that is entered where no other is: the lookup finds it at its addresses, and elsewhere what it found before.\<close>

lemma add_region_find:
  assumes ok: "regions_ok v" and free: "\<forall>a k s. in_region a r \<and> lv_lookup v k = Some s \<longrightarrow> \<not> in_region a s"
  shows "\<exists>v'. add_region r v = Inr (v', Inr (mr_start r)) \<and> regions_ok v'
    \<and> (\<forall>a. find_mmap_region a v' = (if in_region a r then Inr (Some r) else find_mmap_region a v))"
proof -
  from ok have "lv_inv v" by (simp add: regions_ok_def)
  from lv_push_spec [OF this, of r] obtain i v' where
    v: "lv_push r v = Inr (int i, v')" "lv_inv v'" "lv_lookup v i = None" "lv_lookup v' = (lv_lookup v)(i \<mapsto> r)" by blast
  have ok': "regions_ok v'" using ok free v(2) unfolding regions_ok_def v(4) by (auto split: if_splits)
  have "find_mmap_region a v' = (if in_region a r then Inr (Some r) else find_mmap_region a v)" for a
  proof (cases "in_region a r \<or> (\<forall>k s. lv_lookup v k = Some s \<longrightarrow> \<not> in_region a s)")
    case True
    then show ?thesis
      using find_mmap_region_some [OF ok', of i r a] find_mmap_region_none [of v' a] find_mmap_region_none [of v a] v(3,4)
      by (auto split: if_splits)
  next
    case False
    then obtain k s where s: "lv_lookup v k = Some s" "in_region a s" "\<not> in_region a r" by blast
    then have "lv_lookup v' k = Some s" using v(3,4) by auto
    then show ?thesis using s find_mmap_region_some [OF ok'] find_mmap_region_some [OF ok] by simp
  qed
  then show ?thesis using v(1) ok' by (simp add: add_region_def)
qed

text \<open>\<open>munmap\<close> at any address of a region removes that region and no other.\<close>

lemma munmap_find:
  assumes ok: "regions_ok v" and r: "lv_lookup v k = Some r" "in_region addr r"
  shows "\<exists>v'. munmap addr v = Inr (v', ENONE) \<and> regions_ok v'
    \<and> (\<forall>a. find_mmap_region a v' = (if in_region a r then Inr None else find_mmap_region a v))"
proof -
  have inv: "lv_inv v" using ok by (simp add: regions_ok_def)
  have "k < length (lv_array v)" "lv_array v ! k \<noteq> None" using r(1) by (auto simp: lv_lookup_def split: if_splits)
  with lv_erase_effect [of k v] inv obtain v' where v: "lv_erase (int k) v = Inr v'" "lv_inv v'" "lv_lookup v' = (lv_lookup v)(k := None)"
    by (auto simp: lv_inv_def)
  have ok': "regions_ok v'" using ok v(2) unfolding regions_ok_def v(3) by (auto split: if_splits)
  have only: "j = k" if "lv_lookup v j = Some s" "in_region a s" "in_region a r" for j s a
    using ok that r(1) unfolding regions_ok_def by blast
  have "find_mmap_region a v' = (if in_region a r then Inr None else find_mmap_region a v)" for a
  proof (cases "in_region a r \<or> (\<forall>j s. lv_lookup v j = Some s \<longrightarrow> \<not> in_region a s)")
    case True
    then have "\<forall>j s. lv_lookup v' j = Some s \<longrightarrow> \<not> in_region a s" using only v(3) by (auto split: if_splits)
    then show ?thesis using True find_mmap_region_none [of v' a] find_mmap_region_none [of v a] by auto
  next
    case False
    then obtain j s where s: "lv_lookup v j = Some s" "in_region a s" "\<not> in_region a r" by blast
    then have "lv_lookup v' j = Some s" using r(1) v(3) by auto
    then show ?thesis using s find_mmap_region_some [OF ok'] find_mmap_region_some [OF ok] by simp
  qed
  then show ?thesis using ok' v(1) by (simp add: munmap_def remove_region_def search_region [OF ok r])
qed

text \<open>Mapping memory and unmapping it at any of its addresses leaves every lookup as it was.\<close>

lemma mmap_munmap:
  fixes v :: "'f mmap_region lazyvector"
  assumes ok: "regions_ok v" and flags: "flags AND MAP_FIXED = 0" "flags AND MAP_ANONYMOUS \<noteq> 0"
    and free: "\<forall>a k s. in_region a (anonymous_region alloc len :: 'f mmap_region) \<and> lv_lookup v k = Some s \<longrightarrow> \<not> in_region a s"
    and addr: "in_region addr (anonymous_region alloc len :: 'f mmap_region)"
  shows "\<exists>v1 v2. mmap alloc dup fmmap len flags file offset v = Inr (v1, Inr alloc) \<and> munmap addr v1 = Inr (v2, ENONE)
    \<and> find_mmap_region addr v1 = Inr (Some (anonymous_region alloc len)) \<and> (\<forall>a. find_mmap_region a v2 = find_mmap_region a v)"
proof -
  let ?r = "anonymous_region alloc len :: 'f mmap_region"
  from add_region_find [OF ok free] obtain v1 where v1: "add_region ?r v = Inr (v1, Inr (mr_start ?r))" "regions_ok v1"
    "\<And>a. find_mmap_region a v1 = (if in_region a ?r then Inr (Some ?r) else find_mmap_region a v)" by blast
  have "find_mmap_region addr v1 = Inr (Some ?r)" using v1(3) addr by simp
  then obtain k where k: "lv_lookup v1 k = Some ?r"
    using region_search_spec [of 0 "nat (lv_count v1)" v1 addr]
    by (auto simp: find_mmap_region_def lv_count_def split: option.splits)
  from munmap_find [OF v1(2) k addr] obtain v2 where v2: "munmap addr v1 = Inr (v2, ENONE)"
    "\<And>a. find_mmap_region a v2 = (if in_region a ?r then Inr None else find_mmap_region a v1)" by blast
  have "find_mmap_region a v2 = find_mmap_region a v" for a
    using v1(3) v2(2) find_mmap_region_none [of v a] free by auto
  moreover have "mr_start ?r = alloc" by (simp add: anonymous_region_def)
  ultimately show ?thesis using v1(1,3) v2(1) addr flags by (auto simp: mmap_def)
qed

text \<open>The slot that is given out is not the one that was looked at: the page before, which the faulting instruction may
  still need, loses its slot.\<close>

lemma findSlot_evicts_previous:
  assumes "ids ! slot_after ptr \<noteq> page" "ids ! slot_after ptr \<noteq> page - 1" "0 < page" "ids ! ptr = page - 1"
  shows "fst (findSlot page ids ptr) = int ptr"
  using assms by (simp add: findSlot_def CACHE_SLOTS_def eval_nat_numeral Let_def)

text \<open>A page that is in the cache is given no slot, and the read behind the fault does nothing.\<close>

lemma findSlot_cached:
  "ids ! slot_after ptr = page \<Longrightarrow> fst (findSlot page ids ptr) = -1"
  by (simp add: findSlot_def CACHE_SLOTS_def eval_nat_numeral Let_def)

end
