(* ===== verification/Spec2Isabelle.thy ===== *)
theory Spec2Isabelle
  imports CircularBuffer Phys Heap Vector LazyVector Path Errno Checksum Arp Udp TcpStates PageMap LockSafety Block SmartPtr
    Scheduler ProcExit Processes MessageQueue Pipe INodeFile Vfs Snprintf Input DevNames
    Ps2 Terminal FileTable Iso9660 Mmap
begin

text \<open>
  Verification of the AEX kernel, a small multitasking kernel for x86-64 written in C++.

  \<^bold>\<open>The program.\<close> At the bottom the kernel manages memory: physical frames (\<open>mem/phys.cpp\<close>), page tables
  (\<open>arch/x86_64/mem/paging.cpp\<close>) and a heap (\<open>mem/heap.cpp\<close>) on which the containers of
  \<open>include/aex/mem\<close> rest. Threads are scheduled from one ring (\<open>proc/scheduler.cpp\<close>), wait on events
  (\<open>ipc/event.cpp\<close>) and exclude each other by locks (\<open>kernel/spinlock.cpp\<close> and its relatives); a broker
  thread deletes threads and enters signal handlers. Processes form a tree (\<open>proc/process.cpp\<close>). On top of these
  are byte rings, pipes and message queues, block and character devices, a virtual file system, keyboard input, and a
  loadable network stack (\<open>mod/core/netstack\<close>) with ARP, IPv4, UDP and TCP.

  \<^bold>\<open>How the code is rendered.\<close> A class is a record of its fields, an operation a function that takes the
  record and returns it updated. A fault of the machine or the language (an access outside an array, a division
  by zero, a panic) is a value of \<open>fault\<close> on the left of a sum (\<open>res\<close> in \<open>Prelude\<close>); an error
  code of the program is \<open>error_t\<close>, and \<open>optional<T>\<close> a sum with it (\<open>Errno\<close>). Fixed-width integers are
  words wherever they can wrap; an \<open>int\<close> stays an integer where its range is bounded by the data
  it counts. A call that gives up the processor is split there: its first part returns that the thread waits, its
  second part is another definition, so that other threads' calls may come in between. Code outside
  the repository and the hardware (what a disk holds, what a driver's \<open>open\<close> says, the clock) is an
  argument of the definitions that use it.

  \<^bold>\<open>Theories.\<close>
  \<^item> \<open>Prelude\<close>: faults, words, lists. \<open>CMath\<close>: \<open>include/aex/math.hpp\<close>, \<open>include/aex/mem/align.hpp\<close>.
    \<open>CString\<close>, \<open>CText\<close>: \<open>kernel/string.cpp\<close> and conversions of numbers to text and back.
    \<open>ByteMem\<close>: memory by address. \<open>Errno\<close>: error codes.
  \<^item> \<open>Snprintf\<close>: \<open>kernel/snprintf.cpp\<close> against a formatter on strings. \<open>DevNames\<close>: \<open>dev/name.cpp\<close>.
  \<^item> Interfaces: \<open>SlotAllocator\<close> (runs of slots), \<open>SlotTable\<close> (handles, sequences), \<open>ByteQueue\<close>,
    \<open>PageStore\<close>, \<open>Ledger\<close>, and \<open>name_pool\<close> in \<open>Ports\<close>. Each is a locale with the laws a client
    needs and is interpreted on the kernel's definitions.
  \<^item> Memory: \<open>Bitmap\<close>, \<open>FramePiece\<close> (\<open>mem/frame_piece.hpp\<close>), \<open>Phys\<close>, \<open>Heap\<close>,
    \<open>Vector\<close>, \<open>LazyVector\<close>, \<open>SmartPtr\<close> (the files of that name in \<open>include/aex/mem\<close>), \<open>Paging\<close> (the
    page tables as the code walks them), \<open>PageTables\<close> (the tree they form), \<open>PageMap\<close> (the operations of \<open>Pagemap\<close>).
  \<^item> Concurrency: \<open>Event\<close>, \<open>Locks\<close> (the locks as sequences of atomic instructions), \<open>LockSafety\<close> (any
    interleaving of them), \<open>ProcLists\<close> (\<open>proc/proc.cpp\<close>), \<open>ThreadState\<close>, \<open>Scheduler\<close>, \<open>Threads\<close>
    (\<open>proc/thread.cpp\<close>, \<open>proc/broker.cpp\<close>), \<open>ProcExit\<close>, \<open>Signals\<close> (\<open>ipc/thread.cpp\<close>, \<open>ipc/process.cpp\<close>),
    \<open>Processes\<close>.
  \<^item> Communication: \<open>CircularBuffer\<close> (\<open>mem/circularbuffer.cpp\<close>), \<open>Pipe\<close>, \<open>MessageQueue\<close>, \<open>Input\<close>
    (\<open>dev/input.cpp\<close>), \<open>Ps2\<close> (from the scan codes of \<open>arch/x86_64/mod/core/ps2\<close> to the characters of a terminal),
    \<open>Terminal\<close> (\<open>dev/tty/abstractor.cpp\<close>, \<open>arch/x86_64/dev/tty/txtty.cpp\<close>).
  \<^item> Files: \<open>Path\<close> (\<open>fs/path.cpp\<close>), \<open>Block\<close> (\<open>dev/blockhandle.cpp\<close>), \<open>INodeFile\<close> (\<open>fs/inodefile.hpp\<close>), \<open>Vfs\<close>
    (\<open>fs/fs.cpp\<close>, \<open>fs/controlblock.cpp\<close>, \<open>fs/file.cpp\<close>, \<open>fs/driver/devfs\<close>), \<open>Iso9660\<close> (\<open>mod/init/iso9660\<close>), \<open>FileTable\<close> (file descriptors and
    the calls on them, \<open>arch/x86_64/mod/core/syscall/fs.cpp\<close>), \<open>Mmap\<close> (the memory regions of a process, \<open>mem/mmap.cpp\<close>).
  \<^item> Network: \<open>Checksum\<close>, \<open>Packet\<close> (addresses and fields), \<open>Ports\<close>, \<open>Ipv4\<close> (devices and the IPv4
    layer), \<open>Arp\<close>, \<open>Udp\<close>, \<open>TcpSegment\<close>, \<open>TcpSocket\<close>, \<open>TcpInput\<close> (the code), \<open>TcpStream\<close>,
    \<open>TcpStates\<close> (its properties).

  \<^bold>\<open>What is shown.\<close> Allocators hand out what is free, nothing twice, and give back exactly what was
  taken (frames, frames over several pieces, heap blocks, ports, reference counts). Containers and rings refine lists,
  tables and queues under any sequence of calls. Page tables translate every page that was mapped and change no other. Locks
  exclude, events wake whoever waits, the scheduler is fair, threads are deleted exactly once, a process that exits
  ends, a signal handler returns to where it came from, every child is collected once. Reads of files and
  blocks deliver the bytes of the disk at any position and length; a path names what the walk through the directories
  finds, on an ISO disc the entries of the disc; the calls of a program act on a table of files. What is typed arrives as the characters of the key map, and a
  screen shows the end of what was written. Checksums, packets, ARP exchanges, numbers and text survive their round trips; TCP segments cover the stream
  in order, and no segment alters what has been received.

  \<^bold>\<open>Loops, bounds and fuel.\<close> Most loops are structural or have a measure. The retry loop of \<open>malloc\<close> has
  fuel 2, because a slab that was just made for the request satisfies it. The loop that cuts the send buffer into segments
  has fuel 4097: the buffer has 4096 bytes and each segment takes one or more. The walks over thread and process rings
  (\<open>exit_loop\<close>, \<open>run_cleanups\<close>, \<open>try_get_loop\<close>, \<open>find_pid\<close>) carry the length of the ring. Loops that may run forever
  (\<open>findContiguous\<close>, \<open>fork\<close>, the copying loop of a block handle, reading a directory, the fields behind the name of
  an ISO entry) are partial functions whose
  value is \<open>None\<close> if they do not end; the theorems about them show \<open>Some\<close>, or show that they hang.

  \<^bold>\<open>Not modelled.\<close>
  \<^item> Code whose effect is in the hardware: start-up, processor, interrupt and timer code (\<open>arch/x86_64/boot\<close>,
    \<open>arch/x86_64/sys\<close>, \<open>sys\<close>), PCI and ACPI access, the SATA and RTL8139 drivers, the commands to the keyboard controller, the
    graphical terminal.
  \<^item> The loader of modules and programs (\<open>kernel/elf.cpp\<close>, \<open>kernel/module\<close>, \<open>proc/exec.cpp\<close>): it writes code and
    relocations into memory that is then executed.
  \<^item> Tables and glue: the PCI class names (\<open>sys/pci/resolv.cpp\<close>), the device tree, handles that
    only pass calls on, the dispatch of system calls and the calls that only pass their arguments on, logging and debugging.
  \<^item> The page fault on a region that shows a file (\<open>FileBackedMMapRegion::read\<close>): it remaps pages between two page maps.
\<close>

end
